(* ===== verification/Prelude.thy ===== *)
theory Prelude
  imports Main "HOL-Library.Word" "HOL-Library.Finite_Map" "HOL-Library.Multiset"
    "HOL-Library.List_Lexorder"
begin

text \<open>
  Shared vocabulary of the development: Rust's unsigned integers as machine words with their
  checked and saturating operations, fixed-width byte encodings, results as sums, and the
  facts on finite maps and finite sets that the component theories use.
\<close>

section \<open>Rust's unsigned integers\<close>

type_synonym u8 = "8 word"
type_synonym u32 = "32 word"
type_synonym u64 = "64 word"
type_synonym u128 = "128 word"
type_synonym bytes = "u8 list"

text \<open>Facts that read the Rust integer operations as natural-number arithmetic.\<close>

named_theorems rust_arith

definition checked_add :: "'a::len word \<Rightarrow> 'a word \<Rightarrow> 'a word option" where
  "checked_add a b = (if unat a + unat b < 2 ^ LENGTH('a) then Some (a + b) else None)"

definition checked_sub :: "'a::len word \<Rightarrow> 'a word \<Rightarrow> 'a word option" where
  "checked_sub a b = (if b \<le> a then Some (a - b) else None)"

definition saturating_add :: "'a::len word \<Rightarrow> 'a word \<Rightarrow> 'a word" where
  "saturating_add a b = (if unat a + unat b < 2 ^ LENGTH('a) then a + b else - 1)"

definition saturating_sub :: "'a::len word \<Rightarrow> 'a word \<Rightarrow> 'a word" where
  "saturating_sub a b = (if b \<le> a then a - b else 0)"

definition saturating_mul :: "'a::len word \<Rightarrow> 'a word \<Rightarrow> 'a word" where
  "saturating_mul a b = (if unat a * unat b < 2 ^ LENGTH('a) then a * b else - 1)"

lemma unat_add_small [rust_arith]:
  fixes a b :: "'a::len word"
  shows "unat a + unat b < 2 ^ LENGTH('a) \<Longrightarrow> unat (a + b) = unat a + unat b"
  by (simp add: unat_word_ariths)

lemma unat_mult_small [rust_arith]:
  fixes a b :: "'a::len word"
  shows "unat a * unat b < 2 ^ LENGTH('a) \<Longrightarrow> unat (a * b) = unat a * unat b"
  by (simp add: unat_word_ariths)

lemma unat_max_word: "unat (- 1 :: 'a::len word) = 2 ^ LENGTH('a) - 1"
  by (simp add: unat_eq_nat_uint unsigned_minus_1_eq_mask mask_eq_exp_minus_1 nat_diff_distrib nat_power_eq)

lemma checked_add_Some_iff [rust_arith]:
  fixes a b :: "'a::len word"
  shows "checked_add a b = Some c \<longleftrightarrow> unat c = unat a + unat b"
proof
  assume "checked_add a b = Some c"
  then show "unat c = unat a + unat b"
    by (auto simp: checked_add_def unat_add_small split: if_splits)
next
  assume c: "unat c = unat a + unat b"
  then have "unat a + unat b < 2 ^ LENGTH('a)"
    by (metis unsigned_less)
  moreover from this c have "c = a + b"
    by (simp add: unat_add_small word_unat_eq_iff)
  ultimately show "checked_add a b = Some c"
    by (simp add: checked_add_def)
qed

lemma checked_add_None_iff [rust_arith]:
  fixes a b :: "'a::len word"
  shows "checked_add a b = None \<longleftrightarrow> 2 ^ LENGTH('a) \<le> unat a + unat b"
  by (auto simp: checked_add_def)

lemma checked_sub_Some_iff [rust_arith]:
  fixes a b :: "'a::len word"
  shows "checked_sub a b = Some c \<longleftrightarrow> unat a = unat b + unat c"
proof -
  have "b \<le> a \<Longrightarrow> unat (a - b) = unat a - unat b"
    by (rule unat_sub)
  moreover have "b \<le> a \<longleftrightarrow> unat b \<le> unat a"
    by (rule word_le_nat_alt)
  ultimately show ?thesis
    by (auto simp: checked_sub_def word_unat_eq_iff)
qed

lemma checked_sub_None_iff [rust_arith]:
  "checked_sub a b = None \<longleftrightarrow> unat a < unat b"
  by (auto simp: checked_sub_def word_le_nat_alt)

lemma unat_saturating_add [rust_arith]:
  fixes a b :: "'a::len word"
  shows "unat (saturating_add a b) = min (unat a + unat b) (2 ^ LENGTH('a) - 1)"
  by (auto simp: saturating_add_def unat_add_small unat_max_word)

lemma unat_saturating_sub [rust_arith]:
  "unat (saturating_sub a b) = unat a - unat b"
  by (auto simp: saturating_sub_def unat_sub word_le_nat_alt)

lemma unat_saturating_mul [rust_arith]:
  fixes a b :: "'a::len word"
  shows "unat (saturating_mul a b) = min (unat a * unat b) (2 ^ LENGTH('a) - 1)"
  by (auto simp: saturating_mul_def unat_mult_small unat_max_word)

lemma unat_ucast_up:
  fixes w :: "'a::len word"
  assumes "LENGTH('a) \<le> LENGTH('b::len)"
  shows "unat (ucast w :: 'b word) = unat w"
  using assms by (simp add: unsigned_ucast_eq take_bit_nat_eq_self order_less_le_trans [OF unsigned_less])

lemma unat_of_nat_small: "n < 2 ^ LENGTH('a) \<Longrightarrow> unat (of_nat n :: 'a::len word) = n"
  by (simp add: unat_of_nat take_bit_nat_eq_self)

lemma unat_bounds:
  "unat (a :: u8) < 256"
  "unat (b :: u32) < 4294967296"
  "unat (c :: u64) < 18446744073709551616"
  "unat (d :: u128) < 340282366920938463463374607431768211456"
  using unsigned_less [of a] unsigned_less [of b] unsigned_less [of c] unsigned_less [of d]
  by simp_all

section \<open>Results\<close>

text \<open>A fallible operation returns \<open>Inl e\<close> for Rust's \<open>Err(e)\<close> and \<open>Inr x\<close> for
  \<open>Ok(x)\<close>; \<open>bind_res\<close> is the \<open>?\<close> operator.\<close>

definition bind_res :: "'e + 'a \<Rightarrow> ('a \<Rightarrow> 'e + 'b) \<Rightarrow> 'e + 'b" where
  "bind_res r f = (case r of Inl e \<Rightarrow> Inl e | Inr x \<Rightarrow> f x)"

definition ok_or :: "'e \<Rightarrow> 'a option \<Rightarrow> 'e + 'a" where
  "ok_or e x = (case x of None \<Rightarrow> Inl e | Some y \<Rightarrow> Inr y)"

definition map_err :: "('e \<Rightarrow> 'f) \<Rightarrow> 'e + 'a \<Rightarrow> 'f + 'a" where
  "map_err f r = (case r of Inl e \<Rightarrow> Inl (f e) | Inr x \<Rightarrow> Inr x)"

lemma bind_res_simps [simp]:
  "bind_res (Inl e) f = Inl e"
  "bind_res (Inr x) f = f x"
  by (simp_all add: bind_res_def)

lemma bind_res_eq_Inr [simp]:
  "bind_res r f = Inr y \<longleftrightarrow> (\<exists>x. r = Inr x \<and> f x = Inr y)"
  by (cases r) auto

lemma ok_or_eq_Inr [simp]: "ok_or e x = Inr y \<longleftrightarrow> x = Some y"
  by (cases x) (auto simp: ok_or_def)

lemma ok_or_simps [simp]:
  "ok_or e None = Inl e"
  "ok_or e (Some y) = Inr y"
  by (simp_all add: ok_or_def)

lemma map_err_simps [simp]:
  "map_err f (Inl e) = Inl (f e)"
  "map_err f (Inr x) = Inr x"
  by (simp_all add: map_err_def)

lemma map_err_eq_Inr [simp]: "map_err f r = Inr x \<longleftrightarrow> r = Inr x"
  by (cases r) auto

text \<open>\<open>is_ok\<close> and \<open>is_err\<close> of Rust's \<open>Result\<close>.\<close>

definition is_ok :: "'e + 'a \<Rightarrow> bool" where
  "is_ok r = (case r of Inl _ \<Rightarrow> False | Inr _ \<Rightarrow> True)"

lemma is_ok_simps [simp]: "is_ok (Inr x)" "\<not> is_ok (Inl e)"
  by (simp_all add: is_ok_def)

lemma is_ok_iff: "is_ok r \<longleftrightarrow> (\<exists>x. r = Inr x)"
  by (cases r) auto

section \<open>Fixed-width byte encodings\<close>

text \<open>\<open>le_digits n x\<close>: the \<open>n\<close> low base-256 digits of \<open>x\<close>, least significant first.\<close>

primrec le_digits :: "nat \<Rightarrow> nat \<Rightarrow> bytes" where
  "le_digits 0 x = []"
| "le_digits (Suc n) x = word_of_nat (x mod 256) # le_digits n (x div 256)"

primrec le_value :: "bytes \<Rightarrow> nat" where
  "le_value [] = 0"
| "le_value (b # bs) = unat b + 256 * le_value bs"

lemma length_le_digits [simp]: "length (le_digits n x) = n"
  by (induction n arbitrary: x) auto

lemma le_value_le_digits: "le_value (le_digits n x) = x mod 256 ^ n"
proof (induction n arbitrary: x)
  case 0
  then show ?case by simp
next
  case (Suc n)
  have "unat (word_of_nat (x mod 256) :: u8) = x mod 256"
    by (rule unat_of_nat_small) simp
  then show ?case
    using Suc by (simp add: mod_mult2_eq)
qed

lemma le_value_bound: "le_value bs < 256 ^ length bs"
proof (induction bs)
  case Nil
  then show ?case by simp
next
  case (Cons b bs)
  have "unat b < 256"
    using unsigned_less [of b] by simp
  with Cons show ?case by simp
qed

definition to_le_bytes :: "nat \<Rightarrow> 'a::len word \<Rightarrow> bytes" where
  "to_le_bytes n w = le_digits n (unat w)"

definition to_be_bytes :: "nat \<Rightarrow> 'a::len word \<Rightarrow> bytes" where
  "to_be_bytes n w = rev (le_digits n (unat w))"

definition from_le_bytes :: "bytes \<Rightarrow> 'a::len word" where
  "from_le_bytes bs = word_of_nat (le_value bs)"

definition from_be_bytes :: "bytes \<Rightarrow> 'a::len word" where
  "from_be_bytes bs = word_of_nat (le_value (rev bs))"

lemma length_to_bytes [simp]:
  "length (to_le_bytes n w) = n"
  "length (to_be_bytes n w) = n"
  by (simp_all add: to_le_bytes_def to_be_bytes_def)

lemma from_to_be_bytes:
  fixes w :: "'a::len word"
  assumes "LENGTH('a) = 8 * n"
  shows "from_be_bytes (to_be_bytes n w) = w"
proof -
  have "unat w < 256 ^ n"
    using unsigned_less [of w] assms by (simp add: power_mult)
  then show ?thesis
    by (simp add: from_be_bytes_def to_be_bytes_def le_value_le_digits)
qed

lemma from_to_le_bytes:
  fixes w :: "'a::len word"
  assumes "LENGTH('a) = 8 * n"
  shows "from_le_bytes (to_le_bytes n w) = w"
proof -
  have "unat w < 256 ^ n"
    using unsigned_less [of w] assms by (simp add: power_mult)
  then show ?thesis
    by (simp add: from_le_bytes_def to_le_bytes_def le_value_le_digits)
qed

lemma from_to_be_u32 [simp]: "from_be_bytes (to_be_bytes 4 w) = (w :: u32)"
  by (rule from_to_be_bytes) simp

lemma from_to_be_u64 [simp]: "from_be_bytes (to_be_bytes 8 w) = (w :: u64)"
  by (rule from_to_be_bytes) simp

lemma from_to_be_u128 [simp]: "from_be_bytes (to_be_bytes 16 w) = (w :: u128)"
  by (rule from_to_be_bytes) simp

lemma to_be_bytes_inject_u32: "to_be_bytes 4 (v :: u32) = to_be_bytes 4 w \<longleftrightarrow> v = w"
  by (metis from_to_be_u32)

section \<open>Lists\<close>

text \<open>\<open>slice.chunks(n)\<close> for a positive \<open>n\<close>.\<close>

function chunks :: "nat \<Rightarrow> 'a list \<Rightarrow> 'a list list" where
  "chunks n xs = (if xs = [] \<or> n = 0 then [] else take n xs # chunks n (drop n xs))"
  by pat_completeness auto
termination
  by (relation "measure (\<lambda>(n, xs). length xs)") auto

declare chunks.simps [simp del]

lemma chunks_Nil [simp]: "chunks n [] = []"
  by (subst chunks.simps) simp

lemma concat_chunks: "0 < n \<Longrightarrow> concat (chunks n xs) = xs"
  by (induction n xs rule: chunks.induct) (subst chunks.simps, simp)

lemma chunks_short: "xs \<noteq> [] \<Longrightarrow> length xs \<le> n \<Longrightarrow> chunks n xs = [xs]"
  by (subst chunks.simps) (cases n; simp)

lemma chunks_nonempty: "c \<in> set (chunks n xs) \<Longrightarrow> c \<noteq> []"
  by (induction n xs rule: chunks.induct) (subst (asm) (2) chunks.simps, auto split: if_splits)

section \<open>Finite maps and finite sets\<close>

text \<open>A total of a value measure over the entries of a finite map (Rust's
  \<open>map.values().map(f).sum()\<close>).\<close>

definition fmsum :: "('v \<Rightarrow> nat) \<Rightarrow> ('k, 'v) fmap \<Rightarrow> nat" where
  "fmsum f m = (\<Sum>k\<in>fmdom' m. f (the (fmlookup m k)))"

lemma fmsum_empty [simp]: "fmsum f fmempty = 0"
  by (simp add: fmsum_def)

lemma fmsum_drop:
  assumes "fmlookup m k = Some v"
  shows "fmsum f m = f v + fmsum f (fmdrop k m)"
proof -
  have k: "k \<in> fmdom' m"
    using assms by (rule fmdom'I)
  have "fmsum f m = f (the (fmlookup m k)) + (\<Sum>k'\<in>fmdom' m - {k}. f (the (fmlookup m k')))"
    unfolding fmsum_def by (rule sum.remove) (simp_all add: k)
  also have "(\<Sum>k'\<in>fmdom' m - {k}. f (the (fmlookup m k'))) = fmsum f (fmdrop k m)"
    unfolding fmsum_def by (rule sum.cong) auto
  finally show ?thesis
    using assms by simp
qed

lemma fmsum_upd_fresh:
  assumes "fmlookup m k = None"
  shows "fmsum f (fmupd k v m) = f v + fmsum f m"
proof -
  have "fmdrop k (fmupd k v m) = m"
    using assms by (simp add: fmdrop_fmupd fmdrop_idle' fmlookup_dom'_iff)
  moreover have "fmlookup (fmupd k v m) k = Some v" by simp
  ultimately show ?thesis
    using fmsum_drop [of "fmupd k v m" k v f] by simp
qed

lemma fmsum_member: "fmlookup m k = Some v \<Longrightarrow> f v \<le> fmsum f m"
  by (simp add: fmsum_drop)

text \<open>Removing a list of keys, inserting a list of entries.\<close>

definition fmdrops :: "'k list \<Rightarrow> ('k, 'v) fmap \<Rightarrow> ('k, 'v) fmap" where
  "fmdrops ks m = fold fmdrop ks m"

definition fmupds :: "('k \<times> 'v) list \<Rightarrow> ('k, 'v) fmap \<Rightarrow> ('k, 'v) fmap" where
  "fmupds kvs m = fold (\<lambda>(k, v). fmupd k v) kvs m"

lemma fmdrops_simps [simp]:
  "fmdrops [] m = m"
  "fmdrops (k # ks) m = fmdrops ks (fmdrop k m)"
  by (simp_all add: fmdrops_def)

lemma fmupds_simps [simp]:
  "fmupds [] m = m"
  "fmupds (kv # kvs) m = fmupds kvs (fmupd (fst kv) (snd kv) m)"
  by (simp_all add: fmupds_def case_prod_beta)

lemma fmlookup_fmdrops [simp]:
  "fmlookup (fmdrops ks m) k = (if k \<in> set ks then None else fmlookup m k)"
  by (induction ks arbitrary: m) auto

lemma fmlookup_fmupds_other:
  "k \<notin> fst ` set kvs \<Longrightarrow> fmlookup (fmupds kvs m) k = fmlookup m k"
  by (induction kvs arbitrary: m) auto

lemma fmlookup_fmupds_mem:
  "distinct (map fst kvs) \<Longrightarrow> (k, v) \<in> set kvs \<Longrightarrow> fmlookup (fmupds kvs m) k = Some v"
proof (induction kvs arbitrary: m)
  case Nil
  then show ?case by simp
next
  case (Cons kv kvs)
  show ?case
  proof (cases "(k, v) = kv")
    case True
    with Cons.prems have "k \<notin> fst ` set kvs" by force
    with True show ?thesis
      by (auto simp: fmlookup_fmupds_other)
  next
    case False
    with Cons show ?thesis by simp
  qed
qed

lemma fmlookup_fmupds_const:
  "fmlookup (fmupds (map (\<lambda>k. (k, v)) ks) m) k = (if k \<in> set ks then Some v else fmlookup m k)"
  by (induction ks arbitrary: m) auto

lemma fmdom'_fmupds [simp]: "fmdom' (fmupds kvs m) = fst ` set kvs \<union> fmdom' m"
  by (induction kvs arbitrary: m) auto

lemma fmdrops_fmupds_inverse:
  assumes "fst ` set kvs \<inter> fmdom' m = {}"
  shows "fmdrops (map fst kvs) (fmupds kvs m) = m"
proof (rule fmap_ext)
  fix k
  show "fmlookup (fmdrops (map fst kvs) (fmupds kvs m)) k = fmlookup m k"
  proof (cases "k \<in> fst ` set kvs")
    case True
    with assms have "k \<notin> fmdom' m" by blast
    with True show ?thesis by (simp add: fmdom'_notD)
  next
    case False
    then show ?thesis by (simp add: fmlookup_fmupds_other)
  qed
qed

lemma fmsum_fmdrops:
  assumes "distinct ks" and "set ks \<subseteq> fmdom' m"
  shows "fmsum f m = (\<Sum>k\<leftarrow>ks. f (the (fmlookup m k))) + fmsum f (fmdrops ks m)"
  using assms
proof (induction ks arbitrary: m)
  case Nil
  then show ?case by simp
next
  case (Cons k ks)
  then obtain v where v: "fmlookup m k = Some v"
    by (auto simp: fmlookup_dom'_iff)
  have "(\<Sum>k'\<leftarrow>ks. f (the (fmlookup (fmdrop k m) k'))) = (\<Sum>k'\<leftarrow>ks. f (the (fmlookup m k')))"
    using Cons.prems(1) by (intro arg_cong [where f = sum_list] map_cong) auto
  moreover have "fmsum f (fmdrop k m)
      = (\<Sum>k'\<leftarrow>ks. f (the (fmlookup (fmdrop k m) k'))) + fmsum f (fmdrops ks (fmdrop k m))"
    using Cons.prems by (intro Cons.IH) auto
  ultimately show ?case
    using v fmsum_drop [OF v, of f] by (simp del: fmlookup_drop)
qed

lemma fmsum_fmupds:
  assumes "distinct (map fst kvs)" and "fst ` set kvs \<inter> fmdom' m = {}"
  shows "fmsum f (fmupds kvs m) = fmsum f m + (\<Sum>kv\<leftarrow>kvs. f (snd kv))"
  using assms
proof (induction kvs arbitrary: m)
  case Nil
  then show ?case by simp
next
  case (Cons kv kvs)
  then have "fmlookup m (fst kv) = None" by (auto dest: fmdom'_notD)
  then have "fmsum f (fmupd (fst kv) (snd kv) m) = f (snd kv) + fmsum f m"
    by (rule fmsum_upd_fresh)
  moreover have "fst ` set kvs \<inter> fmdom' (fmupd (fst kv) (snd kv) m) = {}"
    using Cons.prems by auto
  ultimately show ?case
    using Cons by simp
qed

lemma sorted_list_of_fset_finsert:
  "sorted_list_of_fset (finsert x A) = insort x (sorted_list_of_fset (A |-| {|x|}))"
  by (simp add: sorted_list_of_fset.rep_eq)

lemma sorted_list_of_fset_empty [simp]: "sorted_list_of_fset {||} = []"
  by (simp add: sorted_list_of_fset.rep_eq)

lemma sorted_sorted_list_of_fset [simp]: "sorted (sorted_list_of_fset A)"
  by (simp add: sorted_list_of_fset.rep_eq)

lemma distinct_sorted_list_of_fset [simp]: "distinct (sorted_list_of_fset A)"
  by (simp add: sorted_list_of_fset.rep_eq)

lemma length_sorted_list_of_fset [simp]: "length (sorted_list_of_fset A) = fcard A"
  by (simp add: sorted_list_of_fset.rep_eq fcard.rep_eq)

lemma fcard_drop_le: "fcard (fmdom (fmdrop h m)) \<le> fcard (fmdom m)"
  by (auto intro: fcard_mono)

lemma fcard_drop_mem: "fmlookup m h = Some e \<Longrightarrow> Suc (fcard (fmdom (fmdrop h m))) = fcard (fmdom m)"
  using fcard_Suc_fminus1 [of h "fmdom m"] by (simp add: fmdomI)

lemma fcard_upd_le: "fcard (fmdom (fmupd h e m)) \<le> Suc (fcard (fmdom m))"
  by (simp add: fcard_finsert_if)

section \<open>Positions\<close>

text \<open>\<open>Iterator::position\<close>.\<close>

fun position :: "('a \<Rightarrow> bool) \<Rightarrow> 'a list \<Rightarrow> nat option" where
  "position p [] = None"
| "position p (x # xs) = (if p x then Some 0 else map_option Suc (position p xs))"

lemma position_Some: "position p xs = Some i \<Longrightarrow> i < length xs \<and> p (xs ! i)"
  by (induction xs arbitrary: i) (auto split: if_splits)

lemma position_None: "position p xs = None \<longleftrightarrow> (\<forall>x\<in>set xs. \<not> p x)"
  by (induction xs) auto

end
