(* ===== verification/Emission.thy ===== *)
theory Emission
  imports Prelude
begin

text \<open>
  The emission schedule: \<open>core/consensus/economic_constants.rs\<close> and
  \<open>core/consensus/emission.rs\<close>. Amounts are \<open>u128\<close> words, scores are \<open>u64\<close> words, and the
  casts of the source (\<open>as u32\<close>, \<open>as u64\<close>) are truncating \<open>ucast\<close>s. The lemmas relate the
  halving loop to its closed form, the table-driven total to the sum of the rewards it stands
  for, and bound what can be issued by the supply cap.
\<close>

section \<open>Economic constants\<close>

definition MAX_GLOBAL_SUPPLY_NANO_SLUG :: u128 where
  "MAX_GLOBAL_SUPPLY_NANO_SLUG = 600000000000000000"

definition MINER_REWARD_PERCENT :: u128 where
  "MINER_REWARD_PERCENT = 80"

definition FULLNODE_REWARD_PERCENT :: u128 where
  "FULLNODE_REWARD_PERCENT = 20"

definition BURN_ADDRESS :: bytes where
  "BURN_ADDRESS = replicate 32 0"

text \<open>The products are \<open>u128\<close> products and wrap, as in a release build.\<close>

definition validate_miner_share :: "u128 \<Rightarrow> u128 \<Rightarrow> bool" where
  "validate_miner_share total_pool miner_share =
     (let expected_miner = (total_pool * MINER_REWARD_PERCENT) div 100
      in miner_share = expected_miner)"

definition validate_fullnode_share :: "u128 \<Rightarrow> u128 \<Rightarrow> bool" where
  "validate_fullnode_share total_pool fullnode_share =
     (let expected_fullnode = (total_pool * FULLNODE_REWARD_PERCENT) div 100
      in fullnode_share = expected_fullnode)"

definition verify_non_burn_address :: "bytes \<Rightarrow> bool" where
  "verify_non_burn_address address = (address \<noteq> BURN_ADDRESS)"

definition verify_all_non_burn_recipients :: "bytes list \<Rightarrow> bool" where
  "verify_all_non_burn_recipients addresses = list_all verify_non_burn_address addresses"

section \<open>Block rewards\<close>

definition COIN_UNIT :: u64 where
  "COIN_UNIT = 100000000"

definition UNIT :: u128 where
  "UNIT = ucast COIN_UNIT"

definition MAX_SUPPLY :: u128 where
  "MAX_SUPPLY = MAX_GLOBAL_SUPPLY_NANO_SLUG"

definition BASE_REWARD :: u128 where
  "BASE_REWARD = 100 * UNIT"

definition HALVING_INTERVAL :: u64 where
  "HALVING_INTERVAL = 100000"

definition MIN_REWARD :: u128 where
  "MIN_REWARD = 1"

text \<open>The \<open>for _ in 0..halving_steps\<close> loop with its early exit at the floor.\<close>

primrec halving_loop :: "nat \<Rightarrow> u128 \<Rightarrow> u128" where
  "halving_loop 0 reward = reward"
| "halving_loop (Suc steps) reward =
     (let reward' = max (reward div 2) MIN_REWARD
      in if reward' = MIN_REWARD then reward' else halving_loop steps reward')"

definition raw_block_reward :: "u64 \<Rightarrow> u128" where
  "raw_block_reward daa_score =
     (if daa_score = 0 then BASE_REWARD
      else let halvings = (ucast (daa_score div HALVING_INTERVAL) :: u32);
               halving_steps = min halvings 128
           in max (halving_loop (unat halving_steps) BASE_REWARD) MIN_REWARD)"

definition HALVING_REWARDS :: "u128 list" where
  "HALVING_REWARDS =
    [10000000000, 5000000000, 2500000000, 1250000000, 625000000, 312500000,
     156250000, 78125000, 39062500, 19531250, 9765625, 4882812, 2441406,
     1220703, 610351, 305175, 152587, 76293, 38146, 19073, 9536, 4768,
     2384, 1192, 596, 298, 149, 74, 37, 18, 9, 4, 2, 1]"

definition CUMULATIVE_REWARDS :: "u128 list" where
  "CUMULATIVE_REWARDS =
    [10000000000, 15000000000, 17500000000, 18750000000, 19375000000,
     19687500000, 19843750000, 19921875000, 19960937500, 19980468750,
     19990234375, 19995117187, 19997558593, 19998779296, 19999389647,
     19999694822, 19999847409, 19999923702, 19999961848, 19999980921,
     19999990457, 19999995225, 19999997609, 19999998801, 19999999397,
     19999999695, 19999999844, 19999999918, 19999999955, 19999999973,
     19999999982, 19999999986, 19999999988, 19999999989]"

definition total_emitted :: "u64 \<Rightarrow> u128" where
  "total_emitted daa_score =
     (if daa_score = 0 then 0
      else
       let full_intervals = unat (daa_score div HALVING_INTERVAL);
           remainder_blocks = daa_score mod HALVING_INTERVAL;
           interval = (ucast HALVING_INTERVAL :: u128);
           full_emitted =
             (if full_intervals = 0 then 0
              else if full_intervals \<le> length HALVING_REWARDS
              then CUMULATIVE_REWARDS ! (full_intervals - 1) * interval
              else last CUMULATIVE_REWARDS * interval
                   + (of_nat full_intervals - of_nat (length HALVING_REWARDS)) * MIN_REWARD * interval);
           next_reward =
             (if full_intervals < length HALVING_REWARDS
              then HALVING_REWARDS ! full_intervals else MIN_REWARD);
           remainder_emitted = saturating_mul (ucast remainder_blocks) next_reward
       in min (saturating_add full_emitted remainder_emitted) MAX_SUPPLY)"

definition capped_reward :: "u64 \<Rightarrow> u128" where
  "capped_reward daa_score =
     (let current_total = total_emitted daa_score;
          base_reward = raw_block_reward daa_score
      in if MAX_SUPPLY \<le> current_total then 0
         else if MAX_SUPPLY < current_total + base_reward
         then saturating_sub MAX_SUPPLY current_total
         else base_reward)"

text \<open>The result is \<open>(miner_reward, infra_reward, infra_per_active_node)\<close>.\<close>

definition block_reward :: "u64 \<Rightarrow> u32 \<Rightarrow> u64 \<times> u64 \<times> u64" where
  "block_reward daa_score active_node_count =
     (let total = capped_reward daa_score;
          miner = (total * 80) div 100;
          infra = (if active_node_count = 0 then 0 else saturating_sub total miner);
          miner' = (if active_node_count = 0 then total else miner);
          per_node = (if active_node_count = 0 then 0
                      else infra div (ucast active_node_count))
      in (ucast miner', ucast infra, ucast per_node))"

definition validate_reward_split :: "u64 \<Rightarrow> u32 \<Rightarrow> bool" where
  "validate_reward_split daa_score active_node_count =
     (case block_reward daa_score active_node_count of
        (miner, infra, _) \<Rightarrow>
          (let split_total = (ucast miner :: u128) + ucast infra
           in split_total \<le> capped_reward daa_score))"

definition max_supply :: u128 where
  "max_supply = MAX_SUPPLY"

section \<open>The halving loop in closed form\<close>

text \<open>The reward after \<open>h\<close> halvings, floored at one unit.\<close>

definition reward_at :: "nat \<Rightarrow> nat" where
  "reward_at h = max 1 (10 ^ 10 div 2 ^ h)"

text \<open>The \<open>full_emitted\<close> expression of \<open>total_emitted\<close>, for \<open>q\<close> complete intervals.\<close>

definition full_emitted_of :: "nat \<Rightarrow> u128" where
  "full_emitted_of q =
     (if q = 0 then 0
      else if q \<le> length HALVING_REWARDS
      then CUMULATIVE_REWARDS ! (q - 1) * ucast HALVING_INTERVAL
      else last CUMULATIVE_REWARDS * ucast HALVING_INTERVAL
           + (of_nat q - of_nat (length HALVING_REWARDS)) * MIN_REWARD * ucast HALVING_INTERVAL)"

definition next_reward_of :: "nat \<Rightarrow> u128" where
  "next_reward_of q =
     (if q < length HALVING_REWARDS then HALVING_REWARDS ! q else MIN_REWARD)"

text \<open>Below \<open>2 ^ 32\<close> halving intervals the \<open>as u32\<close> cast of the halving count is exact.\<close>

abbreviation score_limit :: nat where
  "score_limit \<equiv> 2 ^ 32 * 100000"

lemmas emission_consts = UNIT_def COIN_UNIT_def BASE_REWARD_def HALVING_INTERVAL_def
  MIN_REWARD_def MAX_SUPPLY_def MAX_GLOBAL_SUPPLY_NANO_SLUG_def

lemma unat_consts [simp]:
  "unat MIN_REWARD = 1"
  "unat BASE_REWARD = 10 ^ 10"
  "unat HALVING_INTERVAL = 100000"
  "unat MAX_SUPPLY = 600000000000000000"
  by (simp_all add: emission_consts)

lemma unat_max: "unat (max a b) = max (unat a) (unat b)"
  by (auto simp: max_def word_le_nat_alt)

lemma unat_min: "unat (min a b) = min (unat a) (unat b)"
  by (auto simp: min_def word_le_nat_alt)

lemma unat_halving_loop:
  "1 \<le> unat reward \<Longrightarrow> unat (halving_loop steps reward) = max 1 (unat reward div 2 ^ steps)"
proof (induction steps arbitrary: reward)
  case 0
  then show ?case by simp
next
  case (Suc steps)
  let ?r = "max (reward div 2) MIN_REWARD"
  have r: "unat ?r = max 1 (unat reward div 2)"
    by (simp add: unat_max unat_div max.commute)
  show ?case
  proof (cases "?r = MIN_REWARD")
    case True
    then have "unat reward div 2 \<le> 1"
      using r by simp
    then have "unat reward div 2 div 2 ^ steps \<le> 1"
      by (meson div_le_dividend le_trans)
    with True show ?thesis
      by (simp add: Let_def div_mult2_eq)
  next
    case False
    then have "unat ?r = unat reward div 2"
      using r by (auto simp: word_unat_eq_iff max_def split: if_splits)
    moreover have "1 \<le> unat ?r" using r by simp
    ultimately show ?thesis
      using False Suc.IH [of ?r] by (simp add: Let_def div_mult2_eq)
  qed
qed

lemma reward_at_saturates: "34 \<le> h \<Longrightarrow> reward_at h = 1"
proof -
  assume "34 \<le> h"
  then have "(2::nat) ^ 34 \<le> 2 ^ h" by (rule power_increasing) simp
  then have "(10::nat) ^ 10 < 2 ^ h" by simp
  then show ?thesis by (simp add: reward_at_def)
qed

lemma unat_raw_block_reward:
  "unat (raw_block_reward d) = reward_at (unat d div 100000 mod 2 ^ 32)"
proof (cases "d = 0")
  case True
  then show ?thesis by (simp add: raw_block_reward_def reward_at_def)
next
  case False
  let ?k = "unat d div 100000 mod 2 ^ 32"
  have k: "unat (ucast (d div HALVING_INTERVAL) :: u32) = ?k"
    by (simp add: unsigned_ucast_eq take_bit_nat_def unat_div)
  have "unat (raw_block_reward d) = max 1 (10 ^ 10 div 2 ^ min ?k 128)"
    using False
    by (simp add: raw_block_reward_def Let_def unat_max unat_halving_loop unat_min k)
  also have "\<dots> = reward_at ?k"
    using reward_at_saturates [of ?k] reward_at_saturates [of 128]
    by (auto simp: reward_at_def min_def)
  finally show ?thesis .
qed

section \<open>The table-driven total\<close>

lemma sum_div_blocks:
  fixes f :: "nat \<Rightarrow> nat"
  assumes "0 < n" and "r \<le> n"
  shows "(\<Sum>i<q * n + r. f (i div n)) = n * (\<Sum>h<q. f h) + r * f q"
proof -
  have const: "(\<Sum>i = m * n..<m * n + r'. f (i div n)) = r' * f m" if "r' \<le> n" for m r'
  proof -
    have "i div n = m" if "i \<in> {m * n..<m * n + r'}" for i
      using that \<open>r' \<le> n\<close> assms(1) by (intro div_nat_eqI) (auto simp: mult.commute)
    then have "(\<Sum>i = m * n..<m * n + r'. f (i div n)) = (\<Sum>i = m * n..<m * n + r'. f m)"
      by (intro sum.cong) auto
    then show ?thesis by simp
  qed
  have "(\<Sum>i<q * n. f (i div n)) = (\<Sum>m<q. \<Sum>i = m * n..<m * n + n. f (i div n))"
    by (simp add: sum.nat_group)
  also have "\<dots> = n * (\<Sum>h<q. f h)"
    by (simp add: const sum_distrib_left)
  finally have full: "(\<Sum>i<q * n. f (i div n)) = n * (\<Sum>h<q. f h)" .
  have split: "{..<q * n + r} = {..<q * n} \<union> {q * n..<q * n + r}"
    by auto
  have "(\<Sum>i<q * n + r. f (i div n))
      = (\<Sum>i<q * n. f (i div n)) + (\<Sum>i = q * n..<q * n + r. f (i div n))"
    unfolding split by (rule sum.union_disjoint) auto
  then show ?thesis
    using full const [OF assms(2)] by simp
qed

lemma tables_length:
  "length HALVING_REWARDS = 34"
  "length CUMULATIVE_REWARDS = 34"
  by (simp_all add: HALVING_REWARDS_def CUMULATIVE_REWARDS_def)

lemma halving_table: "h < 34 \<Longrightarrow> unat (HALVING_REWARDS ! h) = reward_at h"
proof -
  have "map unat HALVING_REWARDS = map reward_at [0..<34]"
    by (simp add: HALVING_REWARDS_def reward_at_def upt_rec)
  moreover assume "h < 34"
  ultimately show ?thesis
    by (metis add_0 diff_zero length_upt nth_map nth_upt tables_length(1))
qed

lemma cumulative_table: "q < 34 \<Longrightarrow> unat (CUMULATIVE_REWARDS ! q) = (\<Sum>h<Suc q. reward_at h)"
proof -
  have "map unat CUMULATIVE_REWARDS = map (\<lambda>q. \<Sum>h\<leftarrow>[0..<Suc q]. reward_at h) [0..<34]"
    by (simp add: CUMULATIVE_REWARDS_def reward_at_def upt_rec)
  moreover assume "q < 34"
  ultimately have "unat (CUMULATIVE_REWARDS ! q) = (\<Sum>h\<leftarrow>[0..<Suc q]. reward_at h)"
    by (metis (no_types, lifting) add_0 diff_zero length_upt nth_map nth_upt tables_length(2))
  also have "\<dots> = (\<Sum>h<Suc q. reward_at h)"
    by (simp add: interv_sum_list_conv_sum_set_nat atLeast0LessThan del: upt_Suc)
  finally show ?thesis .
qed

lemma sum_reward_at_tail: "34 \<le> q \<Longrightarrow> (\<Sum>h<q. reward_at h) = 19999999989 + (q - 34)"
proof (induction q rule: dec_induct)
  case base
  have "(\<Sum>h<34. reward_at h) = unat (CUMULATIVE_REWARDS ! 33)"
    using cumulative_table [of 33] by simp
  then show ?case
    by (simp add: CUMULATIVE_REWARDS_def)
next
  case (step n)
  then show ?case
    by (simp add: reward_at_saturates)
qed

lemma sum_reward_at_bound: "(\<Sum>h<q. reward_at h) \<le> 19999999989 + q"
proof (cases "34 \<le> q")
  case True
  then show ?thesis by (simp add: sum_reward_at_tail)
next
  case False
  then have "(\<Sum>h<q. reward_at h) \<le> (\<Sum>h<34. reward_at h)"
    by (intro sum_mono2) auto
  then show ?thesis
    by (simp add: sum_reward_at_tail)
qed

lemma u64_div_interval: "unat (d :: u64) div 100000 \<le> 184467440737095"
proof -
  have "unat d < 2 ^ 64"
    using unsigned_less [of d] by simp
  then show ?thesis by simp
qed

lemma unat_next_reward_of: "unat (next_reward_of q) = reward_at q"
  by (simp add: next_reward_of_def halving_table reward_at_saturates tables_length)

lemma unat_full_emitted_of:
  assumes "q \<le> 184467440737095"
  shows "unat (full_emitted_of q) = 100000 * (\<Sum>h<q. reward_at h)"
proof -
  have interval: "unat (ucast HALVING_INTERVAL :: u128) = 100000"
    by (simp add: HALVING_INTERVAL_def)
  consider "q = 0" | "0 < q" "q \<le> 34" | "34 < q" by linarith
  then show ?thesis
  proof cases
    case 1
    then show ?thesis by (simp add: full_emitted_of_def)
  next
    case 2
    then have c: "unat (CUMULATIVE_REWARDS ! (q - 1)) = (\<Sum>h<q. reward_at h)"
      using cumulative_table [of "q - 1"] by simp
    then have "unat (CUMULATIVE_REWARDS ! (q - 1) * ucast HALVING_INTERVAL)
        = (\<Sum>h<q. reward_at h) * 100000"
      using sum_reward_at_bound [of q] assms
      by (subst unat_mult_small) (simp_all add: interval)
    with 2 show ?thesis
      by (simp add: full_emitted_of_def tables_length)
  next
    case 3
    have "of_nat q - of_nat 34 = (of_nat (q - 34) :: u128)"
      using 3 by (simp add: of_nat_diff)
    then have e: "full_emitted_of q
        = of_nat (19999999989 * 100000) + of_nat ((q - 34) * 100000)"
      using 3 by (simp add: full_emitted_of_def tables_length CUMULATIVE_REWARDS_def
          HALVING_INTERVAL_def MIN_REWARD_def)
    have "unat (full_emitted_of q) = 19999999989 * 100000 + (q - 34) * 100000"
      unfolding e of_nat_add [symmetric] using assms
      by (intro unat_of_nat_small) simp
    with 3 show ?thesis
      by (simp add: sum_reward_at_tail)
  qed
qed

lemma unat_total_emitted:
  "unat (total_emitted d) = min (\<Sum>i<unat d. reward_at (i div 100000)) 600000000000000000"
proof (cases "d = 0")
  case True
  then show ?thesis by (simp add: total_emitted_def)
next
  case False
  let ?q = "unat d div 100000" and ?r = "unat d mod 100000"
  let ?S = "\<Sum>h<?q. reward_at h"
  have q: "?q \<le> 184467440737095" by (rule u64_div_interval)
  have full: "unat (full_emitted_of ?q) = 100000 * ?S"
    using q by (rule unat_full_emitted_of)
  have rew: "reward_at ?q \<le> 10000000000"
    by (simp add: reward_at_def)
  have rem: "unat (ucast (d mod HALVING_INTERVAL) :: u128) = ?r"
    by (simp add: unat_ucast_up unat_mod)
  have "?r * reward_at ?q \<le> 100000 * 10000000000"
    using rew by (intro mult_mono) auto
  then have small: "100000 * ?S + ?r * reward_at ?q < 2 ^ 128 - 1"
    and "?r * reward_at ?q < 2 ^ 128 - 1"
    using sum_reward_at_bound [of ?q] q by simp_all
  then have "unat (saturating_mul (ucast (d mod HALVING_INTERVAL)) (next_reward_of ?q))
      = ?r * reward_at ?q"
    by (simp add: unat_saturating_mul rem unat_next_reward_of)
  with small full
  have "unat (saturating_add (full_emitted_of ?q)
       (saturating_mul (ucast (d mod HALVING_INTERVAL)) (next_reward_of ?q)))
      = 100000 * ?S + ?r * reward_at ?q"
    by (simp add: unat_saturating_add)
  moreover have "total_emitted d = min (saturating_add (full_emitted_of ?q)
       (saturating_mul (ucast (d mod HALVING_INTERVAL)) (next_reward_of ?q))) MAX_SUPPLY"
    using False
    by (simp add: total_emitted_def Let_def full_emitted_of_def next_reward_of_def unat_div)
  moreover have "(\<Sum>i<unat d. reward_at (i div 100000)) = 100000 * ?S + ?r * reward_at ?q"
    using sum_div_blocks [of 100000 ?r reward_at ?q] by simp
  ultimately show ?thesis
    by (simp add: unat_min)
qed

lemma unat_raw_block_reward_below:
  "i < score_limit \<Longrightarrow> unat (raw_block_reward (of_nat i)) = reward_at (i div 100000)"
  by (simp add: unat_raw_block_reward unat_of_nat_small)

lemma unat_capped_reward:
  "unat (capped_reward d)
   = min (unat (raw_block_reward d)) (600000000000000000 - unat (total_emitted d))"
proof -
  have t: "unat (total_emitted d) \<le> 600000000000000000"
    by (simp add: unat_total_emitted)
  have "unat (raw_block_reward d) \<le> 10000000000"
    by (simp add: unat_raw_block_reward reward_at_def)
  with t have "unat (total_emitted d + raw_block_reward d)
      = unat (total_emitted d) + unat (raw_block_reward d)"
    by (intro unat_add_small) simp
  with t show ?thesis
    by (auto simp: capped_reward_def Let_def word_le_nat_alt word_less_nat_alt
        unat_saturating_sub)
qed

lemma reward_at_le: "reward_at h \<le> 10000000000"
  by (simp add: reward_at_def)

lemma capped_reward_bound: "unat (capped_reward d) \<le> 10000000000"
  using reward_at_le [of "unat d div 100000 mod 2 ^ 32"]
  by (simp add: unat_capped_reward unat_raw_block_reward)

lemma sum_raw_block_reward:
  assumes "n \<le> score_limit"
  shows "(\<Sum>i<n. unat (raw_block_reward (of_nat i))) = (\<Sum>i<n. reward_at (i div 100000))"
  using assms by (intro sum.cong) (simp_all add: unat_raw_block_reward_below)

section \<open>Properties of the emission schedule\<close>

text \<open>C8: the constant-time, table-driven \<open>total_emitted\<close> is the sum of the block rewards it
  approximates: for every score below \<open>2 ^ 32\<close> halving intervals it equals the sum of
  \<open>raw_block_reward\<close> over all smaller scores, cut off at the supply cap.\<close>

theorem total_emitted_is_sum_of_rewards:
  assumes "unat d \<le> score_limit"
  shows "unat (total_emitted d)
    = min (\<Sum>i<unat d. unat (raw_block_reward (of_nat i))) (unat MAX_SUPPLY)"
  using assms by (simp add: unat_total_emitted sum_raw_block_reward)

theorem total_emitted_is_sum_of_rewards_witness:
  "unat (250000 :: u64) \<le> score_limit
   \<and> unat (total_emitted 250000)
     = min (\<Sum>i<unat (250000 :: u64). unat (raw_block_reward (of_nat i))) (unat MAX_SUPPLY)"
proof -
  have h: "unat (250000 :: u64) \<le> score_limit" by simp
  show ?thesis
    using h total_emitted_is_sum_of_rewards [OF h] by blast
qed

text \<open>issuing \<open>capped_reward\<close> at every score keeps the running total equal to
  \<open>total_emitted\<close>, so the rewards of any prefix of the chain never sum to more than the
  supply cap.\<close>

theorem capped_rewards_never_exceed_cap:
  assumes "n \<le> score_limit"
  shows "(\<Sum>i<n. unat (capped_reward (of_nat i))) = unat (total_emitted (of_nat n))
    \<and> (\<Sum>i<n. unat (capped_reward (of_nat i))) \<le> unat MAX_SUPPLY"
proof -
  have "(\<Sum>i<n. unat (capped_reward (of_nat i))) = unat (total_emitted (of_nat n))"
    using assms
  proof (induction n)
    case 0
    then show ?case by (simp add: total_emitted_def)
  next
    case (Suc n)
    then have "unat (of_nat n :: u64) = n" "unat (of_nat (Suc n) :: u64) = Suc n"
      by (simp_all add: unat_of_nat_small del: of_nat_Suc)
    with Suc show ?case
      by (simp add: unat_capped_reward unat_total_emitted unat_raw_block_reward_below
          del: of_nat_Suc)
  qed
  then show ?thesis
    by (simp add: unat_total_emitted)
qed

theorem capped_rewards_never_exceed_cap_witness:
  "(1000000 :: nat) \<le> score_limit
   \<and> (\<Sum>i<1000000. unat (capped_reward (of_nat i))) \<le> unat MAX_SUPPLY"
proof -
  have h: "(1000000 :: nat) \<le> score_limit" by simp
  show ?thesis
    using h capped_rewards_never_exceed_cap [OF h] by blast
qed

lemma block_reward_parts:
  assumes "block_reward d c = (miner, infra, per_node)"
  shows "unat miner + unat infra = unat (capped_reward d)"
    and "unat per_node * unat c \<le> unat infra"
    and "c \<noteq> 0 \<Longrightarrow> unat miner = unat (capped_reward d) * 80 div 100"
proof -
  let ?t = "capped_reward d"
  let ?m = "(?t * 80) div 100"
  have small: "unat ?t \<le> 10000000000" by (rule capped_reward_bound)
  then have m: "unat ?m = unat ?t * 80 div 100"
    by (simp add: unat_div unat_mult_small)
  have cast: "unat (ucast (w :: u128) :: u64) = unat w" if "unat w \<le> 10000000000" for w
    using that by (simp add: unsigned_ucast_eq take_bit_nat_eq_self)
  have c: "unat (ucast c :: u128) = unat c"
    by (simp add: unat_ucast_up)
  have i: "unat (saturating_sub ?t ?m) = unat ?t - unat ?t * 80 div 100"
    by (simp add: unat_saturating_sub m)
  have p: "unat (saturating_sub ?t ?m div ucast c)
      = (unat ?t - unat ?t * 80 div 100) div unat c"
    by (simp add: unat_div i c)
  have p_le: "(unat ?t - unat ?t * 80 div 100) div unat c \<le> 10000000000"
    using small by (meson diff_le_self div_le_dividend le_trans)
  have m_le: "unat ?t * 80 div 100 \<le> 10000000000" using small by simp
  have i_le: "unat ?t - unat ?t * 80 div 100 \<le> 10000000000" using small by simp
  note parts = assms [unfolded block_reward_def Let_def]
  show "unat miner + unat infra = unat ?t"
    using parts small m i m_le i_le by (auto simp: cast split: if_splits)
  show "unat per_node * unat c \<le> unat infra"
    using parts i p i_le p_le by (auto simp: cast split: if_splits)
  show "unat miner = unat ?t * 80 div 100" if "c \<noteq> 0"
    using parts that m m_le by (auto simp: cast)
qed

text \<open>\<open>block_reward\<close> hands out exactly the capped reward: the miner's and the
  infrastructure share add up to it with nothing lost in the \<open>u64\<close> casts, the per-node
  shares never exceed the infrastructure share, and \<open>validate_reward_split\<close> accepts it.\<close>

theorem block_reward_is_exact_split:
  "(case block_reward d c of (miner, infra, per_node) \<Rightarrow>
      unat miner + unat infra = unat (capped_reward d) \<and> unat per_node * unat c \<le> unat infra)
   \<and> validate_reward_split d c"
proof -
  obtain miner infra per_node where b: "block_reward d c = (miner, infra, per_node)"
    by (cases "block_reward d c") auto
  have s: "unat miner + unat infra = unat (capped_reward d)"
    using b by (rule block_reward_parts(1))
  have "unat ((ucast miner :: u128) + ucast infra) = unat miner + unat infra"
    using unat_bounds(3) [of miner] unat_bounds(3) [of infra]
    by (subst unat_add_small) (simp_all add: unat_ucast_up)
  with s b block_reward_parts(2) [OF b] show ?thesis
    by (simp add: validate_reward_split_def word_le_nat_alt)
qed

text \<open>the halving count is cut to 32 bits, so at a score of exactly \<open>2 ^ 32\<close> halving
  intervals the reward jumps from the one-unit floor back to the full base reward, and the
  supply cap does not stop it.\<close>

theorem halving_count_wraps:
  "capped_reward (of_nat (score_limit - 1)) = MIN_REWARD
   \<and> capped_reward (of_nat score_limit) = BASE_REWARD"
proof -
  have t: "unat (total_emitted (of_nat n)) \<le> 431496729600000 + 2000000000000000"
    if "n \<le> score_limit" for n
  proof -
    have "(\<Sum>i<n. reward_at (i div 100000)) \<le> (\<Sum>i<(2 ^ 32 * 100000 + 0). reward_at (i div 100000))"
      using that by (intro sum_mono2) auto
    also have "\<dots> = 100000 * (\<Sum>h<2 ^ 32. reward_at h) + 0 * reward_at (2 ^ 32)"
      by (rule sum_div_blocks) simp_all
    also have "\<dots> = 100000 * (19999999989 + (2 ^ 32 - 34))"
      by (simp add: sum_reward_at_tail)
    finally show ?thesis
      using that by (simp add: unat_total_emitted unat_of_nat_small)
  qed
  have "unat (capped_reward (of_nat (score_limit - 1))) = 1"
    using t [of "score_limit - 1"]
    by (simp add: unat_capped_reward unat_raw_block_reward unat_of_nat_small reward_at_saturates)
  moreover have "unat (capped_reward (of_nat score_limit)) = 10 ^ 10"
    using t [of score_limit]
    by (simp add: unat_capped_reward unat_raw_block_reward unat_of_nat_small reward_at_def)
  ultimately show ?thesis
    by (simp add: word_unat_eq_iff)
qed

end
