(* ===== verification/Core_Types.thy ===== *)
theory Core_Types
  imports Prelude
begin

text \<open>
  Types every component shares: \<open>Hash\<close> (\<open>core/crypto/hash.rs\<close>) with the derived
  lexicographic order, \<open>CoreError\<close> (\<open>core/errors.rs\<close>), and the record of the third-party
  functions the code calls (\<open>blake3\<close>, \<open>k256\<close>, \<open>bincode\<close>), which every definition that uses
  them takes as an argument. Error messages built with \<open>format!\<close> are represented by their
  format string; the interpolated values are not part of the model.
\<close>

section \<open>Hashes\<close>

text \<open>\<open>struct Hash([u8; 32])\<close>. The array length is the predicate \<open>hash_wf\<close>.\<close>

datatype hash = Hash (as_bytes: bytes)

definition hash_wf :: "hash \<Rightarrow> bool" where
  "hash_wf h \<longleftrightarrow> length (as_bytes h) = 32"

text \<open>The derived \<open>Ord\<close> of the array: lexicographic on the bytes.\<close>

instantiation hash :: linorder
begin

definition less_eq_hash :: "hash \<Rightarrow> hash \<Rightarrow> bool" where
  "less_eq_hash a b \<longleftrightarrow> as_bytes a \<le> as_bytes b"

definition less_hash :: "hash \<Rightarrow> hash \<Rightarrow> bool" where
  "less_hash a b \<longleftrightarrow> as_bytes a < as_bytes b"

instance
  by standard (auto simp: less_eq_hash_def less_hash_def hash.expand)

end

lemma hash_order_simps [simp]:
  "Hash a \<le> Hash b \<longleftrightarrow> a \<le> b"
  "Hash a < Hash b \<longleftrightarrow> a < b"
  by (simp_all add: less_eq_hash_def less_hash_def)

section \<open>Third-party functions\<close>

text \<open>A verifying key and a signature are opaque values of the \<open>k256\<close> crate; the model names
  each by the bytes it was parsed from.\<close>

type_synonym verifying_key = bytes
type_synonym schnorr_sig = bytes

record externals =
  blake3 :: "bytes \<Rightarrow> bytes"
  vk_from_bytes :: "bytes \<Rightarrow> verifying_key option"
  sig_try_from :: "bytes \<Rightarrow> schnorr_sig option"
  vk_verify :: "verifying_key \<Rightarrow> bytes \<Rightarrow> schnorr_sig \<Rightarrow> bool"

text \<open>\<open>Hash::new\<close> and \<open>Hash::from_bytes\<close>.\<close>

definition hash_new :: "externals \<Rightarrow> bytes \<Rightarrow> hash" where
  "hash_new ext data = Hash (blake3 ext data)"

definition hash_from_bytes :: "bytes \<Rightarrow> hash" where
  "hash_from_bytes bs = Hash bs"

text \<open>What the code relies on of \<open>blake3\<close>: a digest has 32 bytes.\<close>

definition digest32 :: "externals \<Rightarrow> bool" where
  "digest32 ext \<longleftrightarrow> (\<forall>data. length (blake3 ext data) = 32)"

lemma hash_new_wf: "digest32 ext \<Longrightarrow> hash_wf (hash_new ext data)"
  by (simp add: digest32_def hash_wf_def hash_new_def)

section \<open>Errors\<close>

datatype core_error =
    BlockNotFound
  | InvalidParent
  | DuplicateBlock
  | ConsensusError string
  | TransactionError string
  | InvalidSignature
  | InvalidPublicKey
  | SignatureVerificationFailed
  | ConfigError string
  | SerializationError string
  | PolynomialCommitmentError string
  | CryptographicError string
  | StorageError string
  | PrunedData string
  | InvalidState string
  | ValidationError string

end
