(* ===== verification/Transactions.thy ===== *)
theory Transactions
  imports Core_Types
begin

text \<open>
  Transactions and access sets: \<open>core/state/transaction.rs\<close> and
  \<open>core/state/access_set.rs\<close>. The WASM section scan of \<open>analyze_execution_payload\<close> only
  fills variables that are never read, so the model starts at the byte-pattern scan that
  produces its result.
\<close>

section \<open>Access sets\<close>

record access_set =
  read_set :: "bytes fset"
  write_set :: "bytes fset"

definition access_set_new :: access_set where
  "access_set_new = \<lparr>read_set = {||}, write_set = {||}\<rparr>"

definition has_conflict :: "access_set \<Rightarrow> access_set \<Rightarrow> bool" where
  "has_conflict self other \<longleftrightarrow>
     write_set self |\<inter>| read_set other \<noteq> {||} \<or>
     write_set self |\<inter>| write_set other \<noteq> {||} \<or>
     write_set other |\<inter>| read_set self \<noteq> {||}"

definition access_merge :: "access_set \<Rightarrow> access_set \<Rightarrow> access_set" where
  "access_merge self other =
     \<lparr>read_set = read_set self |\<union>| read_set other,
      write_set = write_set self |\<union>| write_set other\<rparr>"

section \<open>Transactions\<close>

datatype sighash_type = SigHashAll | SigHashNone | SigHashSingle

definition sighash_from_u8 :: "u8 \<Rightarrow> sighash_type option" where
  "sighash_from_u8 b =
     (if b = 1 then Some SigHashAll
      else if b = 2 then Some SigHashNone
      else if b = 3 then Some SigHashSingle
      else None)"

fun sighash_as_u8 :: "sighash_type \<Rightarrow> u8" where
  "sighash_as_u8 SigHashAll = 1"
| "sighash_as_u8 SigHashNone = 2"
| "sighash_as_u8 SigHashSingle = 3"

record tx_input =
  prev_tx :: hash
  index :: u32
  signature :: bytes
  pubkey :: bytes
  sighash_type :: sighash_type

record tx_output =
  out_value :: u64
  pubkey_hash :: hash

record transaction =
  tx_id :: hash
  inputs :: "tx_input list"
  outputs :: "tx_output list"
  execution_payload :: bytes
  contract_address :: "bytes option"
  gas_limit :: u64
  max_fee_per_gas :: u128
  chain_id :: u32
  locktime :: u32

text \<open>\<open>OutPoint = (Hash, u32)\<close>, the key of an unspent output.\<close>

type_synonym outpoint = "hash \<times> u32"

definition outpoint_of :: "tx_input \<Rightarrow> outpoint" where
  "outpoint_of i = (prev_tx i, index i)"

definition input_id_bytes :: "tx_input \<Rightarrow> bytes" where
  "input_id_bytes i =
     as_bytes (prev_tx i) @ to_be_bytes 4 (index i) @ pubkey i
     @ [sighash_as_u8 (sighash_type i)]"

definition output_bytes :: "tx_output \<Rightarrow> bytes" where
  "output_bytes o' = to_be_bytes 8 (out_value o') @ as_bytes (pubkey_hash o')"

definition calculate_id :: "externals \<Rightarrow> transaction \<Rightarrow> hash" where
  "calculate_id ext tx =
     hash_new ext
       (to_be_bytes 4 (chain_id tx)
        @ concat (map input_id_bytes (inputs tx))
        @ concat (map output_bytes (outputs tx))
        @ to_be_bytes 4 (locktime tx))"

definition transaction_default :: "externals \<Rightarrow> transaction" where
  "transaction_default ext =
     \<lparr>tx_id = hash_new ext [], inputs = [], outputs = [], execution_payload = [],
      contract_address = None, gas_limit = 0, max_fee_per_gas = 0, chain_id = 1,
      locktime = 0\<rparr>"

definition transaction_new :: "externals \<Rightarrow> tx_input list \<Rightarrow> tx_output list \<Rightarrow> transaction" where
  "transaction_new ext ins outs =
     (let tx = \<lparr>tx_id = hash_new ext [], inputs = ins, outputs = outs,
                execution_payload = [], contract_address = None, gas_limit = 0,
                max_fee_per_gas = 0, chain_id = 1, locktime = 0\<rparr>
      in tx\<lparr>tx_id := calculate_id ext tx\<rparr>)"

definition is_coinbase :: "transaction \<Rightarrow> bool" where
  "is_coinbase tx \<longleftrightarrow> inputs tx = []"

text \<open>The window positions of \<open>(0..payload.len().saturating_sub(32)).step_by(8)\<close>.\<close>

definition window_starts :: "bytes \<Rightarrow> nat list" where
  "window_starts payload = filter (\<lambda>i. i mod 8 = 0) [0..<length payload - 32]"

definition payload_slots :: "bytes \<Rightarrow> bytes list" where
  "payload_slots payload =
     (if 8 \<le> length payload
      then filter (\<lambda>slot. slot \<noteq> replicate 32 0 \<and> slot \<noteq> replicate 32 255)
             (map (\<lambda>i. take 32 (drop i payload)) (window_starts payload))
      else [])"

definition analyze_execution_payload :: "externals \<Rightarrow> bytes \<Rightarrow> access_set" where
  "analyze_execution_payload ext payload =
     (let slots = fset_of_list (payload_slots payload);
          found = \<lparr>read_set = slots, write_set = slots\<rparr>
      in if read_set found = {||} \<and> write_set found = {||}
         then found\<lparr>write_set := finsert (as_bytes (hash_new ext payload)) (write_set found)\<rparr>
         else found)"

definition hash_with_index :: "externals \<Rightarrow> transaction \<Rightarrow> u32 \<Rightarrow> bytes" where
  "hash_with_index ext tx i = as_bytes (hash_new ext (as_bytes (tx_id tx) @ to_be_bytes 4 i))"

definition generate_access_set :: "externals \<Rightarrow> transaction \<Rightarrow> access_set" where
  "generate_access_set ext tx =
     (let reads = fset_of_list
            (map (\<lambda>i. hash_with_index ext tx (of_nat i)) [0..<length (inputs tx)]);
          writes = fset_of_list
            (map (\<lambda>i. hash_with_index ext tx (of_nat i)) [0..<length (outputs tx)]);
          base = \<lparr>read_set = reads, write_set = writes\<rparr>
      in case contract_address tx of
           None \<Rightarrow> base
         | Some contract_addr \<Rightarrow>
             access_merge (base\<lparr>write_set := finsert contract_addr (write_set base)\<rparr>)
               (analyze_execution_payload ext (execution_payload tx)))"

definition serialize_output :: "tx_output \<Rightarrow> bytes" where
  "serialize_output o' = to_be_bytes 8 (out_value o') @ as_bytes (pubkey_hash o')"

definition deserialize_output :: "bytes \<Rightarrow> string + tx_output" where
  "deserialize_output bs =
     (if length bs \<noteq> 8 + 32 then Inl ''Invalid length for TxOutput''
      else Inr \<lparr>out_value = from_be_bytes (take 8 bs),
                pubkey_hash = hash_from_bytes (take 32 (drop 8 bs))\<rparr>)"

section \<open>Lemmas\<close>

lemma has_conflict_sym: "has_conflict a b \<longleftrightarrow> has_conflict b a"
  by (auto simp: has_conflict_def)

lemma has_conflict_iff:
  "has_conflict a b \<longleftrightarrow>
     (\<exists>k. k |\<in>| write_set a \<and> (k |\<in>| read_set b \<or> k |\<in>| write_set b)
        \<or> k |\<in>| write_set b \<and> k |\<in>| read_set a)"
  by (auto simp: has_conflict_def)

lemma has_conflict_merge_left:
  "has_conflict (access_merge a b) c \<longleftrightarrow> has_conflict a c \<or> has_conflict b c"
  by (auto simp: has_conflict_iff access_merge_def)

lemma has_conflict_new [simp]: "\<not> has_conflict access_set_new a"
  by (simp add: has_conflict_iff access_set_new_def)

lemma sighash_from_as_u8: "sighash_from_u8 (sighash_as_u8 s) = Some s"
  by (cases s) (simp_all add: sighash_from_u8_def)

lemma deserialize_serialize_output:
  "hash_wf (pubkey_hash o') \<Longrightarrow> deserialize_output (serialize_output o') = Inr o'"
  by (cases "pubkey_hash o'")
    (auto simp: deserialize_output_def serialize_output_def hash_wf_def hash_from_bytes_def)

lemma deserialize_output_wf:
  "deserialize_output bs = Inr o' \<Longrightarrow> hash_wf (pubkey_hash o')"
  by (auto simp: deserialize_output_def hash_wf_def hash_from_bytes_def split: if_splits)

text \<open>The slots a non-contract transaction touches all come from its own id.\<close>

lemma access_set_utxo_only:
  assumes "contract_address tx = None"
  shows "k |\<in>| read_set (generate_access_set ext tx) \<longleftrightarrow>
           (\<exists>i<length (inputs tx). k = hash_with_index ext tx (of_nat i))"
    and "k |\<in>| write_set (generate_access_set ext tx) \<longleftrightarrow>
           (\<exists>i<length (outputs tx). k = hash_with_index ext tx (of_nat i))"
  using assms by (auto simp: generate_access_set_def fset_of_list_elem)

end
