(* ===== verification/Schnorr.thy ===== *)
theory Schnorr
  imports Transactions
begin

text \<open>
  Signature hashing and batch verification: \<open>core/crypto/schnorr.rs\<close>. Key generation and
  signing (\<open>KeyPairWrapper\<close>) belong to the \<open>k256\<close> crate and are not modelled; verification is
  the parameter \<open>vk_verify\<close>.
\<close>

definition TAG_TX_SIGN :: bytes where
  "TAG_TX_SIGN = map (\<lambda>c. word_of_nat (of_char c)) ''KLOMANG_TX_V1''"

definition schnorr_verify :: "externals \<Rightarrow> verifying_key \<Rightarrow> bytes \<Rightarrow> schnorr_sig \<Rightarrow> bool" where
  "schnorr_verify ext vk msg sig' = vk_verify ext vk msg sig'"

text \<open>\<open>blake3(h || h || data)\<close> with \<open>h = blake3(tag)\<close>, cut to 32 bytes.\<close>

definition tagged_hash :: "externals \<Rightarrow> bytes \<Rightarrow> bytes \<Rightarrow> bytes" where
  "tagged_hash ext tag data =
     (let tag_hash = blake3 ext tag
      in take 32 (blake3 ext (tag_hash @ tag_hash @ data)))"

text \<open>The bytes one input contributes: the signed input its public key, every other input its
  outpoint.\<close>

definition sighash_input_bytes :: "nat \<Rightarrow> nat \<times> tx_input \<Rightarrow> bytes" where
  "sighash_input_bytes input_index p =
     (case p of (idx, i) \<Rightarrow>
        if idx = input_index then pubkey i
        else as_bytes (prev_tx i) @ to_be_bytes 4 (index i))"

definition sighash_inputs :: "nat \<Rightarrow> tx_input list \<Rightarrow> bytes" where
  "sighash_inputs input_index ins =
     concat (map (sighash_input_bytes input_index) (List.enumerate 0 ins))"

definition serialize_tx_for_sighash :: "transaction \<Rightarrow> nat \<Rightarrow> sighash_type \<Rightarrow> bytes" where
  "serialize_tx_for_sighash tx input_index sighash =
     to_be_bytes 4 (chain_id tx)
     @ (case sighash of
          SigHashAll \<Rightarrow>
            sighash_inputs input_index (inputs tx) @ concat (map output_bytes (outputs tx))
        | SigHashNone \<Rightarrow> sighash_inputs input_index (inputs tx)
        | SigHashSingle \<Rightarrow>
            sighash_inputs input_index (inputs tx)
            @ (if input_index < length (outputs tx)
               then output_bytes (outputs tx ! input_index) else []))
     @ to_be_bytes 4 (locktime tx)"

text \<open>The Rust function returns \<open>Ok\<close> on every path.\<close>

definition compute_sighash ::
    "externals \<Rightarrow> transaction \<Rightarrow> nat \<Rightarrow> sighash_type \<Rightarrow> core_error + bytes" where
  "compute_sighash ext tx input_index sighash =
     Inr (tagged_hash ext TAG_TX_SIGN (serialize_tx_for_sighash tx input_index sighash))"

text \<open>The array arguments have their lengths in their types; the length test on the signature
  is the code's own.\<close>

definition verify_schnorr :: "externals \<Rightarrow> bytes \<Rightarrow> bytes \<Rightarrow> bytes \<Rightarrow> core_error + bool" where
  "verify_schnorr ext pubkey_bytes sig_bytes msg =
     bind_res (ok_or InvalidPublicKey (vk_from_bytes ext pubkey_bytes)) (\<lambda>vk.
       if length sig_bytes \<noteq> 64 then Inl InvalidSignature
       else bind_res (ok_or InvalidSignature (sig_try_from ext sig_bytes)) (\<lambda>sig'.
         let msg_hash = tagged_hash ext TAG_TX_SIGN msg
         in Inr (vk_verify ext vk msg_hash sig')))"

type_synonym signature_item = "verifying_key \<times> bytes \<times> schnorr_sig"

definition item_ok :: "externals \<Rightarrow> signature_item \<Rightarrow> bool" where
  "item_ok ext item = (case item of (vk, msg, sig') \<Rightarrow> vk_verify ext vk msg sig')"

text \<open>One worker: the items of its chunk in order, stopping at the first failure.\<close>

fun verify_chunk :: "externals \<Rightarrow> signature_item list \<Rightarrow> bool" where
  "verify_chunk ext [] = True"
| "verify_chunk ext (item # items) = (if item_ok ext item then verify_chunk ext items else False)"

text \<open>The receiving loop over the workers' results.\<close>

fun collect_results :: "bool list \<Rightarrow> core_error + bool" where
  "collect_results [] = Inr True"
| "collect_results (result # results) =
     (if \<not> result then Inr False else collect_results results)"

text \<open>\<open>arrival\<close> is the order in which the worker threads deliver their results over the
  channel: any function that permutes them.\<close>

definition batch_verify ::
    "externals \<Rightarrow> (bool list \<Rightarrow> bool list) \<Rightarrow> signature_item list \<Rightarrow> core_error + bool" where
  "batch_verify ext arrival items =
     (if items = [] then Inr True
      else let chunk_size = 10; cs = chunks chunk_size items
           in if length cs = 1 then Inr (verify_chunk ext items)
              else collect_results (arrival (map (verify_chunk ext) cs)))"

section \<open>A concrete instance\<close>

text \<open>Simple stand-ins for the third-party functions, a transaction and its input, used where a
  property is applied to concrete values.\<close>

definition demo_ext :: externals where
  "demo_ext = \<lparr>blake3 = (\<lambda>data. take 32 (data @ replicate 32 0)),
     vk_from_bytes = (\<lambda>bs. if length bs = 32 then Some bs else None),
     sig_try_from = (\<lambda>bs. if length bs = 64 then Some bs else None),
     vk_verify = (\<lambda>key msg sig'. take 32 sig' = key)\<rparr>"

definition demo_input :: tx_input where
  "demo_input = \<lparr>prev_tx = Hash (replicate 32 7), index = 0, signature = replicate 64 1,
     pubkey = replicate 32 1, sighash_type = SigHashAll\<rparr>"

definition demo_tx :: transaction where
  "demo_tx = \<lparr>tx_id = Hash (replicate 32 9), inputs = [demo_input],
     outputs = [\<lparr>out_value = 60, pubkey_hash = Hash (replicate 32 2)\<rparr>],
     execution_payload = [], contract_address = None, gas_limit = 0, max_fee_per_gas = 0,
     chain_id = 1, locktime = 0\<rparr>"

section \<open>Lemmas\<close>

lemma verify_chunk_iff: "verify_chunk ext items \<longleftrightarrow> (\<forall>item\<in>set items. item_ok ext item)"
  by (induction items) auto

lemma collect_results_eq: "collect_results rs = Inr (\<forall>r\<in>set rs. r)"
  by (induction rs) auto

lemma batch_verify_eq:
  assumes "\<And>rs. mset (arrival rs) = mset rs"
  shows "batch_verify ext arrival items = Inr (\<forall>item\<in>set items. item_ok ext item)"
proof -
  have arr: "set (arrival rs) = set rs" for rs
    using assms [of rs] by (metis set_mset_mset)
  have "set (concat (chunks 10 items)) = set items"
    by (simp add: concat_chunks)
  then have "(\<forall>c\<in>set (chunks 10 items). \<forall>item\<in>set c. item_ok ext item)
      \<longleftrightarrow> (\<forall>item\<in>set items. item_ok ext item)"
    by (metis (no_types, lifting) UN_E UN_I set_concat)
  then show ?thesis
    by (auto simp: batch_verify_def Let_def verify_chunk_iff collect_results_eq arr)
qed

section \<open>Properties\<close>

text \<open>batch verification accepts exactly when every single signature verifies, whatever the
  number of chunks and whatever order the worker threads answer in.\<close>

theorem batch_verify_is_conjunction:
  assumes "\<And>rs. mset (arrival rs) = mset rs"
  shows "batch_verify ext arrival items
    = Inr (list_all (\<lambda>(vk, msg, sig'). schnorr_verify ext vk msg sig') items)"
  using batch_verify_eq [OF assms]
  by (simp add: list_all_iff item_ok_def schnorr_verify_def)

lemma demo_ext_digest32: "digest32 demo_ext"
  by (auto simp: digest32_def demo_ext_def min_def)

theorem batch_verify_is_conjunction_witness:
  "(\<forall>rs :: bool list. mset (rev rs) = mset rs)
   \<and> batch_verify demo_ext rev (replicate 11 (replicate 32 1, [], replicate 64 1)) = Inr True"
proof -
  have h: "mset (rev rs) = mset rs" for rs :: "bool list" by simp
  have "list_all (\<lambda>(vk, msg, sig'). schnorr_verify demo_ext vk msg sig')
      (replicate 11 (replicate 32 1, [], replicate 64 1))"
    by (simp add: schnorr_verify_def demo_ext_def list_all_iff)
  then show ?thesis
    using batch_verify_is_conjunction [where arrival = rev and ext = demo_ext, OF h] by simp
qed

text \<open>a signature does not commit to the output it spends: for every signature-hash type,
  pointing the signed input at any other outpoint leaves the hash that is signed unchanged, so
  the same signature is valid for spending every output locked to that key.\<close>

theorem sighash_ignores_own_outpoint:
  assumes "input_index < length (inputs tx)"
  shows "compute_sighash ext
      (tx\<lparr>inputs := (inputs tx)[input_index :=
             (inputs tx ! input_index)\<lparr>prev_tx := p, index := n\<rparr>]\<rparr>) input_index sighash
    = compute_sighash ext tx input_index sighash"
proof -
  let ?ins = "(inputs tx)[input_index := (inputs tx ! input_index)\<lparr>prev_tx := p, index := n\<rparr>]"
  have "map (sighash_input_bytes input_index) (List.enumerate 0 ?ins)
      = map (sighash_input_bytes input_index) (List.enumerate 0 (inputs tx))"
    using assms
    by (intro nth_equalityI)
      (auto simp: sighash_input_bytes_def nth_enumerate_eq nth_list_update)
  then have "sighash_inputs input_index ?ins = sighash_inputs input_index (inputs tx)"
    by (simp add: sighash_inputs_def)
  then show ?thesis
    by (simp add: compute_sighash_def serialize_tx_for_sighash_def split: sighash_type.split)
qed

theorem sighash_ignores_own_outpoint_witness:
  "0 < length (inputs demo_tx)
   \<and> compute_sighash demo_ext
       (demo_tx\<lparr>inputs := [demo_input\<lparr>prev_tx := Hash (replicate 32 8), index := 5\<rparr>]\<rparr>) 0 SigHashAll
     = compute_sighash demo_ext demo_tx 0 SigHashAll"
proof -
  have h: "0 < length (inputs demo_tx)" by (simp add: demo_tx_def)
  show ?thesis
    using h sighash_ignores_own_outpoint
      [OF h, where ext = demo_ext and p = "Hash (replicate 32 8)" and n = 5 and sighash = SigHashAll]
    by (simp add: demo_tx_def)
qed

end
