(* ===== verification/Dag.thy ===== *)
theory Dag
  imports Transactions
begin

text \<open>
  The block graph: \<open>core/dag/block.rs\<close>, \<open>core/dag/mod.rs\<close> and \<open>core/dag/anticone.rs\<close>.
  Traversals keep their explicit stack and visited set; the list's head is the top of the
  stack, so pushing \<open>p1, p2, ..\<close> puts them on in reverse. Where the code iterates over a
  \<open>HashSet\<close> and the result may depend on the order, the iteration order is an argument.
\<close>

section \<open>Blocks and the graph\<close>

record block_header =
  header_id :: hash
  parents :: "hash fset"
  timestamp :: u64
  difficulty :: u64
  nonce :: u64
  verkle_root :: hash
  verkle_proofs :: "bytes option"
  header_signature :: "bytes option"

record block_node =
  header :: block_header
  children :: "hash fset"
  selected_parent :: "hash option"
  blue_set :: "hash fset"
  red_set :: "hash fset"
  blue_score :: u64
  transactions :: "transaction list"

record dag =
  blocks :: "(hash, block_node) fmap"
  tips :: "hash fset"

definition dag_new :: dag where
  "dag_new = \<lparr>blocks = fmempty, tips = {||}\<rparr>"

definition get_all_hashes :: "dag \<Rightarrow> hash list" where
  "get_all_hashes self = sorted_list_of_fset (fmdom (blocks self))"

text \<open>A write through \<open>get_block_mut\<close> (or \<open>blocks.get_mut\<close>): \<open>f\<close> is applied to the stored
  block when there is one.\<close>

definition get_block_mut :: "hash \<Rightarrow> (block_node \<Rightarrow> block_node) \<Rightarrow> dag \<Rightarrow> dag" where
  "get_block_mut h f self =
     (case fmlookup (blocks self) h of
        None \<Rightarrow> self
      | Some b \<Rightarrow> self\<lparr>blocks := fmupd h (f b) (blocks self)\<rparr>)"

definition add_child :: "hash \<Rightarrow> block_node \<Rightarrow> block_node" where
  "add_child h b = b\<lparr>children := finsert h (children b)\<rparr>"

definition remove_child :: "hash \<Rightarrow> block_node \<Rightarrow> block_node" where
  "remove_child h b = b\<lparr>children := children b |-| {|h|}\<rparr>"

definition remove_parent :: "hash \<Rightarrow> block_node \<Rightarrow> block_node" where
  "remove_parent h b = b\<lparr>header := (header b)\<lparr>parents := parents (header b) |-| {|h|}\<rparr>\<rparr>"

definition add_block :: "dag \<Rightarrow> block_node \<Rightarrow> dag \<times> (core_error + unit)" where
  "add_block self block =
     (let h = header_id (header block); ps = parents (header block) in
      if h |\<in>| fmdom (blocks self) then (self, Inl DuplicateBlock)
      else if h |\<in>| ps
      then (self, Inl (ConsensusError ''Block cannot reference itself as parent''))
      else if ps = {||} \<and> blocks self \<noteq> fmempty
      then (self, Inl (ConsensusError ''Genesis block already exists''))
      else if \<not> ps |\<subseteq>| fmdom (blocks self) then (self, Inl InvalidParent)
      else
        let inserted = self\<lparr>blocks := fmupd h block (blocks self)\<rparr>;
            linked = fold (\<lambda>p. get_block_mut p (add_child h)) (sorted_list_of_fset ps) inserted
        in (linked\<lparr>tips := finsert h (tips linked |-| ps)\<rparr>, Inr ()))"

definition get_block :: "dag \<Rightarrow> hash \<Rightarrow> block_node option" where
  "get_block self h = fmlookup (blocks self) h"

definition get_tips :: "dag \<Rightarrow> hash list" where
  "get_tips self = sorted_list_of_fset (tips self)"

section \<open>Traversals\<close>

text \<open>The parents that a visit of \<open>h\<close> pushes, in sorted order.\<close>

definition sorted_parents :: "dag \<Rightarrow> hash \<Rightarrow> hash list" where
  "sorted_parents self h =
     (case fmlookup (blocks self) h of
        None \<Rightarrow> []
      | Some b \<Rightarrow> sorted_list_of_fset (parents (header b)))"

definition sorted_children :: "dag \<Rightarrow> hash \<Rightarrow> hash list" where
  "sorted_children self h =
     (case fmlookup (blocks self) h of
        None \<Rightarrow> []
      | Some b \<Rightarrow> sorted_list_of_fset (children b))"

function is_ancestor_loop :: "dag \<Rightarrow> hash \<Rightarrow> hash fset \<Rightarrow> hash list \<Rightarrow> bool" where
  "is_ancestor_loop self a visited [] = False"
| "is_ancestor_loop self a visited (current # stack) =
     (if current |\<in>| visited then is_ancestor_loop self a visited stack
      else if a \<in> set (sorted_parents self current) then True
      else is_ancestor_loop self a (finsert current visited)
             (rev (sorted_parents self current) @ stack))"
  by pat_completeness auto

function get_ancestors_loop ::
    "dag \<Rightarrow> hash fset \<Rightarrow> hash fset \<Rightarrow> hash list \<Rightarrow> hash fset" where
  "get_ancestors_loop self ancestors visited [] = ancestors"
| "get_ancestors_loop self ancestors visited (current # stack) =
     (if current |\<in>| visited then get_ancestors_loop self ancestors visited stack
      else get_ancestors_loop self
             (ancestors |\<union>| fset_of_list (sorted_parents self current))
             (finsert current visited)
             (rev (sorted_parents self current) @ stack))"
  by pat_completeness auto

text \<open>\<open>visited.insert(child)\<close> succeeds on exactly the children not visited before.\<close>

function get_descendants_loop ::
    "dag \<Rightarrow> hash list \<Rightarrow> hash fset \<Rightarrow> hash list \<Rightarrow> hash list" where
  "get_descendants_loop self descendants visited [] = descendants"
| "get_descendants_loop self descendants visited (current # stack) =
     (let new = filter (\<lambda>c. c |\<notin>| visited) (sorted_children self current)
      in get_descendants_loop self (descendants @ new) (visited |\<union>| fset_of_list new)
           (rev new @ stack))"
  by pat_completeness auto

text \<open>Every visit either takes a stored block out of the unvisited ones or shortens the stack.\<close>

definition unvisited :: "dag \<Rightarrow> hash fset \<Rightarrow> nat" where
  "unvisited self visited = card (fmdom' (blocks self) - fset visited)"

definition all_children :: "dag \<Rightarrow> hash set" where
  "all_children self = (\<Union>b\<in>fmran' (blocks self). fset (children b))"

lemma unvisited_visit:
  assumes "h |\<notin>| visited" and "sorted_parents self h \<noteq> []"
  shows "unvisited self (finsert h visited) < unvisited self visited"
proof -
  have "h \<in> fmdom' (blocks self) - fset visited"
    using assms by (auto simp: sorted_parents_def fmlookup_dom'_iff split: option.splits)
  then show ?thesis
    unfolding unvisited_def by (intro psubset_card_mono) auto
qed

lemma unvisited_le: "unvisited self (finsert h visited) \<le> unvisited self visited"
  unfolding unvisited_def by (rule card_mono) auto

lemma visit_decreases:
  "h |\<notin>| visited \<Longrightarrow> unvisited self (finsert h visited) < unvisited self visited
   \<or> unvisited self (finsert h visited) = unvisited self visited \<and> sorted_parents self h = []"
  using unvisited_visit [of h visited self] unvisited_le [of self h visited] by fastforce

lemma finite_all_children: "finite (all_children self)"
  by (simp add: all_children_def fmran'_alt_def)

lemma sorted_children_subset: "set (sorted_children self h) \<subseteq> all_children self"
  by (force simp: sorted_children_def all_children_def split: option.splits intro: fmran'I)

lemma card_diff_new:
  assumes "finite U" and "distinct new" and "set new \<subseteq> U - V"
  shows "card (U - (V \<union> set new)) + length new = card (U - V)"
proof -
  have "U - (V \<union> set new) = (U - V) - set new" by blast
  then show ?thesis
    using assms card_Diff_subset [of "set new" "U - V"] card_mono [of "U - V" "set new"]
    by (simp add: distinct_card)
qed

termination is_ancestor_loop
  by (relation "measures [\<lambda>(self, a, visited, stack). unvisited self visited,
        \<lambda>(self, a, visited, stack). length stack]")
    (auto dest!: visit_decreases)

termination get_ancestors_loop
  by (relation "measures [\<lambda>(self, anc, visited, stack). unvisited self visited,
        \<lambda>(self, anc, visited, stack). length stack]")
    (auto dest!: visit_decreases)

lemma distinct_sorted_children: "distinct (sorted_children self h)"
  by (auto simp: sorted_children_def split: option.splits)

termination get_descendants_loop
proof (relation "measure (\<lambda>(self, desc, visited, stack).
    card (all_children self - fset visited) + length stack)", goal_cases)
  case 1
  then show ?case by simp
next
  case (2 self descendants visited current stack new)
  have "card (all_children self - (fset visited \<union> set new)) + length new
      = card (all_children self - fset visited)"
    using sorted_children_subset [of self current]
    by (intro card_diff_new) (auto simp: 2 distinct_sorted_children finite_all_children)
  then show ?case by (simp add: fset_of_list.rep_eq)
qed

definition is_ancestor :: "dag \<Rightarrow> hash \<Rightarrow> hash \<Rightarrow> bool" where
  "is_ancestor self a b \<longleftrightarrow> a \<noteq> b \<and> is_ancestor_loop self a {||} [b]"

definition get_ancestors :: "dag \<Rightarrow> hash \<Rightarrow> hash list" where
  "get_ancestors self h = sorted_list_of_fset (get_ancestors_loop self {||} {||} [h])"

definition get_descendants :: "dag \<Rightarrow> hash \<Rightarrow> hash list" where
  "get_descendants self h = sort (get_descendants_loop self [] {|h|} [h])"

text \<open>The scan of the common ancestors for the first one of greatest positive blue score.\<close>

fun best_by_score :: "dag \<Rightarrow> u64 \<Rightarrow> hash option \<Rightarrow> hash list \<Rightarrow> hash option" where
  "best_by_score self max_blue_score lca [] = lca"
| "best_by_score self max_blue_score lca (h # hs) =
     (case fmlookup (blocks self) h of
        Some block \<Rightarrow>
          (if max_blue_score < blue_score block
           then best_by_score self (blue_score block) (Some h) hs
           else best_by_score self max_blue_score lca hs)
      | None \<Rightarrow> best_by_score self max_blue_score lca hs)"

definition common_ancestors :: "dag \<Rightarrow> hash \<Rightarrow> hash \<Rightarrow> hash fset" where
  "common_ancestors self a b =
     finsert a (fset_of_list (get_ancestors self a))
     |\<inter>| finsert b (fset_of_list (get_ancestors self b))"

definition find_common_ancestor ::
    "(hash fset \<Rightarrow> hash list) \<Rightarrow> dag \<Rightarrow> hash \<Rightarrow> hash \<Rightarrow> hash option" where
  "find_common_ancestor iter self a b =
     (if a = b then Some a
      else if common_ancestors self a b = {||} then None
      else best_by_score self 0 None (iter (common_ancestors self a b)))"

definition get_anticone :: "dag \<Rightarrow> hash \<Rightarrow> hash list" where
  "get_anticone self h =
     filter (\<lambda>x. x \<noteq> h \<and> x \<notin> set (get_ancestors self h) \<and> x \<notin> set (get_descendants self h))
       (get_all_hashes self)"

definition block_exists :: "dag \<Rightarrow> hash \<Rightarrow> bool" where
  "block_exists self h \<longleftrightarrow> h |\<in>| fmdom (blocks self)"

definition get_block_count :: "dag \<Rightarrow> nat" where
  "get_block_count self = fcard (fmdom (blocks self))"

definition remove_block :: "dag \<Rightarrow> hash \<Rightarrow> dag" where
  "remove_block self h =
     (case fmlookup (blocks self) h of
        None \<Rightarrow> self
      | Some block \<Rightarrow>
          fold (\<lambda>c. get_block_mut c (remove_parent h)) (sorted_list_of_fset (children block))
            (fold (\<lambda>p. get_block_mut p (remove_child h))
               (sorted_list_of_fset (parents (header block)))
               (self\<lparr>blocks := fmdrop h (blocks self), tips := tips self |-| {|h|}\<rparr>)))"


section \<open>Abstract graph and invariant\<close>

text \<open>\<open>parent_rel\<close> holds of a stored block and each of its parents, \<open>child_rel\<close> of a stored
  block and each of its recorded children.\<close>

definition parent_rel :: "dag \<Rightarrow> (hash \<times> hash) set" where
  "parent_rel self = {(c, p). p \<in> set (sorted_parents self c)}"

definition child_rel :: "dag \<Rightarrow> (hash \<times> hash) set" where
  "child_rel self = {(p, c). c \<in> set (sorted_children self p)}"

text \<open>\<open>dag_links\<close>: blocks are stored under their own id, parents are stored, children mirror
  parents, and there is no cycle. \<open>tips_exact\<close>: the tips are the stored blocks no stored
  block has as a parent.\<close>

definition ids_match :: "dag \<Rightarrow> bool" where
  "ids_match self \<longleftrightarrow>
     (\<forall>h b. fmlookup (blocks self) h = Some b \<longrightarrow> header_id (header b) = h)"

definition dag_links :: "dag \<Rightarrow> bool" where
  "dag_links self \<longleftrightarrow> ids_match self
     \<and> snd ` parent_rel self \<subseteq> fmdom' (blocks self)
     \<and> child_rel self = (parent_rel self)\<inverse>
     \<and> acyclic (parent_rel self)"

definition childless :: "dag \<Rightarrow> hash set" where
  "childless self = fmdom' (blocks self) - snd ` parent_rel self"

definition tips_exact :: "dag \<Rightarrow> bool" where
  "tips_exact self \<longleftrightarrow> fset (tips self) = childless self"

definition dag_wf :: "dag \<Rightarrow> bool" where
  "dag_wf self \<longleftrightarrow> dag_links self \<and> tips_exact self"

text \<open>Bare blocks, for concrete instances.\<close>

definition bare_block :: "hash \<Rightarrow> hash fset \<Rightarrow> block_node" where
  "bare_block h ps =
     \<lparr>header = \<lparr>header_id = h, parents = ps, timestamp = 0, difficulty = 1, nonce = 0,
        verkle_root = h, verkle_proofs = None, header_signature = None\<rparr>,
      children = {||}, selected_parent = None, blue_set = {||}, red_set = {||},
      blue_score = 0, transactions = []\<rparr>"

definition hash_a :: hash where
  "hash_a = Hash (replicate 32 1)"

definition hash_b :: hash where
  "hash_b = Hash (replicate 32 2)"

definition demo_dag :: dag where
  "demo_dag = fst (add_block (fst (add_block dag_new (bare_block hash_a {||})))
     (bare_block hash_b {|hash_a|}))"

text \<open>The stored blue score, zero for a block that is not stored.\<close>

definition score_of :: "dag \<Rightarrow> hash \<Rightarrow> u64" where
  "score_of self h = (case fmlookup (blocks self) h of None \<Rightarrow> 0 | Some b \<Rightarrow> blue_score b)"

section \<open>The traversals compute closures\<close>

lemma parent_rel_iff:
  "(c, p) \<in> parent_rel self \<longleftrightarrow>
     (\<exists>b. fmlookup (blocks self) c = Some b \<and> p |\<in>| parents (header b))"
  by (cases "fmlookup (blocks self) c") (auto simp: parent_rel_def sorted_parents_def)

lemma child_rel_iff:
  "(p, c) \<in> child_rel self \<longleftrightarrow>
     (\<exists>b. fmlookup (blocks self) p = Some b \<and> c |\<in>| children b)"
  by (cases "fmlookup (blocks self) p") (auto simp: child_rel_def sorted_children_def)

lemma parent_rel_image: "parent_rel self `` {c} = set (sorted_parents self c)"
  by (auto simp: parent_rel_def)

lemma child_rel_image: "child_rel self `` {c} = set (sorted_children self c)"
  by (auto simp: child_rel_def)

text \<open>One visit does not change the set reachable from the visited and the waiting nodes.\<close>

lemma closure_visit:
  "r\<^sup>* `` (insert c V \<union> (r `` {c} \<union> S)) = r\<^sup>* `` (V \<union> insert c S)"
  by (auto intro: converse_rtrancl_into_rtrancl)

lemma closure_done: "r `` V \<subseteq> V \<Longrightarrow> r\<^sup>* `` V = V"
  by (auto dest: Image_closed_trancl)

lemma get_ancestors_loop_closure:
  assumes "parent_rel self `` fset visited \<subseteq> fset visited \<union> set stack"
    and "fset anc = parent_rel self `` fset visited"
  shows "fset (get_ancestors_loop self anc visited stack)
    = parent_rel self `` ((parent_rel self)\<^sup>* `` (fset visited \<union> set stack))"
  using assms
proof (induction self anc visited stack rule: get_ancestors_loop.induct)
  case (1 self anc visited)
  then show ?case by (simp add: closure_done)
next
  case (2 self anc visited current stack)
  show ?case
  proof (cases "current |\<in>| visited")
    case True
    with 2 show ?thesis by (simp add: insert_absorb)
  next
    case False
    let ?r = "parent_rel self" and ?V = "finsert current visited"
    let ?st = "rev (sorted_parents self current) @ stack"
    have st: "set ?st = ?r `` {current} \<union> set stack"
      by (simp add: parent_rel_image)
    have "fset (get_ancestors_loop self (anc |\<union>| fset_of_list (sorted_parents self current)) ?V ?st)
        = ?r `` (?r\<^sup>* `` (fset ?V \<union> set ?st))"
    proof (rule 2(2) [OF False])
      show "?r `` fset ?V \<subseteq> fset ?V \<union> set ?st"
        using 2(3) unfolding st by auto
      show "fset (anc |\<union>| fset_of_list (sorted_parents self current)) = ?r `` fset ?V"
        using 2(4) parent_rel_image [of self current] by (auto simp: fset_of_list.rep_eq)
    qed
    with False show ?thesis
      unfolding st by (simp add: closure_visit del: Un_insert_right Un_insert_left)
  qed
qed

lemma set_get_ancestors: "set (get_ancestors self h) = (parent_rel self)\<^sup>+ `` {h}"
proof -
  have "fset (get_ancestors_loop self {||} {||} [h])
      = parent_rel self `` ((parent_rel self)\<^sup>* `` {h})"
    by (subst get_ancestors_loop_closure) simp_all
  then show ?thesis
    by (auto simp: get_ancestors_def trancl_unfold_right)
qed

lemma is_ancestor_loop_closure:
  assumes "parent_rel self `` fset visited \<subseteq> fset visited \<union> set stack"
    and "a \<notin> parent_rel self `` fset visited"
  shows "is_ancestor_loop self a visited stack \<longleftrightarrow>
    a \<in> parent_rel self `` ((parent_rel self)\<^sup>* `` (fset visited \<union> set stack))"
  using assms
proof (induction self a visited stack rule: is_ancestor_loop.induct)
  case (1 self a visited)
  then show ?case by (simp add: closure_done)
next
  case (2 self a visited current stack)
  let ?r = "parent_rel self"
  consider "current |\<in>| visited"
    | "current |\<notin>| visited" "a \<in> set (sorted_parents self current)"
    | "current |\<notin>| visited" "a \<notin> set (sorted_parents self current)"
    by blast
  then show ?case
  proof cases
    case 1
    with 2 show ?thesis by (simp add: insert_absorb)
  next
    case 2
    then have "a \<in> ?r `` {current}"
      by (simp add: parent_rel_image)
    then have "a \<in> ?r `` (?r\<^sup>* `` (fset visited \<union> set (current # stack)))"
      by (auto intro!: ImageI [of current])
    with 2 show ?thesis by simp
  next
    case 3
    let ?V = "finsert current visited" and ?st = "rev (sorted_parents self current) @ stack"
    have st: "set ?st = ?r `` {current} \<union> set stack"
      by (simp add: parent_rel_image)
    have "is_ancestor_loop self a ?V ?st \<longleftrightarrow> a \<in> ?r `` (?r\<^sup>* `` (fset ?V \<union> set ?st))"
    proof (rule 2(2) [OF 3])
      show "?r `` fset ?V \<subseteq> fset ?V \<union> set ?st"
        using 2(3) unfolding st by auto
      show "a \<notin> ?r `` fset ?V"
        using 2(4) 3 parent_rel_image [of self current] by auto
    qed
    with 3 show ?thesis
      unfolding st by (simp add: closure_visit del: Un_insert_right Un_insert_left)
  qed
qed

lemma is_ancestor_iff:
  "is_ancestor self a b \<longleftrightarrow> a \<noteq> b \<and> (b, a) \<in> (parent_rel self)\<^sup>+"
proof -
  have "is_ancestor_loop self a {||} [b]
      \<longleftrightarrow> a \<in> parent_rel self `` ((parent_rel self)\<^sup>* `` {b})"
    by (subst is_ancestor_loop_closure) simp_all
  then show ?thesis
    by (auto simp: is_ancestor_def trancl_unfold_right simp del: is_ancestor_loop.simps)
qed

lemma get_descendants_loop_closure:
  assumes "child_rel self `` (fset visited - set stack) \<subseteq> fset visited"
    and "set stack \<subseteq> fset visited" and "root |\<in>| visited"
    and "set desc = fset visited - {root}"
  shows "set (get_descendants_loop self desc visited stack)
    = (child_rel self)\<^sup>* `` fset visited - {root}"
  using assms
proof (induction self desc visited stack rule: get_descendants_loop.induct)
  case (1 self desc visited)
  then show ?case by (simp add: closure_done)
next
  case (2 self desc visited current stack)
  let ?new = "filter (\<lambda>c. c |\<notin>| visited) (sorted_children self current)"
  let ?r = "child_rel self"
  have cur: "current |\<in>| visited" using 2(3) by simp
  have V: "fset (visited |\<union>| fset_of_list ?new) = fset visited \<union> ?r `` {current}"
    by (auto simp: fset_of_list.rep_eq child_rel_image)
  have "set (get_descendants_loop self (desc @ ?new) (visited |\<union>| fset_of_list ?new) (rev ?new @ stack))
      = ?r\<^sup>* `` fset (visited |\<union>| fset_of_list ?new) - {root}"
  proof (rule 2(1) [OF refl])
    show "?r `` (fset (visited |\<union>| fset_of_list ?new) - set (rev ?new @ stack))
        \<subseteq> fset (visited |\<union>| fset_of_list ?new)"
      using 2(2) unfolding V by (auto simp: child_rel_def)
    show "set (rev ?new @ stack) \<subseteq> fset (visited |\<union>| fset_of_list ?new)"
      using 2(3) by (auto simp: fset_of_list.rep_eq)
    show "root |\<in>| visited |\<union>| fset_of_list ?new" using 2(4) by simp
    show "set (desc @ ?new) = fset (visited |\<union>| fset_of_list ?new) - {root}"
      using 2(4,5) by (auto simp: fset_of_list.rep_eq)
  qed
  moreover have "?r\<^sup>* `` (fset visited \<union> ?r `` {current}) = ?r\<^sup>* `` fset visited"
    using cur by (auto intro: converse_rtrancl_into_rtrancl)
  ultimately show ?case
    unfolding V by (simp add: Let_def)
qed

lemma set_get_descendants:
  "set (get_descendants self h) = (child_rel self)\<^sup>* `` {h} - {h}"
  using get_descendants_loop_closure [of self "{|h|}" "[h]" h "[]"]
  by (simp add: get_descendants_def del: get_descendants_loop.simps)

lemma distinct_get_descendants_loop:
  "distinct desc \<Longrightarrow> set desc \<subseteq> fset visited \<Longrightarrow>
   distinct (get_descendants_loop self desc visited stack)"
proof (induction self desc visited stack rule: get_descendants_loop.induct)
  case (1 self desc visited)
  then show ?case by simp
next
  case (2 self desc visited current stack)
  then show ?case
    by (auto simp: Let_def distinct_sorted_children fset_of_list.rep_eq)
qed

lemma traversal_lists:
  "sorted (get_ancestors self h)" "distinct (get_ancestors self h)"
  "sorted (get_descendants self h)" "distinct (get_descendants self h)"
  by (simp_all add: get_ancestors_def get_descendants_def distinct_get_descendants_loop
      del: get_ancestors_loop.simps get_descendants_loop.simps)

lemma dag_links_acyclic: "dag_links self \<Longrightarrow> (h, h) \<notin> (parent_rel self)\<^sup>+"
  by (simp add: dag_links_def acyclic_def)

lemma set_get_descendants_wf:
  assumes "dag_links self"
  shows "set (get_descendants self h) = ((parent_rel self)\<^sup>+)\<inverse> `` {h}"
proof -
  have "child_rel self = (parent_rel self)\<inverse>"
    using assms by (simp add: dag_links_def)
  then have "set (get_descendants self h) = ((parent_rel self)\<^sup>*)\<inverse> `` {h} - {h}"
    by (simp add: set_get_descendants rtrancl_converse)
  also have "\<dots> = ((parent_rel self)\<^sup>+)\<inverse> `` {h}"
    using dag_links_acyclic [OF assms] by (auto simp: rtrancl_eq_or_trancl)
  finally show ?thesis .
qed

section \<open>Operations keep the invariant\<close>

lemma get_block_mut_lookup:
  "fmlookup (blocks (get_block_mut h f self)) k
     = (if k = h then map_option f (fmlookup (blocks self) k) else fmlookup (blocks self) k)"
  by (auto simp: get_block_mut_def split: option.splits)

lemma get_block_mut_tips [simp]: "tips (get_block_mut h f self) = tips self"
  by (auto simp: get_block_mut_def split: option.splits)

lemma fold_get_block_mut_lookup:
  "distinct hs \<Longrightarrow> fmlookup (blocks (fold (\<lambda>h. get_block_mut h f) hs self)) k
     = (if k \<in> set hs then map_option f (fmlookup (blocks self) k)
        else fmlookup (blocks self) k)"
  by (induction hs arbitrary: self) (auto simp: get_block_mut_lookup)

lemma fold_get_block_mut_tips [simp]:
  "tips (fold (\<lambda>h. get_block_mut h f) hs self) = tips self"
  by (induction hs arbitrary: self) auto

lemma add_child_simps [simp]:
  "header (add_child h b) = header b" "children (add_child h b) = finsert h (children b)"
  by (simp_all add: add_child_def)

lemma remove_child_simps [simp]:
  "header (remove_child h b) = header b" "children (remove_child h b) = children b |-| {|h|}"
  by (simp_all add: remove_child_def)

lemma remove_parent_simps [simp]:
  "children (remove_parent h b) = children b"
  "header_id (header (remove_parent h b)) = header_id (header b)"
  "parents (header (remove_parent h b)) = parents (header b) |-| {|h|}"
  by (simp_all add: remove_parent_def)

text \<open>What a successful \<open>add_block\<close> leaves behind.\<close>

lemma add_block_ok:
  assumes "add_block self block = (self', Inr ())"
  defines "h \<equiv> header_id (header block)" and "ps \<equiv> parents (header block)"
  shows "h |\<notin>| fmdom (blocks self)" and "h |\<notin>| ps" and "ps |\<subseteq>| fmdom (blocks self)"
    and "fmlookup (blocks self') k =
      (if k = h then Some block
       else if k |\<in>| ps then map_option (add_child h) (fmlookup (blocks self) k)
       else fmlookup (blocks self) k)"
    and "tips self' = finsert h (tips self |-| ps)"
  using assms by (auto simp: add_block_def Let_def fold_get_block_mut_lookup split: if_splits)

lemma fmdom'_lookup: "k \<in> fmdom' m \<longleftrightarrow> fmlookup m k \<noteq> None"
  by (auto simp: fmlookup_dom'_iff)

lemma add_block_rels:
  assumes "add_block self block = (self', Inr ())"
  defines "h \<equiv> header_id (header block)" and "ps \<equiv> parents (header block)"
  shows "fmdom' (blocks self') = insert h (fmdom' (blocks self))"
    and "parent_rel self' = parent_rel self \<union> {h} \<times> fset ps"
    and "child_rel self' = child_rel self \<union> fset ps \<times> {h} \<union> {h} \<times> fset (children block)"
    and "snd ` parent_rel self' = snd ` parent_rel self \<union> fset ps"
proof -
  note ok = add_block_ok [OF assms(1), folded h_def ps_def]
  from ok(1) have h: "fmlookup (blocks self) h = None"
    by (simp add: fmdom_notD)
  have ps: "p |\<in>| ps \<Longrightarrow> \<exists>b. fmlookup (blocks self) p = Some b" for p
    using ok(3) by (auto simp: fmlookup_dom_iff)
  show "fmdom' (blocks self') = insert h (fmdom' (blocks self))"
    by (auto simp: fmdom'_lookup ok(4) split: if_splits)
  show rel: "parent_rel self' = parent_rel self \<union> {h} \<times> fset ps"
    using h by (auto simp: parent_rel_iff ok(4) ps_def split: if_splits)
  then show "snd ` parent_rel self' = snd ` parent_rel self \<union> fset ps"
    by (force simp: image_iff)
  show "child_rel self' = child_rel self \<union> fset ps \<times> {h} \<union> {h} \<times> fset (children block)"
    using h ok(2) ps by (fastforce simp: child_rel_iff ok(4) split: if_splits)
qed

text \<open>Edges that leave a node nothing points to close no cycle.\<close>

lemma acyclic_add_source:
  assumes "acyclic r" and "h \<notin> snd ` r" and "h \<notin> P"
  shows "acyclic (r \<union> {h} \<times> P)"
proof -
  have "y \<noteq> h \<and> (x = h \<or> (x, y) \<in> r\<^sup>+)" if "(x, y) \<in> (r \<union> {h} \<times> P)\<^sup>+" for x y
    using that
  proof (induction rule: trancl_induct)
    case (base y)
    with assms show ?case by force
  next
    case (step y z)
    then have "(y, z) \<in> r" by blast
    with step assms(2) show ?case by (force intro: trancl_into_trancl)
  qed
  with assms(1) show ?thesis
    unfolding acyclic_def by blast
qed

lemma add_block_links:
  assumes "dag_links self" and "children block = {||}"
    and "add_block self block = (self', Inr ())"
  shows "dag_links self'"
proof -
  let ?h = "header_id (header block)" and ?ps = "parents (header block)"
  note ok = add_block_ok [OF assms(3)] and rels = add_block_rels [OF assms(3)]
  have fresh: "?h \<notin> snd ` parent_rel self"
    using assms(1) ok(1) by (auto simp: dag_links_def fmdom'_alt_def)
  have "ids_match self'"
    using assms(1) by (auto simp: dag_links_def ids_match_def ok(4) split: if_splits)
  moreover have "snd ` parent_rel self' \<subseteq> fmdom' (blocks self')"
    using assms(1) ok(3) unfolding rels(1,4) by (auto simp: dag_links_def fmdom'_alt_def)
  moreover have "child_rel self' = (parent_rel self')\<inverse>"
    using assms(1,2) by (auto simp: dag_links_def rels)
  moreover have "acyclic (parent_rel self')"
    using assms(1) ok(2) fresh unfolding rels dag_links_def
    by (intro acyclic_add_source) auto
  ultimately show ?thesis by (simp add: dag_links_def)
qed

lemma add_block_tips:
  assumes "dag_wf self" and "add_block self block = (self', Inr ())"
  shows "tips_exact self'"
proof -
  have "header_id (header block) \<notin> snd ` parent_rel self"
    using assms(1) add_block_ok(1) [OF assms(2)] by (auto simp: dag_wf_def dag_links_def fmdom'_alt_def)
  then show ?thesis
    using assms(1) add_block_ok(2) [OF assms(2)]
    by (auto simp: dag_wf_def tips_exact_def childless_def add_block_rels(1,4) [OF assms(2)]
        add_block_ok(5) [OF assms(2)])
qed

lemma add_block_wf:
  "dag_wf self \<Longrightarrow> children block = {||} \<Longrightarrow> add_block self block = (self', Inr ()) \<Longrightarrow> dag_wf self'"
  unfolding dag_wf_def [of self']
  using add_block_links add_block_tips by (auto simp: dag_wf_def)

lemma dag_new_wf: "dag_wf dag_new"
proof -
  have "parent_rel dag_new = {}" "child_rel dag_new = {}"
    by (auto simp: parent_rel_iff child_rel_iff dag_new_def)
  then show ?thesis
    by (simp add: dag_wf_def dag_links_def tips_exact_def childless_def ids_match_def
        acyclic_def dag_new_def)
qed

text \<open>Removal: the block and every edge at it disappear.\<close>

lemma remove_block_lookup:
  assumes "fmlookup (blocks self) h = Some block"
  shows "fmlookup (blocks (remove_block self h)) k =
    (if k = h then None
     else (let b1 = (if k |\<in>| parents (header block)
                 then map_option (remove_child h) (fmlookup (blocks self) k)
                 else fmlookup (blocks self) k)
       in if k |\<in>| children block then map_option (remove_parent h) b1 else b1))"
  using assms by (auto simp: remove_block_def fold_get_block_mut_lookup Let_def)

lemma remove_block_rels:
  assumes "dag_links self" and "fmlookup (blocks self) h = Some block"
  shows "fmdom' (blocks (remove_block self h)) = fmdom' (blocks self) - {h}"
    and "parent_rel (remove_block self h) = parent_rel self - {h} \<times> UNIV - UNIV \<times> {h}"
    and "child_rel (remove_block self h) = child_rel self - {h} \<times> UNIV - UNIV \<times> {h}"
proof -
  have link: "(c, p) \<in> parent_rel self \<longleftrightarrow> (p, c) \<in> child_rel self" for c p
    using assms(1) by (auto simp: dag_links_def)
  have kids: "c |\<in>| children block \<longleftrightarrow> (c, h) \<in> parent_rel self" for c
    using link [of c h] assms(2) by (simp add: child_rel_iff)
  have pars: "p |\<in>| parents (header block) \<longleftrightarrow> (p, h) \<in> child_rel self" for p
    using link [of h p] assms(2) by (simp add: parent_rel_iff)
  note lk = remove_block_lookup [OF assms(2)]
  show "fmdom' (blocks (remove_block self h)) = fmdom' (blocks self) - {h}"
    by (auto simp: fmdom'_lookup lk Let_def split: if_splits)
  show "parent_rel (remove_block self h) = parent_rel self - {h} \<times> UNIV - UNIV \<times> {h}"
    unfolding set_eq_iff
    by (auto simp: parent_rel_iff lk Let_def kids split: if_splits)
  show "child_rel (remove_block self h) = child_rel self - {h} \<times> UNIV - UNIV \<times> {h}"
    unfolding set_eq_iff
    by (auto simp: child_rel_iff lk Let_def pars split: if_splits)
qed

lemma remove_block_absent: "fmlookup (blocks self) h = None \<Longrightarrow> remove_block self h = self"
  by (simp add: remove_block_def)

lemma remove_block_ids: "ids_match self \<Longrightarrow> ids_match (remove_block self h)"
  by (cases "fmlookup (blocks self) h")
    (auto simp: remove_block_absent ids_match_def remove_block_lookup Let_def split: if_splits)

lemma remove_block_tips:
  "tips (remove_block self h)
     = (if fmlookup (blocks self) h = None then tips self else tips self |-| {|h|})"
  by (auto simp: remove_block_def split: option.splits)

section \<open>Anticones and common ancestors\<close>

lemma set_get_all_hashes: "set (get_all_hashes self) = fmdom' (blocks self)"
  by (simp add: get_all_hashes_def fmdom'_alt_def)

lemma set_get_anticone:
  assumes "dag_links self"
  shows "set (get_anticone self h) = {x \<in> fmdom' (blocks self).
    x \<noteq> h \<and> (h, x) \<notin> (parent_rel self)\<^sup>+ \<and> (x, h) \<notin> (parent_rel self)\<^sup>+}"
  by (auto simp: get_anticone_def set_get_all_hashes set_get_ancestors
      set_get_descendants_wf [OF assms])

lemma best_by_score_result:
  "(best_by_score self m l hs = l \<and> (\<forall>h\<in>set hs. score_of self h \<le> m))
   \<or> (\<exists>x\<in>set hs. best_by_score self m l hs = Some x \<and> m < score_of self x
        \<and> (\<forall>h\<in>set hs. score_of self h \<le> score_of self x))"
proof (induction hs arbitrary: m l)
  case Nil
  then show ?case by simp
next
  case (Cons h hs)
  show ?case
  proof (cases "m < score_of self h")
    case True
    then obtain b where b: "fmlookup (blocks self) h = Some b"
      by (auto simp: score_of_def split: option.splits)
    then have sc: "score_of self h = blue_score b" by (simp add: score_of_def)
    have step: "best_by_score self m l (h # hs) = best_by_score self (score_of self h) (Some h) hs"
      using True b sc by simp
    show ?thesis
      using Cons.IH [of "score_of self h" "Some h"] True unfolding step
      by (auto intro: order_trans less_imp_le less_trans)
  next
    case False
    then have step: "best_by_score self m l (h # hs) = best_by_score self m l hs"
      by (auto simp: score_of_def split: option.splits)
    show ?thesis
      using Cons.IH [of m l] False unfolding step
      by (auto intro: order_trans less_imp_le)
  qed
qed

lemma mem_common_ancestors:
  "x |\<in>| common_ancestors self a b \<longleftrightarrow>
     (a, x) \<in> (parent_rel self)\<^sup>* \<and> (b, x) \<in> (parent_rel self)\<^sup>*"
  by (auto simp: common_ancestors_def fset_of_list_elem set_get_ancestors rtrancl_eq_or_trancl)

section \<open>The concrete graph\<close>

lemma hash_ab [simp]: "hash_a \<noteq> hash_b" "hash_b \<noteq> hash_a"
  by (simp_all add: hash_a_def hash_b_def)

lemma demo_genesis:
  "add_block dag_new (bare_block hash_a {||})
   = (\<lparr>blocks = fmupd hash_a (bare_block hash_a {||}) fmempty, tips = {|hash_a|}\<rparr>, Inr ())"
  by (simp add: add_block_def bare_block_def dag_new_def)

lemma demo_child:
  "add_block (fst (add_block dag_new (bare_block hash_a {||}))) (bare_block hash_b {|hash_a|})
   = (demo_dag, Inr ())"
  by (simp add: demo_dag_def demo_genesis) (simp add: add_block_def bare_block_def Let_def)

lemma demo_dag_eq:
  "demo_dag = \<lparr>blocks = fmupd hash_a (add_child hash_b (bare_block hash_a {||}))
      (fmupd hash_b (bare_block hash_b {|hash_a|})
        (fmupd hash_a (bare_block hash_a {||}) fmempty)), tips = {|hash_b|}\<rparr>"
  by (simp add: demo_dag_def demo_genesis)
    (simp add: add_block_def bare_block_def Let_def sorted_list_of_fset_finsert
      get_block_mut_def)

lemma demo_dag_wf: "dag_wf demo_dag"
proof -
  have "dag_wf (fst (add_block dag_new (bare_block hash_a {||})))"
    by (rule add_block_wf [OF dag_new_wf, of "bare_block hash_a {||}"])
      (simp_all add: demo_genesis, simp add: bare_block_def)
  then show ?thesis
    by (rule add_block_wf [OF _ _ demo_child]) (simp add: bare_block_def)
qed

lemma demo_dag_links: "dag_links demo_dag"
  using demo_dag_wf by (simp add: dag_wf_def)

lemma demo_parent_rel: "parent_rel demo_dag = {(hash_b, hash_a)}"
  by (auto simp: parent_rel_iff demo_dag_eq bare_block_def split: if_splits)

section \<open>Properties\<close>

text \<open>C6: \<open>add_block\<close> of a block that lists no children keeps the graph well formed (ids match keys, parents are stored, children
  mirror parents, no cycle, tips are exactly the blocks without children); a refused block
  leaves the graph unchanged, an accepted one is stored and becomes a tip in place of its
  parents.\<close>

theorem add_block_preserves_wf:
  assumes "dag_wf self" and "children block = {||}" and "add_block self block = (self', r)"
  shows "dag_wf self' \<and>
    (case r of Inl e \<Rightarrow> self' = self
     | Inr _ \<Rightarrow> fmlookup (blocks self') (header_id (header block)) = Some block
         \<and> header_id (header block) |\<in>| tips self'
         \<and> tips self' |\<inter>| parents (header block) = {||})"
proof (cases r)
  case (Inl e)
  then have "self' = self"
    using assms(3) by (auto simp: add_block_def Let_def split: if_splits)
  with Inl assms(1) show ?thesis by simp
next
  case (Inr u)
  then have ok: "add_block self block = (self', Inr ())"
    using assms(3) by simp
  have "dag_wf self'"
    using assms(1,2) ok by (rule add_block_wf)
  moreover have "header_id (header block) |\<notin>| parents (header block)"
    by (rule add_block_ok(2) [OF ok])
  ultimately show ?thesis
    using Inr by (auto simp: add_block_ok(4,5) [OF ok])
qed

text \<open>the three stack-based traversals compute exactly the closure of the parent relation:
  \<open>is_ancestor\<close> and \<open>get_ancestors\<close> its transitive closure, \<open>get_descendants\<close> the converse,
  both lists sorted and without repetition.\<close>

theorem traversals_are_exact:
  assumes "dag_links self"
  shows "(is_ancestor self a b \<longleftrightarrow> (b, a) \<in> (parent_rel self)\<^sup>+)
    \<and> set (get_ancestors self a) = {x. (a, x) \<in> (parent_rel self)\<^sup>+}
    \<and> set (get_descendants self a) = {x. (x, a) \<in> (parent_rel self)\<^sup>+}
    \<and> sorted (get_ancestors self a) \<and> distinct (get_ancestors self a)
    \<and> sorted (get_descendants self a) \<and> distinct (get_descendants self a)"
  using dag_links_acyclic [OF assms]
  by (auto simp: is_ancestor_iff set_get_ancestors set_get_descendants_wf [OF assms]
      traversal_lists)

text \<open>every stored block other than \<open>h\<close> is in exactly one of \<open>h\<close>'s ancestors, descendants and
  anticone, and being in the anticone is symmetric.\<close>

theorem anticone_partition:
  assumes "dag_links self" and "h \<in> fmdom' (blocks self)" and "x \<in> fmdom' (blocks self)"
  shows "(x \<noteq> h \<longrightarrow>
      (x \<in> set (get_ancestors self h) \<or> x \<in> set (get_descendants self h)
        \<or> x \<in> set (get_anticone self h)))
    \<and> \<not> (x \<in> set (get_ancestors self h) \<and> x \<in> set (get_descendants self h))
    \<and> \<not> (x \<in> set (get_anticone self h)
        \<and> (x \<in> set (get_ancestors self h) \<or> x \<in> set (get_descendants self h)))
    \<and> (x \<in> set (get_anticone self h) \<longleftrightarrow> h \<in> set (get_anticone self x))"
proof -
  have "\<not> ((h, x) \<in> (parent_rel self)\<^sup>+ \<and> (x, h) \<in> (parent_rel self)\<^sup>+)"
    using dag_links_acyclic [OF assms(1)] by (blast intro: trancl_trans)
  then show ?thesis
    using assms by (auto simp: set_get_anticone set_get_ancestors set_get_descendants_wf)
qed

text \<open>for every iteration order of the intersection, \<open>find_common_ancestor\<close> of two distinct
  blocks returns a common ancestor-or-self of greatest blue score, and returns none only when
  no common ancestor has a positive score.\<close>

theorem find_common_ancestor_maximal:
  assumes "a \<noteq> b" and "set (iter (common_ancestors self a b)) = fset (common_ancestors self a b)"
  defines "C \<equiv> {x. (a, x) \<in> (parent_rel self)\<^sup>* \<and> (b, x) \<in> (parent_rel self)\<^sup>*}"
  shows "case find_common_ancestor iter self a b of
      Some x \<Rightarrow> x \<in> C \<and> (\<forall>y\<in>C. score_of self y \<le> score_of self x)
    | None \<Rightarrow> (\<forall>y\<in>C. score_of self y = 0)"
proof -
  have C: "set (iter (common_ancestors self a b)) = C"
    unfolding assms(2) by (auto simp: C_def mem_common_ancestors)
  show ?thesis
  proof (cases "common_ancestors self a b = {||}")
    case True
    then have "C = {}"
      using assms(2) C by simp
    with True assms(1) show ?thesis by (simp add: find_common_ancestor_def)
  next
    case False
    then show ?thesis
      using assms(1) C best_by_score_result [of self 0 None "iter (common_ancestors self a b)"]
      by (auto simp: find_common_ancestor_def)
  qed
qed

text \<open>\<open>remove_block\<close> takes out the block with every edge at it and keeps the rest of the
  graph consistent: ids, mirrored links and acyclicity.\<close>

theorem remove_block_keeps_links:
  assumes "dag_links self"
  shows "dag_links (remove_block self h)"
proof (cases "fmlookup (blocks self) h")
  case None
  with assms show ?thesis by (simp add: remove_block_absent)
next
  case (Some block)
  note rels = remove_block_rels [OF assms Some]
  have "acyclic (parent_rel self)" using assms by (simp add: dag_links_def)
  then have "acyclic (parent_rel (remove_block self h))"
    by (rule acyclic_subset) (auto simp: rels)
  moreover have "ids_match (remove_block self h)"
    using assms by (simp add: dag_links_def remove_block_ids)
  moreover have "snd ` parent_rel (remove_block self h) \<subseteq> fmdom' (blocks (remove_block self h))"
    using assms by (auto simp: dag_links_def rels)
  moreover have "child_rel (remove_block self h) = (parent_rel (remove_block self h))\<inverse>"
    using assms by (auto simp: dag_links_def rels)
  ultimately show ?thesis by (simp add: dag_links_def)
qed

text \<open>\<open>remove_block\<close> does not keep the tips exact: on the graph of a genesis block and its one
  child, removing the child leaves a stored block without children and an empty tip set.\<close>

theorem remove_block_leaves_stale_tips:
  "dag_wf demo_dag
   \<and> tips (remove_block demo_dag hash_b) = {||}
   \<and> childless (remove_block demo_dag hash_b) = {hash_a}"
proof -
  have b: "fmlookup (blocks demo_dag) hash_b = Some (bare_block hash_b {|hash_a|})"
    by (simp add: demo_dag_eq)
  note rels = remove_block_rels [OF demo_dag_links b]
  have dom: "fmdom' (blocks demo_dag) = {hash_a, hash_b}" and tips: "tips demo_dag = {|hash_b|}"
    by (auto simp: demo_dag_eq)
  have "childless (remove_block demo_dag hash_b) = {hash_a}"
    unfolding childless_def rels demo_parent_rel dom by auto
  then show ?thesis
    using demo_dag_wf by (simp add: remove_block_tips tips b)
qed

theorem add_block_preserves_wf_witness:
  "dag_wf dag_new \<and> children (bare_block hash_a {||}) = {||}
   \<and> dag_wf (fst (add_block dag_new (bare_block hash_a {||})))"
proof -
  have c: "children (bare_block hash_a {||}) = {||}" by (simp add: bare_block_def)
  show ?thesis
    using dag_new_wf c add_block_preserves_wf [OF dag_new_wf c demo_genesis]
    by (simp add: demo_genesis)
qed

theorem traversals_are_exact_witness:
  "dag_links demo_dag \<and> is_ancestor demo_dag hash_a hash_b
   \<and> set (get_ancestors demo_dag hash_b) = {hash_a}"
proof -
  have "(parent_rel demo_dag)\<^sup>+ = {(hash_b, hash_a)}"
    unfolding demo_parent_rel by (rule trancl_id) (auto simp: trans_def hash_ab)
  with traversals_are_exact [OF demo_dag_links, of hash_a hash_b]
    traversals_are_exact [OF demo_dag_links, of hash_b hash_a] demo_dag_links
  show ?thesis by (simp add: hash_ab)
qed

theorem anticone_partition_witness:
  "hash_a \<in> fmdom' (blocks demo_dag) \<and> hash_b \<in> fmdom' (blocks demo_dag)
   \<and> (hash_a \<in> set (get_ancestors demo_dag hash_b)
      \<or> hash_a \<in> set (get_descendants demo_dag hash_b)
      \<or> hash_a \<in> set (get_anticone demo_dag hash_b))"
proof -
  have "hash_b \<in> fmdom' (blocks demo_dag)" "hash_a \<in> fmdom' (blocks demo_dag)"
    by (simp_all add: demo_dag_eq)
  with anticone_partition [OF demo_dag_links this] hash_ab show ?thesis
    by blast
qed

theorem find_common_ancestor_maximal_witness:
  "case find_common_ancestor sorted_list_of_fset demo_dag hash_a hash_b of
      Some x \<Rightarrow> (hash_b, x) \<in> (parent_rel demo_dag)\<^sup>*
    | None \<Rightarrow> score_of demo_dag hash_a = 0"
  using find_common_ancestor_maximal [of hash_a hash_b sorted_list_of_fset demo_dag]
  by (auto simp: hash_ab demo_parent_rel split: option.splits)

theorem remove_block_keeps_links_witness:
  "dag_links demo_dag \<and> dag_links (remove_block demo_dag hash_b)"
  using demo_dag_links remove_block_keeps_links [OF demo_dag_links] by blast

end
