(* ===== verification/Interfaces.thy ===== *)
theory Interfaces
  imports Prelude
begin

text \<open>
  The contracts between components, as locales. Each is interpreted on the model's own
  definitions in the theory of the component that provides the operations:
  \<open>byte_codec\<close> (a serializer and its parser), \<open>stream_codec\<close> (the same for a parser that reads from
  the front of a buffer), \<open>kv_store\<close> (the \<open>Storage\<close> trait),
  \<open>journaled_store\<close> (an operation that can be undone from a change record and saved values).
\<close>

section \<open>Serializers\<close>

locale byte_codec =
  fixes enc :: "'a \<Rightarrow> bytes"
    and dec :: "bytes \<Rightarrow> 'e + 'a"
    and wf :: "'a \<Rightarrow> bool"
  assumes dec_enc: "wf x \<Longrightarrow> dec (enc x) = Inr x"
begin

lemma enc_inject: "wf x \<Longrightarrow> wf y \<Longrightarrow> enc x = enc y \<longleftrightarrow> x = y"
  by (metis dec_enc sum.inject(2))

lemma dec_enc_ok: "wf x \<Longrightarrow> is_ok (dec (enc x))"
  by (simp add: dec_enc)

end

text \<open>A parser that takes what it needs from the front of a buffer and returns the rest. The parsed
  value may differ from the encoded one: \<open>img\<close> says how. \<open>read_many\<close> is a loop over a count.\<close>

fun read_many :: "(bytes \<Rightarrow> 'e + 'a \<times> bytes) \<Rightarrow> nat \<Rightarrow> bytes \<Rightarrow> 'e + 'a list \<times> bytes" where
  "read_many dec 0 bs = Inr ([], bs)"
| "read_many dec (Suc n) bs =
     bind_res (dec bs) (\<lambda>(x, bs'). bind_res (read_many dec n bs') (\<lambda>(xs, bs''). Inr (x # xs, bs'')))"

locale stream_codec =
  fixes enc :: "'a \<Rightarrow> bytes"
    and dec :: "bytes \<Rightarrow> 'e + 'b \<times> bytes"
    and img :: "'a \<Rightarrow> 'b"
    and wf :: "'a \<Rightarrow> bool"
  assumes dec_enc: "wf x \<Longrightarrow> dec (enc x @ rest) = Inr (img x, rest)"
begin

lemma read_many_enc:
  "list_all wf xs \<Longrightarrow> read_many dec (length xs) (concat (map enc xs) @ rest) = Inr (map img xs, rest)"
  by (induction xs) (simp_all add: dec_enc)

lemma dec_self: "wf x \<Longrightarrow> dec (enc x) = Inr (img x, [])"
  using dec_enc [of x "[]"] by simp

lemma enc_separates: "wf x \<Longrightarrow> wf y \<Longrightarrow> enc x = enc y \<Longrightarrow> img x = img y"
  using dec_self [of x] dec_self [of y] by simp

end

section \<open>Key-value stores\<close>

locale kv_store =
  fixes get :: "'s \<Rightarrow> bytes \<Rightarrow> bytes option"
    and put :: "'s \<Rightarrow> bytes \<Rightarrow> bytes \<Rightarrow> 's"
    and delete :: "'s \<Rightarrow> bytes \<Rightarrow> 's"
    and clear :: "'s \<Rightarrow> 's"
  assumes get_put: "get (put s k v) k' = (if k = k' then Some v else get s k')"
    and get_delete: "get (delete s k) k' = (if k = k' then None else get s k')"
    and get_clear: "get (clear s) k' = None"
begin

lemma put_idem: "get (put (put s k v) k w) k' = get (put s k w) k'"
  by (simp add: get_put)

lemma delete_put: "get (delete (put s k v) k) k' = get (delete s k) k'"
  by (simp add: get_put get_delete)

lemma put_put_commute:
  "k \<noteq> l \<Longrightarrow> get (put (put s k v) l w) k' = get (put (put s l w) k v) k'"
  by (auto simp: get_put)

end

section \<open>Journaled operations\<close>

text \<open>\<open>undo_all\<close> runs an undo operation over a list of change records, stopping at the first
  failure.\<close>

fun undo_all :: "('s \<Rightarrow> 'c \<Rightarrow> 's \<times> ('e + unit)) \<Rightarrow> 's \<Rightarrow> 'c list \<Rightarrow> 's \<times> ('e + unit)" where
  "undo_all undo s [] = (s, Inr ())"
| "undo_all undo s (c # cs) =
     (case undo s c of (s', Inl e) \<Rightarrow> (s', Inl e) | (s', Inr _) \<Rightarrow> undo_all undo s' cs)"

lemma undo_all_append:
  "undo_all undo s cs = (s', Inr ()) \<Longrightarrow> undo_all undo s (cs @ ds) = undo_all undo s' ds"
  by (induction cs arbitrary: s) (auto split: prod.splits sum.splits)

locale journaled_store =
  fixes perform :: "'s \<Rightarrow> 'x \<Rightarrow> 's \<times> ('e + 'c)"
    and revert :: "'s \<Rightarrow> 'c \<Rightarrow> ('k, 'v) fmap \<Rightarrow> 's \<times> ('e + unit)"
    and contents :: "'s \<Rightarrow> ('k, 'v) fmap"
    and consumed :: "'x \<Rightarrow> 'k list"
    and fresh :: "'s \<Rightarrow> 'x \<Rightarrow> bool"
  assumes perform_fail: "perform s x = (s', Inl e) \<Longrightarrow> s' = s"
    and perform_consumes: "perform s x = (s', Inr c) \<Longrightarrow> set (consumed x) \<subseteq> fmdom' (contents s)"
    and revert_perform: "perform s x = (s', Inr c) \<Longrightarrow> fresh s x \<Longrightarrow>
      \<forall>k\<in>set (consumed x). fmlookup saved k = fmlookup (contents s) k \<Longrightarrow>
      revert s' c saved = (s, Inr ())"
begin

text \<open>A run of successful operations whose consumed entries are all in \<open>saved\<close>.\<close>

inductive journal :: "('k, 'v) fmap \<Rightarrow> 's \<Rightarrow> 'c list \<Rightarrow> 's \<Rightarrow> bool" for saved where
  start: "journal saved s [] s"
| extend: "journal saved s cs s' \<Longrightarrow> perform s' x = (s'', Inr c) \<Longrightarrow> fresh s' x \<Longrightarrow>
    \<forall>k\<in>set (consumed x). fmlookup saved k = fmlookup (contents s') k \<Longrightarrow>
    journal saved s (cs @ [c]) s''"

text \<open>Undoing a run from its last change record to its first restores the start exactly.\<close>

lemma journal_undo:
  "journal saved s cs s' \<Longrightarrow> undo_all (\<lambda>s c. revert s c saved) s' (rev cs) = (s, Inr ())"
proof (induction rule: journal.induct)
  case (start s)
  then show ?case by simp
next
  case (extend s cs s' x s'' c)
  then have "revert s'' c saved = (s', Inr ())"
    by (intro revert_perform)
  with extend.IH show ?case by simp
qed

end

end
