(* ===== verification/Utxo.thy ===== *)
theory Utxo
  imports Schnorr Emission Interfaces
begin

text \<open>
  The set of unspent outputs: \<open>core/state/utxo.rs\<close>. \<open>validate_tx\<close> is the read-only check,
  \<open>apply_tx\<close> spends and creates, \<open>revert_tx\<close> undoes an application from its change set and the
  outputs recorded before it. Operations that mutate and may fail return the state they leave
  behind together with the result.
\<close>

section \<open>The UTXO set\<close>

record utxo_change_set =
  spent :: "outpoint list"
  created :: "(outpoint \<times> tx_output) list"

record utxo_set =
  utxos :: "(outpoint, tx_output) fmap"

definition utxo_new :: utxo_set where
  "utxo_new = \<lparr>utxos = fmempty\<rparr>"

text \<open>The duplicate-input scan: each outpoint must be new to the set.\<close>

fun scan_duplicates :: "outpoint fset \<Rightarrow> tx_input list \<Rightarrow> core_error + outpoint fset" where
  "scan_duplicates seen [] = Inr seen"
| "scan_duplicates seen (i # ins) =
     (if outpoint_of i |\<in>| seen
      then Inl (TransactionError ''Duplicate input in transaction {}: {:?}'')
      else scan_duplicates (finsert (outpoint_of i) seen) ins)"

fun sum_outputs :: "u64 \<Rightarrow> tx_output list \<Rightarrow> core_error + u64" where
  "sum_outputs sum0 [] = Inr sum0"
| "sum_outputs sum0 (o' # outs) =
     (case checked_add sum0 (out_value o') of
        None \<Rightarrow> Inl (TransactionError ''Output overflow'')
      | Some sum1 \<Rightarrow> sum_outputs sum1 outs)"

definition check_signature ::
    "externals \<Rightarrow> transaction \<Rightarrow> nat \<Rightarrow> tx_input \<Rightarrow> core_error + unit" where
  "check_signature ext tx input_idx i =
     (if length (pubkey i) \<noteq> 33 \<and> length (pubkey i) \<noteq> 32 then Inl InvalidPublicKey
      else if length (signature i) \<noteq> 64 then Inl InvalidSignature
      else bind_res (ok_or InvalidPublicKey (vk_from_bytes ext (pubkey i))) (\<lambda>vk.
        bind_res (ok_or InvalidSignature (sig_try_from ext (signature i))) (\<lambda>sig'.
          bind_res (map_err (\<lambda>_. SignatureVerificationFailed)
                     (compute_sighash ext tx input_idx (sighash_type i))) (\<lambda>msg.
            if \<not> schnorr_verify ext vk msg sig' then Inl SignatureVerificationFailed
            else Inr ()))))"

fun sum_inputs ::
    "externals \<Rightarrow> utxo_set \<Rightarrow> transaction \<Rightarrow> nat \<Rightarrow> u64 \<Rightarrow> tx_input list \<Rightarrow> core_error + u64" where
  "sum_inputs ext self tx input_idx sum0 [] = Inr sum0"
| "sum_inputs ext self tx input_idx sum0 (i # ins) =
     (case fmlookup (utxos self) (outpoint_of i) of
        None \<Rightarrow> Inl (TransactionError ''Input UTXO not found'')
      | Some out \<Rightarrow>
          (case checked_add sum0 (out_value out) of
             None \<Rightarrow> Inl (TransactionError ''Input overflow'')
           | Some sum1 \<Rightarrow>
               bind_res (check_signature ext tx input_idx i) (\<lambda>_.
                 sum_inputs ext self tx (Suc input_idx) sum1 ins)))"

definition sends_to_burn :: "externals \<Rightarrow> transaction \<Rightarrow> bool" where
  "sends_to_burn ext tx \<longleftrightarrow>
     list_ex (\<lambda>o'. pubkey_hash o' = hash_new ext BURN_ADDRESS) (outputs tx)"

definition validate_tx :: "externals \<Rightarrow> utxo_set \<Rightarrow> transaction \<Rightarrow> core_error + u64" where
  "validate_tx ext self tx =
     (if sends_to_burn ext tx
      then Inl (TransactionError
             ''Output to zero address (burn) is prohibited by economic policy'')
      else if is_coinbase tx then Inr 0
      else
        bind_res (scan_duplicates {||} (inputs tx)) (\<lambda>_.
        bind_res (sum_outputs 0 (outputs tx)) (\<lambda>total_output.
        bind_res (sum_inputs ext self tx 0 0 (inputs tx)) (\<lambda>total_input.
          if total_input < total_output
          then Inl (TransactionError ''Insufficient input value'')
          else ok_or (TransactionError ''Fee calculation underflow'')
                 (checked_sub total_input total_output)))))"

text \<open>The spending loop of \<open>apply_tx\<close>.\<close>

fun spend_inputs ::
    "utxo_set \<Rightarrow> outpoint list \<Rightarrow> tx_input list \<Rightarrow> utxo_set \<times> (core_error + outpoint list)" where
  "spend_inputs self acc [] = (self, Inr acc)"
| "spend_inputs self acc (i # ins) =
     (case fmlookup (utxos self) (outpoint_of i) of
        Some _ \<Rightarrow>
          spend_inputs (self\<lparr>utxos := fmdrop (outpoint_of i) (utxos self)\<rparr>)
            (acc @ [outpoint_of i]) ins
      | None \<Rightarrow> (self, Inl (TransactionError ''Input UTXO disappeared during apply'')))"

text \<open>The output loop; \<open>index as u32\<close> truncates.\<close>

fun add_outputs ::
    "hash \<Rightarrow> nat \<Rightarrow> utxo_set \<Rightarrow> (outpoint \<times> tx_output) list \<Rightarrow> tx_output list
      \<Rightarrow> utxo_set \<times> (outpoint \<times> tx_output) list" where
  "add_outputs txid n self acc [] = (self, acc)"
| "add_outputs txid n self acc (o' # outs) =
     add_outputs txid (Suc n) (self\<lparr>utxos := fmupd (txid, of_nat n) o' (utxos self)\<rparr>)
       (acc @ [((txid, of_nat n), o')]) outs"

definition apply_tx ::
    "externals \<Rightarrow> utxo_set \<Rightarrow> transaction \<Rightarrow> utxo_set \<times> (core_error + utxo_change_set)" where
  "apply_tx ext self tx =
     (case validate_tx ext self tx of
        Inl e \<Rightarrow> (self, Inl e)
      | Inr _ \<Rightarrow>
          (case spend_inputs self [] (inputs tx) of
             (self', Inl e) \<Rightarrow> (self', Inl e)
           | (self', Inr sp) \<Rightarrow>
               (case add_outputs (tx_id tx) 0 self' [] (outputs tx) of
                  (self'', cr) \<Rightarrow> (self'', Inr \<lparr>spent = sp, created = cr\<rparr>))))"

fun remove_created ::
    "utxo_set \<Rightarrow> (outpoint \<times> tx_output) list \<Rightarrow> utxo_set \<times> (core_error + unit)" where
  "remove_created self [] = (self, Inr ())"
| "remove_created self (c # cs) =
     (case fmlookup (utxos self) (fst c) of
        None \<Rightarrow> (self, Inl (TransactionError ''Created output not found during revert''))
      | Some _ \<Rightarrow> remove_created (self\<lparr>utxos := fmdrop (fst c) (utxos self)\<rparr>) cs)"

fun restore_spent ::
    "utxo_set \<Rightarrow> (outpoint, tx_output) fmap \<Rightarrow> outpoint list \<Rightarrow> utxo_set \<times> (core_error + unit)" where
  "restore_spent self spent_outputs [] = (self, Inr ())"
| "restore_spent self spent_outputs (k # ks) =
     (case fmlookup spent_outputs k of
        None \<Rightarrow> (self, Inl (TransactionError ''Spent output not found in revert map''))
      | Some o' \<Rightarrow> restore_spent (self\<lparr>utxos := fmupd k o' (utxos self)\<rparr>) spent_outputs ks)"

definition revert_tx ::
    "utxo_set \<Rightarrow> utxo_change_set \<Rightarrow> (outpoint, tx_output) fmap
      \<Rightarrow> utxo_set \<times> (core_error + unit)" where
  "revert_tx self changes spent_outputs =
     (case remove_created self (created changes) of
        (self', Inl e) \<Rightarrow> (self', Inl e)
      | (self', Inr _) \<Rightarrow> restore_spent self' spent_outputs (spent changes))"

text \<open>The \<open>u64\<close> sum wraps, as in a release build.\<close>

definition get_balance :: "utxo_set \<Rightarrow> hash \<Rightarrow> u64" where
  "get_balance self h =
     word_of_nat (fmsum (\<lambda>o'. if pubkey_hash o' = h then unat (out_value o') else 0) (utxos self))"

section \<open>Abstract views\<close>

definition outpoints :: "transaction \<Rightarrow> outpoint list" where
  "outpoints tx = map outpoint_of (inputs tx)"

definition created_by :: "transaction \<Rightarrow> (outpoint \<times> tx_output) list" where
  "created_by tx =
     map (\<lambda>(n, o'). ((tx_id tx, of_nat n), o')) (List.enumerate 0 (outputs tx))"

definition total_value :: "utxo_set \<Rightarrow> nat" where
  "total_value u = fmsum (\<lambda>o'. unat (out_value o')) (utxos u)"

definition outputs_value :: "transaction \<Rightarrow> nat" where
  "outputs_value tx = (\<Sum>o'\<leftarrow>outputs tx. unat (out_value o'))"

definition inputs_value :: "utxo_set \<Rightarrow> transaction \<Rightarrow> nat" where
  "inputs_value u tx = (\<Sum>k\<leftarrow>outpoints tx. unat (out_value (the (fmlookup (utxos u) k))))"

text \<open>No output of the transaction's id is in the set, and its output indices fit in \<open>u32\<close>.\<close>

definition fresh_tx :: "utxo_set \<Rightarrow> transaction \<Rightarrow> bool" where
  "fresh_tx u tx \<longleftrightarrow>
     (\<forall>k |\<in>| fmdom (utxos u). fst k \<noteq> tx_id tx) \<and> length (outputs tx) \<le> 2 ^ 32"

text \<open>The effect of a transaction on the set: its outpoints leave, its outputs enter.\<close>

definition tx_effect :: "utxo_set \<Rightarrow> transaction \<Rightarrow> utxo_set" where
  "tx_effect u tx = u\<lparr>utxos := fmupds (created_by tx) (fmdrops (outpoints tx) (utxos u))\<rparr>"

definition change_set_of :: "transaction \<Rightarrow> utxo_change_set" where
  "change_set_of tx = \<lparr>spent = outpoints tx, created = created_by tx\<rparr>"

text \<open>A block whose transactions are new to the set: no stored output carries one of their
  ids, the ids differ from each other, and every output index fits in \<open>u32\<close>.\<close>

definition fresh_block :: "utxo_set \<Rightarrow> transaction list \<Rightarrow> bool" where
  "fresh_block u txs \<longleftrightarrow> distinct (map tx_id txs)
     \<and> (\<forall>tx\<in>set txs. fresh_tx u tx)"

definition demo_utxo :: utxo_set where
  "demo_utxo = \<lparr>utxos = fmupd (Hash (replicate 32 7), 0)
     \<lparr>out_value = 100, pubkey_hash = Hash (replicate 32 1)\<rparr> fmempty\<rparr>"

section \<open>Lemmas on validation\<close>

lemma scan_duplicates_ok_iff:
  "is_ok (scan_duplicates seen ins) \<longleftrightarrow>
     distinct (map outpoint_of ins) \<and> (\<forall>i\<in>set ins. outpoint_of i |\<notin>| seen)"
  by (induction ins arbitrary: seen) (auto simp: image_iff)

lemma sum_outputs_Inr_iff:
  "sum_outputs sum0 outs = Inr t \<longleftrightarrow> unat t = unat sum0 + (\<Sum>o'\<leftarrow>outs. unat (out_value o'))"
proof (induction outs arbitrary: sum0)
  case Nil
  then show ?case by (auto simp: word_unat_eq_iff)
next
  case (Cons o' outs)
  show ?case
  proof (cases "checked_add sum0 (out_value o')")
    case None
    then have "2 ^ 64 \<le> unat sum0 + unat (out_value o')"
      by (simp add: checked_add_None_iff)
    then show ?thesis
      using None unat_bounds(3) [of t] by auto
  next
    case (Some s)
    then have "unat s = unat sum0 + unat (out_value o')"
      by (simp add: checked_add_Some_iff)
    then show ?thesis
      using Some Cons.IH [of s] by (simp add: add.assoc)
  qed
qed

lemma sum_inputs_ConsE:
  assumes "sum_inputs ext u tx n sum0 (i # ins) = Inr t"
  obtains out s where "fmlookup (utxos u) (outpoint_of i) = Some out"
    and "unat s = unat sum0 + unat (out_value out)"
    and "check_signature ext tx n i = Inr ()"
    and "sum_inputs ext u tx (Suc n) s ins = Inr t"
  using assms by (auto simp: checked_add_Some_iff split: option.splits)

declare sum_inputs.simps(2) [simp del]

lemma sum_inputs_present:
  "sum_inputs ext u tx n sum0 ins = Inr t \<Longrightarrow> set (map outpoint_of ins) \<subseteq> fmdom' (utxos u)"
proof (induction ins arbitrary: n sum0)
  case Nil
  then show ?case by simp
next
  case (Cons i ins)
  from Cons.prems obtain out s where "fmlookup (utxos u) (outpoint_of i) = Some out"
      and "sum_inputs ext u tx (Suc n) s ins = Inr t"
    by (rule sum_inputs_ConsE)
  with Cons.IH show ?case by (simp add: fmlookup_dom'_iff)
qed

lemma sum_inputs_total:
  "sum_inputs ext u tx n sum0 ins = Inr t \<Longrightarrow>
   unat t = unat sum0
     + (\<Sum>k\<leftarrow>map outpoint_of ins. unat (out_value (the (fmlookup (utxos u) k))))"
proof (induction ins arbitrary: n sum0)
  case Nil
  then show ?case by simp
next
  case (Cons i ins)
  from Cons.prems obtain out s where "fmlookup (utxos u) (outpoint_of i) = Some out"
      and "unat s = unat sum0 + unat (out_value out)"
      and "sum_inputs ext u tx (Suc n) s ins = Inr t"
    by (rule sum_inputs_ConsE)
  with Cons.IH show ?case by simp
qed

lemma sum_inputs_signed:
  "sum_inputs ext u tx n sum0 ins = Inr t \<Longrightarrow> j < length ins \<Longrightarrow>
   check_signature ext tx (n + j) (ins ! j) = Inr ()"
proof (induction ins arbitrary: n sum0 j)
  case Nil
  then show ?case by simp
next
  case (Cons i ins)
  from Cons.prems(1) obtain s where "check_signature ext tx n i = Inr ()"
      and "sum_inputs ext u tx (Suc n) s ins = Inr t"
    by (rule sum_inputs_ConsE)
  with Cons.IH [of "Suc n" s "j - 1"] Cons.prems(2) show ?case
    by (cases j) auto
qed

text \<open>What a successful validation of a spending transaction establishes.\<close>

lemma validate_tx_ok:
  assumes "validate_tx ext u tx = Inr fee" and "\<not> is_coinbase tx"
  shows "distinct (outpoints tx)"
    and "set (outpoints tx) \<subseteq> fmdom' (utxos u)"
    and "inputs_value u tx = outputs_value tx + unat fee"
    and "\<forall>j<length (inputs tx). check_signature ext tx j (inputs tx ! j) = Inr ()"
proof -
  from assms obtain seen tout tin where
      seen: "scan_duplicates {||} (inputs tx) = Inr seen"
    and tout: "sum_outputs 0 (outputs tx) = Inr tout"
    and tin: "sum_inputs ext u tx 0 0 (inputs tx) = Inr tin"
    and fee: "unat tin = unat tout + unat fee"
    by (auto simp: validate_tx_def checked_sub_Some_iff split: if_splits)
  show "distinct (outpoints tx)"
    using seen scan_duplicates_ok_iff [of "{||}" "inputs tx"] by (simp add: outpoints_def)
  show "set (outpoints tx) \<subseteq> fmdom' (utxos u)"
    using sum_inputs_present [OF tin] by (simp add: outpoints_def)
  show "inputs_value u tx = outputs_value tx + unat fee"
    using sum_inputs_total [OF tin] fee tout
    by (simp add: inputs_value_def outputs_value_def outpoints_def sum_outputs_Inr_iff)
  show "\<forall>j<length (inputs tx). check_signature ext tx j (inputs tx ! j) = Inr ()"
    using sum_inputs_signed [OF tin] by simp
qed

lemma validate_tx_no_burn:
  "validate_tx ext u tx = Inr fee \<Longrightarrow> \<not> sends_to_burn ext tx"
  by (auto simp: validate_tx_def split: if_splits)

section \<open>Lemmas on application and reversal\<close>

lemma spend_inputs_ok:
  assumes "distinct (map outpoint_of ins)"
    and "set (map outpoint_of ins) \<subseteq> fmdom' (utxos u)"
  shows "spend_inputs u acc ins
    = (u\<lparr>utxos := fmdrops (map outpoint_of ins) (utxos u)\<rparr>, Inr (acc @ map outpoint_of ins))"
  using assms
proof (induction ins arbitrary: u acc)
  case Nil
  then show ?case by simp
next
  case (Cons i ins)
  let ?u = "u\<lparr>utxos := fmdrop (outpoint_of i) (utxos u)\<rparr>"
  have "set (map outpoint_of ins) \<subseteq> fmdom' (utxos ?u)"
    using Cons.prems by auto
  then have "spend_inputs ?u (acc @ [outpoint_of i]) ins
      = (?u\<lparr>utxos := fmdrops (map outpoint_of ins) (utxos ?u)\<rparr>,
         Inr ((acc @ [outpoint_of i]) @ map outpoint_of ins))"
    using Cons.prems(1) by (intro Cons.IH) simp_all
  moreover obtain out where "fmlookup (utxos u) (outpoint_of i) = Some out"
    using Cons.prems(2) by (auto simp: fmlookup_dom'_iff)
  ultimately show ?case by simp
qed

lemma add_outputs_eq:
  "add_outputs txid n u acc outs =
     (let cr = map (\<lambda>(n, o'). ((txid, of_nat n), o')) (List.enumerate n outs)
      in (u\<lparr>utxos := fmupds cr (utxos u)\<rparr>, acc @ cr))"
  by (induction outs arbitrary: n u acc) (auto simp: Let_def)

lemma apply_tx_eq:
  "apply_tx ext u tx =
     (case validate_tx ext u tx of
        Inl e \<Rightarrow> (u, Inl e)
      | Inr _ \<Rightarrow> (tx_effect u tx, Inr (change_set_of tx)))"
proof (cases "validate_tx ext u tx")
  case (Inl e)
  then show ?thesis by (simp add: apply_tx_def)
next
  case (Inr fee)
  have "distinct (map outpoint_of (inputs tx)) \<and> set (map outpoint_of (inputs tx)) \<subseteq> fmdom' (utxos u)"
  proof (cases "is_coinbase tx")
    case True
    then show ?thesis by (simp add: is_coinbase_def)
  next
    case False
    then show ?thesis
      using validate_tx_ok(1,2) [OF Inr] by (simp add: outpoints_def)
  qed
  then show ?thesis
    using Inr spend_inputs_ok [of "inputs tx" u "[]"]
    by (simp add: apply_tx_def add_outputs_eq Let_def tx_effect_def change_set_of_def
        created_by_def outpoints_def)
qed

lemma created_by_keys:
  "map fst (created_by tx) = map (\<lambda>n. (tx_id tx, of_nat n)) [0..<length (outputs tx)]"
proof -
  have "map fst (created_by tx)
      = map (\<lambda>n. (tx_id tx, of_nat n)) (map fst (List.enumerate 0 (outputs tx)))"
    by (simp add: created_by_def split_def comp_def del: map_fst_enumerate)
  then show ?thesis by (simp del: map_map)
qed

lemma created_by_values: "map snd (created_by tx) = outputs tx"
proof -
  have "map snd (created_by tx) = map snd (List.enumerate 0 (outputs tx))"
    by (simp add: created_by_def split_def comp_def)
  then show ?thesis by simp
qed

lemma created_by_distinct:
  "length (outputs tx) \<le> 2 ^ 32 \<Longrightarrow> distinct (map fst (created_by tx))"
  unfolding created_by_keys distinct_map
proof
  assume len: "length (outputs tx) \<le> 2 ^ 32"
  show "inj_on (\<lambda>n. (tx_id tx, of_nat n :: u32)) (set [0..<length (outputs tx)])"
  proof (rule inj_onI)
    fix m n
    assume mn: "m \<in> set [0..<length (outputs tx)]" "n \<in> set [0..<length (outputs tx)]"
      and eq: "(tx_id tx, of_nat m :: u32) = (tx_id tx, of_nat n)"
    from mn len have "unat (of_nat m :: u32) = m" "unat (of_nat n :: u32) = n"
      by (simp_all add: unat_of_nat_small)
    moreover from eq have "unat (of_nat m :: u32) = unat (of_nat n :: u32)" by simp
    ultimately show "m = n" by metis
  qed
qed simp

lemma created_by_txid: "k \<in> fst ` set (created_by tx) \<Longrightarrow> fst k = tx_id tx"
  by (auto simp: created_by_def)

lemma created_by_fresh:
  "fresh_tx u tx \<Longrightarrow> fst ` set (created_by tx) \<inter> fmdom' (utxos u) = {}"
  by (auto simp: fresh_tx_def fmdom'_alt_def dest!: created_by_txid [OF imageI])

lemma created_by_sum: "(\<Sum>c\<leftarrow>created_by tx. unat (out_value (snd c))) = outputs_value tx"
proof -
  have "(\<Sum>c\<leftarrow>created_by tx. unat (out_value (snd c)))
      = (\<Sum>o'\<leftarrow>map snd (created_by tx). unat (out_value o'))"
    by (simp add: comp_def)
  then show ?thesis
    by (simp add: created_by_values outputs_value_def)
qed

lemma created_disjoint_after_spend:
  "fresh_tx u tx \<Longrightarrow> fst ` set (created_by tx) \<inter> fmdom' (fmdrops ks (utxos u)) = {}"
proof -
  assume "fresh_tx u tx"
  then have "fst ` set (created_by tx) \<inter> fmdom' (utxos u) = {}"
    by (rule created_by_fresh)
  moreover have "fmdom' (fmdrops ks (utxos u)) \<subseteq> fmdom' (utxos u)"
    by (auto simp: fmlookup_dom'_iff split: if_splits)
  ultimately show ?thesis by blast
qed

lemma tx_effect_dom:
  "fmdom' (utxos (tx_effect u tx))
     = fst ` set (created_by tx) \<union> (fmdom' (utxos u) - set (outpoints tx))"
  by (auto simp: tx_effect_def fmlookup_dom'_iff split: if_splits)

lemma fresh_tx_dom: "fresh_tx u tx \<Longrightarrow> k \<in> fmdom' (utxos u) \<Longrightarrow> fst k \<noteq> tx_id tx"
  by (auto simp: fresh_tx_def fmdom'_alt_def)

lemma fresh_tx_effect:
  assumes "fresh_tx u t" and "tx_id t \<noteq> tx_id tx"
  shows "fresh_tx (tx_effect u tx) t"
proof -
  have "fst k \<noteq> tx_id t" if "k \<in> fmdom' (utxos (tx_effect u tx))" for k
  proof -
    have "fst k = tx_id tx \<or> k \<in> fmdom' (utxos u)"
      using that created_by_txid unfolding tx_effect_dom by blast
    with assms show ?thesis by (auto dest: fresh_tx_dom)
  qed
  with assms(1) show ?thesis
    by (auto simp: fresh_tx_def fmdom'_alt_def)
qed

lemma fresh_block_step:
  assumes "fresh_block u (tx # txs)"
  shows "fresh_tx u tx" and "fresh_block (tx_effect u tx) txs"
  using assms by (auto simp: fresh_block_def image_iff intro!: fresh_tx_effect)

text \<open>Value is conserved up to the fee; a coinbase adds exactly its outputs.\<close>

lemma total_value_tx_effect:
  assumes "fresh_tx u tx" and "distinct (outpoints tx)"
    and "set (outpoints tx) \<subseteq> fmdom' (utxos u)"
  shows "total_value (tx_effect u tx) + inputs_value u tx = total_value u + outputs_value tx"
proof -
  have "total_value u = inputs_value u tx
      + fmsum (\<lambda>o'. unat (out_value o')) (fmdrops (outpoints tx) (utxos u))"
    unfolding total_value_def inputs_value_def using assms(2,3) by (rule fmsum_fmdrops)
  moreover have "total_value (tx_effect u tx)
      = fmsum (\<lambda>o'. unat (out_value o')) (fmdrops (outpoints tx) (utxos u)) + outputs_value tx"
    using assms(1) created_disjoint_after_spend [OF assms(1)]
    by (simp add: total_value_def tx_effect_def fmsum_fmupds created_by_distinct fresh_tx_def
        created_by_sum)
  ultimately show ?thesis by simp
qed

lemma remove_created_ok:
  assumes "distinct (map fst cs)" and "fst ` set cs \<subseteq> fmdom' (utxos u)"
  shows "remove_created u cs = (u\<lparr>utxos := fmdrops (map fst cs) (utxos u)\<rparr>, Inr ())"
  using assms
proof (induction cs arbitrary: u)
  case Nil
  then show ?case by simp
next
  case (Cons c cs)
  then obtain out where "fmlookup (utxos u) (fst c) = Some out"
    by (auto simp: fmlookup_dom'_iff)
  moreover have "fst c \<notin> fst ` set cs"
    using Cons.prems(1) by simp
  then have "fst ` set cs \<subseteq> fmdom' (utxos (u\<lparr>utxos := fmdrop (fst c) (utxos u)\<rparr>))"
    using Cons.prems(2) by (simp, blast)
  ultimately show ?case
    using Cons by simp
qed

lemma restore_spent_ok:
  assumes "\<forall>k\<in>set ks. fmlookup saved k = fmlookup m k" and "set ks \<subseteq> fmdom' m"
  shows "restore_spent u saved ks
    = (u\<lparr>utxos := fmupds (map (\<lambda>k. (k, the (fmlookup m k))) ks) (utxos u)\<rparr>, Inr ())"
  using assms by (induction ks arbitrary: u) (auto simp: fmlookup_dom'_iff)

lemma fmupds_restore:
  assumes "set ks \<subseteq> fmdom' m"
  shows "fmupds (map (\<lambda>k. (k, the (fmlookup m k))) ks) (fmdrops ks m) = m"
proof -
  have "fmlookup (fmupds (map (\<lambda>k. (k, the (fmlookup m k))) ks) m') k
      = (if k \<in> set ks then fmlookup m k else fmlookup m' k)" for k m'
    using assms by (induction ks arbitrary: m') (auto simp: fmlookup_dom'_iff)
  then show ?thesis
    by (intro fmap_ext) simp
qed

text \<open>Reverting undoes an application exactly, given the outputs that were spent.\<close>

lemma revert_tx_effect:
  assumes "fresh_tx u tx" and "set (outpoints tx) \<subseteq> fmdom' (utxos u)"
    and "\<forall>k\<in>set (outpoints tx). fmlookup saved k = fmlookup (utxos u) k"
  shows "revert_tx (tx_effect u tx) (change_set_of tx) saved = (u, Inr ())"
proof -
  let ?m = "fmdrops (outpoints tx) (utxos u)"
  have "remove_created (tx_effect u tx) (created_by tx) = (u\<lparr>utxos := ?m\<rparr>, Inr ())"
    using assms(1) fmdrops_fmupds_inverse [OF created_disjoint_after_spend [OF assms(1)]]
    by (subst remove_created_ok)
      (auto simp: tx_effect_def created_by_distinct fresh_tx_def)
  moreover have "restore_spent (u\<lparr>utxos := ?m\<rparr>) saved (outpoints tx) = (u, Inr ())"
    using restore_spent_ok [OF assms(3,2)] fmupds_restore [OF assms(2)] by simp
  ultimately show ?thesis
    by (simp add: revert_tx_def change_set_of_def)
qed

interpretation output_codec: byte_codec serialize_output deserialize_output
    "\<lambda>o'. hash_wf (pubkey_hash o')"
  by unfold_locales (rule deserialize_serialize_output)

lemma apply_tx_Inr:
  assumes "apply_tx ext u tx = (u', Inr c)"
  shows "u' = tx_effect u tx" and "c = change_set_of tx"
    and "set (outpoints tx) \<subseteq> fmdom' (utxos u)"
proof -
  from assms obtain fee where v: "validate_tx ext u tx = Inr fee"
    by (auto simp: apply_tx_eq split: sum.splits)
  with assms show "u' = tx_effect u tx" "c = change_set_of tx"
    by (simp_all add: apply_tx_eq)
  show "set (outpoints tx) \<subseteq> fmdom' (utxos u)"
    using validate_tx_ok(2) [OF v] by (cases "is_coinbase tx") (auto simp: is_coinbase_def outpoints_def)
qed

interpretation ledger: journaled_store "apply_tx ext" revert_tx utxos outpoints fresh_tx
  for ext
proof
  show "s' = s" if "apply_tx ext s x = (s', Inl e)" for s x s' e
    using that by (auto simp: apply_tx_eq split: sum.splits)
  show "set (outpoints x) \<subseteq> fmdom' (utxos s)" if "apply_tx ext s x = (s', Inr c)" for s x s' c
    using that by (rule apply_tx_Inr(3))
  show "revert_tx s' c saved = (s, Inr ())"
    if "apply_tx ext s x = (s', Inr c)" and "fresh_tx s x"
      and "\<forall>k\<in>set (outpoints x). fmlookup saved k = fmlookup (utxos s) k" for s x s' c saved
    using apply_tx_Inr [OF that(1)] that(2,3) by (simp add: revert_tx_effect)
qed

section \<open>Properties\<close>

text \<open>C7: whatever \<open>validate_tx\<close> accepts as a spending transaction is sound: no outpoint is spent
  twice, every one is unspent, the inputs pay for the outputs and the fee exactly (so no
  \<open>u64\<close> sum wrapped), every input carries a signature that verifies over its sighash under
  the public key the input itself carries, and no output goes to the hash the code rejects as the
  burn address. The key is not compared with the \<open>pubkey_hash\<close> of the output that is spent.\<close>

theorem validated_spend_is_sound:
  assumes "validate_tx ext u tx = Inr fee" and "\<not> is_coinbase tx"
  shows "distinct (outpoints tx) \<and> set (outpoints tx) \<subseteq> fmdom' (utxos u)
    \<and> inputs_value u tx = outputs_value tx + unat fee
    \<and> (\<forall>j<length (inputs tx). \<exists>vk sig' msg.
         vk_from_bytes ext (pubkey (inputs tx ! j)) = Some vk
         \<and> sig_try_from ext (signature (inputs tx ! j)) = Some sig'
         \<and> compute_sighash ext tx j (sighash_type (inputs tx ! j)) = Inr msg
         \<and> schnorr_verify ext vk msg sig')
    \<and> (\<forall>o'\<in>set (outputs tx). pubkey_hash o' \<noteq> hash_new ext BURN_ADDRESS)"
proof -
  have "\<exists>vk sig' msg. vk_from_bytes ext (pubkey (inputs tx ! j)) = Some vk
         \<and> sig_try_from ext (signature (inputs tx ! j)) = Some sig'
         \<and> compute_sighash ext tx j (sighash_type (inputs tx ! j)) = Inr msg
         \<and> schnorr_verify ext vk msg sig'" if "j < length (inputs tx)" for j
    using validate_tx_ok(4) [OF assms] that
    by (fastforce simp: check_signature_def split: if_splits)
  then show ?thesis
    using validate_tx_ok(1-3) [OF assms] validate_tx_no_burn [OF assms(1)]
    by (auto simp: sends_to_burn_def list_ex_iff)
qed

text \<open>C1: \<open>apply_tx\<close> is atomic and conserves value: a rejected transaction leaves the set as it
  was; an accepted one was validated, every outpoint it spends was in the set, and the set is
  the old one without those outpoints and with the outputs of the transaction stored under its
  id. When no stored output carries that id (and the outputs number at most \<open>2 ^ 32\<close>), a spend
  lowers the total value of the set by exactly its fee, and a coinbase raises it by exactly its
  outputs.\<close>

theorem apply_tx_atomic_and_conserving:
  assumes "apply_tx ext u tx = (u', r)"
  shows "case r of
      Inl e \<Rightarrow> u' = u
    | Inr _ \<Rightarrow> (\<exists>fee. validate_tx ext u tx = Inr fee
        \<and> set (outpoints tx) \<subseteq> fmdom' (utxos u)
        \<and> utxos u' = fmupds (created_by tx) (fmdrops (outpoints tx) (utxos u))
        \<and> (fresh_tx u tx \<longrightarrow>
             (if is_coinbase tx then total_value u' = total_value u + outputs_value tx
              else total_value u' + unat fee = total_value u)))"
proof (cases r)
  case (Inl e)
  with assms show ?thesis
    by (simp add: ledger.perform_fail)
next
  case (Inr c)
  with assms obtain fee where v: "validate_tx ext u tx = Inr fee"
    by (auto simp: apply_tx_eq split: sum.splits)
  have u': "u' = tx_effect u tx" and ins: "set (outpoints tx) \<subseteq> fmdom' (utxos u)"
    using apply_tx_Inr(1,3) assms Inr by simp_all
  have "if is_coinbase tx then total_value u' = total_value u + outputs_value tx
      else total_value u' + unat fee = total_value u" if "fresh_tx u tx"
  proof (cases "is_coinbase tx")
    case True
    then have "outpoints tx = []" by (simp add: is_coinbase_def outpoints_def)
    with True total_value_tx_effect [OF that] u' show ?thesis by (simp add: inputs_value_def)
  next
    case False
    note ok = validate_tx_ok [OF v False]
    with False total_value_tx_effect [OF that ok(1,2)] u' show ?thesis by simp
  qed
  moreover have "utxos u' = fmupds (created_by tx) (fmdrops (outpoints tx) (utxos u))"
    by (simp add: u' tx_effect_def)
  ultimately show ?thesis using Inr v ins by simp
qed

text \<open>\<open>revert_tx\<close> is the exact inverse of \<open>apply_tx\<close> on fresh transactions, given the outputs
  that were recorded before the application.\<close>

theorem revert_undoes_apply:
  assumes "apply_tx ext u tx = (u', Inr c)" and "fresh_tx u tx"
    and "\<forall>k\<in>set (outpoints tx). fmlookup saved k = fmlookup (utxos u) k"
  shows "revert_tx u' c saved = (u, Inr ())"
  using assms by (rule ledger.revert_perform)

lemma demo_validates: "validate_tx demo_ext demo_utxo demo_tx = Inr 40"
  by (simp add: validate_tx_def demo_ext_def demo_utxo_def demo_tx_def demo_input_def
      sends_to_burn_def hash_new_def BURN_ADDRESS_def is_coinbase_def sum_inputs.simps
      outpoint_of_def check_signature_def compute_sighash_def schnorr_verify_def
      checked_add_def checked_sub_def)

lemma demo_fresh: "fresh_tx demo_utxo demo_tx"
  by (simp add: fresh_tx_def demo_utxo_def demo_tx_def)

lemma demo_applies: "apply_tx demo_ext demo_utxo demo_tx
    = (tx_effect demo_utxo demo_tx, Inr (change_set_of demo_tx))"
  by (simp add: apply_tx_eq demo_validates)

lemma demo_spends: "\<not> is_coinbase demo_tx"
  by (simp add: is_coinbase_def demo_tx_def)

theorem validated_spend_is_sound_witness:
  "validate_tx demo_ext demo_utxo demo_tx = Inr 40 \<and> \<not> is_coinbase demo_tx
   \<and> inputs_value demo_utxo demo_tx = outputs_value demo_tx + unat (40 :: u64)"
  using demo_validates demo_spends
    validated_spend_is_sound [OF demo_validates demo_spends] by blast

theorem apply_tx_atomic_and_conserving_witness:
  "fresh_tx demo_utxo demo_tx
   \<and> apply_tx demo_ext demo_utxo demo_tx = (tx_effect demo_utxo demo_tx, Inr (change_set_of demo_tx))
   \<and> total_value (tx_effect demo_utxo demo_tx) + 40 = total_value demo_utxo"
  using demo_fresh demo_applies apply_tx_atomic_and_conserving [OF demo_applies] demo_spends
  by (simp add: demo_validates)

theorem revert_undoes_apply_witness:
  "revert_tx (tx_effect demo_utxo demo_tx) (change_set_of demo_tx) (utxos demo_utxo)
   = (demo_utxo, Inr ())"
  by (rule revert_undoes_apply [OF demo_applies demo_fresh]) simp

end
