(* ===== verification/Blockchain_State.thy ===== *)
theory Blockchain_State
  imports Utxo Dag
begin

text \<open>
  The in-memory chain state: \<open>core/state/mod.rs\<close>. \<open>apply_block\<close> applies a block's
  transactions in order and, when one fails, undoes the applied ones from their change sets in
  reverse.
\<close>

section \<open>State and operations\<close>

record prune_marker =
  marker_epoch :: u64
  marker_timestamp :: u64

record blockchain_state =
  finalizing_block :: "hash option"
  virtual_score :: u64
  pruned :: "hash list"
  utxo_set :: utxo_set
  prune_markers :: "(outpoint, prune_marker) fmap"

definition blockchain_state_new :: blockchain_state where
  "blockchain_state_new = \<lparr>finalizing_block = None, virtual_score = 0, pruned = [],
     utxo_set = utxo_new, prune_markers = fmempty\<rparr>"

definition mark_leaf_for_pruning ::
    "blockchain_state \<Rightarrow> outpoint \<Rightarrow> u64 \<Rightarrow> u64 \<Rightarrow> blockchain_state" where
  "mark_leaf_for_pruning self k epoch time =
     self\<lparr>prune_markers :=
       fmupd k \<lparr>marker_epoch = epoch, marker_timestamp = time\<rparr> (prune_markers self)\<rparr>"

definition is_leaf_marked_pruned :: "blockchain_state \<Rightarrow> outpoint \<Rightarrow> bool" where
  "is_leaf_marked_pruned self k \<longleftrightarrow> k |\<in>| fmdom (prune_markers self)"

definition prune_leaf :: "blockchain_state \<Rightarrow> outpoint \<Rightarrow> blockchain_state" where
  "prune_leaf self k =
     self\<lparr>utxo_set := (utxo_set self)\<lparr>utxos := fmdrop k (utxos (utxo_set self))\<rparr>,
          prune_markers := fmdrop k (prune_markers self)\<rparr>"

text \<open>\<open>iter\<close> is the iteration order of the marker map; it orders the returned list.\<close>

definition prune_older_than ::
    "((outpoint, prune_marker) fmap \<Rightarrow> (outpoint \<times> prune_marker) list) \<Rightarrow> blockchain_state
      \<Rightarrow> u64 \<Rightarrow> blockchain_state \<times> (core_error + outpoint list)" where
  "prune_older_than iter self epoch_threshold =
     (let to_prune = map fst (filter (\<lambda>(_, m). marker_epoch m \<le> epoch_threshold)
                                (iter (prune_markers self)))
      in (fold (\<lambda>k s. prune_leaf s k) to_prune self, Inr to_prune))"

definition set_finalizing_block :: "blockchain_state \<Rightarrow> hash \<Rightarrow> blockchain_state" where
  "set_finalizing_block self block = self\<lparr>finalizing_block := Some block\<rparr>"

definition update_virtual_score :: "blockchain_state \<Rightarrow> u64 \<Rightarrow> blockchain_state" where
  "update_virtual_score self score = self\<lparr>virtual_score := score\<rparr>"

definition mark_pruned :: "blockchain_state \<Rightarrow> hash \<Rightarrow> blockchain_state" where
  "mark_pruned self block = self\<lparr>pruned := pruned self @ [block]\<rparr>"

definition get_virtual_score :: "blockchain_state \<Rightarrow> u64" where
  "get_virtual_score self = virtual_score self"

text \<open>Before a transaction is applied, the outputs its inputs find are recorded.\<close>

fun save_spent ::
    "utxo_set \<Rightarrow> (outpoint, tx_output) fmap \<Rightarrow> tx_input list \<Rightarrow> (outpoint, tx_output) fmap" where
  "save_spent u saved [] = saved"
| "save_spent u saved (i # ins) =
     (case fmlookup (utxos u) (outpoint_of i) of
        Some out \<Rightarrow> save_spent u (fmupd (outpoint_of i) out saved) ins
      | None \<Rightarrow> save_spent u saved ins)"

fun apply_block_loop ::
    "externals \<Rightarrow> utxo_set \<Rightarrow> utxo_change_set list \<Rightarrow> (outpoint, tx_output) fmap
      \<Rightarrow> transaction list \<Rightarrow> utxo_set \<times> (core_error + unit)" where
  "apply_block_loop ext u changesets saved [] = (u, Inr ())"
| "apply_block_loop ext u changesets saved (tx # txs) =
     (let saved' = save_spent u saved (inputs tx) in
      case apply_tx ext u tx of
        (u', Inr changeset) \<Rightarrow> apply_block_loop ext u' (changesets @ [changeset]) saved' txs
      | (u', Inl e) \<Rightarrow>
          (case undo_all (\<lambda>s c. revert_tx s c saved') u' (rev changesets) of
             (u'', Inl _) \<Rightarrow>
               (u'', Inl (TransactionError ''Transaction apply failed and revert failed: {}''))
           | (u'', Inr _) \<Rightarrow> (u'', Inl e)))"

definition apply_block ::
    "externals \<Rightarrow> blockchain_state \<Rightarrow> block_node \<Rightarrow> blockchain_state \<times> (core_error + unit)" where
  "apply_block ext self block =
     (case apply_block_loop ext (utxo_set self) [] fmempty (transactions block) of
        (u, r) \<Rightarrow> (self\<lparr>utxo_set := u\<rparr>, r))"

text \<open>\<open>revert_block\<close> removes the outputs of the block's transactions, last transaction first;
  its loop over the inputs has no effect.\<close>

definition remove_outputs :: "transaction \<Rightarrow> utxo_set \<Rightarrow> utxo_set" where
  "remove_outputs tx u =
     u\<lparr>utxos := fmdrops (map (\<lambda>n. (tx_id tx, of_nat n)) [0..<length (outputs tx)]) (utxos u)\<rparr>"

definition revert_block ::
    "blockchain_state \<Rightarrow> block_node \<Rightarrow> blockchain_state \<times> (core_error + unit)" where
  "revert_block self block =
     (self\<lparr>utxo_set := fold remove_outputs (rev (transactions block)) (utxo_set self)\<rparr>, Inr ())"

definition snapshot :: "blockchain_state \<Rightarrow> blockchain_state" where
  "snapshot self = self"

definition restore :: "blockchain_state \<Rightarrow> blockchain_state \<Rightarrow> blockchain_state" where
  "restore self snap = snap"

text \<open>The effect of a list of transactions, in order.\<close>

definition block_effect :: "utxo_set \<Rightarrow> transaction list \<Rightarrow> utxo_set" where
  "block_effect u txs = fold (\<lambda>tx u. tx_effect u tx) txs u"

definition demo_state :: blockchain_state where
  "demo_state = blockchain_state_new\<lparr>utxo_set := demo_utxo\<rparr>"

text \<open>A block that spends the one output and then tries to spend it again.\<close>

definition demo_double_spend :: block_node where
  "demo_double_spend = (bare_block hash_a {||})\<lparr>transactions :=
     [demo_tx, demo_tx\<lparr>tx_id := Hash (replicate 32 8)\<rparr>]\<rparr>"

text \<open>A state with one marked output and the one iteration order of its markers.\<close>

definition demo_marked :: blockchain_state where
  "demo_marked = mark_leaf_for_pruning demo_state (hash_a, 0) 3 7"

definition demo_marker_order ::
    "(outpoint, prune_marker) fmap \<Rightarrow> (outpoint \<times> prune_marker) list" where
  "demo_marker_order m = [((hash_a, 0), \<lparr>marker_epoch = 3, marker_timestamp = 7\<rparr>)]"

section \<open>Lemmas\<close>

lemma save_spent_lookup:
  "fmlookup (save_spent u saved ins) k =
     (if k \<in> outpoint_of ` set ins \<and> k \<in> fmdom' (utxos u) then fmlookup (utxos u) k
      else fmlookup saved k)"
  by (induction ins arbitrary: saved) (auto simp: fmlookup_dom'_iff split: option.splits)

text \<open>The loop's invariant: the outputs consumed so far (\<open>K\<close>) are out of the set and will not
  come back, and any record that agrees with \<open>saved\<close> on them journals the run.\<close>

definition rollback_inv ::
    "externals \<Rightarrow> utxo_set \<Rightarrow> outpoint set \<Rightarrow> utxo_change_set list
      \<Rightarrow> (outpoint, tx_output) fmap \<Rightarrow> utxo_set \<Rightarrow> transaction list \<Rightarrow> bool" where
  "rollback_inv ext u0 K cs saved u txs \<longleftrightarrow>
     (\<forall>saved'. (\<forall>k\<in>K. fmlookup saved' k = fmlookup saved k) \<longrightarrow> ledger.journal ext saved' u0 cs u)
     \<and> K \<inter> fmdom' (utxos u) = {}
     \<and> (\<forall>k\<in>K. \<forall>tx\<in>set txs. fst k \<noteq> tx_id tx)
     \<and> fresh_block u txs"

lemma rollback_inv_start: "fresh_block u txs \<Longrightarrow> rollback_inv ext u {} [] saved u txs"
  by (simp add: rollback_inv_def ledger.journal.start)

lemma save_spent_consumed:
  "K \<inter> fmdom' (utxos u) = {} \<Longrightarrow>
   \<forall>k\<in>K. fmlookup (save_spent u saved ins) k = fmlookup saved k"
  unfolding save_spent_lookup by auto

lemma rollback_inv_journal:
  "rollback_inv ext u0 K cs saved u txs \<Longrightarrow>
   \<forall>k\<in>K. fmlookup saved' k = fmlookup (save_spent u saved ins) k \<Longrightarrow>
   ledger.journal ext saved' u0 cs u"
  using save_spent_consumed unfolding rollback_inv_def by fastforce

lemma rollback_inv_save:
  "rollback_inv ext u0 K cs saved u txs \<Longrightarrow> ledger.journal ext (save_spent u saved ins) u0 cs u"
  using rollback_inv_journal [of ext u0 K cs saved u txs "save_spent u saved ins" ins] by blast

lemma rollback_inv_step:
  assumes inv: "rollback_inv ext u0 K cs saved u (tx # txs)"
    and app: "apply_tx ext u tx = (u', Inr c)"
  shows "rollback_inv ext u0 (K \<union> set (outpoints tx)) (cs @ [c])
    (save_spent u saved (inputs tx)) u' txs"
proof -
  let ?saved = "save_spent u saved (inputs tx)"
  note ok = apply_tx_Inr [OF app]
  from inv have fb: "fresh_block u (tx # txs)" by (simp add: rollback_inv_def)
  note fresh = fresh_block_step [OF fb]
  have "ledger.journal ext saved' u0 (cs @ [c]) u'"
    if agree: "\<forall>k\<in>K \<union> set (outpoints tx). fmlookup saved' k = fmlookup ?saved k" for saved'
  proof (rule ledger.journal.extend [OF _ app fresh(1)])
    show "ledger.journal ext saved' u0 cs u"
      using agree by (intro rollback_inv_journal [OF inv, where ins = "inputs tx"]) simp
    show "\<forall>k\<in>set (outpoints tx). fmlookup saved' k = fmlookup (utxos u) k"
      using agree ok(3) by (auto simp: save_spent_lookup outpoints_def)
  qed
  moreover have "(K \<union> set (outpoints tx)) \<inter> fmdom' (utxos u') = {}"
  proof -
    have "fst k \<noteq> tx_id tx" if "k \<in> K \<union> set (outpoints tx)" for k
      using that inv fresh(1) ok(3) by (auto simp: rollback_inv_def fresh_tx_def fmdom'_alt_def)
    then have "(K \<union> set (outpoints tx)) \<inter> fst ` set (created_by tx) = {}"
      using created_by_txid by blast
    moreover have "K \<inter> fmdom' (utxos u) = {}" using inv by (simp add: rollback_inv_def)
    ultimately show ?thesis unfolding ok(1) tx_effect_dom by blast
  qed
  moreover have "\<forall>k\<in>K \<union> set (outpoints tx). \<forall>t\<in>set txs. fst k \<noteq> tx_id t"
  proof (intro ballI)
    fix k t
    assume k: "k \<in> K \<union> set (outpoints tx)" and t: "t \<in> set txs"
    from fb t have "fresh_tx u t" by (simp add: fresh_block_def)
    with k t ok(3) inv show "fst k \<noteq> tx_id t"
      by (auto simp: rollback_inv_def dest: fresh_tx_dom)
  qed
  ultimately show ?thesis
    using fresh(2) by (simp add: rollback_inv_def ok(1))
qed

lemma apply_block_loop_result:
  assumes "rollback_inv ext u0 K cs saved u txs"
    and "apply_block_loop ext u cs saved txs = (u', r)"
  shows "case r of Inl _ \<Rightarrow> u' = u0 | Inr _ \<Rightarrow> u' = block_effect u txs"
  using assms
proof (induction txs arbitrary: u cs saved K)
  case Nil
  then show ?case by (auto simp: block_effect_def)
next
  case (Cons tx txs)
  obtain v ro where app: "apply_tx ext u tx = (v, ro)" by force
  show ?case
  proof (cases ro)
    case (Inl e)
    then have "v = u" using app by (simp add: ledger.perform_fail)
    with ledger.journal_undo [OF rollback_inv_save [OF Cons.prems(1)]]
    show ?thesis
      using Cons.prems(2) app Inl by (auto simp: Let_def)
  next
    case (Inr c)
    with app have ok: "apply_tx ext u tx = (v, Inr c)" by simp
    have "case r of Inl _ \<Rightarrow> u' = u0 | Inr _ \<Rightarrow> u' = block_effect v txs"
      using Cons.prems(2) ok
      by (intro Cons.IH [OF rollback_inv_step [OF Cons.prems(1) ok]]) (simp add: Let_def)
    then show ?thesis
      using apply_tx_Inr(1) [OF ok] by (simp add: block_effect_def split: sum.splits)
  qed
qed

lemma apply_block_only_utxos:
  "apply_block ext self block = (self', r) \<Longrightarrow> self' = self\<lparr>utxo_set := utxo_set self'\<rparr>"
  by (auto simp: apply_block_def split: prod.splits)

lemma fold_prune_leaf:
  "utxos (utxo_set (fold (\<lambda>k s. prune_leaf s k) ks self)) = fmdrops ks (utxos (utxo_set self))"
  "prune_markers (fold (\<lambda>k s. prune_leaf s k) ks self) = fmdrops ks (prune_markers self)"
  by (induction ks arbitrary: self) (simp_all add: prune_leaf_def)

section \<open>Properties\<close>

text \<open>C3: \<open>apply_block\<close> is all or nothing for a block of new transactions (their ids differ from each
  other and from the ids of all stored outputs, and no transaction has more than \<open>2 ^ 32\<close>
  outputs): a failure at any transaction leaves the whole chain state exactly as it was before the block, and success
  leaves the effect of all transactions in order and touches nothing but the UTXO set.\<close>

theorem apply_block_all_or_nothing:
  assumes "fresh_block (utxo_set self) (transactions block)"
    and "apply_block ext self block = (self', r)"
  shows "case r of
      Inl _ \<Rightarrow> self' = self
    | Inr _ \<Rightarrow> self' = self\<lparr>utxo_set := block_effect (utxo_set self) (transactions block)\<rparr>"
proof -
  have "case r of Inl _ \<Rightarrow> utxo_set self' = utxo_set self
      | Inr _ \<Rightarrow> utxo_set self' = block_effect (utxo_set self) (transactions block)"
    using assms(2) apply_block_loop_result [OF rollback_inv_start [OF assms(1)]]
    by (auto simp: apply_block_def split: prod.splits)
  then show ?thesis
    using apply_block_only_utxos [OF assms(2)] by (cases r) auto
qed

text \<open>pruning by age removes exactly the marked outputs whose epoch is at most the threshold,
  from the UTXO set and from the markers, whatever the iteration order of the markers.\<close>

theorem prune_older_than_exact:
  assumes "set (iter (prune_markers self)) = {(k, m). fmlookup (prune_markers self) k = Some m}"
    and "prune_older_than iter self t = (self', Inr ks)"
  defines "old \<equiv> {k. \<exists>m. fmlookup (prune_markers self) k = Some m \<and> marker_epoch m \<le> t}"
  shows "set ks = old
    \<and> (\<forall>k. fmlookup (prune_markers self') k
          = (if k \<in> old then None else fmlookup (prune_markers self) k))
    \<and> (\<forall>k. fmlookup (utxos (utxo_set self')) k
          = (if k \<in> old then None else fmlookup (utxos (utxo_set self)) k))"
proof -
  have "set ks = {k. \<exists>m. (k, m) \<in> set (iter (prune_markers self)) \<and> marker_epoch m \<le> t}"
  proof -
    have "ks = map fst (filter (\<lambda>(_, m). marker_epoch m \<le> t) (iter (prune_markers self)))"
      using assms(2) by (simp add: prune_older_than_def Let_def)
    then show ?thesis by force
  qed
  then have ks: "set ks = old"
    unfolding assms(1) old_def by simp
  have "self' = fold (\<lambda>k s. prune_leaf s k) ks self"
    using assms(2) by (auto simp: prune_older_than_def Let_def)
  then show ?thesis
    by (simp add: fold_prune_leaf ks)
qed

theorem apply_block_all_or_nothing_witness:
  "fresh_block (utxo_set demo_state) (transactions demo_double_spend)
   \<and> \<not> is_ok (snd (apply_block demo_ext demo_state demo_double_spend))
   \<and> fst (apply_block demo_ext demo_state demo_double_spend) = demo_state"
proof -
  have f: "fresh_block (utxo_set demo_state) (transactions demo_double_spend)"
    using demo_fresh by (simp add: fresh_block_def fresh_tx_def demo_state_def
        demo_double_spend_def demo_utxo_def demo_tx_def)
  have "\<not> is_ok (validate_tx demo_ext (tx_effect demo_utxo demo_tx)
      (demo_tx\<lparr>tx_id := Hash (replicate 32 8)\<rparr>))"
    by (simp add: validate_tx_def sends_to_burn_def demo_tx_def demo_input_def demo_utxo_def
        demo_ext_def hash_new_def is_coinbase_def sum_inputs.simps outpoint_of_def
        tx_effect_def outpoints_def created_by_def checked_add_def BURN_ADDRESS_def)
  then obtain e where "validate_tx demo_ext (tx_effect demo_utxo demo_tx)
      (demo_tx\<lparr>tx_id := Hash (replicate 32 8)\<rparr>) = Inl e"
    by (auto simp: is_ok_iff) (metis sum.exhaust)
  then have "\<not> is_ok (snd (apply_block demo_ext demo_state demo_double_spend))"
    by (simp add: apply_block_def demo_state_def demo_double_spend_def demo_applies Let_def
        apply_tx_eq split: prod.splits sum.splits)
  moreover obtain s r where ap: "apply_block demo_ext demo_state demo_double_spend = (s, r)"
    by force
  ultimately show ?thesis
    using f apply_block_all_or_nothing [OF f ap] by (cases r) simp_all
qed

theorem prune_older_than_exact_witness:
  "fmlookup (prune_markers demo_marked) (hash_a, 0) \<noteq> None
   \<and> fmlookup (prune_markers (fst (prune_older_than demo_marker_order demo_marked 5))) (hash_a, 0) = None"
proof -
  have h: "set (demo_marker_order (prune_markers demo_marked))
      = {(k, m). fmlookup (prune_markers demo_marked) k = Some m}"
    by (auto simp: demo_marker_order_def demo_marked_def mark_leaf_for_pruning_def
        demo_state_def blockchain_state_new_def split: if_splits)
  have "prune_older_than demo_marker_order demo_marked 5
      = (prune_leaf demo_marked (hash_a, 0), Inr [(hash_a, 0)])"
    by (simp add: prune_older_than_def demo_marker_order_def)
  note prune_older_than_exact [where t = 5, OF h this]
  moreover have "fmlookup (prune_markers demo_marked) (hash_a, 0)
      = Some \<lparr>marker_epoch = 3, marker_timestamp = 7\<rparr>"
    by (simp add: demo_marked_def mark_leaf_for_pruning_def)
  ultimately show ?thesis
    by (simp add: prune_older_than_def demo_marker_order_def)
qed

end
