(* ===== verification/Reward.thy ===== *)
theory Reward
  imports Utxo Dag
begin

text \<open>
  Rewards: \<open>core/consensus/reward.rs\<close>. Fees are collected over a working copy of the UTXO set,
  the coinbase splits subsidy and fees 80/20, and the split is checked again on receipt. The
  full-node validator trait is a predicate on addresses; a panic is \<open>None\<close>. The
  \<open>debug_assert\<close>s are not part of the release build and are stated as a property instead.
\<close>

section \<open>Definitions\<close>

type_synonym node_validator = "bytes \<Rightarrow> bool"

text \<open>\<open>DefaultNodeValidator\<close> and the trait's default \<open>verify_data_availability\<close>.\<close>

definition default_is_valid_full_node :: node_validator where
  "default_is_valid_full_node address = False"

definition default_get_valid_nodes :: "bytes list" where
  "default_get_valid_nodes = []"

definition verify_data_availability :: "node_validator \<Rightarrow> bytes \<Rightarrow> bytes option \<Rightarrow> bool" where
  "verify_data_availability is_valid_full_node address prf = is_valid_full_node address"

definition calculate_fees :: "externals \<Rightarrow> transaction \<Rightarrow> utxo_set \<Rightarrow> core_error + u64" where
  "calculate_fees ext tx u = validate_tx ext u tx"

definition calculate_tx_total_fee ::
    "externals \<Rightarrow> transaction \<Rightarrow> utxo_set \<Rightarrow> core_error + u128" where
  "calculate_tx_total_fee ext tx u =
     bind_res (calculate_fees ext tx u) (\<lambda>fee.
       let base_fee = (ucast fee :: u128);
           gas_used = gas_limit tx;
           total_gas_fee = saturating_mul (ucast gas_used) (max_fee_per_gas tx)
       in Inr (saturating_add base_fee total_gas_fee))"

fun accepted_fees_loop ::
    "externals \<Rightarrow> u128 \<Rightarrow> utxo_set \<Rightarrow> transaction list \<Rightarrow> core_error + u128" where
  "accepted_fees_loop ext total_fees working_utxo [] = Inr total_fees"
| "accepted_fees_loop ext total_fees working_utxo (tx # txs) =
     (if is_coinbase tx then accepted_fees_loop ext total_fees working_utxo txs
      else
        bind_res (calculate_tx_total_fee ext tx working_utxo) (\<lambda>fee.
          case apply_tx ext working_utxo tx of
            (_, Inl e) \<Rightarrow> Inl e
          | (working_utxo', Inr _) \<Rightarrow>
              (let total_fees' = saturating_add total_fees fee in
               if ucast (- 1 :: u64) < total_fees'
               then Inl (TransactionError ''Fee overflow in accepted fee calculation'')
               else accepted_fees_loop ext total_fees' working_utxo' txs)))"

definition calculate_accepted_fees ::
    "externals \<Rightarrow> block_node \<Rightarrow> utxo_set \<Rightarrow> core_error + u64" where
  "calculate_accepted_fees ext block u =
     bind_res (accepted_fees_loop ext 0 u (transactions block)) (\<lambda>t. Inr (ucast t))"

definition MINER_SHARE_PERCENT :: u128 where
  "MINER_SHARE_PERCENT = MINER_REWARD_PERCENT"

definition FULLNODE_SHARE_PERCENT :: u128 where
  "FULLNODE_SHARE_PERCENT = FULLNODE_REWARD_PERCENT"

text \<open>\<open>Config::default().block_reward\<close> is 100.\<close>

definition config_block_reward :: u64 where
  "config_block_reward = 100"

definition calculate_block_reward :: "u64 \<Rightarrow> u64" where
  "calculate_block_reward height =
     (let initial_reward = config_block_reward;
          halvings = height div HALVING_INTERVAL
      in if 64 \<le> halvings then 0 else drop_bit (unat halvings) initial_reward)"

definition block_total_reward ::
    "externals \<Rightarrow> block_node \<Rightarrow> u64 \<Rightarrow> bool \<Rightarrow> utxo_set \<Rightarrow> core_error + u64" where
  "block_total_reward ext block height is_blue u =
     (if \<not> is_blue then Inr 0
      else
        bind_res (calculate_accepted_fees ext block u) (\<lambda>fees.
        bind_res (ok_or (TransactionError ''Reward overflow: subsidy + fees exceed max limit'')
                    (checked_add (capped_reward height) (ucast fees))) (\<lambda>t.
          if unat t < 2 ^ 64 then Inr (ucast t)
          else Inl (TransactionError ''Total reward overflow u64''))))"

definition coinbase_shares :: "u32 \<Rightarrow> u128 \<Rightarrow> u128 \<times> u128" where
  "coinbase_shares active_node_count total_reward =
     (if active_node_count = 0 then (total_reward, 0)
      else let miner_share = (total_reward * MINER_SHARE_PERCENT) div 100
           in (miner_share, saturating_sub total_reward miner_share))"

definition coinbase_outputs ::
    "hash \<Rightarrow> hash option \<Rightarrow> u32 \<Rightarrow> u128 \<Rightarrow> u128 \<Rightarrow> tx_output list option" where
  "coinbase_outputs miner_address pool_address active_node_count miner_reward node_reward_pool =
     (let first = \<lparr>out_value = ucast miner_reward, pubkey_hash = miner_address\<rparr> in
      if 0 < active_node_count \<and> 0 < node_reward_pool
      then case pool_address of
             Some pool_addr \<Rightarrow>
               (if as_bytes pool_addr = BURN_ADDRESS then None
                else Some [first, \<lparr>out_value = ucast node_reward_pool, pubkey_hash = pool_addr\<rparr>])
           | None \<Rightarrow>
               Some [first, \<lparr>out_value = ucast node_reward_pool, pubkey_hash = miner_address\<rparr>]
      else Some [first])"

definition create_coinbase_tx ::
    "externals \<Rightarrow> hash \<Rightarrow> hash option \<Rightarrow> u32 \<Rightarrow> u128 \<Rightarrow> transaction option" where
  "create_coinbase_tx ext miner_address pool_address active_node_count total_reward =
     (if as_bytes miner_address = replicate 32 0 then None
      else case coinbase_shares active_node_count total_reward of
        (miner_reward, node_reward_pool) \<Rightarrow>
          map_option (\<lambda>outs. transaction_new ext [] outs)
            (coinbase_outputs miner_address pool_address active_node_count
               miner_reward node_reward_pool))"

definition check_split :: "node_validator option \<Rightarrow> u128 \<Rightarrow> tx_output \<Rightarrow> tx_output \<Rightarrow> core_error + unit" where
  "check_split validator actual_reward out0 out1 =
     (let first_value = (ucast (out_value out0) :: u128);
          second_value = ucast (out_value out1);
          expected_miner = (actual_reward * MINER_SHARE_PERCENT) div 100;
          expected_node = saturating_sub actual_reward expected_miner;
          split_valid = (first_value = expected_miner \<and> second_value = expected_node)
            \<or> (first_value = expected_node \<and> second_value = expected_miner)
      in if \<not> split_valid
         then Inl (TransactionError
                ''Invalid 80/20 split: expected [miner: {}, node: {}], got [{}, {}]'')
         else case validator of
           None \<Rightarrow> Inr ()
         | Some is_valid_full_node \<Rightarrow>
             (let node_address = (if first_value = expected_node
                    then as_bytes (pubkey_hash out0) else as_bytes (pubkey_hash out1))
              in if \<not> is_valid_full_node node_address
                 then Inl (TransactionError
                        ''Node reward address {:?} is not a valid full node provider'')
                 else Inr ()))"

definition validate_coinbase_reward_internal ::
    "block_node \<Rightarrow> u128 \<Rightarrow> node_validator option \<Rightarrow> core_error + unit" where
  "validate_coinbase_reward_internal block actual_reward validator =
     (case find is_coinbase (transactions block) of
        None \<Rightarrow> Inl (TransactionError ''Block must contain a coinbase transaction'')
      | Some tx \<Rightarrow>
          (let outs = outputs tx in
           if outs = [] then Inl (TransactionError ''Coinbase transaction has no outputs'')
           else if sum_list (map (\<lambda>o'. ucast (out_value o')) outs) \<noteq> actual_reward
           then Inl (TransactionError ''Invalid coinbase reward: expected {} total, got {}'')
           else if list_ex (\<lambda>o'. as_bytes (pubkey_hash o') = BURN_ADDRESS) outs
           then Inl (TransactionError
                  ''Coinbase output {} is sent to burn address (zero address) - prohibited'')
           else if \<not> (length outs = 2 \<or> length outs = 1)
           then Inl (TransactionError ''Coinbase must have 1 or 2 outputs, got {}'')
           else if length outs = 2 then check_split validator actual_reward (outs ! 0) (outs ! 1)
           else if ucast (out_value (outs ! 0)) \<noteq> actual_reward
           then Inl (TransactionError
              ''Single output coinbase must contain all reward value: expected {}, got {}'')
           else Inr ()))"

definition validate_coinbase_reward :: "block_node \<Rightarrow> u128 \<Rightarrow> core_error + unit" where
  "validate_coinbase_reward block actual_reward =
     validate_coinbase_reward_internal block actual_reward None"

text \<open>The gas fees a list of transactions offers, and the set left by its spends.\<close>

definition gas_fees :: "transaction list \<Rightarrow> nat" where
  "gas_fees txs =
     (\<Sum>tx\<leftarrow>filter (\<lambda>tx. \<not> is_coinbase tx) txs. unat (gas_limit tx) * unat (max_fee_per_gas tx))"

definition spends_effect :: "utxo_set \<Rightarrow> transaction list \<Rightarrow> utxo_set" where
  "spends_effect u txs = fold (\<lambda>tx u. tx_effect u tx) (filter (\<lambda>tx. \<not> is_coinbase tx) txs) u"

definition demo_block :: block_node where
  "demo_block = (bare_block hash_b {|hash_a|})\<lparr>transactions := [demo_tx\<lparr>gas_limit := 3, max_fee_per_gas := 4\<rparr>]\<rparr>"

section \<open>Lemmas\<close>

lemma unat_max_u64: "unat (ucast (- 1 :: u64) :: u128) = 2 ^ 64 - 1"
  by (simp add: unat_ucast_up unat_max_word)

lemma calculate_tx_total_fee_value:
  assumes "calculate_tx_total_fee ext tx u = Inr fee" and "unat fee < 2 ^ 64"
  obtains base where "validate_tx ext u tx = Inr base"
    and "unat fee = unat base + unat (gas_limit tx) * unat (max_fee_per_gas tx)"
proof -
  from assms(1) obtain base where base: "validate_tx ext u tx = Inr base"
    and fee: "fee = saturating_add (ucast base) (saturating_mul (ucast (gas_limit tx)) (max_fee_per_gas tx))"
    by (auto simp: calculate_tx_total_fee_def calculate_fees_def Let_def)
  have "unat fee = min (unat base + min (unat (gas_limit tx) * unat (max_fee_per_gas tx)) (2 ^ 128 - 1)) (2 ^ 128 - 1)"
    unfolding fee by (simp add: rust_arith unat_ucast_up)
  with assms(2) have "unat fee = unat base + unat (gas_limit tx) * unat (max_fee_per_gas tx)"
    by (simp add: min_def split: if_splits)
  with base that show ?thesis by blast
qed

lemma accepted_fees_loop_ConsE:
  assumes "accepted_fees_loop ext t u (tx # txs) = Inr f" and "\<not> is_coinbase tx"
  obtains fee u' c where "calculate_tx_total_fee ext tx u = Inr fee"
    and "apply_tx ext u tx = (u', Inr c)"
    and "\<not> ucast (- 1 :: u64) < saturating_add t fee"
    and "accepted_fees_loop ext (saturating_add t fee) u' txs = Inr f"
proof -
  obtain u' r where app: "apply_tx ext u tx = (u', r)" by force
  with assms that show ?thesis
    by (cases r) (auto simp: Let_def split: if_splits)
qed

text \<open>Every unit of collected fee left the UTXO set or is a gas fee.\<close>

lemma accepted_fees_loop_accounting:
  assumes "accepted_fees_loop ext t u txs = Inr f"
    and "fresh_block u txs" and "unat t < 2 ^ 64"
  shows "unat f < 2 ^ 64 \<and>
    total_value (spends_effect u txs) + unat f = total_value u + unat t + gas_fees txs"
  using assms
proof (induction txs arbitrary: t u)
  case Nil
  then show ?case by (simp add: spends_effect_def gas_fees_def)
next
  case (Cons tx txs)
  show ?case
  proof (cases "is_coinbase tx")
    case True
    with Cons show ?thesis by (simp add: spends_effect_def gas_fees_def fresh_block_def)
  next
    case False
    from Cons.prems(1) False obtain fee u' c where
        fee: "calculate_tx_total_fee ext tx u = Inr fee"
      and app: "apply_tx ext u tx = (u', Inr c)"
      and small: "\<not> ucast (- 1 :: u64) < saturating_add t fee"
      and rest: "accepted_fees_loop ext (saturating_add t fee) u' txs = Inr f"
      by (rule accepted_fees_loop_ConsE)
    have t': "unat (saturating_add t fee) < 2 ^ 64"
      using small unat_max_u64 by (simp add: word_less_nat_alt)
    then have sum: "unat (saturating_add t fee) = unat t + unat fee"
      by (simp add: rust_arith min_def split: if_splits)
    obtain base where base: "validate_tx ext u tx = Inr base"
      and val: "unat fee = unat base + unat (gas_limit tx) * unat (max_fee_per_gas tx)"
    proof -
      from sum t' have "unat fee < 2 ^ 64" by simp
      with fee show ?thesis by (rule calculate_tx_total_fee_value) (rule that)
    qed
    have u': "u' = tx_effect u tx" by (rule apply_tx_Inr(1) [OF app])
    note ok = validate_tx_ok [OF base False]
    note fresh = fresh_block_step [OF Cons.prems(2)]
    from total_value_tx_effect [OF fresh(1) ok(1,2)] ok(3)
    have cons: "total_value u' + unat base = total_value u" by (simp add: u')
    have "unat f < 2 ^ 64 \<and> total_value (spends_effect u' txs) + unat f
        = total_value u' + unat (saturating_add t fee) + gas_fees txs"
      using fresh(2) t' by (intro Cons.IH [OF rest]) (simp_all add: u')
    with False show ?thesis
      using cons val sum by (simp add: spends_effect_def gas_fees_def u')
  qed
qed

lemma ucast_u64_u128:
  fixes m :: u128
  assumes "unat m < 2 ^ 64"
  shows "unat (ucast m :: u64) = unat m" and "ucast (ucast m :: u64) = m"
proof -
  show *: "unat (ucast m :: u64) = unat m"
    using assms by (simp add: unsigned_ucast_eq take_bit_nat_eq_self)
  then show "ucast (ucast m :: u64) = m"
    by (simp add: word_unat_eq_iff unat_ucast_up)
qed

lemma unat_div_100: "unat ((a :: u128) div 100) = unat a div 100"
  by (simp add: unat_div)

lemma miner_share_value:
  assumes "unat t < 2 ^ 64"
  shows "unat ((t * MINER_SHARE_PERCENT) div 100) = unat t * 80 div 100"
  using assms
  by (simp add: unat_div_100 MINER_SHARE_PERCENT_def MINER_REWARD_PERCENT_def unat_mult_small)

lemma coinbase_shares_sum:
  assumes "coinbase_shares n t = (m, p)" and "unat t < 2 ^ 64"
  shows "unat m + unat p = unat t" and "0 < n \<Longrightarrow> p = 0 \<Longrightarrow> m = t"
  using assms miner_share_value [OF assms(2)]
  by (auto simp: coinbase_shares_def Let_def unat_saturating_sub word_unat_eq_iff split: if_splits)

lemma check_split_own:
  assumes "unat t < 2 ^ 64" and "n \<noteq> 0" and "coinbase_shares n t = (m, p)"
  shows "check_split None t \<lparr>out_value = ucast m, pubkey_hash = a\<rparr>
    \<lparr>out_value = ucast p, pubkey_hash = b\<rparr> = Inr ()"
proof -
  have "unat m < 2 ^ 64" "unat p < 2 ^ 64"
    using coinbase_shares_sum(1) [OF assms(3,1)] assms(1) by linarith+
  moreover have "m = t * MINER_SHARE_PERCENT div 100" "p = saturating_sub t m"
    using assms(2,3) by (auto simp: coinbase_shares_def Let_def)
  ultimately show ?thesis
    by (simp add: check_split_def Let_def ucast_u64_u128)
qed

text \<open>What a coinbase transaction can look like.\<close>

lemma create_coinbase_tx_cases:
  assumes "create_coinbase_tx ext miner pool n t = Some tx"
  obtains m p where "coinbase_shares n t = (m, p)" and "\<not> (0 < n \<and> 0 < p)"
      and "outputs tx = [\<lparr>out_value = ucast m, pubkey_hash = miner\<rparr>]"
      and "as_bytes miner \<noteq> BURN_ADDRESS"
  | m p a where "coinbase_shares n t = (m, p)" and "0 < n" and "0 < p"
      and "outputs tx = [\<lparr>out_value = ucast m, pubkey_hash = miner\<rparr>,
        \<lparr>out_value = ucast p, pubkey_hash = a\<rparr>]"
      and "as_bytes miner \<noteq> BURN_ADDRESS" and "as_bytes a \<noteq> BURN_ADDRESS"
proof -
  obtain m p where mp: "coinbase_shares n t = (m, p)" by force
  from assms mp have miner: "as_bytes miner \<noteq> BURN_ADDRESS"
    and outs: "coinbase_outputs miner pool n m p = Some (outputs tx)"
    by (auto simp: create_coinbase_tx_def BURN_ADDRESS_def transaction_new_def Let_def
        split: if_splits)
  show ?thesis
  proof (cases "0 < n \<and> 0 < p")
    case False
    with outs that(1) [OF mp False _ miner] show ?thesis
      by (auto simp: coinbase_outputs_def Let_def split: if_splits)
  next
    case True
    then obtain a where "outputs tx = [\<lparr>out_value = ucast m, pubkey_hash = miner\<rparr>,
        \<lparr>out_value = ucast p, pubkey_hash = a\<rparr>]" and "as_bytes a \<noteq> BURN_ADDRESS"
      using outs [symmetric] miner
      by (cases pool) (auto simp: coinbase_outputs_def Let_def split: if_splits)
    with True that(2) [OF mp _ _ _ miner] show ?thesis by blast
  qed
qed

lemma fifth_rounding: "(n :: nat) - n * 4 div 5 = n div 5 \<longleftrightarrow> n mod 5 = 0"
proof -
  obtain q r where n: "n = 5 * q + r" and r: "r < 5"
    by (metis mod_less_divisor mult_div_mod_eq zero_less_numeral)
  have "n * 4 div 5 = 4 * q + r * 4 div 5"
    unfolding n by (simp add: algebra_simps)
  moreover have "n div 5 = q" "n mod 5 = r"
    using n r by simp_all
  moreover have "r = 0 \<or> r = 1 \<or> r = 2 \<or> r = 3 \<or> r = 4" using r by linarith
  then have "5 * q + r - (4 * q + r * 4 div 5) = q \<longleftrightarrow> r = 0"
    by (elim disjE) simp_all
  ultimately show ?thesis
    by (simp only: n)
qed

lemma demo_gas_validates:
  "validate_tx demo_ext demo_utxo (demo_tx\<lparr>gas_limit := 3, max_fee_per_gas := 4\<rparr>) = Inr 40"
  by (simp add: validate_tx_def demo_ext_def demo_utxo_def demo_tx_def demo_input_def
      sends_to_burn_def hash_new_def BURN_ADDRESS_def is_coinbase_def sum_inputs.simps
      outpoint_of_def check_signature_def compute_sighash_def schnorr_verify_def
      checked_add_def checked_sub_def)

lemma demo_fees: "calculate_accepted_fees demo_ext demo_block demo_utxo = Inr 52"
proof -
  have "\<not> is_coinbase (demo_tx\<lparr>gas_limit := 3, max_fee_per_gas := 4\<rparr>)"
    by (simp add: is_coinbase_def demo_tx_def)
  then show ?thesis
    by (simp add: calculate_accepted_fees_def demo_block_def calculate_tx_total_fee_def
        calculate_fees_def demo_gas_validates apply_tx_eq saturating_add_def saturating_mul_def
        word_less_nat_alt unat_max_u64)
qed

lemma demo_block_fresh: "fresh_block demo_utxo (transactions demo_block)"
  using demo_fresh by (simp add: fresh_block_def fresh_tx_def demo_block_def)

section \<open>Properties\<close>

text \<open>a coinbase built by \<open>create_coinbase_tx\<close> pays out exactly the total reward and passes
  \<open>validate_coinbase_reward\<close>, for every reward that fits in \<open>u64\<close> and every number of active
  nodes, with or without a pool address.\<close>

theorem created_coinbase_validates:
  assumes "create_coinbase_tx ext miner pool n t = Some tx" and "unat t < 2 ^ 64"
    and "find is_coinbase (transactions block) = Some tx"
  shows "outputs_value tx = unat t \<and> validate_coinbase_reward block t = Inr ()"
  using assms(1)
proof (cases rule: create_coinbase_tx_cases)
  case (1 m p)
  have m: "unat m = unat t"
    using coinbase_shares_sum [OF 1(1) assms(2)] 1(1,2)
    by (cases "n = 0") (auto simp: coinbase_shares_def word_gt_0)
  then have "m = t" by (simp add: word_unat_eq_iff)
  with 1 assms(2,3) show ?thesis
    by (simp add: validate_coinbase_reward_def validate_coinbase_reward_internal_def Let_def
        outputs_value_def ucast_u64_u128)
next
  case (2 m p a)
  have sum: "unat m + unat p = unat t"
    by (rule coinbase_shares_sum(1) [OF 2(1) assms(2)])
  with assms(2) have small: "unat m < 2 ^ 64" "unat p < 2 ^ 64" by linarith+
  have "m + p = t"
    using sum assms(2) by (simp add: word_unat_eq_iff unat_add_small)
  moreover have "check_split None t \<lparr>out_value = ucast m, pubkey_hash = miner\<rparr>
      \<lparr>out_value = ucast p, pubkey_hash = a\<rparr> = Inr ()"
    using check_split_own [OF assms(2) _ 2(1)] 2(2) by auto
  ultimately show ?thesis
    using 2 small sum assms(3)
    by (simp add: validate_coinbase_reward_def validate_coinbase_reward_internal_def Let_def
        outputs_value_def ucast_u64_u128)
qed

text \<open>fee accounting: the fees collected for a block of new transactions are exactly the value
  its spends took out of the UTXO set plus the gas fees they offer; no fee is lost and none of
  the fixed-width sums wraps or saturates.\<close>

theorem accepted_fees_accounting:
  assumes "fresh_block u (transactions block)"
    and "calculate_accepted_fees ext block u = Inr fees"
  shows "total_value (spends_effect u (transactions block)) + unat fees
    = total_value u + gas_fees (transactions block)"
proof -
  from assms(2) obtain f where f: "accepted_fees_loop ext 0 u (transactions block) = Inr f"
    and fees: "fees = ucast f"
    by (auto simp: calculate_accepted_fees_def)
  from accepted_fees_loop_accounting [OF f assms(1)] show ?thesis
    by (simp add: fees ucast_u64_u128)
qed

text \<open>the reward of a blue block is its capped subsidy plus its fees, as natural numbers, and
  that of a red block is zero.\<close>

theorem block_total_reward_exact:
  assumes "block_total_reward ext block height is_blue u = Inr r"
  shows "if is_blue
    then \<exists>fees. calculate_accepted_fees ext block u = Inr fees
      \<and> unat r = unat (capped_reward height) + unat fees
    else r = 0"
  using assms
  by (auto simp: block_total_reward_def checked_add_Some_iff ucast_u64_u128(1) unat_ucast_up
      split: if_splits)

text \<open>the \<open>debug_assert\<close> on the full-node share in \<open>create_coinbase_tx\<close> holds exactly for the
  totals divisible by five: the share is computed as the rest after the miner's rounded-down
  part, while \<open>validate_fullnode_share\<close> rounds the 20 percent down itself.\<close>

theorem fullnode_share_assert_iff:
  assumes "unat t < 2 ^ 64" and "n \<noteq> 0"
  shows "validate_fullnode_share t (snd (coinbase_shares n t)) \<longleftrightarrow> unat t mod 5 = 0"
proof -
  have "unat (t * FULLNODE_REWARD_PERCENT div 100) = unat t * 20 div 100"
    using assms(1) by (simp add: unat_div_100 FULLNODE_REWARD_PERCENT_def unat_mult_small)
  moreover have "unat (snd (coinbase_shares n t)) = unat t - unat t * 80 div 100"
    using assms miner_share_value [OF assms(1)]
    by (simp add: coinbase_shares_def Let_def unat_saturating_sub)
  moreover have "unat t - unat t * 80 div 100 = unat t * 20 div 100 \<longleftrightarrow> unat t mod 5 = 0"
  proof -
    have "unat t * 80 div 100 = unat t * 4 div 5" "unat t * 20 div 100 = unat t div 5"
      using div_mult_mult1 [of 20 "unat t * 4" 5] div_mult_mult1 [of 20 "unat t" 5]
      by (simp_all add: mult.commute mult.left_commute)
    then show ?thesis by (simp only: fifth_rounding)
  qed
  ultimately show ?thesis
    by (simp add: validate_fullnode_share_def Let_def word_unat_eq_iff)
qed

theorem created_coinbase_validates_witness:
  "outputs_value (the (create_coinbase_tx demo_ext hash_a (Some hash_b) 3 101)) = 101"
proof -
  have "create_coinbase_tx demo_ext hash_a (Some hash_b) 3 101 \<noteq> None"
    by (simp add: create_coinbase_tx_def coinbase_outputs_def Let_def hash_a_def hash_b_def
        BURN_ADDRESS_def split: prod.splits)
  then obtain tx where tx: "create_coinbase_tx demo_ext hash_a (Some hash_b) 3 101 = Some tx"
    by auto
  then have "is_coinbase tx"
    by (auto simp: create_coinbase_tx_def transaction_new_def Let_def is_coinbase_def
        split: prod.splits if_splits)
  then have "find is_coinbase (transactions ((bare_block hash_a {||})\<lparr>transactions := [tx]\<rparr>)) = Some tx"
    by simp
  from created_coinbase_validates [OF tx _ this] tx show ?thesis by simp
qed

theorem accepted_fees_accounting_witness:
  "fresh_block demo_utxo (transactions demo_block)
   \<and> calculate_accepted_fees demo_ext demo_block demo_utxo = Inr 52
   \<and> total_value (spends_effect demo_utxo (transactions demo_block)) + 52
     = total_value demo_utxo + gas_fees (transactions demo_block)"
  using demo_block_fresh demo_fees accepted_fees_accounting [OF demo_block_fresh demo_fees]
  by simp

theorem block_total_reward_exact_witness:
  "block_total_reward demo_ext demo_block 0 True demo_utxo = Inr 10000000052
   \<and> (\<exists>fees. calculate_accepted_fees demo_ext demo_block demo_utxo = Inr fees
     \<and> unat (10000000052 :: u64) = unat (capped_reward 0) + unat fees)"
proof -
  have "capped_reward 0 = 10000000000"
    by (simp add: capped_reward_def total_emitted_def raw_block_reward_def emission_consts)
  then have r: "block_total_reward demo_ext demo_block 0 True demo_utxo = Inr 10000000052"
    by (simp add: block_total_reward_def demo_fees checked_add_def)
  from block_total_reward_exact [OF r] r show ?thesis by simp
qed

theorem fullnode_share_assert_iff_witness:
  "\<not> validate_fullnode_share 101 (snd (coinbase_shares 3 101))"
  using fullnode_share_assert_iff [of 101 3] by simp

end
