(* ===== verification/Pow.thy ===== *)
theory Pow
  imports Dag
begin

text \<open>
  Proof of work and difficulty: \<open>core/pow/hash.rs\<close>, \<open>core/pow/miner.rs\<close> and
  \<open>core/daa/difficulty.rs\<close>. The \<open>f64\<close> expression that scales a difficulty by the observed block
  interval is an argument of the two difficulty rules; everything around it (the windows, the
  integer intervals, the step limits and the clamps) is modelled.
\<close>

section \<open>Hashing and targets\<close>

definition calculate_hash ::
    "externals \<Rightarrow> u64 \<Rightarrow> u64 \<Rightarrow> hash list \<Rightarrow> u64 \<Rightarrow> u64 \<Rightarrow> hash \<Rightarrow> hash" where
  "calculate_hash ext time diff parent_hashes merit nonce' tx_merkle_root =
     hash_new ext
       (to_le_bytes 8 time @ to_le_bytes 8 diff
        @ concat (map as_bytes (sort parent_hashes))
        @ to_le_bytes 8 merit @ to_le_bytes 8 nonce' @ as_bytes tx_merkle_root)"

definition calculate_hash_raw :: "externals \<Rightarrow> bytes \<Rightarrow> hash" where
  "calculate_hash_raw ext bs = hash_new ext bs"

definition is_valid_pow :: "hash \<Rightarrow> u64 \<Rightarrow> bool" where
  "is_valid_pow h target \<longleftrightarrow>
     (if length (as_bytes h) < 8 then False
      else from_le_bytes (take 8 (as_bytes h)) < target)"

record block_mining_params =
  mp_header :: bytes
  mp_target :: u64
  miner_address :: bytes
  node_reward_address :: bytes
  mp_timestamp :: u64
  mp_difficulty :: u64
  mp_parent_hashes :: "hash list"
  mp_verkle_root :: bytes

text \<open>The hash tried for one nonce.\<close>

definition mining_hash :: "externals \<Rightarrow> block_mining_params \<Rightarrow> u64 \<Rightarrow> hash" where
  "mining_hash ext params n =
     (let tx_merkle_root = hash_new ext (mp_header params);
          h = calculate_hash ext (mp_timestamp params) (mp_difficulty params)
                (mp_parent_hashes params) 0 n tx_merkle_root
      in hash_new ext (as_bytes h @ mp_verkle_root params @ miner_address params
           @ node_reward_address params))"

text \<open>The loop over \<open>0..=u64::MAX\<close>.\<close>

function mine_loop :: "externals \<Rightarrow> block_mining_params \<Rightarrow> u64 \<Rightarrow> u64 option" where
  "mine_loop ext params n =
     (if is_valid_pow (mining_hash ext params n) (mp_target params) then Some n
      else if n = - 1 then None
      else mine_loop ext params (n + 1))"
  by pat_completeness auto

lemma unat_Suc_word: "n \<noteq> - 1 \<Longrightarrow> unat (n + 1 :: u64) = Suc (unat n)"
  by (metis Suc_eq_plus1 add.commute unatSuc add.right_neutral add_diff_cancel_right' diff_0)

termination mine_loop
proof (relation "measure (\<lambda>(ext, params, n). 2 ^ 64 - unat n)", goal_cases)
  case 1
  then show ?case by simp
next
  case (2 ext params n)
  then show ?case
    using unat_Suc_word [OF 2(2)] unat_bounds(3) [of n] by simp
qed

declare mine_loop.simps [simp del]

definition mine_block :: "externals \<Rightarrow> block_mining_params \<Rightarrow> u64 option" where
  "mine_block ext params =
     (if miner_address params = [] \<or> node_reward_address params = [] then None
      else mine_loop ext params 0)"

section \<open>The \<open>Pow\<close> type\<close>

definition TARGET_BLOCK_TIME :: u64 where
  "TARGET_BLOCK_TIME = 1"

record pow =
  pow_difficulty :: u64

definition pow_new :: "u64 \<Rightarrow> pow" where
  "pow_new d = \<lparr>pow_difficulty = max d 1\<rparr>"

definition pow_target :: "pow \<Rightarrow> u64" where
  "pow_target self = (- 1) div max (pow_difficulty self) 1"

definition validate_pow :: "pow \<Rightarrow> hash \<Rightarrow> bool" where
  "validate_pow self h = is_valid_pow h (pow_target self)"

definition verify_pow :: "hash \<Rightarrow> u64 \<Rightarrow> bool" where
  "verify_pow h target = is_valid_pow h target"

definition clamp :: "'a::linorder \<Rightarrow> 'a \<Rightarrow> 'a \<Rightarrow> 'a" where
  "clamp x lo hi = (if x < lo then lo else if hi < x then hi else x)"

definition intervals :: "u64 list \<Rightarrow> u64 list" where
  "intervals ts = map (\<lambda>(a, b). max (saturating_sub b a) 1) (zip ts (tl ts))"

text \<open>The scaled difficulty \<open>n\<close>, kept within half of \<open>d\<close> on either side.\<close>

definition step_limited :: "u64 \<Rightarrow> u64 \<Rightarrow> u64" where
  "step_limited d n =
     (let max_step = max (d div 2) 1 in
      if saturating_add d max_step < n then saturating_add d max_step
      else if n + max_step < d then saturating_sub d max_step
      else n)"

text \<open>\<open>scale d s n\<close> stands for \<open>(d as f64 * (TARGET_BLOCK_TIME as f64 / (s as f64 / n as
  f64))).round() as u64\<close>; \<open>s\<close> is the \<open>u64\<close> sum of the intervals.\<close>

definition pow_next_difficulty :: "(u64 \<Rightarrow> u64 \<Rightarrow> nat \<Rightarrow> u64) \<Rightarrow> pow \<Rightarrow> u64 list \<Rightarrow> u64" where
  "pow_next_difficulty scale self block_timestamps =
     (let d = pow_difficulty self in
      if length block_timestamps < 2 then clamp d 1 ((- 1) div 2)
      else
        let diffs = intervals block_timestamps;
            next0 = scale d (sum_list diffs) (length diffs)
        in clamp (step_limited d next0) 1 ((- 1) div 2))"

section \<open>Difficulty over the graph\<close>

record daa =
  target_time :: u64
  window_size :: nat

definition daa_new :: "u64 \<Rightarrow> nat \<Rightarrow> daa" where
  "daa_new t w = \<lparr>target_time = t, window_size = w\<rparr>"

text \<open>The stored blocks with their timestamp and difficulty, oldest first (a stable sort).\<close>

definition blocks_by_time :: "dag \<Rightarrow> (hash \<times> u64 \<times> u64) list" where
  "blocks_by_time g =
     sort_key (\<lambda>(_, ts, _). ts)
       (List.map_filter
          (\<lambda>h. map_option (\<lambda>b. (h, timestamp (header b), difficulty (header b))) (get_block g h))
          (get_all_hashes g))"

definition last_difficulty :: "(hash \<times> u64 \<times> u64) list \<Rightarrow> u64" where
  "last_difficulty bs = (if bs = [] then 1000 else snd (snd (last bs)))"

definition total_interval :: "(hash \<times> u64 \<times> u64) list \<Rightarrow> u128" where
  "total_interval window =
     sum_list (map ucast (intervals (map (\<lambda>(_, ts, _). ts) window)))"

text \<open>\<open>scale t s n d\<close> stands for \<open>(d as f64 * (t as f64 / (s as f64 / n as f64)).clamp(0.5,
  2.0)).round() as u64\<close>.\<close>

definition daa_next_difficulty ::
    "(u64 \<Rightarrow> u128 \<Rightarrow> nat \<Rightarrow> u64 \<Rightarrow> u64) \<Rightarrow> daa \<Rightarrow> dag \<Rightarrow> u64 \<Rightarrow> u64" where
  "daa_next_difficulty scale self g current_timestamp =
     (if get_all_hashes g = [] then 1000
      else let bs = blocks_by_time g in
        if length bs < 2 then last_difficulty bs
        else let window = drop (length bs - window_size self) bs in
          if length window < 2 then last_difficulty window
          else clamp (scale (target_time self) (total_interval window) (length window - 1)
                        (last_difficulty window)) 1 ((- 1) div 2))"

definition demo_zero_ext :: externals where
  "demo_zero_ext = \<lparr>blake3 = (\<lambda>_. replicate 32 0), vk_from_bytes = (\<lambda>_. None),
     sig_try_from = (\<lambda>_. None), vk_verify = (\<lambda>_ _ _. False)\<rparr>"

definition demo_params :: block_mining_params where
  "demo_params = \<lparr>mp_header = [], mp_target = 1, miner_address = [1], node_reward_address = [2],
     mp_timestamp = 0, mp_difficulty = 0, mp_parent_hashes = [], mp_verkle_root = replicate 32 0\<rparr>"

section \<open>Lemmas\<close>

lemma mine_loop_Some:
  "mine_loop ext params n = Some k \<Longrightarrow>
     is_valid_pow (mining_hash ext params k) (mp_target params) \<and> n \<le> k
     \<and> (\<forall>m. n \<le> m \<and> m < k \<longrightarrow> \<not> is_valid_pow (mining_hash ext params m) (mp_target params))"
proof (induction ext params n rule: mine_loop.induct)
  case (1 ext params n)
  let ?ok = "\<lambda>m. is_valid_pow (mining_hash ext params m) (mp_target params)"
  show ?case
  proof (cases "?ok n")
    case True
    with 1(2) have "k = n" by (simp add: mine_loop.simps)
    with True show ?thesis by auto
  next
    case False
    with 1(2) have n: "n \<noteq> - 1" and rest: "mine_loop ext params (n + 1) = Some k"
      by (auto simp: mine_loop.simps [of _ _ n] split: if_splits)
    from 1(1) [OF False n rest] have IH: "?ok k" "n + 1 \<le> k"
        "\<forall>m. n + 1 \<le> m \<and> m < k \<longrightarrow> \<not> ?ok m" by auto
    have step: "n \<le> m \<Longrightarrow> m \<noteq> n \<Longrightarrow> n + 1 \<le> m" for m
      using unat_Suc_word [OF n] by (auto simp: word_le_nat_alt word_unat_eq_iff)
    moreover have "n \<le> k"
      using IH(2) unat_Suc_word [OF n] by (simp add: word_le_nat_alt)
    ultimately show ?thesis using IH False by metis
  qed
qed

lemma mine_loop_None:
  "mine_loop ext params n = None \<Longrightarrow> n \<le> m \<Longrightarrow>
     \<not> is_valid_pow (mining_hash ext params m) (mp_target params)"
proof (induction ext params n rule: mine_loop.induct)
  case (1 ext params n)
  let ?ok = "\<lambda>m. is_valid_pow (mining_hash ext params m) (mp_target params)"
  from 1(2) have bad: "\<not> ?ok n" by (auto simp: mine_loop.simps split: if_splits)
  show ?case
  proof (cases "m = n")
    case True
    with bad show ?thesis by simp
  next
    case False
    then have n: "n \<noteq> - 1" using 1(3) by (auto dest: order_antisym [OF _ word_order.extremum])
    moreover have "mine_loop ext params (n + 1) = None"
      using 1(2) bad n by (simp add: mine_loop.simps [of _ _ n])
    moreover have "n + 1 \<le> m"
      using 1(3) False unat_Suc_word [OF n] by (auto simp: word_le_nat_alt word_unat_eq_iff)
    ultimately show ?thesis
      using 1(1) bad by blast
  qed
qed

lemma le_value_zeros: "le_value (replicate n 0) = 0"
  by (induction n) simp_all

lemma unat_half_max: "unat ((- 1 :: u64) div 2) = 2 ^ 63 - 1"
  by (simp add: unat_div unat_max_word)

lemma clamp_bounds: "lo \<le> hi \<Longrightarrow> lo \<le> clamp x lo hi \<and> clamp x lo hi \<le> hi"
  by (auto simp: clamp_def)

lemma unat_clamp:
  fixes x lo hi :: "'a::len word"
  shows "unat (clamp x lo hi) = clamp (unat x) (unat lo) (unat hi)"
  by (auto simp: clamp_def word_less_nat_alt)

text \<open>The step limit around the scaled difficulty \<open>n\<close>.\<close>

lemma step_limited_range:
  assumes "1 \<le> unat d" and "unat d \<le> 2 ^ 63 - 1"
  shows "unat d - max (unat d div 2) 1 \<le> unat (step_limited d n)
    \<and> unat (step_limited d n) \<le> unat d + max (unat d div 2) 1"
proof -
  let ?s = "max (d div 2) 1"
  have s: "unat ?s = max (unat d div 2) 1"
    by (simp add: max_def word_le_nat_alt unat_div)
  have up: "unat (saturating_add d ?s) = unat d + max (unat d div 2) 1"
    using assms by (simp add: unat_saturating_add s)
  have "unat (n + ?s) = unat n + max (unat d div 2) 1" if "\<not> saturating_add d ?s < n"
    using that assms up by (intro trans [OF unat_add_small]) (auto simp: s word_less_nat_alt)
  then show ?thesis
    using up unfolding step_limited_def Let_def word_less_nat_alt
    by (simp add: unat_saturating_sub s) linarith
qed

lemma mem_blocks_by_time:
  "x \<in> set (blocks_by_time g) \<Longrightarrow>
   \<exists>h b. get_block g h = Some b \<and> snd (snd x) = difficulty (header b)"
  by (fastforce simp: blocks_by_time_def List.map_filter_def)

lemma length_blocks_by_time: "length (blocks_by_time g) = get_block_count g"
proof -
  have "filter (\<lambda>h. map_option (\<lambda>b. (h, timestamp (header b), difficulty (header b)))
      (get_block g h) \<noteq> None) (get_all_hashes g) = get_all_hashes g"
    by (rule filter_True) (auto simp: get_block_def set_get_all_hashes fmlookup_dom'_iff)
  then show ?thesis
    by (simp add: blocks_by_time_def List.map_filter_def get_all_hashes_def get_block_count_def)
qed

lemma last_difficulty_stored:
  assumes "set bs \<subseteq> set (blocks_by_time g)"
  shows "(\<exists>h b. get_block g h = Some b \<and> last_difficulty bs = difficulty (header b))
    \<or> last_difficulty bs = 1000"
proof (cases "bs = []")
  case True
  then show ?thesis by (simp add: last_difficulty_def)
next
  case False
  then have "last bs \<in> set (blocks_by_time g)" using assms last_in_set by blast
  with False mem_blocks_by_time [of "last bs" g] show ?thesis by (simp add: last_difficulty_def)
qed

lemma pow_target_antimono:
  assumes "d \<le> d'"
  shows "pow_target (pow_new d') \<le> pow_target (pow_new d)"
proof -
  have "0 < unat (max (max d 1) 1)"
    by (auto simp: unat_gt_0 max_def)
  moreover have "unat (max (max d 1) 1) \<le> unat (max (max d' 1) 1)"
    using assms by (auto simp: word_le_nat_alt [symmetric] max_def)
  ultimately show ?thesis
    by (simp add: pow_target_def pow_new_def word_le_nat_alt unat_div div_le_mono2)
qed

section \<open>Properties\<close>

text \<open>\<open>mine_block\<close> searches exhaustively: it returns the least nonce whose hash meets the target,
  and returns none only for an empty reward address or when no \<open>u64\<close> nonce meets the target.\<close>

theorem mine_block_least_nonce:
  "case mine_block ext params of
     Some n \<Rightarrow> is_valid_pow (mining_hash ext params n) (mp_target params)
       \<and> (\<forall>m<n. \<not> is_valid_pow (mining_hash ext params m) (mp_target params))
   | None \<Rightarrow> miner_address params = [] \<or> node_reward_address params = []
       \<or> (\<forall>m. \<not> is_valid_pow (mining_hash ext params m) (mp_target params))"
  using mine_loop_Some [of ext params 0] mine_loop_None [of ext params 0]
  by (auto simp: mine_block_def split: option.splits)

text \<open>the two readings of difficulty: with \<open>Pow\<close>, whose target is \<open>u64::MAX / difficulty\<close>, a hash
  valid at a higher difficulty is valid at every lower one; with the difficulty passed as the
  target itself, as block validation does, validity goes the other way.\<close>

theorem pow_difficulty_readings:
  assumes "d \<le> d'"
  shows "(validate_pow (pow_new d') h \<longrightarrow> validate_pow (pow_new d) h)
    \<and> (is_valid_pow h d \<longrightarrow> is_valid_pow h d')"
  using assms pow_target_antimono [OF assms]
  by (auto simp: validate_pow_def is_valid_pow_def)

text \<open>whatever the floating-point scaling returns, the next difficulty of \<open>Pow\<close> is in
  \<open>[1, u64::MAX / 2]\<close> and, from a difficulty in that range, moves by at most half of it (at
  least one); the \<open>next + max_step\<close> of the code does not wrap there.\<close>

theorem pow_next_difficulty_bounded:
  fixes self ts
  assumes "1 \<le> pow_difficulty self" and "pow_difficulty self \<le> (- 1) div 2"
  shows "let nxt = unat (pow_next_difficulty scale self ts); d = unat (pow_difficulty self)
    in 1 \<le> nxt \<and> nxt \<le> 2 ^ 63 - 1 \<and> nxt \<le> d + max (d div 2) 1 \<and> d \<le> nxt + max (d div 2) 1"
proof -
  let ?d = "pow_difficulty self"
  have d: "1 \<le> unat ?d" "unat ?d \<le> 2 ^ 63 - 1"
    using assms unat_half_max by (simp_all add: word_le_nat_alt)
  show ?thesis
  proof (cases "length ts < 2")
    case True
    then have "unat (pow_next_difficulty scale self ts) = unat ?d"
      using d by (simp add: pow_next_difficulty_def unat_clamp unat_half_max) (simp add: clamp_def)
    with d show ?thesis by (simp add: Let_def)
  next
    case False
    then obtain n where "pow_next_difficulty scale self ts = clamp (step_limited ?d n) 1 ((- 1) div 2)"
      by (auto simp: pow_next_difficulty_def Let_def)
    then have "unat (pow_next_difficulty scale self ts)
        = clamp (unat (step_limited ?d n)) 1 (2 ^ 63 - 1)"
      by (simp add: unat_clamp unat_half_max)
    with step_limited_range [OF d, of n] d show ?thesis
      by (auto simp: Let_def clamp_def)
  qed
qed

text \<open>the graph-wide rule stays in \<open>[1, u64::MAX / 2]\<close> whenever it averages at least two blocks,
  and with fewer it returns the initial difficulty 1000 or the difficulty of a stored block.\<close>

theorem daa_next_difficulty_cases:
  "(\<exists>h b. get_block g h = Some b \<and> daa_next_difficulty scale self g now = difficulty (header b))
   \<or> daa_next_difficulty scale self g now = 1000
   \<or> (1 \<le> daa_next_difficulty scale self g now
      \<and> unat (daa_next_difficulty scale self g now) \<le> 2 ^ 63 - 1
      \<and> 2 \<le> get_block_count g)"
proof -
  let ?bs = "blocks_by_time g" and ?r = "daa_next_difficulty scale self g now"
  let ?w = "drop (length ?bs - window_size self) ?bs"
  have "set ?w \<subseteq> set ?bs" by (rule set_drop_subset)
  then have stored: "(\<exists>h b. get_block g h = Some b \<and> last_difficulty bs = difficulty (header b))
      \<or> last_difficulty bs = 1000" if "bs = ?bs \<or> bs = ?w" for bs
    using that last_difficulty_stored [of bs g] by auto
  have "get_all_hashes g = [] \<or> ?r = last_difficulty ?bs \<or> ?r = last_difficulty ?w
      \<or> (\<exists>x. ?r = clamp x 1 ((- 1) div 2) \<and> 2 \<le> length ?bs)"
    by (simp only: daa_next_difficulty_def Let_def not_less split: if_split) blast
  then consider "get_all_hashes g = []" | "?r = last_difficulty ?bs" | "?r = last_difficulty ?w"
    | x where "?r = clamp x 1 ((- 1) div 2)" and "2 \<le> length ?bs"
    by blast
  then show ?thesis
  proof cases
    case 1
    then show ?thesis by (simp add: daa_next_difficulty_def)
  next
    case 2
    with stored [of ?bs] show ?thesis by auto
  next
    case 3
    with stored [of ?w] show ?thesis by auto
  next
    case (4 x)
    have "(1 :: u64) \<le> (- 1) div 2"
      by (simp add: word_le_nat_alt unat_half_max)
    from clamp_bounds [OF this, of x] 4 show ?thesis
      using unat_half_max by (simp add: word_le_nat_alt length_blocks_by_time)
  qed
qed

theorem mine_block_least_nonce_witness:
  "mine_block demo_zero_ext demo_params = Some 0
   \<and> is_valid_pow (mining_hash demo_zero_ext demo_params 0) (mp_target demo_params)"
proof -
  have "mine_block demo_zero_ext demo_params = Some 0"
    by (simp add: mine_block_def demo_params_def demo_zero_ext_def mine_loop.simps mining_hash_def
        hash_new_def is_valid_pow_def from_le_bytes_def le_value_zeros)
  with mine_block_least_nonce [of demo_params demo_zero_ext] show ?thesis by simp
qed

theorem pow_difficulty_readings_witness:
  "(1 :: u64) \<le> 2 \<and> validate_pow (pow_new 2) (Hash (replicate 32 0))
   \<and> validate_pow (pow_new 1) (Hash (replicate 32 0))"
proof -
  have "unat ((- 1 :: u64) div 2) = 2 ^ 63 - 1" by (rule unat_half_max)
  then have "validate_pow (pow_new 2) (Hash (replicate 32 0))"
    by (simp add: validate_pow_def is_valid_pow_def pow_target_def pow_new_def
        word_less_nat_alt from_le_bytes_def le_value_zeros)
  with pow_difficulty_readings [of 1 2 "Hash (replicate 32 0)"] show ?thesis by simp
qed

theorem pow_next_difficulty_bounded_witness:
  "(1 :: u64) \<le> 1000 \<and> (1000 :: u64) \<le> (- 1) div 2
   \<and> 500 \<le> unat (pow_next_difficulty (\<lambda>d s n. 0) \<lparr>pow_difficulty = 1000\<rparr> [0, 9])"
proof -
  have h: "(1 :: u64) \<le> 1000" "(1000 :: u64) \<le> (- 1) div 2"
    by (simp_all add: word_le_nat_alt unat_half_max)
  then show ?thesis
    using pow_next_difficulty_bounded [of "\<lparr>pow_difficulty = 1000\<rparr>" "\<lambda>d s n. 0" "[0, 9]"]
    by (simp add: Let_def)
qed

end
