(* ===== verification/Ghostdag.thy ===== *)
theory Ghostdag
  imports Dag "HOL-Library.Product_Lexorder"
begin

text \<open>
  GHOSTDAG: \<open>core/consensus/ghostdag.rs\<close> (colouring, virtual block, ordering, finality and
  reorganization) and \<open>core/consensus/ordering.rs\<close>. The network load is an \<open>f64\<close>; its two
  threshold comparisons are arguments of \<open>adjust_k\<close>. Loops that follow selected parents or a
  work queue need not end on an arbitrary graph: they are partial functions whose \<open>None\<close> is
  not returning, and the properties prove that they return on well-formed graphs.
\<close>

section \<open>Parameters\<close>

definition FINALITY_DEPTH :: u64 where
  "FINALITY_DEPTH = 100"

definition K_MIN :: nat where
  "K_MIN = 1"

definition K_MAX :: nat where
  "K_MAX = 64"

definition ADJUSTMENT_INTERVAL :: u64 where
  "ADJUSTMENT_INTERVAL = 3600"

record virtual_block =
  v_parents :: "hash fset"
  v_selected_parent :: "hash option"
  v_blue_set :: "hash fset"
  v_red_set :: "hash fset"
  v_blue_score :: u64

record ghostdag =
  param_k :: nat
  last_adjustment_time :: u64

definition ghostdag_new :: "nat \<Rightarrow> ghostdag" where
  "ghostdag_new k = \<lparr>param_k = max K_MIN (min k K_MAX), last_adjustment_time = 0\<rparr>"

text \<open>\<open>high\<close> and \<open>low\<close> are \<open>network_load > 0.8\<close> and \<open>network_load < 0.2\<close>.\<close>

definition adjust_k :: "bool \<Rightarrow> bool \<Rightarrow> u64 \<Rightarrow> ghostdag \<Rightarrow> ghostdag" where
  "adjust_k high low current_time self =
     (if current_time - last_adjustment_time self < ADJUSTMENT_INTERVAL then self
      else
        let new_k = (if high then min (param_k self + 1) K_MAX
                     else if low then max (param_k self - 1) K_MIN
                     else param_k self)
        in if new_k \<noteq> param_k self
           then self\<lparr>param_k := new_k, last_adjustment_time := current_time\<rparr>
           else self)"

section \<open>Selected parents and colouring\<close>

definition with_scores :: "dag \<Rightarrow> hash list \<Rightarrow> (hash \<times> u64) list" where
  "with_scores g hs =
     List.map_filter (\<lambda>h. map_option (\<lambda>b. (h, blue_score b)) (get_block g h)) hs"

text \<open>Blue score descending, then hash ascending: \<open>NOT s\<close> reverses the order of \<open>s\<close>.\<close>

definition score_desc :: "hash \<times> u64 \<Rightarrow> u64 \<times> hash" where
  "score_desc p = (not (snd p), fst p)"

definition select_parent :: "dag \<Rightarrow> hash list \<Rightarrow> hash option" where
  "select_parent g ps =
     (if ps = [] then None
      else case sort_key score_desc (with_scores g ps) of
        [] \<Rightarrow> None
      | (h, _) # _ \<Rightarrow> Some h)"

definition calculate_blue_score :: "dag \<Rightarrow> hash \<Rightarrow> u64" where
  "calculate_blue_score g h =
     (case get_block g h of
        None \<Rightarrow> 0
      | Some block \<Rightarrow>
          (if parents (header block) = {||} then 0
           else case selected_parent block of
             None \<Rightarrow> 0
           | Some sp \<Rightarrow>
               (case get_block g sp of None \<Rightarrow> 0 | Some b \<Rightarrow> blue_score b)
               + of_nat (fcard (blue_set block))))"

text \<open>One candidate of the anticone: blue when at most \<open>k\<close> blue blocks are in its own anticone.\<close>

definition colour_candidate ::
    "ghostdag \<Rightarrow> dag \<Rightarrow> hash \<Rightarrow> hash fset \<times> hash fset \<Rightarrow> hash fset \<times> hash fset" where
  "colour_candidate self g candidate sets =
     (case sets of (blue, red) \<Rightarrow>
        (if fcard (fset_of_list (get_anticone g candidate) |\<inter>| blue) \<le> param_k self
         then (finsert candidate blue, red)
         else (blue, finsert candidate red)))"

definition build_blue_set :: "ghostdag \<Rightarrow> dag \<Rightarrow> hash \<Rightarrow> hash fset \<times> hash fset" where
  "build_blue_set self g sp =
     (let blue0 = (case get_block g sp of
            None \<Rightarrow> {||} | Some b \<Rightarrow> finsert sp (blue_set b))
      in fold (colour_candidate self g) (get_anticone g sp) (blue0, {||}))"

definition recompute_block :: "ghostdag \<Rightarrow> dag \<Rightarrow> hash \<Rightarrow> dag \<times> bool" where
  "recompute_block self g h =
     (case get_block g h of
        None \<Rightarrow> (g, False)
      | Some block \<Rightarrow>
          (if parents (header block) = {||} then (g, False)
           else if \<not> parents (header block) |\<subseteq>| fmdom (blocks g) then (g, False)
           else case select_parent g (sorted_list_of_fset (parents (header block))) of
             None \<Rightarrow> (g, False)
           | Some sp \<Rightarrow>
               (case build_blue_set self g sp of
                  (blue, red) \<Rightarrow>
                    let score = score_of g sp + of_nat (fcard blue) in
                    if selected_parent block = Some sp \<and> blue_set block = blue
                       \<and> red_set block = red \<and> blue_score block = score
                    then (g, False)
                    else (get_block_mut h (\<lambda>b. b\<lparr>selected_parent := Some sp, blue_set := blue,
                            red_set := red, blue_score := score\<rparr>) g, True))))"

definition build_virtual_block :: "ghostdag \<Rightarrow> dag \<Rightarrow> virtual_block" where
  "build_virtual_block self g =
     (let empty_over = (\<lambda>ps. \<lparr>v_parents = ps, v_selected_parent = None, v_blue_set = {||},
              v_red_set = {||}, v_blue_score = 0\<rparr>);
          from_tips =
            (case select_parent g (get_tips g) of
               Some sp \<Rightarrow>
                 (case build_blue_set self g sp of
                    (blue, red) \<Rightarrow> \<lparr>v_parents = tips g, v_selected_parent = Some sp,
                      v_blue_set = blue, v_red_set = red,
                      v_blue_score = score_of g sp + of_nat (fcard blue)\<rparr>)
             | None \<Rightarrow> empty_over (tips g))
      in case get_all_hashes g of
           [] \<Rightarrow> empty_over {||}
         | [h] \<Rightarrow>
             (case get_block g h of
                Some b \<Rightarrow> \<lparr>v_parents = tips g, v_selected_parent = selected_parent b,
                  v_blue_set = blue_set b, v_red_set = red_set b, v_blue_score = blue_score b\<rparr>
              | None \<Rightarrow> from_tips)
         | _ \<Rightarrow> from_tips)"

section \<open>Chains and orderings\<close>

definition next_on_chain :: "dag \<Rightarrow> hash \<Rightarrow> hash option" where
  "next_on_chain g h = (case get_block g h of None \<Rightarrow> None | Some b \<Rightarrow> selected_parent b)"

text \<open>Following selected parents from \<open>current\<close> until they end or \<open>stop\<close> holds.\<close>

partial_function (option) walk_chain ::
    "dag \<Rightarrow> (hash \<Rightarrow> bool) \<Rightarrow> hash option \<Rightarrow> hash list \<Rightarrow> hash list option" where
  "walk_chain g stop current acc =
     (case current of
        None \<Rightarrow> Some acc
      | Some h \<Rightarrow>
          (if stop h then Some acc
           else walk_chain g stop (next_on_chain g h) (acc @ [h])))"

definition get_virtual_selected_chain :: "ghostdag \<Rightarrow> dag \<Rightarrow> hash list option" where
  "get_virtual_selected_chain self g =
     map_option rev (walk_chain g (\<lambda>_. False) (v_selected_parent (build_virtual_block self g)) [])"

definition get_virtual_ordering :: "dag \<Rightarrow> hash list" where
  "get_virtual_ordering g = sort_key (\<lambda>h. (score_of g h, h)) (get_all_hashes g)"

definition get_ordering :: "dag \<Rightarrow> hash list" where
  "get_ordering g = sort_key (\<lambda>h. (score_of g h, h)) (get_all_hashes g)"

definition indegree_in :: "dag \<Rightarrow> hash fset \<Rightarrow> hash \<Rightarrow> nat" where
  "indegree_in g node_set h =
     (case get_block g h of
        None \<Rightarrow> 0
      | Some b \<Rightarrow> fcard (ffilter (\<lambda>p. p |\<in>| node_set) (parents (header b))))"

text \<open>One child: decrement, push at zero. The queue is a stack whose top is the list's end.\<close>

definition relax_child ::
    "hash \<Rightarrow> (hash, nat) fmap \<times> hash list \<Rightarrow> (hash, nat) fmap \<times> hash list" where
  "relax_child child s =
     (case s of (indegree, queue) \<Rightarrow>
        (case fmlookup indegree child of
           None \<Rightarrow> (indegree, queue)
         | Some deg \<Rightarrow>
             (fmupd child (deg - 1) indegree,
              if deg - 1 = 0 then queue @ [child] else queue)))"

definition children_in :: "dag \<Rightarrow> hash fset \<Rightarrow> hash \<Rightarrow> hash list" where
  "children_in g node_set h = filter (\<lambda>c. c |\<in>| node_set) (sorted_children g h)"

partial_function (option) topo_loop ::
    "dag \<Rightarrow> hash fset \<Rightarrow> (hash, nat) fmap \<Rightarrow> hash list \<Rightarrow> hash list \<Rightarrow> hash list option" where
  "topo_loop g node_set indegree queue sorted' =
     (if queue = [] then Some sorted'
      else case fold relax_child (children_in g node_set (last queue)) (indegree, butlast queue) of
        (indegree', queue') \<Rightarrow>
          topo_loop g node_set indegree' queue' (sorted' @ [last queue]))"

definition topological_sort :: "dag \<Rightarrow> hash list \<Rightarrow> hash list option" where
  "topological_sort g nodes =
     (let node_set = fset_of_list nodes;
          indegree = fmap_of_list (map (\<lambda>h. (h, indegree_in g node_set h)) nodes);
          queue = sorted_list_of_fset
            (ffilter (\<lambda>h. fmlookup indegree h = Some 0) (fmdom indegree))
      in topo_loop g node_set indegree queue [])"

definition recompute_all :: "ghostdag \<Rightarrow> hash list \<Rightarrow> dag \<Rightarrow> dag" where
  "recompute_all self hs g = fold (\<lambda>h g. fst (recompute_block self g h)) hs g"

definition process_block :: "ghostdag \<Rightarrow> dag \<Rightarrow> hash \<Rightarrow> dag option" where
  "process_block self g h =
     (case get_block g h of
        None \<Rightarrow> Some g
      | Some block \<Rightarrow>
          let g1 = (if parents (header block) = {||}
                    then get_block_mut h (\<lambda>b. b\<lparr>selected_parent := None, blue_set := {||},
                           red_set := {||}, blue_score := 1\<rparr>) g
                    else fst (recompute_block self g h));
              affected = ffUnion ((\<lambda>p. finsert p (fset_of_list (get_descendants g1 p)))
                           |`| parents (header block))
          in map_option (\<lambda>order. recompute_all self order g1)
               (topological_sort g1 (sorted_list_of_fset affected)))"

definition get_blue_set :: "dag \<Rightarrow> hash \<Rightarrow> hash fset" where
  "get_blue_set g h = (case get_block g h of None \<Rightarrow> {||} | Some b \<Rightarrow> blue_set b)"

definition get_red_set :: "dag \<Rightarrow> hash \<Rightarrow> hash fset" where
  "get_red_set g h = (case get_block g h of None \<Rightarrow> {||} | Some b \<Rightarrow> red_set b)"

text \<open>\<open>Iterator::max_by\<close>: the last of the maximal elements.\<close>

fun max_by :: "('a \<Rightarrow> 'a \<Rightarrow> bool) \<Rightarrow> 'a list \<Rightarrow> 'a option" where
  "max_by le [] = None"
| "max_by le (x # xs) = Some (foldl (\<lambda>m y. if le m y then y else m) x xs)"

definition get_virtual_block :: "externals \<Rightarrow> dag \<Rightarrow> hash option" where
  "get_virtual_block ext g =
     (if get_all_hashes g = []
      then Some (hash_new ext (map (\<lambda>c. word_of_nat (of_char c)) ''genesis''))
      else map_option fst
             (max_by (\<lambda>(h1, s1) (h2, s2). s1 < s2 \<or> s1 = s2 \<and> h2 \<le> h1)
                (with_scores g (get_all_hashes g))))"

section \<open>Finality and reorganization\<close>

definition check_finality :: "ghostdag \<Rightarrow> dag \<Rightarrow> hash \<Rightarrow> u64 \<Rightarrow> bool" where
  "check_finality self g h finality_threshold \<longleftrightarrow>
     max finality_threshold FINALITY_DEPTH
       \<le> saturating_sub (v_blue_score (build_virtual_block self g)) (score_of g h)"

text \<open>The walk of \<open>can_reorganize\<close> to a virtual parent, cut off beyond depth 10000.\<close>

function reorg_depth :: "dag \<Rightarrow> hash fset \<Rightarrow> hash option \<Rightarrow> nat \<Rightarrow> core_error + nat" where
  "reorg_depth g stops current depth =
     (case current of
        None \<Rightarrow> Inr depth
      | Some h \<Rightarrow>
          (if h |\<in>| stops then Inr depth
           else if 10000 < depth + 1
           then Inl (ConsensusError ''Chain too deep while finding common ancestor'')
           else reorg_depth g stops (next_on_chain g h) (depth + 1)))"
  by pat_completeness auto
termination
  by (relation "measure (\<lambda>(g, stops, current, depth). 10000 - depth)") auto

declare reorg_depth.simps [simp del]

definition can_reorganize :: "ghostdag \<Rightarrow> dag \<Rightarrow> hash \<Rightarrow> core_error + bool" where
  "can_reorganize self g target =
     (case get_block g target of
        None \<Rightarrow> Inl (ConsensusError ''Block {} not found'')
      | Some _ \<Rightarrow>
          bind_res (reorg_depth g (v_parents (build_virtual_block self g)) (Some target) 0)
            (\<lambda>depth. Inr (depth \<le> unat FINALITY_DEPTH)))"

definition should_reorganize :: "ghostdag \<Rightarrow> dag \<Rightarrow> hash option" where
  "should_reorganize self g =
     (case max_by (\<lambda>(_, s1) (_, s2). s1 \<le> s2) (with_scores g (get_tips g)) of
        None \<Rightarrow> None
      | Some (best_tip, _) \<Rightarrow>
          (if Some best_tip \<noteq> v_selected_parent (build_virtual_block self g)
           then Some best_tip else None))"

text \<open>\<open>None\<close> is a loop that does not end; \<open>iter\<close> the iteration order of
  \<open>find_common_ancestor\<close>.\<close>

definition reorganize_to_tip ::
    "externals \<Rightarrow> (hash fset \<Rightarrow> hash list) \<Rightarrow> ghostdag \<Rightarrow> dag \<Rightarrow> hash
      \<Rightarrow> (core_error + hash list) option" where
  "reorganize_to_tip ext iter self g new_tip =
     (let sp = v_selected_parent (build_virtual_block self g) in
      case find_common_ancestor iter g (case sp of Some h \<Rightarrow> h | None \<Rightarrow> hash_new ext []) new_tip of
        None \<Rightarrow> Some (Inl (ConsensusError ''No common ancestor found for reorganization''))
      | Some ca \<Rightarrow>
          (case (walk_chain g (\<lambda>h. h = ca) sp [], walk_chain g (\<lambda>h. h = ca) (Some new_tip) []) of
             (Some to_disconnect, Some to_connect) \<Rightarrow> Some (Inr (to_disconnect @ rev to_connect))
           | _ \<Rightarrow> None))"

section \<open>Specifications\<close>

text \<open>A list is a topological order of a set of nodes when it lists each node once and every
  parent inside the set comes before its children.\<close>

definition topological :: "dag \<Rightarrow> hash set \<Rightarrow> hash list \<Rightarrow> bool" where
  "topological g N order \<longleftrightarrow> distinct order \<and> set order = N
     \<and> (\<forall>i<length order. \<forall>p. (order ! i, p) \<in> parent_rel g \<and> p \<in> N \<longrightarrow> p \<in> set (take i order))"

text \<open>The parents of \<open>h\<close> inside \<open>N\<close> that are not in \<open>D\<close>.\<close>

definition open_parents :: "dag \<Rightarrow> hash set \<Rightarrow> hash set \<Rightarrow> hash \<Rightarrow> hash set" where
  "open_parents g N D h = {p. (h, p) \<in> parent_rel g \<and> p \<in> N \<and> p \<notin> D}"

definition topo_inv ::
    "dag \<Rightarrow> hash fset \<Rightarrow> (hash, nat) fmap \<Rightarrow> hash list \<Rightarrow> hash list \<Rightarrow> bool" where
  "topo_inv g N indeg queue order \<longleftrightarrow>
     distinct (order @ queue) \<and> set (order @ queue) \<subseteq> fset N
     \<and> (\<forall>h\<in>fset N. fmlookup indeg h = Some (card (open_parents g (fset N) (set order) h)))
     \<and> (\<forall>h\<in>fset N. open_parents g (fset N) (set order) h = {} \<longleftrightarrow> h \<in> set (order @ queue))
     \<and> (\<forall>i<length order. \<forall>p. (order ! i, p) \<in> parent_rel g \<and> p \<in> fset N
          \<longrightarrow> p \<in> set (take i order))"

text \<open>Two graphs with the same links: they differ at most in the colouring of their blocks.\<close>

definition same_graph :: "dag \<Rightarrow> dag \<Rightarrow> bool" where
  "same_graph g g' \<longleftrightarrow> tips g' = tips g
     \<and> (\<forall>h. map_option (\<lambda>b. (header b, children b)) (fmlookup (blocks g') h)
          = map_option (\<lambda>b. (header b, children b)) (fmlookup (blocks g) h))"

text \<open>Every selected parent is one of the block's parents.\<close>

definition sp_ok :: "dag \<Rightarrow> bool" where
  "sp_ok g \<longleftrightarrow> (\<forall>h sp. next_on_chain g h = Some sp \<longrightarrow> (h, sp) \<in> parent_rel g)"

definition steps_down :: "dag \<Rightarrow> hash list \<Rightarrow> bool" where
  "steps_down g hs \<longleftrightarrow> successively (\<lambda>a b. (a, b) \<in> parent_rel g) hs"

text \<open>Two childless blocks on the genesis block.\<close>

definition hash_c :: hash where
  "hash_c = Hash (replicate 32 3)"

definition fork_dag :: dag where
  "fork_dag = fst (add_block demo_dag (bare_block hash_c {|hash_a|}))"

section \<open>Topological sorting\<close>

lemma finite_parents: "finite (parent_rel g `` {h})"
  by (simp add: parent_rel_image)

lemma finite_parent_rel: "finite (parent_rel g)"
proof (rule finite_subset)
  show "parent_rel g \<subseteq> Sigma (fmdom' (blocks g)) (\<lambda>c. set (sorted_parents g c))"
  proof
    fix e
    assume "e \<in> parent_rel g"
    then show "e \<in> Sigma (fmdom' (blocks g)) (\<lambda>c. set (sorted_parents g c))"
      by (cases e) (auto simp: parent_rel_iff fmlookup_dom'_iff sorted_parents_def)
  qed
qed simp

lemma finite_open_parents: "finite (open_parents g N D h)"
  by (rule finite_subset [OF _ finite_parents [of g h]]) (auto simp: open_parents_def)

text \<open>Every set of nodes of an acyclic graph has a member without parents in the set.\<close>

lemma exists_source:
  assumes "dag_links g" and "h \<in> N"
  obtains m where "m \<in> N" and "\<forall>p. (m, p) \<in> parent_rel g \<longrightarrow> p \<notin> N"
proof -
  have "wf ((parent_rel g)\<inverse>)"
    using assms(1) by (intro finite_acyclic_wf_converse finite_parent_rel) (simp add: dag_links_def)
  with assms(2) obtain m where "m \<in> N" and "\<And>p. (p, m) \<in> (parent_rel g)\<inverse> \<Longrightarrow> p \<notin> N"
    by (auto elim: wfE_min)
  with that show ?thesis by blast
qed

lemma fold_relax_child:
  assumes "distinct cs" and "\<forall>c\<in>set cs. fmlookup indeg c \<noteq> None"
    and "fold relax_child cs (indeg, queue) = (indeg', queue')"
  shows "queue' = queue @ filter (\<lambda>c. the (fmlookup indeg c) - 1 = 0) cs"
    and "fmlookup indeg' h = (if h \<in> set cs then map_option (\<lambda>d. d - 1) (fmlookup indeg h)
      else fmlookup indeg h)"
proof -
  have "queue' = queue @ filter (\<lambda>c. the (fmlookup indeg c) - 1 = 0) cs
    \<and> (\<forall>h. fmlookup indeg' h = (if h \<in> set cs then map_option (\<lambda>d. d - 1) (fmlookup indeg h)
          else fmlookup indeg h))"
    using assms
  proof (induction cs arbitrary: indeg queue)
    case Nil
    then show ?case by simp
  next
    case (Cons c cs)
    then obtain d where d: "fmlookup indeg c = Some d" by auto
    have "filter (\<lambda>x. the (fmlookup (fmupd c (d - 1) indeg) x) - 1 = 0) cs
        = filter (\<lambda>x. the (fmlookup indeg x) - 1 = 0) cs"
      using Cons.prems(1) by (intro filter_cong) auto
    moreover have "\<forall>x\<in>set cs. fmlookup (fmupd c (d - 1) indeg) x \<noteq> None"
      using Cons.prems(2) by auto
    ultimately show ?case
      using Cons.IH [of "fmupd c (d - 1) indeg" "if d - 1 = 0 then queue @ [c] else queue"] Cons.prems d
      by (auto simp: relax_child_def split: if_splits)
  qed
  then show "queue' = queue @ filter (\<lambda>c. the (fmlookup indeg c) - 1 = 0) cs"
    and "fmlookup indeg' h = (if h \<in> set cs then map_option (\<lambda>d. d - 1) (fmlookup indeg h)
      else fmlookup indeg h)"
    by auto
qed

lemma set_children_in:
  assumes "dag_links g"
  shows "set (children_in g N h) = {c. (c, h) \<in> parent_rel g \<and> c |\<in>| N}"
proof -
  have "child_rel g = (parent_rel g)\<inverse>" using assms by (simp add: dag_links_def)
  then have "set (sorted_children g h) = {c. (c, h) \<in> parent_rel g}"
    using child_rel_image [of g h] by auto
  then show ?thesis by (auto simp: children_in_def)
qed

lemma distinct_children_in: "distinct (children_in g N h)"
  by (simp add: children_in_def distinct_sorted_children)

lemma open_parents_step:
  "open_parents g N (insert x D) h = open_parents g N D h - {x}"
  by (auto simp: open_parents_def)

lemma topo_inv_step:
  assumes links: "dag_links g" and inv: "topo_inv g N indeg (queue @ [cur]) order"
    and step: "fold relax_child (children_in g N cur) (indeg, queue) = (indeg', queue')"
  shows "topo_inv g N indeg' queue' (order @ [cur])"
proof -
  let ?O = "open_parents g (fset N) (set order)" and ?cs = "children_in g N cur"
  have deg: "\<And>h. h |\<in>| N \<Longrightarrow> fmlookup indeg h = Some (card (?O h))"
    and zero: "\<And>h. h |\<in>| N \<Longrightarrow> ?O h = {} \<longleftrightarrow> h \<in> set (order @ queue @ [cur])"
    and dist: "distinct (order @ queue @ [cur])" and sub: "set (order @ queue @ [cur]) \<subseteq> fset N"
    and ord: "\<forall>i<length order. \<forall>p. (order ! i, p) \<in> parent_rel g \<and> p \<in> fset N \<longrightarrow> p \<in> set (take i order)"
    using inv by (auto simp: topo_inv_def)
  have cs: "set ?cs = {c. (c, cur) \<in> parent_rel g \<and> c |\<in>| N}"
    by (rule set_children_in [OF links])
  have child: "cur \<in> ?O c" if "c \<in> set ?cs" for c
    using that cs dist sub by (auto simp: open_parents_def)
  have O': "open_parents g (fset N) (set (order @ [cur])) h = ?O h - {cur}" for h
    using open_parents_step [of g "fset N" cur "set order" h] by simp
  have nonchild: "cur \<notin> ?O h" if "h |\<in>| N" "h \<notin> set ?cs" for h
    using that cs by (auto simp: open_parents_def)
  note res = fold_relax_child [OF distinct_children_in _ step]
  have "\<forall>c\<in>set ?cs. fmlookup indeg c \<noteq> None" using cs deg by auto
  note res = res [OF this]
  have deg': "fmlookup indeg' h = Some (card (open_parents g (fset N) (set (order @ [cur])) h))"
    if "h |\<in>| N" for h
    using that child [of h] nonchild [OF that] deg [OF that]
    unfolding O' res(2) by (auto simp: card_Diff_singleton)
  have new: "set queue' = set queue \<union> {c \<in> set ?cs. ?O c - {cur} = {}}"
  proof -
    have "the (fmlookup indeg c) - 1 = 0 \<longleftrightarrow> ?O c - {cur} = {}" if "c \<in> set ?cs" for c
    proof -
      have "the (fmlookup indeg c) - 1 = card (?O c - {cur})"
        using that cs deg child [OF that] by (simp add: card_Diff_singleton)
      then show ?thesis using finite_open_parents [of g "fset N" "set order" c] by simp
    qed
    then show ?thesis unfolding res(1) by auto
  qed
  have zero': "open_parents g (fset N) (set (order @ [cur])) h = {} \<longleftrightarrow> h \<in> set ((order @ [cur]) @ queue')"
    if "h |\<in>| N" for h
    using that zero [OF that] child [of h] nonchild [OF that] 
    unfolding O' unfolding set_append new by auto
  have dq: "distinct ((order @ [cur]) @ queue')"
  proof -
    have "set ?cs \<inter> set (order @ queue @ [cur]) = {}"
      using child zero cs by blast
    then show ?thesis
      using dist distinct_children_in [of g N cur] unfolding res(1) by auto
  qed
  have "set ((order @ [cur]) @ queue') \<subseteq> fset N" using sub cs unfolding set_append new by auto
  moreover have "?O cur = {}" using zero sub by simp
  then have "\<forall>p. (cur, p) \<in> parent_rel g \<and> p \<in> fset N \<longrightarrow> p \<in> set order"
    by (auto simp: open_parents_def)
  then have "\<forall>i<length (order @ [cur]). \<forall>p. ((order @ [cur]) ! i, p) \<in> parent_rel g \<and> p \<in> fset N
      \<longrightarrow> p \<in> set (take i (order @ [cur]))"
    using ord by (auto simp: nth_append less_Suc_eq)
  ultimately show ?thesis
    using deg' zero' dq by (simp add: topo_inv_def)
qed

lemma topo_inv_done:
  assumes "dag_links g" and "topo_inv g N indeg [] order"
  shows "topological g (fset N) order"
proof -
  have "fset N \<subseteq> set order"
  proof (rule ccontr)
    assume "\<not> fset N \<subseteq> set order"
    then obtain h where "h \<in> fset N - set order" by blast
    then obtain m where m: "m \<in> fset N - set order"
        and top: "\<forall>p. (m, p) \<in> parent_rel g \<longrightarrow> p \<notin> fset N - set order"
      by (rule exists_source [OF assms(1)])
    then have "open_parents g (fset N) (set order) m = {}"
      by (auto simp: open_parents_def)
    with assms(2) m show False by (auto simp: topo_inv_def)
  qed
  with assms(2) show ?thesis by (auto simp: topological_def topo_inv_def)
qed

lemma topo_loop_returns:
  assumes "dag_links g" and "topo_inv g N indeg queue order"
  shows "\<exists>result. topo_loop g N indeg queue order = Some result \<and> topological g (fset N) result"
  using assms(2)
proof (induction "fcard N - length order" arbitrary: indeg queue order rule: less_induct)
  case less
  show ?case
  proof (cases "queue = []")
    case True
    with less.prems topo_inv_done [OF assms(1)] show ?thesis
      by (subst topo_loop.simps) simp
  next
    case False
    then obtain rest cur where q: "queue = rest @ [cur]" by (meson rev_exhaust)
    obtain indeg' queue' where step: "fold relax_child (children_in g N cur) (indeg, rest) = (indeg', queue')"
      by force
    have inv': "topo_inv g N indeg' queue' (order @ [cur])"
      using less.prems topo_inv_step [OF assms(1) _ step] by (simp add: q)
    have "card (set (order @ queue)) \<le> card (fset N)"
      using less.prems by (intro card_mono) (auto simp: topo_inv_def)
    moreover have "card (set (order @ queue)) = length (order @ queue)"
      using less.prems by (intro distinct_card) (simp add: topo_inv_def)
    ultimately have "length order < fcard N"
      using False by (simp add: fcard.rep_eq q)
    then have "fcard N - length (order @ [cur]) < fcard N - length order" by simp
    from less.hyps [OF this inv'] show ?thesis
      using step q by (subst topo_loop.simps) simp
  qed
qed

lemma indegree_in_eq:
  "indegree_in g N h = card (open_parents g (fset N) {} h)"
proof (cases "get_block g h")
  case None
  then have "open_parents g (fset N) {} h = {}"
    by (auto simp: open_parents_def parent_rel_iff get_block_def)
  with None show ?thesis by (simp add: indegree_in_def)
next
  case (Some b)
  then have "open_parents g (fset N) {} h = fset (ffilter (\<lambda>p. p |\<in>| N) (parents (header b)))"
    by (auto simp: open_parents_def parent_rel_iff get_block_def)
  with Some show ?thesis by (simp add: indegree_in_def fcard.rep_eq)
qed

lemma topological_sort_returns:
  assumes "dag_links g"
  shows "\<exists>order. topological_sort g nodes = Some order \<and> topological g (set nodes) order"
proof -
  let ?N = "fset_of_list nodes"
  let ?indeg = "fmap_of_list (map (\<lambda>h. (h, indegree_in g ?N h)) nodes)"
  let ?queue = "sorted_list_of_fset (ffilter (\<lambda>h. fmlookup ?indeg h = Some 0) (fmdom ?indeg))"
  have lk: "fmlookup ?indeg h = (if h \<in> set nodes then Some (indegree_in g ?N h) else None)" for h
    by (simp add: fmlookup_of_list map_of_map_restrict comp_def)
  have N: "fset ?N = set nodes" by (simp add: fset_of_list.rep_eq)
  have "set ?queue = {h \<in> set nodes. indegree_in g ?N h = 0}"
    by (auto simp: lk fmlookup_dom_iff fset_of_list_elem split: if_splits)
  also have "\<dots> = {h \<in> set nodes. open_parents g (set nodes) {} h = {}}"
    using finite_open_parents [of g "set nodes" "{}"] by (simp add: indegree_in_eq N)
  finally have queue: "set ?queue = {h \<in> set nodes. open_parents g (set nodes) {} h = {}}" .
  have deg: "\<forall>h\<in>set nodes. fmlookup ?indeg h = Some (card (open_parents g (set nodes) {} h))"
    using indegree_in_eq [of g ?N] lk unfolding N by metis
  have "topo_inv g ?N ?indeg ?queue []"
    unfolding topo_inv_def N append_Nil list.set(1)
    using queue deg by (intro conjI) auto
  from topo_loop_returns [OF assms this] show ?thesis
    by (simp add: topological_sort_def Let_def N)
qed

section \<open>Selected parents\<close>

lemma not_less_eq_iff: "not (a :: 'a::len word) \<le> not b \<longleftrightarrow> b \<le> a"
proof -
  have u: "unat (not x) = 2 ^ LENGTH('a) - 1 - unat x" for x :: "'a word"
  proof -
    have "not x = - 1 - x" by (simp add: not_eq_complement)
    moreover have "unat (- 1 - x) = unat (- 1 :: 'a word) - unat x"
      by (rule unat_sub) (rule word_order.extremum)
    ultimately show ?thesis by (simp add: unat_max_word)
  qed
  have le: "unat x \<le> 2 ^ LENGTH('a) - 1" for x :: "'a word"
    using unsigned_less [of x] by (metis less_eq_Suc_le Suc_le_mono Suc_pred' zero_less_numeral
        zero_less_power diff_Suc_1)
  show ?thesis
    unfolding word_le_nat_alt u using le [of a] le [of b] by linarith
qed

lemma score_desc_le:
  "score_desc (h1, s1) \<le> score_desc (h2, s2) \<longleftrightarrow> s2 < s1 \<or> s1 = s2 \<and> h1 \<le> h2"
proof -
  have "not s1 < not s2 \<longleftrightarrow> s2 < s1"
    using not_less_eq_iff [of s2 s1] by (simp add: not_le [symmetric] del: not_le)
  moreover have "not s1 = not s2 \<longleftrightarrow> s1 = s2"
    by (metis bit.double_compl)
  ultimately show ?thesis
    by (auto simp: score_desc_def less_eq_prod_def)
qed

lemma set_with_scores:
  "set (with_scores g hs) = {(h, score_of g h) | h. h \<in> set hs \<and> h \<in> fmdom' (blocks g)}"
  unfolding with_scores_def List.map_filter_def
  by (force simp: get_block_def score_of_def fmlookup_dom'_iff)

lemma with_scores_cong:
  "(\<And>h. h \<in> set hs \<Longrightarrow> get_block g' h = get_block g h) \<Longrightarrow> with_scores g' hs = with_scores g hs"
proof (induction hs)
  case Nil
  then show ?case by (simp add: with_scores_def List.map_filter_simps)
next
  case (Cons h hs)
  have "with_scores g' hs = with_scores g hs" using Cons by simp
  moreover have "get_block g' h = get_block g h" using Cons.prems by simp
  ultimately show ?case
    by (cases "get_block g h") (simp_all add: with_scores_def List.map_filter_simps)
qed

lemma sort_key_head:
  assumes "sort_key f xs = y # ys"
  shows "y \<in> set xs" and "\<forall>x\<in>set xs. f y \<le> f x"
proof -
  have set: "set (y # ys) = set xs" using assms by (metis set_sort)
  have "sorted (map f (y # ys))" using assms by (metis sorted_sort_key)
  then have "\<forall>x\<in>set (y # ys). f y \<le> f x" by auto
  with set show "y \<in> set xs" "\<forall>x\<in>set xs. f y \<le> f x" by auto
qed

text \<open>The selected parent is a stored candidate of greatest blue score, the one of smallest hash
  among equals.\<close>

lemma select_parent_Some:
  assumes "select_parent g ps = Some sp"
  shows "sp \<in> set ps" and "sp \<in> fmdom' (blocks g)"
    and "\<forall>h\<in>set ps \<inter> fmdom' (blocks g). score_of g h < score_of g sp
      \<or> score_of g h = score_of g sp \<and> sp \<le> h"
proof -
  from assms obtain s rest where s: "sort_key score_desc (with_scores g ps) = (sp, s) # rest"
    by (auto simp: select_parent_def split: if_splits list.splits prod.splits)
  note hd = sort_key_head [OF s]
  from hd(1) have sp: "sp \<in> set ps" "sp \<in> fmdom' (blocks g)" "s = score_of g sp"
    by (auto simp: set_with_scores)
  then show "sp \<in> set ps" "sp \<in> fmdom' (blocks g)" by simp_all
  have "score_desc (sp, score_of g sp) \<le> score_desc (h, score_of g h)"
    if "h \<in> set ps \<inter> fmdom' (blocks g)" for h
    using hd(2) that sp(3) by (auto simp: set_with_scores)
  then show "\<forall>h\<in>set ps \<inter> fmdom' (blocks g). score_of g h < score_of g sp
      \<or> score_of g h = score_of g sp \<and> sp \<le> h"
    unfolding score_desc_le by fastforce
qed

lemma select_parent_None:
  "select_parent g ps = None \<longleftrightarrow> set ps \<inter> fmdom' (blocks g) = {}"
proof -
  have "with_scores g [] = []" by (simp add: with_scores_def List.map_filter_def)
  moreover have "set (sort_key score_desc (with_scores g ps)) = set (with_scores g ps)" by simp
  ultimately have "select_parent g ps = None \<longleftrightarrow> set (with_scores g ps) = {}"
    by (cases "sort_key score_desc (with_scores g ps)") (auto simp: select_parent_def)
  then show ?thesis by (auto simp: set_with_scores)
qed

lemma select_parent_unique:
  assumes "select_parent g ps = Some sp" and "h \<in> set ps" and "h \<in> fmdom' (blocks g)"
    and "\<forall>x\<in>set ps \<inter> fmdom' (blocks g). score_of g x < score_of g h \<or> score_of g x = score_of g h \<and> h \<le> x"
  shows "sp = h"
proof -
  note sp = select_parent_Some [OF assms(1)]
  from sp(3) assms(2,3) have "score_of g h < score_of g sp \<or> score_of g h = score_of g sp \<and> sp \<le> h"
    by blast
  moreover from assms(4) sp(1,2)
  have "score_of g sp < score_of g h \<or> score_of g sp = score_of g h \<and> h \<le> sp" by blast
  ultimately show ?thesis by auto
qed

section \<open>Colouring\<close>

lemma fold_colour:
  assumes "fold (colour_candidate self g) cs (blue0, red0) = (blue, red)"
  shows "blue0 |\<subseteq>| blue" and "red0 |\<subseteq>| red"
    and "fset blue \<union> fset red = fset blue0 \<union> fset red0 \<union> set cs"
    and "fset red \<subseteq> fset red0 \<union> set cs"
    and "\<forall>c. c |\<in>| red \<and> c |\<notin>| red0 \<longrightarrow>
      param_k self < fcard (fset_of_list (get_anticone g c) |\<inter>| blue)"
proof -
  have "blue0 |\<subseteq>| blue \<and> red0 |\<subseteq>| red \<and> fset blue \<union> fset red = fset blue0 \<union> fset red0 \<union> set cs
    \<and> fset red \<subseteq> fset red0 \<union> set cs
    \<and> (\<forall>c. c |\<in>| red \<and> c |\<notin>| red0 \<longrightarrow>
        param_k self < fcard (fset_of_list (get_anticone g c) |\<inter>| blue))"
    using assms
  proof (induction cs arbitrary: blue0 red0)
    case Nil
    then show ?case by simp
  next
    case (Cons c cs)
    let ?A = "fset_of_list (get_anticone g c)"
    show ?case
    proof (cases "fcard (?A |\<inter>| blue0) \<le> param_k self")
      case True
      with Cons.IH [of "finsert c blue0" red0] Cons.prems show ?thesis
        by (auto simp: colour_candidate_def)
    next
      case False
      with Cons.prems have "fold (colour_candidate self g) cs (blue0, finsert c red0) = (blue, red)"
        by (simp add: colour_candidate_def [of self g c])
      note IH = Cons.IH [OF this]
      then have "?A |\<inter>| blue0 |\<subseteq>| ?A |\<inter>| blue" by auto
      then have "fcard (?A |\<inter>| blue0) \<le> fcard (?A |\<inter>| blue)" by (rule fcard_mono)
      with False have "param_k self < fcard (?A |\<inter>| blue)" by simp
      with IH show ?thesis by auto
    qed
  qed
  then show "blue0 |\<subseteq>| blue" "red0 |\<subseteq>| red"
    "fset blue \<union> fset red = fset blue0 \<union> fset red0 \<union> set cs"
    "fset red \<subseteq> fset red0 \<union> set cs"
    "\<forall>c. c |\<in>| red \<and> c |\<notin>| red0 \<longrightarrow>
      param_k self < fcard (fset_of_list (get_anticone g c) |\<inter>| blue)"
    by blast+
qed

section \<open>Recolouring keeps the graph\<close>

lemma same_graph_refl [simp]: "same_graph g g"
  by (simp add: same_graph_def)

lemma same_graph_trans: "same_graph g g' \<Longrightarrow> same_graph g' g'' \<Longrightarrow> same_graph g g''"
  by (simp add: same_graph_def)

lemma same_graph_lookup:
  assumes "same_graph g g'"
  shows "fmlookup (blocks g') h = None \<longleftrightarrow> fmlookup (blocks g) h = None"
    and "fmlookup (blocks g') h = Some b' \<Longrightarrow>
      \<exists>b. fmlookup (blocks g) h = Some b \<and> header b = header b' \<and> children b = children b'"
proof -
  have eq: "map_option (\<lambda>b. (header b, children b)) (fmlookup (blocks g') h)
      = map_option (\<lambda>b. (header b, children b)) (fmlookup (blocks g) h)"
    using assms by (simp add: same_graph_def)
  show "fmlookup (blocks g') h = None \<longleftrightarrow> fmlookup (blocks g) h = None"
    using arg_cong [OF eq, of "\<lambda>x. x = None"] by simp
  show "\<exists>b. fmlookup (blocks g) h = Some b \<and> header b = header b' \<and> children b = children b'"
    if "fmlookup (blocks g') h = Some b'"
    using eq that by (cases "fmlookup (blocks g) h") auto
qed

lemma same_graph_sorted:
  assumes "same_graph g g'"
  shows "sorted_parents g' h = sorted_parents g h" and "sorted_children g' h = sorted_children g h"
proof -
  have "sorted_parents g' h = sorted_parents g h \<and> sorted_children g' h = sorted_children g h"
  proof (cases "fmlookup (blocks g') h")
    case None
    with same_graph_lookup(1) [OF assms, of h] show ?thesis
      by (simp add: sorted_parents_def sorted_children_def)
  next
    case (Some b')
    from same_graph_lookup(2) [OF assms Some] obtain b where
      "fmlookup (blocks g) h = Some b" "header b = header b'" "children b = children b'" by blast
    with Some show ?thesis by (simp add: sorted_parents_def sorted_children_def)
  qed
  then show "sorted_parents g' h = sorted_parents g h" "sorted_children g' h = sorted_children g h"
    by simp_all
qed

lemma same_graph_rels:
  assumes "same_graph g g'"
  shows "parent_rel g' = parent_rel g" and "child_rel g' = child_rel g"
    and "fmdom (blocks g') = fmdom (blocks g)" and "fmdom' (blocks g') = fmdom' (blocks g)"
    and "tips g' = tips g" and "get_all_hashes g' = get_all_hashes g"
proof -
  show "parent_rel g' = parent_rel g" "child_rel g' = child_rel g"
    by (simp_all add: parent_rel_def child_rel_def same_graph_sorted [OF assms])
  show dom: "fmdom (blocks g') = fmdom (blocks g)"
  proof (rule fset_eqI)
    fix x
    show "x |\<in>| fmdom (blocks g') \<longleftrightarrow> x |\<in>| fmdom (blocks g)"
      using same_graph_lookup(1) [OF assms, of x] by (metis fmdom_notD fmlookup_dom_iff option.distinct(1))
  qed
  then show "fmdom' (blocks g') = fmdom' (blocks g)" "get_all_hashes g' = get_all_hashes g"
    by (simp_all add: fmdom'_alt_def get_all_hashes_def)
  show "tips g' = tips g" using assms by (simp add: same_graph_def)
qed

lemma same_graph_wf:
  assumes "same_graph g g'"
  shows "dag_links g' \<longleftrightarrow> dag_links g" and "dag_wf g' \<longleftrightarrow> dag_wf g"
proof -
  have "ids_match g' \<longleftrightarrow> ids_match g"
    using same_graph_lookup [OF assms] unfolding ids_match_def
    by (metis not_None_eq option.inject)
  then show "dag_links g' \<longleftrightarrow> dag_links g"
    by (simp add: dag_links_def same_graph_rels [OF assms])
  then show "dag_wf g' \<longleftrightarrow> dag_wf g"
    by (simp add: dag_wf_def tips_exact_def childless_def same_graph_rels [OF assms])
qed

lemma same_graph_anticone:
  assumes "same_graph g g'"
  shows "get_anticone g' h = get_anticone g h"
  by (simp add: get_anticone_def set_get_ancestors set_get_descendants same_graph_rels [OF assms])

lemma same_graph_recolour:
  "(\<And>b. header (f b) = header b \<and> children (f b) = children b) \<Longrightarrow> same_graph g (get_block_mut h f g)"
  by (auto simp: same_graph_def get_block_mut_lookup option.map_comp comp_def)

definition recoloured :: "hash \<Rightarrow> hash fset \<Rightarrow> hash fset \<Rightarrow> u64 \<Rightarrow> block_node \<Rightarrow> block_node" where
  "recoloured sp blue red score b =
     b\<lparr>selected_parent := Some sp, blue_set := blue, red_set := red, blue_score := score\<rparr>"

lemma recoloured_simps [simp]:
  "header (recoloured sp blue red score b) = header b"
  "children (recoloured sp blue red score b) = children b"
  "selected_parent (recoloured sp blue red score b) = Some sp"
  "blue_set (recoloured sp blue red score b) = blue"
  "red_set (recoloured sp blue red score b) = red"
  "blue_score (recoloured sp blue red score b) = score"
  by (simp_all add: recoloured_def)

lemma recompute_block_cases:
  obtains (unchanged) "recompute_block self g h = (g, False)"
  | (changed) block sp blue red where "get_block g h = Some block"
    and "parents (header block) \<noteq> {||}" and "parents (header block) |\<subseteq>| fmdom (blocks g)"
    and "select_parent g (sorted_list_of_fset (parents (header block))) = Some sp"
    and "build_blue_set self g sp = (blue, red)"
    and "recompute_block self g h =
      (get_block_mut h (recoloured sp blue red (score_of g sp + of_nat (fcard blue))) g, True)"
proof (cases "get_block g h")
  case None
  then show ?thesis using unchanged by (simp add: recompute_block_def)
next
  case block: (Some block)
  show ?thesis
  proof (cases "parents (header block) \<noteq> {||} \<and> parents (header block) |\<subseteq>| fmdom (blocks g)")
    case False
    with block have "recompute_block self g h = (g, False)"
      by (cases "parents (header block) = {||}") (simp_all add: recompute_block_def)
    then show ?thesis by (rule unchanged)
  next
    case ps: True
    show ?thesis
    proof (cases "select_parent g (sorted_list_of_fset (parents (header block)))")
      case None
      then show ?thesis using unchanged block ps by (simp add: recompute_block_def)
    next
      case sp: (Some sp)
      obtain blue red where col: "build_blue_set self g sp = (blue, red)" by force
      let ?s = "score_of g sp + of_nat (fcard blue)"
      have run: "recompute_block self g h =
          (if selected_parent block = Some sp \<and> blue_set block = blue \<and> red_set block = red
              \<and> blue_score block = ?s
           then (g, False) else (get_block_mut h (recoloured sp blue red ?s) g, True))"
        using block ps sp col by (simp add: recompute_block_def Let_def recoloured_def [abs_def])
      show ?thesis
      proof (cases "selected_parent block = Some sp \<and> blue_set block = blue \<and> red_set block = red
          \<and> blue_score block = ?s")
        case True
        with run show ?thesis by (intro unchanged) simp
      next
        case False
        with run ps show ?thesis by (intro changed [OF block _ _ sp col]) auto
      qed
    qed
  qed
qed

lemma recompute_block_same_graph: "same_graph g (fst (recompute_block self g h))"
  by (rule recompute_block_cases [of self g h]) (simp_all add: same_graph_recolour)

lemma recompute_all_same_graph: "same_graph g (recompute_all self hs g)"
proof (induction hs arbitrary: g)
  case Nil
  then show ?case by (simp add: recompute_all_def)
next
  case (Cons h hs)
  from same_graph_trans [OF recompute_block_same_graph Cons.IH] show ?case
    by (simp add: recompute_all_def)
qed

text \<open>The graph after the block's own update, before its surroundings are recomputed.\<close>

definition process_first :: "ghostdag \<Rightarrow> dag \<Rightarrow> hash \<Rightarrow> block_node \<Rightarrow> dag" where
  "process_first self g h block =
     (if parents (header block) = {||}
      then get_block_mut h (\<lambda>b. b\<lparr>selected_parent := None, blue_set := {||},
             red_set := {||}, blue_score := 1\<rparr>) g
      else fst (recompute_block self g h))"

lemma process_block_eq:
  assumes "get_block g h = Some block"
  shows "\<exists>nodes. process_block self g h
    = map_option (\<lambda>order. recompute_all self order (process_first self g h block))
        (topological_sort (process_first self g h block) nodes)"
  using assms by (auto simp: process_block_def process_first_def Let_def)

lemma process_block_Some:
  assumes "get_block g h = Some block" and "process_block self g h = Some g'"
  obtains order where "g' = recompute_all self order (process_first self g h block)"
proof -
  obtain nodes where "process_block self g h
    = map_option (\<lambda>order. recompute_all self order (process_first self g h block))
        (topological_sort (process_first self g h block) nodes)"
    using process_block_eq [OF assms(1)] by blast
  with assms(2) that show ?thesis
    by (cases "topological_sort (process_first self g h block) nodes") auto
qed

lemma process_block_absent: "get_block g h = None \<Longrightarrow> process_block self g h = Some g"
  by (simp add: process_block_def)

lemma process_first_same_graph: "same_graph g (process_first self g h block)"
  by (simp add: process_first_def same_graph_recolour recompute_block_same_graph)

lemma process_block_same_graph:
  assumes "process_block self g h = Some g'"
  shows "same_graph g g'"
proof (cases "get_block g h")
  case None
  with assms show ?thesis by (simp add: process_block_absent)
next
  case (Some block)
  from process_block_Some [OF Some assms]
  obtain order where "g' = recompute_all self order (process_first self g h block)" .
  then show ?thesis
    using same_graph_trans [OF process_first_same_graph recompute_all_same_graph] by simp
qed

lemma process_block_returns:
  assumes "dag_links g"
  shows "\<exists>g'. process_block self g h = Some g'"
proof (cases "get_block g h")
  case None
  then show ?thesis by (simp add: process_block_absent)
next
  case (Some block)
  have "dag_links (process_first self g h block)"
    using assms same_graph_wf(1) [OF process_first_same_graph] by simp
  then have "\<exists>order. topological_sort (process_first self g h block) nodes = Some order" for nodes
    using topological_sort_returns by blast
  with process_block_eq [OF Some, of self] show ?thesis by fastforce
qed

lemma next_on_chain_recolour:
  "next_on_chain (get_block_mut h f g) k =
     (if k = h then (case get_block g h of None \<Rightarrow> None | Some b \<Rightarrow> selected_parent (f b))
      else next_on_chain g k)"
  by (auto simp: next_on_chain_def get_block_def get_block_mut_lookup split: option.splits)

lemma sp_ok_recolour:
  assumes "sp_ok g" and "\<And>b. header (f b) = header b \<and> children (f b) = children b"
    and "\<And>b sp. get_block g h = Some b \<Longrightarrow> selected_parent (f b) = Some sp \<Longrightarrow> (h, sp) \<in> parent_rel g"
  shows "sp_ok (get_block_mut h f g)"
  using assms same_graph_rels(1) [OF same_graph_recolour, of f h g]
  by (auto simp: sp_ok_def next_on_chain_recolour split: if_splits option.splits)

lemma recompute_block_sp_ok:
  assumes "sp_ok g"
  shows "sp_ok (fst (recompute_block self g h))"
proof (cases rule: recompute_block_cases [of self g h])
  case unchanged
  with assms show ?thesis by simp
next
  case (changed block sp blue red)
  have "(h, sp) \<in> parent_rel g"
    using select_parent_Some(1) [OF changed(4)] changed(1) by (simp add: parent_rel_iff get_block_def)
  with changed(6) assms show ?thesis by (auto intro!: sp_ok_recolour)
qed

lemma recompute_all_sp_ok: "sp_ok g \<Longrightarrow> sp_ok (recompute_all self hs g)"
  by (induction hs arbitrary: g) (simp_all add: recompute_all_def recompute_block_sp_ok)

lemma process_block_sp_ok:
  assumes "sp_ok g" and "process_block self g h = Some g'"
  shows "sp_ok g'"
proof (cases "get_block g h")
  case None
  with assms show ?thesis by (simp add: process_block_absent)
next
  case (Some block)
  from process_block_Some [OF Some assms(2)]
  obtain order where g': "g' = recompute_all self order (process_first self g h block)" .
  have "sp_ok (get_block_mut h (\<lambda>b. b\<lparr>selected_parent := None, blue_set := {||},
      red_set := {||}, blue_score := 1\<rparr>) g)"
    using assms(1) by (rule sp_ok_recolour) simp_all
  then have "sp_ok (process_first self g h block)"
    using assms(1) by (simp add: process_first_def recompute_block_sp_ok)
  then show ?thesis by (simp add: g' recompute_all_sp_ok)
qed

text \<open>Recomputing a block a second time changes nothing.\<close>

lemma recompute_block_idem:
  assumes "dag_links g"
  shows "recompute_block self (fst (recompute_block self g h)) h
    = (fst (recompute_block self g h), False)"
proof (cases rule: recompute_block_cases [of self g h])
  case unchanged
  then show ?thesis by simp
next
  case (changed block sp blue red)
  note b = changed(1) and ps = changed(2,3) and sp = changed(4) and col = changed(5)
  let ?s = "score_of g sp + of_nat (fcard blue)"
  let ?g = "get_block_mut h (recoloured sp blue red ?s) g"
  have same: "same_graph g ?g" by (rule same_graph_recolour) simp
  have "h |\<notin>| parents (header block)"
  proof
    assume "h |\<in>| parents (header block)"
    then have "(h, h) \<in> parent_rel g" using b by (simp add: parent_rel_iff get_block_def)
    with dag_links_acyclic [OF assms, of h] show False by blast
  qed
  moreover have lk: "get_block ?g k = get_block g k" if "k \<noteq> h" for k
    using that by (simp add: get_block_def get_block_mut_lookup)
  ultimately have "with_scores ?g (sorted_list_of_fset (parents (header block)))
      = with_scores g (sorted_list_of_fset (parents (header block)))" and "sp \<noteq> h"
    using select_parent_Some(1) [OF sp] by (auto intro!: with_scores_cong lk)
  then have sel: "select_parent ?g (sorted_list_of_fset (parents (header block))) = Some sp"
    and sp': "get_block ?g sp = get_block g sp"
    using sp lk by (simp_all only: select_parent_def)
  have "colour_candidate self ?g = colour_candidate self g"
    by (simp add: fun_eq_iff colour_candidate_def same_graph_anticone [OF same])
  then have "build_blue_set self ?g sp = (blue, red)"
    using col by (simp add: build_blue_set_def sp' same_graph_anticone [OF same])
  moreover have "score_of ?g sp = score_of g sp"
    using sp' by (simp add: score_of_def get_block_def)
  moreover have "get_block ?g h = Some (recoloured sp blue red ?s block)"
    using b by (simp add: get_block_def get_block_mut_lookup)
  ultimately have "recompute_block self ?g h = (?g, False)"
    using ps sel by (simp add: recompute_block_def same_graph_rels(3) [OF same] Let_def)
  then show ?thesis by (simp add: changed(6))
qed

section \<open>Walking selected chains\<close>

text \<open>On a well-formed graph every walk along selected parents ends, goes down the parent relation,
  and stops where it was told to or at a block without a selected parent.\<close>

lemma walk_chain_returns:
  assumes "dag_links g" and "sp_ok g"
  shows "\<exists>hs. walk_chain g stop current acc = Some (acc @ hs) \<and> steps_down g hs
    \<and> (hs = [] \<longleftrightarrow> current = None \<or> (\<exists>h. current = Some h \<and> stop h))
    \<and> (\<forall>h. hs \<noteq> [] \<and> current = Some h \<longrightarrow> hd hs = h)
    \<and> (\<forall>h\<in>set hs. \<not> stop h)"
proof (cases current)
  case None
  then show ?thesis by (subst walk_chain.simps) (simp add: steps_down_def)
next
  case (Some h0)
  have wf: "wf ((parent_rel g)\<inverse>)"
    using assms(1) by (intro finite_acyclic_wf_converse finite_parent_rel) (simp add: dag_links_def)
  have "\<exists>hs. walk_chain g stop (Some h) acc = Some (acc @ hs) \<and> steps_down g hs
      \<and> (hs = [] \<longleftrightarrow> stop h) \<and> (hs \<noteq> [] \<longrightarrow> hd hs = h) \<and> (\<forall>h\<in>set hs. \<not> stop h)" for h acc
  proof (induction h arbitrary: acc rule: wf_induct_rule [OF wf])
    case (1 h)
    show ?case
    proof (cases "stop h")
      case True
      then show ?thesis by (subst walk_chain.simps) (simp add: steps_down_def)
    next
      case False
      then have step: "walk_chain g stop (Some h) acc = walk_chain g stop (next_on_chain g h) (acc @ [h])"
        by (subst walk_chain.simps) simp
      show ?thesis
      proof (cases "next_on_chain g h")
        case None
        then have "walk_chain g stop (next_on_chain g h) (acc @ [h]) = Some (acc @ [h])"
          by (subst walk_chain.simps) simp
        with step False show ?thesis by (intro exI [of _ "[h]"]) (simp add: steps_down_def)
      next
        case (Some p)
        with assms(2) have "(h, p) \<in> parent_rel g" by (simp add: sp_ok_def)
        with 1 [of p "acc @ [h]"] obtain hs where
          "walk_chain g stop (Some p) (acc @ [h]) = Some (acc @ h # hs)" "steps_down g hs"
          "hs \<noteq> [] \<longrightarrow> hd hs = p" "\<forall>h\<in>set hs. \<not> stop h" by auto
        with step Some False \<open>(h, p) \<in> parent_rel g\<close> show ?thesis
          by (intro exI [of _ "h # hs"]) (cases hs; simp add: steps_down_def)
      qed
    qed
  qed
  from this [of h0 acc] Some show ?thesis by auto
qed

section \<open>Best tips\<close>

lemma max_by_snoc:
  "max_by le (xs @ [y]) = (case max_by le xs of None \<Rightarrow> Some y | Some m \<Rightarrow> Some (if le m y then y else m))"
  by (cases xs) simp_all

text \<open>On a strictly ascending list, \<open>max_by\<close> on the score returns the top-scored entry of largest
  hash.\<close>

lemma max_by_score:
  fixes f :: "hash \<Rightarrow> u64"
  assumes "sorted_wrt (<) hs" and "max_by (\<lambda>(_, s1) (_, s2). s1 \<le> s2) (map (\<lambda>h. (h, f h)) hs) = Some (m, s)"
  shows "m \<in> set hs \<and> s = f m \<and> (\<forall>h\<in>set hs. f h < f m \<or> f h = f m \<and> h \<le> (m :: hash))"
  using assms
proof (induction hs arbitrary: m s rule: rev_induct)
  case Nil
  then show ?case by simp
next
  case (snoc y hs)
  let ?le = "\<lambda>(_, s1) (_, s2). s1 \<le> s2"
  show ?case
  proof (cases "max_by ?le (map (\<lambda>h. (h, f h)) hs)")
    case None
    then have "hs = []" by (cases hs) simp_all
    with snoc.prems(2) show ?thesis by auto
  next
    case (Some p)
    obtain m' s' where p: "p = (m', s')" by (cases p)
    have IH: "m' \<in> set hs \<and> s' = f m' \<and> (\<forall>h\<in>set hs. f h < f m' \<or> f h = f m' \<and> h \<le> m')"
      using snoc.prems(1) Some p by (intro snoc.IH) (simp_all add: sorted_wrt_append)
    have lt: "\<forall>h\<in>set hs. h < y" using snoc.prems(1) by (simp add: sorted_wrt_append)
    show ?thesis
    proof (cases "f m' \<le> f y")
      case True
      then have m: "m = y" "s = f y"
        using snoc.prems(2) Some p IH by (auto simp: max_by_snoc)
      have "f h < f y \<or> f h = f y \<and> h \<le> y" if "h \<in> set hs" for h
      proof -
        have "f h \<le> f m'" using IH that by fastforce
        with True have "f h \<le> f y" by simp
        with lt that show ?thesis by (auto simp: order_le_less)
      qed
      with m show ?thesis by auto
    next
      case False
      then have "m = m'" "s = f m'"
        using snoc.prems(2) Some p IH by (auto simp: max_by_snoc)
      with IH False show ?thesis by auto
    qed
  qed
qed

lemma max_by_None_iff: "max_by le xs = None \<longleftrightarrow> xs = []"
  by (cases xs) simp_all

lemma with_scores_stored:
  "set hs \<subseteq> fmdom' (blocks g) \<Longrightarrow> with_scores g hs = map (\<lambda>h. (h, score_of g h)) hs"
proof (induction hs)
  case Nil
  then show ?case by (simp add: with_scores_def List.map_filter_simps)
next
  case (Cons h hs)
  then obtain b where "get_block g h = Some b"
    by (auto simp: get_block_def fmlookup_dom'_iff)
  with Cons show ?case
    by (simp add: with_scores_def List.map_filter_simps score_of_def get_block_def)
qed

lemma sorted_wrt_get_tips: "sorted_wrt (<) (get_tips g)"
  by (simp add: get_tips_def strict_sorted_iff)

lemma set_get_tips [simp]: "set (get_tips g) = fset (tips g)"
  by (simp add: get_tips_def)

lemma virtual_selected_parent:
  assumes "2 \<le> get_block_count g"
  shows "v_selected_parent (build_virtual_block self g) = select_parent g (get_tips g)"
proof -
  have "2 \<le> length (get_all_hashes g)"
    using assms by (simp add: get_block_count_def get_all_hashes_def)
  then obtain a b rest where "get_all_hashes g = a # b # rest"
    by (metis One_nat_def Suc_1 Suc_le_length_iff)
  then show ?thesis
    by (simp add: build_virtual_block_def Let_def split: option.splits prod.splits)
qed

lemma dag_links_parent:
  assumes "dag_links g" and "get_block g h = Some b" and "p |\<in>| parents (header b)"
  shows "p \<in> fmdom' (blocks g)"
proof -
  have "(h, p) \<in> parent_rel g" using assms(2,3) by (simp add: parent_rel_iff get_block_def)
  then have "p \<in> snd ` parent_rel g" by force
  with assms(1) show ?thesis by (auto simp: dag_links_def)
qed

lemma recompute_block_result:
  assumes "dag_links g" and "get_block g h = Some block" and "parents (header block) \<noteq> {||}"
  obtains sp blue red where
      "select_parent g (sorted_list_of_fset (parents (header block))) = Some sp"
    and "build_blue_set self g sp = (blue, red)"
    and "get_block (fst (recompute_block self g h)) h
      = Some (recoloured sp blue red (score_of g sp + of_nat (fcard blue)) block)"
proof -
  let ?ps = "sorted_list_of_fset (parents (header block))"
  have sub: "fset (parents (header block)) \<subseteq> fmdom' (blocks g)"
    using dag_links_parent [OF assms(1,2)] by blast
  then have "select_parent g ?ps \<noteq> None"
    using assms(3) by (auto simp: select_parent_None)
  then obtain sp where sp: "select_parent g ?ps = Some sp" by blast
  obtain blue red where col: "build_blue_set self g sp = (blue, red)" by force
  let ?s = "score_of g sp + of_nat (fcard blue)"
  have "parents (header block) |\<subseteq>| fmdom (blocks g)"
    using sub by (auto simp: fmdom'_alt_def)
  then have run: "recompute_block self g h =
      (if selected_parent block = Some sp \<and> blue_set block = blue \<and> red_set block = red
          \<and> blue_score block = ?s
       then (g, False) else (get_block_mut h (recoloured sp blue red ?s) g, True))"
    using assms sp col by (simp add: recompute_block_def Let_def recoloured_def [abs_def])
  have "get_block (fst (recompute_block self g h)) h = Some (recoloured sp blue red ?s block)"
    using assms(2) unfolding run
    by (cases block) (auto simp: recoloured_def get_block_def get_block_mut_lookup)
  with sp col that show ?thesis by blast
qed

lemma hash_c_other [simp]: "hash_c \<noteq> hash_a" "hash_c \<noteq> hash_b" "hash_a \<noteq> hash_c" "hash_b \<noteq> hash_c"
  by (simp_all add: hash_a_def hash_b_def hash_c_def)

lemma fork_dag_added: "add_block demo_dag (bare_block hash_c {|hash_a|}) = (fork_dag, Inr ())"
proof -
  have "snd (add_block demo_dag (bare_block hash_c {|hash_a|})) = Inr ()"
    by (simp add: add_block_def demo_dag_eq bare_block_def Let_def)
  then show ?thesis by (simp add: fork_dag_def prod_eq_iff)
qed

lemma fork_dag_wf: "dag_wf fork_dag"
  by (rule add_block_wf [OF demo_dag_wf _ fork_dag_added]) (simp add: bare_block_def)

lemma fork_dag_links: "dag_links fork_dag"
  using fork_dag_wf by (simp add: dag_wf_def)

lemma fork_dag_tips: "tips fork_dag = {|hash_c, hash_b|}"
  using add_block_ok(5) [OF fork_dag_added] by (auto simp: demo_dag_eq bare_block_def)

lemma fork_dag_dom: "fmdom' (blocks fork_dag) = {hash_a, hash_b, hash_c}"
  using add_block_rels(1) [OF fork_dag_added] by (auto simp: demo_dag_eq bare_block_def)

lemma fork_dag_lookup:
  "get_block fork_dag hash_c = Some (bare_block hash_c {|hash_a|})"
  "get_block fork_dag hash_b = Some (bare_block hash_b {|hash_a|})"
  by (simp_all add: get_block_def add_block_ok(4) [OF fork_dag_added] demo_dag_eq bare_block_def)

lemma fork_dag_sp_ok: "sp_ok fork_dag"
proof -
  have "next_on_chain fork_dag h = None" for h
    by (auto simp: next_on_chain_def get_block_def add_block_ok(4) [OF fork_dag_added] demo_dag_eq
        bare_block_def add_child_def split: option.splits if_splits)
  then show ?thesis by (simp add: sp_ok_def)
qed

section \<open>Properties\<close>

text \<open>\<open>recompute_block\<close> on a well-formed graph selects the stored parent of greatest blue score
  (smallest hash among equals), colours every block of that parent's anticone, keeps the
  parent's blue blocks blue, makes a block red only when more than \<open>k\<close> blue blocks are in its
  anticone, sets the score to the parent's plus the number of blue blocks, touches no link, and
  is idempotent.\<close>

theorem recompute_block_colours:
  assumes "dag_links g" and "get_block g h = Some block" and "parents (header block) \<noteq> {||}"
    and "recompute_block self g h = (g', changed)"
  shows "\<exists>sp blue red. get_block g' h = Some (recoloured sp blue red (score_of g sp + of_nat (fcard blue)) block)
    \<and> sp |\<in>| parents (header block)
    \<and> (\<forall>p. p |\<in>| parents (header block) \<longrightarrow> score_of g p < score_of g sp
          \<or> score_of g p = score_of g sp \<and> sp \<le> p)
    \<and> finsert sp (get_blue_set g sp) |\<subseteq>| blue
    \<and> fset blue \<union> fset red = insert sp (fset (get_blue_set g sp)) \<union> set (get_anticone g sp)
    \<and> (\<forall>c. c |\<in>| red \<longrightarrow> param_k self < fcard (fset_of_list (get_anticone g c) |\<inter>| blue))
    \<and> same_graph g g' \<and> recompute_block self g' h = (g', False)"
proof -
  from assms(1-3) obtain sp blue red where
      sp: "select_parent g (sorted_list_of_fset (parents (header block))) = Some sp"
    and col: "build_blue_set self g sp = (blue, red)"
    and res: "get_block g' h = Some (recoloured sp blue red (score_of g sp + of_nat (fcard blue)) block)"
    using assms(4) by (metis recompute_block_result fst_conv)
  note sel = select_parent_Some [OF sp]
  obtain b where b: "get_block g sp = Some b"
    using sel(2) by (auto simp: get_block_def fmlookup_dom'_iff)
  have "fold (colour_candidate self g) (get_anticone g sp) (finsert sp (blue_set b), {||}) = (blue, red)"
    using col b by (simp add: build_blue_set_def)
  note col = fold_colour [OF this]
  have "p \<in> fmdom' (blocks g)" if "p |\<in>| parents (header block)" for p
    using assms(1,2) that by (rule dag_links_parent)
  with sel(3) have "\<forall>p. p |\<in>| parents (header block) \<longrightarrow> score_of g p < score_of g sp
      \<or> score_of g p = score_of g sp \<and> sp \<le> p" by auto
  moreover have "same_graph g g'" "recompute_block self g' h = (g', False)"
    using recompute_block_same_graph [of g self h] recompute_block_idem [OF assms(1), of self h] assms(4)
    by simp_all
  ultimately show ?thesis
    using res sel(1) col b by (intro exI [of _ sp] exI [of _ blue] exI [of _ red])
      (auto simp: get_blue_set_def)
qed

text \<open>C5: \<open>topological_sort\<close> returns on every well-formed graph and every list of nodes, and lists
  exactly the given nodes, once each, with every parent before its children.\<close>

theorem topological_sort_correct:
  assumes "dag_links g"
  shows "\<exists>order. topological_sort g nodes = Some order \<and> topological g (set nodes) order"
  using assms by (rule topological_sort_returns)

text \<open>C9: \<open>process_block\<close> returns on every well-formed graph and keeps it well formed: links and tips
  are untouched, and every selected parent it sets is a parent of its block.\<close>

theorem process_block_keeps_invariants:
  assumes "dag_wf g" and "sp_ok g"
  shows "\<exists>g'. process_block self g h = Some g' \<and> same_graph g g' \<and> dag_wf g' \<and> sp_ok g'"
proof -
  have "dag_links g" using assms(1) by (simp add: dag_wf_def)
  then obtain g' where run: "process_block self g h = Some g'"
    using process_block_returns by blast
  from process_block_same_graph [OF run] process_block_sp_ok [OF assms(2) run] assms(1) run
  show ?thesis by (auto simp: same_graph_wf)
qed

text \<open>on a well-formed graph the virtual selected chain exists, runs from an oldest block down the
  selected parents to the virtual block's selected parent, and every step is a parent link.\<close>

theorem selected_chain_returns:
  assumes "dag_links g" and "sp_ok g"
  shows "\<exists>chain. get_virtual_selected_chain self g = Some chain \<and> steps_down g (rev chain)
    \<and> (case v_selected_parent (build_virtual_block self g) of
         None \<Rightarrow> chain = [] | Some sp \<Rightarrow> chain \<noteq> [] \<and> last chain = sp)"
proof -
  let ?sp = "v_selected_parent (build_virtual_block self g)"
  obtain hs where "walk_chain g (\<lambda>_. False) ?sp [] = Some hs" and "steps_down g hs"
      and "hs = [] \<longleftrightarrow> ?sp = None" and "\<forall>h. hs \<noteq> [] \<and> ?sp = Some h \<longrightarrow> hd hs = h"
    using walk_chain_returns [OF assms, of "\<lambda>_. False" ?sp "[]"] by auto
  then show ?thesis
    by (auto simp: get_virtual_selected_chain_def last_rev split: option.splits)
qed

text \<open>\<open>should_reorganize\<close> never reports a heavier chain: on a graph of at least two blocks it asks
  for a reorganization exactly when two different tips share the greatest blue score, because
  it breaks the tie towards the largest hash and the selected parent towards the smallest.\<close>

theorem should_reorganize_only_on_ties:
  assumes "2 \<le> get_block_count g" and "fset (tips g) \<subseteq> fmdom' (blocks g)"
  shows "should_reorganize self g \<noteq> None \<longleftrightarrow>
    (\<exists>a b. a \<noteq> b \<and> a |\<in>| tips g \<and> b |\<in>| tips g \<and> score_of g a = score_of g b
       \<and> (\<forall>c. c |\<in>| tips g \<longrightarrow> score_of g c \<le> score_of g a))"
proof -
  let ?best = "max_by (\<lambda>(_, s1) (_, s2). s1 \<le> s2) (with_scores g (get_tips g))"
  have ws: "with_scores g (get_tips g) = map (\<lambda>h. (h, score_of g h)) (get_tips g)"
    using assms(2) by (intro with_scores_stored) simp
  show ?thesis
  proof (cases ?best)
    case None
    then have "get_tips g = []" by (simp add: max_by_None_iff ws)
    then have "tips g = {||}" by (metis fset_inverse set_get_tips set_empty bot_fset.rep_eq)
    with None show ?thesis by (simp add: should_reorganize_def)
  next
    case (Some p)
    obtain m s where p: "p = (m, s)" by (cases p)
    have best: "m |\<in>| tips g" "\<forall>h. h |\<in>| tips g \<longrightarrow> score_of g h < score_of g m \<or> score_of g h = score_of g m \<and> h \<le> m"
      using max_by_score [OF sorted_wrt_get_tips, of "score_of g" g m s] Some p by (auto simp: ws)
    then have "select_parent g (get_tips g) \<noteq> None"
      using assms(2) by (auto simp: select_parent_None)
    then obtain sp where sel: "select_parent g (get_tips g) = Some sp" by blast
    have sp: "sp |\<in>| tips g" "\<forall>h. h |\<in>| tips g \<longrightarrow> score_of g h < score_of g sp \<or> score_of g h = score_of g sp \<and> sp \<le> h"
      using select_parent_Some [OF sel] assms(2) by auto
    have eq: "score_of g sp = score_of g m"
      using best sp by (metis less_asym less_irrefl)
    have "should_reorganize self g \<noteq> None \<longleftrightarrow> m \<noteq> sp"
      using Some p virtual_selected_parent [OF assms(1), of self] sel by (simp add: should_reorganize_def)
    also have "\<dots> \<longleftrightarrow> (\<exists>a b. a \<noteq> b \<and> a |\<in>| tips g \<and> b |\<in>| tips g \<and> score_of g a = score_of g b
       \<and> (\<forall>c. c |\<in>| tips g \<longrightarrow> score_of g c \<le> score_of g a))"
      (is "_ \<longleftrightarrow> ?tie")
    proof
      assume "m \<noteq> sp"
      with best sp eq show ?tie by (metis less_imp_le order_refl)
    next
      assume ?tie
      then obtain a b where "a \<noteq> b" "a |\<in>| tips g" "b |\<in>| tips g" "score_of g a = score_of g b"
        "\<forall>c. c |\<in>| tips g \<longrightarrow> score_of g c \<le> score_of g a" by blast
      with best sp eq show "m \<noteq> sp" by (metis antisym leD)
    qed
    finally show ?thesis .
  qed
qed

theorem recompute_block_colours_witness:
  "dag_links fork_dag \<and> (\<exists>sp blue red. get_block (fst (recompute_block (ghostdag_new 1) fork_dag hash_c)) hash_c
      = Some (recoloured sp blue red (score_of fork_dag sp + of_nat (fcard blue)) (bare_block hash_c {|hash_a|}))
    \<and> sp |\<in>| {|hash_a|})"
proof -
  have ps: "parents (header (bare_block hash_c {|hash_a|})) \<noteq> {||}" by (simp add: bare_block_def)
  obtain g' r where run: "recompute_block (ghostdag_new 1) fork_dag hash_c = (g', r)" by force
  from recompute_block_colours [OF fork_dag_links fork_dag_lookup(1) ps run] fork_dag_links run
  show ?thesis by (auto simp: bare_block_def)
qed

theorem topological_sort_correct_witness:
  "dag_links fork_dag \<and> (\<exists>order. topological_sort fork_dag [hash_b, hash_a] = Some order
     \<and> topological fork_dag {hash_a, hash_b} order)"
  using fork_dag_links topological_sort_correct [OF fork_dag_links, of "[hash_b, hash_a]"]
  by (simp add: insert_commute)

theorem process_block_keeps_invariants_witness:
  "dag_wf fork_dag \<and> sp_ok fork_dag
   \<and> (\<exists>g'. process_block (ghostdag_new 3) fork_dag hash_c = Some g' \<and> dag_wf g')"
  using fork_dag_wf fork_dag_sp_ok
    process_block_keeps_invariants [OF fork_dag_wf fork_dag_sp_ok, of "ghostdag_new 3" hash_c] by blast

theorem selected_chain_returns_witness:
  "\<exists>chain. get_virtual_selected_chain (ghostdag_new 3) fork_dag = Some chain"
  using selected_chain_returns [OF fork_dag_links fork_dag_sp_ok, of "ghostdag_new 3"] by blast

theorem should_reorganize_only_on_ties_witness:
  "should_reorganize (ghostdag_new 3) fork_dag \<noteq> None"
proof -
  have "2 \<le> get_block_count fork_dag"
  proof -
    have "fset (fmdom (blocks fork_dag)) = {hash_a, hash_b, hash_c}"
      using fork_dag_dom by (simp add: fmdom'_alt_def)
    then show ?thesis by (simp add: get_block_count_def fcard.rep_eq)
  qed
  moreover have "fset (tips fork_dag) \<subseteq> fmdom' (blocks fork_dag)"
    by (simp add: fork_dag_tips fork_dag_dom)
  moreover have "score_of fork_dag hash_b = 0" "score_of fork_dag hash_c = 0"
    using fork_dag_lookup by (simp_all add: score_of_def get_block_def bare_block_def)
  then have "\<exists>a b. a \<noteq> b \<and> a |\<in>| tips fork_dag \<and> b |\<in>| tips fork_dag
      \<and> score_of fork_dag a = score_of fork_dag b
      \<and> (\<forall>c. c |\<in>| tips fork_dag \<longrightarrow> score_of fork_dag c \<le> score_of fork_dag a)"
    by (intro exI [of _ hash_b] exI [of _ hash_c]) (auto simp: fork_dag_tips)
  ultimately show ?thesis
    by (simp only: should_reorganize_only_on_ties)
qed

end
