(* ===== verification/Storage.thy ===== *)
theory Storage
  imports Interfaces
begin

text \<open>
  The \<open>Storage\<close> trait's in-memory implementation: \<open>core/state/storage.rs\<close>. The trait itself is
  the locale \<open>kv_store\<close>.
\<close>

record memory_storage =
  store_map :: "(bytes, bytes) fmap"

definition memory_storage_new :: memory_storage where
  "memory_storage_new = \<lparr>store_map = fmempty\<rparr>"

definition storage_get :: "memory_storage \<Rightarrow> bytes \<Rightarrow> bytes option" where
  "storage_get self k = fmlookup (store_map self) k"

definition storage_put :: "memory_storage \<Rightarrow> bytes \<Rightarrow> bytes \<Rightarrow> memory_storage" where
  "storage_put self k v = self\<lparr>store_map := fmupd k v (store_map self)\<rparr>"

definition storage_delete :: "memory_storage \<Rightarrow> bytes \<Rightarrow> memory_storage" where
  "storage_delete self k = self\<lparr>store_map := fmdrop k (store_map self)\<rparr>"

definition storage_clear :: "memory_storage \<Rightarrow> memory_storage" where
  "storage_clear self = self\<lparr>store_map := fmempty\<rparr>"

interpretation memory: kv_store storage_get storage_put storage_delete storage_clear
  by unfold_locales
    (auto simp: storage_get_def storage_put_def storage_delete_def storage_clear_def)

end
