(* ===== verification/Verkle.thy ===== *)
theory Verkle
  imports Storage Transactions Emission
begin

text \<open>
  The storage-backed 256-ary Verkle tree: \<open>core/state/v_trie.rs\<close>, on the in-memory storage. The
  polynomial commitment scheme and its curve arithmetic are arguments (the record
  \<open>pc_ops\<close>): committing to a coefficient vector, opening, checking an opening, serializing a
  commitment and reading a scalar from bytes. Nodes are stored under their path; the commitment
  of a node is computed from its subtree and cached.
\<close>

section \<open>The commitment scheme as an argument\<close>

type_synonym scalar = nat

datatype commitment = Commitment "nat \<times> nat"

record opening_proof =
  quotient_commitment :: commitment
  final_commitment :: commitment
  proof_scalars :: "scalar list"
  op_point :: scalar
  op_value :: scalar

record pc_ops =
  pc_commit :: "scalar list \<Rightarrow> string + commitment"
  from_coefficients_vec :: "scalar list \<Rightarrow> scalar list"
  pc_open :: "scalar list \<Rightarrow> scalar \<Rightarrow> scalar \<Rightarrow> (string + opening_proof) option"
  pc_verify :: "commitment \<Rightarrow> opening_proof \<Rightarrow> string + bool"
  serialize_uncompressed :: "commitment \<Rightarrow> string + bytes"
  from_le_bytes_mod_order :: "bytes \<Rightarrow> scalar"
  scalar_zero :: scalar

section \<open>Node storage\<close>

definition VERKLE_RADIX :: nat where
  "VERKLE_RADIX = 256"

definition KEY_SIZE :: nat where
  "KEY_SIZE = 32"

definition TOTAL_SUPPLY_KEY :: bytes where
  "TOTAL_SUPPLY_KEY = replicate 32 0"

text \<open>\<open>CachedNode\<close> holds an optional commitment.\<close>

record verkle_tree =
  storage :: memory_storage
  commitment_cache :: "(bytes, commitment option) fmap"
  empty_subtree_roots :: "bytes list"
  empty_subtree_scalars :: "scalar list"
  root_cache :: "bytes option"
  dirty :: bool
  pruned_keys :: "bytes fset"

definition key_for_path :: "bytes \<Rightarrow> bytes" where
  "key_for_path path = of_nat (length path) # path"

definition serialize_node :: "bytes option \<Rightarrow> bytes" where
  "serialize_node v =
     (case v of
        Some inner \<Rightarrow> 1 # to_be_bytes 4 (of_nat (length inner) :: u32) @ inner
      | None \<Rightarrow> [0])"

definition deserialize_node :: "bytes \<Rightarrow> bytes option option" where
  "deserialize_node encoded =
     (case encoded of
        [] \<Rightarrow> None
      | tag # rest \<Rightarrow>
          (if tag = 0 then Some None
           else if tag = 1 then
             (if length encoded < 5 then None
              else let size' = unat (from_be_bytes (take 4 rest) :: u32) in
                if length encoded \<noteq> 5 + size' then None
                else Some (Some (drop 5 encoded)))
           else None))"

definition node_exists :: "verkle_tree \<Rightarrow> bytes \<Rightarrow> bool" where
  "node_exists self path \<longleftrightarrow> storage_get (storage self) (key_for_path path) \<noteq> None"

definition ensure_node :: "bytes \<Rightarrow> verkle_tree \<Rightarrow> verkle_tree" where
  "ensure_node path self =
     (if storage_get (storage self) (key_for_path path) = None
      then self\<lparr>storage := storage_put (storage self) (key_for_path path) (serialize_node None)\<rparr>
      else self)"

definition get_node_value :: "verkle_tree \<Rightarrow> bytes \<Rightarrow> bytes option" where
  "get_node_value self path =
     (case storage_get (storage self) (key_for_path path) of
        None \<Rightarrow> None
      | Some encoded \<Rightarrow> (case deserialize_node encoded of None \<Rightarrow> None | Some v \<Rightarrow> v))"

definition set_node_value :: "verkle_tree \<Rightarrow> bytes \<Rightarrow> bytes option \<Rightarrow> verkle_tree" where
  "set_node_value self path v =
     self\<lparr>storage := storage_put (storage self) (key_for_path path) (serialize_node v)\<rparr>"

text \<open>The prefixes \<open>&path[..i]\<close> for \<open>i in 0..=path.len()\<close>.\<close>

definition prefixes_of :: "bytes \<Rightarrow> bytes list" where
  "prefixes_of path = map (\<lambda>i. take i path) [0..<Suc (length path)]"

definition invalidate_path_cache :: "verkle_tree \<Rightarrow> bytes \<Rightarrow> verkle_tree" where
  "invalidate_path_cache self path =
     self\<lparr>commitment_cache := fmdrops (prefixes_of path) (commitment_cache self),
          root_cache := None\<rparr>"

section \<open>Updates and lookups\<close>

definition vt_insert :: "verkle_tree \<Rightarrow> bytes \<Rightarrow> bytes \<Rightarrow> verkle_tree" where
  "vt_insert self key v =
     (let path = take KEY_SIZE key;
          t = fold ensure_node (prefixes_of path) (self\<lparr>dirty := True\<rparr>);
          t' = set_node_value t path (Some v)
      in invalidate_path_cache t' path)"

definition vt_get :: "verkle_tree \<Rightarrow> bytes \<Rightarrow> core_error + bytes option" where
  "vt_get self key =
     (if key |\<in>| pruned_keys self then Inl (PrunedData ''Key has been pruned'')
      else Inr (get_node_value self (take KEY_SIZE key)))"

text \<open>\<open>recursive_cleanup_empty_nodes\<close>: \<open>depth\<close> runs down from \<open>path.len() - 1\<close>; the argument
  counts the depths left.\<close>

definition has_live_child :: "verkle_tree \<Rightarrow> bytes \<Rightarrow> bool" where
  "has_live_child self parent_path =
     list_ex (\<lambda>i. node_exists self (parent_path @ [of_nat i])
                \<and> parent_path @ [of_nat i] |\<notin>| pruned_keys self) [0..<VERKLE_RADIX]"

fun recursive_cleanup_empty_nodes :: "verkle_tree \<Rightarrow> bytes \<Rightarrow> nat \<Rightarrow> verkle_tree" where
  "recursive_cleanup_empty_nodes self path 0 = self"
| "recursive_cleanup_empty_nodes self path (Suc depth) =
     (let parent_path = take depth path in
      if \<not> has_live_child self parent_path \<and> 0 < depth
      then recursive_cleanup_empty_nodes
             (invalidate_path_cache
                (self\<lparr>storage := storage_delete (storage self) (key_for_path parent_path),
                      pruned_keys := finsert parent_path (pruned_keys self)\<rparr>) parent_path)
             path depth
      else self)"

definition prune_key :: "verkle_tree \<Rightarrow> bytes \<Rightarrow> verkle_tree \<times> (core_error + unit)" where
  "prune_key self key =
     (let t = self\<lparr>dirty := True\<rparr>; path = take KEY_SIZE key in
      if storage_get (storage t) (key_for_path path) = None
      then (t, Inl (PrunedData ''Key does not exist or already absent''))
      else
        let t1 = t\<lparr>storage := storage_delete (storage t) (key_for_path path),
                   pruned_keys := finsert path (pruned_keys t)\<rparr>;
            t2 = invalidate_path_cache t1 path
        in (recursive_cleanup_empty_nodes t2 path (length path), Inr ()))"

definition burns :: "bytes \<Rightarrow> bool" where
  "burns v = (case deserialize_output v of
       Inl _ \<Rightarrow> False
     | Inr out \<Rightarrow> as_bytes (pubkey_hash out) = BURN_ADDRESS)"

definition apply_state_transition ::
    "verkle_tree \<Rightarrow> (bytes \<times> bytes) list \<Rightarrow> u128 \<Rightarrow> verkle_tree \<times> (core_error + unit)" where
  "apply_state_transition self updates new_total_supply =
     (let t = self\<lparr>dirty := True\<rparr> in
      if list_ex (\<lambda>(k, v). burns v) updates
      then (t, Inl (InvalidState
             ''State transition blocked: attempt to send to burn address in key {:?}''))
      else
        let t1 = fold (\<lambda>(k, v) t. vt_insert t k v) updates t;
            t2 = vt_insert t1 TOTAL_SUPPLY_KEY (to_le_bytes 16 new_total_supply)
        in if MAX_GLOBAL_SUPPLY_NANO_SLUG < new_total_supply
           then (t2, Inl (InvalidState ''Total supply {} exceeds maximum allowed {}''))
           else (t2, Inr ()))"

section \<open>Commitments and the root\<close>

definition commitment_root_hash :: "externals \<Rightarrow> pc_ops \<Rightarrow> commitment \<Rightarrow> core_error + bytes" where
  "commitment_root_hash ext pc c =
     (case serialize_uncompressed pc c of
        Inl _ \<Rightarrow> Inl (SerializationError ''Failed to serialize commitment: {}'')
      | Inr bs \<Rightarrow> Inr (blake3 ext bs))"

definition value_to_scalar :: "externals \<Rightarrow> pc_ops \<Rightarrow> bytes \<Rightarrow> scalar" where
  "value_to_scalar ext pc v = from_le_bytes_mod_order pc (blake3 ext v)"

text \<open>\<open>pc.commit(&DensePolynomial::from_coefficients_vec(coeffs))\<close> with its error mapped.\<close>

definition commit_coeffs :: "pc_ops \<Rightarrow> string \<Rightarrow> scalar list \<Rightarrow> core_error + commitment" where
  "commit_coeffs pc msg coeffs =
     map_err (\<lambda>_. PolynomialCommitmentError msg) (pc_commit pc (from_coefficients_vec pc coeffs))"

text \<open>The tables of empty subtrees, built from the deepest level up; entry \<open>0\<close> of
  \<open>empty_levels n\<close> is level \<open>KEY_SIZE - n\<close>.\<close>

fun empty_levels :: "externals \<Rightarrow> pc_ops \<Rightarrow> nat \<Rightarrow> core_error + (bytes \<times> scalar) list" where
  "empty_levels ext pc 0 =
     bind_res (commit_coeffs pc ''Failed to commit empty polynomial: {}'' []) (\<lambda>c.
     bind_res (commitment_root_hash ext pc c) (\<lambda>root.
       Inr [(root, from_le_bytes_mod_order pc root)]))"
| "empty_levels ext pc (Suc n) =
     bind_res (empty_levels ext pc n) (\<lambda>levels.
     bind_res (commit_coeffs pc ''Failed to commit subtree polynomial: {}''
                 (replicate VERKLE_RADIX (snd (hd levels)))) (\<lambda>c.
     bind_res (commitment_root_hash ext pc c) (\<lambda>root.
       Inr ((root, from_le_bytes_mod_order pc root) # levels))))"

definition compute_empty_subtree_constants ::
    "externals \<Rightarrow> pc_ops \<Rightarrow> core_error + (bytes list \<times> scalar list)" where
  "compute_empty_subtree_constants ext pc =
     bind_res (empty_levels ext pc KEY_SIZE) (\<lambda>levels. Inr (map fst levels, map snd levels))"

definition vt_new :: "externals \<Rightarrow> pc_ops \<Rightarrow> memory_storage \<Rightarrow> core_error + verkle_tree" where
  "vt_new ext pc st =
     bind_res (compute_empty_subtree_constants ext pc) (\<lambda>(roots, scalars).
       Inr (ensure_node []
         \<lparr>storage = st, commitment_cache = fmempty, empty_subtree_roots = roots,
          empty_subtree_scalars = scalars, root_cache = None, dirty = True,
          pruned_keys = {||}\<rparr>))"

text \<open>\<open>compute_node_commitment\<close> with \<open>n = KEY_SIZE - depth\<close> levels below the node;
  \<open>child_scalar\<close> is one step of its loop over the children. Both return the tree with the
  cache entries they added.\<close>

definition child_scalar ::
    "externals \<Rightarrow> pc_ops \<Rightarrow> (verkle_tree \<Rightarrow> bytes \<Rightarrow> verkle_tree \<times> (core_error + commitment))
      \<Rightarrow> bytes \<Rightarrow> nat \<Rightarrow> nat \<Rightarrow> verkle_tree \<Rightarrow> verkle_tree \<times> scalar" where
  "child_scalar ext pc compute path depth i self =
     (let child_path = path @ [of_nat i] in
      if node_exists self child_path
      then case compute self child_path of
        (self', r) \<Rightarrow>
          (let child_root = (case bind_res r (commitment_root_hash ext pc) of
                 Inl _ \<Rightarrow> empty_subtree_roots self' ! (depth + 1)
               | Inr root \<Rightarrow> root)
           in (self', from_le_bytes_mod_order pc child_root))
      else (self, empty_subtree_scalars self ! (depth + 1)))"

fun child_scalars ::
    "externals \<Rightarrow> pc_ops \<Rightarrow> (verkle_tree \<Rightarrow> bytes \<Rightarrow> verkle_tree \<times> (core_error + commitment))
      \<Rightarrow> bytes \<Rightarrow> nat \<Rightarrow> verkle_tree \<Rightarrow> nat list \<Rightarrow> verkle_tree \<times> scalar list" where
  "child_scalars ext pc compute path depth self [] = (self, [])"
| "child_scalars ext pc compute path depth self (i # is) =
     (case child_scalar ext pc compute path depth i self of
        (self', s) \<Rightarrow>
          (case child_scalars ext pc compute path depth self' is of
             (self'', ss) \<Rightarrow> (self'', s # ss)))"

definition cache_hit :: "verkle_tree \<Rightarrow> bytes \<Rightarrow> commitment option" where
  "cache_hit self path =
     (case fmlookup (commitment_cache self) path of None \<Rightarrow> None | Some c \<Rightarrow> c)"

definition leaf_scalar :: "externals \<Rightarrow> pc_ops \<Rightarrow> bytes option \<Rightarrow> scalar" where
  "leaf_scalar ext pc v =
     (case v of Some x \<Rightarrow> value_to_scalar ext pc x | None \<Rightarrow> scalar_zero pc)"

definition cache_insert ::
    "bytes \<Rightarrow> verkle_tree \<times> (core_error + commitment) \<Rightarrow> verkle_tree \<times> (core_error + commitment)" where
  "cache_insert path r =
     (case r of
        (self, Inl e) \<Rightarrow> (self, Inl e)
      | (self, Inr c) \<Rightarrow>
          (self\<lparr>commitment_cache := fmupd path (Some c) (commitment_cache self)\<rparr>, Inr c))"

primrec compute_node_commitment ::
    "externals \<Rightarrow> pc_ops \<Rightarrow> nat \<Rightarrow> verkle_tree \<Rightarrow> bytes \<Rightarrow> verkle_tree \<times> (core_error + commitment)" where
  "compute_node_commitment ext pc 0 self path =
     (case cache_hit self path of
        Some c \<Rightarrow> (self, Inr c)
      | None \<Rightarrow> cache_insert path
          (self, commit_coeffs pc ''Failed to commit leaf: {}''
             [leaf_scalar ext pc (get_node_value self path)]))"
| "compute_node_commitment ext pc (Suc n) self path =
     (case cache_hit self path of
        Some c \<Rightarrow> (self, Inr c)
      | None \<Rightarrow>
          (case child_scalars ext pc (compute_node_commitment ext pc n) path
                  (KEY_SIZE - Suc n) self [0..<VERKLE_RADIX] of
             (self', coeffs) \<Rightarrow>
               cache_insert path
                 (self', commit_coeffs pc ''Failed to commit node polynomial: {}'' coeffs)))"

definition compute_node_root_hash ::
    "externals \<Rightarrow> pc_ops \<Rightarrow> verkle_tree \<Rightarrow> bytes \<Rightarrow> nat \<Rightarrow> verkle_tree \<times> (core_error + bytes)" where
  "compute_node_root_hash ext pc self path depth =
     (case compute_node_commitment ext pc (KEY_SIZE - depth) self path of
        (self', r) \<Rightarrow> (self', bind_res r (commitment_root_hash ext pc)))"

definition get_root :: "externals \<Rightarrow> pc_ops \<Rightarrow> verkle_tree \<Rightarrow> verkle_tree \<times> (core_error + bytes)" where
  "get_root ext pc self =
     (case (dirty self, root_cache self) of
        (False, Some cached_root) \<Rightarrow> (self, Inr cached_root)
      | _ \<Rightarrow>
          (case compute_node_root_hash ext pc self [] 0 of
             (self', Inl e) \<Rightarrow> (self', Inl e)
           | (self', Inr root) \<Rightarrow>
               (self'\<lparr>root_cache := Some root, dirty := False\<rparr>, Inr root)))"

text \<open>\<open>Clone\<close>: a fresh tree on the same storage that keeps the pruned keys and the tables and
  drops the caches; \<open>expect\<close> panics (\<open>None\<close>) when the tables cannot be built.\<close>

definition vt_clone :: "externals \<Rightarrow> pc_ops \<Rightarrow> verkle_tree \<Rightarrow> verkle_tree option" where
  "vt_clone ext pc self =
     (case vt_new ext pc (storage self) of
        Inl _ \<Rightarrow> None
      | Inr cloned \<Rightarrow> Some (cloned\<lparr>pruned_keys := pruned_keys self,
          empty_subtree_roots := empty_subtree_roots self,
          empty_subtree_scalars := empty_subtree_scalars self,
          commitment_cache := fmempty, root_cache := None, dirty := True\<rparr>))"

section \<open>Specification: commitments without a cache\<close>

text \<open>The stored bytes at a path, and the commitment of a node as a function of the stored
  nodes alone.\<close>

definition node_at :: "verkle_tree \<Rightarrow> bytes \<Rightarrow> bytes option" where
  "node_at self path = storage_get (storage self) (key_for_path path)"

definition root_or_empty :: "externals \<Rightarrow> pc_ops \<Rightarrow> verkle_tree \<Rightarrow> nat \<Rightarrow> core_error + commitment \<Rightarrow> bytes" where
  "root_or_empty ext pc self depth r =
     (case bind_res r (commitment_root_hash ext pc) of
        Inl _ \<Rightarrow> empty_subtree_roots self ! depth
      | Inr root \<Rightarrow> root)"

primrec node_commitment ::
    "externals \<Rightarrow> pc_ops \<Rightarrow> verkle_tree \<Rightarrow> nat \<Rightarrow> bytes \<Rightarrow> core_error + commitment" where
  "node_commitment ext pc self 0 path =
     commit_coeffs pc ''Failed to commit leaf: {}'' [leaf_scalar ext pc (get_node_value self path)]"
| "node_commitment ext pc self (Suc n) path =
     commit_coeffs pc ''Failed to commit node polynomial: {}''
       (map (\<lambda>i. if node_exists self (path @ [of_nat i])
              then from_le_bytes_mod_order pc (root_or_empty ext pc self (KEY_SIZE - n)
                     (node_commitment ext pc self n (path @ [of_nat i])))
              else empty_subtree_scalars self ! (KEY_SIZE - n)) [0..<VERKLE_RADIX])"

definition root_of :: "externals \<Rightarrow> pc_ops \<Rightarrow> verkle_tree \<Rightarrow> core_error + bytes" where
  "root_of ext pc self =
     bind_res (node_commitment ext pc self KEY_SIZE []) (commitment_root_hash ext pc)"

text \<open>The invariant: every cached commitment is the one the stored nodes give, and a root cache
  that will be used is the root.\<close>

definition cache_ok :: "externals \<Rightarrow> pc_ops \<Rightarrow> verkle_tree \<Rightarrow> bool" where
  "cache_ok ext pc self \<longleftrightarrow>
     (\<forall>p c. cache_hit self p = Some c \<longrightarrow>
        length p \<le> KEY_SIZE \<and> node_commitment ext pc self (KEY_SIZE - length p) p = Inr c)"

definition vt_ok :: "externals \<Rightarrow> pc_ops \<Rightarrow> verkle_tree \<Rightarrow> bool" where
  "vt_ok ext pc self \<longleftrightarrow> cache_ok ext pc self
     \<and> (\<forall>root. \<not> dirty self \<and> root_cache self = Some root \<longrightarrow> root_of ext pc self = Inr root)"

text \<open>The operations a tree goes through.\<close>

inductive vt_step :: "externals \<Rightarrow> pc_ops \<Rightarrow> verkle_tree \<Rightarrow> verkle_tree \<Rightarrow> bool" for ext pc where
  insert: "length key = KEY_SIZE \<Longrightarrow> vt_step ext pc t (vt_insert t key v)"
| prune: "length key = KEY_SIZE \<Longrightarrow> vt_step ext pc t (fst (prune_key t key))"
| transition: "\<forall>kv\<in>set updates. length (fst kv) = KEY_SIZE \<Longrightarrow>
    vt_step ext pc t (fst (apply_state_transition t updates supply))"
| root: "vt_step ext pc t (fst (get_root ext pc t))"

text \<open>A toy commitment scheme on which the definitions can be evaluated.\<close>

definition demo_pc :: pc_ops where
  "demo_pc = \<lparr>pc_commit = (\<lambda>cs. Inr (Commitment (sum_list cs, length cs))),
     from_coefficients_vec = (\<lambda>cs. cs),
     pc_open = (\<lambda>cs z y. Some (Inl ''unused'')), pc_verify = (\<lambda>c p. Inr True),
     serialize_uncompressed = (\<lambda>c. Inr []),
     from_le_bytes_mod_order = (\<lambda>bs. 0), scalar_zero = 0\<rparr>"

definition demo_hash_ext :: externals where
  "demo_hash_ext = \<lparr>blake3 = (\<lambda>data. take 32 (data @ replicate 32 0)),
     vk_from_bytes = (\<lambda>bs. None), sig_try_from = (\<lambda>bs. None), vk_verify = (\<lambda>key msg sig'. False)\<rparr>"

definition demo_tree :: verkle_tree where
  "demo_tree = \<lparr>storage = memory_storage_new, commitment_cache = fmempty,
     empty_subtree_roots = replicate 33 [], empty_subtree_scalars = replicate 33 0,
     root_cache = None, dirty = True, pruned_keys = {||}\<rparr>"

section \<open>Node encoding and addressing\<close>

lemma key_for_path_inject [simp]: "key_for_path p = key_for_path q \<longleftrightarrow> p = q"
  by (auto simp: key_for_path_def)

lemma deserialize_serialize_node:
  assumes "\<forall>x. v = Some x \<longrightarrow> length x < 2 ^ 32"
  shows "deserialize_node (serialize_node v) = Some v"
proof (cases v)
  case None
  then show ?thesis by (simp add: serialize_node_def deserialize_node_def)
next
  case (Some x)
  with assms have "unat (of_nat (length x) :: u32) = length x"
    by (simp add: unat_of_nat_small)
  with Some show ?thesis
    by (simp add: serialize_node_def deserialize_node_def Let_def)
qed

lemma node_exists_iff: "node_exists self path \<longleftrightarrow> node_at self path \<noteq> None"
  by (simp add: node_exists_def node_at_def)

lemma get_node_value_alt:
  "get_node_value self path =
     (case node_at self path of None \<Rightarrow> None
      | Some e \<Rightarrow> (case deserialize_node e of None \<Rightarrow> None | Some v \<Rightarrow> v))"
  by (simp add: get_node_value_def node_at_def)

lemma node_at_ensure:
  "node_at (ensure_node p t) q =
     (if q = p \<and> node_at t q = None then Some (serialize_node None) else node_at t q)"
  by (auto simp: node_at_def ensure_node_def memory.get_put)

lemma ensure_node_fields [simp]:
  "commitment_cache (ensure_node p t) = commitment_cache t"
  "empty_subtree_roots (ensure_node p t) = empty_subtree_roots t"
  "empty_subtree_scalars (ensure_node p t) = empty_subtree_scalars t"
  "root_cache (ensure_node p t) = root_cache t"
  "dirty (ensure_node p t) = dirty t"
  "pruned_keys (ensure_node p t) = pruned_keys t"
  by (simp_all add: ensure_node_def)

lemma fold_ensure_fields [simp]:
  "commitment_cache (fold ensure_node ps t) = commitment_cache t"
  "empty_subtree_roots (fold ensure_node ps t) = empty_subtree_roots t"
  "empty_subtree_scalars (fold ensure_node ps t) = empty_subtree_scalars t"
  "root_cache (fold ensure_node ps t) = root_cache t"
  "dirty (fold ensure_node ps t) = dirty t"
  "pruned_keys (fold ensure_node ps t) = pruned_keys t"
  by (induction ps arbitrary: t) simp_all

lemma node_at_fold_ensure:
  "node_at (fold ensure_node ps t) q =
     (if q \<in> set ps \<and> node_at t q = None then Some (serialize_node None) else node_at t q)"
  by (induction ps arbitrary: t) (auto simp: node_at_ensure)

lemma set_prefixes_of: "q \<in> set (prefixes_of p) \<longleftrightarrow> (\<exists>r. p = q @ r)"
proof
  assume "q \<in> set (prefixes_of p)"
  then show "\<exists>r. p = q @ r"
    unfolding prefixes_of_def by (auto intro: append_take_drop_id [symmetric])
next
  assume "\<exists>r. p = q @ r"
  then have "q = take (length q) p" "length q < Suc (length p)" by auto
  then show "q \<in> set (prefixes_of p)"
    unfolding prefixes_of_def by (metis atLeast_upt image_eqI lessThan_iff list.set_map)
qed

lemma node_at_simps [simp]:
  "node_at (t\<lparr>dirty := b\<rparr>) q = node_at t q"
  "node_at (t\<lparr>root_cache := r\<rparr>) q = node_at t q"
  "node_at (t\<lparr>commitment_cache := c\<rparr>) q = node_at t q"
  "node_at (t\<lparr>pruned_keys := ks\<rparr>) q = node_at t q"
  "node_at (invalidate_path_cache t p) q = node_at t q"
  by (simp_all add: node_at_def invalidate_path_cache_def)

lemma node_at_set: "node_at (set_node_value t p v) q = (if q = p then Some (serialize_node v) else node_at t q)"
  by (auto simp: node_at_def set_node_value_def memory.get_put)

lemma set_node_value_fields [simp]:
  "commitment_cache (set_node_value t p v) = commitment_cache t"
  "empty_subtree_roots (set_node_value t p v) = empty_subtree_roots t"
  "empty_subtree_scalars (set_node_value t p v) = empty_subtree_scalars t"
  "dirty (set_node_value t p v) = dirty t"
  "pruned_keys (set_node_value t p v) = pruned_keys t"
  by (simp_all add: set_node_value_def)

lemma invalidate_fields [simp]:
  "empty_subtree_roots (invalidate_path_cache t p) = empty_subtree_roots t"
  "empty_subtree_scalars (invalidate_path_cache t p) = empty_subtree_scalars t"
  "dirty (invalidate_path_cache t p) = dirty t"
  "pruned_keys (invalidate_path_cache t p) = pruned_keys t"
  "root_cache (invalidate_path_cache t p) = None"
  by (simp_all add: invalidate_path_cache_def)

lemma cache_hit_simps [simp]:
  "cache_hit (t\<lparr>dirty := b\<rparr>) q = cache_hit t q"
  "cache_hit (t\<lparr>root_cache := r\<rparr>) q = cache_hit t q"
  "cache_hit (t\<lparr>storage := st\<rparr>) q = cache_hit t q"
  "cache_hit (t\<lparr>pruned_keys := ks\<rparr>) q = cache_hit t q"
  by (simp_all add: cache_hit_def)

lemma cache_hit_invalidate:
  "cache_hit (invalidate_path_cache t p) q = (if q \<in> set (prefixes_of p) then None else cache_hit t q)"
  by (simp add: cache_hit_def invalidate_path_cache_def)

text \<open>What an insertion leaves at each path.\<close>

lemma node_at_vt_insert:
  assumes "length key = KEY_SIZE"
  shows "node_at (vt_insert t key v) q =
    (if q = key then Some (serialize_node (Some v))
     else if q \<in> set (prefixes_of key) \<and> node_at t q = None then Some (serialize_node None)
     else node_at t q)"
  using assms by (auto simp: vt_insert_def Let_def node_at_set node_at_fold_ensure)

lemma vt_insert_fields [simp]:
  "pruned_keys (vt_insert t key v) = pruned_keys t"
  "empty_subtree_roots (vt_insert t key v) = empty_subtree_roots t"
  "empty_subtree_scalars (vt_insert t key v) = empty_subtree_scalars t"
  "dirty (vt_insert t key v)"
  "root_cache (vt_insert t key v) = None"
  by (simp_all add: vt_insert_def Let_def)

lemma cache_hit_vt_insert:
  assumes "length key = KEY_SIZE"
  shows "cache_hit (vt_insert t key v) q =
    (if q \<in> set (prefixes_of key) then None else cache_hit t q)"
  using assms by (simp add: vt_insert_def Let_def cache_hit_invalidate) (simp add: cache_hit_def)

lemma get_node_value_vt_insert:
  assumes "length key = KEY_SIZE" and "length v < 2 ^ 32"
  shows "get_node_value (vt_insert t key v) q = (if q = key then Some v else get_node_value t q)"
proof -
  have "deserialize_node (serialize_node (Some v)) = Some (Some v)"
    by (rule deserialize_serialize_node) (use assms(2) in simp)
  moreover have "deserialize_node (serialize_node None) = Some None"
    by (rule deserialize_serialize_node) simp
  ultimately show ?thesis
    by (auto simp: get_node_value_alt node_at_vt_insert [OF assms(1)])
qed

lemma vt_get_vt_insert:
  assumes "length key = KEY_SIZE" and "length key' = KEY_SIZE" and "length v < 2 ^ 32"
  shows "vt_get (vt_insert t key v) key' =
    (if key' |\<in>| pruned_keys t then Inl (PrunedData ''Key has been pruned'')
     else if key' = key then Inr (Some v) else vt_get t key')"
  using assms by (simp add: vt_get_def get_node_value_vt_insert)

section \<open>Pruning\<close>

lemma cleanup_node_at:
  "node_at (recursive_cleanup_empty_nodes t path n) q \<noteq> node_at t q \<Longrightarrow>
   \<exists>d. 0 < d \<and> d < n \<and> q = take d path"
proof (induction t path n rule: recursive_cleanup_empty_nodes.induct)
  case (1 t path)
  then show ?case by simp
next
  case (2 t path d)
  let ?t = "invalidate_path_cache
      (t\<lparr>storage := storage_delete (storage t) (key_for_path (take d path)),
         pruned_keys := finsert (take d path) (pruned_keys t)\<rparr>) (take d path)"
  show ?case
  proof (cases "\<not> has_live_child t (take d path) \<and> 0 < d")
    case False
    with 2(2) show ?thesis by (auto simp: Let_def split: if_splits)
  next
    case True
    have "node_at ?t q = (if q = take d path then None else node_at t q)"
      by (simp add: node_at_def memory.get_delete invalidate_path_cache_def)
    then consider "q = take d path" | "node_at (recursive_cleanup_empty_nodes ?t path d) q \<noteq> node_at ?t q"
      using 2(2) True by (auto simp: Let_def split: if_splits)
    then show ?thesis
    proof cases
      case 1
      with True show ?thesis by blast
    next
      case 2
      then show ?thesis using "2.IH" [OF refl True] by (meson less_Suc_eq)
    qed
  qed
qed

lemma cleanup_fields [simp]:
  "empty_subtree_roots (recursive_cleanup_empty_nodes t path n) = empty_subtree_roots t"
  "empty_subtree_scalars (recursive_cleanup_empty_nodes t path n) = empty_subtree_scalars t"
  "dirty (recursive_cleanup_empty_nodes t path n) = dirty t"
  by (induction t path n rule: recursive_cleanup_empty_nodes.induct) (auto simp: Let_def)

lemma cleanup_pruned:
  "q |\<in>| pruned_keys (recursive_cleanup_empty_nodes t path n) \<Longrightarrow>
   q |\<in>| pruned_keys t \<or> (\<exists>d<n. q = take d path)"
  "q |\<in>| pruned_keys t \<Longrightarrow> q |\<in>| pruned_keys (recursive_cleanup_empty_nodes t path n)"
  by (induction t path n rule: recursive_cleanup_empty_nodes.induct)
    (auto simp: Let_def less_Suc_eq split: if_splits)

lemma cleanup_cache_hit:
  "cache_hit (recursive_cleanup_empty_nodes t path n) q = Some c \<Longrightarrow> cache_hit t q = Some c"
  by (induction t path n rule: recursive_cleanup_empty_nodes.induct)
    (auto simp: Let_def cache_hit_invalidate split: if_splits)

text \<open>The tree after a successful \<open>prune_key\<close>, before the cleanup of its ancestors.\<close>

definition pruned_leaf :: "verkle_tree \<Rightarrow> bytes \<Rightarrow> verkle_tree" where
  "pruned_leaf t key = invalidate_path_cache
     (t\<lparr>dirty := True, storage := storage_delete (storage t) (key_for_path key),
        pruned_keys := finsert key (pruned_keys t)\<rparr>) key"

lemma prune_key_eq:
  assumes "length key = KEY_SIZE"
  shows "prune_key t key =
    (if node_at t key = None
     then (t\<lparr>dirty := True\<rparr>, Inl (PrunedData ''Key does not exist or already absent''))
     else (recursive_cleanup_empty_nodes (pruned_leaf t key) key KEY_SIZE, Inr ()))"
  using assms by (simp add: prune_key_def pruned_leaf_def Let_def node_at_def)

lemma node_at_pruned_leaf:
  "node_at (pruned_leaf t key) q = (if q = key then None else node_at t q)"
  by (simp add: pruned_leaf_def node_at_def invalidate_path_cache_def memory.get_delete)

lemma pruned_leaf_fields [simp]:
  "empty_subtree_roots (pruned_leaf t key) = empty_subtree_roots t"
  "empty_subtree_scalars (pruned_leaf t key) = empty_subtree_scalars t"
  "dirty (pruned_leaf t key)"
  "pruned_keys (pruned_leaf t key) = finsert key (pruned_keys t)"
  by (simp_all add: pruned_leaf_def)

lemma vt_get_prune_key:
  assumes "length key = KEY_SIZE" and "length key' = KEY_SIZE" and "prune_key t key = (t', Inr ())"
  shows "vt_get t' key' =
    (if key' = key then Inl (PrunedData ''Key has been pruned'') else vt_get t key')"
proof -
  have t': "t' = recursive_cleanup_empty_nodes (pruned_leaf t key) key KEY_SIZE"
    using assms by (auto simp: prune_key_eq split: if_splits)
  have "\<not> (\<exists>d<KEY_SIZE. key' = take d key)"
    using assms(2) by auto
  then have pr: "key' |\<in>| pruned_keys t' \<longleftrightarrow> key' = key \<or> key' |\<in>| pruned_keys t"
    unfolding t' using cleanup_pruned [of key' "pruned_leaf t key" key KEY_SIZE] by auto
  have "node_at t' key' = node_at (pruned_leaf t key) key'"
    unfolding t' using cleanup_node_at assms(2) by fastforce
  then show ?thesis
    using pr assms(2) by (auto simp: vt_get_def get_node_value_alt node_at_pruned_leaf)
qed

section \<open>The cache is coherent\<close>

lemma root_or_empty_cong:
  "empty_subtree_roots t' = empty_subtree_roots t \<Longrightarrow>
   root_or_empty ext pc t' d r = root_or_empty ext pc t d r"
  by (cases "bind_res r (commitment_root_hash ext pc)") (simp_all only: root_or_empty_def sum.case)

lemma node_commitment_cong:
  assumes "empty_subtree_roots t' = empty_subtree_roots t"
    and "empty_subtree_scalars t' = empty_subtree_scalars t"
    and "\<And>r. node_at t' (path @ r) = node_at t (path @ r)"
  shows "node_commitment ext pc t' n path = node_commitment ext pc t n path"
  using assms(3)
proof (induction n arbitrary: path)
  case 0
  from 0 [of "[]"] show ?case by (simp add: get_node_value_alt)
next
  case (Suc n)
  have "node_commitment ext pc t' n (path @ [of_nat i]) = node_commitment ext pc t n (path @ [of_nat i])" for i
    using Suc.prems by (intro Suc.IH) simp
  moreover have "node_exists t' (path @ [of_nat i]) = node_exists t (path @ [of_nat i])" for i
    using Suc.prems by (simp add: node_exists_iff)
  ultimately show ?case
    using assms(2) by (simp add: root_or_empty_cong [OF assms(1)] cong: if_cong)
qed

lemma prefix_extension: "p @ r \<in> set (prefixes_of q) \<Longrightarrow> p \<in> set (prefixes_of q)"
  by (auto simp: set_prefixes_of)

text \<open>A change confined to the prefixes of a path keeps the cache coherent when their cache
  entries are dropped.\<close>

lemma cache_ok_update:
  assumes ok: "cache_ok ext pc t"
    and "empty_subtree_roots t' = empty_subtree_roots t"
    and "empty_subtree_scalars t' = empty_subtree_scalars t"
    and same: "\<And>q. q \<notin> set (prefixes_of path) \<Longrightarrow> node_at t' q = node_at t q"
    and hits: "\<And>q c. cache_hit t' q = Some c \<Longrightarrow> q \<notin> set (prefixes_of path) \<and> cache_hit t q = Some c"
  shows "cache_ok ext pc t'"
  unfolding cache_ok_def
proof (intro allI impI)
  fix p c
  assume "cache_hit t' p = Some c"
  then have p: "p \<notin> set (prefixes_of path)" and hit: "cache_hit t p = Some c"
    using hits by blast+
  have "node_at t' (p @ r) = node_at t (p @ r)" for r
    using p by (intro same) (auto dest: prefix_extension)
  then have "node_commitment ext pc t' n p = node_commitment ext pc t n p" for n
    by (rule node_commitment_cong [OF assms(2,3)])
  with ok hit show "length p \<le> KEY_SIZE \<and> node_commitment ext pc t' (KEY_SIZE - length p) p = Inr c"
    by (simp add: cache_ok_def)
qed

lemma vt_ok_vt_insert:
  assumes "vt_ok ext pc t" and "length key = KEY_SIZE"
  shows "vt_ok ext pc (vt_insert t key v)"
proof -
  have self: "key \<in> set (prefixes_of key)" by (simp add: set_prefixes_of)
  have "cache_ok ext pc (vt_insert t key v)"
  proof (rule cache_ok_update [where t = t and path = key])
    show "cache_ok ext pc t" using assms(1) by (simp add: vt_ok_def)
  qed (use self in \<open>auto simp: node_at_vt_insert [OF assms(2)] cache_hit_vt_insert [OF assms(2)]
      split: if_splits\<close>)
  then show ?thesis by (simp add: vt_ok_def)
qed

lemma take_in_prefixes: "take d p \<in> set (prefixes_of p)"
  unfolding set_prefixes_of by (rule exI [of _ "drop d p"]) simp

lemma vt_ok_prune_key:
  assumes "vt_ok ext pc t" and "length key = KEY_SIZE"
  shows "vt_ok ext pc (fst (prune_key t key))"
proof (cases "node_at t key = None")
  case True
  have "cache_ok ext pc (t\<lparr>dirty := True\<rparr>)"
  proof -
    have "node_commitment ext pc (t\<lparr>dirty := True\<rparr>) n p = node_commitment ext pc t n p" for n p
      by (rule node_commitment_cong) simp_all
    with assms(1) show ?thesis by (simp add: vt_ok_def cache_ok_def)
  qed
  with True assms(2) show ?thesis by (simp add: prune_key_eq vt_ok_def)
next
  case False
  let ?t = "recursive_cleanup_empty_nodes (pruned_leaf t key) key KEY_SIZE"
  have "cache_ok ext pc ?t"
  proof (rule cache_ok_update [where t = t and path = key])
    show "cache_ok ext pc t" using assms(1) by (simp add: vt_ok_def)
    show "node_at ?t q = node_at t q" if "q \<notin> set (prefixes_of key)" for q
    proof -
      have "q \<noteq> key" and "\<nexists>d. q = take d key"
        using that take_in_prefixes take_in_prefixes [of "length key" key] by auto
      then show ?thesis
        using cleanup_node_at [of "pruned_leaf t key" key KEY_SIZE q]
        by (auto simp: node_at_pruned_leaf)
    qed
    show "q \<notin> set (prefixes_of key) \<and> cache_hit t q = Some c" if "cache_hit ?t q = Some c" for q c
      using cleanup_cache_hit [OF that]
      by (auto simp: pruned_leaf_def cache_hit_invalidate split: if_splits)
  qed simp_all
  with False assms(2) show ?thesis by (auto simp: prune_key_eq vt_ok_def)
qed

text \<open>Adding a correct entry keeps the cache coherent and changes nothing else.\<close>

definition same_but_cache :: "verkle_tree \<Rightarrow> verkle_tree \<Rightarrow> bool" where
  "same_but_cache t t' \<longleftrightarrow> t' = t\<lparr>commitment_cache := commitment_cache t'\<rparr>"

lemma same_but_cache_refl [simp]: "same_but_cache t t"
  by (simp add: same_but_cache_def)

lemma same_but_cache_trans:
  "same_but_cache t t' \<Longrightarrow> same_but_cache t' t'' \<Longrightarrow> same_but_cache t t''"
  unfolding same_but_cache_def by (metis verkle_tree.surjective verkle_tree.update_convs(2))

lemma same_but_cacheD:
  assumes "same_but_cache t t'"
  shows "storage t' = storage t" "empty_subtree_roots t' = empty_subtree_roots t"
    "empty_subtree_scalars t' = empty_subtree_scalars t" "root_cache t' = root_cache t"
    "dirty t' = dirty t" "pruned_keys t' = pruned_keys t"
    "node_at t' q = node_at t q" "get_node_value t' q = get_node_value t q"
    "node_exists t' q = node_exists t q"
    "node_commitment ext pc t' n p = node_commitment ext pc t n p"
    "root_or_empty ext pc t' d r = root_or_empty ext pc t d r"
proof -
  define c where "c = commitment_cache t'"
  have t': "t' = t\<lparr>commitment_cache := c\<rparr>"
    using assms unfolding same_but_cache_def c_def .
  show "storage t' = storage t" "empty_subtree_roots t' = empty_subtree_roots t"
    "empty_subtree_scalars t' = empty_subtree_scalars t" "root_cache t' = root_cache t"
    "dirty t' = dirty t" "pruned_keys t' = pruned_keys t" "node_at t' q = node_at t q"
    "get_node_value t' q = get_node_value t q" "node_exists t' q = node_exists t q"
    by (simp_all add: t' get_node_value_alt node_exists_iff)
  show "root_or_empty ext pc t' d r = root_or_empty ext pc t d r"
    by (rule root_or_empty_cong) (simp add: t')
  show "node_commitment ext pc t' n p = node_commitment ext pc t n p"
    by (rule node_commitment_cong) (simp_all add: t')
qed

text \<open>What a correct commitment routine for \<open>n\<close> levels does.\<close>

definition computes ::
    "externals \<Rightarrow> pc_ops \<Rightarrow> nat \<Rightarrow> (verkle_tree \<Rightarrow> bytes \<Rightarrow> verkle_tree \<times> (core_error + commitment)) \<Rightarrow> bool" where
  "computes ext pc n f \<longleftrightarrow>
     (\<forall>t path t' r. cache_ok ext pc t \<and> length path + n = KEY_SIZE \<and> f t path = (t', r) \<longrightarrow>
        r = node_commitment ext pc t n path \<and> same_but_cache t t' \<and> cache_ok ext pc t')"

lemma computesD:
  "computes ext pc n f \<Longrightarrow> cache_ok ext pc t \<Longrightarrow> length path + n = KEY_SIZE \<Longrightarrow> f t path = (t', r) \<Longrightarrow>
   r = node_commitment ext pc t n path \<and> same_but_cache t t' \<and> cache_ok ext pc t'"
  unfolding computes_def by blast

lemma cache_okD:
  "cache_ok ext pc t \<Longrightarrow> cache_hit t p = Some c \<Longrightarrow>
   node_commitment ext pc t (KEY_SIZE - length p) p = Inr c"
  by (simp add: cache_ok_def)

lemma cache_insert_ok:
  assumes "cache_ok ext pc t" and "length path \<le> KEY_SIZE"
    and "r = node_commitment ext pc t (KEY_SIZE - length path) path"
    and "cache_insert path (t, r) = (t', r')"
  shows "r' = r \<and> same_but_cache t t' \<and> cache_ok ext pc t'"
proof (cases r)
  case (Inl e)
  then have "t' = t" and "r' = Inl e" using assms(4) by (simp_all add: cache_insert_def)
  with Inl assms(1) show ?thesis by simp
next
  case (Inr c)
  then have t': "t' = t\<lparr>commitment_cache := fmupd path (Some c) (commitment_cache t)\<rparr>"
    and r': "r' = Inr c"
    using assms(4) by (simp_all add: cache_insert_def)
  have same: "same_but_cache t t'" by (simp add: same_but_cache_def t')
  have "cache_hit t' q = (if q = path then Some c else cache_hit t q)" for q
    by (simp add: cache_hit_def t')
  then have "cache_ok ext pc t'"
    using assms(1-3) Inr unfolding cache_ok_def same_but_cacheD(10) [OF same] by auto
  with same Inr r' show ?thesis by simp
qed

lemma child_scalar_ok:
  assumes f: "computes ext pc n f" and ok: "cache_ok ext pc t" and len: "length path + Suc n = KEY_SIZE"
    and step: "child_scalar ext pc f path (KEY_SIZE - Suc n) i t = (t', s)"
  shows "s = (if node_exists t (path @ [of_nat i])
        then from_le_bytes_mod_order pc (root_or_empty ext pc t (KEY_SIZE - n)
               (node_commitment ext pc t n (path @ [of_nat i])))
        else empty_subtree_scalars t ! (KEY_SIZE - n))
    \<and> same_but_cache t t' \<and> cache_ok ext pc t'"
proof -
  have d: "KEY_SIZE - Suc n + 1 = KEY_SIZE - n" using len by simp
  show ?thesis
  proof (cases "node_exists t (path @ [of_nat i])")
    case False
    with step ok show ?thesis unfolding child_scalar_def d by auto
  next
    case True
    obtain t1 r where fr: "f t (path @ [of_nat i]) = (t1, r)" by force
    with len have r: "r = node_commitment ext pc t n (path @ [of_nat i])"
        and same: "same_but_cache t t1" and ok1: "cache_ok ext pc t1"
      using computesD [OF f ok _ fr] by simp_all
    have "t' = t1" and "s = from_le_bytes_mod_order pc (root_or_empty ext pc t1 (KEY_SIZE - n) r)"
      using step True fr unfolding child_scalar_def Let_def root_or_empty_def d by auto
    with True r same ok1 show ?thesis
      by (simp add: same_but_cacheD(11) [OF same])
  qed
qed

lemma child_scalars_ok:
  assumes f: "computes ext pc n f" and len: "length path + Suc n = KEY_SIZE"
  shows "cache_ok ext pc t \<Longrightarrow> child_scalars ext pc f path (KEY_SIZE - Suc n) t is = (t', ss) \<Longrightarrow>
    ss = map (\<lambda>i. if node_exists t (path @ [of_nat i])
        then from_le_bytes_mod_order pc (root_or_empty ext pc t (KEY_SIZE - n)
               (node_commitment ext pc t n (path @ [of_nat i])))
        else empty_subtree_scalars t ! (KEY_SIZE - n)) is
    \<and> same_but_cache t t' \<and> cache_ok ext pc t'"
proof (induction "is" arbitrary: t t' ss)
  case Nil
  then show ?case by simp
next
  case (Cons i "is")
  obtain t1 s where step: "child_scalar ext pc f path (KEY_SIZE - Suc n) i t = (t1, s)" by force
  obtain t2 rest where rest: "child_scalars ext pc f path (KEY_SIZE - Suc n) t1 is = (t2, rest)" by force
  note first = child_scalar_ok [OF f Cons.prems(1) len step]
  then have same: "same_but_cache t t1" by simp
  have IH: "rest = map (\<lambda>i. if node_exists t (path @ [of_nat i])
        then from_le_bytes_mod_order pc (root_or_empty ext pc t (KEY_SIZE - n)
               (node_commitment ext pc t n (path @ [of_nat i])))
        else empty_subtree_scalars t ! (KEY_SIZE - n)) is
      \<and> same_but_cache t1 t2 \<and> cache_ok ext pc t2"
    using Cons.IH [OF _ rest] first unfolding same_but_cacheD [OF same] by blast
  have "t' = t2" and "ss = s # rest"
    using Cons.prems(2) step rest by simp_all
  with IH first same_but_cache_trans [OF same] show ?case by simp
qed

lemma compute_node_commitment_computes: "computes ext pc n (compute_node_commitment ext pc n)"
proof (induction n)
  case 0
  show ?case
    unfolding computes_def
  proof (intro allI impI, elim conjE)
    fix t path t' r
    assume ok: "cache_ok ext pc t" and len: "length path + 0 = KEY_SIZE"
      and run: "compute_node_commitment ext pc 0 t path = (t', r)"
    show "r = node_commitment ext pc t 0 path \<and> same_but_cache t t' \<and> cache_ok ext pc t'"
    proof (cases "cache_hit t path")
      case (Some c)
      with run len cache_okD [OF ok Some] ok show ?thesis by simp
    next
      case None
      let ?r = "node_commitment ext pc t 0 path"
      have "cache_insert path (t, ?r) = (t', r)" using run None by simp
      with cache_insert_ok [OF ok _ _ this] len show ?thesis by simp
    qed
  qed
next
  case (Suc n)
  show ?case
    unfolding computes_def
  proof (intro allI impI, elim conjE)
    fix t path t' r
    assume ok: "cache_ok ext pc t" and len: "length path + Suc n = KEY_SIZE"
      and run: "compute_node_commitment ext pc (Suc n) t path = (t', r)"
    have n: "KEY_SIZE - length path = Suc n" using len by simp
    show "r = node_commitment ext pc t (Suc n) path \<and> same_but_cache t t' \<and> cache_ok ext pc t'"
    proof (cases "cache_hit t path")
      case (Some c)
      with run n cache_okD [OF ok Some] ok show ?thesis by simp
    next
      case None
      obtain t1 coeffs where cs: "child_scalars ext pc (compute_node_commitment ext pc n) path
          (KEY_SIZE - Suc n) t [0..<VERKLE_RADIX] = (t1, coeffs)" by force
      note kids = child_scalars_ok [OF Suc.IH len ok cs]
      then have same: "same_but_cache t t1" by simp
      let ?r = "commit_coeffs pc ''Failed to commit node polynomial: {}'' coeffs"
      have val: "?r = node_commitment ext pc t (Suc n) path" using kids by simp
      have ins: "cache_insert path (t1, ?r) = (t', r)" using run None cs by simp
      have val1: "?r = node_commitment ext pc t1 (KEY_SIZE - length path) path"
        unfolding n same_but_cacheD(10) [OF same] by (rule val)
      have "r = ?r \<and> same_but_cache t1 t' \<and> cache_ok ext pc t'"
        using kids len by (intro cache_insert_ok [OF _ _ val1 ins]) simp_all
      with val same_but_cache_trans [OF same] show ?thesis by simp
    qed
  qed
qed

lemma same_but_cache_root_of:
  "same_but_cache t t' \<Longrightarrow> root_of ext pc t' = root_of ext pc t"
  by (simp add: root_of_def same_but_cacheD(10))

lemma root_fields_irrelevant:
  "node_commitment ext pc (t\<lparr>root_cache := r, dirty := b\<rparr>) n p = node_commitment ext pc t n p"
  "cache_ok ext pc (t\<lparr>root_cache := r, dirty := b\<rparr>) = cache_ok ext pc t"
proof -
  show *: "node_commitment ext pc (t\<lparr>root_cache := r, dirty := b\<rparr>) n p = node_commitment ext pc t n p"
    for n p by (rule node_commitment_cong) simp_all
  show "cache_ok ext pc (t\<lparr>root_cache := r, dirty := b\<rparr>) = cache_ok ext pc t"
    by (simp add: cache_ok_def *)
qed

lemma get_root_ok:
  assumes "vt_ok ext pc t" and "get_root ext pc t = (t', r)"
  shows "r = root_of ext pc t \<and> vt_ok ext pc t' \<and> root_of ext pc t' = root_of ext pc t"
proof (cases "\<not> dirty t \<and> root_cache t \<noteq> None")
  case True
  with assms show ?thesis by (auto simp: get_root_def vt_ok_def)
next
  case False
  obtain t1 c where run: "compute_node_commitment ext pc KEY_SIZE t [] = (t1, c)" by force
  have "c = node_commitment ext pc t KEY_SIZE [] \<and> same_but_cache t t1 \<and> cache_ok ext pc t1"
    using assms(1) by (intro computesD [OF compute_node_commitment_computes _ _ run])
      (simp_all add: vt_ok_def)
  then have c: "bind_res c (commitment_root_hash ext pc) = root_of ext pc t"
    and same: "same_but_cache t t1" and ok: "cache_ok ext pc t1"
    by (simp_all add: root_of_def)
  have res: "get_root ext pc t = (case root_of ext pc t of
      Inl e \<Rightarrow> (t1, Inl e) | Inr root \<Rightarrow> (t1\<lparr>root_cache := Some root, dirty := False\<rparr>, Inr root))"
    using False run c
    by (auto simp: get_root_def compute_node_root_hash_def split: bool.splits option.splits)
  show ?thesis
  proof (cases "root_of ext pc t")
    case (Inl e)
    with res assms(2) have "t' = t1" "r = Inl e" by simp_all
    with Inl same ok False show ?thesis
      by (auto simp: vt_ok_def same_but_cache_root_of same_but_cacheD(4,5))
  next
    case (Inr root)
    with res assms(2) have t': "t' = t1\<lparr>root_cache := Some root, dirty := False\<rparr>" and r: "r = Inr root"
      by simp_all
    have "root_of ext pc t' = root_of ext pc t1"
      by (simp add: root_of_def t' root_fields_irrelevant)
    with t' r Inr ok same_but_cache_root_of [OF same, of ext pc] show ?thesis
      by (simp add: vt_ok_def root_fields_irrelevant)
  qed
qed

lemma vt_ok_dirty: "vt_ok ext pc t \<Longrightarrow> vt_ok ext pc (t\<lparr>dirty := True\<rparr>)"
proof -
  assume "vt_ok ext pc t"
  then have "cache_ok ext pc (t\<lparr>root_cache := root_cache t, dirty := True\<rparr>)"
    by (simp only: root_fields_irrelevant vt_ok_def)
  then show ?thesis by (simp add: vt_ok_def)
qed

lemma vt_ok_fold_insert:
  "vt_ok ext pc t \<Longrightarrow> \<forall>kv\<in>set updates. length (fst kv) = KEY_SIZE \<Longrightarrow>
   vt_ok ext pc (fold (\<lambda>(k, v) t. vt_insert t k v) updates t)"
  by (induction updates arbitrary: t) (auto simp: vt_ok_vt_insert)

lemma supply_key_length [simp]: "length TOTAL_SUPPLY_KEY = KEY_SIZE"
  by (simp add: TOTAL_SUPPLY_KEY_def KEY_SIZE_def)

lemma vt_ok_transition:
  assumes "vt_ok ext pc t" and "\<forall>kv\<in>set updates. length (fst kv) = KEY_SIZE"
  shows "vt_ok ext pc (fst (apply_state_transition t updates supply))"
  using assms vt_ok_dirty [OF assms(1)]
  by (simp add: apply_state_transition_def Let_def vt_ok_vt_insert vt_ok_fold_insert)

lemma vt_step_ok: "vt_step ext pc t t' \<Longrightarrow> vt_ok ext pc t \<Longrightarrow> vt_ok ext pc t'"
proof (induction rule: vt_step.induct)
  case (root t)
  then show ?case using get_root_ok [of ext pc t] by (metis prod.collapse)
qed (simp_all add: vt_ok_vt_insert vt_ok_prune_key vt_ok_transition)

lemma vt_steps_ok: "(vt_step ext pc)\<^sup>*\<^sup>* t t' \<Longrightarrow> vt_ok ext pc t \<Longrightarrow> vt_ok ext pc t'"
  by (induction rule: rtranclp_induct) (auto intro: vt_step_ok)

lemma vt_new_ok: "vt_new ext pc st = Inr t \<Longrightarrow> vt_ok ext pc t"
  by (auto simp: vt_new_def vt_ok_def cache_ok_def cache_hit_def)

interpretation node_codec: byte_codec serialize_node
    "\<lambda>bs. case deserialize_node bs of None \<Rightarrow> Inl () | Some v \<Rightarrow> Inr v"
    "\<lambda>v. \<forall>x. v = Some x \<longrightarrow> length x < 2 ^ 32"
  by unfold_locales (simp only: deserialize_serialize_node option.case)

lemma pruned_fold_insert [simp]:
  "pruned_keys (fold (\<lambda>(k, v) t. vt_insert t k v) updates t) = pruned_keys t"
  by (induction updates arbitrary: t) (auto simp: split_def)

section \<open>Well-formed trees\<close>

text \<open>The empty-subtree tables are those of the commitment scheme; with them a clone never
  panics.\<close>

definition tree_ok :: "externals \<Rightarrow> pc_ops \<Rightarrow> verkle_tree \<Rightarrow> bool" where
  "tree_ok ext pc t \<longleftrightarrow> vt_ok ext pc t
     \<and> compute_empty_subtree_constants ext pc = Inr (empty_subtree_roots t, empty_subtree_scalars t)"

lemma vt_new_tree_ok: "vt_new ext pc st = Inr t \<Longrightarrow> tree_ok ext pc t"
  using vt_new_ok [of ext pc st t] by (auto simp: tree_ok_def vt_new_def)

lemma vt_new_exists: "tree_ok ext pc t \<Longrightarrow> \<exists>t'. vt_new ext pc st = Inr t'"
  by (auto simp: tree_ok_def vt_new_def)

lemma get_root_frame:
  assumes "vt_ok ext pc t" and "get_root ext pc t = (t', r)"
  shows "storage t' = storage t" and "empty_subtree_roots t' = empty_subtree_roots t"
    and "empty_subtree_scalars t' = empty_subtree_scalars t" and "pruned_keys t' = pruned_keys t"
proof -
  obtain t1 c where run: "compute_node_commitment ext pc KEY_SIZE t [] = (t1, c)"
    by (cases "compute_node_commitment ext pc KEY_SIZE t []")
  have same: "same_but_cache t t1"
    using computesD [OF compute_node_commitment_computes _ _ run] assms(1) by (simp add: vt_ok_def)
  have "t' = t \<or> t' = t1 \<or> (\<exists>x. t' = t1\<lparr>root_cache := x, dirty := False\<rparr>)"
  proof (cases "\<not> dirty t \<and> root_cache t \<noteq> None")
    case True
    with assms(2) show ?thesis by (auto simp: get_root_def)
  next
    case False
    then have "get_root ext pc t = (case (t1, bind_res c (commitment_root_hash ext pc)) of
        (self', Inl e) \<Rightarrow> (self', Inl e)
      | (self', Inr root) \<Rightarrow> (self'\<lparr>root_cache := Some root, dirty := False\<rparr>, Inr root))"
      using run by (auto simp: get_root_def compute_node_root_hash_def split: bool.splits option.splits)
    with assms(2) show ?thesis by (cases "bind_res c (commitment_root_hash ext pc)") auto
  qed
  then consider "t' = t" | "t' = t1" | x where "t' = t1\<lparr>root_cache := x, dirty := False\<rparr>" by blast
  then have "storage t' = storage t \<and> empty_subtree_roots t' = empty_subtree_roots t
      \<and> empty_subtree_scalars t' = empty_subtree_scalars t \<and> pruned_keys t' = pruned_keys t"
    by cases (simp_all add: same_but_cacheD(1,2,3,6) [OF same])
  then show "storage t' = storage t" "empty_subtree_roots t' = empty_subtree_roots t"
      "empty_subtree_scalars t' = empty_subtree_scalars t" "pruned_keys t' = pruned_keys t"
    by blast+
qed

lemma fold_insert_tables [simp]:
  "empty_subtree_roots (fold (\<lambda>(k, v) t. vt_insert t k v) ups t) = empty_subtree_roots t"
  "empty_subtree_scalars (fold (\<lambda>(k, v) t. vt_insert t k v) ups t) = empty_subtree_scalars t"
  by (induction ups arbitrary: t) (auto simp: case_prod_beta)

lemma transition_tables:
  "empty_subtree_roots (fst (apply_state_transition t ups supply)) = empty_subtree_roots t"
  "empty_subtree_scalars (fst (apply_state_transition t ups supply)) = empty_subtree_scalars t"
  by (simp_all add: apply_state_transition_def Let_def)

lemma tree_ok_step: "vt_step ext pc t t' \<Longrightarrow> tree_ok ext pc t \<Longrightarrow> tree_ok ext pc t'"
proof (induction rule: vt_step.induct)
  case (insert key t v)
  with vt_step_ok [OF vt_step.insert [OF insert(1)]] show ?case by (simp add: tree_ok_def)
next
  case (prune key t)
  with vt_step_ok [OF vt_step.prune [OF prune(1)]] show ?case by (simp add: tree_ok_def prune_key_eq)
next
  case (transition ups t amount)
  with vt_step_ok [OF vt_step.transition [OF transition(1)]] show ?case
    by (simp add: tree_ok_def transition_tables)
next
  case (root t)
  then have ok: "vt_ok ext pc t" by (simp add: tree_ok_def)
  have g: "get_root ext pc t = (fst (get_root ext pc t), snd (get_root ext pc t))" by simp
  from root vt_step_ok [OF vt_step.root ok] get_root_frame(2,3) [OF ok g] show ?case
    by (simp add: tree_ok_def)
qed

lemma tree_ok_steps: "(vt_step ext pc)\<^sup>*\<^sup>* t t' \<Longrightarrow> tree_ok ext pc t \<Longrightarrow> tree_ok ext pc t'"
  by (induction rule: rtranclp_induct) (auto intro: tree_ok_step)

lemma tree_ok_clones: "tree_ok ext pc t \<Longrightarrow> \<exists>t'. vt_clone ext pc t = Some t'"
  using vt_new_exists [of ext pc t "storage t"] by (auto simp: vt_clone_def)

section \<open>Properties\<close>

text \<open>C4: caching never changes the root: whatever insertions, prunings, state transitions and root
  queries a tree has gone through, \<open>get_root\<close> returns the root computed from the stored nodes
  alone.\<close>

theorem reachable_root_is_cache_free:
  assumes "vt_new ext pc st = Inr t0" and "(vt_step ext pc)\<^sup>*\<^sup>* t0 t"
  shows "snd (get_root ext pc t) = root_of ext pc t"
  using get_root_ok [OF vt_steps_ok [OF assms(2) vt_new_ok [OF assms(1)]]]
  by (metis prod.collapse)

text \<open>the tree is a map with pruning: after \<open>insert\<close> a key reads back the inserted value and
  other keys are unaffected, except that a key pruned earlier stays unreadable; after
  \<open>prune_key\<close> the key is reported as pruned and every other key reads as before, although empty
  ancestors are removed.\<close>

theorem verkle_map_laws:
  assumes "length key = KEY_SIZE" and "length key' = KEY_SIZE" and "length v < 2 ^ 32"
  shows "vt_get (vt_insert t key v) key' =
      (if key' |\<in>| pruned_keys t then Inl (PrunedData ''Key has been pruned'')
       else if key' = key then Inr (Some v) else vt_get t key')
    \<and> (case prune_key t key of
        (t', Inr _) \<Rightarrow> vt_get t' key' =
          (if key' = key then Inl (PrunedData ''Key has been pruned'') else vt_get t key')
      | (t', Inl _) \<Rightarrow> vt_get t' key' = vt_get t key')"
proof -
  have "vt_get (t\<lparr>dirty := True\<rparr>) key' = vt_get t key'"
    by (simp add: vt_get_def get_node_value_alt)
  then show ?thesis
    using vt_get_vt_insert [OF assms] vt_get_prune_key [OF assms(1,2)]
    by (auto simp: prune_key_eq [OF assms(1)] split: prod.splits sum.splits)
qed

text \<open>\<open>apply_state_transition\<close> is not atomic at the supply cap: with a supply above the cap it
  reports an error after the updates and the excessive supply have been written, so a reader
  sees them.\<close>

theorem state_transition_writes_before_cap_check:
  assumes "\<not> list_ex (\<lambda>(k, v). burns v) updates" and "MAX_GLOBAL_SUPPLY_NANO_SLUG < supply"
    and "TOTAL_SUPPLY_KEY |\<notin>| pruned_keys t"
  shows "\<not> is_ok (snd (apply_state_transition t updates supply))
    \<and> vt_get (fst (apply_state_transition t updates supply)) TOTAL_SUPPLY_KEY
      = Inr (Some (to_le_bytes 16 supply))"
  using assms
  by (simp add: apply_state_transition_def Let_def vt_get_vt_insert)

lemma demo_levels: "\<exists>ls. empty_levels ext demo_pc n = Inr ls"
  by (induction n) (auto simp: demo_pc_def commit_coeffs_def commitment_root_hash_def)

lemma demo_vt_new: "\<exists>t. vt_new ext demo_pc memory_storage_new = Inr t"
  using demo_levels [of ext KEY_SIZE]
  by (auto simp: vt_new_def compute_empty_subtree_constants_def)

theorem reachable_root_is_cache_free_witness:
  "\<exists>t0. vt_new demo_hash_ext demo_pc memory_storage_new = Inr t0
     \<and> snd (get_root demo_hash_ext demo_pc (vt_insert t0 (replicate 32 1) [7]))
       = root_of demo_hash_ext demo_pc (vt_insert t0 (replicate 32 1) [7])"
proof -
  obtain t0 where t0: "vt_new demo_hash_ext demo_pc memory_storage_new = Inr t0"
    using demo_vt_new by blast
  have "(vt_step demo_hash_ext demo_pc)\<^sup>*\<^sup>* t0 (vt_insert t0 (replicate 32 1) [7])"
    by (intro r_into_rtranclp vt_step.insert) (simp add: KEY_SIZE_def)
  from reachable_root_is_cache_free [OF t0 this] t0 show ?thesis by blast
qed

theorem verkle_map_laws_witness:
  "length (replicate 32 1 :: bytes) = KEY_SIZE
   \<and> vt_get (vt_insert demo_tree (replicate 32 1) [7]) (replicate 32 1) = Inr (Some [7])"
  using verkle_map_laws [of "replicate 32 1" "replicate 32 1" "[7]" demo_tree]
  by (simp add: KEY_SIZE_def demo_tree_def)

theorem state_transition_writes_before_cap_check_witness:
  "\<not> is_ok (snd (apply_state_transition demo_tree [] (MAX_GLOBAL_SUPPLY_NANO_SLUG + 1)))
   \<and> vt_get (fst (apply_state_transition demo_tree [] (MAX_GLOBAL_SUPPLY_NANO_SLUG + 1))) TOTAL_SUPPLY_KEY
     = Inr (Some (to_le_bytes 16 (MAX_GLOBAL_SUPPLY_NANO_SLUG + 1)))"
  using state_transition_writes_before_cap_check [of "[]" "MAX_GLOBAL_SUPPLY_NANO_SLUG + 1" demo_tree]
  by (simp add: demo_tree_def MAX_GLOBAL_SUPPLY_NANO_SLUG_def)

end
