(* ===== verification/Block_Validation.thy ===== *)
theory Block_Validation
  imports Ghostdag Pow Verkle Schnorr
begin

text \<open>
  Block acceptance checks: \<open>validate_block\<close> of \<open>core/consensus/ghostdag.rs\<close> with the routines it
  calls (merkle root, transaction checks with batch signature verification, presence of the
  inputs in the Verkle state). \<open>arrival\<close> is the order in which the signature workers answer.
\<close>

section \<open>Definitions\<close>

definition combine_pair :: "externals \<Rightarrow> hash list \<Rightarrow> hash" where
  "combine_pair ext chunk =
     hash_new ext (as_bytes (chunk ! 0) @ (if 1 < length chunk then as_bytes (chunk ! 1) else []))"

lemma length_chunks_2: "length (chunks 2 xs) = (length xs + 1) div 2"
proof (induction "2 :: nat" xs rule: chunks.induct)
  case (1 xs)
  show ?case
  proof (cases "xs = []")
    case True
    then show ?thesis by simp
  next
    case False
    have "length (chunks 2 xs) = Suc (length (chunks 2 (drop 2 xs)))"
      using False by (subst chunks.simps) simp
    also have "\<dots> = Suc ((length xs - 2 + 1) div 2)" using 1 False by simp
    also have "\<dots> = (length xs + 1) div 2"
      using False by (cases xs) auto
    finally show ?thesis .
  qed
qed

text \<open>The \<open>while hashes.len() > 1\<close> loop; each round halves the list.\<close>

function merkle_rounds :: "externals \<Rightarrow> hash list \<Rightarrow> hash list" where
  "merkle_rounds ext hashes =
     (if 1 < length hashes then merkle_rounds ext (map (combine_pair ext) (chunks 2 hashes))
      else hashes)"
  by pat_completeness auto
termination
  by (relation "measure (\<lambda>(ext, hs). length hs)") (auto simp: length_chunks_2)

declare merkle_rounds.simps [simp del]

definition compute_transaction_merkle_root :: "externals \<Rightarrow> transaction list \<Rightarrow> hash" where
  "compute_transaction_merkle_root ext txs =
     (if txs = [] then hash_new ext [] else merkle_rounds ext (map tx_id txs) ! 0)"

fun collect_transaction_signatures ::
    "externals \<Rightarrow> transaction \<Rightarrow> nat \<Rightarrow> signature_item list \<Rightarrow> tx_input list
      \<Rightarrow> core_error + signature_item list" where
  "collect_transaction_signatures ext tx input_idx items [] = Inr items"
| "collect_transaction_signatures ext tx input_idx items (i # ins) =
     (if signature i = []
      then Inl (ConsensusError ''Missing signature for input {} in transaction {}'')
      else
        bind_res (map_err (\<lambda>_. CryptographicError ''Sighash error: {}'')
                    (compute_sighash ext tx input_idx (sighash_type i))) (\<lambda>sighash.
        bind_res (ok_or (CryptographicError ''Invalid pubkey: {}'') (vk_from_bytes ext (pubkey i))) (\<lambda>vk.
        bind_res (ok_or (CryptographicError ''Invalid signature: {}'')
                    (sig_try_from ext (signature i))) (\<lambda>sig'.
          collect_transaction_signatures ext tx (Suc input_idx) (items @ [(vk, sighash, sig')]) ins))))"

fun spend_outpoints :: "outpoint fset \<Rightarrow> tx_input list \<Rightarrow> core_error + outpoint fset" where
  "spend_outpoints spent_outpoints [] = Inr spent_outpoints"
| "spend_outpoints spent_outpoints (i # ins) =
     (if outpoint_of i |\<in>| spent_outpoints
      then Inl (ConsensusError ''Double-spend across block detected for outpoint {:?}'')
      else spend_outpoints (finsert (outpoint_of i) spent_outpoints) ins)"

fun validate_transactions_loop ::
    "externals \<Rightarrow> outpoint fset \<Rightarrow> signature_item list \<Rightarrow> transaction list
      \<Rightarrow> core_error + signature_item list" where
  "validate_transactions_loop ext spent_outpoints items [] = Inr items"
| "validate_transactions_loop ext spent_outpoints items (tx # txs) =
     (if tx_id tx \<noteq> calculate_id ext tx
      then Inl (ConsensusError ''Invalid transaction id: expected {} but got {}'')
      else
        bind_res (spend_outpoints spent_outpoints (inputs tx)) (\<lambda>spent'.
        bind_res (collect_transaction_signatures ext tx 0 items (inputs tx)) (\<lambda>items'.
          validate_transactions_loop ext spent' items' txs)))"

definition validate_transactions ::
    "externals \<Rightarrow> (bool list \<Rightarrow> bool list) \<Rightarrow> block_node \<Rightarrow> core_error + unit" where
  "validate_transactions ext arrival block =
     bind_res (validate_transactions_loop ext {||} [] (transactions block)) (\<lambda>items.
     bind_res (batch_verify ext arrival items) (\<lambda>ok.
       if \<not> ok then Inl (ConsensusError ''One or more invalid signatures in block'')
       else Inr ()))"

definition outpoint_key :: "externals \<Rightarrow> outpoint \<Rightarrow> bytes" where
  "outpoint_key ext k = as_bytes (hash_new ext (as_bytes (fst k) @ to_be_bytes 4 (snd k)))"

fun check_inputs_present :: "externals \<Rightarrow> verkle_tree \<Rightarrow> tx_input list \<Rightarrow> core_error + unit" where
  "check_inputs_present ext t [] = Inr ()"
| "check_inputs_present ext t (i # ins) =
     (case vt_get t (outpoint_key ext (outpoint_of i)) of
        Inr (Some _) \<Rightarrow> check_inputs_present ext t ins
      | Inr None \<Rightarrow> Inl (ConsensusError ''Missing input UTXO in Verkle tree for outpoint ({}, {})'')
      | Inl _ \<Rightarrow> Inl (CryptographicError ''Verkle tree query failed: {}''))"

definition output_collides :: "externals \<Rightarrow> verkle_tree \<Rightarrow> transaction \<Rightarrow> nat \<Rightarrow> bool" where
  "output_collides ext t tx idx \<longleftrightarrow>
     (case vt_get t (hash_with_index ext tx (of_nat idx)) of Inr (Some _) \<Rightarrow> True | _ \<Rightarrow> False)"

fun validate_verkle_proof :: "externals \<Rightarrow> verkle_tree \<Rightarrow> transaction list \<Rightarrow> core_error + unit" where
  "validate_verkle_proof ext t [] = Inr ()"
| "validate_verkle_proof ext t (tx # txs) =
     bind_res (check_inputs_present ext t (inputs tx)) (\<lambda>_.
       if list_ex (output_collides ext t tx) [0..<length (outputs tx)]
       then Inl (ConsensusError ''Output key collision in Verkle tree for tx {} output {}'')
       else validate_verkle_proof ext t txs)"

definition block_pow_hash :: "externals \<Rightarrow> block_node \<Rightarrow> hash" where
  "block_pow_hash ext block =
     calculate_hash ext (timestamp (header block)) (difficulty (header block))
       (sorted_list_of_fset (parents (header block))) (blue_score block) (nonce (header block))
       (compute_transaction_merkle_root ext (transactions block))"

definition validate_block ::
    "externals \<Rightarrow> (bool list \<Rightarrow> bool list) \<Rightarrow> block_node \<Rightarrow> dag \<Rightarrow> verkle_tree \<Rightarrow> u64
      \<Rightarrow> core_error + unit" where
  "validate_block ext arrival block g t current_time =
     (if \<not> parents (header block) |\<subseteq>| fmdom (blocks g)
      then Inl (ConsensusError ''Parent block {} not found in DAG'')
      else if saturating_add current_time (2 * 60 * 60) < timestamp (header block)
      then Inl (ConsensusError ''Block timestamp {} is too far in the future (current: {})'')
      else if timestamp (header block) < saturating_sub current_time (24 * 60 * 60)
      then Inl (ConsensusError ''Block timestamp {} is too far in the past (current: {})'')
      else if difficulty (header block) = 0
      then Inl (ConsensusError ''Block difficulty cannot be zero'')
      else if \<not> is_valid_pow (block_pow_hash ext block) (difficulty (header block))
      then Inl (ConsensusError ''Invalid PoW: hash {} does not meet difficulty {}'')
      else
        bind_res (validate_transactions ext arrival block) (\<lambda>_.
          validate_verkle_proof ext t (transactions block)))"

text \<open>The outpoints a list of transactions spends, and a signature check on one input.\<close>

definition block_outpoints :: "transaction list \<Rightarrow> outpoint list" where
  "block_outpoints txs = concat (map (\<lambda>tx. map outpoint_of (inputs tx)) txs)"

definition input_signed :: "externals \<Rightarrow> transaction \<Rightarrow> nat \<Rightarrow> tx_input \<Rightarrow> bool" where
  "input_signed ext tx n i \<longleftrightarrow>
     (\<exists>vk sig' msg. vk_from_bytes ext (pubkey i) = Some vk \<and> sig_try_from ext (signature i) = Some sig'
        \<and> compute_sighash ext tx n (sighash_type i) = Inr msg \<and> vk_verify ext vk msg sig')"

definition demo_spend :: transaction where
  "demo_spend = transaction_new demo_ext [demo_input]
     [\<lparr>out_value = 60, pubkey_hash = Hash (replicate 32 2)\<rparr>]"

definition demo_valid_block :: block_node where
  "demo_valid_block = (bare_block hash_b {|hash_a|})\<lparr>transactions := [demo_spend]\<rparr>"

definition demo_utxo_tree :: verkle_tree where
  "demo_utxo_tree = vt_insert demo_tree (outpoint_key demo_ext (outpoint_of demo_input)) [1]"

section \<open>Lemmas\<close>

lemma merkle_rounds_single: "hs \<noteq> [] \<Longrightarrow> length (merkle_rounds ext hs) = 1"
proof (induction ext hs rule: merkle_rounds.induct)
  case (1 ext hs)
  show ?case
  proof (cases "1 < length hs")
    case True
    have "map (combine_pair ext) (chunks 2 hs) \<noteq> []"
      using True length_chunks_2 [of hs] by auto
    with 1 True show ?thesis by (subst merkle_rounds.simps) simp
  next
    case False
    with 1(2) show ?thesis by (subst merkle_rounds.simps) (cases hs; simp)
  qed
qed

lemma spend_outpoints_ok:
  "spend_outpoints sp ins = Inr sp' \<longleftrightarrow>
     distinct (map outpoint_of ins) \<and> fset sp \<inter> outpoint_of ` set ins = {}
     \<and> sp' = sp |\<union>| fset_of_list (map outpoint_of ins)"
  by (induction ins arbitrary: sp) auto

lemma collect_signatures_ok:
  assumes "collect_transaction_signatures ext tx n items ins = Inr items'"
    and "\<forall>item\<in>set items'. item_ok ext item"
  shows "(\<forall>j<length ins. input_signed ext tx (n + j) (ins ! j)) \<and> set items \<subseteq> set items'"
  using assms
proof (induction ins arbitrary: n items)
  case Nil
  then show ?case by simp
next
  case (Cons i ins)
  then obtain sighash vk sig' where
      msg: "compute_sighash ext tx n (sighash_type i) = Inr sighash"
    and vk: "vk_from_bytes ext (pubkey i) = Some vk" and sg: "sig_try_from ext (signature i) = Some sig'"
    and rest: "collect_transaction_signatures ext tx (Suc n) (items @ [(vk, sighash, sig')]) ins = Inr items'"
    by (auto split: if_splits)
  note IH = Cons.IH [OF rest Cons.prems(2)]
  then have "item_ok ext (vk, sighash, sig')" using Cons.prems(2) by auto
  then have "input_signed ext tx n i"
    using msg vk sg by (auto simp: input_signed_def item_ok_def)
  with IH show ?case by (auto simp: nth_Cons' less_Suc_eq_0_disj)
qed

lemma validate_transactions_loop_ok:
  assumes "validate_transactions_loop ext sp items txs = Inr items'"
    and "\<forall>item\<in>set items'. item_ok ext item"
  shows "(\<forall>tx\<in>set txs. tx_id tx = calculate_id ext tx
        \<and> (\<forall>j<length (inputs tx). input_signed ext tx j (inputs tx ! j)))
    \<and> distinct (block_outpoints txs) \<and> fset sp \<inter> set (block_outpoints txs) = {}
    \<and> set items \<subseteq> set items'"
  using assms
proof (induction txs arbitrary: sp items)
  case Nil
  then show ?case by (simp add: block_outpoints_def)
next
  case (Cons tx txs)
  then obtain sp' items1 where id: "tx_id tx = calculate_id ext tx"
    and sp': "spend_outpoints sp (inputs tx) = Inr sp'"
    and sigs: "collect_transaction_signatures ext tx 0 items (inputs tx) = Inr items1"
    and rest: "validate_transactions_loop ext sp' items1 txs = Inr items'"
    by (auto split: if_splits)
  note IH = Cons.IH [OF rest Cons.prems(2)]
  have "(\<forall>j<length (inputs tx). input_signed ext tx j (inputs tx ! j)) \<and> set items \<subseteq> set items1"
  proof -
    have "\<forall>item\<in>set items1. item_ok ext item" using IH Cons.prems(2) by blast
    from collect_signatures_ok [OF sigs this] show ?thesis by simp
  qed
  moreover have "block_outpoints (tx # txs) = map outpoint_of (inputs tx) @ block_outpoints txs"
    by (simp add: block_outpoints_def)
  moreover have "distinct (map outpoint_of (inputs tx))" "fset sp \<inter> outpoint_of ` set (inputs tx) = {}"
    "fset sp' = fset sp \<union> outpoint_of ` set (inputs tx)"
    using sp' by (simp_all add: spend_outpoints_ok fset_of_list.rep_eq)
  ultimately show ?case
    using IH id by (simp add: Int_Un_distrib Int_Un_distrib2) blast
qed

lemma check_inputs_present_ok:
  "check_inputs_present ext t ins = Inr () \<longleftrightarrow>
     (\<forall>i\<in>set ins. \<exists>v. vt_get t (outpoint_key ext (outpoint_of i)) = Inr (Some v))"
  by (induction ins) (auto split: sum.splits option.splits)

lemma validate_verkle_proof_ok:
  "validate_verkle_proof ext t txs = Inr () \<longleftrightarrow>
     (\<forall>tx\<in>set txs. (\<forall>i\<in>set (inputs tx). \<exists>v. vt_get t (outpoint_key ext (outpoint_of i)) = Inr (Some v))
        \<and> (\<forall>n<length (outputs tx). \<not> output_collides ext t tx n))"
  by (induction txs) (auto simp: check_inputs_present_ok list_ex_iff)

section \<open>Properties\<close>

text \<open>C2: a block that \<open>validate_block\<close> accepts has all its parents in the graph, a timestamp in the
  accepted window, a proof of work below its difficulty, transactions whose ids are their
  hashes, no outpoint spent twice anywhere in the block, a verifying signature on every input,
  every spent output present in the Verkle state and no output that overwrites a stored one.\<close>

theorem validate_block_sound:
  assumes "validate_block ext arrival block g t now = Inr ()" and "\<And>rs. mset (arrival rs) = mset rs"
  shows "fset (parents (header block)) \<subseteq> fmdom' (blocks g)
    \<and> unat (timestamp (header block)) \<le> unat now + 7200
    \<and> unat now \<le> unat (timestamp (header block)) + 86400
    \<and> is_valid_pow (block_pow_hash ext block) (difficulty (header block))
    \<and> (\<forall>tx\<in>set (transactions block). tx_id tx = calculate_id ext tx
        \<and> (\<forall>j<length (inputs tx). input_signed ext tx j (inputs tx ! j))
        \<and> (\<forall>i\<in>set (inputs tx). \<exists>v. vt_get t (outpoint_key ext (outpoint_of i)) = Inr (Some v))
        \<and> (\<forall>n<length (outputs tx). \<not> output_collides ext t tx n))
    \<and> distinct (block_outpoints (transactions block))"
proof -
  from assms(1) have
      ps: "parents (header block) |\<subseteq>| fmdom (blocks g)"
    and fut: "\<not> saturating_add now (2 * 60 * 60) < timestamp (header block)"
    and past: "\<not> timestamp (header block) < saturating_sub now (24 * 60 * 60)"
    and pow: "is_valid_pow (block_pow_hash ext block) (difficulty (header block))"
    and txs: "validate_transactions ext arrival block = Inr ()"
    and vk: "validate_verkle_proof ext t (transactions block) = Inr ()"
    by (auto simp: validate_block_def split: if_splits)
  from txs obtain items where loop: "validate_transactions_loop ext {||} [] (transactions block) = Inr items"
    and batch: "batch_verify ext arrival items = Inr True"
    by (auto simp: validate_transactions_def split: if_splits)
  have "\<forall>item\<in>set items. item_ok ext item"
    using batch batch_verify_eq [where arrival = arrival and ext = ext and items = items, OF assms(2)] by simp
  note ok = validate_transactions_loop_ok [OF loop this]
  have "unat (timestamp (header block)) \<le> unat now + 7200"
    using fut by (simp add: word_less_nat_alt unat_saturating_add)
  moreover have "unat now \<le> unat (timestamp (header block)) + 86400"
    using past by (simp add: word_less_nat_alt unat_saturating_sub)
  ultimately show ?thesis
    using ps pow ok vk by (auto simp: validate_verkle_proof_ok fmdom'_alt_def)
qed

lemma demo_key: "outpoint_key demo_ext (outpoint_of demo_input) = replicate 32 7"
  by (simp add: outpoint_key_def demo_ext_def outpoint_of_def demo_input_def hash_new_def)

lemma demo_output_key: "hash_with_index demo_ext demo_spend 0 = as_bytes (tx_id demo_spend)"
  and demo_spend_length: "length (as_bytes (tx_id demo_spend)) = 32"
  by (simp_all add: hash_with_index_def demo_spend_def transaction_new_def calculate_id_def
      demo_ext_def hash_new_def Let_def min_def)

lemma be_one: "to_be_bytes 4 (1 :: u32) = [0, 0, 0, 1]"
proof -
  have "(4 :: nat) = Suc (Suc (Suc (Suc 0)))" by simp
  then show ?thesis unfolding to_be_bytes_def by (simp only: le_digits.simps) simp
qed

lemma demo_spend_id: "as_bytes (tx_id demo_spend) \<noteq> replicate 32 7"
proof -
  have "hd (as_bytes (tx_id demo_spend)) = 0"
    by (simp add: demo_spend_def transaction_new_def calculate_id_def demo_ext_def hash_new_def
        Let_def be_one)
  then show ?thesis by auto
qed

lemma demo_tree_get: "length k = 32 \<Longrightarrow> vt_get demo_utxo_tree k = Inr (if k = replicate 32 7 then Some [1] else None)"
proof -
  assume "length k = 32"
  moreover have "vt_get demo_tree k = Inr None"
    by (simp add: vt_get_def demo_tree_def get_node_value_def memory_storage_new_def storage_get_def)
  ultimately show ?thesis
    by (simp add: demo_utxo_tree_def demo_key vt_get_vt_insert KEY_SIZE_def) (simp add: demo_tree_def)
qed

lemma demo_digest: "blake3 demo_ext data = take 32 (data @ replicate 32 0)"
  by (simp add: demo_ext_def)

lemma demo_pow: "is_valid_pow (block_pow_hash demo_ext demo_valid_block) 1"
proof -
  have t: "timestamp (header demo_valid_block) = 0"
    by (simp add: demo_valid_block_def bare_block_def)
  have "take 8 (as_bytes (block_pow_hash demo_ext demo_valid_block)) = to_le_bytes 8 (0 :: u64)"
    unfolding block_pow_hash_def calculate_hash_def hash_new_def demo_digest hash.sel t
    by (simp add: min_def)
  moreover have "from_le_bytes (to_le_bytes 8 (0 :: u64)) = (0 :: u64)"
    by (rule from_to_le_bytes) simp
  moreover have "length (as_bytes (block_pow_hash demo_ext demo_valid_block)) = 32"
    unfolding block_pow_hash_def calculate_hash_def hash_new_def demo_digest hash.sel by simp
  ultimately show ?thesis by (simp add: is_valid_pow_def)
qed

lemma demo_transactions_valid: "validate_transactions demo_ext (\<lambda>rs. rs) demo_valid_block = Inr ()"
proof -
  let ?m = "tagged_hash demo_ext TAG_TX_SIGN (serialize_tx_for_sighash demo_spend 0 SigHashAll)"
  let ?items = "[(replicate 32 1, ?m, replicate 64 1)]"
  have "tx_id demo_spend = calculate_id demo_ext demo_spend"
    by (simp add: demo_spend_def transaction_new_def calculate_id_def Let_def)
  moreover have "inputs demo_spend = [demo_input]"
    by (simp add: demo_spend_def transaction_new_def Let_def)
  moreover have "vk_from_bytes demo_ext (replicate 32 1) = Some (replicate 32 1)"
    "sig_try_from demo_ext (replicate 64 1) = Some (replicate 64 1)"
    "vk_verify demo_ext (replicate 32 1) ?m (replicate 64 1)"
    by (simp_all add: demo_ext_def)
  ultimately have "validate_transactions_loop demo_ext {||} [] [demo_spend] = Inr ?items"
    and "\<forall>item\<in>set ?items. item_ok demo_ext item"
    by (simp_all add: demo_input_def compute_sighash_def item_ok_def)
  moreover have "batch_verify demo_ext (\<lambda>rs. rs) ?items = Inr (\<forall>item\<in>set ?items. item_ok demo_ext item)"
    by (rule batch_verify_eq) simp
  ultimately show ?thesis
    by (simp add: validate_transactions_def demo_valid_block_def)
qed

lemma demo_block_accepted:
  "validate_block demo_ext (\<lambda>rs. rs) demo_valid_block demo_dag demo_utxo_tree 0 = Inr ()"
proof -
  have io: "inputs demo_spend = [demo_input]" "length (outputs demo_spend) = 1"
    by (simp_all add: demo_spend_def transaction_new_def Let_def)
  have vk: "validate_verkle_proof demo_ext demo_utxo_tree [demo_spend] = Inr ()"
    by (simp add: io demo_key demo_tree_get output_collides_def demo_output_key demo_spend_length
        demo_spend_id)
  have hdr: "header demo_valid_block = header (bare_block hash_b {|hash_a|})"
    "transactions demo_valid_block = [demo_spend]"
    by (simp_all add: demo_valid_block_def)
  have dom: "hash_a |\<in>| fmdom (blocks demo_dag)" by (simp add: demo_dag_eq)
  show ?thesis
    using demo_pow demo_transactions_valid vk dom
    by (simp add: validate_block_def hdr) (simp add: bare_block_def saturating_sub_def)
qed

theorem validate_block_sound_witness:
  "validate_block demo_ext (\<lambda>rs. rs) demo_valid_block demo_dag demo_utxo_tree 0 = Inr ()
   \<and> input_signed demo_ext demo_spend 0 (inputs demo_spend ! 0)"
proof -
  have arr: "mset ((\<lambda>rs. rs) rs) = mset rs" for rs :: "bool list" by simp
  from validate_block_sound [OF demo_block_accepted arr] demo_block_accepted show ?thesis
    by (simp add: demo_valid_block_def demo_spend_def transaction_new_def Let_def)
qed

end
