(* ===== verification/Vm.thy ===== *)
theory Vm
  imports Verkle "HOL-Library.Sublist"
begin

text \<open>
  The contract virtual machine: \<open>core/vm/gas_meter.rs\<close> and \<open>core/vm/executor.rs\<close>. The WASM engine
  is third-party code and an argument: loading a payload gives a \<open>guest\<close>, an interaction tree
  whose nodes are runs of metered instructions, calls of the three host functions with their raw
  \<open>i32\<close> arguments and the guest's memory, a trap and a return. Everything the executor itself does
  (gas charges, the two meters, copying arguments out of guest memory, host access to the Verkle
  tree, restoring the tree) is modelled, with the panic of \<open>vec![0u8; len as usize]\<close> on a negative
  length.
\<close>

section \<open>Gas accounting\<close>

datatype vm_error =
    OutOfGas
  | RuntimeError string
  | StateError string
  | WasmError string

text \<open>\<open>initial\<close> and \<open>remaining\<close> are \<open>i128\<close>: no chain of \<open>u64\<close> charges that stops at the first
  negative value leaves that range, so they are integers here.\<close>

record gas_meter =
  gm_initial :: int
  gm_remaining :: int
  gm_consumed_wasm :: u64
  gm_consumed_host :: u64
  gm_refund :: u64

definition INTRINSIC_GAS :: u64 where
  "INTRINSIC_GAS = 21000"

definition STATE_READ_COST :: u64 where
  "STATE_READ_COST = 2100"

definition STATE_WRITE_NEW_COST :: u64 where
  "STATE_WRITE_NEW_COST = 20000"

definition STATE_WRITE_UPDATE_COST :: u64 where
  "STATE_WRITE_UPDATE_COST = 5000"

definition SELF_DESTRUCT_REFUND :: u64 where
  "SELF_DESTRUCT_REFUND = 24000"

definition gas_meter_new :: "u64 \<Rightarrow> gas_meter" where
  "gas_meter_new limit = \<lparr>gm_initial = int (unat limit), gm_remaining = int (unat limit),
     gm_consumed_wasm = 0, gm_consumed_host = 0, gm_refund = 0\<rparr>"

definition consume_host :: "gas_meter \<Rightarrow> u64 \<Rightarrow> gas_meter \<times> (vm_error + unit)" where
  "consume_host self cost =
     (let g = self\<lparr>gm_remaining := gm_remaining self - int (unat cost),
                   gm_consumed_host := saturating_add (gm_consumed_host self) cost\<rparr>
      in (g, if gm_remaining g < 0 then Inl OutOfGas else Inr ()))"

definition consume_opcode :: "gas_meter \<Rightarrow> u64 \<Rightarrow> gas_meter \<times> (vm_error + unit)" where
  "consume_opcode self opcode_cost =
     (let g = self\<lparr>gm_remaining := gm_remaining self - int (unat opcode_cost),
                   gm_consumed_wasm := saturating_add (gm_consumed_wasm self) opcode_cost\<rparr>
      in (g, if gm_remaining g < 0 then Inl OutOfGas else Inr ()))"

definition charge_intrinsic :: "gas_meter \<Rightarrow> gas_meter \<times> (vm_error + unit)" where
  "charge_intrinsic self = consume_host self INTRINSIC_GAS"

definition payload_cost :: "bytes \<Rightarrow> u64" where
  "payload_cost payload =
     fold (\<lambda>b total. saturating_add total (if b = 0 then 4 else 16)) payload 0"

definition charge_payload :: "gas_meter \<Rightarrow> bytes \<Rightarrow> gas_meter \<times> (vm_error + unit)" where
  "charge_payload self payload = consume_host self (payload_cost payload)"

definition charge_state_read :: "gas_meter \<Rightarrow> gas_meter \<times> (vm_error + unit)" where
  "charge_state_read self = consume_host self STATE_READ_COST"

definition charge_state_write :: "gas_meter \<Rightarrow> bool \<Rightarrow> gas_meter \<times> (vm_error + unit)" where
  "charge_state_write self is_new =
     consume_host self (if is_new then STATE_WRITE_NEW_COST else STATE_WRITE_UPDATE_COST)"

definition charge_wasm :: "gas_meter \<Rightarrow> u64 \<Rightarrow> gas_meter \<times> (vm_error + unit)" where
  "charge_wasm self cost =
     (case consume_host self cost of
        (g, Inl e) \<Rightarrow> (g, Inl e)
      | (g, Inr _) \<Rightarrow>
          (g\<lparr>gm_consumed_wasm := saturating_add (gm_consumed_wasm g) cost\<rparr>, Inr ()))"

definition refund_self_destruct :: "gas_meter \<Rightarrow> gas_meter" where
  "refund_self_destruct self =
     self\<lparr>gm_refund := saturating_add (gm_refund self) SELF_DESTRUCT_REFUND\<rparr>"

definition get_used :: "gas_meter \<Rightarrow> u64" where
  "get_used self = word_of_int (gm_initial self - gm_remaining self)"

definition finalize_gas :: "gas_meter \<Rightarrow> u64 \<Rightarrow> u64 \<times> u64" where
  "finalize_gas self total_used =
     (let max_refund = total_used div 5;
          actual_refund = min (gm_refund self) max_refund;
          net_used = saturating_sub total_used actual_refund
      in (net_used, actual_refund))"

section \<open>The guest\<close>

text \<open>A host call as it leaves the guest: pointers and lengths are the \<open>i32\<close> values the guest passes.
  \<open>Call\<close> also carries the contents of the exported memory at that moment (\<open>None\<close> when the module
  exports none), and continues with the bytes the host wrote back, if any. Metering points are
  \<open>None\<close> once exhausted.\<close>

type_synonym metering_points = "u64 option"

type_synonym i32 = "32 word"

datatype host_call =
    StateRead i32 i32 i32 i32
  | StateWrite i32 i32 i32 i32
  | SelfDestruct i32 i32

datatype guest =
    Return
  | Trap string
  | Compute "metering_points \<Rightarrow> metering_points \<times> guest"
  | Call host_call "bytes option" "bytes option \<Rightarrow> guest"

datatype wasm_load =
    BadModule string
  | BadInstance string
  | NoRun string
  | Loaded guest

text \<open>What the executor relies on of the metering middleware: running instructions never adds
  points, and exhausted points stay exhausted.\<close>

inductive metered :: "guest \<Rightarrow> bool" where
  Return: "metered Return"
| Trap: "metered (Trap msg)"
| Compute: "\<forall>p q g. f p = (q, g) \<longrightarrow> metered g \<and> (case p of None \<Rightarrow> q = None
      | Some m \<Rightarrow> (case q of None \<Rightarrow> True | Some n \<Rightarrow> n \<le> m)) \<Longrightarrow> metered (Compute f)"
| Call: "\<forall>r. metered (k r) \<Longrightarrow> metered (Call c mem k)"

text \<open>Guests that pass no negative length to a host function.\<close>

fun call_lengths_ok :: "host_call \<Rightarrow> bool" where
  "call_lengths_ok (StateRead key_ptr key_len out_ptr out_len) \<longleftrightarrow> 0 \<le> sint key_len"
| "call_lengths_ok (StateWrite key_ptr key_len data_ptr data_len) \<longleftrightarrow> 0 \<le> sint key_len \<and> 0 \<le> sint data_len"
| "call_lengths_ok (SelfDestruct key_ptr key_len) \<longleftrightarrow> 0 \<le> sint key_len"

inductive lengths_ok :: "guest \<Rightarrow> bool" where
  Return: "lengths_ok Return"
| Trap: "lengths_ok (Trap msg)"
| Compute: "\<forall>p. lengths_ok (snd (f p)) \<Longrightarrow> lengths_ok (Compute f)"
| Call: "call_lengths_ok c \<Longrightarrow> \<forall>r. lengths_ok (k r) \<Longrightarrow> lengths_ok (Call c mem k)"

section \<open>Host functions\<close>

record vm_state =
  vm_tree :: verkle_tree
  vm_gas :: gas_meter
  vm_points :: metering_points

definition charge_metering_from_host ::
    "metering_points \<Rightarrow> u64 \<Rightarrow> vm_error + metering_points" where
  "charge_metering_from_host points cost =
     (case points of
        None \<Rightarrow> Inl OutOfGas
      | Some remaining \<Rightarrow>
          (if remaining < cost then Inl OutOfGas else Inr (Some (remaining - cost))))"

definition host_key :: "externals \<Rightarrow> bytes \<Rightarrow> bytes" where
  "host_key ext key = (if length key = 32 then key else blake3 ext key)"

text \<open>The gas charge and the matching metering charge every host function makes; a failure of
  either traps with \<open>OutOfGas\<close>.\<close>

definition charge_both ::
    "(gas_meter \<times> (vm_error + unit)) \<Rightarrow> u64 \<Rightarrow> vm_state \<Rightarrow> vm_state \<times> (string + unit)" where
  "charge_both charged cost s =
     (case charged of
        (g, Inl _) \<Rightarrow> (s\<lparr>vm_gas := g\<rparr>, Inl ''OutOfGas'')
      | (g, Inr _) \<Rightarrow>
          (case charge_metering_from_host (vm_points s) cost of
             Inl _ \<Rightarrow> (s\<lparr>vm_gas := g\<rparr>, Inl ''OutOfGas'')
           | Inr p \<Rightarrow> (s\<lparr>vm_gas := g, vm_points := p\<rparr>, Inr ())))"

text \<open>Copying an argument out of guest memory: \<open>vec![0u8; len as usize]\<close> panics (\<open>None\<close>) when the sign
  extension of \<open>len\<close> exceeds the largest allocation, that is when \<open>len\<close> is negative;
  \<open>MemoryView::read\<close> refuses a range that leaves the memory. \<open>ptr as u64\<close> extends the sign.\<close>

definition mem_range :: "bytes \<Rightarrow> i32 \<Rightarrow> nat \<Rightarrow> bool" where
  "mem_range memory ptr n \<longleftrightarrow> unat (scast ptr :: u64) + n \<le> length memory"

definition read_arg :: "bytes \<Rightarrow> i32 \<Rightarrow> i32 \<Rightarrow> (string + bytes) option" where
  "read_arg memory ptr len =
     (if sint len < 0 then None
      else if mem_range memory ptr (unat len)
      then Some (Inr (take (unat len) (drop (unat (scast ptr :: u64)) memory)))
      else Some (Inl ''Memory read failure''))"

text \<open>The three host functions; \<open>None\<close> is a panic. \<open>state_read\<close> answers the bytes it wrote to the
  output buffer, if the key has a value; the guest gets their number.\<close>

definition vm_state_read ::
    "externals \<Rightarrow> i32 \<Rightarrow> i32 \<Rightarrow> i32 \<Rightarrow> i32 \<Rightarrow> bytes option \<Rightarrow> vm_state
      \<Rightarrow> (vm_state \<times> (string + bytes option)) option" where
  "vm_state_read ext key_ptr key_len out_ptr out_len memory s =
     (case charge_both (charge_state_read (vm_gas s)) STATE_READ_COST s of
        (s', Inl e) \<Rightarrow> Some (s', Inl e)
      | (s', Inr _) \<Rightarrow>
          (case memory of
             None \<Rightarrow> Some (s', Inl ''Memory missing'')
           | Some mem \<Rightarrow>
          (case read_arg mem key_ptr key_len of
             None \<Rightarrow> None
           | Some (Inl e) \<Rightarrow> Some (s', Inl e)
           | Some (Inr key) \<Rightarrow>
               (case vt_get (vm_tree s') (host_key ext key) of
                  Inl _ \<Rightarrow> Some (s', Inl ''State read error: {}'')
                | Inr None \<Rightarrow> Some (s', Inr None)
                | Inr (Some v) \<Rightarrow>
                    (if unat (scast out_len :: u64) < length v
                     then Some (s', Inl ''Output buffer too small'')
                     else if mem_range mem out_ptr (length v) then Some (s', Inr (Some v))
                     else Some (s', Inl ''Memory write failure''))))))"

definition vm_state_write ::
    "externals \<Rightarrow> i32 \<Rightarrow> i32 \<Rightarrow> i32 \<Rightarrow> i32 \<Rightarrow> bytes option \<Rightarrow> vm_state
      \<Rightarrow> (vm_state \<times> (string + bytes option)) option" where
  "vm_state_write ext key_ptr key_len data_ptr data_len memory s =
     (case memory of
        None \<Rightarrow> Some (s, Inl ''Memory missing'')
      | Some mem \<Rightarrow>
     (case read_arg mem key_ptr key_len of
        None \<Rightarrow> None
      | Some (Inl e) \<Rightarrow> Some (s, Inl e)
      | Some (Inr key) \<Rightarrow>
     (case read_arg mem data_ptr data_len of
        None \<Rightarrow> None
      | Some (Inl e) \<Rightarrow> Some (s, Inl e)
      | Some (Inr data) \<Rightarrow>
          (case vt_get (vm_tree s) (host_key ext key) of
             Inl _ \<Rightarrow> Some (s, Inl ''State read for write failed: {}'')
           | Inr existing \<Rightarrow>
               (let is_new = (existing = None);
                    cost = (if is_new then STATE_WRITE_NEW_COST else STATE_WRITE_UPDATE_COST)
                in case charge_both (charge_state_write (vm_gas s) is_new) cost s of
                     (s', Inl e) \<Rightarrow> Some (s', Inl e)
                   | (s', Inr _) \<Rightarrow>
                       Some (s'\<lparr>vm_tree := vt_insert (vm_tree s') (host_key ext key) data\<rparr>,
                             Inr None))))))"

definition vm_self_destruct ::
    "externals \<Rightarrow> i32 \<Rightarrow> i32 \<Rightarrow> bytes option \<Rightarrow> vm_state
      \<Rightarrow> (vm_state \<times> (string + bytes option)) option" where
  "vm_self_destruct ext key_ptr key_len memory s =
     (case memory of
        None \<Rightarrow> Some (s, Inl ''Memory missing'')
      | Some mem \<Rightarrow>
     (case read_arg mem key_ptr key_len of
        None \<Rightarrow> None
      | Some (Inl e) \<Rightarrow> Some (s, Inl e)
      | Some (Inr key) \<Rightarrow>
          Some (s\<lparr>vm_gas := refund_self_destruct (vm_gas s),
                  vm_tree := fst (prune_key (vm_tree s) (host_key ext key))\<rparr>, Inr None)))"

fun host_function ::
    "externals \<Rightarrow> host_call \<Rightarrow> bytes option \<Rightarrow> vm_state
      \<Rightarrow> (vm_state \<times> (string + bytes option)) option" where
  "host_function ext (StateRead key_ptr key_len out_ptr out_len) memory s =
     vm_state_read ext key_ptr key_len out_ptr out_len memory s"
| "host_function ext (StateWrite key_ptr key_len data_ptr data_len) memory s =
     vm_state_write ext key_ptr key_len data_ptr data_len memory s"
| "host_function ext (SelfDestruct key_ptr key_len) memory s =
     vm_self_destruct ext key_ptr key_len memory s"

section \<open>Execution\<close>

text \<open>\<open>run_func.call\<close> on the engine's interaction tree; a panic of a host function goes through it.\<close>

primrec run_guest :: "externals \<Rightarrow> guest \<Rightarrow> vm_state \<Rightarrow> (vm_state \<times> (string + unit)) option" where
  "run_guest ext Return s = Some (s, Inr ())"
| "run_guest ext (Trap msg) s = Some (s, Inl msg)"
| "run_guest ext (Compute f) s =
     (let r = map_prod id (run_guest ext) (f (vm_points s)) in snd r (s\<lparr>vm_points := fst r\<rparr>))"
| "run_guest ext (Call c memory k) s =
     (case host_function ext c memory s of
        None \<Rightarrow> None
      | Some r \<Rightarrow>
          (case snd r of
             Inl e \<Rightarrow> Some (fst r, Inl e)
           | Inr reply \<Rightarrow> run_guest ext (k reply) (fst r)))"

definition finish_run ::
    "verkle_tree \<Rightarrow> u64 \<Rightarrow> vm_state \<times> (string + unit) \<Rightarrow> verkle_tree \<times> (vm_error + u64)" where
  "finish_run tree_snapshot limit outcome =
     (case outcome of
        (s, Inr _) \<Rightarrow>
          (case vm_points s of
             None \<Rightarrow> (tree_snapshot, Inl OutOfGas)
           | Some remaining_points \<Rightarrow>
               (let total_used = saturating_sub limit remaining_points
                in (vm_tree s, Inr (fst (finalize_gas (vm_gas s) total_used)))))
      | (s, Inl msg) \<Rightarrow>
          (tree_snapshot,
           Inl (if sublist ''OutOfGas'' msg \<or> sublist ''out of gas'' msg then OutOfGas
                else RuntimeError msg)))"

text \<open>\<open>VMExecutor::execute\<close>; \<open>None\<close> is the panic of \<open>tree.clone()\<close> or of a host function.\<close>

definition execute ::
    "externals \<Rightarrow> pc_ops \<Rightarrow> (bytes \<Rightarrow> wasm_load) \<Rightarrow> bytes \<Rightarrow> verkle_tree \<Rightarrow> u64
      \<Rightarrow> (verkle_tree \<times> (vm_error + u64)) option" where
  "execute ext pc engine wasm_bytes t limit =
     (case vt_clone ext pc t of
        None \<Rightarrow> None
      | Some tree_snapshot \<Rightarrow>
          (case charge_intrinsic (gas_meter_new limit) of
             (g1, Inl e) \<Rightarrow> Some (t, Inl e)
           | (g1, Inr _) \<Rightarrow>
          (case charge_payload g1 wasm_bytes of
             (g2, Inl e) \<Rightarrow> Some (t, Inl e)
           | (g2, Inr _) \<Rightarrow>
          (case engine wasm_bytes of
             BadModule msg \<Rightarrow> Some (t, Inl (WasmError msg))
           | BadInstance msg \<Rightarrow> Some (tree_snapshot, Inl (RuntimeError msg))
           | NoRun msg \<Rightarrow> Some (tree_snapshot, Inl (RuntimeError msg))
           | Loaded guest \<Rightarrow>
               map_option (finish_run tree_snapshot limit)
                 (run_guest ext guest
                    \<lparr>vm_tree = t, vm_gas = g2,
                     vm_points = Some (saturating_sub limit (gm_consumed_host g2))\<rparr>)))))"

text \<open>A guest whose memory holds a key of 32 bytes and a value, which it writes after a metered run;
  \<open>rest\<close> returns, traps or passes a negative length.\<close>

definition demo_memory :: bytes where
  "demo_memory = replicate 32 9 @ [1]"

definition demo_write :: "guest \<Rightarrow> guest" where
  "demo_write rest =
     Compute (\<lambda>p. (case p of None \<Rightarrow> None | Some m \<Rightarrow> if m < 100 then None else Some (m - 100),
       Call (StateWrite 0 32 32 1) (Some demo_memory) (\<lambda>_. rest)))"

section \<open>Cloning a tree\<close>

lemma vt_cloneD:
  assumes "vt_clone ext pc t = Some t'"
  shows "t' = (ensure_node [] (t\<lparr>commitment_cache := fmempty, root_cache := None, dirty := True\<rparr>))"
  using assms
  by (auto simp: vt_clone_def vt_new_def ensure_node_def split: sum.splits if_splits)

lemma root_of_root_node:
  assumes "empty_subtree_roots t' = empty_subtree_roots t"
    and "empty_subtree_scalars t' = empty_subtree_scalars t"
    and same: "\<And>q. q \<noteq> [] \<Longrightarrow> node_at t' q = node_at t q"
  shows "root_of ext pc t' = root_of ext pc t"
proof -
  obtain n where k: "KEY_SIZE = Suc n" by (simp add: KEY_SIZE_def)
  have re: "root_or_empty ext pc t' d r = root_or_empty ext pc t d r" for d r
    unfolding root_or_empty_def assms(1) ..
  have "node_commitment ext pc t' n [x] = node_commitment ext pc t n [x]" for x
    using assms by (intro node_commitment_cong) simp_all
  then show ?thesis
    unfolding root_of_def k using assms
    by (simp add: node_exists_iff re cong: if_cong)
qed

lemma vt_clone_content:
  assumes "vt_clone ext pc t = Some t'"
  shows "vt_get t' key = vt_get t key" and "root_of ext pc t' = root_of ext pc t"
    and "vt_ok ext pc t'" and "pruned_keys t' = pruned_keys t"
proof -
  note t' = vt_cloneD [OF assms]
  have same: "node_at t' q = (if q = [] \<and> node_at t q = None then Some (serialize_node None) else node_at t q)" for q
    by (auto simp: t' node_at_ensure)
  show pk: "pruned_keys t' = pruned_keys t" by (simp add: t')
  show "vt_get t' key = vt_get t key"
    by (auto simp: vt_get_def pk get_node_value_alt same serialize_node_def deserialize_node_def)
  show "root_of ext pc t' = root_of ext pc t"
    by (intro root_of_root_node) (simp_all add: t' node_at_ensure)
  show "vt_ok ext pc t'"
    by (simp add: t' vt_ok_def cache_ok_def cache_hit_def)
qed

section \<open>Lemmas on runs\<close>

text \<open>What one run keeps: the gas meter's books balance, and the metering points never exceed
  what the meter has left.\<close>

definition gas_inv :: "u64 \<Rightarrow> u64 \<Rightarrow> vm_state \<Rightarrow> bool" where
  "gas_inv limit base s \<longleftrightarrow>
     int (unat (gm_consumed_host (vm_gas s))) + gm_remaining (vm_gas s) = int (unat limit)
     \<and> 0 \<le> gm_remaining (vm_gas s) \<and> base \<le> gm_consumed_host (vm_gas s)
     \<and> (case vm_points s of None \<Rightarrow> True
        | Some p \<Rightarrow> unat p + unat (gm_consumed_host (vm_gas s)) \<le> unat limit)"

lemma gas_inv_cong:
  assumes "vm_points s' = vm_points s" and "gm_consumed_host (vm_gas s') = gm_consumed_host (vm_gas s)"
    and "gm_remaining (vm_gas s') = gm_remaining (vm_gas s)"
  shows "gas_inv limit base s' \<longleftrightarrow> gas_inv limit base s"
  unfolding gas_inv_def assms ..

lemma consume_host_ok:
  assumes "consume_host g cost = (g', Inr u)"
    and books: "int (unat (gm_consumed_host g)) + gm_remaining g = int (unat (limit :: u64))"
  shows "unat (gm_consumed_host g') = unat (gm_consumed_host g) + unat cost
    \<and> gm_remaining g' = gm_remaining g - int (unat cost) \<and> 0 \<le> gm_remaining g'
    \<and> gm_refund g' = gm_refund g"
proof -
  have g': "g' = g\<lparr>gm_remaining := gm_remaining g - int (unat cost),
      gm_consumed_host := saturating_add (gm_consumed_host g) cost\<rparr>"
    and ge: "int (unat cost) \<le> gm_remaining g"
    using assms(1) by (auto simp: consume_host_def Let_def split: if_splits)
  have "unat (gm_consumed_host g) + unat cost \<le> unat limit"
    using ge books by linarith
  with unat_bounds(3) [of limit] have "unat (gm_consumed_host g) + unat cost \<le> 2 ^ 64 - 1" by simp
  then have "unat (saturating_add (gm_consumed_host g) cost) = unat (gm_consumed_host g) + unat cost"
    by (simp add: unat_saturating_add)
  with g' ge show ?thesis by simp
qed

lemma charge_both_ok:
  assumes "charge_both (consume_host (vm_gas s) cost) cost s = (s', Inr u)" and "gas_inv limit base s"
  shows "gas_inv limit base s' \<and> vm_tree s' = vm_tree s"
proof -
  obtain g p where g: "consume_host (vm_gas s) cost = (g, Inr ())"
    and p: "charge_metering_from_host (vm_points s) cost = Inr p"
    and s': "s' = s\<lparr>vm_gas := g, vm_points := p\<rparr>"
    using assms(1) by (auto simp: charge_both_def split: prod.splits sum.splits)
  have books: "int (unat (gm_consumed_host (vm_gas s))) + gm_remaining (vm_gas s) = int (unat limit)"
    using assms(2) by (simp add: gas_inv_def)
  obtain m where m: "vm_points s = Some m" "\<not> m < cost" "p = Some (m - cost)"
    using p by (auto simp: charge_metering_from_host_def split: option.splits if_splits)
  then have "unat (m - cost) = unat m - unat cost" and "unat cost \<le> unat m"
    by (simp_all add: unat_sub word_le_nat_alt not_less)
  with consume_host_ok [OF g books] assms(2) m show ?thesis
    by (simp add: gas_inv_def s' word_le_nat_alt)
qed

lemmas host_defs = vm_state_read_def vm_state_write_def vm_self_destruct_def
  charge_state_read_def charge_state_write_def

lemma host_function_gas:
  assumes "host_function ext c mem s = Some (s', Inr r)" and "gas_inv limit base s"
  shows "gas_inv limit base s'"
proof (cases c)
  case (StateRead key_ptr key_len out_ptr out_len)
  with assms show ?thesis
    using charge_both_ok [OF _ assms(2)]
    by (auto simp: host_defs split: prod.splits sum.splits option.splits if_splits)
next
  case (StateWrite key_ptr key_len data_ptr data_len)
  with assms obtain cost s1 where ch: "charge_both (consume_host (vm_gas s) cost) cost s = (s1, Inr ())"
    and s': "\<exists>t. s' = s1\<lparr>vm_tree := t\<rparr>"
    by (auto simp: host_defs Let_def split: prod.splits sum.splits option.splits if_splits)
  from charge_both_ok [OF ch assms(2)] s' show ?thesis
    using gas_inv_cong [of s' s1] by auto
next
  case (SelfDestruct key_ptr key_len)
  with assms(1) have "gas_inv limit base s' \<longleftrightarrow> gas_inv limit base s"
    by (intro gas_inv_cong)
      (auto simp: host_defs refund_self_destruct_def split: option.splits sum.splits)
  with assms(2) show ?thesis by simp
qed

lemma run_guest_gas:
  "metered g \<Longrightarrow> run_guest ext g s = Some (s', Inr u) \<Longrightarrow> gas_inv limit base s \<Longrightarrow> gas_inv limit base s'"
proof (induction arbitrary: s rule: metered.induct)
  case (Compute f)
  obtain q g where f: "f (vm_points s) = (q, g)" by force
  with Compute.prems(1) have run: "run_guest ext g (s\<lparr>vm_points := q\<rparr>) = Some (s', Inr u)" by simp
  have "gas_inv limit base (s\<lparr>vm_points := q\<rparr>)"
    using Compute.IH [rule_format, OF f] Compute.prems(2)
    by (auto simp: gas_inv_def word_le_nat_alt split: option.splits)
  with Compute.IH [rule_format, OF f] run show ?case by blast
next
  case (Call k c mem)
  obtain s1 r where h: "host_function ext c mem s = Some (s1, Inr r)"
    and run: "run_guest ext (k r) s1 = Some (s', Inr u)"
    using Call.prems(1) by (auto split: option.splits sum.splits)
  from Call.IH [rule_format] run host_function_gas [OF h Call.prems(2)] show ?case by blast
qed simp_all

text \<open>A guest that passes no negative length makes no host function panic.\<close>

lemma host_function_total: "call_lengths_ok c \<Longrightarrow> host_function ext c mem s \<noteq> None"
  by (cases c) (auto simp: host_defs Let_def read_arg_def split: prod.splits sum.splits option.splits)

lemma run_guest_total: "lengths_ok g \<Longrightarrow> run_guest ext g s \<noteq> None"
proof (induction arbitrary: s rule: lengths_ok.induct)
  case (Compute f)
  then show ?case by (cases "f (vm_points s)") (metis comp_apply run_guest.simps(3) map_prod_simp snd_conv fst_conv id_apply)
next
  case (Call c k mem)
  obtain s1 r where h: "host_function ext c mem s = Some (s1, r)"
    using host_function_total [OF Call.hyps(1), of ext mem s] by auto
  with Call.IH show ?case by (cases r) auto
qed simp_all

text \<open>A run changes the tree by tree operations only.\<close>

lemma host_key_length: "digest32 ext \<Longrightarrow> length (host_key ext key) = KEY_SIZE"
  by (simp add: host_key_def digest32_def KEY_SIZE_def)

lemma charge_both_tree: "vm_tree (fst (charge_both charged cost s)) = vm_tree s"
  by (auto simp: charge_both_def split: prod.splits sum.splits)

lemma charge_both_treeD: "charge_both charged cost s = (s', r) \<Longrightarrow> vm_tree s' = vm_tree s"
  by (metis charge_both_tree fst_conv)

lemma host_function_tree:
  assumes "digest32 ext" and "host_function ext c mem s = Some (s', r)"
  shows "(vt_step ext' pc)\<^sup>*\<^sup>* (vm_tree s) (vm_tree s')"
proof (cases c)
  case (StateRead key_ptr key_len out_ptr out_len)
  with assms show ?thesis
    using charge_both_tree [of "charge_state_read (vm_gas s)" STATE_READ_COST s]
    by (auto simp: vm_state_read_def split: prod.splits sum.splits option.splits if_splits)
next
  case (StateWrite key_ptr key_len data_ptr data_len)
  then have "vm_tree s' = vm_tree s \<or> (\<exists>k d. vm_tree s' = vt_insert (vm_tree s) (host_key ext k) d)"
    using assms(2)
    by (auto simp: vm_state_write_def Let_def dest!: charge_both_treeD
        split: option.splits prod.splits sum.splits) metis
  moreover have "(vt_step ext' pc)\<^sup>*\<^sup>* (vm_tree s) (vt_insert (vm_tree s) (host_key ext k) d)" for k d
    by (rule r_into_rtranclp, rule vt_step.insert, rule host_key_length [OF assms(1)])
  ultimately show ?thesis by auto
next
  case (SelfDestruct key_ptr key_len)
  then have "vm_tree s' = vm_tree s \<or> (\<exists>k. vm_tree s' = fst (prune_key (vm_tree s) (host_key ext k)))"
    using assms(2) by (auto simp: vm_self_destruct_def split: option.splits sum.splits)
  moreover have "(vt_step ext' pc)\<^sup>*\<^sup>* (vm_tree s) (fst (prune_key (vm_tree s) (host_key ext k)))" for k
    by (rule r_into_rtranclp, rule vt_step.prune, rule host_key_length [OF assms(1)])
  ultimately show ?thesis by auto
qed

lemma run_guest_tree:
  assumes "digest32 ext"
  shows "run_guest ext g s = Some (s', r) \<Longrightarrow> (vt_step ext' pc)\<^sup>*\<^sup>* (vm_tree s) (vm_tree s')"
proof (induction g arbitrary: s)
  case (Compute f)
  obtain q g where f: "f (vm_points s) = (q, g)" by force
  with Compute.prems have run: "run_guest ext g (s\<lparr>vm_points := q\<rparr>) = Some (s', r)" by simp
  have "g \<in> Basic_BNFs.snds (f (vm_points s))" by (simp add: f prod_set_defs)
  from Compute.IH [OF _ this run] show ?case by simp
next
  case (Call c mem k)
  obtain s1 h where h: "host_function ext c mem s = Some (s1, h)"
    using Call.prems by (auto split: option.splits)
  have first: "(vt_step ext' pc)\<^sup>*\<^sup>* (vm_tree s) (vm_tree s1)"
    by (rule host_function_tree [OF assms h])
  show ?case
  proof (cases h)
    case (Inl e)
    with Call.prems h first show ?thesis by auto
  next
    case (Inr reply)
    with Call.prems h have "run_guest ext (k reply) s1 = Some (s', r)" by simp
    from Call.IH [OF _ this] first show ?thesis
      by (meson rangeI rtranclp_trans)
  qed
qed simp_all

lemma finalize_gas_bounds:
  assumes "finalize_gas g used_gas = (net, given)"
  shows "unat net + unat given = unat used_gas \<and> 5 * unat given \<le> unat used_gas \<and> unat given \<le> unat (gm_refund g)"
proof -
  have given: "given = min (gm_refund g) (used_gas div 5)" and net: "net = saturating_sub used_gas given"
    using assms by (auto simp: finalize_gas_def Let_def)
  have "unat given \<le> unat (used_gas div 5)" and r: "unat given \<le> unat (gm_refund g)"
    by (simp_all add: given min_def word_le_nat_alt)
  then have "5 * unat given \<le> unat used_gas"
    by (simp add: unat_div)
  with r net show ?thesis by (simp add: unat_saturating_sub)
qed

lemma charged_meter:
  assumes "charge_intrinsic (gas_meter_new limit) = (g1, Inr u)" and "charge_payload g1 wasm = (g2, Inr v)"
  shows "gas_inv limit (gm_consumed_host g2)
      \<lparr>vm_tree = t, vm_gas = g2, vm_points = Some (saturating_sub limit (gm_consumed_host g2))\<rparr>
    \<and> unat (gm_consumed_host g2) = 21000 + unat (payload_cost wasm)"
proof -
  have b0: "int (unat (gm_consumed_host (gas_meter_new limit))) + gm_remaining (gas_meter_new limit)
      = int (unat limit)" by (simp add: gas_meter_new_def)
  note c1 = consume_host_ok [OF assms(1) [unfolded charge_intrinsic_def] b0]
  then have b1: "int (unat (gm_consumed_host g1)) + gm_remaining g1 = int (unat limit)"
    using b0 by simp
  note c2 = consume_host_ok [OF assms(2) [unfolded charge_payload_def] b1]
  have h1: "unat (gm_consumed_host g1) = 21000"
    using c1 by (simp add: gas_meter_new_def INTRINSIC_GAS_def)
  then have "21000 + unat (payload_cost wasm) \<le> unat limit"
    using c2 b1 by linarith
  with h1 c2 b1 show ?thesis
    by (simp add: gas_inv_def unat_saturating_sub)
qed

lemma execute_outcome:
  assumes "execute ext pc engine wasm t limit = Some (t', r)"
  obtains (failed) "\<not> is_ok r" "t' = t"
  | (restored) "\<not> is_ok r" "vt_clone ext pc t = Some t'"
  | (returned) g1 g2 g s p where "charge_intrinsic (gas_meter_new limit) = (g1, Inr ())"
      "charge_payload g1 wasm = (g2, Inr ())" "engine wasm = Loaded g"
      "run_guest ext g \<lparr>vm_tree = t, vm_gas = g2,
         vm_points = Some (saturating_sub limit (gm_consumed_host g2))\<rparr> = Some (s, Inr ())"
      "vm_points s = Some p" "t' = vm_tree s"
      "r = Inr (fst (finalize_gas (vm_gas s) (saturating_sub limit p)))"
proof -
  obtain snap where snap: "vt_clone ext pc t = Some snap"
    using assms by (auto simp: execute_def split: option.splits)
  obtain g1 r1 where c1: "charge_intrinsic (gas_meter_new limit) = (g1, r1)" by force
  obtain g2 r2 where c2: "charge_payload g1 wasm = (g2, r2)" by force
  show thesis
  proof (cases "is_ok r1 \<and> is_ok r2")
    case False
    then have "\<not> is_ok r \<and> t' = t"
      using assms snap c1 c2 by (auto simp: execute_def is_ok_iff split: sum.splits)
    with failed show ?thesis by blast
  next
    case ok: True
    then have r: "r1 = Inr ()" "r2 = Inr ()" by (auto simp: is_ok_iff)
    show ?thesis
    proof (cases "engine wasm")
      case (Loaded g)
      obtain s res where run: "run_guest ext g \<lparr>vm_tree = t, vm_gas = g2,
          vm_points = Some (saturating_sub limit (gm_consumed_host g2))\<rparr> = Some (s, res)"
        using assms snap c1 c2 r Loaded by (auto simp: execute_def)
      then have fin: "finish_run snap limit (s, res) = (t', r)"
        using assms snap c1 c2 r Loaded by (simp add: execute_def)
      show ?thesis
      proof (cases "\<exists>p. res = Inr () \<and> vm_points s = Some p")
        case True
        then obtain p where "res = Inr ()" "vm_points s = Some p" by blast
        with returned [OF _ _ Loaded] c1 c2 r run fin show ?thesis
          by (auto simp: finish_run_def Let_def)
      next
        case False
        then have "t' = snap \<and> \<not> is_ok r"
          using fin by (cases res; cases "vm_points s") (auto simp: finish_run_def)
        with restored snap show ?thesis by blast
      qed
    qed (use assms snap c1 c2 r failed restored in \<open>auto simp: execute_def\<close>)
  qed
qed

lemma execute_effect:
  assumes "execute ext pc engine wasm t limit = Some (t', r)" and "vt_ok ext pc t" and "digest32 ext"
  shows "vt_ok ext pc t' \<and> (case r of
      Inl _ \<Rightarrow> (\<forall>key. vt_get t' key = vt_get t key) \<and> root_of ext pc t' = root_of ext pc t
    | Inr _ \<Rightarrow> (vt_step ext pc)\<^sup>*\<^sup>* t t')"
  using assms(1)
proof (cases rule: execute_outcome)
  case failed
  with assms(2) show ?thesis by (cases r) auto
next
  case restored
  with vt_clone_content [OF restored(2)] show ?thesis by (cases r) auto
next
  case (returned g1 g2 g s p)
  then have "(vt_step ext pc)\<^sup>*\<^sup>* t t'"
    using run_guest_tree [OF assms(3) returned(4), of ext pc] by simp
  with returned(7) vt_steps_ok [OF _ assms(2)] show ?thesis by simp
qed

lemma execute_keeps_ok:
  "execute ext pc engine wasm t limit = Some (t', r) \<Longrightarrow> vt_ok ext pc t \<Longrightarrow> digest32 ext \<Longrightarrow> vt_ok ext pc t'"
  by (drule (2) execute_effect) (rule conjunct1)

text \<open>Execution panics only through a failed clone or a guest that passes a negative length.\<close>

lemma execute_total:
  assumes "vt_clone ext pc t \<noteq> None" and "\<And>g. engine wasm = Loaded g \<Longrightarrow> lengths_ok g"
  shows "execute ext pc engine wasm t limit \<noteq> None"
  using assms
  by (auto simp: execute_def run_guest_total simp del: not_None_eq split: option.splits prod.splits sum.splits wasm_load.splits)

section \<open>Properties\<close>

text \<open>C13: gas bounds of a successful execution: the gas a contract run reports never exceeds its gas
  limit, and however many refunds the guest collects it pays at least four fifths of the
  intrinsic and payload cost, provided the metering middleware never adds points.\<close>

theorem execute_gas_bounds:
  assumes "execute ext pc engine wasm t limit = Some (t', Inr used)"
    and "\<And>g. engine wasm = Loaded g \<Longrightarrow> metered g"
  shows "used \<le> limit \<and> 4 * (21000 + unat (payload_cost wasm)) \<le> 5 * unat used"
proof -
  obtain g1 g2 g s p where c1: "charge_intrinsic (gas_meter_new limit) = (g1, Inr ())"
    and c2: "charge_payload g1 wasm = (g2, Inr ())" and eng: "engine wasm = Loaded g"
    and run: "run_guest ext g \<lparr>vm_tree = t, vm_gas = g2,
      vm_points = Some (saturating_sub limit (gm_consumed_host g2))\<rparr> = Some (s, Inr ())"
    and p: "vm_points s = Some p"
    and used: "used = fst (finalize_gas (vm_gas s) (saturating_sub limit p))"
    using assms(1) by (rule execute_outcome) auto
  note start = charged_meter [OF c1 c2, of t]
  have "gas_inv limit (gm_consumed_host g2) s"
    using run_guest_gas [OF assms(2) [OF eng] run] start by blast
  then have "unat p + (21000 + unat (payload_cost wasm)) \<le> unat limit"
    using start p by (simp add: gas_inv_def word_le_nat_alt)
  moreover obtain given where "finalize_gas (vm_gas s) (saturating_sub limit p) = (used, given)"
    using used by (cases "finalize_gas (vm_gas s) (saturating_sub limit p)") simp
  ultimately show ?thesis
    using finalize_gas_bounds by (fastforce simp: unat_saturating_sub word_le_nat_alt)
qed

text \<open>C12: contract runs are atomic on the tree: when execution fails, whatever the guest wrote or
  destroyed, every key reads as before and the root is the one before; when it succeeds, the tree
  is reached by tree operations, so its root still is the root of its stored nodes.\<close>

theorem execute_atomic:
  assumes "execute ext pc engine wasm t limit = Some (t', r)" and "vt_ok ext pc t" and "digest32 ext"
  shows "vt_ok ext pc t' \<and> (case r of
      Inl _ \<Rightarrow> (\<forall>key. vt_get t' key = vt_get t key) \<and> root_of ext pc t' = root_of ext pc t
    | Inr _ \<Rightarrow> (vt_step ext pc)\<^sup>*\<^sup>* t t')"
  using assms by (rule execute_effect)

lemma demo_write_metered: "metered rest \<Longrightarrow> metered (demo_write rest)"
  by (auto simp: demo_write_def word_le_nat_alt unat_sub not_less
      intro!: metered.Compute metered.Call split: option.splits)

lemma demo_write_lengths: "lengths_ok rest \<Longrightarrow> lengths_ok (demo_write rest)"
  by (auto simp: demo_write_def intro!: lengths_ok.Compute lengths_ok.Call)

lemma demo_clone: "\<exists>t. vt_clone ext demo_pc demo_tree = Some t"
  using demo_vt_new [of ext] by (auto simp: vt_clone_def demo_tree_def)

lemma demo_write_run:
  "run_guest ext (demo_write rest) \<lparr>vm_tree = demo_tree, vm_gas = g, vm_points = Some 78980\<rparr>
   = run_guest ext rest \<lparr>vm_tree = vt_insert demo_tree (replicate 32 9) [1],
       vm_gas = g\<lparr>gm_remaining := gm_remaining g - 20000,
         gm_consumed_host := saturating_add (gm_consumed_host g) 20000\<rparr>, vm_points = Some 58880\<rparr>"
  if "20000 \<le> gm_remaining g"
  using that
  by (simp add: demo_write_def vm_state_write_def host_key_def vt_get_def demo_tree_def
      get_node_value_def storage_get_def memory_storage_new_def charge_state_write_def consume_host_def
      charge_both_def charge_metering_from_host_def STATE_WRITE_NEW_COST_def Let_def
      read_arg_def mem_range_def demo_memory_def)

lemma demo_execute:
  "\<exists>g. gm_remaining g = 78980 \<and> gm_consumed_host g = 21020 \<and> gm_refund g = 0
   \<and> (\<exists>snap. execute ext demo_pc (\<lambda>_. Loaded (demo_write rest)) [1, 0] demo_tree 100000
     = map_option (finish_run snap 100000) (run_guest ext (demo_write rest)
         \<lparr>vm_tree = demo_tree, vm_gas = g, vm_points = Some 78980\<rparr>))"
  using demo_clone [of ext]
  by (intro exI [of _ "\<lparr>gm_initial = 100000, gm_remaining = 78980, gm_consumed_wasm = 0,
        gm_consumed_host = 21020, gm_refund = 0\<rparr>"])
    (auto simp: execute_def charge_intrinsic_def charge_payload_def payload_cost_def consume_host_def
      gas_meter_new_def INTRINSIC_GAS_def saturating_add_def saturating_sub_def Let_def
      word_le_nat_alt)

text \<open>A guest can bring the node down: one host call with a negative length panics, and the panic
  goes through \<open>execute\<close>.\<close>

lemma negative_length_panics:
  "execute ext demo_pc (\<lambda>_. Loaded (demo_write (Call (SelfDestruct 0 (- 1)) (Some mem) k))) [1, 0]
     demo_tree 100000 = None"
  using demo_execute [of ext "Call (SelfDestruct 0 (- 1)) (Some mem) k"]
  by (auto simp: demo_write_run vm_self_destruct_def read_arg_def)

theorem execute_gas_bounds_witness:
  "\<exists>t'. execute demo_hash_ext demo_pc (\<lambda>_. Loaded (demo_write Return)) [1, 0] demo_tree 100000
     = Some (t', Inr 41120) \<and> (41120 :: u64) \<le> 100000
     \<and> 4 * (21000 + unat (payload_cost [1, 0])) \<le> 5 * unat (41120 :: u64)"
proof -
  obtain t' where run: "execute demo_hash_ext demo_pc (\<lambda>_. Loaded (demo_write Return)) [1, 0] demo_tree 100000
      = Some (t', Inr 41120)"
    using demo_execute [of demo_hash_ext Return]
    by (auto simp: demo_write_run finish_run_def finalize_gas_def Let_def saturating_sub_def
        saturating_add_def word_le_nat_alt)
  have "\<And>g. Loaded (demo_write Return) = Loaded g \<Longrightarrow> metered g"
    by (auto intro: demo_write_metered metered.Return)
  from execute_gas_bounds [OF run this] run show ?thesis by blast
qed

theorem execute_atomic_witness:
  "\<exists>t'. execute demo_hash_ext demo_pc (\<lambda>_. Loaded (demo_write (Trap ''boom''))) [1, 0] demo_tree 100000
     = Some (t', Inl (RuntimeError ''boom'')) \<and> vt_ok demo_hash_ext demo_pc demo_tree
     \<and> digest32 demo_hash_ext
     \<and> vt_get t' (replicate 32 9) = vt_get demo_tree (replicate 32 9)"
proof -
  have msg: "\<not> sublist ''OutOfGas'' ''boom''" "\<not> sublist ''out of gas'' ''boom''"
    by (auto dest: sublist_length_le)
  obtain t' where run: "execute demo_hash_ext demo_pc (\<lambda>_. Loaded (demo_write (Trap ''boom''))) [1, 0]
      demo_tree 100000 = Some (t', Inl (RuntimeError ''boom''))"
    using demo_execute [of demo_hash_ext "Trap ''boom''"]
    by (auto simp: demo_write_run finish_run_def msg)
  have ok: "vt_ok demo_hash_ext demo_pc demo_tree"
    by (simp add: vt_ok_def cache_ok_def cache_hit_def demo_tree_def)
  have dig: "digest32 demo_hash_ext"
    by (auto simp: digest32_def demo_hash_ext_def min_def)
  from execute_atomic [OF run ok dig] run ok dig show ?thesis by auto
qed

end
