(* ===== verification/State_Manager.thy ===== *)
theory State_Manager
  imports Blockchain_State Block_Validation Vm
begin

text \<open>
  The state manager: \<open>core/state_manager.rs\<close>, applying blocks. A block is applied to the Verkle
  tree, to the UTXO set the caller owns and to the manager's own tables; undo data and a snapshot
  are recorded for it. A panic of the source is the value \<open>None\<close>. Disconnecting blocks,
  reorganizing and rolling back are in \<open>Chain_Reorg\<close>.
\<close>

section \<open>State\<close>

record gas_fee_witness =
  total_gas_fee :: u128
  miner_share :: u128
  fullnode_share :: u128

record state_snapshot =
  snap_height :: u64
  snap_root :: bytes
  snap_total_supply :: u128
  snap_gas_fees :: "gas_fee_witness list"
  last_block_hash :: "hash option"

text \<open>\<open>total_supply_delta\<close> is an \<open>i128\<close> that adds and subtracts \<open>u64\<close> values.\<close>

record block_undo =
  spent_utxos :: "(outpoint \<times> tx_output) list"
  created_utxos :: "outpoint list"
  verkle_updates :: "(bytes \<times> bytes option) list"
  total_supply_delta :: int
  gas_fees_added :: "gas_fee_witness list"

datatype state_manager_error =
    InvalidRollback string
  | SnapshotNotFound u64
  | ApplyBlockFailed string
  | RestoreFailed string
  | SmCryptographicError string
  | SmSerializationError string
  | SupplyCapExceeded string
  | BurnAddressViolation string

record state_manager =
  sm_tree :: verkle_tree
  current_height :: u64
  snapshots :: "state_snapshot list"
  snapshot_storages :: "memory_storage list"
  sm_prune_markers :: "(outpoint, prune_marker) fmap"
  outpoint_to_key :: "(outpoint, bytes) fmap"
  current_total_supply :: u128
  block_gas_fees :: "gas_fee_witness list"
  pending_updates :: "(bytes \<times> bytes) list"
  applying_block :: bool
  block_undo_data :: "(hash, block_undo) fmap"
  current_block_hash :: "hash option"

definition undo_new :: block_undo where
  "undo_new = \<lparr>spent_utxos = [], created_utxos = [], verkle_updates = [],
     total_supply_delta = 0, gas_fees_added = []\<rparr>"

definition state_manager_new ::
    "externals \<Rightarrow> pc_ops \<Rightarrow> verkle_tree \<Rightarrow> state_manager_error + state_manager" where
  "state_manager_new ext pc tree =
     (case get_root ext pc tree of
        (_, Inl _) \<Rightarrow> Inl (SmCryptographicError ''Failed to get root: {}'')
      | (tree', Inr root) \<Rightarrow> Inr
          \<lparr>sm_tree = tree', current_height = 0,
           snapshots = [\<lparr>snap_height = 0, snap_root = root, snap_total_supply = 0,
                         snap_gas_fees = [], last_block_hash = None\<rparr>],
           snapshot_storages = [storage tree'], sm_prune_markers = fmempty,
           outpoint_to_key = fmempty, current_total_supply = 0, block_gas_fees = [],
           pending_updates = [], applying_block = False, block_undo_data = fmempty,
           current_block_hash = None\<rparr>)"

section \<open>Gas fees and the supply cap\<close>

text \<open>The \<open>u128\<close> product wraps, as in a release build.\<close>

definition create_gas_fee_witness :: "u128 \<Rightarrow> gas_fee_witness" where
  "create_gas_fee_witness fee =
     (let miner = (fee * MINER_REWARD_PERCENT) div 100
      in \<lparr>total_gas_fee = fee, miner_share = miner, fullnode_share = saturating_sub fee miner\<rparr>)"

definition verify_gas_fee_distribution :: "gas_fee_witness \<Rightarrow> bool" where
  "verify_gas_fee_distribution w \<longleftrightarrow>
     (let expected_miner = (total_gas_fee w * MINER_REWARD_PERCENT) div 100;
          expected_fullnode = saturating_sub (total_gas_fee w) expected_miner
      in miner_share w = expected_miner \<and> fullnode_share w = expected_fullnode
         \<and> miner_share w + fullnode_share w = total_gas_fee w)"

definition verify_global_supply :: "state_manager \<Rightarrow> state_manager_error + unit" where
  "verify_global_supply self =
     (if MAX_GLOBAL_SUPPLY_NANO_SLUG < current_total_supply self
      then Inl (SupplyCapExceeded ''Total supply {} exceeds maximum allowed {}'')
      else Inr ())"

section \<open>Applying transactions\<close>

text \<open>What applying a transaction mutates: the manager, the UTXO set and the undo data.\<close>

type_synonym work = "state_manager \<times> utxo_set \<times> block_undo"

fun consume_inputs :: "work \<Rightarrow> tx_input list \<Rightarrow> work \<times> (state_manager_error + unit)" where
  "consume_inputs w [] = (w, Inr ())"
| "consume_inputs (self, u, undo) (i # ins) =
     (case fmlookup (utxos u) (outpoint_of i) of
        None \<Rightarrow> ((self, u, undo),
          Inl (ApplyBlockFailed ''Missing UTXO input in transaction {} at outpoint {:?}''))
      | Some out \<Rightarrow>
          consume_inputs
            (self\<lparr>current_total_supply :=
                     saturating_sub (current_total_supply self) (ucast (out_value out)),
                  outpoint_to_key := fmdrop (outpoint_of i) (outpoint_to_key self),
                  sm_prune_markers := fmdrop (outpoint_of i) (sm_prune_markers self)\<rparr>,
             u\<lparr>utxos := fmdrop (outpoint_of i) (utxos u)\<rparr>,
             undo\<lparr>spent_utxos := spent_utxos undo @ [(outpoint_of i, out)],
                  total_supply_delta := total_supply_delta undo - int (unat (out_value out))\<rparr>)
            ins)"

text \<open>One output; \<open>i as u32\<close> truncates.\<close>

definition produce_output :: "externals \<Rightarrow> transaction \<Rightarrow> nat \<Rightarrow> tx_output \<Rightarrow> work \<Rightarrow> work" where
  "produce_output ext tx n out w =
     (case w of (self, u, undo) \<Rightarrow>
        let key = hash_with_index ext tx (of_nat n);
            outpoint = (tx_id tx, of_nat n);
            old_value = (case vt_get (sm_tree self) key of Inl _ \<Rightarrow> None | Inr v \<Rightarrow> v)
        in (self\<lparr>pending_updates := pending_updates self @ [(key, serialize_output out)],
                 outpoint_to_key := fmupd outpoint key (outpoint_to_key self),
                 current_total_supply :=
                   saturating_add (current_total_supply self) (ucast (out_value out))\<rparr>,
            u\<lparr>utxos := fmupd outpoint out (utxos u)\<rparr>,
            undo\<lparr>verkle_updates := verkle_updates undo @ [(key, old_value)],
                 created_utxos := created_utxos undo @ [outpoint],
                 total_supply_delta := total_supply_delta undo + int (unat (out_value out))\<rparr>))"

definition produce_outputs :: "externals \<Rightarrow> transaction \<Rightarrow> work \<Rightarrow> work" where
  "produce_outputs ext tx w =
     fold (\<lambda>(n, out). produce_output ext tx n out) (List.enumerate 0 (outputs tx)) w"

definition apply_utxo_transaction ::
    "externals \<Rightarrow> work \<Rightarrow> transaction \<Rightarrow> work \<times> (state_manager_error + unit)" where
  "apply_utxo_transaction ext w tx =
     (case consume_inputs w (inputs tx) of
        (w', Inl e) \<Rightarrow> (w', Inl e)
      | (w', Inr _) \<Rightarrow> (produce_outputs ext tx w', Inr ()))"

definition required_gas :: "transaction \<Rightarrow> u64" where
  "required_gas tx =
     saturating_add 21000
       (fold (\<lambda>b acc. acc + (if b = 0 then 4 else 16)) (execution_payload tx) 0)"

definition apply_contract_transition ::
    "externals \<Rightarrow> pc_ops \<Rightarrow> (bytes \<Rightarrow> wasm_load) \<Rightarrow> work \<Rightarrow> transaction
      \<Rightarrow> (work \<times> (state_manager_error + unit)) option" where
  "apply_contract_transition ext pc engine w tx =
     (case w of (self, u, undo) \<Rightarrow>
        if gas_limit tx < required_gas tx
        then Some (w, Inl (ApplyBlockFailed
          ''Insufficient gas limit ({}), required {} for intrinsic+payload cost {} bytes''))
        else
          (case (vt_clone ext pc (sm_tree self),
                 execute ext pc engine (execution_payload tx) (sm_tree self) (gas_limit tx)) of
             (Some tree_snapshot, Some (tree', Inr gas_used)) \<Rightarrow>
               (let fee = saturating_mul (ucast gas_used) (max_fee_per_gas tx);
                    gas_witness = create_gas_fee_witness fee
                in Some (apply_utxo_transaction ext
                     (self\<lparr>sm_tree := tree', block_gas_fees := block_gas_fees self @ [gas_witness]\<rparr>,
                      u, undo\<lparr>gas_fees_added := gas_fees_added undo @ [gas_witness]\<rparr>) tx))
           | (Some tree_snapshot, Some (_, Inl _)) \<Rightarrow>
               Some ((self\<lparr>sm_tree := tree_snapshot\<rparr>, u, undo),
                     Inl (ApplyBlockFailed ''VM execution failed: {}''))
           | _ \<Rightarrow> None))"

definition apply_transaction ::
    "externals \<Rightarrow> pc_ops \<Rightarrow> (bytes \<Rightarrow> wasm_load) \<Rightarrow> work \<Rightarrow> transaction
      \<Rightarrow> (work \<times> (state_manager_error + unit)) option" where
  "apply_transaction ext pc engine w tx =
     (if execution_payload tx = [] \<and> contract_address tx = None
      then Some (apply_utxo_transaction ext w tx)
      else apply_contract_transition ext pc engine w tx)"

fun apply_transactions ::
    "externals \<Rightarrow> pc_ops \<Rightarrow> (bytes \<Rightarrow> wasm_load) \<Rightarrow> work \<Rightarrow> transaction list
      \<Rightarrow> (work \<times> (state_manager_error + unit)) option" where
  "apply_transactions ext pc engine w [] = Some (w, Inr ())"
| "apply_transactions ext pc engine w (tx # txs) =
     (case apply_transaction ext pc engine w tx of
        None \<Rightarrow> None
      | Some (w', Inl e) \<Rightarrow> Some (w', Inl e)
      | Some (w', Inr _) \<Rightarrow> apply_transactions ext pc engine w' txs)"

section \<open>Applying blocks\<close>

text \<open>What both failure branches restore from the values saved at the start; the tables of
  snapshots and undo data are not touched before success.\<close>

definition restore_saved :: "state_manager \<Rightarrow> verkle_tree \<Rightarrow> state_manager \<Rightarrow> state_manager" where
  "restore_saved saved snapshot_tree self =
     self\<lparr>sm_tree := snapshot_tree, current_height := current_height saved,
          current_total_supply := current_total_supply saved,
          block_gas_fees := block_gas_fees saved, pending_updates := pending_updates saved,
          sm_prune_markers := sm_prune_markers saved, outpoint_to_key := outpoint_to_key saved,
          current_block_hash := current_block_hash saved\<rparr>"

text \<open>The commit after all updates were applied. Indexing the snapshots by the old height
  panics when it is out of range.\<close>

definition unwrap_root :: "core_error + bytes \<Rightarrow> bytes" where
  "unwrap_root r = (case r of Inl _ \<Rightarrow> replicate 32 0 | Inr root \<Rightarrow> root)"

definition commit_block ::
    "externals \<Rightarrow> pc_ops \<Rightarrow> block_node \<Rightarrow> block_undo \<Rightarrow> state_manager \<Rightarrow> state_manager option" where
  "commit_block ext pc block undo self =
     (let old_height = current_height self;
          block_hash = header_id (header block)
      in case get_root ext pc (sm_tree self) of
        (tree', r) \<Rightarrow>
          if length (snapshots self) \<le> unat old_height then None
          else Some (self\<lparr>sm_tree := tree', current_height := old_height + 1,
            current_block_hash := Some block_hash,
            snapshots := snapshots self @
              [\<lparr>snap_height = old_height + 1, snap_root = unwrap_root r,
                snap_total_supply = current_total_supply self,
                snap_gas_fees = block_gas_fees self, last_block_hash = Some block_hash\<rparr>],
            snapshot_storages := snapshot_storages self @ [storage tree'],
            block_undo_data := fmupd block_hash undo (block_undo_data self)\<rparr>))"

definition sm_apply_block ::
    "externals \<Rightarrow> pc_ops \<Rightarrow> (bytes \<Rightarrow> wasm_load) \<Rightarrow> state_manager \<Rightarrow> block_node \<Rightarrow> utxo_set
      \<Rightarrow> (state_manager \<times> utxo_set \<times> (state_manager_error + unit)) option" where
  "sm_apply_block ext pc engine self block u =
     (if applying_block self
      then Some (self, u, Inl (ApplyBlockFailed ''Concurrent block application not allowed''))
      else case vt_clone ext pc (sm_tree self) of
        None \<Rightarrow> None
      | Some snapshot_tree \<Rightarrow>
          (case apply_transactions ext pc engine
                  (self\<lparr>applying_block := True, pending_updates := [], block_gas_fees := []\<rparr>,
                   u, undo_new) (transactions block) of
             None \<Rightarrow> None
           | Some ((self1, u1, undo), Inl e) \<Rightarrow>
               Some ((restore_saved self snapshot_tree self1)\<lparr>applying_block := False\<rparr>, u, Inl e)
           | Some ((self1, u1, undo), Inr _) \<Rightarrow>
               (case apply_state_transition (sm_tree self1) (pending_updates self1)
                       (current_total_supply self1) of
                  (tree2, Inl _) \<Rightarrow>
                    Some ((restore_saved self snapshot_tree (self1\<lparr>sm_tree := tree2\<rparr>))
                            \<lparr>applying_block := False\<rparr>, u,
                          Inl (ApplyBlockFailed ''State transition failed: {}''))
                | (tree2, Inr _) \<Rightarrow>
                    (case commit_block ext pc block undo (self1\<lparr>sm_tree := tree2\<rparr>) of
                       None \<Rightarrow> None
                     | Some self3 \<Rightarrow> Some (self3\<lparr>applying_block := False\<rparr>, u1, Inr ())))))"

text \<open>\<open>now\<close> is the system clock, \<open>None\<close> before the epoch; \<open>arrival\<close> the order in which batch
  verification delivers its results.\<close>

definition validate_and_apply_block ::
    "externals \<Rightarrow> pc_ops \<Rightarrow> (bytes \<Rightarrow> wasm_load) \<Rightarrow> (bool list \<Rightarrow> bool list) \<Rightarrow> u64 option
      \<Rightarrow> state_manager \<Rightarrow> block_node \<Rightarrow> utxo_set \<Rightarrow> dag \<Rightarrow> ghostdag
      \<Rightarrow> (state_manager \<times> utxo_set \<times> (state_manager_error + unit)) option" where
  "validate_and_apply_block ext pc engine arrival now self block u g consensus =
     (case now of
        None \<Rightarrow> Some (self, u, Inl (SmCryptographicError ''Time error: {}''))
      | Some current_time \<Rightarrow>
          (case validate_block ext arrival block g (sm_tree self) current_time of
             Inl _ \<Rightarrow> Some (self, u, Inl (SmCryptographicError ''CoreError: {}''))
           | Inr _ \<Rightarrow>
               (case can_reorganize consensus g (header_id (header block)) of
                  Inl _ \<Rightarrow> Some (self, u, Inl (SmCryptographicError ''CoreError: {}''))
                | Inr allowed \<Rightarrow>
                    (if \<not> allowed
                     then Some (self, u, Inl (ApplyBlockFailed
                       ''Block reorganization would violate finality constraints''))
                     else sm_apply_block ext pc engine self block u))))"

section \<open>Stateful validation\<close>

definition missing_input :: "utxo_set \<Rightarrow> transaction \<Rightarrow> bool" where
  "missing_input u tx \<longleftrightarrow>
     \<not> is_coinbase tx \<and> list_ex (\<lambda>i. outpoint_of i |\<notin>| fmdom (utxos u)) (inputs tx)"

text \<open>The root comparison made once for every transaction.\<close>

fun check_roots ::
    "externals \<Rightarrow> pc_ops \<Rightarrow> block_node \<Rightarrow> verkle_tree \<Rightarrow> transaction list
      \<Rightarrow> verkle_tree \<times> (core_error + unit)" where
  "check_roots ext pc block t [] = (t, Inr ())"
| "check_roots ext pc block t (tx # txs) =
     (case get_root ext pc t of
        (t', Inr current_root) \<Rightarrow>
          (if verkle_root (header block) \<noteq> hash_from_bytes current_root \<and> transactions block \<noteq> []
           then (t', Inl (ValidationError
             ''Verkle root mismatch: block declares {:?}, current state is {:?}''))
           else check_roots ext pc block t' txs)
      | (t', Inl _) \<Rightarrow> check_roots ext pc block t' txs)"

definition stateful_input :: "utxo_set \<Rightarrow> transaction \<Rightarrow> u64" where
  "stateful_input u tx =
     fold (\<lambda>i acc. case fmlookup (utxos u) (outpoint_of i) of
             Some out \<Rightarrow> saturating_add acc (out_value out) | None \<Rightarrow> acc) (inputs tx) 0"

definition stateful_output :: "transaction \<Rightarrow> u64" where
  "stateful_output tx = fold (\<lambda>out acc. saturating_add acc (out_value out)) (outputs tx) 0"

text \<open>\<open>gas_fee as u64\<close> keeps the low 64 bits.\<close>

definition inflates :: "utxo_set \<Rightarrow> transaction \<Rightarrow> bool" where
  "inflates u tx \<longleftrightarrow> \<not> is_coinbase tx \<and>
     (let gas_fee = saturating_mul (ucast (gas_limit tx)) (max_fee_per_gas tx)
      in stateful_input u tx < saturating_add (stateful_output tx) (ucast gas_fee))"

definition validate_block_stateful ::
    "externals \<Rightarrow> pc_ops \<Rightarrow> state_manager \<Rightarrow> block_node \<Rightarrow> utxo_set
      \<Rightarrow> state_manager \<times> (core_error + unit)" where
  "validate_block_stateful ext pc self block u =
     (if list_ex (missing_input u) (transactions block)
      then (self, Inl (ValidationError
        ''Double spend detected: input {:?} in transaction {} is already spent or doesn't exist''))
      else
        case (if verkle_proofs (header block) = None then (sm_tree self, Inr ())
              else check_roots ext pc block (sm_tree self) (transactions block)) of
          (t', Inl e) \<Rightarrow> (self\<lparr>sm_tree := t'\<rparr>, Inl e)
        | (t', Inr _) \<Rightarrow>
            (self\<lparr>sm_tree := t'\<rparr>,
             if list_ex (inflates u) (transactions block)
             then Inl (ValidationError
               ''Inflation detected in transaction {}: input {} < output {} + fee {}'')
             else Inr ()))"

section \<open>Specification\<close>

text \<open>The parts of the manager that only a committed block changes.\<close>

definition same_records :: "state_manager \<Rightarrow> state_manager \<Rightarrow> bool" where
  "same_records self self' \<longleftrightarrow>
     current_height self' = current_height self \<and> snapshots self' = snapshots self
     \<and> snapshot_storages self' = snapshot_storages self \<and> applying_block self' = applying_block self
     \<and> block_undo_data self' = block_undo_data self \<and> current_block_hash self' = current_block_hash self"

text \<open>The outputs a list of transactions spends, with their values at the time they are spent.\<close>

definition spent_by :: "utxo_set \<Rightarrow> transaction \<Rightarrow> (outpoint \<times> tx_output) list" where
  "spent_by u tx = map (\<lambda>k. (k, the (fmlookup (utxos u) k))) (outpoints tx)"

fun spent_in :: "utxo_set \<Rightarrow> transaction list \<Rightarrow> (outpoint \<times> tx_output) list" where
  "spent_in u [] = []"
| "spent_in u (tx # txs) = spent_by u tx @ spent_in (tx_effect u tx) txs"

fun spendable :: "utxo_set \<Rightarrow> transaction list \<Rightarrow> bool" where
  "spendable u [] = True"
| "spendable u (tx # txs) \<longleftrightarrow> distinct (outpoints tx) \<and> set (outpoints tx) \<subseteq> fmdom' (utxos u)
     \<and> spendable (tx_effect u tx) txs"

definition block_output_value :: "transaction list \<Rightarrow> nat" where
  "block_output_value txs = (\<Sum>tx\<leftarrow>txs. outputs_value tx)"

text \<open>The manager's supply counter agrees with the UTXO set.\<close>

definition supply_ok :: "state_manager \<Rightarrow> utxo_set \<Rightarrow> bool" where
  "supply_ok self u \<longleftrightarrow> unat (current_total_supply self) = total_value u"

section \<open>Lemmas on transactions\<close>

lemma same_records_refl [simp]: "same_records s s"
  by (simp add: same_records_def)

lemma same_records_trans: "same_records a b \<Longrightarrow> same_records b c \<Longrightarrow> same_records a c"
  by (simp add: same_records_def)

lemma consume_inputs_frame:
  "consume_inputs w ins = (w', r) \<Longrightarrow> same_records (fst w) (fst w') \<and> sm_tree (fst w') = sm_tree (fst w)"
proof (induction w ins arbitrary: w' r rule: consume_inputs.induct)
  case (2 self u undo i ins)
  show ?case
  proof (cases "fmlookup (utxos u) (outpoint_of i)")
    case None
    with 2(2) show ?thesis by auto
  next
    case (Some out)
    from 2(1) [OF Some] 2(2) Some show ?thesis by (auto simp: same_records_def)
  qed
qed auto

lemma consume_inputs_ok:
  "consume_inputs (self, u, undo) ins = ((self', u', undo'), Inr r) \<Longrightarrow>
   distinct (map outpoint_of ins) \<and> set (map outpoint_of ins) \<subseteq> fmdom' (utxos u)
   \<and> u' = u\<lparr>utxos := fmdrops (map outpoint_of ins) (utxos u)\<rparr>
   \<and> undo' = undo\<lparr>spent_utxos := spent_utxos undo
         @ map (\<lambda>i. (outpoint_of i, the (fmlookup (utxos u) (outpoint_of i)))) ins,
       total_supply_delta := total_supply_delta undo
         - int (\<Sum>i\<leftarrow>ins. unat (out_value (the (fmlookup (utxos u) (outpoint_of i)))))\<rparr>
   \<and> unat (current_total_supply self') = unat (current_total_supply self)
       - (\<Sum>i\<leftarrow>ins. unat (out_value (the (fmlookup (utxos u) (outpoint_of i)))))"
proof (induction ins arbitrary: self u undo)
  case Nil
  then show ?case by simp
next
  case (Cons i ins)
  let ?k = "outpoint_of i"
  obtain out where out: "fmlookup (utxos u) ?k = Some out"
    using Cons.prems by (cases "fmlookup (utxos u) ?k") auto
  let ?u = "u\<lparr>utxos := fmdrop ?k (utxos u)\<rparr>"
  let ?self = "self\<lparr>current_total_supply := saturating_sub (current_total_supply self) (ucast (out_value out)),
      outpoint_to_key := fmdrop ?k (outpoint_to_key self),
      sm_prune_markers := fmdrop ?k (sm_prune_markers self)\<rparr>"
  let ?undo = "undo\<lparr>spent_utxos := spent_utxos undo @ [(?k, out)],
      total_supply_delta := total_supply_delta undo - int (unat (out_value out))\<rparr>"
  have "consume_inputs (?self, ?u, ?undo) ins = ((self', u', undo'), Inr r)"
    using Cons.prems out by simp
  note IH = Cons.IH [OF this]
  then have k: "?k \<notin> set (map outpoint_of ins)" by auto
  have other: "fmlookup (fmdrop ?k (utxos u)) (outpoint_of j) = fmlookup (utxos u) (outpoint_of j)"
    if "j \<in> set ins" for j
    using k that by (metis fmlookup_drop image_eqI list.set_map)
  have same: "map (\<lambda>i. (outpoint_of i, the (fmlookup (fmdrop ?k (utxos u)) (outpoint_of i)))) ins
        = map (\<lambda>i. (outpoint_of i, the (fmlookup (utxos u) (outpoint_of i)))) ins"
      "map (\<lambda>i. unat (out_value (the (fmlookup (fmdrop ?k (utxos u)) (outpoint_of i))))) ins
        = map (\<lambda>i. unat (out_value (the (fmlookup (utxos u) (outpoint_of i))))) ins"
    by (simp_all cong: map_cong add: other del: fmlookup_drop)
  have v: "unat (ucast (out_value out) :: u128) = unat (out_value out)"
    by (rule unat_ucast_up) simp
  show ?case
    using IH k out same by (auto simp: unat_saturating_sub v simp del: fmlookup_drop intro: fmdom'I)
qed

lemma produce_output_frame:
  "same_records (fst w) (fst (produce_output ext tx n out w))
   \<and> sm_tree (fst (produce_output ext tx n out w)) = sm_tree (fst w)"
  by (cases w) (simp add: produce_output_def Let_def same_records_def)

lemma produce_outputs_frame:
  "same_records (fst w) (fst (produce_outputs ext tx w))
   \<and> sm_tree (fst (produce_outputs ext tx w)) = sm_tree (fst w)"
proof -
  have "same_records (fst w) (fst (fold (\<lambda>(n, out). produce_output ext tx n out) xs w))
      \<and> sm_tree (fst (fold (\<lambda>(n, out). produce_output ext tx n out) xs w)) = sm_tree (fst w)" for xs
  proof (induction xs arbitrary: w)
    case (Cons x xs)
    let ?w = "produce_output ext tx (fst x) (snd x) w"
    have "same_records (fst w) (fst ?w)" "sm_tree (fst ?w) = sm_tree (fst w)"
      using produce_output_frame by auto
    with Cons.IH [of ?w] show ?case
      using same_records_trans [of "fst w" "fst ?w"] by (simp add: case_prod_beta)
  qed simp
  then show ?thesis by (simp add: produce_outputs_def)
qed

text \<open>The tree lookup recorded for undo.\<close>

definition old_value :: "verkle_tree \<Rightarrow> bytes \<Rightarrow> bytes option" where
  "old_value t key = (case vt_get t key of Inl _ \<Rightarrow> None | Inr v \<Rightarrow> v)"

definition output_keys :: "externals \<Rightarrow> transaction \<Rightarrow> bytes list" where
  "output_keys ext tx = map (\<lambda>n. hash_with_index ext tx (of_nat n)) [0..<length (outputs tx)]"

lemma produce_from:
  "fold (\<lambda>(n, out). produce_output ext tx n out) (List.enumerate n outs) (self, u, undo) = (self', u', undo') \<Longrightarrow>
   u' = u\<lparr>utxos := fmupds (map (\<lambda>(n, o'). ((tx_id tx, of_nat n), o')) (List.enumerate n outs)) (utxos u)\<rparr>
   \<and> undo' = undo\<lparr>
       verkle_updates := verkle_updates undo
         @ map (\<lambda>m. (hash_with_index ext tx (of_nat m),
                  old_value (sm_tree self) (hash_with_index ext tx (of_nat m)))) [n..<n + length outs],
       created_utxos := created_utxos undo @ map (\<lambda>m. (tx_id tx, of_nat m)) [n..<n + length outs],
       total_supply_delta := total_supply_delta undo + int (\<Sum>o'\<leftarrow>outs. unat (out_value o'))\<rparr>
   \<and> (unat (current_total_supply self) + (\<Sum>o'\<leftarrow>outs. unat (out_value o')) < 2 ^ 128 \<longrightarrow>
       unat (current_total_supply self') = unat (current_total_supply self)
         + (\<Sum>o'\<leftarrow>outs. unat (out_value o')))
   \<and> map fst (pending_updates self') = map fst (pending_updates self)
         @ map (\<lambda>m. hash_with_index ext tx (of_nat m)) [n..<n + length outs]"
proof (induction outs arbitrary: n self u undo)
  case Nil
  then show ?case by simp
next
  case (Cons out outs)
  obtain self1 u1 undo1 where w: "produce_output ext tx n out (self, u, undo) = (self1, u1, undo1)"
    by (cases "produce_output ext tx n out (self, u, undo)") auto
  have step: "fold (\<lambda>(n, out). produce_output ext tx n out) (List.enumerate (Suc n) outs)
      (self1, u1, undo1) = (self', u', undo')"
    using Cons.prems w by simp
  have v: "unat (ucast (out_value out) :: u128) = unat (out_value out)"
    by (rule unat_ucast_up) simp
  have range: "[n..<n + length (out # outs)] = n # [Suc n..<Suc n + length outs]"
    using upt_conv_Cons [of n "n + length (out # outs)"] by simp
  have self1: "sm_tree self1 = sm_tree self"
      "current_total_supply self1 = saturating_add (current_total_supply self) (ucast (out_value out))"
      "map fst (pending_updates self1) = map fst (pending_updates self) @ [hash_with_index ext tx (of_nat n)]"
    and u1: "u1 = u\<lparr>utxos := fmupd (tx_id tx, of_nat n) out (utxos u)\<rparr>"
    and undo1: "undo1 = undo\<lparr>verkle_updates := verkle_updates undo
        @ [(hash_with_index ext tx (of_nat n), old_value (sm_tree self) (hash_with_index ext tx (of_nat n)))],
      created_utxos := created_utxos undo @ [(tx_id tx, of_nat n)],
      total_supply_delta := total_supply_delta undo + int (unat (out_value out))\<rparr>"
    using w by (auto simp: produce_output_def Let_def old_value_def)
  have sup: "unat (current_total_supply self1) = min (unat (current_total_supply self) + unat (out_value out)) (2 ^ 128 - 1)"
    by (simp add: self1 unat_saturating_add v)
  show ?case
    using Cons.IH [OF step] sup unfolding range
    by (simp add: self1 u1 undo1)
qed

lemma produce_outputs_ok:
  assumes "produce_outputs ext tx (self, u, undo) = (self', u', undo')"
  shows "u' = u\<lparr>utxos := fmupds (created_by tx) (utxos u)\<rparr>"
    and "undo' = undo\<lparr>
      verkle_updates := verkle_updates undo @ map (\<lambda>k. (k, old_value (sm_tree self) k)) (output_keys ext tx),
      created_utxos := created_utxos undo @ map fst (created_by tx),
      total_supply_delta := total_supply_delta undo + int (outputs_value tx)\<rparr>"
    and "unat (current_total_supply self) + outputs_value tx < 2 ^ 128 \<Longrightarrow>
      unat (current_total_supply self') = unat (current_total_supply self) + outputs_value tx"
    and "map fst (pending_updates self') = map fst (pending_updates self) @ output_keys ext tx"
proof -
  have keys: "map fst (created_by tx) = map (\<lambda>m. (tx_id tx, of_nat m)) [0..<length (outputs tx)]"
    by (auto simp: created_by_def enumerate_eq_zip intro!: nth_equalityI)
  note P = produce_from [OF assms [unfolded produce_outputs_def]]
  show "u' = u\<lparr>utxos := fmupds (created_by tx) (utxos u)\<rparr>"
    using P by (simp add: created_by_def)
  show "undo' = undo\<lparr>
      verkle_updates := verkle_updates undo @ map (\<lambda>k. (k, old_value (sm_tree self) k)) (output_keys ext tx),
      created_utxos := created_utxos undo @ map fst (created_by tx),
      total_supply_delta := total_supply_delta undo + int (outputs_value tx)\<rparr>"
    using P unfolding keys by (simp add: output_keys_def outputs_value_def comp_def)
  show "unat (current_total_supply self) + outputs_value tx < 2 ^ 128 \<Longrightarrow>
      unat (current_total_supply self') = unat (current_total_supply self) + outputs_value tx"
    using P by (simp add: outputs_value_def)
  show "map fst (pending_updates self') = map fst (pending_updates self) @ output_keys ext tx"
    using P by (simp add: output_keys_def)
qed

lemma apply_utxo_transaction_frame:
  assumes "apply_utxo_transaction ext w tx = (w', r)"
  shows "same_records (fst w) (fst w') \<and> sm_tree (fst w') = sm_tree (fst w)"
proof -
  obtain w1 r1 where c: "consume_inputs w (inputs tx) = (w1, r1)"
    by (cases "consume_inputs w (inputs tx)")
  have "w' = w1 \<or> w' = produce_outputs ext tx w1"
    using assms c by (auto simp: apply_utxo_transaction_def split: sum.splits)
  with consume_inputs_frame [OF c] produce_outputs_frame [of w1 ext tx] show ?thesis
    using same_records_trans [of "fst w" "fst w1"] by auto
qed

text \<open>The effect of a transaction on what a block application tracks, whatever branch it took.\<close>

definition tx_applied ::
    "externals \<Rightarrow> transaction \<Rightarrow> work \<Rightarrow> work \<Rightarrow> bool" where
  "tx_applied ext tx w w' \<longleftrightarrow>
     (case (w, w') of ((self, u, undo), (self', u', undo')) \<Rightarrow>
       same_records self self' \<and> distinct (outpoints tx) \<and> set (outpoints tx) \<subseteq> fmdom' (utxos u)
       \<and> u' = tx_effect u tx
       \<and> spent_utxos undo' = spent_utxos undo @ spent_by u tx
       \<and> created_utxos undo' = created_utxos undo @ map fst (created_by tx)
       \<and> total_supply_delta undo' = total_supply_delta undo - int (inputs_value u tx) + int (outputs_value tx)
       \<and> map fst (verkle_updates undo') = map fst (verkle_updates undo) @ output_keys ext tx
       \<and> map fst (pending_updates self') = map fst (pending_updates self) @ output_keys ext tx
       \<and> (unat (current_total_supply self) + outputs_value tx < 2 ^ 128 \<longrightarrow>
            unat (current_total_supply self')
              = unat (current_total_supply self) - inputs_value u tx + outputs_value tx))"

lemma apply_utxo_transaction_ok:
  assumes "apply_utxo_transaction ext (self, u, undo) tx = ((self', u', undo'), Inr r)"
  shows "tx_applied ext tx (self, u, undo) (self', u', undo')"
proof -
  obtain self1 u1 undo1 where c: "consume_inputs (self, u, undo) (inputs tx) = ((self1, u1, undo1), Inr ())"
    and p: "produce_outputs ext tx (self1, u1, undo1) = (self', u', undo')"
    using assms by (cases "consume_inputs (self, u, undo) (inputs tx)")
      (auto simp: apply_utxo_transaction_def split: sum.splits)
  have pend: "pending_updates self1 = pending_updates self"
  proof -
    have "consume_inputs w ins = (w', r) \<Longrightarrow> pending_updates (fst w') = pending_updates (fst w)" for w ins w' r
      by (induction w ins arbitrary: w' r rule: consume_inputs.induct) (auto split: option.splits)
    from this [OF c] show ?thesis by simp
  qed
  have iv: "(\<Sum>i\<leftarrow>inputs tx. unat (out_value (the (fmlookup (utxos u) (outpoint_of i))))) = inputs_value u tx"
    by (simp add: inputs_value_def outpoints_def comp_def)
  note C = consume_inputs_ok [OF c, folded outpoints_def, unfolded iv] and P = produce_outputs_ok [OF p]
  have "same_records self self'"
    using apply_utxo_transaction_frame [OF assms] by simp
  moreover have "unat (current_total_supply self1) \<le> unat (current_total_supply self)"
    using C by simp
  ultimately show ?thesis
    using C P pend
    by (auto simp: tx_applied_def tx_effect_def spent_by_def outpoints_def comp_def)
qed

lemma apply_contract_ok:
  assumes "apply_contract_transition ext pc engine (self, u, undo) tx = Some ((self', u', undo'), Inr r)"
  obtains tree' gas w where
    "execute ext pc engine (execution_payload tx) (sm_tree self) (gas_limit tx) = Some (tree', Inr gas)"
    "apply_utxo_transaction ext (self\<lparr>sm_tree := tree', block_gas_fees := block_gas_fees self @ [w]\<rparr>,
       u, undo\<lparr>gas_fees_added := gas_fees_added undo @ [w]\<rparr>) tx = ((self', u', undo'), Inr r)"
  using assms
  by (auto simp: apply_contract_transition_def Let_def split: if_splits option.splits prod.splits sum.splits)

lemma apply_transaction_ok:
  assumes "apply_transaction ext pc engine (self, u, undo) tx = Some ((self', u', undo'), Inr r)"
  shows "tx_applied ext tx (self, u, undo) (self', u', undo')"
proof (cases "execution_payload tx = [] \<and> contract_address tx = None")
  case True
  with assms show ?thesis
    by (intro apply_utxo_transaction_ok) (auto simp: apply_transaction_def)
next
  case False
  with assms have "apply_contract_transition ext pc engine (self, u, undo) tx = Some ((self', u', undo'), Inr r)"
    by (auto simp: apply_transaction_def)
  then obtain tree' w where
    "apply_utxo_transaction ext (self\<lparr>sm_tree := tree', block_gas_fees := block_gas_fees self @ [w]\<rparr>,
       u, undo\<lparr>gas_fees_added := gas_fees_added undo @ [w]\<rparr>) tx = ((self', u', undo'), Inr r)"
    by (rule apply_contract_ok)
  from apply_utxo_transaction_ok [OF this] show ?thesis
    by (simp add: tx_applied_def same_records_def)
qed

section \<open>Contract runs\<close>

lemma tree_ok_clone: "vt_clone ext pc t = Some t' \<Longrightarrow> tree_ok ext pc t \<Longrightarrow> tree_ok ext pc t'"
  using vt_clone_content(3) [of ext pc t t'] vt_cloneD [of ext pc t t'] by (simp add: tree_ok_def)

lemma tree_ok_execute:
  assumes "execute ext pc engine wasm t limit = Some (t', r)" and "tree_ok ext pc t" and "digest32 ext"
  shows "tree_ok ext pc t'"
  using assms(1)
proof (cases rule: execute_outcome)
  case (returned g1 g2 g s p)
  then have "(vt_step ext pc)\<^sup>*\<^sup>* t t'"
    using run_guest_tree [OF assms(3) returned(4), of ext pc] by simp
  then show ?thesis using assms(2) by (rule tree_ok_steps)
qed (use assms(2) tree_ok_clone in auto)

text \<open>A transaction whose contract, if it runs one, passes no negative length to a host function.\<close>

definition contract_ok :: "(bytes \<Rightarrow> wasm_load) \<Rightarrow> transaction \<Rightarrow> bool" where
  "contract_ok engine tx \<longleftrightarrow> (execution_payload tx = [] \<and> contract_address tx = None)
     \<or> (\<forall>g. engine (execution_payload tx) = Loaded g \<longrightarrow> lengths_ok g)"

lemma tree_ok_executes:
  assumes "tree_ok ext pc t" and "\<And>g. engine wasm = Loaded g \<Longrightarrow> lengths_ok g"
  shows "execute ext pc engine wasm t limit \<noteq> None"
  using tree_ok_clones [OF assms(1)] assms(2) by (intro execute_total) auto

text \<open>What applying a contract transaction can leave.\<close>

lemma apply_contract_cases:
  assumes "apply_contract_transition ext pc engine (self, u, undo) tx = Some (w', r)"
  obtains (refused) "w' = (self, u, undo)" "\<not> is_ok r"
  | (failed) t where "w' = (self\<lparr>sm_tree := t\<rparr>, u, undo)" "vt_clone ext pc (sm_tree self) = Some t" "\<not> is_ok r"
  | (ran) tree' gas x where
      "execute ext pc engine (execution_payload tx) (sm_tree self) (gas_limit tx) = Some (tree', Inr gas)"
      "apply_utxo_transaction ext (self\<lparr>sm_tree := tree', block_gas_fees := block_gas_fees self @ [x]\<rparr>,
         u, undo\<lparr>gas_fees_added := gas_fees_added undo @ [x]\<rparr>) tx = (w', r)"
  using assms
  by (auto simp: apply_contract_transition_def Let_def split: if_splits option.splits prod.splits sum.splits)

lemma apply_transaction_frame:
  assumes "apply_transaction ext pc engine w tx = Some (w', r)"
  shows "same_records (fst w) (fst w')"
proof (cases "execution_payload tx = [] \<and> contract_address tx = None")
  case True
  with assms show ?thesis
    using apply_utxo_transaction_frame [of ext w tx w' r] by (auto simp: apply_transaction_def)
next
  case False
  obtain self u undo where w: "w = (self, u, undo)" by (cases w) auto
  have "apply_contract_transition ext pc engine (self, u, undo) tx = Some (w', r)"
    using False assms w by (auto simp: apply_transaction_def)
  then show ?thesis
  proof (cases rule: apply_contract_cases)
    case (ran tree' gas x)
    with w apply_utxo_transaction_frame [OF ran(2)] show ?thesis by (simp add: same_records_def)
  qed (simp_all add: w same_records_def)
qed

lemma apply_transaction_tree:
  assumes "apply_transaction ext pc engine w tx = Some (w', r)" and "digest32 ext"
    and "tree_ok ext pc (sm_tree (fst w))"
  shows "tree_ok ext pc (sm_tree (fst w'))"
proof (cases "execution_payload tx = [] \<and> contract_address tx = None")
  case True
  with assms show ?thesis
    using apply_utxo_transaction_frame [of ext w tx w' r] by (auto simp: apply_transaction_def)
next
  case False
  obtain self u undo where w: "w = (self, u, undo)" by (cases w) auto
  have "apply_contract_transition ext pc engine (self, u, undo) tx = Some (w', r)"
    using False assms(1) w by (auto simp: apply_transaction_def)
  then show ?thesis
  proof (cases rule: apply_contract_cases)
    case (ran tree' gas x)
    with assms(3) w tree_ok_execute [OF ran(1) _ assms(2)] apply_utxo_transaction_frame [OF ran(2)]
    show ?thesis by simp
  qed (use assms(3) tree_ok_clone in \<open>auto simp: w\<close>)
qed

lemma apply_transaction_total:
  assumes "tree_ok ext pc (sm_tree (fst w))" and "contract_ok engine tx"
  shows "apply_transaction ext pc engine w tx \<noteq> None"
proof (cases "execution_payload tx = [] \<and> contract_address tx = None")
  case False
  obtain self u undo where w: "w = (self, u, undo)" by (cases w) auto
  with assms(1) have ok: "tree_ok ext pc (sm_tree self)" by simp
  obtain t' where "vt_clone ext pc (sm_tree self) = Some t'" using tree_ok_clones [OF ok] by blast
  moreover obtain tree' r where
    "execute ext pc engine (execution_payload tx) (sm_tree self) (gas_limit tx) = Some (tree', r)"
    using tree_ok_executes [OF ok, of engine "execution_payload tx" "gas_limit tx"] assms(2) False
    by (auto simp: contract_ok_def)
  ultimately show ?thesis
    by (cases r) (simp_all add: w apply_transaction_def apply_contract_transition_def Let_def del: not_None_eq)
qed (simp add: apply_transaction_def)

section \<open>Lemmas on blocks\<close>

lemma apply_transactions_frame:
  "apply_transactions ext pc engine w txs = Some (w', r) \<Longrightarrow> same_records (fst w) (fst w')"
proof (induction txs arbitrary: w)
  case (Cons tx txs)
  obtain w1 r1 where one: "apply_transaction ext pc engine w tx = Some (w1, r1)"
    using Cons.prems by (auto split: option.splits)
  have "w' = w1 \<or> apply_transactions ext pc engine w1 txs = Some (w', r)"
    using Cons.prems one by (auto split: sum.splits)
  then show ?case
    using Cons.IH [of w1] apply_transaction_frame [OF one] same_records_trans [of "fst w" "fst w1"]
    by (elim disjE) simp_all
qed simp

lemma apply_transactions_tree:
  "apply_transactions ext pc engine w txs = Some (w', r) \<Longrightarrow> digest32 ext \<Longrightarrow>
   tree_ok ext pc (sm_tree (fst w)) \<Longrightarrow> tree_ok ext pc (sm_tree (fst w'))"
proof (induction txs arbitrary: w)
  case (Cons tx txs)
  obtain w1 r1 where one: "apply_transaction ext pc engine w tx = Some (w1, r1)"
    using Cons.prems by (auto split: option.splits)
  have "w' = w1 \<or> apply_transactions ext pc engine w1 txs = Some (w', r)"
    using Cons.prems one by (auto split: sum.splits)
  with Cons apply_transaction_tree [OF one Cons.prems(2,3)] show ?case by blast
qed simp

lemma apply_transactions_total:
  "digest32 ext \<Longrightarrow> tree_ok ext pc (sm_tree (fst w)) \<Longrightarrow> \<forall>tx\<in>set txs. contract_ok engine tx \<Longrightarrow>
   apply_transactions ext pc engine w txs \<noteq> None"
proof (induction txs arbitrary: w)
  case (Cons tx txs)
  obtain w1 r1 where one: "apply_transaction ext pc engine w tx = Some (w1, r1)"
    using apply_transaction_total [OF Cons.prems(2), of engine tx] Cons.prems(3) by auto
  with Cons.IH [of w1] Cons.prems apply_transaction_tree [OF one Cons.prems(1,2)] show ?case
    by (cases r1) (simp_all del: not_None_eq)
qed simp

lemma inputs_value_le:
  assumes "distinct (outpoints tx)" and "set (outpoints tx) \<subseteq> fmdom' (utxos u)"
  shows "inputs_value u tx \<le> total_value u"
  unfolding inputs_value_def total_value_def by (subst fmsum_fmdrops [OF assms]) simp

text \<open>What a successful run over a list of transactions has done.\<close>

definition txs_applied :: "externals \<Rightarrow> transaction list \<Rightarrow> work \<Rightarrow> work \<Rightarrow> bool" where
  "txs_applied ext txs w w' \<longleftrightarrow>
     (case (w, w') of ((self, u, undo), (self', u', undo')) \<Rightarrow>
       spendable u txs \<and> u' = block_effect u txs
       \<and> spent_utxos undo' = spent_utxos undo @ spent_in u txs
       \<and> created_utxos undo' = created_utxos undo @ concat (map (\<lambda>tx. map fst (created_by tx)) txs)
       \<and> map fst (pending_updates self')
           = map fst (pending_updates self) @ concat (map (output_keys ext) txs)
       \<and> (supply_ok self u \<and> fresh_block u txs \<and> total_value u + block_output_value txs < 2 ^ 128 \<longrightarrow>
            supply_ok self' u'
            \<and> total_supply_delta undo' = total_supply_delta undo + int (total_value u') - int (total_value u)))"

lemma tx_applied_value:
  assumes "tx_applied ext tx (self, u, undo) (self', u', undo')" and "supply_ok self u"
    and "fresh_tx u tx" and "total_value u + outputs_value tx < 2 ^ 128"
  shows "supply_ok self' u'
    \<and> total_supply_delta undo' = total_supply_delta undo + int (total_value u') - int (total_value u)"
proof -
  have d: "distinct (outpoints tx)" "set (outpoints tx) \<subseteq> fmdom' (utxos u)" and u': "u' = tx_effect u tx"
    using assms(1) by (auto simp: tx_applied_def)
  have "total_value u' + inputs_value u tx = total_value u + outputs_value tx"
    unfolding u' using assms(3) d by (rule total_value_tx_effect)
  moreover have "inputs_value u tx \<le> total_value u" using d by (rule inputs_value_le)
  moreover have "unat (current_total_supply self) = total_value u"
    using assms(2) by (simp add: supply_ok_def)
  ultimately show ?thesis
    using assms(1,4) by (simp add: tx_applied_def supply_ok_def)
qed

lemma total_value_step_le:
  assumes "distinct (outpoints tx)" and "set (outpoints tx) \<subseteq> fmdom' (utxos u)" and "fresh_tx u tx"
  shows "total_value (tx_effect u tx) \<le> total_value u + outputs_value tx"
  using total_value_tx_effect [OF assms(3,1,2)] by simp

lemma txs_applied_Cons:
  assumes one: "tx_applied ext tx (self, u, undo) (self1, u1, undo1)"
    and rest: "txs_applied ext txs (self1, u1, undo1) (self', u', undo')"
  shows "txs_applied ext (tx # txs) (self, u, undo) (self', u', undo')"
proof -
  have u1: "u1 = tx_effect u tx" and d: "distinct (outpoints tx)" "set (outpoints tx) \<subseteq> fmdom' (utxos u)"
    using one by (auto simp: tx_applied_def)
  have "supply_ok self' u'
      \<and> total_supply_delta undo' = total_supply_delta undo + int (total_value u') - int (total_value u)"
    if pre: "supply_ok self u" "fresh_block u (tx # txs)"
      "total_value u + block_output_value (tx # txs) < 2 ^ 128"
  proof -
    note fresh = fresh_block_step [OF pre(2)]
    have v: "total_value u + outputs_value tx + block_output_value txs < 2 ^ 128"
      using pre(3) by (simp add: block_output_value_def)
    then have first: "supply_ok self1 u1
        \<and> total_supply_delta undo1 = total_supply_delta undo + int (total_value u1) - int (total_value u)"
      by (intro tx_applied_value [OF one pre(1) fresh(1)]) simp
    have "total_value u1 + block_output_value txs < 2 ^ 128"
      using total_value_step_le [OF d fresh(1)] v by (simp add: u1)
    with first fresh(2) rest show ?thesis by (auto simp: txs_applied_def u1)
  qed
  with one rest show ?thesis
    by (simp add: tx_applied_def txs_applied_def block_effect_def)
qed

lemma apply_transactions_ok:
  "apply_transactions ext pc engine w txs = Some (w', Inr r) \<Longrightarrow> txs_applied ext txs w w'"
proof (induction txs arbitrary: w)
  case Nil
  then show ?case
    by (cases w) (auto simp: txs_applied_def block_effect_def)
next
  case (Cons tx txs)
  obtain self u undo where w: "w = (self, u, undo)" by (cases w) auto
  obtain self' u' undo' where w': "w' = (self', u', undo')" by (cases w') auto
  obtain self1 u1 undo1 where
    one: "apply_transaction ext pc engine (self, u, undo) tx = Some ((self1, u1, undo1), Inr ())"
    and rest: "apply_transactions ext pc engine (self1, u1, undo1) txs = Some (w', Inr r)"
    using Cons.prems w by (auto split: option.splits prod.splits sum.splits)
  from txs_applied_Cons [OF apply_transaction_ok [OF one]] Cons.IH [OF rest] show ?case
    by (simp add: w w')
qed

lemma restore_saved_eq:
  assumes "same_records (self\<lparr>applying_block := b, pending_updates := p, block_gas_fees := f\<rparr>) self1"
  shows "(restore_saved self t (self1\<lparr>sm_tree := t1\<rparr>))\<lparr>applying_block := applying_block self\<rparr>
    = self\<lparr>sm_tree := t\<rparr>"
  using assms by (cases self, cases self1) (simp add: restore_saved_def same_records_def)

text \<open>The outcomes of applying a block.\<close>

lemma sm_apply_block_cases:
  assumes "sm_apply_block ext pc engine self block u = Some (self', u', r)"
  obtains (busy) "applying_block self" "self' = self" "u' = u" "\<not> is_ok r"
  | (undone) t where "\<not> applying_block self" "vt_clone ext pc (sm_tree self) = Some t"
      "self' = self\<lparr>sm_tree := t\<rparr>" "u' = u" "\<not> is_ok r"
  | (committed) self1 undo tree2 self3 where "\<not> applying_block self"
      "apply_transactions ext pc engine
         (self\<lparr>applying_block := True, pending_updates := [], block_gas_fees := []\<rparr>, u, undo_new)
         (transactions block) = Some ((self1, u', undo), Inr ())"
      "apply_state_transition (sm_tree self1) (pending_updates self1) (current_total_supply self1)
         = (tree2, Inr ())"
      "commit_block ext pc block undo (self1\<lparr>sm_tree := tree2\<rparr>) = Some self3"
      "self' = self3\<lparr>applying_block := False\<rparr>" "r = Inr ()"
proof (cases "applying_block self")
  case True
  with assms show ?thesis by (intro busy) (auto simp: sm_apply_block_def)
next
  case idle: False
  let ?w = "(self\<lparr>applying_block := True, pending_updates := [], block_gas_fees := []\<rparr>, u, undo_new)"
  obtain t where t: "vt_clone ext pc (sm_tree self) = Some t"
    using assms idle by (auto simp: sm_apply_block_def split: option.splits)
  obtain self1 u1 undo r1 where run: "apply_transactions ext pc engine ?w (transactions block) = Some ((self1, u1, undo), r1)"
    using assms idle t by (cases "apply_transactions ext pc engine ?w (transactions block)")
      (auto simp: sm_apply_block_def)
  have "same_records (self\<lparr>applying_block := True, pending_updates := [], block_gas_fees := []\<rparr>) self1"
    using apply_transactions_frame [OF run] by simp
  note restored = restore_saved_eq [OF this]
  show ?thesis
  proof (cases r1)
    case (Inl e)
    have "self' = (restore_saved self t (self1\<lparr>sm_tree := sm_tree self1\<rparr>))\<lparr>applying_block := False\<rparr>
        \<and> u' = u \<and> r = Inl e"
      using assms idle t run Inl by (auto simp: sm_apply_block_def)
    with restored [of t "sm_tree self1"] idle t undone show ?thesis by simp
  next
    case (Inr x)
    obtain tree2 r2 where tr: "apply_state_transition (sm_tree self1) (pending_updates self1)
        (current_total_supply self1) = (tree2, r2)"
      by (cases "apply_state_transition (sm_tree self1) (pending_updates self1) (current_total_supply self1)")
    show ?thesis
    proof (cases r2)
      case (Inl e)
      have "self' = (restore_saved self t (self1\<lparr>sm_tree := tree2\<rparr>))\<lparr>applying_block := False\<rparr>
          \<and> u' = u \<and> \<not> is_ok r"
        using assms idle t run Inr tr Inl by (auto simp: sm_apply_block_def)
      with restored [of t tree2] idle t undone show ?thesis by simp
    next
      case Inr2: (Inr y)
      obtain self3 where com: "commit_block ext pc block undo (self1\<lparr>sm_tree := tree2\<rparr>) = Some self3"
        using assms idle t run Inr tr Inr2 by (auto simp: sm_apply_block_def split: option.splits)
      have "self' = self3\<lparr>applying_block := False\<rparr> \<and> u' = u1 \<and> r = Inr ()"
        using assms idle t run Inr tr Inr2 com by (auto simp: sm_apply_block_def)
      with idle run Inr tr Inr2 com show ?thesis
        by (intro committed [of self1 undo tree2 self3]) simp_all
    qed
  qed
qed

section \<open>The invariant\<close>

text \<open>The root a snapshot's storage has when a tree is opened on it.\<close>

definition storage_root :: "externals \<Rightarrow> pc_ops \<Rightarrow> memory_storage \<Rightarrow> bytes" where
  "storage_root ext pc st =
     (case vt_new ext pc st of Inl _ \<Rightarrow> replicate 32 0 | Inr t \<Rightarrow> unwrap_root (root_of ext pc t))"

text \<open>The tree is sound, snapshots are numbered by their position up to the current height, each
  has its storage, and the recorded root is the root of that storage.\<close>

definition sm_inv :: "externals \<Rightarrow> pc_ops \<Rightarrow> state_manager \<Rightarrow> bool" where
  "sm_inv ext pc self \<longleftrightarrow>
     tree_ok ext pc (sm_tree self) \<and> \<not> applying_block self
     \<and> length (snapshots self) = Suc (unat (current_height self))
     \<and> length (snapshot_storages self) = length (snapshots self)
     \<and> (\<forall>i<length (snapshots self). unat (snap_height (snapshots self ! i)) = i
          \<and> snap_root (snapshots self ! i) = storage_root ext pc (snapshot_storages self ! i))"

lemma root_of_storage:
  assumes "tree_ok ext pc t"
  shows "storage_root ext pc (storage t) = unwrap_root (root_of ext pc t)"
proof -
  obtain t0 where t0: "vt_new ext pc (storage t) = Inr t0"
    using vt_new_exists [OF assms] by blast
  have "node_at t0 q = node_at t q" if "q \<noteq> []" for q
    using t0 that by (auto simp: vt_new_def node_at_ensure) (simp add: node_at_def)
  moreover have "empty_subtree_roots t0 = empty_subtree_roots t" "empty_subtree_scalars t0 = empty_subtree_scalars t"
    using t0 assms by (auto simp: vt_new_def tree_ok_def)
  ultimately have "root_of ext pc t0 = root_of ext pc t" by (intro root_of_root_node)
  with t0 show ?thesis by (simp add: storage_root_def)
qed

lemma get_root_storage:
  assumes "tree_ok ext pc t" and "get_root ext pc t = (t', r)"
  shows "tree_ok ext pc t'" and "r = root_of ext pc t" and "unwrap_root r = storage_root ext pc (storage t')"
    and "storage t' = storage t"
proof -
  have ok: "vt_ok ext pc t" using assms(1) by (simp add: tree_ok_def)
  show t': "tree_ok ext pc t'"
    using tree_ok_step [OF vt_step.root assms(1)] assms(2) by simp
  show r: "r = root_of ext pc t" and st: "storage t' = storage t"
    using get_root_ok [OF ok assms(2)] get_root_frame(1) [OF ok assms(2)] by simp_all
  show "unwrap_root r = storage_root ext pc (storage t')"
    unfolding st r using root_of_storage [OF assms(1)] by simp
qed

lemma sm_inv_push:
  assumes "sm_inv ext pc self" and "unat (current_height self) + 1 < 2 ^ 64" and "tree_ok ext pc t"
    and "snap_height sn = current_height self + 1" and "snap_root sn = storage_root ext pc st"
    and "same_records self self'"
  shows "sm_inv ext pc (self'\<lparr>sm_tree := t, current_height := current_height self' + 1,
      current_block_hash := h, snapshots := snapshots self' @ [sn],
      snapshot_storages := snapshot_storages self' @ [st], block_undo_data := d, applying_block := False\<rparr>)"
proof -
  have "unat (current_height self + 1) = unat (current_height self) + 1"
    using assms(2) by (simp add: unat_add_small)
  with assms show ?thesis
    by (auto simp: sm_inv_def same_records_def nth_append less_Suc_eq)
qed

lemma sm_inv_tree: "sm_inv ext pc self \<Longrightarrow> tree_ok ext pc t \<Longrightarrow> sm_inv ext pc (self\<lparr>sm_tree := t\<rparr>)"
  by (simp add: sm_inv_def)

lemma sm_inv_clones: "sm_inv ext pc self \<Longrightarrow> \<exists>t. vt_clone ext pc (sm_tree self) = Some t \<and> \<not> applying_block self"
  using tree_ok_clones [of ext pc "sm_tree self"] by (simp add: sm_inv_def)

lemma output_keys_length: "digest32 ext \<Longrightarrow> k \<in> set (output_keys ext tx) \<Longrightarrow> length k = KEY_SIZE"
  by (auto simp: output_keys_def hash_with_index_def hash_new_def digest32_def KEY_SIZE_def)

lemma commit_block_eq:
  "commit_block ext pc block undo self =
     (if length (snapshots self) \<le> unat (current_height self) then None
      else Some (self\<lparr>sm_tree := fst (get_root ext pc (sm_tree self)), current_height := current_height self + 1,
        current_block_hash := Some (header_id (header block)),
        snapshots := snapshots self @ [\<lparr>snap_height = current_height self + 1,
          snap_root = unwrap_root (snd (get_root ext pc (sm_tree self))),
          snap_total_supply = current_total_supply self, snap_gas_fees = block_gas_fees self,
          last_block_hash = Some (header_id (header block))\<rparr>],
        snapshot_storages := snapshot_storages self @ [storage (fst (get_root ext pc (sm_tree self)))],
        block_undo_data := fmupd (header_id (header block)) undo (block_undo_data self)\<rparr>))"
  by (simp add: commit_block_def Let_def case_prod_beta)

text \<open>The manager just before a commit: a block's transactions and its state transition went
  through.\<close>

lemma applied_block_tree:
  assumes inv: "sm_inv ext pc self" and dig: "digest32 ext"
    and run: "apply_transactions ext pc engine
      (self\<lparr>applying_block := True, pending_updates := [], block_gas_fees := []\<rparr>, u, undo_new) txs
      = Some ((self1, u1, undo), Inr ())"
    and tr: "apply_state_transition (sm_tree self1) (pending_updates self1) (current_total_supply self1) = (tree2, r)"
  shows "tree_ok ext pc tree2" and "same_records (self\<lparr>applying_block := True\<rparr>) self1"
proof -
  have "tree_ok ext pc (sm_tree self1)"
    using apply_transactions_tree [OF run dig] inv by (simp add: sm_inv_def)
  moreover have "\<forall>kv\<in>set (pending_updates self1). length (fst kv) = KEY_SIZE"
  proof
    fix kv assume "kv \<in> set (pending_updates self1)"
    then have "fst kv \<in> set (map fst (pending_updates self1))" by simp
    also have "map fst (pending_updates self1) = concat (map (output_keys ext) txs)"
      using apply_transactions_ok [OF run] by (simp add: txs_applied_def)
    finally show "length (fst kv) = KEY_SIZE" using output_keys_length [OF dig] by auto
  qed
  ultimately show "tree_ok ext pc tree2"
    using tree_ok_step [OF vt_step.transition, of "pending_updates self1" ext pc "sm_tree self1"] tr
    by (metis fst_conv)
  show "same_records (self\<lparr>applying_block := True\<rparr>) self1"
    using apply_transactions_frame [OF run] by (simp add: same_records_def)
qed

lemma sm_apply_block_total:
  assumes inv: "sm_inv ext pc self" and dig: "digest32 ext"
    and con: "\<forall>tx\<in>set (transactions block). contract_ok engine tx"
  shows "\<exists>self' u' r. sm_apply_block ext pc engine self block u = Some (self', u', r)"
proof -
  let ?self = "self\<lparr>applying_block := True, pending_updates := [], block_gas_fees := []\<rparr>"
  have ok: "tree_ok ext pc (sm_tree self)" and idle: "\<not> applying_block self"
    using inv by (simp_all add: sm_inv_def)
  obtain t where t: "vt_clone ext pc (sm_tree self) = Some t" using tree_ok_clones [OF ok] by blast
  have "apply_transactions ext pc engine (?self, u, undo_new) (transactions block) \<noteq> None"
    using ok by (intro apply_transactions_total [OF dig _ con]) simp
  then obtain self1 u1 undo r1 where run: "apply_transactions ext pc engine (?self, u, undo_new) (transactions block)
      = Some ((self1, u1, undo), r1)" by auto
  obtain tree2 r2 where tr: "apply_state_transition (sm_tree self1) (pending_updates self1)
      (current_total_supply self1) = (tree2, r2)"
    by (cases "apply_state_transition (sm_tree self1) (pending_updates self1) (current_total_supply self1)")
  have "\<exists>self3. commit_block ext pc block undo (self1\<lparr>sm_tree := tree2\<rparr>) = Some self3"
    using apply_transactions_frame [OF run] inv by (simp add: commit_block_eq same_records_def sm_inv_def)
  with idle t run tr show ?thesis
    by (cases r1; cases r2) (auto simp: sm_apply_block_def)
qed

lemma sm_inv_apply_block:
  assumes inv: "sm_inv ext pc self" and dig: "digest32 ext" and h: "unat (current_height self) + 1 < 2 ^ 64"
    and res: "sm_apply_block ext pc engine self block u = Some (self', u', r)"
  shows "sm_inv ext pc self'"
  using res
proof (cases rule: sm_apply_block_cases)
  case busy
  with inv show ?thesis by simp
next
  case (undone t)
  with inv tree_ok_clone [OF undone(2)] show ?thesis by (simp add: sm_inv_tree sm_inv_def)
next
  case (committed self1 undo tree2 self3)
  note ok = applied_block_tree [OF inv dig committed(2,3)]
  obtain t3 r3 where g: "get_root ext pc tree2 = (t3, r3)" by (cases "get_root ext pc tree2")
  note t3 = get_root_storage [OF ok(1) g]
  have rec: "same_records self (self1\<lparr>applying_block := applying_block self\<rparr>)"
    using ok(2) by (simp add: same_records_def)
  have len: "\<not> length (snapshots self1) \<le> unat (current_height self1)"
    using ok(2) inv by (simp add: same_records_def sm_inv_def)
  have "current_height self1 = current_height self" using ok(2) by (simp add: same_records_def)
  with committed(4,5) g len
    sm_inv_push [OF inv h t3(1) _ _ rec, where sn = "\<lparr>snap_height = current_height self + 1,
      snap_root = unwrap_root r3, snap_total_supply = current_total_supply self1,
      snap_gas_fees = block_gas_fees self1, last_block_hash = Some (header_id (header block))\<rparr>" and st = "storage t3"
      and h = "Some (header_id (header block))"
      and d = "fmupd (header_id (header block)) undo (block_undo_data self1)"] t3(3)
  show ?thesis by (auto simp: commit_block_eq)
qed

lemma sm_inv_new:
  assumes "vt_new ext pc st = Inr t" and "state_manager_new ext pc t = Inr self"
  shows "sm_inv ext pc self" and "supply_ok self utxo_new"
proof -
  obtain t' root where g: "get_root ext pc t = (t', Inr root)"
    using assms(2) by (auto simp: state_manager_new_def split: prod.splits sum.splits)
  note t' = get_root_storage [OF vt_new_tree_ok [OF assms(1)] g]
  from assms(2) g t'(1,3) show "sm_inv ext pc self"
    by (auto simp: state_manager_new_def sm_inv_def unwrap_root_def)
  from assms(2) g show "supply_ok self utxo_new"
    by (auto simp: state_manager_new_def supply_ok_def utxo_new_def total_value_def)
qed

text \<open>A committed block: the accounting it leaves.\<close>

lemma committed_block:
  assumes "apply_transactions ext pc engine
      (self\<lparr>applying_block := True, pending_updates := [], block_gas_fees := []\<rparr>, u, undo_new)
      (transactions block) = Some ((self1, u', undo), Inr ())"
    and "apply_state_transition (sm_tree self1) (pending_updates self1) (current_total_supply self1)
      = (tree2, Inr ())"
    and "commit_block ext pc block undo (self1\<lparr>sm_tree := tree2\<rparr>) = Some self3"
  shows "current_total_supply self3 = current_total_supply self1"
    and "current_total_supply self1 \<le> MAX_GLOBAL_SUPPLY_NANO_SLUG"
    and "snap_total_supply (last (snapshots self3)) = current_total_supply self1"
    and "block_undo_data self3 = fmupd (header_id (header block)) undo (block_undo_data self1)"
    and "length (snapshots self3) = Suc (length (snapshots self1))"
proof -
  show "current_total_supply self1 \<le> MAX_GLOBAL_SUPPLY_NANO_SLUG"
    using assms(2) by (auto simp: apply_state_transition_def Let_def not_less split: if_splits)
  show "current_total_supply self3 = current_total_supply self1"
    and "snap_total_supply (last (snapshots self3)) = current_total_supply self1"
    and "block_undo_data self3 = fmupd (header_id (header block)) undo (block_undo_data self1)"
    and "length (snapshots self3) = Suc (length (snapshots self1))"
    using assms(3) by (auto simp: commit_block_eq split: if_splits)
qed

section \<open>Properties\<close>

text \<open>applying a block whose contracts pass no negative length never panics in a sound manager and keeps it sound: the tree's caches
  agree with its stored nodes, the snapshots stay numbered by height, and every recorded root is
  the root of the recorded storage.\<close>

theorem sm_apply_block_keeps_invariant:
  assumes "sm_inv ext pc self" and "digest32 ext" and "unat (current_height self) + 1 < 2 ^ 64"
    and "\<forall>tx\<in>set (transactions block). contract_ok engine tx"
  shows "\<exists>self' u' r. sm_apply_block ext pc engine self block u = Some (self', u', r) \<and> sm_inv ext pc self'"
  using sm_apply_block_total [OF assms(1,2,4)] sm_inv_apply_block [OF assms(1-3)] by blast

text \<open>C10: a failed block leaves no trace: when \<open>apply_block\<close> reports an error, whether from a
  transaction, a contract, the burn check or the supply cap, the UTXO set and every field of the
  manager are as before, and the tree, replaced by a clone, reads the same under every key and
  has the same root.\<close>

theorem sm_apply_block_atomic:
  assumes "sm_apply_block ext pc engine self block u = Some (self', u', Inl e)"
  shows "u' = u \<and> (\<exists>t'. self' = self\<lparr>sm_tree := t'\<rparr>
    \<and> (\<forall>key. vt_get t' key = vt_get (sm_tree self) key)
    \<and> root_of ext pc t' = root_of ext pc (sm_tree self))"
  using assms
proof (cases rule: sm_apply_block_cases)
  case busy
  then show ?thesis by (auto intro!: exI [of _ "sm_tree self"])
next
  case (undone t)
  with vt_clone_content [OF undone(2)] show ?thesis by blast
qed simp

text \<open>C11: supply accounting of an accepted block. Let the supply counter agree with the UTXO set before
  the block, the block's transactions be new (their ids differ from each other and from those of
  all stored outputs, at most \<open>2 ^ 32\<close> outputs each), and the values of the set and of the block's
  outputs sum below \<open>2 ^ 128\<close>. When \<open>apply_block\<close> accepts, every input was present when spent, the
  UTXO set becomes the effect of the block's transactions, the counter still equals the total of
  the UTXO set, that total is within the global cap, and the counter is what the new snapshot
  records.\<close>

theorem sm_apply_block_supply:
  assumes "sm_apply_block ext pc engine self block u = Some (self', u', Inr x)"
    and "supply_ok self u" and "fresh_block u (transactions block)"
    and "total_value u + block_output_value (transactions block) < 2 ^ 128"
  shows "spendable u (transactions block) \<and> u' = block_effect u (transactions block)
    \<and> supply_ok self' u' \<and> total_value u' \<le> unat MAX_GLOBAL_SUPPLY_NANO_SLUG
    \<and> snap_total_supply (last (snapshots self')) = current_total_supply self'"
  using assms(1)
proof (cases rule: sm_apply_block_cases)
  case (committed self1 undo tree2 self3)
  note com = committed_block [OF committed(2-4)]
  have "spendable u (transactions block) \<and> u' = block_effect u (transactions block) \<and> supply_ok self1 u'"
    using apply_transactions_ok [OF committed(2)] assms(2-4)
    by (simp add: txs_applied_def supply_ok_def)
  moreover have "unat (current_total_supply self1) \<le> unat MAX_GLOBAL_SUPPLY_NANO_SLUG"
    using com(2) by (simp add: word_le_nat_alt)
  ultimately show ?thesis
    using com committed(5) by (simp add: supply_ok_def)
qed simp_all

text \<open>the gas-fee witness is exact: the two shares of every witness the manager creates add up
  to the fee and pass its own check, and the miner share is eighty percent rounded down as long
  as the \<open>u128\<close> product does not overflow.\<close>

theorem gas_fee_witness_exact:
  "verify_gas_fee_distribution (create_gas_fee_witness fee)
   \<and> unat (miner_share (create_gas_fee_witness fee)) + unat (fullnode_share (create_gas_fee_witness fee)) = unat fee
   \<and> (unat fee * 80 < 2 ^ 128 \<longrightarrow> unat (miner_share (create_gas_fee_witness fee)) = unat fee * 80 div 100)"
proof -
  let ?m = "fee * MINER_REWARD_PERCENT div 100"
  have p: "unat (fee * MINER_REWARD_PERCENT) \<le> unat fee * 80"
    using unat_word_ariths(2) [of fee MINER_REWARD_PERCENT] by (simp add: MINER_REWARD_PERCENT_def)
  have m: "unat ?m = unat (fee * MINER_REWARD_PERCENT) div 100" by (simp add: unat_div)
  have le: "unat ?m \<le> unat fee"
    using p div_times_less_eq_dividend [of "unat (fee * MINER_REWARD_PERCENT)" 100] unfolding m by linarith
  have "unat (saturating_sub fee ?m) = unat fee - unat ?m" by (rule unat_saturating_sub)
  with le have s: "unat ?m + unat (saturating_sub fee ?m) = unat fee" by simp
  have "?m + saturating_sub fee ?m = fee"
    using le by (simp add: saturating_sub_def word_le_nat_alt)
  moreover have "unat fee * 80 < 2 ^ 128 \<Longrightarrow> unat ?m = unat fee * 80 div 100"
    unfolding m using unat_mult_small [of fee MINER_REWARD_PERCENT] by (simp add: MINER_REWARD_PERCENT_def)
  ultimately show ?thesis
    using s by (simp add: create_gas_fee_witness_def verify_gas_fee_distribution_def Let_def)
qed

section \<open>Witnesses\<close>

definition demo_coinbase :: transaction where
  "demo_coinbase = \<lparr>tx_id = Hash (replicate 32 5), inputs = [],
     outputs = [\<lparr>out_value = 60, pubkey_hash = Hash (replicate 32 2)\<rparr>], execution_payload = [],
     contract_address = None, gas_limit = 0, max_fee_per_gas = 0, chain_id = 1, locktime = 0\<rparr>"

definition demo_reward_block :: block_node where
  "demo_reward_block = (bare_block hash_a {||})\<lparr>transactions := [demo_coinbase]\<rparr>"

definition demo_bad_block :: block_node where
  "demo_bad_block = (bare_block hash_a {||})\<lparr>transactions := [demo_coinbase, demo_tx]\<rparr>"

lemma demo_hash_digest32: "digest32 demo_hash_ext"
  by (auto simp: digest32_def demo_hash_ext_def min_def)

lemma demo_root_ok: "\<exists>root. root_of ext demo_pc t = Inr root"
proof -
  obtain n where k: "KEY_SIZE = Suc n" by (simp add: KEY_SIZE_def)
  show ?thesis
    unfolding root_of_def k
    by (simp add: commit_coeffs_def commitment_root_hash_def demo_pc_def)
qed

text \<open>A fresh manager on the toy commitment scheme.\<close>

lemma demo_manager:
  obtains self where "sm_inv demo_hash_ext demo_pc self" "supply_ok self utxo_new" "current_height self = 0"
    "current_total_supply self = 0" "pruned_keys (sm_tree self) = {||}" "block_undo_data self = fmempty"
    "snap_total_supply (snapshots self ! 0) = 0"
proof -
  obtain t where t: "vt_new demo_hash_ext demo_pc memory_storage_new = Inr t" using demo_vt_new by blast
  obtain t' r where g: "get_root demo_hash_ext demo_pc t = (t', r)" by (cases "get_root demo_hash_ext demo_pc t")
  have "r = root_of demo_hash_ext demo_pc t" by (rule get_root_storage(2) [OF vt_new_tree_ok [OF t] g])
  then obtain root where r: "r = Inr root" using demo_root_ok by metis
  obtain self where new: "state_manager_new demo_hash_ext demo_pc t = Inr self"
    using g r by (simp add: state_manager_new_def)
  have "pruned_keys t' = {||}"
    using get_root_frame(4) [OF vt_new_ok [OF t] g] t by (auto simp: vt_new_def)
  with new g r sm_inv_new [OF t new] that show ?thesis by (auto simp: state_manager_new_def)
qed

lemma demo_reward_applies:
  assumes inv: "sm_inv demo_hash_ext demo_pc self" and "current_total_supply self = 0"
  shows "\<exists>self' u'. sm_apply_block demo_hash_ext demo_pc engine self demo_reward_block utxo_new = Some (self', u', Inr ())"
proof -
  let ?self = "self\<lparr>applying_block := True, pending_updates := [], block_gas_fees := []\<rparr>"
  obtain self1 u1 undo where run: "apply_transactions demo_hash_ext demo_pc engine (?self, utxo_new, undo_new)
      (transactions demo_reward_block) = Some ((self1, u1, undo), Inr ())"
    and sup: "current_total_supply self1 = 60"
    and pend: "pending_updates self1 = [(hash_with_index demo_hash_ext demo_coinbase 0,
      serialize_output \<lparr>out_value = 60, pubkey_hash = Hash (replicate 32 2)\<rparr>)]"
    using assms(2) by (auto simp: demo_reward_block_def demo_coinbase_def bare_block_def apply_transaction_def
        apply_utxo_transaction_def produce_outputs_def produce_output_def Let_def saturating_add_def)
  have nb: "\<not> burns (serialize_output \<lparr>out_value = 60, pubkey_hash = Hash (replicate 32 2)\<rparr>)"
    by (simp add: burns_def output_codec.dec_enc hash_wf_def BURN_ADDRESS_def)
  have "\<exists>tree2. apply_state_transition (sm_tree self1) (pending_updates self1) (current_total_supply self1) = (tree2, Inr ())"
    unfolding sup pend using nb
    by (simp add: apply_state_transition_def Let_def MAX_GLOBAL_SUPPLY_NANO_SLUG_def)
  then obtain tree2 where tr: "apply_state_transition (sm_tree self1) (pending_updates self1) (current_total_supply self1) = (tree2, Inr ())"
    by blast
  have "\<exists>self3. commit_block demo_hash_ext demo_pc demo_reward_block undo (self1\<lparr>sm_tree := tree2\<rparr>) = Some self3"
    using apply_transactions_frame [OF run] inv by (simp add: commit_block_eq same_records_def sm_inv_def)
  moreover obtain t where "vt_clone demo_hash_ext demo_pc (sm_tree self) = Some t"
    using sm_inv_clones [OF inv] by blast
  ultimately show ?thesis
    using inv run tr by (auto simp: sm_apply_block_def sm_inv_def)
qed

theorem sm_apply_block_keeps_invariant_witness:
  "\<exists>self self' u' r. sm_inv demo_hash_ext demo_pc self \<and> digest32 demo_hash_ext
   \<and> sm_apply_block demo_hash_ext demo_pc (\<lambda>_. NoRun []) self demo_reward_block utxo_new = Some (self', u', r)
   \<and> sm_inv demo_hash_ext demo_pc self'"
proof -
  obtain self where inv: "sm_inv demo_hash_ext demo_pc self" "current_height self = 0" by (rule demo_manager)
  have "unat (current_height self) + 1 < 2 ^ 64" using inv(2) by simp
  moreover have "\<forall>tx\<in>set (transactions demo_reward_block). contract_ok (\<lambda>_. NoRun []) tx"
    by (simp add: contract_ok_def)
  ultimately show ?thesis
    using sm_apply_block_keeps_invariant [OF inv(1) demo_hash_digest32] inv(1) demo_hash_digest32 by blast
qed

theorem sm_apply_block_atomic_witness:
  "\<exists>self self' e. sm_apply_block demo_hash_ext demo_pc (\<lambda>_. NoRun []) self demo_bad_block utxo_new
     = Some (self', utxo_new, Inl e)
   \<and> vt_get (sm_tree self') (replicate 32 1) = vt_get (sm_tree self) (replicate 32 1)"
proof -
  obtain self where inv: "sm_inv demo_hash_ext demo_pc self" by (rule demo_manager)
  then obtain t where t: "vt_clone demo_hash_ext demo_pc (sm_tree self) = Some t" and idle: "\<not> applying_block self"
    using sm_inv_clones [OF inv] by blast
  have "\<exists>self' u' e. sm_apply_block demo_hash_ext demo_pc (\<lambda>_. NoRun []) self demo_bad_block utxo_new = Some (self', u', Inl e)"
    using t idle by (simp add: sm_apply_block_def demo_bad_block_def demo_coinbase_def demo_tx_def demo_input_def
        bare_block_def utxo_new_def apply_transaction_def apply_utxo_transaction_def produce_outputs_def
        produce_output_def outpoint_of_def transaction_new_def Let_def)
  then obtain self' u' e where run: "sm_apply_block demo_hash_ext demo_pc (\<lambda>_. NoRun []) self demo_bad_block utxo_new
      = Some (self', u', Inl e)" by blast
  obtain t' where "u' = utxo_new" "self' = self\<lparr>sm_tree := t'\<rparr>"
    "\<forall>key. vt_get t' key = vt_get (sm_tree self) key"
    using sm_apply_block_atomic [OF run] by blast
  with run show ?thesis
    by (intro exI [of _ self] exI [of _ self'] exI [of _ e]) simp
qed

theorem sm_apply_block_supply_witness:
  "\<exists>self self' u'. supply_ok self utxo_new \<and> fresh_block utxo_new (transactions demo_reward_block)
   \<and> sm_apply_block demo_hash_ext demo_pc (\<lambda>_. NoRun []) self demo_reward_block utxo_new = Some (self', u', Inr ())
   \<and> supply_ok self' u'"
proof -
  obtain self where inv: "sm_inv demo_hash_ext demo_pc self" "supply_ok self utxo_new" "current_total_supply self = 0"
    by (rule demo_manager)
  obtain self' u' where run: "sm_apply_block demo_hash_ext demo_pc (\<lambda>_. NoRun []) self demo_reward_block utxo_new
      = Some (self', u', Inr ())"
    using demo_reward_applies [OF inv(1,3)] by blast
  have fresh: "fresh_block utxo_new (transactions demo_reward_block)"
    by (simp add: fresh_block_def fresh_tx_def utxo_new_def demo_reward_block_def demo_coinbase_def)
  have "total_value utxo_new + block_output_value (transactions demo_reward_block) < 2 ^ 128"
    by (simp add: total_value_def utxo_new_def block_output_value_def outputs_value_def
        demo_reward_block_def demo_coinbase_def)
  from sm_apply_block_supply [OF run inv(2) fresh this] run inv(2) fresh show ?thesis by blast
qed

theorem gas_fee_witness_exact_witness:
  "unat (1000 :: u128) * 80 < 2 ^ 128 \<and> unat (miner_share (create_gas_fee_witness 1000)) = 800"
  using gas_fee_witness_exact [of 1000] by simp

end
