(* ===== verification/Chain_Reorg.thy ===== *)
theory Chain_Reorg
  imports State_Manager
begin

text \<open>
  The state manager's way back: \<open>core/state_manager.rs\<close>, disconnecting and connecting blocks,
  reorganizing to another tip, rolling back to a snapshot, pruning, and the consistency checks.
  The life of a manager is a step relation over these operations.
\<close>

section \<open>Disconnecting and connecting blocks\<close>

text \<open>The key recorded for a restored output: the index is encoded little-endian.\<close>

definition disconnect_key :: "externals \<Rightarrow> outpoint \<Rightarrow> bytes" where
  "disconnect_key ext k = as_bytes (hash_new ext (as_bytes (fst k) @ to_le_bytes 4 (snd k)))"

definition undo_tree :: "(bytes \<times> bytes option) list \<Rightarrow> verkle_tree \<Rightarrow> verkle_tree" where
  "undo_tree ups t =
     fold (\<lambda>(k, old) t. vt_insert t k (case old of Some v \<Rightarrow> v | None \<Rightarrow> [])) (rev ups) t"

definition undo_supply :: "int \<Rightarrow> u128 \<Rightarrow> u128" where
  "undo_supply delta s =
     (if 0 < delta then saturating_sub s (word_of_int delta)
      else saturating_add s (word_of_int (- delta)))"

definition disconnect_block ::
    "externals \<Rightarrow> state_manager \<Rightarrow> block_node \<Rightarrow> utxo_set
      \<Rightarrow> state_manager \<times> utxo_set \<times> (state_manager_error + unit)" where
  "disconnect_block ext self block u =
     (let block_hash = header_id (header block) in
      case fmlookup (block_undo_data self) block_hash of
        None \<Rightarrow> (self, u, Inl (ApplyBlockFailed ''No undo data for block {}''))
      | Some undo \<Rightarrow>
          (self\<lparr>outpoint_to_key := fmupds (map (\<lambda>s. (fst s, disconnect_key ext (fst s))) (spent_utxos undo))
                    (fmdrops (created_utxos undo) (outpoint_to_key self)),
                sm_tree := undo_tree (verkle_updates undo) (sm_tree self),
                current_total_supply := undo_supply (total_supply_delta undo) (current_total_supply self),
                block_gas_fees :=
                  take (length (block_gas_fees self) - length (gas_fees_added undo)) (block_gas_fees self),
                current_height := saturating_sub (current_height self) 1,
                snapshots := butlast (snapshots self),
                snapshot_storages := butlast (snapshot_storages self),
                block_undo_data := fmdrop block_hash (block_undo_data self)\<rparr>,
           u\<lparr>utxos := fmupds (spent_utxos undo) (fmdrops (created_utxos undo) (utxos u))\<rparr>,
           Inr ()))"

definition connect_block ::
    "externals \<Rightarrow> pc_ops \<Rightarrow> (bytes \<Rightarrow> wasm_load) \<Rightarrow> state_manager \<Rightarrow> block_node \<Rightarrow> utxo_set
      \<Rightarrow> (state_manager \<times> utxo_set \<times> (state_manager_error + unit)) option" where
  "connect_block ext pc engine self block u =
     (case validate_block_stateful ext pc self block u of
        (self', Inl _) \<Rightarrow> Some (self', u, Inl (ApplyBlockFailed ''Stateful validation failed: {:?}''))
      | (self', Inr _) \<Rightarrow> sm_apply_block ext pc engine self' block u)"

section \<open>Reorganization\<close>

text \<open>Known blocks of the plan: the leading ones with undo data are disconnected, the rest
  connected.\<close>

definition split_plan :: "state_manager \<Rightarrow> dag \<Rightarrow> hash list \<Rightarrow> hash list \<times> hash list" where
  "split_plan self g plan =
     (let known = filter (\<lambda>h. get_block g h \<noteq> None) plan;
          applied = (\<lambda>h. h |\<in>| fmdom (block_undo_data self))
      in (takeWhile applied known, dropWhile applied known))"

fun disconnect_blocks ::
    "externals \<Rightarrow> dag \<Rightarrow> state_manager \<Rightarrow> utxo_set \<Rightarrow> hash list
      \<Rightarrow> state_manager \<times> utxo_set \<times> (state_manager_error + unit)" where
  "disconnect_blocks ext g self u [] = (self, u, Inr ())"
| "disconnect_blocks ext g self u (h # hs) =
     (case get_block g h of
        None \<Rightarrow> disconnect_blocks ext g self u hs
      | Some block \<Rightarrow>
          (case disconnect_block ext self block u of
             (self', u', Inl e) \<Rightarrow> (self', u', Inl e)
           | (self', u', Inr _) \<Rightarrow> disconnect_blocks ext g self' u' hs))"

fun connect_blocks ::
    "externals \<Rightarrow> pc_ops \<Rightarrow> (bytes \<Rightarrow> wasm_load) \<Rightarrow> dag \<Rightarrow> state_manager \<Rightarrow> utxo_set \<Rightarrow> hash list
      \<Rightarrow> (state_manager \<times> utxo_set \<times> (state_manager_error + unit)) option" where
  "connect_blocks ext pc engine g self u [] = Some (self, u, Inr ())"
| "connect_blocks ext pc engine g self u (h # hs) =
     (case get_block g h of
        None \<Rightarrow> connect_blocks ext pc engine g self u hs
      | Some block \<Rightarrow>
          (case connect_block ext pc engine self block u of
             None \<Rightarrow> None
           | Some (self', u', Inl e) \<Rightarrow> Some (self', u', Inl e)
           | Some (self', u', Inr _) \<Rightarrow> connect_blocks ext pc engine g self' u' hs))"

definition perform_reorganization ::
    "externals \<Rightarrow> pc_ops \<Rightarrow> (bytes \<Rightarrow> wasm_load) \<Rightarrow> state_manager \<Rightarrow> dag \<Rightarrow> utxo_set \<Rightarrow> hash list
      \<Rightarrow> (state_manager \<times> utxo_set \<times> (state_manager_error + unit)) option" where
  "perform_reorganization ext pc engine self g u plan =
     (case split_plan self g plan of
        (to_disconnect, to_connect) \<Rightarrow>
          (case disconnect_blocks ext g self u (rev to_disconnect) of
             (self', u', Inl e) \<Rightarrow> Some (self', u', Inl e)
           | (self', u', Inr _) \<Rightarrow> connect_blocks ext pc engine g self' u' to_connect))"

text \<open>\<open>None\<close> is a panic or a walk that does not end. A failure restores the UTXO set, the height,
  the supply, the gas fees and the block hash, and leaves the rest as it is.\<close>

definition reorganize_chain ::
    "externals \<Rightarrow> pc_ops \<Rightarrow> (bytes \<Rightarrow> wasm_load) \<Rightarrow> (hash fset \<Rightarrow> hash list) \<Rightarrow> state_manager \<Rightarrow> dag
      \<Rightarrow> ghostdag \<Rightarrow> utxo_set \<Rightarrow> hash
      \<Rightarrow> (state_manager \<times> utxo_set \<times> (state_manager_error + unit)) option" where
  "reorganize_chain ext pc engine iter self g consensus u new_tip =
     (case can_reorganize consensus g new_tip of
        Inl _ \<Rightarrow> Some (self, u, Inl (ApplyBlockFailed ''Cannot reorganize: {:?}''))
      | Inr allowed \<Rightarrow>
          if \<not> allowed
          then Some (self, u, Inl (ApplyBlockFailed ''Reorganization would violate finality''))
          else case reorganize_to_tip ext iter consensus g new_tip of
            None \<Rightarrow> None
          | Some (Inl _) \<Rightarrow> Some (self, u, Inl (ApplyBlockFailed ''Failed to plan reorganization: {:?}''))
          | Some (Inr plan) \<Rightarrow>
              (let self0 = self\<lparr>sm_tree := fst (get_root ext pc (sm_tree self))\<rparr> in
               case perform_reorganization ext pc engine self0 g u plan of
                 None \<Rightarrow> None
               | Some (self', u', Inr _) \<Rightarrow> Some (self', u', Inr ())
               | Some (self', u', Inl e) \<Rightarrow>
                   Some (self'\<lparr>current_height := current_height self,
                           current_total_supply := current_total_supply self,
                           block_gas_fees := block_gas_fees self,
                           current_block_hash := current_block_hash self\<rparr>, u, Inl e)))"

section \<open>Rolling back\<close>

definition get_state_at :: "state_manager \<Rightarrow> u64 \<Rightarrow> state_snapshot option" where
  "get_state_at self height = find (\<lambda>s. snap_height s = height) (snapshots self)"

definition rollback_state ::
    "externals \<Rightarrow> pc_ops \<Rightarrow> state_manager \<Rightarrow> u64
      \<Rightarrow> (state_manager \<times> (state_manager_error + unit)) option" where
  "rollback_state ext pc self target_height =
     (if current_height self < target_height
      then Some (self, Inl (InvalidRollback ''Cannot rollback to height {} when current height is {}''))
      else if get_state_at self target_height = None
      then Some (self, Inl (SnapshotNotFound target_height))
      else
        let n = unat target_height;
            self1 = self\<lparr>snapshots := take (n + 1) (snapshots self),
                         snapshot_storages := take (n + 1) (snapshot_storages self),
                         current_height := target_height\<rparr>
        in if length (snapshot_storages self1) \<le> n
           then Some (self1, Inl (RestoreFailed ''Snapshot storage missing after truncation''))
           else case vt_new ext pc (snapshot_storages self1 ! n) of
             Inl _ \<Rightarrow> Some (self1, Inl (RestoreFailed ''Failed to restore tree: {}''))
           | Inr tree \<Rightarrow>
               if length (snapshots self1) \<le> n then None
               else let sn = snapshots self1 ! n in
                 case get_root ext pc tree of
                   (tree', r) \<Rightarrow>
                     let self2 = self1\<lparr>sm_tree := tree', current_total_supply := snap_total_supply sn,
                                       block_gas_fees := snap_gas_fees sn\<rparr>
                     in Some (self2,
                          if unwrap_root r \<noteq> snap_root sn
                          then Inl (RestoreFailed ''Root mismatch after rollback: expected {:?}, got {:?}'')
                          else Inr ()))"

definition restore_backup :: "state_manager \<Rightarrow> verkle_tree \<Rightarrow> state_manager \<Rightarrow> state_manager" where
  "restore_backup saved backup_tree self =
     self\<lparr>sm_tree := backup_tree, current_height := current_height saved,
          snapshots := snapshots saved, snapshot_storages := snapshot_storages saved,
          current_total_supply := current_total_supply saved, block_gas_fees := block_gas_fees saved\<rparr>"

definition rollback ::
    "externals \<Rightarrow> pc_ops \<Rightarrow> state_manager \<Rightarrow> u64
      \<Rightarrow> (state_manager \<times> (state_manager_error + unit)) option" where
  "rollback ext pc self target_height =
     (if current_height self < target_height
      then Some (self, Inl (InvalidRollback ''Requested rollback to {} is beyond current height {}''))
      else case vt_clone ext pc (sm_tree self) of
        None \<Rightarrow> None
      | Some backup_tree \<Rightarrow>
          (case rollback_state ext pc self target_height of
             None \<Rightarrow> None
           | Some (self', Inl e) \<Rightarrow> Some (restore_backup self backup_tree self', Inl e)
           | Some (self', Inr _) \<Rightarrow>
               (case get_root ext pc (sm_tree self') of
                  (tree', Inl _) \<Rightarrow> Some (self'\<lparr>sm_tree := tree'\<rparr>, Inr ())
                | (tree', Inr current_root) \<Rightarrow>
                    if length (snapshots self') \<le> unat target_height then None
                    else if current_root \<noteq> snap_root (snapshots self' ! unat target_height)
                    then Some (restore_backup self backup_tree (self'\<lparr>sm_tree := tree'\<rparr>), Inl (RestoreFailed
                      ''Silent corruption detected: root hash mismatch after rollback to height {}''))
                    else Some (self'\<lparr>sm_tree := tree'\<rparr>, Inr ()))))"

definition restore_from_snapshot ::
    "externals \<Rightarrow> pc_ops \<Rightarrow> state_manager \<Rightarrow> bytes \<Rightarrow> u64
      \<Rightarrow> state_manager \<times> (state_manager_error + unit)" where
  "restore_from_snapshot ext pc self root height =
     (case position (\<lambda>s. snap_height s = height \<and> snap_root s = root) (snapshots self) of
        None \<Rightarrow> (self, Inl (SnapshotNotFound height))
      | Some idx \<Rightarrow>
          if length (snapshot_storages self) \<le> idx
          then (self, Inl (RestoreFailed ''Storage missing''))
          else case vt_new ext pc (snapshot_storages self ! idx) of
            Inl _ \<Rightarrow> (self, Inl (RestoreFailed ''Failed to restore tree: {}''))
          | Inr tree \<Rightarrow>
              (self\<lparr>sm_tree := tree, current_height := height,
                    snapshots := take (idx + 1) (snapshots self),
                    snapshot_storages := take (idx + 1) (snapshot_storages self),
                    current_block_hash :=
                      (case take (idx + 1) (snapshots self) of
                         [] \<Rightarrow> None | ss \<Rightarrow> last_block_hash (last ss))\<rparr>, Inr ()))"

section \<open>Reading the state\<close>

definition get_current_state ::
    "externals \<Rightarrow> pc_ops \<Rightarrow> state_manager \<Rightarrow> state_manager \<times> (state_manager_error + state_snapshot)" where
  "get_current_state ext pc self =
     (case get_root ext pc (sm_tree self) of
        (t, Inl _) \<Rightarrow> (self\<lparr>sm_tree := t\<rparr>, Inl (SmCryptographicError ''Failed to get root: {}''))
      | (t, Inr root) \<Rightarrow>
          (self\<lparr>sm_tree := t\<rparr>,
           Inr \<lparr>snap_height = current_height self, snap_root = root,
                snap_total_supply = current_total_supply self, snap_gas_fees = block_gas_fees self,
                last_block_hash = current_block_hash self\<rparr>))"

definition get_root_hash ::
    "externals \<Rightarrow> pc_ops \<Rightarrow> state_manager \<Rightarrow> state_manager \<times> (state_manager_error + bytes)" where
  "get_root_hash ext pc self =
     (case get_root ext pc (sm_tree self) of
        (t, r) \<Rightarrow> (self\<lparr>sm_tree := t\<rparr>, map_err (\<lambda>_. SmCryptographicError ''Failed to get root: {}'') r))"

definition verify_state_root ::
    "externals \<Rightarrow> pc_ops \<Rightarrow> state_manager \<Rightarrow> hash \<Rightarrow> state_manager \<times> (state_manager_error + unit)" where
  "verify_state_root ext pc self expected_root =
     (case get_root_hash ext pc self of
        (self', Inl e) \<Rightarrow> (self', Inl e)
      | (self', Inr current_root) \<Rightarrow>
          (self', if hash_from_bytes current_root \<noteq> expected_root
                  then Inl (RestoreFailed ''State root mismatch after restore: expected {}, got {}'')
                  else Inr ()))"

definition state_read :: "state_manager \<Rightarrow> bytes \<Rightarrow> string + bytes option" where
  "state_read self key = map_err (\<lambda>_. ''Key has been pruned'') (vt_get (sm_tree self) key)"

definition state_write :: "state_manager \<Rightarrow> bytes \<Rightarrow> bytes \<Rightarrow> state_manager \<times> (string + unit)" where
  "state_write self key v = (self\<lparr>sm_tree := vt_insert (sm_tree self) key v\<rparr>, Inr ())"

definition get_current_state_root :: "externals \<Rightarrow> pc_ops \<Rightarrow> state_manager \<Rightarrow> state_manager \<times> hash" where
  "get_current_state_root ext pc self =
     (case get_root ext pc (sm_tree self) of
        (t, r) \<Rightarrow> (self\<lparr>sm_tree := t\<rparr>, hash_from_bytes (unwrap_root r)))"

definition get_last_block_hash :: "state_manager \<Rightarrow> hash" where
  "get_last_block_hash self =
     (case current_block_hash self of Some h \<Rightarrow> h | None \<Rightarrow> hash_from_bytes (replicate 32 0))"

section \<open>Pruning and consistency checks\<close>

definition mark_outpoint_for_pruning :: "state_manager \<Rightarrow> outpoint \<Rightarrow> u64 \<Rightarrow> u64 \<Rightarrow> state_manager" where
  "mark_outpoint_for_pruning self k epoch time =
     self\<lparr>sm_prune_markers :=
       fmupd k \<lparr>marker_epoch = epoch, marker_timestamp = time\<rparr> (sm_prune_markers self)\<rparr>"

fun prune_outpoints ::
    "state_manager \<Rightarrow> utxo_set \<Rightarrow> outpoint list \<Rightarrow> outpoint list
      \<Rightarrow> state_manager \<times> utxo_set \<times> (state_manager_error + outpoint list)" where
  "prune_outpoints self u acc [] = (self, u, Inr acc)"
| "prune_outpoints self u acc (k # ks) =
     (case fmlookup (outpoint_to_key self) k of
        None \<Rightarrow> prune_outpoints self u acc ks
      | Some key \<Rightarrow>
          (case prune_key (sm_tree self) key of
             (t, Inl _) \<Rightarrow> (self\<lparr>sm_tree := t\<rparr>, u, Inl (SmCryptographicError ''Prune failed: {}''))
           | (t, Inr _) \<Rightarrow>
               prune_outpoints
                 (self\<lparr>sm_tree := t, outpoint_to_key := fmdrop k (outpoint_to_key self),
                       sm_prune_markers := fmdrop k (sm_prune_markers self)\<rparr>)
                 (u\<lparr>utxos := fmdrop k (utxos u)\<rparr>) (acc @ [k]) ks))"

text \<open>\<open>iter\<close> is the iteration order of the marker map.\<close>

definition execute_pruning_cycle ::
    "((outpoint, prune_marker) fmap \<Rightarrow> (outpoint \<times> prune_marker) list) \<Rightarrow> state_manager \<Rightarrow> u64
      \<Rightarrow> utxo_set \<Rightarrow> state_manager \<times> utxo_set \<times> (state_manager_error + outpoint list)" where
  "execute_pruning_cycle iter self epoch_threshold u =
     prune_outpoints self u []
       (map fst (filter (\<lambda>(_, m). marker_epoch m \<le> epoch_threshold) (iter (sm_prune_markers self))))"

definition validate_snapshots :: "state_manager \<Rightarrow> state_manager_error + unit" where
  "validate_snapshots self =
     (if list_ex (\<lambda>(i, s). snap_height s \<noteq> of_nat i) (List.enumerate 0 (snapshots self))
      then Inl (ApplyBlockFailed ''Snapshot height mismatch at index {}'')
      else if length (snapshots self) \<noteq> length (snapshot_storages self)
      then Inl (ApplyBlockFailed ''Snapshot and storage length mismatch'')
      else Inr ())"

definition cross_check_supply_consistency ::
    "externals \<Rightarrow> pc_ops \<Rightarrow> state_manager \<Rightarrow> utxo_set \<Rightarrow> state_manager \<times> (state_manager_error + unit)" where
  "cross_check_supply_consistency ext pc self u =
     (if 2 ^ 128 \<le> total_value u
      then (self, Inl (SupplyCapExceeded ''UTXO sum overflow during supply check''))
      else if word_of_nat (total_value u) \<noteq> current_total_supply self
      then (self, Inl (ApplyBlockFailed
        ''Supply mismatch: UTXO sum {} != StateManager total supply {}. State corruption detected!''))
      else case get_root ext pc (sm_tree self) of
        (t, r) \<Rightarrow>
          (self\<lparr>sm_tree := t\<rparr>,
           if snapshots self \<noteq> [] \<and> snap_root (last (snapshots self)) \<noteq> unwrap_root r
           then Inl (ApplyBlockFailed ''Root hash mismatch between snapshot and current tree'')
           else Inr ()))"

text \<open>The markers kept are the first thousand in ascending order of their timestamps.\<close>

definition rebuild_state_root_and_prune_proofs ::
    "((outpoint, prune_marker) fmap \<Rightarrow> (outpoint \<times> prune_marker) list) \<Rightarrow> state_manager
      \<Rightarrow> state_manager \<times> nat" where
  "rebuild_state_root_and_prune_proofs iter self =
     (let pruned_count = length (iter (sm_prune_markers self)) - 1000 in
      (if 0 < pruned_count
       then self\<lparr>sm_prune_markers :=
              fmupds (take 1000 (sort_key (\<lambda>m. marker_timestamp (snd m)) (iter (sm_prune_markers self)))) fmempty\<rparr>
       else self, pruned_count))"

section \<open>Undoing a block on the UTXO set\<close>

definition created_in :: "transaction list \<Rightarrow> outpoint list" where
  "created_in txs = concat (map (\<lambda>tx. map fst (created_by tx)) txs)"

lemma tx_effect_lookup:
  "k \<notin> fst ` set (created_by tx) \<Longrightarrow>
   fmlookup (utxos (tx_effect u tx)) k = (if k \<in> set (outpoints tx) then None else fmlookup (utxos u) k)"
  by (simp add: tx_effect_def fmlookup_fmupds_other)

lemma spent_by_keys: "fst ` set (spent_by u tx) = set (outpoints tx)"
  by (force simp: spent_by_def)

lemma block_effect_lookup:
  "k \<notin> set (created_in txs) \<Longrightarrow>
   fmlookup (utxos (block_effect u txs)) k
     = (if k \<in> fst ` set (spent_in u txs) then None else fmlookup (utxos u) k)"
proof (induction txs arbitrary: u)
  case (Cons tx txs)
  then show ?case
    using spent_by_keys [of u tx] tx_effect_lookup [of k tx u]
    by (auto simp: created_in_def block_effect_def image_Un)
qed (simp add: block_effect_def)

lemma spent_in_lookup:
  "spendable u txs \<Longrightarrow> (k, out) \<in> set (spent_in u txs) \<Longrightarrow> k \<notin> set (created_in txs) \<Longrightarrow>
   fmlookup (utxos u) k = Some out"
proof (induction txs arbitrary: u)
  case (Cons tx txs)
  show ?case
  proof (cases "(k, out) \<in> set (spent_by u tx)")
    case True
    then have "k \<in> fmdom' (utxos u)" and "out = the (fmlookup (utxos u) k)"
      using Cons.prems(1) by (auto simp: spent_by_def)
    then show ?thesis by (auto simp: fmlookup_dom'_iff)
  next
    case False
    then have "fmlookup (utxos (tx_effect u tx)) k = Some out"
      using Cons by (auto simp: created_in_def)
    with Cons.prems(3) show ?thesis
      by (auto simp: tx_effect_lookup created_in_def split: if_splits)
  qed
qed simp

lemma fmupds_agree:
  "\<forall>kv\<in>set kvs. fmlookup m (fst kv) = Some (snd kv) \<Longrightarrow>
   fmlookup (fmupds kvs m') k = (if k \<in> fst ` set kvs then fmlookup m k else fmlookup m' k)"
  by (induction kvs arbitrary: m') auto

lemma created_in_fresh: "fresh_block u txs \<Longrightarrow> k \<in> set (created_in txs) \<Longrightarrow> k \<notin> fmdom' (utxos u)"
  by (auto simp: fresh_block_def created_in_def dest: fresh_tx_dom created_by_txid [OF imageI])

lemma undo_utxos_exact:
  assumes fresh: "fresh_block u txs" and sp: "spendable u txs"
  shows "fmupds (spent_in u txs) (fmdrops (created_in txs) (utxos (block_effect u txs))) = utxos u
    \<longleftrightarrow> fst ` set (spent_in u txs) \<inter> set (created_in txs) = {}"
    (is "?restored = _ \<longleftrightarrow> ?disjoint")
proof
  assume eq: "?restored = utxos u"
  show ?disjoint
  proof (rule ccontr)
    assume "\<not> ?disjoint"
    then obtain k where k: "k \<in> fst ` set (spent_in u txs)" "k \<in> set (created_in txs)" by blast
    then have "k \<in> fmdom' ?restored" by simp
    with eq created_in_fresh [OF fresh k(2)] show False by simp
  qed
next
  assume dis: ?disjoint
  show "?restored = utxos u"
  proof (rule fmap_ext)
    fix k
    have "\<forall>kv\<in>set (spent_in u txs). fmlookup (utxos u) (fst kv) = Some (snd kv)"
      using spent_in_lookup [OF sp] dis by fastforce
    then have "fmlookup ?restored k = (if k \<in> fst ` set (spent_in u txs) then fmlookup (utxos u) k
        else fmlookup (fmdrops (created_in txs) (utxos (block_effect u txs))) k)"
      by (rule fmupds_agree)
    moreover have "k \<in> set (created_in txs) \<Longrightarrow> fmlookup (utxos u) k = None"
      using created_in_fresh [OF fresh] by (simp add: fmdom'_notD)
    ultimately show "fmlookup ?restored k = fmlookup (utxos u) k"
      using block_effect_lookup [of k txs u] by auto
  qed
qed

lemma undo_supply_exact:
  assumes "unat s' = v'" and "unat s = v" and "delta = int v' - int v"
  shows "undo_supply delta s' = (s :: u128)"
proof -
  have b: "v' < 2 ^ 128" "v < 2 ^ 128"
    using unat_bounds(4) [of s'] unat_bounds(4) [of s] assms by simp_all
  have w: "unat (word_of_int (int n) :: u128) = n" if "n < 2 ^ 128" for n
    using that by (simp add: unat_of_nat_small)
  have "unat (undo_supply delta s') = unat s"
  proof (cases "v < v'")
    case True
    then have "delta = int (v' - v)" using assms(3) by simp
    with True w [of "v' - v"] b assms(1,2) show ?thesis
      by (simp add: undo_supply_def unat_saturating_sub)
  next
    case False
    then have "delta = - int (v - v')" using assms(3) by simp
    with False w [of "v - v'"] b assms(1,2) show ?thesis
      by (simp add: undo_supply_def unat_saturating_add)
  qed
  then show ?thesis by (simp add: word_unat_eq_iff)
qed

text \<open>The undo data a block leaves, and the tables after disconnecting it.\<close>

lemma applied_undo:
  assumes "sm_apply_block ext pc engine self block u = Some (self1, u1, Inr x)"
    and "supply_ok self u" and "fresh_block u (transactions block)"
    and "total_value u + block_output_value (transactions block) < 2 ^ 128"
  obtains undo where "fmlookup (block_undo_data self1) (header_id (header block)) = Some undo"
    "spent_utxos undo = spent_in u (transactions block)" "created_utxos undo = created_in (transactions block)"
    "total_supply_delta undo = int (total_value u1) - int (total_value u)"
    "supply_ok self1 u1" "spendable u (transactions block)" "u1 = block_effect u (transactions block)"
    "snapshots self = butlast (snapshots self1)" "snapshot_storages self = butlast (snapshot_storages self1)"
    "current_height self1 = current_height self + 1"
  using assms(1)
proof (cases rule: sm_apply_block_cases)
  case (committed s1 undo tree2 self3)
  have rec: "same_records (self\<lparr>applying_block := True, pending_updates := [], block_gas_fees := []\<rparr>) s1"
    using apply_transactions_frame [OF committed(2)] by simp
  have "txs_applied ext (transactions block)
      (self\<lparr>applying_block := True, pending_updates := [], block_gas_fees := []\<rparr>, u, undo_new) (s1, u1, undo)"
    by (rule apply_transactions_ok [OF committed(2)])
  with assms(2-4) have "spendable u (transactions block) \<and> u1 = block_effect u (transactions block)
      \<and> supply_ok s1 u1 \<and> spent_utxos undo = spent_in u (transactions block)
      \<and> created_utxos undo = created_in (transactions block)
      \<and> total_supply_delta undo = int (total_value u1) - int (total_value u)"
    by (simp add: txs_applied_def undo_new_def created_in_def supply_ok_def)
  with committed(4,5) rec that [of undo] show ?thesis
    by (auto simp: commit_block_eq same_records_def supply_ok_def split: if_splits)
qed simp_all

section \<open>Properties: disconnecting\<close>

text \<open>C15: disconnecting the block that was just applied. Let the supply counter agree with the UTXO
  set before the block, the block's transactions be new (their ids differ from each other and from
  those of all stored outputs, at most \<open>2 ^ 32\<close> outputs each), the values of the set and of the
  block's outputs sum below \<open>2 ^ 128\<close>, and the height be below its last value. Then disconnecting
  succeeds and brings back the supply counter, the height, the snapshots and their storages, and
  it brings back the UTXO set exactly when the block spends no output that it created itself.\<close>

theorem disconnect_undoes_apply:
  assumes "sm_apply_block ext pc engine self block u = Some (self1, u1, Inr x)"
    and "supply_ok self u" and "fresh_block u (transactions block)"
    and "total_value u + block_output_value (transactions block) < 2 ^ 128"
    and "unat (current_height self) + 1 < 2 ^ 64"
    and "disconnect_block ext self1 block u1 = (self2, u2, r)"
  shows "r = Inr () \<and> current_total_supply self2 = current_total_supply self
    \<and> current_height self2 = current_height self \<and> snapshots self2 = snapshots self
    \<and> snapshot_storages self2 = snapshot_storages self
    \<and> (u2 = u \<longleftrightarrow> fst ` set (spent_in u (transactions block)) \<inter> set (created_in (transactions block)) = {})"
proof -
  obtain undo where undo: "fmlookup (block_undo_data self1) (header_id (header block)) = Some undo"
    "spent_utxos undo = spent_in u (transactions block)" "created_utxos undo = created_in (transactions block)"
    "total_supply_delta undo = int (total_value u1) - int (total_value u)"
    and ok: "supply_ok self1 u1" "spendable u (transactions block)" "u1 = block_effect u (transactions block)"
    and tabs: "snapshots self = butlast (snapshots self1)" "snapshot_storages self = butlast (snapshot_storages self1)"
      "current_height self1 = current_height self + 1"
    by (rule applied_undo [OF assms(1-4)])
  have s: "undo_supply (total_supply_delta undo) (current_total_supply self1) = current_total_supply self"
    using ok(1) assms(2) undo(4) by (intro undo_supply_exact) (simp_all add: supply_ok_def)
  have "unat (current_height self + 1) = unat (current_height self) + 1"
    using assms(5) by (simp add: unat_add_small)
  then have h: "saturating_sub (current_height self1) 1 = current_height self"
    by (simp add: tabs(3) word_unat_eq_iff unat_saturating_sub)
  have "u2 = u \<longleftrightarrow> utxos u2 = utxos u" by (cases u2, cases u) simp
  also have "utxos u2 = fmupds (spent_in u (transactions block))
      (fmdrops (created_in (transactions block)) (utxos (block_effect u (transactions block))))"
    using assms(6) undo ok(3) by (auto simp: disconnect_block_def Let_def)
  finally have "u2 = u \<longleftrightarrow> fst ` set (spent_in u (transactions block)) \<inter> set (created_in (transactions block)) = {}"
    using undo_utxos_exact [OF assms(3) ok(2)] by simp
  with assms(6) undo s h tabs show ?thesis
    by (auto simp: disconnect_block_def Let_def)
qed

section \<open>Rolling back a sound manager\<close>

lemma get_state_at_inv:
  assumes "sm_inv ext pc self" and "target \<le> current_height self"
  shows "get_state_at self target \<noteq> None"
proof -
  have n: "unat target < length (snapshots self)"
    using assms by (simp add: sm_inv_def word_le_nat_alt)
  then have "snap_height (snapshots self ! unat target) = target"
    using assms(1) by (simp add: sm_inv_def word_unat_eq_iff)
  with n have "\<exists>s\<in>set (snapshots self). snap_height s = target" using nth_mem by blast
  then show ?thesis by (auto simp: get_state_at_def find_None_iff)
qed

lemma sm_inv_truncate:
  assumes inv: "sm_inv ext pc self" and le: "target \<le> current_height self" and ok: "tree_ok ext pc t"
  shows "sm_inv ext pc (self\<lparr>sm_tree := t, current_height := target,
      snapshots := take (unat target + 1) (snapshots self),
      snapshot_storages := take (unat target + 1) (snapshot_storages self),
      current_total_supply := s, block_gas_fees := f, current_block_hash := h\<rparr>)"
proof -
  have "unat target \<le> unat (current_height self)" using le by (simp add: word_le_nat_alt)
  with inv ok show ?thesis by (auto simp: sm_inv_def min_def)
qed

lemma rollback_state_ok:
  assumes inv: "sm_inv ext pc self" and le: "target \<le> current_height self"
  shows "\<exists>t. rollback_state ext pc self target = Some (self\<lparr>sm_tree := t, current_height := target,
      snapshots := take (unat target + 1) (snapshots self),
      snapshot_storages := take (unat target + 1) (snapshot_storages self),
      current_total_supply := snap_total_supply (snapshots self ! unat target),
      block_gas_fees := snap_gas_fees (snapshots self ! unat target)\<rparr>, Inr ())
    \<and> tree_ok ext pc t \<and> storage_root ext pc (storage t) = snap_root (snapshots self ! unat target)
    \<and> (\<forall>key. get_node_value t key = (case vt_new ext pc (snapshot_storages self ! unat target) of
          Inl _ \<Rightarrow> None | Inr t0 \<Rightarrow> get_node_value t0 key))"
proof -
  let ?n = "unat target"
  have n: "?n < length (snapshots self)" "length (snapshot_storages self) = length (snapshots self)"
    using inv le by (simp_all add: sm_inv_def word_le_nat_alt)
  obtain t0 where t0: "vt_new ext pc (snapshot_storages self ! ?n) = Inr t0"
    using vt_new_exists inv by (metis sm_inv_def)
  obtain t r where g: "get_root ext pc t0 = (t, r)" by (cases "get_root ext pc t0")
  note root = get_root_storage [OF vt_new_tree_ok [OF t0] g]
  have "unwrap_root r = storage_root ext pc (snapshot_storages self ! ?n)"
    using root(2) t0 by (simp add: storage_root_def)
  also have "\<dots> = snap_root (snapshots self ! ?n)" using inv n by (simp add: sm_inv_def)
  finally have eq: "unwrap_root r = snap_root (snapshots self ! ?n)" .
  have "get_node_value t key = get_node_value t0 key" for key
    using root(4) by (simp add: get_node_value_def)
  with eq root n t0 g le get_state_at_inv [OF inv le] show ?thesis
    by (intro exI [of _ t]) (auto simp: rollback_state_def Let_def not_less min_def)
qed

text \<open>rolling back always works in a sound manager: for every height up to the current one
  \<open>rollback_state\<close> succeeds, without a root mismatch or a panic, and leaves a sound manager whose
  tree has the root recorded for that height and whose supply counter and gas fees are the
  recorded ones. The tables of undo data and output keys, the prune markers and the current block
  hash are not rolled back.\<close>

theorem rollback_state_succeeds:
  assumes "sm_inv ext pc self" and "target \<le> current_height self"
  shows "\<exists>self'. rollback_state ext pc self target = Some (self', Inr ()) \<and> sm_inv ext pc self'
    \<and> current_height self' = target
    \<and> unwrap_root (root_of ext pc (sm_tree self')) = snap_root (snapshots self ! unat target)
    \<and> current_total_supply self' = snap_total_supply (snapshots self ! unat target)
    \<and> block_gas_fees self' = snap_gas_fees (snapshots self ! unat target)
    \<and> block_undo_data self' = block_undo_data self \<and> outpoint_to_key self' = outpoint_to_key self
    \<and> sm_prune_markers self' = sm_prune_markers self \<and> current_block_hash self' = current_block_hash self"
proof -
  obtain t where run: "rollback_state ext pc self target = Some (self\<lparr>sm_tree := t, current_height := target,
      snapshots := take (unat target + 1) (snapshots self),
      snapshot_storages := take (unat target + 1) (snapshot_storages self),
      current_total_supply := snap_total_supply (snapshots self ! unat target),
      block_gas_fees := snap_gas_fees (snapshots self ! unat target)\<rparr>, Inr ())"
    and t: "tree_ok ext pc t" "storage_root ext pc (storage t) = snap_root (snapshots self ! unat target)"
    using rollback_state_ok [OF assms] by blast
  from run t(2) root_of_storage [OF t(1)] sm_inv_truncate [OF assms t(1),
      where h = "current_block_hash self" and s = "snap_total_supply (snapshots self ! unat target)"
        and f = "snap_gas_fees (snapshots self ! unat target)"]
  show ?thesis by simp
qed

section \<open>The life of a manager\<close>

text \<open>Every key the manager will hand to the tree has the length of a key.\<close>

definition keys_ok :: "state_manager \<Rightarrow> bool" where
  "keys_ok self \<longleftrightarrow>
     (\<forall>key\<in>fmran' (outpoint_to_key self). length key = KEY_SIZE)
     \<and> (\<forall>undo\<in>fmran' (block_undo_data self).
          list_all (\<lambda>kv. length (fst kv) = KEY_SIZE) (verkle_updates undo))"

definition work_keys_ok :: "work \<Rightarrow> bool" where
  "work_keys_ok w \<longleftrightarrow>
     (case w of (self, u, undo) \<Rightarrow>
        (\<forall>key\<in>fmran' (outpoint_to_key self). length key = KEY_SIZE)
        \<and> list_all (\<lambda>kv. length (fst kv) = KEY_SIZE) (verkle_updates undo))"

lemma fmran'_fmdrop_subset: "fmran' (fmdrop k m) \<subseteq> fmran' m"
  by (auto simp: fmlookup_ran'_iff split: if_splits)

lemma fmran'_fmdrops_subset: "fmran' (fmdrops ks m) \<subseteq> fmran' m"
  by (auto simp: fmlookup_ran'_iff split: if_splits)

lemma fmran'_fmupd_subset: "fmran' (fmupd k v m) \<subseteq> insert v (fmran' m)"
  by (auto simp: fmlookup_ran'_iff split: if_splits)

lemma fmran'_fmupds_subset: "fmran' (fmupds kvs m) \<subseteq> snd ` set kvs \<union> fmran' m"
proof (induction kvs arbitrary: m)
  case (Cons kv kvs)
  from Cons.IH [of "fmupd (fst kv) (snd kv) m"] fmran'_fmupd_subset [of "fst kv" "snd kv" m]
  show ?case by auto
qed simp

lemmas fmran'_subsets = subsetD [OF fmran'_fmdrop_subset] subsetD [OF fmran'_fmdrops_subset]
  subsetD [OF fmran'_fmupd_subset] subsetD [OF fmran'_fmupds_subset]

lemma consume_inputs_keys:
  "consume_inputs w ins = (w', r) \<Longrightarrow> work_keys_ok w \<Longrightarrow> work_keys_ok w'"
proof (induction w ins arbitrary: w' r rule: consume_inputs.induct)
  case (2 self u undo i ins)
  show ?case
  proof (cases "fmlookup (utxos u) (outpoint_of i)")
    case None
    with 2(2,3) show ?thesis by auto
  next
    case (Some out)
    with 2(2) have "consume_inputs (self\<lparr>current_total_supply :=
          saturating_sub (current_total_supply self) (ucast (out_value out)),
        outpoint_to_key := fmdrop (outpoint_of i) (outpoint_to_key self),
        sm_prune_markers := fmdrop (outpoint_of i) (sm_prune_markers self)\<rparr>,
      u\<lparr>utxos := fmdrop (outpoint_of i) (utxos u)\<rparr>,
      undo\<lparr>spent_utxos := spent_utxos undo @ [(outpoint_of i, out)],
        total_supply_delta := total_supply_delta undo - int (unat (out_value out))\<rparr>) ins = (w', r)" by simp
    from 2(1) [OF Some this] 2(3) show ?thesis
      by (auto simp: work_keys_ok_def dest: fmran'_subsets)
  qed
qed auto

lemma hash_with_index_length: "digest32 ext \<Longrightarrow> length (hash_with_index ext tx n) = KEY_SIZE"
  by (simp add: hash_with_index_def hash_new_def digest32_def KEY_SIZE_def)

lemma produce_output_keys:
  assumes "digest32 ext" and "work_keys_ok w"
  shows "work_keys_ok (produce_output ext tx n out w)"
  using assms hash_with_index_length [OF assms(1), of tx "of_nat n"]
  by (cases w) (auto simp: work_keys_ok_def produce_output_def Let_def dest!: fmran'_subsets)

lemma produce_outputs_keys:
  assumes "digest32 ext" and "work_keys_ok w"
  shows "work_keys_ok (produce_outputs ext tx w)"
proof -
  have "work_keys_ok (fold (\<lambda>(n, out). produce_output ext tx n out) xs w)" for xs
    using assms(2) by (induction xs arbitrary: w)
      (simp_all add: produce_output_keys [OF assms(1)] case_prod_beta del: split_paired_All)
  then show ?thesis by (simp add: produce_outputs_def)
qed

lemma apply_utxo_transaction_keys:
  assumes "digest32 ext" and "apply_utxo_transaction ext w tx = (w', r)" and "work_keys_ok w"
  shows "work_keys_ok w'"
proof -
  obtain w1 r1 where c: "consume_inputs w (inputs tx) = (w1, r1)" by (cases "consume_inputs w (inputs tx)")
  have "work_keys_ok w1" by (rule consume_inputs_keys [OF c assms(3)])
  with assms(2) c produce_outputs_keys [OF assms(1), of w1 tx] show ?thesis
    by (cases r1) (auto simp: apply_utxo_transaction_def)
qed

lemma apply_transaction_keys:
  assumes "digest32 ext" and "apply_transaction ext pc engine w tx = Some (w', r)" and "work_keys_ok w"
  shows "work_keys_ok w'"
proof (cases "execution_payload tx = [] \<and> contract_address tx = None")
  case True
  with assms show ?thesis
    using apply_utxo_transaction_keys [OF assms(1), of w tx w' r] by (auto simp: apply_transaction_def)
next
  case False
  obtain self u undo where w: "w = (self, u, undo)" by (cases w) auto
  have "apply_contract_transition ext pc engine (self, u, undo) tx = Some (w', r)"
    using False assms(2) w by (auto simp: apply_transaction_def)
  then show ?thesis
  proof (cases rule: apply_contract_cases)
    case (ran tree' gas x)
    from apply_utxo_transaction_keys [OF assms(1) ran(2)] assms(3) w show ?thesis
      by (simp add: work_keys_ok_def)
  qed (use assms(3) w in \<open>simp_all add: work_keys_ok_def\<close>)
qed

lemma apply_transactions_keys:
  "digest32 ext \<Longrightarrow> apply_transactions ext pc engine w txs = Some (w', r) \<Longrightarrow> work_keys_ok w \<Longrightarrow> work_keys_ok w'"
proof (induction txs arbitrary: w)
  case (Cons tx txs)
  obtain w1 r1 where one: "apply_transaction ext pc engine w tx = Some (w1, r1)"
    using Cons.prems by (auto split: option.splits)
  have "w' = w1 \<or> apply_transactions ext pc engine w1 txs = Some (w', r)"
    using Cons.prems one by (auto split: sum.splits)
  with Cons apply_transaction_keys [OF Cons.prems(1) one Cons.prems(3)] show ?case by blast
qed simp

lemma keys_ok_apply_block:
  assumes "digest32 ext" and "keys_ok self" and "sm_apply_block ext pc engine self block u = Some (self', u', r)"
  shows "keys_ok self'"
  using assms(3)
proof (cases rule: sm_apply_block_cases)
  case (committed self1 undo tree2 self3)
  have "work_keys_ok (self1, u', undo)"
    using assms(2) by (intro apply_transactions_keys [OF assms(1) committed(2)])
      (simp add: work_keys_ok_def keys_ok_def undo_new_def)
  moreover have "block_undo_data self1 = block_undo_data self"
    using apply_transactions_frame [OF committed(2)] by (simp add: same_records_def)
  ultimately show ?thesis
    using committed(4,5) assms(2)
    by (auto simp: commit_block_eq keys_ok_def work_keys_ok_def dest!: fmran'_subsets split: if_splits)
qed (use assms(2) in \<open>simp_all add: keys_ok_def\<close>)

lemma tree_ok_insert: "tree_ok ext pc t \<Longrightarrow> length key = KEY_SIZE \<Longrightarrow> tree_ok ext pc (vt_insert t key v)"
  by (rule tree_ok_step [OF vt_step.insert])

lemma tree_ok_undo:
  assumes "tree_ok ext pc t" and "list_all (\<lambda>kv. length (fst kv) = KEY_SIZE) ups"
  shows "tree_ok ext pc (undo_tree ups t)"
proof -
  have "tree_ok ext pc t \<Longrightarrow> list_all (\<lambda>kv. length (fst kv) = KEY_SIZE) xs \<Longrightarrow>
      tree_ok ext pc (fold (\<lambda>(k, old) t. vt_insert t k (case old of Some v \<Rightarrow> v | None \<Rightarrow> [])) xs t)" for xs
    by (induction xs arbitrary: t) (auto simp: tree_ok_insert)
  from this [of "rev ups"] assms show ?thesis by (simp add: undo_tree_def list_all_rev)
qed

lemma sm_inv_tables:
  assumes "sm_inv ext pc self" and "tree_ok ext pc t"
  shows "sm_inv ext pc (self\<lparr>sm_tree := t, outpoint_to_key := ks, sm_prune_markers := ms\<rparr>)"
  using assms by (simp add: sm_inv_def)

lemma sm_inv_disconnect:
  assumes inv: "sm_inv ext pc self" and keys: "keys_ok self" and dig: "digest32 ext"
    and h: "0 < current_height self" and res: "disconnect_block ext self block u = (self', u', r)"
  shows "sm_inv ext pc self' \<and> keys_ok self'"
proof (cases "fmlookup (block_undo_data self) (header_id (header block))")
  case None
  with res inv keys show ?thesis by (simp add: disconnect_block_def)
next
  case (Some undo)
  then have "undo \<in> fmran' (block_undo_data self)" by (rule fmran'I)
  then have ups: "list_all (\<lambda>kv. length (fst kv) = KEY_SIZE) (verkle_updates undo)"
    using keys by (simp add: keys_ok_def)
  have t: "tree_ok ext pc (undo_tree (verkle_updates undo) (sm_tree self))"
    using inv ups by (intro tree_ok_undo) (simp_all add: sm_inv_def)
  have hh: "unat (saturating_sub (current_height self) 1) = unat (current_height self) - 1"
      "0 < unat (current_height self)"
    using h by (simp_all add: unat_saturating_sub unat_gt_0)
  have k: "length (disconnect_key ext op) = KEY_SIZE" for op
    using dig by (simp add: disconnect_key_def hash_new_def digest32_def KEY_SIZE_def)
  from res Some t inv hh show ?thesis
    using keys k
    by (auto simp: disconnect_block_def Let_def sm_inv_def keys_ok_def nth_butlast dest!: fmran'_subsets)
qed

lemma rollback_state_inv:
  assumes inv: "sm_inv ext pc self" and res: "rollback_state ext pc self target = Some (self', r)"
  shows "sm_inv ext pc self'" and "keys_ok self \<Longrightarrow> keys_ok self'"
proof -
  have "self' = self \<or> target \<le> current_height self"
    using res by (auto simp: rollback_state_def split: if_splits)
  moreover have "sm_inv ext pc self' \<and> (keys_ok self \<longrightarrow> keys_ok self')" if le: "target \<le> current_height self"
  proof -
    obtain t where run: "rollback_state ext pc self target = Some (self\<lparr>sm_tree := t, current_height := target,
        snapshots := take (unat target + 1) (snapshots self),
        snapshot_storages := take (unat target + 1) (snapshot_storages self),
        current_total_supply := snap_total_supply (snapshots self ! unat target),
        block_gas_fees := snap_gas_fees (snapshots self ! unat target)\<rparr>, Inr ())"
      and t: "tree_ok ext pc t" using rollback_state_ok [OF inv le] by blast
    with res sm_inv_truncate [OF inv le t, where h = "current_block_hash self"
        and s = "snap_total_supply (snapshots self ! unat target)"
        and f = "snap_gas_fees (snapshots self ! unat target)"]
    show ?thesis by (auto simp: keys_ok_def)
  qed
  ultimately show "sm_inv ext pc self'" "keys_ok self \<Longrightarrow> keys_ok self'" using inv by auto
qed

lemma rollback_inv:
  assumes inv: "sm_inv ext pc self" and res: "rollback ext pc self target = Some (self', r)"
  shows "sm_inv ext pc self'" and "keys_ok self \<Longrightarrow> keys_ok self'"
proof -
  have "sm_inv ext pc self' \<and> (keys_ok self \<longrightarrow> keys_ok self')"
  proof (cases "current_height self < target")
    case True
    with res inv show ?thesis by (simp add: rollback_def)
  next
    case False
    then have le: "target \<le> current_height self" by simp
    obtain bt where bt: "vt_clone ext pc (sm_tree self) = Some bt" using sm_inv_clones [OF inv] by blast
    obtain t where run: "rollback_state ext pc self target = Some (self\<lparr>sm_tree := t, current_height := target,
        snapshots := take (unat target + 1) (snapshots self),
        snapshot_storages := take (unat target + 1) (snapshot_storages self),
        current_total_supply := snap_total_supply (snapshots self ! unat target),
        block_gas_fees := snap_gas_fees (snapshots self ! unat target)\<rparr>, Inr ())" (is "_ = Some (?self, _)")
      and t: "tree_ok ext pc t" "storage_root ext pc (storage t) = snap_root (snapshots self ! unat target)"
      using rollback_state_ok [OF inv le] by blast
    obtain t' r' where g: "get_root ext pc t = (t', r')" by (cases "get_root ext pc t")
    note root = get_root_storage [OF t(1) g]
    have n: "unat target < length (snapshots self)"
      using inv le by (simp add: sm_inv_def word_le_nat_alt)
    have "unwrap_root r' = snap_root (snapshots self ! unat target)"
      using root(3,4) t(2) by simp
    then have "rollback ext pc self target = Some (?self\<lparr>sm_tree := t'\<rparr>, Inr ())"
      using run g n False bt by (cases r') (auto simp: rollback_def unwrap_root_def)
    moreover have "sm_inv ext pc (?self\<lparr>sm_tree := t'\<rparr>)"
      using rollback_state_inv(1) [OF inv run] root(1) by (rule sm_inv_tree)
    ultimately show ?thesis using res by (auto simp: keys_ok_def)
  qed
  then show "sm_inv ext pc self'" "keys_ok self \<Longrightarrow> keys_ok self'" by auto
qed

lemma restore_from_snapshot_inv:
  assumes inv: "sm_inv ext pc self" and res: "restore_from_snapshot ext pc self root height = (self', r)"
  shows "sm_inv ext pc self'" and "keys_ok self \<Longrightarrow> keys_ok self'"
proof -
  have "sm_inv ext pc self' \<and> (keys_ok self \<longrightarrow> keys_ok self')"
  proof (cases "position (\<lambda>s. snap_height s = height \<and> snap_root s = root) (snapshots self)")
    case None
    with res inv show ?thesis by (simp add: restore_from_snapshot_def)
  next
    case (Some idx)
    note pos = position_Some [OF Some]
    then have idx: "unat height = idx" using inv by (auto simp: sm_inv_def)
    then have le: "height \<le> current_height self" using pos inv by (simp add: sm_inv_def word_le_nat_alt)
    obtain t where t: "vt_new ext pc (snapshot_storages self ! idx) = Inr t"
      using vt_new_exists inv by (metis sm_inv_def)
    have n: "\<not> length (snapshot_storages self) \<le> idx" using pos inv by (simp add: sm_inv_def)
    define h where "h = (case take (idx + 1) (snapshots self) of [] \<Rightarrow> None | ss \<Rightarrow> last_block_hash (last ss))"
    have "self' = self\<lparr>sm_tree := t, current_height := height,
        snapshots := take (unat height + 1) (snapshots self),
        snapshot_storages := take (unat height + 1) (snapshot_storages self),
        current_total_supply := current_total_supply self, block_gas_fees := block_gas_fees self,
        current_block_hash := h\<rparr>"
      using res Some t n unfolding idx h_def by (auto simp: restore_from_snapshot_def)
    with sm_inv_truncate [OF inv le vt_new_tree_ok [OF t], where h = h and s = "current_total_supply self"
        and f = "block_gas_fees self"]
    show ?thesis by (simp add: keys_ok_def)
  qed
  then show "sm_inv ext pc self'" "keys_ok self \<Longrightarrow> keys_ok self'" by auto
qed

lemma prune_outpoints_inv:
  "prune_outpoints self u acc ks = (self', u', r) \<Longrightarrow> sm_inv ext pc self \<Longrightarrow> keys_ok self \<Longrightarrow>
   sm_inv ext pc self' \<and> keys_ok self'"
proof (induction self u acc ks rule: prune_outpoints.induct)
  case (2 self u acc k ks)
  show ?case
  proof (cases "fmlookup (outpoint_to_key self) k")
    case None
    with 2(1) [OF None] 2(3-5) show ?thesis by simp
  next
    case (Some key)
    obtain t res where p: "prune_key (sm_tree self) key = (t, res)" by (cases "prune_key (sm_tree self) key")
    have "length key = KEY_SIZE" using 2(5) fmran'I [OF Some] by (simp add: keys_ok_def)
    then have t: "tree_ok ext pc t"
      using tree_ok_step [OF vt_step.prune, of key ext pc "sm_tree self"] 2(4) p by (simp add: sm_inv_def)
    show ?thesis
    proof (cases res)
      case (Inl e)
      with 2(3-5) Some p sm_inv_tree [OF 2(4) t] show ?thesis by (auto simp: keys_ok_def)
    next
      case (Inr x)
      let ?self = "self\<lparr>sm_tree := t, outpoint_to_key := fmdrop k (outpoint_to_key self),
          sm_prune_markers := fmdrop k (sm_prune_markers self)\<rparr>"
      have "prune_outpoints ?self (u\<lparr>utxos := fmdrop k (utxos u)\<rparr>) (acc @ [k]) ks = (self', u', r)"
        using 2(3) Some p Inr by simp
      moreover have "sm_inv ext pc ?self" using 2(4) t by (rule sm_inv_tables)
      moreover have "keys_ok ?self" using 2(5) by (auto simp: keys_ok_def dest!: fmran'_subsets)
      ultimately show ?thesis using 2(2) [OF Some p [symmetric] Inr] by blast
    qed
  qed
qed simp

lemma check_roots_tree:
  "tree_ok ext pc t \<Longrightarrow> check_roots ext pc block t txs = (t', r) \<Longrightarrow> tree_ok ext pc t'"
proof (induction txs arbitrary: t)
  case (Cons tx txs)
  obtain t1 r1 where g: "get_root ext pc t = (t1, r1)" by (cases "get_root ext pc t")
  note ok = get_root_storage(1) [OF Cons.prems(1) g]
  with Cons.IH [OF ok] Cons.prems(2) g show ?case by (cases r1) (auto split: if_splits)
qed simp

lemma validate_block_stateful_inv:
  assumes "sm_inv ext pc self" and "validate_block_stateful ext pc self block u = (self', r)"
  shows "sm_inv ext pc self'" and "keys_ok self' = keys_ok self" and "current_height self' = current_height self"
proof -
  have "\<exists>t. self' = self\<lparr>sm_tree := t\<rparr> \<and> tree_ok ext pc t"
  proof (cases "list_ex (missing_input u) (transactions block)")
    case True
    with assms show ?thesis
      by (intro exI [of _ "sm_tree self"]) (auto simp: validate_block_stateful_def sm_inv_def)
  next
    case False
    obtain t r1 where t: "(if verkle_proofs (header block) = None then (sm_tree self, Inr ())
        else check_roots ext pc block (sm_tree self) (transactions block)) = (t, r1)"
      by (cases "if verkle_proofs (header block) = None then (sm_tree self, Inr ())
        else check_roots ext pc block (sm_tree self) (transactions block)")
    then have "tree_ok ext pc t"
      using assms(1) check_roots_tree by (auto simp: sm_inv_def split: if_splits)
    moreover have "self' = self\<lparr>sm_tree := t\<rparr>"
      using assms(2) False t by (cases r1) (auto simp: validate_block_stateful_def)
    ultimately show ?thesis by blast
  qed
  then show "sm_inv ext pc self'" "keys_ok self' = keys_ok self" "current_height self' = current_height self"
    using sm_inv_tree [OF assms(1)] by (auto simp: keys_ok_def)
qed

text \<open>The operations a manager goes through, together with the UTXO set it works on. Left out are
  \<open>disconnect_block\<close> at height zero (it drops the origin's snapshot, see
  \<open>disconnect_at_origin_panics\<close>), \<open>reorganize_chain\<close> (a failed one restores the height without
  the snapshots it dropped) and \<open>apply_block\<close> at the last height, where the counter overflows.\<close>

inductive sm_step ::
    "externals \<Rightarrow> pc_ops \<Rightarrow> (bytes \<Rightarrow> wasm_load)
      \<Rightarrow> ((outpoint, prune_marker) fmap \<Rightarrow> (outpoint \<times> prune_marker) list)
      \<Rightarrow> state_manager \<times> utxo_set \<Rightarrow> state_manager \<times> utxo_set \<Rightarrow> bool" for ext pc engine iter where
  applied: "sm_apply_block ext pc engine self block u = Some (self', u', r) \<Longrightarrow>
    unat (current_height self) + 1 < 2 ^ 64 \<Longrightarrow> sm_step ext pc engine iter (self, u) (self', u')"
| connected: "connect_block ext pc engine self block u = Some (self', u', r) \<Longrightarrow>
    unat (current_height self) + 1 < 2 ^ 64 \<Longrightarrow> sm_step ext pc engine iter (self, u) (self', u')"
| disconnected: "disconnect_block ext self block u = (self', u', r) \<Longrightarrow> 0 < current_height self \<Longrightarrow>
    sm_step ext pc engine iter (self, u) (self', u')"
| rolled_back: "rollback ext pc self target = Some (self', r) \<Longrightarrow> sm_step ext pc engine iter (self, u) (self', u)"
| rolled_back_to: "rollback_state ext pc self target = Some (self', r) \<Longrightarrow>
    sm_step ext pc engine iter (self, u) (self', u)"
| restored: "restore_from_snapshot ext pc self root height = (self', r) \<Longrightarrow>
    sm_step ext pc engine iter (self, u) (self', u)"
| marked: "sm_step ext pc engine iter (self, u) (mark_outpoint_for_pruning self k epoch time, u)"
| pruned: "execute_pruning_cycle iter self epoch u = (self', u', r') \<Longrightarrow>
    sm_step ext pc engine iter (self, u) (self', u')"
| written: "length key = KEY_SIZE \<Longrightarrow> sm_step ext pc engine iter (self, u) (fst (state_write self key v), u)"

lemma sm_step_inv:
  assumes "sm_step ext pc engine iter s s'" and "digest32 ext"
    and "sm_inv ext pc (fst s)" and "keys_ok (fst s)"
  shows "sm_inv ext pc (fst s') \<and> keys_ok (fst s')"
  using assms(1,3,4)
proof (induction rule: sm_step.induct)
  case (applied self block u self' u' r)
  with sm_inv_apply_block [OF _ assms(2) applied(2,1)] keys_ok_apply_block [OF assms(2) _ applied(1)]
  show ?case by simp
next
  case (connected self block u self' u' r)
  obtain self1 r1 where v: "validate_block_stateful ext pc self block u = (self1, r1)"
    by (cases "validate_block_stateful ext pc self block u")
  have inv: "sm_inv ext pc self" "keys_ok self" using connected by simp_all
  note one = validate_block_stateful_inv [OF inv(1) v]
  show ?case
  proof (cases r1)
    case (Inl e)
    with connected(1) v one inv show ?thesis by (simp add: connect_block_def)
  next
    case (Inr x)
    with connected(1) v have run: "sm_apply_block ext pc engine self1 block u = Some (self', u', r)"
      by (simp add: connect_block_def)
    have h: "unat (current_height self1) + 1 < 2 ^ 64" using connected(2) one(3) by simp
    from sm_inv_apply_block [OF one(1) assms(2) h run] keys_ok_apply_block [OF assms(2) _ run] one(2) inv(2)
    show ?thesis by simp
  qed
next
  case (disconnected self block u self' u' r)
  with sm_inv_disconnect [OF _ _ assms(2) disconnected(2,1)] show ?case by simp
next
  case (rolled_back self target self' r u)
  with rollback_inv [OF _ rolled_back(1)] show ?case by simp
next
  case (rolled_back_to self target self' r u)
  with rollback_state_inv [OF _ rolled_back_to(1)] show ?case by simp
next
  case (restored self root height self' r u)
  with restore_from_snapshot_inv [OF _ restored(1)] show ?case by simp
next
  case (marked self u k epoch time)
  then show ?case
    by (simp add: mark_outpoint_for_pruning_def sm_inv_def keys_ok_def)
next
  case (pruned self epoch u self' u' r')
  with prune_outpoints_inv [OF pruned(1) [unfolded execute_pruning_cycle_def]] show ?case by simp
next
  case (written key self u v)
  then show ?case
    using sm_inv_tree [of ext pc self] tree_ok_insert [of ext pc "sm_tree self" key v]
    by (simp add: state_write_def sm_inv_def keys_ok_def)
qed

lemma sm_steps_inv:
  "(sm_step ext pc engine iter)\<^sup>*\<^sup>* s s' \<Longrightarrow> digest32 ext \<Longrightarrow> sm_inv ext pc (fst s) \<Longrightarrow> keys_ok (fst s) \<Longrightarrow>
   sm_inv ext pc (fst s') \<and> keys_ok (fst s')"
  by (induction rule: rtranclp_induct) (auto dest: sm_step_inv)

lemma validate_snapshots_inv: "sm_inv ext pc self \<Longrightarrow> validate_snapshots self = Inr ()"
proof -
  assume inv: "sm_inv ext pc self"
  have "snap_height (snapshots self ! i) = of_nat i" if "i < length (snapshots self)" for i
  proof -
    have "unat (snap_height (snapshots self ! i)) = i" using inv that by (simp add: sm_inv_def)
    moreover have "of_nat (unat (snap_height (snapshots self ! i))) = snap_height (snapshots self ! i)" by simp
    ultimately show ?thesis by simp
  qed
  then have "\<not> list_ex (\<lambda>(i, s). snap_height s \<noteq> of_nat i) (List.enumerate 0 (snapshots self))"
    by (auto simp: list_ex_iff in_set_enumerate_eq)
  with inv show ?thesis by (simp add: validate_snapshots_def sm_inv_def)
qed

text \<open>C14: a manager stays sound: whatever sequence of applied and connected blocks (below the last
  height), blocks disconnected at a positive height, rollbacks, restores, prunings and host
  writes a fresh manager goes through, snapshots are numbered by height with the root of their
  storage recorded, \<open>validate_snapshots\<close> accepts, and applying a block panics at most when a
  contract of the block passes a negative length to a host function. Disconnecting at height
  zero and \<open>reorganize_chain\<close> are not among the operations.\<close>

theorem reachable_manager_sound:
  assumes "vt_new ext pc st = Inr t0" and "state_manager_new ext pc t0 = Inr self0" and "digest32 ext"
    and "(sm_step ext pc engine iter)\<^sup>*\<^sup>* (self0, u0) (self, u)"
  shows "sm_inv ext pc self \<and> validate_snapshots self = Inr ()
    \<and> ((\<forall>tx\<in>set (transactions block). contract_ok engine tx) \<longrightarrow>
         sm_apply_block ext pc engine self block u \<noteq> None)"
proof -
  have "keys_ok self0"
    using assms(2) by (auto simp: state_manager_new_def keys_ok_def split: prod.splits sum.splits)
  with sm_steps_inv [OF assms(4,3)] sm_inv_new(1) [OF assms(1,2)] have inv: "sm_inv ext pc self" by simp
  with validate_snapshots_inv [OF inv] sm_apply_block_total [OF inv assms(3)] show ?thesis by auto
qed

text \<open>undo data outlives a rollback, and using it then breaks the manager: when a manager is at
  height zero but still holds the undo data of a block, disconnecting that block drops the
  origin's snapshot, and the next block panics on the snapshot index.\<close>

theorem disconnect_at_origin_panics:
  assumes "sm_inv ext pc self" and "current_height self = 0"
    and "fmlookup (block_undo_data self) (header_id (header block)) = Some undo"
    and "disconnect_block ext self block u = (self', u', r)"
    and "transactions block' = []" and "current_total_supply self' \<le> MAX_GLOBAL_SUPPLY_NANO_SLUG"
  shows "r = Inr () \<and> snapshots self' = [] \<and> sm_apply_block ext pc engine self' block' u' = None"
proof -
  have self': "snapshots self' = butlast (snapshots self)" "\<not> applying_block self'" "r = Inr ()"
    using assms(1,3,4) by (auto simp: disconnect_block_def Let_def sm_inv_def)
  have "length (snapshots self) = 1" using assms(1,2) by (simp add: sm_inv_def)
  then have nil: "snapshots self' = []" using self'(1) by (cases "snapshots self") auto
  have "\<exists>t. vt_clone ext pc (sm_tree self') = Some t"
    using vt_new_exists [of ext pc "sm_tree self" "storage (sm_tree self')"] assms(1)
    by (auto simp: vt_clone_def sm_inv_def)
  then obtain t where "vt_clone ext pc (sm_tree self') = Some t" by blast
  moreover obtain t2 where "apply_state_transition (sm_tree self') [] (current_total_supply self') = (t2, Inr ())"
    using assms(6) by (simp add: apply_state_transition_def Let_def not_less [symmetric])
  ultimately have "sm_apply_block ext pc engine self' block' u' = None"
    using self'(2) assms(5) nil by (simp add: sm_apply_block_def commit_block_eq)
  with self' nil show ?thesis by simp
qed

section \<open>Witnesses\<close>

lemma demo_chain:
  obtains self self1 u1 where "sm_inv demo_hash_ext demo_pc self" "supply_ok self utxo_new"
    "current_height self = 0" "current_total_supply self = 0" "block_undo_data self = fmempty"
    "sm_apply_block demo_hash_ext demo_pc (\<lambda>_. NoRun []) self demo_reward_block utxo_new = Some (self1, u1, Inr ())"
    "sm_inv demo_hash_ext demo_pc self1" "snap_total_supply (snapshots self ! 0) = 0"
proof -
  obtain self where self: "sm_inv demo_hash_ext demo_pc self" "supply_ok self utxo_new" "current_height self = 0"
    "current_total_supply self = 0" "block_undo_data self = fmempty"
    "snap_total_supply (snapshots self ! 0) = 0" by (rule demo_manager)
  obtain self1 u1 where run: "sm_apply_block demo_hash_ext demo_pc (\<lambda>_. NoRun []) self demo_reward_block utxo_new
      = Some (self1, u1, Inr ())" using demo_reward_applies [OF self(1,4)] by blast
  have "sm_inv demo_hash_ext demo_pc self1"
    using self(3) by (intro sm_inv_apply_block [OF self(1) demo_hash_digest32 _ run]) simp
  with that self run show ?thesis by blast
qed

lemma demo_reward_fresh:
  "fresh_block utxo_new (transactions demo_reward_block)"
  "total_value utxo_new + block_output_value (transactions demo_reward_block) < 2 ^ 128"
  by (simp_all add: fresh_block_def fresh_tx_def utxo_new_def demo_reward_block_def demo_coinbase_def
      total_value_def block_output_value_def outputs_value_def)

theorem disconnect_undoes_apply_witness:
  "\<exists>self self1 u1 self2 u2.
     sm_apply_block demo_hash_ext demo_pc (\<lambda>_. NoRun []) self demo_reward_block utxo_new = Some (self1, u1, Inr ())
     \<and> disconnect_block demo_hash_ext self1 demo_reward_block u1 = (self2, u2, Inr ())
     \<and> u2 = utxo_new \<and> current_height self2 = current_height self"
proof -
  obtain self self1 u1 where self: "supply_ok self utxo_new" "current_height self = 0"
    and run: "sm_apply_block demo_hash_ext demo_pc (\<lambda>_. NoRun []) self demo_reward_block utxo_new = Some (self1, u1, Inr ())"
    by (rule demo_chain)
  obtain self2 u2 r where dis: "disconnect_block demo_hash_ext self1 demo_reward_block u1 = (self2, u2, r)"
    by (cases "disconnect_block demo_hash_ext self1 demo_reward_block u1") auto
  have h: "unat (current_height self) + 1 < 2 ^ 64" using self(2) by simp
  have "fst ` set (spent_in utxo_new (transactions demo_reward_block)) = {}"
    by (simp add: demo_reward_block_def demo_coinbase_def spent_by_def outpoints_def)
  with disconnect_undoes_apply [OF run self(1) demo_reward_fresh h dis] run dis show ?thesis by (metis inf_bot_left)
qed

theorem rollback_state_succeeds_witness:
  "\<exists>self self'. sm_inv demo_hash_ext demo_pc self \<and> current_height self = 1
     \<and> rollback_state demo_hash_ext demo_pc self 0 = Some (self', Inr ()) \<and> current_height self' = 0"
proof -
  obtain self self1 u1 where self: "current_height self = 0" "supply_ok self utxo_new"
    and run: "sm_apply_block demo_hash_ext demo_pc (\<lambda>_. NoRun []) self demo_reward_block utxo_new = Some (self1, u1, Inr ())"
    and inv: "sm_inv demo_hash_ext demo_pc self1" by (rule demo_chain)
  have "current_height self1 = 1"
    by (rule applied_undo [OF run self(2) demo_reward_fresh]) (simp add: self(1))
  with rollback_state_succeeds [OF inv, of 0] inv show ?thesis by auto
qed

theorem reachable_manager_sound_witness:
  "\<exists>t0 self0. vt_new demo_hash_ext demo_pc memory_storage_new = Inr t0
     \<and> state_manager_new demo_hash_ext demo_pc t0 = Inr self0
     \<and> validate_snapshots (mark_outpoint_for_pruning self0 (hash_a, 0) 1 2) = Inr ()
     \<and> sm_apply_block demo_hash_ext demo_pc (\<lambda>_. NoRun []) (mark_outpoint_for_pruning self0 (hash_a, 0) 1 2)
         demo_reward_block utxo_new \<noteq> None"
proof -
  obtain t where t: "vt_new demo_hash_ext demo_pc memory_storage_new = Inr t" using demo_vt_new by blast
  obtain t' r where g: "get_root demo_hash_ext demo_pc t = (t', r)" by (cases "get_root demo_hash_ext demo_pc t")
  then obtain self where new: "state_manager_new demo_hash_ext demo_pc t = Inr self"
    using get_root_storage(2) [OF vt_new_tree_ok [OF t] g] demo_root_ok [of demo_hash_ext t]
    by (auto simp: state_manager_new_def)
  have "(sm_step demo_hash_ext demo_pc (\<lambda>_. NoRun []) (\<lambda>_. []))\<^sup>*\<^sup>* (self, utxo_new)
      (mark_outpoint_for_pruning self (hash_a, 0) 1 2, utxo_new)"
    by (rule r_into_rtranclp, rule sm_step.marked)
  moreover have "\<forall>tx\<in>set (transactions demo_reward_block). contract_ok (\<lambda>_. NoRun []) tx"
    by (simp add: contract_ok_def)
  ultimately show ?thesis
    using reachable_manager_sound [OF t new demo_hash_digest32] t new by blast
qed

theorem disconnect_at_origin_panics_witness:
  "\<exists>self undo self' u'. sm_inv demo_hash_ext demo_pc self \<and> current_height self = 0
     \<and> fmlookup (block_undo_data self) (header_id (header demo_reward_block)) = Some undo
     \<and> disconnect_block demo_hash_ext self demo_reward_block utxo_new = (self', u', Inr ())
     \<and> sm_apply_block demo_hash_ext demo_pc (\<lambda>_. NoRun []) self' (bare_block hash_b {||}) u' = None"
proof -
  obtain self self1 u1 where self: "sm_inv demo_hash_ext demo_pc self" "supply_ok self utxo_new"
      "snap_total_supply (snapshots self ! 0) = 0"
    and run: "sm_apply_block demo_hash_ext demo_pc (\<lambda>_. NoRun []) self demo_reward_block utxo_new = Some (self1, u1, Inr ())"
    and inv: "sm_inv demo_hash_ext demo_pc self1" by (rule demo_chain)
  obtain undo where undo: "fmlookup (block_undo_data self1) (header_id (header demo_reward_block)) = Some undo"
      "total_supply_delta undo = int (total_value u1) - int (total_value utxo_new)"
    and snaps: "snapshots self = butlast (snapshots self1)"
    by (rule applied_undo [OF run self(2) demo_reward_fresh])
  have "0 < length (snapshots self)" using self(1) by (simp add: sm_inv_def)
  then have zero: "snap_total_supply (snapshots self1 ! 0) = 0"
    using self(3) unfolding snaps by (simp add: nth_butlast)
  obtain self2 where at0: "sm_inv demo_hash_ext demo_pc self2" "current_height self2 = 0"
    "block_undo_data self2 = block_undo_data self1" "current_total_supply self2 = 0"
    using rollback_state_succeeds [OF inv, of 0] zero by auto
  obtain self3 u3 r where dis: "disconnect_block demo_hash_ext self2 demo_reward_block utxo_new = (self3, u3, r)"
    by (cases "disconnect_block demo_hash_ext self2 demo_reward_block utxo_new") auto
  have "current_total_supply self3 = undo_supply (total_supply_delta undo) 0"
    using dis undo(1) at0 by (auto simp: disconnect_block_def Let_def)
  also have "\<dots> = 0"
    using undo(2) by (auto simp: undo_supply_def saturating_sub_def saturating_add_def total_value_def utxo_new_def)
  finally have cap: "current_total_supply self3 \<le> MAX_GLOBAL_SUPPLY_NANO_SLUG" by simp
  have "fmlookup (block_undo_data self2) (header_id (header demo_reward_block)) = Some undo"
    and "transactions (bare_block hash_b {||}) = []"
    using undo(1) at0 by (simp_all add: bare_block_def)
  with disconnect_at_origin_panics [OF at0(1,2) _ dis _ cap] dis at0 show ?thesis by blast
qed

end
