(* ===== verification/Scheduler.thy ===== *)
theory Scheduler
  imports State_Manager
begin

text \<open>
  The transaction scheduler: \<open>core/scheduler/parallel.rs\<close>. Transactions are sorted by id and
  packed greedily into groups without access conflicts; the groups are then executed one after
  the other on a state manager, with a checkpoint at the start of each group.
\<close>

section \<open>Scheduling\<close>

record scheduled_transaction =
  sched_tx :: transaction
  sched_access :: access_set
  sched_index :: nat

definition canonical_order_key :: "transaction \<Rightarrow> u64 \<Rightarrow> u64 \<times> hash" where
  "canonical_order_key tx time = (time, tx_id tx)"

definition scheduled_of :: "externals \<Rightarrow> transaction list \<Rightarrow> scheduled_transaction list" where
  "scheduled_of ext txs =
     map (\<lambda>(i, tx). \<lparr>sched_tx = tx, sched_access = generate_access_set ext tx, sched_index = i\<rparr>)
       (List.enumerate 0 txs)"

text \<open>One pass over the remaining transactions: those that conflict with no member chosen so far
  join the group, the others stay.\<close>

fun select_group ::
    "scheduled_transaction list \<Rightarrow> scheduled_transaction list
      \<Rightarrow> scheduled_transaction list \<times> scheduled_transaction list" where
  "select_group current [] = (current, [])"
| "select_group current (candidate # rest) =
     (if list_ex (\<lambda>existing. has_conflict (sched_access existing) (sched_access candidate)) current
      then apsnd ((#) candidate) (select_group current rest)
      else select_group (current @ [candidate]) rest)"

lemma select_group_length:
  "select_group current cs = (g, rest) \<Longrightarrow> length rest \<le> length cs \<and> length current \<le> length g"
  by (induction current cs arbitrary: g rest rule: select_group.induct)
    (auto simp: apsnd_def map_prod_def split: if_splits prod.splits)

lemma select_group_shrinks:
  "remaining \<noteq> [] \<Longrightarrow> (g, rest) = select_group [] remaining \<Longrightarrow>
   g \<noteq> [] \<and> length rest < length remaining"
  using select_group_length [of "[hd remaining]" "tl remaining" g rest] by (cases remaining) auto

text \<open>The loop; an empty group would take the first remaining transaction.\<close>

function group_loop :: "scheduled_transaction list \<Rightarrow> scheduled_transaction list list" where
  "group_loop remaining =
     (if remaining = [] then []
      else case select_group [] remaining of
        (g, rest) \<Rightarrow>
          (if g = [] then [hd rest] # group_loop (tl rest) else g # group_loop rest))"
  by auto

termination
proof (relation "measure length", goal_cases)
  case (2 remaining g rest)
  with select_group_shrinks [of remaining g rest] show ?case by simp
next
  case (3 remaining g rest)
  with select_group_shrinks [of remaining g rest] show ?case by simp
qed simp

declare group_loop.simps [simp del]

definition schedule_transactions :: "externals \<Rightarrow> transaction list \<Rightarrow> scheduled_transaction list list" where
  "schedule_transactions ext txs =
     group_loop (sort_key (\<lambda>s. canonical_order_key (sched_tx s) 0) (scheduled_of ext txs))"

section \<open>Execution\<close>

definition combined_access :: "scheduled_transaction list \<Rightarrow> access_set" where
  "combined_access g = foldl (\<lambda>a s. access_merge a (sched_access s)) access_set_new g"

definition detect_group_conflicts :: "scheduled_transaction list list \<Rightarrow> (nat \<times> nat) option" where
  "detect_group_conflicts groups =
     (let sets = map combined_access groups in
      find (\<lambda>(i, j). has_conflict (sets ! i) (sets ! j))
        (concat (map (\<lambda>i. map (Pair i) [i + 1..<length sets]) [0..<length sets])))"

record execution_checkpoint =
  cp_height :: u64
  cp_total_supply :: u128
  cp_gas_fees_len :: nat
  cp_pending_updates_len :: nat
  cp_utxo_snapshot :: utxo_set
  cp_tree_root_hash :: "bytes option"

text \<open>Taking a checkpoint computes the root, which may fill the tree's caches.\<close>

definition checkpoint ::
    "externals \<Rightarrow> pc_ops \<Rightarrow> state_manager \<Rightarrow> utxo_set \<Rightarrow> state_manager \<times> execution_checkpoint" where
  "checkpoint ext pc self u =
     (case get_root ext pc (sm_tree self) of
        (t, r) \<Rightarrow>
          (self\<lparr>sm_tree := t\<rparr>,
           \<lparr>cp_height = current_height self, cp_total_supply = current_total_supply self,
            cp_gas_fees_len = length (block_gas_fees self),
            cp_pending_updates_len = length (pending_updates self), cp_utxo_snapshot = u,
            cp_tree_root_hash = (case r of Inl _ \<Rightarrow> None | Inr root \<Rightarrow> Some root)\<rparr>))"

definition restore_from_checkpoint ::
    "state_manager \<Rightarrow> execution_checkpoint \<Rightarrow> state_manager \<times> utxo_set" where
  "restore_from_checkpoint self cp =
     (self\<lparr>current_height := cp_height cp, current_total_supply := cp_total_supply cp,
           block_gas_fees := take (cp_gas_fees_len cp) (block_gas_fees self),
           pending_updates := take (cp_pending_updates_len cp) (pending_updates self)\<rparr>,
      cp_utxo_snapshot cp)"

definition fail_group ::
    "state_manager \<Rightarrow> execution_checkpoint \<Rightarrow> string
      \<Rightarrow> state_manager \<times> utxo_set \<times> (state_manager_error + unit)" where
  "fail_group self cp msg =
     (case restore_from_checkpoint self cp of (self', u) \<Rightarrow> (self', u, Inl (ApplyBlockFailed msg)))"

fun execute_group_loop ::
    "externals \<Rightarrow> pc_ops \<Rightarrow> (bytes \<Rightarrow> wasm_load) \<Rightarrow> state_manager \<Rightarrow> utxo_set
      \<Rightarrow> scheduled_transaction list list
      \<Rightarrow> (state_manager \<times> utxo_set \<times> (state_manager_error + unit)) option" where
  "execute_group_loop ext pc engine self u [] = Some (self, u, Inr ())"
| "execute_group_loop ext pc engine self u (g # groups) =
     (case checkpoint ext pc self u of
        (self0, cp) \<Rightarrow>
          (case apply_transactions ext pc engine (self0, u, undo_new) (map sched_tx g) of
             None \<Rightarrow> None
           | Some ((self1, u1, undo), Inl _) \<Rightarrow>
               Some (fail_group self1 cp ''Group {} transaction execution failed, state rolled back'')
           | Some ((self1, u1, undo), Inr _) \<Rightarrow>
               (case get_root ext pc (sm_tree self1) of
                  (t, Inl _) \<Rightarrow>
                    Some (self1\<lparr>sm_tree := t\<rparr>, u1,
                          Inl (SmCryptographicError ''Failed to get root after group {}: {}''))
                | (t, Inr post_group_root) \<Rightarrow>
                    if cp_tree_root_hash cp = Some post_group_root
                    then Some (fail_group (self1\<lparr>sm_tree := t\<rparr>) cp
                           ''Group {} execution resulted in no state change'')
                    else execute_group_loop ext pc engine (self1\<lparr>sm_tree := t\<rparr>) u1 groups)))"

definition execute_groups ::
    "externals \<Rightarrow> pc_ops \<Rightarrow> (bytes \<Rightarrow> wasm_load) \<Rightarrow> scheduled_transaction list list \<Rightarrow> state_manager
      \<Rightarrow> utxo_set \<Rightarrow> (state_manager \<times> utxo_set \<times> (state_manager_error + unit)) option" where
  "execute_groups ext pc engine groups self u =
     (if detect_group_conflicts groups \<noteq> None
      then Some (self, u, Inl (ApplyBlockFailed ''Conflict detected between groups: {:?}''))
      else case checkpoint ext pc self u of
        (self0, _) \<Rightarrow> execute_group_loop ext pc engine self0 u groups)"

section \<open>Groups\<close>

abbreviation clash :: "scheduled_transaction \<Rightarrow> scheduled_transaction \<Rightarrow> bool" where
  "clash a b \<equiv> has_conflict (sched_access a) (sched_access b)"

definition conflict_free :: "scheduled_transaction list \<Rightarrow> bool" where
  "conflict_free g \<longleftrightarrow> sorted_wrt (\<lambda>a b. \<not> clash a b) g"

text \<open>What one pass does: it splits the remaining transactions, the group it returns is
  conflict-free, and each transaction left behind clashes with a member.\<close>

lemma select_group_spec:
  "select_group current cs = (g, rest) \<Longrightarrow> conflict_free current \<Longrightarrow>
   (\<exists>chosen. g = current @ chosen \<and> mset cs = mset chosen + mset rest)
     \<and> conflict_free g \<and> (\<forall>s\<in>set rest. \<exists>m\<in>set g. clash m s)"
proof (induction current cs arbitrary: g rest rule: select_group.induct)
  case (1 current)
  then show ?case by simp
next
  case (2 current c cs)
  show ?case
  proof (cases "list_ex (\<lambda>e. clash e c) current")
    case True
    obtain r where r: "select_group current cs = (g, r)" "rest = c # r"
      using 2(3) True by (cases "select_group current cs") auto
    obtain ch where ch: "g = current @ ch" "mset cs = mset ch + mset r" "conflict_free g"
      "\<forall>s\<in>set r. \<exists>m\<in>set g. clash m s"
      using 2(1) [OF True r(1) 2(4)] by blast
    moreover have "\<exists>m\<in>set g. clash m c" using True ch(1) by (auto simp: list_ex_iff)
    ultimately show ?thesis using r(2) by auto
  next
    case False
    with 2(3) have run: "select_group (current @ [c]) cs = (g, rest)" by simp
    have "conflict_free (current @ [c])"
      using False 2(4) by (auto simp: conflict_free_def sorted_wrt_append list_ex_iff)
    from 2(2) [OF False run this] show ?thesis by auto
  qed
qed

lemma group_loop_induct [case_names nil step]:
  assumes "P []"
    and "\<And>remaining g rest. remaining \<noteq> [] \<Longrightarrow> select_group [] remaining = (g, rest) \<Longrightarrow> g \<noteq> [] \<Longrightarrow>
      group_loop remaining = g # group_loop rest \<Longrightarrow> P rest \<Longrightarrow> P remaining"
  shows "P remaining"
proof (induction remaining rule: length_induct)
  case (1 remaining)
  show ?case
  proof (cases "remaining = []")
    case True
    with assms(1) show ?thesis by simp
  next
    case False
    obtain g rest where s: "select_group [] remaining = (g, rest)" by (cases "select_group [] remaining")
    with select_group_shrinks [OF False, of g rest] have "g \<noteq> []" "length rest < length remaining" by auto
    with 1 s False assms(2) [of remaining g rest] group_loop.simps [of remaining] show ?thesis by simp
  qed
qed

lemma group_loop_spec:
  "mset (concat (group_loop remaining)) = mset remaining
     \<and> (\<forall>g\<in>set (group_loop remaining). g \<noteq> [] \<and> conflict_free g)
     \<and> sorted_wrt (\<lambda>g h. \<forall>s\<in>set h. \<exists>m\<in>set g. clash m s) (group_loop remaining)"
proof (induction remaining rule: group_loop_induct)
  case nil
  then show ?case by (simp add: group_loop.simps)
next
  case (step remaining g rest)
  have sp: "mset remaining = mset g + mset rest" "conflict_free g" "\<forall>s\<in>set rest. \<exists>m\<in>set g. clash m s"
    using select_group_spec [OF step(2)] by (auto simp: conflict_free_def)
  have "set h \<subseteq> set rest" if "h \<in> set (group_loop rest)" for h
    using that step(5) by (metis (no_types, lifting) Union_upper imageI mset_eq_setD set_concat)
  with step sp show ?case by (fastforce simp: conflict_free_def)
qed

lemma mset_scheduled: "mset (map sched_tx (scheduled_of ext txs)) = mset txs"
proof -
  have "map sched_tx (scheduled_of ext txs) = map snd (List.enumerate 0 txs)"
    by (simp add: scheduled_of_def case_prod_beta comp_def)
  then show ?thesis by simp
qed

lemma scheduled_access: "s \<in> set (scheduled_of ext txs) \<Longrightarrow> sched_access s = generate_access_set ext (sched_tx s)"
  by (auto simp: scheduled_of_def)

text \<open>C16: a schedule is a permutation of the transactions it was given, cut into non-empty groups
  whose members do not conflict with each other; every member of a later group conflicts with a
  member of each earlier one, so no transaction could have been placed earlier.\<close>

theorem schedule_sound:
  "mset (map sched_tx (concat (schedule_transactions ext txs))) = mset txs
   \<and> (\<forall>g\<in>set (schedule_transactions ext txs). g \<noteq> [] \<and> conflict_free g)
   \<and> sorted_wrt (\<lambda>g h. \<forall>s\<in>set h. \<exists>m\<in>set g. clash m s) (schedule_transactions ext txs)"
proof -
  let ?sorted = "sort_key (\<lambda>s. canonical_order_key (sched_tx s) 0) (scheduled_of ext txs)"
  have "mset (map sched_tx (concat (schedule_transactions ext txs))) = mset (map sched_tx ?sorted)"
    using group_loop_spec [of ?sorted] unfolding schedule_transactions_def mset_map by simp
  also have "\<dots> = mset txs"
    using mset_scheduled [of ext txs] by simp
  finally show ?thesis
    using group_loop_spec [of ?sorted] by (simp add: schedule_transactions_def)
qed

section \<open>Order of arrival\<close>

text \<open>Packing looks at the access sets only.\<close>

lemma select_group_map:
  assumes "\<And>s. sched_access (f s) = sched_access s"
  shows "select_group (map f current) (map f cs) = map_prod (map f) (map f) (select_group current cs)"
proof (induction current cs rule: select_group.induct)
  case (2 current c cs)
  have ex: "list_ex (\<lambda>e. clash e (f c)) (map f current) = list_ex (\<lambda>e. clash e c) current"
    by (auto simp: list_ex_iff assms)
  show ?case
  proof (cases "list_ex (\<lambda>e. clash e c) current")
    case True
    with 2(1) ex show ?thesis by (cases "select_group current cs") simp
  next
    case False
    with 2(2) ex show ?thesis by simp
  qed
qed simp

lemma group_loop_map:
  assumes "\<And>s. sched_access (f s) = sched_access s"
  shows "group_loop (map f remaining) = map (map f) (group_loop remaining)"
proof (induction remaining rule: group_loop_induct)
  case (step remaining g rest)
  have "select_group [] (map f remaining) = (map f g, map f rest)"
    using select_group_map [of f "[]" remaining, OF assms] step(2) by simp
  with step show ?case by (simp add: group_loop.simps [of "map f remaining"])
qed (simp add: group_loop.simps)

lemma sorted_transactions:
  assumes "distinct (map tx_id txs)"
  shows "map sched_tx (sort_key (\<lambda>s. canonical_order_key (sched_tx s) 0) (scheduled_of ext txs))
    = sort_key (\<lambda>tx. canonical_order_key tx 0) txs"
proof (rule sort_key_inj_key_eq [symmetric])
  show "mset txs = mset (map sched_tx (sort_key (\<lambda>s. canonical_order_key (sched_tx s) 0) (scheduled_of ext txs)))"
    using mset_scheduled [of ext txs] by simp
  show "inj_on (\<lambda>tx. canonical_order_key tx 0) (set txs)"
    using assms by (auto simp: distinct_map inj_on_def canonical_order_key_def)
  show "sorted (map (\<lambda>tx. canonical_order_key tx 0)
      (map sched_tx (sort_key (\<lambda>s. canonical_order_key (sched_tx s) 0) (scheduled_of ext txs))))"
    by (simp only: map_map comp_def sorted_sort_key)
qed

text \<open>the schedule does not depend on the order in which the transactions arrive: for
  transactions with distinct ids, any two orderings of the same transactions give the same
  groups of transactions in the same order.\<close>

theorem schedule_order_independent:
  assumes "mset txs = mset txs'" and "distinct (map tx_id txs)"
  shows "map (map sched_tx) (schedule_transactions ext txs) = map (map sched_tx) (schedule_transactions ext txs')"
proof -
  let ?k = "\<lambda>s. canonical_order_key (sched_tx s) 0"
  let ?plain = "\<lambda>tx. \<lparr>sched_tx = tx, sched_access = generate_access_set ext tx, sched_index = 0\<rparr>"
  have plain: "map (map sched_tx) (schedule_transactions ext ts)
      = map (map sched_tx) (group_loop (map ?plain (sort_key (\<lambda>tx. canonical_order_key tx 0) ts)))"
    if "distinct (map tx_id ts)" for ts
  proof -
    let ?sorted = "sort_key ?k (scheduled_of ext ts)"
    let ?f = "\<lambda>s. s\<lparr>sched_index := 0\<rparr>"
    have "map ?f ?sorted = map ?plain (map sched_tx ?sorted)"
      by (auto simp: scheduled_access)
    also have "\<dots> = map ?plain (sort_key (\<lambda>tx. canonical_order_key tx 0) ts)"
      by (simp only: sorted_transactions [OF that])
    finally have "map (map ?f) (schedule_transactions ext ts)
        = group_loop (map ?plain (sort_key (\<lambda>tx. canonical_order_key tx 0) ts))"
      by (simp add: schedule_transactions_def group_loop_map [of ?f, symmetric])
    then have "map (map sched_tx) (map (map ?f) (schedule_transactions ext ts))
        = map (map sched_tx) (group_loop (map ?plain (sort_key (\<lambda>tx. canonical_order_key tx 0) ts)))"
      by (rule arg_cong)
    then show ?thesis by (simp add: comp_def)
  qed
  have "distinct (map tx_id txs')"
    using assms by (metis mset_eq_imp_distinct_iff mset_map)
  moreover have "sort_key (\<lambda>tx. canonical_order_key tx 0) txs = sort_key (\<lambda>tx. canonical_order_key tx 0) txs'"
    using assms by (intro sort_key_inj_key_eq)
      (auto simp: distinct_map inj_on_def canonical_order_key_def)
  ultimately show ?thesis using plain assms(2) by simp
qed

section \<open>Conflicts between groups\<close>

lemma combined_access_conflict:
  "has_conflict (combined_access g) a \<longleftrightarrow> (\<exists>s\<in>set g. has_conflict (sched_access s) a)"
proof -
  have "has_conflict (foldl (\<lambda>a s. access_merge a (sched_access s)) b g) a
      \<longleftrightarrow> has_conflict b a \<or> (\<exists>s\<in>set g. has_conflict (sched_access s) a)" for b
    by (induction g arbitrary: b) (auto simp: has_conflict_merge_left)
  then show ?thesis by (simp add: combined_access_def)
qed

lemma combined_access_clash:
  "has_conflict (combined_access g) (combined_access h) \<longleftrightarrow> (\<exists>a\<in>set g. \<exists>b\<in>set h. clash a b)"
proof -
  have "has_conflict (sched_access a) (combined_access h) \<longleftrightarrow> (\<exists>b\<in>set h. clash a b)" for a
    using combined_access_conflict [of h "sched_access a"] has_conflict_sym by metis
  then show ?thesis by (simp add: combined_access_conflict)
qed

lemma detect_group_conflicts_None:
  "detect_group_conflicts groups = None \<longleftrightarrow>
   (\<forall>j<length groups. \<forall>i<j. \<not> has_conflict (combined_access (groups ! i)) (combined_access (groups ! j)))"
proof -
  have "set (concat (map (\<lambda>i. map (Pair i) [i + 1..<n]) [0..<n])) = {(i, j). i < j \<and> j < n}" for n
    by (auto simp: image_iff)
  then show ?thesis
    by (simp add: detect_group_conflicts_def Let_def find_None_iff del: set_concat) auto
qed

text \<open>\<open>execute_groups\<close> refuses every schedule that \<open>schedule_transactions\<close> had to split: a
  second group exists only because its members conflict with the first, and such a conflict is
  what the check between groups rejects. Only schedules of at most one group are executed.\<close>

theorem split_schedules_are_refused:
  "execute_groups ext pc engine (schedule_transactions ext txs) self u
     = (if length (schedule_transactions ext txs) \<le> 1
        then execute_group_loop ext pc engine (fst (checkpoint ext pc self u)) u (schedule_transactions ext txs)
        else Some (self, u, Inl (ApplyBlockFailed ''Conflict detected between groups: {:?}'')))"
proof -
  let ?gs = "group_loop (sort_key (\<lambda>s. canonical_order_key (sched_tx s) 0) (scheduled_of ext txs))"
  have "detect_group_conflicts ?gs = None \<longleftrightarrow> length ?gs \<le> 1"
  proof
    assume none: "detect_group_conflicts ?gs = None"
    show "length ?gs \<le> 1"
    proof (rule ccontr)
      assume "\<not> length ?gs \<le> 1"
      then obtain g h gs where gs: "?gs = g # h # gs" by (cases ?gs; cases "tl ?gs") auto
      have "\<exists>s. s \<in> set h" and "\<forall>s\<in>set h. \<exists>m\<in>set g. clash m s"
        using group_loop_spec [of "sort_key (\<lambda>s. canonical_order_key (sched_tx s) 0) (scheduled_of ext txs)"]
        unfolding gs by (auto simp: neq_Nil_conv)
      then have "has_conflict (combined_access g) (combined_access h)"
        unfolding combined_access_clash by blast
      moreover have "\<not> has_conflict (combined_access (?gs ! 0)) (combined_access (?gs ! 1))"
        using none gs unfolding detect_group_conflicts_None by (metis One_nat_def length_Cons lessI zero_less_Suc Suc_less_eq)
      ultimately show False by (simp add: gs)
    qed
  qed (auto simp: detect_group_conflicts_None)
  then show ?thesis
    by (auto simp: execute_groups_def schedule_transactions_def split: prod.splits)
qed

section \<open>Groups of payments\<close>

definition payment :: "transaction \<Rightarrow> bool" where
  "payment tx \<longleftrightarrow> execution_payload tx = [] \<and> contract_address tx = None"

lemma payments_keep_tree:
  "apply_transactions ext pc engine w txs = Some (w', r) \<Longrightarrow> \<forall>tx\<in>set txs. payment tx \<Longrightarrow>
   sm_tree (fst w') = sm_tree (fst w)"
proof (induction txs arbitrary: w)
  case (Cons tx txs)
  obtain w1 r1 where one: "apply_utxo_transaction ext w tx = (w1, r1)"
    by (cases "apply_utxo_transaction ext w tx")
  have "apply_transaction ext pc engine w tx = Some (w1, r1)"
    using Cons.prems(2) one by (simp add: apply_transaction_def payment_def)
  with Cons apply_utxo_transaction_frame [OF one] show ?case
    by (auto split: sum.splits)
qed simp

lemma get_root_again:
  assumes "vt_ok ext pc t" and "root_of ext pc t = Inr root"
  shows "\<exists>t'. get_root ext pc t = (t', Inr root) \<and> get_root ext pc t' = (t', Inr root)"
proof -
  obtain t' r where g: "get_root ext pc t = (t', r)" by (cases "get_root ext pc t")
  then have r: "r = Inr root" using get_root_ok [OF assms(1) g] assms(2) by simp
  have "\<not> dirty t' \<and> root_cache t' = Some root"
    using g r by (auto simp: get_root_def split: bool.splits option.splits prod.splits sum.splits)
  with g r show ?thesis by (auto simp: get_root_def)
qed

lemma execute_payment_group:
  assumes ok: "vt_ok ext pc (sm_tree self)" and root: "root_of ext pc (sm_tree self) = Inr root"
    and pay: "\<forall>s\<in>set g. payment (sched_tx s)"
    and tot: "tree_ok ext pc (sm_tree self)" "digest32 ext"
  shows "\<exists>self' msg. execute_group_loop ext pc engine self u (g # gs) = Some (self', u, Inl (ApplyBlockFailed msg))
    \<and> current_total_supply self' = current_total_supply self \<and> current_height self' = current_height self"
proof -
  obtain t where t: "get_root ext pc (sm_tree self) = (t, Inr root)" "get_root ext pc t = (t, Inr root)"
    using get_root_again [OF ok root] by blast
  let ?self = "self\<lparr>sm_tree := t\<rparr>"
  have "tree_ok ext pc t" using get_root_storage(1) [OF tot(1) t(1)] .
  then obtain w r where run: "apply_transactions ext pc engine (?self, u, undo_new) (map sched_tx g) = Some (w, r)"
    using apply_transactions_total [OF tot(2), of pc "(?self, u, undo_new)" "map sched_tx g" engine] pay
    by (auto simp: contract_ok_def payment_def)
  have "sm_tree (fst w) = t" using payments_keep_tree [OF run] pay by simp
  then obtain self1 u1 undo where w: "w = (self1, u1, undo)" "sm_tree self1 = t" by (cases w) auto
  show ?thesis
    using t run w
    by (cases r) (simp_all add: checkpoint_def fail_group_def restore_from_checkpoint_def)
qed

text \<open>the scheduler cannot execute payments: \<open>apply_transaction\<close> queues the outputs of a payment
  for the end of the block and leaves the tree alone, so a group of payments does not change the
  root, and an unchanged root is treated as a failed group. Whatever non-empty list of payments
  is scheduled, the execution fails and the UTXO set, the supply and the height are those from
  before.\<close>

theorem payments_are_refused:
  assumes "txs \<noteq> []" and "\<forall>tx\<in>set txs. payment tx" and "digest32 ext"
    and "tree_ok ext pc (sm_tree self)" and "root_of ext pc (sm_tree self) = Inr root"
  shows "\<exists>self' msg. execute_groups ext pc engine (schedule_transactions ext txs) self u
      = Some (self', u, Inl (ApplyBlockFailed msg))
    \<and> current_total_supply self' = current_total_supply self \<and> current_height self' = current_height self"
proof (cases "detect_group_conflicts (schedule_transactions ext txs) = None")
  case False
  then show ?thesis by (simp add: execute_groups_def)
next
  case True
  let ?sorted = "sort_key (\<lambda>s. canonical_order_key (sched_tx s) 0) (scheduled_of ext txs)"
  have m: "mset (concat (schedule_transactions ext txs)) = mset ?sorted"
    using group_loop_spec [of ?sorted] by (simp add: schedule_transactions_def)
  have "?sorted \<noteq> []" using assms(1) by (auto simp: scheduled_of_def dest!: arg_cong [where f = length])
  with m have "schedule_transactions ext txs \<noteq> []" by (metis concat.simps(1) mset_zero_iff)
  then obtain g gs where gs: "schedule_transactions ext txs = g # gs" by (cases "schedule_transactions ext txs") auto
  have "set g \<subseteq> set ?sorted" using m gs by (metis concat.simps(2) mset_eq_setD set_append sup_ge1)
  then have pay: "\<forall>s\<in>set g. payment (sched_tx s)"
    using assms(2) by (auto simp: scheduled_of_def in_set_enumerate_eq subset_iff)
  obtain t r where t: "get_root ext pc (sm_tree self) = (t, r)" by (cases "get_root ext pc (sm_tree self)")
  have ok: "tree_ok ext pc t" "vt_ok ext pc t" "root_of ext pc t = Inr root"
    using get_root_storage(1) [OF assms(4) t] get_root_ok [OF _ t] assms(4,5) by (simp_all add: tree_ok_def)
  from execute_payment_group [of ext pc "self\<lparr>sm_tree := t\<rparr>" root g engine u gs] ok pay assms(3)
  show ?thesis using True gs t by (simp add: execute_groups_def checkpoint_def)
qed

section \<open>Witnesses\<close>

definition demo_payment :: "u8 \<Rightarrow> transaction" where
  "demo_payment b = demo_coinbase\<lparr>tx_id := Hash (replicate 32 b)\<rparr>"

theorem schedule_sound_witness:
  "mset (map sched_tx (concat (schedule_transactions demo_hash_ext [demo_payment 2, demo_payment 1])))
    = {#demo_payment 2, demo_payment 1#}"
  using schedule_sound [of demo_hash_ext "[demo_payment 2, demo_payment 1]"] by simp

theorem schedule_order_independent_witness:
  "distinct (map tx_id [demo_payment 2, demo_payment 1])
   \<and> map (map sched_tx) (schedule_transactions demo_hash_ext [demo_payment 2, demo_payment 1])
     = map (map sched_tx) (schedule_transactions demo_hash_ext [demo_payment 1, demo_payment 2])"
  using schedule_order_independent [of "[demo_payment 2, demo_payment 1]" "[demo_payment 1, demo_payment 2]" demo_hash_ext]
  by (simp add: demo_payment_def)

theorem payments_are_refused_witness:
  "\<exists>self self' msg. execute_groups demo_hash_ext demo_pc (\<lambda>_. NoRun [])
     (schedule_transactions demo_hash_ext [demo_payment 1]) self utxo_new
     = Some (self', utxo_new, Inl (ApplyBlockFailed msg))"
proof -
  obtain self where inv: "sm_inv demo_hash_ext demo_pc self" by (rule demo_manager)
  obtain root where root: "root_of demo_hash_ext demo_pc (sm_tree self) = Inr root" using demo_root_ok by blast
  have pay: "\<forall>tx\<in>set [demo_payment 1]. payment tx"
    by (simp add: demo_payment_def demo_coinbase_def payment_def)
  have "tree_ok demo_hash_ext demo_pc (sm_tree self)" using inv by (simp add: sm_inv_def)
  from payments_are_refused [OF _ pay demo_hash_digest32 this root, of "\<lambda>_. NoRun []" utxo_new]
  show ?thesis by blast
qed

end
