(* ===== verification/Polynomial_Commitment.thy ===== *)
theory Polynomial_Commitment
  imports Verkle
begin

text \<open>
  The polynomial commitment scheme: \<open>core/crypto/verkle/polynomial_commitment.rs\<close>. The scalar field
  and the curve group come from the \<open>ark\<close> crates: a scalar is an element of a type of class
  \<open>field\<close>, a point an element of a commutative group, and the functions that cross between them
  and bytes are the record \<open>ark_ops\<close>. A polynomial is the list of its coefficients, lowest first,
  without trailing zeros, as \<open>DensePolynomial\<close> keeps it. \<open>None\<close> is a panic or a loop that does not
  end.
\<close>

section \<open>The field and the group\<close>

record ('f, 'g) ark_ops =
  generator :: 'g
  scale :: "'g \<Rightarrow> 'f \<Rightarrow> 'g"
  fr_from_le_bytes :: "bytes \<Rightarrow> 'f"
  fr_to_le_bytes :: "'f \<Rightarrow> bytes"

datatype pc_error = DegreeTooHigh | InvalidEvaluation | InvalidProof | PcSerialization string

definition pc_error_display :: "pc_error \<Rightarrow> string" where
  "pc_error_display e =
     (case e of
        DegreeTooHigh \<Rightarrow> ''Polynomial degree too high for available generators''
      | InvalidEvaluation \<Rightarrow> ''Polynomial evaluation mismatch''
      | InvalidProof \<Rightarrow> ''Invalid IPA opening proof''
      | PcSerialization msg \<Rightarrow> ''Serialization error: '' @ msg)"

record 'g polynomial_commitment =
  generators :: "'g list"
  random_point :: 'g

record ('f, 'g) ipa_proof =
  ipa_final :: 'g
  ipa_scalars :: "'f list"

record ('f, 'g) pc_opening =
  opening_quotient :: 'g
  opening_ipa :: "('f, 'g) ipa_proof"
  opening_point :: 'f
  opening_value :: 'f

section \<open>Dense polynomials\<close>

definition strip_zeros :: "'f::zero list \<Rightarrow> 'f list" where
  "strip_zeros cs = rev (dropWhile ((=) 0) (rev cs))"

definition poly_degree :: "'f::zero list \<Rightarrow> nat" where
  "poly_degree p = length p - 1"

definition evaluate :: "'f::field list \<Rightarrow> 'f \<Rightarrow> 'f" where
  "evaluate p x = foldr (\<lambda>c acc. c + x * acc) p 0"

fun sub_coeffs :: "'f::field list \<Rightarrow> 'f list \<Rightarrow> 'f list" where
  "sub_coeffs p [] = p"
| "sub_coeffs [] q = map uminus q"
| "sub_coeffs (a # p) (b # q) = (a - b) # sub_coeffs p q"

definition poly_sub :: "'f::field list \<Rightarrow> 'f list \<Rightarrow> 'f list" where
  "poly_sub p q = strip_zeros (sub_coeffs p q)"

section \<open>Generators\<close>

definition hash_to_scalar :: "externals \<Rightarrow> ('f, 'g) ark_ops \<Rightarrow> string \<Rightarrow> u64 \<Rightarrow> u64 \<Rightarrow> 'f" where
  "hash_to_scalar ext ark tag idx counter =
     fr_from_le_bytes ark (blake3 ext (map of_char tag @ to_le_bytes 8 idx @ to_le_bytes 8 counter))"

partial_function (option) hash_to_curve_loop ::
    "externals \<Rightarrow> ('f::field, 'g) ark_ops \<Rightarrow> string \<Rightarrow> u64 \<Rightarrow> u64 \<Rightarrow> 'g option" where
  "hash_to_curve_loop ext ark tag idx counter =
     (if hash_to_scalar ext ark tag idx counter \<noteq> 0
      then Some (scale ark (generator ark) (hash_to_scalar ext ark tag idx counter))
      else hash_to_curve_loop ext ark tag idx (counter + 1))"

definition hash_to_curve :: "externals \<Rightarrow> ('f::field, 'g) ark_ops \<Rightarrow> string \<Rightarrow> u64 \<Rightarrow> 'g option" where
  "hash_to_curve ext ark tag idx = hash_to_curve_loop ext ark tag idx 0"

definition generate_generator_point :: "externals \<Rightarrow> ('f::field, 'g) ark_ops \<Rightarrow> u64 \<Rightarrow> 'g option" where
  "generate_generator_point ext ark idx = hash_to_curve ext ark ''KLOMANG_GENERATOR'' idx"

definition pc_new :: "externals \<Rightarrow> ('f::field, 'g) ark_ops \<Rightarrow> nat \<Rightarrow> 'g polynomial_commitment option" where
  "pc_new ext ark generator_count =
     (case those (map (\<lambda>i. generate_generator_point ext ark (of_nat i)) [0..<generator_count]) of
        None \<Rightarrow> None
      | Some gs \<Rightarrow>
          (case generate_generator_point ext ark (of_nat generator_count) of
             None \<Rightarrow> None
           | Some r \<Rightarrow> Some \<lparr>generators = gs, random_point = r\<rparr>))"

section \<open>Commitments\<close>

definition generate_blinding_factor :: "externals \<Rightarrow> ('f, 'g) ark_ops \<Rightarrow> 'f list \<Rightarrow> 'f" where
  "generate_blinding_factor ext ark coeffs =
     fr_from_le_bytes ark
       (blake3 ext (map of_char ''KLOMANG_COMMITMENT_BLINDING'' @ concat (map (fr_to_le_bytes ark) coeffs)))"

definition msm :: "('f, 'g::ab_group_add) ark_ops \<Rightarrow> 'g list \<Rightarrow> 'f list \<Rightarrow> 'g" where
  "msm ark bases scalars = sum_list (map2 (scale ark) bases scalars)"

definition commit ::
    "externals \<Rightarrow> ('f, 'g::ab_group_add) ark_ops \<Rightarrow> 'g polynomial_commitment \<Rightarrow> 'f list \<Rightarrow> pc_error + 'g" where
  "commit ext ark self coeffs =
     (if length (generators self) < length coeffs then Inl DegreeTooHigh
      else
        let c = (if coeffs = [] then 0 else msm ark (take (length coeffs) (generators self)) coeffs);
            blinding_scalar = generate_blinding_factor ext ark coeffs
        in Inr (c + scale ark (random_point self) blinding_scalar))"

definition reconstruct_commitment_from_scalars ::
    "externals \<Rightarrow> ('f, 'g::ab_group_add) ark_ops \<Rightarrow> 'g polynomial_commitment \<Rightarrow> 'f list \<Rightarrow> pc_error + 'g" where
  "reconstruct_commitment_from_scalars ext ark self scalars =
     (if length (generators self) < length scalars then Inl DegreeTooHigh
      else
        let c = (if scalars = [] then 0 else msm ark (take (length scalars) (generators self)) scalars);
            blinding = generate_blinding_factor ext ark scalars
        in Inr (c + scale ark (random_point self) blinding))"

section \<open>Division\<close>

text \<open>\<open>result_coeffs[i + j] += a_coeff * b_coeff\<close> for the non-zero coefficients.\<close>

definition multiply_row :: "nat \<Rightarrow> 'f::field \<Rightarrow> 'f list \<Rightarrow> 'f list \<Rightarrow> 'f list" where
  "multiply_row i a b res =
     fold (\<lambda>(j, bc) res. if bc = 0 then res else res[i + j := res ! (i + j) + a * bc])
       (List.enumerate 0 b) res"

definition naive_polynomial_multiply :: "'f::field list \<Rightarrow> 'f list \<Rightarrow> 'f list" where
  "naive_polynomial_multiply a b =
     (if a = [] \<or> b = [] then []
      else strip_zeros
        (fold (\<lambda>(i, ac) res. if ac = 0 then res else multiply_row i ac b res) (List.enumerate 0 a)
           (replicate (length a + length b - 1) 0)))"

text \<open>The loop of the long division; \<open>coeffs()[deg]\<close> panics on the zero polynomial, and the
  quotient collects one coefficient per round.\<close>

partial_function (option) division_loop :: "'f::field list \<Rightarrow> 'f list \<Rightarrow> 'f list \<Rightarrow> 'f list option" where
  "division_loop den rem acc =
     (if poly_degree den \<le> poly_degree rem then
        (if rem = [] \<or> last den = 0 then None
         else
           let quotient_coeff = last rem * inverse (last den);
               degree_diff = poly_degree rem - poly_degree den;
               quotient_term = strip_zeros (replicate degree_diff 0 @ [quotient_coeff])
           in division_loop den (poly_sub rem (naive_polynomial_multiply quotient_term den))
                (acc @ [quotient_coeff]))
      else Some (strip_zeros (rev acc)))"

definition polynomial_division :: "'f::field list \<Rightarrow> 'f list \<Rightarrow> 'f list option" where
  "polynomial_division num den =
     (if poly_degree num < poly_degree den then Some []
      else if den = [] then None
      else division_loop den num [])"

definition compute_quotient_polynomial :: "'f::field list \<Rightarrow> 'f \<Rightarrow> 'f \<Rightarrow> 'f list option" where
  "compute_quotient_polynomial p z v =
     (if p = [] then None
      else polynomial_division (strip_zeros (p[0 := p ! 0 - v])) (strip_zeros [- z, 1]))"

section \<open>Opening and verifying\<close>

definition generate_ipa_proof ::
    "externals \<Rightarrow> ('f, 'g::ab_group_add) ark_ops \<Rightarrow> 'g polynomial_commitment \<Rightarrow> 'f list
      \<Rightarrow> pc_error + ('f, 'g) ipa_proof" where
  "generate_ipa_proof ext ark self p =
     bind_res (commit ext ark self p) (\<lambda>c. Inr \<lparr>ipa_final = c, ipa_scalars = p\<rparr>)"

definition open_at ::
    "externals \<Rightarrow> ('f::field, 'g::ab_group_add) ark_ops \<Rightarrow> 'g polynomial_commitment \<Rightarrow> 'f list \<Rightarrow> 'f \<Rightarrow> 'f
      \<Rightarrow> (pc_error + ('f, 'g) pc_opening) option" where
  "open_at ext ark self p z v =
     (if evaluate p z \<noteq> v then Some (Inl InvalidEvaluation)
      else case compute_quotient_polynomial p z v of
        None \<Rightarrow> None
      | Some q \<Rightarrow> Some
          (bind_res (commit ext ark self q) (\<lambda>qc.
           bind_res (generate_ipa_proof ext ark self q) (\<lambda>ipa.
             Inr \<lparr>opening_quotient = qc, opening_ipa = ipa,
                  opening_point = z, opening_value = v\<rparr>))))"

text \<open>\<open>reconstruct_polynomial_from_quotient\<close>: the coefficients of \<open>(x - z) q(x) + v\<close>.\<close>

definition reconstruct_polynomial_from_quotient :: "'f::field list \<Rightarrow> 'f \<Rightarrow> 'f \<Rightarrow> 'f list" where
  "reconstruct_polynomial_from_quotient q z v =
     (- z * (case q of [] \<Rightarrow> 0 | c # _ \<Rightarrow> c) + v)
       # map (\<lambda>i. q ! (i - 1) - z * (if i < length q then q ! i else 0)) [1..<Suc (length q)]"

definition verify_ipa_proof ::
    "externals \<Rightarrow> ('f::field, 'g::ab_group_add) ark_ops \<Rightarrow> 'g polynomial_commitment \<Rightarrow> 'g
      \<Rightarrow> ('f, 'g) pc_opening \<Rightarrow> pc_error + bool" where
  "verify_ipa_proof ext ark self c proof' =
     bind_res (reconstruct_commitment_from_scalars ext ark self (ipa_scalars (opening_ipa proof'))) (\<lambda>reconstructed.
       if reconstructed \<noteq> ipa_final (opening_ipa proof') then Inr False
       else if reconstructed \<noteq> opening_quotient proof' then Inr False
       else
         let p_coeffs = reconstruct_polynomial_from_quotient (ipa_scalars (opening_ipa proof'))
               (opening_point proof') (opening_value proof')
         in bind_res (commit ext ark self (strip_zeros p_coeffs)) (\<lambda>expected. Inr (expected = c)))"

definition verify ::
    "externals \<Rightarrow> ('f::field, 'g::ab_group_add) ark_ops \<Rightarrow> 'g polynomial_commitment \<Rightarrow> 'g
      \<Rightarrow> ('f, 'g) pc_opening \<Rightarrow> pc_error + bool" where
  "verify ext ark self c proof' = verify_ipa_proof ext ark self c proof'"

section \<open>Lemmas on dense polynomials\<close>

lemma strip_zeros_Nil [simp]: "strip_zeros [] = []"
  by (simp add: strip_zeros_def)

lemma strip_zeros_snoc [simp]: "strip_zeros (cs @ [c]) = (if c = 0 then strip_zeros cs else cs @ [c])"
  by (simp add: strip_zeros_def)

lemma strip_zeros_snoc_zero: "strip_zeros (cs @ [a, 0]) = strip_zeros (cs @ [a])"
  using strip_zeros_snoc [of "cs @ [a]" 0] by simp

lemma strip_zeros_last: "cs = [] \<or> last cs \<noteq> 0 \<Longrightarrow> strip_zeros cs = cs"
  by (cases cs rule: rev_cases) auto

lemma strip_zeros_length: "length (strip_zeros cs) \<le> length cs"
  by (induction cs rule: rev_induct) auto

lemma evaluate_simps [simp]:
  "evaluate [] x = 0"
  "evaluate (c # p) x = c + x * evaluate p x"
  by (simp_all add: evaluate_def)

lemma evaluate_snoc_zero: "evaluate (p @ [0]) x = evaluate p x"
  by (induction p) simp_all

lemma evaluate_strip [simp]: "evaluate (strip_zeros p) x = evaluate p x"
  by (induction p rule: rev_induct) (auto simp: evaluate_snoc_zero)

lemma sub_coeffs_shift:
  "length xs = d \<Longrightarrow> sub_coeffs (xs @ ys) (replicate d 0 @ zs) = xs @ sub_coeffs ys zs"
  by (induction xs arbitrary: d) auto

lemma multiply_zeros:
  "fold (\<lambda>(i, ac) res. if ac = 0 then res else multiply_row i ac b res)
     (List.enumerate n (replicate d 0)) res = res"
  by (induction d arbitrary: n) simp_all

lemma multiply_row_linear:
  assumes "length res = d + 2"
  shows "multiply_row d c [- z, 1] res = res[d := res ! d - c * z, Suc d := res ! Suc d + c]"
  using assms by (auto simp: multiply_row_def)

lemma multiply_monomial:
  assumes "c \<noteq> 0"
  shows "naive_polynomial_multiply (replicate d 0 @ [c]) [- z, 1] = replicate d 0 @ [- (c * z), c]"
proof -
  have "replicate (d + 2) 0 = replicate d 0 @ [0, 0 :: 'a]"
    by (induction d) simp_all
  then have "multiply_row d c [- z, 1] (replicate (d + 2) 0) = replicate d 0 @ [- (c * z), c]"
    by (simp add: multiply_row_linear list_update_append nth_append)
  then show ?thesis
    using assms
    by (simp add: naive_polynomial_multiply_def enumerate_append_eq multiply_zeros)
      (metis append_Cons append_Nil append_assoc strip_zeros_snoc)
qed

section \<open>The quotient\<close>

text \<open>Synthetic division: the coefficients of \<open>(p(x) - p(z)) / (x - z)\<close> are the values at \<open>z\<close> of the
  proper tails of \<open>p\<close>.\<close>

fun quotient_spec :: "'f::field list \<Rightarrow> 'f \<Rightarrow> 'f list" where
  "quotient_spec [] z = []"
| "quotient_spec (c # p) z = (if p = [] then [] else evaluate p z # quotient_spec p z)"

lemma length_quotient_spec [simp]: "length (quotient_spec p z) = length p - 1"
  by (induction p) auto

lemma quotient_spec_nth: "Suc k < length p \<Longrightarrow> quotient_spec p z ! k = evaluate (drop (Suc k) p) z"
proof (induction p arbitrary: k)
  case (Cons c p)
  then show ?case by (cases k) auto
qed simp

lemma division_step:
  assumes "c \<noteq> 0"
  shows "division_loop [- z, 1] (xs @ [a, c]) acc
    = division_loop [- z, 1] (strip_zeros (xs @ [a + z * c])) (acc @ [c])"
proof -
  let ?q = "naive_polynomial_multiply (replicate (length xs) 0 @ [c]) [- z, 1]"
  have "strip_zeros (replicate (length xs) 0 @ [c]) = replicate (length xs) 0 @ [c]" using assms by simp
  moreover have "poly_sub (xs @ [a, c]) ?q = strip_zeros ((xs @ [a + z * c]) @ [0])"
    using assms by (simp add: multiply_monomial poly_sub_def sub_coeffs_shift mult.commute)
  then have "poly_sub (xs @ [a, c]) ?q = strip_zeros (xs @ [a + z * c])"
    by (simp only: strip_zeros_snoc if_True simp_thms)
  ultimately show ?thesis
    by (subst division_loop.simps) (simp add: poly_degree_def Let_def)
qed

text \<open>The long division records the non-zero values only.\<close>

lemma division_loop_quotient:
  "m < length p \<Longrightarrow> division_loop [- z, 1] (strip_zeros (take m p @ [evaluate (drop m p) z])) acc
    = Some (strip_zeros (rev (acc @ filter (\<lambda>c. c \<noteq> 0)
        (rev (map (\<lambda>k. evaluate (drop k p) z) [1..<Suc m])))))"
proof (induction m arbitrary: acc)
  case 0
  have "poly_degree (strip_zeros [evaluate p z]) < poly_degree [- z, 1]"
    using strip_zeros_length [of "[evaluate p z]"] by (simp add: poly_degree_def)
  then show ?case by (subst division_loop.simps) (simp add: not_le [symmetric])
next
  case (Suc m)
  let ?e = "evaluate (drop (Suc m) p) z"
  have tk: "take (Suc m) p = take m p @ [p ! m]" using Suc.prems by (simp add: take_Suc_conv_app_nth)
  have ev: "evaluate (drop m p) z = p ! m + z * ?e"
    using Suc.prems by (simp flip: Cons_nth_drop_Suc)
  show ?case
  proof (cases "?e = 0")
    case True
    then have "strip_zeros (take (Suc m) p @ [?e]) = strip_zeros (take m p @ [evaluate (drop m p) z])"
      by (simp add: tk ev strip_zeros_snoc_zero del: strip_zeros_snoc)
    with Suc.IH [of acc] Suc.prems True show ?thesis by simp
  next
    case False
    have "division_loop [- z, 1] (take m p @ [p ! m, ?e]) acc
        = division_loop [- z, 1] (strip_zeros (take m p @ [evaluate (drop m p) z])) (acc @ [?e])"
      unfolding ev by (rule division_step [OF False])
    moreover have "strip_zeros (take (Suc m) p @ [?e]) = take m p @ [p ! m, ?e]"
      using False by (simp add: tk strip_zeros_last del: strip_zeros_snoc)
    moreover have "[1..<Suc (Suc m)] = [1..<Suc m] @ [Suc m]" by simp
    ultimately show ?thesis
      using Suc.IH [of "acc @ [?e]"] Suc.prems False by (simp del: upt_Suc strip_zeros_snoc)
  qed
qed

lemma compute_quotient_polynomial_eq:
  assumes "p \<noteq> []"
  shows "compute_quotient_polynomial p z v = Some (filter (\<lambda>c. c \<noteq> 0) (quotient_spec p z))"
proof -
  let ?num = "p[0 := p ! 0 - v]"
  let ?m = "length p - 1"
  have den: "strip_zeros [- z, 1] = [- z, 1]" using strip_zeros_snoc [of "[- z]" 1] by simp
  obtain ys y where num: "?num = ys @ [y]" using assms by (cases ?num rule: rev_cases) auto
  then have "length ys = ?m" using assms by (metis diff_Suc_1 length_append_singleton length_list_update)
  then have "take ?m ?num @ [evaluate (drop ?m ?num) z] = ?num" by (simp add: num)
  then have "division_loop [- z, 1] (strip_zeros ?num) []
      = Some (strip_zeros (rev (filter (\<lambda>c. c \<noteq> 0) (rev (map (\<lambda>k. evaluate (drop k ?num) z) [1..<Suc ?m])))))"
    using division_loop_quotient [of ?m ?num z "[]"] assms by simp
  also have "map (\<lambda>k. evaluate (drop k ?num) z) [1..<Suc ?m] = quotient_spec p z"
    by (intro nth_equalityI) (auto simp: quotient_spec_nth simp del: upt_Suc)
  also have "strip_zeros (rev (filter (\<lambda>c. c \<noteq> 0) (rev (quotient_spec p z)))) = filter (\<lambda>c. c \<noteq> 0) (quotient_spec p z)"
    by (intro strip_zeros_last [THEN trans]) (auto simp: rev_filter [symmetric] dest: last_in_set)
  finally have loop: "division_loop [- z, 1] (strip_zeros ?num) [] = Some (filter (\<lambda>c. c \<noteq> 0) (quotient_spec p z))" .
  moreover have "division_loop [- z, 1] (strip_zeros ?num) [] = Some []"
    if "poly_degree (strip_zeros ?num) < poly_degree [- z, 1]"
    using that by (subst division_loop.simps) (simp add: not_le [symmetric])
  ultimately show ?thesis
    using assms by (auto simp: compute_quotient_polynomial_def polynomial_division_def den)
qed

section \<open>Openings\<close>

lemma reconstruct_Cons:
  "reconstruct_polynomial_from_quotient (c # q) z v = (v - z * c) # reconstruct_polynomial_from_quotient q z c"
  "reconstruct_polynomial_from_quotient [] z v = [v]"
proof -
  show "reconstruct_polynomial_from_quotient [] z v = [v]"
    by (simp add: reconstruct_polynomial_from_quotient_def)
  show "reconstruct_polynomial_from_quotient (c # q) z v = (v - z * c) # reconstruct_polynomial_from_quotient q z c"
    by (rule nth_equalityI; cases q)
      (auto simp: reconstruct_polynomial_from_quotient_def nth_Cons' simp del: upt_Suc)
qed

lemma length_reconstruct [simp]: "length (reconstruct_polynomial_from_quotient q z v) = Suc (length q)"
  by (simp add: reconstruct_polynomial_from_quotient_def del: upt_Suc)

lemma evaluate_reconstruct:
  "evaluate (reconstruct_polynomial_from_quotient q z v) x = (x - z) * evaluate q x + v"
proof (induction q arbitrary: v)
  case (Cons c q)
  show ?case
    by (simp only: reconstruct_Cons evaluate_simps Cons.IH) (simp add: algebra_simps)
qed (simp add: reconstruct_Cons)

lemma reconstruct_quotient:
  "p \<noteq> [] \<Longrightarrow> reconstruct_polynomial_from_quotient (quotient_spec p z) z (evaluate p z) = p"
  by (induction p) (auto simp: reconstruct_Cons)

lemma reconstruct_commitment_is_commit: "reconstruct_commitment_from_scalars = commit"
  by (intro ext) (simp add: reconstruct_commitment_from_scalars_def commit_def)

lemma commit_short: "commit ext ark self p = Inr c \<Longrightarrow> length q \<le> length p \<Longrightarrow> \<exists>d. commit ext ark self q = Inr d"
  by (auto simp: commit_def Let_def split: if_splits)

section \<open>Properties\<close>

text \<open>The result of opening a non-zero polynomial. The long division records only the non-zero
  coefficients of the quotient, without their positions: when the true quotient has a zero
  coefficient the verifier rebuilds a shorter, hence different, polynomial, and accepts only if
  its commitment collides with that of the opened one.\<close>

lemma opening_result:
  assumes "commit ext ark self p = Inr c" and "p \<noteq> []" and "last p \<noteq> 0"
  shows "\<exists>proof'. open_at ext ark self p z (evaluate p z) = Some (Inr proof')
    \<and> (if 0 \<notin> set (quotient_spec p z) then verify ext ark self c proof' = Inr True
       else \<exists>p'. length p' < length p \<and> verify ext ark self c proof' = Inr (commit ext ark self p' = Inr c))"
proof -
  let ?q = "filter (\<lambda>c. c \<noteq> 0) (quotient_spec p z)"
  let ?p' = "strip_zeros (reconstruct_polynomial_from_quotient ?q z (evaluate p z))"
  have lenq: "length ?q \<le> length p - 1" using length_filter_le [of "\<lambda>c. c \<noteq> 0" "quotient_spec p z"] by simp
  then have "length ?q \<le> length p" by (rule order_trans) simp
  then obtain d where d: "commit ext ark self ?q = Inr d" using commit_short [OF assms(1)] by blast
  have "length ?p' \<le> Suc (length ?q)"
    using strip_zeros_length [of "reconstruct_polynomial_from_quotient ?q z (evaluate p z)"] by simp
  also have "\<dots> \<le> length p" using lenq assms(2) by (cases p) auto
  finally obtain e where e: "commit ext ark self ?p' = Inr e" using commit_short [OF assms(1)] by blast
  let ?proof = "\<lparr>opening_quotient = d, opening_ipa = \<lparr>ipa_final = d, ipa_scalars = ?q\<rparr>,
    opening_point = z, opening_value = evaluate p z\<rparr>"
  have opened: "open_at ext ark self p z (evaluate p z) = Some (Inr ?proof)"
    using d assms(2) by (simp add: open_at_def compute_quotient_polynomial_eq generate_ipa_proof_def)
  have ver: "verify ext ark self c ?proof = Inr (e = c)"
    using d e by (simp add: verify_def verify_ipa_proof_def reconstruct_commitment_is_commit Let_def)
  show ?thesis
  proof (cases "0 \<in> set (quotient_spec p z)")
    case False
    then have "?q = quotient_spec p z" by (auto simp: filter_id_conv)
    then have "?p' = p" using reconstruct_quotient [OF assms(2)] strip_zeros_last assms(3) by metis
    with e assms(1) opened ver False show ?thesis by auto
  next
    case True
    then have "length ?q < length (quotient_spec p z)"
      using length_filter_less [of 0 "quotient_spec p z" "\<lambda>c. c \<noteq> 0"] by simp
    then have "length ?p' < length p"
      using strip_zeros_length [of "reconstruct_polynomial_from_quotient ?q z (evaluate p z)"] by simp
    with e opened ver True show ?thesis by auto
  qed
qed

text \<open>C17: honest openings. Opening at a value the polynomial does not take is refused with
  \<open>InvalidEvaluation\<close>; opening the zero polynomial at its value panics (the code indexes its first
  coefficient); and for a non-zero polynomial that can be committed to, opened at its value at a
  point where the quotient by \<open>x - z\<close> has no zero coefficient, a proof is returned and verifies
  against the commitment.\<close>

theorem opening_completeness:
  assumes "commit ext ark self p = Inr c"
  shows "(v \<noteq> evaluate p z \<longrightarrow> open_at ext ark self p z v = Some (Inl InvalidEvaluation))
    \<and> (p = [] \<and> v = evaluate p z \<longrightarrow> open_at ext ark self p z v = None)
    \<and> (p \<noteq> [] \<and> last p \<noteq> 0 \<and> v = evaluate p z \<and> 0 \<notin> set (quotient_spec p z) \<longrightarrow>
         (\<exists>proof'. open_at ext ark self p z v = Some (Inr proof') \<and> verify ext ark self c proof' = Inr True))"
  using opening_result [OF assms, of z]
  by (auto simp: open_at_def compute_quotient_polynomial_def split: if_splits)

text \<open>an accepted opening is true of some committed polynomial: if \<open>verify\<close> accepts a proof for a
  commitment, the commitment is that of a polynomial which takes the claimed value at the
  claimed point.\<close>

theorem opening_soundness:
  assumes "verify ext ark self c proof' = Inr True"
  shows "\<exists>p. commit ext ark self p = Inr c \<and> evaluate p (opening_point proof') = opening_value proof'"
proof -
  let ?p = "reconstruct_polynomial_from_quotient (ipa_scalars (opening_ipa proof'))
    (opening_point proof') (opening_value proof')"
  have "commit ext ark self (strip_zeros ?p) = Inr c"
    using assms by (auto simp: verify_def verify_ipa_proof_def Let_def split: if_splits)
  moreover have "evaluate (strip_zeros ?p) (opening_point proof') = opening_value proof'"
    by (simp add: evaluate_reconstruct)
  ultimately show ?thesis by blast
qed

lemma hash_to_curve_loop_returns:
  "hash_to_scalar ext ark tag idx (c + of_nat n) \<noteq> 0 \<Longrightarrow>
   \<forall>m<n. hash_to_scalar ext ark tag idx (c + of_nat m) = 0 \<Longrightarrow>
   hash_to_curve_loop ext ark tag idx c
     = Some (scale ark (generator ark) (hash_to_scalar ext ark tag idx (c + of_nat n)))"
proof (induction n arbitrary: c)
  case 0
  then show ?case by (subst hash_to_curve_loop.simps) simp
next
  case (Suc n)
  have "hash_to_scalar ext ark tag idx (c + 1 + of_nat m) = 0" if "m < n" for m
    using Suc.prems(2) that by (auto simp: add.assoc dest: spec [of _ "Suc m"])
  with Suc.IH [of "c + 1"] Suc.prems(1) have "hash_to_curve_loop ext ark tag idx (c + 1)
      = Some (scale ark (generator ark) (hash_to_scalar ext ark tag idx (c + of_nat (Suc n))))"
    by (simp add: add.assoc)
  moreover have "hash_to_scalar ext ark tag idx c = 0" using Suc.prems(2) by (auto dest: spec [of _ 0])
  ultimately show ?case by (subst hash_to_curve_loop.simps) simp
qed

lemma hash_to_curve_loop_needs:
  "hash_to_curve_loop ext ark tag idx c = Some g \<Longrightarrow> \<exists>n. hash_to_scalar ext ark tag idx n \<noteq> 0"
  by (rule hash_to_curve_loop.raw_induct
      [where P = "\<lambda>ext ark tag idx _ _. \<exists>n. hash_to_scalar ext ark tag idx n \<noteq> 0"])
    (auto split: if_splits)

text \<open>deriving a generator ends exactly when it can: \<open>hash_to_curve\<close> returns if and only if some
  value of its 64-bit counter hashes to a non-zero scalar, and then it returns the multiple of
  the base point for the first such value; otherwise the counter wraps around for ever.\<close>

theorem hash_to_curve_returns_iff:
  "hash_to_curve ext ark tag idx =
     (if \<exists>n. hash_to_scalar ext ark tag idx n \<noteq> 0
      then Some (scale ark (generator ark) (hash_to_scalar ext ark tag idx
             (of_nat (LEAST n. hash_to_scalar ext ark tag idx (of_nat n) \<noteq> 0))))
      else None)"
proof (cases "\<exists>n. hash_to_scalar ext ark tag idx n \<noteq> 0")
  case True
  then obtain w where "hash_to_scalar ext ark tag idx w \<noteq> 0" by blast
  then have ex: "\<exists>n. hash_to_scalar ext ark tag idx (of_nat n) \<noteq> 0" by (intro exI [of _ "unat w"]) simp
  let ?n = "LEAST n. hash_to_scalar ext ark tag idx (of_nat n) \<noteq> 0"
  have "hash_to_scalar ext ark tag idx (of_nat ?n) \<noteq> 0" using ex by (rule LeastI_ex)
  moreover have "\<forall>m<?n. hash_to_scalar ext ark tag idx (of_nat m) = 0" using not_less_Least by blast
  ultimately show ?thesis
    using hash_to_curve_loop_returns [of ext ark tag idx 0 ?n] True by (simp add: hash_to_curve_def)
next
  case False
  then have "hash_to_curve_loop ext ark tag idx 0 = None"
    using hash_to_curve_loop_needs [of ext ark tag idx 0] by fastforce
  with False show ?thesis by (simp add: hash_to_curve_def)
qed

section \<open>The scheme as the tree uses it\<close>

text \<open>A tree handles scalars by their canonical integers and points by their affine coordinates;
  \<open>fr_repr\<close>, \<open>fr_of\<close>, \<open>affine_xy\<close> and \<open>affine_point\<close> convert. \<open>PolynomialCommitment\<close> as the
  argument of the tree's definitions:\<close>

record ('f, 'g) ark_repr =
  fr_repr :: "'f \<Rightarrow> nat"
  fr_of :: "nat \<Rightarrow> 'f"
  affine_xy :: "'g \<Rightarrow> nat \<times> nat"
  affine_point :: "nat \<times> nat \<Rightarrow> 'g"
  point_bytes :: "'g \<Rightarrow> bytes"

definition opening_proof_of :: "('f, 'g) ark_repr \<Rightarrow> ('f, 'g) pc_opening \<Rightarrow> opening_proof" where
  "opening_proof_of rp o' =
     \<lparr>quotient_commitment = Commitment (affine_xy rp (opening_quotient o')),
      final_commitment = Commitment (affine_xy rp (ipa_final (opening_ipa o'))),
      proof_scalars = map (fr_repr rp) (ipa_scalars (opening_ipa o')),
      op_point = fr_repr rp (opening_point o'), op_value = fr_repr rp (opening_value o')\<rparr>"

fun point_of :: "('f, 'g) ark_repr \<Rightarrow> commitment \<Rightarrow> 'g" where
  "point_of rp (Commitment xy) = affine_point rp xy"

definition opening_of :: "('f, 'g) ark_repr \<Rightarrow> opening_proof \<Rightarrow> ('f, 'g) pc_opening" where
  "opening_of rp o' =
     \<lparr>opening_quotient = point_of rp (quotient_commitment o'),
      opening_ipa = \<lparr>ipa_final = point_of rp (final_commitment o'),
                     ipa_scalars = map (fr_of rp) (proof_scalars o')\<rparr>,
      opening_point = fr_of rp (op_point o'), opening_value = fr_of rp (op_value o')\<rparr>"

definition pc_ops_of ::
    "externals \<Rightarrow> ('f::field, 'g::ab_group_add) ark_ops \<Rightarrow> ('f, 'g) ark_repr \<Rightarrow> 'g polynomial_commitment
      \<Rightarrow> pc_ops" where
  "pc_ops_of ext ark rp self =
     \<lparr>pc_commit = (\<lambda>cs. map_sum pc_error_display (\<lambda>c. Commitment (affine_xy rp c))
         (commit ext ark self (map (fr_of rp) cs))),
      from_coefficients_vec = (\<lambda>cs. map (fr_repr rp) (strip_zeros (map (fr_of rp) cs))),
      pc_open = (\<lambda>cs z v. map_option (map_sum pc_error_display (opening_proof_of rp))
         (open_at ext ark self (map (fr_of rp) cs) (fr_of rp z) (fr_of rp v))),
      pc_verify = (\<lambda>c p. map_err pc_error_display
         (verify ext ark self (point_of rp c) (opening_of rp p))),
      serialize_uncompressed = (\<lambda>c. Inr (point_bytes rp (point_of rp c))),
      from_le_bytes_mod_order = (\<lambda>bs. fr_repr rp (fr_from_le_bytes ark bs)),
      scalar_zero = fr_repr rp 0\<rparr>"

lemma commit_coeffs_total:
  assumes "length (generators self) = VERKLE_RADIX" and "length cs \<le> VERKLE_RADIX"
  shows "\<exists>c. commit_coeffs (pc_ops_of ext ark rp self) msg cs = Inr c"
proof -
  have "length (strip_zeros (map (fr_of rp) cs)) \<le> length (generators self)"
    using strip_zeros_length [of "map (fr_of rp) cs"] assms by simp
  then show ?thesis
    by (simp add: commit_coeffs_def pc_ops_of_def commit_def Let_def not_less)
qed

lemma root_hash_total: "\<exists>r. commitment_root_hash ext (pc_ops_of ext' ark rp self) c = Inr r"
  by (simp add: commitment_root_hash_def pc_ops_of_def)

lemma empty_levels_total:
  assumes "length (generators self) = VERKLE_RADIX"
  shows "\<exists>ls. empty_levels ext (pc_ops_of ext ark rp self) n = Inr ls"
proof (induction n)
  case 0
  obtain c where c: "commit_coeffs (pc_ops_of ext ark rp self) ''Failed to commit empty polynomial: {}'' [] = Inr c"
    using commit_coeffs_total [OF assms, of "[]"] by fastforce
  obtain r where "commitment_root_hash ext (pc_ops_of ext ark rp self) c = Inr r" using root_hash_total by blast
  with c show ?case by simp
next
  case (Suc n)
  then obtain ls where ls: "empty_levels ext (pc_ops_of ext ark rp self) n = Inr ls" by blast
  obtain c where c: "commit_coeffs (pc_ops_of ext ark rp self) ''Failed to commit subtree polynomial: {}''
      (replicate VERKLE_RADIX (snd (hd ls))) = Inr c"
    using commit_coeffs_total [OF assms, of "replicate VERKLE_RADIX (snd (hd ls))"] by force
  obtain r where "commitment_root_hash ext (pc_ops_of ext ark rp self) c = Inr r" using root_hash_total by blast
  with c ls show ?case by simp
qed

text \<open>with the 256 generators the tree is built with, committing cannot fail: a tree can always
  be created, and whatever operations it goes through, \<open>get_root\<close> returns a root.\<close>

theorem verkle_root_never_fails:
  assumes "length (generators self) = VERKLE_RADIX"
  shows "\<exists>t0. vt_new ext (pc_ops_of ext ark rp self) st = Inr t0
    \<and> (\<forall>t. (vt_step ext (pc_ops_of ext ark rp self))\<^sup>*\<^sup>* t0 t \<longrightarrow>
         (\<exists>root. snd (get_root ext (pc_ops_of ext ark rp self) t) = Inr root))"
proof -
  let ?pc = "pc_ops_of ext ark rp self"
  obtain t0 where t0: "vt_new ext ?pc st = Inr t0"
    using empty_levels_total [OF assms, of ext ark rp KEY_SIZE]
    by (auto simp: vt_new_def compute_empty_subtree_constants_def)
  have "\<exists>root. snd (get_root ext ?pc t) = Inr root" if steps: "(vt_step ext ?pc)\<^sup>*\<^sup>* t0 t" for t
  proof -
    have ok: "vt_ok ext ?pc t" using vt_steps_ok [OF steps vt_new_ok [OF t0]] .
    have "\<exists>c. node_commitment ext ?pc t (Suc n) p = Inr c" for n p
      unfolding node_commitment.simps by (rule commit_coeffs_total [OF assms]) simp
    moreover have "KEY_SIZE = Suc 31" by (simp add: KEY_SIZE_def)
    ultimately obtain c where "node_commitment ext ?pc t KEY_SIZE [] = Inr c" by metis
    moreover obtain r where "commitment_root_hash ext ?pc c = Inr r" using root_hash_total by blast
    ultimately have "root_of ext ?pc t = Inr r" by (simp add: root_of_def)
    with get_root_ok [OF ok] show ?thesis by (metis prod.collapse)
  qed
  with t0 show ?thesis by blast
qed

section \<open>Witnesses\<close>

text \<open>The field of two elements, as the scalars and as the group.\<close>

datatype gf2 = Zero2 | One2

instantiation gf2 :: field
begin

definition zero_gf2 :: gf2 where "zero_gf2 = Zero2"
definition one_gf2 :: gf2 where "one_gf2 = One2"
definition plus_gf2 :: "gf2 \<Rightarrow> gf2 \<Rightarrow> gf2" where "plus_gf2 a b = (if a = b then Zero2 else One2)"
definition minus_gf2 :: "gf2 \<Rightarrow> gf2 \<Rightarrow> gf2" where "minus_gf2 a b = (if a = b then Zero2 else One2)"
definition uminus_gf2 :: "gf2 \<Rightarrow> gf2" where "uminus_gf2 a = a"
definition times_gf2 :: "gf2 \<Rightarrow> gf2 \<Rightarrow> gf2" where "times_gf2 a b = (if a = One2 then b else Zero2)"
definition inverse_gf2 :: "gf2 \<Rightarrow> gf2" where "inverse_gf2 a = a"
definition divide_gf2 :: "gf2 \<Rightarrow> gf2 \<Rightarrow> gf2" where "divide_gf2 a b = (if b = One2 then a else Zero2)"

lemmas gf2_defs = zero_gf2_def one_gf2_def plus_gf2_def minus_gf2_def uminus_gf2_def times_gf2_def
  inverse_gf2_def divide_gf2_def

instance
proof
  fix a b c :: gf2
  show "a + b + c = a + (b + c)" by (cases a; cases b; cases c) (simp_all add: gf2_defs)
  show "(a + b) * c = a * c + b * c" by (cases a; cases b; cases c) (simp_all add: gf2_defs)
  show "a * b * c = a * (b * c)" by (cases a; cases b; cases c) (simp_all add: gf2_defs)
  show "a * b = b * a" "a + b = b + a" "a - b = a + - b" "a div b = a * inverse b"
    by (cases a; cases b; simp add: gf2_defs)+
  show "0 + a = a" "- a + a = 0" "1 * a = a" by (cases a; simp add: gf2_defs)+
  show "a \<noteq> 0 \<Longrightarrow> inverse a * a = 1" by (cases a; simp add: gf2_defs)
  show "inverse (0 :: gf2) = 0" "(0 :: gf2) \<noteq> 1" by (simp_all add: gf2_defs)
qed

end

definition demo_ark :: "(gf2, gf2) ark_ops" where
  "demo_ark = \<lparr>generator = 1, scale = (*), fr_from_le_bytes = (\<lambda>bs. 1), fr_to_le_bytes = (\<lambda>c. [])\<rparr>"

definition demo_scheme :: "gf2 polynomial_commitment" where
  "demo_scheme = \<lparr>generators = [1, 1, 1], random_point = 1\<rparr>"

theorem opening_completeness_witness:
  "\<exists>proof'. open_at demo_hash_ext demo_ark demo_scheme [1, 1, 1] 0 1 = Some (Inr proof')
     \<and> verify demo_hash_ext demo_ark demo_scheme 0 proof' = Inr True"
  using opening_completeness [of demo_hash_ext demo_ark demo_scheme "[1, 1, 1]" 0 1 0]
  by (auto simp: demo_ark_def demo_scheme_def commit_def msm_def generate_blinding_factor_def gf2_defs)

theorem opening_soundness_witness:
  "\<exists>p. commit demo_hash_ext demo_ark demo_scheme p = Inr 0 \<and> evaluate p 0 = 1"
  using opening_soundness [of demo_hash_ext demo_ark demo_scheme 0
      "\<lparr>opening_quotient = 1, opening_ipa = \<lparr>ipa_final = 1, ipa_scalars = []\<rparr>, opening_point = 0, opening_value = 1\<rparr>"]
  by (simp add: verify_def verify_ipa_proof_def reconstruct_commitment_is_commit reconstruct_Cons
      demo_ark_def demo_scheme_def commit_def msm_def generate_blinding_factor_def Let_def strip_zeros_def gf2_defs)

text \<open>The division loses a zero: \<open>x\<^sup>2\<close> opened at zero has the quotient \<open>x\<close>, and the proof carries the
  constant \<open>1\<close>.\<close>

lemma quotient_loses_zero:
  "quotient_spec [0, 0, 1 :: gf2] 0 = [0, 1] \<and> compute_quotient_polynomial [0, 0, 1 :: gf2] 0 0 = Some [1]"
  by (simp add: compute_quotient_polynomial_eq)

definition demo_repr :: "(gf2, gf2) ark_repr" where
  "demo_repr = \<lparr>fr_repr = (\<lambda>c. if c = 0 then 0 else 1), fr_of = (\<lambda>n. if n = 0 then 0 else 1),
     affine_xy = (\<lambda>g. (if g = 0 then 0 else 1, 0)), affine_point = (\<lambda>(x, y). if x = 0 then 0 else 1),
     point_bytes = (\<lambda>g. [])\<rparr>"

theorem verkle_root_never_fails_witness:
  "\<exists>t0. vt_new demo_hash_ext (pc_ops_of demo_hash_ext demo_ark demo_repr
       \<lparr>generators = replicate VERKLE_RADIX 1, random_point = 7\<rparr>) memory_storage_new = Inr t0"
  using verkle_root_never_fails [of "\<lparr>generators = replicate VERKLE_RADIX 1, random_point = 7\<rparr>"
      demo_hash_ext demo_ark demo_repr memory_storage_new] by auto

end
