(* ===== verification/Verkle_Proofs.thy ===== *)
theory Verkle_Proofs
  imports Polynomial_Commitment
begin

text \<open>
  Membership and non-membership proofs of the Verkle tree: \<open>core/state/v_trie.rs\<close>,
  \<open>generate_proof\<close>, \<open>verify_proof\<close> and their multi-key versions. A proof carries, for each of the
  32 levels of the key, the roots of all 256 children of the node on the path.
\<close>

section \<open>Proofs\<close>

datatype proof_type = Membership | NonMembership

text \<open>The tree's own \<open>GasFeeWitness\<close>.\<close>

record vt_gas_witness =
  vg_total_gas_fee :: u128
  vg_miner_share :: u128
  vg_fullnode_share :: u128

record verkle_proof =
  vp_type :: proof_type
  vp_path :: bytes
  vp_siblings :: "bytes list"
  vp_leaf_value :: "bytes option"
  vp_root :: bytes
  vp_opening_proofs :: "opening_proof list"
  vp_gas_fee_distribution :: "vt_gas_witness option"

record verkle_multi_proof =
  multi_root :: bytes
  entry_proofs :: "verkle_proof list"

section \<open>Generation\<close>

definition reconstruct_node_polynomial ::
    "externals \<Rightarrow> pc_ops \<Rightarrow> verkle_tree \<Rightarrow> bytes \<Rightarrow> nat \<Rightarrow> verkle_tree \<times> scalar list" where
  "reconstruct_node_polynomial ext pc self path depth =
     (if depth = KEY_SIZE
      then (self, from_coefficients_vec pc [leaf_scalar ext pc (get_node_value self path)])
      else case child_scalars ext pc (compute_node_commitment ext pc (KEY_SIZE - (depth + 1))) path depth
                  self [0..<VERKLE_RADIX] of
        (self', coeffs) \<Rightarrow> (self', from_coefficients_vec pc coeffs))"

definition hash_node_value_at_index ::
    "externals \<Rightarrow> pc_ops \<Rightarrow> verkle_tree \<Rightarrow> bytes \<Rightarrow> u8 \<Rightarrow> verkle_tree \<times> scalar" where
  "hash_node_value_at_index ext pc self path child_index =
     (case compute_node_root_hash ext pc self (path @ [child_index]) (length path + 1) of
        (self', r) \<Rightarrow>
          (let child_root = (case r of Inl _ \<Rightarrow> empty_subtree_roots self' ! (length path + 1) | Inr root \<Rightarrow> root)
           in (self', from_le_bytes_mod_order pc child_root)))"

text \<open>The roots of the children at one level; \<open>live\<close> tells whether the node on the path exists.\<close>

fun level_siblings ::
    "externals \<Rightarrow> pc_ops \<Rightarrow> bool \<Rightarrow> bytes \<Rightarrow> nat \<Rightarrow> verkle_tree \<Rightarrow> nat list
      \<Rightarrow> verkle_tree \<times> (core_error + bytes list)" where
  "level_siblings ext pc live path depth self [] = (self, Inr [])"
| "level_siblings ext pc live path depth self (i # is) =
     (let child_path = path @ [of_nat i] in
      case (if live \<and> node_exists self child_path
            then compute_node_root_hash ext pc self child_path (depth + 1)
            else (self, Inr (empty_subtree_roots self ! (depth + 1)))) of
        (self', Inl e) \<Rightarrow> (self', Inl e)
      | (self', Inr root) \<Rightarrow>
          (case level_siblings ext pc live path depth self' is of
             (self'', r) \<Rightarrow> (self'', map_sum id ((#) root) r)))"

text \<open>The opening of one node; a failed opening is skipped.\<close>

definition level_opening ::
    "externals \<Rightarrow> pc_ops \<Rightarrow> verkle_tree \<Rightarrow> bytes \<Rightarrow> nat \<Rightarrow> u8 \<Rightarrow> (verkle_tree \<times> opening_proof list) option" where
  "level_opening ext pc self path depth byte =
     (let point = from_le_bytes_mod_order pc [byte] in
      case hash_node_value_at_index ext pc self path byte of
        (self1, value_hash) \<Rightarrow>
          (case reconstruct_node_polynomial ext pc self1 path depth of
             (self2, p) \<Rightarrow>
               (case pc_open pc p point value_hash of
                  None \<Rightarrow> None
                | Some (Inl _) \<Rightarrow> Some (self2, [])
                | Some (Inr pf) \<Rightarrow> Some (self2, [pf]))))"

record proof_state =
  ps_siblings :: "bytes list"
  ps_openings :: "opening_proof list"
  ps_path :: bytes
  ps_exists :: bool

fun proof_levels ::
    "externals \<Rightarrow> pc_ops \<Rightarrow> nat \<Rightarrow> bytes \<Rightarrow> proof_state \<Rightarrow> verkle_tree
      \<Rightarrow> (verkle_tree \<times> (core_error + proof_state)) option" where
  "proof_levels ext pc depth [] s self = Some (self, Inr s)"
| "proof_levels ext pc depth (byte # bs) s self =
     (let live = ps_exists s \<and> node_exists self (ps_path s) in
      case level_siblings ext pc live (ps_path s) depth self [0..<VERKLE_RADIX] of
        (self1, Inl e) \<Rightarrow> Some (self1, Inl e)
      | (self1, Inr sibs) \<Rightarrow>
          (case (if live then level_opening ext pc self1 (ps_path s) depth byte else Some (self1, [])) of
             None \<Rightarrow> None
           | Some (self2, pfs) \<Rightarrow>
               (let s1 = s\<lparr>ps_siblings := ps_siblings s @ sibs, ps_openings := ps_openings s @ pfs\<rparr>;
                    s2 = (if ps_exists s
                          then s1\<lparr>ps_path := ps_path s @ [byte],
                                  ps_exists := node_exists self2 (ps_path s @ [byte])\<rparr>
                          else s1)
                in proof_levels ext pc (Suc depth) bs s2 self2)))"

definition generate_proof_with_witness ::
    "externals \<Rightarrow> pc_ops \<Rightarrow> verkle_tree \<Rightarrow> bytes \<Rightarrow> vt_gas_witness option
      \<Rightarrow> (verkle_tree \<times> (core_error + verkle_proof)) option" where
  "generate_proof_with_witness ext pc self key gas_witness =
     (case proof_levels ext pc 0 (take KEY_SIZE key)
             \<lparr>ps_siblings = [], ps_openings = [], ps_path = [], ps_exists = True\<rparr> self of
        None \<Rightarrow> None
      | Some (self1, Inl e) \<Rightarrow> Some (self1, Inl e)
      | Some (self1, Inr s) \<Rightarrow>
          (let leaf = (if ps_exists s then get_node_value self1 (ps_path s) else None) in
           case get_root ext pc self1 of
             (self2, Inl e) \<Rightarrow> Some (self2, Inl e)
           | (self2, Inr root) \<Rightarrow> Some (self2, Inr
               \<lparr>vp_type = (if leaf \<noteq> None then Membership else NonMembership), vp_path = key,
                vp_siblings = ps_siblings s, vp_leaf_value = leaf, vp_root = root,
                vp_opening_proofs = ps_openings s, vp_gas_fee_distribution = gas_witness\<rparr>)))"

definition generate_proof ::
    "externals \<Rightarrow> pc_ops \<Rightarrow> verkle_tree \<Rightarrow> bytes \<Rightarrow> (verkle_tree \<times> (core_error + verkle_proof)) option" where
  "generate_proof ext pc self key = generate_proof_with_witness ext pc self key None"

fun generate_entries ::
    "externals \<Rightarrow> pc_ops \<Rightarrow> verkle_tree \<Rightarrow> bytes list
      \<Rightarrow> (verkle_tree \<times> (core_error + verkle_proof list)) option" where
  "generate_entries ext pc self [] = Some (self, Inr [])"
| "generate_entries ext pc self (key # keys) =
     (case generate_proof_with_witness ext pc self key None of
        None \<Rightarrow> None
      | Some (self1, Inl e) \<Rightarrow> Some (self1, Inl e)
      | Some (self1, Inr p) \<Rightarrow>
          (case generate_entries ext pc self1 keys of
             None \<Rightarrow> None
           | Some (self2, r) \<Rightarrow> Some (self2, map_sum id ((#) p) r)))"

definition generate_multi_proof ::
    "externals \<Rightarrow> pc_ops \<Rightarrow> verkle_tree \<Rightarrow> bytes list
      \<Rightarrow> (verkle_tree \<times> (core_error + verkle_multi_proof)) option" where
  "generate_multi_proof ext pc self keys =
     (case get_root ext pc self of
        (self1, Inl e) \<Rightarrow> Some (self1, Inl e)
      | (self1, Inr root) \<Rightarrow>
          (case generate_entries ext pc self1 keys of
             None \<Rightarrow> None
           | Some (self2, r) \<Rightarrow>
               Some (self2, map_sum id (\<lambda>ps. \<lparr>multi_root = root, entry_proofs = ps\<rparr>) r)))"

section \<open>Verification\<close>

text \<open>The verdict of \<open>pc.verify\<close> is dropped; only its error is looked at.\<close>

fun check_openings :: "pc_ops \<Rightarrow> opening_proof list \<Rightarrow> core_error + unit" where
  "check_openings pc [] = Inr ()"
| "check_openings pc (p # ps) =
     bind_res (map_err (\<lambda>_. PolynomialCommitmentError ''IPA proof verification failed: {}'')
       (pc_verify pc (quotient_commitment p) p)) (\<lambda>_. check_openings pc ps)"

definition level_coeffs :: "pc_ops \<Rightarrow> verkle_proof \<Rightarrow> nat \<Rightarrow> scalar \<Rightarrow> scalar list" where
  "level_coeffs pc p depth current =
     map (\<lambda>i. if i = unat (vp_path p ! depth) then current
              else from_le_bytes_mod_order pc (vp_siblings p ! (depth * VERKLE_RADIX + i))) [0..<VERKLE_RADIX]"

text \<open>The loop \<open>for depth in (0..KEY_SIZE).rev()\<close>; the first argument counts the depths left.\<close>

fun recompute_root ::
    "externals \<Rightarrow> pc_ops \<Rightarrow> verkle_proof \<Rightarrow> nat \<Rightarrow> scalar \<Rightarrow> bytes \<Rightarrow> core_error + bytes" where
  "recompute_root ext pc p 0 current computed_root = Inr computed_root"
| "recompute_root ext pc p (Suc depth) current computed_root =
     bind_res (commit_coeffs pc ''Failed to reconstruct commitment: {}'' (level_coeffs pc p depth current)) (\<lambda>c.
     bind_res (commitment_root_hash ext pc c) (\<lambda>root.
       recompute_root ext pc p depth (from_le_bytes_mod_order pc root) root))"

text \<open>The scalar of the leaf; \<open>None\<close> is the impossible membership without a value.\<close>

definition leaf_root_scalar ::
    "externals \<Rightarrow> pc_ops \<Rightarrow> verkle_tree \<Rightarrow> verkle_proof \<Rightarrow> core_error + scalar option" where
  "leaf_root_scalar ext pc self p =
     (case (vp_type p, vp_leaf_value p) of
        (Membership, Some v) \<Rightarrow>
          bind_res (commit_coeffs pc ''Failed to commit leaf: {}'' [value_to_scalar ext pc v]) (\<lambda>c.
          bind_res (commitment_root_hash ext pc c) (\<lambda>root.
            Inr (Some (from_le_bytes_mod_order pc root))))
      | (NonMembership, _) \<Rightarrow> Inr (Some (from_le_bytes_mod_order pc (empty_subtree_roots self ! KEY_SIZE)))
      | _ \<Rightarrow> Inr None)"

definition gas_split_ok :: "vt_gas_witness option \<Rightarrow> bool" where
  "gas_split_ok w =
     (case w of
        None \<Rightarrow> True
      | Some g \<Rightarrow>
          (let expected_miner = (vg_total_gas_fee g * MINER_REWARD_PERCENT) div 100;
               expected_fullnode = saturating_sub (vg_total_gas_fee g) expected_miner
           in vg_miner_share g = expected_miner \<and> vg_fullnode_share g = expected_fullnode))"

definition verify_proof :: "externals \<Rightarrow> pc_ops \<Rightarrow> verkle_tree \<Rightarrow> verkle_proof \<Rightarrow> core_error + bool" where
  "verify_proof ext pc self p =
     (if length (vp_path p) \<noteq> KEY_SIZE then Inr False
      else if length (vp_siblings p) \<noteq> KEY_SIZE * VERKLE_RADIX then Inr False
      else if (vp_type p = Membership) = (vp_leaf_value p = None) then Inr False
      else
        bind_res (check_openings pc (vp_opening_proofs p)) (\<lambda>_.
        bind_res (leaf_root_scalar ext pc self p) (\<lambda>leaf.
          case leaf of
            None \<Rightarrow> Inr False
          | Some current \<Rightarrow>
              bind_res (recompute_root ext pc p KEY_SIZE current (replicate 32 0)) (\<lambda>computed_root.
                Inr (computed_root = vp_root p \<and> gas_split_ok (vp_gas_fee_distribution p))))))"

fun verify_entries :: "externals \<Rightarrow> pc_ops \<Rightarrow> verkle_tree \<Rightarrow> bytes \<Rightarrow> verkle_proof list \<Rightarrow> core_error + bool" where
  "verify_entries ext pc self root [] = Inr True"
| "verify_entries ext pc self root (p # ps) =
     (if vp_root p \<noteq> root then Inr False
      else bind_res (verify_proof ext pc self p) (\<lambda>ok.
        if \<not> ok then Inr False else verify_entries ext pc self root ps))"

definition verify_multi_proof :: "externals \<Rightarrow> pc_ops \<Rightarrow> verkle_tree \<Rightarrow> verkle_multi_proof \<Rightarrow> core_error + bool" where
  "verify_multi_proof ext pc self p = verify_entries ext pc self (multi_root p) (entry_proofs p)"

section \<open>What proofs rely on of the commitment scheme\<close>

text \<open>Committing to at most 256 coefficients and serializing a commitment succeed, a leading zero
  coefficient is dropped, and checking an opening the scheme has made does not raise an error.\<close>

definition pc_laws :: "pc_ops \<Rightarrow> bool" where
  "pc_laws pc \<longleftrightarrow>
     (\<forall>msg cs. length cs \<le> VERKLE_RADIX \<longrightarrow> (\<exists>c. commit_coeffs pc msg cs = Inr c))
     \<and> (\<forall>c. \<exists>bs. serialize_uncompressed pc c = Inr bs)
     \<and> from_coefficients_vec pc [scalar_zero pc] = from_coefficients_vec pc []
     \<and> (\<forall>cs z v pf. length cs = VERKLE_RADIX \<and> pc_open pc (from_coefficients_vec pc cs) z v = Some (Inr pf) \<longrightarrow>
          (\<exists>b. pc_verify pc (quotient_commitment pf) pf = Inr b))"

lemma map_sum_Inr: "map_sum f g x = Inr y \<longleftrightarrow> (\<exists>z. x = Inr z \<and> y = g z)"
  by (cases x) auto

lemma open_at_length:
  assumes "open_at ext ark self p z v = Some (Inr o')"
  shows "Suc (length (ipa_scalars (opening_ipa o'))) \<le> length p"
proof -
  have "p \<noteq> []" using assms by (auto simp: open_at_def compute_quotient_polynomial_def split: if_splits)
  then have "ipa_scalars (opening_ipa o') = filter (\<lambda>c. c \<noteq> 0) (quotient_spec p z)"
    using assms
    by (auto simp: open_at_def compute_quotient_polynomial_eq generate_ipa_proof_def split: if_splits)
  moreover have "length (filter (\<lambda>c. c \<noteq> 0) (quotient_spec p z)) \<le> length p - 1"
    using length_filter_le [of "\<lambda>c. c \<noteq> 0" "quotient_spec p z"] by simp
  ultimately show ?thesis using \<open>p \<noteq> []\<close> by (cases p) auto
qed

lemma verify_total:
  assumes "Suc (length (ipa_scalars (opening_ipa o'))) \<le> length (generators self)"
  shows "\<exists>b. verify ext ark self c o' = Inr b"
proof -
  let ?p = "reconstruct_polynomial_from_quotient (ipa_scalars (opening_ipa o')) (opening_point o') (opening_value o')"
  have "length (strip_zeros ?p) \<le> length (generators self)"
    using strip_zeros_length [of ?p] assms by simp
  then obtain e where "commit ext ark self (strip_zeros ?p) = Inr e" by (simp add: commit_def Let_def not_less)
  moreover obtain d where "commit ext ark self (ipa_scalars (opening_ipa o')) = Inr d"
    using assms by (simp add: commit_def Let_def not_less)
  ultimately show ?thesis
    by (auto simp: verify_def verify_ipa_proof_def reconstruct_commitment_is_commit Let_def)
qed

text \<open>The repository's scheme with its 256 generators satisfies them.\<close>

lemma pc_ops_of_laws:
  assumes "length (generators self) = VERKLE_RADIX" and "\<forall>x. fr_of rp (fr_repr rp x) = x"
  shows "pc_laws (pc_ops_of ext ark rp self)"
  unfolding pc_laws_def
proof (intro conjI allI impI)
  let ?pc = "pc_ops_of ext ark rp self"
  fix msg and cs :: "scalar list"
  assume "length cs \<le> VERKLE_RADIX"
  then show "\<exists>c. commit_coeffs ?pc msg cs = Inr c" by (rule commit_coeffs_total [OF assms(1)])
next
  fix c
  show "\<exists>bs. serialize_uncompressed (pc_ops_of ext ark rp self) c = Inr bs" by (simp add: pc_ops_of_def)
next
  let ?pc = "pc_ops_of ext ark rp self"
  show "from_coefficients_vec ?pc [scalar_zero ?pc] = from_coefficients_vec ?pc []"
    using assms(2) by (simp add: pc_ops_of_def strip_zeros_def)
next
  let ?pc = "pc_ops_of ext ark rp self"
  fix cs z v pf
  assume a: "length cs = VERKLE_RADIX \<and> pc_open ?pc (from_coefficients_vec ?pc cs) z v = Some (Inr pf)"
  let ?p = "strip_zeros (map (fr_of rp) cs)"
  have id: "map (fr_of rp \<circ> fr_repr rp) xs = xs" for xs using assms(2) by (induction xs) auto
  obtain o' where o': "open_at ext ark self ?p (fr_of rp z) (fr_of rp v) = Some (Inr o')" "pf = opening_proof_of rp o'"
    using a by (auto simp: pc_ops_of_def id map_sum_Inr)
  have "Suc (length (ipa_scalars (opening_ipa o'))) \<le> length ?p" by (rule open_at_length [OF o'(1)])
  then have "Suc (length (ipa_scalars (opening_ipa (opening_of rp pf)))) \<le> length (generators self)"
    using strip_zeros_length [of "map (fr_of rp) cs"] a assms(1) by (simp add: o'(2) opening_of_def opening_proof_of_def)
  from verify_total [OF this] show "\<exists>b. pc_verify ?pc (quotient_commitment pf) pf = Inr b"
    by (fastforce simp: pc_ops_of_def)
qed

section \<open>Roots of coefficient vectors\<close>

definition coeffs_root :: "externals \<Rightarrow> pc_ops \<Rightarrow> scalar list \<Rightarrow> bytes option" where
  "coeffs_root ext pc cs =
     (case bind_res (commit_coeffs pc [] cs) (commitment_root_hash ext pc) of Inl _ \<Rightarrow> None | Inr r \<Rightarrow> Some r)"

lemma commit_coeffs_msg: "commit_coeffs pc msg cs = Inr c \<longleftrightarrow> commit_coeffs pc msg' cs = Inr c"
  by (simp add: commit_coeffs_def)

lemma coeffs_root_iff:
  "bind_res (commit_coeffs pc msg cs) (commitment_root_hash ext pc) = Inr r \<longleftrightarrow> coeffs_root ext pc cs = Some r"
  unfolding coeffs_root_def
  by (auto simp: commit_coeffs_msg [of pc msg cs _ "[]"] split: sum.splits)

lemma coeffs_root_total:
  assumes "pc_laws pc" and "length cs \<le> VERKLE_RADIX"
  shows "\<exists>r. coeffs_root ext pc cs = Some r"
proof -
  obtain c where "commit_coeffs pc [] cs = Inr c" using assms unfolding pc_laws_def by blast
  moreover obtain bs where "serialize_uncompressed pc c = Inr bs" using assms(1) unfolding pc_laws_def by blast
  ultimately show ?thesis by (simp add: coeffs_root_def commitment_root_hash_def)
qed

lemma coeffs_root_zero: "pc_laws pc \<Longrightarrow> coeffs_root ext pc [scalar_zero pc] = coeffs_root ext pc []"
  by (simp add: pc_laws_def coeffs_root_def commit_coeffs_def)

text \<open>The tables of empty subtrees.\<close>

lemma empty_levels_spec:
  "empty_levels ext pc n = Inr ls \<Longrightarrow>
   length ls = Suc n \<and> (\<forall>i\<le>n. snd (ls ! i) = from_le_bytes_mod_order pc (fst (ls ! i)))
   \<and> (\<forall>i<n. coeffs_root ext pc (replicate VERKLE_RADIX (snd (ls ! Suc i))) = Some (fst (ls ! i)))
   \<and> coeffs_root ext pc [] = Some (fst (ls ! n))"
proof (induction n arbitrary: ls)
  case 0
  then show ?case by (auto simp: coeffs_root_iff [where msg = "''Failed to commit empty polynomial: {}''", symmetric])
next
  case (Suc n)
  obtain ls' root where ls': "empty_levels ext pc n = Inr ls'"
    and ls: "ls = (root, from_le_bytes_mod_order pc root) # ls'"
    and root: "coeffs_root ext pc (replicate VERKLE_RADIX (snd (hd ls'))) = Some root"
    using Suc.prems by (auto simp: coeffs_root_iff [where msg = "''Failed to commit subtree polynomial: {}''", symmetric])
  note IH = Suc.IH [OF ls']
  then have "hd ls' = ls' ! 0" by (cases ls') auto
  with IH ls root show ?case by (auto simp: nth_Cons split: nat.splits)
qed

lemma tables:
  assumes "tree_ok ext pc t"
  shows "d \<le> KEY_SIZE \<Longrightarrow> empty_subtree_scalars t ! d = from_le_bytes_mod_order pc (empty_subtree_roots t ! d)"
    and "d < KEY_SIZE \<Longrightarrow> coeffs_root ext pc (replicate VERKLE_RADIX (empty_subtree_scalars t ! Suc d))
      = Some (empty_subtree_roots t ! d)"
    and "coeffs_root ext pc [] = Some (empty_subtree_roots t ! KEY_SIZE)"
proof -
  obtain ls where "empty_levels ext pc KEY_SIZE = Inr ls" "empty_subtree_roots t = map fst ls"
    "empty_subtree_scalars t = map snd ls"
    using assms by (auto simp: tree_ok_def compute_empty_subtree_constants_def)
  with empty_levels_spec [of ext pc KEY_SIZE ls]
  show "d \<le> KEY_SIZE \<Longrightarrow> empty_subtree_scalars t ! d = from_le_bytes_mod_order pc (empty_subtree_roots t ! d)"
    and "d < KEY_SIZE \<Longrightarrow> coeffs_root ext pc (replicate VERKLE_RADIX (empty_subtree_scalars t ! Suc d))
      = Some (empty_subtree_roots t ! d)"
    and "coeffs_root ext pc [] = Some (empty_subtree_roots t ! KEY_SIZE)"
    by auto
qed

section \<open>What a generated proof contains\<close>

lemma compute_node_root_hash_ok:
  assumes "cache_ok ext pc t" and "length path = depth" and "depth \<le> KEY_SIZE"
    and "compute_node_root_hash ext pc t path depth = (t', r)"
  shows "r = bind_res (node_commitment ext pc t (KEY_SIZE - depth) path) (commitment_root_hash ext pc)
    \<and> same_but_cache t t' \<and> cache_ok ext pc t'"
proof -
  obtain c where "compute_node_commitment ext pc (KEY_SIZE - depth) t path = (t', c)"
    and r: "r = bind_res c (commitment_root_hash ext pc)"
    using assms(4) by (auto simp: compute_node_root_hash_def split: prod.splits)
  with computesD [OF compute_node_commitment_computes assms(1), of path "KEY_SIZE - depth"] assms(2,3)
  show ?thesis by auto
qed

text \<open>The root of child \<open>i\<close> as a proof records it.\<close>

definition sibling_ok :: "externals \<Rightarrow> pc_ops \<Rightarrow> verkle_tree \<Rightarrow> bool \<Rightarrow> bytes \<Rightarrow> nat \<Rightarrow> bytes \<Rightarrow> bool" where
  "sibling_ok ext pc t live path i x \<longleftrightarrow>
     (if live \<and> node_exists t (path @ [of_nat i])
      then bind_res (node_commitment ext pc t (KEY_SIZE - Suc (length path)) (path @ [of_nat i]))
             (commitment_root_hash ext pc) = Inr x
      else x = empty_subtree_roots t ! Suc (length path))"

lemma sibling_ok_same: "same_but_cache t t' \<Longrightarrow> sibling_ok ext pc t' live path i x = sibling_ok ext pc t live path i x"
  by (simp add: sibling_ok_def same_but_cacheD)

lemma level_siblings_ok:
  assumes "length path < KEY_SIZE" and "pc_laws pc"
  shows "cache_ok ext pc t \<Longrightarrow> level_siblings ext pc live path (length path) t is = (t', r) \<Longrightarrow>
    same_but_cache t t' \<and> cache_ok ext pc t'
    \<and> (\<exists>xs. r = Inr xs \<and> list_all2 (sibling_ok ext pc t live path) is xs)"
proof (induction "is" arbitrary: t t' r)
  case Nil
  then show ?case by simp
next
  case (Cons i "is")
  let ?child = "path @ [of_nat i :: u8]"
  obtain t1 r1 where step: "(if live \<and> node_exists t ?child
        then compute_node_root_hash ext pc t ?child (length path + 1)
        else (t, Inr (empty_subtree_roots t ! (length path + 1)))) = (t1, r1)"
    by (cases "if live \<and> node_exists t ?child
        then compute_node_root_hash ext pc t ?child (length path + 1)
        else (t, Inr (empty_subtree_roots t ! (length path + 1)))")
  have one: "same_but_cache t t1" "cache_ok ext pc t1" "\<exists>x. r1 = Inr x \<and> sibling_ok ext pc t live path i x"
  proof -
    have tot: "\<exists>x. bind_res (node_commitment ext pc t (KEY_SIZE - Suc (length path)) ?child)
        (commitment_root_hash ext pc) = Inr x"
    proof (cases "KEY_SIZE - Suc (length path)")
      case 0
      show ?thesis unfolding 0 node_commitment.simps coeffs_root_iff
        by (rule coeffs_root_total [OF assms(2)]) (simp add: VERKLE_RADIX_def)
    next
      case (Suc n)
      show ?thesis unfolding Suc node_commitment.simps coeffs_root_iff
        by (rule coeffs_root_total [OF assms(2)]) simp
    qed
    show "same_but_cache t t1" "cache_ok ext pc t1" "\<exists>x. r1 = Inr x \<and> sibling_ok ext pc t live path i x"
      using step Cons.prems(1) tot compute_node_root_hash_ok [OF Cons.prems(1), of ?child "Suc (length path)" t1 r1] assms(1)
      by (auto simp: sibling_ok_def split: if_splits)
  qed
  then obtain x where x: "r1 = Inr x" "sibling_ok ext pc t live path i x" by blast
  obtain t2 r2 where rest: "level_siblings ext pc live path (length path) t1 is = (t2, r2)"
    by (cases "level_siblings ext pc live path (length path) t1 is")
  obtain xs where xs: "same_but_cache t1 t2" "cache_ok ext pc t2" "r2 = Inr xs"
    "list_all2 (sibling_ok ext pc t1 live path) is xs"
    using Cons.IH [OF one(2) rest] by blast
  have "t' = t2" "r = Inr (x # xs)" using Cons.prems(2) step x rest xs by (simp_all add: Let_def)
  moreover have "list_all2 (sibling_ok ext pc t live path) is xs"
    using xs(4) sibling_ok_same [OF one(1)] by (auto elim: list_all2_mono)
  ultimately show ?case using one x(2) xs(1,2) same_but_cache_trans by auto
qed

definition openings_ok :: "pc_ops \<Rightarrow> opening_proof list \<Rightarrow> bool" where
  "openings_ok pc pfs \<longleftrightarrow> list_all (\<lambda>pf. \<exists>b. pc_verify pc (quotient_commitment pf) pf = Inr b) pfs"

lemma check_openings_ok: "openings_ok pc pfs \<Longrightarrow> check_openings pc pfs = Inr ()"
  by (induction pfs) (auto simp: openings_ok_def)

lemma child_scalars_length:
  "child_scalars ext pc f path depth t is = (t', cs) \<Longrightarrow> length cs = length is"
  by (induction "is" arbitrary: t cs) (auto split: prod.splits)

lemma level_opening_ok:
  assumes "length path < KEY_SIZE" and "pc_laws pc" and "cache_ok ext pc t"
    and "level_opening ext pc t path (length path) byte = Some (t', pfs)"
  shows "same_but_cache t t' \<and> cache_ok ext pc t' \<and> openings_ok pc pfs"
proof -
  obtain t1 h where h: "hash_node_value_at_index ext pc t path byte = (t1, h)"
    by (cases "hash_node_value_at_index ext pc t path byte")
  obtain tx rx where rx: "compute_node_root_hash ext pc t (path @ [byte]) (length path + 1) = (tx, rx)"
    by (cases "compute_node_root_hash ext pc t (path @ [byte]) (length path + 1)")
  have t1: "same_but_cache t t1" "cache_ok ext pc t1"
    using compute_node_root_hash_ok [OF assms(3) _ _ rx] h rx assms(1)
    by (auto simp: hash_node_value_at_index_def Let_def)
  let ?n = "KEY_SIZE - Suc (length path)"
  obtain t2 cs where cs: "child_scalars ext pc (compute_node_commitment ext pc ?n) path (length path) t1
      [0..<VERKLE_RADIX] = (t2, cs)" by force
  have n: "length path + Suc ?n = KEY_SIZE" "KEY_SIZE - Suc ?n = length path" using assms(1) by simp_all
  have t2: "same_but_cache t1 t2" "cache_ok ext pc t2"
    using child_scalars_ok [OF compute_node_commitment_computes n(1) t1(2), of "[0..<VERKLE_RADIX]" t2 cs] cs
    by (simp_all add: n(2))
  have p: "reconstruct_node_polynomial ext pc t1 path (length path) = (t2, from_coefficients_vec pc cs)"
    using cs assms(1) by (simp add: reconstruct_node_polynomial_def)
  have "t' = t2 \<and> openings_ok pc pfs"
    using assms(2,4) h p child_scalars_length [OF cs]
    by (fastforce simp: level_opening_def Let_def openings_ok_def pc_laws_def split: option.splits sum.splits)
  with t1 t2 same_but_cache_trans show ?thesis by blast
qed

text \<open>A key's path exists down to depth \<open>d\<close>.\<close>

definition on_path :: "verkle_tree \<Rightarrow> bytes \<Rightarrow> nat \<Rightarrow> bool" where
  "on_path t key d \<longleftrightarrow> (\<forall>i\<le>d. node_exists t (take i key))"

lemma on_path_Suc: "on_path t key (Suc d) \<longleftrightarrow> on_path t key d \<and> node_exists t (take (Suc d) key)"
  by (auto simp: on_path_def le_Suc_eq)

lemma on_path_same: "same_but_cache t t' \<Longrightarrow> on_path t' key d = on_path t key d"
  by (simp add: on_path_def same_but_cacheD)

definition levels_ok :: "externals \<Rightarrow> pc_ops \<Rightarrow> verkle_tree \<Rightarrow> bytes \<Rightarrow> nat \<Rightarrow> bytes list \<Rightarrow> bool" where
  "levels_ok ext pc t key depth sibs \<longleftrightarrow> length sibs = depth * VERKLE_RADIX
     \<and> (\<forall>d<depth. \<forall>i<VERKLE_RADIX.
          sibling_ok ext pc t (on_path t key d) (take d key) i (sibs ! (d * VERKLE_RADIX + i)))"

lemma sibling_ok_dead: "length path = length path' \<Longrightarrow> sibling_ok ext pc t False path i x = sibling_ok ext pc t False path' i x"
  by (simp add: sibling_ok_def)

lemma levels_ok_snoc:
  assumes "levels_ok ext pc t key depth sibs"
    and "list_all2 (sibling_ok ext pc t (on_path t key depth) (take depth key)) [0..<VERKLE_RADIX] xs"
  shows "levels_ok ext pc t key (Suc depth) (sibs @ xs)"
proof -
  have len: "length xs = VERKLE_RADIX" using list_all2_lengthD [OF assms(2)] by simp
  have "sibling_ok ext pc t (on_path t key d) (take d key) i ((sibs @ xs) ! (d * VERKLE_RADIX + i))"
    if "d < Suc depth" "i < VERKLE_RADIX" for d i
  proof (cases "d = depth")
    case True
    with assms(1) that list_all2_nthD [OF assms(2), of i] show ?thesis
      by (simp add: levels_ok_def nth_append)
  next
    case False
    with that have d: "d < depth" by simp
    then have "d * VERKLE_RADIX + i < depth * VERKLE_RADIX"
      using that(2) by (metis Suc_leI add_less_cancel_left less_le_trans mult_Suc add.commute mult_le_mono1)
    with d that assms(1) show ?thesis by (simp add: levels_ok_def nth_append)
  qed
  with len assms(1) show ?thesis by (simp add: levels_ok_def)
qed

text \<open>The state of the generation after \<open>depth\<close> levels.\<close>

definition state_ok :: "externals \<Rightarrow> pc_ops \<Rightarrow> verkle_tree \<Rightarrow> bytes \<Rightarrow> nat \<Rightarrow> proof_state \<Rightarrow> bool" where
  "state_ok ext pc t key depth s \<longleftrightarrow> levels_ok ext pc t key depth (ps_siblings s)
     \<and> openings_ok pc (ps_openings s) \<and> ps_exists s = on_path t key depth
     \<and> (ps_exists s \<longrightarrow> ps_path s = take depth key) \<and> length (ps_path s) \<le> depth"

lemma level_siblings_dead:
  "level_siblings ext pc False path depth t is = (t, Inr (replicate (length is) (empty_subtree_roots t ! Suc depth)))"
  by (induction "is") simp_all

lemma proof_levels_ok:
  assumes "pc_laws pc" and "length key = KEY_SIZE"
  shows "cache_ok ext pc t \<Longrightarrow> depth + length bs \<le> KEY_SIZE \<Longrightarrow>
    take (depth + length bs) key = take depth key @ bs \<Longrightarrow>
    state_ok ext pc t key depth s \<Longrightarrow> proof_levels ext pc depth bs s t = Some (t', r) \<Longrightarrow>
    same_but_cache t t' \<and> cache_ok ext pc t'
    \<and> (\<exists>s'. r = Inr s' \<and> state_ok ext pc t key (depth + length bs) s')"
proof (induction bs arbitrary: depth s t)
  case Nil
  then show ?case by auto
next
  case (Cons b bs)
  have d: "depth < KEY_SIZE" using Cons.prems(2) by simp
  have "(take depth key @ b # bs) ! depth = b" using d assms(2) by (simp add: nth_append)
  then have "key ! depth = b" unfolding Cons.prems(3) [symmetric] using d assms(2) by simp
  then have key: "take (Suc depth) key = take depth key @ [b]"
    using d assms(2) by (simp add: take_Suc_conv_app_nth)
  have live: "(ps_exists s \<and> node_exists t (ps_path s)) = on_path t key depth"
    using Cons.prems(4) by (auto simp: state_ok_def on_path_def)
  obtain t1 r1 where sib: "level_siblings ext pc (on_path t key depth) (ps_path s) depth t [0..<VERKLE_RADIX] = (t1, r1)"
    by force
  have path: "on_path t key depth \<Longrightarrow> ps_path s = take depth key \<and> length (ps_path s) = depth"
    using Cons.prems(4) d assms(2) by (auto simp: state_ok_def)
  have lvl: "same_but_cache t t1 \<and> cache_ok ext pc t1 \<and> (\<exists>xs. r1 = Inr xs
      \<and> list_all2 (sibling_ok ext pc t (on_path t key depth) (take depth key)) [0..<VERKLE_RADIX] xs)"
  proof (cases "on_path t key depth")
    case True
    with path sib level_siblings_ok [OF _ assms(1) Cons.prems(1), of "ps_path s" True "[0..<VERKLE_RADIX]" t1 r1] d assms(2)
    show ?thesis by (simp add: min_def)
  next
    case False
    with sib Cons.prems(1) d assms(2) show ?thesis
      by (auto simp: level_siblings_dead sibling_ok_def list_all2_conv_all_nth)
  qed
  then obtain xs where xs: "same_but_cache t t1" "cache_ok ext pc t1" "r1 = Inr xs"
    "list_all2 (sibling_ok ext pc t (on_path t key depth) (take depth key)) [0..<VERKLE_RADIX] xs" by blast
  obtain t2 pfs where op: "(if on_path t key depth then level_opening ext pc t1 (ps_path s) depth b else Some (t1, []))
      = Some (t2, pfs)"
    using Cons.prems(5) sib xs(3) unfolding proof_levels.simps Let_def live
    by (auto split: option.splits if_splits)
  have t2: "same_but_cache t1 t2" "cache_ok ext pc t2" "openings_ok pc pfs"
    using op xs(2) path level_opening_ok [OF _ assms(1) xs(2), of "ps_path s" b t2 pfs] d assms(2)
    by (auto simp: openings_ok_def min_def split: if_splits)
  have same: "same_but_cache t t2" using same_but_cache_trans [OF xs(1) t2(1)] .
  define s2 where "s2 = (let s1 = s\<lparr>ps_siblings := ps_siblings s @ xs, ps_openings := ps_openings s @ pfs\<rparr>
    in if ps_exists s then s1\<lparr>ps_path := ps_path s @ [b], ps_exists := node_exists t2 (ps_path s @ [b])\<rparr> else s1)"
  have run: "proof_levels ext pc (Suc depth) bs s2 t2 = Some (t', r)"
    using Cons.prems(5) sib xs(3) op unfolding proof_levels.simps Let_def live
    by (simp add: s2_def Let_def)
  have ok2: "state_ok ext pc t key (Suc depth) s2"
    using Cons.prems(4) levels_ok_snoc [OF _ xs(4)] t2(3) key same
    by (auto simp: state_ok_def s2_def Let_def on_path_Suc openings_ok_def same_but_cacheD(9))
  then have ok2': "state_ok ext pc t2 key (Suc depth) s2"
    by (simp add: state_ok_def levels_ok_def sibling_ok_same [OF same] on_path_same [OF same])
  have key2: "take (Suc depth + length bs) key = take (Suc depth) key @ bs" using Cons.prems(3) key by simp
  from Cons.IH [OF t2(2) _ key2 ok2' run] Cons.prems(2) same same_but_cache_trans
  show ?case
    by (auto simp: state_ok_def levels_ok_def sibling_ok_same [OF same] on_path_same [OF same])
qed

section \<open>Generation returns\<close>

text \<open>The only panic of the generation is that of opening a zero polynomial. The coefficients of the
  polynomial of the node at a path, from the stored nodes alone:\<close>

definition node_coeffs :: "externals \<Rightarrow> pc_ops \<Rightarrow> verkle_tree \<Rightarrow> bytes \<Rightarrow> scalar list" where
  "node_coeffs ext pc t path =
     (let n = KEY_SIZE - Suc (length path) in
      map (\<lambda>i. if node_exists t (path @ [of_nat i])
             then from_le_bytes_mod_order pc (root_or_empty ext pc t (KEY_SIZE - n)
                    (node_commitment ext pc t n (path @ [of_nat i])))
             else empty_subtree_scalars t ! (KEY_SIZE - n)) [0..<VERKLE_RADIX])"

definition path_openable :: "externals \<Rightarrow> pc_ops \<Rightarrow> verkle_tree \<Rightarrow> bytes \<Rightarrow> bool" where
  "path_openable ext pc t key \<longleftrightarrow>
     (\<forall>d<KEY_SIZE. on_path t key d \<longrightarrow> from_coefficients_vec pc (node_coeffs ext pc t (take d key)) \<noteq> [])"

definition opens_nonzero :: "pc_ops \<Rightarrow> bool" where
  "opens_nonzero pc \<longleftrightarrow>
     (\<forall>cs z v. from_coefficients_vec pc cs \<noteq> [] \<longrightarrow> pc_open pc (from_coefficients_vec pc cs) z v \<noteq> None)"

lemma pc_ops_of_opens: "opens_nonzero (pc_ops_of ext ark rp self)"
  unfolding opens_nonzero_def
proof (intro allI impI)
  fix cs z v
  assume "from_coefficients_vec (pc_ops_of ext ark rp self) cs \<noteq> []"
  then have "map (fr_of rp) (from_coefficients_vec (pc_ops_of ext ark rp self) cs) \<noteq> []" by simp
  then show "pc_open (pc_ops_of ext ark rp self) (from_coefficients_vec (pc_ops_of ext ark rp self) cs) z v \<noteq> None"
    by (simp add: pc_ops_of_def open_at_def compute_quotient_polynomial_eq)
qed

lemma node_coeffs_same: "same_but_cache t t' \<Longrightarrow> node_coeffs ext pc t' path = node_coeffs ext pc t path"
  by (auto simp: node_coeffs_def Let_def same_but_cacheD root_or_empty_def split: sum.splits)

lemma path_openable_stored:
  assumes "storage t' = storage t" and "empty_subtree_roots t' = empty_subtree_roots t"
    and "empty_subtree_scalars t' = empty_subtree_scalars t"
  shows "path_openable ext pc t' key = path_openable ext pc t key"
proof -
  have node: "node_at t' q = node_at t q" for q using assms(1) by (simp add: node_at_def)
  then have "node_commitment ext pc t' n q = node_commitment ext pc t n q" for n q
    using assms(2,3) by (intro node_commitment_cong)
  moreover have "node_exists t' q = node_exists t q" for q by (simp add: node_exists_iff node)
  moreover have "root_or_empty ext pc t' d r = root_or_empty ext pc t d r" for d r
    unfolding root_or_empty_def assms(2) ..
  ultimately show ?thesis
    by (simp add: path_openable_def node_coeffs_def on_path_def assms(3) Let_def cong: if_cong)
qed

lemma path_openable_same: "same_but_cache t t' \<Longrightarrow> path_openable ext pc t' key = path_openable ext pc t key"
  by (rule path_openable_stored) (simp_all add: same_but_cacheD)

lemma level_opening_returns:
  assumes "length path < KEY_SIZE" and "cache_ok ext pc t" and "opens_nonzero pc"
    and "from_coefficients_vec pc (node_coeffs ext pc t path) \<noteq> []"
  shows "level_opening ext pc t path (length path) byte \<noteq> None"
proof -
  obtain t1 h where h: "hash_node_value_at_index ext pc t path byte = (t1, h)"
    by (cases "hash_node_value_at_index ext pc t path byte")
  obtain tx rx where rx: "compute_node_root_hash ext pc t (path @ [byte]) (length path + 1) = (tx, rx)"
    by (cases "compute_node_root_hash ext pc t (path @ [byte]) (length path + 1)")
  have t1: "same_but_cache t t1" "cache_ok ext pc t1"
    using compute_node_root_hash_ok [OF assms(2) _ _ rx] h rx assms(1)
    by (auto simp: hash_node_value_at_index_def Let_def)
  let ?n = "KEY_SIZE - Suc (length path)"
  obtain t2 cs where cs: "child_scalars ext pc (compute_node_commitment ext pc ?n) path (length path) t1
      [0..<VERKLE_RADIX] = (t2, cs)" by force
  have n: "length path + Suc ?n = KEY_SIZE" "KEY_SIZE - Suc ?n = length path" using assms(1) by simp_all
  have "cs = node_coeffs ext pc t1 path"
    using child_scalars_ok [OF compute_node_commitment_computes n(1) t1(2), of "[0..<VERKLE_RADIX]" t2 cs] cs
    by (simp add: n(2) node_coeffs_def Let_def)
  then have p: "reconstruct_node_polynomial ext pc t1 path (length path)
      = (t2, from_coefficients_vec pc (node_coeffs ext pc t path))"
    using cs assms(1) by (simp add: reconstruct_node_polynomial_def node_coeffs_same [OF t1(1)])
  have "pc_open pc (from_coefficients_vec pc (node_coeffs ext pc t path)) z v \<noteq> None" for z v
    using assms(3,4) unfolding opens_nonzero_def by blast
  with h p show ?thesis by (auto simp: level_opening_def Let_def split: sum.splits option.splits)
qed

lemma proof_levels_append:
  "proof_levels ext pc depth (bs @ cs) s t =
     (case proof_levels ext pc depth bs s t of
        None \<Rightarrow> None
      | Some (t1, Inl e) \<Rightarrow> Some (t1, Inl e)
      | Some (t1, Inr s1) \<Rightarrow> proof_levels ext pc (depth + length bs) cs s1 t1)"
  by (induction bs arbitrary: depth s t) (auto simp: Let_def split: prod.splits sum.splits option.splits)

lemma proof_level_returns:
  assumes "cache_ok ext pc t" and "state_ok ext pc t key depth s" and "depth < KEY_SIZE" and "pc_laws pc"
    and "length key = KEY_SIZE" and "path_openable ext pc t key" and "opens_nonzero pc"
  shows "proof_levels ext pc depth [b] s t \<noteq> None"
proof (cases "ps_exists s \<and> node_exists t (ps_path s)")
  case True
  then have path: "on_path t key depth" "ps_path s = take depth key" "length (ps_path s) = depth"
    using assms(2,3,5) by (auto simp: state_ok_def)
  obtain t1 r1 where sib: "level_siblings ext pc True (ps_path s) depth t [0..<VERKLE_RADIX] = (t1, r1)" by force
  have t1: "same_but_cache t t1" "cache_ok ext pc t1"
    using level_siblings_ok [OF _ assms(4,1), of "ps_path s" True "[0..<VERKLE_RADIX]" t1 r1] sib path(3) assms(3)
    by simp_all
  have "from_coefficients_vec pc (node_coeffs ext pc t1 (ps_path s)) \<noteq> []"
    using assms(3,6) path(1,2) unfolding path_openable_def node_coeffs_same [OF t1(1)] by simp
  from level_opening_returns [OF _ t1(2) assms(7) this, of b] path(3) assms(3)
  obtain o' where "level_opening ext pc t1 (ps_path s) depth b = Some o'" by auto
  with sib True show ?thesis by (auto simp: Let_def split: sum.splits prod.splits)
qed (auto simp: Let_def split: prod.splits sum.splits)

lemma proof_levels_return:
  assumes "cache_ok ext pc t" and "state_ok ext pc t key 0 s" and "pc_laws pc"
    and "length key = KEY_SIZE" and "path_openable ext pc t key" and "opens_nonzero pc"
  shows "d \<le> KEY_SIZE \<Longrightarrow> proof_levels ext pc 0 (take d key) s t \<noteq> None"
proof (induction d)
  case (Suc d)
  then obtain t1 r1 where run: "proof_levels ext pc 0 (take d key) s t = Some (t1, r1)" by fastforce
  obtain s1 where one: "same_but_cache t t1" "cache_ok ext pc t1" "r1 = Inr s1" "state_ok ext pc t key d s1"
    using proof_levels_ok [OF assms(3,4,1) _ _ assms(2) run] Suc.prems assms(4) by auto
  have "state_ok ext pc t1 key d s1"
    using one(4) by (simp add: state_ok_def levels_ok_def sibling_ok_same [OF one(1)] on_path_same [OF one(1)])
  then have "proof_levels ext pc d [key ! d] s1 t1 \<noteq> None"
    using Suc.prems assms(5) by (intro proof_level_returns [OF one(2) _ _ assms(3,4) _ assms(6)])
      (simp_all add: path_openable_same [OF one(1)])
  moreover have "take (Suc d) key = take d key @ [key ! d]"
    using Suc.prems assms(4) by (simp add: take_Suc_conv_app_nth)
  ultimately show ?case using run one(3) Suc.prems assms(4) by (simp add: proof_levels_append del: not_None_eq)
qed simp

section \<open>Recomputing the root\<close>

text \<open>The root of the subtree on a key's path at depth \<open>d\<close>: of the node there, or of an empty subtree
  when the path has left the tree.\<close>

definition path_root :: "externals \<Rightarrow> pc_ops \<Rightarrow> verkle_tree \<Rightarrow> bytes \<Rightarrow> nat \<Rightarrow> core_error + bytes" where
  "path_root ext pc t key d =
     (if on_path t key d
      then bind_res (node_commitment ext pc t (KEY_SIZE - d) (take d key)) (commitment_root_hash ext pc)
      else Inr (empty_subtree_roots t ! d))"

lemma level_recomputes:
  assumes ok: "tree_ok ext pc t" and key: "length key = KEY_SIZE" and d: "d < KEY_SIZE"
    and sibs: "levels_ok ext pc t key KEY_SIZE (vp_siblings p)" and path: "vp_path p = key"
    and below: "path_root ext pc t key (Suc d) = Inr r'"
  shows "bind_res (commit_coeffs pc msg (level_coeffs pc p d (from_le_bytes_mod_order pc r')))
      (commitment_root_hash ext pc) = Inr r \<longleftrightarrow> path_root ext pc t key d = Inr r"
proof -
  let ?n = "KEY_SIZE - Suc d"
  have n: "KEY_SIZE - d = Suc ?n" "KEY_SIZE - ?n = Suc d" using d by simp_all
  have sib: "sibling_ok ext pc t (on_path t key d) (take d key) i (vp_siblings p ! (d * VERKLE_RADIX + i))"
    if "i < VERKLE_RADIX" for i using sibs d that by (simp add: levels_ok_def)
  have len: "length (take d key) = d" using d key by simp
  have nxt: "take (Suc d) key = take d key @ [key ! d]" using d key by (simp add: take_Suc_conv_app_nth)
  have sc: "empty_subtree_scalars t ! Suc d = from_le_bytes_mod_order pc (empty_subtree_roots t ! Suc d)"
    using tables(1) [OF ok] d by simp
  show ?thesis
  proof (cases "on_path t key d")
    case True
    have "level_coeffs pc p d (from_le_bytes_mod_order pc r')
        = map (\<lambda>i. if node_exists t (take d key @ [of_nat i])
              then from_le_bytes_mod_order pc (root_or_empty ext pc t (KEY_SIZE - ?n)
                     (node_commitment ext pc t ?n (take d key @ [of_nat i])))
              else empty_subtree_scalars t ! (KEY_SIZE - ?n)) [0..<VERKLE_RADIX]"
      unfolding level_coeffs_def
    proof (intro map_cong refl)
      fix i assume i: "i \<in> set [0..<VERKLE_RADIX]"
      show "(if i = unat (vp_path p ! d) then from_le_bytes_mod_order pc r'
          else from_le_bytes_mod_order pc (vp_siblings p ! (d * VERKLE_RADIX + i)))
        = (if node_exists t (take d key @ [of_nat i])
            then from_le_bytes_mod_order pc (root_or_empty ext pc t (KEY_SIZE - ?n)
                   (node_commitment ext pc t ?n (take d key @ [of_nat i])))
            else empty_subtree_scalars t ! (KEY_SIZE - ?n))"
      proof (cases "i = unat (key ! d)")
        case eq: True
        then have "take d key @ [of_nat i] = take (Suc d) key" using nxt by simp
        with eq below True sc n show ?thesis
          by (auto simp: path root_or_empty_def path_root_def on_path_Suc)
      next
        case False
        with sib [of i] i True sc n len show ?thesis
          by (auto simp: path sibling_ok_def root_or_empty_def)
      qed
    qed
    then show ?thesis
      using True unfolding path_root_def n node_commitment.simps
      by (simp add: coeffs_root_iff del: bind_res_eq_Inr)
  next
    case False
    then have "r' = empty_subtree_roots t ! Suc d" using below by (simp add: path_root_def on_path_Suc)
    then have "level_coeffs pc p d (from_le_bytes_mod_order pc r') = map (\<lambda>i. empty_subtree_scalars t ! Suc d) [0..<VERKLE_RADIX]"
      using sib False len by (auto simp: level_coeffs_def sibling_ok_def sc)
    then have "level_coeffs pc p d (from_le_bytes_mod_order pc r') = replicate VERKLE_RADIX (empty_subtree_scalars t ! Suc d)"
      by (simp add: map_replicate_const)
    then show ?thesis
      using tables(2) [OF ok d] False by (auto simp: coeffs_root_iff path_root_def simp del: bind_res_eq_Inr)
  qed
qed

lemma path_root_total:
  assumes "pc_laws pc" and "d \<le> KEY_SIZE"
  shows "\<exists>r. path_root ext pc t key d = Inr r"
proof (cases "KEY_SIZE - d")
  case 0
  then show ?thesis
    unfolding path_root_def 0 node_commitment.simps coeffs_root_iff
    using coeffs_root_total [OF assms(1), of "[leaf_scalar ext pc (get_node_value t (take d key))]" ext]
    by (cases "on_path t key d") (simp_all add: coeffs_root_iff VERKLE_RADIX_def del: bind_res_eq_Inr)
next
  case (Suc n)
  show ?thesis
    unfolding path_root_def Suc node_commitment.simps
    using coeffs_root_total [OF assms(1), of "map f [0..<VERKLE_RADIX]" ext for f]
    by (cases "on_path t key d") (simp_all add: coeffs_root_iff del: bind_res_eq_Inr)
qed

lemma recompute_root_ok:
  assumes "tree_ok ext pc t" and "length key = KEY_SIZE" and "pc_laws pc"
    and "levels_ok ext pc t key KEY_SIZE (vp_siblings p)" and "vp_path p = key"
  shows "d \<le> KEY_SIZE \<Longrightarrow> path_root ext pc t key d = Inr r \<Longrightarrow> path_root ext pc t key 0 = Inr r0 \<Longrightarrow> (d = 0 \<longrightarrow> c = r0) \<Longrightarrow>
    recompute_root ext pc p d (from_le_bytes_mod_order pc r) c = Inr r0"
proof (induction d arbitrary: r c)
  case 0
  then show ?case by simp
next
  case (Suc d)
  have d: "d < KEY_SIZE" using Suc.prems(1) by simp
  obtain r' where r': "path_root ext pc t key d = Inr r'" using path_root_total [OF assms(3), of d] d by force
  have "bind_res (commit_coeffs pc ''Failed to reconstruct commitment: {}'' (level_coeffs pc p d (from_le_bytes_mod_order pc r)))
      (commitment_root_hash ext pc) = Inr r'"
    using level_recomputes [OF assms(1,2) d assms(4,5) Suc.prems(2)] r' by blast
  then obtain k where "commit_coeffs pc ''Failed to reconstruct commitment: {}'' (level_coeffs pc p d (from_le_bytes_mod_order pc r)) = Inr k"
    "commitment_root_hash ext pc k = Inr r'" by auto
  moreover have "recompute_root ext pc p d (from_le_bytes_mod_order pc r') r' = Inr r0"
    using Suc.IH [OF _ r' Suc.prems(3)] d r' Suc.prems(3) by (cases d) auto
  ultimately show ?case by simp
qed

section \<open>Honest proofs\<close>

text \<open>A tree in use: coherent, and its root node is stored.\<close>

definition live_tree :: "externals \<Rightarrow> pc_ops \<Rightarrow> verkle_tree \<Rightarrow> bool" where
  "live_tree ext pc t \<longleftrightarrow> tree_ok ext pc t \<and> node_at t [] \<noteq> None"

lemma root_node_insert: "length key = KEY_SIZE \<Longrightarrow> node_at t [] \<noteq> None \<Longrightarrow> node_at (vt_insert t key v) [] \<noteq> None"
  by (simp add: node_at_vt_insert)

lemma root_node_inserts:
  "\<forall>kv\<in>set ups. length (fst kv) = KEY_SIZE \<Longrightarrow> node_at t [] \<noteq> None \<Longrightarrow>
   node_at (fold (\<lambda>(k, v) t. vt_insert t k v) ups t) [] \<noteq> None"
proof (induction ups arbitrary: t)
  case (Cons kv ups)
  with root_node_insert [of "fst kv" t "snd kv"] show ?case by (simp add: case_prod_beta del: not_None_eq)
qed simp

lemma live_tree_step: "vt_step ext pc t t' \<Longrightarrow> live_tree ext pc t \<Longrightarrow> live_tree ext pc t'"
  unfolding live_tree_def
proof (elim conjE, intro conjI)
  assume step: "vt_step ext pc t t'" and ok: "tree_ok ext pc t" and root: "node_at t [] \<noteq> None"
  show "tree_ok ext pc t'" by (rule tree_ok_step [OF step ok])
  show "node_at t' [] \<noteq> None"
    using step ok root
  proof (induction rule: vt_step.induct)
    case (insert key t v)
    then show ?case using root_node_insert by blast
  next
    case (prune key t)
    moreover have "key \<noteq> []" using prune(1) by (auto simp: KEY_SIZE_def)
    moreover have "node_at (recursive_cleanup_empty_nodes (pruned_leaf t key) key KEY_SIZE) [] = node_at (pruned_leaf t key) []"
      using cleanup_node_at [of "pruned_leaf t key" key KEY_SIZE "[]"] prune(1) by fastforce
    ultimately show ?case
      by (simp add: prune_key_eq node_at_pruned_leaf)
  next
    case (transition ups t amount)
    have "node_at (t\<lparr>dirty := True\<rparr>) [] \<noteq> None" using transition(3) by simp
    from root_node_insert [OF supply_key_length root_node_inserts [OF transition(1) this]] transition(3)
    show ?case by (simp add: apply_state_transition_def Let_def)
  next
    case (root t)
    then have ok: "vt_ok ext pc t" by (simp add: tree_ok_def)
    have "storage (fst (get_root ext pc t)) = storage t"
      using get_root_frame(1) [OF ok] by (metis prod.collapse)
    with root(2) show ?case by (simp add: node_at_def)
  qed
qed

lemma live_tree_reachable:
  assumes "vt_new ext pc st = Inr t0" and "(vt_step ext pc)\<^sup>*\<^sup>* t0 t"
  shows "live_tree ext pc t"
  using assms(2)
proof (induction rule: rtranclp_induct)
  case base
  from assms(1) vt_new_tree_ok [OF assms(1)] show ?case by (auto simp: live_tree_def vt_new_def node_at_ensure)
qed (rule live_tree_step)

lemma live_tree_same:
  assumes "same_but_cache t t'" and "cache_ok ext pc t'" and "live_tree ext pc t"
  shows "live_tree ext pc t'" "root_of ext pc t' = root_of ext pc t"
  using assms same_but_cache_root_of [OF assms(1)]
  by (auto simp: live_tree_def tree_ok_def vt_ok_def same_but_cacheD)

lemma tables_unique: "tree_ok ext pc t \<Longrightarrow> tree_ok ext pc t' \<Longrightarrow> empty_subtree_roots t' = empty_subtree_roots t"
  by (simp add: tree_ok_def)

text \<open>Everything an honest proof states about the tree.\<close>

definition proof_about :: "externals \<Rightarrow> pc_ops \<Rightarrow> verkle_tree \<Rightarrow> bytes \<Rightarrow> verkle_proof \<Rightarrow> bool" where
  "proof_about ext pc t key p \<longleftrightarrow> vp_path p = key \<and> levels_ok ext pc t key KEY_SIZE (vp_siblings p)
     \<and> openings_ok pc (vp_opening_proofs p) \<and> root_of ext pc t = Inr (vp_root p)
     \<and> vp_leaf_value p = (if on_path t key KEY_SIZE then get_node_value t key else None)
     \<and> vp_type p = (if vp_leaf_value p \<noteq> None then Membership else NonMembership)"

lemma generate_proof_about:
  assumes "live_tree ext pc t" and "pc_laws pc" and "length key = KEY_SIZE"
    and "generate_proof_with_witness ext pc t key w = Some (t', r)"
  shows "live_tree ext pc t' \<and> root_of ext pc t' = root_of ext pc t
    \<and> (\<forall>k. path_openable ext pc t' k = path_openable ext pc t k)
    \<and> (\<exists>p. r = Inr p \<and> proof_about ext pc t key p \<and> vp_gas_fee_distribution p = w)"
proof -
  let ?s = "\<lparr>ps_siblings = [], ps_openings = [], ps_path = [], ps_exists = True\<rparr>"
  have init: "state_ok ext pc t key 0 ?s"
    using assms(1) by (simp add: state_ok_def levels_ok_def openings_ok_def on_path_def live_tree_def node_exists_iff)
  obtain t1 r1 where run: "proof_levels ext pc 0 key ?s t = Some (t1, r1)"
    using assms(3,4) by (auto simp: generate_proof_with_witness_def split: option.splits)
  have c: "cache_ok ext pc t" using assms(1) by (simp add: live_tree_def tree_ok_def vt_ok_def)
  obtain s where s: "same_but_cache t t1" "cache_ok ext pc t1" "r1 = Inr s" "state_ok ext pc t key KEY_SIZE s"
    using proof_levels_ok [OF assms(2,3) c _ _ init run] assms(3) by auto
  have live: "live_tree ext pc t1" "root_of ext pc t1 = root_of ext pc t"
    using live_tree_same [OF s(1,2) assms(1)] by simp_all
  obtain t2 rr where g: "get_root ext pc t1 = (t2, rr)" by (cases "get_root ext pc t1")
  have ok1: "vt_ok ext pc t1" using live(1) by (simp add: live_tree_def tree_ok_def)
  have t2: "rr = root_of ext pc t" "root_of ext pc t2 = root_of ext pc t" "live_tree ext pc t2"
    using get_root_ok [OF ok1 g] live live_tree_step [OF vt_step.root live(1)] g by simp_all
  obtain root where root: "root_of ext pc t = Inr root"
    using path_root_total [OF assms(2), of 0 ext t key] assms(1)
    by (auto simp: path_root_def on_path_def live_tree_def node_exists_iff root_of_def)
  have path: "ps_exists s \<Longrightarrow> ps_path s = key" using s(4) assms(3) by (simp add: state_ok_def)
  have "t' = t2 \<and> r = Inr \<lparr>vp_type = (if (if ps_exists s then get_node_value t1 (ps_path s) else None) \<noteq> None
        then Membership else NonMembership), vp_path = key, vp_siblings = ps_siblings s,
      vp_leaf_value = (if ps_exists s then get_node_value t1 (ps_path s) else None), vp_root = root,
      vp_opening_proofs = ps_openings s, vp_gas_fee_distribution = w\<rparr>"
    using assms(3,4) run s(3) g t2(1) root by (simp add: generate_proof_with_witness_def Let_def)
  moreover have "path_openable ext pc t2 k = path_openable ext pc t k" for k
    using path_openable_stored [OF get_root_frame(1-3) [OF ok1 g]] path_openable_same [OF s(1)] by simp
  ultimately show ?thesis using t2 s(4) path root
    by (auto simp: proof_about_def state_ok_def same_but_cacheD(8) [OF s(1)])
qed

lemma proof_about_verifies:
  assumes "live_tree ext pc t" and "tree_ok ext pc self" and "pc_laws pc" and "length key = KEY_SIZE"
    and "proof_about ext pc t key p" and "gas_split_ok (vp_gas_fee_distribution p)"
  shows "verify_proof ext pc self p = Inr True"
proof -
  have ok: "tree_ok ext pc t" using assms(1) by (simp add: live_tree_def)
  note about = assms(5) [unfolded proof_about_def]
  obtain r where r: "path_root ext pc t key KEY_SIZE = Inr r" using path_root_total [OF assms(3)] by blast
  have r0: "path_root ext pc t key 0 = Inr (vp_root p)"
    using about assms(1) by (simp add: path_root_def on_path_def live_tree_def node_exists_iff root_of_def)
  have key: "take KEY_SIZE key = key" using assms(4) by simp
  have leaf: "leaf_root_scalar ext pc self p = Inr (Some (from_le_bytes_mod_order pc r))"
  proof (cases "vp_leaf_value p")
    case (Some v)
    then have "on_path t key KEY_SIZE" "get_node_value t key = Some v" using about by (auto split: if_splits)
    with r key have "coeffs_root ext pc [value_to_scalar ext pc v] = Some r"
      by (simp add: path_root_def coeffs_root_iff leaf_scalar_def del: bind_res_eq_Inr)
    then have "bind_res (commit_coeffs pc ''Failed to commit leaf: {}'' [value_to_scalar ext pc v]) (commitment_root_hash ext pc) = Inr r"
      by (simp add: coeffs_root_iff del: bind_res_eq_Inr)
    moreover have "vp_type p = Membership" using about Some by simp
    ultimately show ?thesis using Some by (auto simp: leaf_root_scalar_def)
  next
    case None
    have "r = empty_subtree_roots t ! KEY_SIZE"
    proof (cases "on_path t key KEY_SIZE")
      case True
      with None about have "get_node_value t key = None" by (simp split: if_splits)
      with True r key have "coeffs_root ext pc [scalar_zero pc] = Some r"
        by (simp add: path_root_def coeffs_root_iff leaf_scalar_def del: bind_res_eq_Inr)
      with coeffs_root_zero [OF assms(3), of ext] tables(3) [OF ok] show ?thesis by simp
    next
      case False
      with r show ?thesis by (simp add: path_root_def)
    qed
    with about None tables_unique [OF ok assms(2)] show ?thesis by (simp add: leaf_root_scalar_def)
  qed
  have "recompute_root ext pc p KEY_SIZE (from_le_bytes_mod_order pc r) (replicate 32 0) = Inr (vp_root p)"
    using about by (intro recompute_root_ok [OF ok assms(4,3) _ _ _ r r0]) (simp_all add: KEY_SIZE_def)
  with leaf about assms(4,6) show ?thesis
    by (auto simp: verify_proof_def levels_ok_def check_openings_ok split: if_splits)
qed

section \<open>Binding\<close>

text \<open>The coefficient vectors a verification commits to, from the leaf (\<open>0\<close>) up to the root.\<close>

definition vector_scalar :: "externals \<Rightarrow> pc_ops \<Rightarrow> scalar list \<Rightarrow> scalar" where
  "vector_scalar ext pc cs =
     (case coeffs_root ext pc cs of Some r \<Rightarrow> from_le_bytes_mod_order pc r | None \<Rightarrow> scalar_zero pc)"

fun proof_vector :: "externals \<Rightarrow> pc_ops \<Rightarrow> verkle_proof \<Rightarrow> nat \<Rightarrow> scalar list" where
  "proof_vector ext pc p 0 =
     (case vp_leaf_value p of Some v \<Rightarrow> [value_to_scalar ext pc v] | None \<Rightarrow> [])"
| "proof_vector ext pc p (Suc n) =
     level_coeffs pc p (KEY_SIZE - Suc n) (vector_scalar ext pc (proof_vector ext pc p n))"

text \<open>No collision between two proofs: vectors at the same height with the same scalar are equal, and
  so are the leaf values with the same scalar.\<close>

definition no_collision :: "externals \<Rightarrow> pc_ops \<Rightarrow> verkle_proof \<Rightarrow> verkle_proof \<Rightarrow> bool" where
  "no_collision ext pc p q \<longleftrightarrow>
     (\<forall>n\<le>KEY_SIZE. vector_scalar ext pc (proof_vector ext pc p n) = vector_scalar ext pc (proof_vector ext pc q n)
        \<longrightarrow> proof_vector ext pc p n = proof_vector ext pc q n)
     \<and> (\<forall>v w. vp_leaf_value p = Some v \<and> vp_leaf_value q = Some w
          \<and> value_to_scalar ext pc v = value_to_scalar ext pc w \<longrightarrow> v = w)"

lemma recompute_root_vectors:
  "d \<le> KEY_SIZE \<Longrightarrow> recompute_root ext pc p d (vector_scalar ext pc (proof_vector ext pc p (KEY_SIZE - d))) c = Inr r \<Longrightarrow>
   0 < d \<Longrightarrow> coeffs_root ext pc (proof_vector ext pc p KEY_SIZE) = Some r"
proof (induction d arbitrary: c)
  case (Suc d)
  have n: "KEY_SIZE - d = Suc (KEY_SIZE - Suc d)" "KEY_SIZE - Suc (KEY_SIZE - Suc d) = d" using Suc.prems(1) by simp_all
  have vec: "proof_vector ext pc p (KEY_SIZE - d)
      = level_coeffs pc p d (vector_scalar ext pc (proof_vector ext pc p (KEY_SIZE - Suc d)))"
    unfolding n(1) proof_vector.simps n(2) ..
  obtain k root where k: "commit_coeffs pc ''Failed to reconstruct commitment: {}'' (proof_vector ext pc p (KEY_SIZE - d)) = Inr k"
    "commitment_root_hash ext pc k = Inr root"
    and rest: "recompute_root ext pc p d (from_le_bytes_mod_order pc root) root = Inr r"
    using Suc.prems(2) unfolding recompute_root.simps vec [symmetric] by auto
  then have cr: "coeffs_root ext pc (proof_vector ext pc p (KEY_SIZE - d)) = Some root"
    by (simp add: coeffs_root_iff [where msg = "''Failed to reconstruct commitment: {}''", symmetric])
  then have vs: "vector_scalar ext pc (proof_vector ext pc p (KEY_SIZE - d)) = from_le_bytes_mod_order pc root"
    by (simp add: vector_scalar_def)
  show ?case
  proof (cases d)
    case 0
    with rest cr show ?thesis by simp
  next
    case Suc
    with Suc.IH [of root] rest vs Suc.prems(1) show ?thesis by simp
  qed
qed simp

lemma verified_root:
  assumes "tree_ok ext pc t" and "verify_proof ext pc t p = Inr True"
  shows "coeffs_root ext pc (proof_vector ext pc p KEY_SIZE) = Some (vp_root p)"
    and "length (vp_path p) = KEY_SIZE"
proof -
  show "length (vp_path p) = KEY_SIZE" using assms(2) by (auto simp: verify_proof_def split: if_splits)
  obtain leaf where leaf: "leaf_root_scalar ext pc t p = Inr (Some leaf)"
    and root: "recompute_root ext pc p KEY_SIZE leaf (replicate 32 0) = Inr (vp_root p)"
    and cons: "(vp_type p = Membership) = (vp_leaf_value p \<noteq> None)"
    using assms(2) by (auto simp: verify_proof_def split: if_splits option.splits)
  have "leaf = vector_scalar ext pc (proof_vector ext pc p 0)"
  proof (cases "vp_leaf_value p")
    case None
    with cons have "vp_type p = NonMembership" by (cases "vp_type p") auto
    with leaf None tables(3) [OF assms(1)] show ?thesis by (simp add: leaf_root_scalar_def vector_scalar_def)
  next
    case (Some v)
    with leaf cons obtain root where "leaf = from_le_bytes_mod_order pc root"
      "bind_res (commit_coeffs pc ''Failed to commit leaf: {}'' [value_to_scalar ext pc v]) (commitment_root_hash ext pc) = Inr root"
      by (auto simp: leaf_root_scalar_def)
    with Some show ?thesis by (simp add: coeffs_root_iff vector_scalar_def del: bind_res_eq_Inr)
  qed
  with root recompute_root_vectors [of KEY_SIZE ext pc p "replicate 32 0" "vp_root p"]
  show "coeffs_root ext pc (proof_vector ext pc p KEY_SIZE) = Some (vp_root p)" by (simp add: KEY_SIZE_def)
qed

lemma level_coeffs_child: "unat (vp_path p ! d) < VERKLE_RADIX \<Longrightarrow> level_coeffs pc p d s ! unat (vp_path p ! d) = s"
  by (simp add: level_coeffs_def)

lemma proofs_bind:
  assumes "tree_ok ext pc t" and "verify_proof ext pc t p = Inr True" and "verify_proof ext pc t q = Inr True"
    and "vp_path p = vp_path q" and "vp_root p = vp_root q" and "no_collision ext pc p q"
  shows "vp_leaf_value p = vp_leaf_value q"
proof -
  let ?P = "proof_vector ext pc p" and ?Q = "proof_vector ext pc q"
  have radix: "unat (b :: u8) < VERKLE_RADIX" for b
    using unsigned_less [where 'a = nat, of b] by (simp add: VERKLE_RADIX_def)
  have "?P (KEY_SIZE - d) = ?Q (KEY_SIZE - d)" if "d \<le> KEY_SIZE" for d
    using that
  proof (induction d)
    case 0
    have "vector_scalar ext pc (?P KEY_SIZE) = vector_scalar ext pc (?Q KEY_SIZE)"
      using verified_root(1) [OF assms(1,2)] verified_root(1) [OF assms(1,3)] assms(5) by (simp add: vector_scalar_def)
    with assms(6) show ?case by (simp add: no_collision_def)
  next
    case (Suc d)
    let ?m = "KEY_SIZE - Suc d"
    have m: "KEY_SIZE - d = Suc ?m" using Suc.prems by simp
    have "level_coeffs pc p (KEY_SIZE - Suc ?m) (vector_scalar ext pc (?P ?m))
        = level_coeffs pc q (KEY_SIZE - Suc ?m) (vector_scalar ext pc (?Q ?m))"
      using Suc unfolding m by simp
    from arg_cong [OF this, where f = "\<lambda>cs. cs ! unat (vp_path p ! (KEY_SIZE - Suc ?m))"]
    have "vector_scalar ext pc (?P ?m) = vector_scalar ext pc (?Q ?m)"
      using level_coeffs_child [OF radix, of pc p "KEY_SIZE - Suc ?m"] level_coeffs_child [OF radix, of pc q "KEY_SIZE - Suc ?m"]
      by (simp add: assms(4))
    with assms(6) show ?case by (simp add: no_collision_def)
  qed
  from this [of KEY_SIZE] have "?P 0 = ?Q 0" by simp
  with assms(6) show ?thesis by (auto simp: no_collision_def split: option.splits)
qed

section \<open>Properties\<close>

lemma generate_proof_returns:
  assumes "live_tree ext pc t" and "pc_laws pc" and "opens_nonzero pc" and "length key = KEY_SIZE"
    and "path_openable ext pc t key"
  shows "\<exists>t' r. generate_proof_with_witness ext pc t key w = Some (t', r)"
proof -
  let ?s = "\<lparr>ps_siblings = [], ps_openings = [], ps_path = [], ps_exists = True\<rparr>"
  have "state_ok ext pc t key 0 ?s"
    using assms(1) by (simp add: state_ok_def levels_ok_def openings_ok_def on_path_def live_tree_def node_exists_iff)
  moreover have "cache_ok ext pc t" using assms(1) by (simp add: live_tree_def tree_ok_def vt_ok_def)
  ultimately have "proof_levels ext pc 0 (take KEY_SIZE key) ?s t \<noteq> None"
    using proof_levels_return [OF _ _ assms(2,4,5,3)] by blast
  then show ?thesis
    by (auto simp: generate_proof_with_witness_def Let_def split: option.splits prod.splits sum.splits)
qed

text \<open>C18: honest proofs are generated and accepted and say what the tree commits to. In every tree
  that can be reached, for every key of 32 bytes on whose path no stored node has the zero
  polynomial (opening that one panics), generating a proof returns a proof, \<open>verify_proof\<close> accepts
  it if the gas witness it was given is split 80 to 20, its root is the root of the tree, and its
  leaf value is the value stored under the key, or nothing when a node of the key's path is
  missing. Of the commitment scheme this uses \<open>pc_laws\<close> and that opening returns for a non-zero
  polynomial, both proved of the repository's scheme.\<close>

theorem generated_proofs_verify:
  assumes "vt_new ext pc st = Inr t0" and "(vt_step ext pc)\<^sup>*\<^sup>* t0 t" and "pc_laws pc" and "opens_nonzero pc"
    and "length key = KEY_SIZE" and "path_openable ext pc t key" and "gas_split_ok w"
  shows "\<exists>t' p. generate_proof_with_witness ext pc t key w = Some (t', Inr p)
    \<and> verify_proof ext pc t' p = Inr True \<and> vp_path p = key
    \<and> root_of ext pc t = Inr (vp_root p) \<and> root_of ext pc t' = root_of ext pc t
    \<and> vp_leaf_value p = (if on_path t key KEY_SIZE then get_node_value t key else None)"
proof -
  have live: "live_tree ext pc t" by (rule live_tree_reachable [OF assms(1,2)])
  obtain t' r where gen: "generate_proof_with_witness ext pc t key w = Some (t', r)"
    using generate_proof_returns [OF live assms(3-6)] by blast
  obtain p where p: "live_tree ext pc t'" "root_of ext pc t' = root_of ext pc t" "r = Inr p"
    "proof_about ext pc t key p" "vp_gas_fee_distribution p = w"
    using generate_proof_about [OF live assms(3,5) gen] by blast
  have "tree_ok ext pc t'" using p(1) by (simp add: live_tree_def)
  with proof_about_verifies [OF live _ assms(3,5) p(4)] p assms(7) gen show ?thesis by (simp add: proof_about_def)
qed

text \<open>C19: accepted proofs are true. If \<open>verify_proof\<close> accepts a proof against the root of a reachable
  tree, and the commitments met on the way do not collide with those of the honest proof for the
  same key, its leaf value is the one the tree commits to, so a membership proof cannot be given
  for an absent value nor a non-membership proof for a present one.\<close>

theorem accepted_proofs_are_true:
  assumes "vt_new ext pc st = Inr t0" and "(vt_step ext pc)\<^sup>*\<^sup>* t0 t" and "pc_laws pc"
    and "generate_proof ext pc t (vp_path p) = Some (t', Inr q)"
    and "verify_proof ext pc t' p = Inr True" and "root_of ext pc t = Inr (vp_root p)"
    and "no_collision ext pc p q"
  shows "vp_leaf_value p = (if on_path t (vp_path p) KEY_SIZE then get_node_value t (vp_path p) else None)"
proof -
  have live: "live_tree ext pc t" by (rule live_tree_reachable [OF assms(1,2)])
  have key: "length (vp_path p) = KEY_SIZE" using assms(5) by (auto simp: verify_proof_def split: if_splits)
  have q: "live_tree ext pc t'" "proof_about ext pc t (vp_path p) q" "vp_gas_fee_distribution q = None"
    using generate_proof_about [OF live assms(3) key] assms(4) by (auto simp: generate_proof_def)
  have ok: "tree_ok ext pc t'" using q(1) by (simp add: live_tree_def)
  have "verify_proof ext pc t' q = Inr True"
    using proof_about_verifies [OF live ok assms(3) key q(2)] q(3) by (simp add: gas_split_ok_def)
  from proofs_bind [OF ok assms(5) this _ _ assms(7)] q(2) assms(6) show ?thesis
    by (simp add: proof_about_def)
qed

lemma generate_entries_verify:
  assumes "pc_laws pc"
  shows "live_tree ext pc t \<Longrightarrow> list_all (\<lambda>k. length k = KEY_SIZE) keys \<Longrightarrow>
    generate_entries ext pc t keys = Some (t', r) \<Longrightarrow> root_of ext pc t = Inr root \<Longrightarrow> tree_ok ext pc self \<Longrightarrow>
    \<exists>ps. r = Inr ps \<and> map vp_path ps = keys \<and> verify_entries ext pc self root ps = Inr True"
proof (induction keys arbitrary: t r)
  case (Cons key keys)
  obtain t1 r1 where one: "generate_proof_with_witness ext pc t key None = Some (t1, r1)"
    using Cons.prems(3) by (auto split: option.splits)
  have key: "length key = KEY_SIZE" using Cons.prems(2) by simp
  obtain p where p: "live_tree ext pc t1" "root_of ext pc t1 = root_of ext pc t" "r1 = Inr p"
    "proof_about ext pc t key p" "vp_gas_fee_distribution p = None"
    using generate_proof_about [OF Cons.prems(1) assms key one] by blast
  obtain r2 where rest: "generate_entries ext pc t1 keys = Some (t', r2)" "r = map_sum id ((#) p) r2"
    using Cons.prems(3) one p(3) by (auto split: option.splits)
  have "verify_proof ext pc self p = Inr True"
    using proof_about_verifies [OF Cons.prems(1,5) assms key p(4)] p(5) by (simp add: gas_split_ok_def)
  with Cons.IH [OF p(1) _ rest(1) _ Cons.prems(5)] Cons.prems p rest(2) show ?case
    by (auto simp: proof_about_def)
qed auto

text \<open>a multi-key proof generated from a reachable tree is accepted and has one entry per key, in
  the order asked for.\<close>

theorem multi_proofs_verify:
  assumes "vt_new ext pc st = Inr t0" and "(vt_step ext pc)\<^sup>*\<^sup>* t0 t" and "pc_laws pc"
    and "list_all (\<lambda>k. length k = KEY_SIZE) keys" and "generate_multi_proof ext pc t keys = Some (t', r)"
    and "tree_ok ext pc self"
  shows "\<exists>p. r = Inr p \<and> map vp_path (entry_proofs p) = keys \<and> verify_multi_proof ext pc self p = Inr True"
proof -
  have live: "live_tree ext pc t" by (rule live_tree_reachable [OF assms(1,2)])
  obtain t1 rr where g: "get_root ext pc t = (t1, rr)" by (cases "get_root ext pc t")
  have "vt_ok ext pc t" using live by (simp add: live_tree_def tree_ok_def)
  from get_root_ok [OF this g] have rr: "rr = root_of ext pc t" "root_of ext pc t1 = root_of ext pc t" by simp_all
  have live1: "live_tree ext pc t1" using live_tree_step [OF vt_step.root live] g by simp
  obtain root where root: "root_of ext pc t = Inr root"
    using path_root_total [OF assms(3), of 0 ext t "[]"] live
    by (auto simp: path_root_def on_path_def live_tree_def node_exists_iff root_of_def)
  obtain r2 where r2: "generate_entries ext pc t1 keys = Some (t', r2)"
    "r = map_sum id (\<lambda>ps. \<lparr>multi_root = root, entry_proofs = ps\<rparr>) r2"
    using assms(5) g rr root by (auto simp: generate_multi_proof_def split: option.splits)
  from generate_entries_verify [OF assms(3) live1 assms(4) r2(1) _ assms(6)] rr root r2(2)
  show ?thesis by (auto simp: verify_multi_proof_def)
qed

text \<open>The openings a proof carries do not matter: a proof that verifies also verifies without
  them.\<close>

lemma openings_are_ignored:
  "verify_proof ext pc t p = Inr True \<Longrightarrow> verify_proof ext pc t (p\<lparr>vp_opening_proofs := []\<rparr>) = Inr True"
proof -
  assume v: "verify_proof ext pc t p = Inr True"
  have lc: "level_coeffs pc (p\<lparr>vp_opening_proofs := []\<rparr>) = level_coeffs pc p"
    by (intro ext) (simp add: level_coeffs_def)
  have "recompute_root ext pc (p\<lparr>vp_opening_proofs := []\<rparr>) d s c = recompute_root ext pc p d s c" for d s c
    by (induction d arbitrary: s c) (simp_all add: lc)
  with v show ?thesis
    by (auto simp: verify_proof_def leaf_root_scalar_def split: if_splits)
qed

section \<open>Witnesses\<close>

lemma pc_laws_levels: "pc_laws pc \<Longrightarrow> \<exists>ls. empty_levels ext pc n = Inr ls"
proof (induction n)
  case 0
  obtain r where "coeffs_root ext pc [] = Some r"
    using coeffs_root_total [OF 0, of "[]" ext] by auto
  then show ?case
    by (auto simp: coeffs_root_iff [where msg = "''Failed to commit empty polynomial: {}''", symmetric])
next
  case (Suc n)
  then obtain ls where ls: "empty_levels ext pc n = Inr ls" by blast
  obtain r where "coeffs_root ext pc (replicate VERKLE_RADIX (snd (hd ls))) = Some r"
    using coeffs_root_total [OF Suc.prems, of "replicate VERKLE_RADIX (snd (hd ls))" ext] by auto
  with ls show ?case
    by (auto simp: coeffs_root_iff [where msg = "''Failed to commit subtree polynomial: {}''", symmetric])
qed

lemma pc_laws_new: "pc_laws pc \<Longrightarrow> \<exists>t. vt_new ext pc st = Inr t"
  using pc_laws_levels [of pc ext KEY_SIZE] by (auto simp: vt_new_def compute_empty_subtree_constants_def)

lemma proof_levels_total:
  assumes "\<And>cs z v. pc_open pc cs z v \<noteq> None"
  shows "proof_levels ext pc depth bs s t \<noteq> None"
proof (induction bs arbitrary: depth s t)
  case (Cons b bs)
  have lo: "level_opening ext pc t path d b \<noteq> None" for t path d
    using assms
    by (auto simp: level_opening_def Let_def split: prod.splits option.splits sum.splits)
      (metis option.distinct(1))
  show ?case
    using Cons.IH lo [of _ "ps_path s" depth]
    by (auto simp: Let_def split: prod.splits sum.splits option.splits) (metis option.distinct(1))
qed simp

lemma generate_proof_total:
  assumes "\<And>cs z v. pc_open pc cs z v \<noteq> None"
  shows "\<exists>t' r. generate_proof_with_witness ext pc t key w = Some (t', r)"
proof -
  have "proof_levels ext pc 0 (take KEY_SIZE key)
      \<lparr>ps_siblings = [], ps_openings = [], ps_path = [], ps_exists = True\<rparr> t \<noteq> None"
    by (rule proof_levels_total [OF assms])
  then show ?thesis
    by (auto simp: generate_proof_with_witness_def Let_def split: option.splits prod.splits sum.splits)
qed

definition demo_pc0 :: pc_ops where
  "demo_pc0 = demo_pc\<lparr>from_coefficients_vec := strip_zeros\<rparr>"

lemma demo_pc0_laws: "pc_laws demo_pc0"
  by (simp add: pc_laws_def demo_pc0_def demo_pc_def commit_coeffs_def strip_zeros_def)

lemma demo_pc0_opens: "pc_open demo_pc0 cs z v \<noteq> None"
  by (simp add: demo_pc0_def demo_pc_def)

abbreviation demo_key :: bytes where
  "demo_key \<equiv> replicate 32 1"

lemma demo_key_length: "length demo_key = KEY_SIZE"
  by (simp add: KEY_SIZE_def)

lemma on_path_insert: "length key = KEY_SIZE \<Longrightarrow> on_path (vt_insert t key v) key KEY_SIZE"
  using take_in_prefixes [of _ key] by (auto simp: on_path_def node_exists_iff node_at_vt_insert)

lemmas demo_on_path = on_path_insert [OF demo_key_length]

lemma demo_proof:
  obtains t0 t' r where "vt_new demo_hash_ext demo_pc0 memory_storage_new = Inr t0"
    "(vt_step demo_hash_ext demo_pc0)\<^sup>*\<^sup>* t0 (vt_insert t0 demo_key [7])"
    "generate_proof_with_witness demo_hash_ext demo_pc0 (vt_insert t0 demo_key [7]) demo_key None = Some (t', r)"
proof -
  obtain t0 where t0: "vt_new demo_hash_ext demo_pc0 memory_storage_new = Inr t0"
    using pc_laws_new [OF demo_pc0_laws] by blast
  moreover have "(vt_step demo_hash_ext demo_pc0)\<^sup>*\<^sup>* t0 (vt_insert t0 demo_key [7])"
    by (intro r_into_rtranclp vt_step.insert demo_key_length)
  moreover obtain t' r where
    "generate_proof_with_witness demo_hash_ext demo_pc0 (vt_insert t0 demo_key [7]) demo_key None = Some (t', r)"
    using generate_proof_total [OF demo_pc0_opens] by blast
  ultimately show ?thesis by (rule that)
qed

lemma demo_value: "get_node_value (vt_insert t demo_key [7]) demo_key = Some [7]"
  by (subst get_node_value_vt_insert) (simp_all only: demo_key_length, simp_all)

text \<open>The repository's scheme over a small field, in which every digest reduces to one.\<close>

abbreviation gf_pc :: "externals \<Rightarrow> pc_ops" where
  "gf_pc ext \<equiv> pc_ops_of ext demo_ark demo_repr
     \<lparr>generators = replicate VERKLE_RADIX 1, random_point = 1\<rparr>"

lemma gf_pc_laws: "pc_laws (gf_pc ext)"
  by (rule pc_ops_of_laws) (simp, simp add: demo_repr_def, metis (full_types) gf2.exhaust zero_gf2_def one_gf2_def)

lemma gf_openable:
  assumes "tree_ok ext (gf_pc ext) t" and "length key = KEY_SIZE"
  shows "path_openable ext (gf_pc ext) t key"
  unfolding path_openable_def
proof (intro allI impI)
  fix d assume d: "d < KEY_SIZE"
  have one: "from_le_bytes_mod_order (gf_pc ext) bs = 1" for bs
    by (simp add: pc_ops_of_def demo_ark_def demo_repr_def)
  then have "empty_subtree_scalars t ! Suc d = 1" using tables(1) [OF assms(1), of "Suc d"] d by simp
  moreover have "KEY_SIZE - (KEY_SIZE - Suc (length (take d key))) = Suc d" using d assms(2) by simp
  ultimately have "node_coeffs ext (gf_pc ext) t (take d key) = replicate VERKLE_RADIX 1"
    unfolding node_coeffs_def Let_def by (simp add: one map_replicate_const cong: if_cong)
  then show "from_coefficients_vec (gf_pc ext) (node_coeffs ext (gf_pc ext) t (take d key)) \<noteq> []"
    by (simp add: pc_ops_of_def demo_repr_def strip_zeros_def VERKLE_RADIX_def)
qed

theorem generated_proofs_verify_witness:
  "\<exists>t0 t' p. generate_proof_with_witness demo_hash_ext (gf_pc demo_hash_ext) (vt_insert t0 demo_key [7]) demo_key None
       = Some (t', Inr p)
     \<and> verify_proof demo_hash_ext (gf_pc demo_hash_ext) t' p = Inr True \<and> vp_leaf_value p = Some [7]"
proof -
  obtain t0 where t0: "vt_new demo_hash_ext (gf_pc demo_hash_ext) memory_storage_new = Inr t0"
    using pc_laws_new [OF gf_pc_laws] by blast
  have run: "(vt_step demo_hash_ext (gf_pc demo_hash_ext))\<^sup>*\<^sup>* t0 (vt_insert t0 demo_key [7])"
    by (intro r_into_rtranclp vt_step.insert demo_key_length)
  have "tree_ok demo_hash_ext (gf_pc demo_hash_ext) (vt_insert t0 demo_key [7])"
    using live_tree_reachable [OF t0 run] by (simp add: live_tree_def)
  note op = gf_openable [OF this demo_key_length]
  have "gas_split_ok None" by (simp add: gas_split_ok_def)
  from generated_proofs_verify [OF t0 run gf_pc_laws pc_ops_of_opens demo_key_length op this]
  show ?thesis by (auto simp: demo_on_path demo_value)
qed

theorem accepted_proofs_are_true_witness:
  "\<exists>t0 t' p. generate_proof demo_hash_ext demo_pc0 (vt_insert t0 demo_key [7]) demo_key = Some (t', Inr p)
     \<and> verify_proof demo_hash_ext demo_pc0 t' p = Inr True \<and> vp_leaf_value p = Some [7]"
proof -
  obtain t0 t' r where d: "vt_new demo_hash_ext demo_pc0 memory_storage_new = Inr t0"
    "(vt_step demo_hash_ext demo_pc0)\<^sup>*\<^sup>* t0 (vt_insert t0 demo_key [7])"
    "generate_proof_with_witness demo_hash_ext demo_pc0 (vt_insert t0 demo_key [7]) demo_key None = Some (t', r)"
    by (rule demo_proof)
  let ?t = "vt_insert t0 demo_key [7]"
  have live: "live_tree demo_hash_ext demo_pc0 ?t" by (rule live_tree_reachable [OF d(1,2)])
  obtain p where p: "live_tree demo_hash_ext demo_pc0 t'" "r = Inr p"
    "proof_about demo_hash_ext demo_pc0 ?t demo_key p" "vp_gas_fee_distribution p = None"
    using generate_proof_about [OF live demo_pc0_laws demo_key_length d(3)] by blast
  have path: "vp_path p = demo_key" and root: "root_of demo_hash_ext demo_pc0 ?t = Inr (vp_root p)"
    using p(3) by (simp_all add: proof_about_def)
  have gen: "generate_proof demo_hash_ext demo_pc0 ?t (vp_path p) = Some (t', Inr p)"
    using d(3) p(2) path by (simp add: generate_proof_def)
  have ver: "verify_proof demo_hash_ext demo_pc0 t' p = Inr True"
    using proof_about_verifies [OF live _ demo_pc0_laws demo_key_length p(3)] p(1,4)
    by (simp add: live_tree_def gas_split_ok_def)
  have "no_collision demo_hash_ext demo_pc0 p p" by (auto simp: no_collision_def)
  then have "vp_leaf_value p = Some [7]"
    using accepted_proofs_are_true [OF d(1,2) demo_pc0_laws gen ver root] path by (simp add: demo_on_path demo_value)
  with gen ver path show ?thesis by metis
qed

theorem multi_proofs_verify_witness:
  "\<exists>t0 r. (\<exists>t'. generate_multi_proof demo_hash_ext demo_pc0 t0 [] = Some (t', r))
     \<and> (\<exists>p. r = Inr p \<and> verify_multi_proof demo_hash_ext demo_pc0 t0 p = Inr True)"
proof -
  obtain t0 where t0: "vt_new demo_hash_ext demo_pc0 memory_storage_new = Inr t0"
    using pc_laws_new [OF demo_pc0_laws] by blast
  obtain t' r where g: "generate_multi_proof demo_hash_ext demo_pc0 t0 [] = Some (t', r)"
    by (cases "get_root demo_hash_ext demo_pc0 t0"; cases "snd (get_root demo_hash_ext demo_pc0 t0)")
      (auto simp: generate_multi_proof_def)
  have "\<exists>p. r = Inr p \<and> map vp_path (entry_proofs p) = [] \<and> verify_multi_proof demo_hash_ext demo_pc0 t0 p = Inr True"
    by (rule multi_proofs_verify [OF t0 _ demo_pc0_laws _ g vt_new_tree_ok [OF t0]]) simp_all
  with g show ?thesis by blast
qed

end
