(* ===== verification/Execution_Witness.thy ===== *)
theory Execution_Witness
  imports State_Manager Verkle_Proofs
begin

text \<open>
  Execution witnesses and their compact encoding: the first part of \<open>core/state_manager.rs\<close>. A cursor
  into a byte slice is the list of bytes that are left. The memory that \<open>Vec::with_capacity\<close> reserves
  for the announced number of entries is not modelled.
\<close>

section \<open>Data\<close>

record execution_witness_entry =
  we_key :: bytes
  we_value :: "bytes option"
  we_proof :: verkle_proof

record execution_witness =
  ew_root :: bytes
  ew_entries :: "execution_witness_entry list"

definition witness_is_valid :: "execution_witness \<Rightarrow> bool" where
  "witness_is_valid self \<longleftrightarrow>
     list_all (\<lambda>entry. vp_root (we_proof entry) = ew_root self \<and> vp_path (we_proof entry) = we_key entry)
       (ew_entries self)"

section \<open>Encoding\<close>

text \<open>\<open>proof_type as u8\<close> is the position of the constructor; \<open>len() as u32\<close> truncates.\<close>

definition proof_type_as_u8 :: "proof_type \<Rightarrow> u8" where
  "proof_type_as_u8 t = (case t of Membership \<Rightarrow> 0 | NonMembership \<Rightarrow> 1)"

definition len_bytes :: "'a list \<Rightarrow> bytes" where
  "len_bytes xs = to_be_bytes 4 (of_nat (length xs) :: u32)"

definition vec_bytes :: "bytes \<Rightarrow> bytes" where
  "vec_bytes v = len_bytes v @ v"

definition option_bytes :: "('a \<Rightarrow> bytes) \<Rightarrow> 'a option \<Rightarrow> bytes" where
  "option_bytes enc v = (case v of None \<Rightarrow> [0] | Some x \<Rightarrow> 1 # enc x)"

definition gas_witness_bytes :: "vt_gas_witness \<Rightarrow> bytes" where
  "gas_witness_bytes w = to_be_bytes 16 (vg_total_gas_fee w) @ to_be_bytes 16 (vg_miner_share w)
     @ to_be_bytes 16 (vg_fullnode_share w)"

definition serialize_entry :: "execution_witness_entry \<Rightarrow> bytes" where
  "serialize_entry entry =
     (let p = we_proof entry in
      we_key entry @ [proof_type_as_u8 (vp_type p)] @ option_bytes vec_bytes (we_value entry)
      @ vec_bytes (vp_path p) @ len_bytes (vp_siblings p) @ concat (vp_siblings p) @ vp_root p
      @ option_bytes vec_bytes (vp_leaf_value p)
      @ option_bytes gas_witness_bytes (vp_gas_fee_distribution p))"

definition serialize_compact :: "execution_witness \<Rightarrow> bytes" where
  "serialize_compact self = ew_root self @ len_bytes (ew_entries self) @ concat (map serialize_entry (ew_entries self))"

section \<open>Decoding\<close>

definition read_bytes :: "nat \<Rightarrow> bytes \<Rightarrow> string + bytes \<times> bytes" where
  "read_bytes n bs =
     (if length bs < n then Inl ''Invalid execution witness data'' else Inr (take n bs, drop n bs))"

definition read_len :: "bytes \<Rightarrow> string + nat \<times> bytes" where
  "read_len bs = bind_res (read_bytes 4 bs) (\<lambda>(b, bs'). Inr (unat (from_be_bytes b :: u32), bs'))"

definition read_vec :: "bytes \<Rightarrow> string + bytes \<times> bytes" where
  "read_vec bs = bind_res (read_len bs) (\<lambda>(n, bs'). read_bytes n bs')"

definition read_u128 :: "bytes \<Rightarrow> u128 \<times> bytes" where
  "read_u128 bs = (from_be_bytes (take 16 bs), drop 16 bs)"

definition read_gas_witness :: "bytes \<Rightarrow> string + vt_gas_witness \<times> bytes" where
  "read_gas_witness bs =
     (if length bs < 48 then Inl ''Invalid execution witness data''
      else
        let (total_gas_fee, bs1) = read_u128 bs; (miner_share', bs2) = read_u128 bs1; (fullnode_share', bs3) = read_u128 bs2
        in Inr (\<lparr>vg_total_gas_fee = total_gas_fee, vg_miner_share = miner_share',
                vg_fullnode_share = fullnode_share'\<rparr>, bs3))"

text \<open>The flag byte, and the value when it is 1.\<close>

definition read_option :: "(bytes \<Rightarrow> string + 'a \<times> bytes) \<Rightarrow> bytes \<Rightarrow> string + 'a option \<times> bytes" where
  "read_option dec bs =
     bind_res (read_bytes 1 bs) (\<lambda>(flag, bs').
       if hd flag = 1 then bind_res (dec bs') (\<lambda>(x, bs''). Inr (Some x, bs'')) else Inr (None, bs'))"

definition read_proof_type :: "u8 \<Rightarrow> string + proof_type" where
  "read_proof_type b =
     (if b = 0 then Inr NonMembership else if b = 1 then Inr Membership else Inl ''Invalid proof type'')"

definition deserialize_entry :: "bytes \<Rightarrow> string + execution_witness_entry \<times> bytes" where
  "deserialize_entry bs =
     (if length bs < 32 + 1 + 1 then Inl ''Invalid execution witness data''
      else
        bind_res (read_proof_type (bs ! 32)) (\<lambda>proof_type.
        bind_res (read_option read_vec (drop 33 bs)) (\<lambda>(value, bs1).
        bind_res (read_vec bs1) (\<lambda>(path, bs2).
        bind_res (read_len bs2) (\<lambda>(sibling_count, bs3).
        bind_res (read_many (read_bytes 32) sibling_count bs3) (\<lambda>(siblings, bs4).
        bind_res (read_bytes 32 bs4) (\<lambda>(proof_root, bs5).
        bind_res (read_option read_vec bs5) (\<lambda>(leaf_value, bs6).
        bind_res (read_option read_gas_witness bs6) (\<lambda>(gas_fee_distribution, bs7).
          Inr (\<lparr>we_key = take 32 bs, we_value = value,
                we_proof = \<lparr>vp_type = proof_type, vp_path = path, vp_siblings = siblings,
                  vp_leaf_value = leaf_value, vp_root = proof_root, vp_opening_proofs = [],
                  vp_gas_fee_distribution = gas_fee_distribution\<rparr>\<rparr>, bs7))))))))))"

definition deserialize_compact :: "bytes \<Rightarrow> string + execution_witness" where
  "deserialize_compact bs =
     (if length bs < 36 then Inl ''Invalid witness serialization''
      else
        let root = take 32 bs; entry_count = unat (from_be_bytes (take 4 (drop 32 bs)) :: u32)
        in bind_res (read_many deserialize_entry entry_count (drop 36 bs)) (\<lambda>(entries, _).
             Inr \<lparr>ew_root = root, ew_entries = entries\<rparr>))"

section \<open>What arrives\<close>

text \<open>What the decoder makes of an encoded entry: the proof type is the other one, and the opening
  proofs are gone.\<close>

definition other_type :: "proof_type \<Rightarrow> proof_type" where
  "other_type t = (case t of Membership \<Rightarrow> NonMembership | NonMembership \<Rightarrow> Membership)"

definition received :: "execution_witness_entry \<Rightarrow> execution_witness_entry" where
  "received entry = \<lparr>we_key = we_key entry, we_value = we_value entry,
     we_proof = \<lparr>vp_type = other_type (vp_type (we_proof entry)), vp_path = vp_path (we_proof entry),
       vp_siblings = vp_siblings (we_proof entry), vp_leaf_value = vp_leaf_value (we_proof entry),
       vp_root = vp_root (we_proof entry), vp_opening_proofs = [],
       vp_gas_fee_distribution = vp_gas_fee_distribution (we_proof entry)\<rparr>\<rparr>"

definition small :: "'a list \<Rightarrow> bool" where
  "small xs \<longleftrightarrow> length xs < 2 ^ 32"

definition entry_wf :: "execution_witness_entry \<Rightarrow> bool" where
  "entry_wf entry \<longleftrightarrow> length (we_key entry) = 32 \<and> pred_option small (we_value entry)
     \<and> small (vp_path (we_proof entry)) \<and> small (vp_siblings (we_proof entry))
     \<and> list_all (\<lambda>s. length s = 32) (vp_siblings (we_proof entry)) \<and> length (vp_root (we_proof entry)) = 32
     \<and> pred_option small (vp_leaf_value (we_proof entry))"

lemma read_bytes_append: "length v = n \<Longrightarrow> read_bytes n (v @ rest) = Inr (v, rest)"
  by (simp add: read_bytes_def)

lemma read_len_append: "small xs \<Longrightarrow> read_len (len_bytes xs @ rest) = Inr (length xs, rest)"
  by (simp add: read_len_def len_bytes_def read_bytes_append small_def unat_of_nat take_bit_nat_eq_self)

lemma read_u128_append: "read_u128 (to_be_bytes 16 n @ rest) = (n, rest)"
  by (simp add: read_u128_def)

interpretation raw: stream_codec "\<lambda>v. v" "read_bytes n" "\<lambda>v. v" "\<lambda>v. length v = n" for n
  by unfold_locales (rule read_bytes_append)

interpretation vec: stream_codec vec_bytes read_vec "\<lambda>v. v" small
  by unfold_locales (simp add: vec_bytes_def read_vec_def read_len_append read_bytes_append)

interpretation gas: stream_codec gas_witness_bytes read_gas_witness "\<lambda>w. w" "\<lambda>_. True"
  by unfold_locales (simp add: gas_witness_bytes_def read_gas_witness_def read_u128_append)

lemma read_option_append:
  assumes "\<And>x. good x \<Longrightarrow> dec (enc x @ rest) = Inr (x, rest)" and "pred_option good v"
  shows "read_option dec (option_bytes enc v @ rest) = Inr (v, rest)"
  using assms by (cases v) (simp_all add: read_option_def option_bytes_def read_bytes_def)

lemmas read_option_vec = read_option_append [where dec = read_vec and enc = vec_bytes and good = small, OF vec.dec_enc]

lemma read_option_gas: "read_option read_gas_witness (option_bytes gas_witness_bytes v @ rest) = Inr (v, rest)"
  by (rule read_option_append [where good = "\<lambda>_. True"]) (simp_all add: gas.dec_enc pred_option_def)

lemma read_other_type: "read_proof_type (proof_type_as_u8 t) = Inr (other_type t)"
  by (cases t) (simp_all add: read_proof_type_def proof_type_as_u8_def other_type_def)

text \<open>An entry is decoded to what it becomes on the way, whatever follows it in the buffer.\<close>

lemma deserialize_entry_append:
  assumes "entry_wf entry"
  shows "deserialize_entry (serialize_entry entry @ rest) = Inr (received entry, rest)"
proof -
  let ?p = "we_proof entry"
  have sibs: "read_many (read_bytes 32) (length (vp_siblings ?p)) (concat (vp_siblings ?p) @ bs) = Inr (vp_siblings ?p, bs)" for bs
    using raw.read_many_enc [of 32 "vp_siblings ?p" bs] assms by (simp add: entry_wf_def)
  define tail where "tail = option_bytes vec_bytes (we_value entry) @ vec_bytes (vp_path ?p)
      @ len_bytes (vp_siblings ?p) @ concat (vp_siblings ?p) @ vp_root ?p
      @ option_bytes vec_bytes (vp_leaf_value ?p) @ option_bytes gas_witness_bytes (vp_gas_fee_distribution ?p) @ rest"
  have enc: "serialize_entry entry @ rest = we_key entry @ proof_type_as_u8 (vp_type ?p) # tail"
    by (simp add: serialize_entry_def tail_def Let_def)
  have key: "length (we_key entry) = 32" using assms by (simp add: entry_wf_def)
  have "0 < length tail" by (simp add: tail_def option_bytes_def split: option.splits)
  then have "\<not> length (we_key entry @ proof_type_as_u8 (vp_type ?p) # tail) < 32 + 1 + 1" by (simp add: key)
  moreover have "(we_key entry @ proof_type_as_u8 (vp_type ?p) # tail) ! 32 = proof_type_as_u8 (vp_type ?p)"
    "drop 33 (we_key entry @ proof_type_as_u8 (vp_type ?p) # tail) = tail"
    "take 32 (we_key entry @ proof_type_as_u8 (vp_type ?p) # tail) = we_key entry"
    by (simp_all add: key nth_append)
  ultimately show ?thesis
    using assms unfolding enc deserialize_entry_def
    by (simp add: tail_def entry_wf_def read_other_type read_option_vec read_option_gas vec.dec_enc read_len_append
        sibs read_bytes_append received_def)
qed

interpretation entry: stream_codec serialize_entry deserialize_entry received entry_wf
  by unfold_locales (rule deserialize_entry_append)

text \<open>Entries made from generated proofs are well formed.\<close>

lemma root_hash_length:
  assumes "digest32 ext" and "commitment_root_hash ext pc c = Inr r"
  shows "length r = 32"
  using assms by (auto simp: commitment_root_hash_def digest32_def split: sum.splits)

lemma coeffs_root_length: "digest32 ext \<Longrightarrow> coeffs_root ext pc cs = Some r \<Longrightarrow> length r = 32"
  by (auto simp: coeffs_root_def root_hash_length split: sum.splits)

lemma empty_root_length:
  assumes "digest32 ext" and "tree_ok ext pc t" and "d \<le> KEY_SIZE"
  shows "length (empty_subtree_roots t ! d) = 32"
  using assms coeffs_root_length [OF assms(1) tables(2) [OF assms(2)]] coeffs_root_length [OF assms(1) tables(3) [OF assms(2)]]
  by (cases "d = KEY_SIZE") auto

lemma generated_entry_wf:
  assumes "digest32 ext" and "live_tree ext pc t" and "length key = KEY_SIZE" and "pred_option small value"
    and "proof_about ext pc t key p" and "pred_option small (vp_leaf_value p)"
  shows "entry_wf \<lparr>we_key = key, we_value = value, we_proof = p\<rparr>"
proof -
  have ok: "tree_ok ext pc t" using assms(2) by (simp add: live_tree_def)
  have lv: "levels_ok ext pc t key KEY_SIZE (vp_siblings p)" and pa: "vp_path p = key" "root_of ext pc t = Inr (vp_root p)"
    using assms(5) by (simp_all add: proof_about_def)
  have "length (vp_siblings p ! j) = 32" if "j < KEY_SIZE * VERKLE_RADIX" for j
  proof -
    have "j div VERKLE_RADIX < KEY_SIZE" "j mod VERKLE_RADIX < VERKLE_RADIX"
      using that by (simp_all add: less_mult_imp_div_less VERKLE_RADIX_def)
    then have "sibling_ok ext pc t (on_path t key (j div VERKLE_RADIX)) (take (j div VERKLE_RADIX) key)
        (j mod VERKLE_RADIX) (vp_siblings p ! j)" and "j div VERKLE_RADIX < KEY_SIZE"
      using lv unfolding levels_ok_def by (metis div_mult_mod_eq)+
    then show ?thesis
      using empty_root_length [OF assms(1) ok, of "Suc (j div VERKLE_RADIX)"] assms(1,3)
      by (auto simp: sibling_ok_def root_hash_length split: if_splits)
  qed
  then have "list_all (\<lambda>s. length s = 32) (vp_siblings p)" "length (vp_siblings p) = KEY_SIZE * VERKLE_RADIX"
    using lv by (simp_all add: levels_ok_def list_all_length)
  moreover have "length (vp_root p) = 32" using pa(2) assms(1) by (auto simp: root_of_def root_hash_length)
  ultimately show ?thesis
    using assms(3,4,6) pa(1) by (simp add: entry_wf_def small_def KEY_SIZE_def VERKLE_RADIX_def)
qed

section \<open>Properties\<close>

lemma decode_encoded:
  assumes "length (ew_root w) = 32" and "small (ew_entries w)" and "list_all entry_wf (ew_entries w)"
  shows "deserialize_compact (serialize_compact w @ rest)
    = Inr \<lparr>ew_root = ew_root w, ew_entries = map received (ew_entries w)\<rparr>"
proof -
  have "length (len_bytes (ew_entries w)) = 4" by (simp add: len_bytes_def)
  moreover have "unat (from_be_bytes (len_bytes (ew_entries w)) :: u32) = length (ew_entries w)"
    using assms(2) by (simp add: len_bytes_def small_def unat_of_nat take_bit_nat_eq_self)
  ultimately show ?thesis
    using assms(1) entry.read_many_enc [OF assms(3)] by (simp add: deserialize_compact_def serialize_compact_def)
qed

text \<open>C22: the decoder returns on every encoded witness, ignores what follows it, and gives back the
  root, the keys, the values and the proofs in order, except that each proof comes back with the
  other proof type and without its opening proofs.\<close>

theorem witness_roundtrip:
  assumes "length (ew_root w) = 32" and "small (ew_entries w)" and "list_all entry_wf (ew_entries w)"
  shows "deserialize_compact (serialize_compact w @ rest)
    = Inr \<lparr>ew_root = ew_root w, ew_entries = map received (ew_entries w)\<rparr>"
  by (rule decode_encoded [OF assms])

text \<open>no honest proof survives the trip. Every proof that a tree accepts is refused by every tree
  once it has been encoded and decoded, since a membership proof arrives as a proof of absence
  that carries a value, and a proof of absence as a membership proof without one.\<close>

theorem received_proofs_are_refused:
  assumes "length (ew_root w) = 32" and "small (ew_entries w)" and "list_all entry_wf (ew_entries w)"
    and "list_all (\<lambda>entry. verify_proof ext pc self (we_proof entry) = Inr True) (ew_entries w)"
    and "deserialize_compact (serialize_compact w) = Inr w'"
  shows "length (ew_entries w') = length (ew_entries w) \<and> witness_is_valid w' = witness_is_valid w
    \<and> list_all (\<lambda>entry. verify_proof ext' pc' self' (we_proof entry) = Inr False) (ew_entries w')"
proof -
  have w': "w' = \<lparr>ew_root = ew_root w, ew_entries = map received (ew_entries w)\<rparr>"
    using decode_encoded [OF assms(1-3), of "[]"] assms(5) by simp
  have "verify_proof ext' pc' self' (we_proof (received entry)) = Inr False"
    if "verify_proof ext pc self (we_proof entry) = Inr True" for entry
  proof -
    have "(vp_type (we_proof entry) = Membership) \<noteq> (vp_leaf_value (we_proof entry) = None)"
      using that by (auto simp: verify_proof_def split: if_splits)
    then show ?thesis
      by (cases "vp_type (we_proof entry)") (simp_all add: verify_proof_def received_def other_type_def)
  qed
  with assms(4) show ?thesis by (auto simp: w' list_all_iff witness_is_valid_def received_def)
qed

section \<open>Witnesses\<close>

definition demo_witness :: execution_witness where
  "demo_witness = \<lparr>ew_root = replicate 32 3, ew_entries = [\<lparr>we_key = replicate 32 1, we_value = Some [7],
     we_proof = \<lparr>vp_type = Membership, vp_path = replicate 32 1, vp_siblings = [replicate 32 4], vp_leaf_value = Some [7],
       vp_root = replicate 32 3, vp_opening_proofs = [], vp_gas_fee_distribution = None\<rparr>\<rparr>]\<rparr>"

theorem witness_roundtrip_witness:
  "\<exists>w. deserialize_compact (serialize_compact demo_witness @ [9]) = Inr w
     \<and> map (\<lambda>e. vp_type (we_proof e)) (ew_entries w) = [NonMembership]"
  by (subst witness_roundtrip) (simp_all add: demo_witness_def small_def entry_wf_def received_def other_type_def)

theorem received_proofs_are_refused_witness:
  "\<exists>w w' t. deserialize_compact (serialize_compact w) = Inr w' \<and> length (ew_entries w') = 1
     \<and> list_all (\<lambda>e. verify_proof demo_hash_ext demo_pc0 t (we_proof e) = Inr False) (ew_entries w')"
proof -
  obtain t0 t' r where d: "vt_new demo_hash_ext demo_pc0 memory_storage_new = Inr t0"
    "(vt_step demo_hash_ext demo_pc0)\<^sup>*\<^sup>* t0 (vt_insert t0 demo_key [7])"
    "generate_proof_with_witness demo_hash_ext demo_pc0 (vt_insert t0 demo_key [7]) demo_key None = Some (t', r)"
    by (rule demo_proof)
  let ?t = "vt_insert t0 demo_key [7]"
  have live: "live_tree demo_hash_ext demo_pc0 ?t" by (rule live_tree_reachable [OF d(1,2)])
  obtain p where p: "live_tree demo_hash_ext demo_pc0 t'" "r = Inr p"
    "proof_about demo_hash_ext demo_pc0 ?t demo_key p" "vp_gas_fee_distribution p = None"
    using generate_proof_about [OF live demo_pc0_laws demo_key_length d(3)] by blast
  have ver: "verify_proof demo_hash_ext demo_pc0 t' p = Inr True"
    using proof_about_verifies [OF live _ demo_pc0_laws demo_key_length p(3)] p(1,4)
    by (simp add: live_tree_def gas_split_ok_def)
  define e where "e = \<lparr>we_key = demo_key, we_value = Some [7], we_proof = p\<rparr>"
  define w where "w = \<lparr>ew_root = replicate 32 0, ew_entries = [e]\<rparr>"
  have "vp_leaf_value p = Some [7]" using p(3) by (simp add: proof_about_def demo_on_path demo_value)
  then have "entry_wf e" unfolding e_def
    by (intro generated_entry_wf [OF demo_hash_digest32 live demo_key_length _ p(3)]) (simp_all add: small_def)
  then have wf: "length (ew_root w) = 32" "small (ew_entries w)" "list_all entry_wf (ew_entries w)"
    by (simp_all add: w_def small_def)
  have acc: "list_all (\<lambda>x. verify_proof demo_hash_ext demo_pc0 t' (we_proof x) = Inr True) (ew_entries w)"
    using ver by (simp add: w_def e_def)
  obtain w' where w': "deserialize_compact (serialize_compact w) = Inr w'"
    using decode_encoded [OF wf, of "[]"] by simp
  have "length (ew_entries w) = 1" by (simp add: w_def)
  with received_proofs_are_refused [OF wf acc w', of demo_hash_ext demo_pc0 t'] w' show ?thesis by metis
qed

end
