(* ===== verification/Mempool.thy ===== *)
theory Mempool
  imports Chain_Reorg Verkle_Proofs
begin

text \<open>
  The transaction pool of the core: \<open>core/mempool.rs\<close>, and \<open>notify_mempool_update\<close> of
  \<open>core/state_manager.rs\<close>. The serialized size of a transaction (\<open>bincode\<close>), the clock and the
  iteration order of the hash map are arguments. The lock around the pool's state is not modelled:
  each operation holds it from start to end.
\<close>

section \<open>Data\<close>

definition DEFAULT_MAX_MEMPOOL_BYTES :: nat where
  "DEFAULT_MAX_MEMPOOL_BYTES = 100 * 1024 * 1024"

definition DEFAULT_MAX_MEMPOOL_TXS :: nat where
  "DEFAULT_MAX_MEMPOOL_TXS = 50000"

definition DEFAULT_MIN_FEE_PER_BYTE :: u128 where
  "DEFAULT_MIN_FEE_PER_BYTE = 1"

definition DEFAULT_TX_TTL_SECONDS :: u64 where
  "DEFAULT_TX_TTL_SECONDS = 60 * 60 * 24"

definition MAX_TX_SIZE_BYTES :: nat where
  "MAX_TX_SIZE_BYTES = 1024 * 1024"

datatype mempool_error =
    DuplicateTransaction
  | OversizedTransaction nat nat
  | FeeTooLow u128 u128
  | MempoolInvalidSignature string
  | PoolFull
  | TransactionNotFound
  | ExpiredTransaction

record pending_transaction =
  pending_tx :: transaction
  inserted_at :: u64
  size_bytes :: nat
  fee_per_byte :: u128

datatype priority_key = PriorityKey (pk_fee: u128) (pk_inserted_at: u64) (pk_tx_id: hash)

text \<open>\<open>Ord for PriorityKey\<close>: higher fee first, then earlier arrival, then smaller id.\<close>

definition priority_key_le :: "priority_key \<Rightarrow> priority_key \<Rightarrow> bool" where
  "priority_key_le a b \<longleftrightarrow>
     pk_fee b < pk_fee a \<or> (pk_fee a = pk_fee b \<and>
       (pk_inserted_at a < pk_inserted_at b \<or> (pk_inserted_at a = pk_inserted_at b \<and> pk_tx_id a \<le> pk_tx_id b)))"

instantiation priority_key :: linorder
begin

definition less_eq_priority_key :: "priority_key \<Rightarrow> priority_key \<Rightarrow> bool" where
  "less_eq_priority_key a b \<longleftrightarrow> priority_key_le a b"

definition less_priority_key :: "priority_key \<Rightarrow> priority_key \<Rightarrow> bool" where
  "less_priority_key a b \<longleftrightarrow> a \<le> b \<and> \<not> b \<le> (a :: priority_key)"

instance
  by standard (auto simp: less_eq_priority_key_def priority_key_le_def less_priority_key_def priority_key.expand)

end

text \<open>The \<open>BTreeSet\<close> is a finite set that iterates in the order of its elements.\<close>

record mempool_inner =
  mp_transactions :: "(hash, pending_transaction) fmap"
  priority_index :: "priority_key fset"
  mp_total_bytes :: nat

definition mempool_inner_new :: mempool_inner where
  "mempool_inner_new = \<lparr>mp_transactions = fmempty, priority_index = {||}, mp_total_bytes = 0\<rparr>"

record mempool =
  inner :: mempool_inner
  max_bytes :: nat
  max_transactions :: nat
  min_fee_per_byte :: u128
  ttl_seconds :: u64

definition with_limits :: "nat \<Rightarrow> nat \<Rightarrow> u128 \<Rightarrow> u64 \<Rightarrow> mempool" where
  "with_limits bytes_limit txs_limit fee_limit ttl =
     \<lparr>inner = mempool_inner_new, max_bytes = bytes_limit, max_transactions = txs_limit,
      min_fee_per_byte = fee_limit, ttl_seconds = ttl\<rparr>"

definition mempool_new :: mempool where
  "mempool_new = with_limits DEFAULT_MAX_MEMPOOL_BYTES DEFAULT_MAX_MEMPOOL_TXS
     DEFAULT_MIN_FEE_PER_BYTE DEFAULT_TX_TTL_SECONDS"

section \<open>Fees\<close>

type_synonym tx_size = "transaction \<Rightarrow> nat option"

definition calculate_tx_size_bytes :: "tx_size \<Rightarrow> transaction \<Rightarrow> nat" where
  "calculate_tx_size_bytes serialized_size tx = (case serialized_size tx of Some n \<Rightarrow> n | None \<Rightarrow> 0)"

definition calculate_fee_per_byte :: "transaction \<Rightarrow> nat \<Rightarrow> u128" where
  "calculate_fee_per_byte tx n =
     (if n = 0 then 0
      else
        let base_fee = saturating_mul (max_fee_per_gas tx) (ucast (gas_limit tx) + 1);
            density = base_fee div of_nat n
        in max density (max_fee_per_gas tx))"

section \<open>Validation\<close>

definition check_pool_signature :: "externals \<Rightarrow> transaction \<Rightarrow> nat \<Rightarrow> tx_input \<Rightarrow> mempool_error + unit" where
  "check_pool_signature ext tx input_index i =
     (if length (signature i) \<noteq> 64 then Inl (MempoolInvalidSignature ''signature must be 64 bytes'')
      else if length (pubkey i) \<noteq> 32 \<and> length (pubkey i) \<noteq> 33
      then Inl (MempoolInvalidSignature ''public key must be 32 or 33 bytes'')
      else bind_res (map_err (\<lambda>_. MempoolInvalidSignature ''{}'')
             (compute_sighash ext tx input_index (sighash_type i))) (\<lambda>sighash.
        bind_res (ok_or (MempoolInvalidSignature ''{}'') (vk_from_bytes ext (take 32 (pubkey i)))) (\<lambda>vk.
          bind_res (ok_or (MempoolInvalidSignature ''{}'') (sig_try_from ext (take 64 (signature i)))) (\<lambda>sig'.
            if \<not> schnorr_verify ext vk sighash sig'
            then Inl (MempoolInvalidSignature ''input {} signature verification failed'')
            else Inr ()))))"

fun check_pool_signatures ::
    "externals \<Rightarrow> transaction \<Rightarrow> nat \<Rightarrow> tx_input list \<Rightarrow> mempool_error + unit" where
  "check_pool_signatures ext tx n [] = Inr ()"
| "check_pool_signatures ext tx n (i # ins) =
     bind_res (check_pool_signature ext tx n i) (\<lambda>_. check_pool_signatures ext tx (Suc n) ins)"

definition validate_transaction_stateless ::
    "externals \<Rightarrow> tx_size \<Rightarrow> mempool \<Rightarrow> transaction \<Rightarrow> mempool_error + unit" where
  "validate_transaction_stateless ext serialized_size self tx =
     (let n = calculate_tx_size_bytes serialized_size tx in
      if MAX_TX_SIZE_BYTES < n then Inl (OversizedTransaction n MAX_TX_SIZE_BYTES)
      else
        let fee = calculate_fee_per_byte tx n in
        if fee < min_fee_per_byte self then Inl (FeeTooLow fee (min_fee_per_byte self))
        else check_pool_signatures ext tx 0 (inputs tx))"

text \<open>The loop over the inputs; it generates a proof for each, which may fill the tree's caches.
  \<open>None\<close> is a panic of the proof generation.\<close>

fun sum_pool_inputs ::
    "externals \<Rightarrow> pc_ops \<Rightarrow> utxo_set \<Rightarrow> state_manager \<Rightarrow> u128 \<Rightarrow> tx_input list
      \<Rightarrow> (state_manager \<times> (mempool_error + u128)) option" where
  "sum_pool_inputs ext pc u sm acc [] = Some (sm, Inr acc)"
| "sum_pool_inputs ext pc u sm acc (i # ins) =
     (case fmlookup (utxos u) (outpoint_of i) of
        None \<Rightarrow> Some (sm, Inl (MempoolInvalidSignature ''Input UTXO not found or already spent''))
      | Some out \<Rightarrow>
          (case fmlookup (outpoint_to_key sm) (outpoint_of i) of
             None \<Rightarrow> Some (sm, Inl (MempoolInvalidSignature ''UTXO key mapping not found''))
           | Some key \<Rightarrow>
               (case generate_proof ext pc (sm_tree sm) key of
                  None \<Rightarrow> None
                | Some (t, Inl _) \<Rightarrow>
                    Some (sm\<lparr>sm_tree := t\<rparr>, Inl (MempoolInvalidSignature ''Failed to generate Verkle proof: {}''))
                | Some (t, Inr p) \<Rightarrow>
                    (case verify_proof ext pc t p of
                       Inl _ \<Rightarrow>
                         Some (sm\<lparr>sm_tree := t\<rparr>, Inl (MempoolInvalidSignature ''Verkle proof verification failed: {}''))
                     | Inr False \<Rightarrow>
                         Some (sm\<lparr>sm_tree := t\<rparr>, Inl (MempoolInvalidSignature ''UTXO Verkle proof verification failed''))
                     | Inr True \<Rightarrow>
                         (case checked_add acc (ucast (out_value out)) of
                            None \<Rightarrow> Some (sm\<lparr>sm_tree := t\<rparr>, Inl (MempoolInvalidSignature ''Input value overflow''))
                          | Some acc' \<Rightarrow> sum_pool_inputs ext pc u (sm\<lparr>sm_tree := t\<rparr>) acc' ins)))))"

fun sum_pool_outputs :: "u128 \<Rightarrow> tx_output list \<Rightarrow> mempool_error + u128" where
  "sum_pool_outputs acc [] = Inr acc"
| "sum_pool_outputs acc (out # outs) =
     (case checked_add acc (ucast (out_value out)) of
        None \<Rightarrow> Inl (MempoolInvalidSignature ''Output value overflow'')
      | Some acc' \<Rightarrow> sum_pool_outputs acc' outs)"

definition check_pool_fee :: "state_manager \<Rightarrow> transaction \<Rightarrow> u128 \<Rightarrow> u128 \<Rightarrow> mempool_error + unit" where
  "check_pool_fee sm tx total_input total_output =
     (case checked_sub total_input total_output of
        None \<Rightarrow> Inl (MempoolInvalidSignature ''Insufficient input value for outputs'')
      | Some fee \<Rightarrow>
          (let gas_fee = saturating_mul (max_fee_per_gas tx) (ucast (gas_limit tx)) in
           if fee < gas_fee then Inl (FeeTooLow fee gas_fee)
           else if current_total_supply sm < total_output
           then Inl (MempoolInvalidSignature ''Transaction would exceed total supply'')
           else Inr ()))"

definition validate_transaction_stateful ::
    "externals \<Rightarrow> pc_ops \<Rightarrow> tx_size \<Rightarrow> mempool \<Rightarrow> transaction \<Rightarrow> state_manager \<Rightarrow> utxo_set
      \<Rightarrow> (state_manager \<times> (mempool_error + unit)) option" where
  "validate_transaction_stateful ext pc serialized_size self tx sm u =
     (case validate_transaction_stateless ext serialized_size self tx of
        Inl e \<Rightarrow> Some (sm, Inl e)
      | Inr _ \<Rightarrow>
          (case sum_pool_inputs ext pc u sm 0 (inputs tx) of
             None \<Rightarrow> None
           | Some (sm', Inl e) \<Rightarrow> Some (sm', Inl e)
           | Some (sm', Inr total_input) \<Rightarrow>
               Some (sm', bind_res (sum_pool_outputs 0 (outputs tx)) (check_pool_fee sm' tx total_input))))"

section \<open>The pool\<close>

definition key_of :: "hash \<Rightarrow> pending_transaction \<Rightarrow> priority_key" where
  "key_of h p = PriorityKey (fee_per_byte p) (inserted_at p) h"

text \<open>Removing one transaction, as every removal does; returns whether it was there.\<close>

definition remove_pending :: "hash \<Rightarrow> mempool_inner \<Rightarrow> mempool_inner \<times> bool" where
  "remove_pending h s =
     (case fmlookup (mp_transactions s) h of
        None \<Rightarrow> (s, False)
      | Some p \<Rightarrow>
          (s\<lparr>mp_transactions := fmdrop h (mp_transactions s),
             mp_total_bytes := mp_total_bytes s - size_bytes p,
             priority_index := priority_index s |-| {|key_of h p|}\<rparr>, True))"

fun remove_each :: "hash list \<Rightarrow> mempool_inner \<Rightarrow> mempool_inner \<times> nat" where
  "remove_each [] s = (s, 0)"
| "remove_each (h # hs) s =
     (case remove_pending h s of
        (s', found) \<Rightarrow>
          (case remove_each hs s' of (s'', n) \<Rightarrow> (s'', if found then Suc n else n)))"

definition lowest_priority :: "mempool_inner \<Rightarrow> priority_key option" where
  "lowest_priority s = (if priority_index s = {||} then None else Some (fMax (priority_index s)))"

definition should_accept_new_transaction :: "mempool \<Rightarrow> mempool_inner \<Rightarrow> u128 \<Rightarrow> bool" where
  "should_accept_new_transaction self s fee =
     (if fcard (fmdom (mp_transactions s)) < max_transactions self \<and> mp_total_bytes s < max_bytes self
      then True
      else case lowest_priority s of Some lowest \<Rightarrow> pk_fee lowest < fee | None \<Rightarrow> True)"

definition evict_lowest_priority :: "mempool_inner \<Rightarrow> mempool_inner" where
  "evict_lowest_priority s =
     (case lowest_priority s of
        None \<Rightarrow> s
      | Some lowest \<Rightarrow>
          (let s1 = s\<lparr>priority_index := priority_index s |-| {|lowest|}\<rparr> in
           case fmlookup (mp_transactions s1) (pk_tx_id lowest) of
             None \<Rightarrow> s1
           | Some p \<Rightarrow>
               s1\<lparr>mp_transactions := fmdrop (pk_tx_id lowest) (mp_transactions s1),
                  mp_total_bytes := mp_total_bytes s1 - size_bytes p\<rparr>))"

definition add_pending :: "transaction \<Rightarrow> u64 \<Rightarrow> nat \<Rightarrow> u128 \<Rightarrow> mempool_inner \<Rightarrow> mempool_inner" where
  "add_pending tx now n fee s =
     (let pending = \<lparr>pending_tx = tx, inserted_at = now, size_bytes = n, fee_per_byte = fee\<rparr> in
      s\<lparr>mp_total_bytes := mp_total_bytes s + n,
        priority_index := finsert (PriorityKey fee now (tx_id tx)) (priority_index s),
        mp_transactions := fmupd (tx_id tx) pending (mp_transactions s)\<rparr>)"

definition insert_transaction ::
    "externals \<Rightarrow> pc_ops \<Rightarrow> tx_size \<Rightarrow> u64 \<Rightarrow> mempool \<Rightarrow> transaction \<Rightarrow> state_manager \<Rightarrow> utxo_set
      \<Rightarrow> (mempool \<times> state_manager \<times> (mempool_error + unit)) option" where
  "insert_transaction ext pc serialized_size now self tx sm u =
     (let n = calculate_tx_size_bytes serialized_size tx;
          fee = calculate_fee_per_byte tx n
      in case validate_transaction_stateful ext pc serialized_size self tx sm u of
           None \<Rightarrow> None
         | Some (sm', Inl e) \<Rightarrow> Some (self, sm', Inl e)
         | Some (sm', Inr _) \<Rightarrow>
             (let s = inner self in
              if tx_id tx |\<in>| fmdom (mp_transactions s) then Some (self, sm', Inl DuplicateTransaction)
              else if max_bytes self < mp_total_bytes s + n
                      \<or> max_transactions self < fcard (fmdom (mp_transactions s)) + 1
              then
                if \<not> should_accept_new_transaction self s fee then Some (self, sm', Inl PoolFull)
                else Some (self\<lparr>inner := add_pending tx now n fee (evict_lowest_priority s)\<rparr>, sm', Inr ())
              else Some (self\<lparr>inner := add_pending tx now n fee s\<rparr>, sm', Inr ())))"

text \<open>\<open>iter\<close> is the iteration order of the map of transactions.\<close>

fun invalid_pending ::
    "externals \<Rightarrow> pc_ops \<Rightarrow> tx_size \<Rightarrow> mempool \<Rightarrow> utxo_set \<Rightarrow> state_manager
      \<Rightarrow> (hash \<times> pending_transaction) list \<Rightarrow> (state_manager \<times> hash list) option" where
  "invalid_pending ext pc serialized_size self u sm [] = Some (sm, [])"
| "invalid_pending ext pc serialized_size self u sm ((h, p) # ps) =
     (case validate_transaction_stateful ext pc serialized_size self (pending_tx p) sm u of
        None \<Rightarrow> None
      | Some (sm', r) \<Rightarrow>
          (case invalid_pending ext pc serialized_size self u sm' ps of
             None \<Rightarrow> None
           | Some (sm'', hs) \<Rightarrow> Some (sm'', if is_ok r then hs else h # hs)))"

definition revalidate_pending_transactions ::
    "externals \<Rightarrow> pc_ops \<Rightarrow> tx_size \<Rightarrow> ((hash, pending_transaction) fmap \<Rightarrow> (hash \<times> pending_transaction) list)
      \<Rightarrow> mempool \<Rightarrow> state_manager \<Rightarrow> utxo_set \<Rightarrow> (mempool \<times> state_manager \<times> nat) option" where
  "revalidate_pending_transactions ext pc serialized_size iter self sm u =
     (case invalid_pending ext pc serialized_size self u sm (iter (mp_transactions (inner self))) of
        None \<Rightarrow> None
      | Some (sm', to_remove) \<Rightarrow>
          (case remove_each to_remove (inner self) of (s, n) \<Rightarrow> Some (self\<lparr>inner := s\<rparr>, sm', n)))"

definition notify_mempool_update ::
    "externals \<Rightarrow> pc_ops \<Rightarrow> tx_size \<Rightarrow> ((hash, pending_transaction) fmap \<Rightarrow> (hash \<times> pending_transaction) list)
      \<Rightarrow> state_manager \<Rightarrow> mempool \<Rightarrow> utxo_set \<Rightarrow> (mempool \<times> state_manager \<times> nat) option" where
  "notify_mempool_update ext pc serialized_size iter sm self u =
     revalidate_pending_transactions ext pc serialized_size iter self sm u"

definition get_top_transactions :: "mempool \<Rightarrow> nat \<Rightarrow> transaction list" where
  "get_top_transactions self limit =
     map pending_tx (List.map_filter (\<lambda>key. fmlookup (mp_transactions (inner self)) (pk_tx_id key))
       (take limit (sorted_list_of_fset (priority_index (inner self)))))"

definition remove_transactions :: "mempool \<Rightarrow> hash list \<Rightarrow> mempool \<times> nat" where
  "remove_transactions self tx_ids =
     (case remove_each tx_ids (inner self) of (s, n) \<Rightarrow> (self\<lparr>inner := s\<rparr>, n))"

definition remove_on_block_inclusion :: "mempool \<Rightarrow> block_node \<Rightarrow> mempool \<times> nat" where
  "remove_on_block_inclusion self block = remove_transactions self (map tx_id (transactions block))"

definition expire_old_transactions ::
    "((hash, pending_transaction) fmap \<Rightarrow> (hash \<times> pending_transaction) list) \<Rightarrow> u64 \<Rightarrow> mempool \<Rightarrow> mempool \<times> nat" where
  "expire_old_transactions iter now self =
     (let expired_ids = map fst (filter (\<lambda>(h, p). inserted_at p + ttl_seconds self \<le> now)
            (iter (mp_transactions (inner self))))
      in (self\<lparr>inner := fst (remove_each expired_ids (inner self))\<rparr>, length expired_ids))"

definition mempool_contains :: "mempool \<Rightarrow> hash \<Rightarrow> bool" where
  "mempool_contains self h \<longleftrightarrow> h |\<in>| fmdom (mp_transactions (inner self))"

definition mempool_len :: "mempool \<Rightarrow> nat" where
  "mempool_len self = fcard (fmdom (mp_transactions (inner self)))"

definition mempool_is_empty :: "mempool \<Rightarrow> bool" where
  "mempool_is_empty self \<longleftrightarrow> mempool_len self = 0"

definition mempool_total_bytes :: "mempool \<Rightarrow> nat" where
  "mempool_total_bytes self = mp_total_bytes (inner self)"

section \<open>The invariant\<close>

text \<open>The priority index lists exactly the pending transactions, the byte counter is the sum of their
  sizes, and each is filed under its id.\<close>

definition pool_inv :: "mempool_inner \<Rightarrow> bool" where
  "pool_inv s \<longleftrightarrow>
     (\<forall>k. k |\<in>| priority_index s \<longleftrightarrow>
        (\<exists>p. fmlookup (mp_transactions s) (pk_tx_id k) = Some p \<and> k = key_of (pk_tx_id k) p))
     \<and> mp_total_bytes s = fmsum size_bytes (mp_transactions s)
     \<and> (\<forall>h p. fmlookup (mp_transactions s) h = Some p \<longrightarrow> tx_id (pending_tx p) = h)"

lemma pool_inv_new: "pool_inv mempool_inner_new"
  by (simp add: pool_inv_def mempool_inner_new_def)

lemma pk_key_of [simp]: "pk_tx_id (key_of h p) = h" "pk_fee (key_of h p) = fee_per_byte p"
  "pk_inserted_at (key_of h p) = inserted_at p"
  by (simp_all add: key_of_def)

lemma pool_inv_remove:
  assumes "pool_inv s" and "remove_pending h s = (s', found)"
  shows "pool_inv s' \<and> mp_transactions s' = fmdrop h (mp_transactions s)
    \<and> found = (h |\<in>| fmdom (mp_transactions s))"
proof (cases "fmlookup (mp_transactions s) h")
  case None
  with assms show ?thesis by (auto simp: remove_pending_def fmdrop_idle fmdom_notI)
next
  case (Some p)
  with assms(2) have s': "s' = s\<lparr>mp_transactions := fmdrop h (mp_transactions s),
      mp_total_bytes := mp_total_bytes s - size_bytes p, priority_index := priority_index s |-| {|key_of h p|}\<rparr>"
    and f: "found" by (simp_all add: remove_pending_def)
  have "k |\<in>| priority_index s' \<longleftrightarrow>
      (\<exists>q. fmlookup (mp_transactions s') (pk_tx_id k) = Some q \<and> k = key_of (pk_tx_id k) q)" for k
    using assms(1) Some by (auto simp: pool_inv_def s')
  moreover have "mp_total_bytes s' = fmsum size_bytes (mp_transactions s')"
    using assms(1) fmsum_drop [OF Some, of size_bytes] by (simp add: pool_inv_def s')
  moreover have "fmlookup (mp_transactions s') i = Some q \<Longrightarrow> tx_id (pending_tx q) = i" for i q
    using assms(1) by (simp add: pool_inv_def s' split: if_splits)
  ultimately show ?thesis using f Some by (auto simp: pool_inv_def s' fmdomI)
qed

lemma pool_inv_remove_each:
  "pool_inv s \<Longrightarrow> remove_each hs s = (s', n) \<Longrightarrow>
   pool_inv s' \<and> mp_transactions s' = fmdrops hs (mp_transactions s)
   \<and> n = fcard (fset_of_list hs |\<inter>| fmdom (mp_transactions s))"
proof (induction hs arbitrary: s n)
  case (Cons h hs)
  obtain s1 found where one: "remove_pending h s = (s1, found)" by (cases "remove_pending h s")
  obtain n1 where rest: "remove_each hs s1 = (s', n1)" "n = (if found then Suc n1 else n1)"
    using Cons.prems(2) one by (auto split: prod.splits)
  have s1: "pool_inv s1" "mp_transactions s1 = fmdrop h (mp_transactions s)" "found = (h |\<in>| fmdom (mp_transactions s))"
    using pool_inv_remove [OF Cons.prems(1) one] by simp_all
  have "fset_of_list (h # hs) |\<inter>| fmdom (mp_transactions s)
      = (if found then finsert h (fset_of_list hs |\<inter>| fmdom (mp_transactions s1)) else fset_of_list hs |\<inter>| fmdom (mp_transactions s1))"
    using s1(3) by (auto simp: s1(2))
  moreover have "h |\<notin>| fset_of_list hs |\<inter>| fmdom (mp_transactions s1)" by (simp add: s1(2))
  ultimately have "fcard (fset_of_list (h # hs) |\<inter>| fmdom (mp_transactions s)) = n"
    using Cons.IH [OF s1(1) rest(1)] rest(2) by (simp add: fcard_finsert_disjoint)
  with Cons.IH [OF s1(1) rest(1)] s1(2) show ?case by simp
qed (simp add: pool_inv_def)

lemma lowest_in_pool:
  assumes "pool_inv s" and "lowest_priority s = Some k"
  obtains p where "fmlookup (mp_transactions s) (pk_tx_id k) = Some p" "k = key_of (pk_tx_id k) p"
    "\<And>k'. k' |\<in>| priority_index s \<Longrightarrow> k' \<le> k"
proof -
  have k: "k = fMax (priority_index s)" and ne: "priority_index s \<noteq> {||}"
    using assms(2) by (auto simp: lowest_priority_def split: if_splits)
  have "k |\<in>| priority_index s" unfolding k by (rule fMax_in [OF ne])
  with assms(1) that k show ?thesis by (auto simp: pool_inv_def)
qed

text \<open>Eviction removes the transaction of lowest priority, as any removal would.\<close>

lemma evict_lowest_priority_eq:
  assumes "pool_inv s"
  shows "evict_lowest_priority s = (case lowest_priority s of None \<Rightarrow> s | Some k \<Rightarrow> fst (remove_pending (pk_tx_id k) s))"
proof (cases "lowest_priority s")
  case None
  then show ?thesis by (simp add: evict_lowest_priority_def)
next
  case (Some k)
  then obtain p where p: "fmlookup (mp_transactions s) (pk_tx_id k) = Some p" "k = key_of (pk_tx_id k) p"
    by (rule lowest_in_pool [OF assms])
  with Some show ?thesis by (simp add: evict_lowest_priority_def remove_pending_def Let_def)
qed

lemma pool_inv_evict: "pool_inv s \<Longrightarrow> pool_inv (evict_lowest_priority s)"
  using pool_inv_remove [of s]
  by (auto simp: evict_lowest_priority_eq split: option.splits) (metis prod.collapse)

lemma pool_inv_add:
  assumes "pool_inv s" and "tx_id tx |\<notin>| fmdom (mp_transactions s)"
  shows "pool_inv (add_pending tx now n fee s)"
proof -
  have none: "fmlookup (mp_transactions s) (tx_id tx) = None" using assms(2) by (simp add: fmlookup_dom_iff)
  have "k |\<in>| priority_index (add_pending tx now n fee s) \<longleftrightarrow>
      (\<exists>q. fmlookup (mp_transactions (add_pending tx now n fee s)) (pk_tx_id k) = Some q \<and> k = key_of (pk_tx_id k) q)" for k
    using assms(1) none by (cases k) (auto simp: pool_inv_def add_pending_def Let_def key_of_def)
  moreover have "mp_total_bytes (add_pending tx now n fee s) = fmsum size_bytes (mp_transactions (add_pending tx now n fee s))"
    using assms(1) by (simp add: add_pending_def Let_def fmsum_upd_fresh [OF none] pool_inv_def)
  ultimately show ?thesis
    using assms(1) by (auto simp: pool_inv_def add_pending_def Let_def)
qed

lemma fcard_fmdrop: "h |\<in>| fmdom m \<Longrightarrow> fcard (fmdom (fmdrop h m)) = fcard (fmdom m) - 1"
  by (simp add: fmdom_drop)

lemma fcard_fmdrop_le: "fcard (fmdom (fmdrop h m)) \<le> fcard (fmdom m)"
  by (auto intro: fcard_mono)

text \<open>How an insertion that was accepted changes the pool.\<close>

lemma insert_transaction_cases:
  assumes "insert_transaction ext pc sz now self tx sm u = Some (self', sm', r)"
  obtains (refused) e where "r = Inl e" "self' = self"
  | (roomy) n where "r = Inr ()" "n = calculate_tx_size_bytes sz tx" "tx_id tx |\<notin>| fmdom (mp_transactions (inner self))"
      "self' = self\<lparr>inner := add_pending tx now n (calculate_fee_per_byte tx n) (inner self)\<rparr>"
      "mp_total_bytes (inner self) + n \<le> max_bytes self" "mempool_len self < max_transactions self"
  | (full) n where "r = Inr ()" "n = calculate_tx_size_bytes sz tx" "tx_id tx |\<notin>| fmdom (mp_transactions (inner self))"
      "self' = self\<lparr>inner := add_pending tx now n (calculate_fee_per_byte tx n) (evict_lowest_priority (inner self))\<rparr>"
      "should_accept_new_transaction self (inner self) (calculate_fee_per_byte tx n)"
      "\<not> (mp_total_bytes (inner self) + n \<le> max_bytes self \<and> mempool_len self < max_transactions self)"
proof -
  let ?n = "calculate_tx_size_bytes sz tx"
  obtain sm1 v where v: "validate_transaction_stateful ext pc sz self tx sm u = Some (sm1, v)"
    using assms by (cases "validate_transaction_stateful ext pc sz self tx sm u") (auto simp: insert_transaction_def Let_def)
  show thesis
  proof (cases v)
    case (Inl e)
    with assms v refused [of e] show thesis by (auto simp: insert_transaction_def Let_def)
  next
    case (Inr x)
    note run = assms [unfolded insert_transaction_def Let_def v option.case prod.case Inr sum.case]
    show thesis
    proof (cases "tx_id tx |\<in>| fmdom (mp_transactions (inner self))")
      case True
      with run refused [of DuplicateTransaction] show thesis by auto
    next
      case fresh: False
      show thesis
      proof (cases "max_bytes self < mp_total_bytes (inner self) + ?n \<or> max_transactions self < fcard (fmdom (mp_transactions (inner self))) + 1")
        case True
        with run fresh refused [of PoolFull] full [of ?n] show thesis
          by (cases "should_accept_new_transaction self (inner self) (calculate_fee_per_byte tx ?n)")
            (auto simp: mempool_len_def)
      next
        case False
        with run fresh have "self' = self\<lparr>inner := add_pending tx now ?n (calculate_fee_per_byte tx ?n) (inner self)\<rparr>" "r = Inr ()"
          by simp_all
        with False fresh roomy [of ?n] show thesis by (simp add: mempool_len_def not_less)
      qed
    qed
  qed
qed

lemma insert_keeps_inv:
  assumes "insert_transaction ext pc sz now self tx sm u = Some (self', sm', r)" and "pool_inv (inner self)"
  shows "pool_inv (inner self')"
  using assms(1)
proof (cases rule: insert_transaction_cases)
  case (refused e)
  with assms(2) show ?thesis by simp
next
  case (roomy n)
  with pool_inv_add [OF assms(2)] show ?thesis by simp
next
  case (full n)
  have "tx_id tx |\<notin>| fmdom (mp_transactions (evict_lowest_priority (inner self)))"
    using full(3) pool_inv_remove [OF assms(2)]
    by (auto simp: evict_lowest_priority_eq [OF assms(2)] split: option.splits) (metis fmdom_drop fminusD1 prod.collapse)
  with full pool_inv_add [OF pool_inv_evict [OF assms(2)]] show ?thesis by simp
qed

section \<open>The life of a pool\<close>

inductive pool_step ::
    "externals \<Rightarrow> pc_ops \<Rightarrow> tx_size \<Rightarrow> ((hash, pending_transaction) fmap \<Rightarrow> (hash \<times> pending_transaction) list)
      \<Rightarrow> mempool \<Rightarrow> mempool \<Rightarrow> bool" for ext pc sz iter where
  inserted: "insert_transaction ext pc sz now self tx sm u = Some (self', sm', r) \<Longrightarrow> pool_step ext pc sz iter self self'"
| revalidated: "revalidate_pending_transactions ext pc sz iter self sm u = Some (self', sm', n) \<Longrightarrow>
    pool_step ext pc sz iter self self'"
| removed: "remove_transactions self hs = (self', n) \<Longrightarrow> pool_step ext pc sz iter self self'"
| included: "remove_on_block_inclusion self block = (self', n) \<Longrightarrow> pool_step ext pc sz iter self self'"
| expired: "expire_old_transactions iter now self = (self', n) \<Longrightarrow> pool_step ext pc sz iter self self'"

text \<open>Every operation but an insertion removes a list of transactions.\<close>

lemma pool_step_cases:
  assumes "pool_step ext pc sz iter self self'"
  obtains (insertion) now tx sm u sm' r where "insert_transaction ext pc sz now self tx sm u = Some (self', sm', r)"
  | (removal) hs where "self' = self\<lparr>inner := fst (remove_each hs (inner self))\<rparr>"
  using assms
proof (cases rule: pool_step.cases)
  case (revalidated sm u sm' n)
  then obtain sm1 hs where "invalid_pending ext pc sz self u sm (iter (mp_transactions (inner self))) = Some (sm1, hs)"
    by (cases "invalid_pending ext pc sz self u sm (iter (mp_transactions (inner self)))")
      (auto simp: revalidate_pending_transactions_def)
  with revalidated removal [of hs] show ?thesis
    by (cases "remove_each hs (inner self)") (simp add: revalidate_pending_transactions_def)
next
  case (removed hs n)
  with removal [of hs] show ?thesis by (cases "remove_each hs (inner self)") (simp add: remove_transactions_def)
next
  case (included block n)
  with removal [of "map tx_id (transactions block)"] show ?thesis
    by (cases "remove_each (map tx_id (transactions block)) (inner self)")
      (simp add: remove_on_block_inclusion_def remove_transactions_def)
next
  case (expired now n)
  with removal show ?thesis by (auto simp: expire_old_transactions_def Let_def)
qed (rule insertion)

definition pool_ok :: "mempool \<Rightarrow> bool" where
  "pool_ok self \<longleftrightarrow> pool_inv (inner self) \<and> mempool_len self \<le> max 1 (max_transactions self)"

lemma no_lowest:
  assumes "pool_inv s" and "lowest_priority s = None"
  shows "mp_transactions s = fmempty"
proof (rule fmap_ext)
  fix h
  have "fmlookup (mp_transactions s) h \<noteq> Some p" for p
  proof
    assume "fmlookup (mp_transactions s) h = Some p"
    then have "key_of h p |\<in>| priority_index s" using assms(1) by (simp add: pool_inv_def)
    with assms(2) show False by (auto simp: lowest_priority_def split: if_splits)
  qed
  then show "fmlookup (mp_transactions s) h = fmlookup fmempty h"
    by (metis fmempty_lookup not_None_eq)
qed

lemma len_evict:
  assumes "pool_inv s"
  shows "fcard (fmdom (mp_transactions (evict_lowest_priority s))) = fcard (fmdom (mp_transactions s)) - 1"
proof (cases "lowest_priority s")
  case None
  with no_lowest [OF assms None] show ?thesis by (simp add: evict_lowest_priority_def fcard_fempty)
next
  case (Some k)
  then obtain p where p: "fmlookup (mp_transactions s) (pk_tx_id k) = Some p" by (rule lowest_in_pool [OF assms])
  obtain s' f where r: "remove_pending (pk_tx_id k) s = (s', f)" by (cases "remove_pending (pk_tx_id k) s")
  with Some pool_inv_remove [OF assms r] fmdomI [OF p] show ?thesis
    by (simp add: evict_lowest_priority_eq [OF assms] fcard_fmdrop del: fmdom_drop)
qed

lemma fcard_fmupd: "fcard (fmdom (fmupd h p m)) \<le> Suc (fcard (fmdom m))"
  by (simp add: fcard_finsert_if)

lemma pool_ok_step:
  assumes "pool_step ext pc sz iter self self'" and ok: "pool_ok self"
  shows "pool_ok self' \<and> max_transactions self' = max_transactions self"
  using assms(1)
proof (cases rule: pool_step_cases)
  case (removal hs)
  obtain s n where r: "remove_each hs (inner self) = (s, n)" by (cases "remove_each hs (inner self)")
  have inv: "pool_inv (inner self)" using ok by (simp add: pool_ok_def)
  have s: "pool_inv s" "mp_transactions s = fmdrops hs (mp_transactions (inner self))"
    using pool_inv_remove_each [OF inv r] by simp_all
  have "fmdom (mp_transactions s) |\<subseteq>| fmdom (mp_transactions (inner self))"
    unfolding s(2) by (auto simp: fmlookup_dom_iff split: if_splits)
  then have "fcard (fmdom (mp_transactions s)) \<le> fcard (fmdom (mp_transactions (inner self)))"
    by (rule fcard_mono)
  with ok removal r s(1) show ?thesis by (auto simp: pool_ok_def mempool_len_def)
next
  case (insertion now tx sm u sm' r)
  have inv: "pool_inv (inner self)" using ok by (simp add: pool_ok_def)
  have inv': "pool_inv (inner self')" by (rule insert_keeps_inv [OF insertion inv])
  show ?thesis
    using insertion
  proof (cases rule: insert_transaction_cases)
    case (refused e)
    with ok show ?thesis by simp
  next
    case (roomy n)
    have "mempool_len self' \<le> Suc (mempool_len self)"
      unfolding roomy(4) mempool_len_def by (simp add: add_pending_def Let_def fcard_finsert_if)
    with roomy ok inv' show ?thesis by (auto simp: pool_ok_def)
  next
    case (full n)
    have "mempool_len self' \<le> Suc (mempool_len self - 1)"
      unfolding full(4) mempool_len_def
      using fcard_fmupd [of "tx_id tx" _ "mp_transactions (evict_lowest_priority (inner self))"] len_evict [OF inv]
      by (simp add: add_pending_def Let_def del: fmdom_fmupd)
    with full ok inv' show ?thesis by (auto simp: pool_ok_def)
  qed
qed

text \<open>C20: a pool is always consistent: through any sequence of insertions, evictions, revalidations,
  removals and expiries the priority index lists exactly the pending transactions, the byte
  counter is the sum of their sizes, each transaction is filed under its id, and their number
  does not exceed the limit, or one when the limit is zero (a full pool that is empty evicts
  nothing and inserts).\<close>

theorem reachable_pool_consistent:
  assumes "(pool_step ext pc sz iter)\<^sup>*\<^sup>* (with_limits mb mt mf ttl) self"
  shows "pool_inv (inner self) \<and> mempool_len self \<le> max 1 mt"
proof -
  have "pool_ok self \<and> max_transactions self = mt"
    using assms
  proof (induction rule: rtranclp_induct)
    case base
    show ?case
      by (simp add: pool_ok_def with_limits_def pool_inv_new mempool_len_def)
        (simp add: mempool_inner_new_def fcard_fempty)
  next
    case (step self self')
    with pool_ok_step show ?case by metis
  qed
  then show ?thesis by (auto simp: pool_ok_def)
qed

section \<open>The transactions to mine next\<close>

definition priority_of :: "mempool \<Rightarrow> transaction \<Rightarrow> priority_key" where
  "priority_of self tx = key_of (tx_id tx) (the (fmlookup (mp_transactions (inner self)) (tx_id tx)))"

lemma map_filter_all: "list_all (\<lambda>x. f x \<noteq> None) xs \<Longrightarrow> List.map_filter f xs = map (\<lambda>x. the (f x)) xs"
  by (induction xs) (auto simp: map_filter_simps split: option.splits)

lemma index_is_image:
  assumes "pool_inv s"
  shows "priority_index s = (\<lambda>h. key_of h (the (fmlookup (mp_transactions s) h))) |`| fmdom (mp_transactions s)"
proof (intro fset_eqI iffI)
  fix k
  assume "k |\<in>| priority_index s"
  then obtain p where p: "fmlookup (mp_transactions s) (pk_tx_id k) = Some p" "k = key_of (pk_tx_id k) p"
    using assms by (auto simp: pool_inv_def)
  show "k |\<in>| (\<lambda>h. key_of h (the (fmlookup (mp_transactions s) h))) |`| fmdom (mp_transactions s)"
  proof (rule fimage_eqI [where x = "pk_tx_id k"])
    show "k = key_of (pk_tx_id k) (the (fmlookup (mp_transactions s) (pk_tx_id k)))"
      by (subst p(1)) (simp only: option.sel p(2) [symmetric])
    show "pk_tx_id k |\<in>| fmdom (mp_transactions s)" using p(1) by (rule fmdomI)
  qed
next
  fix k
  assume "k |\<in>| (\<lambda>h. key_of h (the (fmlookup (mp_transactions s) h))) |`| fmdom (mp_transactions s)"
  then show "k |\<in>| priority_index s" using assms by (auto simp: pool_inv_def fmlookup_dom_iff)
qed

lemma index_size:
  assumes "pool_inv s"
  shows "fcard (priority_index s) = fcard (fmdom (mp_transactions s))"
proof -
  have "inj_on (\<lambda>h. key_of h (the (fmlookup (mp_transactions s) h))) (fset (fmdom (mp_transactions s)))"
    by (auto simp: inj_on_def key_of_def)
  then show ?thesis unfolding index_is_image [OF assms] by (simp add: fcard.rep_eq card_image)
qed

text \<open>\<open>get_top_transactions\<close> returns the best pending transactions, best first: as many as asked
  for or as there are, no two with the same id, all pending, in the order of the priority index
  (higher fee per byte, then earlier arrival, then smaller id), and none that was left out has a
  higher priority than one that was returned.\<close>

theorem top_transactions_best:
  assumes "pool_inv (inner self)" and "best = get_top_transactions self limit"
  shows "length best = min limit (mempool_len self) \<and> distinct (map tx_id best)
    \<and> sorted_wrt (\<lambda>a b. priority_of self a \<le> priority_of self b) best
    \<and> (\<forall>tx\<in>set best. mempool_contains self (tx_id tx))
    \<and> (\<forall>tx\<in>set best. \<forall>h p. fmlookup (mp_transactions (inner self)) h = Some p \<and> h \<notin> tx_id ` set best \<longrightarrow>
         priority_of self tx \<le> key_of h p)"
proof -
  let ?txs = "mp_transactions (inner self)" and ?idx = "priority_index (inner self)"
  let ?ks = "take limit (sorted_list_of_fset ?idx)"
  let ?tx = "\<lambda>k. pending_tx (the (fmlookup ?txs (pk_tx_id k)))"
  have sub: "set ?ks \<subseteq> fset ?idx" using set_take_subset by (fastforce simp: sorted_list_of_fset.rep_eq)
  have key: "fmlookup ?txs (pk_tx_id k) = Some (the (fmlookup ?txs (pk_tx_id k)))
      \<and> k = key_of (pk_tx_id k) (the (fmlookup ?txs (pk_tx_id k)))"
    if "k \<in> fset ?idx" for k using that assms(1) by (auto simp: pool_inv_def)
  have "list_all (\<lambda>k. fmlookup ?txs (pk_tx_id k) \<noteq> None) ?ks" using sub key by (force simp: list_all_iff)
  then have best: "best = map ?tx ?ks" by (simp add: assms(2) get_top_transactions_def map_filter_all comp_def)
  have id: "tx_id (?tx k) = pk_tx_id k" if "k \<in> fset ?idx" for k
    using key [OF that] assms(1) by (auto simp: pool_inv_def)
  have prio: "priority_of self (?tx k) = k" if "k \<in> fset ?idx" for k
    using key [OF that] id [OF that] by (simp add: priority_of_def)
  have inj: "inj_on pk_tx_id (fset ?idx)" using key by (metis inj_onI)
  have ids: "map tx_id best = map pk_tx_id ?ks" using sub id by (auto simp: best)
  have "distinct (map tx_id best)"
    unfolding ids by (simp add: distinct_map inj_on_subset [OF inj sub])
  moreover have "length best = min limit (mempool_len self)"
    by (simp add: best index_size [OF assms(1)] mempool_len_def min.commute)
  moreover have "sorted_wrt (\<lambda>a b. priority_of self a \<le> priority_of self b) best"
  proof -
    have "sorted_wrt (\<lambda>a b. priority_of self (?tx a) \<le> priority_of self (?tx b)) ?ks"
    proof (rule sorted_wrt_mono_rel [OF _ sorted_wrt_take [OF sorted_sorted_list_of_fset]])
      fix a b
      assume "a \<in> set ?ks" "b \<in> set ?ks" "a \<le> b"
      moreover from this have "a \<in> fset ?idx" "b \<in> fset ?idx" using sub by blast+
      ultimately show "priority_of self (?tx a) \<le> priority_of self (?tx b)" by (simp only: prio)
    qed
    then show ?thesis by (simp add: best sorted_wrt_map)
  qed
  moreover have "mempool_contains self (tx_id tx)" if tx: "tx \<in> set best" for tx
  proof -
    obtain k where k: "k \<in> set ?ks" "tx = ?tx k" using tx best by auto
    then have mem: "k \<in> fset ?idx" using sub by blast
    have "tx_id tx = pk_tx_id k" unfolding k(2) by (rule id [OF mem])
    then show ?thesis using fmdomI [OF conjunct1 [OF key [OF mem]]] by (simp only: mempool_contains_def)
  qed
  moreover have "priority_of self tx \<le> key_of h p"
    if tx: "tx \<in> set best" and h: "fmlookup ?txs h = Some p" "h \<notin> tx_id ` set best" for tx h p
  proof -
    obtain k where k: "k \<in> set ?ks" "tx = ?tx k" using tx best by auto
    have "key_of h p \<in> fset ?idx" using h(1) assms(1) by (simp add: pool_inv_def)
    then have mem: "key_of h p \<in> set (sorted_list_of_fset ?idx)" by (simp add: sorted_list_of_fset.rep_eq)
    have "pk_tx_id ` set ?ks = tx_id ` set best" using arg_cong [OF ids, of set] by simp
    then have "key_of h p \<notin> set ?ks" using h(2) by (metis imageI pk_key_of(1))
    then have "key_of h p \<in> set (drop limit (sorted_list_of_fset ?idx))"
      using mem by (metis UnE append_take_drop_id set_append)
    moreover have "sorted (?ks @ drop limit (sorted_list_of_fset ?idx))" by simp
    ultimately have "k \<le> key_of h p" using k(1) unfolding sorted_append by blast
    with k prio sub show ?thesis by auto
  qed
  ultimately show ?thesis by blast
qed

section \<open>What the validation accepts\<close>

definition input_value :: "utxo_set \<Rightarrow> tx_input \<Rightarrow> nat" where
  "input_value u i = unat (out_value (the (fmlookup (utxos u) (outpoint_of i))))"

definition input_spendable :: "utxo_set \<Rightarrow> state_manager \<Rightarrow> tx_input \<Rightarrow> bool" where
  "input_spendable u sm i \<longleftrightarrow> outpoint_of i |\<in>| fmdom (utxos u) \<and> outpoint_of i |\<in>| fmdom (outpoint_to_key sm)"

definition provable_keys :: "externals \<Rightarrow> pc_ops \<Rightarrow> state_manager \<Rightarrow> bool" where
  "provable_keys ext pc sm \<longleftrightarrow> live_tree ext pc (sm_tree sm)
     \<and> (\<forall>i key. fmlookup (outpoint_to_key sm) i = Some key \<longrightarrow>
          length key = KEY_SIZE \<and> path_openable ext pc (sm_tree sm) key)"

lemma unat_u64_u128 [rust_arith]: "unat (ucast (v :: u64) :: u128) = unat v"
  by (rule unat_ucast_up) simp

lemma unat_u128_less: "unat (n :: u128) < 2 ^ 128"
  by (rule order_less_le_trans [OF unsigned_less]) simp

text \<open>The proof of an input is always generated and accepted, so it never decides the outcome.\<close>

lemma input_proof_accepted:
  assumes "provable_keys ext pc sm" and "pc_laws pc" and "opens_nonzero pc"
    and "fmlookup (outpoint_to_key sm) i = Some key"
  obtains t p where "generate_proof ext pc (sm_tree sm) key = Some (t, Inr p)" "verify_proof ext pc t p = Inr True"
    "provable_keys ext pc (sm\<lparr>sm_tree := t\<rparr>)" "root_of ext pc t = root_of ext pc (sm_tree sm)"
proof -
  have live: "live_tree ext pc (sm_tree sm)" and key: "length key = KEY_SIZE"
    and op: "path_openable ext pc (sm_tree sm) key"
    using assms(1,4) unfolding provable_keys_def by blast+
  obtain t r where g: "generate_proof_with_witness ext pc (sm_tree sm) key None = Some (t, r)"
    using generate_proof_returns [OF live assms(2,3) key op] by blast
  obtain p where p: "live_tree ext pc t" "root_of ext pc t = root_of ext pc (sm_tree sm)" "r = Inr p"
    "proof_about ext pc (sm_tree sm) key p" "vp_gas_fee_distribution p = None"
    and same: "path_openable ext pc t k = path_openable ext pc (sm_tree sm) k" for k
    using generate_proof_about [OF live assms(2) key g] by blast
  have "verify_proof ext pc t p = Inr True"
    using proof_about_verifies [OF live _ assms(2) key p(4)] p(1,5) by (simp add: live_tree_def gas_split_ok_def)
  with that [of t p] g p same assms(1) show thesis by (auto simp: generate_proof_def provable_keys_def)
qed

lemma sum_pool_inputs_exact:
  assumes "pc_laws pc" and "opens_nonzero pc"
  shows "provable_keys ext pc sm \<Longrightarrow>
    \<exists>t r. sum_pool_inputs ext pc u sm acc ins = Some (sm\<lparr>sm_tree := t\<rparr>, r)
      \<and> root_of ext pc t = root_of ext pc (sm_tree sm)
      \<and> (\<forall>total_input. r = Inr total_input \<longleftrightarrow> list_all (input_spendable u sm) ins
            \<and> unat total_input = unat acc + (\<Sum>i\<leftarrow>ins. input_value u i))"
proof (induction ins arbitrary: sm acc)
  case Nil
  have "Inr acc = Inr n \<longleftrightarrow> unat n = unat acc" for n :: u128 by (auto simp: word_unat_eq_iff)
  then show ?case by (intro exI [of _ "sm_tree sm"]) auto
next
  case (Cons i ins)
  show ?case
  proof (cases "input_spendable u sm i")
    case False
    then show ?thesis
      by (intro exI [of _ "sm_tree sm"]) (auto simp: input_spendable_def fmlookup_dom_iff split: option.splits)
  next
    case True
    then obtain out key where look: "fmlookup (utxos u) (outpoint_of i) = Some out"
      "fmlookup (outpoint_to_key sm) (outpoint_of i) = Some key"
      by (auto simp: input_spendable_def fmlookup_dom_iff)
    obtain t p where p: "generate_proof ext pc (sm_tree sm) key = Some (t, Inr p)" "verify_proof ext pc t p = Inr True"
      "provable_keys ext pc (sm\<lparr>sm_tree := t\<rparr>)" "root_of ext pc t = root_of ext pc (sm_tree sm)"
      by (rule input_proof_accepted [OF Cons.prems assms look(2)])
    have val: "input_value u i = unat (ucast (out_value out) :: u128)"
      by (simp add: input_value_def look(1) unat_u64_u128)
    have sp: "input_spendable u (sm\<lparr>sm_tree := t\<rparr>) = input_spendable u sm" by (simp add: input_spendable_def fun_eq_iff)
    show ?thesis
    proof (cases "checked_add acc (ucast (out_value out))")
      case None
      have "unat n \<noteq> unat acc + (input_value u i + m)" for n :: u128 and m
        using None unat_u128_less [of n] by (simp add: rust_arith val)
      with None p look show ?thesis by (intro exI [of _ t]) auto
    next
      case (Some acc')
      then have acc': "unat acc' = unat acc + input_value u i" by (simp add: rust_arith val)
      from Cons.IH [OF p(3), of acc'] obtain t' r where
        "sum_pool_inputs ext pc u (sm\<lparr>sm_tree := t\<rparr>) acc' ins = Some (sm\<lparr>sm_tree := t'\<rparr>, r)"
        "root_of ext pc t' = root_of ext pc t"
        "\<forall>n. r = Inr n \<longleftrightarrow> list_all (input_spendable u sm) ins \<and> unat n = unat acc' + (\<Sum>i\<leftarrow>ins. input_value u i)"
        by (auto simp: sp)
      with Some p look True acc' show ?thesis by (intro exI [of _ t']) (auto simp: add.assoc)
    qed
  qed
qed

lemma sum_pool_outputs_exact:
  "sum_pool_outputs acc outs = Inr n \<longleftrightarrow> unat n = unat acc + (\<Sum>out\<leftarrow>outs. unat (out_value out))"
proof (induction outs arbitrary: acc)
  case (Cons out outs)
  have val: "unat (ucast (out_value out) :: u128) = unat (out_value out)" by (simp add: unat_u64_u128)
  show ?case
  proof (cases "checked_add acc (ucast (out_value out))")
    case None
    then have "unat n \<noteq> unat acc + (unat (out_value out) + m)" for m
      using unat_u128_less [of n] by (simp add: rust_arith val)
    with None show ?thesis by simp
  next
    case (Some acc')
    then have "unat acc' = unat acc + unat (out_value out)" by (simp add: rust_arith val)
    with Some Cons.IH [of acc'] show ?thesis by (simp add: add.assoc)
  qed
qed (auto simp: word_unat_eq_iff)

lemma check_pool_fee_exact:
  "check_pool_fee sm tx total_input total_output = Inr () \<longleftrightarrow>
     unat total_output + min (unat (max_fee_per_gas tx) * unat (gas_limit tx)) (2 ^ 128 - 1) \<le> unat total_input
     \<and> unat total_output \<le> unat (current_total_supply sm)"
  by (auto simp: check_pool_fee_def Let_def rust_arith word_less_nat_alt unat_u64_u128
      split: option.splits)

text \<open>C21: \<open>validate_transaction_stateful\<close> accepts exactly the transactions that pass the stateless
  checks, whose inputs are all in the UTXO set and have a tree key, whose input sum fits
  in 128 bits and pays for the outputs with a fee of at least \<open>max_fee_per_gas * gas_limit\<close>
  (saturating), and whose outputs do not exceed the supply. It returns, changes nothing of the state
  but the tree (whose root stays), and the proofs it generates never change the verdict. The state
  is one whose tree is in use, whose recorded keys have 32 bytes and whose nodes on the paths of
  those keys have non-zero polynomials (opening a zero polynomial panics); of the commitment
  scheme it uses \<open>pc_laws\<close> and \<open>opens_nonzero\<close>, both proved of the repository's scheme.\<close>

theorem stateful_validation_exact:
  assumes "provable_keys ext pc sm" and "pc_laws pc" and "opens_nonzero pc"
  shows "\<exists>t r. validate_transaction_stateful ext pc sz self tx sm u = Some (sm\<lparr>sm_tree := t\<rparr>, r)
    \<and> root_of ext pc t = root_of ext pc (sm_tree sm)
    \<and> (r = Inr () \<longleftrightarrow> validate_transaction_stateless ext sz self tx = Inr ()
         \<and> list_all (input_spendable u sm) (inputs tx)
         \<and> (\<Sum>i\<leftarrow>inputs tx. input_value u i) < 2 ^ 128
         \<and> outputs_value tx + min (unat (max_fee_per_gas tx) * unat (gas_limit tx)) (2 ^ 128 - 1)
             \<le> (\<Sum>i\<leftarrow>inputs tx. input_value u i)
         \<and> outputs_value tx \<le> unat (current_total_supply sm))"
proof (cases "validate_transaction_stateless ext sz self tx")
  case (Inl e)
  then show ?thesis by (intro exI [of _ "sm_tree sm"]) (simp add: validate_transaction_stateful_def)
next
  case stateless: (Inr x)
  let ?in = "\<Sum>i\<leftarrow>inputs tx. input_value u i"
  obtain t r where run: "sum_pool_inputs ext pc u sm 0 (inputs tx) = Some (sm\<lparr>sm_tree := t\<rparr>, r)"
    and root: "root_of ext pc t = root_of ext pc (sm_tree sm)"
    and r: "\<And>n. r = Inr n \<longleftrightarrow> list_all (input_spendable u sm) (inputs tx) \<and> unat n = ?in"
    using sum_pool_inputs_exact [OF assms(2,3,1), of u 0 "inputs tx"] by auto
  have ok: "validate_transaction_stateless ext sz self tx = Inr ()" using stateless by simp
  show ?thesis
  proof (cases r)
    case (Inl e)
    have "\<not> (list_all (input_spendable u sm) (inputs tx) \<and> ?in < 2 ^ 128)"
    proof
      assume *: "list_all (input_spendable u sm) (inputs tx) \<and> ?in < 2 ^ 128"
      then have "unat (of_nat ?in :: u128) = ?in" by (simp add: unat_of_nat take_bit_nat_eq_self)
      with * r [of "of_nat ?in"] Inl show False by simp
    qed
    with run root ok Inl show ?thesis by (intro exI [of _ t]) (auto simp: validate_transaction_stateful_def)
  next
    case (Inr total_input)
    then have in_sum: "list_all (input_spendable u sm) (inputs tx)" "unat total_input = ?in" using r by blast+
    have "bind_res (sum_pool_outputs 0 (outputs tx)) (check_pool_fee (sm\<lparr>sm_tree := t\<rparr>) tx total_input) = Inr ()
      \<longleftrightarrow> outputs_value tx + min (unat (max_fee_per_gas tx) * unat (gas_limit tx)) (2 ^ 128 - 1) \<le> ?in
         \<and> outputs_value tx \<le> unat (current_total_supply sm)"
    proof (cases "sum_pool_outputs 0 (outputs tx)")
      case (Inl e)
      have "\<not> outputs_value tx < 2 ^ 128"
      proof
        assume "outputs_value tx < 2 ^ 128"
        then have "unat (of_nat (outputs_value tx) :: u128) = outputs_value tx"
          by (simp add: unat_of_nat take_bit_nat_eq_self)
        then show False
          using sum_pool_outputs_exact [of 0 "outputs tx" "of_nat (outputs_value tx)"] Inl
          by (simp add: outputs_value_def)
      qed
      with Inl unat_u128_less [of "current_total_supply sm"] show ?thesis by auto
    next
      case (Inr n)
      with sum_pool_outputs_exact [of 0 "outputs tx" n] in_sum(2) show ?thesis
        by (simp add: check_pool_fee_exact outputs_value_def)
    qed
    with run root ok Inr in_sum unat_u128_less [of total_input] show ?thesis
      by (intro exI [of _ t]) (auto simp: validate_transaction_stateful_def)
  qed
qed

section \<open>What an insertion does\<close>

text \<open>an accepted insertion stores the transaction with its size, its fee per byte and the time,
  and loses at most one other. When both limits leave room nothing leaves; otherwise the pending
  transaction of lowest priority leaves, and only that one, whatever the sizes are.\<close>

theorem insertion_effect:
  assumes "pool_inv (inner self)" and "insert_transaction ext pc sz now self tx sm u = Some (self', sm', Inr ())"
    and "n = calculate_tx_size_bytes sz tx"
    and "roomy = (mempool_total_bytes self + n \<le> max_bytes self \<and> mempool_len self < max_transactions self)"
    and "m = mp_transactions (inner self)"
  shows "\<exists>rest. mp_transactions (inner self') = fmupd (tx_id tx)
      \<lparr>pending_tx = tx, inserted_at = now, size_bytes = n, fee_per_byte = calculate_fee_per_byte tx n\<rparr> rest
    \<and> tx_id tx |\<notin>| fmdom m
    \<and> (if roomy \<or> m = fmempty then rest = m
       else \<exists>h p. fmlookup m h = Some p \<and> rest = fmdrop h m
              \<and> (\<forall>h' p'. fmlookup m h' = Some p' \<longrightarrow> key_of h' p' \<le> key_of h p))"
  using assms(2)
proof (cases rule: insert_transaction_cases)
  case (refused e)
  then show ?thesis by simp
next
  case (roomy k)
  with assms(3-5) show ?thesis
    by (simp add: add_pending_def Let_def mempool_total_bytes_def)
next
  case (full k)
  have acc: "mp_transactions (inner self') = fmupd (tx_id tx)
      \<lparr>pending_tx = tx, inserted_at = now, size_bytes = n, fee_per_byte = calculate_fee_per_byte tx n\<rparr>
      (mp_transactions (evict_lowest_priority (inner self)))"
    using full(2,4) assms(3) by (simp add: add_pending_def Let_def)
  show ?thesis
  proof (cases "lowest_priority (inner self)")
    case None
    then have "m = fmempty" "mp_transactions (evict_lowest_priority (inner self)) = m"
      using no_lowest [OF assms(1)] assms(5) by (simp_all add: evict_lowest_priority_def)
    with acc full(3) show ?thesis by simp
  next
    case (Some key)
    obtain p where p: "fmlookup m (pk_tx_id key) = Some p" "key = key_of (pk_tx_id key) p"
      and low: "\<And>k'. k' |\<in>| priority_index (inner self) \<Longrightarrow> k' \<le> key"
      using lowest_in_pool [OF assms(1) Some] assms(5) by metis
    obtain s f where r: "remove_pending (pk_tx_id key) (inner self) = (s, f)"
      by (cases "remove_pending (pk_tx_id key) (inner self)")
    have rest: "mp_transactions (evict_lowest_priority (inner self)) = fmdrop (pk_tx_id key) m"
      using pool_inv_remove [OF assms(1) r] r Some assms(5) by (simp add: evict_lowest_priority_eq [OF assms(1)])
    have "key_of h' p' \<le> key_of (pk_tx_id key) p" if "fmlookup m h' = Some p'" for h' p'
      using low [of "key_of h' p'"] that assms(1,5) p(2) by (simp add: pool_inv_def)
    moreover have "m \<noteq> fmempty" "\<not> roomy" using p(1) full assms(3,4) by (auto simp: mempool_total_bytes_def)
    ultimately show ?thesis using acc rest p(1) full(3) assms(5) by auto
  qed
qed

section \<open>Witnesses\<close>

text \<open>A transaction without inputs or outputs is accepted by every pool with room, and its size may
  exceed the byte limit of the pool.\<close>

definition demo_empty_tx :: transaction where
  "demo_empty_tx = demo_coinbase\<lparr>outputs := [], max_fee_per_gas := 5\<rparr>"

definition demo_pool :: mempool where
  "demo_pool = with_limits 10 5 1 0"

definition demo_pool1 :: mempool where
  "demo_pool1 = demo_pool\<lparr>inner := add_pending demo_empty_tx 7 50 5 mempool_inner_new\<rparr>"

lemma byte_limit_overshoot:
  "insert_transaction ext pc (\<lambda>_. Some 50) 7 demo_pool demo_empty_tx sm u = Some (demo_pool1, sm, Inr ())
   \<and> max_bytes demo_pool1 < mempool_total_bytes demo_pool1"
proof -
  have fee: "calculate_fee_per_byte demo_empty_tx 50 = 5"
    by (simp add: calculate_fee_per_byte_def demo_empty_tx_def demo_coinbase_def saturating_mul_def Let_def max_def)
  have none: "inputs demo_empty_tx = []" "outputs demo_empty_tx = []" "gas_limit demo_empty_tx = 0"
    by (simp_all add: demo_empty_tx_def demo_coinbase_def)
  have "validate_transaction_stateless ext (\<lambda>_. Some 50) demo_pool demo_empty_tx = Inr ()"
    by (simp add: validate_transaction_stateless_def calculate_tx_size_bytes_def MAX_TX_SIZE_BYTES_def none fee
        demo_pool_def with_limits_def)
  moreover have "check_pool_fee sm demo_empty_tx 0 0 = Inr ()" by (simp add: check_pool_fee_exact none)
  ultimately have "validate_transaction_stateful ext pc (\<lambda>_. Some 50) demo_pool demo_empty_tx sm u = Some (sm, Inr ())"
    by (simp add: validate_transaction_stateful_def none)
  moreover have "should_accept_new_transaction demo_pool (inner demo_pool) 5"
    by (simp add: should_accept_new_transaction_def demo_pool_def with_limits_def mempool_inner_new_def fcard_fempty)
  moreover have "inner demo_pool = mempool_inner_new" "max_bytes demo_pool = 10"
    by (simp_all add: demo_pool_def with_limits_def)
  moreover have "evict_lowest_priority mempool_inner_new = mempool_inner_new"
    by (simp add: evict_lowest_priority_def lowest_priority_def mempool_inner_new_def)
  ultimately show ?thesis
    by (simp add: insert_transaction_def calculate_tx_size_bytes_def fee demo_pool1_def mempool_total_bytes_def
        add_pending_def mempool_inner_new_def Let_def)
qed

lemma demo_pool1_inv: "pool_inv (inner demo_pool1)"
  by (rule insert_keeps_inv [OF conjunct1 [OF byte_limit_overshoot]])
    (simp add: demo_pool_def with_limits_def pool_inv_new)

theorem reachable_pool_consistent_witness:
  "pool_inv (inner demo_pool1) \<and> mempool_len demo_pool1 \<le> 5"
proof -
  have "(pool_step demo_ext demo_pc0 (\<lambda>_. Some 50) iter)\<^sup>*\<^sup>* (with_limits 10 5 1 0) demo_pool1" for iter
    by (rule r_into_rtranclp, rule pool_step.inserted)
      (rule byte_limit_overshoot [THEN conjunct1, unfolded demo_pool_def])
  from reachable_pool_consistent [OF this] show ?thesis by simp
qed

theorem top_transactions_best_witness:
  "length (get_top_transactions demo_pool1 3) = 1"
proof -
  have "mempool_len demo_pool1 = 1"
    by (simp add: mempool_len_def demo_pool1_def demo_pool_def add_pending_def mempool_inner_new_def Let_def
        fcard_finsert_disjoint fcard_fempty)
  with top_transactions_best [OF demo_pool1_inv refl, of 3] show ?thesis by simp
qed

theorem insertion_effect_witness:
  "\<exists>rest. mp_transactions (inner demo_pool1) = fmupd (tx_id demo_empty_tx)
      \<lparr>pending_tx = demo_empty_tx, inserted_at = 7, size_bytes = 50,
       fee_per_byte = calculate_fee_per_byte demo_empty_tx 50\<rparr> rest \<and> rest = fmempty"
proof -
  have "pool_inv (inner demo_pool)" "mp_transactions (inner demo_pool) = fmempty"
    by (simp_all add: demo_pool_def with_limits_def pool_inv_new) (simp add: mempool_inner_new_def)
  with insertion_effect [OF this(1) conjunct1 [OF byte_limit_overshoot] refl refl refl]
  show ?thesis by (simp add: calculate_tx_size_bytes_def)
qed

definition demo_double_tx :: transaction where
  "demo_double_tx = demo_tx\<lparr>inputs := [demo_input, demo_input],
     outputs := [\<lparr>out_value = 150, pubkey_hash = Hash (replicate 32 2)\<rparr>], max_fee_per_gas := 1\<rparr>"

lemma demo_double_stateless:
  "validate_transaction_stateless demo_ext (\<lambda>_. Some 50) demo_pool demo_double_tx = Inr ()"
  by (simp add: validate_transaction_stateless_def calculate_tx_size_bytes_def MAX_TX_SIZE_BYTES_def
      calculate_fee_per_byte_def demo_double_tx_def demo_tx_def demo_pool_def with_limits_def saturating_mul_def
      check_pool_signature_def demo_input_def compute_sighash_def demo_ext_def schnorr_verify_def max_def Let_def)

text \<open>The repository's commitment scheme over the small field.\<close>

abbreviation demo_pool_pc :: pc_ops where
  "demo_pool_pc \<equiv> gf_pc demo_ext"

lemmas demo_pool_laws = gf_pc_laws [of demo_ext]

theorem stateful_validation_exact_witness:
  "\<exists>(sm :: state_manager) t. utxos demo_utxo = fmupd (outpoint_of demo_input)
       \<lparr>out_value = 100, pubkey_hash = Hash (replicate 32 1)\<rparr> fmempty
     \<and> validate_transaction_stateful demo_ext demo_pool_pc (\<lambda>_. Some 50) demo_pool demo_double_tx sm demo_utxo
        = Some (sm\<lparr>sm_tree := t\<rparr>, Inr ())"
proof -
  obtain t0 where t0: "vt_new demo_ext demo_pool_pc memory_storage_new = Inr t0"
    using pc_laws_new [OF demo_pool_laws] by blast
  define sm where "sm = \<lparr>sm_tree = t0, current_height = 0, snapshots = [], snapshot_storages = [],
     sm_prune_markers = fmempty, outpoint_to_key = fmupd (outpoint_of demo_input) demo_key fmempty,
     current_total_supply = 200, block_gas_fees = [], pending_updates = [], applying_block = False,
     block_undo_data = fmempty, current_block_hash = None\<rparr>"
  have keys: "provable_keys demo_ext demo_pool_pc sm"
    using live_tree_reachable [OF t0 rtranclp.rtrancl_refl] demo_key_length gf_openable
    by (auto simp: provable_keys_def sm_def live_tree_def)
  have u: "utxos demo_utxo = fmupd (outpoint_of demo_input) \<lparr>out_value = 100, pubkey_hash = Hash (replicate 32 1)\<rparr> fmempty"
    by (simp add: demo_utxo_def demo_input_def outpoint_of_def)
  have "inputs demo_double_tx = [demo_input, demo_input]" "outputs_value demo_double_tx = 150"
    "gas_limit demo_double_tx = 0"
    by (simp_all add: demo_double_tx_def demo_tx_def outputs_value_def)
  moreover have "input_spendable demo_utxo sm demo_input" "input_value demo_utxo demo_input = 100"
    "unat (current_total_supply sm) = 200"
    by (simp_all add: input_spendable_def input_value_def u sm_def)
  ultimately show ?thesis
    using stateful_validation_exact [OF keys demo_pool_laws pc_ops_of_opens, of "\<lambda>_. Some 50" demo_pool demo_double_tx demo_utxo]
      demo_double_stateless u by auto
qed

end
