(* ===== verification/Tx_Status.thy ===== *)
theory Tx_Status
  imports Prelude
begin

text \<open>
  The life cycle of a transaction in the node: \<open>klomang-node/src/mempool/status.rs\<close>.
\<close>

section \<open>The state machine\<close>

datatype transaction_status = Pending | Validated | InOrphanPool | InBlock | Rejected

datatype transaction_status_error =
    InvalidTransition transaction_status transaction_status
  | OperationNotAllowed transaction_status string

text \<open>The arms of the match, in order.\<close>

fun can_transition_to :: "transaction_status \<Rightarrow> transaction_status \<Rightarrow> bool" where
  "can_transition_to Pending Validated = True"
| "can_transition_to Pending InOrphanPool = True"
| "can_transition_to Pending Rejected = True"
| "can_transition_to InOrphanPool Validated = True"
| "can_transition_to InOrphanPool Rejected = True"
| "can_transition_to Validated InBlock = True"
| "can_transition_to Validated Rejected = True"
| "can_transition_to InBlock _ = False"
| "can_transition_to Rejected _ = False"
| "can_transition_to s1 s2 = (s1 = s2)"

definition transition_to ::
    "transaction_status \<Rightarrow> transaction_status \<Rightarrow> transaction_status \<times> (transaction_status_error + unit)" where
  "transition_to self target =
     (if \<not> can_transition_to self target then (self, Inl (InvalidTransition self target)) else (target, Inr ()))"

definition is_in_pool :: "transaction_status \<Rightarrow> bool" where
  "is_in_pool s \<longleftrightarrow> (case s of Pending \<Rightarrow> True | Validated \<Rightarrow> True | InOrphanPool \<Rightarrow> True | _ \<Rightarrow> False)"

definition is_ready_for_block :: "transaction_status \<Rightarrow> bool" where
  "is_ready_for_block s \<longleftrightarrow> (case s of Validated \<Rightarrow> True | _ \<Rightarrow> False)"

definition is_terminal :: "transaction_status \<Rightarrow> bool" where
  "is_terminal s \<longleftrightarrow> (case s of InBlock \<Rightarrow> True | Rejected \<Rightarrow> True | _ \<Rightarrow> False)"

section \<open>Histories\<close>

text \<open>A history is a list of requested targets; refused requests leave the status as it is.\<close>

fun run_status :: "transaction_status \<Rightarrow> transaction_status list \<Rightarrow> transaction_status" where
  "run_status s [] = s"
| "run_status s (t # ts) = run_status (fst (transition_to s t)) ts"

text \<open>How far a status is from the end of the life cycle.\<close>

fun status_rank :: "transaction_status \<Rightarrow> nat" where
  "status_rank Pending = 3"
| "status_rank InOrphanPool = 2"
| "status_rank Validated = 1"
| "status_rank InBlock = 0"
| "status_rank Rejected = 0"

lemma terminal_iff: "is_terminal s \<longleftrightarrow> s = InBlock \<or> s = Rejected"
  by (cases s) (simp_all add: is_terminal_def)

lemma transition_rank:
  "transition_to s t = (s', Inr ()) \<Longrightarrow> s' = t \<and> (s' = s \<or> status_rank s' < status_rank s)"
  by (cases s; cases t) (auto simp: transition_to_def)

lemma run_terminal: "is_terminal s \<Longrightarrow> run_status s ts = s"
proof (induction ts)
  case (Cons t ts)
  then have "fst (transition_to s t) = s" by (cases s; cases t) (simp_all add: transition_to_def is_terminal_def)
  with Cons show ?case by simp
qed simp

lemma run_rank: "status_rank (run_status s ts) \<le> status_rank s"
proof (induction ts arbitrary: s)
  case (Cons t ts)
  have "status_rank (fst (transition_to s t)) \<le> status_rank s"
    by (cases s; cases t) (simp_all add: transition_to_def)
  with Cons [of "fst (transition_to s t)"] show ?case by simp
qed simp

lemma run_append: "run_status s (ts @ us) = run_status (run_status s ts) us"
  by (induction ts arbitrary: s) auto

lemma reaches_block:
  "s \<noteq> InBlock \<Longrightarrow> run_status s ts = InBlock \<Longrightarrow> \<exists>us vs. ts = us @ InBlock # vs \<and> run_status s us = Validated"
proof (induction ts arbitrary: s)
  case (Cons t ts)
  let ?s = "fst (transition_to s t)"
  show ?case
  proof (cases "?s = InBlock")
    case True
    with Cons.prems(1) have "s = Validated" "t = InBlock"
      by (cases s; cases t; simp add: transition_to_def)+
    then have "t # ts = [] @ InBlock # ts \<and> run_status s [] = Validated" by simp
    then show ?thesis by blast
  next
    case False
    with Cons.IH [of ?s] Cons.prems(2) obtain us vs where "ts = us @ InBlock # vs" "run_status ?s us = Validated" by auto
    then have "t # ts = (t # us) @ InBlock # vs \<and> run_status s (t # us) = Validated" by simp
    then show ?thesis by blast
  qed
qed simp

section \<open>Properties\<close>

text \<open>The status only moves forward: pending, orphan, validated, final. No request leads back to
  pending, so the way from the orphan pool goes straight to validated, and a final status is
  never left.\<close>

lemma status_moves_forward:
  "status_rank (run_status s us) \<le> status_rank s" "is_terminal s \<Longrightarrow> run_status s us = s"
  "transition_to s Pending = (Pending, Inr ()) \<Longrightarrow> s = Pending"
  using run_rank run_terminal by (blast, blast, cases s) (simp_all add: transition_to_def)

text \<open>C27: the way into a block. Whatever transitions are requested in whatever order, a transaction
  that starts out pending is put into a block only by a request made while it is validated, and
  once it is in a block or rejected, no further request takes it back into the pool.\<close>

theorem status_life_cycle:
  assumes "s = run_status Pending ts"
  shows "(s = InBlock \<longrightarrow> (\<exists>us vs. ts = us @ InBlock # vs \<and> is_ready_for_block (run_status Pending us)))
    \<and> (\<not> is_in_pool s \<longrightarrow> (\<forall>us. \<not> is_in_pool (run_status s us)))"
proof -
  have ready: "is_ready_for_block Validated" by (simp add: is_ready_for_block_def)
  have "s = InBlock \<longrightarrow> (\<exists>us vs. ts = us @ InBlock # vs \<and> is_ready_for_block (run_status Pending us))"
    using reaches_block [of Pending ts] ready assms by (metis transaction_status.distinct(5))
  moreover have "is_in_pool s \<longleftrightarrow> \<not> is_terminal s" for s
    by (cases s) (simp_all add: is_in_pool_def is_terminal_def)
  ultimately show ?thesis using run_terminal by simp
qed

theorem status_life_cycle_witness:
  "\<exists>us vs. [Validated, Pending, InBlock, Rejected] = us @ InBlock # vs \<and> is_ready_for_block (run_status Pending us)"
  using status_life_cycle [of InBlock "[Validated, Pending, InBlock, Rejected]"]
  by (simp add: transition_to_def)

end
