(* ===== verification/Graph_Search.thy ===== *)
theory Graph_Search
  imports Prelude
begin

text \<open>
  Breadth-first search over a finite map of successor lists, the loop that several components of the
  node run over their own tables: a queue, a set of nodes seen, and the nodes in the order they
  leave the queue.
\<close>

section \<open>The search\<close>

fun push_unseen :: "'a list \<Rightarrow> 'a fset \<Rightarrow> 'a list \<Rightarrow> 'a fset \<times> 'a list" where
  "push_unseen [] visited queue = (visited, queue)"
| "push_unseen (c # cs) visited queue =
     (if c |\<in>| visited then push_unseen cs visited queue
      else push_unseen cs (finsert c visited) (queue @ [c]))"

definition succs_of :: "('a, 'a list) fmap \<Rightarrow> 'a \<Rightarrow> 'a list" where
  "succs_of g x = (case fmlookup g x of None \<Rightarrow> [] | Some ys \<Rightarrow> ys)"

definition succ_rel :: "('a, 'a list) fmap \<Rightarrow> ('a \<times> 'a) set" where
  "succ_rel g = {(x, y). y \<in> set (succs_of g x)}"

definition targets :: "('a, 'a list) fmap \<Rightarrow> 'a set" where
  "targets g = (\<Union>ys\<in>fmran' g. set ys)"

lemma finite_targets: "finite (targets g)"
  unfolding targets_def fmran'_alt_def by simp

lemma succs_targets: "set (succs_of g x) \<subseteq> targets g"
proof (cases "fmlookup g x")
  case (Some ys)
  then have "ys \<in> fmran' g" by (rule fmran'I)
  with Some show ?thesis unfolding succs_of_def targets_def by auto
qed (simp add: succs_of_def)

lemma push_unseen_spec:
  assumes "push_unseen cs visited queue = (visited', queue')"
  shows "\<exists>new. queue' = queue @ new \<and> distinct new \<and> set new = set cs - fset visited
    \<and> fset visited' = fset visited \<union> set cs"
  using assms
proof (induction cs arbitrary: visited queue)
  case (Cons c cs)
  show ?case
  proof (cases "c |\<in>| visited")
    case True
    with Cons show ?thesis by fastforce
  next
    case False
    with Cons.prems have "push_unseen cs (finsert c visited) (queue @ [c]) = (visited', queue')" by simp
    from Cons.IH [OF this] obtain new where "queue' = (queue @ [c]) @ new" "distinct new"
      "set new = set cs - insert c (fset visited)" "fset visited' = insert c (fset visited) \<union> set cs" by auto
    with False show ?thesis by (intro exI [of _ "c # new"]) auto
  qed
qed simp

function bfs :: "('a, 'a list) fmap \<Rightarrow> 'a list \<Rightarrow> 'a fset \<Rightarrow> 'a list \<Rightarrow> 'a list" where
  "bfs g acc visited [] = acc"
| "bfs g acc visited (x # queue) =
     (case push_unseen (succs_of g x) visited queue of (visited', queue') \<Rightarrow> bfs g (acc @ [x]) visited' queue')"
  by pat_completeness auto

termination
proof (relation "measure (\<lambda>(g, acc, visited, queue). card (targets g - fset visited) + length queue)", goal_cases)
  case 1
  then show ?case by simp
next
  case (2 g acc visited x queue visited' queue')
  then obtain new where new: "queue' = queue @ new" "distinct new" "set new = set (succs_of g x) - fset visited"
    "fset visited' = fset visited \<union> set (succs_of g x)"
    using push_unseen_spec [of "succs_of g x" visited queue] by metis
  have split: "targets g - fset visited = (targets g - fset visited') \<union> set new"
    using new(3,4) succs_targets [of g x] by auto
  have "card (targets g - fset visited) = card (targets g - fset visited') + card (set new)"
    unfolding split using new(3,4) finite_targets [of g] by (intro card_Un_disjoint) auto
  with new(1) distinct_card [OF new(2)] show ?case by simp
qed

text \<open>What holds between two rounds: every node seen is done or queued, and successors of done
  nodes are seen.\<close>

definition bfs_inv :: "('a, 'a list) fmap \<Rightarrow> 'a \<Rightarrow> 'a list \<Rightarrow> 'a fset \<Rightarrow> 'a list \<Rightarrow> bool" where
  "bfs_inv g s acc visited queue \<longleftrightarrow> distinct (acc @ queue) \<and> fset visited = set acc \<union> set queue
     \<and> s |\<in>| visited \<and> fset visited \<subseteq> (succ_rel g)\<^sup>* `` {s} \<and> (\<forall>x\<in>set acc. set (succs_of g x) \<subseteq> fset visited)"

lemma bfs_inv_step:
  assumes "bfs_inv g s acc visited (x # queue)" and "push_unseen (succs_of g x) visited queue = (visited', queue')"
  shows "bfs_inv g s (acc @ [x]) visited' queue'"
proof -
  obtain new where new: "queue' = queue @ new" "distinct new" "set new = set (succs_of g x) - fset visited"
    "fset visited' = fset visited \<union> set (succs_of g x)"
    using push_unseen_spec [OF assms(2)] by blast
  have "(s, x) \<in> (succ_rel g)\<^sup>*" using assms(1) by (auto simp: bfs_inv_def)
  then have "set (succs_of g x) \<subseteq> (succ_rel g)\<^sup>* `` {s}"
    by (auto simp: succ_rel_def intro: rtrancl_into_rtrancl)
  moreover have "set (succs_of g y) \<subseteq> fset visited'" if "y \<in> set (acc @ [x])" for y
    using that assms(1) new(4) unfolding bfs_inv_def by (cases "y = x") fastforce+
  ultimately show ?thesis using assms(1) new unfolding bfs_inv_def by auto
qed

lemma bfs_inv_done:
  assumes "bfs_inv g s acc visited []"
  shows "distinct acc \<and> set acc = (succ_rel g)\<^sup>* `` {s}"
proof -
  have "y \<in> set acc" if "(s, y) \<in> (succ_rel g)\<^sup>*" for y
    using that
  proof (induction rule: rtrancl_induct)
    case (step y z)
    with assms show ?case by (auto simp: bfs_inv_def succ_rel_def)
  qed (use assms in \<open>auto simp: bfs_inv_def\<close>)
  with assms show ?thesis by (auto simp: bfs_inv_def)
qed

lemma bfs_keeps_inv: "bfs_inv g s acc visited queue \<Longrightarrow> \<exists>visited'. bfs_inv g s (bfs g acc visited queue) visited' []"
proof (induction g acc visited queue rule: bfs.induct)
  case (2 g acc visited x queue)
  obtain visited' queue' where p: "push_unseen (succs_of g x) visited queue = (visited', queue')"
    by (cases "push_unseen (succs_of g x) visited queue")
  from "2.IH" [OF p [symmetric] bfs_inv_step [OF "2.prems" p]] p show ?case by simp
qed auto

text \<open>The search from one node lists each node that can be reached from it exactly once.\<close>

lemma bfs_exact:
  "distinct (bfs g [] {|s|} [s]) \<and> set (bfs g [] {|s|} [s]) = (succ_rel g)\<^sup>* `` {s}"
proof -
  have "bfs_inv g s [] {|s|} [s]" by (auto simp: bfs_inv_def)
  then show ?thesis using bfs_keeps_inv bfs_inv_done by metis
qed

end
