(* ===== verification/Dependency_Graph.thy ===== *)
theory Dependency_Graph
  imports Graph_Search
begin

text \<open>
  Dependencies between pending transactions in the node and the partitions they fall into:
  \<open>klomang-node/src/mempool/dependency_graph.rs\<close>. A transaction hash is its bytes. The order in which
  a hash set is iterated is the argument \<open>ord\<close>. The mutexes are not modelled; no operation takes one
  while it holds a later one.
\<close>

section \<open>Data\<close>

type_synonym set_order = "bytes fset \<Rightarrow> bytes list"

record transaction_dependency =
  dep_parents :: "bytes fset"
  dep_children :: "bytes fset"
  dep_in_conflict :: bool
  dep_conflict_reason :: "string option"

definition transaction_dependency_new :: transaction_dependency where
  "transaction_dependency_new =
     \<lparr>dep_parents = {||}, dep_children = {||}, dep_in_conflict = False, dep_conflict_reason = None\<rparr>"

record conflict_partition =
  part_transactions :: "bytes fset"
  part_in_conflict :: bool
  part_conflict_reason :: "string option"
  part_id :: u64

definition conflict_partition_new :: "u64 \<Rightarrow> conflict_partition" where
  "conflict_partition_new n =
     \<lparr>part_transactions = {||}, part_in_conflict = False, part_conflict_reason = None, part_id = n\<rparr>"

definition partition_mark_conflict :: "conflict_partition \<Rightarrow> string \<Rightarrow> conflict_partition" where
  "partition_mark_conflict self reason = self\<lparr>part_in_conflict := True, part_conflict_reason := Some reason\<rparr>"

record dependency_graph_stats =
  total_dependencies :: u64
  total_partitions :: u64
  conflict_propagations :: u64
  affected_transactions :: u64

record dependency_graph =
  dependencies :: "(bytes, transaction_dependency) fmap"
  dg_partitions :: "(bytes, u64) fmap"
  partition_data :: "(u64, conflict_partition) fmap"
  dg_stats :: dependency_graph_stats
  next_partition_id :: u64

definition dependency_graph_new :: dependency_graph where
  "dependency_graph_new = \<lparr>dependencies = fmempty, dg_partitions = fmempty, partition_data = fmempty,
     dg_stats = \<lparr>total_dependencies = 0, total_partitions = 0, conflict_propagations = 0, affected_transactions = 0\<rparr>,
     next_partition_id = 1\<rparr>"

section \<open>Operations\<close>

definition register_node :: "dependency_graph \<Rightarrow> bytes \<Rightarrow> dependency_graph" where
  "register_node self h =
     (if h |\<in>| fmdom (dependencies self) then self
      else
        let n = next_partition_id self;
            p = (conflict_partition_new n)\<lparr>part_transactions := {|h|}\<rparr>
        in self\<lparr>dependencies := fmupd h transaction_dependency_new (dependencies self),
             next_partition_id := n + 1, dg_partitions := fmupd h n (dg_partitions self),
             partition_data := fmupd n p (partition_data self),
             dg_stats := (dg_stats self)\<lparr>total_partitions := total_partitions (dg_stats self) + 1\<rparr>\<rparr>)"

text \<open>\<open>if let Some(x) = map.get_mut(k)\<close>: change the value under a key if there is one.\<close>

definition alter :: "'k \<Rightarrow> ('v \<Rightarrow> 'v) \<Rightarrow> ('k, 'v) fmap \<Rightarrow> ('k, 'v) fmap" where
  "alter k f m = (case fmlookup m k of None \<Rightarrow> m | Some v \<Rightarrow> fmupd k (f v) m)"

definition join_partition :: "conflict_partition \<Rightarrow> conflict_partition \<Rightarrow> conflict_partition" where
  "join_partition child parent =
     (let p = parent\<lparr>part_transactions := part_transactions parent |\<union>| part_transactions child\<rparr> in
      if part_in_conflict child
      then p\<lparr>part_in_conflict := True,
             part_conflict_reason := (case part_conflict_reason child of Some r \<Rightarrow> Some r | None \<Rightarrow> part_conflict_reason p)\<rparr>
      else p)"

definition merge_partitions :: "dependency_graph \<Rightarrow> bytes \<Rightarrow> bytes \<Rightarrow> dependency_graph \<times> (string + unit)" where
  "merge_partitions self child parent =
     (case fmlookup (dg_partitions self) child of
        None \<Rightarrow> (self, Inl ''Child not in partitions'')
      | Some child_id \<Rightarrow>
          (case fmlookup (dg_partitions self) parent of
             None \<Rightarrow> (self, Inl ''Parent not in partitions'')
           | Some parent_id \<Rightarrow>
               if child_id = parent_id then (self, Inr ())
               else case fmlookup (partition_data self) child_id of
                 None \<Rightarrow> (self, Inl ''Child partition not found'')
               | Some child_partition \<Rightarrow>
                   (self\<lparr>partition_data := alter parent_id (join_partition child_partition) (partition_data self),
                      dg_partitions := fmupds (map (\<lambda>tx. (tx, parent_id))
                        (sorted_list_of_fset (part_transactions child_partition))) (dg_partitions self)\<rparr>,
                    Inr ())))"

definition link_nodes :: "bytes \<Rightarrow> bytes \<Rightarrow> dependency_graph \<Rightarrow> dependency_graph" where
  "link_nodes child parent self =
     self\<lparr>dependencies :=
       alter parent (\<lambda>d. d\<lparr>dep_children := finsert child (dep_children d)\<rparr>)
         (alter child (\<lambda>d. d\<lparr>dep_parents := finsert parent (dep_parents d)\<rparr>) (dependencies self))\<rparr>"

definition add_dependency :: "dependency_graph \<Rightarrow> bytes \<Rightarrow> bytes \<Rightarrow> dependency_graph \<times> (string + unit)" where
  "add_dependency self child parent =
     (case merge_partitions (link_nodes child parent (register_node (register_node self child) parent)) child parent of
        (self', Inl e) \<Rightarrow> (self', Inl e)
      | (self', Inr _) \<Rightarrow>
          (self'\<lparr>dg_stats := (dg_stats self')\<lparr>total_dependencies := total_dependencies (dg_stats self') + 1\<rparr>\<rparr>, Inr ()))"

definition mark_conflict ::
    "set_order \<Rightarrow> dependency_graph \<Rightarrow> bytes \<Rightarrow> string \<Rightarrow> dependency_graph \<times> (string + bytes list)" where
  "mark_conflict ord self h reason =
     (case fmlookup (dg_partitions self) h of
        None \<Rightarrow> (self, Inl ''Transaction not in graph'')
      | Some n \<Rightarrow>
          (let affected = (case fmlookup (partition_data self) n of None \<Rightarrow> [] | Some p \<Rightarrow> ord (part_transactions p));
               flag = (\<lambda>d. d\<lparr>dep_in_conflict := True, dep_conflict_reason := Some reason\<rparr>)
           in (self\<lparr>partition_data := alter n (\<lambda>p. partition_mark_conflict p reason) (partition_data self),
                 dependencies := fold (\<lambda>tx. alter tx flag) affected (dependencies self),
                 dg_stats := (dg_stats self)\<lparr>conflict_propagations := conflict_propagations (dg_stats self) + 1,
                   affected_transactions := affected_transactions (dg_stats self) + of_nat (length affected)\<rparr>\<rparr>,
               Inr affected)))"

definition get_dependents :: "set_order \<Rightarrow> dependency_graph \<Rightarrow> bytes \<Rightarrow> bytes list" where
  "get_dependents ord self h = (case fmlookup (dependencies self) h of None \<Rightarrow> [] | Some d \<Rightarrow> ord (dep_children d))"

definition get_parents :: "set_order \<Rightarrow> dependency_graph \<Rightarrow> bytes \<Rightarrow> bytes list" where
  "get_parents ord self h = (case fmlookup (dependencies self) h of None \<Rightarrow> [] | Some d \<Rightarrow> ord (dep_parents d))"

definition is_in_conflict :: "dependency_graph \<Rightarrow> bytes \<Rightarrow> bool" where
  "is_in_conflict self h = (case fmlookup (dependencies self) h of None \<Rightarrow> False | Some d \<Rightarrow> dep_in_conflict d)"

definition get_conflict_reason :: "dependency_graph \<Rightarrow> bytes \<Rightarrow> string option" where
  "get_conflict_reason self h = Option.bind (fmlookup (dependencies self) h) dep_conflict_reason"

definition get_partition :: "dependency_graph \<Rightarrow> bytes \<Rightarrow> conflict_partition option" where
  "get_partition self h = Option.bind (fmlookup (dg_partitions self) h) (fmlookup (partition_data self))"

definition get_partition_members :: "set_order \<Rightarrow> dependency_graph \<Rightarrow> bytes \<Rightarrow> bytes list" where
  "get_partition_members ord self h =
     (case fmlookup (dg_partitions self) h of
        None \<Rightarrow> []
      | Some n \<Rightarrow> (case fmlookup (partition_data self) n of None \<Rightarrow> [] | Some p \<Rightarrow> ord (part_transactions p)))"

definition child_lists :: "set_order \<Rightarrow> dependency_graph \<Rightarrow> (bytes, bytes list) fmap" where
  "child_lists ord self = fmmap (\<lambda>d. ord (dep_children d)) (dependencies self)"

text \<open>The loop is \<open>bfs\<close> over the children of each transaction.\<close>

definition find_affected_downstream :: "set_order \<Rightarrow> dependency_graph \<Rightarrow> bytes \<Rightarrow> bytes list" where
  "find_affected_downstream ord self h = bfs (child_lists ord self) [] {|h|} [h]"

definition remove_node :: "set_order \<Rightarrow> dependency_graph \<Rightarrow> bytes \<Rightarrow> dependency_graph" where
  "remove_node ord self h =
     (let ps = get_parents ord self h; cs = get_dependents ord self h;
          deps1 = fold (\<lambda>p. alter p (\<lambda>d. d\<lparr>dep_children := dep_children d |-| {|h|}\<rparr>)) ps (dependencies self);
          deps2 = fold (\<lambda>c. alter c (\<lambda>d. d\<lparr>dep_parents := dep_parents d |-| {|h|}\<rparr>)) cs deps1
      in self\<lparr>dependencies := fmdrop h deps2, dg_partitions := fmdrop h (dg_partitions self)\<rparr>)"

definition dg_clear :: "dependency_graph \<Rightarrow> dependency_graph" where
  "dg_clear self = dependency_graph_new"

definition dg_len :: "dependency_graph \<Rightarrow> nat" where
  "dg_len self = fcard (fmdom (dependencies self))"

section \<open>Histories\<close>

datatype dg_op = Register bytes | Depend bytes bytes | Conflict bytes string | Remove bytes

fun apply_op :: "set_order \<Rightarrow> dependency_graph \<Rightarrow> dg_op \<Rightarrow> dependency_graph" where
  "apply_op ord g (Register h) = register_node g h"
| "apply_op ord g (Depend c p) = fst (add_dependency g c p)"
| "apply_op ord g (Conflict h reason) = fst (mark_conflict ord g h reason)"
| "apply_op ord g (Remove h) = remove_node ord g h"

definition run_ops :: "set_order \<Rightarrow> dg_op list \<Rightarrow> dependency_graph" where
  "run_ops ord ops = foldl (apply_op ord) dependency_graph_new ops"

text \<open>The reference: the dependencies stated so far, from parent to child, and the transactions
  known.\<close>

fun edge_op :: "(bytes \<times> bytes) set \<Rightarrow> dg_op \<Rightarrow> (bytes \<times> bytes) set" where
  "edge_op E (Depend c p) = insert (p, c) E"
| "edge_op E (Remove h) = {(p, c). (p, c) \<in> E \<and> p \<noteq> h \<and> c \<noteq> h}"
| "edge_op E _ = E"

definition dep_edges :: "dg_op list \<Rightarrow> (bytes \<times> bytes) set" where
  "dep_edges ops = foldl edge_op {} ops"

section \<open>Links\<close>

lemma lookup_alter: "fmlookup (alter k f m) k' = (if k = k' then map_option f (fmlookup m k) else fmlookup m k')"
  by (auto simp: alter_def split: option.splits)

lemma fmdom_alter [simp]: "fmdom (alter k f m) = fmdom m"
  by (auto simp: alter_def fmdomI split: option.splits)

lemma lookup_fold_alter:
  assumes "\<And>v. f (f v) = f v"
  shows "fmlookup (fold (\<lambda>k. alter k f) ks m) k' = (if k' \<in> set ks then map_option f (fmlookup m k') else fmlookup m k')"
  using assms by (induction ks arbitrary: m) (auto simp: lookup_alter option.map_comp comp_def)

lemma fmdom_fold_alter [simp]: "fmdom (fold (\<lambda>k. alter k f) ks m) = fmdom m"
  by (induction ks arbitrary: m) simp_all

definition iterates :: "set_order \<Rightarrow> bool" where
  "iterates ord \<longleftrightarrow> (\<forall>s. set (ord s) = fset s)"

lemma iteratesD: "iterates ord \<Longrightarrow> set (ord s) = fset s"
  by (simp add: iterates_def)

definition links_exact :: "dependency_graph \<Rightarrow> (bytes \<times> bytes) set \<Rightarrow> bool" where
  "links_exact g E \<longleftrightarrow>
     (\<forall>x d. fmlookup (dependencies g) x = Some d \<longrightarrow> fset (dep_children d) = {y. (x, y) \<in> E} \<and> fset (dep_parents d) = {y. (y, x) \<in> E})
     \<and> (\<forall>x y. (x, y) \<in> E \<longrightarrow> x |\<in>| fmdom (dependencies g) \<and> y |\<in>| fmdom (dependencies g))"

lemma links_new: "links_exact dependency_graph_new {}"
  by (simp add: links_exact_def dependency_graph_new_def)

lemma links_cong: "dependencies g = dependencies g' \<Longrightarrow> links_exact g E = links_exact g' E"
  by (simp add: links_exact_def)

lemma links_fresh:
  assumes "links_exact g E" and "h |\<notin>| fmdom (dependencies g)"
  shows "(h, y) \<notin> E" "(y, h) \<notin> E"
  using assms by (auto simp: links_exact_def)

lemma dependencies_register:
  "dependencies (register_node g h) = (if h |\<in>| fmdom (dependencies g) then dependencies g
     else fmupd h transaction_dependency_new (dependencies g))"
  by (simp add: register_node_def Let_def)

lemma links_register:
  assumes "links_exact g E"
  shows "links_exact (register_node g h) E"
proof (cases "h |\<in>| fmdom (dependencies g)")
  case True
  then show ?thesis using assms by (simp add: register_node_def)
next
  case False
  have "fset (dep_children d) = {y. (x, y) \<in> E} \<and> fset (dep_parents d) = {y. (y, x) \<in> E}"
    if "fmlookup (dependencies (register_node g h)) x = Some d" for x d
    using that assms False links_fresh [OF assms False]
    by (cases "x = h") (auto simp: dependencies_register transaction_dependency_new_def links_exact_def)
  moreover have "fmdom (dependencies g) |\<subseteq>| fmdom (dependencies (register_node g h))"
    by (auto simp: dependencies_register)
  ultimately show ?thesis using assms unfolding links_exact_def by blast
qed

lemma links_link:
  assumes "links_exact g E" and "c |\<in>| fmdom (dependencies g)" and "p |\<in>| fmdom (dependencies g)"
  shows "links_exact (link_nodes c p g) (insert (p, c) E)"
proof -
  have "fset (dep_children d) = {y. (x, y) \<in> insert (p, c) E} \<and> fset (dep_parents d) = {y. (y, x) \<in> insert (p, c) E}"
    if look: "fmlookup (dependencies (link_nodes c p g)) x = Some d" for x d
  proof -
    obtain d0 where d0: "fmlookup (dependencies g) x = Some d0"
      "dep_children d = (if x = p then finsert c (dep_children d0) else dep_children d0)"
      "dep_parents d = (if x = c then finsert p (dep_parents d0) else dep_parents d0)"
      using look by (cases "fmlookup (dependencies g) x") (auto simp: link_nodes_def lookup_alter split: if_splits)
    with assms(1) show ?thesis by (auto simp: links_exact_def)
  qed
  moreover have dom_eq: "fmdom (dependencies (link_nodes c p g)) = fmdom (dependencies g)" by (simp add: link_nodes_def)
  ultimately show ?thesis using assms unfolding links_exact_def dom_eq by blast
qed

lemma dependencies_merge: "dependencies (fst (merge_partitions g c p)) = dependencies g"
  by (auto simp: merge_partitions_def split: option.splits)

lemma dependencies_add:
  "dependencies (fst (add_dependency g c p)) = dependencies (link_nodes c p (register_node (register_node g c) p))"
proof -
  obtain g' r where m: "merge_partitions (link_nodes c p (register_node (register_node g c) p)) c p = (g', r)"
    by (cases "merge_partitions (link_nodes c p (register_node (register_node g c) p)) c p")
  have "dependencies g' = dependencies (link_nodes c p (register_node (register_node g c) p))"
    using dependencies_merge [of "link_nodes c p (register_node (register_node g c) p)" c p] by (simp add: m)
  then show ?thesis by (cases r) (simp_all add: add_dependency_def m)
qed

lemma links_add:
  assumes "links_exact g E"
  shows "links_exact (fst (add_dependency g c p)) (insert (p, c) E)"
  unfolding links_cong [OF dependencies_add]
  by (intro links_link links_register assms) (auto simp: dependencies_register)

lemma links_mark: "links_exact g E \<Longrightarrow> links_exact (fst (mark_conflict ord g h reason)) E"
  by (auto simp: mark_conflict_def links_exact_def Let_def lookup_fold_alter split: option.splits if_splits)

lemma links_sets:
  assumes "links_exact g E" and "iterates ord"
  shows "set (get_dependents ord g x) = {y. (x, y) \<in> E}" "set (get_parents ord g x) = {y. (y, x) \<in> E}"
proof -
  have "set (get_dependents ord g x) = {y. (x, y) \<in> E} \<and> set (get_parents ord g x) = {y. (y, x) \<in> E}"
  proof (cases "fmlookup (dependencies g) x")
    case None
    then have "x |\<notin>| fmdom (dependencies g)" by (simp add: fmlookup_dom_iff)
    from links_fresh [OF assms(1) this] None show ?thesis by (auto simp: get_dependents_def get_parents_def)
  next
    case (Some d)
    with assms(1) show ?thesis
      by (simp add: get_dependents_def get_parents_def iteratesD [OF assms(2)] links_exact_def)
  qed
  then show "set (get_dependents ord g x) = {y. (x, y) \<in> E}" "set (get_parents ord g x) = {y. (y, x) \<in> E}" by simp_all
qed

lemma links_remove:
  assumes "links_exact g E" and "iterates ord"
  shows "links_exact (remove_node ord g h) {(p, c). (p, c) \<in> E \<and> p \<noteq> h \<and> c \<noteq> h}"
proof -
  let ?g = "remove_node ord g h"
  have look: "\<exists>d0. fmlookup (dependencies g) x = Some d0
      \<and> dep_children d = (if x \<in> set (get_parents ord g h) then dep_children d0 |-| {|h|} else dep_children d0)
      \<and> dep_parents d = (if x \<in> set (get_dependents ord g h) then dep_parents d0 |-| {|h|} else dep_parents d0)"
    and neq: "x \<noteq> h"
    if d: "fmlookup (dependencies ?g) x = Some d" for x d
    using d by (auto simp: remove_node_def Let_def lookup_fold_alter split: if_splits)
  have sets: "x \<in> set (get_parents ord g h) \<longleftrightarrow> (x, h) \<in> E" "x \<in> set (get_dependents ord g h) \<longleftrightarrow> (h, x) \<in> E" for x
    by (simp_all add: links_sets [OF assms])
  have "fset (dep_children d) = {y. (x, y) \<in> E \<and> x \<noteq> h \<and> y \<noteq> h} \<and> fset (dep_parents d) = {y. (y, x) \<in> E \<and> y \<noteq> h \<and> x \<noteq> h}"
    if d: "fmlookup (dependencies ?g) x = Some d" for x d
  proof -
    obtain d0 where d0: "fmlookup (dependencies g) x = Some d0"
      "dep_children d = (if (x, h) \<in> E then dep_children d0 |-| {|h|} else dep_children d0)"
      "dep_parents d = (if (h, x) \<in> E then dep_parents d0 |-| {|h|} else dep_parents d0)"
      using look [OF d] by (auto simp: sets)
    have "fset (dep_children d0) = {y. (x, y) \<in> E}" "fset (dep_parents d0) = {y. (y, x) \<in> E}"
      using assms(1) d0(1) by (auto simp: links_exact_def)
    with d0 neq [OF d] show ?thesis by auto
  qed
  moreover have "fmdom (dependencies ?g) = fmdom (dependencies g) |-| {|h|}"
    by (simp add: remove_node_def Let_def)
  ultimately show ?thesis using assms(1) by (simp add: links_exact_def) blast
qed

lemma links_run:
  assumes "iterates ord"
  shows "links_exact (run_ops ord ops) (dep_edges ops)"
proof (induction ops rule: rev_induct)
  case Nil
  then show ?case by (simp add: run_ops_def dep_edges_def links_new)
next
  case (snoc op ops)
  then show ?case
    by (cases op) (simp_all add: run_ops_def dep_edges_def links_register links_add links_mark links_remove [OF _ assms])
qed

lemma child_lists_rel:
  assumes "links_exact g E" and "iterates ord"
  shows "succ_rel (child_lists ord g) = E"
proof -
  have "succs_of (child_lists ord g) x = get_dependents ord g x" for x
    by (auto simp: succs_of_def child_lists_def get_dependents_def split: option.splits)
  then show ?thesis by (simp add: succ_rel_def links_sets [OF assms])
qed

section \<open>Partitions\<close>

definition connected :: "(bytes \<times> bytes) set \<Rightarrow> bytes \<Rightarrow> bytes \<Rightarrow> bool" where
  "connected E a b \<longleftrightarrow> (a, b) \<in> (E \<union> E\<inverse>)\<^sup>*"

lemma connected_sym: "connected E a b \<Longrightarrow> connected E b a"
  unfolding connected_def by (metis converse_Un converse_converse rtrancl_converseI sup_commute)

lemma connected_trans: "connected E a b \<Longrightarrow> connected E b c \<Longrightarrow> connected E a c"
  unfolding connected_def by (rule rtrancl_trans)

lemma connected_mono: "connected E a b \<Longrightarrow> connected (insert e E) a b"
  unfolding connected_def by (erule rtrancl_mono [THEN subsetD, rotated]) auto

lemma connected_edge: "(p, c) \<in> E \<Longrightarrow> connected E p c"
  unfolding connected_def by auto

text \<open>The label of a transaction is its partition id. Transactions have equal labels exactly when they
  are connected, the partition of a label lists exactly its transactions, and fresh ids are unused.\<close>

definition parts_exact :: "dependency_graph \<Rightarrow> (bytes \<times> bytes) set \<Rightarrow> bool" where
  "parts_exact g E \<longleftrightarrow> fmdom (dg_partitions g) = fmdom (dependencies g)
     \<and> (\<forall>a n. fmlookup (dg_partitions g) a = Some n \<longrightarrow> unat n < unat (next_partition_id g)
          \<and> (\<exists>p. fmlookup (partition_data g) n = Some p
               \<and> (\<forall>b. b |\<in>| part_transactions p \<longleftrightarrow> fmlookup (dg_partitions g) b = Some n)))
     \<and> (\<forall>a b n m. fmlookup (dg_partitions g) a = Some n \<and> fmlookup (dg_partitions g) b = Some m \<longrightarrow>
          (n = m \<longleftrightarrow> connected E a b))"

lemma parts_new: "parts_exact dependency_graph_new {}"
  by (simp add: parts_exact_def dependency_graph_new_def)

lemma parts_cong:
  "fmdom (dependencies g) = fmdom (dependencies g') \<Longrightarrow> dg_partitions g = dg_partitions g' \<Longrightarrow>
   partition_data g = partition_data g' \<Longrightarrow> next_partition_id g = next_partition_id g' \<Longrightarrow>
   parts_exact g E = parts_exact g' E"
  by (simp add: parts_exact_def)

lemma connected_fresh:
  assumes "links_exact g E" and "h |\<notin>| fmdom (dependencies g)" and "connected E h b"
  shows "b = h"
  using assms(3) links_fresh [OF assms(1,2)] unfolding connected_def
  by (cases rule: converse_rtranclE) auto

lemma parts_register:
  assumes "parts_exact g E" and "links_exact g E" and "unat (next_partition_id g) + 1 < 2 ^ 64"
  shows "parts_exact (register_node g h) E"
proof (cases "h |\<in>| fmdom (dependencies g)")
  case True
  then show ?thesis using assms(1) by (simp add: register_node_def)
next
  case False
  let ?g = "register_node g h" and ?n = "next_partition_id g"
  have dom: "fmdom (dg_partitions g) = fmdom (dependencies g)" using assms(1) by (simp add: parts_exact_def)
  then have none: "fmlookup (dg_partitions g) h = None" using False by (simp add: fmdom_notD)
  have parts: "fmlookup (dg_partitions ?g) a = (if a = h then Some ?n else fmlookup (dg_partitions g) a)" for a
    using False by (simp add: register_node_def Let_def)
  have data: "fmlookup (partition_data ?g) n = (if n = ?n then Some ((conflict_partition_new n)\<lparr>part_transactions := {|h|}\<rparr>)
      else fmlookup (partition_data g) n)" for n
    using False by (simp add: register_node_def Let_def)
  have next': "unat (next_partition_id ?g) = unat ?n + 1"
    using False assms(3) by (simp add: register_node_def Let_def unat_add_small)
  have old: "n \<noteq> ?n" if "fmlookup (dg_partitions g) a = Some n" for a n
    using assms(1) that by (auto simp: parts_exact_def)
  have "unat n < unat (next_partition_id ?g) \<and> (\<exists>p. fmlookup (partition_data ?g) n = Some p
      \<and> (\<forall>b. b |\<in>| part_transactions p \<longleftrightarrow> fmlookup (dg_partitions ?g) b = Some n))"
    if a: "fmlookup (dg_partitions ?g) a = Some n" for a n
  proof (cases "a = h")
    case True
    with a parts old show ?thesis by (auto simp: data next')
  next
    case False
    with a parts have a': "fmlookup (dg_partitions g) a = Some n" by simp
    obtain p where p: "unat n < unat ?n" "fmlookup (partition_data g) n = Some p"
      "\<forall>b. b |\<in>| part_transactions p \<longleftrightarrow> fmlookup (dg_partitions g) b = Some n"
      using assms(1) a' unfolding parts_exact_def by blast
    with old [OF a'] none show ?thesis by (auto simp: data parts next')
  qed
  moreover have "n = m \<longleftrightarrow> connected E a b"
    if "fmlookup (dg_partitions ?g) a = Some n" "fmlookup (dg_partitions ?g) b = Some m" for a b n m
    using that assms(1) old connected_fresh [OF assms(2) False] connected_sym
    by (cases "a = h"; cases "b = h") (auto simp: parts parts_exact_def connected_def)
  moreover have "fmdom (dg_partitions ?g) = fmdom (dependencies ?g)"
    using False dom by (simp add: register_node_def Let_def)
  ultimately show ?thesis unfolding parts_exact_def by blast
qed

lemma connected_label:
  assumes "connected E a b" and "\<And>x y. (x, y) \<in> E \<Longrightarrow> f x = f y"
  shows "f a = f b"
  using assms(1) unfolding connected_def
  by (induction rule: rtrancl_induct) (use assms(2) in auto)

lemma parts_label:
  assumes "parts_exact g E" and "\<And>x y. (x, y) \<in> E \<Longrightarrow> x |\<in>| fmdom (dependencies g) \<and> y |\<in>| fmdom (dependencies g)"
    and "(x, y) \<in> E"
  shows "fmlookup (dg_partitions g) x = fmlookup (dg_partitions g) y"
proof -
  obtain n m where "fmlookup (dg_partitions g) x = Some n" "fmlookup (dg_partitions g) y = Some m"
    using assms by (metis fmdomE parts_exact_def)
  with assms(1) connected_edge [OF assms(3)] show ?thesis unfolding parts_exact_def by metis
qed

lemma parts_merge:
  assumes "parts_exact g E" and "\<And>x y. (x, y) \<in> E \<Longrightarrow> x |\<in>| fmdom (dependencies g) \<and> y |\<in>| fmdom (dependencies g)"
    and "c |\<in>| fmdom (dependencies g)" and "p |\<in>| fmdom (dependencies g)"
  shows "\<exists>g'. merge_partitions g c p = (g', Inr ()) \<and> parts_exact g' (insert (p, c) E)
    \<and> next_partition_id g' = next_partition_id g"
proof -
  obtain cid pid where ids: "fmlookup (dg_partitions g) c = Some cid" "fmlookup (dg_partitions g) p = Some pid"
    using assms(1,3,4) by (metis fmdomE parts_exact_def)
  obtain cp where cp: "fmlookup (partition_data g) cid = Some cp"
    "\<And>b. b |\<in>| part_transactions cp \<longleftrightarrow> fmlookup (dg_partitions g) b = Some cid"
    using assms(1) ids(1) unfolding parts_exact_def by metis
  obtain pp where pp: "fmlookup (partition_data g) pid = Some pp"
    "\<And>b. b |\<in>| part_transactions pp \<longleftrightarrow> fmlookup (dg_partitions g) b = Some pid"
    using assms(1) ids(2) unfolding parts_exact_def by metis
  note label = parts_label [OF assms(1,2)]
  let ?E = "insert (p, c) E"
  have conn: "n = m \<longleftrightarrow> connected E a b"
    if "fmlookup (dg_partitions g) a = Some n" "fmlookup (dg_partitions g) b = Some m" for a b n m
    using assms(1) that unfolding parts_exact_def by blast
  define relabel where "relabel n = (if n = cid then pid else n)" for n
  have joined: "map_option relabel (fmlookup (dg_partitions g) x) = map_option relabel (fmlookup (dg_partitions g) y)"
    if "(x, y) \<in> ?E" for x y
    using that label ids by (auto simp: relabel_def)
  have conn': "relabel n = relabel m \<longleftrightarrow> connected ?E a b"
    if a: "fmlookup (dg_partitions g) a = Some n" and b: "fmlookup (dg_partitions g) b = Some m" for a b n m
  proof
    assume "connected ?E a b"
    from connected_label [OF this, of "\<lambda>x. map_option relabel (fmlookup (dg_partitions g) x)"] joined a b
    show "relabel n = relabel m" by simp
  next
    have pc: "connected ?E p c" by (rule connected_edge) simp
    assume "relabel n = relabel m"
    then consider "n = m" | "n = cid" "m = pid" | "n = pid" "m = cid" by (auto simp: relabel_def split: if_splits)
    then show "connected ?E a b"
    proof cases
      case 1
      with conn [OF a b] show ?thesis by (simp add: connected_mono)
    next
      case 2
      then have "connected E a c" "connected E p b" using conn [OF a ids(1)] conn [OF ids(2) b] by simp_all
      then show ?thesis using pc by (meson connected_mono connected_sym connected_trans)
    next
      case 3
      then have "connected E a p" "connected E c b" using conn [OF a ids(2)] conn [OF ids(1) b] by simp_all
      then show ?thesis using pc by (meson connected_mono connected_trans)
    qed
  qed
  show ?thesis
  proof (cases "cid = pid")
    case True
    then have "merge_partitions g c p = (g, Inr ())" using ids by (simp add: merge_partitions_def)
    moreover have "parts_exact g ?E"
      using assms(1) conn' True unfolding parts_exact_def by (simp add: relabel_def)
    ultimately show ?thesis by simp
  next
    case False
    define g' where "g' = g\<lparr>partition_data := alter pid (join_partition cp) (partition_data g),
      dg_partitions := fmupds (map (\<lambda>tx. (tx, pid)) (sorted_list_of_fset (part_transactions cp))) (dg_partitions g)\<rparr>"
    have run: "merge_partitions g c p = (g', Inr ())" using ids cp(1) False by (simp add: merge_partitions_def g'_def)
    have parts: "fmlookup (dg_partitions g') a = map_option relabel (fmlookup (dg_partitions g) a)" for a
      by (simp add: g'_def fmlookup_fmupds_const cp(2) relabel_def sorted_list_of_fset.rep_eq)
        (cases "fmlookup (dg_partitions g) a"; simp add: relabel_def)
    have data: "fmlookup (partition_data g') n = (if n = pid then Some (join_partition cp pp) else fmlookup (partition_data g) n)" for n
      by (simp add: g'_def lookup_alter pp(1))
    have joined_txs: "b |\<in>| part_transactions (join_partition cp pp) \<longleftrightarrow> fmlookup (dg_partitions g') b = Some pid" for b
      using cp(2) pp(2) by (auto simp: join_partition_def Let_def parts relabel_def)
    have other: "unat n < unat (next_partition_id g) \<and> (\<exists>q. fmlookup (partition_data g') n = Some q
        \<and> (\<forall>b. b |\<in>| part_transactions q \<longleftrightarrow> fmlookup (dg_partitions g') b = Some n))"
      if lab: "fmlookup (dg_partitions g') a = Some n" for a n
    proof -
      obtain m where m: "fmlookup (dg_partitions g) a = Some m" "n = relabel m" using lab by (auto simp: parts)
      show ?thesis
      proof (cases "n = pid")
        case True
        with joined_txs data assms(1) ids(2) show ?thesis unfolding parts_exact_def by auto
      next
        case False
        then have n: "n = m" "m \<noteq> cid" using m(2) by (auto simp: relabel_def split: if_splits)
        obtain q where q: "unat m < unat (next_partition_id g)" "fmlookup (partition_data g) m = Some q"
          "\<And>b. b |\<in>| part_transactions q \<longleftrightarrow> fmlookup (dg_partitions g) b = Some m"
          using assms(1) m(1) unfolding parts_exact_def by blast
        have "fmlookup (dg_partitions g) b = Some m \<longleftrightarrow> fmlookup (dg_partitions g') b = Some n" for b
          using False n by (auto simp: parts relabel_def)
        with q n False show ?thesis by (auto simp: data)
      qed
    qed
    have "fmdom (dg_partitions g') = fmdom (dependencies g')"
    proof (rule fset_eqI)
      fix a
      have "a |\<in>| fmdom (dg_partitions g') \<longleftrightarrow> a |\<in>| fmdom (dg_partitions g)" by (simp add: fmlookup_dom_iff parts)
      then show "a |\<in>| fmdom (dg_partitions g') \<longleftrightarrow> a |\<in>| fmdom (dependencies g')"
        using assms(1) by (simp add: parts_exact_def g'_def)
    qed
    moreover have "n = m \<longleftrightarrow> connected ?E a b"
      if "fmlookup (dg_partitions g') a = Some n" "fmlookup (dg_partitions g') b = Some m" for a b n m
      using that conn' by (auto simp: parts)
    moreover have "next_partition_id g' = next_partition_id g" by (simp add: g'_def)
    ultimately have "parts_exact g' ?E" unfolding parts_exact_def using other by simp
    with run show ?thesis by (simp add: g'_def)
  qed
qed

lemma next_register:
  "unat (next_partition_id g) + 1 < 2 ^ 64 \<Longrightarrow> unat (next_partition_id (register_node g h)) \<le> unat (next_partition_id g) + 1"
  by (simp add: register_node_def Let_def unat_add_small)

lemma links_dom: "links_exact g E \<Longrightarrow> (x, y) \<in> E \<Longrightarrow> x |\<in>| fmdom (dependencies g) \<and> y |\<in>| fmdom (dependencies g)"
  by (simp add: links_exact_def)

lemma parts_add:
  assumes "parts_exact g E" and "links_exact g E" and "unat (next_partition_id g) + 2 < 2 ^ 64"
  shows "\<exists>g'. add_dependency g c p = (g', Inr ()) \<and> parts_exact g' (insert (p, c) E)
    \<and> unat (next_partition_id g') \<le> unat (next_partition_id g) + 2"
proof -
  let ?g1 = "register_node g c"
  let ?g2 = "register_node ?g1 p"
  have n1: "unat (next_partition_id ?g1) \<le> unat (next_partition_id g) + 1" using next_register [of g c] assms(3) by simp
  have n2: "unat (next_partition_id ?g2) \<le> unat (next_partition_id g) + 2" using next_register [of ?g1 p] n1 assms(3) by simp
  have "parts_exact ?g1 E" using parts_register [OF assms(1,2)] assms(3) by simp
  then have "parts_exact ?g2 E"
    by (rule parts_register [OF _ links_register [OF assms(2)]]) (use n1 assms(3) in simp)
  then have parts: "parts_exact (link_nodes c p ?g2) E" by (subst parts_cong [of _ ?g2]) (simp_all add: link_nodes_def)
  have dom: "x |\<in>| fmdom (dependencies (link_nodes c p ?g2)) \<and> y |\<in>| fmdom (dependencies (link_nodes c p ?g2))"
    if "(x, y) \<in> E" for x y
    using links_dom [OF links_register [OF links_register [OF assms(2)]] that] by (simp add: link_nodes_def)
  have "c |\<in>| fmdom (dependencies (link_nodes c p ?g2))" "p |\<in>| fmdom (dependencies (link_nodes c p ?g2))"
    by (simp_all add: link_nodes_def dependencies_register)
  from parts_merge [OF parts dom this] obtain g' where g': "merge_partitions (link_nodes c p ?g2) c p = (g', Inr ())"
    "parts_exact g' (insert (p, c) E)" "next_partition_id g' = next_partition_id ?g2"
    by (auto simp: link_nodes_def)
  let ?g = "g'\<lparr>dg_stats := (dg_stats g')\<lparr>total_dependencies := total_dependencies (dg_stats g') + 1\<rparr>\<rparr>"
  have "add_dependency g c p = (?g, Inr ())" by (simp add: add_dependency_def g'(1))
  moreover have "parts_exact ?g (insert (p, c) E)" using g'(2) by (subst parts_cong [of _ g']) simp_all
  ultimately show ?thesis using n2 g'(3) by simp
qed

lemma parts_mark:
  assumes "parts_exact g E"
  shows "parts_exact (fst (mark_conflict ord g h reason)) E"
proof (cases "fmlookup (dg_partitions g) h")
  case None
  with assms show ?thesis by (simp add: mark_conflict_def)
next
  case (Some n)
  let ?g = "fst (mark_conflict ord g h reason)"
  have same: "dg_partitions ?g = dg_partitions g" "fmdom (dependencies ?g) = fmdom (dependencies g)"
    "next_partition_id ?g = next_partition_id g"
    by (simp_all add: mark_conflict_def Some Let_def)
  have kept: "\<exists>q. fmlookup (partition_data ?g) m = Some q \<and> part_transactions q = part_transactions p"
    if "fmlookup (partition_data g) m = Some p" for m p
    using that by (simp add: mark_conflict_def Some Let_def lookup_alter partition_mark_conflict_def)
  have data: "\<exists>q. fmlookup (partition_data ?g) m = Some q \<and> (\<forall>b. b |\<in>| part_transactions q \<longleftrightarrow> fmlookup (dg_partitions g) b = Some m)"
    if lab: "fmlookup (dg_partitions g) a = Some m" for a m
  proof -
    obtain p where p: "fmlookup (partition_data g) m = Some p"
      "\<forall>b. b |\<in>| part_transactions p \<longleftrightarrow> fmlookup (dg_partitions g) b = Some m"
      using assms lab unfolding parts_exact_def by blast
    from kept [OF p(1)] p(2) show ?thesis by auto
  qed
  show ?thesis using assms data unfolding parts_exact_def same by simp
qed

definition no_remove :: "dg_op list \<Rightarrow> bool" where
  "no_remove ops \<longleftrightarrow> list_all (\<lambda>op. case op of Remove h \<Rightarrow> False | _ \<Rightarrow> True) ops"

lemma next_mark: "next_partition_id (fst (mark_conflict ord g h reason)) = next_partition_id g"
  by (simp add: mark_conflict_def Let_def split: option.splits)

lemma parts_run:
  assumes "iterates ord"
  shows "no_remove ops \<Longrightarrow> 2 * length ops + 1 < 2 ^ 64 \<Longrightarrow>
    parts_exact (run_ops ord ops) (dep_edges ops) \<and> unat (next_partition_id (run_ops ord ops)) \<le> 2 * length ops + 1"
proof (induction ops rule: rev_induct)
  case Nil
  then show ?case by (simp add: run_ops_def dep_edges_def parts_new) (simp add: dependency_graph_new_def)
next
  case (snoc op ops)
  let ?g = "run_ops ord ops" and ?E = "dep_edges ops"
  have IH: "parts_exact ?g ?E" "unat (next_partition_id ?g) \<le> 2 * length ops + 1"
    using snoc by (simp_all add: no_remove_def)
  have links: "links_exact ?g ?E" by (rule links_run [OF assms])
  have step: "run_ops ord (ops @ [op]) = apply_op ord ?g op" "dep_edges (ops @ [op]) = edge_op ?E op"
    by (simp_all add: run_ops_def dep_edges_def)
  have room: "unat (next_partition_id ?g) + 2 < 2 ^ 64" using IH(2) snoc.prems(2) by simp
  show ?case
  proof (cases op)
    case (Register h)
    have "unat (next_partition_id ?g) + 1 < 2 ^ 64" using room by simp
    with Register step IH parts_register [OF IH(1) links] next_register [of ?g h] show ?thesis by simp
  next
    case (Depend c p)
    with step IH parts_add [OF IH(1) links room, of c p] show ?thesis by auto
  next
    case (Conflict h reason)
    with step IH parts_mark show ?thesis by (simp add: next_mark)
  next
    case (Remove h)
    with snoc.prems(1) show ?thesis by (simp add: no_remove_def)
  qed
qed

section \<open>Properties\<close>

text \<open>C24: partitions are the connected components, as long as nothing is removed. After any sequence
  of fewer than \<open>2 ^ 63 - 1\<close> registrations, stated dependencies and conflicts (\<open>remove_transaction\<close> is
  not among them: it leaves the partition data as it is), the members listed for the partition of a
  known transaction are exactly those that a chain of dependencies, read in either direction,
  connects to it, and stating another dependency succeeds.\<close>

theorem partitions_are_components:
  assumes "iterates ord" and "no_remove ops" and "2 * length ops + 3 < 2 ^ 64"
    and "a |\<in>| fmdom (dependencies (run_ops ord ops))"
  shows "set (get_partition_members ord (run_ops ord ops) a) = {b. connected (dep_edges ops) a b}
    \<and> (\<forall>c p. snd (add_dependency (run_ops ord ops) c p) = Inr ())"
proof -
  let ?g = "run_ops ord ops" and ?E = "dep_edges ops"
  have inv: "parts_exact ?g ?E" "unat (next_partition_id ?g) \<le> 2 * length ops + 1"
    using parts_run [OF assms(1,2)] assms(3) by simp_all
  have links: "links_exact ?g ?E" by (rule links_run [OF assms(1)])
  obtain n where n: "fmlookup (dg_partitions ?g) a = Some n"
    using inv(1) assms(4) by (metis fmdomE parts_exact_def)
  obtain p where p: "fmlookup (partition_data ?g) n = Some p"
    "\<And>b. b |\<in>| part_transactions p \<longleftrightarrow> fmlookup (dg_partitions ?g) b = Some n"
    using inv(1) n unfolding parts_exact_def by metis
  have "fmlookup (dg_partitions ?g) b = Some n \<longleftrightarrow> connected ?E a b" for b
  proof
    assume "fmlookup (dg_partitions ?g) b = Some n"
    with n inv(1) show "connected ?E a b" unfolding parts_exact_def by blast
  next
    assume c: "connected ?E a b"
    have "fmlookup (dg_partitions ?g) a = fmlookup (dg_partitions ?g) b"
      by (rule connected_label [OF c parts_label [OF inv(1) links_dom [OF links]]])
    with n show "fmlookup (dg_partitions ?g) b = Some n" by simp
  qed
  then have "fset (part_transactions p) = {b. connected ?E a b}" using p(2) by (intro set_eqI) simp
  then have "set (get_partition_members ord ?g a) = {b. connected ?E a b}"
    by (simp add: get_partition_members_def n p(1) iteratesD [OF assms(1)])
  moreover have "snd (add_dependency ?g c q) = Inr ()" for c q
  proof -
    have "unat (next_partition_id ?g) + 2 < 2 ^ 64" using inv(2) assms(3) by simp
    from parts_add [OF inv(1) links this, of c q] show ?thesis by auto
  qed
  ultimately show ?thesis by blast
qed

text \<open>C35: \<open>find_affected_downstream\<close> ends and lists the transaction and everything that depends on it,
  directly or through others, exactly once each, after any sequence of operations, removals
  included.\<close>

theorem affected_downstream_exact:
  assumes "iterates ord"
  shows "distinct (find_affected_downstream ord (run_ops ord ops) h)
    \<and> set (find_affected_downstream ord (run_ops ord ops) h) = (dep_edges ops)\<^sup>* `` {h}"
  using bfs_exact [of "child_lists ord (run_ops ord ops)" h]
  by (simp add: find_affected_downstream_def child_lists_rel [OF links_run [OF assms] assms])

text \<open>a conflict is not inherited. A transaction that is attached to a parent after the parent's
  partition was marked joins that partition, but \<open>is_in_conflict\<close> still answers no for it.\<close>

theorem late_child_not_in_conflict:
  assumes "iterates ord" and "no_remove ops" and "2 * length ops + 3 < 2 ^ 64"
    and "p |\<in>| fmdom (dependencies (run_ops ord ops))" and "c |\<notin>| fmdom (dependencies (run_ops ord ops))"
    and "mark_conflict ord (run_ops ord ops) p reason = (g1, r)" and "add_dependency g1 c p = (g2, r')"
  shows "is_in_conflict g1 p \<and> p \<in> set (get_parents ord g2 c) \<and> \<not> is_in_conflict g2 c"
proof -
  let ?g = "run_ops ord ops"
  have inv: "parts_exact ?g (dep_edges ops)" using parts_run [OF assms(1,2)] assms(3) by simp
  obtain n where n: "fmlookup (dg_partitions ?g) p = Some n" using inv assms(4) by (metis fmdomE parts_exact_def)
  obtain q where q: "fmlookup (partition_data ?g) n = Some q" "p |\<in>| part_transactions q"
    using inv n unfolding parts_exact_def by blast
  obtain d where d: "fmlookup (dependencies ?g) p = Some d" using assms(4) by (meson fmdomE)
  have g1: "g1 = fst (mark_conflict ord ?g p reason)" using assms(6) by simp
  have "is_in_conflict g1 p"
    by (simp add: g1 is_in_conflict_def mark_conflict_def n q Let_def lookup_fold_alter d iteratesD [OF assms(1)])
  moreover have dom1: "fmdom (dependencies g1) = fmdom (dependencies ?g)"
    by (simp add: g1 mark_conflict_def n Let_def)
  have links: "links_exact g2 (insert (p, c) (dep_edges ops))"
    using links_add [OF links_mark [OF links_run [OF assms(1), of ops], of ord p reason], of c p] assms(7) g1 by simp
  then have "p \<in> set (get_parents ord g2 c)" using links_sets(2) [OF links assms(1)] by simp
  moreover have "dependencies g2 = dependencies (link_nodes c p (register_node (register_node g1 c) p))"
    using dependencies_add [of g1 c p] assms(7) by simp
  then have "\<not> is_in_conflict g2 c"
    using assms(4,5) dom1
    by (auto simp: is_in_conflict_def link_nodes_def lookup_alter dependencies_register transaction_dependency_new_def)
  ultimately show ?thesis by blast
qed

section \<open>Witnesses\<close>

lemma sorted_iterates: "iterates sorted_list_of_fset"
  by (simp add: iterates_def sorted_list_of_fset.rep_eq)

theorem partitions_are_components_witness:
  "[3] \<in> set (get_partition_members sorted_list_of_fset (run_ops sorted_list_of_fset [Depend [1] [2], Depend [3] [2]]) [1])"
proof -
  let ?ops = "[Depend [1] [2], Depend [3] [2]] :: dg_op list"
  have "no_remove ?ops" by (simp add: no_remove_def)
  moreover have "links_exact (run_ops sorted_list_of_fset ?ops) (dep_edges ?ops)" by (rule links_run [OF sorted_iterates])
  then have "[1] |\<in>| fmdom (dependencies (run_ops sorted_list_of_fset ?ops))"
    using links_dom [of _ "dep_edges ?ops" "[2]" "[1]"] by (simp add: dep_edges_def)
  ultimately have "set (get_partition_members sorted_list_of_fset (run_ops sorted_list_of_fset ?ops) [1])
      = {b. connected (dep_edges ?ops) [1] b}"
    using partitions_are_components [OF sorted_iterates, of ?ops "[1]"] by simp
  moreover have "connected (dep_edges ?ops) [2] [1]" "connected (dep_edges ?ops) [2] [3]"
    by (rule connected_edge, simp add: dep_edges_def)+
  then have "connected (dep_edges ?ops) [1] [3]" using connected_sym connected_trans by blast
  ultimately show ?thesis by simp
qed

theorem affected_downstream_exact_witness:
  "[1] \<in> set (find_affected_downstream sorted_list_of_fset (run_ops sorted_list_of_fset [Depend [1] [2], Remove [3]]) [2])"
proof -
  have "([2], [1]) \<in> dep_edges [Depend [1] [2], Remove [3]]" by (simp add: dep_edges_def)
  then show ?thesis
    using affected_downstream_exact [OF sorted_iterates, of "[Depend [1] [2], Remove [3]]" "[2]"]
    by (simp add: r_into_rtrancl)
qed

theorem late_child_not_in_conflict_witness:
  "\<exists>g1 g2. is_in_conflict g1 [2] \<and> [2] \<in> set (get_parents sorted_list_of_fset g2 [1]) \<and> \<not> is_in_conflict g2 [1]"
proof -
  let ?g = "run_ops sorted_list_of_fset [Register [2]]"
  obtain g1 r where m: "mark_conflict sorted_list_of_fset ?g [2] ''why'' = (g1, r)" by fastforce
  obtain g2 r' where a: "add_dependency g1 [1] [2] = (g2, r')" by fastforce
  have "no_remove [Register [2]]" by (simp add: no_remove_def)
  moreover have "dependencies ?g = fmupd [2] transaction_dependency_new fmempty"
    by (simp add: run_ops_def dependencies_register) (simp add: dependency_graph_new_def)
  ultimately show ?thesis
    using late_child_not_in_conflict [OF sorted_iterates _ _ _ _ m a] by (auto intro: exI [of _ g1] exI [of _ g2])
qed

end
