(* ===== verification/Utxo_Tracker.thy ===== *)
theory Utxo_Tracker
  imports Schnorr
begin

text \<open>
  Claims on unspent outputs in the node's mempool: \<open>klomang-node/src/mempool/conflict.rs\<close>.
  \<open>bincode::serialize\<close> on a hash is the argument \<open>ser\<close>, \<open>None\<close> for its error. The reference to the
  database is never used by the code. The time is read once per call.
\<close>

section \<open>Data\<close>

datatype utxo_conflict_error =
    UtxoAlreadyClaimed string bytes u64 u64
  | UtxoNotFound string
  | UtxoAlreadySpent string
  | TransactionNotTracked bytes
  | InvalidInput string
  | UtxoStorageError string

type_synonym hash_ser = "hash \<Rightarrow> bytes option"

record out_point =
  op_tx_hash :: bytes
  op_index :: u32

text \<open>\<open>OutPoint::to_string\<close>: two hexadecimal digits per byte, a colon, the index in decimal.\<close>

definition hex_digit :: "nat \<Rightarrow> char" where
  "hex_digit n = char_of (if n < 10 then 48 + n else 87 + n)"

definition byte_hex :: "u8 \<Rightarrow> string" where
  "byte_hex b = [hex_digit (unat b div 16), hex_digit (unat b mod 16)]"

fun dec_string :: "nat \<Rightarrow> string" where
  "dec_string n = (if n < 10 then [char_of (48 + n)] else dec_string (n div 10) @ [char_of (48 + n mod 10)])"

declare dec_string.simps [simp del]

definition out_point_string :: "out_point \<Rightarrow> string" where
  "out_point_string self = concat (map byte_hex (op_tx_hash self)) @ '':'' @ dec_string (unat (op_index self))"

definition out_point_from_input :: "hash_ser \<Rightarrow> tx_input \<Rightarrow> out_point option" where
  "out_point_from_input ser i = map_option (\<lambda>h. \<lparr>op_tx_hash = h, op_index = index i\<rparr>) (ser (prev_tx i))"

record utxo_lock =
  claimed_by :: bytes
  claiming_fee :: u64
  lock_time :: u64

record conflict_stats =
  total_tracked :: u64
  total_claims :: u64
  rbf_replacements :: u64
  conflicts_detected :: u64
  claims_released :: u64

record utxo_tracker =
  claims :: "(string, utxo_lock) fmap"
  tx_claims :: "(bytes, string list) fmap"
  tracker_stats :: conflict_stats

definition utxo_tracker_new :: utxo_tracker where
  "utxo_tracker_new = \<lparr>claims = fmempty, tx_claims = fmempty,
     tracker_stats = \<lparr>total_tracked = 0, total_claims = 0, rbf_replacements = 0, conflicts_detected = 0,
       claims_released = 0\<rparr>\<rparr>"

section \<open>Operations\<close>

definition verify_utxo_exists :: "bytes \<Rightarrow> u32 \<Rightarrow> utxo_conflict_error + unit" where
  "verify_utxo_exists h n = (if h = [] then Inl (UtxoNotFound ''Invalid tx_hash: empty'') else Inr ())"

definition verify_utxo_unspent :: "bytes \<Rightarrow> u32 \<Rightarrow> utxo_conflict_error + unit" where
  "verify_utxo_unspent h n = Inr ()"

definition record_rbf_replacement :: "utxo_tracker \<Rightarrow> utxo_tracker" where
  "record_rbf_replacement self =
     self\<lparr>tracker_stats := (tracker_stats self)\<lparr>rbf_replacements := rbf_replacements (tracker_stats self) + 1\<rparr>\<rparr>"

text \<open>The first loop of \<open>register_claims\<close>: claims with a lower fee are dropped on the way, and stay
  dropped when a later input is refused.\<close>

fun check_claims ::
    "hash_ser \<Rightarrow> u64 \<Rightarrow> utxo_tracker \<Rightarrow> string list \<Rightarrow> tx_input list
      \<Rightarrow> utxo_tracker \<times> (utxo_conflict_error + string list)" where
  "check_claims ser fee self acc [] = (self, Inr acc)"
| "check_claims ser fee self acc (i # ins) =
     (case ser (prev_tx i) of
        None \<Rightarrow> (self, Inl (InvalidInput ''Input serialization: {}''))
      | Some h \<Rightarrow>
          (case bind_res (verify_utxo_exists h (index i)) (\<lambda>_. verify_utxo_unspent h (index i)) of
             Inl e \<Rightarrow> (self, Inl e)
           | Inr _ \<Rightarrow>
               (let op = out_point_string \<lparr>op_tx_hash = h, op_index = index i\<rparr> in
                case fmlookup (claims self) op of
                  None \<Rightarrow> check_claims ser fee self (acc @ [op]) ins
                | Some existing \<Rightarrow>
                    if claiming_fee existing < fee
                    then check_claims ser fee (record_rbf_replacement (self\<lparr>claims := fmdrop op (claims self)\<rparr>))
                           (acc @ [op]) ins
                    else (self, Inl (UtxoAlreadyClaimed op (claimed_by existing) (claiming_fee existing) fee)))))"

definition insert_claims :: "u64 \<Rightarrow> bytes \<Rightarrow> transaction \<Rightarrow> u64 \<Rightarrow> string list \<Rightarrow> utxo_tracker \<Rightarrow> utxo_tracker" where
  "insert_claims now h tx fee ops self =
     (let lock = \<lparr>claimed_by = h, claiming_fee = fee, lock_time = now\<rparr>;
          cl = fmupds (map (\<lambda>op. (op, lock)) ops) (claims self);
          tc = fmupd h ops (tx_claims self);
          st = tracker_stats self;
          tracked = total_tracked st + 1
      in self\<lparr>claims := cl, tx_claims := tc,
           tracker_stats := st\<lparr>total_tracked := tracked,
             total_claims := total_claims st + of_nat (length (inputs tx)),
             conflicts_detected := saturating_sub tracked
               (of_nat (fcard (fmdom cl)) div of_nat (max (fcard (fmdom tc)) 1))\<rparr>\<rparr>)"

definition register_claims ::
    "hash_ser \<Rightarrow> u64 \<Rightarrow> utxo_tracker \<Rightarrow> transaction \<Rightarrow> u64 \<Rightarrow> utxo_tracker \<times> (utxo_conflict_error + unit)" where
  "register_claims ser now self tx fee =
     (case ser (tx_id tx) of
        None \<Rightarrow> (self, Inl (InvalidInput ''Tx serialization: {}''))
      | Some h \<Rightarrow>
          (case check_claims ser fee self [] (inputs tx) of
             (self', Inl e) \<Rightarrow> (self', Inl e)
           | (self', Inr ops) \<Rightarrow> (insert_claims now h tx fee ops self', Inr ())))"

definition release_claims :: "utxo_tracker \<Rightarrow> bytes \<Rightarrow> utxo_tracker \<times> (utxo_conflict_error + unit)" where
  "release_claims self h =
     (case fmlookup (tx_claims self) h of
        None \<Rightarrow> (self, Inl (TransactionNotTracked h))
      | Some ops \<Rightarrow>
          (self\<lparr>tx_claims := fmdrop h (tx_claims self), claims := fmdrops ops (claims self),
             tracker_stats := (tracker_stats self)\<lparr>claims_released := claims_released (tracker_stats self) + 1\<rparr>\<rparr>,
           Inr ()))"

definition is_claimed :: "utxo_tracker \<Rightarrow> out_point \<Rightarrow> bool" where
  "is_claimed self op \<longleftrightarrow> fmlookup (claims self) (out_point_string op) \<noteq> None"

definition get_claiming_transaction :: "utxo_tracker \<Rightarrow> out_point \<Rightarrow> utxo_lock option" where
  "get_claiming_transaction self op = fmlookup (claims self) (out_point_string op)"

definition get_transaction_claims :: "utxo_tracker \<Rightarrow> bytes \<Rightarrow> string list option" where
  "get_transaction_claims self h = fmlookup (tx_claims self) h"

fun check_conflicts_loop ::
    "hash_ser \<Rightarrow> utxo_tracker \<Rightarrow> tx_input list \<Rightarrow> utxo_conflict_error + out_point list" where
  "check_conflicts_loop ser self [] = Inr []"
| "check_conflicts_loop ser self (i # ins) =
     bind_res (ok_or (InvalidInput ''Input serialization: {}'') (out_point_from_input ser i)) (\<lambda>op.
       bind_res (check_conflicts_loop ser self ins) (\<lambda>ops.
         Inr (if is_claimed self op then op # ops else ops)))"

definition check_conflicts :: "hash_ser \<Rightarrow> utxo_tracker \<Rightarrow> transaction \<Rightarrow> utxo_conflict_error + out_point list" where
  "check_conflicts ser self tx = check_conflicts_loop ser self (inputs tx)"

definition clear_all :: "utxo_tracker \<Rightarrow> utxo_tracker" where
  "clear_all self = self\<lparr>claims := fmempty, tx_claims := fmempty\<rparr>"

definition active_claims_count :: "utxo_tracker \<Rightarrow> nat" where
  "active_claims_count self = fcard (fmdom (claims self))"

definition tracked_transactions_count :: "utxo_tracker \<Rightarrow> nat" where
  "tracked_transactions_count self = fcard (fmdom (tx_claims self))"

definition attempt_rbf_replacement ::
    "hash_ser \<Rightarrow> u64 \<Rightarrow> utxo_tracker \<Rightarrow> bytes \<Rightarrow> transaction \<Rightarrow> u64 \<Rightarrow> u64
      \<Rightarrow> utxo_tracker \<times> (utxo_conflict_error + bool)" where
  "attempt_rbf_replacement ser now self old_tx_hash new_tx old_fee new_fee =
     (if new_fee \<le> old_fee then (self, Inr False)
      else case release_claims self old_tx_hash of
        (self1, Inl e) \<Rightarrow> (self1, Inl e)
      | (self1, Inr _) \<Rightarrow>
          (case register_claims ser now self1 new_tx new_fee of
             (self2, Inl e) \<Rightarrow> (self2, Inl e)
           | (self2, Inr _) \<Rightarrow> (record_rbf_replacement self2, Inr True)))"

section \<open>Names of outputs\<close>

lemma hex_digit_inj: "m < 16 \<Longrightarrow> n < 16 \<Longrightarrow> hex_digit m = hex_digit n \<longleftrightarrow> m = n"
  by (auto simp: hex_digit_def char_of_eq_iff take_bit_nat_eq_self split: if_splits)

lemma colon_hex: "n < 16 \<Longrightarrow> hex_digit n \<noteq> CHR '':''"
  by (auto simp: hex_digit_def char_of_eq_iff take_bit_nat_eq_self)

lemma byte_hex_inj: "byte_hex a = byte_hex b \<longleftrightarrow> a = b"
proof
  assume *: "byte_hex a = byte_hex b"
  have "unat a < 256" "unat b < 256" by (simp_all add: unat_bounds)
  then have "unat a div 16 = unat b div 16" "unat a mod 16 = unat b mod 16"
    using * by (simp_all add: byte_hex_def hex_digit_inj less_mult_imp_div_less)
  then have "unat a = unat b" by (metis div_mult_mod_eq)
  then show "a = b" by (simp add: word_unat_eq_iff)
qed simp

lemma concat_byte_hex_inj: "concat (map byte_hex xs) = concat (map byte_hex ys) \<longleftrightarrow> xs = ys"
proof (induction xs arbitrary: ys)
  case Nil
  then show ?case by (cases ys) (auto simp: byte_hex_def)
next
  case (Cons x xs)
  show ?case
  proof (cases ys)
    case Nil
    then show ?thesis by (simp add: byte_hex_def)
  next
    case (Cons y ys')
    have "length (byte_hex x) = length (byte_hex y)" by (simp add: byte_hex_def)
    with Cons.IH [of ys'] Cons show ?thesis by (simp add: byte_hex_inj append_eq_append_conv)
  qed
qed

lemma dec_string_value: "foldl (\<lambda>n c. 10 * n + (of_char c - 48)) 0 (dec_string n) = n"
proof (induction n rule: dec_string.induct)
  case (1 n)
  have "of_char (char_of (48 + n mod 10) :: char) = 48 + n mod 10"
    by (simp add: take_bit_nat_eq_self)
  moreover have "n < 10 \<Longrightarrow> of_char (char_of (48 + n) :: char) = 48 + n"
    by (simp add: take_bit_nat_eq_self)
  ultimately show ?case using 1 by (subst dec_string.simps) simp
qed

lemma dec_string_inj: "dec_string m = dec_string n \<longleftrightarrow> m = n"
  by (metis dec_string_value)

lemma no_colon: "CHR '':'' \<notin> set (concat (map byte_hex xs))"
proof -
  have "CHR '':'' \<notin> set (byte_hex b)" for b
    using colon_hex [of "unat b div 16"] colon_hex [of "unat b mod 16"] unat_bounds(1) [of b]
    by (auto simp: byte_hex_def less_mult_imp_div_less)
  then show ?thesis by auto
qed

text \<open>Different outputs have different names.\<close>

lemma out_point_string_inj [simp]: "out_point_string a = out_point_string b \<longleftrightarrow> a = b"
proof
  let ?h = "\<lambda>p. concat (map byte_hex (op_tx_hash p))" and ?d = "\<lambda>p. dec_string (unat (op_index p))"
  assume *: "out_point_string a = out_point_string b"
  have front: "takeWhile (\<lambda>c. c \<noteq> CHR '':'') (out_point_string p) = ?h p"
    and rest: "dropWhile (\<lambda>c. c \<noteq> CHR '':'') (out_point_string p) = CHR '':'' # ?d p" for p
  proof -
    have "\<And>c. c \<in> set (?h p) \<Longrightarrow> c \<noteq> CHR '':''" using no_colon [of "op_tx_hash p"] by metis
    then show "takeWhile (\<lambda>c. c \<noteq> CHR '':'') (out_point_string p) = ?h p"
      and "dropWhile (\<lambda>c. c \<noteq> CHR '':'') (out_point_string p) = CHR '':'' # ?d p"
      unfolding out_point_string_def by (simp_all add: takeWhile_append2 dropWhile_append2 del: set_concat set_map)
  qed
  have "op_tx_hash a = op_tx_hash b" using front [of a] front [of b] * concat_byte_hex_inj by metis
  moreover have "op_index a = op_index b"
    using rest [of a] rest [of b] * dec_string_inj by (metis list.inject word_unat_eq_iff)
  ultimately show "a = b" by simp
qed simp

section \<open>What a registration does\<close>

definition input_point :: "hash_ser \<Rightarrow> tx_input \<Rightarrow> out_point" where
  "input_point ser i = \<lparr>op_tx_hash = the (ser (prev_tx i)), op_index = index i\<rparr>"

definition tx_points :: "hash_ser \<Rightarrow> transaction \<Rightarrow> out_point list" where
  "tx_points ser tx = map (input_point ser) (inputs tx)"

definition serializes :: "hash_ser \<Rightarrow> tx_input list \<Rightarrow> bool" where
  "serializes ser ins \<longleftrightarrow> list_all (\<lambda>i. ser (prev_tx i) \<noteq> None \<and> ser (prev_tx i) \<noteq> Some []) ins"

definition beaten :: "utxo_tracker \<Rightarrow> u64 \<Rightarrow> out_point \<Rightarrow> bool" where
  "beaten self fee op \<longleftrightarrow>
     (case get_claiming_transaction self op of None \<Rightarrow> True | Some l \<Rightarrow> claiming_fee l < fee)"

definition drop_points :: "out_point list \<Rightarrow> utxo_tracker \<Rightarrow> (string, utxo_lock) fmap" where
  "drop_points ops self = fmdrops (map out_point_string ops) (claims self)"

lemma fmdrops_append: "fmdrops (xs @ ys) m = fmdrops ys (fmdrops xs m)"
  by (simp add: fmdrops_def)

lemma record_rbf_simps [simp]:
  "claims (record_rbf_replacement self) = claims self" "tx_claims (record_rbf_replacement self) = tx_claims self"
  by (simp_all add: record_rbf_replacement_def)

text \<open>The check stops at the first input whose output is claimed with a fee that is not lower.\<close>

lemma check_claims_cases:
  assumes "check_claims ser fee self acc ins = (self', r)" and "serializes ser ins"
  shows "tx_claims self' = tx_claims self
    \<and> (case r of
         Inr ops \<Rightarrow> ops = acc @ map (out_point_string \<circ> input_point ser) ins
           \<and> claims self' = drop_points (map (input_point ser) ins) self
           \<and> list_all (\<lambda>i. beaten self fee (input_point ser i)) ins
       | Inl e \<Rightarrow> \<exists>k<length ins. \<exists>l. get_claiming_transaction self (input_point ser (ins ! k)) = Some l
           \<and> fee \<le> claiming_fee l \<and> list_all (\<lambda>i. beaten self fee (input_point ser i)) (take k ins)
           \<and> e = UtxoAlreadyClaimed (out_point_string (input_point ser (ins ! k))) (claimed_by l) (claiming_fee l) fee
           \<and> claims self' = drop_points (map (input_point ser) (take k ins)) self)"
  using assms
proof (induction ins arbitrary: self acc)
  case Nil
  then show ?case by (auto simp: drop_points_def)
next
  case (Cons i ins)
  let ?p = "input_point ser i"
  obtain h where h: "ser (prev_tx i) = Some h" "h \<noteq> []" using Cons.prems(2) by (auto simp: serializes_def)
  have pt: "\<lparr>op_tx_hash = h, op_index = index i\<rparr> = ?p" by (simp add: input_point_def h)
  have rest: "serializes ser ins" using Cons.prems(2) by (simp add: serializes_def)
  define self1 where "self1 = (case fmlookup (claims self) (out_point_string ?p) of
      None \<Rightarrow> self | Some _ \<Rightarrow> record_rbf_replacement (self\<lparr>claims := fmdrop (out_point_string ?p) (claims self)\<rparr>))"
  have cl: "claims self1 = fmdrop (out_point_string ?p) (claims self)" and tc: "tx_claims self1 = tx_claims self"
    by (auto simp: self1_def fmdrop_idle fmdom_notI split: option.splits)
  have drops: "drop_points ops self1 = drop_points (?p # ops) self" for ops by (simp add: drop_points_def cl)
  show ?case
  proof (cases "beaten self fee ?p")
    case False
    then obtain l where l: "get_claiming_transaction self ?p = Some l" "fee \<le> claiming_fee l"
      by (auto simp: beaten_def split: option.splits)
    with Cons.prems(1) h pt leD [OF l(2)] have "self' = self"
      "r = Inl (UtxoAlreadyClaimed (out_point_string ?p) (claimed_by l) (claiming_fee l) fee)"
      by (auto simp: verify_utxo_exists_def verify_utxo_unspent_def get_claiming_transaction_def Let_def)
    with l show ?thesis by (auto intro!: exI [of _ 0] simp: drop_points_def)
  next
    case True
    then have run: "check_claims ser fee self1 (acc @ [out_point_string ?p]) ins = (self', r)"
      using Cons.prems(1) h pt
      by (auto simp: verify_utxo_exists_def verify_utxo_unspent_def beaten_def get_claiming_transaction_def
          self1_def Let_def split: option.splits)
    have get1: "get_claiming_transaction self1 op = (if op = ?p then None else get_claiming_transaction self op)" for op
      by (simp add: get_claiming_transaction_def cl)
    then have beat: "beaten self1 fee op \<longleftrightarrow> beaten self fee op" for op
      using True by (simp add: beaten_def)
    note IH = Cons.IH [OF run rest, unfolded tc beat drops]
    show ?thesis
    proof (cases r)
      case (Inr ops)
      with IH True show ?thesis by simp
    next
      case (Inl e)
      with IH obtain k l where "k < length ins" "get_claiming_transaction self1 (input_point ser (ins ! k)) = Some l"
        "fee \<le> claiming_fee l" "list_all (\<lambda>i. beaten self fee (input_point ser i)) (take k ins)"
        "e = UtxoAlreadyClaimed (out_point_string (input_point ser (ins ! k))) (claimed_by l) (claiming_fee l) fee"
        "claims self' = drop_points (?p # map (input_point ser) (take k ins)) self" "tx_claims self' = tx_claims self"
        by auto
      with True Inl get1 show ?thesis
        by (intro conjI) (auto intro!: exI [of _ "Suc k"] split: if_splits)
    qed
  qed
qed

lemma register_claims_cases:
  assumes "serializes ser (inputs tx)" and "ser (tx_id tx) = Some h"
  obtains (registered) self' where "register_claims ser now self tx fee = (self', Inr ())"
      "list_all (beaten self fee) (tx_points ser tx)"
      "\<And>op. get_claiming_transaction self' op = (if op \<in> set (tx_points ser tx)
         then Some \<lparr>claimed_by = h, claiming_fee = fee, lock_time = now\<rparr> else get_claiming_transaction self op)"
      "\<And>n. fmlookup (claims self') n = (if n \<in> out_point_string ` set (tx_points ser tx)
         then Some \<lparr>claimed_by = h, claiming_fee = fee, lock_time = now\<rparr> else fmlookup (claims self) n)"
      "tx_claims self' = fmupd h (map out_point_string (tx_points ser tx)) (tx_claims self)"
  | (refused) self' k l where "k < length (tx_points ser tx)" "get_claiming_transaction self (tx_points ser tx ! k) = Some l"
      "fee \<le> claiming_fee l" "list_all (beaten self fee) (take k (tx_points ser tx))"
      "register_claims ser now self tx fee = (self',
         Inl (UtxoAlreadyClaimed (out_point_string (tx_points ser tx ! k)) (claimed_by l) (claiming_fee l) fee))"
      "claims self' = drop_points (take k (tx_points ser tx)) self" "tx_claims self' = tx_claims self"
proof -
  obtain self1 r where run: "check_claims ser fee self [] (inputs tx) = (self1, r)"
    by (cases "check_claims ser fee self [] (inputs tx)")
  note spec = check_claims_cases [OF run assms(1)]
  show thesis
  proof (cases r)
    case (Inl e)
    with spec obtain k l where *: "k < length (inputs tx)" "get_claiming_transaction self (input_point ser (inputs tx ! k)) = Some l"
      "fee \<le> claiming_fee l" "list_all (\<lambda>i. beaten self fee (input_point ser i)) (take k (inputs tx))"
      "e = UtxoAlreadyClaimed (out_point_string (input_point ser (inputs tx ! k))) (claimed_by l) (claiming_fee l) fee"
      "claims self1 = drop_points (map (input_point ser) (take k (inputs tx))) self" "tx_claims self1 = tx_claims self"
      by auto
    have "register_claims ser now self tx fee = (self1, Inl e)" using assms(2) run Inl by (simp add: register_claims_def)
    with * refused [of k l self1] show thesis by (simp add: tx_points_def take_map list.pred_map comp_def)
  next
    case (Inr ops)
    with spec have *: "ops = map out_point_string (tx_points ser tx)" "claims self1 = drop_points (tx_points ser tx) self"
      "list_all (beaten self fee) (tx_points ser tx)" "tx_claims self1 = tx_claims self"
      by (simp_all add: tx_points_def list.pred_map comp_def)
    have "register_claims ser now self tx fee = (insert_claims now h tx fee ops self1, Inr ())"
      using assms(2) run Inr by (simp add: register_claims_def)
    moreover have "fmlookup (claims (insert_claims now h tx fee ops self1)) n = (if n \<in> out_point_string ` set (tx_points ser tx)
        then Some \<lparr>claimed_by = h, claiming_fee = fee, lock_time = now\<rparr> else fmlookup (claims self) n)" for n
      by (simp add: insert_claims_def Let_def fmlookup_fmupds_const *(2) drop_points_def) (simp add: *(1))
    moreover have "tx_claims (insert_claims now h tx fee ops self1) = fmupd h ops (tx_claims self)"
      by (simp add: insert_claims_def Let_def *)
    ultimately show thesis
      using registered [of "insert_claims now h tx fee ops self1"] * by (auto simp: get_claiming_transaction_def image_iff)
  qed
qed

section \<open>The life of a tracker\<close>

text \<open>\<open>known\<close> are the transactions that reach the tracker.\<close>

inductive tracker_step :: "hash_ser \<Rightarrow> transaction set \<Rightarrow> utxo_tracker \<Rightarrow> utxo_tracker \<Rightarrow> bool" for ser known where
  registered: "tx \<in> known \<Longrightarrow> register_claims ser now self tx fee = (self', r) \<Longrightarrow> tracker_step ser known self self'"
| released: "release_claims self h = (self', r) \<Longrightarrow> tracker_step ser known self self'"
| replaced: "tx \<in> known \<Longrightarrow> attempt_rbf_replacement ser now self h tx old_fee new_fee = (self', r) \<Longrightarrow>
    tracker_step ser known self self'"
| counted: "tracker_step ser known self (record_rbf_replacement self)"
| cleared: "tracker_step ser known self (clear_all self)"

text \<open>What a hash promises: an id belongs to one list of inputs.\<close>

definition ids_fix_inputs :: "hash_ser \<Rightarrow> transaction set \<Rightarrow> bool" where
  "ids_fix_inputs ser known \<longleftrightarrow>
     (\<forall>tx. tx \<in> known \<longrightarrow> serializes ser (inputs tx) \<and> ser (tx_id tx) \<noteq> None)
     \<and> (\<forall>a b. a \<in> known \<and> b \<in> known \<and> ser (tx_id a) = ser (tx_id b) \<longrightarrow> tx_points ser a = tx_points ser b)"

definition claims_owned :: "hash_ser \<Rightarrow> transaction set \<Rightarrow> utxo_tracker \<Rightarrow> bool" where
  "claims_owned ser known self \<longleftrightarrow>
     (\<forall>n l. fmlookup (claims self) n = Some l \<longrightarrow>
        (\<exists>ops. fmlookup (tx_claims self) (claimed_by l) = Some ops \<and> n \<in> set ops))
     \<and> (\<forall>h ops. fmlookup (tx_claims self) h = Some ops \<longrightarrow>
          (\<exists>tx\<in>known. ser (tx_id tx) = Some h \<and> ops = map out_point_string (tx_points ser tx)))"

lemma owned_tracked:
  assumes "claims_owned ser known self" and "fmlookup (tx_claims self) h = Some ops"
  obtains tx where "tx \<in> known" "ser (tx_id tx) = Some h" "ops = map out_point_string (tx_points ser tx)"
  using assms unfolding claims_owned_def by blast

lemma owned_claim:
  assumes "claims_owned ser known self" and "fmlookup (claims self) n = Some l"
  obtains ops where "fmlookup (tx_claims self) (claimed_by l) = Some ops" "n \<in> set ops"
  using assms unfolding claims_owned_def by blast

lemma ids_fixD:
  assumes "ids_fix_inputs ser known" and "a \<in> known" and "b \<in> known" and "ser (tx_id a) = ser (tx_id b)"
  shows "tx_points ser a = tx_points ser b"
  using assms unfolding ids_fix_inputs_def by blast

lemma owned_new: "claims_owned ser known utxo_tracker_new"
  by (simp add: claims_owned_def utxo_tracker_new_def)

lemma owned_cong: "claims a = claims b \<Longrightarrow> tx_claims a = tx_claims b \<Longrightarrow> claims_owned ser known a = claims_owned ser known b"
  by (simp add: claims_owned_def)

lemma owned_drop:
  "claims_owned ser known self \<Longrightarrow> claims self' = fmdrops ns (claims self) \<Longrightarrow> tx_claims self' = tx_claims self \<Longrightarrow>
   claims_owned ser known self'"
  by (auto simp: claims_owned_def split: if_splits)

lemma owned_register:
  assumes "claims_owned ser known self" and "ids_fix_inputs ser known" and "tx \<in> known"
    and "register_claims ser now self tx fee = (self', r)"
  shows "claims_owned ser known self'"
proof -
  obtain h where h: "ser (tx_id tx) = Some h" and s: "serializes ser (inputs tx)"
    using assms(2,3) by (auto simp: ids_fix_inputs_def)
  have same: "ops = map out_point_string (tx_points ser tx)" if t: "fmlookup (tx_claims self) h = Some ops" for ops
  proof -
    obtain a where a: "a \<in> known" "ser (tx_id a) = Some h" "ops = map out_point_string (tx_points ser a)"
      by (rule owned_tracked [OF assms(1) t])
    then show ?thesis using ids_fixD [OF assms(2) a(1) assms(3)] h by simp
  qed
  show ?thesis
    using s h
  proof (cases rule: register_claims_cases [where now = now and self = self and fee = fee])
    case (registered self1)
    then have s1: "self1 = self'" using assms(4) by simp
    have cl: "\<exists>ops. fmlookup (tx_claims self') (claimed_by l) = Some ops \<and> n \<in> set ops"
      if n: "fmlookup (claims self') n = Some l" for n l
    proof (cases "n \<in> out_point_string ` set (tx_points ser tx)")
      case True
      with n registered(4) [of n] registered(5) show ?thesis by (auto simp: s1)
    next
      case False
      with n registered(4) [of n] have "fmlookup (claims self) n = Some l" by (simp add: s1)
      then obtain ops where ops: "fmlookup (tx_claims self) (claimed_by l) = Some ops" "n \<in> set ops"
        by (rule owned_claim [OF assms(1)])
      with False same have "claimed_by l \<noteq> h" by auto
      with ops registered(5) show ?thesis by (simp add: s1)
    qed
    have "\<exists>tx\<in>known. ser (tx_id tx) = Some h' \<and> ops = map out_point_string (tx_points ser tx)"
      if "fmlookup (tx_claims self') h' = Some ops" for h' ops
      using that registered(5) assms(1,3) h by (auto simp: s1 claims_owned_def split: if_splits)
    with cl show ?thesis unfolding claims_owned_def by blast
  next
    case (refused self1 k l)
    then show ?thesis using assms(4) owned_drop [OF assms(1)] by (auto simp: drop_points_def)
  qed
qed

lemma release_claims_spec:
  assumes "claims_owned ser known self" and "release_claims self h = (self', r)"
  shows "claims_owned ser known self'
    \<and> (case fmlookup (tx_claims self) h of
         None \<Rightarrow> self' = self \<and> r = Inl (TransactionNotTracked h)
       | Some ops \<Rightarrow> r = Inr () \<and> tx_claims self' = fmdrop h (tx_claims self) \<and> claims self' = fmdrops ops (claims self)
           \<and> (\<forall>n l. fmlookup (claims self') n = Some l \<longrightarrow> claimed_by l \<noteq> h))"
proof (cases "fmlookup (tx_claims self) h")
  case None
  with assms show ?thesis by (auto simp: release_claims_def)
next
  case (Some ops)
  then have s: "tx_claims self' = fmdrop h (tx_claims self)" "claims self' = fmdrops ops (claims self)" "r = Inr ()"
    using assms(2) by (auto simp: release_claims_def)
  have gone: "claimed_by l \<noteq> h" if "fmlookup (claims self') n = Some l" for n l
  proof -
    have "n \<notin> set ops" "fmlookup (claims self) n = Some l" using that by (auto simp: s split: if_splits)
    with assms(1) Some show ?thesis unfolding claims_owned_def by fastforce
  qed
  have "claims_owned ser known self'"
    using assms(1) gone by (auto simp: claims_owned_def s split: if_splits)
  with Some s gone show ?thesis by simp
qed

lemma owned_step:
  assumes "tracker_step ser known self self'" and "ids_fix_inputs ser known" and "claims_owned ser known self"
  shows "claims_owned ser known self'"
  using assms(1)
proof (cases rule: tracker_step.cases)
  case (registered tx now fee r)
  then show ?thesis by (intro owned_register [OF assms(3,2)])
next
  case (released h r)
  then show ?thesis using release_claims_spec [OF assms(3)] by blast
next
  case (replaced tx now h old_fee new_fee r)
  show ?thesis
  proof (cases "new_fee \<le> old_fee")
    case True
    with replaced assms(3) show ?thesis by (simp add: attempt_rbf_replacement_def)
  next
    case False
    obtain self1 r1 where rel: "release_claims self h = (self1, r1)" by (cases "release_claims self h")
    have own1: "claims_owned ser known self1" using release_claims_spec [OF assms(3) rel] by blast
    obtain self2 r2 where reg: "register_claims ser now self1 tx new_fee = (self2, r2)"
      by (cases "register_claims ser now self1 tx new_fee")
    have "claims_owned ser known self2" by (rule owned_register [OF own1 assms(2) replaced(1) reg])
    with own1 False replaced(2) rel reg show ?thesis
      by (auto simp: attempt_rbf_replacement_def claims_owned_def split: sum.splits)
  qed
next
  case counted
  with assms(3) show ?thesis by (simp add: claims_owned_def)
next
  case cleared
  then show ?thesis by (simp add: claims_owned_def clear_all_def)
qed

section \<open>Properties\<close>

text \<open>The verdict of \<open>register_claims\<close> rests on the claims alone, since the two checks against the
  chain refuse only an empty hash: it is positive exactly when every output is free or claimed
  with a strictly lower fee. When it is negative, the claims met before the output that stopped
  it are gone.\<close>

lemma register_claims_verdict:
  assumes "serializes ser (inputs tx)" and "ser (tx_id tx) = Some h" and "ops = tx_points ser tx"
    and "register_claims ser now self tx fee = (self', r)"
  shows "(r = Inr () \<longleftrightarrow> list_all (beaten self fee) ops)
    \<and> (r = Inr () \<longrightarrow> (\<forall>op. get_claiming_transaction self' op = (if op \<in> set ops
         then Some \<lparr>claimed_by = h, claiming_fee = fee, lock_time = now\<rparr> else get_claiming_transaction self op))
         \<and> get_transaction_claims self' h = Some (map out_point_string ops))
    \<and> (r \<noteq> Inr () \<longrightarrow> tx_claims self' = tx_claims self
         \<and> (\<exists>k<length ops. \<not> beaten self fee (ops ! k)
              \<and> (\<forall>op. get_claiming_transaction self' op = (if op \<in> set (take k ops) then None else get_claiming_transaction self op))))"
  using assms(1,2)
proof (cases rule: register_claims_cases [where now = now and self = self and fee = fee])
  case (registered self1)
  with assms(3,4) show ?thesis by (simp add: get_transaction_claims_def)
next
  case (refused self1 k l)
  have "\<not> beaten self fee (ops ! k)" using refused(2,3) assms(3) by (simp add: beaten_def)
  moreover from this have "\<not> list_all (beaten self fee) ops" using refused(1) assms(3) by (auto simp: list_all_length)
  moreover have "get_claiming_transaction self' op = (if op \<in> set (take k ops) then None else get_claiming_transaction self op)" for op
    using refused(5,6) assms(3,4) by (auto simp: get_claiming_transaction_def drop_points_def image_iff)
  ultimately show ?thesis using refused assms(3,4) by auto
qed

text \<open>C23: \<open>register_claims\<close>, for a transaction whose id and inputs serialize: a transaction it accepts
  found every output it spends free or claimed with a strictly lower fee, and afterwards exactly
  those outputs are claimed by it at that fee, every other claim is as before, and its claims are
  listed under its hash; a transaction that spends an output claimed with an equal or higher fee
  is refused, and a refused transaction is not tracked.\<close>

theorem accepted_claims_exact:
  assumes "serializes ser (inputs tx)" and "ser (tx_id tx) = Some h"
    and "register_claims ser now self tx fee = (self', r)"
  shows "case r of
      Inl _ \<Rightarrow> tx_claims self' = tx_claims self
    | Inr _ \<Rightarrow> (\<forall>op\<in>set (tx_points ser tx). \<forall>l. get_claiming_transaction self op = Some l \<longrightarrow> claiming_fee l < fee)
        \<and> (\<forall>op. get_claiming_transaction self' op = (if op \<in> set (tx_points ser tx)
              then Some \<lparr>claimed_by = h, claiming_fee = fee, lock_time = now\<rparr> else get_claiming_transaction self op))
        \<and> get_transaction_claims self' h = Some (map out_point_string (tx_points ser tx))"
  using register_claims_verdict [OF assms(1,2) refl assms(3)]
  by (cases r) (auto simp: list_all_iff beaten_def)

text \<open>in every state a tracker can reach, each claim names a tracked transaction that spends the
  claimed output, and releasing a tracked transaction succeeds, frees every output it spends, and
  leaves no claim that names it.\<close>

theorem claims_always_owned:
  assumes "(tracker_step ser known)\<^sup>*\<^sup>* utxo_tracker_new self" and "ids_fix_inputs ser known"
  shows "(\<forall>op l. get_claiming_transaction self op = Some l \<longrightarrow>
       (\<exists>tx\<in>known. ser (tx_id tx) = Some (claimed_by l) \<and> op \<in> set (tx_points ser tx)
          \<and> get_transaction_claims self (claimed_by l) = Some (map out_point_string (tx_points ser tx))))
    \<and> (\<forall>tx\<in>known. \<forall>h. ser (tx_id tx) = Some h \<and> get_transaction_claims self h \<noteq> None \<longrightarrow>
         (\<exists>self'. release_claims self h = (self', Inr ()) \<and> (\<forall>op\<in>set (tx_points ser tx). \<not> is_claimed self' op)
            \<and> get_transaction_claims self' h = None
            \<and> (\<forall>op l. get_claiming_transaction self' op = Some l \<longrightarrow> claimed_by l \<noteq> h)))"
proof -
  have own: "claims_owned ser known self"
    using assms(1) by (induction rule: rtranclp_induct) (auto intro: owned_new owned_step [OF _ assms(2)])
  have "\<exists>tx\<in>known. ser (tx_id tx) = Some (claimed_by l) \<and> op \<in> set (tx_points ser tx)
      \<and> get_transaction_claims self (claimed_by l) = Some (map out_point_string (tx_points ser tx))"
    if op: "get_claiming_transaction self op = Some l" for op l
  proof -
    obtain ops where ops: "fmlookup (tx_claims self) (claimed_by l) = Some ops" "out_point_string op \<in> set ops"
      using owned_claim [OF own] op by (auto simp: get_claiming_transaction_def)
    from owned_tracked [OF own ops(1)] obtain tx where tx: "tx \<in> known" "ser (tx_id tx) = Some (claimed_by l)"
      "ops = map out_point_string (tx_points ser tx)" .
    with ops have "op \<in> set (tx_points ser tx)" by auto
    with tx ops(1) show ?thesis by (auto simp: get_transaction_claims_def)
  qed
  moreover have "\<exists>self'. release_claims self h = (self', Inr ()) \<and> (\<forall>op\<in>set (tx_points ser tx). \<not> is_claimed self' op)
      \<and> get_transaction_claims self' h = None \<and> (\<forall>op l. get_claiming_transaction self' op = Some l \<longrightarrow> claimed_by l \<noteq> h)"
    if tx: "tx \<in> known" "ser (tx_id tx) = Some h" "get_transaction_claims self h \<noteq> None" for tx h
  proof -
    obtain ops where ops: "fmlookup (tx_claims self) h = Some ops" using tx(3) by (auto simp: get_transaction_claims_def)
    then obtain a where a: "a \<in> known" "ser (tx_id a) = Some h" "ops = map out_point_string (tx_points ser a)"
      by (rule owned_tracked [OF own])
    then have eq: "ops = map out_point_string (tx_points ser tx)"
      using ids_fixD [OF assms(2) a(1) tx(1)] tx(2) by simp
    obtain self' r where rel: "release_claims self h = (self', r)" by (cases "release_claims self h")
    with release_claims_spec [OF own rel] ops eq show ?thesis
      by (auto simp: is_claimed_def get_transaction_claims_def get_claiming_transaction_def)
  qed
  ultimately show ?thesis by blast
qed

text \<open>a replaced transaction can take its replacement's claim away. After a first transaction is
  outbid for an output by a second one, releasing the first (as the removal from the pool does)
  frees the output although the second still holds it, and a third transaction may claim it with
  any fee: two tracked transactions then spend the same output.\<close>

theorem replaced_release_frees_output:
  assumes "list_all (\<lambda>tx. serializes ser (inputs tx) \<and> tx_points ser tx = [op]) [tx1, tx2, tx3]"
    and "ser (tx_id tx1) = Some h1" and "ser (tx_id tx2) = Some h2" and "ser (tx_id tx3) = Some h3"
    and "distinct [h1, h2, h3]" and "fee1 < fee2"
  shows "\<exists>s1 s2 s3 s4. register_claims ser now utxo_tracker_new tx1 fee1 = (s1, Inr ())
    \<and> register_claims ser now s1 tx2 fee2 = (s2, Inr ()) \<and> release_claims s2 h1 = (s3, Inr ())
    \<and> register_claims ser now s3 tx3 fee3 = (s4, Inr ())
    \<and> get_transaction_claims s4 h2 = Some [out_point_string op] \<and> get_transaction_claims s4 h3 = Some [out_point_string op]"
proof -
  have step: "\<exists>s'. register_claims ser now s tx fee = (s', Inr ())
      \<and> get_claiming_transaction s' op = Some \<lparr>claimed_by = h, claiming_fee = fee, lock_time = now\<rparr>
      \<and> tx_claims s' = fmupd h [out_point_string op] (tx_claims s)"
    if tx: "tx \<in> {tx1, tx2, tx3}" "ser (tx_id tx) = Some h" "beaten s fee op" for tx h s fee
  proof -
    have s: "serializes ser (inputs tx)" "tx_points ser tx = [op]" using assms(1) tx(1) by auto
    show ?thesis
      using s(1) tx(2)
    proof (cases rule: register_claims_cases [where now = now and self = s and fee = fee])
      case (registered s')
      then show ?thesis using s(2) by simp
    next
      case (refused s' k l)
      then show ?thesis using s(2) tx(3) by (simp add: beaten_def)
    qed
  qed
  have "beaten utxo_tracker_new fee1 op" by (simp add: beaten_def get_claiming_transaction_def utxo_tracker_new_def)
  then obtain s1 where s1: "register_claims ser now utxo_tracker_new tx1 fee1 = (s1, Inr ())"
    "get_claiming_transaction s1 op = Some \<lparr>claimed_by = h1, claiming_fee = fee1, lock_time = now\<rparr>"
    "tx_claims s1 = fmupd h1 [out_point_string op] (tx_claims utxo_tracker_new)"
    using step [of tx1 h1] assms(2) by blast
  have "beaten s1 fee2 op" using s1(2) assms(6) by (simp add: beaten_def)
  then obtain s2 where s2: "register_claims ser now s1 tx2 fee2 = (s2, Inr ())"
    "tx_claims s2 = fmupd h2 [out_point_string op] (tx_claims s1)"
    using step [of tx2 h2] assms(3) by blast
  have "fmlookup (tx_claims s2) h1 = Some [out_point_string op]" using s1(3) s2(2) assms(5) by simp
  then obtain s3 where s3: "release_claims s2 h1 = (s3, Inr ())" "tx_claims s3 = fmdrop h1 (tx_claims s2)"
    "claims s3 = fmdrop (out_point_string op) (claims s2)"
    by (simp add: release_claims_def)
  have "beaten s3 fee3 op" by (simp add: beaten_def get_claiming_transaction_def s3(3))
  then obtain s4 where s4: "register_claims ser now s3 tx3 fee3 = (s4, Inr ())"
    "tx_claims s4 = fmupd h3 [out_point_string op] (tx_claims s3)"
    using step [of tx3 h3] assms(4) by blast
  have "get_transaction_claims s4 h2 = Some [out_point_string op]" "get_transaction_claims s4 h3 = Some [out_point_string op]"
    using s2(2) s3(2) s4(2) assms(5) by (auto simp: get_transaction_claims_def)
  with s1(1) s2(1) s3(1) s4(1) show ?thesis by blast
qed

section \<open>Witnesses\<close>

definition demo_ser :: hash_ser where
  "demo_ser h = Some (as_bytes h)"

definition demo_point :: out_point where
  "demo_point = \<lparr>op_tx_hash = replicate 32 7, op_index = 0\<rparr>"

lemma demo_points: "tx_points demo_ser (demo_tx\<lparr>tx_id := h\<rparr>) = [demo_point]" "tx_points demo_ser demo_tx = [demo_point]"
  by (simp_all add: tx_points_def input_point_def demo_tx_def demo_input_def demo_ser_def demo_point_def)

lemma demo_serializes: "serializes demo_ser (inputs demo_tx)" "demo_ser (tx_id demo_tx) = Some (replicate 32 9)"
  by (simp_all add: serializes_def demo_ser_def demo_tx_def demo_input_def)

lemma demo_registers:
  "\<exists>self l. register_claims demo_ser 5 utxo_tracker_new demo_tx 10 = (self, Inr ())
     \<and> get_claiming_transaction self demo_point = Some l"
  using demo_serializes
  by (cases rule: register_claims_cases [where now = 5 and self = utxo_tracker_new and fee = 10])
    (auto simp: get_claiming_transaction_def utxo_tracker_new_def demo_points)

theorem accepted_claims_exact_witness:
  "\<exists>self l. register_claims demo_ser 5 utxo_tracker_new demo_tx 10 = (self, Inr ())
     \<and> get_claiming_transaction self demo_point = Some l \<and> claiming_fee l = 10"
proof -
  obtain self where reg: "register_claims demo_ser 5 utxo_tracker_new demo_tx 10 = (self, Inr ())"
    using demo_registers by blast
  with accepted_claims_exact [OF demo_serializes reg] show ?thesis by (simp add: demo_points)
qed

theorem claims_always_owned_witness:
  "\<exists>self l. get_claiming_transaction self demo_point = Some l
     \<and> get_transaction_claims self (claimed_by l) = Some [out_point_string demo_point]"
proof -
  obtain self l where reg: "register_claims demo_ser 5 utxo_tracker_new demo_tx 10 = (self, Inr ())"
    and l: "get_claiming_transaction self demo_point = Some l"
    using demo_registers by blast
  have reach: "(tracker_step demo_ser {demo_tx})\<^sup>*\<^sup>* utxo_tracker_new self"
    by (rule r_into_rtranclp, rule tracker_step.registered [OF _ reg]) simp
  have ids: "ids_fix_inputs demo_ser {demo_tx}" using demo_serializes by (simp add: ids_fix_inputs_def)
  from l claims_always_owned [OF reach ids] show ?thesis by (auto simp: demo_points)
qed

theorem replaced_release_frees_output_witness:
  "\<exists>s3 s4. get_transaction_claims s4 [2] = Some [out_point_string demo_point]
     \<and> get_transaction_claims s4 [3] = Some [out_point_string demo_point]
     \<and> register_claims demo_ser 5 s3 (demo_tx\<lparr>tx_id := Hash [3]\<rparr>) 1 = (s4, Inr ())"
proof -
  let ?tx = "\<lambda>n. demo_tx\<lparr>tx_id := Hash [n]\<rparr>"
  have all: "list_all (\<lambda>tx. serializes demo_ser (inputs tx) \<and> tx_points demo_ser tx = [demo_point]) [?tx 1, ?tx 2, ?tx 3]"
    using demo_serializes(1) by (simp add: demo_points)
  have "demo_ser (tx_id (?tx n)) = Some [n]" for n by (simp add: demo_ser_def)
  from replaced_release_frees_output [OF all this this this, where ?fee1.0 = 10 and ?fee2.0 = 20 and ?fee3.0 = 1 and now = 5]
  show ?thesis by auto
qed

end
