(* ===== verification/Orphan_Manager.thy ===== *)
theory Orphan_Manager
  imports Utxo_Tracker
begin

text \<open>
  Transactions that wait for unknown inputs: \<open>klomang-node/src/mempool/orphan_manager.rs\<close>. The
  insertion order is an association list, as the index map keeps it. The order in which the pool is
  iterated is the argument \<open>iter\<close>, and the time in nanoseconds, read once per call, the argument
  \<open>now\<close>.
\<close>

section \<open>Data\<close>

datatype orphan_eviction_policy = Fifo | FeeBased

record orphan_pool_config =
  max_orphans :: nat
  max_adoption_batch :: nat
  orphan_ttl_ns :: u64
  eviction_policy :: orphan_eviction_policy

definition orphan_pool_config_default :: orphan_pool_config where
  "orphan_pool_config_default = \<lparr>max_orphans = 5000, max_adoption_batch = 1000,
     orphan_ttl_ns = 20 * 60 * 1000000000, eviction_policy = FeeBased\<rparr>"

record orphan_entry =
  oe_transaction :: transaction
  insertion_time_ns :: u64
  missing_inputs :: "out_point list"
  oe_size_bytes :: nat
  oe_total_fee :: u64

definition orphan_entry_new :: "u64 \<Rightarrow> transaction \<Rightarrow> out_point list \<Rightarrow> nat \<Rightarrow> u64 \<Rightarrow> orphan_entry" where
  "orphan_entry_new now tx missing n fee = \<lparr>oe_transaction = tx, insertion_time_ns = now,
     missing_inputs = missing, oe_size_bytes = n, oe_total_fee = fee\<rparr>"

definition orphan_fee_rate :: "orphan_entry \<Rightarrow> u64" where
  "orphan_fee_rate self = (if oe_size_bytes self = 0 then 0 else oe_total_fee self div of_nat (oe_size_bytes self))"

definition age_ns :: "u64 \<Rightarrow> orphan_entry \<Rightarrow> u64" where
  "age_ns now self = saturating_sub now (insertion_time_ns self)"

definition orphan_is_expired :: "u64 \<Rightarrow> orphan_entry \<Rightarrow> u64 \<Rightarrow> bool" where
  "orphan_is_expired now self ttl_ns \<longleftrightarrow> ttl_ns < age_ns now self"

record orphan_stats =
  total_orphans :: nat
  total_memory_bytes :: nat
  unique_missing_parents :: nat
  stat_adoption_count :: u64
  evicted_count :: u64
  expired_count :: u64

definition orphan_stats_default :: orphan_stats where
  "orphan_stats_default = \<lparr>total_orphans = 0, total_memory_bytes = 0, unique_missing_parents = 0,
     stat_adoption_count = 0, evicted_count = 0, expired_count = 0\<rparr>"

record adoption_result =
  adopted_txs :: "transaction list"
  adoption_count :: nat
  remaining_orphans :: nat

record orphan_manager =
  orphan_pool :: "(bytes, orphan_entry) fmap"
  missing_input_index :: "(out_point, bytes list) fmap"
  insertion_order :: "(bytes \<times> u64) list"
  om_config :: orphan_pool_config
  om_stats :: orphan_stats

definition orphan_manager_new :: "orphan_pool_config \<Rightarrow> orphan_manager" where
  "orphan_manager_new config = \<lparr>orphan_pool = fmempty, missing_input_index = fmempty, insertion_order = [],
     om_config = config, om_stats = orphan_stats_default\<rparr>"

type_synonym pool_order = "(bytes, orphan_entry) fmap \<Rightarrow> (bytes \<times> orphan_entry) list"

section \<open>Operations\<close>

definition orphan_len :: "orphan_manager \<Rightarrow> nat" where
  "orphan_len self = fcard (fmdom (orphan_pool self))"

text \<open>\<open>IndexMap::insert\<close> keeps the place of a key it has; \<open>shift_remove\<close> keeps the order of the rest.\<close>

fun order_insert :: "bytes \<Rightarrow> u64 \<Rightarrow> (bytes \<times> u64) list \<Rightarrow> (bytes \<times> u64) list" where
  "order_insert h now [] = [(h, now)]"
| "order_insert h now ((k, t) # rest) = (if k = h then (k, now) # rest else (k, t) # order_insert h now rest)"

definition shift_remove :: "bytes \<Rightarrow> (bytes \<times> u64) list \<Rightarrow> (bytes \<times> u64) list" where
  "shift_remove h order = filter (\<lambda>(k, _). k \<noteq> h) order"

definition push_child :: "bytes \<Rightarrow> out_point \<Rightarrow> (out_point, bytes list) fmap \<Rightarrow> (out_point, bytes list) fmap" where
  "push_child h op m = fmupd op ((case fmlookup m op of None \<Rightarrow> [] | Some hs \<Rightarrow> hs) @ [h]) m"

definition retain_nonempty :: "(out_point, bytes list) fmap \<Rightarrow> (out_point, bytes list) fmap" where
  "retain_nonempty m = fmfilter (\<lambda>op. fmlookup m op \<noteq> Some []) m"

definition drop_child :: "bytes \<Rightarrow> out_point \<Rightarrow> (out_point, bytes list) fmap \<Rightarrow> (out_point, bytes list) fmap" where
  "drop_child h op m = (case fmlookup m op of None \<Rightarrow> m | Some hs \<Rightarrow> fmupd op (filter (\<lambda>k. k \<noteq> h) hs) m)"

definition remove_orphan :: "orphan_manager \<Rightarrow> bytes \<Rightarrow> orphan_manager \<times> (string + transaction)" where
  "remove_orphan self h =
     (case fmlookup (orphan_pool self) h of
        None \<Rightarrow> (self, Inl ''Orphan transaction not found'')
      | Some entry \<Rightarrow>
          (let pool = fmdrop h (orphan_pool self); st = om_stats self in
           (self\<lparr>orphan_pool := pool, insertion_order := shift_remove h (insertion_order self),
              missing_input_index := retain_nonempty (fold (drop_child h) (missing_inputs entry) (missing_input_index self)),
              om_stats := st\<lparr>total_orphans := fcard (fmdom pool),
                total_memory_bytes := total_memory_bytes st - oe_size_bytes entry\<rparr>\<rparr>,
            Inr (oe_transaction entry))))"

definition select_fifo_victim :: "orphan_manager \<Rightarrow> bytes option" where
  "select_fifo_victim self = (case insertion_order self of [] \<Rightarrow> None | (h, _) # _ \<Rightarrow> Some h)"

fun lowest_fee :: "bytes option \<Rightarrow> u64 \<Rightarrow> (bytes \<times> orphan_entry) list \<Rightarrow> bytes option" where
  "lowest_fee best rate [] = best"
| "lowest_fee best rate ((h, e) # rest) =
     (if orphan_fee_rate e < rate then lowest_fee (Some h) (orphan_fee_rate e) rest else lowest_fee best rate rest)"

text \<open>\<open>- 1\<close> is \<open>u64::MAX\<close>.\<close>

definition select_fee_victim :: "pool_order \<Rightarrow> orphan_manager \<Rightarrow> bytes option" where
  "select_fee_victim iter self = lowest_fee None (- 1) (iter (orphan_pool self))"

definition evict_one :: "pool_order \<Rightarrow> orphan_manager \<Rightarrow> orphan_manager \<times> (string + unit)" where
  "evict_one iter self =
     (case (case eviction_policy (om_config self) of
              Fifo \<Rightarrow> select_fifo_victim self | FeeBased \<Rightarrow> select_fee_victim iter self) of
        None \<Rightarrow> (self, Inl ''No transaction available for eviction'')
      | Some h \<Rightarrow>
          (case remove_orphan self h of
             (self', Inl _) \<Rightarrow> (self', Inr ())
           | (self', Inr _) \<Rightarrow>
               (self'\<lparr>om_stats := (om_stats self')\<lparr>evicted_count := evicted_count (om_stats self') + 1\<rparr>\<rparr>, Inr ())))"

definition insert_orphan ::
    "u64 \<Rightarrow> orphan_manager \<Rightarrow> bytes \<Rightarrow> transaction \<Rightarrow> out_point list \<Rightarrow> nat \<Rightarrow> u64 \<Rightarrow> orphan_manager" where
  "insert_orphan now self h tx missing n fee =
     (let pool = fmupd h (orphan_entry_new now tx missing n fee) (orphan_pool self);
          idx = fold (push_child h) missing (missing_input_index self);
          st = om_stats self
      in self\<lparr>orphan_pool := pool, insertion_order := order_insert h now (insertion_order self),
           missing_input_index := idx,
           om_stats := st\<lparr>total_orphans := fcard (fmdom pool), total_memory_bytes := total_memory_bytes st + n,
             unique_missing_parents := fcard (fmdom idx)\<rparr>\<rparr>)"

definition add_orphan ::
    "pool_order \<Rightarrow> u64 \<Rightarrow> orphan_manager \<Rightarrow> bytes \<Rightarrow> transaction \<Rightarrow> out_point list \<Rightarrow> nat \<Rightarrow> u64
      \<Rightarrow> orphan_manager \<times> (string + unit)" where
  "add_orphan iter now self h tx missing n fee =
     (case (if max_orphans (om_config self) \<le> orphan_len self then evict_one iter self else (self, Inr ())) of
        (self', Inl e) \<Rightarrow> (self', Inl e)
      | (self', Inr _) \<Rightarrow> (insert_orphan now self' h tx missing n fee, Inr ()))"

definition contains_orphan :: "orphan_manager \<Rightarrow> bytes \<Rightarrow> bool" where
  "contains_orphan self h \<longleftrightarrow> h |\<in>| fmdom (orphan_pool self)"

definition get_orphan :: "orphan_manager \<Rightarrow> bytes \<Rightarrow> transaction option" where
  "get_orphan self h = map_option oe_transaction (fmlookup (orphan_pool self) h)"

definition get_orphan_entry :: "orphan_manager \<Rightarrow> bytes \<Rightarrow> orphan_entry option" where
  "get_orphan_entry self h = fmlookup (orphan_pool self) h"

definition orphan_is_empty :: "orphan_manager \<Rightarrow> bool" where
  "orphan_is_empty self \<longleftrightarrow> orphan_pool self = fmempty"

text \<open>The loop of \<open>process_orphans_for_parent\<close> over the children.\<close>

fun adopt_children :: "orphan_manager \<Rightarrow> transaction list \<Rightarrow> bytes list \<Rightarrow> orphan_manager \<times> transaction list" where
  "adopt_children self adopted [] = (self, adopted)"
| "adopt_children self adopted (h # hs) =
     (case fmlookup (orphan_pool self) h of
        None \<Rightarrow> adopt_children self adopted hs
      | Some entry \<Rightarrow>
          (let pool = fmdrop h (orphan_pool self); st = om_stats self in
           adopt_children
             (self\<lparr>orphan_pool := pool, insertion_order := shift_remove h (insertion_order self),
                om_stats := st\<lparr>total_orphans := fcard (fmdom pool),
                  total_memory_bytes := total_memory_bytes st - oe_size_bytes entry,
                  stat_adoption_count := stat_adoption_count st + 1\<rparr>\<rparr>)
             (adopted @ [oe_transaction entry]) hs))"

definition process_orphans_for_parent :: "orphan_manager \<Rightarrow> out_point \<Rightarrow> orphan_manager \<times> (string + adoption_result)" where
  "process_orphans_for_parent self parent_outpoint =
     (let hs = (case fmlookup (missing_input_index self) parent_outpoint of None \<Rightarrow> [] | Some hs \<Rightarrow> hs);
          (self1, adopted) = adopt_children
            (self\<lparr>missing_input_index := fmdrop parent_outpoint (missing_input_index self)\<rparr>) [] hs;
          self2 = self1\<lparr>missing_input_index := retain_nonempty (missing_input_index self1)\<rparr>
      in (self2, Inr \<lparr>adopted_txs = adopted, adoption_count = length adopted, remaining_orphans = orphan_len self2\<rparr>))"

fun process_each :: "orphan_manager \<Rightarrow> out_point list \<Rightarrow> transaction list \<Rightarrow> orphan_manager \<times> (string + transaction list)" where
  "process_each self [] adopted = (self, Inr adopted)"
| "process_each self (op # ops) adopted =
     (case process_orphans_for_parent self op of
        (self', Inl e) \<Rightarrow> (self', Inl e)
      | (self', Inr r) \<Rightarrow> process_each self' ops (adopted @ adopted_txs r))"

definition process_orphans_for_parents ::
    "orphan_manager \<Rightarrow> out_point list \<Rightarrow> orphan_manager \<times> (string + adoption_result)" where
  "process_orphans_for_parents self parent_outpoints =
     (case process_each self parent_outpoints [] of
        (self', Inl e) \<Rightarrow> (self', Inl e)
      | (self', Inr txs) \<Rightarrow>
          (self', Inr \<lparr>adopted_txs = txs, adoption_count = length txs, remaining_orphans = orphan_len self'\<rparr>))"

fun remove_orphans :: "orphan_manager \<Rightarrow> bytes list \<Rightarrow> orphan_manager \<times> nat" where
  "remove_orphans self [] = (self, 0)"
| "remove_orphans self (h # hs) =
     (case remove_orphan self h of
        (self', r) \<Rightarrow> (case remove_orphans self' hs of (self'', n) \<Rightarrow> (self'', if is_ok r then Suc n else n)))"

definition cleanup_expired_orphans :: "pool_order \<Rightarrow> u64 \<Rightarrow> orphan_manager \<Rightarrow> orphan_manager \<times> nat" where
  "cleanup_expired_orphans iter now self =
     remove_orphans self (map fst (filter (\<lambda>(_, e). orphan_is_expired now e (orphan_ttl_ns (om_config self)))
       (iter (orphan_pool self))))"

definition get_orphans_by_age_range :: "pool_order \<Rightarrow> u64 \<Rightarrow> orphan_manager \<Rightarrow> u64 \<Rightarrow> u64 \<Rightarrow> transaction list" where
  "get_orphans_by_age_range iter now self min_age max_age =
     map (\<lambda>(_, e). oe_transaction e)
       (filter (\<lambda>(_, e). min_age \<le> age_ns now e \<and> age_ns now e \<le> max_age) (iter (orphan_pool self)))"

definition get_orphans_waiting_for :: "orphan_manager \<Rightarrow> out_point \<Rightarrow> transaction list" where
  "get_orphans_waiting_for self parent_outpoint =
     List.map_filter (get_orphan self)
       (case fmlookup (missing_input_index self) parent_outpoint of None \<Rightarrow> [] | Some hs \<Rightarrow> hs)"

definition orphan_get_stats :: "orphan_manager \<Rightarrow> orphan_stats" where
  "orphan_get_stats self = (om_stats self)\<lparr>total_orphans := orphan_len self,
     unique_missing_parents := fcard (fmdom (missing_input_index self))\<rparr>"

definition orphan_clear :: "orphan_manager \<Rightarrow> orphan_manager" where
  "orphan_clear self = self\<lparr>orphan_pool := fmempty, missing_input_index := fmempty, insertion_order := [],
     om_stats := orphan_stats_default\<rparr>"

definition verify_consistency :: "orphan_manager \<Rightarrow> string + unit" where
  "verify_consistency self =
     (if fBall (fmran (missing_input_index self)) (list_all (contains_orphan self)) then Inr ()
      else Inl ''Orphan child reference mismatch in missing input index'')"

section \<open>The invariant\<close>

definition listed :: "(out_point, bytes list) fmap \<Rightarrow> out_point \<Rightarrow> bytes set" where
  "listed m op = (case fmlookup m op of None \<Rightarrow> {} | Some hs \<Rightarrow> set hs)"

lemma listed_push: "listed (push_child h op m) op' = (if op = op' then insert h (listed m op') else listed m op')"
  by (auto simp: listed_def push_child_def split: option.splits)

lemma listed_pushes: "listed (fold (push_child h) ops m) op' = (if op' \<in> set ops then insert h (listed m op') else listed m op')"
  by (induction ops arbitrary: m) (auto simp: listed_push)

lemma listed_drop: "listed (drop_child h op m) op' = (if op = op' then listed m op' - {h} else listed m op')"
  by (auto simp: listed_def drop_child_def split: option.splits)

lemma listed_drops: "listed (fold (drop_child h) ops m) op' = (if op' \<in> set ops then listed m op' - {h} else listed m op')"
  by (induction ops arbitrary: m) (auto simp: listed_drop)

lemma listed_retain: "listed (retain_nonempty m) op = listed m op"
  by (auto simp: listed_def retain_nonempty_def split: option.splits)

lemma listed_fmdrop: "listed (fmdrop op m) op' = (if op = op' then {} else listed m op')"
  by (simp add: listed_def)

lemmas listed_simps = listed_pushes listed_drops listed_retain listed_fmdrop

lemma order_insert_keys:
  "map fst (order_insert h now order) = (if h \<in> set (map fst order) then map fst order else map fst order @ [h])"
proof (induction order)
  case (Cons x order)
  then show ?case by (cases x) simp
qed simp

lemma shift_remove_keys: "map fst (shift_remove h order) = filter (\<lambda>k. k \<noteq> h) (map fst order)"
  by (induction order) (auto simp: shift_remove_def)

text \<open>Every orphan is listed under each input it waits for, the insertion order lists exactly the
  orphans, and the pool is within its limit.\<close>

definition order_ok :: "orphan_manager \<Rightarrow> bool" where
  "order_ok self \<longleftrightarrow> distinct (map fst (insertion_order self))
     \<and> fst ` set (insertion_order self) = fset (fmdom (orphan_pool self))"

definition om_inv :: "orphan_manager \<Rightarrow> bool" where
  "om_inv self \<longleftrightarrow> order_ok self
     \<and> (\<forall>h e op. fmlookup (orphan_pool self) h = Some e \<and> op \<in> set (missing_inputs e) \<longrightarrow> h \<in> listed (missing_input_index self) op)
     \<and> orphan_len self \<le> max_orphans (om_config self)"

lemma om_inv_new: "om_inv (orphan_manager_new config)"
  by (simp add: om_inv_def order_ok_def orphan_manager_new_def orphan_len_def fcard_fempty)

lemma shift_remove_set: "fst ` set (shift_remove h order) = fst ` set order - {h}"
  by (auto simp: shift_remove_def image_iff)

lemma order_ok_drop:
  assumes "order_ok self" and "orphan_pool self' = fmdrop h (orphan_pool self)"
    and "insertion_order self' = shift_remove h (insertion_order self)"
  shows "order_ok self'"
  using assms by (simp add: order_ok_def shift_remove_keys shift_remove_set)

text \<open>What every removal does to the invariant.\<close>

lemma om_inv_drop:
  assumes "om_inv self" and "orphan_pool self' = fmdrop h (orphan_pool self)"
    and "insertion_order self' = shift_remove h (insertion_order self)" and "om_config self' = om_config self"
    and "\<And>op. listed (missing_input_index self) op - {h} \<subseteq> listed (missing_input_index self') op"
  shows "om_inv self'"
proof -
  have "k \<in> listed (missing_input_index self') op"
    if "fmlookup (orphan_pool self') k = Some e" "op \<in> set (missing_inputs e)" for k e op
    using that assms(1,2) assms(5) [of op] by (auto simp: om_inv_def split: if_splits)
  moreover have "orphan_len self' \<le> max_orphans (om_config self')"
    using assms(1,2,4) fcard_drop_le [of h "orphan_pool self"] by (simp add: om_inv_def orphan_len_def del: fmdom_drop)
  moreover have "order_ok self'" using order_ok_drop [OF _ assms(2,3)] assms(1) by (simp add: om_inv_def)
  ultimately show ?thesis unfolding om_inv_def by blast
qed

lemma remove_orphan_cases:
  assumes "remove_orphan self h = (self', r)"
  obtains (absent) "fmlookup (orphan_pool self) h = None" "self' = self" "r = Inl ''Orphan transaction not found''"
  | (removed) e where "fmlookup (orphan_pool self) h = Some e" "r = Inr (oe_transaction e)"
      "orphan_pool self' = fmdrop h (orphan_pool self)" "insertion_order self' = shift_remove h (insertion_order self)"
      "om_config self' = om_config self"
      "\<And>op. listed (missing_input_index self') op = (if op \<in> set (missing_inputs e)
         then listed (missing_input_index self) op - {h} else listed (missing_input_index self) op)"
  using assms by (cases "fmlookup (orphan_pool self) h") (auto simp: remove_orphan_def Let_def listed_simps)

lemma om_inv_remove:
  assumes "om_inv self" and "remove_orphan self h = (self', r)"
  shows "om_inv self'"
  using assms(2)
proof (cases rule: remove_orphan_cases)
  case absent
  with assms(1) show ?thesis by simp
next
  case (removed e)
  then show ?thesis by (intro om_inv_drop [OF assms(1)]) auto
qed

lemma om_inv_stats: "om_inv (self\<lparr>om_stats := st\<rparr>) = om_inv self"
  by (simp add: om_inv_def order_ok_def orphan_len_def)

lemma lowest_fee_spec:
  assumes "lowest_fee best rate es = Some h"
  shows "(best = Some h \<and> list_all (\<lambda>(_, e). rate \<le> orphan_fee_rate e) es)
    \<or> (\<exists>e. (h, e) \<in> set es \<and> orphan_fee_rate e < rate \<and> list_all (\<lambda>(_, e'). orphan_fee_rate e \<le> orphan_fee_rate e') es)"
  using assms
proof (induction es arbitrary: best rate)
  case (Cons x es)
  obtain k e where x: "x = (k, e)" by (cases x)
  show ?case
  proof (cases "orphan_fee_rate e < rate")
    case True
    with Cons.prems x have "lowest_fee (Some k) (orphan_fee_rate e) es = Some h" by simp
    from Cons.IH [OF this] show ?thesis
      using True by (auto simp: x list_all_iff)
  next
    case False
    with Cons.prems x have "lowest_fee best rate es = Some h" by simp
    from Cons.IH [OF this] show ?thesis
      using False by (auto simp: x list_all_iff)
  qed
qed simp

definition iterates_pool :: "pool_order \<Rightarrow> bool" where
  "iterates_pool iter \<longleftrightarrow> (\<forall>m h e. (h, e) \<in> set (iter m) \<longleftrightarrow> fmlookup m h = Some e)"

text \<open>A victim is an orphan; with the fee policy it is one with the lowest fee rate.\<close>

lemma evict_one_cases:
  assumes "om_inv self" and "iterates_pool iter" and "evict_one iter self = (self', r)"
  obtains (none) "self' = self" "r = Inl ''No transaction available for eviction''"
  | (evicted) h e where "fmlookup (orphan_pool self) h = Some e" "r = Inr ()" "om_inv self'"
      "orphan_pool self' = fmdrop h (orphan_pool self)" "om_config self' = om_config self"
      "eviction_policy (om_config self) = Fifo \<Longrightarrow> \<exists>t rest. insertion_order self = (h, t) # rest"
      "eviction_policy (om_config self) = FeeBased \<Longrightarrow>
         \<forall>k e'. fmlookup (orphan_pool self) k = Some e' \<longrightarrow> orphan_fee_rate e \<le> orphan_fee_rate e'"
proof -
  define victim where "victim = (case eviction_policy (om_config self) of
    Fifo \<Rightarrow> select_fifo_victim self | FeeBased \<Rightarrow> select_fee_victim iter self)"
  show thesis
  proof (cases victim)
    case None
    with assms(3) none show thesis by (simp add: evict_one_def victim_def)
  next
    case (Some h)
    have "\<exists>e. fmlookup (orphan_pool self) h = Some e \<and> (eviction_policy (om_config self) = FeeBased \<longrightarrow>
        (\<forall>k e'. fmlookup (orphan_pool self) k = Some e' \<longrightarrow> orphan_fee_rate e \<le> orphan_fee_rate e'))"
    proof (cases "eviction_policy (om_config self)")
      case Fifo
      then obtain t rest where "insertion_order self = (h, t) # rest"
        using Some by (auto simp: victim_def select_fifo_victim_def split: list.splits prod.splits)
      then have "h |\<in>| fmdom (orphan_pool self)" using assms(1) by (auto simp: om_inv_def order_ok_def)
      then obtain e where "fmlookup (orphan_pool self) h = Some e" by (meson fmdomE)
      with Fifo show ?thesis by simp
    next
      case FeeBased
      then have "lowest_fee None (- 1) (iter (orphan_pool self)) = Some h"
        using Some by (simp add: victim_def select_fee_victim_def)
      from lowest_fee_spec [OF this] obtain e where "(h, e) \<in> set (iter (orphan_pool self))"
        "list_all (\<lambda>(_, e'). orphan_fee_rate e \<le> orphan_fee_rate e') (iter (orphan_pool self))" by auto
      then show ?thesis using assms(2) by (auto simp: iterates_pool_def list_all_iff)
    qed
    then obtain e where e: "fmlookup (orphan_pool self) h = Some e"
      "eviction_policy (om_config self) = FeeBased \<longrightarrow>
        (\<forall>k e'. fmlookup (orphan_pool self) k = Some e' \<longrightarrow> orphan_fee_rate e \<le> orphan_fee_rate e')" by blast
    obtain self1 r1 where rem: "remove_orphan self h = (self1, r1)" by (cases "remove_orphan self h")
    have inv1: "om_inv self1" by (rule om_inv_remove [OF assms(1) rem])
    from rem show thesis
    proof (cases rule: remove_orphan_cases)
      case absent
      with e show thesis by simp
    next
      case (removed e')
      then have "self' = self1\<lparr>om_stats := (om_stats self1)\<lparr>evicted_count := evicted_count (om_stats self1) + 1\<rparr>\<rparr>" "r = Inr ()"
        using assms(3) Some rem by (simp_all add: evict_one_def victim_def)
      moreover have "\<exists>t rest. insertion_order self = (h, t) # rest" if "eviction_policy (om_config self) = Fifo"
        using that Some by (auto simp: victim_def select_fifo_victim_def split: list.splits prod.splits)
      ultimately show thesis using evicted [of h e] e removed inv1 by (simp add: om_inv_stats)
    qed
  qed
qed


lemma om_inv_insert:
  assumes "om_inv self" and "orphan_len self < max_orphans (om_config self)"
  shows "om_inv (insert_orphan now self h tx missing n fee)"
proof -
  let ?s = "insert_orphan now self h tx missing n fee"
  have keys: "map fst (insertion_order ?s) = (if h \<in> set (map fst (insertion_order self))
      then map fst (insertion_order self) else map fst (insertion_order self) @ [h])"
    by (simp add: insert_orphan_def Let_def order_insert_keys)
  have "set (map fst (insertion_order ?s)) = insert h (set (map fst (insertion_order self)))"
    unfolding keys by auto
  then have "fst ` set (insertion_order ?s) = fset (fmdom (orphan_pool ?s))"
    using assms(1) by (simp add: om_inv_def order_ok_def insert_orphan_def Let_def)
  moreover have "distinct (map fst (insertion_order ?s))"
    unfolding keys using assms(1) by (simp add: om_inv_def order_ok_def)
  moreover have "k \<in> listed (missing_input_index ?s) op"
    if "fmlookup (orphan_pool ?s) k = Some e" "op \<in> set (missing_inputs e)" for k e op
    using that assms(1)
    by (auto simp: om_inv_def insert_orphan_def Let_def listed_pushes orphan_entry_new_def split: if_splits)
  moreover have "orphan_len ?s \<le> max_orphans (om_config ?s)"
    using assms(2) fcard_upd_le [of h _ "orphan_pool self"]
    by (simp add: insert_orphan_def Let_def orphan_len_def del: fmdom_fmupd) (meson le_trans Suc_leI)
  ultimately show ?thesis unfolding om_inv_def order_ok_def by blast
qed

lemma om_inv_add:
  assumes "om_inv self" and "iterates_pool iter" and "add_orphan iter now self h tx missing n fee = (self', r)"
  shows "om_inv self'"
proof (cases "max_orphans (om_config self) \<le> orphan_len self")
  case True
  obtain self1 r1 where ev: "evict_one iter self = (self1, r1)" by (cases "evict_one iter self")
  from assms(1,2) ev show ?thesis
  proof (cases rule: evict_one_cases)
    case none
    with assms True ev show ?thesis by (simp add: add_orphan_def)
  next
    case (evicted k e)
    have "orphan_len self1 < max_orphans (om_config self1)"
      using evicted fcard_drop_mem [OF evicted(1)] assms(1) by (simp add: om_inv_def orphan_len_def)
    moreover have "self' = insert_orphan now self1 h tx missing n fee"
      using assms(3) True ev evicted(2) by (simp add: add_orphan_def)
    ultimately show ?thesis using om_inv_insert evicted(3) by simp
  qed
next
  case False
  with assms show ?thesis using om_inv_insert by (auto simp: add_orphan_def)
qed

section \<open>Adoption\<close>

text \<open>The loop removes the listed hashes that are in the pool, and collects their transactions.\<close>

lemma adopt_children_state:
  assumes "adopt_children self adopted hs = (self', txs)"
  shows "orphan_pool self' = fmfilter (\<lambda>k. k \<notin> set hs) (orphan_pool self)
    \<and> missing_input_index self' = missing_input_index self \<and> om_config self' = om_config self
    \<and> (order_ok self \<longrightarrow> order_ok self')"
  using assms
proof (induction self adopted hs rule: adopt_children.induct)
  case (1 self adopted)
  have "fmfilter (\<lambda>k. True) m = m" for m :: "(bytes, orphan_entry) fmap" by (rule fmap_ext) simp
  with 1 show ?case by simp
next
  case (2 self adopted h hs)
  show ?case
  proof (cases "fmlookup (orphan_pool self) h")
    case None
    then have "fmfilter (\<lambda>k. k \<notin> set hs) (orphan_pool self) = fmfilter (\<lambda>k. k \<notin> set (h # hs)) (orphan_pool self)"
      by (intro fmap_ext) auto
    with 2 None show ?thesis by simp
  next
    case (Some e)
    define mid where "mid = self\<lparr>orphan_pool := fmdrop h (orphan_pool self),
      insertion_order := shift_remove h (insertion_order self),
      om_stats := (om_stats self)\<lparr>total_orphans := fcard (fmdom (fmdrop h (orphan_pool self))),
        total_memory_bytes := total_memory_bytes (om_stats self) - oe_size_bytes e,
        stat_adoption_count := stat_adoption_count (om_stats self) + 1\<rparr>\<rparr>"
    have run: "adopt_children mid (adopted @ [oe_transaction e]) hs = (self', txs)"
      using 2(3) Some by (simp add: mid_def Let_def)
    have ih: "orphan_pool self' = fmfilter (\<lambda>k. k \<notin> set hs) (orphan_pool mid)
        \<and> missing_input_index self' = missing_input_index mid \<and> om_config self' = om_config mid
        \<and> (order_ok mid \<longrightarrow> order_ok self')"
      using 2(2) [OF Some refl refl] run unfolding mid_def by simp
    have "fmfilter (\<lambda>k. k \<notin> set hs) (orphan_pool mid) = fmfilter (\<lambda>k. k \<notin> set (h # hs)) (orphan_pool self)"
      by (intro fmap_ext) (simp add: mid_def)
    moreover have "order_ok mid" if "order_ok self"
      by (rule order_ok_drop [OF that]) (simp_all add: mid_def)
    ultimately show ?thesis using ih by (simp add: mid_def)
  qed
qed

lemma adopt_children_txs:
  assumes "adopt_children self adopted hs = (self', txs)"
  shows "set txs = set adopted \<union> {oe_transaction e |h e. h \<in> set hs \<and> fmlookup (orphan_pool self) h = Some e}
    \<and> length txs = length adopted + card (set hs \<inter> fset (fmdom (orphan_pool self)))"
  using assms
proof (induction self adopted hs rule: adopt_children.induct)
  case (2 self adopted h hs)
  show ?case
  proof (cases "fmlookup (orphan_pool self) h")
    case None
    then have "h |\<notin>| fmdom (orphan_pool self)" by (simp add: fmdom_notI)
    moreover have "h \<noteq> k" if "fmlookup (orphan_pool self) k = Some e" for k e using that None by auto
    ultimately show ?thesis using 2(1) [OF None] 2(3) None by auto
  next
    case (Some e)
    then have dom: "h |\<in>| fmdom (orphan_pool self)" by (simp add: fmdomI)
    let ?D = "fset (fmdom (orphan_pool self))"
    have "card (set (h # hs) \<inter> ?D) = Suc (card (set hs \<inter> (?D - {h})))"
    proof -
      have "set (h # hs) \<inter> ?D = insert h (set hs \<inter> (?D - {h}))" using dom by auto
      then show ?thesis by simp
    qed
    moreover have "{oe_transaction x |k x. k \<in> set (h # hs) \<and> fmlookup (orphan_pool self) k = Some x}
      = insert (oe_transaction e) {oe_transaction x |k x. k \<in> set hs \<and> fmlookup (fmdrop h (orphan_pool self)) k = Some x}"
      using Some by (auto split: if_splits)
    ultimately show ?thesis using 2(2) [OF Some refl refl] 2(3) Some by (simp add: Let_def)
  qed
qed simp

lemma process_effect:
  assumes "process_orphans_for_parent self op = (self', r)"
  obtains res where "r = Inr res" "orphan_pool self' = fmfilter (\<lambda>k. k \<notin> listed (missing_input_index self) op) (orphan_pool self)"
    "\<And>op'. listed (missing_input_index self') op' = (if op' = op then {} else listed (missing_input_index self) op')"
    "om_config self' = om_config self" "order_ok self \<Longrightarrow> order_ok self'"
    "set (adopted_txs res) = {oe_transaction e |h e. h \<in> listed (missing_input_index self) op \<and> fmlookup (orphan_pool self) h = Some e}"
    "adoption_count res = card (listed (missing_input_index self) op \<inter> fset (fmdom (orphan_pool self)))"
    "remaining_orphans res = orphan_len self'"
proof -
  define hs where "hs = (case fmlookup (missing_input_index self) op of None \<Rightarrow> [] | Some hs \<Rightarrow> hs)"
  define self0 where "self0 = self\<lparr>missing_input_index := fmdrop op (missing_input_index self)\<rparr>"
  obtain self1 txs where run: "adopt_children self0 [] hs = (self1, txs)" by (cases "adopt_children self0 [] hs")
  have hs: "set hs = listed (missing_input_index self) op" by (simp add: hs_def listed_def split: option.split)
  have self': "self' = self1\<lparr>missing_input_index := retain_nonempty (missing_input_index self1)\<rparr>"
    and r: "r = Inr \<lparr>adopted_txs = txs, adoption_count = length txs, remaining_orphans = orphan_len self'\<rparr>"
    using assms run by (auto simp: process_orphans_for_parent_def Let_def hs_def self0_def)
  have pool0: "orphan_pool self0 = orphan_pool self" by (simp add: self0_def)
  note st = adopt_children_state [OF run, unfolded pool0] and txs = adopt_children_txs [OF run, unfolded pool0]
  have "order_ok self1" if "order_ok self" using st that by (simp add: self0_def order_ok_def)
  then have ok: "order_ok self'" if "order_ok self" using that by (simp add: self' order_ok_def)
  have idx: "listed (missing_input_index self') op' = (if op' = op then {} else listed (missing_input_index self) op')" for op'
    using st by (simp add: self' self0_def listed_retain listed_fmdrop)
  show thesis
    by (rule that [OF r _ idx _ ok]) (use st txs in \<open>simp_all add: self' self0_def hs\<close>)
qed

lemma listed_fold: "h \<in> listed m op \<Longrightarrow> \<exists>hs. fmlookup m op = Some hs \<and> h \<in> set hs"
  by (simp add: listed_def split: option.splits)

lemma card_filter_pool: "orphan_len self = card (S \<inter> fset (fmdom (orphan_pool self))) + fcard (fmdom (fmfilter (\<lambda>k. k \<notin> S) (orphan_pool self)))"
proof -
  let ?D = "fset (fmdom (orphan_pool self))"
  have "fset (fmdom (fmfilter (\<lambda>k. k \<notin> S) (orphan_pool self))) = ?D - S" by auto
  moreover have "card ?D = card (S \<inter> ?D) + card (?D - S)"
    using card_Int_Diff [of ?D S] by (simp add: Int_commute)
  ultimately show ?thesis by (simp add: orphan_len_def fcard.rep_eq)
qed

lemma om_inv_process:
  assumes inv: "om_inv self" and run: "process_orphans_for_parent self op = (self', r)"
  shows "om_inv self'"
proof -
  from run obtain res where eff: "orphan_pool self' = fmfilter (\<lambda>k. k \<notin> listed (missing_input_index self) op) (orphan_pool self)"
    "\<And>op'. listed (missing_input_index self') op' = (if op' = op then {} else listed (missing_input_index self) op')"
    "om_config self' = om_config self" "order_ok self \<Longrightarrow> order_ok self'"
    by (rule process_effect) blast
  have "orphan_len self' \<le> max_orphans (om_config self')"
    using inv eff(1,3) card_filter_pool [of self "listed (missing_input_index self) op"]
    by (simp add: om_inv_def orphan_len_def)
  moreover have "h \<in> listed (missing_input_index self') op'"
    if "fmlookup (orphan_pool self') h = Some e" "op' \<in> set (missing_inputs e)" for h e op'
    using that inv eff(1,2) by (auto simp: om_inv_def split: if_splits)
  ultimately show ?thesis using inv eff(4) unfolding om_inv_def by blast
qed

lemma om_inv_process_each:
  "om_inv self \<Longrightarrow> process_each self ops adopted = (self', r) \<Longrightarrow> om_inv self'"
proof (induction ops arbitrary: self adopted)
  case (Cons op ops)
  obtain self1 r1 where one: "process_orphans_for_parent self op = (self1, r1)" by (cases "process_orphans_for_parent self op")
  with Cons show ?case by (cases r1) (auto dest: om_inv_process)
qed simp

lemma om_inv_remove_orphans: "om_inv self \<Longrightarrow> remove_orphans self hs = (self', n) \<Longrightarrow> om_inv self'"
proof (induction hs arbitrary: self n)
  case (Cons h hs)
  obtain self1 r1 where one: "remove_orphan self h = (self1, r1)" by (cases "remove_orphan self h")
  obtain n1 where "remove_orphans self1 hs = (self', n1)"
    using Cons.prems(2) one by (auto split: prod.splits)
  with Cons.IH om_inv_remove [OF Cons.prems(1) one] show ?case by blast
qed simp

lemma om_inv_clear: "om_inv self \<Longrightarrow> om_inv (orphan_clear self)"
  by (simp add: om_inv_def order_ok_def orphan_clear_def orphan_len_def fcard_fempty)

section \<open>Histories\<close>

inductive orphan_step :: "pool_order \<Rightarrow> orphan_manager \<Rightarrow> orphan_manager \<Rightarrow> bool" for iter where
  os_add: "orphan_step iter self (fst (add_orphan iter now self h tx missing n fee))"
| os_parent: "orphan_step iter self (fst (process_orphans_for_parent self op))"
| os_parents: "orphan_step iter self (fst (process_orphans_for_parents self ops))"
| os_remove: "orphan_step iter self (fst (remove_orphan self h))"
| os_cleanup: "orphan_step iter self (fst (cleanup_expired_orphans iter now self))"
| os_clear: "orphan_step iter self (orphan_clear self)"

lemma om_inv_step: "orphan_step iter self self' \<Longrightarrow> iterates_pool iter \<Longrightarrow> om_inv self \<Longrightarrow> om_inv self'"
proof (induction rule: orphan_step.induct)
  case (os_add self now h tx missing n fee)
  then show ?case by (metis om_inv_add prod.collapse)
next
  case (os_parents self ops)
  obtain self1 r1 where run: "process_each self ops [] = (self1, r1)" by (cases "process_each self ops []")
  have "om_inv self1" by (rule om_inv_process_each [OF os_parents(2) run])
  with run show ?case by (cases r1) (simp_all add: process_orphans_for_parents_def)
qed (metis om_inv_process prod.collapse, metis om_inv_remove prod.collapse,
  metis om_inv_remove_orphans cleanup_expired_orphans_def prod.collapse, rule om_inv_clear)

lemma om_inv_reachable:
  assumes "iterates_pool iter" and "(orphan_step iter)\<^sup>*\<^sup>* (orphan_manager_new config) self"
  shows "om_inv self"
  using assms(2) by (induction rule: rtranclp_induct) (auto intro: om_inv_new om_inv_step [OF _ assms(1)])

lemma waiting_found:
  assumes "om_inv self" and "fmlookup (orphan_pool self) h = Some e" and "op \<in> set (missing_inputs e)"
  shows "oe_transaction e \<in> set (get_orphans_waiting_for self op)"
proof -
  have "h \<in> listed (missing_input_index self) op" using assms by (auto simp: om_inv_def)
  from listed_fold [OF this] obtain hs where "fmlookup (missing_input_index self) op = Some hs" "h \<in> set hs" by blast
  with assms(2) show ?thesis
    by (force simp: get_orphans_waiting_for_def get_orphan_def List.map_filter_def image_iff)
qed

section \<open>Properties\<close>

text \<open>C25: In every state the orphan pool can reach, whatever the order of its calls, the pool is within
  its limit, the insertion order lists every orphan once and nothing else, and a look-up of the
  transactions that wait for an output finds every orphan that misses it.
\<close>

theorem reachable_orphans_consistent:
  assumes "iterates_pool iter" and "(orphan_step iter)\<^sup>*\<^sup>* (orphan_manager_new config) self"
  shows "orphan_len self \<le> max_orphans (om_config self)
    \<and> distinct (map fst (insertion_order self)) \<and> fst ` set (insertion_order self) = {h. contains_orphan self h}
    \<and> (\<forall>h e op. fmlookup (orphan_pool self) h = Some e \<and> op \<in> set (missing_inputs e)
         \<longrightarrow> oe_transaction e \<in> set (get_orphans_waiting_for self op))"
proof -
  have "om_inv self" by (rule om_inv_reachable [OF assms])
  then have "orphan_len self \<le> max_orphans (om_config self)" "distinct (map fst (insertion_order self))"
    "fst ` set (insertion_order self) = {h. contains_orphan self h}"
    by (simp_all add: om_inv_def order_ok_def contains_orphan_def)
  moreover have "\<forall>h e op. fmlookup (orphan_pool self) h = Some e \<and> op \<in> set (missing_inputs e)
      \<longrightarrow> oe_transaction e \<in> set (get_orphans_waiting_for self op)"
    using waiting_found [OF \<open>om_inv self\<close>] by blast
  ultimately show ?thesis by blast
qed

text \<open>C26: When an output arrives in a reachable state and at most \<open>max_adoption_batch\<close> orphans wait for it,
  every orphan that misses it is adopted, none that is left misses it, an orphan that is not adopted
  keeps its entry, and no transaction is lost or counted twice: the adopted and the remaining orphans
  are as many as there were.
\<close>

theorem parent_arrival_adopts_waiting:
  assumes "iterates_pool iter" and "(orphan_step iter)\<^sup>*\<^sup>* (orphan_manager_new config) self"
    and "length (get_orphans_waiting_for self op) \<le> max_adoption_batch (om_config self)"
    and "process_orphans_for_parent self op = (self', r)"
  shows "\<exists>res. r = Inr res
    \<and> (\<forall>h e. fmlookup (orphan_pool self) h = Some e \<and> op \<in> set (missing_inputs e)
         \<longrightarrow> oe_transaction e \<in> set (adopted_txs res) \<and> \<not> contains_orphan self' h)
    \<and> (\<forall>h e. fmlookup (orphan_pool self') h = Some e
         \<longrightarrow> fmlookup (orphan_pool self) h = Some e \<and> op \<notin> set (missing_inputs e))
    \<and> (\<forall>h e. fmlookup (orphan_pool self) h = Some e \<and> \<not> contains_orphan self' h
         \<longrightarrow> oe_transaction e \<in> set (adopted_txs res))
    \<and> remaining_orphans res = orphan_len self' \<and> adoption_count res + orphan_len self' = orphan_len self"
proof -
  have inv: "om_inv self" by (rule om_inv_reachable [OF assms(1,2)])
  let ?W = "listed (missing_input_index self) op"
  from assms(4) obtain res where res: "r = Inr res" "orphan_pool self' = fmfilter (\<lambda>k. k \<notin> ?W) (orphan_pool self)"
    "set (adopted_txs res) = {oe_transaction e |h e. h \<in> ?W \<and> fmlookup (orphan_pool self) h = Some e}"
    "adoption_count res = card (?W \<inter> fset (fmdom (orphan_pool self)))" "remaining_orphans res = orphan_len self'"
    by (rule process_effect) blast
  have waits: "h \<in> ?W" if "fmlookup (orphan_pool self) h = Some e" "op \<in> set (missing_inputs e)" for h e
    using inv that by (auto simp: om_inv_def)
  have left: "contains_orphan self' h \<longleftrightarrow> h \<notin> ?W \<and> contains_orphan self h" for h
    by (auto simp: contains_orphan_def res(2))
  have 1: "\<forall>h e. fmlookup (orphan_pool self) h = Some e \<and> op \<in> set (missing_inputs e)
      \<longrightarrow> oe_transaction e \<in> set (adopted_txs res) \<and> \<not> contains_orphan self' h"
    using waits by (auto simp: res(3) left)
  have 2: "\<forall>h e. fmlookup (orphan_pool self') h = Some e
      \<longrightarrow> fmlookup (orphan_pool self) h = Some e \<and> op \<notin> set (missing_inputs e)"
    using waits by (auto simp: res(2) split: if_splits)
  have 3: "\<forall>h e. fmlookup (orphan_pool self) h = Some e \<and> \<not> contains_orphan self' h
      \<longrightarrow> oe_transaction e \<in> set (adopted_txs res)"
  proof (intro allI impI)
    fix h e
    assume e: "fmlookup (orphan_pool self) h = Some e \<and> \<not> contains_orphan self' h"
    then have "contains_orphan self h" by (simp add: contains_orphan_def fmdomI)
    with e have "h \<in> ?W" by (simp add: left)
    with e show "oe_transaction e \<in> set (adopted_txs res)" unfolding res(3) by blast
  qed
  have "adoption_count res + orphan_len self' = orphan_len self"
    using card_filter_pool [of self ?W] by (simp add: res(2,4) orphan_len_def)
  with 1 2 3 res(1,5) show ?thesis by blast
qed

text \<open>An orphan that misses two outputs is adopted as soon as one of them arrives, while it still
  misses the other, and its reference stays listed under that other output: the manager's own
  consistency check then fails.
\<close>

theorem adoption_leaves_stale_reference:
  assumes "iterates_pool iter" and "(orphan_step iter)\<^sup>*\<^sup>* (orphan_manager_new config) self"
    and "fmlookup (orphan_pool self) h = Some e" and "a \<in> set (missing_inputs e)" and "b \<in> set (missing_inputs e)" and "a \<noteq> b"
    and "process_orphans_for_parent self a = (self', Inr res)"
  shows "oe_transaction e \<in> set (adopted_txs res)
    \<and> verify_consistency self' = Inl ''Orphan child reference mismatch in missing input index''"
proof -
  have inv: "om_inv self" by (rule om_inv_reachable [OF assms(1,2)])
  let ?W = "listed (missing_input_index self)"
  from assms(7) obtain r where r: "Inr res = (Inr r :: string + adoption_result)"
    "orphan_pool self' = fmfilter (\<lambda>k. k \<notin> ?W a) (orphan_pool self)"
    "\<And>op'. listed (missing_input_index self') op' = (if op' = a then {} else ?W op')"
    "set (adopted_txs r) = {oe_transaction e |h e. h \<in> ?W a \<and> fmlookup (orphan_pool self) h = Some e}"
    by (rule process_effect) blast
  have ab: "h \<in> ?W a" "h \<in> ?W b" using inv assms(3-5) by (auto simp: om_inv_def)
  have "h \<in> listed (missing_input_index self') b" using ab(2) assms(6) by (simp add: r(3))
  from listed_fold [OF this] obtain hs where hs: "fmlookup (missing_input_index self') b = Some hs" "h \<in> set hs" by blast
  have "\<not> contains_orphan self' h" using ab(1) by (simp add: contains_orphan_def r(2))
  with hs have "\<not> fBall (fmran (missing_input_index self')) (list_all (contains_orphan self'))"
    by (auto simp: list_all_iff dest: fmranI)
  moreover have "oe_transaction e \<in> set (adopted_txs res)" using r(1,4) ab(1) assms(3) by auto
  ultimately show ?thesis by (simp add: verify_consistency_def)
qed

text \<open>An orphan added to a full pool displaces exactly one orphan: the first of the insertion order
  under the first-in policy, one with the lowest fee rate under the fee policy. When there is no
  victim the call fails and nothing changes.
\<close>

theorem full_pool_eviction:
  assumes "iterates_pool iter" and "(orphan_step iter)\<^sup>*\<^sup>* (orphan_manager_new config) self"
    and "max_orphans (om_config self) \<le> orphan_len self"
    and "add_orphan iter now self h tx missing n fee = (self', r)"
  shows "(self' = self \<and> r = Inl ''No transaction available for eviction'')
    \<or> (\<exists>k e. r = Inr () \<and> fmlookup (orphan_pool self) k = Some e
        \<and> orphan_pool self' = fmupd h (orphan_entry_new now tx missing n fee) (fmdrop k (orphan_pool self))
        \<and> (case eviction_policy (om_config self) of
             Fifo \<Rightarrow> \<exists>t rest. insertion_order self = (k, t) # rest
           | FeeBased \<Rightarrow> \<forall>k' e'. fmlookup (orphan_pool self) k' = Some e' \<longrightarrow> orphan_fee_rate e \<le> orphan_fee_rate e'))"
proof -
  have inv: "om_inv self" by (rule om_inv_reachable [OF assms(1,2)])
  obtain self1 r1 where ev: "evict_one iter self = (self1, r1)" by (cases "evict_one iter self")
  from inv assms(1) ev show ?thesis
  proof (cases rule: evict_one_cases)
    case none
    with assms(3,4) ev show ?thesis by (simp add: add_orphan_def)
  next
    case (evicted k e)
    have "self' = insert_orphan now self1 h tx missing n fee" "r = Inr ()"
      using assms(3,4) ev evicted(2) by (simp_all add: add_orphan_def)
    then have "orphan_pool self' = fmupd h (orphan_entry_new now tx missing n fee) (fmdrop k (orphan_pool self))" "r = Inr ()"
      by (simp_all add: insert_orphan_def Let_def evicted(4))
    with evicted show ?thesis by (cases "eviction_policy (om_config self)") auto
  qed
qed

section \<open>Witnesses\<close>

lemma sorted_iterates_pool: "iterates_pool sorted_list_of_fmap"
proof -
  have "(h, e) \<in> set (sorted_list_of_fmap m) \<longleftrightarrow> fmlookup m h = Some e"
    for m :: "(bytes, orphan_entry) fmap" and h e
    by (auto simp: sorted_list_of_fmap_def sorted_list_of_fset.rep_eq image_iff fmdomI)
  then show ?thesis by (simp add: iterates_pool_def)
qed

definition demo_config :: orphan_pool_config where
  "demo_config = orphan_pool_config_default\<lparr>max_orphans := 1, eviction_policy := Fifo\<rparr>"

definition demo_out :: "u32 \<Rightarrow> out_point" where
  "demo_out i = \<lparr>op_tx_hash = [1], op_index = i\<rparr>"

definition demo_orphans :: orphan_manager where
  "demo_orphans = insert_orphan 7 (orphan_manager_new demo_config) [5] demo_tx [demo_out 0, demo_out 1] 100 2000"

lemmas demo_orphans_simps = demo_orphans_def demo_config_def demo_out_def insert_orphan_def orphan_manager_new_def
  orphan_entry_new_def orphan_len_def Let_def fcard.rep_eq push_child_def

lemma demo_orphans_entry:
  "fmlookup (orphan_pool demo_orphans) [5] = Some (orphan_entry_new 7 demo_tx [demo_out 0, demo_out 1] 100 2000)"
  by (simp add: demo_orphans_simps)

lemma demo_orphans_reachable: "(orphan_step sorted_list_of_fmap)\<^sup>*\<^sup>* (orphan_manager_new demo_config) demo_orphans"
proof -
  have "demo_orphans = fst (add_orphan sorted_list_of_fmap 7 (orphan_manager_new demo_config) [5] demo_tx [demo_out 0, demo_out 1] 100 2000)"
    by (simp add: add_orphan_def demo_orphans_simps)
  then show ?thesis using orphan_step.os_add by (metis r_into_rtranclp)
qed

lemma demo_full: "max_orphans (om_config demo_orphans) \<le> orphan_len demo_orphans"
  by (simp add: demo_orphans_simps)

theorem reachable_orphans_consistent_witness: "demo_tx \<in> set (get_orphans_waiting_for demo_orphans (demo_out 1))"
proof -
  have "\<forall>h e op. fmlookup (orphan_pool demo_orphans) h = Some e \<and> op \<in> set (missing_inputs e)
      \<longrightarrow> oe_transaction e \<in> set (get_orphans_waiting_for demo_orphans op)"
    using reachable_orphans_consistent [OF sorted_iterates_pool demo_orphans_reachable] by blast
  from this [rule_format, of "[5]" _ "demo_out 1"] demo_orphans_entry show ?thesis by (auto simp: orphan_entry_new_def)
qed

theorem parent_arrival_adopts_waiting_witness:
  "\<exists>self' res. process_orphans_for_parent demo_orphans (demo_out 0) = (self', Inr res) \<and> demo_tx \<in> set (adopted_txs res)
     \<and> adoption_count res + orphan_len self' = 1"
proof -
  obtain self' r where run: "process_orphans_for_parent demo_orphans (demo_out 0) = (self', r)"
    by (cases "process_orphans_for_parent demo_orphans (demo_out 0)")
  have "orphan_len demo_orphans = 1" by (simp add: demo_orphans_simps)
  moreover have batch: "length (get_orphans_waiting_for demo_orphans (demo_out 0)) \<le> max_adoption_batch (om_config demo_orphans)"
    by (simp add: get_orphans_waiting_for_def get_orphan_def map_filter_simps demo_orphans_simps orphan_pool_config_default_def)
  ultimately
  obtain res where res: "r = Inr res" "adoption_count res + orphan_len self' = 1"
    and all: "\<And>h e. fmlookup (orphan_pool demo_orphans) h = Some e \<and> demo_out 0 \<in> set (missing_inputs e)
      \<Longrightarrow> oe_transaction e \<in> set (adopted_txs res)"
    using parent_arrival_adopts_waiting [OF sorted_iterates_pool demo_orphans_reachable batch run] by auto
  have "demo_tx \<in> set (adopted_txs res)"
    using all [of "[5]"] demo_orphans_entry by (auto simp: orphan_entry_new_def)
  with run res show ?thesis by blast
qed

theorem adoption_leaves_stale_reference_witness:
  "\<exists>self' res. process_orphans_for_parent demo_orphans (demo_out 0) = (self', Inr res)
     \<and> verify_consistency self' = Inl ''Orphan child reference mismatch in missing input index''"
proof -
  obtain self' r where run: "process_orphans_for_parent demo_orphans (demo_out 0) = (self', r)"
    by (cases "process_orphans_for_parent demo_orphans (demo_out 0)")
  then obtain res where "r = Inr res" by (rule process_effect)
  with run have run': "process_orphans_for_parent demo_orphans (demo_out 0) = (self', Inr res)" by simp
  have "demo_out 0 \<noteq> demo_out 1" by (simp add: demo_out_def)
  with adoption_leaves_stale_reference [OF sorted_iterates_pool demo_orphans_reachable demo_orphans_entry _ _ _ run', where b = "demo_out 1"]
  show ?thesis using run' by (auto simp: orphan_entry_new_def)
qed

theorem full_pool_eviction_witness:
  "\<exists>self'. add_orphan sorted_list_of_fmap 9 demo_orphans [6] demo_tx [demo_out 2] 100 1 = (self', Inr ())
     \<and> \<not> contains_orphan self' [5] \<and> contains_orphan self' [6]"
proof -
  obtain self' r where run: "add_orphan sorted_list_of_fmap 9 demo_orphans [6] demo_tx [demo_out 2] 100 1 = (self', r)"
    by (cases "add_orphan sorted_list_of_fmap 9 demo_orphans [6] demo_tx [demo_out 2] 100 1")
  have "eviction_policy (om_config demo_orphans) = Fifo" and order: "insertion_order demo_orphans = [([5], 7)]"
    by (simp_all add: demo_orphans_simps)
  moreover have "r \<noteq> Inl ''No transaction available for eviction''"
    using run demo_full order by (auto simp: add_orphan_def evict_one_def select_fifo_victim_def
      \<open>eviction_policy (om_config demo_orphans) = Fifo\<close> split: prod.splits sum.splits)
  ultimately show ?thesis
    using full_pool_eviction [OF sorted_iterates_pool demo_orphans_reachable demo_full run] run
    by (auto simp: contains_orphan_def)
qed

end
