(* ===== verification/Ordered_Search.thy ===== *)
theory Ordered_Search
  imports Prelude
begin

text \<open>
  What the node uses of Rust's ordering and slices: \<open>std::cmp::Ordering\<close>, \<open>binary_search_by\<close> and the
  insertion of an element into a sorted vector. A comparison is a locale; its instances are the
  comparisons the node sorts by.
\<close>

section \<open>Comparisons\<close>

datatype cmp = Less | Equal | Greater

fun cmp_reverse :: "cmp \<Rightarrow> cmp" where
  "cmp_reverse Less = Greater"
| "cmp_reverse Equal = Equal"
| "cmp_reverse Greater = Less"

definition cmp_of :: "'a::linorder \<Rightarrow> 'a \<Rightarrow> cmp" where
  "cmp_of a b = (if a < b then Less else if b < a then Greater else Equal)"

lemma cmp_of_simps [simp]:
  "cmp_of a b = Less \<longleftrightarrow> a < b" "cmp_of a b = Greater \<longleftrightarrow> b < a" "cmp_of a b = Equal \<longleftrightarrow> a = b"
  by (auto simp: cmp_of_def)

lemma cmp_of_reverse: "cmp_reverse (cmp_of a b) = cmp_of b a"
  by (auto simp: cmp_of_def)

lemma cmp_reverse_eq [simp]:
  "cmp_reverse c = Less \<longleftrightarrow> c = Greater" "cmp_reverse c = Greater \<longleftrightarrow> c = Less" "cmp_reverse c = Equal \<longleftrightarrow> c = Equal"
  "cmp_reverse (cmp_reverse c) = c"
  by (cases c; simp)+

section \<open>Binary search\<close>

text \<open>\<open>binary_search_by\<close>: \<open>Inr\<close> the place of a match, \<open>Inl\<close> the place to insert at. When there are several
  matches the library may return any; the lemmas below do not depend on which.\<close>

function bisect :: "('a \<Rightarrow> cmp) \<Rightarrow> 'a list \<Rightarrow> nat \<Rightarrow> nat \<Rightarrow> nat + nat" where
  "bisect f xs l r =
     (if l < r then
        (let mid = l + (r - l) div 2 in
         case f (xs ! mid) of
           Less \<Rightarrow> bisect f xs (mid + 1) r
         | Greater \<Rightarrow> bisect f xs l mid
         | Equal \<Rightarrow> Inr mid)
      else Inl l)"
  by auto
termination
  by (relation "measure (\<lambda>(f, xs, l, r). r - l)") auto

declare bisect.simps [simp del]

definition binary_search_by :: "('a \<Rightarrow> cmp) \<Rightarrow> 'a list \<Rightarrow> nat + nat" where
  "binary_search_by f xs = bisect f xs 0 (length xs)"

definition insert_at :: "nat \<Rightarrow> 'a \<Rightarrow> 'a list \<Rightarrow> 'a list" where
  "insert_at i x xs = take i xs @ x # drop i xs"

lemma mset_insert_at [simp]: "mset (insert_at i x xs) = add_mset x (mset xs)"
proof -
  have "mset (take i xs) + mset (drop i xs) = mset xs" by (simp only: mset_append [symmetric] append_take_drop_id)
  then show ?thesis by (simp add: insert_at_def)
qed

lemma set_insert_at [simp]: "set (insert_at i x xs) = insert x (set xs)"
  by (metis mset_insert_at set_mset_add_mset_insert set_mset_mset)

lemma length_insert_at [simp]: "length (insert_at i x xs) = Suc (length xs)"
  by (metis mset_insert_at size_add_mset size_mset)

definition search_place :: "nat + nat \<Rightarrow> nat" where
  "search_place r = (case r of Inl p \<Rightarrow> p | Inr p \<Rightarrow> p)"

text \<open>A probe is monotone along the list: first smaller elements, then matches, then greater ones.\<close>

definition monotone_probe :: "('a \<Rightarrow> cmp) \<Rightarrow> 'a list \<Rightarrow> bool" where
  "monotone_probe f xs \<longleftrightarrow> (\<forall>i j. i < j \<and> j < length xs \<longrightarrow>
     (f (xs ! j) = Less \<longrightarrow> f (xs ! i) = Less) \<and> (f (xs ! i) = Greater \<longrightarrow> f (xs ! j) = Greater))"

lemma monotone_probeD:
  assumes "monotone_probe f xs" and "i < j" and "j < length xs"
  shows "f (xs ! j) = Less \<Longrightarrow> f (xs ! i) = Less" and "f (xs ! i) = Greater \<Longrightarrow> f (xs ! j) = Greater"
  using assms unfolding monotone_probe_def by blast+

lemma bisect_split:
  assumes "monotone_probe f xs" and "l \<le> r" and "r \<le> length xs"
    and "\<forall>i<l. f (xs ! i) = Less" and "\<forall>i. r \<le> i \<and> i < length xs \<longrightarrow> f (xs ! i) = Greater"
  shows "let p = search_place (bisect f xs l r) in p \<le> length xs \<and> (\<forall>i<p. f (xs ! i) \<noteq> Greater)
    \<and> (\<forall>i. p \<le> i \<and> i < length xs \<longrightarrow> f (xs ! i) \<noteq> Less)"
  using assms
proof (induction f xs l r rule: bisect.induct)
  case (1 f xs l r)
  show ?case
  proof (cases "l < r")
    case False
    then have "bisect f xs l r = Inl l" by (simp add: bisect.simps [of f xs l r])
    with False "1.prems" show ?thesis by (simp add: search_place_def)
  next
    case True
    define mid where "mid = l + (r - l) div 2"
    have mid: "l \<le> mid" "mid < r" using True by (auto simp: mid_def)
    show ?thesis
    proof (cases "f (xs ! mid)")
      case Less
      have "\<forall>i<mid + 1. f (xs ! i) = Less"
        using Less "1.prems"(3) mid monotone_probeD(1) [OF "1.prems"(1), of _ mid] by (auto simp: less_Suc_eq)
      with 1(1) [OF True mid_def] "1.prems" Less mid show ?thesis
        by (simp add: bisect.simps [of f xs l r] True flip: mid_def)
    next
      case Greater
      have "\<forall>i. mid \<le> i \<and> i < length xs \<longrightarrow> f (xs ! i) = Greater"
        using Greater monotone_probeD(2) [OF "1.prems"(1), of mid] by (auto simp: order_le_less)
      with 1(2) [OF True mid_def] "1.prems" Greater mid show ?thesis
        by (simp add: bisect.simps [of f xs l r] True flip: mid_def)
    next
      case Equal
      have "f (xs ! i) \<noteq> Greater" if "i < mid" for i
        using that Equal "1.prems"(3) mid monotone_probeD(2) [OF "1.prems"(1), of i mid] by auto
      moreover have "f (xs ! i) \<noteq> Less" if "mid \<le> i" "i < length xs" for i
        using that Equal monotone_probeD(1) [OF "1.prems"(1), of mid i] by (cases "i = mid") auto
      ultimately show ?thesis
        using Equal mid "1.prems"(3) by (simp add: bisect.simps [of f xs l r] True search_place_def flip: mid_def)
    qed
  qed
qed

section \<open>Sorted vectors\<close>

text \<open>A list sorted by an asymmetric relation is determined by its elements.\<close>

lemma sorted_wrt_unique:
  assumes "\<And>a b. P a b \<Longrightarrow> \<not> P b a" and "sorted_wrt P xs" and "sorted_wrt P ys" and "set xs = set ys"
  shows "xs = ys"
  using assms(2-4)
proof (induction xs arbitrary: ys)
  case (Cons x xs)
  then obtain y ys' where ys: "ys = y # ys'" by (cases ys) auto
  have "x = y"
  proof (rule ccontr)
    assume "x \<noteq> y"
    then have "P x y" "P y x" using Cons.prems ys by auto
    then show False using assms(1) by blast
  qed
  moreover have "z \<notin> set zs" if "sorted_wrt P (z # zs)" for z zs using that assms(1) [of z z] by auto
  then have "x \<notin> set xs" "y \<notin> set ys'" using Cons.prems(1,2) ys by simp_all
  ultimately have "set xs = set ys'" using Cons.prems(3) ys by (metis insert_ident list.simps(15))
  with Cons ys \<open>x = y\<close> show ?case by simp
qed simp

section \<open>Sorting\<close>

text \<open>\<open>slice::sort_by\<close> is stable, so its result is that of insertion sort. \<open>cmp_then\<close> is \<open>Ordering::then\<close>, written as a
  \<open>match\<close> in the code.\<close>

definition cmp_then :: "cmp \<Rightarrow> cmp \<Rightarrow> cmp" where
  "cmp_then c d = (case c of Equal \<Rightarrow> d | Less \<Rightarrow> Less | Greater \<Rightarrow> Greater)"

fun insert_by :: "('a \<Rightarrow> 'a \<Rightarrow> cmp) \<Rightarrow> 'a \<Rightarrow> 'a list \<Rightarrow> 'a list" where
  "insert_by f x [] = [x]"
| "insert_by f x (y # ys) = (if f x y = Greater then y # insert_by f x ys else x # y # ys)"

definition sort_by :: "('a \<Rightarrow> 'a \<Rightarrow> cmp) \<Rightarrow> 'a list \<Rightarrow> 'a list" where
  "sort_by f xs = foldr (insert_by f) xs []"

lemma mset_insert_by [simp]: "mset (insert_by f x ys) = add_mset x (mset ys)"
  by (induction ys) auto

lemma mset_sort_by [simp]: "mset (sort_by f xs) = mset xs"
  unfolding sort_by_def by (induction xs) auto

lemma set_sort_by [simp]: "set (sort_by f xs) = set xs"
  by (metis mset_sort_by set_mset_mset)

text \<open>\<open>BinaryHeap\<close>: its elements, of which \<open>pop\<close> takes a greatest one. Which of several equal ones it takes is not
  specified; the model takes the first, and the theorems on results assume distinct elements.\<close>

fun heap_max :: "('a \<Rightarrow> 'a \<Rightarrow> cmp) \<Rightarrow> 'a \<Rightarrow> 'a list \<Rightarrow> 'a" where
  "heap_max f m [] = m"
| "heap_max f m (x # xs) = heap_max f (if f x m = Greater then x else m) xs"

definition heap_pop :: "('a \<Rightarrow> 'a \<Rightarrow> cmp) \<Rightarrow> 'a list \<Rightarrow> ('a \<times> 'a list) option" where
  "heap_pop f heap = (case heap of [] \<Rightarrow> None | x # xs \<Rightarrow> (let m = heap_max f x xs in Some (m, remove1 m heap)))"

lemma heap_max_mem: "heap_max f m xs \<in> set (m # xs)"
  by (induction f m xs rule: heap_max.induct) auto

lemma heap_pop_mset: "heap_pop f heap = Some (m, heap') \<Longrightarrow> mset heap = add_mset m (mset heap')"
  using heap_max_mem by (fastforce simp: heap_pop_def Let_def split: list.splits)

lemma heap_pop_shorter: "heap_pop f heap = Some (m, heap') \<Longrightarrow> length heap' < length heap"
  by (drule heap_pop_mset) (metis lessI size_add_mset size_mset)

lemma heap_pop_None: "heap_pop f heap = None \<longleftrightarrow> heap = []"
  by (auto simp: heap_pop_def Let_def split: list.splits)

text \<open>The elements in the order in which they are popped.\<close>

function heap_drain :: "('a \<Rightarrow> 'a \<Rightarrow> cmp) \<Rightarrow> 'a list \<Rightarrow> 'a list" where
  "heap_drain f heap = (case heap_pop f heap of None \<Rightarrow> [] | Some (m, heap') \<Rightarrow> m # heap_drain f heap')"
  by pat_completeness auto
termination
  by (relation "measure (\<lambda>(f, heap). length heap)") (auto dest: heap_pop_shorter)

declare heap_drain.simps [simp del]

lemma mset_heap_drain [simp]: "mset (heap_drain f heap) = mset heap"
proof (induction f heap rule: heap_drain.induct)
  case (1 f heap)
  then show ?case
    by (subst heap_drain.simps) (auto split: option.splits dest: heap_pop_mset simp: heap_pop_None)
qed

locale comparison =
  fixes compare :: "'a \<Rightarrow> 'a \<Rightarrow> cmp"
  assumes swap: "compare b a = cmp_reverse (compare a b)"
    and trans: "compare a b \<noteq> Greater \<Longrightarrow> compare b c \<noteq> Greater \<Longrightarrow> compare a c \<noteq> Greater"
begin

definition in_order :: "'a list \<Rightarrow> bool" where
  "in_order xs \<longleftrightarrow> sorted_wrt (\<lambda>a b. compare a b \<noteq> Greater) xs"

lemma probe_monotone:
  assumes "in_order xs"
  shows "monotone_probe (\<lambda>e. compare e x) xs"
proof -
  have "(compare (xs ! j) x = Less \<longrightarrow> compare (xs ! i) x = Less) \<and> (compare (xs ! i) x = Greater \<longrightarrow> compare (xs ! j) x = Greater)"
    if "i < j" "j < length xs" for i j
  proof -
    have le: "compare (xs ! i) (xs ! j) \<noteq> Greater"
      using assms that by (auto simp: in_order_def sorted_wrt_iff_nth_less)
    have "compare x (xs ! j) \<noteq> Greater" if "compare x (xs ! i) \<noteq> Greater" using trans [OF that le] .
    moreover have "compare (xs ! i) x \<noteq> Greater" if "compare (xs ! j) x \<noteq> Greater" using trans [OF le that] .
    moreover have "compare (xs ! j) x = cmp_reverse (compare x (xs ! j))" "compare (xs ! i) x = cmp_reverse (compare x (xs ! i))"
      by (rule swap)+
    ultimately show ?thesis by auto
  qed
  then show ?thesis unfolding monotone_probe_def by blast
qed

lemma insert_in_order:
  assumes "in_order xs"
  shows "in_order (insert_at (search_place (binary_search_by (\<lambda>e. compare e x) xs)) x xs)"
proof -
  let ?p = "search_place (binary_search_by (\<lambda>e. compare e x) xs)"
  have "?p \<le> length xs \<and> (\<forall>i<?p. compare (xs ! i) x \<noteq> Greater) \<and> (\<forall>i. ?p \<le> i \<and> i < length xs \<longrightarrow> compare (xs ! i) x \<noteq> Less)"
    using bisect_split [OF probe_monotone [OF assms, of x], of 0 "length xs"]
    unfolding binary_search_by_def Let_def by (metis le0 le_refl not_less not_less_zero)
  then have p: "\<forall>a\<in>set (take ?p xs). compare a x \<noteq> Greater" "\<forall>a\<in>set (drop ?p xs). compare a x \<noteq> Less"
    by (auto simp: in_set_conv_nth)
  have "\<forall>a\<in>set (drop ?p xs). compare x a \<noteq> Greater" using p(2) swap by (metis cmp_reverse_eq(2))
  moreover have "sorted_wrt (\<lambda>a b. compare a b \<noteq> Greater) (take ?p xs @ drop ?p xs)"
    using assms by (simp add: in_order_def)
  ultimately show ?thesis
    using p(1) unfolding in_order_def insert_at_def sorted_wrt_append by (auto intro: trans)
qed

lemma in_order_unique:
  assumes "in_order xs" and "in_order ys" and "mset xs = mset ys"
    and "\<And>a b. a \<in> set xs \<Longrightarrow> b \<in> set xs \<Longrightarrow> compare a b = Equal \<Longrightarrow> a = b" and "distinct xs"
  shows "xs = ys"
proof -
  let ?P = "\<lambda>a b. compare a b = Less"
  have asym: "\<not> ?P b a" if "?P a b" for a b using that swap by (metis cmp.distinct(3) cmp_reverse_eq(1))
  have strict: "sorted_wrt ?P zs" if "in_order zs" "mset zs = mset xs" for zs
  proof -
    have "distinct zs" using that(2) assms(5) by (metis mset_eq_imp_distinct_iff)
    moreover have "\<forall>a\<in>set zs. \<forall>b\<in>set zs. compare a b = Equal \<longrightarrow> a = b"
      using assms(4) mset_eq_setD [OF that(2)] by blast
    ultimately show ?thesis
      using that(1) unfolding in_order_def
    proof (induction zs)
      case (Cons z zs)
      have "compare z b = Less" if "b \<in> set zs" for b
        using that Cons.prems by (cases "compare z b") auto
      with Cons show ?case by auto
    qed simp
  qed
  show ?thesis
    by (rule sorted_wrt_unique [of ?P]) (use asym strict assms in \<open>auto dest: mset_eq_setD\<close>)
qed

lemma in_order_insert_by: "in_order xs \<Longrightarrow> in_order (insert_by compare x xs)"
proof (induction xs)
  case (Cons y ys)
  show ?case
  proof (cases "compare x y = Greater")
    case True
    then have "compare y x \<noteq> Greater" using swap [of y x] by simp
    moreover have "set (insert_by compare x ys) = insert x (set ys)" by (metis mset_insert_by set_mset_add_mset_insert set_mset_mset)
    ultimately show ?thesis using Cons True by (auto simp: in_order_def)
  next
    case False
    then show ?thesis using Cons.prems trans [OF False] by (auto simp: in_order_def)
  qed
qed (simp add: in_order_def)

lemma in_order_sort_by: "in_order (sort_by compare xs)"
proof -
  have "in_order (foldr (insert_by compare) xs [])"
    by (induction xs) (simp_all add: in_order_insert_by, simp add: in_order_def)
  then show ?thesis by (simp add: sort_by_def)
qed

lemma compare_refl: "compare a a = Equal"
  using swap [of a a] by (cases "compare a a") simp_all

lemma heap_max_greatest: "y \<in> set (m # xs) \<Longrightarrow> compare y (heap_max compare m xs) \<noteq> Greater"
proof (induction xs arbitrary: m y)
  case Nil
  then show ?case by (simp add: compare_refl)
next
  case (Cons x xs)
  let ?m = "if compare x m = Greater then x else m"
  have step: "compare m ?m \<noteq> Greater" "compare x ?m \<noteq> Greater" using swap [of m x] by (auto simp: compare_refl)
  have top: "compare ?m (heap_max compare ?m xs) \<noteq> Greater" by (rule Cons.IH) simp
  from Cons.prems consider "y = m" | "y = x" | "y \<in> set xs" by auto
  then show ?case
    by cases (use trans [OF step(1) top] trans [OF step(2) top] Cons.IH [of y ?m] in simp_all)
qed

lemma heap_drain_descending: "sorted_wrt (\<lambda>a b. compare b a \<noteq> Greater) (heap_drain compare heap)"
proof (induction "length heap" arbitrary: heap rule: less_induct)
  case less
  show ?case
  proof (cases "heap_pop compare heap")
    case None
    then show ?thesis by (simp add: heap_drain.simps [of compare heap])
  next
    case (Some p)
    then obtain m heap' where p: "heap_pop compare heap = Some (m, heap')" by (cases p) auto
    then obtain x xs where "heap = x # xs" "m = heap_max compare x xs" by (auto simp: heap_pop_def Let_def split: list.splits)
    then have max: "compare b m \<noteq> Greater" if "b \<in> set heap" for b using heap_max_greatest [of b x xs] that by simp
    have sub: "set (heap_drain compare heap') \<subseteq> set heap"
      using heap_pop_mset [OF p] by (metis mset_heap_drain set_mset_add_mset_insert set_mset_mset subset_insertI)
    have "heap_drain compare heap = m # heap_drain compare heap'" using p by (simp add: heap_drain.simps [of compare heap])
    then show ?thesis using less [OF heap_pop_shorter [OF p]] max sub by auto
  qed
qed

lemma in_order_filter: "in_order xs \<Longrightarrow> in_order (filter Q xs)"
  by (simp add: in_order_def sorted_wrt_filter)

end

end
