(* ===== verification/Float64.thy ===== *)
theory Float64
  imports Prelude
begin

text \<open>
  What the node uses of \<open>f64\<close>: non-negative values that neither overflow nor become subnormal. Such a
  value is a natural number in a fixed unit (a power of two small enough for every intermediate
  value to be whole), and an operation is the exact one followed by rounding to 53 significant
  binary digits, to nearest, ties to even.
\<close>

fun bit_len :: "nat \<Rightarrow> nat" where
  "bit_len n = (if n = 0 then 0 else Suc (bit_len (n div 2)))"

declare bit_len.simps [simp del]

lemma bit_len_0 [simp]: "bit_len 0 = 0"
  by (simp add: bit_len.simps)

lemma bit_len_bounds: "n < 2 ^ bit_len n \<and> (0 < n \<longrightarrow> 2 ^ (bit_len n - 1) \<le> n)"
proof (induction n rule: bit_len.induct)
  case (1 n)
  show ?case
  proof (cases "n = 0")
    case False
    then have len: "bit_len n = Suc (bit_len (n div 2))" by (simp add: bit_len.simps)
    have IH: "n div 2 < 2 ^ bit_len (n div 2)" "0 < n div 2 \<longrightarrow> 2 ^ (bit_len (n div 2) - 1) \<le> n div 2"
      using 1 False by auto
    have "2 ^ (bit_len n - 1) \<le> n"
    proof (cases "n div 2 = 0")
      case True
      with len False show ?thesis by simp
    next
      case nz: False
      then have "bit_len (n div 2) = Suc (bit_len (n div 2) - 1)" by (simp add: bit_len.simps [of "n div 2"])
      then have "2 ^ (bit_len n - 1) = 2 * (2 :: nat) ^ (bit_len (n div 2) - 1)" by (metis len diff_Suc_1 power_Suc)
      with IH(2) nz show ?thesis by linarith
    qed
    moreover have "n < 2 ^ bit_len n" using IH(1) len by simp
    ultimately show ?thesis by simp
  qed simp
qed

lemma bit_len_le: "n < 2 ^ k \<Longrightarrow> bit_len n \<le> k"
proof (rule ccontr)
  assume n: "n < 2 ^ k" and "\<not> bit_len n \<le> k"
  then have "k \<le> bit_len n - 1" "0 < n" by (auto intro: gr0I)
  then have "2 ^ k \<le> (2 :: nat) ^ (bit_len n - 1)" by (intro power_increasing) simp_all
  also have "\<dots> \<le> n" using bit_len_bounds [of n] \<open>0 < n\<close> by simp
  finally show False using n by simp
qed

lemma bit_len_mono: "m \<le> n \<Longrightarrow> bit_len m \<le> bit_len n"
  using bit_len_le [of m "bit_len n"] bit_len_bounds [of n] by simp

definition round_half_even :: "nat \<Rightarrow> nat \<Rightarrow> nat" where
  "round_half_even d n =
     (let q = n div d; r = n mod d in if d < 2 * r \<or> 2 * r = d \<and> odd q then Suc q else q)"

definition f64_round :: "nat \<Rightarrow> nat" where
  "f64_round n = (let d = 2 ^ (bit_len n - 53) in round_half_even d n * d)"

lemma f64_round_exact: "n < 2 ^ 53 \<Longrightarrow> f64_round n = n"
  using bit_len_le [of n 53] by (simp add: f64_round_def round_half_even_def)

lemma round_half_even_mono:
  assumes "m \<le> n"
  shows "round_half_even d m \<le> round_half_even d n"
proof (cases "m div d = n div d")
  case True
  then have "m mod d \<le> n mod d" using assms by (metis add_le_cancel_left mult_div_mod_eq)
  with True show ?thesis by (auto simp: round_half_even_def Let_def)
next
  case False
  then have "m div d < n div d" using div_le_mono [OF assms] by (simp add: order_less_le)
  then show ?thesis by (auto simp: round_half_even_def Let_def)
qed

lemma round_half_even_bounds: "n div d \<le> round_half_even d n" "round_half_even d n \<le> Suc (n div d)"
  by (auto simp: round_half_even_def Let_def)

text \<open>Rounding stays within the power of two above and the one below.\<close>

lemma f64_round_bounds:
  assumes "0 < n"
  shows "f64_round n \<le> 2 ^ bit_len n" and "2 ^ (bit_len n - 1) \<le> f64_round n"
proof -
  define k where "k = bit_len n - 53"
  have n: "n < 2 ^ bit_len n" "2 ^ (bit_len n - 1) \<le> n" using bit_len_bounds [of n] assms by auto
  have "f64_round n \<le> 2 ^ bit_len n \<and> 2 ^ (bit_len n - 1) \<le> f64_round n"
  proof (cases "k = 0")
    case True
    then have "f64_round n = n" by (simp add: f64_round_def round_half_even_def flip: k_def)
    with n show ?thesis by simp
  next
    case False
    then have len: "bit_len n = 53 + k" by (simp add: k_def)
    have "n div 2 ^ k < 2 ^ 53" using n(1) len by (simp add: less_mult_imp_div_less power_add)
    then have "round_half_even (2 ^ k) n \<le> 2 ^ 53" using round_half_even_bounds(2) [of "2 ^ k" n] by linarith
    then have up: "round_half_even (2 ^ k) n * 2 ^ k \<le> 2 ^ bit_len n" by (simp add: len power_add)
    have "2 ^ 52 * 2 ^ k \<le> n" using n(2) len by (simp add: power_add)
    then have "2 ^ 52 \<le> n div 2 ^ k" by (simp add: less_eq_div_iff_mult_less_eq)
    then have "2 ^ 52 \<le> round_half_even (2 ^ k) n" using round_half_even_bounds(1) [of n "2 ^ k"] by linarith
    then have "2 ^ (bit_len n - 1) \<le> round_half_even (2 ^ k) n * 2 ^ k" by (simp add: len power_add)
    with up show ?thesis by (simp add: f64_round_def Let_def flip: k_def)
  qed
  then show "f64_round n \<le> 2 ^ bit_len n" "2 ^ (bit_len n - 1) \<le> f64_round n" by auto
qed

lemma f64_round_0 [simp]: "f64_round 0 = 0"
  by (simp add: f64_round_exact)

theorem f64_round_mono: "m \<le> n \<Longrightarrow> f64_round m \<le> f64_round n"
proof (cases "m = 0 \<or> bit_len m = bit_len n")
  case True
  moreover assume "m \<le> n"
  ultimately show ?thesis
    by (elim disjE) (simp_all add: f64_round_def [of m] f64_round_def [of n] Let_def round_half_even_mono round_half_even_def [of _ 0])
next
  case False
  moreover assume "m \<le> n"
  ultimately have "0 < m" "0 < n" and less: "bit_len m < bit_len n" using bit_len_mono [of m n] by auto
  have "f64_round m \<le> 2 ^ bit_len m" by (rule f64_round_bounds(1) [OF \<open>0 < m\<close>])
  also have "\<dots> \<le> 2 ^ (bit_len n - 1)" using less by (intro power_increasing) simp_all
  also have "\<dots> \<le> f64_round n" by (rule f64_round_bounds(2) [OF \<open>0 < n\<close>])
  finally show ?thesis .
qed

end
