(* ===== verification/Priority_Ordering.thy ===== *)
theory Priority_Ordering
  imports Ordered_Search Float64
begin

text \<open>
  The node's fee buckets: \<open>klomang-node/src/mempool/priority_ordering.rs\<close>. Scores are \<open>f64\<close> values in
  units of \<open>2 ^ -60\<close>; they are never NaN, so that \<open>partial_cmp\<close> always answers. A panic is \<open>None\<close>.
\<close>

section \<open>Data\<close>

record priority_ordering_config =
  fee_rate_thresholds :: "u64 list"
  deterministic_ordering :: bool

definition priority_ordering_config_default :: priority_ordering_config where
  "priority_ordering_config_default = \<lparr>fee_rate_thresholds = [1, 10, 100, 1000], deterministic_ordering = True\<rparr>"

record prioritized_transaction =
  pt_tx_hash :: bytes
  priority_score :: nat
  pt_fee_rate :: u64
  pt_arrival_time :: u64
  pt_size_bytes :: nat
  pt_total_fee :: u64

text \<open>\<open>fee_rate as f64 * 100.0 + (arrival_time as f64 * 0.001)\<close>; the constant \<open>0.001\<close> is
  \<open>1152921504606847 / 2 ^ 60\<close>.\<close>

definition priority_score_of :: "u64 \<Rightarrow> u64 \<Rightarrow> nat" where
  "priority_score_of fee_rate arrival_time =
     f64_round (f64_round (f64_round (unat fee_rate) * 100) * 2 ^ 60
       + f64_round (f64_round (unat arrival_time) * 1152921504606847))"

definition prioritized_transaction_new :: "bytes \<Rightarrow> u64 \<Rightarrow> u64 \<Rightarrow> nat \<Rightarrow> u64 \<Rightarrow> prioritized_transaction" where
  "prioritized_transaction_new h fee_rate arrival_time n fee =
     \<lparr>pt_tx_hash = h, priority_score = priority_score_of fee_rate arrival_time, pt_fee_rate = fee_rate,
      pt_arrival_time = arrival_time, pt_size_bytes = n, pt_total_fee = fee\<rparr>"

definition compare_deterministic :: "prioritized_transaction \<Rightarrow> prioritized_transaction \<Rightarrow> cmp" where
  "compare_deterministic self other =
     (case cmp_of (priority_score other) (priority_score self) of
        Equal \<Rightarrow> cmp_of (pt_tx_hash self) (pt_tx_hash other)
      | ord \<Rightarrow> ord)"

record priority_bucket =
  lower_bound :: u64
  upper_bound :: u64
  bucket_txs :: "prioritized_transaction list"

definition priority_bucket_new :: "u64 \<Rightarrow> u64 \<Rightarrow> priority_bucket" where
  "priority_bucket_new lo hi = \<lparr>lower_bound = lo, upper_bound = hi, bucket_txs = []\<rparr>"

section \<open>One bucket\<close>

definition in_range :: "u64 \<Rightarrow> priority_bucket \<Rightarrow> bool" where
  "in_range fee_rate b \<longleftrightarrow> lower_bound b \<le> fee_rate \<and> fee_rate < upper_bound b"

definition bucket_insert :: "priority_bucket \<Rightarrow> prioritized_transaction \<Rightarrow> string + priority_bucket" where
  "bucket_insert self tx =
     (if \<not> in_range (pt_fee_rate tx) self then Inl ''Fee rate {} outside bucket range [{}, {})''
      else
        let place = binary_search_by (\<lambda>existing. cmp_reverse (compare_deterministic existing tx)) (bucket_txs self)
        in Inr (self\<lparr>bucket_txs := insert_at (search_place place) tx (bucket_txs self)\<rparr>))"

definition remove_at :: "nat \<Rightarrow> 'a list \<Rightarrow> 'a list" where
  "remove_at i xs = take i xs @ drop (Suc i) xs"

definition bucket_remove :: "priority_bucket \<Rightarrow> bytes \<Rightarrow> priority_bucket \<times> prioritized_transaction option" where
  "bucket_remove self h =
     (case position (\<lambda>t. pt_tx_hash t = h) (bucket_txs self) of
        Some pos \<Rightarrow> (self\<lparr>bucket_txs := remove_at pos (bucket_txs self)\<rparr>, Some (bucket_txs self ! pos))
      | None \<Rightarrow> (self, None))"

definition bucket_find :: "priority_bucket \<Rightarrow> bytes \<Rightarrow> prioritized_transaction option" where
  "bucket_find self h = find (\<lambda>t. pt_tx_hash t = h) (bucket_txs self)"

definition get_top_n :: "priority_bucket \<Rightarrow> nat \<Rightarrow> prioritized_transaction list" where
  "get_top_n self limit = take limit (bucket_txs self)"

section \<open>The iterator over the buckets\<close>

type_synonym cross_bucket_iterator = "prioritized_transaction list list \<times> nat"

definition cross_bucket_iterator_new :: "priority_bucket list \<Rightarrow> cross_bucket_iterator" where
  "cross_bucket_iterator_new buckets = (map bucket_txs buckets, 0)"

function cross_next :: "cross_bucket_iterator \<Rightarrow> cross_bucket_iterator \<times> prioritized_transaction option" where
  "cross_next (its, i) =
     (if i < length its then
        (case its ! i of
           tx # rest \<Rightarrow> ((its[i := rest], i), Some tx)
         | [] \<Rightarrow> cross_next (its, Suc i))
      else ((its, i), None))"
  by pat_completeness auto
termination
  by (relation "measure (\<lambda>(its, i). length its - i)") auto

declare cross_next.simps [simp del]

section \<open>All buckets\<close>

record priority_buckets =
  pb_buckets :: "priority_bucket list"
  pb_config :: priority_ordering_config
  hash_index :: "(bytes, nat \<times> nat) fmap"

text \<open>\<open>- 1\<close> is \<open>u64::MAX\<close>.\<close>

fun make_buckets :: "u64 \<Rightarrow> u64 list \<Rightarrow> priority_bucket list" where
  "make_buckets lo [] = [priority_bucket_new lo (- 1)]"
| "make_buckets lo (t # ts) = priority_bucket_new lo t # make_buckets t ts"

definition priority_buckets_new :: "priority_ordering_config \<Rightarrow> priority_buckets" where
  "priority_buckets_new config =
     \<lparr>pb_buckets = make_buckets 0 (fee_rate_thresholds config), pb_config = config, hash_index = fmempty\<rparr>"

definition pb_insert :: "priority_buckets \<Rightarrow> prioritized_transaction \<Rightarrow> priority_buckets \<times> (string + unit)" where
  "pb_insert self tx =
     (if \<not> deterministic_ordering (pb_config self) then (self, Inl ''Deterministic ordering is disabled'')
      else case position (in_range (pt_fee_rate tx)) (pb_buckets self) of
        None \<Rightarrow> (self, Inl ''No suitable bucket for fee rate'')
      | Some i \<Rightarrow>
          (case bucket_insert (pb_buckets self ! i) tx of
             Inl e \<Rightarrow> (self, Inl e)
           | Inr b \<Rightarrow>
               (self\<lparr>pb_buckets := (pb_buckets self)[i := b],
                  hash_index := fmupd (pt_tx_hash tx) (i, length (bucket_txs b) - 1) (hash_index self)\<rparr>,
                Inr ())))"

definition pb_remove :: "priority_buckets \<Rightarrow> bytes \<Rightarrow> (priority_buckets \<times> prioritized_transaction option) option" where
  "pb_remove self h =
     (case fmlookup (hash_index self) h of
        None \<Rightarrow> Some (self, None)
      | Some (i, _) \<Rightarrow>
          if i < length (pb_buckets self) then
            (case bucket_remove (pb_buckets self ! i) h of
               (b, r) \<Rightarrow> Some (self\<lparr>hash_index := fmdrop h (hash_index self), pb_buckets := (pb_buckets self)[i := b]\<rparr>, r))
          else None)"

definition pb_contains :: "priority_buckets \<Rightarrow> bytes \<Rightarrow> bool" where
  "pb_contains self h \<longleftrightarrow> h |\<in>| fmdom (hash_index self)"

definition pb_get :: "priority_buckets \<Rightarrow> bytes \<Rightarrow> prioritized_transaction option option" where
  "pb_get self h =
     (case fmlookup (hash_index self) h of
        None \<Rightarrow> Some None
      | Some (i, _) \<Rightarrow> if i < length (pb_buckets self) then Some (bucket_find (pb_buckets self ! i) h) else None)"

text \<open>The loops of \<open>get_ordered_transactions\<close>: the limit is tested after each push, so that at least
  one transaction is returned if there is one. \<open>Inr\<close> is the early return.\<close>

fun push_bucket :: "nat \<Rightarrow> prioritized_transaction list \<Rightarrow> prioritized_transaction list
    \<Rightarrow> prioritized_transaction list + prioritized_transaction list" where
  "push_bucket limit result [] = Inl result"
| "push_bucket limit result (tx # txs) =
     (let result' = result @ [tx] in if limit \<le> length result' then Inr result' else push_bucket limit result' txs)"

fun push_buckets :: "nat \<Rightarrow> prioritized_transaction list \<Rightarrow> priority_bucket list \<Rightarrow> prioritized_transaction list" where
  "push_buckets limit result [] = result"
| "push_buckets limit result (b # bs) =
     (case push_bucket limit result (bucket_txs b) of
        Inr result' \<Rightarrow> result'
      | Inl result' \<Rightarrow> push_buckets limit result' bs)"

text \<open>\<open>Vec::with_capacity(limit)\<close> panics when \<open>limit\<close> elements of 64 bytes exceed \<open>isize::MAX\<close>.\<close>

definition with_capacity_ok :: "nat \<Rightarrow> bool" where
  "with_capacity_ok limit \<longleftrightarrow> limit * 64 < 2 ^ 63"

definition pb_get_ordered_transactions :: "priority_buckets \<Rightarrow> nat \<Rightarrow> prioritized_transaction list option" where
  "pb_get_ordered_transactions self limit =
     (if with_capacity_ok limit then Some (push_buckets limit [] (rev (pb_buckets self))) else None)"

definition iter_ordered :: "priority_buckets \<Rightarrow> cross_bucket_iterator" where
  "iter_ordered self = cross_bucket_iterator_new (pb_buckets self)"

definition get_bucket_transactions :: "priority_buckets \<Rightarrow> nat \<Rightarrow> string + prioritized_transaction list" where
  "get_bucket_transactions self i =
     (if i < length (pb_buckets self) then Inr (bucket_txs (pb_buckets self ! i)) else Inl ''Bucket {} not found'')"

definition total_count :: "priority_buckets \<Rightarrow> nat" where
  "total_count self = sum_list (map (length \<circ> bucket_txs) (pb_buckets self))"

definition bucket_counts :: "priority_buckets \<Rightarrow> nat list" where
  "bucket_counts self = map (length \<circ> bucket_txs) (pb_buckets self)"

definition bucket_count :: "priority_buckets \<Rightarrow> nat" where
  "bucket_count self = length (pb_buckets self)"

text \<open>The checks of \<open>verify_consistency\<close>, in the order of the code.\<close>

fun check_members :: "(bytes, nat \<times> nat) fmap \<Rightarrow> nat \<Rightarrow> priority_bucket \<Rightarrow> prioritized_transaction list \<Rightarrow> string + unit" where
  "check_members idx i b [] = Inr ()"
| "check_members idx i b (tx # txs) =
     (if \<not> in_range (pt_fee_rate tx) b then Inl ''Transaction has fee rate {} outside bucket [{}, {})''
      else case fmlookup idx (pt_tx_hash tx) of
        Some (j, _) \<Rightarrow> if j \<noteq> i then Inl ''Hash index mismatch for transaction'' else check_members idx i b txs
      | None \<Rightarrow> check_members idx i b txs)"

fun check_order :: "prioritized_transaction option \<Rightarrow> prioritized_transaction list \<Rightarrow> string + unit" where
  "check_order prev [] = Inr ()"
| "check_order None (tx # txs) = check_order (Some tx) txs"
| "check_order (Some p) (tx # txs) =
     (case compare_deterministic p tx of
        Less \<Rightarrow> Inl ''Invalid ordering: later transaction has higher priority''
      | _ \<Rightarrow> Inl ''Transaction not ordered correctly relative to peer'')"

fun check_buckets :: "(bytes, nat \<times> nat) fmap \<Rightarrow> nat \<Rightarrow> priority_bucket list \<Rightarrow> string + unit" where
  "check_buckets idx i [] = Inr ()"
| "check_buckets idx i (b # bs) =
     bind_res (check_members idx i b (bucket_txs b)) (\<lambda>_.
       bind_res (check_order None (bucket_txs b)) (\<lambda>_. check_buckets idx (Suc i) bs))"

definition pb_verify_consistency :: "priority_buckets \<Rightarrow> string + unit" where
  "pb_verify_consistency self = check_buckets (hash_index self) 0 (pb_buckets self)"

definition pb_clear :: "priority_buckets \<Rightarrow> priority_buckets" where
  "pb_clear self = self\<lparr>pb_buckets := map (\<lambda>b. b\<lparr>bucket_txs := []\<rparr>) (pb_buckets self), hash_index := fmempty\<rparr>"

definition fee_thresholds :: "priority_buckets \<Rightarrow> u64 list" where
  "fee_thresholds self = fee_rate_thresholds (pb_config self)"

record bucket_info =
  bi_lower_bound :: u64
  bi_upper_bound :: u64
  bi_transaction_count :: nat
  bi_total_fees :: u64
  bi_average_fee :: u64

record bucket_statistics =
  bs_total_transactions :: nat
  bs_total_fees :: u64
  bs_bucket_info :: "bucket_info list"

definition bucket_info_of :: "priority_bucket \<Rightarrow> bucket_info" where
  "bucket_info_of b =
     (let n = length (bucket_txs b); fees = sum_list (map pt_total_fee (bucket_txs b)) in
      \<lparr>bi_lower_bound = lower_bound b, bi_upper_bound = upper_bound b, bi_transaction_count = n,
       bi_total_fees = fees, bi_average_fee = (if 0 < n then fees div of_nat n else 0)\<rparr>)"

definition get_statistics :: "priority_buckets \<Rightarrow> bucket_statistics" where
  "get_statistics self =
     (let infos = map bucket_info_of (pb_buckets self) in
      \<lparr>bs_total_transactions = sum_list (map bi_transaction_count infos),
       bs_total_fees = sum_list (map bi_total_fees infos), bs_bucket_info = infos\<rparr>)"

section \<open>Comparison\<close>

lemma compare_cases:
  "compare_deterministic a b = Less \<longleftrightarrow> priority_score b < priority_score a \<or> priority_score a = priority_score b \<and> pt_tx_hash a < pt_tx_hash b"
  "compare_deterministic a b = Greater \<longleftrightarrow> priority_score a < priority_score b \<or> priority_score a = priority_score b \<and> pt_tx_hash b < pt_tx_hash a"
  "compare_deterministic a b = Equal \<longleftrightarrow> priority_score a = priority_score b \<and> pt_tx_hash a = pt_tx_hash b"
  by (auto simp: compare_deterministic_def split: cmp.splits)

lemma compare_swap: "compare_deterministic b a = cmp_reverse (compare_deterministic a b)"
  by (auto simp: compare_deterministic_def cmp_of_def)

text \<open>The order a bucket is kept in is the reverse of the order of priority.\<close>

interpretation kept: comparison "\<lambda>a b. cmp_reverse (compare_deterministic a b)"
proof
  show "cmp_reverse (compare_deterministic b a) = cmp_reverse (cmp_reverse (compare_deterministic a b))" for a b
    by (simp only: compare_swap [of b a])
  show "cmp_reverse (compare_deterministic a c) \<noteq> Greater"
    if "cmp_reverse (compare_deterministic a b) \<noteq> Greater" "cmp_reverse (compare_deterministic b c) \<noteq> Greater" for a b c
    using that by (auto simp: compare_cases not_less)
qed

lemma kept_order:
  "kept.in_order xs \<longleftrightarrow> sorted_wrt (\<lambda>a b. compare_deterministic a b \<noteq> Less) xs"
  by (simp add: kept.in_order_def)

text \<open>With equal arrival times a higher fee rate never scores lower.\<close>

lemma score_mono: "f \<le> f' \<Longrightarrow> priority_score_of f a \<le> priority_score_of f' a"
  unfolding priority_score_of_def
  by (intro f64_round_mono add_right_mono mult_right_mono) (simp_all add: word_le_nat_alt)

section \<open>Positions\<close>

lemma position_update:
  "i < length xs \<Longrightarrow> p y = p (xs ! i) \<Longrightarrow> position p (xs[i := y]) = position p xs"
  by (induction xs arbitrary: i) (auto split: nat.splits)

lemma position_find: "find p xs = map_option ((!) xs) (position p xs)"
  by (induction xs) (auto simp: option.map_comp o_def)

lemma mset_remove_at: "i < length xs \<Longrightarrow> mset xs = add_mset (xs ! i) (mset (remove_at i xs))"
  by (metis add_mset_add_single id_take_nth_drop mset.simps(2) mset_append remove_at_def union_mset_add_mset_right)

lemma sorted_wrt_remove_at:
  assumes "sorted_wrt P xs"
  shows "sorted_wrt P (remove_at i xs)"
proof -
  have "sorted_wrt P (take i xs @ drop i xs)" using assms by simp
  moreover have "set (drop (Suc i) xs) \<subseteq> set (drop i xs)" by (simp add: set_drop_subset_set_drop)
  ultimately show ?thesis
    using assms unfolding remove_at_def sorted_wrt_append by (auto simp: sorted_wrt_drop)
qed

lemma mset_concat_update:
  assumes "i < length xs" and "mset (f y) = add_mset z (mset (f (xs ! i)))"
  shows "mset (concat (map f (xs[i := y]))) = add_mset z (mset (concat (map f xs)))"
  using assms
proof (induction xs arbitrary: i)
  case (Cons x xs)
  then show ?case by (cases i) simp_all
qed simp

text \<open>Where each element says which list it belongs to, a list is what the whole holds for it.\<close>

lemma filter_concat_place:
  assumes "\<forall>j<length xss. \<forall>x\<in>set (xss ! j). g x = Some (k + j)" and "i < length xss"
  shows "filter (\<lambda>x. g x = Some (k + i)) (concat xss) = xss ! i"
  using assms
proof (induction xss arbitrary: k i)
  case (Cons xs xss)
  have hd: "\<forall>x\<in>set xs. g x = Some k" using Cons.prems(1) by (metis add.right_neutral length_greater_0_conv list.simps(3) nth_Cons_0)
  have tl: "\<forall>j<length xss. \<forall>x\<in>set (xss ! j). g x = Some (Suc k + j)"
    using Cons.prems(1) by (metis Suc_less_eq add_Suc_shift length_Cons nth_Cons_Suc)
  show ?case
  proof (cases i)
    case 0
    have "g x \<noteq> Some k" if "x \<in> set (concat xss)" for x
    proof -
      from that obtain xs' where "xs' \<in> set xss" "x \<in> set xs'" by auto
      then obtain j where "j < length xss" "x \<in> set (xss ! j)" by (metis in_set_conv_nth)
      with tl show ?thesis by simp
    qed
    then have "filter (\<lambda>x. g x = Some k) (concat xss) = []" by (simp add: filter_empty_conv del: set_concat)
    then show ?thesis using 0 hd by simp
  next
    case (Suc i')
    have "filter (\<lambda>x. g x = Some (k + i)) xs = []" using hd Suc by (simp add: filter_empty_conv)
    with Cons.IH [OF tl, of i'] Cons.prems(2) Suc show ?thesis by simp
  qed
qed simp

section \<open>The invariant\<close>

definition all_txs :: "priority_buckets \<Rightarrow> prioritized_transaction list" where
  "all_txs self = concat (map bucket_txs (pb_buckets self))"

definition place :: "priority_buckets \<Rightarrow> u64 \<Rightarrow> nat option" where
  "place self fee_rate = position (in_range fee_rate) (pb_buckets self)"

definition stored :: "priority_buckets \<Rightarrow> bytes \<Rightarrow> prioritized_transaction option" where
  "stored self h = find (\<lambda>t. pt_tx_hash t = h) (all_txs self)"

definition placed :: "priority_buckets \<Rightarrow> bool" where
  "placed self \<longleftrightarrow> (\<forall>i<length (pb_buckets self). kept.in_order (bucket_txs (pb_buckets self ! i))
     \<and> (\<forall>tx\<in>set (bucket_txs (pb_buckets self ! i)). place self (pt_fee_rate tx) = Some i))"

definition indexed :: "priority_buckets \<Rightarrow> bool" where
  "indexed self \<longleftrightarrow> (\<forall>h. map_option fst (fmlookup (hash_index self) h)
     = Option.bind (stored self h) (\<lambda>tx. place self (pt_fee_rate tx)))"

definition pb_inv :: "priority_buckets \<Rightarrow> bool" where
  "pb_inv self \<longleftrightarrow> placed self \<and> indexed self \<and> distinct (map pt_tx_hash (all_txs self))"

lemma in_range_bucket_txs [simp]: "in_range f (b\<lparr>bucket_txs := ts\<rparr>) = in_range f b"
  by (simp add: in_range_def)

text \<open>What a change of the transactions of one bucket keeps.\<close>

lemma place_update:
  assumes "i < length (pb_buckets self)"
    and "pb_buckets self' = (pb_buckets self)[i := (pb_buckets self ! i)\<lparr>bucket_txs := ts\<rparr>]"
  shows "place self' f = place self f"
  using assms by (simp add: place_def position_update)

lemma placed_update:
  assumes "placed self" and "i < length (pb_buckets self)"
    and "pb_buckets self' = (pb_buckets self)[i := (pb_buckets self ! i)\<lparr>bucket_txs := ts\<rparr>]"
    and "kept.in_order ts" and "\<forall>tx\<in>set ts. place self (pt_fee_rate tx) = Some i"
  shows "placed self'"
  using assms(1,2,4,5) by (auto simp: placed_def place_update [OF assms(2,3)] assms(3) nth_list_update)

lemma stored_iff:
  assumes "distinct (map pt_tx_hash (all_txs self))"
  shows "stored self h = Some tx \<longleftrightarrow> tx \<in> set (all_txs self) \<and> pt_tx_hash tx = h"
proof
  assume "stored self h = Some tx"
  then show "tx \<in> set (all_txs self) \<and> pt_tx_hash tx = h"
    unfolding stored_def by (metis (mono_tags, lifting) find_Some_iff nth_mem)
next
  assume tx: "tx \<in> set (all_txs self) \<and> pt_tx_hash tx = h"
  then obtain tx' where "stored self h = Some tx'"
    unfolding stored_def by (metis (mono_tags, lifting) find_None_iff option.exhaust)
  then have "tx' \<in> set (all_txs self)" "pt_tx_hash tx' = h"
    unfolding stored_def by (metis (mono_tags, lifting) find_Some_iff nth_mem)+
  with tx assms have "tx' = tx" by (metis distinct_map inj_on_eq_iff)
  with \<open>stored self h = Some tx'\<close> show "stored self h = Some tx" by simp
qed

lemma stored_None: "stored self h = None \<longleftrightarrow> h \<notin> pt_tx_hash ` set (all_txs self)"
  by (auto simp: stored_def find_None_iff)

lemma pb_insert_effect:
  assumes "deterministic_ordering (pb_config self)" and "place self (pt_fee_rate tx) = Some i"
  obtains ts k where "i < length (pb_buckets self)"
    "pb_insert self tx = (self\<lparr>pb_buckets := (pb_buckets self)[i := (pb_buckets self ! i)\<lparr>bucket_txs := ts\<rparr>],
       hash_index := fmupd (pt_tx_hash tx) (i, k) (hash_index self)\<rparr>, Inr ())"
    "mset ts = add_mset tx (mset (bucket_txs (pb_buckets self ! i)))"
    "kept.in_order (bucket_txs (pb_buckets self ! i)) \<Longrightarrow> kept.in_order ts"
proof -
  have i: "i < length (pb_buckets self)" "in_range (pt_fee_rate tx) (pb_buckets self ! i)"
    using position_Some assms(2) by (auto simp: place_def)
  let ?txs = "bucket_txs (pb_buckets self ! i)"
  let ?ts = "insert_at (search_place (binary_search_by (\<lambda>e. cmp_reverse (compare_deterministic e tx)) ?txs)) tx ?txs"
  show thesis
    by (rule that [where ts = ?ts and k = "length ?ts - 1"])
      (use assms i in \<open>simp_all add: pb_insert_def place_def bucket_insert_def kept.insert_in_order\<close>)
qed

text \<open>A fresh transaction is stored.\<close>

lemma pb_insert_fresh:
  assumes inv: "pb_inv self" and fresh: "stored self (pt_tx_hash tx) = None" and run: "pb_insert self tx = (self', Inr ())"
  shows "pb_inv self'" and "stored self' = (stored self)(pt_tx_hash tx \<mapsto> tx)" and "place self' = place self"
    and "mset (all_txs self') = add_mset tx (mset (all_txs self))"
proof -
  have det: "deterministic_ordering (pb_config self)" using run by (auto simp: pb_insert_def split: if_splits)
  obtain i where i: "place self (pt_fee_rate tx) = Some i"
    using run det by (auto simp: pb_insert_def place_def split: option.splits)
  from det i obtain ts k where ts: "i < length (pb_buckets self)"
    "self' = self\<lparr>pb_buckets := (pb_buckets self)[i := (pb_buckets self ! i)\<lparr>bucket_txs := ts\<rparr>],
       hash_index := fmupd (pt_tx_hash tx) (i, k) (hash_index self)\<rparr>"
    "mset ts = add_mset tx (mset (bucket_txs (pb_buckets self ! i)))"
    "kept.in_order (bucket_txs (pb_buckets self ! i)) \<Longrightarrow> kept.in_order ts"
    using run by (rule_tac pb_insert_effect [OF det i]) auto
  have bs: "pb_buckets self' = (pb_buckets self)[i := (pb_buckets self ! i)\<lparr>bucket_txs := ts\<rparr>]" by (simp add: ts(2))
  show place: "place self' = place self" using place_update [OF ts(1) bs] by blast
  show all: "mset (all_txs self') = add_mset tx (mset (all_txs self))"
    unfolding all_txs_def bs by (rule mset_concat_update) (simp_all add: ts)
  have set: "set (all_txs self') = insert tx (set (all_txs self))" using all by (metis set_mset_add_mset_insert set_mset_mset)
  have dist: "distinct (map pt_tx_hash (all_txs self'))"
  proof -
    have "mset (map pt_tx_hash (all_txs self')) = mset (pt_tx_hash tx # map pt_tx_hash (all_txs self))"
      using all by (metis image_mset_add_mset mset.simps(2) mset_map)
    moreover have "distinct (pt_tx_hash tx # map pt_tx_hash (all_txs self))"
      using inv fresh by (simp add: pb_inv_def stored_None)
    ultimately show ?thesis by (metis mset_eq_imp_distinct_iff)
  qed
  have d0: "distinct (map pt_tx_hash (all_txs self))" using inv by (simp add: pb_inv_def)
  show st: "stored self' = (stored self)(pt_tx_hash tx \<mapsto> tx)"
  proof
    fix h
    have "stored self' h = Some t \<longleftrightarrow> ((stored self)(pt_tx_hash tx \<mapsto> tx)) h = Some t" for t
      using fresh by (auto simp: stored_iff [OF dist] stored_iff [OF d0] set stored_None image_iff)
    then show "stored self' h = ((stored self)(pt_tx_hash tx \<mapsto> tx)) h" by (metis not_Some_eq)
  qed
  have "set ts = insert tx (set (bucket_txs (pb_buckets self ! i)))" using ts(3) by (metis set_mset_add_mset_insert set_mset_mset)
  then have "placed self'"
    using inv i ts(1,4) by (intro placed_update [OF _ ts(1) bs]) (auto simp: pb_inv_def placed_def)
  moreover have "indexed self'"
  proof -
    have "hash_index self' = fmupd (pt_tx_hash tx) (i, k) (hash_index self)" by (simp add: ts(2))
    then show ?thesis using inv i unfolding pb_inv_def indexed_def st place by auto
  qed
  ultimately show "pb_inv self'" using dist by (simp add: pb_inv_def)
qed

lemma in_bucket:
  assumes "placed self" and "tx \<in> set (all_txs self)"
  obtains i where "i < length (pb_buckets self)" "place self (pt_fee_rate tx) = Some i" "tx \<in> set (bucket_txs (pb_buckets self ! i))"
proof -
  obtain b where "b \<in> set (pb_buckets self)" "tx \<in> set (bucket_txs b)" using assms(2) by (auto simp: all_txs_def)
  then obtain i where "i < length (pb_buckets self)" "tx \<in> set (bucket_txs (pb_buckets self ! i))" by (metis in_set_conv_nth)
  with assms(1) that show thesis by (auto simp: placed_def)
qed

lemma indexed_iff:
  assumes "pb_inv self"
  shows "fmlookup (hash_index self) h = None \<longleftrightarrow> stored self h = None"
    and "fmlookup (hash_index self) h = Some (i, k) \<Longrightarrow> \<exists>tx. stored self h = Some tx \<and> place self (pt_fee_rate tx) = Some i"
proof -
  have d: "distinct (map pt_tx_hash (all_txs self))" and p: "placed self" using assms by (auto simp: pb_inv_def)
  have idx: "map_option fst (fmlookup (hash_index self) h) = Option.bind (stored self h) (\<lambda>tx. place self (pt_fee_rate tx))"
    using assms by (simp add: pb_inv_def indexed_def)
  have "place self (pt_fee_rate tx) \<noteq> None" if "stored self h = Some tx" for tx
    using that in_bucket [OF p, of tx] stored_iff [OF d] by blast
  then show "fmlookup (hash_index self) h = None \<longleftrightarrow> stored self h = None"
    using idx by (cases "stored self h"; cases "fmlookup (hash_index self) h") auto
  show "\<exists>tx. stored self h = Some tx \<and> place self (pt_fee_rate tx) = Some i" if "fmlookup (hash_index self) h = Some (i, k)"
    using idx that by (cases "stored self h") auto
qed

text \<open>A removal returns the stored transaction and never reads outside the buckets.\<close>

lemma pb_remove_effect:
  assumes inv: "pb_inv self"
  obtains self' where "pb_remove self h = Some (self', stored self h)" "pb_inv self'" "stored self' = (stored self)(h := None)"
    "place self' = place self"
proof (cases "stored self h")
  case None
  then have "pb_remove self h = Some (self, None)" using indexed_iff(1) [OF inv, of h] by (simp add: pb_remove_def)
  with None inv that [of self] show thesis by (simp add: fun_upd_idem)
next
  case (Some tx)
  have d: "distinct (map pt_tx_hash (all_txs self))" and p: "placed self" using inv by (auto simp: pb_inv_def)
  have tx: "tx \<in> set (all_txs self)" "pt_tx_hash tx = h" using Some stored_iff [OF d] by auto
  obtain i where i: "i < length (pb_buckets self)" "place self (pt_fee_rate tx) = Some i" "tx \<in> set (bucket_txs (pb_buckets self ! i))"
    using in_bucket [OF p tx(1)] .
  obtain j k where jk: "fmlookup (hash_index self) h = Some (j, k)" using indexed_iff(1) [OF inv, of h] Some by auto
  with indexed_iff(2) [OF inv jk] Some i(2) have "j = i" by simp
  let ?b = "pb_buckets self ! i"
  have hin: "u = tx" if "u \<in> set (bucket_txs ?b)" "pt_tx_hash u = h" for u
  proof -
    have "u \<in> set (all_txs self)" using that(1) i(1) by (auto simp: all_txs_def)
    with that(2) have "stored self h = Some u" using stored_iff [OF d] by blast
    with Some show ?thesis by simp
  qed
  obtain pos where pos: "position (\<lambda>t. pt_tx_hash t = h) (bucket_txs ?b) = Some pos"
    using position_None [of "\<lambda>t. pt_tx_hash t = h" "bucket_txs ?b"] i(3) tx(2) by (cases "position (\<lambda>t. pt_tx_hash t = h) (bucket_txs ?b)") auto
  then have at: "pos < length (bucket_txs ?b)" "bucket_txs ?b ! pos = tx" using position_Some [OF pos] hin by auto
  let ?ts = "remove_at pos (bucket_txs ?b)"
  define self' where "self' = self\<lparr>hash_index := fmdrop h (hash_index self), pb_buckets := (pb_buckets self)[i := ?b\<lparr>bucket_txs := ?ts\<rparr>]\<rparr>"
  have run: "pb_remove self h = Some (self', Some tx)"
    using jk \<open>j = i\<close> i(1) pos at(2) by (simp add: pb_remove_def bucket_remove_def self'_def)
  have bs: "pb_buckets self' = (pb_buckets self)[i := ?b\<lparr>bucket_txs := ?ts\<rparr>]" by (simp add: self'_def)
  have place: "place self' = place self" using place_update [OF i(1) bs] by blast
  have ts: "mset (bucket_txs ?b) = add_mset tx (mset ?ts)" using mset_remove_at [OF at(1)] at(2) by simp
  have "mset (concat (map bucket_txs ((pb_buckets self')[i := ?b]))) = add_mset tx (mset (concat (map bucket_txs (pb_buckets self'))))"
    by (rule mset_concat_update) (simp_all add: bs i(1) ts)
  then have all: "mset (all_txs self) = add_mset tx (mset (all_txs self'))" using i(1) by (simp add: all_txs_def bs)
  have hs: "mset (map pt_tx_hash (all_txs self)) = mset (h # map pt_tx_hash (all_txs self'))"
    using all tx(2) by (metis image_mset_add_mset mset.simps(2) mset_map)
  then have dd: "distinct (h # map pt_tx_hash (all_txs self'))" using d by (metis mset_eq_imp_distinct_iff)
  then have d': "distinct (map pt_tx_hash (all_txs self'))" by simp
  have set: "set (all_txs self) = insert tx (set (all_txs self'))" using all by (metis set_mset_add_mset_insert set_mset_mset)
  have st: "stored self' = (stored self)(h := None)"
  proof
    fix h'
    have "\<forall>t\<in>set (all_txs self'). pt_tx_hash t \<noteq> h" using dd by auto
    then have "stored self' h' = Some t \<longleftrightarrow> ((stored self)(h := None)) h' = Some t" for t
      using tx(2) by (auto simp: stored_iff [OF d] stored_iff [OF d'] set)
    then show "stored self' h' = ((stored self)(h := None)) h'" by (metis not_Some_eq)
  qed
  have "set ?ts \<subseteq> set (bucket_txs ?b)" using ts by (metis set_mset_add_mset_insert set_mset_mset subset_insertI)
  moreover have "kept.in_order ?ts"
    using p i(1) by (auto simp: placed_def kept_order sorted_wrt_remove_at)
  ultimately have "placed self'"
    using p i(1) by (intro placed_update [OF p i(1) bs]) (auto simp: placed_def)
  moreover have "indexed self'"
  proof -
    have "hash_index self' = fmdrop h (hash_index self)" by (simp add: self'_def)
    then show ?thesis using inv unfolding pb_inv_def indexed_def st place by auto
  qed
  ultimately have "pb_inv self'" using d' by (simp add: pb_inv_def)
  with that run st place Some show thesis by simp
qed

section \<open>Histories\<close>

text \<open>Calls on the buckets when a hash is not inserted again while it is stored.\<close>

inductive pb_step :: "priority_buckets \<Rightarrow> priority_buckets \<Rightarrow> bool" where
  pb_inserted: "\<not> pb_contains self (pt_tx_hash tx) \<Longrightarrow> pb_insert self tx = (self', r) \<Longrightarrow> pb_step self self'"
| pb_removed: "pb_remove self h = Some (self', r) \<Longrightarrow> pb_step self self'"
| pb_cleared: "pb_step self (pb_clear self)"

lemma pb_contains_iff: "pb_inv self \<Longrightarrow> pb_contains self h \<longleftrightarrow> stored self h \<noteq> None"
  using indexed_iff(1) [of self h] by (auto simp: pb_contains_def fmlookup_dom_iff)

lemma make_buckets_empty: "b \<in> set (make_buckets lo ts) \<Longrightarrow> bucket_txs b = []"
  by (induction ts arbitrary: lo) (auto simp: priority_bucket_new_def)

lemma pb_inv_empty:
  assumes "\<forall>b\<in>set (pb_buckets self). bucket_txs b = []" and "hash_index self = fmempty"
  shows "pb_inv self" and "stored self = Map.empty"
proof -
  have "all_txs self = []" using assms(1) by (simp add: all_txs_def)
  then show st: "stored self = Map.empty" by (auto simp: stored_def)
  have "placed self" using assms(1) by (simp add: placed_def kept_order)
  then show "pb_inv self" using \<open>all_txs self = []\<close> assms(2) st by (simp add: pb_inv_def indexed_def)
qed

lemma pb_inv_new: "pb_inv (priority_buckets_new config)" "stored (priority_buckets_new config) = Map.empty"
  by (rule pb_inv_empty; simp add: priority_buckets_new_def make_buckets_empty)+

lemma pb_clear_effect: "pb_inv (pb_clear self)" "stored (pb_clear self) = Map.empty" "place (pb_clear self) = place self"
proof -
  show "pb_inv (pb_clear self)" "stored (pb_clear self) = Map.empty" by (rule pb_inv_empty; auto simp: pb_clear_def)+
  have "position (in_range f) (map (\<lambda>b. b\<lparr>bucket_txs := []\<rparr>) bs) = position (in_range f) bs" for f bs
    by (induction bs) simp_all
  then show "place (pb_clear self) = place self" by (auto simp: place_def pb_clear_def)
qed

lemma pb_insert_failed: "pb_insert self tx = (self', Inl e) \<Longrightarrow> self' = self"
  by (auto simp: pb_insert_def split: if_splits option.splits sum.splits)

lemma pb_step_inv:
  assumes "pb_step self self'" and "pb_inv self"
  shows "pb_inv self' \<and> place self' = place self"
  using assms
proof (cases rule: pb_step.cases)
  case (pb_inserted tx r)
  then have "stored self (pt_tx_hash tx) = None" using pb_contains_iff [OF assms(2)] by auto
  with pb_inserted assms(2) show ?thesis by (cases r) (auto dest: pb_insert_failed pb_insert_fresh(1,3))
next
  case (pb_removed h r)
  from assms(2) obtain s where "pb_remove self h = Some (s, stored self h)" "pb_inv s" "place s = place self"
    by (rule pb_remove_effect)
  with pb_removed show ?thesis by simp
next
  case pb_cleared
  then show ?thesis by (simp add: pb_clear_effect)
qed

lemma pb_reachable_inv:
  assumes "pb_step\<^sup>*\<^sup>* (priority_buckets_new config) self"
  shows "pb_inv self \<and> place self = place (priority_buckets_new config)"
  using assms by (induction rule: rtranclp_induct) (auto simp: pb_inv_new dest: pb_step_inv)

lemma pb_get_stored:
  assumes inv: "pb_inv self"
  shows "pb_get self h = Some (stored self h)"
proof (cases "stored self h")
  case None
  then show ?thesis using indexed_iff(1) [OF inv, of h] by (simp add: pb_get_def)
next
  case (Some tx)
  have d: "distinct (map pt_tx_hash (all_txs self))" and p: "placed self" using inv by (auto simp: pb_inv_def)
  have tx: "tx \<in> set (all_txs self)" "pt_tx_hash tx = h" using Some stored_iff [OF d] by auto
  obtain i where i: "i < length (pb_buckets self)" "place self (pt_fee_rate tx) = Some i" "tx \<in> set (bucket_txs (pb_buckets self ! i))"
    using in_bucket [OF p tx(1)] .
  obtain k where jk: "fmlookup (hash_index self) h = Some (i, k)"
    using indexed_iff [OF inv] Some i(2) by (metis option.sel option.exhaust option.simps(3) surj_pair)
  obtain u where u: "bucket_find (pb_buckets self ! i) h = Some u"
    using i(3) tx(2) unfolding bucket_find_def by (metis (mono_tags, lifting) find_None_iff option.exhaust)
  then have "u \<in> set (bucket_txs (pb_buckets self ! i))" "pt_tx_hash u = h"
    unfolding bucket_find_def by (metis (mono_tags, lifting) find_Some_iff nth_mem)+
  then have "u \<in> set (all_txs self)" "pt_tx_hash u = h" using i(1) by (auto simp: all_txs_def)
  then have "stored self h = Some u" using stored_iff [OF d] by blast
  with u jk i(1) show ?thesis by (simp add: pb_get_def)
qed

lemma total_count_stored:
  assumes "pb_inv self"
  shows "total_count self = card (dom (stored self))"
proof -
  have d: "distinct (map pt_tx_hash (all_txs self))" using assms by (simp add: pb_inv_def)
  have "dom (stored self) = set (map pt_tx_hash (all_txs self))"
    using stored_None [of self] by (auto simp: dom_def)
  then have "card (dom (stored self)) = length (all_txs self)" using distinct_card [OF d] by simp
  then show ?thesis by (simp add: total_count_def all_txs_def length_concat)
qed

section \<open>The listing\<close>

lemma push_bucket_take:
  "length result < max 1 limit \<Longrightarrow> push_bucket limit result txs =
     (if max 1 limit \<le> length result + length txs then Inr (take (max 1 limit) (result @ txs)) else Inl (result @ txs))"
proof (induction txs arbitrary: result)
  case (Cons tx txs)
  show ?case
  proof (cases "limit \<le> Suc (length result)")
    case True
    with Cons.prems have "max 1 limit = Suc (length result)" by (simp add: max_def split: if_splits)
    with True show ?thesis by simp
  next
    case False
    then have "length (result @ [tx]) < max 1 limit" by simp
    note IH = Cons.IH [OF this]
    have "push_bucket limit result (tx # txs) = push_bucket limit (result @ [tx]) txs" using False by simp
    moreover have "(result @ [tx]) @ txs = result @ tx # txs" "length (result @ [tx]) + length txs = length result + length (tx # txs)"
      by simp_all
    ultimately show ?thesis using IH by (simp only:)
  qed
qed (simp add: max_def)

lemma push_buckets_take:
  "length result < max 1 limit \<Longrightarrow> push_buckets limit result bs = take (max 1 limit) (result @ concat (map bucket_txs bs))"
proof (induction bs arbitrary: result)
  case (Cons b bs)
  show ?case
  proof (cases "max 1 limit \<le> length result + length (bucket_txs b)")
    case True
    then have "take (max 1 limit) ((result @ bucket_txs b) @ concat (map bucket_txs bs)) = take (max 1 limit) (result @ bucket_txs b)"
      by simp
    with True Cons.prems show ?thesis by (simp only: push_buckets.simps push_bucket_take if_True sum.case list.map concat.simps append_assoc)
  next
    case False
    then have "length (result @ bucket_txs b) < max 1 limit" by (simp only: not_le length_append)
    note IH = Cons.IH [OF this]
    have "push_buckets limit result (b # bs) = push_buckets limit (result @ bucket_txs b) bs"
      using push_bucket_take [OF Cons.prems, of "bucket_txs b"] False by (simp only: push_buckets.simps if_False sum.case)
    then show ?thesis using IH by (simp only: list.map concat.simps append_assoc)
  qed
qed (simp add: max_def)

lemma sorted_wrt_concat:
  assumes "\<forall>xs\<in>set xss. sorted_wrt P xs" and "sorted_wrt (\<lambda>xs ys. \<forall>x\<in>set xs. \<forall>y\<in>set ys. P x y) xss"
  shows "sorted_wrt P (concat xss)"
  using assms by (induction xss) (auto simp: sorted_wrt_append)

definition listing :: "priority_buckets \<Rightarrow> prioritized_transaction list" where
  "listing self = concat (map bucket_txs (rev (pb_buckets self)))"

lemma ordered_is_listing:
  "pb_get_ordered_transactions self limit = (if with_capacity_ok limit then Some (take (max 1 limit) (listing self)) else None)"
  by (simp add: pb_get_ordered_transactions_def listing_def push_buckets_take)

lemma mset_listing: "mset (listing self) = mset (all_txs self)"
  by (simp add: listing_def all_txs_def mset_concat rev_map [symmetric] sum_list_rev)

definition listed_before :: "priority_buckets \<Rightarrow> prioritized_transaction \<Rightarrow> prioritized_transaction \<Rightarrow> bool" where
  "listed_before self a b \<longleftrightarrow>
     (\<exists>i j. place self (pt_fee_rate a) = Some i \<and> place self (pt_fee_rate b) = Some j
        \<and> (j < i \<or> i = j \<and> compare_deterministic a b = Greater))"

lemma distinct_concat_part: "distinct (concat xss) \<Longrightarrow> xs \<in> set xss \<Longrightarrow> distinct xs"
  by (induction xss) auto

lemma bucket_listed_before:
  assumes "distinct (map pt_tx_hash xs)" and "kept.in_order xs" and "\<forall>tx\<in>set xs. place self (pt_fee_rate tx) = Some i"
  shows "sorted_wrt (listed_before self) xs"
  using assms unfolding kept_order
proof (induction xs)
  case (Cons x xs)
  have "compare_deterministic x y = Greater" if "y \<in> set xs" for y
    using Cons.prems(1,2) that by (cases "compare_deterministic x y") (auto simp: compare_cases)
  with Cons show ?case by (auto simp: listed_before_def)
qed simp

lemma listing_sorted:
  assumes "pb_inv self"
  shows "sorted_wrt (listed_before self) (listing self)"
proof -
  let ?bs = "pb_buckets self"
  have p: "placed self" and d: "distinct (map pt_tx_hash (all_txs self))" using assms by (auto simp: pb_inv_def)
  have one: "sorted_wrt (listed_before self) (bucket_txs b)" if b: "b \<in> set ?bs" for b
  proof -
    obtain i where i: "i < length ?bs" "b = ?bs ! i" using b by (metis in_set_conv_nth)
    have "distinct (map pt_tx_hash (bucket_txs b))"
      using d b by (auto simp: all_txs_def distinct_map intro: inj_on_subset distinct_concat_part)
    moreover have "kept.in_order (bucket_txs b)" "\<forall>tx\<in>set (bucket_txs b). place self (pt_fee_rate tx) = Some i"
      using p i by (auto simp: placed_def)
    ultimately show ?thesis by (rule bucket_listed_before)
  qed
  have across: "listed_before self x y" if "j < i" "i < length ?bs" "x \<in> set (bucket_txs (?bs ! i))" "y \<in> set (bucket_txs (?bs ! j))" for i j x y
  proof -
    have "place self (pt_fee_rate x) = Some i" "place self (pt_fee_rate y) = Some j" using that p by (auto simp: placed_def)
    with that(1) show ?thesis by (simp add: listed_before_def)
  qed
  have "sorted_wrt (\<lambda>ys xs. \<forall>x\<in>set xs. \<forall>y\<in>set ys. listed_before self x y) (map bucket_txs ?bs)"
    unfolding sorted_wrt_iff_nth_less using across by simp
  then have "sorted_wrt (\<lambda>xs ys. \<forall>x\<in>set xs. \<forall>y\<in>set ys. listed_before self x y) (map bucket_txs (rev ?bs))"
    by (simp only: rev_map [symmetric] sorted_wrt_rev)
  then show ?thesis unfolding listing_def by (intro sorted_wrt_concat) (auto intro: one)
qed

section \<open>The buckets are determined by what they store\<close>

definition frame :: "priority_buckets \<Rightarrow> priority_bucket list" where
  "frame self = map (\<lambda>b. b\<lparr>bucket_txs := []\<rparr>) (pb_buckets self)"

lemma place_frame: "place self f = position (in_range f) (frame self)"
proof -
  have "position (in_range f) (map (\<lambda>b. b\<lparr>bucket_txs := []\<rparr>) bs) = position (in_range f) bs" for bs
    by (induction bs) simp_all
  then show ?thesis by (simp add: place_def frame_def)
qed

lemma frame_update:
  "frame (self\<lparr>pb_buckets := (pb_buckets self)[i := (pb_buckets self ! i)\<lparr>bucket_txs := ts\<rparr>], hash_index := m\<rparr>) = frame self"
  by (cases "i < length (pb_buckets self)") (simp_all add: frame_def map_update list_update_same_conv list_update_beyond)

lemma frame_step: "pb_step self self' \<Longrightarrow> frame self' = frame self"
proof (induction rule: pb_step.induct)
  case (pb_inserted self tx self' r)
  then show ?case
    by (auto simp: pb_insert_def bucket_insert_def Let_def frame_update split: if_splits option.splits sum.splits)
next
  case (pb_removed self h self' r)
  have "frame (self\<lparr>hash_index := m, pb_buckets := (pb_buckets self)[i := (pb_buckets self ! i)\<lparr>bucket_txs := ts\<rparr>]\<rparr>) = frame self"
    "frame (self\<lparr>hash_index := m, pb_buckets := (pb_buckets self)[i := pb_buckets self ! i]\<rparr>) = frame self" for i ts m
    using frame_update [where self = self and i = i and ts = ts and m = m] by (simp_all add: frame_def)
  with pb_removed show ?case
    by (auto simp: pb_remove_def bucket_remove_def split: if_splits option.splits prod.splits)
next
  case (pb_cleared self)
  then show ?case by (simp add: frame_def pb_clear_def)
qed

lemma frame_reachable: "pb_step\<^sup>*\<^sup>* (priority_buckets_new config) self \<Longrightarrow> frame self = frame (priority_buckets_new config)"
  by (induction rule: rtranclp_induct) (simp_all add: frame_step)

lemma bucket_contents:
  assumes "placed self" and "i < length (pb_buckets self)"
  shows "bucket_txs (pb_buckets self ! i) = filter (\<lambda>tx. place self (pt_fee_rate tx) = Some i) (all_txs self)"
  using filter_concat_place [of "map bucket_txs (pb_buckets self)" "\<lambda>tx. place self (pt_fee_rate tx)" 0 i] assms
  by (simp add: placed_def all_txs_def)

lemma buckets_determined:
  assumes s: "pb_inv s" and t: "pb_inv t" and fr: "frame s = frame t" and st: "stored s = stored t"
  shows "pb_buckets s = pb_buckets t"
proof (rule nth_equalityI)
  have dist: "distinct (map pt_tx_hash (all_txs s))" "distinct (map pt_tx_hash (all_txs t))" and p: "placed s" "placed t"
    using s t by (auto simp: pb_inv_def)
  have pl: "place s = place t" using fr by (auto simp: place_frame)
  show len: "length (pb_buckets s) = length (pb_buckets t)" using fr by (metis frame_def length_map)
  have "set (all_txs s) = set (all_txs t)" using st stored_iff [OF dist(1)] stored_iff [OF dist(2)] by (metis subsetI subset_antisym)
  then have all: "mset (all_txs s) = mset (all_txs t)"
    using dist by (metis distinct_map set_eq_iff_mset_eq_distinct)
  fix i
  assume i: "i < length (pb_buckets s)"
  let ?b = "pb_buckets s ! i" and ?c = "pb_buckets t ! i"
  have "mset (bucket_txs ?b) = mset (bucket_txs ?c)"
    using i all by (simp add: bucket_contents p len pl mset_filter)
  moreover have "kept.in_order (bucket_txs ?b)" "kept.in_order (bucket_txs ?c)" using p i len by (auto simp: placed_def)
  moreover have "inj_on pt_tx_hash (set (all_txs s))" "distinct (all_txs s)" using dist(1) by (auto simp: distinct_map)
  then have "inj_on pt_tx_hash (set (bucket_txs ?b))" "distinct (bucket_txs ?b)"
    using i by (auto simp: bucket_contents p intro: inj_on_subset)
  ultimately have "bucket_txs ?b = bucket_txs ?c"
    by (intro kept.in_order_unique) (auto simp: compare_cases dest: inj_onD)
  moreover have "frame s ! i = frame t ! i" by (simp add: fr)
  then have "?b\<lparr>bucket_txs := []\<rparr> = ?c\<lparr>bucket_txs := []\<rparr>" using i len by (simp add: frame_def)
  ultimately show "?b = ?c" by (cases ?b, cases ?c) simp
qed

section \<open>The consistency check\<close>

lemma check_order_ok: "check_order None txs = Inr () \<longleftrightarrow> length txs \<le> 1"
proof (cases txs)
  case (Cons x xs)
  then show ?thesis by (cases xs) (auto split: cmp.split)
qed simp

lemma check_members_ok:
  "\<forall>tx\<in>set txs. in_range (pt_fee_rate tx) b \<and> (\<forall>j k. fmlookup idx (pt_tx_hash tx) = Some (j, k) \<longrightarrow> j = i)
   \<Longrightarrow> check_members idx i b txs = Inr ()"
  by (induction txs) (auto split: option.splits)

lemma check_buckets_ok:
  assumes "\<forall>j<length bs. check_members idx (i + j) (bs ! j) (bucket_txs (bs ! j)) = Inr ()"
  shows "check_buckets idx i bs = Inr () \<longleftrightarrow> (\<forall>b\<in>set bs. length (bucket_txs b) \<le> 1)"
  using assms
proof (induction bs arbitrary: i)
  case (Cons b bs)
  have "check_members idx i b (bucket_txs b) = Inr ()" using Cons.prems [rule_format, of 0] by simp
  moreover have "\<forall>j<length bs. check_members idx (Suc i + j) (bs ! j) (bucket_txs (bs ! j)) = Inr ()"
    using Cons.prems by (metis Suc_less_eq add_Suc_shift length_Cons nth_Cons_Suc)
  ultimately show ?case
    using Cons.IH [of "Suc i"] check_order_ok [of "bucket_txs b"] by (auto simp: bind_res_eq_Inr)
qed simp

lemma verify_consistency_iff:
  assumes inv: "pb_inv self"
  shows "pb_verify_consistency self = Inr () \<longleftrightarrow> (\<forall>b\<in>set (pb_buckets self). length (bucket_txs b) \<le> 1)"
proof -
  have p: "placed self" and d: "distinct (map pt_tx_hash (all_txs self))" using inv by (auto simp: pb_inv_def)
  have "check_members (hash_index self) i (pb_buckets self ! i) (bucket_txs (pb_buckets self ! i)) = Inr ()"
    if i: "i < length (pb_buckets self)" for i
  proof (rule check_members_ok, intro ballI conjI allI impI)
    fix tx assume tx: "tx \<in> set (bucket_txs (pb_buckets self ! i))"
    then have pl: "place self (pt_fee_rate tx) = Some i" using p i by (auto simp: placed_def)
    then show "in_range (pt_fee_rate tx) (pb_buckets self ! i)" using position_Some by (metis place_def)
    have "tx \<in> set (all_txs self)" using tx i by (auto simp: all_txs_def)
    then have "stored self (pt_tx_hash tx) = Some tx" using stored_iff [OF d] by blast
    then show "j = i" if "fmlookup (hash_index self) (pt_tx_hash tx) = Some (j, k)" for j k
      using indexed_iff(2) [OF inv that] pl by simp
  qed
  then show ?thesis using check_buckets_ok [of "pb_buckets self" "hash_index self" 0] by (simp add: pb_verify_consistency_def)
qed

section \<open>The iterator\<close>

text \<open>What an iterator has still to yield: the buckets in the order of their fee rates, the lowest first.\<close>

definition remaining :: "cross_bucket_iterator \<Rightarrow> prioritized_transaction list" where
  "remaining it = concat (drop (snd it) (fst it))"

lemma cross_next_yields:
  "case cross_next it of (it', Some tx) \<Rightarrow> remaining it = tx # remaining it' | (it', None) \<Rightarrow> remaining it = []"
proof (induction it rule: cross_next.induct)
  case (1 its i)
  show ?case
  proof (cases "i < length its")
    case True
    then have split: "drop i its = its ! i # drop (Suc i) its" by (simp add: Cons_nth_drop_Suc)
    show ?thesis
    proof (cases "its ! i")
      case Nil
      have "remaining (its, i) = remaining (its, Suc i)" using split Nil by (simp add: remaining_def)
      moreover have "cross_next (its, i) = cross_next (its, Suc i)" using True Nil by (simp add: cross_next.simps [of its i])
      ultimately show ?thesis using 1 [OF True Nil] by (simp only:)
    next
      case (Cons tx rest)
      have "drop i (its[i := rest]) = rest # drop (Suc i) its" using Cons_nth_drop_Suc [of i "its[i := rest]"] True by simp
      then show ?thesis using split Cons True by (simp add: cross_next.simps [of its i] remaining_def)
    qed
  qed (simp add: cross_next.simps [of its i] remaining_def)
qed

lemma iterator_ascending: "remaining (iter_ordered self) = concat (map bucket_txs (pb_buckets self))"
  by (simp add: remaining_def iter_ordered_def cross_bucket_iterator_new_def)

section \<open>Which fee rates are refused\<close>

lemma default_place_None: "place (priority_buckets_new priority_ordering_config_default) f = None \<longleftrightarrow> f = - 1"
proof -
  have "f < 1 \<or> 1 \<le> f \<and> f < 10 \<or> 10 \<le> f \<and> f < 100 \<or> 100 \<le> f \<and> f < 1000 \<or> 1000 \<le> f" by (meson not_less)
  moreover have "f < - 1 \<longleftrightarrow> f \<noteq> - 1" by (simp add: word_order.not_eq_extremum)
  ultimately show ?thesis
    by (auto simp: place_def position_None priority_buckets_new_def priority_ordering_config_default_def
      priority_bucket_new_def in_range_def)
qed

section \<open>Properties\<close>

text \<open>the listing does not depend on the order of arrival. Two sets of buckets with the same
  configuration that store the same transactions list them in the same order, whatever sequence of
  insertions, removals and resets led to them.\<close>

theorem listing_depends_on_contents:
  assumes "pb_step\<^sup>*\<^sup>* (priority_buckets_new config) s" and "pb_step\<^sup>*\<^sup>* (priority_buckets_new config) t"
    and "\<forall>h. pb_get s h = pb_get t h"
  shows "pb_get_ordered_transactions s limit = pb_get_ordered_transactions t limit"
proof -
  have inv: "pb_inv s" "pb_inv t" using pb_reachable_inv assms(1,2) by blast+
  have "stored s = stored t" using assms(3) pb_get_stored [OF inv(1)] pb_get_stored [OF inv(2)] by auto
  moreover have "frame s = frame t" using frame_reachable assms(1,2) by metis
  ultimately have "pb_buckets s = pb_buckets t" using buckets_determined inv by blast
  then show ?thesis by (simp add: pb_get_ordered_transactions_def)
qed

text \<open>the listing. A limit that does not overflow the capacity gives the first transactions (at
  least one) of a list of everything that is stored, in which the buckets of higher fee rates come
  first, and within a bucket the transactions of \<^emph>\<open>lower\<close> priority come first.\<close>

theorem listing_order:
  assumes "pb_step\<^sup>*\<^sup>* (priority_buckets_new config) self" and "limit * 64 < 2 ^ 63"
  shows "\<exists>txs. pb_get_ordered_transactions self limit = Some (take (max 1 limit) txs)
    \<and> distinct (map pt_tx_hash txs) \<and> (\<forall>tx. tx \<in> set txs \<longleftrightarrow> pb_get self (pt_tx_hash tx) = Some (Some tx))
    \<and> sorted_wrt (\<lambda>a b. \<exists>i j. position (in_range (pt_fee_rate a)) (pb_buckets self) = Some i
         \<and> position (in_range (pt_fee_rate b)) (pb_buckets self) = Some j
         \<and> (j < i \<or> i = j \<and> (priority_score a < priority_score b
              \<or> priority_score a = priority_score b \<and> pt_tx_hash b < pt_tx_hash a))) txs"
proof -
  have inv: "pb_inv self" using pb_reachable_inv assms(1) by blast
  then have d: "distinct (map pt_tx_hash (all_txs self))" by (simp add: pb_inv_def)
  have "distinct (map pt_tx_hash (listing self))"
    using d mset_listing [of self] by (metis mset_eq_imp_distinct_iff mset_map)
  moreover have "tx \<in> set (listing self) \<longleftrightarrow> pb_get self (pt_tx_hash tx) = Some (Some tx)" for tx
    using mset_eq_setD [OF mset_listing [of self]] stored_iff [OF d] by (simp add: pb_get_stored [OF inv])
  moreover have "pb_get_ordered_transactions self limit = Some (take (max 1 limit) (listing self))"
    using assms(2) by (simp add: ordered_is_listing with_capacity_ok_def)
  ultimately show ?thesis
    using listing_sorted [OF inv] unfolding listed_before_def place_def compare_cases by blast
qed

text \<open>the buckets are a map from hashes to transactions. Look-ups and removals never read outside
  the buckets and return what is stored, a fresh insertion adds one entry and a removal drops one;
  an insertion is accepted exactly when some bucket covers the fee rate.\<close>

theorem buckets_refine_map:
  assumes "pb_step\<^sup>*\<^sup>* (priority_buckets_new config) self"
  shows "pb_get self h = Some (stored self h) \<and> (pb_contains self h \<longleftrightarrow> stored self h \<noteq> None)
    \<and> total_count self = card (dom (stored self))
    \<and> (\<exists>self'. pb_remove self h = Some (self', stored self h) \<and> stored self' = (stored self)(h := None))
    \<and> (\<forall>tx self'. stored self (pt_tx_hash tx) = None \<and> pb_insert self tx = (self', Inr ())
         \<longrightarrow> stored self' = (stored self)(pt_tx_hash tx \<mapsto> tx))
    \<and> (\<forall>tx. deterministic_ordering (pb_config self) \<longrightarrow>
         (is_ok (snd (pb_insert self tx)) \<longleftrightarrow> (\<exists>b\<in>set (pb_buckets self). in_range (pt_fee_rate tx) b)))
    \<and> stored (pb_clear self) = Map.empty"
proof -
  have inv: "pb_inv self" using pb_reachable_inv assms(1) by blast
  obtain self' where "pb_remove self h = Some (self', stored self h)" "stored self' = (stored self)(h := None)"
    using pb_remove_effect [OF inv] by blast
  moreover have "is_ok (snd (pb_insert self tx)) \<longleftrightarrow> (\<exists>b\<in>set (pb_buckets self). in_range (pt_fee_rate tx) b)"
    if det: "deterministic_ordering (pb_config self)" for tx
  proof (cases "place self (pt_fee_rate tx)")
    case None
    then show ?thesis using det position_None [of "in_range (pt_fee_rate tx)" "pb_buckets self"] by (simp add: pb_insert_def place_def)
  next
    case (Some i)
    then have "i < length (pb_buckets self) \<and> in_range (pt_fee_rate tx) (pb_buckets self ! i)"
      unfolding place_def by (rule position_Some)
    then have "\<exists>b\<in>set (pb_buckets self). in_range (pt_fee_rate tx) b" by (metis nth_mem)
    moreover have "is_ok (snd (pb_insert self tx))" by (rule pb_insert_effect [OF det Some]) simp
    ultimately show ?thesis by simp
  qed
  ultimately show ?thesis
    using pb_get_stored [OF inv] pb_contains_iff [OF inv] pb_insert_fresh(2) [OF inv] pb_clear_effect(2) total_count_stored [OF inv]
    by blast
qed

text \<open>the consistency check refuses every state in which some bucket holds two transactions, and
  accepts exactly the others: both arms of its comparison of neighbours are errors.\<close>

theorem consistency_check_verdict:
  assumes "pb_step\<^sup>*\<^sup>* (priority_buckets_new config) self"
  shows "is_ok (pb_verify_consistency self) \<longleftrightarrow> (\<forall>n\<in>set (bucket_counts self). n \<le> 1)"
proof -
  have "pb_inv self" using pb_reachable_inv assms(1) by blast
  from verify_consistency_iff [OF this] show ?thesis by (auto simp: is_ok_iff bucket_counts_def)
qed

section \<open>Witnesses\<close>

definition demo_ptx :: "u8 \<Rightarrow> u64 \<Rightarrow> prioritized_transaction" where
  "demo_ptx n fee_rate = prioritized_transaction_new [n] fee_rate 0 100 500"

definition demo_buckets :: "prioritized_transaction list \<Rightarrow> priority_buckets" where
  "demo_buckets txs = fold (\<lambda>tx s. fst (pb_insert s tx)) txs (priority_buckets_new priority_ordering_config_default)"

lemma demo_buckets_reachable:
  assumes "distinct (map pt_tx_hash txs)" and "\<forall>tx\<in>set txs. pt_fee_rate tx \<noteq> - 1"
  shows "pb_step\<^sup>*\<^sup>* (priority_buckets_new priority_ordering_config_default) (demo_buckets txs)
    \<and> deterministic_ordering (pb_config (demo_buckets txs))
    \<and> (\<forall>h t. stored (demo_buckets txs) h = Some t \<longleftrightarrow> t \<in> set txs \<and> pt_tx_hash t = h)"
  using assms
proof (induction txs rule: rev_induct)
  case Nil
  then show ?case
    using pb_inv_new(2) [of priority_ordering_config_default]
    by (simp add: demo_buckets_def) (simp add: priority_buckets_new_def priority_ordering_config_default_def)
next
  case (snoc tx txs)
  let ?s = "demo_buckets txs"
  have reach: "pb_step\<^sup>*\<^sup>* (priority_buckets_new priority_ordering_config_default) ?s"
    and det: "deterministic_ordering (pb_config ?s)"
    and st: "\<And>h t. stored ?s h = Some t \<longleftrightarrow> t \<in> set txs \<and> pt_tx_hash t = h" using snoc by auto
  have inv: "pb_inv ?s" using pb_reachable_inv [OF reach] by blast
  have fresh: "stored ?s (pt_tx_hash tx) = None"
  proof (rule ccontr)
    assume "stored ?s (pt_tx_hash tx) \<noteq> None"
    then obtain t where "t \<in> set txs" "pt_tx_hash t = pt_tx_hash tx" using st by blast
    with snoc.prems(1) show False by (auto simp: image_iff)
  qed
  have "place ?s (pt_fee_rate tx) \<noteq> None"
    using pb_reachable_inv [OF reach] default_place_None snoc.prems(2) by simp
  then obtain i where i: "place ?s (pt_fee_rate tx) = Some i" by blast
  obtain s' where run: "pb_insert ?s tx = (s', Inr ())" "pb_config s' = pb_config ?s" by (rule pb_insert_effect [OF det i]) auto
  have step: "pb_step ?s s'" using run fresh pb_contains_iff [OF inv] by (intro pb_inserted) auto
  have "stored s' h = Some t \<longleftrightarrow> t \<in> insert tx (set txs) \<and> pt_tx_hash t = h" for h t
    using st snoc.prems(1) by (auto simp: pb_insert_fresh(2) [OF inv fresh run(1)] image_iff)
  moreover have "demo_buckets (txs @ [tx]) = s'" using run by (simp add: demo_buckets_def)
  ultimately show ?case using reach step det run(2) by auto
qed

lemma demo_score: "priority_score (demo_ptx 1 500) = 50000 * 2 ^ 60" "priority_score (demo_ptx 2 200) = 20000 * 2 ^ 60"
  by (simp_all add: demo_ptx_def prioritized_transaction_new_def priority_score_of_def f64_round_def bit_len.simps round_half_even_def)

definition demo_a :: priority_buckets where
  "demo_a = demo_buckets [demo_ptx 1 500, demo_ptx 2 200]"

definition demo_b :: priority_buckets where
  "demo_b = demo_buckets [demo_ptx 2 200, demo_ptx 1 500]"

lemma demo_fields [simp]: "pt_tx_hash (demo_ptx n f) = [n]" "pt_fee_rate (demo_ptx n f) = f"
  by (simp_all add: demo_ptx_def prioritized_transaction_new_def)

lemma demo_reach:
  "pb_step\<^sup>*\<^sup>* (priority_buckets_new priority_ordering_config_default) demo_a"
  "pb_step\<^sup>*\<^sup>* (priority_buckets_new priority_ordering_config_default) demo_b"
  "stored demo_a h = Some t \<longleftrightarrow> t \<in> {demo_ptx 1 500, demo_ptx 2 200} \<and> pt_tx_hash t = h"
  "stored demo_b h = Some t \<longleftrightarrow> t \<in> {demo_ptx 1 500, demo_ptx 2 200} \<and> pt_tx_hash t = h"
  using demo_buckets_reachable [of "[demo_ptx 1 500, demo_ptx 2 200]"] demo_buckets_reachable [of "[demo_ptx 2 200, demo_ptx 1 500]"]
  by (auto simp: demo_a_def demo_b_def)

lemma demo_counts: "bucket_counts demo_a = [0, 0, 0, 2, 0]"
  by (simp add: demo_a_def demo_buckets_def demo_ptx_def prioritized_transaction_new_def bucket_counts_def pb_insert_def
    priority_buckets_new_def priority_ordering_config_default_def priority_bucket_new_def in_range_def bucket_insert_def)

lemma demo_get: "pb_get demo_a h = Some (stored demo_a h)" "pb_get demo_b h = Some (stored demo_b h)"
  using pb_get_stored pb_reachable_inv demo_reach(1,2) by blast+

theorem listing_depends_on_contents_witness:
  "pb_get_ordered_transactions demo_a 5 = pb_get_ordered_transactions demo_b 5"
proof (rule listing_depends_on_contents [OF demo_reach(1,2)])
  have "stored demo_a h = stored demo_b h" for h using demo_reach(3,4) [of h] by (metis not_Some_eq)
  then show "\<forall>h. pb_get demo_a h = pb_get demo_b h" by (simp add: demo_get)
qed

theorem listing_order_witness: "pb_get_ordered_transactions demo_a 1 = Some [demo_ptx 2 200]"
proof -
  obtain txs where out: "pb_get_ordered_transactions demo_a 1 = Some (take 1 txs)"
    and set: "\<And>tx. tx \<in> set txs \<longleftrightarrow> pb_get demo_a (pt_tx_hash tx) = Some (Some tx)"
    and sorted: "sorted_wrt (\<lambda>a b. \<exists>i j. position (in_range (pt_fee_rate a)) (pb_buckets demo_a) = Some i
         \<and> position (in_range (pt_fee_rate b)) (pb_buckets demo_a) = Some j
         \<and> (j < i \<or> i = j \<and> (priority_score a < priority_score b
              \<or> priority_score a = priority_score b \<and> pt_tx_hash b < pt_tx_hash a))) txs"
    using listing_order [OF demo_reach(1), of 1] by auto
  have mem: "tx \<in> set txs \<longleftrightarrow> tx = demo_ptx 1 500 \<or> tx = demo_ptx 2 200" for tx
    using set [of tx] demo_reach(3) [of "pt_tx_hash tx" tx] by (auto simp: demo_get)
  have "place demo_a f = place (priority_buckets_new priority_ordering_config_default) f" for f
    using pb_reachable_inv [OF demo_reach(1)] by simp
  then have pl: "position (in_range 500) (pb_buckets demo_a) = Some 3" "position (in_range 200) (pb_buckets demo_a) = Some 3"
    by (simp_all add: place_def priority_buckets_new_def priority_ordering_config_default_def priority_bucket_new_def in_range_def)
  obtain x rest where txs: "txs = x # rest" using mem by (cases txs) auto
  have "x \<noteq> demo_ptx 1 500"
  proof
    assume x: "x = demo_ptx 1 500"
    have "pt_tx_hash (demo_ptx 2 200) \<noteq> pt_tx_hash x" by (simp add: x)
    then have "demo_ptx 2 200 \<noteq> x" by metis
    then have "demo_ptx 2 200 \<in> set rest" using mem [of "demo_ptx 2 200"] txs by auto
    with sorted txs x pl show False by (auto simp: demo_score)
  qed
  with mem [of x] txs have "x = demo_ptx 2 200" by auto
  with out txs show ?thesis by simp
qed

theorem buckets_refine_map_witness:
  "pb_get demo_a [1] = Some (Some (demo_ptx 1 500)) \<and> (\<exists>s. pb_remove demo_a [1] = Some (s, Some (demo_ptx 1 500)))"
proof -
  have "stored demo_a [1] = Some (demo_ptx 1 500)" by (simp add: demo_reach(3))
  with buckets_refine_map [OF demo_reach(1), of "[1]"] show ?thesis by auto
qed

theorem consistency_check_verdict_witness: "\<not> is_ok (pb_verify_consistency demo_a)"
  using consistency_check_verdict [OF demo_reach(1)] by (simp add: demo_counts)

end
