(* ===== verification/Deterministic_Ordering.thy ===== *)
theory Deterministic_Ordering
  imports Priority_Ordering
begin

text \<open>
  The ordering that nodes compare with their peers:
  \<open>klomang-node/src/mempool/deterministic_ordering.rs\<close>, on top of the fee buckets. Of the store only its
  presence matters. A panic is \<open>None\<close>.
\<close>

section \<open>Data\<close>

record deterministic_ordering_engine_config =
  validate_ordering :: bool
  batch_size :: nat
  use_storage_verification :: bool

definition deterministic_ordering_engine_config_default :: deterministic_ordering_engine_config where
  "deterministic_ordering_engine_config_default =
     \<lparr>validate_ordering = True, batch_size = 100, use_storage_verification = True\<rparr>"

record ordering_validation =
  ov_is_valid :: bool
  ov_error_message :: "string option"
  ov_transaction_count :: nat
  ov_storage_verified :: bool

definition ov_success :: "nat \<Rightarrow> bool \<Rightarrow> ordering_validation" where
  "ov_success n verified = \<lparr>ov_is_valid = True, ov_error_message = None, ov_transaction_count = n, ov_storage_verified = verified\<rparr>"

definition ov_failure :: "string \<Rightarrow> nat \<Rightarrow> ordering_validation" where
  "ov_failure error n = \<lparr>ov_is_valid = False, ov_error_message = Some error, ov_transaction_count = n, ov_storage_verified = False\<rparr>"

record deterministic_ordering_engine =
  de_buckets :: priority_buckets
  de_kv_store :: bool
  de_config :: deterministic_ordering_engine_config

definition deterministic_ordering_engine_new :: "deterministic_ordering_engine_config \<Rightarrow> deterministic_ordering_engine" where
  "deterministic_ordering_engine_new config =
     \<lparr>de_buckets = priority_buckets_new priority_ordering_config_default, de_kv_store = False, de_config = config\<rparr>"

definition with_storage :: "deterministic_ordering_engine_config \<Rightarrow> deterministic_ordering_engine" where
  "with_storage config =
     \<lparr>de_buckets = priority_buckets_new priority_ordering_config_default, de_kv_store = True, de_config = config\<rparr>"

definition set_storage :: "deterministic_ordering_engine \<Rightarrow> deterministic_ordering_engine" where
  "set_storage self = self\<lparr>de_kv_store := True\<rparr>"

section \<open>Operations\<close>

definition de_add_transaction ::
    "deterministic_ordering_engine \<Rightarrow> bytes \<Rightarrow> u64 \<Rightarrow> u64 \<Rightarrow> nat \<Rightarrow> u64 \<Rightarrow> deterministic_ordering_engine \<times> (string + unit)" where
  "de_add_transaction self h fee_rate arrival_time n fee =
     (case pb_insert (de_buckets self) (prioritized_transaction_new h fee_rate arrival_time n fee) of
        (b, r) \<Rightarrow> (self\<lparr>de_buckets := b\<rparr>, r))"

definition de_remove_transaction ::
    "deterministic_ordering_engine \<Rightarrow> bytes \<Rightarrow> (deterministic_ordering_engine \<times> prioritized_transaction option) option" where
  "de_remove_transaction self h = map_option (\<lambda>(b, r). (self\<lparr>de_buckets := b\<rparr>, r)) (pb_remove (de_buckets self) h)"

definition de_get_ordered_transactions :: "deterministic_ordering_engine \<Rightarrow> nat \<Rightarrow> (string + prioritized_transaction list) option" where
  "de_get_ordered_transactions self limit = map_option Inr (pb_get_ordered_transactions (de_buckets self) limit)"

definition verify_ordering_consistency :: "deterministic_ordering_engine \<Rightarrow> string + ordering_validation" where
  "verify_ordering_consistency self =
     bind_res (map_err (\<lambda>_. ''Bucket consistency check failed: {}'') (pb_verify_consistency (de_buckets self)))
       (\<lambda>_. Inr (ov_success (total_count (de_buckets self)) (use_storage_verification (de_config self) \<and> de_kv_store self)))"

text \<open>The loop over the pairs; \<open>idx\<close> is the position.\<close>

fun compare_peers :: "nat \<Rightarrow> (prioritized_transaction \<times> prioritized_transaction) list \<Rightarrow> ordering_validation option" where
  "compare_peers idx [] = None"
| "compare_peers idx ((our_tx, peer_tx) # rest) =
     (if pt_tx_hash our_tx \<noteq> pt_tx_hash peer_tx then Some (ov_failure ''Transaction mismatch at position {}'' idx)
      else if compare_deterministic our_tx peer_tx \<noteq> Equal
      then Some (ov_failure ''Deterministic comparison failed at position {}: {:?}'' idx)
      else compare_peers (Suc idx) rest)"

definition validate_against_peer ::
    "deterministic_ordering_engine \<Rightarrow> prioritized_transaction list \<Rightarrow> (string + ordering_validation) option" where
  "validate_against_peer self peer =
     map_option (\<lambda>r. bind_res r (\<lambda>our.
       if length our \<noteq> length peer then Inr (ov_failure ''Transaction count mismatch: {} vs {}'' (length our))
       else case compare_peers 0 (zip our peer) of
         Some failure \<Rightarrow> Inr failure
       | None \<Rightarrow> Inr (ov_success (length our) False)))
     (de_get_ordered_transactions self (length peer))"

type_synonym batch_item = "bytes \<times> u64 \<times> u64 \<times> nat \<times> u64"

fun process_batch_loop :: "deterministic_ordering_engine \<Rightarrow> nat \<Rightarrow> batch_item list \<Rightarrow> deterministic_ordering_engine \<times> (string + nat)" where
  "process_batch_loop self added [] = (self, Inr added)"
| "process_batch_loop self added ((h, fee_rate, arrival_time, n, fee) # rest) =
     (case de_add_transaction self h fee_rate arrival_time n fee of
        (self', Inl e) \<Rightarrow> (self', Inl e)
      | (self', Inr _) \<Rightarrow> process_batch_loop self' (added + 1) rest)"

definition process_batch :: "deterministic_ordering_engine \<Rightarrow> batch_item list \<Rightarrow> deterministic_ordering_engine \<times> (string + nat)" where
  "process_batch self transactions = process_batch_loop self 0 transactions"

record ordering_stats =
  os_total_transactions :: nat
  os_total_fees :: u64
  os_bucket_count :: nat
  os_bucket_distribution :: "nat list"

definition get_ordering_stats :: "deterministic_ordering_engine \<Rightarrow> string + ordering_stats" where
  "get_ordering_stats self =
     (let stats = get_statistics (de_buckets self) in
      Inr \<lparr>os_total_transactions = bs_total_transactions stats, os_total_fees = bs_total_fees stats,
           os_bucket_count = bucket_count (de_buckets self),
           os_bucket_distribution = map bi_transaction_count (bs_bucket_info stats)\<rparr>)"

definition de_contains :: "deterministic_ordering_engine \<Rightarrow> bytes \<Rightarrow> bool" where
  "de_contains self h = pb_contains (de_buckets self) h"

definition de_get_transaction :: "deterministic_ordering_engine \<Rightarrow> bytes \<Rightarrow> prioritized_transaction option option" where
  "de_get_transaction self h = pb_get (de_buckets self) h"

definition de_clear :: "deterministic_ordering_engine \<Rightarrow> deterministic_ordering_engine \<times> (string + unit)" where
  "de_clear self = (self\<lparr>de_buckets := pb_clear (de_buckets self)\<rparr>, Inr ())"

definition get_fee_thresholds :: "deterministic_ordering_engine \<Rightarrow> u64 list" where
  "get_fee_thresholds self = fee_thresholds (de_buckets self)"

text \<open>\<open>usize::MAX\<close> is \<open>2 ^ 64 - 1\<close>.\<close>

definition export_ordered_snapshot :: "deterministic_ordering_engine \<Rightarrow> (string + prioritized_transaction list) option" where
  "export_ordered_snapshot self = de_get_ordered_transactions self (2 ^ 64 - 1)"

fun import_loop :: "deterministic_ordering_engine \<Rightarrow> prioritized_transaction list \<Rightarrow> deterministic_ordering_engine \<times> (string + unit)" where
  "import_loop self [] = (self, Inr ())"
| "import_loop self (tx # txs) =
     (case de_add_transaction self (pt_tx_hash tx) (pt_fee_rate tx) (pt_arrival_time tx) (pt_size_bytes tx) (pt_total_fee tx) of
        (self', Inl e) \<Rightarrow> (self', Inl e)
      | (self', Inr _) \<Rightarrow> import_loop self' txs)"

definition import_ordered_batch :: "deterministic_ordering_engine \<Rightarrow> prioritized_transaction list \<Rightarrow> deterministic_ordering_engine \<times> (string + nat)" where
  "import_ordered_batch self txs =
     (case import_loop self txs of
        (self', Inl e) \<Rightarrow> (self', Inl e)
      | (self', Inr _) \<Rightarrow> (self', Inr (total_count (de_buckets self'))))"

section \<open>Histories\<close>

inductive de_step :: "deterministic_ordering_engine \<Rightarrow> deterministic_ordering_engine \<Rightarrow> bool" where
  de_added: "\<not> de_contains self h \<Longrightarrow> de_add_transaction self h fee_rate arrival_time n fee = (self', r) \<Longrightarrow> de_step self self'"
| de_removed: "de_remove_transaction self h = Some (self', r) \<Longrightarrow> de_step self self'"
| de_cleared: "de_step self (fst (de_clear self))"
| de_stored: "de_step self (set_storage self)"

lemma de_step_buckets: "de_step self self' \<Longrightarrow> pb_step\<^sup>*\<^sup>* (de_buckets self) (de_buckets self')"
proof (induction rule: de_step.induct)
  case (de_added self h fee_rate arrival_time n fee self' r)
  let ?tx = "prioritized_transaction_new h fee_rate arrival_time n fee"
  have "pb_insert (de_buckets self) ?tx = (de_buckets self', r)"
    using de_added(2) by (auto simp: de_add_transaction_def split: prod.splits)
  moreover have "pt_tx_hash ?tx = h" by (simp add: prioritized_transaction_new_def)
  ultimately show ?case using de_added(1) by (intro r_into_rtranclp pb_inserted [of _ ?tx]) (simp_all add: de_contains_def)
next
  case (de_removed self h self' r)
  then have "pb_remove (de_buckets self) h = Some (de_buckets self', r)" by (auto simp: de_remove_transaction_def)
  then show ?case by (intro r_into_rtranclp pb_removed)
next
  case (de_cleared self)
  then show ?case by (simp add: de_clear_def pb_cleared r_into_rtranclp)
next
  case (de_stored self)
  then show ?case by (simp add: set_storage_def)
qed

lemma de_reachable_buckets:
  assumes "de_step\<^sup>*\<^sup>* (deterministic_ordering_engine_new config) self"
  shows "pb_step\<^sup>*\<^sup>* (priority_buckets_new priority_ordering_config_default) (de_buckets self)"
  using assms
proof (induction rule: rtranclp_induct)
  case base
  then show ?case by (simp add: deterministic_ordering_engine_new_def)
next
  case (step s t)
  from step.IH de_step_buckets [OF step.hyps(2)] show ?case by (rule rtranclp_trans)
qed

lemma compare_peers_same: "compare_peers idx (zip txs txs) = None"
  by (induction txs arbitrary: idx) (simp_all add: compare_cases)

lemma ordered_prefix:
  assumes "pb_get_ordered_transactions b limit = Some txs"
  shows "pb_get_ordered_transactions b (length txs) = Some txs"
proof -
  have cap: "limit * 64 < 2 ^ 63" and txs: "txs = take (max 1 limit) (listing b)"
    using assms by (auto simp: ordered_is_listing with_capacity_ok_def split: if_splits)
  have "length txs \<le> max 1 limit" by (simp add: txs)
  then have "length txs * 64 < 2 ^ 63" using cap by (auto simp: max_def split: if_splits)
  moreover have "take (max 1 (length txs)) (listing b) = txs"
  proof (cases "listing b")
    case (Cons x xs)
    then have "1 \<le> length txs" by (simp add: txs max_def)
    then have "max 1 (length txs) = length txs" by simp
    moreover have "take (length (take m xs)) xs = take m xs" for m and xs :: "prioritized_transaction list"
      by (metis append_eq_conv_conj append_take_drop_id)
    ultimately show ?thesis using txs by metis
  qed (simp add: txs)
  ultimately show ?thesis by (simp add: ordered_is_listing with_capacity_ok_def)
qed

section \<open>Properties\<close>

text \<open>C28: two engines that hold the same transactions agree. Whatever additions of hashes that are not
  stored at that moment, removals, clearings and attachments of a storage led to them, in whatever
  order, any listing one engine produces is accepted by the other as its own; and an engine that
  holds a transaction refuses the empty listing. Adding a hash that is stored already is left out:
  it stores the transaction twice.\<close>

theorem peers_agree:
  assumes "de_step\<^sup>*\<^sup>* (deterministic_ordering_engine_new c) e" and "de_step\<^sup>*\<^sup>* (deterministic_ordering_engine_new c') e'"
    and "\<forall>h. de_get_transaction e h = de_get_transaction e' h"
    and "de_get_ordered_transactions e' limit = Some (Inr txs)"
  shows "validate_against_peer e txs = Some (Inr (ov_success (length txs) False))
    \<and> (de_contains e h \<longrightarrow> validate_against_peer e [] = Some (Inr (ov_failure ''Transaction count mismatch: {} vs {}'' 1)))"
proof -
  have reach: "pb_step\<^sup>*\<^sup>* (priority_buckets_new priority_ordering_config_default) (de_buckets e)"
    "pb_step\<^sup>*\<^sup>* (priority_buckets_new priority_ordering_config_default) (de_buckets e')"
    using de_reachable_buckets assms(1,2) by blast+
  have inv: "pb_inv (de_buckets e)" "pb_inv (de_buckets e')" using pb_reachable_inv reach by blast+
  have "stored (de_buckets e) = stored (de_buckets e')"
    using assms(3) pb_get_stored [OF inv(1)] pb_get_stored [OF inv(2)] by (auto simp: de_get_transaction_def)
  then have bs: "pb_buckets (de_buckets e) = pb_buckets (de_buckets e')"
    using buckets_determined [OF inv] frame_reachable [OF reach(1)] frame_reachable [OF reach(2)] by simp
  have "pb_get_ordered_transactions (de_buckets e) limit = Some txs"
    using assms(4) bs by (auto simp: de_get_ordered_transactions_def pb_get_ordered_transactions_def split: if_splits)
  from ordered_prefix [OF this] have "validate_against_peer e txs = Some (Inr (ov_success (length txs) False))"
    by (simp add: validate_against_peer_def de_get_ordered_transactions_def compare_peers_same)
  moreover have "validate_against_peer e [] = Some (Inr (ov_failure ''Transaction count mismatch: {} vs {}'' 1))" if "de_contains e h"
  proof -
    have "stored (de_buckets e) h \<noteq> None" using that pb_contains_iff [OF inv(1)] by (simp add: de_contains_def)
    then have "all_txs (de_buckets e) \<noteq> []" by (auto simp: stored_def)
    then have "listing (de_buckets e) \<noteq> []" using mset_listing [of "de_buckets e"] by auto
    moreover from this have "length (take 1 (listing (de_buckets e))) = 1" by (cases "listing (de_buckets e)") simp_all
    ultimately show ?thesis
      by (simp add: validate_against_peer_def de_get_ordered_transactions_def ordered_is_listing with_capacity_ok_def)
  qed
  ultimately show ?thesis by blast
qed

text \<open>the export of a snapshot always panics: it asks for a vector of \<open>usize::MAX\<close> entries.\<close>

theorem export_always_panics: "export_ordered_snapshot self = None"
  by (simp add: export_ordered_snapshot_def de_get_ordered_transactions_def ordered_is_listing with_capacity_ok_def)

section \<open>Witnesses\<close>

definition demo_engine :: "prioritized_transaction list \<Rightarrow> deterministic_ordering_engine" where
  "demo_engine txs = (deterministic_ordering_engine_new deterministic_ordering_engine_config_default)
     \<lparr>de_buckets := demo_buckets txs\<rparr>"

lemma demo_engine_reachable:
  assumes "distinct (map fst nfs)" and "\<forall>(n, f)\<in>set nfs. f \<noteq> - 1"
  shows "de_step\<^sup>*\<^sup>* (deterministic_ordering_engine_new deterministic_ordering_engine_config_default)
    (demo_engine (map (\<lambda>(n, f). demo_ptx n f) nfs))"
  using assms
proof (induction nfs rule: rev_induct)
  case Nil
  then show ?case by (simp add: demo_engine_def demo_buckets_def deterministic_ordering_engine_new_def)
next
  case (snoc nf nfs)
  obtain n f where nf: "nf = (n, f)" by force
  let ?txs = "map (\<lambda>(n, f). demo_ptx n f) nfs"
  have "map pt_tx_hash ?txs = map (\<lambda>n. [n]) (map fst nfs)" by auto
  then have "distinct (map pt_tx_hash ?txs)" using snoc.prems(1) by (simp add: distinct_map inj_on_def)
  moreover have "\<forall>tx\<in>set ?txs. pt_fee_rate tx \<noteq> - 1" using snoc.prems(2) by auto
  ultimately have st: "pb_step\<^sup>*\<^sup>* (priority_buckets_new priority_ordering_config_default) (demo_buckets ?txs)"
    "\<And>h t. stored (demo_buckets ?txs) h = Some t \<longleftrightarrow> t \<in> set ?txs \<and> pt_tx_hash t = h"
    using demo_buckets_reachable by blast+
  have "stored (demo_buckets ?txs) [n] = None"
  proof (rule ccontr)
    assume "stored (demo_buckets ?txs) [n] \<noteq> None"
    then obtain t where "t \<in> set ?txs" "pt_tx_hash t = [n]" using st(2) by blast
    then have "n \<in> fst ` set nfs" by (force simp: image_iff)
    with snoc.prems(1) nf show False by simp
  qed
  then have "\<not> de_contains (demo_engine ?txs) [n]"
    using pb_contains_iff pb_reachable_inv [OF st(1)] by (simp add: de_contains_def demo_engine_def)
  moreover have "de_add_transaction (demo_engine ?txs) [n] f 0 100 500
      = (demo_engine (map (\<lambda>(n, f). demo_ptx n f) (nfs @ [nf])), snd (pb_insert (demo_buckets ?txs) (demo_ptx n f)))"
    by (simp add: de_add_transaction_def demo_engine_def demo_buckets_def nf split: prod.splits)
      (simp add: demo_ptx_def)
  ultimately have "de_step (demo_engine ?txs) (demo_engine (map (\<lambda>(n, f). demo_ptx n f) (nfs @ [nf])))"
    by (rule de_added)
  with snoc show ?case by (simp add: rtranclp.rtrancl_into_rtrancl)
qed

theorem peers_agree_witness:
  "\<exists>txs. de_get_ordered_transactions (demo_engine [demo_ptx 2 200, demo_ptx 1 500]) 3 = Some (Inr txs)
     \<and> validate_against_peer (demo_engine [demo_ptx 1 500, demo_ptx 2 200]) txs = Some (Inr (ov_success (length txs) False))"
proof -
  let ?e = "demo_engine [demo_ptx 1 500, demo_ptx 2 200]" and ?e' = "demo_engine [demo_ptx 2 200, demo_ptx 1 500]"
  obtain txs where txs: "de_get_ordered_transactions ?e' 3 = Some (Inr txs)"
    by (simp add: de_get_ordered_transactions_def ordered_is_listing with_capacity_ok_def)
  have reach: "de_step\<^sup>*\<^sup>* (deterministic_ordering_engine_new deterministic_ordering_engine_config_default) ?e"
    "de_step\<^sup>*\<^sup>* (deterministic_ordering_engine_new deterministic_ordering_engine_config_default) ?e'"
    using demo_engine_reachable [of "[(1, 500), (2, 200)]"] demo_engine_reachable [of "[(2, 200), (1, 500)]"] by simp_all
  have "stored demo_a h = stored demo_b h" for h using demo_reach(3,4) [of h] by (metis not_Some_eq)
  then have "\<forall>h. de_get_transaction ?e h = de_get_transaction ?e' h"
    using demo_get by (simp add: de_get_transaction_def demo_engine_def demo_a_def demo_b_def)
  from peers_agree [OF reach this txs] txs show ?thesis by blast
qed

end
