(* ===== verification/Multi_Index.thy ===== *)
theory Multi_Index
  imports Prelude "HOL-Library.Product_Lexorder"
begin

text \<open>
  The index of pending transactions by fee, by time and by number of dependents:
  \<open>klomang-node/src/mempool/multi_dimensional_index.rs\<close>. A \<open>BTreeMap\<close> is a finite map that is read in
  the order of its keys; the order in which the hash map is read is the argument \<open>iter\<close>.
\<close>

section \<open>Reversed order\<close>

text \<open>\<open>std::cmp::Reverse\<close>.\<close>

datatype 'a reverse = Reverse (unreverse: 'a)

instantiation reverse :: (linorder) linorder
begin

definition less_eq_reverse :: "'a reverse \<Rightarrow> 'a reverse \<Rightarrow> bool" where
  "less_eq_reverse a b \<longleftrightarrow> unreverse b \<le> unreverse a"

definition less_reverse :: "'a reverse \<Rightarrow> 'a reverse \<Rightarrow> bool" where
  "less_reverse a b \<longleftrightarrow> unreverse b < unreverse a"

instance
  by standard (auto simp: less_eq_reverse_def less_reverse_def reverse.expand)

end

section \<open>Secondary indexes\<close>

text \<open>A map from (key, hash) to values that mirrors a map from hashes to values.\<close>

definition btree_values :: "('k::linorder, 'v) fmap \<Rightarrow> 'v list" where
  "btree_values m = map snd (sorted_list_of_fmap m)"

definition mirrors :: "('v \<Rightarrow> 'k) \<Rightarrow> ('i, 'v) fmap \<Rightarrow> ('k \<times> 'i, 'v) fmap \<Rightarrow> bool" where
  "mirrors key prim idx \<longleftrightarrow> (\<forall>k i v. fmlookup idx (k, i) = Some v \<longleftrightarrow> fmlookup prim i = Some v \<and> key v = k)"

lemma mirrors_empty: "mirrors key fmempty fmempty"
  by (simp add: mirrors_def)

lemma mirrors_insert:
  assumes "mirrors key prim idx" and "fmlookup prim i = None"
  shows "mirrors key (fmupd i v prim) (fmupd (key v, i) v idx)"
  using assms by (auto simp: mirrors_def split: if_splits)

lemma mirrors_remove:
  assumes "mirrors key prim idx" and "fmlookup prim i = Some v"
  shows "mirrors key (fmdrop i prim) (fmdrop (key v, i) idx)"
  using assms by (auto simp: mirrors_def split: if_splits)

lemma sorted_list_of_fmap_props:
  "set (sorted_list_of_fmap m) = {(k, v). fmlookup m k = Some v}" "sorted (map fst (sorted_list_of_fmap m))"
  "distinct (map fst (sorted_list_of_fmap m))"
proof -
  have keys: "map fst (sorted_list_of_fmap m) = sorted_list_of_fset (fmdom m)"
    by (simp add: sorted_list_of_fmap_def o_def)
  then show "sorted (map fst (sorted_list_of_fmap m))" "distinct (map fst (sorted_list_of_fmap m))" by simp_all
  show "set (sorted_list_of_fmap m) = {(k, v). fmlookup m k = Some v}"
    by (auto simp: sorted_list_of_fmap_def sorted_list_of_fset.rep_eq image_iff fmdomI)
qed

text \<open>\<open>answers\<close>: exactly the stored values with a property, each once, in the order of a key.\<close>

definition answers :: "('i, 'v) fmap \<Rightarrow> ('v \<Rightarrow> bool) \<Rightarrow> ('v \<Rightarrow> 'k::linorder) \<Rightarrow> 'v list \<Rightarrow> bool" where
  "answers prim P key vs \<longleftrightarrow> set vs = {v. P v \<and> (\<exists>i. fmlookup prim i = Some v)} \<and> distinct vs \<and> sorted (map key vs)"

lemma answers_values:
  fixes prim :: "('i::linorder, 'v) fmap" and idx :: "('k::linorder \<times> 'i, 'v) fmap"
  assumes m: "mirrors key prim idx" and inj: "\<And>i v. fmlookup prim i = Some v \<Longrightarrow> ident v = i"
  shows "answers prim (\<lambda>_. True) key (btree_values idx)"
proof -
  let ?l = "sorted_list_of_fmap idx"
  have mem: "((k, i), v) \<in> set ?l \<longleftrightarrow> fmlookup prim i = Some v \<and> key v = k" for k i v
    using m by (simp add: sorted_list_of_fmap_props mirrors_def)
  have fst: "fst x = (key (snd x), ident (snd x))" if "x \<in> set ?l" for x
    using that mem inj by (metis prod.collapse)
  have "inj_on snd (set ?l)" using fst by (auto intro!: inj_onI prod_eqI simp del: prod.collapse) metis+
  then have "distinct (btree_values idx)"
    using sorted_list_of_fmap_props(3) [of idx] by (simp add: btree_values_def distinct_map)
  moreover have "set (btree_values idx) = {v. \<exists>i. fmlookup prim i = Some v}"
    using mem by (force simp: btree_values_def image_iff)
  moreover have "sorted (map key (btree_values idx))"
  proof -
    have "sorted (map (fst \<circ> fst) ?l)"
      using sorted_list_of_fmap_props(2) [of idx]
      by (auto simp: sorted_wrt_map less_eq_prod_def elim!: sorted_wrt_mono_rel [rotated])
    moreover have "map (fst \<circ> fst) ?l = map key (btree_values idx)" using fst by (simp add: btree_values_def)
    ultimately show ?thesis by simp
  qed
  ultimately show ?thesis by (simp add: answers_def)
qed

lemma answers_filter: "answers prim P key vs \<Longrightarrow> answers prim (\<lambda>v. P v \<and> Q v) key (filter Q vs)"
  by (auto simp: answers_def sorted_filter)

lemma sorted_takeWhile: "sorted (map f xs) \<Longrightarrow> takeWhile (\<lambda>x. f x \<le> t) xs = filter (\<lambda>x. f x \<le> t) xs"
proof (induction xs)
  case (Cons x xs)
  have "filter (\<lambda>y. f y \<le> t) xs = []" if "\<not> f x \<le> t"
    using that Cons.prems by (intro filter_False) auto
  with Cons show ?case by auto
qed simp

lemma sorted_dropWhile: "sorted (map f xs) \<Longrightarrow> dropWhile (\<lambda>x. f x \<le> t) xs = filter (\<lambda>x. \<not> f x \<le> t) xs"
proof (induction xs)
  case (Cons x xs)
  have "filter (\<lambda>y. \<not> f y \<le> t) xs = xs" if "\<not> f x \<le> t"
    using that Cons.prems by (intro filter_True) auto
  with Cons show ?case by auto
qed simp

section \<open>Data\<close>

record indexed_transaction =
  it_tx_hash :: bytes
  it_fee_rate :: u64
  it_arrival_time :: u64
  it_dependency_count :: u32
  it_size_bytes :: nat
  it_total_fee :: u64

definition indexed_transaction_new :: "bytes \<Rightarrow> u64 \<Rightarrow> u64 \<Rightarrow> u32 \<Rightarrow> nat \<Rightarrow> u64 \<Rightarrow> indexed_transaction" where
  "indexed_transaction_new h fee_rate arrival_time n size_bytes fee =
     \<lparr>it_tx_hash = h, it_fee_rate = fee_rate, it_arrival_time = arrival_time, it_dependency_count = n,
      it_size_bytes = size_bytes, it_total_fee = fee\<rparr>"

record multi_dimensional_index_stats =
  mis_total_transactions :: u64
  mis_insertions :: u64
  mis_removals :: u64
  mis_updates :: u64
  economic_queries :: u64
  temporal_queries :: u64
  structural_queries :: u64

definition multi_dimensional_index_stats_default :: multi_dimensional_index_stats where
  "multi_dimensional_index_stats_default = \<lparr>mis_total_transactions = 0, mis_insertions = 0, mis_removals = 0,
     mis_updates = 0, economic_queries = 0, temporal_queries = 0, structural_queries = 0\<rparr>"

record multi_dimensional_index =
  by_hash :: "(bytes, indexed_transaction) fmap"
  economic_index :: "(u64 reverse \<times> bytes, indexed_transaction) fmap"
  temporal_index :: "(u64 \<times> bytes, indexed_transaction) fmap"
  structural_index :: "(u32 reverse \<times> bytes, indexed_transaction) fmap"
  mdi_stats :: multi_dimensional_index_stats

definition multi_dimensional_index_new :: multi_dimensional_index where
  "multi_dimensional_index_new = \<lparr>by_hash = fmempty, economic_index = fmempty, temporal_index = fmempty,
     structural_index = fmempty, mdi_stats = multi_dimensional_index_stats_default\<rparr>"

abbreviation eco_key :: "indexed_transaction \<Rightarrow> u64 reverse" where
  "eco_key tx \<equiv> Reverse (it_fee_rate tx)"

abbreviation hub_key :: "indexed_transaction \<Rightarrow> u32 reverse" where
  "hub_key tx \<equiv> Reverse (it_dependency_count tx)"

section \<open>Operations\<close>

definition mdi_insert :: "multi_dimensional_index \<Rightarrow> indexed_transaction \<Rightarrow> multi_dimensional_index" where
  "mdi_insert self tx =
     (let h = it_tx_hash tx; st = mdi_stats self in
      self\<lparr>by_hash := fmupd h tx (by_hash self),
        economic_index := fmupd (Reverse (it_fee_rate tx), h) tx (economic_index self),
        temporal_index := fmupd (it_arrival_time tx, h) tx (temporal_index self),
        structural_index := fmupd (Reverse (it_dependency_count tx), h) tx (structural_index self),
        mdi_stats := st\<lparr>mis_insertions := mis_insertions st + 1, mis_total_transactions := mis_total_transactions st + 1\<rparr>\<rparr>)"

definition mdi_remove :: "multi_dimensional_index \<Rightarrow> bytes \<Rightarrow> multi_dimensional_index \<times> indexed_transaction option" where
  "mdi_remove self h =
     (case fmlookup (by_hash self) h of
        None \<Rightarrow> (self, None)
      | Some tx \<Rightarrow>
          (let st = mdi_stats self in
           (self\<lparr>by_hash := fmdrop h (by_hash self),
              economic_index := fmdrop (Reverse (it_fee_rate tx), h) (economic_index self),
              temporal_index := fmdrop (it_arrival_time tx, h) (temporal_index self),
              structural_index := fmdrop (Reverse (it_dependency_count tx), h) (structural_index self),
              mdi_stats := st\<lparr>mis_removals := mis_removals st + 1,
                mis_total_transactions := saturating_sub (mis_total_transactions st) 1\<rparr>\<rparr>,
            Some tx)))"

definition mdi_update :: "multi_dimensional_index \<Rightarrow> indexed_transaction \<Rightarrow> multi_dimensional_index" where
  "mdi_update self tx =
     (let self' = mdi_insert (fst (mdi_remove self (it_tx_hash tx))) tx; st = mdi_stats self' in
      self'\<lparr>mdi_stats := st\<lparr>mis_updates := mis_updates st + 1\<rparr>\<rparr>)"

definition get_by_hash :: "multi_dimensional_index \<Rightarrow> bytes \<Rightarrow> indexed_transaction option" where
  "get_by_hash self h = fmlookup (by_hash self) h"

definition count_economic :: "multi_dimensional_index \<Rightarrow> multi_dimensional_index" where
  "count_economic self = self\<lparr>mdi_stats := (mdi_stats self)\<lparr>economic_queries := economic_queries (mdi_stats self) + 1\<rparr>\<rparr>"

definition count_temporal :: "multi_dimensional_index \<Rightarrow> multi_dimensional_index" where
  "count_temporal self = self\<lparr>mdi_stats := (mdi_stats self)\<lparr>temporal_queries := temporal_queries (mdi_stats self) + 1\<rparr>\<rparr>"

definition count_structural :: "multi_dimensional_index \<Rightarrow> multi_dimensional_index" where
  "count_structural self = self\<lparr>mdi_stats := (mdi_stats self)\<lparr>structural_queries := structural_queries (mdi_stats self) + 1\<rparr>\<rparr>"

definition query_economic_range ::
    "multi_dimensional_index \<Rightarrow> u64 \<Rightarrow> u64 \<Rightarrow> multi_dimensional_index \<times> indexed_transaction list" where
  "query_economic_range self min_fee max_fee =
     (count_economic self,
      filter (\<lambda>tx. min_fee \<le> it_fee_rate tx \<and> it_fee_rate tx \<le> max_fee) (btree_values (economic_index self)))"

definition query_economic_top_n :: "multi_dimensional_index \<Rightarrow> nat \<Rightarrow> multi_dimensional_index \<times> indexed_transaction list" where
  "query_economic_top_n self limit = (count_economic self, take limit (btree_values (economic_index self)))"

definition query_temporal_before :: "multi_dimensional_index \<Rightarrow> u64 \<Rightarrow> multi_dimensional_index \<times> indexed_transaction list" where
  "query_temporal_before self timestamp =
     (count_temporal self,
      map snd (takeWhile (\<lambda>((arrival_time, _), _). arrival_time \<le> timestamp) (sorted_list_of_fmap (temporal_index self))))"

definition query_temporal_after :: "multi_dimensional_index \<Rightarrow> u64 \<Rightarrow> multi_dimensional_index \<times> indexed_transaction list" where
  "query_temporal_after self timestamp =
     (count_temporal self,
      map snd (dropWhile (\<lambda>((arrival_time, _), _). arrival_time \<le> timestamp) (sorted_list_of_fmap (temporal_index self))))"

definition query_temporal_range ::
    "multi_dimensional_index \<Rightarrow> u64 \<Rightarrow> u64 \<Rightarrow> multi_dimensional_index \<times> indexed_transaction list" where
  "query_temporal_range self start_time end_time =
     (count_temporal self,
      map snd (filter (\<lambda>((arrival_time, _), _). start_time \<le> arrival_time \<and> arrival_time \<le> end_time)
        (sorted_list_of_fmap (temporal_index self))))"

definition query_structural_min_dependents ::
    "multi_dimensional_index \<Rightarrow> u32 \<Rightarrow> multi_dimensional_index \<times> indexed_transaction list" where
  "query_structural_min_dependents self n =
     (count_structural self,
      map snd (takeWhile (\<lambda>((reversed_count, _), _). n \<le> unreverse reversed_count) (sorted_list_of_fmap (structural_index self))))"

definition query_structural_top_hubs ::
    "multi_dimensional_index \<Rightarrow> nat \<Rightarrow> multi_dimensional_index \<times> indexed_transaction list" where
  "query_structural_top_hubs self limit = (count_structural self, take limit (btree_values (structural_index self)))"

text \<open>\<open>sort_by\<close> is stable.\<close>

definition query_combined ::
    "((bytes, indexed_transaction) fmap \<Rightarrow> indexed_transaction list) \<Rightarrow> multi_dimensional_index
      \<Rightarrow> u64 \<Rightarrow> u64 \<Rightarrow> u64 \<Rightarrow> u64 \<Rightarrow> u32 \<Rightarrow> multi_dimensional_index \<times> indexed_transaction list" where
  "query_combined iter self min_fee max_fee start_time end_time n =
     (count_structural (count_temporal (count_economic self)),
      sort_key (\<lambda>tx. Reverse (it_fee_rate tx))
        (filter (\<lambda>tx. min_fee \<le> it_fee_rate tx \<and> it_fee_rate tx \<le> max_fee \<and> start_time \<le> it_arrival_time tx
            \<and> it_arrival_time tx \<le> end_time \<and> n \<le> it_dependency_count tx) (iter (by_hash self))))"

definition all_count :: "multi_dimensional_index \<Rightarrow> nat" where
  "all_count self = fcard (fmdom (by_hash self))"

definition all_transactions ::
    "((bytes, indexed_transaction) fmap \<Rightarrow> indexed_transaction list) \<Rightarrow> multi_dimensional_index \<Rightarrow> indexed_transaction list" where
  "all_transactions iter self = iter (by_hash self)"

definition mdi_reset :: "multi_dimensional_index \<Rightarrow> multi_dimensional_index" where
  "mdi_reset self = multi_dimensional_index_new"

section \<open>The invariant\<close>

definition mdi_inv :: "multi_dimensional_index \<Rightarrow> bool" where
  "mdi_inv self \<longleftrightarrow> mirrors eco_key (by_hash self) (economic_index self) \<and> mirrors it_arrival_time (by_hash self) (temporal_index self)
     \<and> mirrors hub_key (by_hash self) (structural_index self) \<and> (\<forall>h tx. fmlookup (by_hash self) h = Some tx \<longrightarrow> it_tx_hash tx = h)"

lemma mdi_inv_new: "mdi_inv multi_dimensional_index_new"
  by (simp add: mdi_inv_def multi_dimensional_index_new_def mirrors_empty)

lemma mdi_inv_stats [simp]: "mdi_inv (self\<lparr>mdi_stats := st\<rparr>) = mdi_inv self"
  by (simp add: mdi_inv_def)

lemma mdi_inv_insert:
  assumes "mdi_inv self" and "fmlookup (by_hash self) (it_tx_hash tx) = None"
  shows "mdi_inv (mdi_insert self tx)"
  using assms mirrors_insert [of eco_key "by_hash self" "economic_index self"]
    mirrors_insert [of it_arrival_time "by_hash self" "temporal_index self"]
    mirrors_insert [of hub_key "by_hash self" "structural_index self"]
  by (simp add: mdi_inv_def mdi_insert_def Let_def)

lemma mdi_inv_remove:
  assumes "mdi_inv self"
  shows "mdi_inv (fst (mdi_remove self h))"
proof (cases "fmlookup (by_hash self) h")
  case None
  with assms show ?thesis by (simp add: mdi_remove_def)
next
  case (Some tx)
  then show ?thesis
    using assms mirrors_remove [OF _ Some, of eco_key "economic_index self"]
      mirrors_remove [OF _ Some, of it_arrival_time "temporal_index self"]
      mirrors_remove [OF _ Some, of hub_key "structural_index self"]
    by (simp add: mdi_inv_def mdi_remove_def Let_def)
qed

lemma mdi_remove_hash: "by_hash (fst (mdi_remove self h)) = fmdrop h (by_hash self)"
proof (cases "fmlookup (by_hash self) h")
  case None
  then have "fmdrop h (by_hash self) = by_hash self" by (intro fmap_ext) auto
  with None show ?thesis by (simp add: mdi_remove_def)
qed (simp add: mdi_remove_def Let_def)

lemma mdi_inv_update: "mdi_inv self \<Longrightarrow> mdi_inv (mdi_update self tx)"
  by (simp add: mdi_update_def Let_def mdi_inv_insert mdi_inv_remove mdi_remove_hash)

section \<open>Histories\<close>

text \<open>Calls on the index when \<open>insert\<close> is used for new hashes and \<open>update\<close> for known ones.\<close>

inductive mdi_step :: "multi_dimensional_index \<Rightarrow> multi_dimensional_index \<Rightarrow> bool" where
  mdi_inserted: "get_by_hash self (it_tx_hash tx) = None \<Longrightarrow> mdi_step self (mdi_insert self tx)"
| mdi_updated: "mdi_step self (mdi_update self tx)"
| mdi_removed: "mdi_step self (fst (mdi_remove self h))"
| mdi_counted: "mdi_step self (self\<lparr>mdi_stats := st\<rparr>)"
| mdi_cleared: "mdi_step self (mdi_reset self)"

lemma mdi_reachable_inv: "mdi_step\<^sup>*\<^sup>* multi_dimensional_index_new self \<Longrightarrow> mdi_inv self"
proof (induction rule: rtranclp_induct)
  case base
  then show ?case by (rule mdi_inv_new)
next
  case (step s t)
  from step(2,3) show ?case
    by cases (auto simp: get_by_hash_def mdi_inv_insert mdi_inv_update mdi_inv_remove mdi_reset_def mdi_inv_new)
qed

text \<open>The key of an entry is the key of its value, so that queries on keys are queries on values.\<close>

lemma mirrors_key:
  assumes "mirrors key prim idx"
  shows "\<forall>((k, i), v)\<in>set (sorted_list_of_fmap idx). k = key v"
  using assms by (auto simp: sorted_list_of_fmap_props mirrors_def)

lemma map_snd_takeWhile:
  assumes "\<forall>((k, i), v)\<in>set l. k = key v"
  shows "map snd (takeWhile (\<lambda>((k, _), _). P k) l) = takeWhile (\<lambda>v. P (key v)) (map snd l)"
    and "map snd (dropWhile (\<lambda>((k, _), _). P k) l) = dropWhile (\<lambda>v. P (key v)) (map snd l)"
    and "map snd (filter (\<lambda>((k, _), _). P k) l) = filter (\<lambda>v. P (key v)) (map snd l)"
  using assms by (induction l) auto

lemma answers_congI: "answers prim P key vs \<Longrightarrow> (\<And>v. P v \<longleftrightarrow> Q v) \<Longrightarrow> answers prim Q key vs"
  by (simp add: answers_def)

lemma answers_before:
  assumes "answers prim (\<lambda>_. True) key vs"
  shows "answers prim (\<lambda>v. key v \<le> t) key (takeWhile (\<lambda>v. key v \<le> t) vs)"
    and "answers prim (\<lambda>v. \<not> key v \<le> t) key (dropWhile (\<lambda>v. key v \<le> t) vs)"
  using assms answers_filter [OF assms, of "\<lambda>v. key v \<le> t"] answers_filter [OF assms, of "\<lambda>v. \<not> key v \<le> t"]
    sorted_takeWhile [of key vs t] sorted_dropWhile [of key vs t]
  by (simp_all add: answers_def)

text \<open>\<open>iter\<close> reads every entry of the hash map once.\<close>

definition iterates_values :: "((bytes, 'v) fmap \<Rightarrow> 'v list) \<Rightarrow> bool" where
  "iterates_values iter \<longleftrightarrow> (\<forall>m. mset (iter m) = mset (btree_values m))"

lemma answers_hash_map:
  assumes inj: "\<And>h v. fmlookup m h = Some v \<Longrightarrow> ident v = h" and "mset vs = mset (btree_values (m :: (bytes, 'v) fmap))"
  shows "set vs = {v. \<exists>h. fmlookup m h = Some v}" and "distinct vs"
proof -
  let ?l = "sorted_list_of_fmap m"
  have fst: "fst x = ident (snd x)" if "x \<in> set ?l" for x
    using that inj by (auto simp: sorted_list_of_fmap_props)
  then have "inj_on snd (set ?l)" by (auto intro!: inj_onI prod_eqI simp del: prod.collapse) metis+
  then have "distinct (btree_values m)"
    using sorted_list_of_fmap_props(3) [of m] by (simp add: btree_values_def distinct_map)
  then show "distinct vs" using assms(2) by (metis mset_eq_imp_distinct_iff)
  have "set (btree_values m) = {v. \<exists>h. fmlookup m h = Some v}"
    by (force simp: btree_values_def sorted_list_of_fmap_props)
  then show "set vs = {v. \<exists>h. fmlookup m h = Some v}" using mset_eq_setD [OF assms(2)] by simp
qed

section \<open>Properties\<close>

text \<open>every query is exact. In each state the index can reach, the fee, time and dependents queries
  return exactly the stored transactions in their range, each once, in the order they promise, and
  the limited queries return the beginning of such a list.\<close>

theorem queries_exact:
  assumes "mdi_step\<^sup>*\<^sup>* multi_dimensional_index_new self" and "iterates_values iter"
  shows "answers (by_hash self) (\<lambda>tx. lo \<le> it_fee_rate tx \<and> it_fee_rate tx \<le> hi) (\<lambda>tx. Reverse (it_fee_rate tx))
      (snd (query_economic_range self lo hi))
    \<and> answers (by_hash self) (\<lambda>tx. it_arrival_time tx \<le> t) it_arrival_time (snd (query_temporal_before self t))
    \<and> answers (by_hash self) (\<lambda>tx. t < it_arrival_time tx) it_arrival_time (snd (query_temporal_after self t))
    \<and> answers (by_hash self) (\<lambda>tx. t \<le> it_arrival_time tx \<and> it_arrival_time tx \<le> t') it_arrival_time
        (snd (query_temporal_range self t t'))
    \<and> answers (by_hash self) (\<lambda>tx. n \<le> it_dependency_count tx) (\<lambda>tx. Reverse (it_dependency_count tx))
        (snd (query_structural_min_dependents self n))
    \<and> answers (by_hash self) (\<lambda>tx. lo \<le> it_fee_rate tx \<and> it_fee_rate tx \<le> hi \<and> t \<le> it_arrival_time tx
          \<and> it_arrival_time tx \<le> t' \<and> n \<le> it_dependency_count tx) (\<lambda>tx. Reverse (it_fee_rate tx))
        (snd (query_combined iter self lo hi t t' n))
    \<and> (\<exists>txs. answers (by_hash self) (\<lambda>_. True) (\<lambda>tx. Reverse (it_fee_rate tx)) txs
         \<and> snd (query_economic_top_n self limit) = take limit txs)
    \<and> (\<exists>txs. answers (by_hash self) (\<lambda>_. True) (\<lambda>tx. Reverse (it_dependency_count tx)) txs
         \<and> snd (query_structural_top_hubs self limit) = take limit txs)"
proof -
  have inv: "mdi_inv self" by (rule mdi_reachable_inv [OF assms(1)])
  then have me: "mirrors eco_key (by_hash self) (economic_index self)"
    and mt: "mirrors it_arrival_time (by_hash self) (temporal_index self)"
    and ms: "mirrors hub_key (by_hash self) (structural_index self)"
    and ident: "\<And>h tx. fmlookup (by_hash self) h = Some tx \<Longrightarrow> it_tx_hash tx = h"
    by (auto simp: mdi_inv_def)
  note eco = answers_values [where ident = it_tx_hash, OF me ident] and tim = answers_values [where ident = it_tx_hash, OF mt ident]
    and hub = answers_values [where ident = it_tx_hash, OF ms ident]
  note times = map_snd_takeWhile [OF mirrors_key [OF mt], folded btree_values_def]
  have 1: "answers (by_hash self) (\<lambda>tx. lo \<le> it_fee_rate tx \<and> it_fee_rate tx \<le> hi) eco_key (snd (query_economic_range self lo hi))"
    using answers_filter [OF eco, where Q = "\<lambda>tx. lo \<le> it_fee_rate tx \<and> it_fee_rate tx \<le> hi"] by (simp add: query_economic_range_def)
  have 2: "answers (by_hash self) (\<lambda>tx. it_arrival_time tx \<le> t) it_arrival_time (snd (query_temporal_before self t))"
    using answers_before(1) [OF tim, of t] by (simp add: query_temporal_before_def times)
  have 3: "answers (by_hash self) (\<lambda>tx. t < it_arrival_time tx) it_arrival_time (snd (query_temporal_after self t))"
    using answers_before(2) [OF tim, of t] by (simp add: query_temporal_after_def times not_le)
  have 4: "answers (by_hash self) (\<lambda>tx. t \<le> it_arrival_time tx \<and> it_arrival_time tx \<le> t') it_arrival_time (snd (query_temporal_range self t t'))"
    using answers_filter [OF tim, where Q = "\<lambda>tx. t \<le> it_arrival_time tx \<and> it_arrival_time tx \<le> t'"] by (simp add: query_temporal_range_def times)
  have 5: "answers (by_hash self) (\<lambda>tx. n \<le> it_dependency_count tx) hub_key (snd (query_structural_min_dependents self n))"
    using answers_before(1) [OF hub, of "Reverse n"] map_snd_takeWhile(1) [OF mirrors_key [OF ms], of "\<lambda>k. n \<le> unreverse k", folded btree_values_def]
    by (simp add: query_structural_min_dependents_def less_eq_reverse_def)
  have 6: "answers (by_hash self) (\<lambda>tx. lo \<le> it_fee_rate tx \<and> it_fee_rate tx \<le> hi \<and> t \<le> it_arrival_time tx
      \<and> it_arrival_time tx \<le> t' \<and> n \<le> it_dependency_count tx) eco_key (snd (query_combined iter self lo hi t t' n))"
    using answers_hash_map [where ident = it_tx_hash and m = "by_hash self" and vs = "iter (by_hash self)", OF ident] assms(2)
    by (auto simp: query_combined_def answers_def iterates_values_def)
  have 7: "\<exists>txs. answers (by_hash self) (\<lambda>_. True) eco_key txs \<and> snd (query_economic_top_n self limit) = take limit txs"
    using eco by (auto simp: query_economic_top_n_def)
  have 8: "\<exists>txs. answers (by_hash self) (\<lambda>_. True) hub_key txs \<and> snd (query_structural_top_hubs self limit) = take limit txs"
    using hub by (auto simp: query_structural_top_hubs_def)
  show ?thesis using 1 2 3 4 5 6 7 8 by blast
qed

text \<open>inserting a known hash again with another fee leaves the old entry in the fee index: the fee
  query returns a transaction that is no longer stored, and a removal does not drop it.\<close>

theorem reinsert_leaves_stale_entry:
  assumes "mdi_step\<^sup>*\<^sup>* multi_dimensional_index_new self" and "get_by_hash self h = Some tx"
    and "it_tx_hash tx' = h" and "it_fee_rate tx' \<noteq> it_fee_rate tx"
  shows "tx \<in> set (snd (query_economic_range (mdi_insert self tx') (it_fee_rate tx) (it_fee_rate tx)))
    \<and> get_by_hash (mdi_insert self tx') h = Some tx'
    \<and> tx \<in> set (snd (query_economic_range (fst (mdi_remove (mdi_insert self tx') h)) (it_fee_rate tx) (it_fee_rate tx)))"
proof -
  have inv: "mdi_inv self" by (rule mdi_reachable_inv [OF assms(1)])
  then have "fmlookup (economic_index self) (Reverse (it_fee_rate tx), h) = Some tx"
    using assms(2) by (simp add: mdi_inv_def mirrors_def get_by_hash_def)
  then have "fmlookup (economic_index (mdi_insert self tx')) (Reverse (it_fee_rate tx), h) = Some tx"
    "fmlookup (economic_index (fst (mdi_remove (mdi_insert self tx') h))) (Reverse (it_fee_rate tx), h) = Some tx"
    using assms(3,4) by (auto simp: mdi_insert_def mdi_remove_def Let_def)
  then have "tx \<in> set (btree_values (economic_index (mdi_insert self tx')))"
    "tx \<in> set (btree_values (economic_index (fst (mdi_remove (mdi_insert self tx') h))))"
    by (force simp: btree_values_def sorted_list_of_fmap_props)+
  moreover have "get_by_hash (mdi_insert self tx') h = Some tx'" using assms(3) by (simp add: get_by_hash_def mdi_insert_def Let_def)
  ultimately show ?thesis by (simp add: query_economic_range_def)
qed

section \<open>Witnesses\<close>

definition demo_itx :: indexed_transaction where
  "demo_itx = indexed_transaction_new [1] 20 5 2 100 2000"

definition demo_index :: multi_dimensional_index where
  "demo_index = mdi_insert multi_dimensional_index_new demo_itx"

lemma demo_index_reachable: "mdi_step\<^sup>*\<^sup>* multi_dimensional_index_new demo_index"
  unfolding demo_index_def
  by (intro r_into_rtranclp mdi_inserted) (simp add: get_by_hash_def multi_dimensional_index_new_def)

lemma demo_index_stored: "by_hash demo_index = fmupd [1] demo_itx fmempty"
  by (simp add: demo_index_def mdi_insert_def multi_dimensional_index_new_def Let_def demo_itx_def indexed_transaction_new_def)

lemma iterates_btree: "iterates_values btree_values"
  by (simp add: iterates_values_def)

theorem queries_exact_witness: "set (snd (query_temporal_before demo_index 5)) = {demo_itx}"
proof -
  have "answers (by_hash demo_index) (\<lambda>tx. it_arrival_time tx \<le> 5) it_arrival_time (snd (query_temporal_before demo_index 5))"
    using queries_exact [OF demo_index_reachable iterates_btree, where t = 5] by blast
  then have "set (snd (query_temporal_before demo_index 5)) = {v. it_arrival_time v \<le> 5 \<and> (\<exists>i. fmlookup (by_hash demo_index) i = Some v)}"
    by (simp add: answers_def)
  moreover have "(\<exists>i. fmlookup (by_hash demo_index) i = Some v) \<longleftrightarrow> v = demo_itx" for v
    by (auto simp: demo_index_stored)
  moreover have "it_arrival_time demo_itx \<le> 5" by (simp add: demo_itx_def indexed_transaction_new_def)
  ultimately show ?thesis by auto
qed

theorem reinsert_leaves_stale_entry_witness:
  "demo_itx \<in> set (snd (query_economic_range (mdi_insert demo_index (demo_itx\<lparr>it_fee_rate := 30\<rparr>)) 20 20))"
proof -
  have "get_by_hash demo_index [1] = Some demo_itx" by (simp add: get_by_hash_def demo_index_stored)
  from reinsert_leaves_stale_entry [OF demo_index_reachable this, of "demo_itx\<lparr>it_fee_rate := 30\<rparr>"] show ?thesis
    by (simp add: demo_itx_def indexed_transaction_new_def)
qed

end
