(* ===== verification/Multi_Queue.thy ===== *)
theory Multi_Queue
  imports Transactions
begin

text \<open>
  Layered admission queues: \<open>klomang-node/src/mempool/multi_queue.rs\<close>. The argument \<open>ser\<close> is
  \<open>bincode::serialize\<close> on hashes, \<open>now\<close> the clock in milliseconds, read once per call, and \<open>iter\<close> the order
  in which the low queue is read.
\<close>

section \<open>Data\<close>

record queue_entry =
  qe_transaction :: transaction
  qe_timestamp :: u64
  qe_fee_rate :: u64
  qe_is_system :: bool

record high_priority_queue =
  high_entries :: "(bytes, queue_entry) fmap"
  high_max_size :: nat

record standard_queue =
  std_entries :: "(bytes, queue_entry) fmap"
  std_max_size :: nat

record low_priority_queue =
  low_entries :: "(bytes, queue_entry) fmap"
  low_max_size :: nat
  max_age_ms :: u64

record multi_queue_admission_system =
  high_queue :: high_priority_queue
  standard_queue :: standard_queue
  low_queue :: low_priority_queue
  market_avg_fee :: u64

definition high_priority_queue_new :: "nat \<Rightarrow> high_priority_queue" where
  "high_priority_queue_new n = \<lparr>high_entries = fmempty, high_max_size = n\<rparr>"

definition standard_queue_new :: "nat \<Rightarrow> standard_queue" where
  "standard_queue_new n = \<lparr>std_entries = fmempty, std_max_size = n\<rparr>"

definition low_priority_queue_new :: "nat \<Rightarrow> u64 \<Rightarrow> low_priority_queue" where
  "low_priority_queue_new n age = \<lparr>low_entries = fmempty, low_max_size = n, max_age_ms = age\<rparr>"

definition multi_queue_admission_system_new :: multi_queue_admission_system where
  "multi_queue_admission_system_new = \<lparr>high_queue = high_priority_queue_new 1000, standard_queue = standard_queue_new 5000,
     low_queue = low_priority_queue_new 10000 300000, market_avg_fee = 100\<rparr>"

section \<open>The queues\<close>

definition calculate_fee_rate :: "transaction \<Rightarrow> u64" where
  "calculate_fee_rate tx = of_nat (length (inputs tx) + length (outputs tx)) * 10"

definition is_system_transaction :: "transaction \<Rightarrow> bool" where
  "is_system_transaction tx = False"

definition high_add :: "(hash \<Rightarrow> bytes option) \<Rightarrow> u64 \<Rightarrow> high_priority_queue \<Rightarrow> transaction \<Rightarrow> high_priority_queue \<times> (string + unit)" where
  "high_add ser now self tx =
     (case ser (tx_id tx) of
        None \<Rightarrow> (self, Inl ''Serialization error: {}'')
      | Some h \<Rightarrow>
          if high_max_size self \<le> fcard (fmdom (high_entries self)) then (self, Inl ''High priority queue full'')
          else (self\<lparr>high_entries := fmupd h \<lparr>qe_transaction = tx, qe_timestamp = now, qe_fee_rate = calculate_fee_rate tx,
                  qe_is_system = is_system_transaction tx\<rparr> (high_entries self)\<rparr>, Inr ()))"

definition standard_add :: "(hash \<Rightarrow> bytes option) \<Rightarrow> u64 \<Rightarrow> standard_queue \<Rightarrow> transaction \<Rightarrow> standard_queue \<times> (string + unit)" where
  "standard_add ser now self tx =
     (case ser (tx_id tx) of
        None \<Rightarrow> (self, Inl ''Serialization error: {}'')
      | Some h \<Rightarrow>
          if std_max_size self \<le> fcard (fmdom (std_entries self)) then (self, Inl ''Standard queue full'')
          else (self\<lparr>std_entries := fmupd h \<lparr>qe_transaction = tx, qe_timestamp = now, qe_fee_rate = calculate_fee_rate tx,
                  qe_is_system = False\<rparr> (std_entries self)\<rparr>, Inr ()))"

definition low_add :: "(hash \<Rightarrow> bytes option) \<Rightarrow> u64 \<Rightarrow> low_priority_queue \<Rightarrow> transaction \<Rightarrow> low_priority_queue \<times> (string + unit)" where
  "low_add ser now self tx =
     (case ser (tx_id tx) of
        None \<Rightarrow> (self, Inl ''Serialization error: {}'')
      | Some h \<Rightarrow>
          if low_max_size self \<le> fcard (fmdom (low_entries self)) then (self, Inl ''Low priority queue full'')
          else (self\<lparr>low_entries := fmupd h \<lparr>qe_transaction = tx, qe_timestamp = now, qe_fee_rate = calculate_fee_rate tx,
                  qe_is_system = False\<rparr> (low_entries self)\<rparr>, Inr ()))"

definition high_remove :: "high_priority_queue \<Rightarrow> bytes \<Rightarrow> high_priority_queue \<times> queue_entry option" where
  "high_remove self h = (self\<lparr>high_entries := fmdrop h (high_entries self)\<rparr>, fmlookup (high_entries self) h)"

definition standard_remove :: "standard_queue \<Rightarrow> bytes \<Rightarrow> standard_queue \<times> queue_entry option" where
  "standard_remove self h = (self\<lparr>std_entries := fmdrop h (std_entries self)\<rparr>, fmlookup (std_entries self) h)"

definition low_remove :: "low_priority_queue \<Rightarrow> bytes \<Rightarrow> low_priority_queue \<times> queue_entry option" where
  "low_remove self h = (self\<lparr>low_entries := fmdrop h (low_entries self)\<rparr>, fmlookup (low_entries self) h)"

definition high_len :: "high_priority_queue \<Rightarrow> nat" where
  "high_len self = fcard (fmdom (high_entries self))"

definition standard_len :: "standard_queue \<Rightarrow> nat" where
  "standard_len self = fcard (fmdom (std_entries self))"

definition low_len :: "low_priority_queue \<Rightarrow> nat" where
  "low_len self = fcard (fmdom (low_entries self))"

type_synonym queue_order = "(bytes, queue_entry) fmap \<Rightarrow> (bytes \<times> queue_entry) list"

definition get_promotion_candidates :: "queue_order \<Rightarrow> u64 \<Rightarrow> low_priority_queue \<Rightarrow> (bytes \<times> queue_entry) list" where
  "get_promotion_candidates iter now self =
     filter (\<lambda>(_, e). max_age_ms self \<le> saturating_sub now (qe_timestamp e)) (iter (low_entries self))"

section \<open>The admission system\<close>

definition admit_transaction ::
    "(hash \<Rightarrow> bytes option) \<Rightarrow> u64 \<Rightarrow> multi_queue_admission_system \<Rightarrow> transaction \<Rightarrow> multi_queue_admission_system \<times> (string + unit)" where
  "admit_transaction ser now self tx =
     (let fee_rate = calculate_fee_rate tx; avg = market_avg_fee self in
      if is_system_transaction tx \<or> avg < fee_rate then
        (case high_add ser now (high_queue self) tx of (q, r) \<Rightarrow> (self\<lparr>high_queue := q\<rparr>, r))
      else if avg div 2 \<le> fee_rate then
        (case standard_add ser now (standard_queue self) tx of (q, r) \<Rightarrow> (self\<lparr>standard_queue := q\<rparr>, r))
      else
        (case low_add ser now (low_queue self) tx of (q, r) \<Rightarrow> (self\<lparr>low_queue := q\<rparr>, r)))"

text \<open>The loop of \<open>rebalance_queues\<close> over the candidates.\<close>

fun promote ::
    "(hash \<Rightarrow> bytes option) \<Rightarrow> u64 \<Rightarrow> multi_queue_admission_system \<Rightarrow> (bytes \<times> queue_entry) list
      \<Rightarrow> multi_queue_admission_system \<times> (string + unit)" where
  "promote ser now self [] = (self, Inr ())"
| "promote ser now self ((h, e) # rest) =
     (let self1 = self\<lparr>low_queue := fst (low_remove (low_queue self) h)\<rparr> in
      case standard_add ser now (standard_queue self1) (qe_transaction e) of
        (q, Inl _) \<Rightarrow> (self1\<lparr>standard_queue := q\<rparr>, Inl ''Failed to promote transaction: {}'')
      | (q, Inr _) \<Rightarrow> promote ser now (self1\<lparr>standard_queue := q\<rparr>) rest)"

definition rebalance_queues ::
    "queue_order \<Rightarrow> (hash \<Rightarrow> bytes option) \<Rightarrow> u64 \<Rightarrow> multi_queue_admission_system \<Rightarrow> multi_queue_admission_system \<times> (string + unit)" where
  "rebalance_queues iter ser now self = promote ser now self (get_promotion_candidates iter now (low_queue self))"

definition update_market_avg :: "multi_queue_admission_system \<Rightarrow> u64 \<Rightarrow> multi_queue_admission_system" where
  "update_market_avg self avg = self\<lparr>market_avg_fee := avg\<rparr>"

record queue_stats =
  qs_high :: nat
  qs_standard :: nat
  qs_low :: nat
  qs_market_avg_fee :: u64

definition queue_get_stats :: "multi_queue_admission_system \<Rightarrow> queue_stats" where
  "queue_get_stats self = \<lparr>qs_high = high_len (high_queue self), qs_standard = standard_len (standard_queue self),
     qs_low = low_len (low_queue self), qs_market_avg_fee = market_avg_fee self\<rparr>"

section \<open>Histories\<close>

inductive mq_step ::
    "queue_order \<Rightarrow> (hash \<Rightarrow> bytes option) \<Rightarrow> multi_queue_admission_system \<Rightarrow> multi_queue_admission_system \<Rightarrow> bool" for iter ser where
  mq_admitted: "mq_step iter ser self (fst (admit_transaction ser now self tx))"
| mq_rebalanced: "mq_step iter ser self (fst (rebalance_queues iter ser now self))"
| mq_market: "mq_step iter ser self (update_market_avg self avg)"

definition mq_inv :: "(hash \<Rightarrow> bytes option) \<Rightarrow> multi_queue_admission_system \<Rightarrow> bool" where
  "mq_inv ser self \<longleftrightarrow>
     high_max_size (high_queue self) = 1000 \<and> std_max_size (standard_queue self) = 5000 \<and> low_max_size (low_queue self) = 10000
     \<and> high_len (high_queue self) \<le> 1000 \<and> standard_len (standard_queue self) \<le> 5000 \<and> low_len (low_queue self) \<le> 10000
     \<and> (\<forall>h e. fmlookup (low_entries (low_queue self)) h = Some e \<longrightarrow> ser (tx_id (qe_transaction e)) = Some h)"

lemma queue_upd_bound: "fcard (fmdom m) < n \<Longrightarrow> fcard (fmdom (fmupd h e m)) \<le> n"
  by (simp add: fcard_finsert_if)

lemma queue_drop_bound: "fcard (fmdom m) \<le> n \<Longrightarrow> fcard (fmdom (fmdrop h m)) \<le> n"
  using fcard_drop_le [of h m] by (rule le_trans)

lemma mq_inv_new: "mq_inv ser multi_queue_admission_system_new"
  by (simp add: mq_inv_def multi_queue_admission_system_new_def high_priority_queue_new_def standard_queue_new_def
    low_priority_queue_new_def high_len_def standard_len_def low_len_def fcard_fempty)

lemma mq_inv_admit:
  assumes "mq_inv ser self"
  shows "mq_inv ser (fst (admit_transaction ser now self tx))"
  using assms
  by (auto simp: admit_transaction_def Let_def high_add_def standard_add_def low_add_def mq_inv_def high_len_def standard_len_def
    low_len_def not_le intro!: queue_upd_bound split: option.splits if_splits simp del: fmdom_fmupd)

lemma standard_add_cases:
  assumes "standard_add ser now q tx = (q', r)"
  obtains (refused) msg where "q' = q" "r = Inl msg"
  | (added) h where "ser (tx_id tx) = Some h" "r = Inr ()" "standard_len q < std_max_size q"
      "q' = q\<lparr>std_entries := fmupd h \<lparr>qe_transaction = tx, qe_timestamp = now, qe_fee_rate = calculate_fee_rate tx,
         qe_is_system = False\<rparr> (std_entries q)\<rparr>"
  using assms by (auto simp: standard_add_def standard_len_def split: option.splits if_splits)

lemma mq_inv_promote: "mq_inv ser self \<Longrightarrow> mq_inv ser (fst (promote ser now self cands))"
proof (induction cands arbitrary: self)
  case (Cons c cands)
  obtain h e where c: "c = (h, e)" by (cases c)
  define self1 where "self1 = self\<lparr>low_queue := fst (low_remove (low_queue self) h)\<rparr>"
  have inv1: "mq_inv ser self1"
    using Cons.prems by (auto simp: mq_inv_def self1_def low_remove_def low_len_def intro: queue_drop_bound simp del: fmdom_drop)
  obtain q r where add: "standard_add ser now (standard_queue self1) (qe_transaction e) = (q, r)" by (cases "standard_add ser now (standard_queue self1) (qe_transaction e)")
  from add show ?case
  proof (cases rule: standard_add_cases)
    case (refused msg)
    then show ?thesis using add inv1 c by (simp add: Let_def flip: self1_def)
  next
    case (added k)
    have "mq_inv ser (self1\<lparr>standard_queue := q\<rparr>)"
      using inv1 added by (auto simp: mq_inv_def standard_len_def intro!: queue_upd_bound simp del: fmdom_fmupd)
    from Cons.IH [OF this] show ?thesis using add added(2) c by (simp add: Let_def flip: self1_def)
  qed
qed simp

lemma mq_reachable_inv: "(mq_step iter ser)\<^sup>*\<^sup>* multi_queue_admission_system_new self \<Longrightarrow> mq_inv ser self"
proof (induction rule: rtranclp_induct)
  case base
  then show ?case by (rule mq_inv_new)
next
  case (step s t)
  from step(2,3) show ?case
    by cases (auto simp: mq_inv_admit rebalance_queues_def mq_inv_promote, auto simp: mq_inv_def update_market_avg_def)
qed

section \<open>Promotion\<close>

definition promoted :: "u64 \<Rightarrow> queue_entry \<Rightarrow> queue_entry" where
  "promoted now e = \<lparr>qe_transaction = qe_transaction e, qe_timestamp = now, qe_fee_rate = calculate_fee_rate (qe_transaction e),
     qe_is_system = False\<rparr>"

lemma promote_effect:
  assumes "\<forall>(h, e)\<in>set cands. ser (tx_id (qe_transaction e)) = Some h" and "promote ser now self cands = (self', r)"
  shows "\<exists>moved lost rest. cands = moved @ lost @ rest
    \<and> (r = Inr () \<and> lost = [] \<and> rest = []
       \<or> r = Inl ''Failed to promote transaction: {}'' \<and> length lost = 1
         \<and> std_max_size (standard_queue self') \<le> standard_len (standard_queue self'))
    \<and> low_entries (low_queue self') = fmdrops (map fst (moved @ lost)) (low_entries (low_queue self))
    \<and> std_entries (standard_queue self') = fmupds (map (\<lambda>(h, e). (h, promoted now e)) moved) (std_entries (standard_queue self))
    \<and> high_queue self' = high_queue self"
  using assms
proof (induction cands arbitrary: self)
  case Nil
  then show ?case by (intro exI [of _ "[]"]) simp
next
  case (Cons c cands)
  obtain h e where c: "c = (h, e)" by (cases c)
  have ser: "ser (tx_id (qe_transaction e)) = Some h" using Cons.prems(1) c by simp
  define self1 where "self1 = self\<lparr>low_queue := fst (low_remove (low_queue self) h)\<rparr>"
  have low1: "low_entries (low_queue self1) = fmdrop h (low_entries (low_queue self))" "high_queue self1 = high_queue self"
    "standard_queue self1 = standard_queue self"
    by (simp_all add: self1_def low_remove_def)
  let ?q = "standard_queue self"
  show ?case
  proof (cases "std_max_size ?q \<le> standard_len ?q")
    case True
    then have "standard_add ser now ?q (qe_transaction e) = (?q, Inl ''Standard queue full'')"
      using ser by (simp add: standard_add_def standard_len_def)
    then have "self' = self1\<lparr>standard_queue := ?q\<rparr>" "r = Inl ''Failed to promote transaction: {}''"
      using Cons.prems(2) c low1(3) by (simp_all add: Let_def flip: self1_def)
    then show ?thesis
      using low1 c True by (intro exI [of _ "[]"] exI [of _ "[c]"] exI [of _ cands]) simp
  next
    case False
    define q where "q = ?q\<lparr>std_entries := fmupd h (promoted now e) (std_entries ?q)\<rparr>"
    have "standard_add ser now ?q (qe_transaction e) = (q, Inr ())"
      using False ser by (simp add: standard_add_def standard_len_def q_def promoted_def)
    then have "promote ser now (self1\<lparr>standard_queue := q\<rparr>) cands = (self', r)"
      using Cons.prems(2) c low1(3) by (simp add: Let_def flip: self1_def)
    from Cons.IH [OF _ this] Cons.prems(1) obtain moved lost rest where IH: "cands = moved @ lost @ rest"
      "r = Inr () \<and> lost = [] \<and> rest = [] \<or> r = Inl ''Failed to promote transaction: {}'' \<and> length lost = 1
         \<and> std_max_size (standard_queue self') \<le> standard_len (standard_queue self')"
      "low_entries (low_queue self') = fmdrops (map fst (moved @ lost)) (low_entries (low_queue self1))"
      "std_entries (standard_queue self') = fmupds (map (\<lambda>(h, e). (h, promoted now e)) moved) (std_entries q)"
      "high_queue self' = high_queue self1" by auto
    show ?thesis
      using IH low1 c by (intro exI [of _ "c # moved"] exI [of _ lost] exI [of _ rest]) (simp add: q_def)
  qed
qed

definition iterates_queue :: "queue_order \<Rightarrow> bool" where
  "iterates_queue iter \<longleftrightarrow> (\<forall>m. distinct (map fst (iter m)) \<and> set (iter m) = {(h, e). fmlookup m h = Some e})"

section \<open>Properties\<close>

text \<open>whatever is admitted, rebalanced and whatever the market average becomes, no queue exceeds its
  size, and an admitted transaction enters the queue that its fee rate against the average names.\<close>

theorem queues_bounded:
  assumes "(mq_step iter ser)\<^sup>*\<^sup>* multi_queue_admission_system_new self"
  shows "qs_high (queue_get_stats self) \<le> 1000 \<and> qs_standard (queue_get_stats self) \<le> 5000 \<and> qs_low (queue_get_stats self) \<le> 10000
    \<and> (\<forall>tx h self'. ser (tx_id tx) = Some h \<and> admit_transaction ser now self tx = (self', Inr ()) \<longrightarrow>
         (if market_avg_fee self < calculate_fee_rate tx then h |\<in>| fmdom (high_entries (high_queue self'))
          else if market_avg_fee self div 2 \<le> calculate_fee_rate tx then h |\<in>| fmdom (std_entries (standard_queue self'))
          else h |\<in>| fmdom (low_entries (low_queue self'))))"
proof -
  have "mq_inv ser self" by (rule mq_reachable_inv [OF assms])
  then have "qs_high (queue_get_stats self) \<le> 1000 \<and> qs_standard (queue_get_stats self) \<le> 5000 \<and> qs_low (queue_get_stats self) \<le> 10000"
    by (simp add: mq_inv_def queue_get_stats_def)
  then show ?thesis
    by (auto simp: admit_transaction_def is_system_transaction_def high_add_def standard_add_def low_add_def split: if_splits)
qed

text \<open>rebalancing moves the transactions of the low queue that have waited too long, and only those,
  to the standard queue, each with its waiting time started again. When the standard queue is full
  it stops with an error; the transaction it stopped at has left the low queue and has not entered
  the standard queue, so that it is lost.\<close>

theorem rebalance_moves_aged:
  assumes "(mq_step iter ser)\<^sup>*\<^sup>* multi_queue_admission_system_new self" and "iterates_queue iter"
    and "rebalance_queues iter ser now self = (self', r)"
  shows "\<exists>moved lost rest.
      set (moved @ lost @ rest) = {(h, e). fmlookup (low_entries (low_queue self)) h = Some e
        \<and> max_age_ms (low_queue self) \<le> saturating_sub now (qe_timestamp e)}
    \<and> (r = Inr () \<and> lost = [] \<and> rest = []
       \<or> r = Inl ''Failed to promote transaction: {}'' \<and> length lost = 1
         \<and> std_max_size (standard_queue self') \<le> standard_len (standard_queue self'))
    \<and> (\<forall>h. fmlookup (low_entries (low_queue self')) h
         = (if h \<in> fst ` set (moved @ lost) then None else fmlookup (low_entries (low_queue self)) h))
    \<and> (\<forall>(h, e)\<in>set moved. fmlookup (std_entries (standard_queue self')) h = Some (promoted now e))
    \<and> (\<forall>h. h \<notin> fst ` set moved \<longrightarrow>
         fmlookup (std_entries (standard_queue self')) h = fmlookup (std_entries (standard_queue self)) h)"
proof -
  let ?cands = "get_promotion_candidates iter now (low_queue self)"
  have inv: "mq_inv ser self" by (rule mq_reachable_inv [OF assms(1)])
  have it: "distinct (map fst (iter m))" "set (iter m) = {(h, e). fmlookup m h = Some e}" for m
    using assms(2) by (auto simp: iterates_queue_def)
  have cands: "set ?cands = {(h, e). fmlookup (low_entries (low_queue self)) h = Some e
      \<and> max_age_ms (low_queue self) \<le> saturating_sub now (qe_timestamp e)}"
    by (auto simp: get_promotion_candidates_def it(2))
  have "\<forall>(h, e)\<in>set ?cands. ser (tx_id (qe_transaction e)) = Some h" using inv by (auto simp: cands mq_inv_def)
  from promote_effect [OF this assms(3) [unfolded rebalance_queues_def]] obtain moved lost rest where
    eff: "?cands = moved @ lost @ rest"
      "r = Inr () \<and> lost = [] \<and> rest = [] \<or> r = Inl ''Failed to promote transaction: {}'' \<and> length lost = 1
         \<and> std_max_size (standard_queue self') \<le> standard_len (standard_queue self')"
      "low_entries (low_queue self') = fmdrops (map fst (moved @ lost)) (low_entries (low_queue self))"
      "std_entries (standard_queue self') = fmupds (map (\<lambda>(h, e). (h, promoted now e)) moved) (std_entries (standard_queue self))"
    by blast
  have keys: "map fst (map (\<lambda>(h, e). (h, promoted now e)) moved) = map fst moved" by (induction moved) auto
  have "distinct (map fst ?cands)" using it(1) by (simp add: get_promotion_candidates_def distinct_map_filter)
  then have "distinct (map fst moved)" using eff(1) by simp
  then have std: "fmlookup (std_entries (standard_queue self')) h = Some (promoted now e)" if "(h, e) \<in> set moved" for h e
  proof -
    have "distinct (map fst (map (\<lambda>(h, e). (h, promoted now e)) moved))" using \<open>distinct (map fst moved)\<close> by (simp only: keys)
    moreover have "(h, promoted now e) \<in> set (map (\<lambda>(h, e). (h, promoted now e)) moved)" using that by force
    ultimately show ?thesis unfolding eff(4) by (rule fmlookup_fmupds_mem)
  qed
  have other: "fmlookup (std_entries (standard_queue self')) h = fmlookup (std_entries (standard_queue self)) h" if "h \<notin> fst ` set moved" for h
    using that keys unfolding eff(4) by (intro fmlookup_fmupds_other) (metis list.set_map)
  have low: "fmlookup (low_entries (low_queue self')) h
      = (if h \<in> fst ` set (moved @ lost) then None else fmlookup (low_entries (low_queue self)) h)" for h
    unfolding eff(3) fmlookup_fmdrops list.set_map by simp
  show ?thesis
  proof (intro exI conjI)
    show "set (moved @ lost @ rest) = {(h, e). fmlookup (low_entries (low_queue self)) h = Some e
        \<and> max_age_ms (low_queue self) \<le> saturating_sub now (qe_timestamp e)}" using cands eff(1) by simp
    show "\<forall>h. fmlookup (low_entries (low_queue self')) h
        = (if h \<in> fst ` set (moved @ lost) then None else fmlookup (low_entries (low_queue self)) h)" using low by blast
  qed (use eff(2) std other in blast)+
qed

section \<open>Witnesses\<close>

definition demo_qtx :: transaction where
  "demo_qtx = \<lparr>tx_id = Hash [1], inputs = [], outputs = [], execution_payload = [], contract_address = None,
     gas_limit = 0, max_fee_per_gas = 0, chain_id = 1, locktime = 0\<rparr>"

definition demo_qser :: "hash \<Rightarrow> bytes option" where
  "demo_qser h = (case h of Hash bs \<Rightarrow> Some bs)"

definition demo_queues :: multi_queue_admission_system where
  "demo_queues = fst (admit_transaction demo_qser 0 multi_queue_admission_system_new demo_qtx)"

definition demo_entry :: queue_entry where
  "demo_entry = \<lparr>qe_transaction = demo_qtx, qe_timestamp = 0, qe_fee_rate = 0, qe_is_system = False\<rparr>"

lemma demo_queues_reachable: "(mq_step sorted_list_of_fmap demo_qser)\<^sup>*\<^sup>* multi_queue_admission_system_new demo_queues"
  unfolding demo_queues_def by (intro r_into_rtranclp mq_admitted)

lemma demo_queues_low:
  "low_entries (low_queue demo_queues) = fmupd [1] demo_entry fmempty" "max_age_ms (low_queue demo_queues) = 300000"
  by (simp_all add: demo_queues_def admit_transaction_def multi_queue_admission_system_new_def high_priority_queue_new_def
    standard_queue_new_def low_priority_queue_new_def is_system_transaction_def calculate_fee_rate_def demo_qtx_def low_add_def
    demo_qser_def demo_entry_def fcard_fempty)

lemma sorted_iterates_queue: "iterates_queue sorted_list_of_fmap"
proof -
  have "map fst (sorted_list_of_fmap m) = sorted_list_of_fset (fmdom m)" for m :: "(bytes, queue_entry) fmap"
    by (simp add: sorted_list_of_fmap_def o_def)
  moreover have "set (sorted_list_of_fmap m) = {(h, e). fmlookup m h = Some e}" for m :: "(bytes, queue_entry) fmap"
    by (auto simp: sorted_list_of_fmap_def sorted_list_of_fset.rep_eq image_iff fmdomI)
  ultimately show ?thesis by (simp add: iterates_queue_def)
qed

theorem queues_bounded_witness: "qs_low (queue_get_stats demo_queues) \<le> 10000"
  using queues_bounded [OF demo_queues_reachable] by blast

theorem rebalance_moves_aged_witness:
  "\<exists>moved lost rest self' r. rebalance_queues sorted_list_of_fmap demo_qser 300000 demo_queues = (self', r)
     \<and> set (moved @ lost @ rest) = {([1], demo_entry)}
     \<and> (\<forall>(h, e)\<in>set moved. fmlookup (std_entries (standard_queue self')) h = Some (promoted 300000 e))"
proof -
  obtain self' r where run: "rebalance_queues sorted_list_of_fmap demo_qser 300000 demo_queues = (self', r)"
    by (cases "rebalance_queues sorted_list_of_fmap demo_qser 300000 demo_queues")
  have aged: "{(h, e). fmlookup (low_entries (low_queue demo_queues)) h = Some e
      \<and> max_age_ms (low_queue demo_queues) \<le> saturating_sub 300000 (qe_timestamp e)} = {([1], demo_entry)}"
    by (auto simp: demo_queues_low demo_entry_def saturating_sub_def split: if_splits)
  from rebalance_moves_aged [OF demo_queues_reachable sorted_iterates_queue run, unfolded aged] obtain moved lost rest
    where "set (moved @ lost @ rest) = {([1], demo_entry)}"
      "\<forall>(h, e)\<in>set moved. fmlookup (std_entries (standard_queue self')) h = Some (promoted 300000 e)" by blast
  with run show ?thesis by blast
qed

end
