(* ===== verification/Node_Db.thy ===== *)
theory Node_Db
  imports Prelude "HOL-Library.Sublist"
begin

text \<open>
  The node's database: \<open>storage/cf.rs\<close>, \<open>storage/error.rs\<close>, \<open>storage/schema.rs\<close>, \<open>storage/batch.rs\<close> and the
  data operations of \<open>storage/db.rs\<close>. RocksDB is the argument \<open>R\<close>, a record of its operations on a
  state of unknown type; what the node relies on is \<open>rocks_laws\<close>: reads return what is stored or
  fail, a write happens whole or not at all, an iterator yields stored entries in key order.
  bincode is the argument \<open>bc\<close>, one pair of functions per stored type, with \<open>bincode_laws\<close>: what was
  encoded is decoded again.
\<close>

section \<open>Column families and errors\<close>

datatype column_family_name =
  Default | Blocks | Headers | Transactions_CF | Utxo_CF | UtxoSpent | VerkleState | Dag_CF | DagTips

fun cf_as_str :: "column_family_name \<Rightarrow> string" where
  "cf_as_str Default = ''default''"
| "cf_as_str Blocks = ''blocks''"
| "cf_as_str Headers = ''headers''"
| "cf_as_str Transactions_CF = ''transactions''"
| "cf_as_str Utxo_CF = ''utxo''"
| "cf_as_str UtxoSpent = ''utxo_spent''"
| "cf_as_str VerkleState = ''verkle_state''"
| "cf_as_str Dag_CF = ''dag''"
| "cf_as_str DagTips = ''dag_tips''"

definition all_column_families :: "column_family_name list" where
  "all_column_families =
     [Default, Blocks, Headers, Transactions_CF, Utxo_CF, UtxoSpent, VerkleState, Dag_CF, DagTips]"

datatype storage_error =
  DbError string | NotFound string | InvalidColumnFamily string | OperationFailed string
| ConfigError string | SerializationError string | TypeMismatch string | RocksDbError string | LockError string

text \<open>\<open>From<rocksdb::Error>\<close> and \<open>From<bincode::Error>\<close>; the foreign errors are their messages.\<close>

definition from_rocksdb_error :: "string \<Rightarrow> storage_error" where
  "from_rocksdb_error msg =
     (if sublist ''lock held by'' msg \<or> sublist ''IO error'' msg then LockError msg else RocksDbError msg)"

definition from_bincode_error :: "string \<Rightarrow> storage_error" where
  "from_bincode_error msg = SerializationError msg"

section \<open>Stored values\<close>

record block_value =
  bv_hash :: bytes
  bv_header_bytes :: bytes
  bv_transactions :: "bytes list"
  bv_timestamp :: u64

record header_value =
  hv_block_hash :: bytes
  hv_parent_hashes :: "bytes list"
  hv_timestamp :: u64
  hv_difficulty :: u64
  hv_nonce :: u64
  hv_verkle_root :: bytes
  hv_height :: u64

record transaction_input =
  ti_previous_tx_hash :: bytes
  ti_output_index :: u32

record transaction_output =
  to_amount :: u64
  to_pubkey_hash :: bytes

record transaction_value =
  tv_tx_hash :: bytes
  tv_inputs :: "transaction_input list"
  tv_outputs :: "transaction_output list"
  tv_fee :: u64

record utxo_value =
  uv_amount :: u64
  uv_pubkey_hash :: bytes
  uv_script :: bytes
  uv_block_height :: u32

record utxo_spent_value =
  us_spent_by_tx_hash :: bytes
  us_input_index :: u32
  us_spent_at_block_height :: u32

record verkle_state_value =
  vs_commitment_path :: bytes
  vs_node_value :: bytes
  vs_is_leaf :: bool

record dag_node_value =
  dn_block_hash :: bytes
  dn_parent_hashes :: "bytes list"
  dn_blue_set :: "bytes list"
  dn_red_set :: "bytes list"
  dn_blue_score :: u64

record dag_tips_value =
  dt_tip_blocks :: "bytes list"
  dt_last_updated_height :: u32

definition block_value_from_parts :: "bytes \<Rightarrow> bytes \<Rightarrow> bytes list \<Rightarrow> u64 \<Rightarrow> block_value" where
  "block_value_from_parts h header_bytes txs t =
     \<lparr>bv_hash = h, bv_header_bytes = header_bytes, bv_transactions = txs, bv_timestamp = t\<rparr>"

definition utxo_value_new :: "u64 \<Rightarrow> bytes \<Rightarrow> bytes \<Rightarrow> u32 \<Rightarrow> utxo_value" where
  "utxo_value_new amount pkh script height =
     \<lparr>uv_amount = amount, uv_pubkey_hash = pkh, uv_script = script, uv_block_height = height\<rparr>"

definition utxo_spent_value_new :: "bytes \<Rightarrow> u32 \<Rightarrow> u32 \<Rightarrow> utxo_spent_value" where
  "utxo_spent_value_new h i height = \<lparr>us_spent_by_tx_hash = h, us_input_index = i, us_spent_at_block_height = height\<rparr>"

definition verkle_state_value_new :: "bytes \<Rightarrow> bytes \<Rightarrow> bool \<Rightarrow> verkle_state_value" where
  "verkle_state_value_new path v leaf = \<lparr>vs_commitment_path = path, vs_node_value = v, vs_is_leaf = leaf\<rparr>"

definition dag_node_value_new :: "bytes \<Rightarrow> bytes list \<Rightarrow> bytes list \<Rightarrow> bytes list \<Rightarrow> u64 \<Rightarrow> dag_node_value" where
  "dag_node_value_new h ps blue red score =
     \<lparr>dn_block_hash = h, dn_parent_hashes = ps, dn_blue_set = blue, dn_red_set = red, dn_blue_score = score\<rparr>"

definition dag_tips_value_new :: "bytes list \<Rightarrow> u32 \<Rightarrow> dag_tips_value" where
  "dag_tips_value_new ts height = \<lparr>dt_tip_blocks = ts, dt_last_updated_height = height\<rparr>"

record 'v codec =
  codec_ser :: "'v \<Rightarrow> string + bytes"
  codec_de :: "bytes \<Rightarrow> string + 'v"

record bincode =
  bc_block :: "block_value codec"
  bc_header :: "header_value codec"
  bc_transaction :: "transaction_value codec"
  bc_utxo :: "utxo_value codec"
  bc_utxo_spent :: "utxo_spent_value codec"
  bc_verkle_state :: "verkle_state_value codec"
  bc_dag_node :: "dag_node_value codec"
  bc_dag_tips :: "dag_tips_value codec"

text \<open>\<open>to_bytes()?\<close> and \<open>from_bytes()?\<close> of a stored type in a function that returns a \<open>StorageResult\<close>.\<close>

definition to_bytes :: "'v codec \<Rightarrow> 'v \<Rightarrow> storage_error + bytes" where
  "to_bytes c v = map_err from_bincode_error (codec_ser c v)"

definition from_bytes :: "'v codec \<Rightarrow> bytes \<Rightarrow> storage_error + 'v" where
  "from_bytes c raw = map_err from_bincode_error (codec_de c raw)"

definition codec_ok :: "'v codec \<Rightarrow> bool" where
  "codec_ok c \<longleftrightarrow> (\<forall>v raw. codec_ser c v = Inr raw \<longrightarrow> codec_de c raw = Inr v)"

definition bincode_laws :: "bincode \<Rightarrow> bool" where
  "bincode_laws bc \<longleftrightarrow> codec_ok (bc_block bc) \<and> codec_ok (bc_header bc) \<and> codec_ok (bc_transaction bc) \<and> codec_ok (bc_utxo bc)
     \<and> codec_ok (bc_utxo_spent bc) \<and> codec_ok (bc_verkle_state bc) \<and> codec_ok (bc_dag_node bc) \<and> codec_ok (bc_dag_tips bc)"

lemma to_bytes_from_bytes: "codec_ok c \<Longrightarrow> to_bytes c v = Inr raw \<Longrightarrow> from_bytes c raw = Inr v"
  by (simp add: to_bytes_def from_bytes_def codec_ok_def)

text \<open>The key of an output: transaction hash, then the index with its low byte first.\<close>

definition make_utxo_key :: "bytes \<Rightarrow> u32 \<Rightarrow> bytes" where
  "make_utxo_key tx_hash output_index = tx_hash @ to_le_bytes 4 output_index"

definition parse_utxo_key :: "bytes \<Rightarrow> (bytes \<times> u32) option" where
  "parse_utxo_key key = (if length key \<noteq> 36 then None else Some (take 32 key, from_le_bytes (drop 32 key)))"

section \<open>Batches\<close>

datatype write_op = Put bytes bytes | Delete bytes | PutCf string bytes bytes | DeleteCf string bytes

record write_batch =
  batch_ops :: "write_op list"

definition write_batch_new :: write_batch where
  "write_batch_new = \<lparr>batch_ops = []\<rparr>"

definition batch_put :: "write_batch \<Rightarrow> bytes \<Rightarrow> bytes \<Rightarrow> write_batch" where
  "batch_put self key v = self\<lparr>batch_ops := batch_ops self @ [Put key v]\<rparr>"

definition batch_delete :: "write_batch \<Rightarrow> bytes \<Rightarrow> write_batch" where
  "batch_delete self key = self\<lparr>batch_ops := batch_ops self @ [Delete key]\<rparr>"

definition batch_put_cf :: "write_batch \<Rightarrow> string \<Rightarrow> bytes \<Rightarrow> bytes \<Rightarrow> write_batch" where
  "batch_put_cf self cf key v = self\<lparr>batch_ops := batch_ops self @ [PutCf cf key v]\<rparr>"

definition batch_delete_cf :: "write_batch \<Rightarrow> string \<Rightarrow> bytes \<Rightarrow> write_batch" where
  "batch_delete_cf self cf key = self\<lparr>batch_ops := batch_ops self @ [DeleteCf cf key]\<rparr>"

definition put_cf_typed :: "write_batch \<Rightarrow> column_family_name \<Rightarrow> bytes \<Rightarrow> bytes \<Rightarrow> write_batch" where
  "put_cf_typed self cf key v = self\<lparr>batch_ops := batch_ops self @ [PutCf (cf_as_str cf) key v]\<rparr>"

definition delete_cf_typed :: "write_batch \<Rightarrow> column_family_name \<Rightarrow> bytes \<Rightarrow> write_batch" where
  "delete_cf_typed self cf key = self\<lparr>batch_ops := batch_ops self @ [DeleteCf (cf_as_str cf) key]\<rparr>"

definition into_inner :: "write_batch \<Rightarrow> write_op list" where
  "into_inner self = batch_ops self"

section \<open>The database\<close>

datatype rocks_op =
  RbPut bytes bytes | RbDelete bytes | RbPutCf column_family_name bytes bytes | RbDeleteCf column_family_name bytes

record 'd rocksdb =
  rdb_get :: "'d \<Rightarrow> column_family_name \<Rightarrow> bytes \<Rightarrow> string + bytes option"
  rdb_put :: "'d \<Rightarrow> column_family_name \<Rightarrow> bytes \<Rightarrow> bytes \<Rightarrow> 'd \<times> (string + unit)"
  rdb_delete :: "'d \<Rightarrow> column_family_name \<Rightarrow> bytes \<Rightarrow> 'd \<times> (string + unit)"
  rdb_delete_range :: "'d \<Rightarrow> column_family_name \<Rightarrow> bytes \<Rightarrow> bytes \<Rightarrow> 'd \<times> (string + unit)"
  rdb_write :: "'d \<Rightarrow> rocks_op list \<Rightarrow> 'd \<times> (string + unit)"
  rdb_write_no_wal :: "'d \<Rightarrow> rocks_op list \<Rightarrow> 'd \<times> (string + unit)"
  rdb_iter :: "'d \<Rightarrow> column_family_name \<Rightarrow> bytes option \<Rightarrow> (string + bytes \<times> bytes) list"

text \<open>\<open>open_with_config\<close> opens the database with every column family and no code adds or drops one, so
  \<open>cf_handle\<close> succeeds exactly for their names; the \<open>expect\<close> of the typed operations never fires.\<close>

definition cf_handle :: "string \<Rightarrow> column_family_name option" where
  "cf_handle cf_name = find (\<lambda>cf. cf_as_str cf = cf_name) all_column_families"

lemma cf_handle_typed [simp]: "cf_handle (cf_as_str cf) = Some cf"
  by (cases cf) (simp_all add: cf_handle_def all_column_families_def)

definition db_get :: "'d rocksdb \<Rightarrow> 'd \<Rightarrow> column_family_name \<Rightarrow> bytes \<Rightarrow> string + bytes option" where
  "db_get R d cf_name key = rdb_get R d cf_name key"

definition db_put :: "'d rocksdb \<Rightarrow> 'd \<Rightarrow> column_family_name \<Rightarrow> bytes \<Rightarrow> bytes \<Rightarrow> 'd \<times> (string + unit)" where
  "db_put R d cf_name key v = rdb_put R d cf_name key v"

definition db_delete :: "'d rocksdb \<Rightarrow> 'd \<Rightarrow> column_family_name \<Rightarrow> bytes \<Rightarrow> 'd \<times> (string + unit)" where
  "db_delete R d cf_name key = rdb_delete R d cf_name key"

definition db_delete_range :: "'d rocksdb \<Rightarrow> 'd \<Rightarrow> column_family_name \<Rightarrow> bytes \<Rightarrow> bytes \<Rightarrow> 'd \<times> (string + unit)" where
  "db_delete_range R d cf_name start_key end_key = rdb_delete_range R d cf_name start_key end_key"

definition db_exists :: "'d rocksdb \<Rightarrow> 'd \<Rightarrow> column_family_name \<Rightarrow> bytes \<Rightarrow> string + bool" where
  "db_exists R d cf_name key = bind_res (db_get R d cf_name key) (\<lambda>r. Inr (r \<noteq> None))"

fun resolve_op :: "write_op \<Rightarrow> rocks_op list" where
  "resolve_op (Put key v) = [RbPut key v]"
| "resolve_op (Delete key) = [RbDelete key]"
| "resolve_op (PutCf cf_name key v) = (case cf_handle cf_name of Some cf \<Rightarrow> [RbPutCf cf key v] | None \<Rightarrow> [])"
| "resolve_op (DeleteCf cf_name key) = (case cf_handle cf_name of Some cf \<Rightarrow> [RbDeleteCf cf key] | None \<Rightarrow> [])"

definition db_write_batch :: "'d rocksdb \<Rightarrow> 'd \<Rightarrow> write_batch \<Rightarrow> 'd \<times> (string + unit)" where
  "db_write_batch R d batch = rdb_write R d (concat (map resolve_op (into_inner batch)))"

definition db_write_batch_no_wal :: "'d rocksdb \<Rightarrow> 'd \<Rightarrow> write_batch \<Rightarrow> 'd \<times> (string + unit)" where
  "db_write_batch_no_wal R d batch = rdb_write_no_wal R d (concat (map resolve_op (into_inner batch)))"

subsection \<open>What the database promises\<close>

type_synonym contents = "column_family_name \<Rightarrow> bytes \<Rightarrow> bytes option"

definition store :: "contents \<Rightarrow> column_family_name \<Rightarrow> bytes \<Rightarrow> bytes option \<Rightarrow> contents" where
  "store m cf key r = m(cf := (m cf)(key := r))"

lemma store_apply: "store m cf key r cf' key' = (if cf' = cf \<and> key' = key then r else m cf' key')"
  by (simp add: store_def)

lemma store_same [simp]: "store m cf key x cf = (m cf)(key := x)" "cf' \<noteq> cf \<Longrightarrow> store m cf key x cf' = m cf'"
  by (simp_all add: store_def)

fun apply_rocks_op :: "rocks_op \<Rightarrow> contents \<Rightarrow> contents" where
  "apply_rocks_op (RbPut key v) m = store m Default key (Some v)"
| "apply_rocks_op (RbDelete key) m = store m Default key None"
| "apply_rocks_op (RbPutCf cf key v) m = store m cf key (Some v)"
| "apply_rocks_op (RbDeleteCf cf key) m = store m cf key None"

definition written :: "'d \<times> (string + unit) \<Rightarrow> ('d \<Rightarrow> contents) \<Rightarrow> contents \<Rightarrow> contents \<Rightarrow> bool" where
  "written w view before after \<longleftrightarrow> view (fst w) = (if is_ok (snd w) then after else before)"

definition rocks_laws :: "'d rocksdb \<Rightarrow> ('d \<Rightarrow> contents) \<Rightarrow> bool" where
  "rocks_laws R view \<longleftrightarrow>
     (\<forall>d cf key r. rdb_get R d cf key = Inr r \<longrightarrow> r = view d cf key) \<and>
     (\<forall>d cf key v. written (rdb_put R d cf key v) view (view d) (store (view d) cf key (Some v))) \<and>
     (\<forall>d cf key. written (rdb_delete R d cf key) view (view d) (store (view d) cf key None)) \<and>
     (\<forall>d cf k1 k2. written (rdb_delete_range R d cf k1 k2) view (view d)
        (\<lambda>cf' k. if cf' = cf \<and> k1 \<le> k \<and> k < k2 then None else view d cf' k)) \<and>
     (\<forall>d ops. written (rdb_write R d ops) view (view d) (fold apply_rocks_op ops (view d))) \<and>
     (\<forall>d ops. written (rdb_write_no_wal R d ops) view (view d) (fold apply_rocks_op ops (view d))) \<and>
     (\<forall>d cf start key v. Inr (key, v) \<in> set (rdb_iter R d cf start) \<longrightarrow> view d cf key = Some v) \<and>
     (\<forall>d cf start kvs. rdb_iter R d cf start = map Inr kvs \<longrightarrow> sorted_wrt (<) (map fst kvs) \<and>
        set kvs = {(key, v). view d cf key = Some v \<and> (\<forall>s. start = Some s \<longrightarrow> s \<le> key)})"

lemma rocks_get: "rocks_laws R view \<Longrightarrow> db_get R d cf key = Inr r \<Longrightarrow> r = view d cf key"
  by (simp add: rocks_laws_def db_get_def)

lemma rocks_put: "rocks_laws R view \<Longrightarrow> written (db_put R d cf key v) view (view d) (store (view d) cf key (Some v))"
  by (simp add: rocks_laws_def db_put_def)

lemma rocks_iter:
  "rocks_laws R view \<Longrightarrow> Inr (key, v) \<in> set (rdb_iter R d cf start) \<Longrightarrow> view d cf key = Some v"
  unfolding rocks_laws_def by blast

lemma rocks_iter_all:
  assumes "rocks_laws R view" and "rdb_iter R d cf start = map Inr kvs"
  shows "sorted_wrt (<) (map fst kvs)"
    and "set kvs = {(key, v). view d cf key = Some v \<and> (\<forall>s. start = Some s \<longrightarrow> s \<le> key)}"
  using assms unfolding rocks_laws_def by blast+

text \<open>A batch on the contents: operations on named families that do not exist are skipped.\<close>

definition apply_batch :: "write_batch \<Rightarrow> contents \<Rightarrow> contents" where
  "apply_batch batch m = fold apply_rocks_op (concat (map resolve_op (into_inner batch))) m"

lemma rocks_write: "rocks_laws R view \<Longrightarrow> written (db_write_batch R d b) view (view d) (apply_batch b (view d))"
  by (simp add: rocks_laws_def db_write_batch_def apply_batch_def)

lemma rocks_write_no_wal:
  "rocks_laws R view \<Longrightarrow> written (db_write_batch_no_wal R d b) view (view d) (apply_batch b (view d))"
  by (simp add: rocks_laws_def db_write_batch_no_wal_def apply_batch_def)

lemma apply_batch_simps [simp]:
  "apply_batch write_batch_new m = m"
  "apply_batch (batch_put b key v) m = store (apply_batch b m) Default key (Some v)"
  "apply_batch (batch_delete b key) m = store (apply_batch b m) Default key None"
  "apply_batch (put_cf_typed b cf key v) m = store (apply_batch b m) cf key (Some v)"
  "apply_batch (delete_cf_typed b cf key) m = store (apply_batch b m) cf key None"
  by (simp_all add: apply_batch_def into_inner_def write_batch_new_def batch_put_def batch_delete_def
      put_cf_typed_def delete_cf_typed_def)

section \<open>Properties\<close>

lemma from_le_to_le_u32 [simp]: "from_le_bytes (to_le_bytes 4 w) = (w :: u32)"
  by (rule from_to_le_bytes) simp

lemma make_utxo_key_inject:
  "make_utxo_key h i = make_utxo_key h' i' \<longleftrightarrow> h = h' \<and> i = i'"
proof
  assume "make_utxo_key h i = make_utxo_key h' i'"
  then have "h = h'" "to_le_bytes 4 i = to_le_bytes 4 i'" by (simp_all add: make_utxo_key_def)
  then show "h = h' \<and> i = i'" by (metis from_le_to_le_u32)
qed simp

lemma le_digits_le_value: "le_digits (length bs) (le_value bs) = bs"
proof (induction bs)
  case (Cons b bs)
  have "unat b < 256" using unsigned_less [of b] by simp
  with Cons show ?case by simp
qed simp

lemma to_le_from_le_u32: "length bs = 4 \<Longrightarrow> to_le_bytes 4 (from_le_bytes bs :: u32) = bs"
  using le_digits_le_value [of bs] le_value_bound [of bs]
  by (simp add: to_le_bytes_def from_le_bytes_def unat_of_nat_small)

lemma parse_utxo_key_Some: "parse_utxo_key key = Some (h, i) \<longleftrightarrow> length h = 32 \<and> key = make_utxo_key h i"
proof
  assume "parse_utxo_key key = Some (h, i)"
  then have "length key = 36" "h = take 32 key" "i = from_le_bytes (drop 32 key)"
    by (simp_all add: parse_utxo_key_def split: if_splits)
  then show "length h = 32 \<and> key = make_utxo_key h i"
    by (simp add: make_utxo_key_def to_le_from_le_u32)
qed (simp add: parse_utxo_key_def make_utxo_key_def)

text \<open>The keys of outputs round-trip: the key built from a hash of 32 bytes and an index is parsed
  to that hash and index, every key that parses is the key of what it parses to, keys of other
  lengths are refused, and different outputs have different keys whatever the length of their
  hashes.\<close>

theorem utxo_key_roundtrip:
  "(length h = 32 \<longrightarrow> parse_utxo_key (make_utxo_key h i) = Some (h, i)) \<and>
   (parse_utxo_key key = Some (h, i) \<longleftrightarrow> length h = 32 \<and> key = make_utxo_key h i) \<and>
   (parse_utxo_key key = None \<longleftrightarrow> length key \<noteq> 36) \<and>
   (make_utxo_key h i = make_utxo_key h' i' \<longleftrightarrow> h = h' \<and> i = i')"
  using parse_utxo_key_Some [of key h i] make_utxo_key_inject [of h i h' i']
  by (auto simp: parse_utxo_key_def make_utxo_key_def)

text \<open>A hash of 32 bytes, an output of it and the key.\<close>

theorem utxo_key_roundtrip_witness:
  "parse_utxo_key (make_utxo_key (replicate 32 7) 258) = Some (replicate 32 7, 258)"
  using utxo_key_roundtrip [of "replicate 32 7" 258 "[]" "[]" 0] by simp

section \<open>A database for the examples\<close>

text \<open>A database in memory that never fails, and a codec for a single value.\<close>

type_synonym memory = "(column_family_name \<times> bytes, bytes) fmap"

definition memory_view :: "memory \<Rightarrow> contents" where
  "memory_view d = (\<lambda>cf key. fmlookup d (cf, key))"

fun memory_op :: "rocks_op \<Rightarrow> memory \<Rightarrow> memory" where
  "memory_op (RbPut key v) d = fmupd (Default, key) v d"
| "memory_op (RbDelete key) d = fmdrop (Default, key) d"
| "memory_op (RbPutCf cf key v) d = fmupd (cf, key) v d"
| "memory_op (RbDeleteCf cf key) d = fmdrop (cf, key) d"

definition memory_keys :: "memory \<Rightarrow> column_family_name \<Rightarrow> bytes list" where
  "memory_keys d cf = sorted_list_of_fset (snd |`| ffilter (\<lambda>p. fst p = cf) (fmdom d))"

definition memory_db :: "memory rocksdb" where
  "memory_db = \<lparr>
     rdb_get = \<lambda>d cf key. Inr (fmlookup d (cf, key)),
     rdb_put = \<lambda>d cf key v. (fmupd (cf, key) v d, Inr ()),
     rdb_delete = \<lambda>d cf key. (fmdrop (cf, key) d, Inr ()),
     rdb_delete_range = \<lambda>d cf k1 k2. (fmfilter (\<lambda>p. \<not> (fst p = cf \<and> k1 \<le> snd p \<and> snd p < k2)) d, Inr ()),
     rdb_write = \<lambda>d ops. (fold memory_op ops d, Inr ()),
     rdb_write_no_wal = \<lambda>d ops. (fold memory_op ops d, Inr ()),
     rdb_iter = \<lambda>d cf start. map (\<lambda>key. Inr (key, the (fmlookup d (cf, key))))
       (filter (\<lambda>key. case start of None \<Rightarrow> True | Some s \<Rightarrow> s \<le> key) (memory_keys d cf))\<rparr>"

lemma memory_op_view: "memory_view (memory_op op d) = apply_rocks_op op (memory_view d)"
  by (cases op) (auto simp: memory_view_def fun_eq_iff store_apply)

lemma memory_ops_view: "memory_view (fold memory_op ops d) = fold apply_rocks_op ops (memory_view d)"
  by (induction ops arbitrary: d) (simp_all add: memory_op_view)

lemma memory_keys_set: "set (memory_keys d cf) = {key. memory_view d cf key \<noteq> None}"
  by (force simp: memory_keys_def memory_view_def fmlookup_dom_iff)

lemma memory_iter:
  assumes "rdb_iter memory_db d cf start = map Inr kvs"
  shows "sorted_wrt (<) (map fst kvs) \<and>
    set kvs = {(key, v). memory_view d cf key = Some v \<and> (\<forall>s. start = Some s \<longrightarrow> s \<le> key)}"
proof -
  let ?keys = "filter (\<lambda>key. case start of None \<Rightarrow> True | Some s \<Rightarrow> s \<le> key) (memory_keys d cf)"
  have "map (Inr :: _ \<Rightarrow> string + bytes \<times> bytes) kvs = map (\<lambda>key. Inr (key, the (fmlookup d (cf, key)))) ?keys"
    using assms by (simp add: memory_db_def)
  from arg_cong [OF this, of "map projr"] have kvs: "kvs = map (\<lambda>key. (key, the (fmlookup d (cf, key)))) ?keys"
    by (simp add: comp_def)
  have "sorted_wrt (<) ?keys"
    by (rule sorted_wrt_filter) (simp add: memory_keys_def strict_sorted_iff)
  then have "sorted_wrt (<) (map fst kvs)" by (simp add: kvs comp_def)
  moreover have "set kvs = {(key, v). memory_view d cf key = Some v \<and> (\<forall>s. start = Some s \<longrightarrow> s \<le> key)}"
    unfolding kvs by (auto simp: memory_keys_set memory_view_def split: option.splits)
  ultimately show ?thesis ..
qed

lemma memory_iter_member:
  "Inr (key, v) \<in> set (rdb_iter memory_db d cf start) \<Longrightarrow> memory_view d cf key = Some v"
  by (auto simp: memory_db_def memory_keys_set memory_view_def)

lemma memory_iter_total: "\<exists>kvs. rdb_iter memory_db d cf start = map Inr kvs"
  by (rule exI [of _ "map projr (rdb_iter memory_db d cf start)"]) (simp add: memory_db_def comp_def)

lemma memory_db_laws: "rocks_laws memory_db memory_view"
  unfolding rocks_laws_def
proof (intro conjI)
  show "\<forall>d cf start key v. Inr (key, v) \<in> set (rdb_iter memory_db d cf start) \<longrightarrow> memory_view d cf key = Some v"
    using memory_iter_member by blast
  show "\<forall>d cf start kvs. rdb_iter memory_db d cf start = map Inr kvs \<longrightarrow> sorted_wrt (<) (map fst kvs) \<and>
    set kvs = {(key, v). memory_view d cf key = Some v \<and> (\<forall>s. start = Some s \<longrightarrow> s \<le> key)}"
    using memory_iter by blast
  show "\<forall>d ops. written (rdb_write memory_db d ops) memory_view (memory_view d) (fold apply_rocks_op ops (memory_view d))"
    "\<forall>d ops. written (rdb_write_no_wal memory_db d ops) memory_view (memory_view d) (fold apply_rocks_op ops (memory_view d))"
    by (simp_all add: memory_db_def written_def memory_ops_view)
qed (auto simp: memory_db_def written_def memory_view_def fun_eq_iff store_apply)

definition single_codec :: "'v \<Rightarrow> 'v codec" where
  "single_codec v = \<lparr>
     codec_ser = \<lambda>x. if x = v then Inr [1] else Inl ''unsupported value'',
     codec_de = \<lambda>raw. if raw = [1] then Inr v else Inl ''invalid data''\<rparr>"

lemma single_codec_ok [simp]: "codec_ok (single_codec v)"
  by (simp add: single_codec_def codec_ok_def)

definition demo_utxo_value :: utxo_value where
  "demo_utxo_value = utxo_value_new 5 [1] [] 0"

definition demo_bincode :: bincode where
  "demo_bincode = \<lparr>
     bc_block = single_codec (block_value_from_parts [9] [] [] 0),
     bc_header = single_codec \<lparr>hv_block_hash = [9], hv_parent_hashes = [], hv_timestamp = 0, hv_difficulty = 1, hv_nonce = 0,
       hv_verkle_root = [], hv_height = 3\<rparr>,
     bc_transaction = single_codec \<lparr>tv_tx_hash = [7], tv_inputs = [], tv_outputs = [], tv_fee = 0\<rparr>,
     bc_utxo = single_codec demo_utxo_value,
     bc_utxo_spent = single_codec (utxo_spent_value_new [7] 0 3),
     bc_verkle_state = single_codec (verkle_state_value_new [] [] True),
     bc_dag_node = single_codec (dag_node_value_new [9] [] [] [] 0),
     bc_dag_tips = single_codec (dag_tips_value_new [[9]] 3)\<rparr>"

lemma demo_bincode_laws: "bincode_laws demo_bincode"
  by (simp add: bincode_laws_def demo_bincode_def)

end
