(* ===== verification/Node_Cache.thy ===== *)
theory Node_Cache
  imports Node_Db
begin

text \<open>
  The layers above the database: the caches and the writer thread of \<open>storage/cache.rs\<close> and
  \<open>storage/concurrency.rs\<close>, and the typed operations of \<open>storage/kv_store.rs\<close>. \<open>lru::LruCache\<close> is a
  list of entries, the most recently used first, cut at its capacity. The writer thread is modelled
  by its queue: a round commits the messages that are waiting, at most sixteen, as one batch. A
  caller waits for its answer, so that a call is its message followed by the writer's rounds; the
  errors for a closed queue or a dead writer cannot occur while a sender exists.
\<close>

section \<open>Caches\<close>

record 'v lru_cache =
  lru_cap :: nat
  lru_items :: "(bytes \<times> 'v) list"

text \<open>\<open>NonZeroUsize::new(capacity).unwrap()\<close> panics for zero.\<close>

definition lru_new :: "nat \<Rightarrow> 'v lru_cache option" where
  "lru_new capacity = (if capacity = 0 then None else Some \<lparr>lru_cap = capacity, lru_items = []\<rparr>)"

definition lru_without :: "bytes \<Rightarrow> (bytes \<times> 'v) list \<Rightarrow> (bytes \<times> 'v) list" where
  "lru_without key items = filter (\<lambda>kv. fst kv \<noteq> key) items"

definition lru_put :: "'v lru_cache \<Rightarrow> bytes \<Rightarrow> 'v \<Rightarrow> 'v lru_cache" where
  "lru_put self key v = self\<lparr>lru_items := take (lru_cap self) ((key, v) # lru_without key (lru_items self))\<rparr>"

definition lru_get :: "'v lru_cache \<Rightarrow> bytes \<Rightarrow> 'v lru_cache \<times> 'v option" where
  "lru_get self key = (case map_of (lru_items self) key of
       None \<Rightarrow> (self, None)
     | Some v \<Rightarrow> (self\<lparr>lru_items := (key, v) # lru_without key (lru_items self)\<rparr>, Some v))"

definition lru_pop :: "'v lru_cache \<Rightarrow> bytes \<Rightarrow> 'v lru_cache \<times> 'v option" where
  "lru_pop self key = (self\<lparr>lru_items := lru_without key (lru_items self)\<rparr>, map_of (lru_items self) key)"

definition lru_clear :: "'v lru_cache \<Rightarrow> 'v lru_cache" where
  "lru_clear self = self\<lparr>lru_items := []\<rparr>"

definition lru_len :: "'v lru_cache \<Rightarrow> nat" where
  "lru_len self = length (lru_items self)"

definition lru_is_empty :: "'v lru_cache \<Rightarrow> bool" where
  "lru_is_empty self \<longleftrightarrow> lru_items self = []"

lemma lru_without_set [simp]: "set (lru_without key items) = {kv \<in> set items. fst kv \<noteq> key}"
  by (auto simp: lru_without_def)

lemma lru_put_set: "kv \<in> set (lru_items (lru_put c key v)) \<Longrightarrow> kv = (key, v) \<or> kv \<in> set (lru_items c) \<and> fst kv \<noteq> key"
  by (auto simp: lru_put_def dest: in_set_takeD)

lemma lru_get_set: "lru_get c key = (c', r) \<Longrightarrow> set (lru_items c') \<subseteq> set (lru_items c) \<and> (\<forall>v. r = Some v \<longrightarrow> (key, v) \<in> set (lru_items c))"
  by (auto simp: lru_get_def split: option.splits dest: map_of_SomeD [OF sym] map_of_SomeD)

section \<open>The writer\<close>

definition GROUP_COMMIT_MAX_REQUESTS :: nat where
  "GROUP_COMMIT_MAX_REQUESTS = 16"

datatype storage_write_command =
  CmdPut column_family_name bytes bytes | CmdDelete column_family_name bytes

text \<open>\<open>response\<close> says whether the message carries a channel for the answer; a round returns the answers
  in the order of their messages.\<close>

record storage_write_message =
  msg_commands :: "storage_write_command list"
  msg_response :: bool

fun append_command :: "storage_write_command \<Rightarrow> write_batch \<Rightarrow> write_batch" where
  "append_command (CmdPut cf key v) batch = put_cf_typed batch cf key v"
| "append_command (CmdDelete cf key) batch = delete_cf_typed batch cf key"

definition append_to :: "storage_write_message \<Rightarrow> write_batch \<Rightarrow> write_batch" where
  "append_to self batch = fold append_command (msg_commands self) batch"

record storage_writer =
  write_queue :: "storage_write_message list"
  pending_writes :: u64
  committed_batches :: u64

definition storage_writer_new :: storage_writer where
  "storage_writer_new = \<lparr>write_queue = [], pending_writes = 0, committed_batches = 0\<rparr>"

definition writer_round ::
  "'d rocksdb \<Rightarrow> 'd \<Rightarrow> storage_writer \<Rightarrow> 'd \<times> storage_writer \<times> (storage_error + unit) list" where
  "writer_round R d self =
     (let group = take GROUP_COMMIT_MAX_REQUESTS (write_queue self);
          (d', r) = db_write_batch R d (fold append_to group write_batch_new);
          result = map_err from_rocksdb_error r in
      (d',
       self\<lparr>write_queue := drop GROUP_COMMIT_MAX_REQUESTS (write_queue self),
            pending_writes := pending_writes self - of_nat (length group),
            committed_batches := committed_batches self + (if is_ok result then 1 else 0)\<rparr>,
       map (\<lambda>_. result) (filter msg_response group)))"

function writer_loop ::
  "'d rocksdb \<Rightarrow> 'd \<Rightarrow> storage_writer \<Rightarrow> 'd \<times> storage_writer \<times> (storage_error + unit) list" where
  "writer_loop R d self =
     (if write_queue self = [] then (d, self, [])
      else (let (d1, self1, answers1) = writer_round R d self;
                (d2, self2, answers2) = writer_loop R d1 self1 in
            (d2, self2, answers1 @ answers2)))"
  by pat_completeness auto
termination
  by (relation "measure (\<lambda>(R, d, self). length (write_queue self))")
    (auto simp: writer_round_def GROUP_COMMIT_MAX_REQUESTS_def Let_def split: prod.splits)

declare writer_loop.simps [simp del]

definition enqueue ::
  "'d rocksdb \<Rightarrow> 'd \<Rightarrow> storage_writer \<Rightarrow> storage_write_command list \<Rightarrow> 'd \<times> storage_writer \<times> (storage_error + unit)" where
  "enqueue R d self commands =
     (if commands = [] then (d, self, Inr ())
      else (let message = \<lparr>msg_commands = commands, msg_response = True\<rparr>;
                queued = self\<lparr>write_queue := write_queue self @ [message], pending_writes := pending_writes self + 1\<rparr>;
                (d', self', answers) = writer_loop R d queued in
            (d', self', last answers)))"

subsection \<open>Group commit\<close>

definition apply_message :: "storage_write_message \<Rightarrow> contents \<Rightarrow> contents" where
  "apply_message m c = apply_batch (append_to m write_batch_new) c"

lemma apply_batch_command: "apply_batch (append_command c b) m = apply_batch (append_command c write_batch_new) (apply_batch b m)"
  by (cases c) simp_all

lemma apply_batch_commands:
  "apply_batch (fold append_command cs b) m = apply_batch (fold append_command cs write_batch_new) (apply_batch b m)"
proof (induction cs arbitrary: b m)
  case (Cons c cs)
  show ?case
    using Cons [of "append_command c b" m] Cons [of "append_command c write_batch_new" "apply_batch b m"] apply_batch_command [of c b m]
    by simp
qed simp

lemma apply_batch_message: "apply_batch (append_to m b) c = apply_message m (apply_batch b c)"
  using apply_batch_commands [of "msg_commands m" b c] by (simp add: append_to_def apply_message_def)

lemma apply_batch_group: "apply_batch (fold append_to ms b) c = fold apply_message ms (apply_batch b c)"
  by (induction ms arbitrary: b) (simp_all add: apply_batch_message)

lemma writer_round_cases:
  assumes "rocks_laws R view" and "writer_round R d w = (d', w', ans)"
  obtains r where "ans = map (\<lambda>_. r) (filter msg_response (take 16 (write_queue w)))" "write_queue w' = drop 16 (write_queue w)"
    "view d' = (if is_ok r then fold apply_message (take 16 (write_queue w)) (view d) else view d)"
    "pending_writes w' = pending_writes w - of_nat (length (take 16 (write_queue w)))"
proof -
  let ?b = "fold append_to (take 16 (write_queue w)) write_batch_new"
  obtain r where w: "db_write_batch R d ?b = (d', r)" "ans = map (\<lambda>_. map_err from_rocksdb_error r) (filter msg_response (take 16 (write_queue w)))"
    "write_queue w' = drop 16 (write_queue w)" "pending_writes w' = pending_writes w - of_nat (length (take 16 (write_queue w)))"
    using assms(2) by (auto simp: writer_round_def GROUP_COMMIT_MAX_REQUESTS_def Let_def split: prod.splits)
  have "is_ok (map_err from_rocksdb_error r) = is_ok r" by (cases r) simp_all
  then show thesis
    using that [OF w(2,3) _ w(4)] rocks_write [OF assms(1), of d ?b] w(1) by (simp add: written_def apply_batch_group)
qed

lemma filter_replicate_zip: "length xs = n \<Longrightarrow> map fst (filter (\<lambda>x. is_ok (snd x)) (zip xs (replicate n r))) = (if is_ok r then xs else [])"
  by (induction xs arbitrary: n) auto

lemma writer_loop_exact:
  assumes "rocks_laws R view" and "\<forall>m\<in>set (write_queue w). msg_response m" and "writer_loop R d w = (d', w', ans)"
  shows "write_queue w' = [] \<and> length ans = length (write_queue w) \<and> pending_writes w' = pending_writes w - of_nat (length (write_queue w))
    \<and> view d' = fold apply_message (map fst (filter (\<lambda>x. is_ok (snd x)) (zip (write_queue w) ans))) (view d)"
  using assms
proof (induction R d w arbitrary: d' w' ans rule: writer_loop.induct)
  case (1 R d w)
  show ?case
  proof (cases "write_queue w = []")
    case True
    with "1.prems"(3) show ?thesis by (simp add: writer_loop.simps [of R d w])
  next
    case False
    obtain d1 w1 a1 where r1: "writer_round R d w = (d1, w1, a1)" by (cases "writer_round R d w") auto
    obtain a2 where l: "writer_loop R d1 w1 = (d', w', a2)" "ans = a1 @ a2"
      using "1.prems"(3) False r1 by (auto simp: writer_loop.simps [of R d w] split: prod.splits)
    obtain r where r: "a1 = map (\<lambda>_. r) (filter msg_response (take 16 (write_queue w)))" "write_queue w1 = drop 16 (write_queue w)"
      "view d1 = (if is_ok r then fold apply_message (take 16 (write_queue w)) (view d) else view d)"
      "pending_writes w1 = pending_writes w - of_nat (length (take 16 (write_queue w)))"
      by (rule writer_round_cases [OF "1.prems"(1) r1])
    have "filter msg_response (take 16 (write_queue w)) = take 16 (write_queue w)"
      using "1.prems"(2) by (auto simp: filter_id_conv dest: in_set_takeD)
    then have a1: "a1 = replicate (length (take 16 (write_queue w))) r" using r(1) by (simp add: map_replicate_const)
    have "\<forall>m\<in>set (write_queue w1). msg_response m" using "1.prems"(2) r(2) by (auto dest: in_set_dropD)
    from "1.IH" [OF False r1 [symmetric] refl refl "1.prems"(1) this l(1)]
    have IH: "write_queue w' = []" "length a2 = length (write_queue w1)" "pending_writes w' = pending_writes w1 - of_nat (length (write_queue w1))"
      "view d' = fold apply_message (map fst (filter (\<lambda>x. is_ok (snd x)) (zip (write_queue w1) a2))) (view d1)" by simp_all
    have "zip (write_queue w) ans = zip (take 16 (write_queue w)) a1 @ zip (drop 16 (write_queue w)) a2"
      using zip_append [of "take 16 (write_queue w)" a1 "drop 16 (write_queue w)" a2] l(2) a1 by simp
    then have "map fst (filter (\<lambda>x. is_ok (snd x)) (zip (write_queue w) ans))
      = (if is_ok r then take 16 (write_queue w) else []) @ map fst (filter (\<lambda>x. is_ok (snd x)) (zip (write_queue w1) a2))"
      using filter_replicate_zip [of "take 16 (write_queue w)", OF refl, of r] a1 r(2) by simp
    moreover have "of_nat (length (write_queue w)) = (of_nat (length (take 16 (write_queue w))) + of_nat (length (write_queue w1)) :: u64)"
      using r(2) by (metis append_take_drop_id length_append of_nat_add)
    ultimately show ?thesis using IH r(3,4) l(2) a1 r(2) by (simp add: algebra_simps)
  qed
qed

text \<open>A call of \<open>enqueue\<close> with an idle writer: an answer \<open>Ok\<close> means that the commands are in the database, an
  error that nothing changed.\<close>

lemma enqueue_idle:
  assumes "rocks_laws R view" and "write_queue w = []" and "enqueue R d w cs = (d', w', r)"
  shows "write_queue w' = []" and "pending_writes w' = pending_writes w"
    and "view d' = (if is_ok r then apply_message \<lparr>msg_commands = cs, msg_response = True\<rparr> (view d) else view d)"
proof -
  let ?m = "\<lparr>msg_commands = cs, msg_response = True\<rparr>"
  let ?w = "w\<lparr>write_queue := [?m], pending_writes := pending_writes w + 1\<rparr>"
  have "write_queue w' = [] \<and> pending_writes w' = pending_writes w
    \<and> view d' = (if is_ok r then apply_message ?m (view d) else view d)"
  proof (cases "cs = []")
    case True
    with assms(2,3) show ?thesis by (auto simp: enqueue_def apply_message_def append_to_def)
  next
    case False
    then obtain ans where l: "writer_loop R d ?w = (d', w', ans)" "r = last ans"
      using assms(2,3) by (auto simp: enqueue_def Let_def split: prod.splits)
    have "\<forall>m\<in>set (write_queue ?w). msg_response m" by simp
    from writer_loop_exact [OF assms(1) this l(1)]
    have e: "write_queue w' = []" "length ans = 1" "pending_writes w' = pending_writes w"
      "view d' = fold apply_message (map fst (filter (\<lambda>x. is_ok (snd x)) (zip [?m] ans))) (view d)" by simp_all
    from e(2) obtain a where a: "ans = [a]" by (cases ans) auto
    with e l(2) show ?thesis by simp
  qed
  then show "write_queue w' = []" and "pending_writes w' = pending_writes w"
    and "view d' = (if is_ok r then apply_message ?m (view d) else view d)" by blast+
qed

section \<open>The cache layer\<close>

text \<open>Sequencing of operations that return a state and a result, the code's \<open>?\<close>.\<close>

definition and_then :: "'s \<times> ('e + 'a) \<Rightarrow> ('s \<Rightarrow> 'a \<Rightarrow> 's \<times> ('e + 'b)) \<Rightarrow> 's \<times> ('e + 'b)" where
  "and_then m f = (case m of (s, Inl e) \<Rightarrow> (s, Inl e) | (s, Inr x) \<Rightarrow> f s x)"

definition RECENT_BLOCK_CACHE_CAPACITY :: nat where
  "RECENT_BLOCK_CACHE_CAPACITY = 10000"

definition UTXO_HOT_CACHE_CAPACITY :: nat where
  "UTXO_HOT_CACHE_CAPACITY = 20000"

record 'd storage_cache_layer =
  cl_db :: 'd
  cl_writer :: storage_writer
  utxo_hot_cache :: "utxo_value lru_cache"
  recent_block_cache :: "block_value lru_cache"
  mempool_cache :: "(bytes, transaction_value) fmap"

definition new_with_writer :: "'d \<Rightarrow> storage_writer \<Rightarrow> 'd storage_cache_layer option" where
  "new_with_writer d w =
     (case (lru_new UTXO_HOT_CACHE_CAPACITY, lru_new RECENT_BLOCK_CACHE_CAPACITY) of
        (Some utxos, Some recent) \<Rightarrow>
          Some \<lparr>cl_db = d, cl_writer = w, utxo_hot_cache = utxos, recent_block_cache = recent, mempool_cache = fmempty\<rparr>
      | _ \<Rightarrow> None)"

definition storage_cache_layer_new :: "'d \<Rightarrow> 'd storage_cache_layer option" where
  "storage_cache_layer_new d = new_with_writer d storage_writer_new"

definition enqueue_write ::
  "'d rocksdb \<Rightarrow> 'd storage_cache_layer \<Rightarrow> storage_write_command \<Rightarrow> 'd storage_cache_layer \<times> (storage_error + unit)" where
  "enqueue_write R self command =
     (case enqueue R (cl_db self) (cl_writer self) [command] of
        (d, w, r) \<Rightarrow> (self\<lparr>cl_db := d, cl_writer := w\<rparr>, r))"

text \<open>The two bodies that most typed operations share: serialize and enqueue, read and deserialize.\<close>

definition put_typed ::
  "'v codec \<Rightarrow> column_family_name \<Rightarrow> 'd rocksdb \<Rightarrow> 'd storage_cache_layer \<Rightarrow> bytes \<Rightarrow> 'v \<Rightarrow> 'd storage_cache_layer \<times> (storage_error + unit)" where
  "put_typed c cf R self key v =
     (case to_bytes c v of Inl e \<Rightarrow> (self, Inl e) | Inr raw \<Rightarrow> enqueue_write R self (CmdPut cf key raw))"

definition get_typed ::
  "'v codec \<Rightarrow> column_family_name \<Rightarrow> 'd rocksdb \<Rightarrow> 'd storage_cache_layer \<Rightarrow> bytes \<Rightarrow> storage_error + 'v option" where
  "get_typed c cf R self key =
     bind_res (map_err from_rocksdb_error (db_get R (cl_db self) cf key)) (\<lambda>r.
       case r of Some raw \<Rightarrow> bind_res (from_bytes c raw) (\<lambda>v. Inr (Some v)) | None \<Rightarrow> Inr None)"

text \<open>The body of \<open>get_utxo\<close> and \<open>layer_get_block\<close>: the cache, then the database, whose answer is cached.\<close>

definition cached_read ::
  "'v codec \<Rightarrow> column_family_name \<Rightarrow> 'd rocksdb \<Rightarrow> 'd storage_cache_layer \<Rightarrow> 'v lru_cache \<Rightarrow> bytes \<Rightarrow> 'v lru_cache \<times> (storage_error + 'v option)" where
  "cached_read c cf R self cache key =
     (case lru_get cache key of
        (cache', Some v) \<Rightarrow> (cache', Inr (Some v))
      | (cache', None) \<Rightarrow>
          (case get_typed c cf R self key of
             Inl e \<Rightarrow> (cache', Inl e)
           | Inr (Some v) \<Rightarrow> (lru_put cache' key v, Inr (Some v))
           | Inr None \<Rightarrow> (cache', Inr None)))"

subsection \<open>Outputs\<close>

definition get_utxo ::
  "bincode \<Rightarrow> 'd rocksdb \<Rightarrow> 'd storage_cache_layer \<Rightarrow> bytes \<Rightarrow> u32 \<Rightarrow> 'd storage_cache_layer \<times> (storage_error + utxo_value option)" where
  "get_utxo bc R self tx_hash output_index =
     (case cached_read (bc_utxo bc) Utxo_CF R self (utxo_hot_cache self) (make_utxo_key tx_hash output_index) of
        (cache, r) \<Rightarrow> (self\<lparr>utxo_hot_cache := cache\<rparr>, r))"

definition put_utxo ::
  "bincode \<Rightarrow> 'd rocksdb \<Rightarrow> 'd storage_cache_layer \<Rightarrow> bytes \<Rightarrow> u32 \<Rightarrow> utxo_value \<Rightarrow> 'd storage_cache_layer \<times> (storage_error + unit)" where
  "put_utxo bc R self tx_hash output_index utxo =
     (let key = make_utxo_key tx_hash output_index in
      and_then (put_typed (bc_utxo bc) Utxo_CF R self key utxo) (\<lambda>self _.
        (self\<lparr>utxo_hot_cache := lru_put (utxo_hot_cache self) key utxo\<rparr>, Inr ())))"

definition delete_utxo ::
  "'d rocksdb \<Rightarrow> 'd storage_cache_layer \<Rightarrow> bytes \<Rightarrow> u32 \<Rightarrow> 'd storage_cache_layer \<times> (storage_error + unit)" where
  "delete_utxo R self tx_hash output_index =
     (let key = make_utxo_key tx_hash output_index in
      and_then (enqueue_write R self (CmdDelete Utxo_CF key)) (\<lambda>self _.
        (self\<lparr>utxo_hot_cache := fst (lru_pop (utxo_hot_cache self) key)\<rparr>, Inr ())))"

definition cache_utxo :: "'d storage_cache_layer \<Rightarrow> bytes \<Rightarrow> u32 \<Rightarrow> utxo_value \<Rightarrow> 'd storage_cache_layer" where
  "cache_utxo self tx_hash output_index utxo =
     self\<lparr>utxo_hot_cache := lru_put (utxo_hot_cache self) (make_utxo_key tx_hash output_index) utxo\<rparr>"

definition remove_utxo_from_cache :: "'d storage_cache_layer \<Rightarrow> bytes \<Rightarrow> u32 \<Rightarrow> 'd storage_cache_layer" where
  "remove_utxo_from_cache self tx_hash output_index =
     self\<lparr>utxo_hot_cache := fst (lru_pop (utxo_hot_cache self) (make_utxo_key tx_hash output_index))\<rparr>"

subsection \<open>Blocks\<close>

definition layer_get_block ::
  "bincode \<Rightarrow> 'd rocksdb \<Rightarrow> 'd storage_cache_layer \<Rightarrow> bytes \<Rightarrow> 'd storage_cache_layer \<times> (storage_error + block_value option)" where
  "layer_get_block bc R self block_hash =
     (case cached_read (bc_block bc) Blocks R self (recent_block_cache self) block_hash of
        (cache, r) \<Rightarrow> (self\<lparr>recent_block_cache := cache\<rparr>, r))"

definition put_block ::
  "bincode \<Rightarrow> 'd rocksdb \<Rightarrow> 'd storage_cache_layer \<Rightarrow> bytes \<Rightarrow> block_value \<Rightarrow> 'd storage_cache_layer \<times> (storage_error + unit)" where
  "put_block bc R self block_hash b =
     and_then (put_typed (bc_block bc) Blocks R self block_hash b) (\<lambda>self _.
       (self\<lparr>recent_block_cache := lru_put (recent_block_cache self) block_hash b\<rparr>, Inr ()))"

definition delete_block :: "'d rocksdb \<Rightarrow> 'd storage_cache_layer \<Rightarrow> bytes \<Rightarrow> 'd storage_cache_layer \<times> (storage_error + unit)" where
  "delete_block R self block_hash =
     and_then (enqueue_write R self (CmdDelete Blocks block_hash)) (\<lambda>self _.
       (self\<lparr>recent_block_cache := fst (lru_pop (recent_block_cache self) block_hash)\<rparr>, Inr ()))"

subsection \<open>The other families\<close>

definition get_transaction :: "bincode \<Rightarrow> 'd rocksdb \<Rightarrow> 'd storage_cache_layer \<Rightarrow> bytes \<Rightarrow> storage_error + transaction_value option" where
  "get_transaction bc R self tx_hash = get_typed (bc_transaction bc) Transactions_CF R self tx_hash"

definition put_transaction ::
  "bincode \<Rightarrow> 'd rocksdb \<Rightarrow> 'd storage_cache_layer \<Rightarrow> bytes \<Rightarrow> transaction_value \<Rightarrow> 'd storage_cache_layer \<times> (storage_error + unit)" where
  "put_transaction bc R self tx_hash tx = put_typed (bc_transaction bc) Transactions_CF R self tx_hash tx"

definition delete_transaction :: "'d rocksdb \<Rightarrow> 'd storage_cache_layer \<Rightarrow> bytes \<Rightarrow> 'd storage_cache_layer \<times> (storage_error + unit)" where
  "delete_transaction R self tx_hash = enqueue_write R self (CmdDelete Transactions_CF tx_hash)"

definition put_header ::
  "bincode \<Rightarrow> 'd rocksdb \<Rightarrow> 'd storage_cache_layer \<Rightarrow> bytes \<Rightarrow> header_value \<Rightarrow> 'd storage_cache_layer \<times> (storage_error + unit)" where
  "put_header bc R self block_hash hdr = put_typed (bc_header bc) Headers R self block_hash hdr"

definition delete_header :: "'d rocksdb \<Rightarrow> 'd storage_cache_layer \<Rightarrow> bytes \<Rightarrow> 'd storage_cache_layer \<times> (storage_error + unit)" where
  "delete_header R self block_hash = enqueue_write R self (CmdDelete Headers block_hash)"

definition get_header :: "bincode \<Rightarrow> 'd rocksdb \<Rightarrow> 'd storage_cache_layer \<Rightarrow> bytes \<Rightarrow> storage_error + header_value option" where
  "get_header bc R self block_hash = get_typed (bc_header bc) Headers R self block_hash"

definition put_utxo_spent ::
  "bincode \<Rightarrow> 'd rocksdb \<Rightarrow> 'd storage_cache_layer \<Rightarrow> bytes \<Rightarrow> u32 \<Rightarrow> utxo_spent_value \<Rightarrow> 'd storage_cache_layer \<times> (storage_error + unit)" where
  "put_utxo_spent bc R self tx_hash output_index spent =
     put_typed (bc_utxo_spent bc) UtxoSpent R self (make_utxo_key tx_hash output_index) spent"

definition delete_utxo_spent ::
  "'d rocksdb \<Rightarrow> 'd storage_cache_layer \<Rightarrow> bytes \<Rightarrow> u32 \<Rightarrow> 'd storage_cache_layer \<times> (storage_error + unit)" where
  "delete_utxo_spent R self tx_hash output_index =
     enqueue_write R self (CmdDelete UtxoSpent (make_utxo_key tx_hash output_index))"

definition get_utxo_spent ::
  "bincode \<Rightarrow> 'd rocksdb \<Rightarrow> 'd storage_cache_layer \<Rightarrow> bytes \<Rightarrow> u32 \<Rightarrow> storage_error + utxo_spent_value option" where
  "get_utxo_spent bc R self tx_hash output_index =
     get_typed (bc_utxo_spent bc) UtxoSpent R self (make_utxo_key tx_hash output_index)"

definition put_verkle_state ::
  "bincode \<Rightarrow> 'd rocksdb \<Rightarrow> 'd storage_cache_layer \<Rightarrow> bytes \<Rightarrow> verkle_state_value \<Rightarrow> 'd storage_cache_layer \<times> (storage_error + unit)" where
  "put_verkle_state bc R self path st = put_typed (bc_verkle_state bc) VerkleState R self path st"

definition delete_verkle_state :: "'d rocksdb \<Rightarrow> 'd storage_cache_layer \<Rightarrow> bytes \<Rightarrow> 'd storage_cache_layer \<times> (storage_error + unit)" where
  "delete_verkle_state R self path = enqueue_write R self (CmdDelete VerkleState path)"

definition get_verkle_state :: "bincode \<Rightarrow> 'd rocksdb \<Rightarrow> 'd storage_cache_layer \<Rightarrow> bytes \<Rightarrow> storage_error + verkle_state_value option" where
  "get_verkle_state bc R self path = get_typed (bc_verkle_state bc) VerkleState R self path"

definition put_dag_node ::
  "bincode \<Rightarrow> 'd rocksdb \<Rightarrow> 'd storage_cache_layer \<Rightarrow> bytes \<Rightarrow> dag_node_value \<Rightarrow> 'd storage_cache_layer \<times> (storage_error + unit)" where
  "put_dag_node bc R self block_hash node = put_typed (bc_dag_node bc) Dag_CF R self block_hash node"

definition delete_dag_node :: "'d rocksdb \<Rightarrow> 'd storage_cache_layer \<Rightarrow> bytes \<Rightarrow> 'd storage_cache_layer \<times> (storage_error + unit)" where
  "delete_dag_node R self block_hash = enqueue_write R self (CmdDelete Dag_CF block_hash)"

definition get_dag_node :: "bincode \<Rightarrow> 'd rocksdb \<Rightarrow> 'd storage_cache_layer \<Rightarrow> bytes \<Rightarrow> storage_error + dag_node_value option" where
  "get_dag_node bc R self block_hash = get_typed (bc_dag_node bc) Dag_CF R self block_hash"

definition current_tips_key :: bytes where
  "current_tips_key = map of_char ''current_tips''"

definition put_dag_tips ::
  "bincode \<Rightarrow> 'd rocksdb \<Rightarrow> 'd storage_cache_layer \<Rightarrow> bytes \<Rightarrow> dag_tips_value \<Rightarrow> 'd storage_cache_layer \<times> (storage_error + unit)" where
  "put_dag_tips bc R self key ts = put_typed (bc_dag_tips bc) DagTips R self key ts"

definition put_current_dag_tips ::
  "bincode \<Rightarrow> 'd rocksdb \<Rightarrow> 'd storage_cache_layer \<Rightarrow> dag_tips_value \<Rightarrow> 'd storage_cache_layer \<times> (storage_error + unit)" where
  "put_current_dag_tips bc R self ts = put_dag_tips bc R self current_tips_key ts"

definition delete_dag_tips :: "'d rocksdb \<Rightarrow> 'd storage_cache_layer \<Rightarrow> bytes \<Rightarrow> 'd storage_cache_layer \<times> (storage_error + unit)" where
  "delete_dag_tips R self key = enqueue_write R self (CmdDelete DagTips key)"

definition get_dag_tips :: "bincode \<Rightarrow> 'd rocksdb \<Rightarrow> 'd storage_cache_layer \<Rightarrow> bytes \<Rightarrow> storage_error + dag_tips_value option" where
  "get_dag_tips bc R self key = get_typed (bc_dag_tips bc) DagTips R self key"

definition get_current_dag_tips :: "bincode \<Rightarrow> 'd rocksdb \<Rightarrow> 'd storage_cache_layer \<Rightarrow> storage_error + dag_tips_value option" where
  "get_current_dag_tips bc R self = get_typed (bc_dag_tips bc) DagTips R self current_tips_key"

definition insert_mempool_transaction :: "'d storage_cache_layer \<Rightarrow> bytes \<Rightarrow> transaction_value \<Rightarrow> 'd storage_cache_layer" where
  "insert_mempool_transaction self tx_hash tx = self\<lparr>mempool_cache := fmupd tx_hash tx (mempool_cache self)\<rparr>"

definition get_mempool_transaction :: "'d storage_cache_layer \<Rightarrow> bytes \<Rightarrow> transaction_value option" where
  "get_mempool_transaction self tx_hash = fmlookup (mempool_cache self) tx_hash"

definition remove_mempool_transaction :: "'d storage_cache_layer \<Rightarrow> bytes \<Rightarrow> 'd storage_cache_layer" where
  "remove_mempool_transaction self tx_hash = self\<lparr>mempool_cache := fmdrop tx_hash (mempool_cache self)\<rparr>"

subsection \<open>Scans\<close>

fun scan_hash_loop ::
  "bincode \<Rightarrow> bytes \<Rightarrow> 'd storage_cache_layer \<Rightarrow> (u32 \<times> utxo_value) list \<Rightarrow> (string + bytes \<times> bytes) list
     \<Rightarrow> 'd storage_cache_layer \<times> (storage_error + (u32 \<times> utxo_value) list)" where
  "scan_hash_loop bc tx_hash self results [] = (self, Inr results)"
| "scan_hash_loop bc tx_hash self results (Inl e # items) = (self, Inl (from_rocksdb_error e))"
| "scan_hash_loop bc tx_hash self results (Inr (key, raw) # items) =
     (if length key < 32 \<or> take 32 key \<noteq> tx_hash then (self, Inr results)
      else (case parse_utxo_key key of
              None \<Rightarrow> scan_hash_loop bc tx_hash self results items
            | Some (parsed_hash, output_index) \<Rightarrow>
                if parsed_hash = tx_hash then
                  (case from_bytes (bc_utxo bc) raw of
                     Inl e \<Rightarrow> (self, Inl e)
                   | Inr utxo \<Rightarrow>
                       scan_hash_loop bc tx_hash
                         (self\<lparr>utxo_hot_cache := lru_put (utxo_hot_cache self) key utxo\<rparr>)
                         (results @ [(output_index, utxo)]) items)
                else (self, Inr results)))"

definition scan_utxos_by_tx_hash ::
  "bincode \<Rightarrow> 'd rocksdb \<Rightarrow> 'd storage_cache_layer \<Rightarrow> bytes \<Rightarrow> 'd storage_cache_layer \<times> (storage_error + (u32 \<times> utxo_value) list)" where
  "scan_utxos_by_tx_hash bc R self tx_hash =
     scan_hash_loop bc tx_hash self [] (rdb_iter R (cl_db self) Utxo_CF (Some (make_utxo_key tx_hash 0)))"

fun scan_range_loop ::
  "bincode \<Rightarrow> nat \<Rightarrow> 'd storage_cache_layer \<Rightarrow> (bytes \<times> utxo_value) list \<Rightarrow> (string + bytes \<times> bytes) list
     \<Rightarrow> 'd storage_cache_layer \<times> (storage_error + (bytes \<times> utxo_value) list)" where
  "scan_range_loop bc n self results [] = (self, Inr results)"
| "scan_range_loop bc n self results (Inl e # items) = (self, Inl (from_rocksdb_error e))"
| "scan_range_loop bc n self results (Inr (key, raw) # items) =
     (if length results \<ge> n then (self, Inr results)
      else (case from_bytes (bc_utxo bc) raw of
              Inl e \<Rightarrow> (self, Inl e)
            | Inr utxo \<Rightarrow>
                scan_range_loop bc n (self\<lparr>utxo_hot_cache := lru_put (utxo_hot_cache self) key utxo\<rparr>)
                  (results @ [(key, utxo)]) items))"

definition scan_utxo_range ::
  "bincode \<Rightarrow> 'd rocksdb \<Rightarrow> 'd storage_cache_layer \<Rightarrow> bytes \<Rightarrow> bytes \<Rightarrow> nat
     \<Rightarrow> 'd storage_cache_layer \<times> (storage_error + (bytes \<times> utxo_value) list)" where
  "scan_utxo_range bc R self start_key end_key max_results =
     scan_range_loop bc max_results self [] (rdb_iter R (cl_db self) Utxo_CF (Some start_key))"

fun scan_dag_loop ::
  "bincode \<Rightarrow> nat \<Rightarrow> dag_node_value list \<Rightarrow> (string + bytes \<times> bytes) list \<Rightarrow> storage_error + dag_node_value list" where
  "scan_dag_loop bc n results [] = Inr results"
| "scan_dag_loop bc n results (Inl e # items) = Inl (from_rocksdb_error e)"
| "scan_dag_loop bc n results (Inr (key, raw) # items) =
     (if length results \<ge> n then Inr results
      else bind_res (from_bytes (bc_dag_node bc) raw) (\<lambda>node. scan_dag_loop bc n (results @ [node]) items))"

definition scan_dag_nodes :: "bincode \<Rightarrow> 'd rocksdb \<Rightarrow> 'd storage_cache_layer \<Rightarrow> nat \<Rightarrow> storage_error + dag_node_value list" where
  "scan_dag_nodes bc R self limit = scan_dag_loop bc limit [] (rdb_iter R (cl_db self) Dag_CF None)"

fun scan_block_loop ::
  "bincode \<Rightarrow> nat \<Rightarrow> 'd storage_cache_layer \<Rightarrow> block_value list \<Rightarrow> (string + bytes \<times> bytes) list
     \<Rightarrow> 'd storage_cache_layer \<times> (storage_error + block_value list)" where
  "scan_block_loop bc n self results [] = (self, Inr results)"
| "scan_block_loop bc n self results (Inl e # items) = (self, Inl (from_rocksdb_error e))"
| "scan_block_loop bc n self results (Inr (key, raw) # items) =
     (if length results \<ge> n then (self, Inr results)
      else (case from_bytes (bc_block bc) raw of
              Inl e \<Rightarrow> (self, Inl e)
            | Inr b \<Rightarrow>
                scan_block_loop bc n (self\<lparr>recent_block_cache := lru_put (recent_block_cache self) key b\<rparr>)
                  (results @ [b]) items))"

definition scan_blocks :: "bincode \<Rightarrow> 'd rocksdb \<Rightarrow> 'd storage_cache_layer \<Rightarrow> nat \<Rightarrow> 'd storage_cache_layer \<times> (storage_error + block_value list)" where
  "scan_blocks bc R self limit = scan_block_loop bc limit self [] (rdb_iter R (cl_db self) Blocks None)"

section \<open>Coherence of the caches\<close>

definition cached_ok :: "'v codec \<Rightarrow> (bytes \<Rightarrow> bytes option) \<Rightarrow> 'v lru_cache \<Rightarrow> bool" where
  "cached_ok c m cache \<longleftrightarrow>
     (\<forall>key v. (key, v) \<in> set (lru_items cache) \<longrightarrow> (\<exists>raw. m key = Some raw \<and> from_bytes c raw = Inr v))"

lemma cached_ok_subset: "cached_ok c m cache \<Longrightarrow> set (lru_items cache') \<subseteq> set (lru_items cache) \<Longrightarrow> cached_ok c m cache'"
  unfolding cached_ok_def by blast

lemma cached_ok_fill:
  "cached_ok c m cache \<Longrightarrow> m key = Some raw \<Longrightarrow> from_bytes c raw = Inr v \<Longrightarrow> cached_ok c m (lru_put cache key v)"
  unfolding cached_ok_def by (metis lru_put_set prod.inject)

lemma cached_ok_put:
  assumes "cached_ok c m cache" and "codec_ok c" and "to_bytes c v = Inr raw"
  shows "cached_ok c (m(key := Some raw)) (lru_put cache key v)"
  unfolding cached_ok_def
proof (intro allI impI)
  fix k x assume "(k, x) \<in> set (lru_items (lru_put cache key v))"
  then consider "k = key" "x = v" | "(k, x) \<in> set (lru_items cache)" "k \<noteq> key"
    using lru_put_set [of "(k, x)" cache key v] by auto
  then show "\<exists>raw'. (m(key := Some raw)) k = Some raw' \<and> from_bytes c raw' = Inr x"
    by cases (use assms to_bytes_from_bytes [OF assms(2,3)] in \<open>auto simp: cached_ok_def\<close>)
qed

lemma cached_ok_pop: "cached_ok c m cache \<Longrightarrow> cached_ok c (m(key := None)) (fst (lru_pop cache key))"
  by (auto simp: cached_ok_def lru_pop_def)

text \<open>A layer between two calls: the writer is idle, the caches hold what the database holds and have
  room.\<close>

definition coherent :: "bincode \<Rightarrow> ('d \<Rightarrow> contents) \<Rightarrow> 'd storage_cache_layer \<Rightarrow> bool" where
  "coherent bc view self \<longleftrightarrow> write_queue (cl_writer self) = [] \<and>
     cached_ok (bc_utxo bc) (view (cl_db self) Utxo_CF) (utxo_hot_cache self) \<and>
     cached_ok (bc_block bc) (view (cl_db self) Blocks) (recent_block_cache self) \<and>
     0 < lru_cap (utxo_hot_cache self) \<and> 0 < lru_cap (recent_block_cache self)"

fun apply_command :: "storage_write_command \<Rightarrow> contents \<Rightarrow> contents" where
  "apply_command (CmdPut cf key raw) m = store m cf key (Some raw)"
| "apply_command (CmdDelete cf key) m = store m cf key None"

lemma apply_message_single: "apply_message \<lparr>msg_commands = [c], msg_response = True\<rparr> m = apply_command c m"
  by (cases c) (simp_all add: apply_message_def append_to_def)

lemma enqueue_write_effect:
  assumes "rocks_laws R view" and "write_queue (cl_writer self) = []" and "enqueue_write R self c = (self', r)"
  obtains d w where "self' = self\<lparr>cl_db := d, cl_writer := w\<rparr>" "write_queue w = []"
    "view d = (if is_ok r then apply_command c (view (cl_db self)) else view (cl_db self))"
proof -
  obtain d w where e: "enqueue R (cl_db self) (cl_writer self) [c] = (d, w, r)" "self' = self\<lparr>cl_db := d, cl_writer := w\<rparr>"
    using assms(3) by (auto simp: enqueue_write_def split: prod.splits)
  show thesis
    by (rule that [OF e(2)]) (use enqueue_idle [OF assms(1,2) e(1)] in \<open>simp_all add: apply_message_single\<close>)
qed

lemma put_typed_effect:
  assumes "rocks_laws R view" and "write_queue (cl_writer self) = []" and "put_typed c cf R self key v = (self', r)"
  obtains (failed) d w e where "self' = self\<lparr>cl_db := d, cl_writer := w\<rparr>" "write_queue w = []" "view d = view (cl_db self)" "r = Inl e"
  | (stored) d w raw where "self' = self\<lparr>cl_db := d, cl_writer := w\<rparr>" "write_queue w = []" "to_bytes c v = Inr raw"
      "view d = store (view (cl_db self)) cf key (Some raw)" "r = Inr ()"
proof (cases "to_bytes c v")
  case (Inl e)
  have "self' = self\<lparr>cl_db := cl_db self, cl_writer := cl_writer self\<rparr>" "r = Inl e" using assms(3) Inl by (simp_all add: put_typed_def)
  from failed [OF this(1) assms(2) refl this(2)] show thesis .
next
  case (Inr raw)
  then have "enqueue_write R self (CmdPut cf key raw) = (self', r)" using assms(3) by (simp add: put_typed_def)
  then obtain d w where e: "self' = self\<lparr>cl_db := d, cl_writer := w\<rparr>" "write_queue w = []"
    "view d = (if is_ok r then apply_command (CmdPut cf key raw) (view (cl_db self)) else view (cl_db self))"
    by (rule enqueue_write_effect [OF assms(1,2)])
  show thesis
  proof (cases r)
    case (Inl e')
    show thesis by (rule failed [OF e(1,2) _ Inl]) (use e(3) Inl in simp)
  next
    case (Inr u)
    show thesis by (rule stored [OF e(1,2) \<open>to_bytes c v = Inr raw\<close>]) (use e(3) Inr in simp_all)
  qed
qed

lemma coherent_other_put:
  assumes "rocks_laws R view" and "coherent bc view self" and "cf \<noteq> Utxo_CF" and "cf \<noteq> Blocks"
  shows "coherent bc view (fst (put_typed c cf R self key v))"
proof -
  obtain self' r where p: "put_typed c cf R self key v = (self', r)" by (cases "put_typed c cf R self key v")
  have idle: "write_queue (cl_writer self) = []" using assms(2) by (simp add: coherent_def)
  have same: "store m cf key x Utxo_CF = m Utxo_CF" "store m cf key x Blocks = m Blocks" for m x
    using assms(3,4) by (auto simp: store_def)
  show ?thesis
    using assms(1) idle p
  proof (cases rule: put_typed_effect)
    case (failed d w e)
    then show ?thesis using p assms(2) by (simp add: coherent_def)
  next
    case (stored d w raw)
    then show ?thesis using p assms(2) same by (simp add: coherent_def)
  qed
qed

lemma coherent_other_delete:
  assumes "rocks_laws R view" and "coherent bc view self" and "cf \<noteq> Utxo_CF" and "cf \<noteq> Blocks"
  shows "coherent bc view (fst (enqueue_write R self (CmdDelete cf key)))"
proof -
  obtain self' r where p: "enqueue_write R self (CmdDelete cf key) = (self', r)" by (cases "enqueue_write R self (CmdDelete cf key)")
  have idle: "write_queue (cl_writer self) = []" using assms(2) by (simp add: coherent_def)
  have same: "store m cf key x Utxo_CF = m Utxo_CF" "store m cf key x Blocks = m Blocks" for m x
    using assms(3,4) by (auto simp: store_def)
  obtain d w where "self' = self\<lparr>cl_db := d, cl_writer := w\<rparr>" "write_queue w = []"
    "view d = (if is_ok r then apply_command (CmdDelete cf key) (view (cl_db self)) else view (cl_db self))"
    by (rule enqueue_write_effect [OF assms(1) idle p])
  then show ?thesis using p assms(2) same by (cases "is_ok r") (simp_all add: coherent_def)
qed

lemma get_typed_reads:
  assumes "rocks_laws R view" and "get_typed c cf R self key = Inr r"
  shows "case r of None \<Rightarrow> view (cl_db self) cf key = None
    | Some v \<Rightarrow> \<exists>raw. view (cl_db self) cf key = Some raw \<and> from_bytes c raw = Inr v"
proof -
  obtain q where q: "db_get R (cl_db self) cf key = Inr q" using assms(2) by (auto simp: get_typed_def)
  then have "q = view (cl_db self) cf key" using rocks_get [OF assms(1)] by blast
  with q assms(2) show ?thesis by (auto simp: get_typed_def split: option.splits)
qed

subsection \<open>Every operation keeps the caches coherent\<close>

lemma lru_put_cap [simp]: "lru_cap (lru_put c key v) = lru_cap c"
  by (simp add: lru_put_def)

lemma coherent_fill_utxo:
  "coherent bc view self \<Longrightarrow> view (cl_db self) Utxo_CF key = Some raw \<Longrightarrow> from_bytes (bc_utxo bc) raw = Inr u
   \<Longrightarrow> coherent bc view (self\<lparr>utxo_hot_cache := lru_put (utxo_hot_cache self) key u\<rparr>)"
  using cached_ok_fill [of "bc_utxo bc" "view (cl_db self) Utxo_CF" "utxo_hot_cache self" key raw u] by (simp add: coherent_def)

lemma coherent_fill_block:
  "coherent bc view self \<Longrightarrow> view (cl_db self) Blocks key = Some raw \<Longrightarrow> from_bytes (bc_block bc) raw = Inr b
   \<Longrightarrow> coherent bc view (self\<lparr>recent_block_cache := lru_put (recent_block_cache self) key b\<rparr>)"
  using cached_ok_fill [of "bc_block bc" "view (cl_db self) Blocks" "recent_block_cache self" key raw b] by (simp add: coherent_def)

lemma lru_get_cap: "lru_get c key = (c', r) \<Longrightarrow> lru_cap c' = lru_cap c"
  by (auto simp: lru_get_def split: option.splits)

definition reads :: "'v codec \<Rightarrow> (bytes \<Rightarrow> bytes option) \<Rightarrow> bytes \<Rightarrow> 'v option \<Rightarrow> bool" where
  "reads c m key q \<longleftrightarrow> (case q of None \<Rightarrow> m key = None | Some v \<Rightarrow> \<exists>raw. m key = Some raw \<and> from_bytes c raw = Inr v)"

lemma cached_read_ok:
  assumes "rocks_laws R view" and "cached_ok c (view (cl_db self) cf) cache" and "cached_read c cf R self cache key = (cache', r)"
  shows "cached_ok c (view (cl_db self) cf) cache' \<and> lru_cap cache' = lru_cap cache \<and> (\<forall>q. r = Inr q \<longrightarrow> reads c (view (cl_db self) cf) key q)"
proof -
  obtain cache1 hit where g: "lru_get cache key = (cache1, hit)" by (cases "lru_get cache key")
  note sub = lru_get_set [OF g] lru_get_cap [OF g]
  have co: "cached_ok c (view (cl_db self) cf) cache1" using cached_ok_subset [OF assms(2)] sub by blast
  show ?thesis
  proof (cases hit)
    case (Some v)
    then have "cache' = cache1" "r = Inr (Some v)" using assms(3) g by (simp_all add: cached_read_def)
    moreover have "\<exists>raw. view (cl_db self) cf key = Some raw \<and> from_bytes c raw = Inr v"
      using assms(2) sub Some by (simp add: cached_ok_def)
    ultimately show ?thesis using co sub by (simp add: reads_def)
  next
    case miss: None
    show ?thesis
    proof (cases "get_typed c cf R self key")
      case (Inl e)
      then show ?thesis using assms(3) g miss co sub by (auto simp: cached_read_def)
    next
      case (Inr q)
      have read: "reads c (view (cl_db self) cf) key q"
        using get_typed_reads [OF assms(1) Inr] by (simp add: reads_def)
      show ?thesis
      proof (cases q)
        case None
        then show ?thesis using assms(3) g miss co sub Inr read by (auto simp: cached_read_def)
      next
        case (Some v)
        then obtain raw where raw: "view (cl_db self) cf key = Some raw" "from_bytes c raw = Inr v"
          using read by (auto simp: reads_def)
        have "cache' = lru_put cache1 key v" "r = Inr (Some v)" using assms(3) g miss Inr Some by (simp_all add: cached_read_def)
        then show ?thesis using cached_ok_fill [OF co raw] sub read Some by simp
      qed
    qed
  qed
qed

lemma get_utxo_coherent:
  assumes "rocks_laws R view" and "coherent bc view self" and "get_utxo bc R self h i = (self', r)"
  shows "coherent bc view self' \<and> cl_db self' = cl_db self
    \<and> (\<forall>q. r = Inr q \<longrightarrow> reads (bc_utxo bc) (view (cl_db self) Utxo_CF) (make_utxo_key h i) q)"
proof -
  obtain cache where c: "cached_read (bc_utxo bc) Utxo_CF R self (utxo_hot_cache self) (make_utxo_key h i) = (cache, r)"
    "self' = self\<lparr>utxo_hot_cache := cache\<rparr>" using assms(3) by (auto simp: get_utxo_def split: prod.splits)
  show ?thesis using cached_read_ok [OF assms(1) _ c(1)] assms(2) c(2) by (simp add: coherent_def)
qed

lemma layer_get_block_coherent:
  assumes "rocks_laws R view" and "coherent bc view self" and "layer_get_block bc R self h = (self', r)"
  shows "coherent bc view self' \<and> cl_db self' = cl_db self
    \<and> (\<forall>q. r = Inr q \<longrightarrow> reads (bc_block bc) (view (cl_db self) Blocks) h q)"
proof -
  obtain cache where c: "cached_read (bc_block bc) Blocks R self (recent_block_cache self) h = (cache, r)"
    "self' = self\<lparr>recent_block_cache := cache\<rparr>" using assms(3) by (auto simp: layer_get_block_def split: prod.splits)
  show ?thesis using cached_read_ok [OF assms(1) _ c(1)] assms(2) c(2) by (simp add: coherent_def)
qed

lemma put_utxo_coherent:
  assumes "rocks_laws R view" and "bincode_laws bc" and "coherent bc view self" and "put_utxo bc R self h i u = (self', r)"
  shows "coherent bc view self'" and "r = Inr () \<Longrightarrow> (make_utxo_key h i, u) = hd (lru_items (utxo_hot_cache self')) \<and> lru_items (utxo_hot_cache self') \<noteq> []"
proof -
  let ?key = "make_utxo_key h i"
  obtain self1 r1 where p: "put_typed (bc_utxo bc) Utxo_CF R self ?key u = (self1, r1)" by (cases "put_typed (bc_utxo bc) Utxo_CF R self ?key u")
  have idle: "write_queue (cl_writer self) = []" using assms(3) by (simp add: coherent_def)
  from assms(1) idle p show "coherent bc view self'"
  proof (cases rule: put_typed_effect)
    case (failed d w e)
    then show ?thesis using assms(3,4) p by (auto simp: put_utxo_def and_then_def coherent_def)
  next
    case (stored d w raw)
    have ok: "codec_ok (bc_utxo bc)" "cached_ok (bc_utxo bc) (view (cl_db self) Utxo_CF) (utxo_hot_cache self)"
      using assms(2,3) by (simp_all add: bincode_laws_def coherent_def)
    show ?thesis
      using assms(3,4) p stored cached_ok_put [OF ok(2,1) stored(3), of ?key] by (auto simp: put_utxo_def and_then_def coherent_def)
  qed
  assume "r = Inr ()"
  from assms(1) idle p show "(?key, u) = hd (lru_items (utxo_hot_cache self')) \<and> lru_items (utxo_hot_cache self') \<noteq> []"
  proof (cases rule: put_typed_effect)
    case (failed d w e)
    then show ?thesis using assms(4) p \<open>r = Inr ()\<close> by (simp add: put_utxo_def and_then_def)
  next
    case (stored d w raw)
    have "0 < lru_cap (utxo_hot_cache self)" using assms(3) by (simp add: coherent_def)
    then show ?thesis using assms(4) p stored by (auto simp: put_utxo_def and_then_def lru_put_def take_Cons' Let_def)
  qed
qed

lemma put_block_coherent:
  assumes "rocks_laws R view" and "bincode_laws bc" and "coherent bc view self"
  shows "coherent bc view (fst (put_block bc R self h b))"
proof -
  obtain self1 r1 where p: "put_typed (bc_block bc) Blocks R self h b = (self1, r1)" by (cases "put_typed (bc_block bc) Blocks R self h b")
  have idle: "write_queue (cl_writer self) = []" using assms(3) by (simp add: coherent_def)
  from assms(1) idle p show ?thesis
  proof (cases rule: put_typed_effect)
    case (failed d w e)
    then show ?thesis using assms(3) p by (simp add: put_block_def and_then_def coherent_def)
  next
    case (stored d w raw)
    have ok: "codec_ok (bc_block bc)" "cached_ok (bc_block bc) (view (cl_db self) Blocks) (recent_block_cache self)"
      using assms(2,3) by (simp_all add: bincode_laws_def coherent_def)
    show ?thesis
      using assms(3) p stored cached_ok_put [OF ok(2,1) stored(3), of h] by (auto simp: put_block_def and_then_def coherent_def)
  qed
qed

lemma lru_pop_cap [simp]: "lru_cap (fst (lru_pop c key)) = lru_cap c"
  by (simp add: lru_pop_def)

lemma delete_utxo_coherent:
  assumes "rocks_laws R view" and "coherent bc view self" and "delete_utxo R self h i = (self', r)"
  shows "coherent bc view self' \<and> (r = Inr () \<longrightarrow> view (cl_db self') Utxo_CF (make_utxo_key h i) = None)"
proof -
  let ?key = "make_utxo_key h i"
  obtain self1 r1 where p: "enqueue_write R self (CmdDelete Utxo_CF ?key) = (self1, r1)" by (cases "enqueue_write R self (CmdDelete Utxo_CF ?key)")
  have idle: "write_queue (cl_writer self) = []" using assms(2) by (simp add: coherent_def)
  have co: "cached_ok (bc_utxo bc) (view (cl_db self) Utxo_CF) (utxo_hot_cache self)" using assms(2) by (simp add: coherent_def)
  obtain d w where e: "self1 = self\<lparr>cl_db := d, cl_writer := w\<rparr>" "write_queue w = []"
    "view d = (if is_ok r1 then apply_command (CmdDelete Utxo_CF ?key) (view (cl_db self)) else view (cl_db self))"
    by (rule enqueue_write_effect [OF assms(1) idle p])
  show ?thesis
  proof (cases r1)
    case (Inl x)
    then show ?thesis using assms(2,3) p e by (auto simp: delete_utxo_def and_then_def coherent_def)
  next
    case (Inr x)
    then show ?thesis using assms(2,3) p e cached_ok_pop [OF co, of ?key] by (auto simp: delete_utxo_def and_then_def coherent_def)
  qed
qed

lemma delete_block_coherent:
  assumes "rocks_laws R view" and "coherent bc view self"
  shows "coherent bc view (fst (delete_block R self h))"
proof -
  obtain self1 r1 where p: "enqueue_write R self (CmdDelete Blocks h) = (self1, r1)" by (cases "enqueue_write R self (CmdDelete Blocks h)")
  have idle: "write_queue (cl_writer self) = []" using assms(2) by (simp add: coherent_def)
  have co: "cached_ok (bc_block bc) (view (cl_db self) Blocks) (recent_block_cache self)" using assms(2) by (simp add: coherent_def)
  obtain d w where e: "self1 = self\<lparr>cl_db := d, cl_writer := w\<rparr>" "write_queue w = []"
    "view d = (if is_ok r1 then apply_command (CmdDelete Blocks h) (view (cl_db self)) else view (cl_db self))"
    by (rule enqueue_write_effect [OF assms(1) idle p])
  show ?thesis
  proof (cases r1)
    case (Inl x)
    then show ?thesis using assms(2) p e by (auto simp: delete_block_def and_then_def coherent_def)
  next
    case (Inr x)
    then show ?thesis using assms(2) p e cached_ok_pop [OF co, of h] by (auto simp: delete_block_def and_then_def coherent_def)
  qed
qed

lemma scan_hash_coherent:
  assumes "coherent bc view self" and "\<And>key raw. Inr (key, raw) \<in> set items \<Longrightarrow> view (cl_db self) Utxo_CF key = Some raw"
  shows "coherent bc view (fst (scan_hash_loop bc h self res items)) \<and> cl_db (fst (scan_hash_loop bc h self res items)) = cl_db self"
  using assms
proof (induction bc h self res items rule: scan_hash_loop.induct)
  case (3 bc h self res key raw items)
  have raw: "view (cl_db self) Utxo_CF key = Some raw" by (rule "3.prems"(2)) simp
  have rest: "view (cl_db self) Utxo_CF k = Some r" if "Inr (k, r) \<in> set items" for k r by (rule "3.prems"(2)) (simp add: that)
  show ?case
  proof (cases "length key < 32 \<or> take 32 key \<noteq> h")
    case True
    then show ?thesis using "3.prems"(1) by simp
  next
    case in_range: False
    show ?thesis
    proof (cases "parse_utxo_key key")
      case None
      then show ?thesis using "3.IH"(1) [OF in_range None "3.prems"(1) rest] in_range by simp
    next
      case (Some q)
      obtain ph i where q: "q = (ph, i)" by (cases q)
      show ?thesis
      proof (cases "ph = h")
        case False
        then show ?thesis using "3.prems"(1) in_range Some q by simp
      next
        case True
        show ?thesis
        proof (cases "from_bytes (bc_utxo bc) raw")
          case (Inl e)
          then show ?thesis using "3.prems"(1) in_range Some q True by simp
        next
          case (Inr u)
          note co = coherent_fill_utxo [OF "3.prems"(1) raw Inr]
          show ?thesis
            using "3.IH"(2) [OF in_range Some q [symmetric] True Inr co] rest in_range Some q True Inr by simp
        qed
      qed
    qed
  qed
qed simp_all

lemma scan_range_coherent:
  assumes "coherent bc view self" and "\<And>key raw. Inr (key, raw) \<in> set items \<Longrightarrow> view (cl_db self) Utxo_CF key = Some raw"
  shows "coherent bc view (fst (scan_range_loop bc n self res items))"
  using assms
proof (induction bc n self res items rule: scan_range_loop.induct)
  case (3 bc n self res key raw items)
  have raw: "view (cl_db self) Utxo_CF key = Some raw" by (rule "3.prems"(2)) simp
  have rest: "view (cl_db self) Utxo_CF k = Some r" if "Inr (k, r) \<in> set items" for k r by (rule "3.prems"(2)) (simp add: that)
  show ?case
  proof (cases "n \<le> length res")
    case True
    then show ?thesis using "3.prems"(1) by simp
  next
    case False
    show ?thesis
    proof (cases "from_bytes (bc_utxo bc) raw")
      case (Inl e)
      then show ?thesis using "3.prems"(1) False by simp
    next
      case (Inr u)
      note co = coherent_fill_utxo [OF "3.prems"(1) raw Inr]
      show ?thesis using "3.IH" [OF False Inr co] rest False Inr by simp
    qed
  qed
qed simp_all

lemma scan_block_coherent:
  assumes "coherent bc view self" and "\<And>key raw. Inr (key, raw) \<in> set items \<Longrightarrow> view (cl_db self) Blocks key = Some raw"
  shows "coherent bc view (fst (scan_block_loop bc n self res items))"
  using assms
proof (induction bc n self res items rule: scan_block_loop.induct)
  case (3 bc n self res key raw items)
  have raw: "view (cl_db self) Blocks key = Some raw" by (rule "3.prems"(2)) simp
  have rest: "view (cl_db self) Blocks k = Some r" if "Inr (k, r) \<in> set items" for k r by (rule "3.prems"(2)) (simp add: that)
  show ?case
  proof (cases "n \<le> length res")
    case True
    then show ?thesis using "3.prems"(1) by simp
  next
    case False
    show ?thesis
    proof (cases "from_bytes (bc_block bc) raw")
      case (Inl e)
      then show ?thesis using "3.prems"(1) False by simp
    next
      case (Inr b)
      note co = coherent_fill_block [OF "3.prems"(1) raw Inr]
      show ?thesis using "3.IH" [OF False Inr co] rest False Inr by simp
    qed
  qed
qed simp_all

subsection \<open>Reachable layers\<close>

text \<open>Every operation of the layer that changes it, except \<open>cache_utxo\<close>, which puts a value into the cache that
  the caller vouches for.\<close>

inductive cl_step :: "bincode \<Rightarrow> 'd rocksdb \<Rightarrow> 'd storage_cache_layer \<Rightarrow> 'd storage_cache_layer \<Rightarrow> bool" for bc R where
  "cl_step bc R self (fst (get_utxo bc R self h i))"
| "cl_step bc R self (fst (put_utxo bc R self h i u))"
| "cl_step bc R self (fst (delete_utxo R self h i))"
| "cl_step bc R self (remove_utxo_from_cache self h i)"
| "cl_step bc R self (fst (layer_get_block bc R self h))"
| "cl_step bc R self (fst (put_block bc R self h b))"
| "cl_step bc R self (fst (delete_block R self h))"
| "cl_step bc R self (fst (put_transaction bc R self h tx))"
| "cl_step bc R self (fst (delete_transaction R self h))"
| "cl_step bc R self (fst (put_header bc R self h hdr))"
| "cl_step bc R self (fst (delete_header R self h))"
| "cl_step bc R self (fst (put_utxo_spent bc R self h i sp))"
| "cl_step bc R self (fst (delete_utxo_spent R self h i))"
| "cl_step bc R self (fst (put_verkle_state bc R self path st))"
| "cl_step bc R self (fst (delete_verkle_state R self path))"
| "cl_step bc R self (fst (put_dag_node bc R self h node))"
| "cl_step bc R self (fst (delete_dag_node R self h))"
| "cl_step bc R self (fst (put_dag_tips bc R self key ts))"
| "cl_step bc R self (fst (delete_dag_tips R self key))"
| "cl_step bc R self (insert_mempool_transaction self h tx)"
| "cl_step bc R self (remove_mempool_transaction self h)"
| "cl_step bc R self (fst (scan_utxos_by_tx_hash bc R self h))"
| "cl_step bc R self (fst (scan_utxo_range bc R self k1 k2 n))"
| "cl_step bc R self (fst (scan_blocks bc R self n))"

lemma cl_step_coherent:
  assumes laws: "rocks_laws R view" "bincode_laws bc" and "cl_step bc R self self'" and co: "coherent bc view self"
  shows "coherent bc view self'"
  using assms(3)
proof cases
  case (1 h i) show ?thesis unfolding 1 by (rule get_utxo_coherent [OF laws(1) co prod.collapse [symmetric], THEN conjunct1])
next
  case (2 h i u) show ?thesis unfolding 2 by (rule put_utxo_coherent(1) [OF laws co prod.collapse [symmetric]])
next
  case (3 h i) show ?thesis unfolding 3 by (rule delete_utxo_coherent [OF laws(1) co prod.collapse [symmetric], THEN conjunct1])
next
  case (4 h i)
  have "cached_ok (bc_utxo bc) (view (cl_db self) Utxo_CF) (fst (lru_pop (utxo_hot_cache self) (make_utxo_key h i)))"
    by (rule cached_ok_subset [of _ _ "utxo_hot_cache self"]) (use co in \<open>auto simp: coherent_def lru_pop_def\<close>)
  then show ?thesis using co 4 by (simp add: remove_utxo_from_cache_def coherent_def)
next
  case (5 h) show ?thesis unfolding 5 by (rule layer_get_block_coherent [OF laws(1) co prod.collapse [symmetric], THEN conjunct1])
next
  case (6 h b) then show ?thesis using put_block_coherent [OF laws co, of h b] by simp
next
  case (7 h) then show ?thesis using delete_block_coherent [OF laws(1) co, of h] by simp
next
  case (22 h) show ?thesis
    unfolding 22 scan_utxos_by_tx_hash_def by (rule scan_hash_coherent [OF co rocks_iter [OF laws(1)], THEN conjunct1])
next
  case (23 k1 k2 n) show ?thesis
    unfolding 23 scan_utxo_range_def by (rule scan_range_coherent [OF co rocks_iter [OF laws(1)]])
next
  case (24 n) show ?thesis
    unfolding 24 scan_blocks_def by (rule scan_block_coherent [OF co rocks_iter [OF laws(1)]])
qed (simp_all add: put_transaction_def delete_transaction_def put_header_def delete_header_def put_utxo_spent_def delete_utxo_spent_def
    put_verkle_state_def delete_verkle_state_def put_dag_node_def delete_dag_node_def put_dag_tips_def delete_dag_tips_def
    coherent_other_put [OF laws(1) co] coherent_other_delete [OF laws(1) co]
    insert_mempool_transaction_def remove_mempool_transaction_def,
    use co in \<open>simp_all add: coherent_def\<close>)

lemma storage_cache_layer_new_coherent:
  "storage_cache_layer_new d = Some self \<Longrightarrow> coherent bc view self"
  by (auto simp: storage_cache_layer_new_def new_with_writer_def lru_new_def UTXO_HOT_CACHE_CAPACITY_def
    RECENT_BLOCK_CACHE_CAPACITY_def coherent_def storage_writer_new_def cached_ok_def)

lemma cl_reachable_coherent:
  assumes "rocks_laws R view" and "bincode_laws bc" and "(cl_step bc R)\<^sup>*\<^sup>* self self'" and "coherent bc view self"
  shows "coherent bc view self'"
  using assms(3,4) by (induction rule: rtranclp_induct) (use cl_step_coherent [OF assms(1,2)] in blast)+

section \<open>The scan by transaction\<close>

text \<open>Byte strings with a common prefix are neighbours in the order of the keys.\<close>

lemma prefix_convex:
  fixes h :: bytes
  shows "h @ z \<le> k \<Longrightarrow> take (length h) k \<noteq> h \<Longrightarrow> h @ y < k"
proof (induction h arbitrary: k)
  case (Cons a h)
  then obtain b k' where k: "k = b # k'" by (cases k) auto
  with Cons show ?case by auto
qed simp

lemma zeros_least:
  fixes ys :: bytes
  shows "length ys = n \<Longrightarrow> replicate n 0 \<le> ys"
proof (induction n arbitrary: ys)
  case (Suc n)
  then obtain y ys' where "ys = y # ys'" "length ys' = n" by (cases ys) auto
  with Suc.IH [of ys'] show ?case by (cases "y = 0") (simp_all add: word_neq_0_conv)
qed simp

lemma append_le: "(h :: bytes) @ y \<le> h @ z \<longleftrightarrow> y \<le> z"
  by (induction h) auto

lemma le_digits_zero: "le_digits n 0 = replicate n 0"
  by (induction n) simp_all

lemma first_key: "make_utxo_key h 0 \<le> make_utxo_key h i"
proof -
  have "to_le_bytes 4 (0 :: u32) = replicate 4 0" by (simp only: to_le_bytes_def unsigned_0 le_digits_zero)
  then show ?thesis using zeros_least [of "to_le_bytes 4 i" 4] by (simp add: make_utxo_key_def append_le)
qed

definition hit :: "bincode \<Rightarrow> bytes \<Rightarrow> bytes \<times> bytes \<Rightarrow> (u32 \<times> utxo_value) option" where
  "hit bc h kv = (case parse_utxo_key (fst kv) of
       Some (h', i) \<Rightarrow> if h' = h then (case from_bytes (bc_utxo bc) (snd kv) of Inr u \<Rightarrow> Some (i, u) | Inl e \<Rightarrow> None) else None
     | None \<Rightarrow> None)"

lemma hit_Some: "hit bc h (key, raw) = Some (i, u) \<longleftrightarrow> parse_utxo_key key = Some (h, i) \<and> from_bytes (bc_utxo bc) raw = Inr u"
  by (auto simp: hit_def split: option.splits sum.splits)

lemma scan_hash_loop_exact:
  assumes "length h = 32" and "sorted_wrt (<) (map fst kvs)" and "\<forall>kv\<in>set kvs. h @ z \<le> fst kv"
    and "\<forall>kv\<in>set kvs. \<forall>i. parse_utxo_key (fst kv) = Some (h, i) \<longrightarrow> is_ok (from_bytes (bc_utxo bc) (snd kv))"
  shows "snd (scan_hash_loop bc h self res (map Inr kvs)) = Inr (res @ List.map_filter (hit bc h) kvs)"
  using assms(2-)
proof (induction kvs arbitrary: self res)
  case Nil
  then show ?case by (simp add: map_filter_simps)
next
  case (Cons kv kvs)
  obtain key raw where kv: "kv = (key, raw)" by (cases kv)
  show ?case
  proof (cases "length key < 32 \<or> take 32 key \<noteq> h")
    case True
    then have out: "take (length h) key \<noteq> h" using assms(1) by auto
    have "hit bc h kv' = None" if "kv' \<in> set (kv # kvs)" for kv'
    proof (rule ccontr)
      assume "hit bc h kv' \<noteq> None"
      then obtain i where "parse_utxo_key (fst kv') = Some (h, i)" by (auto simp: hit_def split: option.splits if_splits)
      then have k': "fst kv' = h @ to_le_bytes 4 i" by (simp add: parse_utxo_key_Some make_utxo_key_def)
      then have "fst kv' < key" using prefix_convex [OF _ out, of z] Cons.prems(2) kv by simp
      then show False using that Cons.prems(1) kv k' out by (auto dest: less_trans)
    qed
    then have "List.map_filter (hit bc h) (kv # kvs) = []" by (auto simp: List.map_filter_def)
    then show ?thesis using True kv by simp
  next
    case in_range: False
    show ?thesis
    proof (cases "parse_utxo_key key")
      case None
      then have "hit bc h kv = None" using kv by (simp add: hit_def)
      then show ?thesis using Cons in_range None kv by (simp add: map_filter_simps)
    next
      case (Some q)
      obtain i where q: "q = (h, i)" using Some in_range by (auto simp: parse_utxo_key_def split: if_splits)
      then have "is_ok (from_bytes (bc_utxo bc) raw)" using Cons.prems(3) Some kv by simp
      then obtain u where u: "from_bytes (bc_utxo bc) raw = Inr u" by (auto simp: is_ok_iff)
      have "hit bc h kv = Some (i, u)" using Some q u kv by (simp add: hit_Some)
      then show ?thesis using Cons in_range Some q u kv by (simp add: map_filter_simps)
    qed
  qed
qed

lemma hits_distinct: "sorted_wrt (<) (map fst kvs) \<Longrightarrow> distinct (map fst (List.map_filter (hit bc h) kvs))"
proof (induction kvs)
  case (Cons kv kvs)
  have "fst kv' \<noteq> fst kv" if "kv' \<in> set kvs" for kv' using Cons.prems that by auto
  moreover have "fst kv' = fst kv" if "hit bc h kv' = Some (i, u)" "hit bc h kv = Some (i, v)" for kv' i u v
    using that hit_Some [of bc h "fst kv'" "snd kv'" i u] hit_Some [of bc h "fst kv" "snd kv" i v] by (simp add: parse_utxo_key_Some)
  ultimately show ?case using Cons
    by (fastforce simp: map_filter_simps List.map_filter_def split: option.splits)
qed (simp add: map_filter_simps)

lemma cached_reads:
  assumes "rocks_laws R view" and "bincode_laws bc" and "storage_cache_layer_new d = Some new" and "(cl_step bc R)\<^sup>*\<^sup>* new self"
  shows "snd (get_utxo bc R self h i) = Inr q \<Longrightarrow> reads (bc_utxo bc) (view (cl_db self) Utxo_CF) (make_utxo_key h i) q"
    and "snd (layer_get_block bc R self h) = Inr p \<Longrightarrow> reads (bc_block bc) (view (cl_db self) Blocks) h p"
    and "put_utxo bc R self h i u = (self1, Inr ()) \<Longrightarrow> snd (get_utxo bc R self1 h i) = Inr (Some u)"
    and "delete_utxo R self h i = (self1, Inr ()) \<Longrightarrow> snd (get_utxo bc R self1 h i) = Inr q \<Longrightarrow> q = None"
proof -
  have co: "coherent bc view self"
    by (rule cl_reachable_coherent [OF assms(1,2,4) storage_cache_layer_new_coherent [OF assms(3)]])
  show "reads (bc_utxo bc) (view (cl_db self) Utxo_CF) (make_utxo_key h i) q" if "snd (get_utxo bc R self h i) = Inr q"
    using get_utxo_coherent [OF assms(1) co prod.collapse [symmetric]] that by blast
  show "reads (bc_block bc) (view (cl_db self) Blocks) h p" if "snd (layer_get_block bc R self h) = Inr p"
    using layer_get_block_coherent [OF assms(1) co prod.collapse [symmetric]] that by blast
  show "snd (get_utxo bc R self1 h i) = Inr (Some u)" if put: "put_utxo bc R self h i u = (self1, Inr ())"
  proof -
    from put_utxo_coherent(2) [OF assms(1,2) co put] obtain items where "lru_items (utxo_hot_cache self1) = (make_utxo_key h i, u) # items"
      by (cases "lru_items (utxo_hot_cache self1)") auto
    then show ?thesis by (simp add: get_utxo_def cached_read_def lru_get_def)
  qed
  show "q = None" if del: "delete_utxo R self h i = (self1, Inr ())" and get: "snd (get_utxo bc R self1 h i) = Inr q"
  proof -
    have co1: "coherent bc view self1" "view (cl_db self1) Utxo_CF (make_utxo_key h i) = None"
      using delete_utxo_coherent [OF assms(1) co del] by simp_all
    have "reads (bc_utxo bc) (view (cl_db self1) Utxo_CF) (make_utxo_key h i) q"
      using get_utxo_coherent [OF assms(1) co1(1) prod.collapse [symmetric]] get by blast
    with co1(2) show "q = None" by (cases q) (auto simp: reads_def)
  qed
qed

section \<open>Properties\<close>

text \<open>C32: The writer thread ends its queue and answers every message once and in order; the database it leaves
  is the one that applying, in the order of the queue, exactly the messages answered \<open>Ok\<close> gives, so that
  grouping up to sixteen messages into one batch cannot be observed.\<close>

theorem group_commit_exact:
  assumes "rocks_laws R view" and "\<forall>m\<in>set (write_queue w). msg_response m" and "writer_loop R d w = (d', w', ans)"
  shows "write_queue w' = [] \<and> length ans = length (write_queue w) \<and>
    view d' = fold apply_message (map fst (filter (\<lambda>x. is_ok (snd x)) (zip (write_queue w) ans))) (view d)"
  using writer_loop_exact [OF assms] by simp

text \<open>C31: The caches of the storage layer are transparent as long as nothing writes past them. After any
  sequence of reads, writes and deletions through the layer - without \<open>cache_utxo\<close>, which caches whatever
  the caller gives it, and without writes to the database below the layer, such as those of the atomic block
  commit - a read that succeeds returns the decoded entry of the database, and nothing exactly when the
  database has none; an output that was put is read back at once, and an output that was deleted is gone.\<close>

theorem cached_reads_are_stored:
  assumes "rocks_laws R view" and "bincode_laws bc" and "storage_cache_layer_new d = Some new" and "(cl_step bc R)\<^sup>*\<^sup>* new self"
  shows "(snd (get_utxo bc R self h i) = Inr q \<longrightarrow> reads (bc_utxo bc) (view (cl_db self) Utxo_CF) (make_utxo_key h i) q) \<and>
    (snd (layer_get_block bc R self h) = Inr p \<longrightarrow> reads (bc_block bc) (view (cl_db self) Blocks) h p) \<and>
    (put_utxo bc R self h i u = (after, Inr ()) \<longrightarrow> snd (get_utxo bc R after h i) = Inr (Some u)) \<and>
    (delete_utxo R self h i = (after, Inr ()) \<and> snd (get_utxo bc R after h i) = Inr q \<longrightarrow> q = None)"
  using cached_reads [OF assms] by blast

text \<open>The scan by transaction hash is exact. When the iterator does not fail and the entries of the
  transaction decode, it returns the index and value of every stored output of the transaction, each
  once, and nothing else, although it only reads forward from the key of output zero and stops at the
  first key with another prefix.\<close>

theorem scan_by_hash_exact:
  assumes "rocks_laws R view" and "length h = 32"
    and "rdb_iter R (cl_db self) Utxo_CF (Some (make_utxo_key h 0)) = map Inr kvs"
    and "\<forall>i raw. view (cl_db self) Utxo_CF (make_utxo_key h i) = Some raw \<longrightarrow> is_ok (from_bytes (bc_utxo bc) raw)"
  shows "\<exists>results. snd (scan_utxos_by_tx_hash bc R self h) = Inr results \<and> distinct (map fst results) \<and>
    set results = {(i, u). \<exists>raw. view (cl_db self) Utxo_CF (make_utxo_key h i) = Some raw \<and> from_bytes (bc_utxo bc) raw = Inr u}"
proof -
  note iter = rocks_iter_all [OF assms(1,3)]
  let ?hits = "List.map_filter (hit bc h) kvs"
  have start: "\<forall>kv\<in>set kvs. h @ to_le_bytes 4 (0 :: u32) \<le> fst kv" using iter(2) by (auto simp: make_utxo_key_def)
  have decodes: "\<forall>kv\<in>set kvs. \<forall>i. parse_utxo_key (fst kv) = Some (h, i) \<longrightarrow> is_ok (from_bytes (bc_utxo bc) (snd kv))"
    using iter(2) assms(4) by (auto simp: parse_utxo_key_Some)
  have "snd (scan_utxos_by_tx_hash bc R self h) = Inr ?hits"
    using scan_hash_loop_exact [OF assms(2) iter(1) start decodes, of self "[]"] assms(3) by (simp add: scan_utxos_by_tx_hash_def)
  moreover have "set ?hits = {(i, u). \<exists>raw. view (cl_db self) Utxo_CF (make_utxo_key h i) = Some raw \<and> from_bytes (bc_utxo bc) raw = Inr u}"
  proof -
    have "(i, u) \<in> set ?hits \<longleftrightarrow> (\<exists>key raw. (key, raw) \<in> set kvs \<and> hit bc h (key, raw) = Some (i, u))" for i u
      by (force simp: List.map_filter_def)
    then have "(i, u) \<in> set ?hits \<longleftrightarrow> (\<exists>raw. view (cl_db self) Utxo_CF (make_utxo_key h i) = Some raw \<and> from_bytes (bc_utxo bc) raw = Inr u)" for i u
      using iter(2) first_key [of h i] assms(2) by (simp add: hit_Some parse_utxo_key_Some)
    then show ?thesis by auto
  qed
  ultimately show ?thesis using hits_distinct [OF iter(1), of bc h] by blast
qed

subsection \<open>Examples\<close>

definition demo_layer :: "memory storage_cache_layer" where
  "demo_layer = the (storage_cache_layer_new fmempty)"

definition demo_txid :: bytes where
  "demo_txid = replicate 32 7"

lemma demo_layer_new: "storage_cache_layer_new fmempty = Some demo_layer"
  by (simp add: demo_layer_def storage_cache_layer_new_def new_with_writer_def lru_new_def
    UTXO_HOT_CACHE_CAPACITY_def RECENT_BLOCK_CACHE_CAPACITY_def)

definition demo_stored :: "memory storage_cache_layer" where
  "demo_stored = fst (put_utxo demo_bincode memory_db demo_layer demo_txid 0 demo_utxo_value)"

lemma demo_put: "put_utxo demo_bincode memory_db demo_layer demo_txid 0 demo_utxo_value = (demo_stored, Inr ())"
proof -
  have "snd (put_utxo demo_bincode memory_db demo_layer demo_txid 0 demo_utxo_value) = Inr ()"
    by (simp add: put_utxo_def put_typed_def and_then_def enqueue_write_def enqueue_def writer_loop.simps writer_round_def
      GROUP_COMMIT_MAX_REQUESTS_def db_write_batch_def to_bytes_def demo_bincode_def single_codec_def memory_db_def Let_def
      demo_layer_def storage_cache_layer_new_def new_with_writer_def lru_new_def UTXO_HOT_CACHE_CAPACITY_def
      RECENT_BLOCK_CACHE_CAPACITY_def storage_writer_new_def split: prod.splits)
  then show ?thesis by (simp add: demo_stored_def prod_eq_iff)
qed

lemma demo_stored_db: "cl_db demo_stored = fmupd (Utxo_CF, make_utxo_key demo_txid 0) [1] fmempty"
  by (simp add: demo_stored_def put_utxo_def put_typed_def and_then_def enqueue_write_def enqueue_def writer_loop.simps writer_round_def
      GROUP_COMMIT_MAX_REQUESTS_def db_write_batch_def to_bytes_def demo_bincode_def single_codec_def memory_db_def Let_def
      demo_layer_def storage_cache_layer_new_def new_with_writer_def lru_new_def UTXO_HOT_CACHE_CAPACITY_def append_to_def put_cf_typed_def
      write_batch_new_def into_inner_def RECENT_BLOCK_CACHE_CAPACITY_def storage_writer_new_def cf_handle_def all_column_families_def
      split: prod.splits)

theorem cached_reads_are_stored_witness:
  "snd (get_utxo demo_bincode memory_db demo_stored demo_txid 0) = Inr (Some demo_utxo_value)"
  using cached_reads_are_stored [OF memory_db_laws demo_bincode_laws demo_layer_new rtranclp.rtrancl_refl,
      where h = demo_txid and i = 0 and u = demo_utxo_value and after = demo_stored] demo_put by blast

theorem scan_by_hash_exact_witness:
  "\<exists>results. snd (scan_utxos_by_tx_hash demo_bincode memory_db demo_stored demo_txid) = Inr results \<and> set results = {(0, demo_utxo_value)}"
proof -
  obtain kvs where kvs: "rdb_iter memory_db (cl_db demo_stored) Utxo_CF (Some (make_utxo_key demo_txid 0)) = map Inr kvs"
    using memory_iter_total by blast
  have view: "memory_view (cl_db demo_stored) Utxo_CF (make_utxo_key demo_txid i) = (if i = 0 then Some [1] else None)" for i
    by (simp add: demo_stored_db memory_view_def make_utxo_key_inject)
  have de: "from_bytes (bc_utxo demo_bincode) [1] = Inr demo_utxo_value"
    by (simp add: from_bytes_def demo_bincode_def single_codec_def)
  have len: "length demo_txid = 32" by (simp add: demo_txid_def)
  have "\<forall>i raw. memory_view (cl_db demo_stored) Utxo_CF (make_utxo_key demo_txid i) = Some raw \<longrightarrow> is_ok (from_bytes (bc_utxo demo_bincode) raw)"
    by (simp add: view de)
  from scan_by_hash_exact [OF memory_db_laws len kvs this] obtain results where
    "snd (scan_utxos_by_tx_hash demo_bincode memory_db demo_stored demo_txid) = Inr results"
    "set results = {(i, u). \<exists>raw. memory_view (cl_db demo_stored) Utxo_CF (make_utxo_key demo_txid i) = Some raw \<and>
       from_bytes (bc_utxo demo_bincode) raw = Inr u}" by blast
  then show ?thesis using de by (auto simp: view split: if_splits)
qed

text \<open>Two messages of one command each, the second deleting what the first puts.\<close>

theorem group_commit_exact_witness:
  "let w = \<lparr>write_queue = [\<lparr>msg_commands = [CmdPut Headers [1] [2]], msg_response = True\<rparr>,
        \<lparr>msg_commands = [CmdDelete Headers [1]], msg_response = True\<rparr>], pending_writes = 2, committed_batches = 0\<rparr>;
       (d', w', ans) = writer_loop memory_db fmempty w in
   length ans = 2 \<and> memory_view d' Headers [1] = None"
proof -
  define w where "w = \<lparr>write_queue = [\<lparr>msg_commands = [CmdPut Headers [1] [2]], msg_response = True\<rparr>,
        \<lparr>msg_commands = [CmdDelete Headers [1]], msg_response = True\<rparr>], pending_writes = 2, committed_batches = 0\<rparr>"
  obtain d' w' ans where l: "writer_loop memory_db fmempty w = (d', w', ans)" by (cases "writer_loop memory_db fmempty w") auto
  have "\<forall>m\<in>set (write_queue w). msg_response m" by (simp add: w_def)
  from group_commit_exact [OF memory_db_laws this l]
  have e: "length ans = 2" "memory_view d' = fold apply_message (map fst (filter (\<lambda>x. is_ok (snd x)) (zip (write_queue w) ans))) (memory_view fmempty)"
    by (simp_all add: w_def)
  then obtain a b where ab: "ans = [a, b]" by (auto simp: numeral_2_eq_2 length_Suc_conv)
  have "is_ok b"
  proof -
    have "ans = [Inr (), Inr ()]" using l by (simp add: w_def writer_loop.simps writer_round_def GROUP_COMMIT_MAX_REQUESTS_def
      db_write_batch_def memory_db_def Let_def split: prod.splits)
    then show ?thesis using ab by simp
  qed
  then have "memory_view d' Headers [1] = None"
    unfolding e(2) by (cases "is_ok a") (simp_all add: ab w_def apply_message_single memory_view_def)
  then show ?thesis using l e(1) by (simp flip: w_def)
qed

end
