(* ===== verification/Node_Store.thy ===== *)
theory Node_Store
  imports Node_Cache
begin

text \<open>
  Writing and pruning blocks in the node's database: \<open>storage/atomic_write.rs\<close>, \<open>storage/pruning.rs\<close>,
  \<open>storage/kv_store.rs\<close> and \<open>storage/read_path.rs\<close>. The system load history of \<open>kv_store.rs\<close> (floating point
  averages) is not modelled. A \<open>KvStore\<close> is its cache layer; the temporary directory of a dummy store has no
  behaviour.
\<close>

section \<open>Atomic block writes\<close>

record spent_utxo_batch =
  sub_prev_tx_hash :: bytes
  sub_output_index :: u32
  sub_spent_value :: utxo_spent_value

record block_transaction_batch =
  btb_tx_hash :: bytes
  btb_tx_value :: transaction_value
  btb_spent_utxos :: "spent_utxo_batch list"
  btb_new_utxos :: "utxo_value list"

fun prepare_transactions ::
  "bincode \<Rightarrow> block_transaction_batch list \<Rightarrow> storage_error + (block_transaction_batch \<times> bytes) list" where
  "prepare_transactions bc [] = Inr []"
| "prepare_transactions bc (tx # txs) =
     bind_res (to_bytes (bc_transaction bc) (btb_tx_value tx)) (\<lambda>tx_bytes.
       bind_res (prepare_transactions bc txs) (\<lambda>ops. Inr ((tx, tx_bytes) # ops)))"

fun spend_utxos :: "bincode \<Rightarrow> write_batch \<Rightarrow> spent_utxo_batch list \<Rightarrow> storage_error + write_batch" where
  "spend_utxos bc batch [] = Inr batch"
| "spend_utxos bc batch (s # ss) =
     (let utxo_key = make_utxo_key (sub_prev_tx_hash s) (sub_output_index s);
          batch = delete_cf_typed batch Utxo_CF utxo_key in
      bind_res (to_bytes (bc_utxo_spent bc) (sub_spent_value s)) (\<lambda>spent_value_bytes.
        spend_utxos bc (put_cf_typed batch UtxoSpent utxo_key spent_value_bytes) ss))"

text \<open>\<open>output_index as u32\<close>: the position of the output, cut to 32 bits.\<close>

fun create_utxos :: "bincode \<Rightarrow> bytes \<Rightarrow> write_batch \<Rightarrow> nat \<Rightarrow> utxo_value list \<Rightarrow> storage_error + write_batch" where
  "create_utxos bc tx_hash batch output_index [] = Inr batch"
| "create_utxos bc tx_hash batch output_index (u # us) =
     bind_res (to_bytes (bc_utxo bc) u) (\<lambda>utxo_bytes.
       create_utxos bc tx_hash (put_cf_typed batch Utxo_CF (make_utxo_key tx_hash (of_nat output_index)) utxo_bytes)
         (Suc output_index) us)"

fun add_transactions ::
  "bincode \<Rightarrow> write_batch \<Rightarrow> (block_transaction_batch \<times> bytes) list \<Rightarrow> storage_error + write_batch" where
  "add_transactions bc batch [] = Inr batch"
| "add_transactions bc batch ((tx, tx_bytes) # ops) =
     (let batch = put_cf_typed batch Transactions_CF (btb_tx_hash tx) tx_bytes in
      bind_res (spend_utxos bc batch (btb_spent_utxos tx)) (\<lambda>batch.
        bind_res (create_utxos bc (btb_tx_hash tx) batch 0 (btb_new_utxos tx)) (\<lambda>batch.
          add_transactions bc batch ops)))"

text \<open>The batch that both variants of the commit build, in the same order of steps.\<close>

definition block_batch ::
  "bincode \<Rightarrow> bytes \<Rightarrow> block_value \<Rightarrow> header_value \<Rightarrow> block_transaction_batch list \<Rightarrow> dag_node_value \<Rightarrow> dag_tips_value
     \<Rightarrow> storage_error + write_batch" where
  "block_batch bc block_hash bv hv txs dag_node dag_tips =
     bind_res (to_bytes (bc_block bc) bv) (\<lambda>block_bytes.
     bind_res (to_bytes (bc_header bc) hv) (\<lambda>header_bytes.
     bind_res (prepare_transactions bc txs) (\<lambda>tx_operations.
     bind_res (to_bytes (bc_dag_node bc) dag_node) (\<lambda>dag_node_bytes.
     bind_res (to_bytes (bc_dag_tips bc) dag_tips) (\<lambda>dag_tips_bytes.
       let batch = put_cf_typed write_batch_new Blocks block_hash block_bytes;
           batch = put_cf_typed batch Headers block_hash header_bytes in
       bind_res (add_transactions bc batch tx_operations) (\<lambda>batch.
         let batch = put_cf_typed batch Dag_CF block_hash dag_node_bytes in
         Inr (put_cf_typed batch DagTips current_tips_key dag_tips_bytes)))))))"

definition commit_block_to_storage ::
  "bincode \<Rightarrow> 'd rocksdb \<Rightarrow> 'd \<Rightarrow> bytes \<Rightarrow> block_value \<Rightarrow> header_value \<Rightarrow> block_transaction_batch list \<Rightarrow> dag_node_value
     \<Rightarrow> dag_tips_value \<Rightarrow> 'd \<times> (storage_error + unit)" where
  "commit_block_to_storage bc R d block_hash bv hv txs dag_node dag_tips =
     (case block_batch bc block_hash bv hv txs dag_node dag_tips of
        Inl e \<Rightarrow> (d, Inl e)
      | Inr batch \<Rightarrow> map_prod id (map_err (\<lambda>e. DbError (''failed to commit block batch: '' @ e))) (db_write_batch R d batch))"

definition commit_block_to_storage_no_wal ::
  "bincode \<Rightarrow> 'd rocksdb \<Rightarrow> 'd \<Rightarrow> bytes \<Rightarrow> block_value \<Rightarrow> header_value \<Rightarrow> block_transaction_batch list \<Rightarrow> dag_node_value
     \<Rightarrow> dag_tips_value \<Rightarrow> 'd \<times> (storage_error + unit)" where
  "commit_block_to_storage_no_wal bc R d block_hash bv hv txs dag_node dag_tips =
     (case block_batch bc block_hash bv hv txs dag_node dag_tips of
        Inl e \<Rightarrow> (d, Inl e)
      | Inr batch \<Rightarrow> map_prod id (map_err (\<lambda>e. DbError (''failed to commit block batch (no-wal): '' @ e))) (db_write_batch_no_wal R d batch))"

section \<open>Pruning\<close>

record pruning_manager =
  pruned_count :: u64

definition pruning_manager_new :: pruning_manager where
  "pruning_manager_new = \<lparr>pruned_count = 0\<rparr>"

definition record_pruning :: "pruning_manager \<Rightarrow> pruning_manager" where
  "record_pruning self = self\<lparr>pruned_count := saturating_add (pruned_count self) 1\<rparr>"

fun prune_loop ::
  "bincode \<Rightarrow> u64 \<Rightarrow> u64 \<Rightarrow> write_batch \<Rightarrow> (string + bytes \<times> bytes) list \<Rightarrow> string + u64 \<times> write_batch" where
  "prune_loop bc cutoff_height pruned batch [] = Inr (pruned, batch)"
| "prune_loop bc cutoff_height pruned batch (Inl e # items) = Inl (''Iterator error: '' @ e)"
| "prune_loop bc cutoff_height pruned batch (Inr (key, raw) # items) =
     bind_res (map_err (\<lambda>e. ''Deserialization failed: '' @ e) (codec_de (bc_header bc) raw)) (\<lambda>hdr.
       if hv_height hdr < cutoff_height then prune_loop bc cutoff_height (pruned + 1) (batch_delete batch key) items
       else prune_loop bc cutoff_height pruned batch items)"

definition prune_blocks ::
  "bincode \<Rightarrow> 'd rocksdb \<Rightarrow> pruning_manager \<Rightarrow> 'd \<Rightarrow> u64 \<Rightarrow> u64 \<Rightarrow> u64 \<Rightarrow> pruning_manager \<times> 'd \<times> (string + u64)" where
  "prune_blocks bc R self d current_height depth finality_threshold =
     (let cutoff_height = saturating_sub (saturating_sub current_height depth) finality_threshold in
      case prune_loop bc cutoff_height 0 write_batch_new (rdb_iter R d Headers None) of
        Inl e \<Rightarrow> (self, d, Inl e)
      | Inr (pruned, batch) \<Rightarrow>
          (case db_write_batch R d batch of
             (d', Inl e) \<Rightarrow> (self, d', Inl (''Write batch failed: '' @ e))
           | (d', Inr _) \<Rightarrow> (self\<lparr>pruned_count := saturating_add (pruned_count self) pruned\<rparr>, d', Inr pruned)))"

definition rebuild_state_root :: "pruning_manager \<Rightarrow> pruning_manager \<times> (storage_error + nat)" where
  "rebuild_state_root self = (self, Inr 0)"

section \<open>The typed store\<close>

text \<open>\<open>KvStore\<close> passes most calls to its cache layer. The settings and the block commits go to the database
  below the caches.\<close>

record 'd node_kv_store =
  kv_cache_layer :: "'d storage_cache_layer"

definition kv_store_new :: "'d storage_cache_layer \<Rightarrow> 'd node_kv_store" where
  "kv_store_new layer = \<lparr>kv_cache_layer = layer\<rparr>"

definition on_layer :: "('d storage_cache_layer \<Rightarrow> 'd storage_cache_layer \<times> 'r) \<Rightarrow> 'd node_kv_store \<Rightarrow> 'd node_kv_store \<times> 'r" where
  "on_layer f self = (case f (kv_cache_layer self) of (layer, r) \<Rightarrow> (self\<lparr>kv_cache_layer := layer\<rparr>, r))"

definition kv_put_block where "kv_put_block bc R self h b = on_layer (\<lambda>l. put_block bc R l h b) self"
definition kv_get_block where "kv_get_block bc R self h = on_layer (\<lambda>l. layer_get_block bc R l h) self"
definition kv_delete_block where "kv_delete_block R self h = on_layer (\<lambda>l. delete_block R l h) self"
definition kv_put_header where "kv_put_header bc R self h hdr = on_layer (\<lambda>l. put_header bc R l h hdr) self"
definition kv_get_header where "kv_get_header bc R self h = get_header bc R (kv_cache_layer self) h"
definition kv_delete_header where "kv_delete_header R self h = on_layer (\<lambda>l. delete_header R l h) self"
definition kv_put_transaction where "kv_put_transaction bc R self h tx = on_layer (\<lambda>l. put_transaction bc R l h tx) self"
definition kv_get_transaction where "kv_get_transaction bc R self h = get_transaction bc R (kv_cache_layer self) h"
definition kv_delete_transaction where "kv_delete_transaction R self h = on_layer (\<lambda>l. delete_transaction R l h) self"

definition kv_put_mempool_transaction where
  "kv_put_mempool_transaction self h tx = self\<lparr>kv_cache_layer := insert_mempool_transaction (kv_cache_layer self) h tx\<rparr>"

definition kv_get_mempool_transaction where
  "kv_get_mempool_transaction self h = get_mempool_transaction (kv_cache_layer self) h"

definition kv_remove_mempool_transaction where
  "kv_remove_mempool_transaction self h = self\<lparr>kv_cache_layer := remove_mempool_transaction (kv_cache_layer self) h\<rparr>"

definition kv_put_utxo where "kv_put_utxo bc R self h i u = on_layer (\<lambda>l. put_utxo bc R l h i u) self"
definition kv_get_utxo where "kv_get_utxo bc R self h i = on_layer (\<lambda>l. get_utxo bc R l h i) self"
definition kv_delete_utxo where "kv_delete_utxo R self h i = on_layer (\<lambda>l. delete_utxo R l h i) self"

definition utxo_exists :: "bincode \<Rightarrow> 'd rocksdb \<Rightarrow> 'd node_kv_store \<Rightarrow> bytes \<Rightarrow> u32 \<Rightarrow> 'd node_kv_store \<times> (storage_error + bool)" where
  "utxo_exists bc R self h i = and_then (kv_get_utxo bc R self h i) (\<lambda>self r. (self, Inr (r \<noteq> None)))"

definition kv_put_utxo_spent where "kv_put_utxo_spent bc R self h i sp = on_layer (\<lambda>l. put_utxo_spent bc R l h i sp) self"
definition kv_get_utxo_spent where "kv_get_utxo_spent bc R self h i = get_utxo_spent bc R (kv_cache_layer self) h i"
definition kv_delete_utxo_spent where "kv_delete_utxo_spent R self h i = on_layer (\<lambda>l. delete_utxo_spent R l h i) self"
definition kv_put_verkle_state where "kv_put_verkle_state bc R self p st = on_layer (\<lambda>l. put_verkle_state bc R l p st) self"
definition kv_get_verkle_state where "kv_get_verkle_state bc R self p = get_verkle_state bc R (kv_cache_layer self) p"
definition kv_delete_verkle_state where "kv_delete_verkle_state R self p = on_layer (\<lambda>l. delete_verkle_state R l p) self"
definition kv_put_dag_node where "kv_put_dag_node bc R self h n = on_layer (\<lambda>l. put_dag_node bc R l h n) self"
definition kv_get_dag_node where "kv_get_dag_node bc R self h = get_dag_node bc R (kv_cache_layer self) h"
definition kv_delete_dag_node where "kv_delete_dag_node R self h = on_layer (\<lambda>l. delete_dag_node R l h) self"
definition kv_put_dag_tips where "kv_put_dag_tips bc R self k ts = on_layer (\<lambda>l. put_dag_tips bc R l k ts) self"
definition kv_get_dag_tips where "kv_get_dag_tips bc R self k = get_dag_tips bc R (kv_cache_layer self) k"
definition kv_delete_dag_tips where "kv_delete_dag_tips R self k = on_layer (\<lambda>l. delete_dag_tips R l k) self"
definition kv_get_current_dag_tips where "kv_get_current_dag_tips bc R self = kv_get_dag_tips bc R self current_tips_key"
definition kv_put_current_dag_tips where "kv_put_current_dag_tips bc R self ts = kv_put_dag_tips bc R self current_tips_key ts"

definition min_fee_rate_key :: bytes where
  "min_fee_rate_key = map of_char ''mempool:min_fee_rate''"

definition put_mempool_min_fee_rate :: "'d rocksdb \<Rightarrow> 'd node_kv_store \<Rightarrow> u64 \<Rightarrow> 'd node_kv_store \<times> (storage_error + unit)" where
  "put_mempool_min_fee_rate R self min_fee_rate =
     on_layer (\<lambda>l. case db_put R (cl_db l) Default min_fee_rate_key (to_be_bytes 8 min_fee_rate) of
         (d, r) \<Rightarrow> (l\<lparr>cl_db := d\<rparr>, map_err from_rocksdb_error r)) self"

definition get_mempool_min_fee_rate :: "'d rocksdb \<Rightarrow> 'd node_kv_store \<Rightarrow> storage_error + u64 option" where
  "get_mempool_min_fee_rate R self =
     bind_res (map_err from_rocksdb_error (db_get R (cl_db (kv_cache_layer self)) Default min_fee_rate_key)) (\<lambda>r. case r of
         Some raw \<Rightarrow> if length raw = 8 then Inr (Some (from_be_bytes raw)) else Inl (DbError ''invalid persisted min fee rate length'')
       | None \<Rightarrow> Inr None)"

definition commit_block_atomic ::
  "bincode \<Rightarrow> 'd rocksdb \<Rightarrow> 'd node_kv_store \<Rightarrow> bytes \<Rightarrow> block_value \<Rightarrow> header_value \<Rightarrow> block_transaction_batch list \<Rightarrow> dag_node_value
     \<Rightarrow> dag_tips_value \<Rightarrow> 'd node_kv_store \<times> (storage_error + unit)" where
  "commit_block_atomic bc R self block_hash bv hv txs dag_node dag_tips =
     on_layer (\<lambda>l. case commit_block_to_storage bc R (cl_db l) block_hash bv hv txs dag_node dag_tips of
         (d, r) \<Rightarrow> (l\<lparr>cl_db := d\<rparr>, r)) self"

definition commit_block_atomic_no_wal ::
  "bincode \<Rightarrow> 'd rocksdb \<Rightarrow> 'd node_kv_store \<Rightarrow> bytes \<Rightarrow> block_value \<Rightarrow> header_value \<Rightarrow> block_transaction_batch list \<Rightarrow> dag_node_value
     \<Rightarrow> dag_tips_value \<Rightarrow> 'd node_kv_store \<times> (storage_error + unit)" where
  "commit_block_atomic_no_wal bc R self block_hash bv hv txs dag_node dag_tips =
     on_layer (\<lambda>l. case commit_block_to_storage_no_wal bc R (cl_db l) block_hash bv hv txs dag_node dag_tips of
         (d, r) \<Rightarrow> (l\<lparr>cl_db := d\<rparr>, r)) self"

section \<open>The read path\<close>

definition MAX_ALLOWED_RESULTS :: nat where
  "MAX_ALLOWED_RESULTS = 100000"

record read_out_point =
  rop_tx_hash :: bytes
  rop_index :: u32

definition to_utxo_key :: "read_out_point \<Rightarrow> bytes" where
  "to_utxo_key self = make_utxo_key (rop_tx_hash self) (rop_index self)"

definition read_get_utxo ::
  "bincode \<Rightarrow> 'd rocksdb \<Rightarrow> 'd storage_cache_layer \<Rightarrow> read_out_point \<Rightarrow> 'd storage_cache_layer \<times> (storage_error + utxo_value option)" where
  "read_get_utxo bc R self op = get_utxo bc R self (rop_tx_hash op) (rop_index op)"

fun get_multiple_utxos ::
  "bincode \<Rightarrow> 'd rocksdb \<Rightarrow> 'd storage_cache_layer \<Rightarrow> read_out_point list
     \<Rightarrow> 'd storage_cache_layer \<times> (read_out_point \<times> (storage_error + utxo_value option)) list" where
  "get_multiple_utxos bc R self [] = (self, [])"
| "get_multiple_utxos bc R self (op # ops) =
     (let (self1, r) = read_get_utxo bc R self op; (self2, rs) = get_multiple_utxos bc R self1 ops in (self2, (op, r) # rs))"

fun check_utxos_exist ::
  "bincode \<Rightarrow> 'd rocksdb \<Rightarrow> 'd storage_cache_layer \<Rightarrow> (read_out_point, bool) fmap \<Rightarrow> read_out_point list
     \<Rightarrow> 'd storage_cache_layer \<times> (read_out_point, bool) fmap" where
  "check_utxos_exist bc R self m [] = (self, m)"
| "check_utxos_exist bc R self m (op # ops) =
     (case read_get_utxo bc R self op of
        (self, r) \<Rightarrow> check_utxos_exist bc R self (fmupd op (case r of Inr (Some u) \<Rightarrow> True | _ \<Rightarrow> False) m) ops)"

text \<open>The bodies of the two scans: at most so many items are read, failing ones are skipped.\<close>

definition read_scan :: "'v codec \<Rightarrow> (string + bytes \<times> bytes) list \<Rightarrow> nat \<Rightarrow> (bytes \<times> 'v) list" where
  "read_scan c items limit = List.map_filter (\<lambda>item. case item of
       Inl e \<Rightarrow> None
     | Inr (key, raw) \<Rightarrow> (case codec_de c raw of Inl e \<Rightarrow> None | Inr v \<Rightarrow> Some (key, v)))
     (take (min limit MAX_ALLOWED_RESULTS) items)"

definition read_scan_dag_nodes ::
  "bincode \<Rightarrow> 'd rocksdb \<Rightarrow> 'd storage_cache_layer \<Rightarrow> bytes option \<Rightarrow> nat \<Rightarrow> (bytes \<times> dag_node_value) list" where
  "read_scan_dag_nodes bc R self start_hash limit = read_scan (bc_dag_node bc) (rdb_iter R (cl_db self) Dag_CF start_hash) limit"

definition read_scan_blocks ::
  "bincode \<Rightarrow> 'd rocksdb \<Rightarrow> 'd storage_cache_layer \<Rightarrow> bytes option \<Rightarrow> nat \<Rightarrow> (bytes \<times> block_value) list" where
  "read_scan_blocks bc R self start_hash limit = read_scan (bc_block bc) (rdb_iter R (cl_db self) Blocks start_hash) limit"

section \<open>What a commit does\<close>

text \<open>The abstract ledger: stored transactions, unspent outputs and spent outputs, as maps of values.\<close>

record ledger =
  lg_transactions :: "bytes \<Rightarrow> transaction_value option"
  lg_utxos :: "bytes \<Rightarrow> utxo_value option"
  lg_spent :: "bytes \<Rightarrow> utxo_spent_value option"

definition decoded :: "'v codec \<Rightarrow> (bytes \<Rightarrow> bytes option) \<Rightarrow> bytes \<Rightarrow> 'v option" where
  "decoded c m key = (case m key of None \<Rightarrow> None | Some raw \<Rightarrow> (case from_bytes c raw of Inl e \<Rightarrow> None | Inr v \<Rightarrow> Some v))"

definition ledger_of :: "bincode \<Rightarrow> contents \<Rightarrow> ledger" where
  "ledger_of bc m = \<lparr>lg_transactions = decoded (bc_transaction bc) (m Transactions_CF),
     lg_utxos = decoded (bc_utxo bc) (m Utxo_CF), lg_spent = decoded (bc_utxo_spent bc) (m UtxoSpent)\<rparr>"

lemma lg_utxos_of: "lg_utxos (ledger_of bc m) = decoded (bc_utxo bc) (m Utxo_CF)"
  by (simp add: ledger_of_def)

definition spend_output :: "spent_utxo_batch \<Rightarrow> ledger \<Rightarrow> ledger" where
  "spend_output s L = (let key = make_utxo_key (sub_prev_tx_hash s) (sub_output_index s) in
     L\<lparr>lg_utxos := (lg_utxos L)(key := None), lg_spent := (lg_spent L)(key \<mapsto> sub_spent_value s)\<rparr>)"

fun create_outputs :: "bytes \<Rightarrow> nat \<Rightarrow> utxo_value list \<Rightarrow> ledger \<Rightarrow> ledger" where
  "create_outputs tx_hash i [] L = L"
| "create_outputs tx_hash i (u # us) L =
     create_outputs tx_hash (Suc i) us (L\<lparr>lg_utxos := (lg_utxos L)(make_utxo_key tx_hash (of_nat i) \<mapsto> u)\<rparr>)"

definition record_transaction :: "block_transaction_batch \<Rightarrow> ledger \<Rightarrow> ledger" where
  "record_transaction tx L =
     create_outputs (btb_tx_hash tx) 0 (btb_new_utxos tx)
       (fold spend_output (btb_spent_utxos tx)
         (L\<lparr>lg_transactions := (lg_transactions L)(btb_tx_hash tx \<mapsto> btb_tx_value tx)\<rparr>))"

lemma decoded_upd [simp]:
  "decoded c (m(key := None)) = (decoded c m)(key := None)"
  "from_bytes c raw = Inr v \<Longrightarrow> decoded c (m(key := Some raw)) = (decoded c m)(key \<mapsto> v)"
  "decoded c (\<lambda>k. if k = key then None else m k) = (decoded c m)(key := None)"
  "from_bytes c raw = Inr v \<Longrightarrow> decoded c (\<lambda>k. if k = key then Some raw else m k) = (decoded c m)(key \<mapsto> v)"
  by (auto simp: decoded_def fun_eq_iff)

text \<open>The families outside the ledger.\<close>

definition same_elsewhere :: "contents \<Rightarrow> contents \<Rightarrow> bool" where
  "same_elsewhere m m' \<longleftrightarrow> (\<forall>cf. cf \<notin> {Transactions_CF, Utxo_CF, UtxoSpent} \<longrightarrow> m' cf = m cf)"

lemma same_elsewhere_refl [simp]: "same_elsewhere m m"
  by (simp add: same_elsewhere_def)

lemma same_elsewhere_trans: "same_elsewhere m1 m2 \<Longrightarrow> same_elsewhere m2 m3 \<Longrightarrow> same_elsewhere m1 m3"
  by (auto simp: same_elsewhere_def)

lemma same_elsewhere_store [simp]:
  "cf \<in> {Transactions_CF, Utxo_CF, UtxoSpent} \<Longrightarrow> same_elsewhere m (store m cf key x)"
  by (auto simp: same_elsewhere_def)

lemma spend_utxos_effect:
  assumes "bincode_laws bc" and "spend_utxos bc b ss = Inr b'"
  shows "ledger_of bc (apply_batch b' m) = fold spend_output ss (ledger_of bc (apply_batch b m)) \<and>
    same_elsewhere (apply_batch b m) (apply_batch b' m)"
  using assms
proof (induction bc b ss rule: spend_utxos.induct)
  case (2 bc b s ss)
  let ?key = "make_utxo_key (sub_prev_tx_hash s) (sub_output_index s)"
  obtain raw where raw: "to_bytes (bc_utxo_spent bc) (sub_spent_value s) = Inr raw"
    "spend_utxos bc (put_cf_typed (delete_cf_typed b Utxo_CF ?key) UtxoSpent ?key raw) ss = Inr b'"
    using "2.prems"(2) by (auto simp: Let_def)
  have de: "from_bytes (bc_utxo_spent bc) raw = Inr (sub_spent_value s)"
    using to_bytes_from_bytes [OF _ raw(1)] "2.prems"(1) by (simp add: bincode_laws_def)
  note IH = "2.IH" [OF refl refl "2.prems"(1) raw(2)]
  have "ledger_of bc (apply_batch (put_cf_typed (delete_cf_typed b Utxo_CF ?key) UtxoSpent ?key raw) m)
    = spend_output s (ledger_of bc (apply_batch b m))"
    using de by (simp add: ledger_of_def spend_output_def Let_def)
  with IH show ?case
    by (auto simp: same_elsewhere_def)
qed simp

lemma create_utxos_effect:
  assumes "bincode_laws bc" and "create_utxos bc h b i us = Inr b'"
  shows "ledger_of bc (apply_batch b' m) = create_outputs h i us (ledger_of bc (apply_batch b m)) \<and>
    same_elsewhere (apply_batch b m) (apply_batch b' m)"
  using assms
proof (induction bc h b i us rule: create_utxos.induct)
  case (2 bc h b i u us)
  let ?key = "make_utxo_key h (of_nat i)"
  obtain raw where raw: "to_bytes (bc_utxo bc) u = Inr raw" "create_utxos bc h (put_cf_typed b Utxo_CF ?key raw) (Suc i) us = Inr b'"
    using "2.prems"(2) by auto
  have de: "from_bytes (bc_utxo bc) raw = Inr u"
    using to_bytes_from_bytes [OF _ raw(1)] "2.prems"(1) by (simp add: bincode_laws_def)
  have "ledger_of bc (apply_batch (put_cf_typed b Utxo_CF ?key raw) m)
    = (ledger_of bc (apply_batch b m))\<lparr>lg_utxos := (lg_utxos (ledger_of bc (apply_batch b m)))(?key \<mapsto> u)\<rparr>"
    using de by (simp add: ledger_of_def)
  with "2.IH" [OF "2.prems"(1) raw(2)] show ?case
    by (auto simp: same_elsewhere_def)
qed simp

lemma prepare_transactions_ok:
  "prepare_transactions bc txs = Inr ops \<Longrightarrow>
   map fst ops = txs \<and> (\<forall>(tx, raw)\<in>set ops. to_bytes (bc_transaction bc) (btb_tx_value tx) = Inr raw)"
  by (induction txs arbitrary: ops) auto

lemma add_transactions_effect:
  assumes "bincode_laws bc" and "add_transactions bc b ops = Inr b'"
    and "\<forall>(tx, raw)\<in>set ops. to_bytes (bc_transaction bc) (btb_tx_value tx) = Inr raw"
  shows "ledger_of bc (apply_batch b' m) = fold record_transaction (map fst ops) (ledger_of bc (apply_batch b m)) \<and>
    same_elsewhere (apply_batch b m) (apply_batch b' m)"
  using assms(2,3)
proof (induction ops arbitrary: b)
  case (Cons op ops)
  obtain tx raw where op: "op = (tx, raw)" by (cases op)
  let ?b1 = "put_cf_typed b Transactions_CF (btb_tx_hash tx) raw"
  obtain b2 b3 where b: "spend_utxos bc ?b1 (btb_spent_utxos tx) = Inr b2" "create_utxos bc (btb_tx_hash tx) b2 0 (btb_new_utxos tx) = Inr b3"
    "add_transactions bc b3 ops = Inr b'"
    using Cons.prems(1) op by (auto simp: Let_def)
  have de: "from_bytes (bc_transaction bc) raw = Inr (btb_tx_value tx)"
    using to_bytes_from_bytes [of "bc_transaction bc"] Cons.prems(2) op assms(1) by (simp add: bincode_laws_def)
  have "ledger_of bc (apply_batch ?b1 m) = (ledger_of bc (apply_batch b m))
    \<lparr>lg_transactions := (lg_transactions (ledger_of bc (apply_batch b m)))(btb_tx_hash tx \<mapsto> btb_tx_value tx)\<rparr>"
    using de by (simp add: ledger_of_def)
  then have "ledger_of bc (apply_batch b3 m) = record_transaction tx (ledger_of bc (apply_batch b m))"
    using spend_utxos_effect [OF assms(1) b(1), of m] create_utxos_effect [OF assms(1) b(2), of m] by (simp add: record_transaction_def)
  moreover have "same_elsewhere (apply_batch b m) (apply_batch b3 m)"
    using spend_utxos_effect [OF assms(1) b(1), of m] create_utxos_effect [OF assms(1) b(2), of m]
    by (auto simp: same_elsewhere_def)
  ultimately show ?case
    using Cons.IH [OF b(3)] Cons.prems(2) op by (auto simp: same_elsewhere_def)
qed simp

lemma block_batch_effect:
  assumes "bincode_laws bc" and "block_batch bc h bv hv txs node ts = Inr b"
  shows "ledger_of bc (apply_batch b m) = fold record_transaction txs (ledger_of bc m)"
    and "decoded (bc_block bc) (apply_batch b m Blocks) = (decoded (bc_block bc) (m Blocks))(h \<mapsto> bv)"
    and "decoded (bc_header bc) (apply_batch b m Headers) = (decoded (bc_header bc) (m Headers))(h \<mapsto> hv)"
    and "decoded (bc_dag_node bc) (apply_batch b m Dag_CF) = (decoded (bc_dag_node bc) (m Dag_CF))(h \<mapsto> node)"
    and "decoded (bc_dag_tips bc) (apply_batch b m DagTips) = (decoded (bc_dag_tips bc) (m DagTips))(current_tips_key \<mapsto> ts)"
    and "apply_batch b m Default = m Default" and "apply_batch b m VerkleState = m VerkleState"
proof -
  obtain rb rh ops rn rt b1 where e: "to_bytes (bc_block bc) bv = Inr rb" "to_bytes (bc_header bc) hv = Inr rh"
    "prepare_transactions bc txs = Inr ops" "to_bytes (bc_dag_node bc) node = Inr rn" "to_bytes (bc_dag_tips bc) ts = Inr rt"
    "add_transactions bc (put_cf_typed (put_cf_typed write_batch_new Blocks h rb) Headers h rh) ops = Inr b1"
    "b = put_cf_typed (put_cf_typed b1 Dag_CF h rn) DagTips current_tips_key rt"
    using assms(2) by (auto simp: block_batch_def Let_def)
  have de: "from_bytes (bc_block bc) rb = Inr bv" "from_bytes (bc_header bc) rh = Inr hv"
    "from_bytes (bc_dag_node bc) rn = Inr node" "from_bytes (bc_dag_tips bc) rt = Inr ts"
    using assms(1) e(1,2,4,5) by (auto simp: bincode_laws_def intro: to_bytes_from_bytes)
  note ops = prepare_transactions_ok [OF e(3)]
  let ?m0 = "store (store m Blocks h (Some rb)) Headers h (Some rh)"
  have add: "ledger_of bc (apply_batch b1 m) = fold record_transaction txs (ledger_of bc ?m0)" "same_elsewhere ?m0 (apply_batch b1 m)"
    using add_transactions_effect [OF assms(1) e(6), of m] ops by simp_all
  have "ledger_of bc ?m0 = ledger_of bc m" by (simp add: ledger_of_def)
  moreover have "ledger_of bc (apply_batch b m) = ledger_of bc (apply_batch b1 m)" by (simp add: ledger_of_def e(7))
  ultimately show "ledger_of bc (apply_batch b m) = fold record_transaction txs (ledger_of bc m)" using add(1) by simp
  show "decoded (bc_block bc) (apply_batch b m Blocks) = (decoded (bc_block bc) (m Blocks))(h \<mapsto> bv)"
    "decoded (bc_header bc) (apply_batch b m Headers) = (decoded (bc_header bc) (m Headers))(h \<mapsto> hv)"
    "decoded (bc_dag_node bc) (apply_batch b m Dag_CF) = (decoded (bc_dag_node bc) (m Dag_CF))(h \<mapsto> node)"
    "decoded (bc_dag_tips bc) (apply_batch b m DagTips) = (decoded (bc_dag_tips bc) (m DagTips))(current_tips_key \<mapsto> ts)"
    "apply_batch b m Default = m Default" "apply_batch b m VerkleState = m VerkleState"
    using add(2) de by (simp_all add: same_elsewhere_def e(7))
qed

lemma map_prod_written:
  "written w view m m' \<Longrightarrow> map_prod id (map_err f) w = (d', r) \<Longrightarrow> view d' = (if is_ok r then m' else m)"
  by (cases w; cases "snd w") (auto simp: written_def)

lemma prune_loop_effect:
  assumes "prune_loop bc c n b items = Inr (p, b')"
  shows "(\<forall>cf. cf \<noteq> Default \<longrightarrow> apply_batch b' m cf = apply_batch b m cf) \<and>
    p = n + of_nat (length (filter (\<lambda>item. \<exists>key raw hdr. item = Inr (key, raw) \<and> codec_de (bc_header bc) raw = Inr hdr \<and> hv_height hdr < c) items))"
  using assms
proof (induction bc c n b items rule: prune_loop.induct)
  case (3 bc c n b key raw items)
  obtain hdr where hdr: "codec_de (bc_header bc) raw = Inr hdr" using "3.prems" by auto
  show ?case
  proof (cases "hv_height hdr < c")
    case True
    then show ?thesis using "3.IH"(1) [OF True] "3.prems" hdr by simp
  next
    case False
    then show ?thesis using "3.IH"(2) [OF False] "3.prems" hdr by simp
  qed
qed simp_all

lemma min_fee_rate_roundtrip:
  assumes "rocks_laws R view" and "put_mempool_min_fee_rate R self f = (self', Inr ())" and "get_mempool_min_fee_rate R self' = Inr r"
  shows "r = Some f"
proof -
  let ?l = "kv_cache_layer self"
  obtain d where d: "db_put R (cl_db ?l) Default min_fee_rate_key (to_be_bytes 8 f) = (d, Inr ())" "self' = self\<lparr>kv_cache_layer := ?l\<lparr>cl_db := d\<rparr>\<rparr>"
    using assms(2) by (auto simp: put_mempool_min_fee_rate_def on_layer_def split: prod.splits)
  have "view d Default min_fee_rate_key = Some (to_be_bytes 8 f)"
    using rocks_put [OF assms(1), of "cl_db ?l" Default min_fee_rate_key "to_be_bytes 8 f"] d(1) by (simp add: written_def)
  moreover obtain q where "db_get R d Default min_fee_rate_key = Inr q" using assms(3) d(2) by (auto simp: get_mempool_min_fee_rate_def)
  ultimately show ?thesis using rocks_get [OF assms(1)] assms(3) d(2) by (fastforce simp: get_mempool_min_fee_rate_def)
qed

lemma read_scan_stored:
  assumes "rocks_laws R view"
  shows "length (read_scan c (rdb_iter R d cf start) limit) \<le> min limit MAX_ALLOWED_RESULTS"
    and "(key, v) \<in> set (read_scan c (rdb_iter R d cf start) limit) \<Longrightarrow> \<exists>raw. view d cf key = Some raw \<and> codec_de c raw = Inr v"
proof -
  have "length (List.map_filter f xs) \<le> length xs" for f :: "'x \<Rightarrow> 'y option" and xs
    by (induction xs) (auto simp: map_filter_simps split: option.splits)
  from this [of _ "take (min limit MAX_ALLOWED_RESULTS) (rdb_iter R d cf start)"]
  show "length (read_scan c (rdb_iter R d cf start) limit) \<le> min limit MAX_ALLOWED_RESULTS"
    unfolding read_scan_def by (rule order_trans) (auto simp: min_le_iff_disj)
  assume "(key, v) \<in> set (read_scan c (rdb_iter R d cf start) limit)"
  then obtain item where item: "item \<in> set (take (min limit MAX_ALLOWED_RESULTS) (rdb_iter R d cf start))"
    "(case item of Inl e \<Rightarrow> None | Inr (key, raw) \<Rightarrow> (case codec_de c raw of Inl e \<Rightarrow> None | Inr v \<Rightarrow> Some (key, v))) = Some (key, v)"
    by (auto simp: read_scan_def List.map_filter_def)
  then obtain raw where "item = Inr (key, raw)" "codec_de c raw = Inr v" by (auto split: sum.splits prod.splits)
  with in_set_takeD [OF item(1)] have "Inr (key, raw) \<in> set (rdb_iter R d cf start)" "codec_de c raw = Inr v" by simp_all
  then show "\<exists>raw. view d cf key = Some raw \<and> codec_de c raw = Inr v" using rocks_iter [OF assms] by blast
qed

lemma commit_effect:
  assumes "rocks_laws R view" and "bincode_laws bc"
    and "commit_block_to_storage bc R d h bv hv txs node ts = (d', r) \<or> commit_block_to_storage_no_wal bc R d h bv hv txs node ts = (d', r)"
  shows "\<not> is_ok r \<Longrightarrow> view d' = view d"
    and "is_ok r \<Longrightarrow> ledger_of bc (view d') = fold record_transaction txs (ledger_of bc (view d)) \<and>
      decoded (bc_block bc) (view d' Blocks) = (decoded (bc_block bc) (view d Blocks))(h \<mapsto> bv) \<and>
      decoded (bc_header bc) (view d' Headers) = (decoded (bc_header bc) (view d Headers))(h \<mapsto> hv) \<and>
      decoded (bc_dag_node bc) (view d' Dag_CF) = (decoded (bc_dag_node bc) (view d Dag_CF))(h \<mapsto> node) \<and>
      decoded (bc_dag_tips bc) (view d' DagTips) = (decoded (bc_dag_tips bc) (view d DagTips))(current_tips_key \<mapsto> ts) \<and>
      view d' Default = view d Default \<and> view d' VerkleState = view d VerkleState"
proof -
  have "(\<not> is_ok r \<and> view d' = view d) \<or> (\<exists>b. block_batch bc h bv hv txs node ts = Inr b \<and> is_ok r \<and> view d' = apply_batch b (view d))"
  proof (cases "block_batch bc h bv hv txs node ts")
    case (Inl e)
    with assms(3) show ?thesis by (auto simp: commit_block_to_storage_def commit_block_to_storage_no_wal_def)
  next
    case (Inr b)
    have "view d' = (if is_ok r then apply_batch b (view d) else view d)"
      using assms(3)
    proof
      assume "commit_block_to_storage bc R d h bv hv txs node ts = (d', r)"
      from map_prod_written [OF rocks_write [OF assms(1)] this [unfolded commit_block_to_storage_def Inr sum.case]] show ?thesis .
    next
      assume "commit_block_to_storage_no_wal bc R d h bv hv txs node ts = (d', r)"
      from map_prod_written [OF rocks_write_no_wal [OF assms(1)] this [unfolded commit_block_to_storage_no_wal_def Inr sum.case]] show ?thesis .
    qed
    with Inr show ?thesis by (cases "is_ok r") simp_all
  qed
  then show "\<not> is_ok r \<Longrightarrow> view d' = view d"
    and "is_ok r \<Longrightarrow> ledger_of bc (view d') = fold record_transaction txs (ledger_of bc (view d)) \<and>
      decoded (bc_block bc) (view d' Blocks) = (decoded (bc_block bc) (view d Blocks))(h \<mapsto> bv) \<and>
      decoded (bc_header bc) (view d' Headers) = (decoded (bc_header bc) (view d Headers))(h \<mapsto> hv) \<and>
      decoded (bc_dag_node bc) (view d' Dag_CF) = (decoded (bc_dag_node bc) (view d Dag_CF))(h \<mapsto> node) \<and>
      decoded (bc_dag_tips bc) (view d' DagTips) = (decoded (bc_dag_tips bc) (view d DagTips))(current_tips_key \<mapsto> ts) \<and>
      view d' Default = view d Default \<and> view d' VerkleState = view d VerkleState"
    using block_batch_effect [OF assms(2), of h bv hv txs node ts _ "view d"] by auto
qed

lemma stale_after_commit:
  assumes "rocks_laws R view" and "bincode_laws bc"
    and "map_of (lru_items (utxo_hot_cache (kv_cache_layer self))) (make_utxo_key h i) = Some u"
    and "commit_block_atomic bc R self block_hash bv hv txs node ts = (self', Inr ())"
    and "lg_utxos (fold record_transaction txs (ledger_of bc (view (cl_db (kv_cache_layer self))))) (make_utxo_key h i) = None"
  shows "decoded (bc_utxo bc) (view (cl_db (kv_cache_layer self')) Utxo_CF) (make_utxo_key h i) = None"
    and "snd (utxo_exists bc R self' h i) = Inr True" and "snd (kv_get_utxo bc R self' h i) = Inr (Some u)"
proof -
  let ?l = "kv_cache_layer self"
  obtain d where d: "commit_block_to_storage bc R (cl_db ?l) block_hash bv hv txs node ts = (d, Inr ())" "self' = self\<lparr>kv_cache_layer := ?l\<lparr>cl_db := d\<rparr>\<rparr>"
    using assms(4) by (auto simp: commit_block_atomic_def on_layer_def split: prod.splits)
  have "ledger_of bc (view d) = fold record_transaction txs (ledger_of bc (view (cl_db ?l)))"
    using commit_effect(2) [OF assms(1,2) disjI1 [OF d(1)]] by simp
  then show "decoded (bc_utxo bc) (view (cl_db (kv_cache_layer self')) Utxo_CF) (make_utxo_key h i) = None"
    using assms(5) d(2) by (simp flip: lg_utxos_of)
  show "snd (kv_get_utxo bc R self' h i) = Inr (Some u)"
    using assms(3) d(2) by (simp add: kv_get_utxo_def on_layer_def get_utxo_def cached_read_def lru_get_def)
  then show "snd (utxo_exists bc R self' h i) = Inr True"
    by (cases "kv_get_utxo bc R self' h i") (simp add: utxo_exists_def and_then_def)
qed

lemma prune_blocks_effect:
  assumes "rocks_laws R view" and "prune_blocks bc R self d height depth finality = (self', d', r)"
  shows "\<forall>cf. cf \<noteq> Default \<longrightarrow> view d' cf = view d cf"
    and "r = Inr n \<Longrightarrow> n = of_nat (length (filter (\<lambda>item. \<exists>key raw hdr. item = Inr (key, raw) \<and> codec_de (bc_header bc) raw = Inr hdr \<and>
      hv_height hdr < saturating_sub (saturating_sub height depth) finality) (rdb_iter R d Headers None)))"
proof -
  let ?c = "saturating_sub (saturating_sub height depth) finality"
  let ?n = "of_nat (length (filter (\<lambda>item. \<exists>key raw hdr. item = Inr (key, raw) \<and> codec_de (bc_header bc) raw = Inr hdr \<and> hv_height hdr < ?c)
    (rdb_iter R d Headers None)))"
  have "(\<forall>cf. cf \<noteq> Default \<longrightarrow> view d' cf = view d cf) \<and> (\<forall>n. r = Inr n \<longrightarrow> n = ?n)"
  proof (cases "prune_loop bc ?c 0 write_batch_new (rdb_iter R d Headers None)")
    case (Inl e)
    with assms(2) show ?thesis by (auto simp: prune_blocks_def Let_def)
  next
    case (Inr q)
    obtain p b where q: "q = (p, b)" by (cases q)
    have b: "\<forall>cf. cf \<noteq> Default \<longrightarrow> apply_batch b (view d) cf = view d cf" "p = ?n"
      using prune_loop_effect [OF Inr [unfolded q], of "view d"] by simp_all
    obtain d1 r1 where w: "db_write_batch R d b = (d1, r1)" by (cases "db_write_batch R d b")
    have v: "view d1 = (if is_ok r1 then apply_batch b (view d) else view d)"
      using rocks_write [OF assms(1), of d b] w by (simp add: written_def)
    show ?thesis
      using assms(2) Inr q w v b by (cases r1) (auto simp: prune_blocks_def Let_def)
  qed
  then show "\<forall>cf. cf \<noteq> Default \<longrightarrow> view d' cf = view d cf" and "r = Inr n \<Longrightarrow> n = ?n" by blast+
qed

section \<open>Properties\<close>

text \<open>C29: The commit of a block is all or nothing and exact. When it fails, the database is as before; when it
  succeeds, block, header, graph node and tips are stored under their keys, the ledger of transactions,
  unspent and spent outputs is the old one with the transactions of the block recorded in order, and the
  settings and the state tree are untouched. The variant without log does the same.\<close>

theorem commit_block_exact:
  assumes "rocks_laws R view" and "bincode_laws bc"
    and "commit_block_to_storage bc R d h bv hv txs node ts = (d', r) \<or> commit_block_to_storage_no_wal bc R d h bv hv txs node ts = (d', r)"
  shows "if is_ok r then
      ledger_of bc (view d') = fold record_transaction txs (ledger_of bc (view d)) \<and>
      decoded (bc_block bc) (view d' Blocks) = (decoded (bc_block bc) (view d Blocks))(h \<mapsto> bv) \<and>
      decoded (bc_header bc) (view d' Headers) = (decoded (bc_header bc) (view d Headers))(h \<mapsto> hv) \<and>
      decoded (bc_dag_node bc) (view d' Dag_CF) = (decoded (bc_dag_node bc) (view d Dag_CF))(h \<mapsto> node) \<and>
      decoded (bc_dag_tips bc) (view d' DagTips) = (decoded (bc_dag_tips bc) (view d DagTips))(current_tips_key \<mapsto> ts) \<and>
      view d' Default = view d Default \<and> view d' VerkleState = view d VerkleState
    else view d' = view d"
  using commit_effect [OF assms] by (cases "is_ok r") simp_all

text \<open>A block commit does not reach the caches. An output that is in the hot cache when a block that spends
  it is committed stays there: afterwards the database has no such output, but \<open>utxo_exists\<close> still says
  that it exists and \<open>get_utxo\<close> returns its value.\<close>

theorem committed_spend_stays_cached:
  assumes "rocks_laws R view" and "bincode_laws bc"
    and "map_of (lru_items (utxo_hot_cache (kv_cache_layer self))) (make_utxo_key h i) = Some u"
    and "commit_block_atomic bc R self block_hash bv hv txs node ts = (self', Inr ())"
    and "lg_utxos (fold record_transaction txs (ledger_of bc (view (cl_db (kv_cache_layer self))))) (make_utxo_key h i) = None"
  shows "decoded (bc_utxo bc) (view (cl_db (kv_cache_layer self')) Utxo_CF) (make_utxo_key h i) = None \<and>
    snd (utxo_exists bc R self' h i) = Inr True \<and> snd (kv_get_utxo bc R self' h i) = Inr (Some u)"
  using stale_after_commit [OF assms] by blast

text \<open>Pruning removes no block. Whatever \<open>prune_blocks\<close> reports, every column family except the default one,
  and so every block, is as before: the deletions go to the default family, where no block is stored. The
  number it reports is the number of headers below the cutoff height, each time it is called.\<close>

theorem prune_blocks_removes_no_block:
  assumes "rocks_laws R view" and "prune_blocks bc R self d height depth finality = (self', d', r)"
  shows "(\<forall>cf. cf \<noteq> Default \<longrightarrow> view d' cf = view d cf) \<and>
    (r = Inr n \<longrightarrow> n = of_nat (length (filter (\<lambda>item. \<exists>key raw hdr. item = Inr (key, raw) \<and> codec_de (bc_header bc) raw = Inr hdr \<and>
      hv_height hdr < saturating_sub (saturating_sub height depth) finality) (rdb_iter R d Headers None))))"
  using prune_blocks_effect [OF assms] by blast

subsection \<open>Examples\<close>

text \<open>The output of \<open>demo_stored\<close> is spent by a block with one transaction.\<close>

definition demo_header :: header_value where
  "demo_header = \<lparr>hv_block_hash = [9], hv_parent_hashes = [], hv_timestamp = 0, hv_difficulty = 1, hv_nonce = 0,
     hv_verkle_root = [], hv_height = 3\<rparr>"

definition demo_batch_tx :: block_transaction_batch where
  "demo_batch_tx = \<lparr>btb_tx_hash = [7], btb_tx_value = \<lparr>tv_tx_hash = [7], tv_inputs = [], tv_outputs = [], tv_fee = 0\<rparr>,
     btb_spent_utxos = [\<lparr>sub_prev_tx_hash = demo_txid, sub_output_index = 0, sub_spent_value = utxo_spent_value_new [7] 0 3\<rparr>],
     btb_new_utxos = []\<rparr>"

definition demo_commit :: "memory node_kv_store \<Rightarrow> memory node_kv_store \<times> (storage_error + unit)" where
  "demo_commit self = commit_block_atomic demo_bincode memory_db self [9] (block_value_from_parts [9] [] [] 0) demo_header
     [demo_batch_tx] (dag_node_value_new [9] [] [] [] 0) (dag_tips_value_new [[9]] 3)"

lemma demo_batch_ok:
  "\<exists>b. block_batch demo_bincode [9] (block_value_from_parts [9] [] [] 0) demo_header [demo_batch_tx]
     (dag_node_value_new [9] [] [] [] 0) (dag_tips_value_new [[9]] 3) = Inr b"
  by (simp add: block_batch_def to_bytes_def demo_bincode_def single_codec_def demo_header_def demo_batch_tx_def Let_def)

lemma memory_write_ok: "snd (db_write_batch memory_db d b) = Inr ()"
  by (simp add: db_write_batch_def memory_db_def)

lemma demo_commit_ok: "snd (demo_commit self) = Inr ()"
proof -
  obtain b where "block_batch demo_bincode [9] (block_value_from_parts [9] [] [] 0) demo_header [demo_batch_tx]
     (dag_node_value_new [9] [] [] [] 0) (dag_tips_value_new [[9]] 3) = Inr b" using demo_batch_ok by blast
  then show ?thesis
    using memory_write_ok [of "cl_db (kv_cache_layer self)" b]
    by (cases "db_write_batch memory_db (cl_db (kv_cache_layer self)) b")
      (simp add: demo_commit_def commit_block_atomic_def on_layer_def commit_block_to_storage_def)
qed

lemma demo_record_spends: "lg_utxos (record_transaction demo_batch_tx L) (make_utxo_key demo_txid 0) = None"
  by (simp add: record_transaction_def demo_batch_tx_def spend_output_def Let_def)

lemma demo_stored_cached: "map_of (lru_items (utxo_hot_cache demo_stored)) (make_utxo_key demo_txid 0) = Some demo_utxo_value"
proof -
  have "coherent demo_bincode memory_view demo_layer" by (rule storage_cache_layer_new_coherent [OF demo_layer_new])
  from put_utxo_coherent(2) [OF memory_db_laws demo_bincode_laws this demo_put refl]
  show ?thesis by (cases "lru_items (utxo_hot_cache demo_stored)") auto
qed

theorem committed_spend_stays_cached_witness:
  "let self' = fst (demo_commit (kv_store_new demo_stored)) in
   decoded (bc_utxo demo_bincode) (memory_view (cl_db (kv_cache_layer self')) Utxo_CF) (make_utxo_key demo_txid 0) = None \<and>
   snd (utxo_exists demo_bincode memory_db self' demo_txid 0) = Inr True"
proof -
  define self where "self = kv_store_new demo_stored"
  have hit: "map_of (lru_items (utxo_hot_cache (kv_cache_layer self))) (make_utxo_key demo_txid 0) = Some demo_utxo_value"
    using demo_stored_cached by (simp add: self_def kv_store_new_def)
  have commit: "commit_block_atomic demo_bincode memory_db self [9] (block_value_from_parts [9] [] [] 0) demo_header
     [demo_batch_tx] (dag_node_value_new [9] [] [] [] 0) (dag_tips_value_new [[9]] 3) = (fst (demo_commit self), Inr ())"
    using demo_commit_ok [of self] by (simp add: demo_commit_def prod_eq_iff)
  have spent: "lg_utxos (fold record_transaction [demo_batch_tx] (ledger_of demo_bincode (memory_view (cl_db (kv_cache_layer self)))))
    (make_utxo_key demo_txid 0) = None" by (simp add: demo_record_spends)
  show ?thesis
    using committed_spend_stays_cached [OF memory_db_laws demo_bincode_laws hit commit spent] by (simp add: Let_def flip: self_def)
qed

theorem commit_block_exact_witness:
  "\<exists>d' r. commit_block_to_storage demo_bincode memory_db (cl_db demo_stored) [9] (block_value_from_parts [9] [] [] 0) demo_header
     [demo_batch_tx] (dag_node_value_new [9] [] [] [] 0) (dag_tips_value_new [[9]] 3) = (d', r) \<and> is_ok r \<and>
     decoded (bc_block demo_bincode) (memory_view d' Blocks) [9] = Some (block_value_from_parts [9] [] [] 0) \<and>
     lg_utxos (ledger_of demo_bincode (memory_view d')) (make_utxo_key demo_txid 0) = None"
proof -
  obtain d' r where c: "commit_block_to_storage demo_bincode memory_db (cl_db demo_stored) [9] (block_value_from_parts [9] [] [] 0) demo_header
     [demo_batch_tx] (dag_node_value_new [9] [] [] [] 0) (dag_tips_value_new [[9]] 3) = (d', r)" by fastforce
  have ok: "is_ok r"
    using demo_commit_ok [of "kv_store_new demo_stored"] c
    by (simp add: demo_commit_def commit_block_atomic_def on_layer_def kv_store_new_def)
  from commit_block_exact [OF memory_db_laws demo_bincode_laws disjI1 [OF c]] c ok show ?thesis
    by (simp add: demo_record_spends)
qed

definition demo_pruned_db :: memory where
  "demo_pruned_db = fmupd (Headers, [9]) [1] (fmupd (Blocks, [9]) [1] fmempty)"

lemma demo_pruned_headers: "rdb_iter memory_db demo_pruned_db Headers None = [Inr ([9], [1])]"
proof -
  have "snd |`| ffilter (\<lambda>p. fst p = Headers) (fmdom demo_pruned_db) = {|[9]|}"
    by (auto simp: demo_pruned_db_def fset_eq_iff)
  then have "memory_keys demo_pruned_db Headers = [[9]]" by (simp add: memory_keys_def sorted_list_of_fset_finsert)
  then show ?thesis by (simp add: memory_db_def demo_pruned_db_def)
qed

theorem prune_blocks_removes_no_block_witness:
  "case prune_blocks demo_bincode memory_db pruning_manager_new demo_pruned_db 10 1 1 of
     (self', d', r) \<Rightarrow> r = Inr 1 \<and> memory_view d' Blocks [9] = Some [1]"
proof -
  obtain self' d' r where p: "prune_blocks demo_bincode memory_db pruning_manager_new demo_pruned_db 10 1 1 = (self', d', r)"
    by (cases "prune_blocks demo_bincode memory_db pruning_manager_new demo_pruned_db 10 1 1") auto
  have hdr: "codec_de (bc_header demo_bincode) [1] = Inr demo_header"
    by (simp add: demo_bincode_def single_codec_def demo_header_def)
  obtain d1 where "db_write_batch memory_db demo_pruned_db (batch_delete write_batch_new [9]) = (d1, Inr ())"
    using memory_write_ok by (metis prod.collapse)
  then have "r = Inr 1"
    using p by (simp add: prune_blocks_def demo_pruned_headers hdr demo_header_def saturating_sub_def Let_def)
  moreover have "memory_view d' Blocks = memory_view demo_pruned_db Blocks"
    using prune_blocks_removes_no_block [OF memory_db_laws p] by simp
  then have "memory_view d' Blocks [9] = Some [1]" by (simp add: memory_view_def demo_pruned_db_def fun_eq_iff)
  ultimately show ?thesis using p by simp
qed

end
