(* ===== verification/Core_Integration.thy ===== *)
theory Core_Integration
  imports Node_Store Utxo Dag
begin

text \<open>
  The bridge between the core and the node's database: \<open>storage/integration.rs\<close>. bincode on the types of the
  core is the argument \<open>cc\<close>; its law \<open>hash_codec_ok\<close> says that different hashes have different encodings. The
  order in which the parents of a header are listed is that of a hash set, the argument \<open>order\<close>.
\<close>

section \<open>Operations\<close>

record core_codecs =
  cc_hash :: "hash \<Rightarrow> string + bytes"
  cc_transaction :: "transaction \<Rightarrow> string + bytes"
  cc_block_header :: "block_header \<Rightarrow> string + bytes"

definition ser_core :: "('a \<Rightarrow> string + bytes) \<Rightarrow> 'a \<Rightarrow> storage_error + bytes" where
  "ser_core f x = map_err storage_error.SerializationError (f x)"

definition integration_get_utxo ::
  "bincode \<Rightarrow> core_codecs \<Rightarrow> 'd rocksdb \<Rightarrow> 'd \<Rightarrow> outpoint \<Rightarrow> storage_error + utxo_value option" where
  "integration_get_utxo bc cc R d op =
     bind_res (ser_core (cc_hash cc) (fst op)) (\<lambda>tx_hash_bytes.
     bind_res (map_err DbError (db_get R d Utxo_CF (make_utxo_key tx_hash_bytes (snd op)))) (\<lambda>r.
       case r of
         None \<Rightarrow> Inr None
       | Some raw \<Rightarrow> bind_res (map_err storage_error.SerializationError (codec_de (bc_utxo bc) raw)) (\<lambda>u. Inr (Some u))))"

fun remove_inputs :: "core_codecs \<Rightarrow> write_batch \<Rightarrow> tx_input list \<Rightarrow> storage_error + write_batch" where
  "remove_inputs cc batch [] = Inr batch"
| "remove_inputs cc batch (i # ins) =
     bind_res (ser_core (cc_hash cc) (prev_tx i)) (\<lambda>tx_hash_bytes.
       remove_inputs cc (delete_cf_typed batch Utxo_CF (make_utxo_key tx_hash_bytes (index i))) ins)"

fun store_outputs ::
  "bincode \<Rightarrow> core_codecs \<Rightarrow> bytes \<Rightarrow> nat \<Rightarrow> write_batch \<Rightarrow> tx_output list \<Rightarrow> storage_error + write_batch" where
  "store_outputs bc cc tx_hash_bytes n batch [] = Inr batch"
| "store_outputs bc cc tx_hash_bytes n batch (out # outs) =
     bind_res (ser_core (cc_hash cc) (pubkey_hash out)) (\<lambda>pubkey_hash_bytes.
     bind_res (to_bytes (bc_utxo bc) (utxo_value_new (out_value out) pubkey_hash_bytes [] 0)) (\<lambda>serialized.
       store_outputs bc cc tx_hash_bytes (Suc n)
         (put_cf_typed batch Utxo_CF (make_utxo_key tx_hash_bytes (of_nat n)) serialized) outs))"

definition integration_apply_tx ::
  "bincode \<Rightarrow> core_codecs \<Rightarrow> 'd rocksdb \<Rightarrow> 'd \<Rightarrow> transaction \<Rightarrow> 'd \<times> (storage_error + unit)" where
  "integration_apply_tx bc cc R d tx =
     (case bind_res (remove_inputs cc write_batch_new (inputs tx)) (\<lambda>batch.
             bind_res (ser_core (cc_hash cc) (tx_id tx)) (\<lambda>tx_hash_bytes.
               store_outputs bc cc tx_hash_bytes 0 batch (outputs tx))) of
        Inl e \<Rightarrow> (d, Inl e)
      | Inr batch \<Rightarrow> map_prod id (map_err DbError) (db_write_batch R d batch))"

fun ser_all :: "('a \<Rightarrow> string + bytes) \<Rightarrow> 'a list \<Rightarrow> storage_error + bytes list" where
  "ser_all f [] = Inr []"
| "ser_all f (x # xs) = bind_res (ser_core f x) (\<lambda>b. bind_res (ser_all f xs) (\<lambda>bs. Inr (b # bs)))"

definition unwrap_or_default :: "string + bytes \<Rightarrow> bytes" where
  "unwrap_or_default r = (case r of Inl e \<Rightarrow> [] | Inr b \<Rightarrow> b)"

definition stored_transaction :: "core_codecs \<Rightarrow> bytes \<Rightarrow> transaction \<Rightarrow> transaction_value" where
  "stored_transaction cc tx_id_bytes tx =
     \<lparr>tv_tx_hash = tx_id_bytes,
      tv_inputs = map (\<lambda>i. \<lparr>ti_previous_tx_hash = unwrap_or_default (cc_hash cc (prev_tx i)), ti_output_index = index i\<rparr>) (inputs tx),
      tv_outputs = map (\<lambda>out. \<lparr>to_amount = out_value out, to_pubkey_hash = unwrap_or_default (cc_hash cc (pubkey_hash out))\<rparr>) (outputs tx),
      tv_fee = 0\<rparr>"

definition put_raw :: "'d rocksdb \<Rightarrow> 'd \<Rightarrow> column_family_name \<Rightarrow> bytes \<Rightarrow> bytes \<Rightarrow> 'd \<times> (storage_error + unit)" where
  "put_raw R d cf key v = map_prod id (map_err DbError) (db_put R d cf key v)"

fun store_transactions ::
  "bincode \<Rightarrow> core_codecs \<Rightarrow> 'd rocksdb \<Rightarrow> 'd \<Rightarrow> transaction list \<Rightarrow> 'd \<times> (storage_error + unit)" where
  "store_transactions bc cc R d [] = (d, Inr ())"
| "store_transactions bc cc R d (tx # txs) =
     (case bind_res (ser_core (cc_hash cc) (tx_id tx)) (\<lambda>tx_id_bytes.
             bind_res (to_bytes (bc_transaction bc) (stored_transaction cc tx_id_bytes tx)) (\<lambda>tx_bytes. Inr (tx_id_bytes, tx_bytes))) of
        Inl e \<Rightarrow> (d, Inl e)
      | Inr (tx_id_bytes, tx_bytes) \<Rightarrow>
          and_then (put_raw R d Transactions_CF tx_id_bytes tx_bytes) (\<lambda>d _. store_transactions bc cc R d txs))"

text \<open>The header and the block of \<open>store_block\<close>, with their encodings; the height of the header is zero.\<close>

definition block_values ::
  "bincode \<Rightarrow> core_codecs \<Rightarrow> (hash fset \<Rightarrow> hash list) \<Rightarrow> block_node \<Rightarrow> storage_error + bytes \<times> bytes \<times> bytes" where
  "block_values bc cc order b =
     bind_res (ser_core (cc_hash cc) (header_id (header b))) (\<lambda>block_hash_bytes.
     bind_res (ser_all (cc_hash cc) (order (parents (header b)))) (\<lambda>parent_hashes.
     bind_res (ser_core (cc_hash cc) (verkle_root (header b))) (\<lambda>verkle_root_bytes.
       let header_value = \<lparr>hv_block_hash = block_hash_bytes, hv_parent_hashes = parent_hashes, hv_timestamp = timestamp (header b),
             hv_difficulty = difficulty (header b), hv_nonce = nonce (header b), hv_verkle_root = verkle_root_bytes, hv_height = 0\<rparr> in
     bind_res (ser_all (cc_transaction cc) (transactions b)) (\<lambda>txs.
     bind_res (ser_core (cc_block_header cc) (header b)) (\<lambda>core_header_bytes.
       let block_value = \<lparr>bv_hash = block_hash_bytes, bv_header_bytes = core_header_bytes, bv_transactions = txs,
             bv_timestamp = timestamp (header b)\<rparr> in
     bind_res (to_bytes (bc_header bc) header_value) (\<lambda>header_bytes.
     bind_res (to_bytes (bc_block bc) block_value) (\<lambda>block_bytes.
       Inr (block_hash_bytes, header_bytes, block_bytes))))))))"

definition store_block ::
  "bincode \<Rightarrow> core_codecs \<Rightarrow> (hash fset \<Rightarrow> hash list) \<Rightarrow> 'd rocksdb \<Rightarrow> 'd \<Rightarrow> block_node \<Rightarrow> 'd \<times> (storage_error + unit)" where
  "store_block bc cc order R d b =
     (if transactions b = [] then (d, Inl (OperationFailed ''Block must have transactions''))
      else (case block_values bc cc order b of
              Inl e \<Rightarrow> (d, Inl e)
            | Inr (block_hash_bytes, header_bytes, block_bytes) \<Rightarrow>
                and_then (put_raw R d Headers block_hash_bytes header_bytes) (\<lambda>d _.
                and_then (put_raw R d Blocks block_hash_bytes block_bytes) (\<lambda>d _.
                  store_transactions bc cc R d (transactions b)))))"

section \<open>The database tracks the set of unspent outputs\<close>

definition hash_codec_ok :: "core_codecs \<Rightarrow> bool" where
  "hash_codec_ok cc \<longleftrightarrow> (\<forall>h h' b. cc_hash cc h = Inr b \<longrightarrow> cc_hash cc h' = Inr b \<longrightarrow> h = h')"

definition stored_output :: "core_codecs \<Rightarrow> tx_output \<Rightarrow> utxo_value option" where
  "stored_output cc out = (case cc_hash cc (pubkey_hash out) of
     Inl e \<Rightarrow> None | Inr p \<Rightarrow> Some (utxo_value_new (out_value out) p [] 0))"

definition tracks :: "bincode \<Rightarrow> core_codecs \<Rightarrow> contents \<Rightarrow> (outpoint, tx_output) fmap \<Rightarrow> bool" where
  "tracks bc cc m u \<longleftrightarrow> (\<forall>h i b. cc_hash cc h = Inr b \<longrightarrow>
     decoded (bc_utxo bc) (m Utxo_CF) (make_utxo_key b i) = Option.bind (fmlookup u (h, i)) (stored_output cc))"

lemma ser_core_Inr [simp]: "ser_core f x = Inr b \<longleftrightarrow> f x = Inr b"
  by (simp add: ser_core_def)

lemma tracks_drop:
  assumes "hash_codec_ok cc" and "tracks bc cc m u" and "cc_hash cc h = Inr b"
  shows "tracks bc cc (store m Utxo_CF (make_utxo_key b i) None) (fmdrop (h, i) u)"
  unfolding tracks_def
proof (intro allI impI)
  fix h' i' b' assume b': "cc_hash cc h' = Inr b'"
  then have "b' = b \<longleftrightarrow> h' = h" using assms(1,3) by (auto simp: hash_codec_ok_def)
  then show "decoded (bc_utxo bc) (store m Utxo_CF (make_utxo_key b i) None Utxo_CF) (make_utxo_key b' i')
    = Option.bind (fmlookup (fmdrop (h, i) u) (h', i')) (stored_output cc)"
    using assms(2) b' by (auto simp: tracks_def make_utxo_key_inject)
qed

lemma tracks_put:
  assumes "hash_codec_ok cc" and "tracks bc cc m u" and "cc_hash cc h = Inr b" and "stored_output cc out = Some v"
    and "from_bytes (bc_utxo bc) raw = Inr v"
  shows "tracks bc cc (store m Utxo_CF (make_utxo_key b i) (Some raw)) (fmupd (h, i) out u)"
  unfolding tracks_def
proof (intro allI impI)
  fix h' i' b' assume b': "cc_hash cc h' = Inr b'"
  then have "b' = b \<longleftrightarrow> h' = h" using assms(1,3) by (auto simp: hash_codec_ok_def)
  then show "decoded (bc_utxo bc) (store m Utxo_CF (make_utxo_key b i) (Some raw) Utxo_CF) (make_utxo_key b' i')
    = Option.bind (fmlookup (fmupd (h, i) out u) (h', i')) (stored_output cc)"
    using assms(2,4,5) b' by (auto simp: tracks_def make_utxo_key_inject)
qed

lemma remove_inputs_tracks:
  assumes "hash_codec_ok cc" and "remove_inputs cc b ins = Inr b'" and "tracks bc cc (apply_batch b m) u"
  shows "tracks bc cc (apply_batch b' m) (fmdrops (map outpoint_of ins) u)"
  using assms(2,3)
proof (induction ins arbitrary: b u)
  case (Cons i ins)
  then obtain k where k: "cc_hash cc (prev_tx i) = Inr k"
    "remove_inputs cc (delete_cf_typed b Utxo_CF (make_utxo_key k (index i))) ins = Inr b'" by auto
  show ?case
    using Cons.IH [OF k(2)] tracks_drop [OF assms(1) Cons.prems(2) k(1), of "index i"] by (simp add: outpoint_of_def)
qed simp

lemma store_outputs_tracks:
  assumes "hash_codec_ok cc" and "codec_ok (bc_utxo bc)" and "cc_hash cc txid = Inr k"
    and "store_outputs bc cc k n b outs = Inr b'" and "tracks bc cc (apply_batch b m) u"
  shows "tracks bc cc (apply_batch b' m) (fmupds (map (\<lambda>(n, out). ((txid, of_nat n), out)) (List.enumerate n outs)) u)"
  using assms(4,5)
proof (induction outs arbitrary: n b u)
  case (Cons out outs)
  then obtain p raw where p: "cc_hash cc (pubkey_hash out) = Inr p" "to_bytes (bc_utxo bc) (utxo_value_new (out_value out) p [] 0) = Inr raw"
    "store_outputs bc cc k (Suc n) (put_cf_typed b Utxo_CF (make_utxo_key k (of_nat n)) raw) outs = Inr b'" by auto
  have so: "stored_output cc out = Some (utxo_value_new (out_value out) p [] 0)" by (simp add: stored_output_def p(1))
  show ?case
    using Cons.IH [OF p(3)] tracks_put [OF assms(1) Cons.prems(2) assms(3) so to_bytes_from_bytes [OF assms(2) p(2)], of "of_nat n"]
    by simp
qed simp

section \<open>Properties\<close>

text \<open>C30: The node's database follows the set of unspent outputs of the core. When the database holds, under the
  encoded keys, exactly the outputs of the core's set, and the core accepts a transaction, then writing the
  transaction with \<open>apply_tx\<close> of the bridge leaves the database holding exactly the outputs of the new set;
  when the write fails, the database still holds the old set.\<close>

theorem storage_follows_core:
  assumes "rocks_laws R view" and "bincode_laws bc" and "hash_codec_ok cc" and "tracks bc cc (view d) (utxos u)"
    and "apply_tx ext u tx = (u', Inr c)" and "integration_apply_tx bc cc R d tx = (d', r)"
  shows "if is_ok r then tracks bc cc (view d') (utxos u') else view d' = view d"
proof (cases "bind_res (remove_inputs cc write_batch_new (inputs tx)) (\<lambda>batch.
             bind_res (ser_core (cc_hash cc) (tx_id tx)) (\<lambda>tx_hash_bytes.
               store_outputs bc cc tx_hash_bytes 0 batch (outputs tx)))")
  case (Inl e)
  then show ?thesis using assms(6) by (auto simp: integration_apply_tx_def)
next
  case (Inr batch)
  then obtain b1 k where b: "remove_inputs cc write_batch_new (inputs tx) = Inr b1" "cc_hash cc (tx_id tx) = Inr k"
    "store_outputs bc cc k 0 b1 (outputs tx) = Inr batch" by auto
  have "codec_ok (bc_utxo bc)" using assms(2) by (simp add: bincode_laws_def)
  from store_outputs_tracks [OF assms(3) this b(2,3)] remove_inputs_tracks [OF assms(3) b(1), of bc "view d" "utxos u"] assms(4)
  have "tracks bc cc (apply_batch batch (view d)) (fmupds (map (\<lambda>(n, out). ((tx_id tx, of_nat n), out)) (List.enumerate 0 (outputs tx)))
    (fmdrops (map outpoint_of (inputs tx)) (utxos u)))" by simp
  moreover have "utxos u' = fmupds (map (\<lambda>(n, out). ((tx_id tx, of_nat n), out)) (List.enumerate 0 (outputs tx)))
    (fmdrops (map outpoint_of (inputs tx)) (utxos u))"
    using apply_tx_Inr(1) [OF assms(5)] by (simp add: tx_effect_def created_by_def outpoints_def)
  moreover have "view d' = (if is_ok r then apply_batch batch (view d) else view d)"
    using map_prod_written [OF rocks_write [OF assms(1)] assms(6) [unfolded integration_apply_tx_def Inr sum.case]] .
  ultimately show ?thesis by simp
qed

subsection \<open>Example\<close>

definition demo_codecs :: core_codecs where
  "demo_codecs = \<lparr>cc_hash = \<lambda>h. Inr (as_bytes h), cc_transaction = \<lambda>_. Inl ''unsupported'', cc_block_header = \<lambda>_. Inl ''unsupported''\<rparr>"

definition pair_codec :: "'v \<Rightarrow> 'v \<Rightarrow> 'v codec" where
  "pair_codec v w = \<lparr>
     codec_ser = \<lambda>x. if x = v then Inr [1] else if x = w then Inr [2] else Inl ''unsupported value'',
     codec_de = \<lambda>raw. if raw = [1] then Inr v else if raw = [2] then Inr w else Inl ''invalid data''\<rparr>"

definition demo_bincode2 :: bincode where
  "demo_bincode2 = demo_bincode\<lparr>bc_utxo :=
     pair_codec (utxo_value_new 100 (replicate 32 1) [] 0) (utxo_value_new 60 (replicate 32 2) [] 0)\<rparr>"

definition demo_core_db :: memory where
  "demo_core_db = fmupd (Utxo_CF, make_utxo_key (replicate 32 7) 0) [1] fmempty"

lemma demo_bincode2_laws: "bincode_laws demo_bincode2"
proof -
  have "codec_ok (pair_codec v w)" for v w :: utxo_value by (simp add: pair_codec_def codec_ok_def)
  then show ?thesis using demo_bincode_laws by (simp add: bincode_laws_def demo_bincode2_def)
qed

lemma demo_codecs_ok: "hash_codec_ok demo_codecs"
  by (simp add: hash_codec_ok_def demo_codecs_def hash.expand)

lemma demo_tracks: "tracks demo_bincode2 demo_codecs (memory_view demo_core_db) (utxos demo_utxo)"
  unfolding tracks_def
proof (intro allI impI)
  fix h i b assume "cc_hash demo_codecs h = Inr b"
  then have h: "h = Hash b" by (cases h) (simp add: demo_codecs_def)
  show "decoded (bc_utxo demo_bincode2) (memory_view demo_core_db Utxo_CF) (make_utxo_key b i)
    = Option.bind (fmlookup (utxos demo_utxo) (h, i)) (stored_output demo_codecs)"
    by (auto simp: h decoded_def memory_view_def demo_core_db_def make_utxo_key_inject demo_utxo_def stored_output_def demo_codecs_def
        from_bytes_def demo_bincode2_def pair_codec_def)
qed

theorem storage_follows_core_witness:
  "tracks demo_bincode2 demo_codecs (memory_view (fst (integration_apply_tx demo_bincode2 demo_codecs memory_db demo_core_db demo_tx)))
     (utxos (tx_effect demo_utxo demo_tx))"
proof -
  obtain d' r where a: "integration_apply_tx demo_bincode2 demo_codecs memory_db demo_core_db demo_tx = (d', r)" by fastforce
  have "is_ok r"
    using a by (auto simp: integration_apply_tx_def demo_tx_def demo_input_def ser_core_def demo_codecs_def to_bytes_def demo_bincode2_def pair_codec_def
        utxo_value_new_def db_write_batch_def memory_db_def)
  then show ?thesis
    using storage_follows_core [OF memory_db_laws demo_bincode2_laws demo_codecs_ok demo_tracks demo_applies a] a by simp
qed

end
