(* ===== verification/Selection.thy ===== *)
theory Selection
  imports Node_Store Ordered_Search Tx_Status Transactions "HOL-Library.Product_Lexorder"
begin

text \<open>
  Choosing transactions for a block: \<open>mempool/selection.rs\<close> and, of \<open>mempool/pool.rs\<close>, the pool entry, the snapshot,
  the canonical order, the selection engine and the check of a block candidate. \<open>bincode::serialize\<close> on a hash is
  the argument \<open>ser\<close>, \<open>None\<close> for its error. Sizes and fees are 64-bit words that wrap as in a release build. The
  index map of the pool is the list of its entries in insertion order.
\<close>

section \<open>Pool entries\<close>

record pool_config =
  max_pool_size :: nat
  max_orphan_size :: nat
  min_fee_rate :: u64
  dynamic_fee_bump_percent :: u64
  max_transactions_per_source :: u64
  rate_limit_window_secs :: u64
  orphan_ttl_secs :: u64
  rejected_ttl_secs :: u64

definition pool_config_default :: pool_config where
  "pool_config_default = \<lparr>max_pool_size = 10000, max_orphan_size = 1000, min_fee_rate = 1, dynamic_fee_bump_percent = 150,
     max_transactions_per_source = 10, rate_limit_window_secs = 60, orphan_ttl_secs = 600, rejected_ttl_secs = 3600\<rparr>"

record pool_entry =
  pe_transaction :: transaction
  pe_status :: transaction_status
  pe_arrival_time :: u64
  pe_size_bytes :: u64
  pe_total_fee :: u64

definition pool_entry_new :: "u64 \<Rightarrow> transaction \<Rightarrow> u64 \<Rightarrow> u64 \<Rightarrow> pool_entry" where
  "pool_entry_new now tx fee size_b =
     \<lparr>pe_transaction = tx, pe_status = Pending, pe_arrival_time = now, pe_size_bytes = size_b, pe_total_fee = fee\<rparr>"

definition pe_fee_rate :: "pool_entry \<Rightarrow> u64" where
  "pe_fee_rate self = (if pe_size_bytes self = 0 then 0 else pe_total_fee self div pe_size_bytes self)"

definition pe_is_expired :: "pool_entry \<Rightarrow> u64 \<Rightarrow> pool_config \<Rightarrow> bool" where
  "pe_is_expired self current_time config =
     (let age = saturating_sub current_time (pe_arrival_time self) in
      case pe_status self of
        InOrphanPool \<Rightarrow> age > orphan_ttl_secs config
      | Rejected \<Rightarrow> age > rejected_ttl_secs config
      | _ \<Rightarrow> False)"

record selected_transaction =
  st_transaction :: transaction
  st_total_fee :: u64
  st_size_bytes :: u64

section \<open>The selector\<close>

datatype selection_criteria = MaxCount nat | MaxBytes u64 | MaxFees u64 | Combined nat u64 u64

datatype selection_strategy = HighestFee | AncestorSet | FIFO

definition usize_max :: nat where
  "usize_max = 2 ^ 64 - 1"

fun parse_criteria :: "selection_criteria \<Rightarrow> nat \<times> u64 \<times> u64" where
  "parse_criteria (MaxCount n) = (n, - 1, - 1)"
| "parse_criteria (MaxBytes b) = (usize_max, b, - 1)"
| "parse_criteria (MaxFees f) = (usize_max, - 1, f)"
| "parse_criteria (Combined n b f) = (n, b, f)"

definition entry_hash :: "(hash \<Rightarrow> bytes option) \<Rightarrow> pool_entry \<Rightarrow> bytes" where
  "entry_hash ser e = (case ser (tx_id (pe_transaction e)) of None \<Rightarrow> [] | Some b \<Rightarrow> b)"

text \<open>The order of the heap, and the order of the FIFO strategy.\<close>

definition comparable_cmp :: "(hash \<Rightarrow> bytes option) \<Rightarrow> pool_entry \<Rightarrow> pool_entry \<Rightarrow> cmp" where
  "comparable_cmp ser a b =
     cmp_then (cmp_of (pe_fee_rate a) (pe_fee_rate b))
       (cmp_then (cmp_of (pe_arrival_time a) (pe_arrival_time b)) (cmp_of (entry_hash ser a) (entry_hash ser b)))"

definition fifo_cmp :: "(hash \<Rightarrow> bytes option) \<Rightarrow> pool_entry \<Rightarrow> pool_entry \<Rightarrow> cmp" where
  "fifo_cmp ser a b = cmp_then (cmp_of (pe_arrival_time a) (pe_arrival_time b)) (cmp_of (entry_hash ser a) (entry_hash ser b))"

definition selected_of :: "pool_entry \<Rightarrow> selected_transaction" where
  "selected_of e = \<lparr>st_transaction = pe_transaction e, st_total_fee = pe_total_fee e, st_size_bytes = pe_size_bytes e\<rparr>"

fun fits :: "nat \<times> u64 \<times> u64 \<Rightarrow> selected_transaction list \<Rightarrow> u64 \<Rightarrow> u64 \<Rightarrow> pool_entry \<Rightarrow> bool" where
  "fits (max_count, max_bytes, max_fees) selected total_bytes total_fees e \<longleftrightarrow>
     \<not> (length selected \<ge> max_count) \<and> \<not> (total_bytes + pe_size_bytes e > max_bytes) \<and> \<not> (total_fees + pe_total_fee e > max_fees)"

function select_heap_loop ::
  "(hash \<Rightarrow> bytes option) \<Rightarrow> nat \<times> u64 \<times> u64 \<Rightarrow> selected_transaction list \<Rightarrow> u64 \<Rightarrow> u64 \<Rightarrow> pool_entry list \<Rightarrow> selected_transaction list" where
  "select_heap_loop ser limits selected total_bytes total_fees heap =
     (case heap_pop (comparable_cmp ser) heap of
        None \<Rightarrow> selected
      | Some (e, heap') \<Rightarrow>
          if fits limits selected total_bytes total_fees e
          then select_heap_loop ser limits (selected @ [selected_of e]) (total_bytes + pe_size_bytes e) (total_fees + pe_total_fee e) heap'
          else selected)"
  by pat_completeness auto
termination
  by (relation "measure (\<lambda>(ser, limits, selected, b, f, heap). length heap)") (auto dest: heap_pop_shorter)

declare select_heap_loop.simps [simp del] fits.simps [simp del]

fun select_loop ::
  "nat \<times> u64 \<times> u64 \<Rightarrow> selected_transaction list \<Rightarrow> u64 \<Rightarrow> u64 \<Rightarrow> pool_entry list \<Rightarrow> selected_transaction list" where
  "select_loop limits selected total_bytes total_fees [] = selected"
| "select_loop limits selected total_bytes total_fees (e # es) =
     (if fits limits selected total_bytes total_fees e
      then select_loop limits (selected @ [selected_of e]) (total_bytes + pe_size_bytes e) (total_fees + pe_total_fee e) es
      else selected)"

definition select_by_fee :: "(hash \<Rightarrow> bytes option) \<Rightarrow> pool_entry list \<Rightarrow> selection_criteria \<Rightarrow> selected_transaction list" where
  "select_by_fee ser entries criteria = select_heap_loop ser (parse_criteria criteria) [] 0 0 entries"

definition select_by_fifo :: "(hash \<Rightarrow> bytes option) \<Rightarrow> pool_entry list \<Rightarrow> selection_criteria \<Rightarrow> selected_transaction list" where
  "select_by_fifo ser entries criteria = select_loop (parse_criteria criteria) [] 0 0 (sort_by (fifo_cmp ser) entries)"

fun select :: "(hash \<Rightarrow> bytes option) \<Rightarrow> selection_strategy \<Rightarrow> pool_entry list \<Rightarrow> selection_criteria \<Rightarrow> selected_transaction list" where
  "select ser HighestFee entries criteria = select_by_fee ser entries criteria"
| "select ser FIFO entries criteria = select_by_fifo ser entries criteria"
| "select ser AncestorSet entries criteria = select_by_fee ser entries criteria"

definition select_with_selector ::
  "(hash \<Rightarrow> bytes option) \<Rightarrow> (bytes \<times> pool_entry) list \<Rightarrow> selection_strategy \<Rightarrow> nat \<Rightarrow> u64 option \<Rightarrow> selected_transaction list" where
  "select_with_selector ser by_hash selector max_count max_size = select ser selector (map snd by_hash) (MaxCount max_count)"

section \<open>Snapshots and canonical order\<close>

record mempool_snapshot =
  snap_block_height :: u64
  snap_transactions :: "(bytes \<times> transaction) list"

definition mempool_snapshot_new :: "(bytes \<times> pool_entry) list \<Rightarrow> u64 \<Rightarrow> mempool_snapshot" where
  "mempool_snapshot_new by_hash height =
     \<lparr>snap_block_height = height, snap_transactions = map (\<lambda>(h, e). (h, pe_transaction e)) by_hash\<rparr>"

definition snap_get_transaction :: "mempool_snapshot \<Rightarrow> bytes \<Rightarrow> transaction option" where
  "snap_get_transaction self tx_hash = map_of (snap_transactions self) tx_hash"

definition get_all_transactions :: "mempool_snapshot \<Rightarrow> transaction list" where
  "get_all_transactions self = map snd (snap_transactions self)"

definition snap_contains :: "mempool_snapshot \<Rightarrow> bytes \<Rightarrow> bool" where
  "snap_contains self tx_hash \<longleftrightarrow> map_of (snap_transactions self) tx_hash \<noteq> None"

definition estimate_serialized_size :: "transaction \<Rightarrow> nat" where
  "estimate_serialized_size tx = length (inputs tx) * 100 + length (outputs tx) * 50 + 200"

text \<open>\<open>max_fee_per_gas as u64\<close> keeps the low 64 bits.\<close>

definition canonical_fee_rate :: "transaction \<Rightarrow> u64" where
  "canonical_fee_rate tx =
     (let size_w = of_nat (estimate_serialized_size tx) in if size_w = 0 then 0 else ucast (max_fee_per_gas tx) div size_w)"

definition get_dependency_rank :: "transaction \<Rightarrow> nat" where
  "get_dependency_rank tx = length (inputs tx)"

definition canonical_cmp :: "transaction \<Rightarrow> transaction \<Rightarrow> cmp" where
  "canonical_cmp a b =
     cmp_then (cmp_of (canonical_fee_rate b) (canonical_fee_rate a))
       (cmp_then (cmp_of (get_dependency_rank a) (get_dependency_rank b)) (cmp_of (as_bytes (tx_id a)) (as_bytes (tx_id b))))"

definition apply_canonical_sort :: "transaction list \<Rightarrow> transaction list" where
  "apply_canonical_sort txs = sort_by canonical_cmp txs"

section \<open>The selection engine\<close>

definition is_conflict_free :: "transaction \<Rightarrow> (bytes \<times> u32) fset \<Rightarrow> bool" where
  "is_conflict_free tx spent_outputs \<longleftrightarrow> (\<forall>i\<in>set (inputs tx). (as_bytes (prev_tx i), index i) |\<notin>| spent_outputs)"

text \<open>The reads go through the store, which caches what it reads. Errors are formatted into a text.\<close>

fun check_inputs_available ::
  "bincode \<Rightarrow> 'd rocksdb \<Rightarrow> 'd node_kv_store \<Rightarrow> tx_input list \<Rightarrow> 'd node_kv_store \<times> (string + bool)" where
  "check_inputs_available bc R kv [] = (kv, Inr True)"
| "check_inputs_available bc R kv (i # ins) =
     (case utxo_exists bc R kv (as_bytes (prev_tx i)) (index i) of
        (kv, Inl e) \<Rightarrow> (kv, Inl ''Storage error: {}'')
      | (kv, Inr ex) \<Rightarrow> if \<not> ex then (kv, Inr False) else check_inputs_available bc R kv ins)"

definition check_utxo_availability ::
  "bincode \<Rightarrow> 'd rocksdb \<Rightarrow> 'd node_kv_store \<Rightarrow> transaction \<Rightarrow> 'd node_kv_store \<times> (string + bool)" where
  "check_utxo_availability bc R kv tx = check_inputs_available bc R kv (inputs tx)"

definition mark_outputs :: "transaction \<Rightarrow> (bytes \<times> u32) fset \<Rightarrow> (bytes \<times> u32) fset" where
  "mark_outputs tx spent_outputs =
     fold (\<lambda>i. finsert (as_bytes (tx_id tx), of_nat i)) [0..<length (outputs tx)] spent_outputs"

fun engine_loop ::
  "bincode \<Rightarrow> 'd rocksdb \<Rightarrow> nat \<Rightarrow> 'd node_kv_store \<Rightarrow> transaction list \<Rightarrow> (bytes \<times> u32) fset \<Rightarrow> nat \<Rightarrow> transaction list
     \<Rightarrow> 'd node_kv_store \<times> (string + transaction list)" where
  "engine_loop bc R max_block_size kv selected spent_outputs current_size [] = (kv, Inr selected)"
| "engine_loop bc R max_block_size kv selected spent_outputs current_size (tx # txs) =
     (if is_conflict_free tx spent_outputs then
        (case check_utxo_availability bc R kv tx of
           (kv, Inl e) \<Rightarrow> (kv, Inl e)
         | (kv, Inr avail) \<Rightarrow>
             if avail then
               (if current_size + estimate_serialized_size tx > max_block_size then (kv, Inr selected)
                else engine_loop bc R max_block_size kv (selected @ [tx]) (mark_outputs tx spent_outputs)
                       (current_size + estimate_serialized_size tx) txs)
             else engine_loop bc R max_block_size kv selected spent_outputs current_size txs)
      else engine_loop bc R max_block_size kv selected spent_outputs current_size txs)"

definition select_transactions ::
  "bincode \<Rightarrow> 'd rocksdb \<Rightarrow> 'd node_kv_store \<Rightarrow> mempool_snapshot \<Rightarrow> nat \<Rightarrow> 'd node_kv_store \<times> (string + transaction list)" where
  "select_transactions bc R kv snapshot max_block_size =
     engine_loop bc R max_block_size kv [] {||} 0 (apply_canonical_sort (get_all_transactions snapshot))"

section \<open>The check of a block candidate\<close>

text \<open>The key of an input is the printed hash and index, which determines both.\<close>

fun claim_inputs :: "(hash \<times> u32) fset \<Rightarrow> tx_input list \<Rightarrow> string + (hash \<times> u32) fset" where
  "claim_inputs spent_outputs [] = Inr spent_outputs"
| "claim_inputs spent_outputs (i # ins) =
     (if outpoint_of i |\<in>| spent_outputs then Inl ''Conflict detected in canonical ordering: UTXO {} already spent''
      else claim_inputs (finsert (outpoint_of i) spent_outputs) ins)"

fun verify_canonical_loop ::
  "(hash \<Rightarrow> bytes option) \<Rightarrow> bytes fset \<Rightarrow> (hash \<times> u32) fset \<Rightarrow> transaction list \<Rightarrow> string + unit" where
  "verify_canonical_loop ser seen spent_outputs [] = Inr ()"
| "verify_canonical_loop ser seen spent_outputs (tx # txs) =
     bind_res (ok_or ''Serialization error: {}'' (ser (tx_id tx))) (\<lambda>tx_hash.
       if tx_hash |\<in>| seen then Inl ''Duplicate transaction in canonical block candidate''
       else bind_res (claim_inputs spent_outputs (inputs tx)) (\<lambda>spent_outputs.
         verify_canonical_loop ser (finsert tx_hash seen) spent_outputs txs))"

definition verify_canonical_order :: "(hash \<Rightarrow> bytes option) \<Rightarrow> transaction list \<Rightarrow> string + unit" where
  "verify_canonical_order ser txs = verify_canonical_loop ser {||} {||} txs"

section \<open>Orders\<close>

lemma cmp_then_of: "cmp_then (cmp_of a b) (cmp_of c d) = cmp_of (a, c) (b, d)"
  by (auto simp: cmp_then_def cmp_of_def split: cmp.splits if_splits)

lemma comparison_key: "comparison (\<lambda>a b. cmp_of (k a) (k b))"
  by unfold_locales (auto simp: cmp_of_reverse)

definition fee_key :: "(hash \<Rightarrow> bytes option) \<Rightarrow> pool_entry \<Rightarrow> u64 \<times> u64 \<times> bytes" where
  "fee_key ser e = (pe_fee_rate e, pe_arrival_time e, entry_hash ser e)"

definition fifo_key :: "(hash \<Rightarrow> bytes option) \<Rightarrow> pool_entry \<Rightarrow> u64 \<times> bytes" where
  "fifo_key ser e = (pe_arrival_time e, entry_hash ser e)"

lemma comparable_cmp_key: "comparable_cmp ser = (\<lambda>a b. cmp_of (fee_key ser a) (fee_key ser b))"
  by (simp add: fun_eq_iff comparable_cmp_def fee_key_def cmp_then_of)

lemma fifo_cmp_key: "fifo_cmp ser = (\<lambda>a b. cmp_of (fifo_key ser a) (fifo_key ser b))"
  by (simp add: fun_eq_iff fifo_cmp_def fifo_key_def cmp_then_of)

interpretation fee_order: comparison "comparable_cmp ser" for ser
  unfolding comparable_cmp_key by (rule comparison_key)

interpretation fifo_order: comparison "fifo_cmp ser" for ser
  unfolding fifo_cmp_key by (rule comparison_key)

text \<open>The strategies as orders: of two entries, which is taken first.\<close>

fun precedes :: "(hash \<Rightarrow> bytes option) \<Rightarrow> selection_strategy \<Rightarrow> pool_entry \<Rightarrow> pool_entry \<Rightarrow> bool" where
  "precedes ser FIFO a b \<longleftrightarrow> (pe_arrival_time a, entry_hash ser a) \<le> (pe_arrival_time b, entry_hash ser b)"
| "precedes ser _ a b \<longleftrightarrow>
     (pe_fee_rate b, pe_arrival_time b, entry_hash ser b) \<le> (pe_fee_rate a, pe_arrival_time a, entry_hash ser a)"

fun selection_order :: "(hash \<Rightarrow> bytes option) \<Rightarrow> selection_strategy \<Rightarrow> pool_entry list \<Rightarrow> pool_entry list" where
  "selection_order ser FIFO es = sort_by (fifo_cmp ser) es"
| "selection_order ser _ es = heap_drain (comparable_cmp ser) es"

lemma precedes_key:
  "precedes ser FIFO a b \<longleftrightarrow> fifo_key ser a \<le> fifo_key ser b" "precedes ser HighestFee a b \<longleftrightarrow> fee_key ser b \<le> fee_key ser a"
  "precedes ser AncestorSet a b \<longleftrightarrow> fee_key ser b \<le> fee_key ser a"
  by (simp_all only: precedes.simps fifo_key_def fee_key_def)

lemma select_heap_loop_drain:
  "select_heap_loop ser limits sel tb tf heap = select_loop limits sel tb tf (heap_drain (comparable_cmp ser) heap)"
proof (induction ser limits sel tb tf heap rule: select_heap_loop.induct)
  case (1 ser limits sel tb tf heap)
  show ?case
  proof (cases "heap_pop (comparable_cmp ser) heap")
    case None
    then show ?thesis by (simp add: select_heap_loop.simps [of ser limits sel tb tf heap] heap_drain.simps [of _ heap])
  next
    case (Some p)
    obtain e heap' where p: "p = (e, heap')" by (cases p)
    show ?thesis
      using "1.IH" [OF Some p [symmetric]] Some p
      by (simp add: select_heap_loop.simps [of ser limits sel tb tf heap] heap_drain.simps [of _ heap])
  qed
qed

lemma select_is_loop: "select ser st es c = select_loop (parse_criteria c) [] 0 0 (selection_order ser st es)"
  by (cases st) (simp_all add: select_by_fee_def select_by_fifo_def select_heap_loop_drain)

lemma mset_selection_order [simp]: "mset (selection_order ser st es) = mset es"
  by (cases st) simp_all

lemma selection_order_sorted: "sorted_wrt (precedes ser st) (selection_order ser st es)"
proof (cases st)
  case FIFO
  have "sorted_wrt (\<lambda>a b. fifo_cmp ser a b \<noteq> Greater) (sort_by (fifo_cmp ser) es)"
    using fifo_order.in_order_sort_by by (simp add: fifo_order.in_order_def)
  then show ?thesis
    unfolding FIFO selection_order.simps by (rule sorted_wrt_mono_rel [rotated]) (simp only: precedes_key fifo_cmp_key cmp_of_simps not_less)
next
  case HighestFee
  show ?thesis
    unfolding HighestFee selection_order.simps
    by (rule sorted_wrt_mono_rel [OF _ fee_order.heap_drain_descending]) (simp only: precedes_key comparable_cmp_key cmp_of_simps not_less)
next
  case AncestorSet
  show ?thesis
    unfolding AncestorSet selection_order.simps
    by (rule sorted_wrt_mono_rel [OF _ fee_order.heap_drain_descending]) (simp only: precedes_key comparable_cmp_key cmp_of_simps not_less)
qed

section \<open>Limits\<close>

definition total_size :: "pool_entry list \<Rightarrow> nat" where
  "total_size es = sum_list (map (\<lambda>e. unat (pe_size_bytes e)) es)"

definition total_fees :: "pool_entry list \<Rightarrow> nat" where
  "total_fees es = sum_list (map (\<lambda>e. unat (pe_total_fee e)) es)"

lemma totals_simps [simp]:
  "total_size [] = 0" "total_size (e # es) = unat (pe_size_bytes e) + total_size es"
  "total_fees [] = 0" "total_fees (e # es) = unat (pe_total_fee e) + total_fees es"
  by (simp_all add: total_size_def total_fees_def)

lemma totals_mset:
  assumes "mset es = mset es'"
  shows "total_size es = total_size es'" and "total_fees es = total_fees es'"
  using assms unfolding total_size_def total_fees_def by (metis mset_map sum_mset_sum_list)+

text \<open>The longest prefix within the limits, from a start with \<open>k\<close> transactions, \<open>b\<close> bytes and \<open>f\<close> fees.\<close>

definition longest_prefix :: "nat \<times> u64 \<times> u64 \<Rightarrow> nat \<Rightarrow> nat \<Rightarrow> nat \<Rightarrow> pool_entry list \<Rightarrow> nat \<Rightarrow> bool" where
  "longest_prefix limits k b f es n = (case limits of (mc, mb, mf) \<Rightarrow>
     n \<le> length es \<and> k + n \<le> mc \<and> b + total_size (take n es) \<le> unat mb \<and> f + total_fees (take n es) \<le> unat mf \<and>
     (n < length es \<longrightarrow> k + n = mc \<or> unat mb < b + total_size (take (Suc n) es) \<or> unat mf < f + total_fees (take (Suc n) es)))"

lemma longest_prefix_Cons:
  "longest_prefix limits (Suc k) (b + unat (pe_size_bytes e)) (f + unat (pe_total_fee e)) es n \<Longrightarrow> longest_prefix limits k b f (e # es) (Suc n)"
  by (simp add: longest_prefix_def add.assoc split: prod.splits)

lemma longest_prefix_0:
  "k \<le> mc \<Longrightarrow> b \<le> unat mb \<Longrightarrow> f \<le> unat mf \<Longrightarrow>
   k = mc \<or> unat mb < b + unat (pe_size_bytes e) \<or> unat mf < f + unat (pe_total_fee e) \<Longrightarrow> longest_prefix (mc, mb, mf) k b f (e # es) 0"
  by (simp add: longest_prefix_def)

lemma select_loop_prefix:
  assumes "length sel \<le> mc" and "unat tb \<le> unat mb" and "unat tf \<le> unat mf"
    and "unat tb + total_size es < 2 ^ 64" and "unat tf + total_fees es < 2 ^ 64"
  shows "\<exists>n. select_loop (mc, mb, mf) sel tb tf es = sel @ map selected_of (take n es) \<and>
    longest_prefix (mc, mb, mf) (length sel) (unat tb) (unat tf) es n"
  using assms
proof (induction es arbitrary: sel tb tf)
  case Nil
  then show ?case by (simp add: longest_prefix_def)
next
  case (Cons e es)
  have add: "unat (tb + pe_size_bytes e) = unat tb + unat (pe_size_bytes e)" "unat (tf + pe_total_fee e) = unat tf + unat (pe_total_fee e)"
    using Cons.prems(4,5) by (simp_all add: unat_add_small)
  have fits: "fits (mc, mb, mf) sel tb tf e \<longleftrightarrow> length sel < mc \<and> unat tb + unat (pe_size_bytes e) \<le> unat mb \<and> unat tf + unat (pe_total_fee e) \<le> unat mf"
    by (simp add: fits.simps word_less_nat_alt add not_le not_less)
  show ?case
  proof (cases "fits (mc, mb, mf) sel tb tf e")
    case True
    let ?sel = "sel @ [selected_of e]"
    obtain n where n: "select_loop (mc, mb, mf) ?sel (tb + pe_size_bytes e) (tf + pe_total_fee e) es = ?sel @ map selected_of (take n es)"
      "longest_prefix (mc, mb, mf) (length ?sel) (unat (tb + pe_size_bytes e)) (unat (tf + pe_total_fee e)) es n"
      using Cons.IH [of ?sel "tb + pe_size_bytes e" "tf + pe_total_fee e"] True Cons.prems unfolding add fits by auto
    have "longest_prefix (mc, mb, mf) (length sel) (unat tb) (unat tf) (e # es) (Suc n)"
      using longest_prefix_Cons n(2) unfolding add by simp
    moreover have "select_loop (mc, mb, mf) sel tb tf (e # es) = sel @ map selected_of (take (Suc n) (e # es))"
      using n(1) True by simp
    ultimately show ?thesis by blast
  next
    case False
    then have "longest_prefix (mc, mb, mf) (length sel) (unat tb) (unat tf) (e # es) 0"
      using fits Cons.prems(1-3) by (intro longest_prefix_0) auto
    moreover have "select_loop (mc, mb, mf) sel tb tf (e # es) = sel @ map selected_of (take 0 (e # es))"
      using False by simp
    ultimately show ?thesis by blast
  qed
qed

section \<open>The engine\<close>

lemma mem_fold_finsert: "x |\<in>| fold (\<lambda>i. finsert (f i)) ns s \<longleftrightarrow> x |\<in>| s \<or> (\<exists>n\<in>set ns. x = f n)"
  by (induction ns arbitrary: s) auto

lemma mem_mark_outputs: "x |\<in>| mark_outputs tx s \<longleftrightarrow> x |\<in>| s \<or> (\<exists>n<length (outputs tx). x = (as_bytes (tx_id tx), of_nat n))"
  unfolding mark_outputs_def mem_fold_finsert [where f = "\<lambda>i. (as_bytes (tx_id tx), of_nat i)"] by (simp add: Bex_def)

lemma utxo_exists_present:
  assumes "rocks_laws R view" and "coherent bc view (kv_cache_layer kv)"
    and "rdb_get R (cl_db (kv_cache_layer kv)) Utxo_CF (make_utxo_key h i) = Inr (Some raw)" and "is_ok (from_bytes (bc_utxo bc) raw)"
  obtains kv' where "utxo_exists bc R kv h i = (kv', Inr True)" "coherent bc view (kv_cache_layer kv')"
    "cl_db (kv_cache_layer kv') = cl_db (kv_cache_layer kv)"
proof -
  let ?l = "kv_cache_layer kv" and ?key = "make_utxo_key h i"
  obtain l' r where g: "get_utxo bc R ?l h i = (l', r)" by (cases "get_utxo bc R ?l h i")
  note ok = get_utxo_coherent [OF assms(1,2) g]
  obtain u where u: "from_bytes (bc_utxo bc) raw = Inr u" using assms(4) by (auto simp: is_ok_iff)
  have typed: "get_typed (bc_utxo bc) Utxo_CF R ?l ?key = Inr (Some u)" using assms(3) u by (simp add: get_typed_def db_get_def)
  have "\<exists>v. r = Inr (Some v)"
    using g by (auto simp: get_utxo_def cached_read_def typed split: prod.splits option.splits)
  then obtain v where r: "r = Inr (Some v)" by blast
  show thesis
    by (rule that [of "kv\<lparr>kv_cache_layer := l'\<rparr>"]) (use g r ok in \<open>simp_all add: utxo_exists_def kv_get_utxo_def on_layer_def and_then_def\<close>)
qed

definition stored_inputs :: "bincode \<Rightarrow> 'd rocksdb \<Rightarrow> 'd \<Rightarrow> transaction \<Rightarrow> bool" where
  "stored_inputs bc R d tx \<longleftrightarrow> (\<forall>i\<in>set (inputs tx). \<exists>raw.
     rdb_get R d Utxo_CF (make_utxo_key (as_bytes (prev_tx i)) (index i)) = Inr (Some raw) \<and> is_ok (from_bytes (bc_utxo bc) raw))"

lemma inputs_available:
  assumes "rocks_laws R view" and "coherent bc view (kv_cache_layer kv)"
    and "\<forall>i\<in>set ins. \<exists>raw. rdb_get R (cl_db (kv_cache_layer kv)) Utxo_CF (make_utxo_key (as_bytes (prev_tx i)) (index i)) = Inr (Some raw)
      \<and> is_ok (from_bytes (bc_utxo bc) raw)"
  shows "\<exists>kv'. check_inputs_available bc R kv ins = (kv', Inr True) \<and> coherent bc view (kv_cache_layer kv') \<and>
    cl_db (kv_cache_layer kv') = cl_db (kv_cache_layer kv)"
  using assms(2,3)
proof (induction ins arbitrary: kv)
  case (Cons i ins)
  then obtain raw where "rdb_get R (cl_db (kv_cache_layer kv)) Utxo_CF (make_utxo_key (as_bytes (prev_tx i)) (index i)) = Inr (Some raw)"
    "is_ok (from_bytes (bc_utxo bc) raw)" by auto
  from utxo_exists_present [OF assms(1) Cons.prems(1) this] obtain kv1 where
    kv1: "utxo_exists bc R kv (as_bytes (prev_tx i)) (index i) = (kv1, Inr True)" "coherent bc view (kv_cache_layer kv1)"
      "cl_db (kv_cache_layer kv1) = cl_db (kv_cache_layer kv)" by blast
  show ?case using Cons.IH [OF kv1(2)] Cons.prems(2) kv1 by simp
qed simp

lemma engine_takes_all:
  assumes "rocks_laws R view" and "coherent bc view (kv_cache_layer kv)" and "cl_db (kv_cache_layer kv) = d"
    and "\<forall>tx\<in>set txs. stored_inputs bc R d tx" and "\<forall>tx\<in>set txs. is_conflict_free tx spent_outputs"
    and "\<forall>tx\<in>set txs. \<forall>tx'\<in>set txs. \<forall>i\<in>set (inputs tx). as_bytes (prev_tx i) \<noteq> as_bytes (tx_id tx')"
    and "size_so_far + sum_list (map estimate_serialized_size txs) \<le> max_size"
  shows "snd (engine_loop bc R max_size kv sel spent_outputs size_so_far txs) = Inr (sel @ txs)"
  using assms(2-)
proof (induction txs arbitrary: kv sel spent_outputs size_so_far)
  case (Cons tx txs)
  have "\<forall>i\<in>set (inputs tx). \<exists>raw. rdb_get R (cl_db (kv_cache_layer kv)) Utxo_CF (make_utxo_key (as_bytes (prev_tx i)) (index i)) = Inr (Some raw)
      \<and> is_ok (from_bytes (bc_utxo bc) raw)"
    using Cons.prems(2,3) by (simp add: stored_inputs_def)
  from inputs_available [OF assms(1) Cons.prems(1) this] obtain kv' where
    kv': "check_utxo_availability bc R kv tx = (kv', Inr True)" "coherent bc view (kv_cache_layer kv')" "cl_db (kv_cache_layer kv') = d"
    using Cons.prems(2) by (auto simp: check_utxo_availability_def)
  have free: "\<forall>tx'\<in>set txs. is_conflict_free tx' (mark_outputs tx spent_outputs)"
    using Cons.prems(4,5) by (auto simp: is_conflict_free_def mem_mark_outputs)
  show ?case
    using Cons.IH [OF kv'(2,3) _ free] Cons.prems kv'(1) by simp
qed simp

text \<open>What a successful run has selected: a subsequence of the candidates within the block size, all inputs of
  which are stored, and none of which spends an output of an earlier one.\<close>

definition spends_output_of :: "transaction \<Rightarrow> transaction \<Rightarrow> bool" where
  "spends_output_of tx parent \<longleftrightarrow>
     (\<exists>i\<in>set (inputs tx). \<exists>n<length (outputs parent). prev_tx i = tx_id parent \<and> index i = of_nat n)"

definition inputs_in :: "bincode \<Rightarrow> contents \<Rightarrow> tx_input list \<Rightarrow> bool" where
  "inputs_in bc m ins \<longleftrightarrow>
     (\<forall>i\<in>set ins. decoded (bc_utxo bc) (m Utxo_CF) (make_utxo_key (as_bytes (prev_tx i)) (index i)) \<noteq> None)"

lemma utxo_exists_true:
  assumes "rocks_laws R view" and "coherent bc view (kv_cache_layer kv)" and "utxo_exists bc R kv h i = (kv', Inr ex)"
  shows "coherent bc view (kv_cache_layer kv') \<and> cl_db (kv_cache_layer kv') = cl_db (kv_cache_layer kv) \<and>
    (ex \<longrightarrow> decoded (bc_utxo bc) (view (cl_db (kv_cache_layer kv)) Utxo_CF) (make_utxo_key h i) \<noteq> None)"
proof -
  obtain l' r where g: "get_utxo bc R (kv_cache_layer kv) h i = (l', r)" by fastforce
  note ok = get_utxo_coherent [OF assms(1,2) g]
  obtain q where q: "r = Inr q" "ex \<longleftrightarrow> q \<noteq> None" "kv' = kv\<lparr>kv_cache_layer := l'\<rparr>"
    using assms(3) g by (cases r) (auto simp: utxo_exists_def kv_get_utxo_def on_layer_def and_then_def)
  show ?thesis using ok q by (auto simp: reads_def decoded_def split: option.splits)
qed

lemma check_inputs_true:
  assumes "rocks_laws R view"
  shows "coherent bc view (kv_cache_layer kv) \<Longrightarrow> check_inputs_available bc R kv ins = (kv', Inr avail) \<Longrightarrow>
    coherent bc view (kv_cache_layer kv') \<and> cl_db (kv_cache_layer kv') = cl_db (kv_cache_layer kv) \<and>
    (avail \<longrightarrow> inputs_in bc (view (cl_db (kv_cache_layer kv))) ins)"
proof (induction ins arbitrary: kv)
  case (Cons i ins)
  obtain kv1 ex where kv1: "utxo_exists bc R kv (as_bytes (prev_tx i)) (index i) = (kv1, Inr ex)"
    using Cons.prems(2) by (auto split: prod.splits sum.splits)
  note ok = utxo_exists_true [OF assms Cons.prems(1) kv1]
  show ?case
    using Cons.IH [of kv1] ok Cons.prems(2) kv1 by (auto simp: inputs_in_def split: if_splits)
qed (simp add: inputs_in_def)

definition selection_ok :: "bincode \<Rightarrow> contents \<Rightarrow> nat \<Rightarrow> transaction list \<Rightarrow> bool" where
  "selection_ok bc m max_block_size sel \<longleftrightarrow> sum_list (map estimate_serialized_size sel) \<le> max_block_size \<and>
     (\<forall>tx\<in>set sel. inputs_in bc m (inputs tx)) \<and> sorted_wrt (\<lambda>parent tx. \<not> spends_output_of tx parent) sel"

lemma selection_ok_append:
  assumes "selection_ok bc m mx sel" and "inputs_in bc m (inputs tx)"
    and "sum_list (map estimate_serialized_size sel) + estimate_serialized_size tx \<le> mx"
    and "is_conflict_free tx spent" and "\<forall>p\<in>set sel. \<forall>n<length (outputs p). (as_bytes (tx_id p), of_nat n) |\<in>| spent"
  shows "selection_ok bc m mx (sel @ [tx])"
proof -
  have "\<not> spends_output_of tx p" if "p \<in> set sel" for p
    using assms(4,5) that unfolding is_conflict_free_def spends_output_of_def by metis
  then show ?thesis using assms(1-3) by (simp add: selection_ok_def sorted_wrt_append)
qed

lemma engine_loop_ok:
  assumes "rocks_laws R view"
  shows "coherent bc view (kv_cache_layer kv) \<Longrightarrow> cl_db (kv_cache_layer kv) = d \<Longrightarrow> selection_ok bc (view d) mx sel \<Longrightarrow>
    sz = sum_list (map estimate_serialized_size sel) \<Longrightarrow>
    \<forall>p\<in>set sel. \<forall>n<length (outputs p). (as_bytes (tx_id p), of_nat n) |\<in>| spent \<Longrightarrow>
    engine_loop bc R mx kv sel spent sz txs = (kv', Inr sel') \<Longrightarrow>
    selection_ok bc (view d) mx sel' \<and> (\<exists>more. sel' = sel @ more \<and> subseq more txs)"
proof (induction txs arbitrary: kv sel spent sz)
  case Nil
  then show ?case by simp
next
  case (Cons tx txs)
  show ?case
  proof (cases "is_conflict_free tx spent")
    case False
    then show ?thesis using Cons.IH [OF Cons.prems(1-5)] Cons.prems(6) by auto
  next
    case free: True
    obtain kv1 avail where ck: "check_utxo_availability bc R kv tx = (kv1, Inr avail)"
      using Cons.prems(6) free by (auto split: prod.splits sum.splits)
    from check_inputs_true [OF assms Cons.prems(1) ck [unfolded check_utxo_availability_def]] Cons.prems(2)
    have kv1: "coherent bc view (kv_cache_layer kv1)" "cl_db (kv_cache_layer kv1) = d" "avail \<longrightarrow> inputs_in bc (view d) (inputs tx)" by auto
    consider "\<not> avail" | "avail" "mx < sz + estimate_serialized_size tx" | (take) "avail" "sz + estimate_serialized_size tx \<le> mx"
      by fastforce
    then show ?thesis
    proof cases
      case 1
      then show ?thesis using Cons.IH [OF kv1(1,2) Cons.prems(3-5)] Cons.prems(6) free ck by auto
    next
      case 2
      then show ?thesis using Cons.prems(3,6) free ck by auto
    next
      case take
      have ok: "selection_ok bc (view d) mx (sel @ [tx])"
        using selection_ok_append [OF Cons.prems(3) _ _ free Cons.prems(5)] kv1(3) take Cons.prems(4) by simp
      have marked: "\<forall>p\<in>set (sel @ [tx]). \<forall>n<length (outputs p). (as_bytes (tx_id p), of_nat n) |\<in>| mark_outputs tx spent"
        using Cons.prems(5) by (auto simp: mem_mark_outputs)
      have size_eq: "sz + estimate_serialized_size tx = sum_list (map estimate_serialized_size (sel @ [tx]))" using Cons.prems(4) by simp
      have run: "engine_loop bc R mx kv1 (sel @ [tx]) (mark_outputs tx spent) (sz + estimate_serialized_size tx) txs = (kv', Inr sel')"
        using Cons.prems(6) free ck take by simp
      show ?thesis using Cons.IH [OF kv1(1,2) ok size_eq marked run] by auto
    qed
  qed
qed

section \<open>Block candidates\<close>

lemma claim_inputs_ok:
  "claim_inputs s ins = Inr s' \<longleftrightarrow> distinct (map outpoint_of ins) \<and> fset s \<inter> outpoint_of ` set ins = {} \<and> fset s' = fset s \<union> outpoint_of ` set ins"
proof (induction ins arbitrary: s)
  case (Cons i ins)
  then show ?case by auto
qed (auto simp: fset_inject)

lemma verify_canonical_loop_ok:
  "is_ok (verify_canonical_loop ser seen spent txs) \<longleftrightarrow>
     (\<forall>tx\<in>set txs. ser (tx_id tx) \<noteq> None) \<and> distinct (map (\<lambda>tx. ser (tx_id tx)) txs) \<and>
     (\<forall>tx\<in>set txs. \<forall>h. ser (tx_id tx) = Some h \<longrightarrow> h |\<notin>| seen) \<and>
     distinct (map outpoint_of (concat (map inputs txs))) \<and> fset spent \<inter> outpoint_of ` set (concat (map inputs txs)) = {}"
proof (induction txs arbitrary: seen spent)
  case (Cons tx txs)
  show ?case
  proof (cases "ser (tx_id tx)")
    case None
    then show ?thesis by (simp add: ok_or_def)
  next
    case (Some h)
    show ?thesis
    proof (cases "claim_inputs spent (inputs tx)")
      case (Inl e)
      then have no: "\<not> (distinct (map outpoint_of (inputs tx)) \<and> fset spent \<inter> outpoint_of ` set (inputs tx) = {})"
        using claim_inputs_ok [of spent "inputs tx" "Abs_fset (fset spent \<union> outpoint_of ` set (inputs tx))"] by (simp add: Abs_fset_inverse)
      have err: "\<not> is_ok (verify_canonical_loop ser seen spent (tx # txs))" using Inl Some by (simp add: ok_or_def)
      have "fset spent \<inter> outpoint_of ` set (inputs tx) \<subseteq> fset spent \<inter> outpoint_of ` set (concat (map inputs (tx # txs)))" by auto
      moreover have "distinct (map outpoint_of (concat (map inputs (tx # txs)))) \<Longrightarrow> distinct (map outpoint_of (inputs tx))" by simp
      ultimately show ?thesis using no err by blast
    next
      case (Inr spent')
      then have s: "distinct (map outpoint_of (inputs tx))" "fset spent \<inter> outpoint_of ` set (inputs tx) = {}"
        "fset spent' = fset spent \<union> outpoint_of ` set (inputs tx)"
        using claim_inputs_ok [of spent "inputs tx" spent'] by simp_all
      have step: "verify_canonical_loop ser seen spent (tx # txs) =
          (if h |\<in>| seen then Inl ''Duplicate transaction in canonical block candidate'' else verify_canonical_loop ser (finsert h seen) spent' txs)"
        using Inr Some by (simp add: ok_or_def)
      have new: "(\<forall>t\<in>set txs. \<forall>h'. ser (tx_id t) = Some h' \<longrightarrow> h' |\<notin>| finsert h seen) \<longleftrightarrow>
          (\<forall>t\<in>set txs. \<forall>h'. ser (tx_id t) = Some h' \<longrightarrow> h' |\<notin>| seen) \<and> Some h \<notin> (\<lambda>t. ser (tx_id t)) ` set txs"
        by force
      have outs: "fset spent' \<inter> outpoint_of ` set (concat (map inputs txs)) = {} \<longleftrightarrow>
          fset spent \<inter> outpoint_of ` set (concat (map inputs txs)) = {} \<and> outpoint_of ` set (inputs tx) \<inter> outpoint_of ` set (concat (map inputs txs)) = {}"
        unfolding s(3) by blast
      have parts: "distinct (map outpoint_of (concat (map inputs (tx # txs)))) \<longleftrightarrow> distinct (map outpoint_of (concat (map inputs txs))) \<and>
          outpoint_of ` set (inputs tx) \<inter> outpoint_of ` set (concat (map inputs txs)) = {}"
          "fset spent \<inter> outpoint_of ` set (concat (map inputs (tx # txs))) = {} \<longleftrightarrow> fset spent \<inter> outpoint_of ` set (concat (map inputs txs)) = {}"
        using s(1,2) by (simp_all add: image_Un Int_Un_distrib)
      show ?thesis
        unfolding step parts using Cons.IH [of "finsert h seen" spent', unfolded new outs] Some by (auto simp del: set_concat)
    qed
  qed
qed simp

section \<open>Determinism\<close>

text \<open>The order of a strategy, listed from the last entry for the fee strategies, is sorted by a key.\<close>

definition in_key_order :: "selection_strategy \<Rightarrow> pool_entry list \<Rightarrow> pool_entry list" where
  "in_key_order st es = (if st = FIFO then es else rev es)"

fun strategy_key :: "(hash \<Rightarrow> bytes option) \<Rightarrow> selection_strategy \<Rightarrow> pool_entry \<Rightarrow> u64 \<times> u64 \<times> bytes" where
  "strategy_key ser FIFO e = (0, fifo_key ser e)"
| "strategy_key ser _ e = fee_key ser e"

lemma sorted_strategy_key:
  assumes "sorted_wrt (precedes ser st) es"
  shows "sorted (map (strategy_key ser st) (in_key_order st es))"
proof (cases "st = FIFO")
  case True
  then have "(\<lambda>a b. strategy_key ser st a \<le> strategy_key ser st b) = precedes ser st"
    by (auto simp: fun_eq_iff precedes_key simp del: precedes.simps)
  then show ?thesis using assms True by (simp add: in_key_order_def sorted_map)
next
  case False
  then have "(\<lambda>a b. strategy_key ser st b \<le> strategy_key ser st a) = precedes ser st"
    by (cases st) (auto simp: fun_eq_iff precedes_key simp del: precedes.simps)
  then show ?thesis using assms False by (simp add: in_key_order_def sorted_map sorted_wrt_rev)
qed

lemma inj_strategy_key: "inj_on (entry_hash ser) A \<Longrightarrow> inj_on (strategy_key ser st) A"
  by (cases st) (auto simp: inj_on_def fifo_key_def fee_key_def)

lemma selection_order_unique:
  assumes "sorted_wrt (precedes ser st) es" and "sorted_wrt (precedes ser st) es'" and "mset es = mset es'"
    and "distinct (map (entry_hash ser) es)"
  shows "es = es'"
proof -
  have "set es = set es'" "distinct es'" using assms(3,4) by (auto simp: distinct_map dest: mset_eq_setD mset_eq_imp_distinct_iff)
  moreover have "inj_on (strategy_key ser st) (set es)" using assms(4) by (intro inj_strategy_key) (simp add: distinct_map)
  ultimately have "in_key_order st es = in_key_order st es'"
    using assms(4) by (intro map_sorted_distinct_set_unique [of "strategy_key ser st"] sorted_strategy_key assms(1,2))
      (auto simp: in_key_order_def distinct_map)
  then show ?thesis by (simp add: in_key_order_def split: if_splits)
qed

section \<open>Properties\<close>

text \<open>The order in full: by fee rate, of equal rates the later arrival first (the heap pops its greatest
  entry), or by arrival for the FIFO strategy.\<close>

lemma selection_in_order:
  assumes "total_size es < 2 ^ 64" and "total_fees es < 2 ^ 64" and "parse_criteria c = (mc, mb, mf)"
  shows "\<exists>order n. mset order = mset es \<and> sorted_wrt (precedes ser st) order \<and>
    select ser st es c = map selected_of (take n order) \<and> longest_prefix (mc, mb, mf) 0 0 0 order n"
proof -
  have "\<exists>n. select_loop (mc, mb, mf) [] 0 0 (selection_order ser st es) = [] @ map selected_of (take n (selection_order ser st es)) \<and>
      longest_prefix (mc, mb, mf) (length ([] :: selected_transaction list)) (unat (0 :: u64)) (unat (0 :: u64)) (selection_order ser st es) n"
    using totals_mset [OF mset_selection_order [of ser st es]] assms(1,2) by (intro select_loop_prefix) simp_all
  then show ?thesis
    using selection_order_sorted [of ser st es] by (intro exI [of _ "selection_order ser st es"]) (auto simp: select_is_loop assms(3))
qed

text \<open>Two nodes whose pools hold the same entries, in whatever order they were inserted, select the same list.\<close>

theorem selection_deterministic:
  assumes "mset es = mset es'" and "distinct (map (entry_hash ser) es)"
  shows "select ser st es c = select ser st es' c"
proof -
  have "distinct (map (entry_hash ser) (selection_order ser st es))"
    using assms(2) by (metis mset_map mset_selection_order mset_eq_imp_distinct_iff)
  then have "selection_order ser st es = selection_order ser st es'"
    using assms(1) by (intro selection_order_unique [OF selection_order_sorted selection_order_sorted]) simp_all
  then show ?thesis by (simp add: select_is_loop)
qed

text \<open>What the two strategies promise: the highest fee rate first, or the earliest arrival first and of
  those the smallest hash.\<close>

fun strategy_order :: "(hash \<Rightarrow> bytes option) \<Rightarrow> selection_strategy \<Rightarrow> pool_entry \<Rightarrow> pool_entry \<Rightarrow> bool" where
  "strategy_order ser FIFO a b \<longleftrightarrow> (pe_arrival_time a, entry_hash ser a) \<le> (pe_arrival_time b, entry_hash ser b)"
| "strategy_order ser _ a b \<longleftrightarrow> pe_fee_rate b \<le> pe_fee_rate a"

lemma precedes_strategy: "precedes ser st a b \<Longrightarrow> strategy_order ser st a b"
  by (cases st) (auto simp: less_eq_prod_def)

text \<open>C33: The selector of the strategies HighestFee and FIFO lists the pool by descending fee rate, or by
  arrival and then hash, and returns the longest prefix of that list that stays within the number, bytes and
  fees of the criteria, whenever the sizes and the fees of the pool add up below \<open>2\<^sup>64\<close>. When the hashes of
  the entries differ, the selection does not depend on the order in which the pool gives its entries. Nothing
  is said of the order at equal fee rates, nor of the strategy AncestorSet.\<close>

theorem selection_exact:
  assumes "st \<noteq> AncestorSet" and "total_size es < 2 ^ 64" and "total_fees es < 2 ^ 64" and "parse_criteria c = (mc, mb, mf)"
  shows "(\<exists>order n. mset order = mset es \<and> sorted_wrt (strategy_order ser st) order \<and>
      select ser st es c = map selected_of (take n order) \<and> longest_prefix (mc, mb, mf) 0 0 0 order n) \<and>
    (\<forall>es'. mset es' = mset es \<and> distinct (map (entry_hash ser) es) \<longrightarrow> select ser st es' c = select ser st es c)"
proof -
  obtain order n where "mset order = mset es" "sorted_wrt (precedes ser st) order"
    "select ser st es c = map selected_of (take n order)" "longest_prefix (mc, mb, mf) 0 0 0 order n"
    using selection_in_order [OF assms(2-4)] by blast
  moreover from this(2) have "sorted_wrt (strategy_order ser st) order"
    by (rule sorted_wrt_mono_rel [rotated]) (rule precedes_strategy)
  ultimately show ?thesis using selection_deterministic [of es _ ser st c] by metis
qed

text \<open>A list that the selection engine returns is a subsequence of the candidates in canonical order; it stays within the
  block size, every input is stored, and no transaction spends an output of an earlier one.\<close>

theorem engine_selection_sound:
  assumes "rocks_laws R view" and "coherent bc view (kv_cache_layer kv)" and "select_transactions bc R kv snapshot mx = (kv', Inr sel)"
  shows "subseq sel (apply_canonical_sort (get_all_transactions snapshot)) \<and>
    sum_list (map estimate_serialized_size sel) \<le> mx \<and>
    (\<forall>tx\<in>set sel. inputs_in bc (view (cl_db (kv_cache_layer kv))) (inputs tx)) \<and>
    sorted_wrt (\<lambda>parent tx. \<not> spends_output_of tx parent) sel"
  using engine_loop_ok [OF assms(1,2) refl _ _ _ assms(3) [unfolded select_transactions_def]]
  by (auto simp: selection_ok_def)

text \<open>The engine records the outputs that a selected transaction creates and not those it spends. So when every
  input is stored and no candidate spends an output of another, all candidates are selected, also two that spend the
  same output.\<close>

theorem engine_ignores_double_spends:
  assumes "rocks_laws R view" and "coherent bc view (kv_cache_layer kv)"
    and "\<forall>tx\<in>set (get_all_transactions snapshot). stored_inputs bc R (cl_db (kv_cache_layer kv)) tx"
    and "\<forall>tx\<in>set (get_all_transactions snapshot). \<forall>tx'\<in>set (get_all_transactions snapshot). \<forall>i\<in>set (inputs tx). prev_tx i \<noteq> tx_id tx'"
    and "sum_list (map estimate_serialized_size (get_all_transactions snapshot)) \<le> mx"
  shows "snd (select_transactions bc R kv snapshot mx) = Inr (apply_canonical_sort (get_all_transactions snapshot))"
proof -
  let ?txs = "apply_canonical_sort (get_all_transactions snapshot)"
  have perm: "mset ?txs = mset (get_all_transactions snapshot)" by (simp add: apply_canonical_sort_def)
  have "sum_list (map estimate_serialized_size ?txs) = sum_list (map estimate_serialized_size (get_all_transactions snapshot))"
    using perm by (metis mset_map sum_mset_sum_list)
  then have sz: "0 + sum_list (map estimate_serialized_size ?txs) \<le> mx" using assms(5) by simp
  have free: "\<forall>tx\<in>set ?txs. is_conflict_free tx {||}" by (simp add: is_conflict_free_def)
  have stored: "\<forall>tx\<in>set ?txs. stored_inputs bc R (cl_db (kv_cache_layer kv)) tx" using assms(3) mset_eq_setD [OF perm] by blast
  have indep: "\<forall>tx\<in>set ?txs. \<forall>tx'\<in>set ?txs. \<forall>i\<in>set (inputs tx). as_bytes (prev_tx i) \<noteq> as_bytes (tx_id tx')"
    using assms(4) mset_eq_setD [OF perm] hash.expand by blast
  show ?thesis
    using engine_takes_all [OF assms(1,2) refl stored free indep sz, of "[]"] by (simp add: select_transactions_def)
qed

text \<open>The check of a block candidate accepts exactly the lists whose transaction ids serialize to distinct byte strings
  and in which no output is spent twice; the order of the transactions does not matter to it.\<close>

theorem verify_canonical_order_exact:
  "is_ok (verify_canonical_order ser txs) \<longleftrightarrow>
     (\<forall>tx\<in>set txs. ser (tx_id tx) \<noteq> None) \<and> distinct (map (\<lambda>tx. ser (tx_id tx)) txs) \<and>
     distinct (map outpoint_of (concat (map inputs txs)))"
  by (simp add: verify_canonical_order_def verify_canonical_loop_ok)

subsection \<open>Examples\<close>

definition spend_demo :: "u8 \<Rightarrow> transaction" where
  "spend_demo b = \<lparr>tx_id = Hash (replicate 32 b),
     inputs = [\<lparr>prev_tx = Hash demo_txid, index = 0, signature = [], pubkey = [], sighash_type = SigHashAll\<rparr>], outputs = [],
     execution_payload = [], contract_address = None, gas_limit = 0, max_fee_per_gas = 0, chain_id = 1, locktime = 0\<rparr>"

lemma replicate_32: "replicate 32 b = b # replicate 31 b"
  using replicate_Suc [of 31 b] by simp

lemma spend_demo_simps [simp]:
  "tx_id (spend_demo b) = Hash (replicate 32 b)" "outputs (spend_demo b) = []" "max_fee_per_gas (spend_demo b) = 0"
  "inputs (spend_demo b) = [\<lparr>prev_tx = Hash demo_txid, index = 0, signature = [], pubkey = [], sighash_type = SigHashAll\<rparr>]"
  "estimate_serialized_size (spend_demo b) = 300"
  by (simp_all add: spend_demo_def estimate_serialized_size_def)

definition demo_ser_id :: "hash \<Rightarrow> bytes option" where
  "demo_ser_id h = Some (as_bytes h)"

definition demo_pool_entry :: "u8 \<Rightarrow> u64 \<Rightarrow> pool_entry" where
  "demo_pool_entry b fee = (pool_entry_new 5 (spend_demo b) fee 10)"

definition demo_snapshot :: mempool_snapshot where
  "demo_snapshot = mempool_snapshot_new [([1], demo_pool_entry 1 10), ([2], demo_pool_entry 2 20)] 3"

lemma demo_snapshot_all: "get_all_transactions demo_snapshot = [spend_demo 1, spend_demo 2]"
  by (simp add: demo_snapshot_def mempool_snapshot_new_def get_all_transactions_def demo_pool_entry_def pool_entry_new_def)

lemma demo_canonical: "apply_canonical_sort [spend_demo 1, spend_demo 2] = [spend_demo 1, spend_demo 2]"
  by (simp add: apply_canonical_sort_def sort_by_def canonical_cmp_def canonical_fee_rate_def cmp_then_def cmp_of_def
      get_dependency_rank_def Let_def replicate_32)

lemma demo_kv_coherent: "coherent demo_bincode memory_view (kv_cache_layer (kv_store_new demo_stored))"
proof -
  have "coherent demo_bincode memory_view demo_layer" by (rule storage_cache_layer_new_coherent [OF demo_layer_new])
  from put_utxo_coherent(1) [OF memory_db_laws demo_bincode_laws this demo_put] show ?thesis by (simp add: kv_store_new_def)
qed

lemma demo_spends_stored: "stored_inputs demo_bincode memory_db (cl_db (kv_cache_layer (kv_store_new demo_stored))) (spend_demo b)"
  by (simp add: stored_inputs_def kv_store_new_def demo_stored_db memory_db_def from_bytes_def demo_bincode_def single_codec_def)

theorem engine_ignores_double_spends_witness:
  "snd (select_transactions demo_bincode memory_db (kv_store_new demo_stored) demo_snapshot 1000) = Inr [spend_demo 1, spend_demo 2] \<and>
   map outpoint_of (inputs (spend_demo 1)) = map outpoint_of (inputs (spend_demo 2))"
proof -
  have "snd (select_transactions demo_bincode memory_db (kv_store_new demo_stored) demo_snapshot 1000) =
      Inr (apply_canonical_sort (get_all_transactions demo_snapshot))"
    by (rule engine_ignores_double_spends [OF memory_db_laws demo_kv_coherent])
      (simp_all add: demo_snapshot_all demo_spends_stored demo_txid_def)
  then show ?thesis by (simp add: demo_snapshot_all demo_canonical)
qed

theorem engine_selection_sound_witness:
  "\<exists>sel. snd (select_transactions demo_bincode memory_db (kv_store_new demo_stored) demo_snapshot 1000) = Inr sel \<and>
     sum_list (map estimate_serialized_size sel) \<le> 1000 \<and> subseq sel [spend_demo 1, spend_demo 2]"
proof -
  obtain kv' r where run: "select_transactions demo_bincode memory_db (kv_store_new demo_stored) demo_snapshot 1000 = (kv', r)" by fastforce
  have "r = Inr [spend_demo 1, spend_demo 2]"
    using engine_takes_all [OF memory_db_laws demo_kv_coherent refl, of "[spend_demo 1, spend_demo 2]" "{||}" 0 1000 "[]"] run
    by (simp add: select_transactions_def demo_snapshot_all demo_canonical demo_spends_stored demo_txid_def is_conflict_free_def
        del: engine_loop.simps)
  with run engine_selection_sound [OF memory_db_laws demo_kv_coherent] show ?thesis
    by (fastforce simp: demo_snapshot_all demo_canonical)
qed

theorem selection_exact_witness:
  "\<exists>order n. mset order = mset [demo_pool_entry 1 10, demo_pool_entry 2 20] \<and> sorted_wrt (strategy_order demo_ser_id HighestFee) order \<and>
     select demo_ser_id HighestFee [demo_pool_entry 1 10, demo_pool_entry 2 20] (MaxBytes 15) = map selected_of (take n order) \<and>
     longest_prefix (usize_max, 15, - 1) 0 0 0 order n"
  by (rule selection_exact [THEN conjunct1]) (simp_all add: demo_pool_entry_def pool_entry_new_def)

theorem selection_deterministic_witness:
  "select demo_ser_id FIFO [demo_pool_entry 1 10, demo_pool_entry 2 20] (MaxCount 1) = select demo_ser_id FIFO [demo_pool_entry 2 20, demo_pool_entry 1 10] (MaxCount 1)"
  by (rule selection_deterministic)
    (simp_all add: add_mset_commute demo_pool_entry_def pool_entry_new_def entry_hash_def demo_ser_id_def)

end
