(* ===== verification/Disjoint_Union.thy ===== *)
theory Disjoint_Union
  imports Dependency_Graph
begin

text \<open>
  \<open>DisjointSetUnion\<close> of \<open>klomang-node/src/mempool/graph_conflict_ordering.rs\<close>: union by rank with path compression
  over hash maps. The recursion of \<open>find\<close> follows parents and may not end on a map with a cycle; it is a partial
  function, and the invariant (every node has a root) says that it ends.
\<close>

section \<open>Operations\<close>

record disjoint_set_union =
  ds_parent :: "(bytes, bytes) fmap"
  ds_rank :: "(bytes, u32) fmap"

definition dsu_new :: disjoint_set_union where
  "dsu_new = \<lparr>ds_parent = fmempty, ds_rank = fmempty\<rparr>"

definition or_insert :: "'k \<Rightarrow> 'v \<Rightarrow> ('k, 'v) fmap \<Rightarrow> ('k, 'v) fmap" where
  "or_insert k v m = (if k |\<in>| fmdom m then m else fmupd k v m)"

definition make_set :: "disjoint_set_union \<Rightarrow> bytes \<Rightarrow> disjoint_set_union" where
  "make_set self tx_hash =
     self\<lparr>ds_parent := or_insert tx_hash tx_hash (ds_parent self), ds_rank := or_insert tx_hash 0 (ds_rank self)\<rparr>"

partial_function (option) find_root :: "(bytes, bytes) fmap \<Rightarrow> bytes \<Rightarrow> ((bytes, bytes) fmap \<times> bytes) option" where
  "find_root parent tx =
     (case fmlookup parent tx of
        None \<Rightarrow> Some (parent, tx)
      | Some p \<Rightarrow>
          if p \<noteq> tx then Option.bind (find_root parent p) (\<lambda>(parent', root). Some (fmupd tx root parent', root))
          else Some (parent, tx))"

definition dsu_find :: "disjoint_set_union \<Rightarrow> bytes \<Rightarrow> (disjoint_set_union \<times> bytes) option" where
  "dsu_find self tx_hash =
     Option.bind (find_root (ds_parent self) tx_hash) (\<lambda>(parent, root). Some (self\<lparr>ds_parent := parent\<rparr>, root))"

definition rank_of :: "disjoint_set_union \<Rightarrow> bytes \<Rightarrow> u32" where
  "rank_of self x = (case fmlookup (ds_rank self) x of None \<Rightarrow> 0 | Some r \<Rightarrow> r)"

definition link_roots :: "disjoint_set_union \<Rightarrow> bytes \<Rightarrow> bytes \<Rightarrow> disjoint_set_union" where
  "link_roots self root1 root2 =
     (if root1 = root2 then self
      else if rank_of self root1 < rank_of self root2 then self\<lparr>ds_parent := fmupd root1 root2 (ds_parent self)\<rparr>
      else if rank_of self root2 < rank_of self root1 then self\<lparr>ds_parent := fmupd root2 root1 (ds_parent self)\<rparr>
      else self\<lparr>ds_parent := fmupd root2 root1 (ds_parent self), ds_rank := fmupd root1 (rank_of self root1 + 1) (ds_rank self)\<rparr>)"

definition dsu_union :: "disjoint_set_union \<Rightarrow> bytes \<Rightarrow> bytes \<Rightarrow> disjoint_set_union option" where
  "dsu_union self tx1 tx2 =
     Option.bind (dsu_find self tx1) (\<lambda>(self, root1).
       Option.bind (dsu_find self tx2) (\<lambda>(self, root2). Some (link_roots self root1 root2)))"

fun collect_components ::
  "bytes list \<Rightarrow> disjoint_set_union \<Rightarrow> (bytes, bytes list) fmap \<Rightarrow> (disjoint_set_union \<times> (bytes, bytes list) fmap) option" where
  "collect_components [] self components = Some (self, components)"
| "collect_components (h # hs) self components =
     Option.bind (dsu_find self h) (\<lambda>(self, root). collect_components hs self (fmupd root (succs_of components root @ [h]) components))"

definition get_components :: "set_order \<Rightarrow> disjoint_set_union \<Rightarrow> (disjoint_set_union \<times> (bytes, bytes list) fmap) option" where
  "get_components ord self = collect_components (ord (fmdom (ds_parent self))) self fmempty"

section \<open>Roots\<close>

inductive set_root :: "(bytes, bytes) fmap \<Rightarrow> bytes \<Rightarrow> bytes \<Rightarrow> bool" for parent where
  root_self: "fmlookup parent x = None \<or> fmlookup parent x = Some x \<Longrightarrow> set_root parent x x"
| root_step: "fmlookup parent x = Some p \<Longrightarrow> p \<noteq> x \<Longrightarrow> set_root parent p r \<Longrightarrow> set_root parent x r"

inductive_cases root_ofE: "set_root parent x r"

definition forest :: "(bytes, bytes) fmap \<Rightarrow> bool" where
  "forest parent \<longleftrightarrow> (\<forall>x. \<exists>r. set_root parent x r)"

definition same_set :: "(bytes, bytes) fmap \<Rightarrow> bytes \<Rightarrow> bytes \<Rightarrow> bool" where
  "same_set parent x y \<longleftrightarrow> (\<exists>r. set_root parent x r \<and> set_root parent y r)"

lemma root_of_unique: "set_root parent x r \<Longrightarrow> set_root parent x s \<Longrightarrow> r = s"
proof (induction arbitrary: s rule: set_root.induct)
  case (root_self x)
  from root_self(2,1) show ?case by (cases rule: set_root.cases) auto
next
  case (root_step x p r)
  from root_step.prems root_step.hyps(1,2) have "set_root parent p s" by (cases rule: set_root.cases) auto
  then show ?case by (rule root_step.IH)
qed

lemma root_of_root: "set_root parent x r \<Longrightarrow> fmlookup parent r = None \<or> fmlookup parent r = Some r"
  by (induction rule: set_root.induct) auto

lemma root_of_idem: "set_root parent x r \<Longrightarrow> set_root parent r r"
  by (rule root_self) (rule root_of_root)

lemma same_set_roots: "set_root parent x r \<Longrightarrow> set_root parent y s \<Longrightarrow> same_set parent x y \<longleftrightarrow> r = s"
  unfolding same_set_def using root_of_unique by blast

lemma same_set_root:
  assumes "set_root parent a r"
  shows "same_set parent x a \<longleftrightarrow> set_root parent x r" and "same_set parent a x \<longleftrightarrow> set_root parent x r"
  using assms root_of_unique unfolding same_set_def by blast+

text \<open>Path compression keeps every root.\<close>

lemma root_of_compress:
  assumes "set_root parent y s" and "set_root parent x r" and "x \<noteq> r"
  shows "set_root (fmupd x r parent) y s"
  using assms(1)
proof (induction rule: set_root.induct)
  case (root_self y)
  with assms(2,3) have "y \<noteq> x" using root_of_unique set_root.root_self by blast
  with root_self show ?case by (intro set_root.root_self) simp
next
  case (root_step y p s)
  show ?case
  proof (cases "y = x")
    case True
    then have "s = r" using assms(2) root_step.hyps set_root.root_step root_of_unique by metis
    moreover have "set_root (fmupd x r parent) r r"
      using root_of_root [OF assms(2)] assms(3) by (intro set_root.root_self) simp
    ultimately show ?thesis using True assms(3) set_root.root_step [of "fmupd x r parent" x r r] by simp
  next
    case False
    then show ?thesis using root_step set_root.root_step [of "fmupd x r parent" y p s] by simp
  qed
qed

lemma find_root_spec:
  assumes "set_root parent x r"
  shows "\<exists>parent'. find_root parent x = Some (parent', r) \<and> fmdom parent' = fmdom parent \<and>
    (\<forall>y s. set_root parent y s \<longrightarrow> set_root parent' y s)"
  using assms
proof (induction rule: set_root.induct)
  case (root_self x)
  then show ?case by (auto simp: find_root.simps)
next
  case (root_step x p r)
  then obtain parent' where f: "find_root parent p = Some (parent', r)" "fmdom parent' = fmdom parent"
    "\<forall>y s. set_root parent y s \<longrightarrow> set_root parent' y s" by blast
  have "set_root parent x r" using root_step.hyps by (rule set_root.root_step)
  moreover from this have "x \<noteq> r" using root_of_root [of parent x r] root_step.hyps(1,2) by auto
  ultimately have x: "set_root parent' x r" "x \<noteq> r" using f(3) by blast+
  then have "\<forall>y s. set_root parent y s \<longrightarrow> set_root (fmupd x r parent') y s" using f(3) root_of_compress by blast
  moreover have "x |\<in>| fmdom parent" using root_step.hyps(1) by (rule fmdomI)
  ultimately show ?case using f root_step.hyps by (auto simp: find_root.simps [of parent x])
qed

lemma roots_preserved_same:
  assumes "forest parent" and "\<forall>y s. set_root parent y s \<longrightarrow> set_root parent' y s"
  shows "forest parent'" and "same_set parent' x y \<longleftrightarrow> same_set parent x y"
proof -
  show "forest parent'" using assms unfolding forest_def by blast
  obtain r s where "set_root parent x r" "set_root parent y s" using assms(1) unfolding forest_def by blast
  then show "same_set parent' x y \<longleftrightarrow> same_set parent x y" using assms(2) same_set_roots by metis
qed

lemma dsu_find_spec:
  assumes "forest (ds_parent self)"
  shows "\<exists>self' r. dsu_find self x = Some (self', r) \<and> set_root (ds_parent self) x r \<and> forest (ds_parent self') \<and>
    fmdom (ds_parent self') = fmdom (ds_parent self) \<and> (\<forall>y s. set_root (ds_parent self) y s \<longrightarrow> set_root (ds_parent self') y s)"
proof -
  obtain r where r: "set_root (ds_parent self) x r" using assms unfolding forest_def by blast
  obtain parent' where "find_root (ds_parent self) x = Some (parent', r)" "fmdom parent' = fmdom (ds_parent self)"
    "\<forall>y s. set_root (ds_parent self) y s \<longrightarrow> set_root parent' y s" using find_root_spec [OF r] by blast
  with roots_preserved_same(1) [OF assms] r show ?thesis by (simp add: dsu_find_def)
qed

section \<open>Union\<close>

lemma root_of_link:
  assumes "set_root parent y s" and "set_root parent r1 r1" and "set_root parent r2 r2" and "r1 \<noteq> r2"
  shows "set_root (fmupd r1 r2 parent) y (if s = r1 then r2 else s)"
  using assms(1)
proof (induction rule: set_root.induct)
  case (root_self y)
  have "set_root (fmupd r1 r2 parent) r2 r2" using root_of_root [OF assms(3)] assms(4) by (intro set_root.root_self) simp
  then have "set_root (fmupd r1 r2 parent) r1 r2" using assms(4) set_root.root_step [of "fmupd r1 r2 parent" r1 r2 r2] by simp
  with root_self show ?case by (auto intro: set_root.root_self)
next
  case (root_step y p s)
  have "y \<noteq> r1" using root_of_root [OF assms(2)] root_step.hyps(1,2) by auto
  then show ?case using root_step set_root.root_step [of "fmupd r1 r2 parent" y p] by simp
qed

lemma link_roots_spec:
  assumes "forest (ds_parent self)" and "set_root (ds_parent self) a r1" and "set_root (ds_parent self) b r2"
  shows "forest (ds_parent (link_roots self r1 r2)) \<and>
    (\<forall>x y. same_set (ds_parent (link_roots self r1 r2)) x y \<longleftrightarrow> same_set (ds_parent self) x y \<or>
       same_set (ds_parent self) x a \<and> same_set (ds_parent self) b y \<or> same_set (ds_parent self) x b \<and> same_set (ds_parent self) a y)"
proof (cases "r1 = r2")
  case True
  note roots = same_set_root [OF assms(2)] same_set_root [OF assms(3), folded True]
  have "set_root (ds_parent self) x r1 \<Longrightarrow> set_root (ds_parent self) y r1 \<Longrightarrow> same_set (ds_parent self) x y" for x y
    unfolding same_set_def by blast
  then show ?thesis using assms(1) True by (simp add: link_roots_def roots) blast
next
  case False
  obtain u v where uv: "{u, v} = {r1, r2}" "u \<noteq> v" "ds_parent (link_roots self r1 r2) = fmupd u v (ds_parent self)"
  proof -
    have "ds_parent (link_roots self r1 r2) = fmupd r1 r2 (ds_parent self) \<or> ds_parent (link_roots self r1 r2) = fmupd r2 r1 (ds_parent self)"
      using False by (simp add: link_roots_def)
    then show thesis using False that [of r1 r2] that [of r2 r1] by (metis insert_commute)
  qed
  have roots: "set_root (ds_parent self) u u" "set_root (ds_parent self) v v"
    using uv(1) root_of_idem [OF assms(2)] root_of_idem [OF assms(3)] by (auto simp: doubleton_eq_iff)
  note new = root_of_link [OF _ roots uv(2)]
  have same: "same_set (fmupd u v (ds_parent self)) x y \<longleftrightarrow> same_set (ds_parent self) x y \<or>
       same_set (ds_parent self) x a \<and> same_set (ds_parent self) b y \<or> same_set (ds_parent self) x b \<and> same_set (ds_parent self) a y" for x y
  proof -
    obtain s t where st: "set_root (ds_parent self) x s" "set_root (ds_parent self) y t" using assms(1) unfolding forest_def by blast
    have "same_set (fmupd u v (ds_parent self)) x y \<longleftrightarrow> (if s = u then v else s) = (if t = u then v else t)"
      by (rule same_set_roots [OF new new]) (rule st)+
    also have "\<dots> \<longleftrightarrow> s = t \<or> s = r1 \<and> t = r2 \<or> s = r2 \<and> t = r1" using uv(1,2) by (auto simp: doubleton_eq_iff)
    also have "\<dots> \<longleftrightarrow> same_set (ds_parent self) x y \<or>
       same_set (ds_parent self) x a \<and> same_set (ds_parent self) b y \<or> same_set (ds_parent self) x b \<and> same_set (ds_parent self) a y"
      using same_set_roots [OF st] same_set_roots [OF st(1) assms(2)] same_set_roots [OF st(1) assms(3)]
        same_set_roots [OF assms(2) st(2)] same_set_roots [OF assms(3) st(2)] by auto
    finally show ?thesis .
  qed
  moreover have "forest (fmupd u v (ds_parent self))" using assms(1) new unfolding forest_def by blast
  ultimately show ?thesis unfolding uv(3) by blast
qed

lemma link_roots_dom: "fset (fmdom (ds_parent (link_roots self r1 r2))) \<subseteq> fset (fmdom (ds_parent self)) \<union> {r1, r2}"
  "fset (fmdom (ds_parent self)) \<subseteq> fset (fmdom (ds_parent (link_roots self r1 r2)))"
  by (auto simp: link_roots_def)

section \<open>Components of a set of edges\<close>

text \<open>The structure represents the connected components of a set of edges.\<close>

definition represents :: "disjoint_set_union \<Rightarrow> (bytes \<times> bytes) set \<Rightarrow> bool" where
  "represents self E \<longleftrightarrow> forest (ds_parent self) \<and> (\<forall>x y. same_set (ds_parent self) x y \<longleftrightarrow> connected E x y)"

lemma connected_insert:
  "connected (insert (a, b) E) x y \<longleftrightarrow> connected E x y \<or> connected E x a \<and> connected E b y \<or> connected E x b \<and> connected E a y"
proof
  assume "connected (insert (a, b) E) x y"
  then have "(x, y) \<in> (insert (a, b) (insert (b, a) (E \<union> E\<inverse>)))\<^sup>*"
    unfolding connected_def by (rule rtrancl_mono [THEN subsetD, rotated]) auto
  then show "connected E x y \<or> connected E x a \<and> connected E b y \<or> connected E x b \<and> connected E a y"
    unfolding rtrancl_insert connected_def [symmetric] using connected_trans by (auto simp: connected_def)
next
  have ab: "connected (insert (a, b) E) a b" "connected (insert (a, b) E) b a"
    using connected_edge [of a b "insert (a, b) E"] connected_sym by blast+
  assume "connected E x y \<or> connected E x a \<and> connected E b y \<or> connected E x b \<and> connected E a y"
  then show "connected (insert (a, b) E) x y" using connected_mono connected_trans ab by meson
qed

lemma represents_new: "represents dsu_new {}"
proof -
  have "set_root (ds_parent dsu_new) x x" for x by (rule root_self) (simp add: dsu_new_def)
  then show ?thesis
    unfolding represents_def forest_def same_set_def connected_def using root_of_unique by (auto, metis+)
qed

lemma represents_make_set:
  assumes "represents self E"
  shows "represents (make_set self x) E"
proof (cases "x |\<in>| fmdom (ds_parent self)")
  case False
  have keep: "set_root (ds_parent (make_set self x)) y s" if "set_root (ds_parent self) y s" for y s
    using that
  proof (induction rule: set_root.induct)
    case (root_self y)
    then show ?case using False by (intro set_root.root_self) (auto simp: make_set_def or_insert_def)
  next
    case (root_step y p s)
    have "y \<noteq> x" using root_step.hyps(1) False by (auto dest: fmdomI)
    then show ?case using False root_step set_root.root_step [of "ds_parent (make_set self x)" y p s] by (simp add: make_set_def or_insert_def)
  qed
  then show ?thesis
    using roots_preserved_same [of "ds_parent self" "ds_parent (make_set self x)"] assms unfolding represents_def by blast
qed (use assms in \<open>simp add: represents_def make_set_def or_insert_def\<close>)

lemma represents_union:
  assumes "represents self E"
  shows "\<exists>self'. dsu_union self a b = Some self' \<and> represents self' (insert (a, b) E) \<and>
    fset (fmdom (ds_parent self)) \<subseteq> fset (fmdom (ds_parent self'))"
proof -
  have f: "forest (ds_parent self)" using assms by (simp add: represents_def)
  obtain s1 r1 where s1: "dsu_find self a = Some (s1, r1)" "set_root (ds_parent self) a r1" "forest (ds_parent s1)"
    "fmdom (ds_parent s1) = fmdom (ds_parent self)" "\<forall>y s. set_root (ds_parent self) y s \<longrightarrow> set_root (ds_parent s1) y s"
    using dsu_find_spec [OF f] by blast
  obtain s2 r2 where s2: "dsu_find s1 b = Some (s2, r2)" "set_root (ds_parent s1) b r2" "forest (ds_parent s2)"
    "fmdom (ds_parent s2) = fmdom (ds_parent s1)" "\<forall>y s. set_root (ds_parent s1) y s \<longrightarrow> set_root (ds_parent s2) y s"
    using dsu_find_spec [OF s1(3)] by blast
  have same: "same_set (ds_parent s2) x y \<longleftrightarrow> connected E x y" for x y
    using roots_preserved_same(2) [OF s1(3) s2(5)] roots_preserved_same(2) [OF f s1(5)] assms by (simp add: represents_def)
  have ra: "set_root (ds_parent s2) a r1" "set_root (ds_parent s2) b r2" using s1(2,5) s2(2,5) by blast+
  note link = link_roots_spec [OF s2(3) ra, unfolded same]
  have "represents (link_roots s2 r1 r2) (insert (a, b) E)"
    using link unfolding represents_def connected_insert by blast
  then show ?thesis using s1(1,4) s2(1,4) link_roots_dom(2) [of s2 r1 r2] by (simp add: dsu_union_def)
qed

lemma collect_components_spec:
  assumes "forest parent"
  shows "forest (ds_parent self) \<Longrightarrow> \<forall>y s. set_root parent y s \<longrightarrow> set_root (ds_parent self) y s \<Longrightarrow>
    \<exists>self' comps'. collect_components hs self comps = Some (self', comps') \<and>
      (\<forall>r. succs_of comps' r = succs_of comps r @ filter (\<lambda>h. set_root parent h r) hs) \<and>
      fset (fmdom comps') = fset (fmdom comps) \<union> {r. \<exists>h\<in>set hs. set_root parent h r}"
proof (induction hs arbitrary: self comps)
  case (Cons h hs)
  obtain self1 root where f: "dsu_find self h = Some (self1, root)" "set_root (ds_parent self) h root" "forest (ds_parent self1)"
    "\<forall>y s. set_root (ds_parent self) y s \<longrightarrow> set_root (ds_parent self1) y s"
    using dsu_find_spec [OF Cons.prems(1)] by blast
  have root: "set_root parent h r \<longleftrightarrow> r = root" for r
    using f(2) Cons.prems(2) assms unfolding forest_def using root_of_unique by metis
  let ?comps = "fmupd root (succs_of comps root @ [h]) comps"
  obtain self' comps' where c: "collect_components hs self1 ?comps = Some (self', comps')"
    "\<forall>r. succs_of comps' r = succs_of ?comps r @ filter (\<lambda>h. set_root parent h r) hs"
    "fset (fmdom comps') = fset (fmdom ?comps) \<union> {r. \<exists>h\<in>set hs. set_root parent h r}"
    using Cons.IH [OF f(3), of ?comps] Cons.prems(2) f(4) by blast
  have "succs_of comps' r = succs_of comps r @ filter (\<lambda>h. set_root parent h r) (h # hs)" for r
    using c(2) root by (auto simp: succs_of_def)
  moreover have "fset (fmdom comps') = fset (fmdom comps) \<union> {r. \<exists>h\<in>set (h # hs). set_root parent h r}"
    using c(3) root by auto
  ultimately show ?case using c(1) f(1) by auto
qed simp

text \<open>Every listed node is in exactly one component, and two are together when they are connected.\<close>

definition component_lists :: "set_order \<Rightarrow> (bytes, bytes list) fmap \<Rightarrow> bytes list list" where
  "component_lists ord comps = map (succs_of comps) (ord (fmdom comps))"

definition lists_set :: "set_order \<Rightarrow> bool" where
  "lists_set ord \<longleftrightarrow> (\<forall>s. distinct (ord s) \<and> set (ord s) = fset s)"

lemma get_components_exact:
  assumes "represents self E" and "lists_set ord"
  shows "\<exists>self' comps. get_components ord self = Some (self', comps) \<and>
    distinct (concat (component_lists ord comps)) \<and> set (concat (component_lists ord comps)) = fset (fmdom (ds_parent self)) \<and>
    (\<forall>g\<in>set (component_lists ord comps). g \<noteq> []) \<and>
    (\<forall>g\<in>set (component_lists ord comps). \<forall>x\<in>set g. \<forall>y\<in>fset (fmdom (ds_parent self)). y \<in> set g \<longleftrightarrow> connected E x y)"
proof -
  let ?P = "ds_parent self" and ?keys = "ord (fmdom (ds_parent self))"
  have f: "forest ?P" and same: "\<And>x y. same_set ?P x y \<longleftrightarrow> connected E x y" using assms(1) by (auto simp: represents_def)
  obtain self' comps where c: "get_components ord self = Some (self', comps)"
    "\<And>r. succs_of comps r = filter (\<lambda>h. set_root ?P h r) ?keys"
    "fset (fmdom comps) = {r. \<exists>h\<in>set ?keys. set_root ?P h r}"
    using collect_components_spec [OF f f, of ?keys fmempty] by (auto simp: get_components_def succs_of_def)
  have keys: "set ?keys = fset (fmdom ?P)" "distinct ?keys" "set (ord (fmdom comps)) = fset (fmdom comps)" "distinct (ord (fmdom comps))"
    using assms(2) by (auto simp: lists_set_def)
  have "distinct (concat (map (succs_of comps) rs))" if "distinct rs" for rs
    using that
  proof (induction rs)
    case (Cons r rs)
    have "set (succs_of comps r) \<inter> set (concat (map (succs_of comps) rs)) = {}"
      using Cons.prems root_of_unique by (auto simp: c(2))
    with Cons show ?case by (simp add: c(2) keys(2))
  qed simp
  then have 1: "distinct (concat (component_lists ord comps))" using keys(4) by (simp add: component_lists_def)
  have 2: "set (concat (component_lists ord comps)) = fset (fmdom ?P)"
    using f keys unfolding forest_def by (auto simp: component_lists_def c(2,3)) metis
  have 3: "\<forall>g\<in>set (component_lists ord comps). g \<noteq> []"
    using keys(3) by (auto simp: component_lists_def c(2,3) filter_empty_conv)
  have 4: "\<forall>g\<in>set (component_lists ord comps). \<forall>x\<in>set g. \<forall>y\<in>fset (fmdom ?P). y \<in> set g \<longleftrightarrow> connected E x y"
    using keys(1) same_set_root by (auto simp: component_lists_def c(2) simp flip: same)
  show ?thesis using c(1) 1 2 3 4 by blast
qed

end
