(* ===== verification/Ieee_Double.thy ===== *)
theory Ieee_Double
  imports Float64
begin

text \<open>
  The \<open>f64\<close> of Rust. Every finite value is a whole multiple of \<open>2\<^sup>-\<^sup>1\<^sup>0\<^sup>7\<^sup>4\<close>, so a finite number is the
  integer that counts this unit. An operation is the exact one followed by rounding to 53 significant binary
  digits (to the unit for subnormal results), to nearest with ties to even, and by infinity beyond the
  greatest finite value. Zero has no sign here: no code modelled here divides by a negative zero.
\<close>

section \<open>Rounding\<close>

datatype f64 = NaN | PInf | NInf | Fin int

definition ulp :: nat where
  "ulp = 2 ^ 1074"

definition round_ratio :: "nat \<Rightarrow> nat \<Rightarrow> nat" where
  "round_ratio n d = (let k = bit_len (n div d) - 53 in round_half_even (d * 2 ^ k) n * 2 ^ k)"

definition f64_max :: int where
  "f64_max = (2 ^ 53 - 1) * 2 ^ 2045"

definition f64_fit :: "int \<Rightarrow> f64" where
  "f64_fit z = (if f64_max < z then PInf else if z < - f64_max then NInf else Fin z)"

definition f64_ratio :: "int \<Rightarrow> nat \<Rightarrow> f64" where
  "f64_ratio n d = f64_fit (sgn n * int (round_ratio (nat \<bar>n\<bar>) d))"

section \<open>Operations\<close>

text \<open>A decimal literal \<open>n / d\<close>, and casts from unsigned integers.\<close>

definition f64_lit :: "int \<Rightarrow> nat \<Rightarrow> f64" where
  "f64_lit n d = f64_ratio (n * int ulp) d"

definition f64_of_nat :: "nat \<Rightarrow> f64" where
  "f64_of_nat n = f64_ratio (int n * int ulp) 1"

fun f64_neg :: "f64 \<Rightarrow> f64" where
  "f64_neg NaN = NaN"
| "f64_neg PInf = NInf"
| "f64_neg NInf = PInf"
| "f64_neg (Fin a) = Fin (- a)"

fun f64_abs :: "f64 \<Rightarrow> f64" where
  "f64_abs NaN = NaN"
| "f64_abs PInf = PInf"
| "f64_abs NInf = PInf"
| "f64_abs (Fin a) = Fin \<bar>a\<bar>"

definition f64_add :: "f64 \<Rightarrow> f64 \<Rightarrow> f64" where
  "f64_add a b = (case (a, b) of
     (Fin x, Fin y) \<Rightarrow> f64_ratio (x + y) 1
   | _ \<Rightarrow> if a = NaN \<or> b = NaN \<or> a = PInf \<and> b = NInf \<or> a = NInf \<and> b = PInf then NaN
          else if a = PInf \<or> b = PInf then PInf else NInf)"

definition f64_sub :: "f64 \<Rightarrow> f64 \<Rightarrow> f64" where
  "f64_sub a b = f64_add a (f64_neg b)"

definition f64_inf :: "int \<Rightarrow> f64" where
  "f64_inf s = (if s = 0 then NaN else if 0 < s then PInf else NInf)"

fun f64_sgn :: "f64 \<Rightarrow> int" where
  "f64_sgn NaN = 0"
| "f64_sgn PInf = 1"
| "f64_sgn NInf = - 1"
| "f64_sgn (Fin a) = sgn a"

definition f64_mul :: "f64 \<Rightarrow> f64 \<Rightarrow> f64" where
  "f64_mul a b = (case (a, b) of
     (Fin x, Fin y) \<Rightarrow> f64_ratio (x * y) ulp
   | _ \<Rightarrow> if a = NaN \<or> b = NaN then NaN else f64_inf (f64_sgn a * f64_sgn b))"

text \<open>Division by zero gives the infinity of the sign of the dividend.\<close>

definition f64_div :: "f64 \<Rightarrow> f64 \<Rightarrow> f64" where
  "f64_div a b = (case (a, b) of
     (Fin x, Fin y) \<Rightarrow> if y = 0 then f64_inf x else f64_ratio (sgn y * x * int ulp) (nat \<bar>y\<bar>)
   | (Fin x, _) \<Rightarrow> if b = NaN then NaN else Fin 0
   | (_, Fin y) \<Rightarrow> if a = NaN then NaN else f64_inf (f64_sgn a * (if y = 0 then 1 else sgn y))
   | _ \<Rightarrow> NaN)"

definition f64_less :: "f64 \<Rightarrow> f64 \<Rightarrow> bool" where
  "f64_less a b = (case (a, b) of
     (Fin x, Fin y) \<Rightarrow> x < y
   | _ \<Rightarrow> a \<noteq> NaN \<and> b \<noteq> NaN \<and> a \<noteq> b \<and> (a = NInf \<or> b = PInf))"

definition f64_eq :: "f64 \<Rightarrow> f64 \<Rightarrow> bool" where
  "f64_eq a b \<longleftrightarrow> a \<noteq> NaN \<and> a = b"

definition f64_le :: "f64 \<Rightarrow> f64 \<Rightarrow> bool" where
  "f64_le a b \<longleftrightarrow> f64_less a b \<or> f64_eq a b"

text \<open>\<open>f64::min\<close> and \<open>f64::max\<close> return the other argument when one is not a number.\<close>

definition f64_minimum :: "f64 \<Rightarrow> f64 \<Rightarrow> f64" where
  "f64_minimum a b = (if a = NaN then b else if b = NaN then a else if f64_less b a then b else a)"

definition f64_maximum :: "f64 \<Rightarrow> f64 \<Rightarrow> f64" where
  "f64_maximum a b = (if a = NaN then b else if b = NaN then a else if f64_less a b then b else a)"

text \<open>\<open>ceil\<close>, and the saturating cast \<open>as u64\<close> (or \<open>as usize\<close>), which drops the fraction.\<close>

fun f64_ceil :: "f64 \<Rightarrow> f64" where
  "f64_ceil (Fin a) = Fin (- (- a div int ulp) * int ulp)"
| "f64_ceil a = a"

fun f64_to_nat :: "f64 \<Rightarrow> nat" where
  "f64_to_nat (Fin a) = min (nat (a div int ulp)) (2 ^ 64 - 1)"
| "f64_to_nat PInf = 2 ^ 64 - 1"
| "f64_to_nat _ = 0"

section \<open>Laws of rounding\<close>

lemma round_half_even_ratio_mono:
  assumes "0 < d" and "0 < d'" and "n * d' \<le> n' * d"
  shows "round_half_even d n \<le> round_half_even d' n'"
proof (cases "n div d < n' div d'")
  case True
  then show ?thesis using round_half_even_bounds(2) [of d n] round_half_even_bounds(1) [of n' d'] by linarith
next
  case False
  have "n div d * d * d' \<le> n' * d"
    using assms(3) by (meson div_times_less_eq_dividend le_trans mult_le_mono1)
  then have "n div d * d' \<le> n'" using assms(1) by (simp add: mult.commute mult.left_commute)
  then have "n div d \<le> n' div d'" using assms(2) by (simp add: less_eq_div_iff_mult_less_eq)
  with False have q: "n div d = n' div d'" by simp
  define a where "a = n div d"
  define r where "r = n mod d"
  define r' where "r' = n' mod d'"
  have "n = a * d + r" by (simp add: a_def r_def)
  moreover have "n' = a * d' + r'" by (simp add: a_def r'_def q)
  ultimately have "r * d' \<le> r' * d" using assms(3) by (simp add: algebra_simps)
  then have r: "(n mod d) * d' \<le> (n' mod d') * d" by (simp add: r_def r'_def)
  have up: "d' < 2 * (n' mod d')" if "d < 2 * (n mod d)"
  proof -
    have "d * d' < 2 * (n mod d) * d'" using that assms(2) by simp
    also have "\<dots> \<le> 2 * (n' mod d') * d" using r by simp
    finally show ?thesis using assms(1) by (simp add: mult.commute)
  qed
  have tie: "d' \<le> 2 * (n' mod d')" if "2 * (n mod d) = d"
  proof -
    have "d * d' = 2 * (n mod d) * d'" using that by simp
    also have "\<dots> \<le> 2 * (n' mod d') * d" using r by simp
    finally show ?thesis using assms(1) by (simp add: mult.commute)
  qed
  show ?thesis using up tie q by (auto simp: round_half_even_def Let_def)
qed

lemma round_ratio_bounds:
  assumes "0 < n div d"
  shows "round_ratio n d \<le> 2 ^ bit_len (n div d)" and "2 ^ (bit_len (n div d) - 1) \<le> round_ratio n d"
proof -
  define q where "q = n div d"
  define k where "k = bit_len q - 53"
  have q: "q < 2 ^ bit_len q" "2 ^ (bit_len q - 1) \<le> q" using bit_len_bounds [of q] assms by (auto simp: q_def)
  have rr: "round_ratio n d = round_half_even (d * 2 ^ k) n * 2 ^ k" by (simp add: round_ratio_def Let_def k_def q_def)
  have split: "n div (d * 2 ^ k) = q div 2 ^ k" by (simp add: q_def div_mult2_eq)
  have len: "2 ^ (bit_len q - k) * 2 ^ k = (2 :: nat) ^ bit_len q"
    by (simp flip: power_add add: k_def)
  have pos: "0 < bit_len q" using assms by (simp add: q_def bit_len.simps [of "n div d"])
  have len': "2 ^ (bit_len q - 1 - k) * 2 ^ k = (2 :: nat) ^ (bit_len q - 1)"
    using pos by (simp flip: power_add add: k_def)
  have up: "q div 2 ^ k < 2 ^ (bit_len q - k)" using q(1) len by (simp add: less_mult_imp_div_less)
  then have "round_half_even (d * 2 ^ k) n \<le> 2 ^ (bit_len q - k)"
    using round_half_even_bounds(2) [of "d * 2 ^ k" n] split by linarith
  then have "round_ratio n d \<le> 2 ^ (bit_len q - k) * 2 ^ k" unfolding rr by simp
  then show "round_ratio n d \<le> 2 ^ bit_len (n div d)" using len by (simp add: q_def)
  have "2 ^ (bit_len q - 1 - k) \<le> q div 2 ^ k" using q(2) len' by (simp add: less_eq_div_iff_mult_less_eq)
  then have "2 ^ (bit_len q - 1 - k) \<le> round_half_even (d * 2 ^ k) n"
    using round_half_even_bounds(1) [of n "d * 2 ^ k"] split by linarith
  then have "2 ^ (bit_len q - 1 - k) * 2 ^ k \<le> round_ratio n d" unfolding rr by simp
  then show "2 ^ (bit_len (n div d) - 1) \<le> round_ratio n d" using len' by (simp add: q_def)
qed

lemma round_ratio_mono:
  assumes "0 < d" and "0 < d'" and "n * d' \<le> n' * d"
  shows "round_ratio n d \<le> round_ratio n' d'"
proof -
  let ?q = "n div d" and ?q' = "n' div d'"
  have "?q * d * d' \<le> n' * d"
    using assms(3) by (meson div_times_less_eq_dividend le_trans mult_le_mono1)
  then have "?q * d' \<le> n'" using assms(1) by (simp add: mult.commute mult.left_commute)
  then have le: "?q \<le> ?q'" using assms(2) by (simp add: less_eq_div_iff_mult_less_eq)
  show ?thesis
  proof (cases "bit_len ?q = bit_len ?q'")
    case True
    let ?k = "bit_len ?q' - 53"
    have "round_half_even (d * 2 ^ ?k) n \<le> round_half_even (d' * 2 ^ ?k) n'"
      using assms by (intro round_half_even_ratio_mono) (simp_all add: mult.assoc [symmetric])
    then show ?thesis by (simp add: round_ratio_def Let_def True)
  next
    case False
    then have less: "bit_len ?q < bit_len ?q'" using bit_len_mono [OF le] by simp
    then have pos: "0 < ?q'" by (auto intro: gr0I)
    have "round_ratio n d \<le> 2 ^ bit_len ?q"
    proof (cases "?q = 0")
      case True
      then show ?thesis using round_half_even_bounds(2) [of d n] by (simp add: round_ratio_def)
    qed (simp add: round_ratio_bounds(1))
    also have "\<dots> \<le> 2 ^ (bit_len ?q' - 1)" using less by (intro power_increasing) simp_all
    also have "\<dots> \<le> round_ratio n' d'" by (rule round_ratio_bounds(2) [OF pos])
    finally show ?thesis .
  qed
qed

text \<open>Values of at most 53 digits are exact.\<close>

lemma round_half_even_mult: "0 < d \<Longrightarrow> round_half_even d (m * d) = m"
  by (simp add: round_half_even_def)

lemma round_ratio_exact:
  assumes "m < 2 ^ 53" and "0 < d"
  shows "round_ratio (m * 2 ^ j * d) d = m * 2 ^ j"
proof -
  define k where "k = bit_len (m * 2 ^ j) - 53"
  have q: "m * 2 ^ j * d div d = m * 2 ^ j" using assms(2) by simp
  have "m * 2 ^ j < 2 ^ 53 * 2 ^ j" using assms(1) by (intro mult_strict_right_mono) simp_all
  then have "bit_len (m * 2 ^ j) \<le> 53 + j" by (intro bit_len_le) (simp only: power_add)
  then obtain i where j: "j = i + k" by (metis k_def add.commute diff_le_mono diff_add_inverse le_add_diff_inverse)
  have "m * 2 ^ j * d = m * 2 ^ i * (d * 2 ^ k)" by (simp only: j power_add mult.assoc mult.commute mult.left_commute)
  then have "round_half_even (d * 2 ^ k) (m * 2 ^ j * d) = m * 2 ^ i"
    using assms(2) round_half_even_mult [of "d * 2 ^ k" "m * 2 ^ i"] by (simp only: mult_pos_pos zero_less_power zero_less_numeral)
  then have "round_ratio (m * 2 ^ j * d) d = m * 2 ^ i * 2 ^ k" by (simp only: round_ratio_def Let_def q k_def [symmetric])
  then show ?thesis by (simp only: j power_add mult.assoc)
qed

section \<open>Values from integers\<close>

lemma f64_max_ge: "j \<le> 2045 \<Longrightarrow> (2 :: int) ^ j \<le> f64_max"
proof -
  assume "j \<le> 2045"
  then have "(2 :: int) ^ j \<le> 2 ^ 2045" by (intro power_increasing) simp_all
  also have "\<dots> \<le> f64_max" unfolding f64_max_def by simp
  finally show ?thesis .
qed

lemma f64_fit_Fin: "0 \<le> z \<Longrightarrow> z \<le> 2 ^ 2045 \<Longrightarrow> f64_fit z = Fin z"
  using f64_max_ge [of 2045] by (simp add: f64_fit_def)

definition nat_units :: "nat \<Rightarrow> nat" where
  "nat_units n = round_ratio (n * ulp) 1"

lemma nat_units_mono: "m \<le> n \<Longrightarrow> nat_units m \<le> nat_units n"
  unfolding nat_units_def by (intro round_ratio_mono) simp_all

lemma nat_units_exact: "n < 2 ^ 53 \<Longrightarrow> nat_units n = n * ulp"
  using round_ratio_exact [of n 1 1074] by (simp only: nat_units_def ulp_def mult_1_right zero_less_one simp_thms)

lemma nat_units_pow: "nat_units (2 ^ j) = 2 ^ j * ulp"
  using round_ratio_exact [of 1 1 "j + 1074"] by (simp only: nat_units_def ulp_def power_add mult_1 mult_1_right zero_less_one) simp

lemma nat_units_bounds:
  assumes "n < 2 ^ 64"
  shows "nat_units n \<le> 2 ^ 64 * ulp" and "0 < n \<Longrightarrow> ulp \<le> nat_units n"
  using nat_units_mono [of n "2 ^ 64"] nat_units_mono [of 1 n] nat_units_pow [of 64] nat_units_exact [of 1] assms
  by simp_all

lemma nat_units_pos: "n < 2 ^ 64 \<Longrightarrow> 0 < n \<Longrightarrow> 0 < nat_units n"
  using nat_units_bounds(2) [of n] by (simp add: ulp_def le_trans Suc_le_eq order_less_le_trans [of 0 "2 ^ 1074"])

lemma ulp_pow: "int (2 ^ j * ulp) = 2 ^ (j + 1074)"
  by (simp add: ulp_def power_add)

lemma nat_units_0 [simp]: "nat_units 0 = 0"
  using nat_units_exact [of 0] by simp

lemma sgn_nat: "sgn (int n) * int (round_ratio n d) = int (round_ratio n d)" if "round_ratio 0 d = 0"
  using that by (cases "n = 0") (simp_all add: sgn_if)

lemma round_ratio_0 [simp]: "round_ratio 0 d = 0"
  by (simp add: round_ratio_def round_half_even_def)

lemma f64_ratio_nat: "f64_ratio (int n) d = f64_fit (int (round_ratio n d))"
  by (simp add: f64_ratio_def sgn_nat)

lemma f64_of_nat_units: "n < 2 ^ 64 \<Longrightarrow> f64_of_nat n = Fin (int (nat_units n))"
proof -
  assume "n < 2 ^ 64"
  then have "int (nat_units n) \<le> 2 ^ (64 + 1074)"
    using nat_units_bounds(1) [of n] ulp_pow [of 64] by (metis of_nat_le_iff)
  also have "\<dots> \<le> (2 :: int) ^ 2045" by (intro power_increasing) simp_all
  finally show ?thesis
    using f64_ratio_nat [of "n * ulp" 1] f64_fit_Fin [of "int (nat_units n)"]
    by (simp add: f64_of_nat_def nat_units_def)
qed

text \<open>The quotient of two integers, which the node uses as a rate: it is finite, monotone, and decides
  strictly only what the exact quotients decide.\<close>

definition f64_rate :: "nat \<Rightarrow> nat \<Rightarrow> f64" where
  "f64_rate a b = f64_div (f64_of_nat a) (f64_of_nat b)"

definition rate_units :: "nat \<Rightarrow> nat \<Rightarrow> nat" where
  "rate_units a b = round_ratio (nat_units a * ulp) (nat_units b)"

lemma rate_units_mono:
  assumes "b < 2 ^ 64" and "0 < b" and "b' < 2 ^ 64" and "0 < b'" and "nat_units a * nat_units b' \<le> nat_units a' * nat_units b"
  shows "rate_units a b \<le> rate_units a' b'"
proof -
  have "nat_units a * ulp * nat_units b' \<le> nat_units a' * ulp * nat_units b"
    using mult_right_mono [OF assms(5), of ulp] by (simp add: mult_ac)
  then show ?thesis unfolding rate_units_def by (intro round_ratio_mono nat_units_pos assms) simp_all
qed

lemma f64_rate_units:
  assumes "a < 2 ^ 64" and "b < 2 ^ 64" and "0 < b"
  shows "f64_rate a b = Fin (int (rate_units a b))"
proof -
  have "nat_units a * nat_units 1 \<le> nat_units (2 ^ 64) * nat_units b"
    using assms nat_units_mono [of a "2 ^ 64"] nat_units_mono [of 1 b] by (intro mult_mono) simp_all
  then have "rate_units a b \<le> rate_units (2 ^ 64) 1" using assms by (intro rate_units_mono) simp_all
  also have "\<dots> = 2 ^ 64 * ulp"
    using round_ratio_exact [of 1 ulp "64 + 1074"] nat_units_pow [of 64] nat_units_exact [of 1]
    by (simp add: rate_units_def ulp_def power_add mult_ac)
  finally have "int (rate_units a b) \<le> 2 ^ (64 + 1074)" using ulp_pow [of 64] by (metis of_nat_le_iff)
  also have "\<dots> \<le> (2 :: int) ^ 2045" by (intro power_increasing) simp_all
  finally show ?thesis
    using f64_ratio_nat [of "nat_units a * ulp" "nat_units b"] f64_fit_Fin [of "int (rate_units a b)"]
      nat_units_pos [of b] assms
    by (simp add: f64_rate_def f64_div_def f64_of_nat_units rate_units_def)
qed

lemma f64_rate_less_exact:
  assumes "a < 2 ^ 53" and "b < 2 ^ 53" and "a' < 2 ^ 53" and "b' < 2 ^ 53" and "0 < b" and "0 < b'"
    and "f64_less (f64_rate a b) (f64_rate a' b')"
  shows "a * b' < a' * b"
proof (rule ccontr)
  assume "\<not> a * b' < a' * b"
  then have "(a' * b) * (ulp * ulp) \<le> (a * b') * (ulp * ulp)" by (intro mult_right_mono) simp_all
  then have "nat_units a' * nat_units b \<le> nat_units a * nat_units b'"
    using assms(1-4) by (simp add: nat_units_exact mult_ac)
  moreover have lt: "a < 2 ^ 64" "b < 2 ^ 64" "a' < 2 ^ 64" "b' < 2 ^ 64" using assms(1-4) by simp_all
  ultimately have "rate_units a' b' \<le> rate_units a b" using assms(5,6) by (intro rate_units_mono) simp_all
  then show False using assms(5-7) lt by (simp add: f64_rate_units f64_less_def)
qed

section \<open>The order\<close>

lemma f64_less_irrefl [simp]: "\<not> f64_less a a"
  by (cases a) (simp_all add: f64_less_def)

lemma f64_less_trans: "f64_less a b \<Longrightarrow> f64_less b c \<Longrightarrow> f64_less a c"
  by (cases a; cases b; cases c) (auto simp: f64_less_def)

lemma f64_less_asym: "f64_less a b \<Longrightarrow> \<not> f64_less b a"
  using f64_less_trans [of a b a] by auto

lemma f64_less_linear: "a \<noteq> NaN \<Longrightarrow> b \<noteq> NaN \<Longrightarrow> f64_less a b \<or> a = b \<or> f64_less b a"
  by (cases a; cases b) (auto simp: f64_less_def)

lemma f64_less_NaN [simp]: "\<not> f64_less NaN b" "\<not> f64_less a NaN"
  by (cases b; cases a; simp add: f64_less_def)+

end
