(* ===== verification/Graph_Conflict.thy ===== *)
theory Graph_Conflict
  imports Disjoint_Union Ieee_Double Ordered_Search Transactions "HOL-Library.Sublist"
begin

text \<open>
  Conflicts and the canonical order of the node's pool: \<open>klomang-node/src/mempool/graph_conflict_ordering.rs\<close> and
  \<open>graph_conflict_ordering_integration.rs\<close>. A transaction hash is its bytes. The index of outputs is keyed by the
  printed hash followed by a zero, so its key is the hash. \<open>serialized_size\<close> of bincode is the argument \<open>tx_size\<close>
  (an error counts as zero), the time in milliseconds is \<open>now\<close>, and the order in which hash maps and sets are
  iterated is \<open>ord\<close>.
\<close>

section \<open>Data\<close>

record transaction_node =
  tn_tx_hash :: bytes
  tn_fee :: u64
  tn_size_bytes :: nat
  tn_arrival_time_ms :: u64
  tn_input_count :: nat
  tn_output_count :: nat
  tn_in_degree :: nat
  tn_out_degree :: nat

definition fee_density :: "transaction_node \<Rightarrow> f64" where
  "fee_density self =
     (if tn_size_bytes self > 0 then f64_rate (unat (tn_fee self)) (tn_size_bytes self) else Fin 0)"

definition age_score :: "transaction_node \<Rightarrow> u64 \<Rightarrow> u64" where
  "age_score self current_time_ms = saturating_sub current_time_ms (tn_arrival_time_ms self)"

definition node_priority_score :: "transaction_node \<Rightarrow> u64 \<Rightarrow> f64 \<Rightarrow> f64 \<Rightarrow> f64" where
  "node_priority_score self current_time_ms fee_weight age_weight =
     (let fee_density = fee_density self;
          age = f64_of_nat (unat (age_score self current_time_ms))
      in f64_add (f64_mul fee_density fee_weight) (f64_mul (f64_div age (f64_lit 1000 1)) age_weight))"

record canonical_ordering_result =
  ordered_hashes :: "bytes list"
  layer_count :: nat
  parallel_groups :: "bytes list list"
  conflict_count :: nat

record graph_conflict_engine =
  utxo_index :: "(hash, bytes list) fmap"
  gc_nodes :: "(bytes, transaction_node) fmap"
  conflict_map :: "(bytes, bytes list) fmap"
  dependency_map :: "(bytes, bytes list) fmap"
  cached_ordering :: "canonical_ordering_result option"
  fee_density_weight :: f64
  gc_age_weight :: f64

definition graph_conflict_engine_new :: graph_conflict_engine where
  "graph_conflict_engine_new = \<lparr>utxo_index = fmempty, gc_nodes = fmempty, conflict_map = fmempty, dependency_map = fmempty,
     cached_ordering = None, fee_density_weight = f64_lit 7 10, gc_age_weight = f64_lit 3 10\<rparr>"

section \<open>Registering\<close>

text \<open>\<open>map.entry(k).or_insert_with(Vec::new).push(x)\<close>\<close>

definition push_to :: "'k \<Rightarrow> 'v \<Rightarrow> ('k, 'v list) fmap \<Rightarrow> ('k, 'v list) fmap" where
  "push_to k x m = fmupd k ((case fmlookup m k of None \<Rightarrow> [] | Some xs \<Rightarrow> xs) @ [x]) m"

definition claimants_of :: "(hash, bytes list) fmap \<Rightarrow> hash \<Rightarrow> bytes list" where
  "claimants_of uidx k = (case fmlookup uidx k of None \<Rightarrow> [] | Some cs \<Rightarrow> cs)"

definition record_conflict :: "bytes \<Rightarrow> bytes \<Rightarrow> (bytes, bytes list) fmap \<Rightarrow> (bytes, bytes list) fmap" where
  "record_conflict tx_hash claimant conflicts = push_to claimant tx_hash (push_to tx_hash claimant conflicts)"

fun claim_loop ::
  "bytes \<Rightarrow> tx_input list \<Rightarrow> (hash, bytes list) fmap \<Rightarrow> (bytes, bytes list) fmap \<Rightarrow> bytes list
     \<Rightarrow> (hash, bytes list) fmap \<times> (bytes, bytes list) fmap \<times> bytes list" where
  "claim_loop tx_hash [] uidx conflicts detected = (uidx, conflicts, detected)"
| "claim_loop tx_hash (i # ins) uidx conflicts detected =
     (let others = filter (\<lambda>c. c \<noteq> tx_hash) (claimants_of uidx (prev_tx i))
      in claim_loop tx_hash ins (push_to (prev_tx i) tx_hash uidx)
           (fold (record_conflict tx_hash) others conflicts) (detected @ others))"

definition gc_register_transaction ::
  "(transaction \<Rightarrow> nat) \<Rightarrow> graph_conflict_engine \<Rightarrow> transaction \<Rightarrow> bytes \<Rightarrow> u64 \<Rightarrow> u64 \<Rightarrow> graph_conflict_engine \<times> (string + bytes list)" where
  "gc_register_transaction tx_size self tx tx_hash fee arrival_time_ms =
     (let node = \<lparr>tn_tx_hash = tx_hash, tn_fee = fee, tn_size_bytes = tx_size tx, tn_arrival_time_ms = arrival_time_ms,
            tn_input_count = length (inputs tx), tn_output_count = length (outputs tx), tn_in_degree = 0, tn_out_degree = 0\<rparr>;
          (uidx, conflicts, detected) = claim_loop tx_hash (inputs tx) (utxo_index self) (conflict_map self) []
      in (self\<lparr>gc_nodes := fmupd tx_hash node (gc_nodes self), utxo_index := uidx, conflict_map := conflicts,
            cached_ordering := None\<rparr>, Inr detected))"

definition detect_double_spend :: "graph_conflict_engine \<Rightarrow> bytes \<Rightarrow> string + bool" where
  "detect_double_spend self tx_hash =
     (case fmlookup (conflict_map self) tx_hash of None \<Rightarrow> Inr False | Some conflicting \<Rightarrow> Inr (conflicting \<noteq> []))"

definition get_conflicts :: "graph_conflict_engine \<Rightarrow> bytes \<Rightarrow> bytes list" where
  "get_conflicts self tx_hash = (case fmlookup (conflict_map self) tx_hash of None \<Rightarrow> [] | Some cs \<Rightarrow> cs)"

definition gc_add_dependency :: "graph_conflict_engine \<Rightarrow> bytes \<Rightarrow> bytes \<Rightarrow> graph_conflict_engine \<times> (string + unit)" where
  "gc_add_dependency self parent child =
     (self\<lparr>dependency_map := push_to child parent (dependency_map self), cached_ordering := None\<rparr>, Inr ())"

section \<open>The canonical order\<close>

definition partial_cmp :: "f64 \<Rightarrow> f64 \<Rightarrow> cmp option" where
  "partial_cmp a b = (if a = NaN \<or> b = NaN then None
     else Some (if f64_less a b then Less else if f64_less b a then Greater else Equal))"

definition node_score :: "graph_conflict_engine \<Rightarrow> u64 \<Rightarrow> bytes \<Rightarrow> f64" where
  "node_score self now h = (case fmlookup (gc_nodes self) h of None \<Rightarrow> NaN
     | Some node \<Rightarrow> node_priority_score node now (fee_density_weight self) (gc_age_weight self))"

definition queue_cmp :: "graph_conflict_engine \<Rightarrow> u64 \<Rightarrow> bytes \<Rightarrow> bytes \<Rightarrow> cmp" where
  "queue_cmp self now a b =
     cmp_then (case partial_cmp (node_score self now b) (node_score self now a) of None \<Rightarrow> Equal | Some c \<Rightarrow> c) (cmp_of b a)"

text \<open>One dependent of a transaction that was taken: its degree goes down, and at zero it is pushed.\<close>

definition relax_dependent ::
  "(bytes, bytes list) fmap \<Rightarrow> bytes \<Rightarrow> bytes \<Rightarrow> (bytes, nat) fmap \<times> bytes list \<Rightarrow> (bytes, nat) fmap \<times> bytes list" where
  "relax_dependent deps tx_hash dependent st =
     (if tx_hash \<in> set (succs_of deps dependent) then
        (case fmlookup (fst st) dependent of
           None \<Rightarrow> st
         | Some degree \<Rightarrow> (fmupd dependent (degree - 1) (fst st), if degree - 1 = 0 then snd st @ [dependent] else snd st))
      else st)"

definition relax_dependents ::
  "set_order \<Rightarrow> (bytes, bytes list) fmap \<Rightarrow> bytes \<Rightarrow> (bytes, nat) fmap \<Rightarrow> bytes list \<Rightarrow> (bytes, nat) fmap \<times> bytes list" where
  "relax_dependents ord deps tx_hash in_degree queue =
     fold (relax_dependent deps tx_hash) (ord (fmdom deps)) (in_degree, queue)"

lemma relax_dependent_dom [simp]: "fmdom (fst (relax_dependent deps h d st)) = fmdom (fst st)"
  by (auto simp: relax_dependent_def dest: fmdomI split: option.splits)

lemma relax_dependent_queue:
  "set (snd (relax_dependent deps h d st)) \<subseteq> set (snd st) \<union> fset (fmdom (fst st))"
  by (auto simp: relax_dependent_def dest: fmdomI split: option.splits)

lemma fold_relax_dom:
  "fmdom (fst (fold (relax_dependent deps h) ds st)) = fmdom (fst st) \<and>
   set (snd (fold (relax_dependent deps h) ds st)) \<subseteq> set (snd st) \<union> fset (fmdom (fst st))"
proof (induction ds arbitrary: st)
  case (Cons d ds)
  show ?case using Cons [of "relax_dependent deps h d st"] relax_dependent_queue [of deps h d st] by auto
qed simp

lemma relax_dependents_dom:
  assumes "relax_dependents ord deps h in_degree queue = (in_degree', queue')"
  shows "fmdom in_degree' = fmdom in_degree" and "set queue' \<subseteq> set queue \<union> fset (fmdom in_degree)"
  using fold_relax_dom [of deps h "ord (fmdom deps)" "(in_degree, queue)"] assms by (simp_all add: relax_dependents_def)

text \<open>The inner loop: it ends only when the queue, used as a stack, is empty.\<close>

function drain_queue ::
  "set_order \<Rightarrow> (bytes, bytes list) fmap \<Rightarrow> (bytes, nat) fmap \<Rightarrow> bytes fset \<Rightarrow> bytes list \<Rightarrow> bytes list
     \<Rightarrow> (bytes, nat) fmap \<times> bytes fset \<times> bytes list" where
  "drain_queue ord deps in_degree visited taken queue =
     (if queue = [] then (in_degree, visited, taken)
      else
        let tx_hash = last queue; queue = butlast queue in
        if tx_hash |\<in>| visited then drain_queue ord deps in_degree visited taken queue
        else case relax_dependents ord deps tx_hash in_degree queue of
          (in_degree', queue') \<Rightarrow> drain_queue ord deps in_degree' (finsert tx_hash visited) (taken @ [tx_hash]) queue')"
  by pat_completeness auto
termination
proof (relation "measures [\<lambda>(ord, deps, in_degree, visited, taken, queue). card (fset (fmdom in_degree) \<union> set queue - fset visited),
    \<lambda>(ord, deps, in_degree, visited, taken, queue). length queue]", goal_cases)
  case 1
  then show ?case by simp
next
  case (2 ord deps in_degree visited taken queue x xa)
  have "card (fset (fmdom in_degree) \<union> set (butlast queue) - fset visited) \<le> card (fset (fmdom in_degree) \<union> set queue - fset visited)"
    by (intro card_mono) (auto dest: in_set_butlastD)
  then show ?case using 2 by auto
next
  case (3 ord deps in_degree visited taken queue x xa in_degree' queue')
  then have r: "relax_dependents ord deps (last queue) in_degree (butlast queue) = (in_degree', queue')" by simp
  have "fset (fmdom in_degree') \<union> set queue' - fset (finsert (last queue) visited) \<subset> fset (fmdom in_degree) \<union> set queue - fset visited"
    using relax_dependents_dom [OF r] 3 by (auto dest: in_set_butlastD)
  then have "card (fset (fmdom in_degree') \<union> set queue' - fset (finsert (last queue) visited)) < card (fset (fmdom in_degree) \<union> set queue - fset visited)"
    by (intro psubset_card_mono) auto
  then show ?case using 3 by auto
qed

declare drain_queue.simps [simp del]

text \<open>The inner loop leaves the queue empty, so the outer loop runs at most once and sorts an empty queue behind it.\<close>

definition initial_degrees :: "graph_conflict_engine \<Rightarrow> (bytes, nat) fmap" where
  "initial_degrees self = fmmap_keys (\<lambda>h _. length (succs_of (dependency_map self) h)) (gc_nodes self)"

definition initial_queue :: "set_order \<Rightarrow> u64 \<Rightarrow> graph_conflict_engine \<Rightarrow> bytes list" where
  "initial_queue ord now self =
     sort_by (queue_cmp self now) (filter (\<lambda>h. fmlookup (initial_degrees self) h = Some 0) (ord (fmdom (initial_degrees self))))"

definition get_conflict_count :: "graph_conflict_engine \<Rightarrow> nat" where
  "get_conflict_count self = fmsum length (conflict_map self) div 2"

definition compute_canonical_order ::
  "set_order \<Rightarrow> u64 \<Rightarrow> graph_conflict_engine \<Rightarrow> graph_conflict_engine \<times> (string + canonical_ordering_result)" where
  "compute_canonical_order ord now self =
     (case cached_ordering self of
        Some cached \<Rightarrow> (self, Inr cached)
      | None \<Rightarrow>
          if fmdom (gc_nodes self) = {||}
          then (self, Inr \<lparr>ordered_hashes = [], layer_count = 0, parallel_groups = [], conflict_count = 0\<rparr>)
          else
            let (_, _, taken) = drain_queue ord (dependency_map self) (initial_degrees self) {||} [] (initial_queue ord now self);
                groups = (if taken = [] then [] else [taken]);
                result = \<lparr>ordered_hashes = taken, layer_count = length groups, parallel_groups = groups,
                  conflict_count = get_conflict_count self\<rparr>
            in (self\<lparr>cached_ordering := Some result\<rparr>, Inr result))"

section \<open>Groups, removal and the rest\<close>

fun union_all :: "(bytes \<times> bytes) list \<Rightarrow> disjoint_set_union \<Rightarrow> disjoint_set_union option" where
  "union_all [] dsu = Some dsu"
| "union_all ((a, b) # es) dsu = Option.bind (dsu_union dsu a b) (union_all es)"

definition conflict_pairs :: "set_order \<Rightarrow> graph_conflict_engine \<Rightarrow> (bytes \<times> bytes) list" where
  "conflict_pairs ord self = concat (map (\<lambda>tx. map (Pair tx) (succs_of (conflict_map self) tx)) (ord (fmdom (conflict_map self))))"

definition get_parallel_execution_groups :: "set_order \<Rightarrow> graph_conflict_engine \<Rightarrow> (string + bytes list list) option" where
  "get_parallel_execution_groups ord self =
     (if fmdom (gc_nodes self) = {||} then Some (Inr [])
      else
        Option.bind (union_all (conflict_pairs ord self) (fold (\<lambda>h dsu. make_set dsu h) (ord (fmdom (gc_nodes self))) dsu_new)) (\<lambda>dsu.
          Option.bind (get_components ord dsu) (\<lambda>(_, components). Some (Inr (component_lists ord components)))))"

fun push_dependents ::
  "(bytes, bytes list) fmap \<Rightarrow> bytes \<Rightarrow> bytes list \<Rightarrow> bytes list \<Rightarrow> bytes list \<Rightarrow> bytes list \<times> bytes list" where
  "push_dependents deps current [] to_remove queue = (to_remove, queue)"
| "push_dependents deps current (d # ds) to_remove queue =
     (if current \<in> set (succs_of deps d) \<and> d \<notin> set to_remove
      then push_dependents deps current ds (to_remove @ [d]) (queue @ [d])
      else push_dependents deps current ds to_remove queue)"

lemma push_dependents_spec:
  "\<exists>new. push_dependents deps current ds to_remove queue = (to_remove @ new, queue @ new) \<and> distinct new \<and>
     set new = {d \<in> set ds. current \<in> set (succs_of deps d)} - set to_remove"
proof (induction ds arbitrary: to_remove queue)
  case (Cons d ds)
  show ?case
  proof (cases "current \<in> set (succs_of deps d) \<and> d \<notin> set to_remove")
    case True
    obtain new where "push_dependents deps current ds (to_remove @ [d]) (queue @ [d]) = ((to_remove @ [d]) @ new, (queue @ [d]) @ new)"
      "distinct new" "set new = {d \<in> set ds. current \<in> set (succs_of deps d)} - set (to_remove @ [d])"
      using Cons [of "to_remove @ [d]" "queue @ [d]"] by blast
    then show ?thesis using True by (intro exI [of _ "d # new"]) auto
  next
    case False
    then show ?thesis using Cons [of to_remove queue] by auto
  qed
qed simp

lemma succs_of_dom: "y \<in> set (succs_of g x) \<Longrightarrow> x |\<in>| fmdom g"
  by (cases "fmlookup g x") (auto simp: succs_of_def intro: fmdomI)

function cascade_loop :: "set_order \<Rightarrow> (bytes, bytes list) fmap \<Rightarrow> bytes list \<Rightarrow> bytes list \<Rightarrow> bytes list" where
  "cascade_loop ord deps to_remove queue =
     (if queue = [] then to_remove
      else case push_dependents deps (last queue) (ord (fmdom deps)) to_remove (butlast queue) of
        (to_remove', queue') \<Rightarrow> cascade_loop ord deps to_remove' queue')"
  by pat_completeness auto
termination
proof (relation "measure (\<lambda>(ord, deps, to_remove, queue). card (fset (fmdom deps) - set to_remove) + length queue)", goal_cases)
  case 1
  then show ?case by simp
next
  case (2 ord deps to_remove queue to_remove' queue')
  obtain new where p: "push_dependents deps (last queue) (ord (fmdom deps)) to_remove (butlast queue) = (to_remove @ new, butlast queue @ new)"
    "distinct new" "set new = {d \<in> set (ord (fmdom deps)). last queue \<in> set (succs_of deps d)} - set to_remove"
    using push_dependents_spec by blast
  have "set new \<subseteq> fset (fmdom deps)" using p(3) succs_of_dom by fastforce
  then have split: "fset (fmdom deps) - set to_remove = (fset (fmdom deps) - set (to_remove @ new)) \<union> set new" using p(3) by auto
  have "card (fset (fmdom deps) - set to_remove) = card (fset (fmdom deps) - set (to_remove @ new)) + card (set new)"
    unfolding split by (rule card_Un_disjoint) auto
  then have "card (fset (fmdom deps) - set to_remove) = card (fset (fmdom deps) - set (to_remove @ new)) + length new"
    using distinct_card [OF p(2)] by simp
  moreover have "length (butlast queue) < length queue" using 2 by simp
  ultimately show ?case using 2 p(1) by simp
qed

declare cascade_loop.simps [simp del]

definition remove_one :: "bytes list \<Rightarrow> bytes \<Rightarrow> graph_conflict_engine \<Rightarrow> graph_conflict_engine" where
  "remove_one to_remove tx self =
     self\<lparr>gc_nodes := fmdrop tx (gc_nodes self), dependency_map := fmdrop tx (dependency_map self),
       conflict_map := fmdrop tx (conflict_map self),
       utxo_index := fmmap (filter (\<lambda>h. h \<notin> set to_remove)) (fmmap (filter (\<lambda>h. h \<noteq> tx)) (utxo_index self))\<rparr>"

definition gc_remove_transaction_cascade ::
  "set_order \<Rightarrow> graph_conflict_engine \<Rightarrow> bytes \<Rightarrow> graph_conflict_engine \<times> (string + bytes list)" where
  "gc_remove_transaction_cascade ord self tx_hash =
     (let to_remove = cascade_loop ord (dependency_map self) [tx_hash] [tx_hash]
      in ((fold (remove_one to_remove) to_remove self)\<lparr>cached_ordering := None\<rparr>, Inr to_remove))"

definition gc_clear :: "graph_conflict_engine \<Rightarrow> graph_conflict_engine" where
  "gc_clear self = self\<lparr>utxo_index := fmempty, gc_nodes := fmempty, conflict_map := fmempty, dependency_map := fmempty,
     cached_ordering := None\<rparr>"

definition gc_get_node :: "graph_conflict_engine \<Rightarrow> bytes \<Rightarrow> transaction_node option" where
  "gc_get_node self tx_hash = fmlookup (gc_nodes self) tx_hash"

definition gc_transaction_count :: "graph_conflict_engine \<Rightarrow> nat" where
  "gc_transaction_count self = size (fmdom (gc_nodes self))"

definition set_priority_weights :: "graph_conflict_engine \<Rightarrow> f64 \<Rightarrow> f64 \<Rightarrow> graph_conflict_engine" where
  "set_priority_weights self fee_weight age_weight =
     (let fw = f64_abs fee_weight; aw = f64_abs age_weight; total = f64_add fw aw;
          (fw, aw) = (if f64_less (Fin 0) total then (f64_div fw total, f64_div aw total) else (fw, aw))
      in self\<lparr>fee_density_weight := fw, gc_age_weight := aw, cached_ordering := None\<rparr>)"

section \<open>The integration layer\<close>

record conflict_ordering_config =
  validate_utxo_state_enabled :: bool
  enable_cascade_validation :: bool
  max_ordering_batch :: nat
  cfg_fee_weight :: f64
  cfg_age_weight :: f64

definition conflict_ordering_config_default :: conflict_ordering_config where
  "conflict_ordering_config_default = \<lparr>validate_utxo_state_enabled = True, enable_cascade_validation = True, max_ordering_batch = 5000,
     cfg_fee_weight = f64_lit 7 10, cfg_age_weight = f64_lit 3 10\<rparr>"

record utxo_validation_result =
  uv_is_valid :: bool
  uv_unspent_inputs :: nat
  uv_conflicting_outputs :: nat
  validation_errors :: "string list"

record block_building_result =
  bb_transactions :: "bytes list"
  parallel_layers :: "bytes list list"
  bb_total_fees :: u64
  bb_total_weight :: nat
  excluded_transactions :: "bytes list"

record conflict_detection_result =
  cd_tx_hash :: bytes
  detected_conflicts :: "bytes list"
  has_double_spend :: bool
  cd_is_valid :: bool

record cascade_removal_result =
  primary_tx :: bytes
  removed_dependents :: "bytes list"
  total_removed :: nat

text \<open>Whether a database is attached is all the code uses of it.\<close>

record conflict_ordering_integration =
  ci_engine :: graph_conflict_engine
  ci_config :: conflict_ordering_config
  has_kv_store :: bool

definition conflict_ordering_integration_new :: "conflict_ordering_config \<Rightarrow> bool \<Rightarrow> conflict_ordering_integration" where
  "conflict_ordering_integration_new config kv =
     \<lparr>ci_engine = set_priority_weights graph_conflict_engine_new (cfg_fee_weight config) (cfg_age_weight config),
      ci_config = config, has_kv_store = kv\<rparr>"

definition ci_register_transaction ::
  "(transaction \<Rightarrow> nat) \<Rightarrow> conflict_ordering_integration \<Rightarrow> transaction \<Rightarrow> bytes \<Rightarrow> u64 \<Rightarrow> u64
     \<Rightarrow> conflict_ordering_integration \<times> (string + conflict_detection_result)" where
  "ci_register_transaction tx_size self tx tx_hash fee arrival_time_ms =
     (case gc_register_transaction tx_size (ci_engine self) tx tx_hash fee arrival_time_ms of
        (engine, r) \<Rightarrow> (self\<lparr>ci_engine := engine\<rparr>,
          bind_res r (\<lambda>conflicts. bind_res (detect_double_spend engine tx_hash) (\<lambda>double_spend.
            Inr \<lparr>cd_tx_hash = tx_hash, detected_conflicts = conflicts, has_double_spend = double_spend, cd_is_valid = \<not> double_spend\<rparr>))))"

definition validate_input_existence :: "(hash \<Rightarrow> bytes option) \<Rightarrow> hash \<Rightarrow> string + unit" where
  "validate_input_existence ser tx_hash = (case ser tx_hash of None \<Rightarrow> Inl ''Serialization error: {}'' | Some _ \<Rightarrow> Inr ())"

definition validate_utxo_state ::
  "(hash \<Rightarrow> bytes option) \<Rightarrow> conflict_ordering_integration \<Rightarrow> transaction \<Rightarrow> string + utxo_validation_result" where
  "validate_utxo_state ser self tx =
     (if \<not> validate_utxo_state_enabled (ci_config self)
      then Inr \<lparr>uv_is_valid = True, uv_unspent_inputs = length (inputs tx), uv_conflicting_outputs = 0, validation_errors = []\<rparr>
      else
        let errors = (if has_kv_store self
              then map (\<lambda>_. ''UTXO validation error: {}'') (filter (\<lambda>i. \<not> is_ok (validate_input_existence ser (prev_tx i))) (inputs tx))
              else [])
        in Inr \<lparr>uv_is_valid = (errors = []), uv_unspent_inputs = length (inputs tx), uv_conflicting_outputs = 0, validation_errors = errors\<rparr>)"

fun build_loop ::
  "graph_conflict_engine \<Rightarrow> nat \<Rightarrow> bytes list \<Rightarrow> u64 \<Rightarrow> nat \<Rightarrow> bytes list \<Rightarrow> bytes list \<Rightarrow> bytes list \<times> u64 \<times> nat \<times> bytes list" where
  "build_loop engine max_block_weight txs fees weight excluded [] = (txs, fees, weight, excluded)"
| "build_loop engine max_block_weight txs fees weight excluded (h # hs) =
     (if weight \<ge> max_block_weight then (txs, fees, weight, excluded)
      else if \<exists>c\<in>set (get_conflicts engine h). c \<in> set txs
      then build_loop engine max_block_weight txs fees weight (excluded @ [h]) hs
      else case gc_get_node engine h of
        None \<Rightarrow> build_loop engine max_block_weight txs fees weight excluded hs
      | Some node \<Rightarrow>
          if weight + tn_size_bytes node \<le> max_block_weight
          then build_loop engine max_block_weight (txs @ [h]) (fees + tn_fee node) (weight + tn_size_bytes node) excluded hs
          else build_loop engine max_block_weight txs fees weight excluded hs)"

definition build_block_canonical ::
  "set_order \<Rightarrow> u64 \<Rightarrow> conflict_ordering_integration \<Rightarrow> nat \<Rightarrow> conflict_ordering_integration \<times> (string + block_building_result)" where
  "build_block_canonical ord now self max_block_weight =
     (case compute_canonical_order ord now (ci_engine self) of
        (engine, r) \<Rightarrow> (self\<lparr>ci_engine := engine\<rparr>, bind_res r (\<lambda>ordering.
          let (txs, fees, weight, excluded) = build_loop engine max_block_weight [] 0 0 [] (ordered_hashes ordering)
          in Inr \<lparr>bb_transactions = txs,
               parallel_layers = filter (\<lambda>layer. \<exists>tx\<in>set layer. tx \<in> set txs) (parallel_groups ordering),
               bb_total_fees = fees, bb_total_weight = weight, excluded_transactions = excluded\<rparr>)))"

definition ci_remove_transaction_cascade ::
  "set_order \<Rightarrow> conflict_ordering_integration \<Rightarrow> bytes \<Rightarrow> conflict_ordering_integration \<times> (string + cascade_removal_result)" where
  "ci_remove_transaction_cascade ord self tx_hash =
     (case gc_remove_transaction_cascade ord (ci_engine self) tx_hash of
        (engine, r) \<Rightarrow> (self\<lparr>ci_engine := engine\<rparr>, bind_res r (\<lambda>removed.
          Inr \<lparr>primary_tx = tx_hash, removed_dependents = drop 1 removed, total_removed = length removed\<rparr>)))"

section \<open>The order is topological\<close>

definition satisfied :: "(bytes, bytes list) fmap \<Rightarrow> bytes set \<Rightarrow> bytes \<Rightarrow> bool" where
  "satisfied deps V d \<longleftrightarrow> distinct (succs_of deps d) \<and> set (succs_of deps d) \<subseteq> V"

definition open_degree :: "(bytes, bytes list) fmap \<Rightarrow> bytes set \<Rightarrow> bytes \<Rightarrow> nat" where
  "open_degree deps V d = length (succs_of deps d) - card (V \<inter> set (succs_of deps d))"

lemma card_parents: "card (V \<inter> set ps) \<le> card (set ps)" "card (set ps) \<le> length ps"
  by (auto intro: card_mono card_length)

lemma open_degree_0: "open_degree deps V d = 0 \<longleftrightarrow> satisfied deps V d"
proof
  let ?ps = "succs_of deps d"
  assume "open_degree deps V d = 0"
  then have "length ?ps \<le> card (V \<inter> set ?ps)" by (simp add: open_degree_def)
  then have eq: "card (V \<inter> set ?ps) = card (set ?ps)" "card (set ?ps) = length ?ps"
    using card_parents(1) [of V ?ps] card_parents(2) [of ?ps] by linarith+
  then have "V \<inter> set ?ps = set ?ps" by (intro card_subset_eq) simp_all
  with eq(2) show "satisfied deps V d" by (auto simp: satisfied_def intro: card_distinct)
next
  assume "satisfied deps V d"
  then have "V \<inter> set (succs_of deps d) = set (succs_of deps d)" "card (set (succs_of deps d)) = length (succs_of deps d)"
    by (auto simp: satisfied_def distinct_card)
  then show "open_degree deps V d = 0" by (simp add: open_degree_def)
qed

lemma open_degree_insert:
  assumes "h \<notin> V"
  shows "open_degree deps (insert h V) d = (if h \<in> set (succs_of deps d) then open_degree deps V d - 1 else open_degree deps V d)"
proof (cases "h \<in> set (succs_of deps d)")
  case True
  then have "insert h V \<inter> set (succs_of deps d) = insert h (V \<inter> set (succs_of deps d))" by auto
  then have "card (insert h V \<inter> set (succs_of deps d)) = Suc (card (V \<inter> set (succs_of deps d)))" using assms by simp
  then show ?thesis using True by (simp add: open_degree_def)
qed (simp add: open_degree_def)

lemma fold_relax:
  assumes "distinct ds"
  shows "\<exists>in_degree'. fold (relax_dependent deps h) ds (in_degree, queue) =
      (in_degree', queue @ filter (\<lambda>d. h \<in> set (succs_of deps d) \<and> (\<exists>n. fmlookup in_degree d = Some n \<and> n - 1 = 0)) ds) \<and>
    (\<forall>d. fmlookup in_degree' d =
       (if d \<in> set ds \<and> h \<in> set (succs_of deps d) then map_option (\<lambda>n. n - 1) (fmlookup in_degree d) else fmlookup in_degree d))"
  using assms
proof (induction ds arbitrary: in_degree queue)
  case (Cons d ds)
  show ?case
  proof (cases "h \<in> set (succs_of deps d) \<and> d |\<in>| fmdom in_degree")
    case False
    then have step: "relax_dependent deps h d (in_degree, queue) = (in_degree, queue)"
      by (auto simp: relax_dependent_def fmdom_notD split: option.splits)
    have "h \<in> set (succs_of deps d) \<Longrightarrow> fmlookup in_degree d = None" using False by (auto simp: fmdom_notD)
    then show ?thesis using Cons.IH [of in_degree queue] Cons.prems by (auto simp: step)
  next
    case True
    then obtain n where n: "fmlookup in_degree d = Some n" by auto
    let ?deg = "fmupd d (n - 1) in_degree" and ?q = "if n - 1 = 0 then queue @ [d] else queue"
    have step: "relax_dependent deps h d (in_degree, queue) = (?deg, ?q)" using True n by (simp add: relax_dependent_def)
    obtain deg' where IH: "fold (relax_dependent deps h) ds (?deg, ?q) =
        (deg', ?q @ filter (\<lambda>d. h \<in> set (succs_of deps d) \<and> (\<exists>n. fmlookup ?deg d = Some n \<and> n - 1 = 0)) ds)"
      "\<forall>e. fmlookup deg' e =
         (if e \<in> set ds \<and> h \<in> set (succs_of deps e) then map_option (\<lambda>n. n - 1) (fmlookup ?deg e) else fmlookup ?deg e)"
      using Cons.IH [of ?deg ?q] Cons.prems by fastforce
    have flt: "filter (\<lambda>d. h \<in> set (succs_of deps d) \<and> (\<exists>n. fmlookup ?deg d = Some n \<and> n - 1 = 0)) ds =
        filter (\<lambda>d. h \<in> set (succs_of deps d) \<and> (\<exists>n. fmlookup in_degree d = Some n \<and> n - 1 = 0)) ds"
      using Cons.prems by (intro filter_cong) auto
    show ?thesis using IH(1) [unfolded flt] IH(2) Cons.prems True n by (intro exI [of _ deg']) (auto simp: step)
  qed
qed simp

definition drain_inv ::
  "(bytes, bytes list) fmap \<Rightarrow> bytes set \<Rightarrow> bytes list \<Rightarrow> (bytes, nat) fmap \<Rightarrow> bytes fset \<Rightarrow> bytes list \<Rightarrow> bytes list \<Rightarrow> bool" where
  "drain_inv deps N start in_degree visited taken queue \<longleftrightarrow>
     set taken = fset visited \<and> distinct taken \<and>
     (\<forall>d. fmlookup in_degree d = (if d \<in> N then Some (open_degree deps (fset visited) d) else None)) \<and>
     fset visited \<union> set queue = {d \<in> N. satisfied deps (fset visited) d} \<and>
     (\<forall>xs h ys. taken = xs @ h # ys \<longrightarrow> set (succs_of deps h) \<subseteq> set xs) \<and>
     filter (\<lambda>x. x \<in> set start) taken @ rev (filter (\<lambda>x. x \<in> set start) queue) = rev start"

lemma drain_inv_skip:
  assumes "drain_inv deps N start in_degree visited taken (q @ [h])" and "h |\<in>| visited" and "distinct start"
  shows "drain_inv deps N start in_degree visited taken q"
proof -
  have "h \<notin> set start"
  proof
    assume "h \<in> set start"
    then have eq: "filter (\<lambda>x. x \<in> set start) taken @ h # rev (filter (\<lambda>x. x \<in> set start) q) = rev start"
      using assms(1) by (simp add: drain_inv_def)
    have "distinct (filter (\<lambda>x. x \<in> set start) taken @ h # rev (filter (\<lambda>x. x \<in> set start) q))"
      unfolding eq using assms(3) by simp
    moreover have "h \<in> set (filter (\<lambda>x. x \<in> set start) taken)" using assms(1,2) \<open>h \<in> set start\<close> by (simp add: drain_inv_def)
    ultimately show False by simp
  qed
  then show ?thesis using assms(1,2) by (auto simp: drain_inv_def)
qed

lemma drain_inv_take:
  assumes "drain_inv deps N start in_degree visited taken (q @ [h])" and "h |\<notin>| visited" and "lists_set ord"
    and "relax_dependents ord deps h in_degree q = (in_degree', q')" and "\<forall>x\<in>set start. succs_of deps x = []"
  shows "drain_inv deps N start in_degree' (finsert h visited) (taken @ [h]) q'"
proof -
  let ?V = "fset visited" and ?ds = "ord (fmdom deps)"
  have ds: "distinct ?ds" "set ?ds = fset (fmdom deps)" using assms(3) by (auto simp: lists_set_def)
  have inv: "set taken = ?V" "distinct taken" "\<And>d. fmlookup in_degree d = (if d \<in> N then Some (open_degree deps ?V d) else None)"
    "?V \<union> insert h (set q) = {d \<in> N. satisfied deps ?V d}" "\<And>xs g ys. taken = xs @ g # ys \<Longrightarrow> set (succs_of deps g) \<subseteq> set xs"
    "filter (\<lambda>x. x \<in> set start) taken @ rev (filter (\<lambda>x. x \<in> set start) (q @ [h])) = rev start"
    using assms(1) by (auto simp: drain_inv_def)
  define new where "new = filter (\<lambda>d. h \<in> set (succs_of deps d) \<and> (\<exists>n. fmlookup in_degree d = Some n \<and> n - 1 = 0)) ?ds"
  obtain deg' where r: "fold (relax_dependent deps h) ?ds (in_degree, q) = (deg', q @ new)"
    "\<And>d. fmlookup deg' d = (if d \<in> set ?ds \<and> h \<in> set (succs_of deps d) then map_option (\<lambda>n. n - 1) (fmlookup in_degree d) else fmlookup in_degree d)"
    using fold_relax [OF ds(1)] unfolding new_def by blast
  have q': "in_degree' = deg'" "q' = q @ new" using assms(4) r(1) by (simp_all add: relax_dependents_def)
  have deg: "fmlookup deg' d = (if d \<in> N then Some (open_degree deps (insert h ?V) d) else None)" for d
    using r(2) inv(3) open_degree_insert [of h ?V deps d] assms(2) succs_of_dom [of h deps d] ds(2) by auto
  have new: "set new = {d \<in> N. h \<in> set (succs_of deps d) \<and> satisfied deps (insert h ?V) d}"
    using inv(3) open_degree_insert [of h ?V deps] assms(2) succs_of_dom [of h deps] ds(2)
    by (auto simp: new_def simp flip: open_degree_0 split: if_splits)
  have old: "satisfied deps (insert h ?V) d \<longleftrightarrow> satisfied deps ?V d" if "h \<notin> set (succs_of deps d)" for d
    using that by (auto simp: satisfied_def)
  have "satisfied deps ?V d \<Longrightarrow> satisfied deps (insert h ?V) d" for d by (auto simp: satisfied_def)
  then have all: "insert h ?V \<union> set (q @ new) = {d \<in> N. satisfied deps (insert h ?V) d}"
    using inv(4) new old by (auto simp: set_eq_iff)
  have "h \<in> {d \<in> N. satisfied deps ?V d}" using inv(4) by blast
  then have "set (succs_of deps h) \<subseteq> set taken" by (auto simp: satisfied_def inv(1))
  then have topo: "taken @ [h] = xs @ g # ys \<Longrightarrow> set (succs_of deps g) \<subseteq> set xs" for xs g ys
    using inv(5) by (cases ys rule: rev_cases) auto
  have "x \<notin> set start" if "x \<in> set new" for x using that new assms(5) by fastforce
  then have "filter (\<lambda>x. x \<in> set start) new = []" by (simp add: filter_empty_conv)
  then have order: "filter (\<lambda>x. x \<in> set start) (taken @ [h]) @ rev (filter (\<lambda>x. x \<in> set start) (q @ new)) = rev start"
    using inv(6) by (auto split: if_splits)
  show ?thesis
    unfolding drain_inv_def q'(2) using inv(1,2) assms(2) deg all topo order by (auto simp: q'(1))
qed

lemma drain_queue_step:
  "drain_queue ord deps in_degree visited taken (q @ [h]) =
     (if h |\<in>| visited then drain_queue ord deps in_degree visited taken q
      else case relax_dependents ord deps h in_degree q of
        (in_degree', q') \<Rightarrow> drain_queue ord deps in_degree' (finsert h visited) (taken @ [h]) q')"
  by (simp add: drain_queue.simps [of ord deps in_degree visited taken "q @ [h]"])

lemma drain_queue_inv:
  "lists_set ord \<Longrightarrow> distinct start \<Longrightarrow> \<forall>x\<in>set start. succs_of deps x = [] \<Longrightarrow>
    drain_inv deps N start in_degree visited taken queue \<Longrightarrow> drain_queue ord deps in_degree visited taken queue = (d', v', t') \<Longrightarrow>
    drain_inv deps N start d' v' t' []"
proof (induction ord deps in_degree visited taken queue rule: drain_queue.induct)
  case (1 ord deps in_degree visited taken queue)
  show ?case
  proof (cases queue rule: rev_cases)
    case Nil
    then show ?thesis using "1.prems" by (simp add: drain_queue.simps)
  next
    case (snoc q h)
    show ?thesis
    proof (cases "h |\<in>| visited")
      case True
      have "drain_inv deps N start in_degree visited taken q"
        using drain_inv_skip [OF _ True "1.prems"(2)] "1.prems"(4) snoc by simp
      then show ?thesis
        using "1.IH"(1) [OF _ refl refl] "1.prems"(1-3,5) snoc True by (simp add: drain_queue_step)
    next
      case False
      obtain deg' q' where r: "relax_dependents ord deps h in_degree q = (deg', q')" by fastforce
      have "drain_inv deps N start deg' (finsert h visited) (taken @ [h]) q'"
        using drain_inv_take [OF _ False "1.prems"(1) r "1.prems"(3)] "1.prems"(4) snoc by simp
      then show ?thesis
        using "1.IH"(2) [OF _ refl refl] "1.prems"(1-3,5) snoc False r by (simp add: drain_queue_step)
    qed
  qed
qed

lemma initial_degrees_lookup:
  "fmlookup (initial_degrees self) d = (if d |\<in>| fmdom (gc_nodes self) then Some (open_degree (dependency_map self) {} d) else None)"
  by (auto simp: initial_degrees_def open_degree_def fmdom_notD dest: fmdomI split: option.splits)

lemma initial_degrees_dom [simp]: "fmdom (initial_degrees self) = fmdom (gc_nodes self)"
  by (simp add: initial_degrees_def fmdom_fmmap_keys)

lemma initial_queue_spec:
  assumes "lists_set ord"
  shows "distinct (initial_queue ord now self)" and
    "set (initial_queue ord now self) = {d. d |\<in>| fmdom (gc_nodes self) \<and> succs_of (dependency_map self) d = []}"
proof -
  have "distinct (ord (fmdom (gc_nodes self)))" "set (ord (fmdom (gc_nodes self))) = fset (fmdom (gc_nodes self))"
    using assms by (auto simp: lists_set_def)
  then show "set (initial_queue ord now self) = {d. d |\<in>| fmdom (gc_nodes self) \<and> succs_of (dependency_map self) d = []}"
    by (auto simp: initial_queue_def initial_degrees_lookup open_degree_0 satisfied_def)
  have "distinct (filter (\<lambda>h. fmlookup (initial_degrees self) h = Some 0) (ord (fmdom (initial_degrees self))))"
    using assms by (simp add: lists_set_def)
  then show "distinct (initial_queue ord now self)"
    unfolding initial_queue_def by (metis mset_sort_by mset_eq_imp_distinct_iff)
qed

lemma drain_inv_start:
  assumes "lists_set ord"
  shows "drain_inv (dependency_map self) (fset (fmdom (gc_nodes self))) (initial_queue ord now self) (initial_degrees self) {||} []
    (initial_queue ord now self)"
  using initial_queue_spec [OF assms, of now self]
  by (auto simp: drain_inv_def initial_degrees_lookup satisfied_def filter_id_conv)

lemma canonical_order_spec:
  assumes "lists_set ord" and "cached_ordering self = None"
  shows "\<exists>self' r. compute_canonical_order ord now self = (self', Inr r) \<and> distinct (ordered_hashes r) \<and>
    set (ordered_hashes r) = {d. d |\<in>| fmdom (gc_nodes self) \<and> satisfied (dependency_map self) (set (ordered_hashes r)) d} \<and>
    (\<forall>xs h ys. ordered_hashes r = xs @ h # ys \<longrightarrow> set (succs_of (dependency_map self) h) \<subseteq> set xs) \<and>
    filter (\<lambda>x. succs_of (dependency_map self) x = []) (ordered_hashes r) = rev (initial_queue ord now self) \<and>
    parallel_groups r = (if ordered_hashes r = [] then [] else [ordered_hashes r])"
proof (cases "fmdom (gc_nodes self) = {||}")
  case True
  then have "initial_queue ord now self = []" using initial_queue_spec(2) [OF assms(1), of now self] by simp
  then show ?thesis using True assms(2) by (simp add: compute_canonical_order_def)
next
  case False
  let ?q = "initial_queue ord now self" and ?deps = "dependency_map self" and ?N = "fset (fmdom (gc_nodes self))"
  obtain d v t where run: "drain_queue ord ?deps (initial_degrees self) {||} [] ?q = (d, v, t)" by (cases "drain_queue ord ?deps (initial_degrees self) {||} [] ?q") auto
  have "drain_inv ?deps ?N ?q d v t []"
    using drain_queue_inv [OF assms(1) _ _ drain_inv_start [OF assms(1)] run] initial_queue_spec [OF assms(1), of now self] by auto
  then have inv: "set t = fset v" "distinct t" "fset v = {d \<in> ?N. satisfied ?deps (fset v) d}"
    "\<And>xs h ys. t = xs @ h # ys \<Longrightarrow> set (succs_of ?deps h) \<subseteq> set xs" "filter (\<lambda>x. x \<in> set ?q) t = rev ?q"
    by (auto simp: drain_inv_def)
  have "filter (\<lambda>x. x \<in> set ?q) t = filter (\<lambda>x. succs_of ?deps x = []) t"
    using inv(1,3) initial_queue_spec(2) [OF assms(1), of now self] by (intro filter_cong) auto
  then have start: "filter (\<lambda>x. succs_of ?deps x = []) t = rev ?q" using inv(5) by simp
  have fix_eq: "set t = {d. d |\<in>| fmdom (gc_nodes self) \<and> satisfied ?deps (set t) d}" using inv(1,3) by simp
  have topo: "\<forall>xs h ys. t = xs @ h # ys \<longrightarrow> set (succs_of ?deps h) \<subseteq> set xs" using inv(4) by blast
  define r where "r = \<lparr>ordered_hashes = t, layer_count = length (if t = [] then [] else [t]),
    parallel_groups = (if t = [] then [] else [t]), conflict_count = get_conflict_count self\<rparr>"
  have comp: "compute_canonical_order ord now self = (self\<lparr>cached_ordering := Some r\<rparr>, Inr r)"
    using False assms(2) run by (simp add: compute_canonical_order_def r_def Let_def)
  have res: "ordered_hashes r = t" "parallel_groups r = (if t = [] then [] else [t])" by (simp_all add: r_def)
  show ?thesis
    by (intro exI [of _ "self\<lparr>cached_ordering := Some r\<rparr>"] exI [of _ r] conjI)
      (rule comp, unfold res, rule inv(2), rule fix_eq, rule topo, rule start, rule refl)
qed

section \<open>Groups\<close>

lemma represents_make_sets:
  "represents dsu E \<Longrightarrow> represents (fold (\<lambda>h dsu. make_set dsu h) hs dsu) E \<and>
     fset (fmdom (ds_parent (fold (\<lambda>h dsu. make_set dsu h) hs dsu))) = set hs \<union> fset (fmdom (ds_parent dsu))"
proof (induction hs arbitrary: dsu)
  case (Cons h hs)
  have "fset (fmdom (ds_parent (make_set dsu h))) = insert h (fset (fmdom (ds_parent dsu)))"
    by (auto simp: make_set_def or_insert_def)
  then show ?case using Cons.IH [OF represents_make_set [OF Cons.prems], of h] by simp
qed simp

lemma represents_union_all:
  "represents dsu E \<Longrightarrow> \<exists>dsu'. union_all es dsu = Some dsu' \<and> represents dsu' (set es \<union> E) \<and>
     fset (fmdom (ds_parent dsu)) \<subseteq> fset (fmdom (ds_parent dsu'))"
proof (induction es arbitrary: dsu E)
  case (Cons e es)
  obtain a b where e: "e = (a, b)" by (cases e)
  obtain d1 where d1: "dsu_union dsu a b = Some d1" "represents d1 (insert (a, b) E)" "fset (fmdom (ds_parent dsu)) \<subseteq> fset (fmdom (ds_parent d1))"
    using represents_union [OF Cons.prems] by blast
  obtain d2 where "union_all es d1 = Some d2" "represents d2 (set es \<union> insert (a, b) E)" "fset (fmdom (ds_parent d1)) \<subseteq> fset (fmdom (ds_parent d2))"
    using Cons.IH [OF d1(2)] by blast
  then show ?case using d1 e by auto
qed auto

definition conflict_edges :: "graph_conflict_engine \<Rightarrow> (bytes \<times> bytes) set" where
  "conflict_edges self = {(a, b). b \<in> set (succs_of (conflict_map self) a)}"

lemma set_conflict_pairs: "lists_set ord \<Longrightarrow> set (conflict_pairs ord self) = conflict_edges self"
proof -
  assume "lists_set ord"
  then have "set (ord (fmdom (conflict_map self))) = fset (fmdom (conflict_map self))" by (simp add: lists_set_def)
  then show ?thesis using succs_of_dom [of _ "conflict_map self"] by (auto simp: conflict_pairs_def conflict_edges_def)
qed

lemma parallel_groups_spec:
  assumes "lists_set ord" and "fmdom (gc_nodes self) \<noteq> {||}"
  shows "\<exists>groups. get_parallel_execution_groups ord self = Some (Inr groups) \<and> distinct (concat groups) \<and> [] \<notin> set groups \<and>
    fset (fmdom (gc_nodes self)) \<subseteq> set (concat groups) \<and>
    (\<forall>g\<in>set groups. \<forall>x\<in>set g. \<forall>y\<in>set (concat groups). y \<in> set g \<longleftrightarrow> connected (conflict_edges self) x y)"
proof -
  let ?nodes = "ord (fmdom (gc_nodes self))"
  define dsu where "dsu = fold (\<lambda>h dsu. make_set dsu h) ?nodes dsu_new"
  have dsu: "represents dsu {}" "fset (fmdom (gc_nodes self)) \<subseteq> fset (fmdom (ds_parent dsu))"
    using represents_make_sets [OF represents_new, of ?nodes] assms(1) by (auto simp: dsu_def lists_set_def)
  obtain dsu' where u: "union_all (conflict_pairs ord self) dsu = Some dsu'" "represents dsu' (conflict_edges self)"
    "fset (fmdom (ds_parent dsu)) \<subseteq> fset (fmdom (ds_parent dsu'))"
    using represents_union_all [OF dsu(1), of "conflict_pairs ord self"] by (auto simp: set_conflict_pairs [OF assms(1)])
  obtain d2 comps where c: "get_components ord dsu' = Some (d2, comps)" "distinct (concat (component_lists ord comps))"
    "set (concat (component_lists ord comps)) = fset (fmdom (ds_parent dsu'))" "\<forall>g\<in>set (component_lists ord comps). g \<noteq> []"
    "\<forall>g\<in>set (component_lists ord comps). \<forall>x\<in>set g. \<forall>y\<in>fset (fmdom (ds_parent dsu')). y \<in> set g \<longleftrightarrow> connected (conflict_edges self) x y"
    using get_components_exact [OF u(2) assms(1)] by metis
  have "get_parallel_execution_groups ord self = Some (Inr (component_lists ord comps))"
    using assms(2) u(1) c(1) by (simp add: get_parallel_execution_groups_def dsu_def)
  then show ?thesis using c dsu(2) u(3) by (intro exI [of _ "component_lists ord comps"]) auto
qed

section \<open>Cascades\<close>

definition dependent_rel :: "(bytes, bytes list) fmap \<Rightarrow> (bytes \<times> bytes) set" where
  "dependent_rel deps = {(p, d). p \<in> set (succs_of deps d)}"

definition cascade_inv :: "(bytes, bytes list) fmap \<Rightarrow> bytes \<Rightarrow> bytes list \<Rightarrow> bytes list \<Rightarrow> bool" where
  "cascade_inv deps h to_remove queue \<longleftrightarrow> distinct to_remove \<and> (\<exists>rest. to_remove = h # rest) \<and>
     set to_remove \<subseteq> (dependent_rel deps)\<^sup>* `` {h} \<and> set queue \<subseteq> set to_remove \<and>
     (\<forall>p d. p \<in> set to_remove - set queue \<longrightarrow> (p, d) \<in> dependent_rel deps \<longrightarrow> d \<in> set to_remove)"

lemma cascade_loop_inv:
  "lists_set ord \<Longrightarrow> cascade_inv deps h to_remove queue \<Longrightarrow> cascade_inv deps h (cascade_loop ord deps to_remove queue) []"
proof (induction ord deps to_remove queue rule: cascade_loop.induct)
  case (1 ord deps to_remove queue)
  show ?case
  proof (cases queue rule: rev_cases)
    case Nil
    then show ?thesis using "1.prems" by (simp add: cascade_loop.simps)
  next
    case (snoc q c)
    obtain new where p: "push_dependents deps c (ord (fmdom deps)) to_remove q = (to_remove @ new, q @ new)" "distinct new"
      "set new = {d \<in> set (ord (fmdom deps)). c \<in> set (succs_of deps d)} - set to_remove"
      using push_dependents_spec by blast
    have "set (ord (fmdom deps)) = fset (fmdom deps)" using "1.prems"(1) by (simp add: lists_set_def)
    then have new: "set new = {d. (c, d) \<in> dependent_rel deps} - set to_remove"
      using p(3) succs_of_dom [of c deps] by (auto simp: dependent_rel_def)
    have "(h, c) \<in> (dependent_rel deps)\<^sup>*" using "1.prems"(2) snoc by (auto simp: cascade_inv_def)
    then have reach: "set new \<subseteq> (dependent_rel deps)\<^sup>* `` {h}" using new by (auto intro: rtrancl_into_rtrancl)
    have "cascade_inv deps h (to_remove @ new) (q @ new)"
      using "1.prems"(2) snoc p(2) new reach unfolding cascade_inv_def by auto
    then show ?thesis
      using "1.IH" [of "to_remove @ new" "q @ new"] "1.prems"(1) p(1) snoc by (simp add: cascade_loop.simps [of ord deps to_remove])
  qed
qed

lemma cascade_loop_exact:
  assumes "lists_set ord"
  shows "distinct (cascade_loop ord deps [h] [h]) \<and> set (cascade_loop ord deps [h] [h]) = (dependent_rel deps)\<^sup>* `` {h} \<and>
    (\<exists>rest. cascade_loop ord deps [h] [h] = h # rest)"
proof -
  let ?r = "cascade_loop ord deps [h] [h]"
  have inv: "cascade_inv deps h ?r []" by (rule cascade_loop_inv [OF assms]) (auto simp: cascade_inv_def)
  have "d \<in> set ?r" if "(h, d) \<in> (dependent_rel deps)\<^sup>*" for d
    using that
  proof (induction rule: rtrancl_induct)
    case base
    then show ?case using inv by (auto simp: cascade_inv_def)
  next
    case (step p d)
    then show ?case using inv by (auto simp: cascade_inv_def)
  qed
  with inv show ?thesis unfolding cascade_inv_def by blast
qed

lemma fold_remove_one:
  "gc_nodes (fold (remove_one rs) ts self) = fmdrops ts (gc_nodes self)"
  "dependency_map (fold (remove_one rs) ts self) = fmdrops ts (dependency_map self)"
  "conflict_map (fold (remove_one rs) ts self) = fmdrops ts (conflict_map self)"
  "ts \<noteq> [] \<Longrightarrow> set ts \<subseteq> set rs \<Longrightarrow> claimants_of (utxo_index (fold (remove_one rs) ts self)) k = filter (\<lambda>h. h \<notin> set rs) (claimants_of (utxo_index self) k)"
proof -
  show "gc_nodes (fold (remove_one rs) ts self) = fmdrops ts (gc_nodes self)"
    "dependency_map (fold (remove_one rs) ts self) = fmdrops ts (dependency_map self)"
    "conflict_map (fold (remove_one rs) ts self) = fmdrops ts (conflict_map self)"
    by (induction ts arbitrary: self) (simp_all add: remove_one_def)
  have one: "claimants_of (utxo_index (remove_one rs t self)) k = filter (\<lambda>h. h \<notin> set rs) (claimants_of (utxo_index self) k)" if "t \<in> set rs" for t self
    using that by (auto simp: remove_one_def claimants_of_def split: option.splits intro!: filter_cong)
  show "claimants_of (utxo_index (fold (remove_one rs) ts self)) k = filter (\<lambda>h. h \<notin> set rs) (claimants_of (utxo_index self) k)"
    if "ts \<noteq> []" "set ts \<subseteq> set rs"
    using that
  proof (induction ts arbitrary: self)
    case (Cons t ts)
    show ?case
    proof (cases "ts = []")
      case True
      then show ?thesis using one Cons.prems by simp
    next
      case False
      then show ?thesis using Cons.IH [of "remove_one rs t self"] one [of t self] Cons.prems by simp
    qed
  qed simp
qed

section \<open>Detected conflicts\<close>

lemma push_to_lookup: "fmlookup (push_to k x m) k' = (if k' = k then Some ((case fmlookup m k of None \<Rightarrow> [] | Some xs \<Rightarrow> xs) @ [x]) else fmlookup m k')"
  by (simp add: push_to_def)

lemma claimants_push: "claimants_of (push_to k x m) k' = (if k' = k then claimants_of m k @ [x] else claimants_of m k')"
  by (simp add: claimants_of_def push_to_lookup)

lemma succs_push: "succs_of (push_to k x m) k' = (if k' = k then succs_of m k @ [x] else succs_of m k')"
  by (simp add: succs_of_def push_to_lookup)

lemma record_conflicts_edges:
  "b \<in> set (succs_of (fold (record_conflict h) cs m) a) \<longleftrightarrow> b \<in> set (succs_of m a) \<or> a = h \<and> b \<in> set cs \<or> b = h \<and> a \<in> set cs"
  by (induction cs arbitrary: m) (auto simp: record_conflict_def succs_push)

lemma claim_loop_spec:
  assumes "claim_loop h ins uidx conflicts detected = (uidx', conflicts', detected')"
  shows "set detected' = set detected \<union> {c. c \<noteq> h \<and> (\<exists>i\<in>set ins. c \<in> set (claimants_of uidx (prev_tx i)))} \<and>
    (\<forall>k. set (claimants_of uidx' k) = set (claimants_of uidx k) \<union> {c. c = h \<and> (\<exists>i\<in>set ins. prev_tx i = k)}) \<and>
    (\<forall>a b. b \<in> set (succs_of conflicts' a) \<longleftrightarrow> b \<in> set (succs_of conflicts a) \<or>
       a = h \<and> b \<noteq> h \<and> (\<exists>i\<in>set ins. b \<in> set (claimants_of uidx (prev_tx i))) \<or>
       b = h \<and> a \<noteq> h \<and> (\<exists>i\<in>set ins. a \<in> set (claimants_of uidx (prev_tx i))))"
  using assms
proof (induction ins arbitrary: uidx conflicts detected)
  case (Cons i ins)
  let ?others = "filter (\<lambda>c. c \<noteq> h) (claimants_of uidx (prev_tx i))"
  have run: "claim_loop h ins (push_to (prev_tx i) h uidx) (fold (record_conflict h) ?others conflicts) (detected @ ?others) = (uidx', conflicts', detected')"
    using Cons.prems by (simp add: Let_def)
  have mem: "c \<noteq> h \<Longrightarrow> c \<in> set (claimants_of (push_to (prev_tx i) h uidx) k) \<longleftrightarrow> c \<in> set (claimants_of uidx k)" for c k
    by (auto simp: claimants_push)
  note IH = Cons.IH [OF run]
  have 1: "set detected' = set detected \<union> {c. c \<noteq> h \<and> (\<exists>j\<in>set (i # ins). c \<in> set (claimants_of uidx (prev_tx j)))}"
    using IH [THEN conjunct1] by (auto simp: mem)
  have 2: "\<forall>k. set (claimants_of uidx' k) = set (claimants_of uidx k) \<union> {c. c = h \<and> (\<exists>j\<in>set (i # ins). prev_tx j = k)}"
    using IH [THEN conjunct2, THEN conjunct1] by (auto simp: claimants_push)
  have 3: "\<forall>a b. b \<in> set (succs_of conflicts' a) \<longleftrightarrow> b \<in> set (succs_of conflicts a) \<or>
       a = h \<and> b \<noteq> h \<and> (\<exists>j\<in>set (i # ins). b \<in> set (claimants_of uidx (prev_tx j))) \<or>
       b = h \<and> a \<noteq> h \<and> (\<exists>j\<in>set (i # ins). a \<in> set (claimants_of uidx (prev_tx j)))"
    using IH [THEN conjunct2, THEN conjunct2] by (auto simp: mem record_conflicts_edges)
  show ?case using 1 2 3 by blast
qed simp

type_synonym registration = "transaction \<times> bytes \<times> u64 \<times> u64"

fun register_all :: "(transaction \<Rightarrow> nat) \<Rightarrow> registration list \<Rightarrow> graph_conflict_engine \<Rightarrow> graph_conflict_engine" where
  "register_all tx_size [] self = self"
| "register_all tx_size ((tx, h, fee, t) # regs) self = register_all tx_size regs (fst (gc_register_transaction tx_size self tx h fee t))"

definition spends_from :: "registration list \<Rightarrow> bytes \<Rightarrow> hash \<Rightarrow> bool" where
  "spends_from regs h k \<longleftrightarrow> (\<exists>tx fee t. (tx, h, fee, t) \<in> set regs \<and> (\<exists>i\<in>set (inputs tx). prev_tx i = k))"

definition conflicts_exact :: "graph_conflict_engine \<Rightarrow> registration list \<Rightarrow> bool" where
  "conflicts_exact self regs \<longleftrightarrow> (\<forall>k h. h \<in> set (claimants_of (utxo_index self) k) \<longleftrightarrow> spends_from regs h k) \<and>
     (\<forall>a b. b \<in> set (get_conflicts self a) \<longleftrightarrow> a \<noteq> b \<and> (\<exists>k. spends_from regs a k \<and> spends_from regs b k))"

lemma register_exact:
  assumes "conflicts_exact self regs"
  shows "conflicts_exact (fst (gc_register_transaction tx_size self tx h fee t)) (regs @ [(tx, h, fee, t)])"
proof -
  obtain uidx' conflicts' detected' where run: "claim_loop h (inputs tx) (utxo_index self) (conflict_map self) [] = (uidx', conflicts', detected')"
    by (cases "claim_loop h (inputs tx) (utxo_index self) (conflict_map self) []") auto
  note c = claim_loop_spec [OF run]
  have new: "spends_from (regs @ [(tx, h, fee, t)]) g k \<longleftrightarrow> spends_from regs g k \<or> g = h \<and> (\<exists>i\<in>set (inputs tx). prev_tx i = k)" for g k
    by (auto simp: spends_from_def)
  have idx: "g \<in> set (claimants_of uidx' k) \<longleftrightarrow> spends_from (regs @ [(tx, h, fee, t)]) g k" for g k
    using c [THEN conjunct2, THEN conjunct1] assms by (auto simp: new conflicts_exact_def)
  have old: "\<And>k g. g \<in> set (claimants_of (utxo_index self) k) \<longleftrightarrow> spends_from regs g k"
    "\<And>a b. b \<in> set (succs_of (conflict_map self) a) \<longleftrightarrow> a \<noteq> b \<and> (\<exists>k. spends_from regs a k \<and> spends_from regs b k)"
    using assms by (auto simp: conflicts_exact_def get_conflicts_def succs_of_def)
  have edges: "b \<in> set (succs_of conflicts' a) \<longleftrightarrow> a \<noteq> b \<and> (\<exists>k. spends_from (regs @ [(tx, h, fee, t)]) a k \<and> spends_from (regs @ [(tx, h, fee, t)]) b k)" for a b
    unfolding c [THEN conjunct2, THEN conjunct2, rule_format] old new by (cases "a = h"; cases "b = h") auto
  show ?thesis
    using idx edges run by (simp add: conflicts_exact_def gc_register_transaction_def get_conflicts_def succs_of_def)
qed

lemma register_all_exact: "conflicts_exact self done \<Longrightarrow> conflicts_exact (register_all tx_size regs self) (done @ regs)"
proof (induction tx_size regs self arbitrary: "done" rule: register_all.induct)
  case (2 tx_size tx h fee t regs self)
  then show ?case using register_exact [OF "2.prems", of tx_size tx h fee t] by fastforce
qed simp

section \<open>Blocks\<close>

definition node_weight :: "graph_conflict_engine \<Rightarrow> bytes \<Rightarrow> nat" where
  "node_weight self h = (case gc_get_node self h of None \<Rightarrow> 0 | Some n \<Rightarrow> tn_size_bytes n)"

definition block_ok :: "graph_conflict_engine \<Rightarrow> nat \<Rightarrow> bytes list \<Rightarrow> nat \<Rightarrow> bool" where
  "block_ok self mx txs weight \<longleftrightarrow> sorted_wrt (\<lambda>a b. a \<notin> set (get_conflicts self b)) txs \<and> weight = sum_list (map (node_weight self) txs) \<and>
     weight \<le> mx"

lemma build_loop_ok:
  "block_ok self mx txs weight \<Longrightarrow> build_loop self mx txs fees weight ex hs = (txs', fees', weight', ex') \<Longrightarrow>
     block_ok self mx txs' weight' \<and> (\<exists>more. txs' = txs @ more \<and> subseq more hs)"
proof (induction hs arbitrary: txs fees weight ex)
  case Nil
  then show ?case by simp
next
  case (Cons h hs)
  consider (stop) "mx \<le> weight" | (skip) ex1 where "build_loop self mx txs fees weight ex1 hs = (txs', fees', weight', ex')"
    | (take) node where "gc_get_node self h = Some node" "weight + tn_size_bytes node \<le> mx" "\<forall>c\<in>set (get_conflicts self h). c \<notin> set txs"
      "build_loop self mx (txs @ [h]) (fees + tn_fee node) (weight + tn_size_bytes node) ex hs = (txs', fees', weight', ex')"
    using Cons.prems(2) by (auto simp: not_le split: if_splits option.splits)
  then show ?case
  proof cases
    case stop
    then show ?thesis using Cons.prems by auto
  next
    case skip
    then show ?thesis using Cons.IH [OF Cons.prems(1) skip] list_emb_Cons by blast
  next
    case take
    have "block_ok self mx (txs @ [h]) (weight + tn_size_bytes node)"
      using Cons.prems(1) take(1-3) by (auto simp: block_ok_def sorted_wrt_append node_weight_def)
    then show ?thesis using Cons.IH [OF _ take(4)] by auto
  qed
qed

lemma build_block_spec:
  assumes "build_block_canonical ord now self mx = (self', Inr b)" and "compute_canonical_order ord now (ci_engine self) = (engine, Inr r)"
  shows "block_ok engine mx (bb_transactions b) (bb_total_weight b) \<and> subseq (bb_transactions b) (ordered_hashes r)"
proof -
  obtain txs fees weight ex where run: "build_loop engine mx [] 0 0 [] (ordered_hashes r) = (txs, fees, weight, ex)"
    by (cases "build_loop engine mx [] 0 0 [] (ordered_hashes r)") auto
  then have "bb_transactions b = txs" "bb_total_weight b = weight" using assms by (auto simp: build_block_canonical_def)
  then show ?thesis using build_loop_ok [OF _ run] by (auto simp: block_ok_def)
qed

section \<open>Properties\<close>

text \<open>The order in full. It contains exactly the transactions whose dependencies are pairwise distinct and all in the list: an
  unregistered parent, a cycle or a dependency stated twice keeps a transaction out. Transactions without dependencies come in
  the reverse of their sorted order, so the lowest score first, and all transactions form one group that is called parallel.\<close>

lemma canonical_order_details:
  assumes "lists_set ord" and "cached_ordering self = None"
  shows "\<exists>self' r. compute_canonical_order ord now self = (self', Inr r) \<and> distinct (ordered_hashes r) \<and>
    set (ordered_hashes r) = {d. d |\<in>| fmdom (gc_nodes self) \<and> distinct (succs_of (dependency_map self) d) \<and>
      set (succs_of (dependency_map self) d) \<subseteq> set (ordered_hashes r)} \<and>
    (\<forall>xs h ys. ordered_hashes r = xs @ h # ys \<longrightarrow> set (succs_of (dependency_map self) h) \<subseteq> set xs) \<and>
    filter (\<lambda>x. succs_of (dependency_map self) x = []) (ordered_hashes r) = rev (initial_queue ord now self) \<and>
    parallel_groups r = (if ordered_hashes r = [] then [] else [ordered_hashes r])"
  using canonical_order_spec [OF assms] unfolding satisfied_def .

text \<open>C34: When no order is cached, the computation of the canonical order ends and lists registered transactions once each, every
  dependency of a transaction before the transaction itself; and it leaves out no registered transaction whose dependencies are
  pairwise distinct and all listed.\<close>

theorem canonical_order_exact:
  assumes "lists_set ord" and "cached_ordering self = None"
  shows "\<exists>self' r. compute_canonical_order ord now self = (self', Inr r) \<and> distinct (ordered_hashes r) \<and>
    set (ordered_hashes r) \<subseteq> fset (fmdom (gc_nodes self)) \<and>
    (\<forall>xs h ys. ordered_hashes r = xs @ h # ys \<longrightarrow> set (succs_of (dependency_map self) h) \<subseteq> set xs) \<and>
    (\<forall>d. d |\<in>| fmdom (gc_nodes self) \<and> distinct (succs_of (dependency_map self) d) \<and>
       set (succs_of (dependency_map self) d) \<subseteq> set (ordered_hashes r) \<longrightarrow> d \<in> set (ordered_hashes r))"
  using canonical_order_details [OF assms, of now] by blast

text \<open>The groups for parallel execution are the connected components of the recorded conflicts; every registered
  transaction is in exactly one of them. The computation ends. So a group holds the transactions that conflict with each other.\<close>

theorem parallel_groups_are_components:
  assumes "lists_set ord" and "fmdom (gc_nodes self) \<noteq> {||}"
  shows "\<exists>groups. get_parallel_execution_groups ord self = Some (Inr groups) \<and> distinct (concat groups) \<and> [] \<notin> set groups \<and>
    fset (fmdom (gc_nodes self)) \<subseteq> set (concat groups) \<and>
    (\<forall>g\<in>set groups. \<forall>x\<in>set g. \<forall>y\<in>set (concat groups). y \<in> set g \<longleftrightarrow> connected (conflict_edges self) x y)"
  by (rule parallel_groups_spec [OF assms])

text \<open>After any registrations, two transactions are in conflict exactly when they spend outputs of the same transaction, whatever
  the indices of these outputs.\<close>

theorem conflicts_by_funding_transaction:
  "b \<in> set (get_conflicts (register_all tx_size regs graph_conflict_engine_new) a) \<longleftrightarrow>
     a \<noteq> b \<and> (\<exists>k. spends_from regs a k \<and> spends_from regs b k)"
proof -
  have "conflicts_exact graph_conflict_engine_new []"
    by (simp add: conflicts_exact_def graph_conflict_engine_new_def claimants_of_def get_conflicts_def spends_from_def)
  from register_all_exact [OF this] show ?thesis by (simp add: conflicts_exact_def)
qed

text \<open>A cascade removes the transaction and everything that depends on it, once each, from every table but the conflict lists of
  the remaining transactions, which keep naming what was removed.\<close>

theorem cascade_removal_exact:
  assumes "lists_set ord" and "gc_remove_transaction_cascade ord self h = (self', Inr removed)"
  shows "distinct removed \<and> set removed = (dependent_rel (dependency_map self))\<^sup>* `` {h} \<and>
    gc_nodes self' = fmdrops removed (gc_nodes self) \<and> dependency_map self' = fmdrops removed (dependency_map self) \<and>
    claimants_of (utxo_index self') k = filter (\<lambda>x. x \<notin> set removed) (claimants_of (utxo_index self) k) \<and>
    get_conflicts self' x = (if x \<in> set removed then [] else get_conflicts self x)"
proof -
  let ?r = "cascade_loop ord (dependency_map self) [h] [h]"
  have r: "removed = ?r" "self' = (fold (remove_one ?r) ?r self)\<lparr>cached_ordering := None\<rparr>"
    using assms(2) by (auto simp: gc_remove_transaction_cascade_def Let_def)
  have "?r \<noteq> []" using cascade_loop_exact [OF assms(1), of "dependency_map self" h] by auto
  then show ?thesis
    using cascade_loop_exact [OF assms(1), of "dependency_map self" h] fold_remove_one [of ?r ?r self]
    by (simp add: r get_conflicts_def)
qed

text \<open>A block that is built from the canonical order is a part of it in the same order, within the weight, and has no
  transaction behind one that it is recorded in conflict with.\<close>

theorem built_block_sound:
  assumes "build_block_canonical ord now self mx = (self', Inr b)" and "compute_canonical_order ord now (ci_engine self) = (engine, Inr r)"
  shows "subseq (bb_transactions b) (ordered_hashes r) \<and> sorted_wrt (\<lambda>x y. x \<notin> set (get_conflicts engine y)) (bb_transactions b) \<and>
    bb_total_weight b = sum_list (map (node_weight engine) (bb_transactions b)) \<and> bb_total_weight b \<le> mx"
  using build_block_spec [OF assms] by (simp add: block_ok_def)

subsection \<open>Examples\<close>

text \<open>Two transactions that spend different outputs of one transaction, the second depending on the first.\<close>

definition spend_nth_output :: "u32 \<Rightarrow> transaction" where
  "spend_nth_output n = \<lparr>tx_id = Hash [], inputs = [\<lparr>prev_tx = Hash [9], index = n, signature = [], pubkey = [], sighash_type = SigHashAll\<rparr>],
     outputs = [], execution_payload = [], contract_address = None, gas_limit = 0, max_fee_per_gas = 0, chain_id = 1, locktime = 0\<rparr>"

definition demo_conflict_engine :: graph_conflict_engine where
  "demo_conflict_engine = fst (gc_add_dependency (register_all (\<lambda>_. 100) [(spend_nth_output 0, [1], 10, 0), (spend_nth_output 1, [2], 20, 0)] graph_conflict_engine_new) [1] [2])"

definition demo_order :: set_order where
  "demo_order s = sorted_list_of_fset s"

lemma demo_order_ok: "lists_set demo_order"
  by (simp add: lists_set_def demo_order_def)

lemma demo_engine_nodes: "fmdom (gc_nodes demo_conflict_engine) = {|[1], [2]|}" "cached_ordering demo_conflict_engine = None"
  "dependency_map demo_conflict_engine = fmupd [2] [[1]] fmempty" "conflict_map demo_conflict_engine = fmupd [1] [[2]] (fmupd [2] [[1]] fmempty)"
  by (auto simp: demo_conflict_engine_def gc_add_dependency_def gc_register_transaction_def graph_conflict_engine_new_def spend_nth_output_def
      claimants_of_def push_to_def record_conflict_def Let_def)

theorem canonical_order_exact_witness:
  "\<exists>self' r. compute_canonical_order demo_order 5 demo_conflict_engine = (self', Inr r) \<and> ordered_hashes r = [[1], [2]]"
proof -
  obtain self' r where r: "compute_canonical_order demo_order 5 demo_conflict_engine = (self', Inr r)" "distinct (ordered_hashes r)"
    "set (ordered_hashes r) \<subseteq> {[1], [2]}"
    "\<forall>xs h ys. ordered_hashes r = xs @ h # ys \<longrightarrow> set (succs_of (dependency_map demo_conflict_engine) h) \<subseteq> set xs"
    "\<forall>d. d |\<in>| fmdom (gc_nodes demo_conflict_engine) \<and> distinct (succs_of (dependency_map demo_conflict_engine) d) \<and>
      set (succs_of (dependency_map demo_conflict_engine) d) \<subseteq> set (ordered_hashes r) \<longrightarrow> d \<in> set (ordered_hashes r)"
    using canonical_order_exact [OF demo_order_ok demo_engine_nodes(2), of 5] by (auto simp: demo_engine_nodes)
  have one: "[1] \<in> set (ordered_hashes r)" using r(5) by (simp add: demo_engine_nodes succs_of_def)
  moreover have "[2] \<in> set (ordered_hashes r)" using r(5) one by (simp add: demo_engine_nodes succs_of_def)
  ultimately have all: "set (ordered_hashes r) = {[1], [2]}" using r(3) by blast
  have "length (ordered_hashes r) = 2" using distinct_card [OF r(2)] by (simp add: all)
  then obtain x y where xy: "ordered_hashes r = [x, y]" by (auto simp: length_Suc_conv numeral_2_eq_2)
  have "x \<noteq> [2]"
  proof
    assume "x = [2]"
    then have "set (succs_of (dependency_map demo_conflict_engine) [2]) \<subseteq> set []" using r(4) xy by (metis append_Nil)
    then show False by (simp add: demo_engine_nodes succs_of_def)
  qed
  moreover have "x \<in> {[1], [2]}" "y \<in> {[1], [2]}" "x \<noteq> y" using all xy r(2) by (metis list.set_intros(1,2), metis list.set_intros(1,2), simp)
  ultimately have "ordered_hashes r = [[1], [2]]" unfolding xy by blast
  then show ?thesis using r(1) by simp
qed

theorem parallel_groups_are_components_witness:
  "\<exists>groups. get_parallel_execution_groups demo_order demo_conflict_engine = Some (Inr groups) \<and> {[1], [2]} \<subseteq> set (concat groups)"
proof -
  have "fmdom (gc_nodes demo_conflict_engine) \<noteq> {||}" by (simp add: demo_engine_nodes)
  from parallel_groups_are_components [OF demo_order_ok this] show ?thesis by (auto simp: demo_engine_nodes)
qed

theorem cascade_removal_exact_witness:
  "\<exists>self' removed. gc_remove_transaction_cascade demo_order demo_conflict_engine [2] = (self', Inr removed) \<and> set removed = {[2]} \<and>
     get_conflicts self' [1] = [[2]]"
proof -
  obtain self' removed where run: "gc_remove_transaction_cascade demo_order demo_conflict_engine [2] = (self', Inr removed)"
    by (simp add: gc_remove_transaction_cascade_def Let_def)
  have "(dependent_rel (dependency_map demo_conflict_engine))\<^sup>* `` {[2]} = {[2]}"
    by (auto simp: dependent_rel_def demo_engine_nodes succs_of_def elim: converse_rtranclE split: if_splits)
  with cascade_removal_exact [OF demo_order_ok run, of "Hash []" "[1]"] run show ?thesis
    by (auto simp: get_conflicts_def demo_engine_nodes)
qed

theorem built_block_sound_witness:
  "\<exists>self' b. build_block_canonical demo_order 5 (conflict_ordering_integration_new conflict_ordering_config_default True) 1000 = (self', Inr b) \<and>
     bb_total_weight b \<le> 1000"
proof -
  let ?self = "conflict_ordering_integration_new conflict_ordering_config_default True"
  have none: "cached_ordering (ci_engine ?self) = None"
    by (simp add: conflict_ordering_integration_new_def set_priority_weights_def Let_def split: prod.splits)
  obtain engine r where c: "compute_canonical_order demo_order 5 (ci_engine ?self) = (engine, Inr r)"
    using canonical_order_spec [OF demo_order_ok none] by blast
  obtain self' b where "build_block_canonical demo_order 5 ?self 1000 = (self', Inr b)"
    using c by (cases "build_loop engine 1000 [] 0 0 [] (ordered_hashes r)") (auto simp: build_block_canonical_def)
  with built_block_sound [OF this c] show ?thesis by blast
qed

end
