(* ===== verification/Conflict_Graph.thy ===== *)
theory Conflict_Graph
  imports Dependency_Graph Ieee_Double Transactions
begin

text \<open>
  The conflict graph and replacement by fee: \<open>klomang-node/src/mempool/conflict_graph.rs\<close> and \<open>rbf_manager.rs\<close>. A
  \<open>TxHash\<close> is its bytes and an \<open>OutPoint\<close> a pair. \<open>bincode::serialize\<close> on a hash is the argument \<open>ser\<close>, and
  \<open>ord\<close> the order in which a hash set is iterated. The storage handle is not used by the code.
\<close>

section \<open>The graph\<close>

record conflict_node =
  cn_tx_hash :: bytes
  conflicting_with :: "bytes fset"
  cn_parents :: "bytes fset"
  cn_children :: "bytes fset"
  cn_total_fee :: u64
  cn_size_bytes :: nat
  is_high_risk :: bool

definition conflict_node_new :: "bytes \<Rightarrow> u64 \<Rightarrow> nat \<Rightarrow> conflict_node" where
  "conflict_node_new tx_hash fee sz = \<lparr>cn_tx_hash = tx_hash, conflicting_with = {||}, cn_parents = {||}, cn_children = {||},
     cn_total_fee = fee, cn_size_bytes = sz, is_high_risk = False\<rparr>"

definition cn_fee_rate :: "conflict_node \<Rightarrow> f64" where
  "cn_fee_rate self = (if cn_size_bytes self > 0 then f64_rate (unat (cn_total_fee self)) (cn_size_bytes self) else Fin 0)"

record conflict_graph_stats =
  total_nodes :: u64
  total_conflicts :: u64
  transitive_conflicts :: u64
  high_risk_transactions :: u64
  rbf_evaluations :: u64
  cg_rbf_replacements :: u64

definition conflict_graph_stats_default :: conflict_graph_stats where
  "conflict_graph_stats_default = \<lparr>total_nodes = 0, total_conflicts = 0, transitive_conflicts = 0, high_risk_transactions = 0,
     rbf_evaluations = 0, cg_rbf_replacements = 0\<rparr>"

record conflict_graph =
  outpoint_index :: "(bytes \<times> u32, bytes list) fmap"
  cg_nodes :: "(bytes, conflict_node) fmap"
  conflict_sets :: "(bytes, bytes fset) fmap"
  cg_stats :: conflict_graph_stats

definition conflict_graph_new :: conflict_graph where
  "conflict_graph_new = \<lparr>outpoint_index = fmempty, cg_nodes = fmempty, conflict_sets = fmempty, cg_stats = conflict_graph_stats_default\<rparr>"

definition outpoint_from_hash :: "(hash \<Rightarrow> bytes option) \<Rightarrow> hash \<Rightarrow> u32 \<Rightarrow> string + (bytes \<times> u32)" where
  "outpoint_from_hash ser h n = (case ser h of None \<Rightarrow> Inl ''Failed to create outpoint: {}'' | Some b \<Rightarrow> Inr (b, n))"

definition holders :: "(bytes \<times> u32, bytes list) fmap \<Rightarrow> bytes \<times> u32 \<Rightarrow> bytes list" where
  "holders m op = (case fmlookup m op of None \<Rightarrow> [] | Some xs \<Rightarrow> xs)"

definition add_conflict :: "bytes \<Rightarrow> bytes \<Rightarrow> (bytes, conflict_node) fmap \<Rightarrow> (bytes, conflict_node) fmap" where
  "add_conflict a b nodes = alter a (\<lambda>n. n\<lparr>conflicting_with := finsert b (conflicting_with n)\<rparr>) nodes"

definition count_conflict :: "conflict_graph \<Rightarrow> conflict_graph" where
  "count_conflict self = self\<lparr>cg_stats := (cg_stats self)\<lparr>total_conflicts := total_conflicts (cg_stats self) + 1\<rparr>\<rparr>"

definition meet_claimant :: "bytes \<Rightarrow> bytes \<Rightarrow> conflict_graph \<Rightarrow> conflict_graph" where
  "meet_claimant tx_hash existing_tx self =
     count_conflict (self\<lparr>cg_nodes := add_conflict existing_tx tx_hash (add_conflict tx_hash existing_tx (cg_nodes self))\<rparr>)"

text \<open>The loop over the inputs; the outpoint is made of the position of the input in its transaction.\<close>

fun register_inputs ::
  "(hash \<Rightarrow> bytes option) \<Rightarrow> bytes \<Rightarrow> (nat \<times> tx_input) list \<Rightarrow> conflict_graph \<Rightarrow> bytes list \<Rightarrow> conflict_graph \<times> (string + bytes list)" where
  "register_inputs ser tx_hash [] self detected = (self, Inr detected)"
| "register_inputs ser tx_hash ((idx, inp) # ins) self detected =
     (case outpoint_from_hash ser (prev_tx inp) (of_nat idx) of
        Inl e \<Rightarrow> (self, Inl e)
      | Inr op \<Rightarrow>
          let existing = holders (outpoint_index self) op;
              self = fold (meet_claimant tx_hash) existing self;
              self = self\<lparr>outpoint_index := fmupd op (existing @ [tx_hash]) (outpoint_index self)\<rparr>
          in register_inputs ser tx_hash ins self (detected @ existing))"

definition cg_children_lists :: "set_order \<Rightarrow> (bytes, conflict_node) fmap \<Rightarrow> (bytes, bytes list) fmap" where
  "cg_children_lists ord nodes = fmmap (\<lambda>n. ord (cn_children n)) nodes"

text \<open>The nodes in the order they are found, which is the order they leave the queue, without the start.\<close>

definition find_descendants :: "set_order \<Rightarrow> bytes \<Rightarrow> (bytes, conflict_node) fmap \<Rightarrow> bytes list" where
  "find_descendants ord tx_hash nodes = tl (bfs (cg_children_lists ord nodes) [] {|tx_hash|} [tx_hash])"

definition in_some_conflict :: "(bytes, conflict_node) fmap \<Rightarrow> bytes \<Rightarrow> bool" where
  "in_some_conflict nodes h = (case fmlookup nodes h of None \<Rightarrow> False | Some n \<Rightarrow> conflicting_with n \<noteq> {||})"

definition detect_transitive_conflicts :: "set_order \<Rightarrow> bytes \<Rightarrow> conflict_graph \<Rightarrow> conflict_graph" where
  "detect_transitive_conflicts ord tx_hash self =
     (if in_some_conflict (cg_nodes self) tx_hash then
        let n = length (filter (in_some_conflict (cg_nodes self)) (find_descendants ord tx_hash (cg_nodes self)))
        in self\<lparr>cg_stats := (cg_stats self)\<lparr>transitive_conflicts := transitive_conflicts (cg_stats self) + of_nat n\<rparr>\<rparr>
      else self)"

definition cg_register_transaction ::
  "set_order \<Rightarrow> (hash \<Rightarrow> bytes option) \<Rightarrow> conflict_graph \<Rightarrow> transaction \<Rightarrow> bytes \<Rightarrow> u64 \<Rightarrow> nat \<Rightarrow> conflict_graph \<times> (string + bytes list)" where
  "cg_register_transaction ord ser self tx tx_hash fee size_b =
     (let self = self\<lparr>cg_nodes := fmupd tx_hash (conflict_node_new tx_hash fee size_b) (cg_nodes self),
            cg_stats := (cg_stats self)\<lparr>total_nodes := total_nodes (cg_stats self) + 1\<rparr>\<rparr>
      in case register_inputs ser tx_hash (enumerate 0 (inputs tx)) self [] of
           (self, Inl e) \<Rightarrow> (self, Inl e)
         | (self, Inr detected) \<Rightarrow> (detect_transitive_conflicts ord tx_hash self, Inr detected))"

definition cg_add_dependency :: "conflict_graph \<Rightarrow> bytes \<Rightarrow> bytes \<Rightarrow> conflict_graph \<times> (string + unit)" where
  "cg_add_dependency self child parent =
     (case fmlookup (cg_nodes self) child of
        None \<Rightarrow> (self, Inl ''Child transaction not found'')
      | Some n \<Rightarrow>
          (self\<lparr>cg_nodes := alter parent (\<lambda>p. p\<lparr>cn_children := finsert child (cn_children p)\<rparr>)
              (fmupd child (n\<lparr>cn_parents := finsert parent (cn_parents n)\<rparr>) (cg_nodes self))\<rparr>, Inr ()))"

definition conflicts_of :: "(bytes, conflict_node) fmap \<Rightarrow> bytes \<Rightarrow> bytes fset" where
  "conflicts_of nodes h = (case fmlookup nodes h of None \<Rightarrow> {||} | Some n \<Rightarrow> conflicting_with n)"

definition compute_conflict_set :: "set_order \<Rightarrow> conflict_graph \<Rightarrow> bytes \<Rightarrow> bytes fset" where
  "compute_conflict_set ord self tx_hash =
     (if tx_hash |\<in>| fmdom (cg_nodes self) then
        let descendants = find_descendants ord tx_hash (cg_nodes self)
        in fold (\<lambda>d s. finsert d s |\<union>| conflicts_of (cg_nodes self) d) descendants
             (finsert tx_hash {||} |\<union>| conflicts_of (cg_nodes self) tx_hash)
      else {|tx_hash|})"

definition get_conflict_set :: "set_order \<Rightarrow> conflict_graph \<Rightarrow> bytes \<Rightarrow> conflict_graph \<times> (string + bytes fset)" where
  "get_conflict_set ord self tx_hash =
     (case fmlookup (conflict_sets self) tx_hash of
        Some cached \<Rightarrow> (self, Inr cached)
      | None \<Rightarrow>
          let s = compute_conflict_set ord self tx_hash
          in (self\<lparr>conflict_sets := fmupd tx_hash s (conflict_sets self)\<rparr>, Inr s))"

text \<open>The links of the removed nodes are collected before the removal and undone after it.\<close>

definition unlink :: "bytes \<times> bytes fset \<times> bytes fset \<Rightarrow> (bytes, conflict_node) fmap \<Rightarrow> (bytes, conflict_node) fmap" where
  "unlink rel nodes = (case rel of (tx, ps, cs) \<Rightarrow>
     fmmap_keys (\<lambda>h n. let n = (if h |\<in>| ps then n\<lparr>cn_children := cn_children n |-| {|tx|}\<rparr> else n)
                    in if h |\<in>| cs then n\<lparr>cn_parents := cn_parents n |-| {|tx|}\<rparr> else n) nodes)"

definition relationships :: "(bytes, conflict_node) fmap \<Rightarrow> bytes list \<Rightarrow> (bytes \<times> bytes fset \<times> bytes fset) list" where
  "relationships nodes removed =
     List.map_filter (\<lambda>tx. map_option (\<lambda>n. (tx, cn_parents n, cn_children n)) (fmlookup nodes tx)) removed"

definition remove_and_cascade :: "set_order \<Rightarrow> conflict_graph \<Rightarrow> bytes \<Rightarrow> conflict_graph \<times> (string + bytes list)" where
  "remove_and_cascade ord self tx_hash =
     (let removed = tx_hash # find_descendants ord tx_hash (cg_nodes self);
          nodes = fold unlink (relationships (cg_nodes self) removed) (fmdrops removed (cg_nodes self))
      in (self\<lparr>cg_nodes := nodes, conflict_sets := fmdrops removed (conflict_sets self),
            outpoint_index := fmfilter (\<lambda>op. filter (\<lambda>tx. tx \<notin> set removed) (holders (outpoint_index self) op) \<noteq> [])
              (fmmap (filter (\<lambda>tx. tx \<notin> set removed)) (outpoint_index self)),
            cg_stats := (cg_stats self)\<lparr>total_nodes := saturating_sub (total_nodes (cg_stats self)) (of_nat (length removed))\<rparr>\<rparr>,
          Inr removed))"

definition cg_has_conflicts :: "conflict_graph \<Rightarrow> bytes \<Rightarrow> bool" where
  "cg_has_conflicts self tx_hash = in_some_conflict (cg_nodes self) tx_hash"

definition get_conflicting_transactions :: "set_order \<Rightarrow> conflict_graph \<Rightarrow> bytes \<Rightarrow> bytes list" where
  "get_conflicting_transactions ord self tx_hash =
     (case fmlookup (cg_nodes self) tx_hash of None \<Rightarrow> [] | Some n \<Rightarrow> ord (conflicting_with n))"

definition flag_high_risk :: "bytes \<Rightarrow> conflict_graph \<times> bytes list \<Rightarrow> conflict_graph \<times> bytes list" where
  "flag_high_risk h st = (case st of (self, flagged) \<Rightarrow>
     (case fmlookup (cg_nodes self) h of
        None \<Rightarrow> (self, flagged)
      | Some n \<Rightarrow>
          if is_high_risk n then (self, flagged)
          else (self\<lparr>cg_nodes := fmupd h (n\<lparr>is_high_risk := True\<rparr>) (cg_nodes self),
                  cg_stats := (cg_stats self)\<lparr>high_risk_transactions := high_risk_transactions (cg_stats self) + 1\<rparr>\<rparr>, flagged @ [h])))"

definition mark_high_risk :: "set_order \<Rightarrow> conflict_graph \<Rightarrow> bytes \<Rightarrow> conflict_graph \<times> (string + bytes list)" where
  "mark_high_risk ord self tx_hash =
     (let (self, flagged) = flag_high_risk tx_hash (self, []);
          (self, flagged) = fold flag_high_risk (find_descendants ord tx_hash (cg_nodes self)) (self, flagged)
      in (self, Inr flagged))"

definition cg_get_node :: "conflict_graph \<Rightarrow> bytes \<Rightarrow> conflict_node option" where
  "cg_get_node self tx_hash = fmlookup (cg_nodes self) tx_hash"

definition cg_clear :: "conflict_graph \<Rightarrow> conflict_graph" where
  "cg_clear self = self\<lparr>outpoint_index := fmempty, cg_nodes := fmempty, conflict_sets := fmempty, cg_stats := conflict_graph_stats_default\<rparr>"

definition cg_node_count :: "conflict_graph \<Rightarrow> nat" where
  "cg_node_count self = size (fmdom (cg_nodes self))"

definition cg_is_empty :: "conflict_graph \<Rightarrow> bool" where
  "cg_is_empty self \<longleftrightarrow> fmdom (cg_nodes self) = {||}"

section \<open>Replacement by fee\<close>

definition MINIMUM_FEE_INCREMENT :: u64 where
  "MINIMUM_FEE_INCREMENT = 1"

datatype rbf_reason = HigherAbsoluteFee | HigherFeeRate | HigherFeeRateWithThreshold | DeterministicTiebreaker

datatype rbf_choice = KeepExisting | ReplaceExisting rbf_reason "bytes list" | CannotReplace string

record rbf_stats =
  total_evaluations :: u64
  replacements_performed :: u64
  rejections :: u64
  fee_rate_wins :: u64
  tiebreaker_wins :: u64

definition rbf_stats_default :: rbf_stats where
  "rbf_stats_default = \<lparr>total_evaluations = 0, replacements_performed = 0, rejections = 0, fee_rate_wins = 0, tiebreaker_wins = 0\<rparr>"

record rbf_evaluation =
  ev_choice :: rbf_choice
  ev_incoming_fee :: u64
  ev_incoming_size :: nat
  ev_existing_fee :: u64
  ev_existing_size :: nat
  ev_incoming_rate :: f64
  ev_existing_rate :: f64
  ev_incoming_tx_hash :: bytes
  ev_existing_tx_hash :: bytes

definition winner_hash :: "rbf_evaluation \<Rightarrow> bytes option" where
  "winner_hash self = (case ev_choice self of
     ReplaceExisting _ _ \<Rightarrow> Some (ev_incoming_tx_hash self)
   | KeepExisting \<Rightarrow> Some (ev_existing_tx_hash self)
   | CannotReplace _ \<Rightarrow> None)"

record rbf_manager =
  rbf_graph :: conflict_graph
  rbf_stats :: rbf_stats

definition rbf_manager_new :: "conflict_graph \<Rightarrow> rbf_manager" where
  "rbf_manager_new g = \<lparr>rbf_graph = g, rbf_stats = rbf_stats_default\<rparr>"

definition rbf_reject :: "rbf_manager \<Rightarrow> rbf_manager \<times> (string + rbf_choice)" where
  "rbf_reject self = (self\<lparr>rbf_stats := (rbf_stats self)\<lparr>rejections := rejections (rbf_stats self) + 1\<rparr>\<rparr>, Inr KeepExisting)"

definition rbf_replace :: "set_order \<Rightarrow> rbf_manager \<Rightarrow> bytes \<Rightarrow> rbf_reason \<Rightarrow> rbf_manager \<times> (string + rbf_choice)" where
  "rbf_replace ord self existing_hash reason =
     (case remove_and_cascade ord (rbf_graph self) existing_hash of
        (g, r) \<Rightarrow> (self\<lparr>rbf_graph := g, rbf_stats := (rbf_stats self)\<lparr>replacements_performed := replacements_performed (rbf_stats self) + 1\<rparr>\<rparr>,
                   Inr (ReplaceExisting reason (case r of Inl _ \<Rightarrow> [] | Inr evicted \<Rightarrow> evicted))))"

definition apply_deterministic_tiebreaker ::
  "set_order \<Rightarrow> rbf_manager \<Rightarrow> bytes \<Rightarrow> bytes \<Rightarrow> rbf_manager \<times> (string + rbf_choice)" where
  "apply_deterministic_tiebreaker ord self incoming_hash existing_hash =
     (if incoming_hash < existing_hash
      then rbf_replace ord (self\<lparr>rbf_stats := (rbf_stats self)\<lparr>tiebreaker_wins := tiebreaker_wins (rbf_stats self) + 1\<rparr>\<rparr>) existing_hash DeterministicTiebreaker
      else rbf_reject self)"

definition required_fee :: "u64 \<Rightarrow> nat \<Rightarrow> u64" where
  "required_fee existing_fee existing_size = existing_fee + of_nat existing_size * MINIMUM_FEE_INCREMENT"

definition evaluate_rbf_supremacy ::
  "set_order \<Rightarrow> rbf_manager \<Rightarrow> bytes \<Rightarrow> u64 \<Rightarrow> nat \<Rightarrow> bytes \<Rightarrow> u64 \<Rightarrow> nat \<Rightarrow> rbf_manager \<times> (string + rbf_choice)" where
  "evaluate_rbf_supremacy ord self incoming_hash incoming_fee incoming_size existing_hash existing_fee existing_size =
     (let self = self\<lparr>rbf_stats := (rbf_stats self)\<lparr>total_evaluations := total_evaluations (rbf_stats self) + 1\<rparr>\<rparr> in
      if \<not> incoming_size > 0 then (self, Inl ''Incoming transaction has zero size'')
      else
        let incoming_rate = f64_rate (unat incoming_fee) incoming_size in
        if \<not> existing_size > 0 then (self, Inl ''Existing transaction has zero size'')
        else
          let existing_rate = f64_rate (unat existing_fee) existing_size in
          if incoming_fee < required_fee existing_fee existing_size then rbf_reject self
          else if f64_less (f64_abs (f64_sub incoming_rate existing_rate)) (f64_lit 1 100)
          then apply_deterministic_tiebreaker ord self incoming_hash existing_hash
          else if f64_less existing_rate incoming_rate
          then rbf_replace ord (self\<lparr>rbf_stats := (rbf_stats self)\<lparr>fee_rate_wins := fee_rate_wins (rbf_stats self) + 1\<rparr>\<rparr>) existing_hash HigherFeeRateWithThreshold
          else rbf_reject self)"

fun evaluate_each ::
  "set_order \<Rightarrow> rbf_manager \<Rightarrow> bytes \<Rightarrow> u64 \<Rightarrow> nat \<Rightarrow> (bytes \<times> u64 \<times> nat) list \<Rightarrow> rbf_choice list \<Rightarrow> rbf_manager \<times> (string + rbf_choice list)" where
  "evaluate_each ord self h fee sz [] choices = (self, Inr choices)"
| "evaluate_each ord self h fee sz ((ch, cfee, csize) # cs) choices =
     (case evaluate_rbf_supremacy ord self h fee sz ch cfee csize of
        (self, Inl e) \<Rightarrow> (self, Inl e)
      | (self, Inr choice) \<Rightarrow> evaluate_each ord self h fee sz cs (choices @ [choice]))"

definition evaluate_rbf_conflicts ::
  "set_order \<Rightarrow> rbf_manager \<Rightarrow> bytes \<Rightarrow> u64 \<Rightarrow> nat \<Rightarrow> bytes list \<Rightarrow> (transaction \<times> u64 \<times> nat) list \<Rightarrow> rbf_manager \<times> (string + rbf_choice list)" where
  "evaluate_rbf_conflicts ord self incoming_hash incoming_fee incoming_size conflicting_hashes conflict_txs =
     (if length conflicting_hashes \<noteq> length conflict_txs then (self, Inl ''Mismatched number of conflicting transactions'')
      else evaluate_each ord self incoming_hash incoming_fee incoming_size (zip conflicting_hashes (map snd conflict_txs)) [])"

definition reset_stats :: "rbf_manager \<Rightarrow> rbf_manager" where
  "reset_stats self = self\<lparr>rbf_stats := rbf_stats_default\<rparr>"

section \<open>Conflicts\<close>

lemma alter_lookup: "fmlookup (alter k f m) x = (if x = k then map_option f (fmlookup m k) else fmlookup m x)"
  by (auto simp: alter_def split: option.splits)

lemma alter_dom [simp]: "fmdom (alter k f m) = fmdom m"
  by (auto simp: alter_def dest: fmdomI split: option.splits)

lemma conflicts_of_add: "b |\<in>| conflicts_of (add_conflict x y nodes) a \<longleftrightarrow> b |\<in>| conflicts_of nodes a \<or> a = x \<and> b = y \<and> x |\<in>| fmdom nodes"
  by (auto simp: conflicts_of_def add_conflict_def alter_lookup dest: fmdomI split: option.splits)

lemma meet_simps [simp]:
  "cg_nodes (meet_claimant h c self) = add_conflict c h (add_conflict h c (cg_nodes self))"
  "outpoint_index (meet_claimant h c self) = outpoint_index self" "conflict_sets (meet_claimant h c self) = conflict_sets self"
  by (simp_all add: meet_claimant_def count_conflict_def)

lemma fold_meet:
  "outpoint_index (fold (meet_claimant h) cs self) = outpoint_index self \<and> fmdom (cg_nodes (fold (meet_claimant h) cs self)) = fmdom (cg_nodes self) \<and>
   (\<forall>a b. b |\<in>| conflicts_of (cg_nodes (fold (meet_claimant h) cs self)) a \<longleftrightarrow>
      b |\<in>| conflicts_of (cg_nodes self) a \<or> a |\<in>| fmdom (cg_nodes self) \<and> (a = h \<and> b \<in> set cs \<or> b = h \<and> a \<in> set cs))"
proof (induction cs arbitrary: self)
  case (Cons c cs)
  have dom: "fmdom (cg_nodes (meet_claimant h c self)) = fmdom (cg_nodes self)" by (simp add: add_conflict_def)
  have "b |\<in>| conflicts_of (cg_nodes (meet_claimant h c self)) a \<longleftrightarrow>
      b |\<in>| conflicts_of (cg_nodes self) a \<or> a |\<in>| fmdom (cg_nodes self) \<and> (a = h \<and> b = c \<or> b = h \<and> a = c)" for a b
    by (auto simp: conflicts_of_add) (simp_all add: add_conflict_def)
  then show ?case using Cons [of "meet_claimant h c self"] dom by auto
qed simp

definition input_ops :: "(hash \<Rightarrow> bytes option) \<Rightarrow> (nat \<times> tx_input) list \<Rightarrow> (bytes \<times> u32) list" where
  "input_ops ser ins = map (\<lambda>(n, i). (the (ser (prev_tx i)), of_nat n)) ins"

lemma register_inputs_spec:
  assumes "\<forall>h. ser h \<noteq> None"
  shows "h |\<in>| fmdom (cg_nodes self) \<Longrightarrow> distinct (input_ops ser ins) \<Longrightarrow>
    \<exists>self' detected'. register_inputs ser h ins self detected = (self', Inr detected') \<and> fmdom (cg_nodes self') = fmdom (cg_nodes self) \<and>
      (\<forall>op. set (holders (outpoint_index self') op) = set (holders (outpoint_index self) op) \<union> (if op \<in> set (input_ops ser ins) then {h} else {})) \<and>
      (\<forall>a b. b |\<in>| conflicts_of (cg_nodes self') a \<longleftrightarrow> b |\<in>| conflicts_of (cg_nodes self) a \<or> a |\<in>| fmdom (cg_nodes self) \<and>
         (\<exists>op\<in>set (input_ops ser ins). a = h \<and> b \<in> set (holders (outpoint_index self) op) \<or> b = h \<and> a \<in> set (holders (outpoint_index self) op)))"
proof (induction ins arbitrary: self detected)
  case Nil
  then show ?case by (simp add: input_ops_def)
next
  case (Cons ni ins)
  obtain n i where ni: "ni = (n, i)" by (cases ni)
  obtain raw where raw: "ser (prev_tx i) = Some raw" using assms by blast
  let ?op = "(raw, of_nat n)"
  let ?ex = "holders (outpoint_index self) ?op"
  let ?s = "(fold (meet_claimant h) ?ex self)\<lparr>outpoint_index := fmupd ?op (?ex @ [h]) (outpoint_index self)\<rparr>"
  have ops: "input_ops ser (ni # ins) = ?op # input_ops ser ins" by (simp add: input_ops_def ni raw)
  note m = fold_meet [of h ?ex self]
  have step: "register_inputs ser h (ni # ins) self detected = register_inputs ser h ins ?s (detected @ ?ex)"
    using m by (simp add: ni outpoint_from_hash_def raw Let_def)
  have hold: "holders (outpoint_index ?s) op = (if op = ?op then ?ex @ [h] else holders (outpoint_index self) op)" for op
    by (simp add: holders_def)
  obtain self' detected' where IH: "register_inputs ser h ins ?s (detected @ ?ex) = (self', Inr detected')" "fmdom (cg_nodes self') = fmdom (cg_nodes ?s)"
      "\<forall>op. set (holders (outpoint_index self') op) = set (holders (outpoint_index ?s) op) \<union> (if op \<in> set (input_ops ser ins) then {h} else {})"
      "\<forall>a b. b |\<in>| conflicts_of (cg_nodes self') a \<longleftrightarrow> b |\<in>| conflicts_of (cg_nodes ?s) a \<or> a |\<in>| fmdom (cg_nodes ?s) \<and>
         (\<exists>op\<in>set (input_ops ser ins). a = h \<and> b \<in> set (holders (outpoint_index ?s) op) \<or> b = h \<and> a \<in> set (holders (outpoint_index ?s) op))"
    using Cons.IH [of ?s "detected @ ?ex"] Cons.prems m ops by fastforce
  have other: "op \<in> set (input_ops ser ins) \<Longrightarrow> holders (outpoint_index ?s) op = holders (outpoint_index self) op" for op
    using Cons.prems(2) ops hold by auto
  have 1: "\<forall>op. set (holders (outpoint_index self') op) = set (holders (outpoint_index self) op) \<union> (if op \<in> set (input_ops ser (ni # ins)) then {h} else {})"
    unfolding IH(3)[rule_format] hold ops by auto
  have 2: "\<forall>a b. b |\<in>| conflicts_of (cg_nodes self') a \<longleftrightarrow> b |\<in>| conflicts_of (cg_nodes self) a \<or> a |\<in>| fmdom (cg_nodes self) \<and>
         (\<exists>op\<in>set (input_ops ser (ni # ins)). a = h \<and> b \<in> set (holders (outpoint_index self) op) \<or> b = h \<and> a \<in> set (holders (outpoint_index self) op))"
  proof (intro allI)
    fix a b
    have bex: "(\<exists>op\<in>set (input_ops ser ins). a = h \<and> b \<in> set (holders (outpoint_index ?s) op) \<or> b = h \<and> a \<in> set (holders (outpoint_index ?s) op)) \<longleftrightarrow>
        (\<exists>op\<in>set (input_ops ser ins). a = h \<and> b \<in> set (holders (outpoint_index self) op) \<or> b = h \<and> a \<in> set (holders (outpoint_index self) op))"
      by (rule bex_cong [OF refl]) (simp only: other)
    show "b |\<in>| conflicts_of (cg_nodes self') a \<longleftrightarrow> b |\<in>| conflicts_of (cg_nodes self) a \<or> a |\<in>| fmdom (cg_nodes self) \<and>
         (\<exists>op\<in>set (input_ops ser (ni # ins)). a = h \<and> b \<in> set (holders (outpoint_index self) op) \<or> b = h \<and> a \<in> set (holders (outpoint_index self) op))"
      unfolding IH(4)[rule_format] bex ops using m by auto
  qed
  show ?case using step IH(1,2) m 1 2 by auto
qed

type_synonym cg_registration = "transaction \<times> bytes \<times> u64 \<times> nat"

fun cg_register_all :: "set_order \<Rightarrow> (hash \<Rightarrow> bytes option) \<Rightarrow> cg_registration list \<Rightarrow> conflict_graph \<Rightarrow> conflict_graph" where
  "cg_register_all ord ser [] self = self"
| "cg_register_all ord ser ((tx, h, fee, sz) # regs) self = cg_register_all ord ser regs (fst (cg_register_transaction ord ser self tx h fee sz))"

definition claims_at :: "(hash \<Rightarrow> bytes option) \<Rightarrow> cg_registration list \<Rightarrow> bytes \<Rightarrow> bytes \<times> u32 \<Rightarrow> bool" where
  "claims_at ser regs h op \<longleftrightarrow> (\<exists>tx fee sz. (tx, h, fee, sz) \<in> set regs \<and> op \<in> set (input_ops ser (enumerate 0 (inputs tx))))"

definition hashes_of :: "cg_registration list \<Rightarrow> bytes list" where
  "hashes_of regs = map (\<lambda>r. fst (snd r)) regs"

definition graph_exact :: "(hash \<Rightarrow> bytes option) \<Rightarrow> conflict_graph \<Rightarrow> cg_registration list \<Rightarrow> bool" where
  "graph_exact ser self regs \<longleftrightarrow> fset (fmdom (cg_nodes self)) = set (hashes_of regs) \<and>
     (\<forall>op h. h \<in> set (holders (outpoint_index self) op) \<longleftrightarrow> claims_at ser regs h op) \<and>
     (\<forall>a b. b |\<in>| conflicts_of (cg_nodes self) a \<longleftrightarrow> a \<noteq> b \<and> (\<exists>op. claims_at ser regs a op \<and> claims_at ser regs b op))"

lemma detect_transitive_nodes [simp]:
  "cg_nodes (detect_transitive_conflicts ord h self) = cg_nodes self"
  "outpoint_index (detect_transitive_conflicts ord h self) = outpoint_index self"
  by (simp_all add: detect_transitive_conflicts_def Let_def)

lemma distinct_input_ops: "length ins \<le> 2 ^ 32 \<Longrightarrow> distinct (input_ops ser (enumerate 0 ins))"
proof -
  assume "length ins \<le> 2 ^ 32"
  then have "unat (of_nat n :: u32) = n" if "n < length ins" for n
    using that by (simp add: unsigned_of_nat take_bit_nat_eq_self)
  then have "inj_on (of_nat :: nat \<Rightarrow> u32) {0..<length ins}" by (intro inj_on_inverseI [of _ unat]) simp
  then have "distinct (map of_nat [0..<length ins] :: u32 list)" by (simp add: distinct_map)
  moreover have "map snd (input_ops ser (enumerate 0 ins)) = map of_nat [0..<length ins]"
    by (rule nth_equalityI) (simp_all add: input_ops_def nth_enumerate_eq)
  ultimately show ?thesis by (metis distinct_map)
qed

lemma cg_register_exact:
  assumes "\<forall>h. ser h \<noteq> None" and "graph_exact ser self regs" and "h \<notin> set (hashes_of regs)" and "length (inputs tx) \<le> 2 ^ 32"
  shows "graph_exact ser (fst (cg_register_transaction ord ser self tx h fee sz)) (regs @ [(tx, h, fee, sz)])"
proof -
  let ?ops = "set (input_ops ser (enumerate 0 (inputs tx)))"
  define s0 where "s0 = self\<lparr>cg_nodes := fmupd h (conflict_node_new h fee sz) (cg_nodes self),
            cg_stats := (cg_stats self)\<lparr>total_nodes := total_nodes (cg_stats self) + 1\<rparr>\<rparr>"
  have s0: "h |\<in>| fmdom (cg_nodes s0)" "fmdom (cg_nodes s0) = finsert h (fmdom (cg_nodes self))" "outpoint_index s0 = outpoint_index self"
    by (simp_all add: s0_def)
  obtain s1 detected where r: "register_inputs ser h (enumerate 0 (inputs tx)) s0 [] = (s1, Inr detected)" "fmdom (cg_nodes s1) = fmdom (cg_nodes s0)"
      "\<And>op. set (holders (outpoint_index s1) op) = set (holders (outpoint_index self) op) \<union> (if op \<in> ?ops then {h} else {})"
      "\<And>a b. b |\<in>| conflicts_of (cg_nodes s1) a \<longleftrightarrow> b |\<in>| conflicts_of (cg_nodes s0) a \<or> a |\<in>| fmdom (cg_nodes s0) \<and>
         (\<exists>op\<in>?ops. a = h \<and> b \<in> set (holders (outpoint_index self) op) \<or> b = h \<and> a \<in> set (holders (outpoint_index self) op))"
    using register_inputs_spec [OF assms(1) s0(1) distinct_input_ops [OF assms(4)], of "[]"] unfolding s0(3) by blast
  have old: "\<And>op g. g \<in> set (holders (outpoint_index self) op) \<longleftrightarrow> claims_at ser regs g op"
    "\<And>a b. b |\<in>| conflicts_of (cg_nodes self) a \<longleftrightarrow> a \<noteq> b \<and> (\<exists>op. claims_at ser regs a op \<and> claims_at ser regs b op)"
    "fset (fmdom (cg_nodes self)) = set (hashes_of regs)" using assms(2) by (auto simp: graph_exact_def)
  have fresh: "\<not> claims_at ser regs h op" for op using assms(3) by (force simp: claims_at_def hashes_of_def)
  have known: "claims_at ser regs g op \<Longrightarrow> g |\<in>| fmdom (cg_nodes self)" for g op
    using old(3) by (force simp: claims_at_def hashes_of_def)
  have new: "claims_at ser (regs @ [(tx, h, fee, sz)]) g op \<longleftrightarrow> claims_at ser regs g op \<or> g = h \<and> op \<in> ?ops" for g op
    by (auto simp: claims_at_def)
  have none: "conflicts_of (cg_nodes s0) a = (if a = h then {||} else conflicts_of (cg_nodes self) a)" for a
    by (simp add: s0_def conflicts_of_def conflict_node_new_def)
  have hold: "g \<in> set (holders (outpoint_index s1) op) \<longleftrightarrow> claims_at ser (regs @ [(tx, h, fee, sz)]) g op" for g op
    unfolding r(3) new using old(1) by auto
  have edges: "b |\<in>| conflicts_of (cg_nodes s1) a \<longleftrightarrow>
      a \<noteq> b \<and> (\<exists>op. claims_at ser (regs @ [(tx, h, fee, sz)]) a op \<and> claims_at ser (regs @ [(tx, h, fee, sz)]) b op)" for a b
    unfolding r(4) none new old(1) s0(2) using old(2) fresh known by (cases "a = h"; cases "b = h") auto
  have "fst (cg_register_transaction ord ser self tx h fee sz) = detect_transitive_conflicts ord h s1"
    using r(1) by (simp add: cg_register_transaction_def s0_def Let_def)
  then show ?thesis using hold edges r(2) s0(2) old(3) by (simp add: graph_exact_def hashes_of_def)
qed

lemma cg_register_all_exact:
  assumes "\<forall>h. ser h \<noteq> None"
  shows "graph_exact ser self before \<Longrightarrow> distinct (hashes_of (before @ regs)) \<Longrightarrow> \<forall>(tx, h, fee, sz)\<in>set regs. length (inputs tx) \<le> 2 ^ 32 \<Longrightarrow>
    graph_exact ser (cg_register_all ord ser regs self) (before @ regs)"
proof (induction regs arbitrary: self before)
  case (Cons r regs)
  obtain tx h fee sz where r: "r = (tx, h, fee, sz)" by (cases r)
  have "h \<notin> set (hashes_of before)" "length (inputs tx) \<le> 2 ^ 32" using Cons.prems(2,3) by (auto simp: hashes_of_def r)
  then have "graph_exact ser (fst (cg_register_transaction ord ser self tx h fee sz)) (before @ [(tx, h, fee, sz)])"
    using cg_register_exact [OF assms Cons.prems(1)] by simp
  then show ?case using Cons.IH [of _ "before @ [(tx, h, fee, sz)]"] Cons.prems(2,3) by (simp add: r)
qed simp

lemma claims_at_unique:
  assumes "distinct (hashes_of regs)" and "(tx, h, fee, sz) \<in> set regs"
  shows "claims_at ser regs h op \<longleftrightarrow> op \<in> set (input_ops ser (enumerate 0 (inputs tx)))"
proof -
  have inj: "inj_on (\<lambda>r. fst (snd r)) (set regs)" using assms(1) by (simp add: hashes_of_def distinct_map)
  have "tx' = tx" if "(tx', h, fee', sz') \<in> set regs" for tx' fee' sz'
    using inj_onD [OF inj _ that assms(2)] by simp
  then show ?thesis using assms(2) unfolding claims_at_def by metis
qed

lemma common_op:
  assumes "\<forall>h. ser h \<noteq> None" and "length xs \<le> 2 ^ 32" and "length ys \<le> 2 ^ 32"
  shows "(\<exists>op. op \<in> set (input_ops ser (enumerate 0 xs)) \<and> op \<in> set (input_ops ser (enumerate 0 ys))) \<longleftrightarrow>
    (\<exists>n. n < length xs \<and> n < length ys \<and> ser (prev_tx (xs ! n)) = ser (prev_tx (ys ! n)))"
proof -
  have "input_ops ser (enumerate 0 zs) = map (\<lambda>n. (the (ser (prev_tx (zs ! n))), of_nat n)) [0..<length zs]" for zs
    by (rule nth_equalityI) (simp_all add: input_ops_def nth_enumerate_eq)
  then have op: "op \<in> set (input_ops ser (enumerate 0 zs)) \<longleftrightarrow> (\<exists>n<length zs. op = (the (ser (prev_tx (zs ! n))), of_nat n))" for op zs
    by auto
  have inj: "m = n" if "(of_nat m :: u32) = of_nat n" "m < 2 ^ 32" "n < 2 ^ 32" for m n :: nat
  proof -
    have "unat (of_nat m :: u32) = m" "unat (of_nat n :: u32) = n" using that(2,3) by (simp_all add: unsigned_of_nat take_bit_nat_eq_self)
    then show ?thesis using that(1) by metis
  qed
  have ser: "the (ser x) = the (ser y) \<longleftrightarrow> ser x = ser y" for x y using assms(1) by (metis option.exhaust_sel)
  show ?thesis
  proof
    assume "\<exists>op. op \<in> set (input_ops ser (enumerate 0 xs)) \<and> op \<in> set (input_ops ser (enumerate 0 ys))"
    then obtain m n where mn: "m < length xs" "n < length ys" "the (ser (prev_tx (xs ! m))) = the (ser (prev_tx (ys ! n)))" "(of_nat m :: u32) = of_nat n"
      unfolding op by auto
    then have "m = n" using inj assms(2,3) by simp
    then show "\<exists>n. n < length xs \<and> n < length ys \<and> ser (prev_tx (xs ! n)) = ser (prev_tx (ys ! n))" using mn ser by auto
  next
    assume "\<exists>n. n < length xs \<and> n < length ys \<and> ser (prev_tx (xs ! n)) = ser (prev_tx (ys ! n))"
    then show "\<exists>op. op \<in> set (input_ops ser (enumerate 0 xs)) \<and> op \<in> set (input_ops ser (enumerate 0 ys))" unfolding op by metis
  qed
qed

lemma graph_exact_new: "graph_exact ser conflict_graph_new []"
  by (simp add: graph_exact_def conflict_graph_new_def hashes_of_def holders_def claims_at_def conflicts_of_def)

section \<open>Cascades\<close>

lemma bfs_prefix: "\<exists>zs. bfs g acc visited queue = acc @ queue @ zs"
proof (induction g acc visited queue rule: bfs.induct)
  case (2 g acc visited x queue)
  obtain visited' queue' where p: "push_unseen (succs_of g x) visited queue = (visited', queue')" by fastforce
  obtain new where "queue' = queue @ new" using push_unseen_spec [OF p] by blast
  with "2.IH" [OF p [symmetric]] p show ?case by auto
qed simp

definition conflict_child_rel :: "set_order \<Rightarrow> (bytes, conflict_node) fmap \<Rightarrow> (bytes \<times> bytes) set" where
  "conflict_child_rel ord nodes = {(p, c). \<exists>n. fmlookup nodes p = Some n \<and> c \<in> set (ord (cn_children n))}"

lemma succ_rel_children: "succ_rel (cg_children_lists ord nodes) = conflict_child_rel ord nodes"
proof -
  have "c \<in> set (succs_of (cg_children_lists ord nodes) p) \<longleftrightarrow> (\<exists>n. fmlookup nodes p = Some n \<and> c \<in> set (ord (cn_children n)))" for p c
    by (cases "fmlookup nodes p") (simp_all add: succs_of_def cg_children_lists_def)
  then show ?thesis by (simp add: succ_rel_def conflict_child_rel_def)
qed

lemma find_descendants_exact:
  "distinct (h # find_descendants ord h nodes) \<and> set (h # find_descendants ord h nodes) = (conflict_child_rel ord nodes)\<^sup>* `` {h}"
proof -
  let ?b = "bfs (cg_children_lists ord nodes) [] {|h|} [h]"
  obtain zs where "?b = h # zs" using bfs_prefix [of "cg_children_lists ord nodes" "[]" "{|h|}" "[h]"] by auto
  then have "h # find_descendants ord h nodes = ?b" by (simp add: find_descendants_def)
  then show ?thesis using bfs_exact [of "cg_children_lists ord nodes" h] by (simp add: succ_rel_children)
qed

lemma unlink_lookup:
  "fmlookup (unlink (tx, ps, cs) nodes) h = map_option (\<lambda>n. n\<lparr>cn_children := (if h |\<in>| ps then cn_children n |-| {|tx|} else cn_children n),
     cn_parents := (if h |\<in>| cs then cn_parents n |-| {|tx|} else cn_parents n)\<rparr>) (fmlookup nodes h)"
  by (cases "fmlookup nodes h") (auto simp: unlink_def Let_def)

lemma fold_unlink:
  "fmdom (fold unlink rels nodes) = fmdom nodes \<and> (\<forall>h. conflicts_of (fold unlink rels nodes) h = conflicts_of nodes h) \<and>
   (\<forall>h n'. fmlookup (fold unlink rels nodes) h = Some n' \<longrightarrow> (\<exists>n. fmlookup nodes h = Some n \<and>
      (\<forall>c. c |\<in>| cn_children n' \<longleftrightarrow> c |\<in>| cn_children n \<and> (\<forall>ps cs. (c, ps, cs) \<in> set rels \<longrightarrow> h |\<notin>| ps))))"
proof (induction rels arbitrary: nodes)
  case (Cons rel rels)
  obtain tx ps cs where rel: "rel = (tx, ps, cs)" by (cases rel)
  have dom: "fmdom (unlink rel nodes) = fmdom nodes" by (simp add: rel unlink_def fmdom_fmmap_keys)
  have conf: "conflicts_of (unlink rel nodes) h = conflicts_of nodes h" for h
    by (auto simp: rel conflicts_of_def unlink_lookup split: option.splits)
  have kids: "\<exists>n. fmlookup nodes h = Some n \<and> (\<forall>c. c |\<in>| cn_children n' \<longleftrightarrow> c |\<in>| cn_children n \<and> (c = tx \<longrightarrow> h |\<notin>| ps))"
    if "fmlookup (unlink rel nodes) h = Some n'" for h n'
    using that by (auto simp: rel unlink_lookup)
  show ?case
  proof (intro conjI allI impI)
    show "fmdom (fold unlink (rel # rels) nodes) = fmdom nodes" "conflicts_of (fold unlink (rel # rels) nodes) h = conflicts_of nodes h" for h
      using Cons [of "unlink rel nodes"] dom conf by simp_all
    fix h n'
    assume "fmlookup (fold unlink (rel # rels) nodes) h = Some n'"
    then have "fmlookup (fold unlink rels (unlink rel nodes)) h = Some n'" by simp
    from Cons [of "unlink rel nodes", THEN conjunct2, THEN conjunct2, rule_format, OF this] obtain n1 where n1: "fmlookup (unlink rel nodes) h = Some n1"
      "\<forall>c. c |\<in>| cn_children n' \<longleftrightarrow> c |\<in>| cn_children n1 \<and> (\<forall>ps cs. (c, ps, cs) \<in> set rels \<longrightarrow> h |\<notin>| ps)"
      by blast
    obtain n where n: "fmlookup nodes h = Some n" "\<forall>c. c |\<in>| cn_children n1 \<longleftrightarrow> c |\<in>| cn_children n \<and> (c = tx \<longrightarrow> h |\<notin>| ps)"
      using kids [OF n1(1)] by blast
    have "(\<forall>qs cs'. (c, qs, cs') \<in> set (rel # rels) \<longrightarrow> h |\<notin>| qs) \<longleftrightarrow>
        (c = tx \<longrightarrow> h |\<notin>| ps) \<and> (\<forall>qs cs'. (c, qs, cs') \<in> set rels \<longrightarrow> h |\<notin>| qs)" for c
      unfolding rel by (simp add: all_conj_distrib imp_conjR disj_imp) blast
    with n n1(2) show "\<exists>n. fmlookup nodes h = Some n \<and>
      (\<forall>c. c |\<in>| cn_children n' \<longleftrightarrow> c |\<in>| cn_children n \<and> (\<forall>ps cs. (c, ps, cs) \<in> set (rel # rels) \<longrightarrow> h |\<notin>| ps))"
      by (intro exI [of _ n]) simp
  qed
qed simp

definition links_known :: "(bytes, conflict_node) fmap \<Rightarrow> bool" where
  "links_known nodes \<longleftrightarrow> (\<forall>p n. fmlookup nodes p = Some n \<longrightarrow>
     (\<forall>c. c |\<in>| cn_children n \<longrightarrow> (\<exists>m. fmlookup nodes c = Some m \<and> p |\<in>| cn_parents m)))"

lemma set_relationships: "(c, ps, cs) \<in> set (relationships nodes removed) \<longleftrightarrow>
   c \<in> set removed \<and> (\<exists>n. fmlookup nodes c = Some n \<and> ps = cn_parents n \<and> cs = cn_children n)"
  by (auto simp: relationships_def List.map_filter_def image_iff split: option.splits)

lemma cascade_spec:
  assumes "remove_and_cascade ord self h = (self', Inr removed)"
  shows "distinct removed \<and> set removed = (conflict_child_rel ord (cg_nodes self))\<^sup>* `` {h} \<and>
    fset (fmdom (cg_nodes self')) = fset (fmdom (cg_nodes self)) - set removed \<and>
    conflicts_of (cg_nodes self') x = (if x \<in> set removed then {||} else conflicts_of (cg_nodes self) x) \<and>
    holders (outpoint_index self') op = filter (\<lambda>x. x \<notin> set removed) (holders (outpoint_index self) op) \<and>
    (links_known (cg_nodes self) \<longrightarrow> (\<forall>p n. fmlookup (cg_nodes self') p = Some n \<longrightarrow> fset (cn_children n) \<inter> set removed = {}))"
proof -
  let ?rels = "relationships (cg_nodes self) removed"
  have r: "removed = h # find_descendants ord h (cg_nodes self)"
    "cg_nodes self' = fold unlink ?rels (fmdrops removed (cg_nodes self))"
    "outpoint_index self' = fmfilter (\<lambda>op. filter (\<lambda>tx. tx \<notin> set removed) (holders (outpoint_index self) op) \<noteq> [])
              (fmmap (filter (\<lambda>tx. tx \<notin> set removed)) (outpoint_index self))"
    using assms by (auto simp: remove_and_cascade_def Let_def)
  note u = fold_unlink [of ?rels "fmdrops removed (cg_nodes self)"]
  have dom: "fset (fmdom (fmdrops removed (cg_nodes self))) = fset (fmdom (cg_nodes self)) - set removed"
    by (auto simp: fmlookup_dom_iff split: if_splits)
  have conf: "conflicts_of (fmdrops removed (cg_nodes self)) x = (if x \<in> set removed then {||} else conflicts_of (cg_nodes self) x)"
    by (simp add: conflicts_of_def)
  have hold: "holders (outpoint_index self') op = filter (\<lambda>x. x \<notin> set removed) (holders (outpoint_index self) op)"
    by (auto simp: r(3) holders_def split: option.splits)
  have links: "fset (cn_children n) \<inter> set removed = {}" if known: "links_known (cg_nodes self)" and node: "fmlookup (cg_nodes self') p = Some n" for p n
  proof -
    from u [THEN conjunct2, THEN conjunct2, rule_format, OF node [unfolded r(2)]] obtain n0 where n0: "fmlookup (fmdrops removed (cg_nodes self)) p = Some n0"
      "\<forall>c. c |\<in>| cn_children n \<longleftrightarrow> c |\<in>| cn_children n0 \<and> (\<forall>ps cs. (c, ps, cs) \<in> set ?rels \<longrightarrow> p |\<notin>| ps)"
      by blast
    then have p0: "fmlookup (cg_nodes self) p = Some n0" by (simp split: if_splits)
    have False if kid: "c |\<in>| cn_children n" and gone: "c \<in> set removed" for c
    proof -
      obtain m where "fmlookup (cg_nodes self) c = Some m" "p |\<in>| cn_parents m"
        using known p0 n0(2) kid unfolding links_known_def by blast
      then have "(c, cn_parents m, cn_children m) \<in> set ?rels" "p |\<in>| cn_parents m" using gone by (simp_all add: set_relationships)
      then show False using n0(2) kid by blast
    qed
    then show ?thesis by blast
  qed
  have set_eq: "distinct removed \<and> set removed = (conflict_child_rel ord (cg_nodes self))\<^sup>* `` {h}"
    using find_descendants_exact [of h ord "cg_nodes self"] by (simp only: r(1))
  have d: "fset (fmdom (cg_nodes self')) = fset (fmdom (cg_nodes self)) - set removed"
    unfolding r(2) u [THEN conjunct1] by (rule dom)
  have c: "conflicts_of (cg_nodes self') x = (if x \<in> set removed then {||} else conflicts_of (cg_nodes self) x)"
    unfolding r(2) u [THEN conjunct2, THEN conjunct1, rule_format] by (rule conf)
  have l: "links_known (cg_nodes self) \<longrightarrow> (\<forall>p n. fmlookup (cg_nodes self') p = Some n \<longrightarrow> fset (cn_children n) \<inter> set removed = {})"
    using links by blast
  show ?thesis using set_eq d c hold l by (elim conjE) (intro conjI; assumption)
qed

section \<open>Replacement\<close>

lemma replace_choice:
  assumes "rbf_replace ord self eh reason = (self', Inr choice)"
  shows "\<exists>evicted. choice = ReplaceExisting reason evicted \<and> remove_and_cascade ord (rbf_graph self) eh = (rbf_graph self', Inr evicted)"
  using assms by (auto simp: rbf_replace_def remove_and_cascade_def Let_def)

lemma evaluate_cases:
  assumes "evaluate_rbf_supremacy ord self ih ifee isz eh efee esz = (self', Inr choice)"
  shows "0 < isz \<and> 0 < esz \<and>
    (choice = KeepExisting \<and> rbf_graph self' = rbf_graph self \<or>
     (\<exists>reason evicted. choice = ReplaceExisting reason evicted \<and> \<not> ifee < required_fee efee esz \<and>
        remove_and_cascade ord (rbf_graph self) eh = (rbf_graph self', Inr evicted) \<and>
        (reason = DeterministicTiebreaker \<and> ih < eh \<or>
         reason = HigherFeeRateWithThreshold \<and> f64_less (f64_rate (unat efee) esz) (f64_rate (unat ifee) isz))))"
proof -
  have sizes: "0 < isz" "0 < esz" using assms by (auto simp: evaluate_rbf_supremacy_def Let_def split: if_splits)
  let ?s = "self\<lparr>rbf_stats := (rbf_stats self)\<lparr>total_evaluations := total_evaluations (rbf_stats self) + 1\<rparr>\<rparr>"
  let ?close = "f64_less (f64_abs (f64_sub (f64_rate (unat ifee) isz) (f64_rate (unat efee) esz))) (f64_lit 1 100)"
    and ?higher = "f64_less (f64_rate (unat efee) esz) (f64_rate (unat ifee) isz)"
  have eval: "(if ifee < required_fee efee esz then rbf_reject ?s
      else if ?close then if ih < eh
        then rbf_replace ord (?s\<lparr>rbf_stats := (rbf_stats ?s)\<lparr>tiebreaker_wins := tiebreaker_wins (rbf_stats ?s) + 1\<rparr>\<rparr>) eh DeterministicTiebreaker
        else rbf_reject ?s
      else if ?higher
        then rbf_replace ord (?s\<lparr>rbf_stats := (rbf_stats ?s)\<lparr>fee_rate_wins := fee_rate_wins (rbf_stats ?s) + 1\<rparr>\<rparr>) eh HigherFeeRateWithThreshold
        else rbf_reject ?s) = (self', Inr choice)"
    using assms sizes unfolding evaluate_rbf_supremacy_def Let_def apply_deterministic_tiebreaker_def by simp
  have reject: "choice = KeepExisting \<and> rbf_graph self' = rbf_graph self" if "rbf_reject ?s = (self', Inr choice)"
    using that by (auto simp: rbf_reject_def)
  show ?thesis
  proof (cases "ifee < required_fee efee esz \<or> \<not> (if ?close then ih < eh else ?higher)")
    case True
    then show ?thesis using eval sizes reject by (auto split: if_splits)
  next
    case False
    then show ?thesis
      using eval sizes by (cases ?close) (auto dest!: replace_choice)
  qed
qed

lemma required_fee_exact: "unat efee + esz < 2 ^ 64 \<Longrightarrow> unat (required_fee efee esz) = unat efee + esz"
  by (simp add: required_fee_def MINIMUM_FEE_INCREMENT_def unat_add_small unsigned_of_nat take_bit_nat_eq_self)

section \<open>Properties\<close>

text \<open>After any registrations of distinct transactions, two of them are in conflict exactly when at the same position of their
  inputs they spend the same transaction: positions are compared, and not the indices of the outputs that are spent.\<close>

theorem conflicts_by_position:
  assumes "\<forall>h. ser h \<noteq> None" and "distinct (hashes_of regs)" and "\<forall>(tx, h, fee, sz)\<in>set regs. length (inputs tx) \<le> 2 ^ 32"
    and "(ta, a, fa, sa) \<in> set regs" and "(tb, b, fb, sb) \<in> set regs" and "a \<noteq> b"
  shows "b |\<in>| conflicts_of (cg_nodes (cg_register_all ord ser regs conflict_graph_new)) a \<longleftrightarrow>
    (\<exists>n. n < length (inputs ta) \<and> n < length (inputs tb) \<and> ser (prev_tx (inputs ta ! n)) = ser (prev_tx (inputs tb ! n)))"
proof -
  have "graph_exact ser (cg_register_all ord ser regs conflict_graph_new) ([] @ regs)"
    using cg_register_all_exact [OF assms(1) graph_exact_new, of regs ord] assms(2,3) by simp
  then have "b |\<in>| conflicts_of (cg_nodes (cg_register_all ord ser regs conflict_graph_new)) a \<longleftrightarrow>
      (\<exists>op. claims_at ser regs a op \<and> claims_at ser regs b op)" using assms(6) by (simp add: graph_exact_def)
  also have "\<dots> \<longleftrightarrow> (\<exists>op. op \<in> set (input_ops ser (enumerate 0 (inputs ta))) \<and> op \<in> set (input_ops ser (enumerate 0 (inputs tb))))"
    using claims_at_unique [OF assms(2) assms(4)] claims_at_unique [OF assms(2) assms(5)] by simp
  also have "\<dots> \<longleftrightarrow> (\<exists>n. n < length (inputs ta) \<and> n < length (inputs tb) \<and> ser (prev_tx (inputs ta ! n)) = ser (prev_tx (inputs tb ! n)))"
    by (rule common_op [OF assms(1)]) (use assms(3-5) in auto)
  finally show ?thesis .
qed

text \<open>Removal with its cascade ends and removes the transaction and all its descendants, once each, from nodes and claims; no
  remaining node keeps a link to a removed one when links lead to known nodes. The conflicts recorded for the remaining
  transactions are not changed, so they keep naming removed ones.\<close>

theorem conflict_cascade_exact:
  assumes "remove_and_cascade ord self h = (self', Inr removed)"
  shows "distinct removed \<and> set removed = (conflict_child_rel ord (cg_nodes self))\<^sup>* `` {h} \<and>
    fset (fmdom (cg_nodes self')) = fset (fmdom (cg_nodes self)) - set removed \<and>
    conflicts_of (cg_nodes self') x = (if x \<in> set removed then {||} else conflicts_of (cg_nodes self) x) \<and>
    holders (outpoint_index self') op = filter (\<lambda>x. x \<notin> set removed) (holders (outpoint_index self) op) \<and>
    (links_known (cg_nodes self) \<longrightarrow> (\<forall>p n. fmlookup (cg_nodes self') p = Some n \<longrightarrow> fset (cn_children n) \<inter> set removed = {}))"
  by (rule cascade_spec [OF assms])

text \<open>C36: When the fee of the existing transaction and its size add up below \<open>2\<^sup>64\<close> (the code adds them with wrapping), and
  both fees and both sizes are below \<open>2\<^sup>53\<close>: a replacement pays the fee of the replaced transaction and one unit for each of
  its bytes, so it pays strictly more; it is decided by a rate that is strictly greater, or by a smaller hash; the replaced
  transaction is evicted with its descendants. Otherwise nothing is evicted and the graph stays as it was.\<close>

theorem replacement_sound:
  assumes "evaluate_rbf_supremacy ord self ih ifee isz eh efee esz = (self', Inr choice)" and "unat efee + esz < 2 ^ 64"
    and "unat ifee < 2 ^ 53" and "unat efee < 2 ^ 53" and "isz < 2 ^ 53" and "esz < 2 ^ 53"
  shows "choice = KeepExisting \<and> rbf_graph self' = rbf_graph self \<or>
    (\<exists>reason evicted. choice = ReplaceExisting reason evicted \<and> unat efee + esz \<le> unat ifee \<and> efee < ifee \<and>
       remove_and_cascade ord (rbf_graph self) eh = (rbf_graph self', Inr evicted) \<and>
       (if reason = DeterministicTiebreaker then ih < eh
        else reason = HigherFeeRateWithThreshold \<and> unat efee * isz < unat ifee * esz))"
proof -
  note c = evaluate_cases [OF assms(1)]
  have paid: "unat efee + esz \<le> unat ifee" "efee < ifee" if "\<not> ifee < required_fee efee esz" "0 < esz"
    using that required_fee_exact [OF assms(2)] by (simp_all add: word_less_nat_alt)
  have rate: "unat efee * isz < unat ifee * esz" if "f64_less (f64_rate (unat efee) esz) (f64_rate (unat ifee) isz)" "0 < isz" "0 < esz"
    using f64_rate_less_exact [OF assms(4,6,3,5) that(3,2,1)] .
  show ?thesis using c paid rate by auto
qed

subsection \<open>Examples\<close>

definition two_inputs :: "u32 \<Rightarrow> transaction" where
  "two_inputs n = \<lparr>tx_id = Hash [], inputs = [\<lparr>prev_tx = Hash [9], index = n, signature = [], pubkey = [], sighash_type = SigHashAll\<rparr>],
     outputs = [], execution_payload = [], contract_address = None, gas_limit = 0, max_fee_per_gas = 0, chain_id = 1, locktime = 0\<rparr>"

theorem conflicts_by_position_witness:
  "[2] |\<in>| conflicts_of (cg_nodes (cg_register_all sorted_list_of_fset (\<lambda>h. Some (as_bytes h))
     [(two_inputs 0, [1], 10, 100), (two_inputs 1, [2], 20, 100)] conflict_graph_new)) [1] \<and>
   map outpoint_of (inputs (two_inputs 0)) \<noteq> map outpoint_of (inputs (two_inputs 1))"
  using conflicts_by_position [of "\<lambda>h. Some (as_bytes h)" "[(two_inputs 0, [1], 10, 100), (two_inputs 1, [2], 20, 100)]"
      "two_inputs 0" "[1]" 10 100 "two_inputs 1" "[2]" 20 100 sorted_list_of_fset]
  by (simp add: two_inputs_def hashes_of_def outpoint_of_def)

theorem conflict_cascade_exact_witness:
  "\<exists>self' removed. remove_and_cascade sorted_list_of_fset conflict_graph_new [1] = (self', Inr removed) \<and> set removed = {[1]}"
proof -
  obtain self' removed where run: "remove_and_cascade sorted_list_of_fset conflict_graph_new [1] = (self', Inr removed)"
    by (simp add: remove_and_cascade_def Let_def)
  have "conflict_child_rel sorted_list_of_fset (cg_nodes conflict_graph_new) = {}" by (simp add: conflict_child_rel_def conflict_graph_new_def)
  with conflict_cascade_exact [OF run, of "[]" "([], 0)"] run show ?thesis by simp
qed

theorem replacement_sound_witness:
  "\<exists>self' choice. evaluate_rbf_supremacy sorted_list_of_fset (rbf_manager_new conflict_graph_new) [1] 1001 100 [2] 1000 100 = (self', Inr choice) \<and>
     choice = KeepExisting \<and> rbf_graph self' = conflict_graph_new"
proof -
  let ?m = "rbf_manager_new conflict_graph_new"
  obtain self' choice where run: "evaluate_rbf_supremacy sorted_list_of_fset ?m [1] 1001 100 [2] 1000 100 = (self', Inr choice)"
    by (simp add: evaluate_rbf_supremacy_def rbf_reject_def required_fee_def MINIMUM_FEE_INCREMENT_def Let_def)
  from replacement_sound [OF this] have "choice = KeepExisting \<and> rbf_graph self' = rbf_graph ?m" by auto
  with run show ?thesis by (auto simp: rbf_manager_new_def)
qed

end
