(* ===== verification/Gossip_Filter.thy ===== *)
theory Gossip_Filter
  imports Node_Db Ieee_Double
begin

text \<open>
  The filters of incoming gossip: \<open>network/messaging/\<close> \<open>spam_filter.rs\<close> (duplicates, grey list, sizes, rate limit by token
  buckets in \<open>f64\<close>), \<open>cache.rs\<close> (recent message ids with persistence) and \<open>message_filter.rs\<close>, which combines them.
  An instant is the number of nanoseconds on the monotonic clock and a duration a number of nanoseconds; each operation
  reads the clock once, as the argument \<open>now\<close>.

  The peer scores are in a \<open>DashMap\<close>. \<open>check_message\<close> keeps the guard of the sender's entry until it returns and meanwhile
  enters the map again for the same peer. The documentation of \<open>DashMap\<close> says that this may block forever. The argument
  \<open>reenter\<close> says for which pairs of a guarded and a requested key the second access returns, and an operation that does not
  return has the result \<open>None\<close>; \<open>guards_exclude\<close> is the case in which it always blocks.
\<close>

section \<open>Settings and results\<close>

type_synonym peer_id = bytes
type_synonym message_id = bytes
type_synonym instant = nat
type_synonym duration = nat

definition NANOS_PER_SEC :: nat where
  "NANOS_PER_SEC = 1000000000"

definition as_secs :: "duration \<Rightarrow> nat" where
  "as_secs d = d div NANOS_PER_SEC"

definition as_secs_f64 :: "duration \<Rightarrow> f64" where
  "as_secs_f64 d = f64_add (f64_of_nat (as_secs d)) (f64_rate (d mod NANOS_PER_SEC) NANOS_PER_SEC)"

record spam_protection_config =
  max_messages_per_window :: nat
  rate_limit_window :: duration
  max_transaction_size :: nat
  max_block_size :: nat
  greylist_threshold :: f64
  greylist_duration :: duration
  initial_peer_score :: f64
  rate_limit_violation_penalty :: f64
  invalid_message_penalty :: f64
  oversized_message_penalty :: f64
  valid_message_reward :: f64

definition spam_protection_config_default :: spam_protection_config where
  "spam_protection_config_default =
     \<lparr>max_messages_per_window = 50, rate_limit_window = 1 * NANOS_PER_SEC, max_transaction_size = 1024 * 1024,
      max_block_size = 2 * 1024 * 1024, greylist_threshold = f64_lit (- 500) 1, greylist_duration = 300 * NANOS_PER_SEC,
      initial_peer_score = f64_lit 0 1, rate_limit_violation_penalty = f64_lit (- 10) 1,
      invalid_message_penalty = f64_lit (- 20) 1, oversized_message_penalty = f64_lit (- 15) 1,
      valid_message_reward = f64_lit 1 2\<rparr>"

definition spam_config_validate :: "spam_protection_config \<Rightarrow> string + unit" where
  "spam_config_validate c =
     (if max_messages_per_window c = 0 then Inl ''max_messages_per_window must be > 0''
      else if as_secs (rate_limit_window c) = 0 then Inl ''rate_limit_window must be > 0''
      else if max_transaction_size c = 0 then Inl ''max_transaction_size must be > 0''
      else if max_block_size c = 0 then Inl ''max_block_size must be > 0''
      else Inr ())"

datatype spam_filter_result =
  Allow | RateLimitExceeded | OversizedMessage | Duplicate | PeerGreylisted | InvalidMessage string

datatype spam_message_type = TransactionMessage | BlockMessage

section \<open>Token buckets\<close>

record token_bucket =
  tb_tokens :: f64
  tb_capacity :: f64
  tb_last_refill :: instant
  tb_refill_rate :: f64

definition token_bucket_new :: "instant \<Rightarrow> f64 \<Rightarrow> f64 \<Rightarrow> token_bucket" where
  "token_bucket_new now cap rate = \<lparr>tb_tokens = cap, tb_capacity = cap, tb_last_refill = now, tb_refill_rate = rate\<rparr>"

definition refill :: "instant \<Rightarrow> token_bucket \<Rightarrow> token_bucket" where
  "refill now b = (let elapsed = as_secs_f64 (now - tb_last_refill b) in
     b\<lparr>tb_tokens := f64_minimum (f64_add (tb_tokens b) (f64_mul elapsed (tb_refill_rate b))) (tb_capacity b),
       tb_last_refill := now\<rparr>)"

definition try_consume :: "instant \<Rightarrow> token_bucket \<Rightarrow> f64 \<Rightarrow> token_bucket \<times> bool" where
  "try_consume now b n = (let b' = refill now b in
     if f64_le n (tb_tokens b') then (b'\<lparr>tb_tokens := f64_sub (tb_tokens b') n\<rparr>, True) else (b', False))"

section \<open>Scores of peers\<close>

record peer_score =
  ps_score :: f64
  is_greylisted :: bool
  greylist_expires :: "instant option"

definition peer_score_new :: "spam_protection_config \<Rightarrow> peer_score" where
  "peer_score_new c = \<lparr>ps_score = initial_peer_score c, is_greylisted = False, greylist_expires = None\<rparr>"

definition check_greylist_expiry :: "instant \<Rightarrow> peer_score \<Rightarrow> peer_score" where
  "check_greylist_expiry now s = (case greylist_expires s of
     Some expiry \<Rightarrow> if expiry \<le> now then s\<lparr>is_greylisted := False, greylist_expires := None\<rparr> else s
   | None \<Rightarrow> s)"

definition apply_greylist :: "spam_protection_config \<Rightarrow> instant \<Rightarrow> peer_score \<Rightarrow> peer_score" where
  "apply_greylist c now s = s\<lparr>is_greylisted := True, greylist_expires := Some (now + greylist_duration c)\<rparr>"

definition update_score :: "spam_protection_config \<Rightarrow> instant \<Rightarrow> f64 \<Rightarrow> peer_score \<Rightarrow> peer_score" where
  "update_score c now delta s = (let s' = s\<lparr>ps_score := f64_add (ps_score s) delta\<rparr> in
     if f64_le (ps_score s') (greylist_threshold c) \<and> \<not> is_greylisted s' then apply_greylist c now s' else s')"

section \<open>The spam filter\<close>

record spam_filter =
  sf_config :: spam_protection_config
  token_buckets :: "(peer_id, token_bucket) fmap"
  peer_scores :: "(peer_id, peer_score) fmap"
  sf_message_cache :: "(message_id, instant) fmap"
  cache_ttl :: duration

definition spam_filter_new :: "spam_protection_config \<Rightarrow> string + spam_filter" where
  "spam_filter_new c = bind_res (spam_config_validate c) (\<lambda>_.
     Inr \<lparr>sf_config = c, token_buckets = fmempty, peer_scores = fmempty, sf_message_cache = fmempty,
          cache_ttl = 300 * NANOS_PER_SEC\<rparr>)"

definition cleanup_cache :: "instant \<Rightarrow> spam_filter \<Rightarrow> spam_filter" where
  "cleanup_cache now f = f\<lparr>sf_message_cache :=
     fmfilter (\<lambda>i. case fmlookup (sf_message_cache f) i of Some t \<Rightarrow> now - t < cache_ttl f | None \<Rightarrow> False) (sf_message_cache f)\<rparr>"

definition is_duplicate :: "instant \<Rightarrow> spam_filter \<Rightarrow> message_id \<Rightarrow> spam_filter \<times> bool" where
  "is_duplicate now f i = (let f' = cleanup_cache now f in (f', fmlookup (sf_message_cache f') i \<noteq> None))"

definition add_to_cache :: "instant \<Rightarrow> message_id \<Rightarrow> spam_filter \<Rightarrow> spam_filter" where
  "add_to_cache now i f = f\<lparr>sf_message_cache := fmupd i now (sf_message_cache f)\<rparr>"

definition check_message_size :: "spam_filter \<Rightarrow> bytes \<Rightarrow> spam_message_type \<Rightarrow> bool" where
  "check_message_size f data mt = (length data \<le>
     (case mt of TransactionMessage \<Rightarrow> max_transaction_size (sf_config f) | BlockMessage \<Rightarrow> max_block_size (sf_config f)))"

definition new_bucket :: "spam_protection_config \<Rightarrow> instant \<Rightarrow> token_bucket" where
  "new_bucket c now = (let cap = f64_of_nat (max_messages_per_window c); rate = f64_div cap (as_secs_f64 (rate_limit_window c))
     in token_bucket_new now cap rate)"

definition check_rate_limit :: "instant \<Rightarrow> spam_filter \<Rightarrow> peer_id \<Rightarrow> spam_filter \<times> bool" where
  "check_rate_limit now f p = (let b = (case fmlookup (token_buckets f) p of Some b \<Rightarrow> b | None \<Rightarrow> new_bucket (sf_config f) now);
     (b', ok) = try_consume now b (f64_lit 1 1) in (f\<lparr>token_buckets := fmupd p b' (token_buckets f)\<rparr>, ok))"

definition update_entry :: "(peer_score \<Rightarrow> peer_score) \<Rightarrow> peer_id \<Rightarrow> spam_filter \<Rightarrow> spam_filter" where
  "update_entry g p f = (case fmlookup (peer_scores f) p of
     Some s \<Rightarrow> f\<lparr>peer_scores := fmupd p (g s) (peer_scores f)\<rparr> | None \<Rightarrow> f)"

text \<open>\<open>penalize_peer\<close>, \<open>reward_peer\<close> and \<open>update_peer_score\<close> enter the map of scores; \<open>free\<close> says whether the access returns. The
  last one only writes to the log.\<close>

definition penalize_peer :: "bool \<Rightarrow> instant \<Rightarrow> peer_id \<Rightarrow> f64 \<Rightarrow> spam_filter \<Rightarrow> spam_filter option" where
  "penalize_peer free now p penalty f =
     (if free then Some (update_entry (update_score (sf_config f) now penalty) p f) else None)"

definition reward_peer :: "bool \<Rightarrow> peer_id \<Rightarrow> f64 \<Rightarrow> spam_filter \<Rightarrow> spam_filter option" where
  "reward_peer free p reward f =
     (if free then Some (update_entry (\<lambda>s. s\<lparr>ps_score := f64_add (ps_score s) reward\<rparr>) p f) else None)"

definition update_peer_score :: "bool \<Rightarrow> spam_filter \<Rightarrow> spam_filter option" where
  "update_peer_score free f = (if free then Some f else None)"

definition enter_peer :: "instant \<Rightarrow> peer_id \<Rightarrow> spam_filter \<Rightarrow> spam_filter \<times> peer_score" where
  "enter_peer now p f = (let s = (case fmlookup (peer_scores f) p of Some s \<Rightarrow> s | None \<Rightarrow> peer_score_new (sf_config f));
     s' = check_greylist_expiry now s in (f\<lparr>peer_scores := fmupd p s' (peer_scores f)\<rparr>, s'))"

definition check_message ::
  "(peer_id \<Rightarrow> peer_id \<Rightarrow> bool) \<Rightarrow> instant \<Rightarrow> spam_filter \<Rightarrow> peer_id \<Rightarrow> message_id \<Rightarrow> bytes \<Rightarrow> spam_message_type \<Rightarrow>
   (spam_filter \<times> spam_filter_result) option" where
  "check_message reenter now f0 p i data mt = (let (f1, dup) = is_duplicate now f0 i in
     if dup then Some (f1, Duplicate)
     else let (f2, s) = enter_peer now p f1; free = reenter p p; c = sf_config f2 in
       if is_greylisted s then Some (f2, PeerGreylisted)
       else if \<not> check_message_size f2 data mt then
         Option.bind (penalize_peer free now p (oversized_message_penalty c) f2) (\<lambda>f3.
         Option.bind (update_peer_score free f3) (\<lambda>f4. Some (f4, OversizedMessage)))
       else let (f3, ok) = check_rate_limit now f2 p in
         if \<not> ok then
           Option.bind (penalize_peer free now p (rate_limit_violation_penalty c) f3) (\<lambda>f4.
           Option.bind (update_peer_score free f4) (\<lambda>f5. Some (f5, RateLimitExceeded)))
         else
           Option.bind (reward_peer free p (valid_message_reward c) (add_to_cache now i f3)) (\<lambda>f4.
           Option.bind (update_peer_score free f4) (\<lambda>f5. Some (f5, Allow))))"

record peer_status =
  pst_score :: f64
  pst_is_greylisted :: bool
  pst_greylist_expires :: "instant option"

definition get_peer_score :: "spam_filter \<Rightarrow> peer_id \<Rightarrow> f64 option" where
  "get_peer_score f p = map_option ps_score (fmlookup (peer_scores f) p)"

definition get_peer_status :: "spam_filter \<Rightarrow> peer_id \<Rightarrow> peer_status option" where
  "get_peer_status f p = map_option (\<lambda>s. \<lparr>pst_score = ps_score s, pst_is_greylisted = is_greylisted s,
     pst_greylist_expires = greylist_expires s\<rparr>) (fmlookup (peer_scores f) p)"

record spam_filter_metrics =
  sfm_total_peers :: nat
  sfm_greylisted_peers :: nat
  sfm_cached_messages :: nat

definition spam_get_metrics :: "spam_filter \<Rightarrow> spam_filter_metrics" where
  "spam_get_metrics f = \<lparr>sfm_total_peers = fcard (fmdom (peer_scores f)),
     sfm_greylisted_peers = fcard (ffilter (\<lambda>p. case fmlookup (peer_scores f) p of Some s \<Rightarrow> is_greylisted s | None \<Rightarrow> False) (fmdom (peer_scores f))),
     sfm_cached_messages = fcard (fmdom (sf_message_cache f))\<rparr>"

definition clear_greylist :: "peer_id \<Rightarrow> spam_filter \<Rightarrow> spam_filter" where
  "clear_greylist = update_entry (\<lambda>s. s\<lparr>is_greylisted := False, greylist_expires := None\<rparr>)"

definition reset_peer_score :: "peer_id \<Rightarrow> spam_filter \<Rightarrow> spam_filter" where
  "reset_peer_score p f = update_entry (\<lambda>s. s\<lparr>ps_score := initial_peer_score (sf_config f)\<rparr>) p f"

section \<open>The cache of message ids\<close>

record 'd gossipsub_cache =
  gc_entries :: "(message_id, instant) fmap"
  gc_order :: "message_id list"
  gc_capacity :: nat
  gc_ttl :: duration
  gc_storage_db :: "'d option"

definition CACHE_STORE_KEY :: bytes where
  "CACHE_STORE_KEY = map (\<lambda>c. word_of_nat (of_char c)) ''gossipsub_cache:entries''"

fun load_ids :: "instant \<Rightarrow> message_id list \<Rightarrow> 'd gossipsub_cache \<Rightarrow> 'd gossipsub_cache" where
  "load_ids now [] c = c"
| "load_ids now (i # rest) c = load_ids now rest (c\<lparr>gc_entries := fmupd i now (gc_entries c), gc_order := gc_order c @ [i]\<rparr>)"

definition load_persistent_entries ::
  "'d rocksdb \<Rightarrow> message_id list codec \<Rightarrow> instant \<Rightarrow> 'd gossipsub_cache \<Rightarrow> 'd gossipsub_cache" where
  "load_persistent_entries R bc now c = (case gc_storage_db c of
     None \<Rightarrow> c
   | Some db \<Rightarrow> (case db_get R db Default CACHE_STORE_KEY of
       Inr (Some raw) \<Rightarrow> (case codec_de bc raw of Inr keys \<Rightarrow> load_ids now (take (gc_capacity c) keys) c | Inl _ \<Rightarrow> c)
     | _ \<Rightarrow> c))"

definition gossipsub_cache_new ::
  "'d rocksdb \<Rightarrow> message_id list codec \<Rightarrow> instant \<Rightarrow> nat \<Rightarrow> duration \<Rightarrow> 'd option \<Rightarrow> 'd gossipsub_cache" where
  "gossipsub_cache_new R bc now cap ttl db = load_persistent_entries R bc now
     \<lparr>gc_entries = fmempty, gc_order = [], gc_capacity = cap, gc_ttl = ttl, gc_storage_db = db\<rparr>"

fun prune_ids :: "instant \<Rightarrow> duration \<Rightarrow> (message_id, instant) fmap \<Rightarrow> message_id list \<Rightarrow> (message_id, instant) fmap \<times> message_id list" where
  "prune_ids now ttl es [] = (es, [])"
| "prune_ids now ttl es (i # rest) = (case fmlookup es i of
     Some t \<Rightarrow> if ttl < now - t then prune_ids now ttl (fmdrop i es) rest else (es, i # rest)
   | None \<Rightarrow> (es, i # rest))"

definition prune_expired :: "instant \<Rightarrow> 'd gossipsub_cache \<Rightarrow> 'd gossipsub_cache" where
  "prune_expired now c = (case prune_ids now (gc_ttl c) (gc_entries c) (gc_order c) of
     (es, ids) \<Rightarrow> c\<lparr>gc_entries := es, gc_order := ids\<rparr>)"

definition gc_contains :: "instant \<Rightarrow> 'd gossipsub_cache \<Rightarrow> message_id \<Rightarrow> 'd gossipsub_cache \<times> bool" where
  "gc_contains now c i = (let c' = prune_expired now c in (c', fmlookup (gc_entries c') i \<noteq> None))"

definition gc_persist :: "'d rocksdb \<Rightarrow> message_id list codec \<Rightarrow> 'd gossipsub_cache \<Rightarrow> 'd gossipsub_cache" where
  "gc_persist R bc c = (case gc_storage_db c of
     None \<Rightarrow> c
   | Some db \<Rightarrow> (case codec_ser bc (gc_order c) of
       Inl _ \<Rightarrow> c
     | Inr raw \<Rightarrow> c\<lparr>gc_storage_db := Some (fst (db_put R db Default CACHE_STORE_KEY raw))\<rparr>))"

fun evict_ids :: "nat \<Rightarrow> (message_id, instant) fmap \<Rightarrow> message_id list \<Rightarrow> (message_id, instant) fmap \<times> message_id list" where
  "evict_ids cap es [] = (es, [])"
| "evict_ids cap es (i # rest) = (if cap < length (i # rest) then evict_ids cap (fmdrop i es) rest else (es, i # rest))"

definition insert_entry ::
  "'d rocksdb \<Rightarrow> message_id list codec \<Rightarrow> instant \<Rightarrow> message_id \<Rightarrow> bool \<Rightarrow> 'd gossipsub_cache \<Rightarrow> 'd gossipsub_cache" where
  "insert_entry R bc now i persist c = (let c1 = prune_expired now c in
     if fmlookup (gc_entries c1) i \<noteq> None then c1
     else case evict_ids (gc_capacity c1) (fmupd i now (gc_entries c1)) (gc_order c1 @ [i]) of
       (es, ids) \<Rightarrow> (let c2 = c1\<lparr>gc_entries := es, gc_order := ids\<rparr> in if persist then gc_persist R bc c2 else c2))"

definition gc_insert ::
  "'d rocksdb \<Rightarrow> message_id list codec \<Rightarrow> instant \<Rightarrow> message_id \<Rightarrow> 'd gossipsub_cache \<Rightarrow> 'd gossipsub_cache" where
  "gc_insert R bc now i c = (case gc_contains now c i of
     (c', present) \<Rightarrow> if present then c' else insert_entry R bc now i True c')"

section \<open>The combined filter\<close>

record gossip_message =
  gm_data :: bytes
  gm_topic :: string

datatype filter_result =
  AcceptMessage | DuplicateDrop | OversizedDrop | RateLimitDrop | GreylistDrop | RejectMessage string

record 'd message_filter =
  mf_spam_filter :: spam_filter
  mf_message_cache :: "'d gossipsub_cache"

definition TRANSACTIONS_TOPIC :: string where
  "TRANSACTIONS_TOPIC = ''klomang/transactions/v1''"

definition BLOCKS_TOPIC :: string where
  "BLOCKS_TOPIC = ''klomang/blocks/v1''"

text \<open>\<open>MessageId::from(message.data)\<close>: the id of a message is the message.\<close>

definition message_kind :: "string \<Rightarrow> spam_message_type option" where
  "message_kind topic = (if topic = TRANSACTIONS_TOPIC then Some TransactionMessage
     else if topic = BLOCKS_TOPIC then Some BlockMessage else None)"

definition filter_message ::
  "(peer_id \<Rightarrow> peer_id \<Rightarrow> bool) \<Rightarrow> 'd rocksdb \<Rightarrow> message_id list codec \<Rightarrow> instant \<Rightarrow> 'd message_filter \<Rightarrow> peer_id \<Rightarrow> gossip_message \<Rightarrow>
   ('d message_filter \<times> filter_result) option" where
  "filter_message reenter R bc now m p msg = (let i = gm_data msg; (mc, dup) = gc_contains now (mf_message_cache m) i;
       m1 = m\<lparr>mf_message_cache := mc\<rparr> in
     if dup then Some (m1, DuplicateDrop)
     else case message_kind (gm_topic msg) of
       None \<Rightarrow> Some (m1, RejectMessage ''Unknown topic'')
     | Some mt \<Rightarrow> Option.bind (check_message reenter now (mf_spam_filter m1) p i (gm_data msg) mt) (\<lambda>(sf, r).
         let m2 = m1\<lparr>mf_spam_filter := sf\<rparr> in
         Some (case r of
           Allow \<Rightarrow> (m2\<lparr>mf_message_cache := gc_insert R bc now i (mf_message_cache m2)\<rparr>, AcceptMessage)
         | Duplicate \<Rightarrow> (m2, DuplicateDrop)
         | OversizedMessage \<Rightarrow> (m2, OversizedDrop)
         | RateLimitExceeded \<Rightarrow> (m2, RateLimitDrop)
         | PeerGreylisted \<Rightarrow> (m2, GreylistDrop)
         | InvalidMessage reason \<Rightarrow> (m2, RejectMessage reason))))"

definition filter_get_stats :: "'d message_filter \<Rightarrow> spam_filter_metrics" where
  "filter_get_stats m = spam_get_metrics (mf_spam_filter m)"

section \<open>The cache as a list of stamped ids\<close>

definition stamp :: "(message_id, instant) fmap \<Rightarrow> message_id \<Rightarrow> instant" where
  "stamp es i = the (fmlookup es i)"

definition cache_view :: "'d gossipsub_cache \<Rightarrow> (message_id \<times> instant) list" where
  "cache_view c = map (\<lambda>i. (i, stamp (gc_entries c) i)) (gc_order c)"

definition ids_ok :: "(message_id, instant) fmap \<Rightarrow> message_id list \<Rightarrow> bool" where
  "ids_ok es ids \<longleftrightarrow> distinct ids \<and> set ids = fset (fmdom es) \<and> sorted (map (stamp es) ids)"

definition cache_inv :: "instant \<Rightarrow> 'd gossipsub_cache \<Rightarrow> bool" where
  "cache_inv now c \<longleftrightarrow> ids_ok (gc_entries c) (gc_order c) \<and> length (gc_order c) \<le> gc_capacity c \<and>
     (\<forall>i\<in>set (gc_order c). stamp (gc_entries c) i \<le> now)"

definition live :: "instant \<Rightarrow> duration \<Rightarrow> (message_id \<times> instant) list \<Rightarrow> (message_id \<times> instant) list" where
  "live now ttl xs = filter (\<lambda>(i, t). now - t \<le> ttl) xs"

definition remember :: "nat \<Rightarrow> instant \<Rightarrow> message_id \<Rightarrow> (message_id \<times> instant) list \<Rightarrow> (message_id \<times> instant) list" where
  "remember cap now i xs = (if i \<in> fst ` set xs then xs else drop (length xs + 1 - cap) (xs @ [(i, now)]))"

lemma ids_ok_lookup: "ids_ok es ids \<Longrightarrow> i \<in> set ids \<Longrightarrow> fmlookup es i = Some (stamp es i)"
  by (metis ids_ok_def stamp_def fmlookup_dom_iff option.sel)

lemma ids_ok_iff: "ids_ok es ids \<Longrightarrow> fmlookup es i \<noteq> None \<longleftrightarrow> i \<in> set ids"
  by (metis ids_ok_def fmlookup_dom_iff not_None_eq)

lemma ids_ok_tail:
  assumes "ids_ok es (i # ids)"
  shows "ids_ok (fmdrop i es) ids" and "map (stamp (fmdrop i es)) ids = map (stamp es) ids"
proof -
  show eq: "map (stamp (fmdrop i es)) ids = map (stamp es) ids"
    using assms by (auto simp: ids_ok_def stamp_def)
  show "ids_ok (fmdrop i es) ids"
    unfolding ids_ok_def eq using assms by (auto simp: ids_ok_def)
qed

lemma prune_ids_exact:
  assumes "ids_ok es ids"
  shows "\<exists>es'. prune_ids now ttl es ids = (es', filter (\<lambda>i. now - stamp es i \<le> ttl) ids) \<and>
     ids_ok es' (filter (\<lambda>i. now - stamp es i \<le> ttl) ids) \<and>
     (\<forall>i\<in>set (filter (\<lambda>i. now - stamp es i \<le> ttl) ids). stamp es' i = stamp es i)"
  using assms
proof (induction ids arbitrary: es)
  case (Cons i ids)
  have l: "fmlookup es i = Some (stamp es i)" using ids_ok_lookup [OF Cons.prems] by simp
  show ?case
  proof (cases "ttl < now - stamp es i")
    case True
    have st: "stamp (fmdrop i es) j = stamp es j" if "j \<in> set ids" for j
      using ids_ok_tail(2) [OF Cons.prems] that by (metis map_eq_conv)
    then have f: "filter (\<lambda>j. now - stamp (fmdrop i es) j \<le> ttl) ids = filter (\<lambda>j. now - stamp es j \<le> ttl) ids"
      by (intro filter_cong) simp_all
    show ?thesis
      using Cons.IH [OF ids_ok_tail(1) [OF Cons.prems]] True l f st by (auto simp: not_less)
  next
    case False
    have "now - stamp es j \<le> ttl" if "j \<in> set ids" for j
    proof -
      have "stamp es i \<le> stamp es j" using Cons.prems that by (auto simp: ids_ok_def)
      then show ?thesis using False by linarith
    qed
    then have "filter (\<lambda>j. now - stamp es j \<le> ttl) (i # ids) = i # ids" using False by simp
    then show ?thesis using False l Cons.prems by simp
  qed
qed simp

lemma prune_expired_exact:
  assumes "cache_inv t c" and "t \<le> now"
  shows "cache_inv now (prune_expired now c)" and "cache_view (prune_expired now c) = live now (gc_ttl c) (cache_view c)"
proof -
  let ?keep = "filter (\<lambda>i. now - stamp (gc_entries c) i \<le> gc_ttl c) (gc_order c)"
  obtain es where e: "prune_ids now (gc_ttl c) (gc_entries c) (gc_order c) = (es, ?keep)" "ids_ok es ?keep"
    "\<forall>i\<in>set ?keep. stamp es i = stamp (gc_entries c) i"
    using prune_ids_exact [of "gc_entries c" "gc_order c" now "gc_ttl c"] assms(1) unfolding cache_inv_def by blast
  have "length ?keep \<le> gc_capacity c"
    using assms(1) length_filter_le le_trans unfolding cache_inv_def by blast
  then show "cache_inv now (prune_expired now c)"
    using e assms by (auto simp: cache_inv_def prune_expired_def intro: order_trans)
  show "cache_view (prune_expired now c) = live now (gc_ttl c) (cache_view c)"
    using e by (simp add: cache_view_def prune_expired_def live_def filter_map comp_def)
qed

lemma prune_expired_same [simp]:
  "gc_ttl (prune_expired now c) = gc_ttl c" "gc_capacity (prune_expired now c) = gc_capacity c"
  "gc_storage_db (prune_expired now c) = gc_storage_db c"
  by (simp_all add: prune_expired_def split: prod.splits)

lemma view_ids: "fst ` set (cache_view c) = set (gc_order c)"
  by (auto simp: cache_view_def image_image)

lemma gc_contains_exact:
  assumes "cache_inv t c" and "t \<le> now"
  shows "snd (gc_contains now c i) \<longleftrightarrow> i \<in> fst ` set (live now (gc_ttl c) (cache_view c))"
    and "fst (gc_contains now c i) = prune_expired now c"
  using prune_expired_exact [OF assms] ids_ok_iff [of "gc_entries (prune_expired now c)" "gc_order (prune_expired now c)" i]
    view_ids [of "prune_expired now c"]
  by (auto simp: gc_contains_def Let_def cache_inv_def)

lemma evict_ids_exact:
  assumes "ids_ok es ids"
  shows "\<exists>es'. evict_ids cap es ids = (es', drop (length ids - cap) ids) \<and> ids_ok es' (drop (length ids - cap) ids) \<and>
     (\<forall>i\<in>set (drop (length ids - cap) ids). stamp es' i = stamp es i)"
  using assms
proof (induction ids arbitrary: es)
  case (Cons i ids)
  show ?case
  proof (cases "cap < length (i # ids)")
    case True
    have st: "stamp (fmdrop i es) j = stamp es j" if "j \<in> set ids" for j
      using ids_ok_tail(2) [OF Cons.prems] that by (metis map_eq_conv)
    have d: "drop (length (i # ids) - cap) (i # ids) = drop (length ids - cap) ids"
      using True by (simp add: Suc_diff_le)
    show ?thesis
      unfolding d using Cons.IH [OF ids_ok_tail(1) [OF Cons.prems]] True in_set_dropD [THEN st] by auto
  next
    case False
    then show ?thesis using Cons.prems by simp
  qed
qed simp

lemma gc_persist_same [simp]:
  "gc_entries (gc_persist R bc c) = gc_entries c" "gc_order (gc_persist R bc c) = gc_order c"
  "gc_ttl (gc_persist R bc c) = gc_ttl c" "gc_capacity (gc_persist R bc c) = gc_capacity c"
  by (simp_all add: gc_persist_def split: option.splits sum.splits)

lemma ids_ok_append:
  assumes "ids_ok es ids" and "i \<notin> set ids" and "\<forall>j\<in>set ids. stamp es j \<le> now"
  shows "ids_ok (fmupd i now es) (ids @ [i])" and "\<forall>j\<in>set ids. stamp (fmupd i now es) j = stamp es j"
    and "stamp (fmupd i now es) i = now"
proof -
  show st: "\<forall>j\<in>set ids. stamp (fmupd i now es) j = stamp es j" using assms(2) by (auto simp: stamp_def)
  show i: "stamp (fmupd i now es) i = now" by (simp add: stamp_def)
  have m: "map (stamp (fmupd i now es)) ids = map (stamp es) ids" using st by simp
  show "ids_ok (fmupd i now es) (ids @ [i])"
    using assms by (auto simp: ids_ok_def sorted_append m i)
qed

lemma insert_entry_exact:
  assumes "cache_inv now c" and "live now (gc_ttl c) (cache_view c) = cache_view c"
  shows "cache_inv now (insert_entry R bc now i b c)"
    and "cache_view (insert_entry R bc now i b c) = remember (gc_capacity c) now i (cache_view c)"
proof -
  let ?c = "prune_expired now c"
  have p: "cache_inv now ?c" "cache_view ?c = cache_view c"
    using prune_expired_exact [OF assms(1) order_refl] assms(2) by simp_all
  have ids: "set (gc_order ?c) = fst ` set (cache_view c)" using p(2) view_ids by metis
  have ok: "ids_ok (gc_entries ?c) (gc_order ?c)" using p(1) by (simp add: cache_inv_def)
  have "cache_inv now (insert_entry R bc now i b c) \<and>
    cache_view (insert_entry R bc now i b c) = remember (gc_capacity c) now i (cache_view c)"
  proof (cases "i \<in> set (gc_order ?c)")
    case True
    then have "insert_entry R bc now i b c = ?c" using ids_ok_iff [OF ok] by (simp add: insert_entry_def Let_def)
    then show ?thesis using p True ids by (simp add: remember_def)
  next
    case False
    let ?ids = "gc_order ?c @ [i]" and ?es = "fmupd i now (gc_entries ?c)"
    have app: "ids_ok ?es ?ids" "\<forall>j\<in>set (gc_order ?c). stamp ?es j = stamp (gc_entries ?c) j" "stamp ?es i = now"
      using ids_ok_append [OF ok False] p(1) by (simp_all add: cache_inv_def)
    let ?n = "length ?ids - gc_capacity c"
    obtain es where e: "evict_ids (gc_capacity c) ?es ?ids = (es, drop ?n ?ids)" "ids_ok es (drop ?n ?ids)"
      "\<forall>j\<in>set (drop ?n ?ids). stamp es j = stamp ?es j"
      using evict_ids_exact [OF app(1)] by blast
    have "gc_entries (insert_entry R bc now i b c) = es" "gc_order (insert_entry R bc now i b c) = drop ?n ?ids"
      and g: "gc_capacity (insert_entry R bc now i b c) = gc_capacity c"
      using e(1) False ids_ok_iff [OF ok, of i] by (simp_all add: insert_entry_def Let_def)
    note r = this(1,2)
    have v: "map (\<lambda>j. (j, stamp ?es j)) ?ids = cache_view c @ [(i, now)]"
      unfolding p(2) [symmetric] using app(2,3) by (simp add: cache_view_def)
    have "cache_view (insert_entry R bc now i b c) = drop ?n (map (\<lambda>j. (j, stamp ?es j)) ?ids)"
      unfolding cache_view_def r drop_map using e(3) by (simp only: map_eq_conv) simp
    moreover have "length ?ids = length (cache_view c) + 1" unfolding p(2) [symmetric] by (simp add: cache_view_def)
    ultimately have "cache_view (insert_entry R bc now i b c) = remember (gc_capacity c) now i (cache_view c)"
      using v False ids by (simp add: remember_def)
    moreover have "stamp es j \<le> now" if "j \<in> set (drop ?n ?ids)" for j
    proof -
      have "j = i \<or> j \<in> set (gc_order ?c)" using in_set_dropD [OF that] by auto
      then have "stamp ?es j \<le> now" using app(2,3) p(1) by (auto simp: cache_inv_def)
      then show ?thesis using e(3) that by simp
    qed
    then have "cache_inv now (insert_entry R bc now i b c)" using e(2) r g by (simp add: cache_inv_def)
    ultimately show ?thesis by simp
  qed
  then show "cache_inv now (insert_entry R bc now i b c)"
    and "cache_view (insert_entry R bc now i b c) = remember (gc_capacity c) now i (cache_view c)" by simp_all
qed

lemma live_live: "live now ttl (live now ttl xs) = live now ttl xs"
  by (simp add: live_def)

lemma gc_insert_exact:
  assumes "cache_inv t c" and "t \<le> now"
  shows "cache_inv now (gc_insert R bc now i c)"
    and "cache_view (gc_insert R bc now i c) = remember (gc_capacity c) now i (live now (gc_ttl c) (cache_view c))"
proof -
  let ?c = "prune_expired now c"
  note p = prune_expired_exact [OF assms]
  note e = insert_entry_exact [OF p(1), unfolded p(2) prune_expired_same, OF live_live, where R = R and bc = bc and i = i and b = True]
  have "cache_inv now (gc_insert R bc now i c) \<and>
    cache_view (gc_insert R bc now i c) = remember (gc_capacity c) now i (live now (gc_ttl c) (cache_view c))"
  proof (cases "snd (gc_contains now c i)")
    case True
    then have "gc_insert R bc now i c = ?c"
      using gc_contains_exact(2) [OF assms, of i] by (simp add: gc_insert_def case_prod_unfold)
    then show ?thesis using p True gc_contains_exact(1) [OF assms, of i] by (simp add: remember_def)
  next
    case False
    then have "gc_insert R bc now i c = insert_entry R bc now i True ?c"
      using gc_contains_exact(2) [OF assms, of i] by (simp add: gc_insert_def case_prod_unfold)
    then show ?thesis using e by simp
  qed
  then show "cache_inv now (gc_insert R bc now i c)"
    and "cache_view (gc_insert R bc now i c) = remember (gc_capacity c) now i (live now (gc_ttl c) (cache_view c))" by simp_all
qed

lemma load_ids_entries:
  "gc_order (load_ids now ids c) = gc_order c @ ids"
  "fmlookup (gc_entries (load_ids now ids c)) i = (if i \<in> set ids then Some now else fmlookup (gc_entries c) i)"
  by (induction ids arbitrary: c) auto

lemma load_ids_view:
  "gc_order c = [] \<Longrightarrow> cache_view (load_ids now ids c) = map (\<lambda>i. (i, now)) ids"
  by (simp add: cache_view_def load_ids_entries stamp_def)

section \<open>Blocked messages\<close>

definition guards_exclude :: "(peer_id \<Rightarrow> peer_id \<Rightarrow> bool) \<Rightarrow> bool" where
  "guards_exclude reenter \<longleftrightarrow> (\<forall>p. \<not> reenter p p)"

definition seen :: "instant \<Rightarrow> 'd message_filter \<Rightarrow> message_id \<Rightarrow> bool" where
  "seen now m i \<longleftrightarrow> snd (gc_contains now (mf_message_cache m) i) \<or> snd (is_duplicate now (mf_spam_filter m) i)"

definition shunned :: "instant \<Rightarrow> spam_filter \<Rightarrow> peer_id \<Rightarrow> bool" where
  "shunned now f p = (case fmlookup (peer_scores f) p of
     Some s \<Rightarrow> is_greylisted (check_greylist_expiry now s) | None \<Rightarrow> False)"

lemma enter_peer_greylisted: "is_greylisted (snd (enter_peer now p f)) = shunned now f p"
  by (simp add: enter_peer_def shunned_def peer_score_new_def check_greylist_expiry_def Let_def split: option.splits)

lemma cleanup_cache_same [simp]:
  "peer_scores (cleanup_cache now f) = peer_scores f" "sf_config (cleanup_cache now f) = sf_config f"
  "token_buckets (cleanup_cache now f) = token_buckets f"
  by (simp_all add: cleanup_cache_def)

lemma shunned_cleanup [simp]: "shunned now (cleanup_cache now f) p = shunned now f p"
  by (simp add: shunned_def)

lemma check_message_blocked:
  assumes "\<not> reenter p p"
  shows "check_message reenter now f p i data mt =
    (if snd (is_duplicate now f i) then Some (cleanup_cache now f, Duplicate)
     else if shunned now f p then Some (fst (enter_peer now p (cleanup_cache now f)), PeerGreylisted) else None)"
proof -
  have "is_greylisted (snd (enter_peer now p (cleanup_cache now f))) = shunned now f p"
    by (simp add: enter_peer_greylisted)
  then show ?thesis
    using assms by (simp add: check_message_def is_duplicate_def Let_def case_prod_unfold penalize_peer_def reward_peer_def)
qed

lemma filter_message_blocked:
  assumes "\<not> reenter p p"
  shows "filter_message reenter R bc now m p msg = None \<longleftrightarrow>
      \<not> seen now m (gm_data msg) \<and> message_kind (gm_topic msg) \<noteq> None \<and> \<not> shunned now (mf_spam_filter m) p"
    and "filter_message reenter R bc now m p msg = Some (m', r) \<Longrightarrow> r \<in> {DuplicateDrop, GreylistDrop, RejectMessage ''Unknown topic''}"
  using check_message_blocked [of reenter p now "mf_spam_filter m" "gm_data msg" "gm_data msg"] assms
  by (auto simp: filter_message_def seen_def Let_def case_prod_unfold split: option.splits if_splits)

section \<open>Bursts\<close>

fun bursts :: "instant \<Rightarrow> nat \<Rightarrow> token_bucket \<Rightarrow> bool list" where
  "bursts now 0 b = []"
| "bursts now (Suc n) b = (case try_consume now b (f64_lit 1 1) of (b', ok) \<Rightarrow> ok # bursts now n b')"

lemma f64_exact: "k < 2 ^ 53 \<Longrightarrow> f64_ratio (int (k * ulp)) 1 = Fin (int (k * ulp))"
  using f64_of_nat_units [of k] nat_units_exact [of k] by (simp add: f64_of_nat_def)

lemma f64_of_nat_exact: "k < 2 ^ 53 \<Longrightarrow> f64_of_nat k = Fin (int (k * ulp))"
  using f64_exact [of k] by (simp add: f64_of_nat_def)

lemma f64_lit_nat: "f64_lit (int k) 1 = f64_of_nat k"
  by (simp add: f64_lit_def f64_of_nat_def)

lemma ulp_pos: "0 < ulp"
  by (simp add: ulp_def)

lemma f64_ratio_0 [simp]: "f64_ratio 0 d = Fin 0"
  by (simp add: f64_ratio_def f64_fit_def f64_max_def)

lemma no_time_no_tokens: "as_secs_f64 0 = Fin 0"
proof -
  have "f64_rate 0 NANOS_PER_SEC = Fin 0"
    using f64_of_nat_exact [of 0] f64_of_nat_exact [of NANOS_PER_SEC] ulp_pos by (simp add: f64_rate_def f64_div_def NANOS_PER_SEC_def)
  then show ?thesis
    using f64_of_nat_exact [of 0] by (simp add: as_secs_f64_def as_secs_def f64_add_def)
qed

lemma try_consume_at_once:
  assumes "k < 2 ^ 53" and "j \<le> k" and "tb_tokens b = f64_of_nat j" and "tb_capacity b = f64_of_nat k"
    and "tb_last_refill b = now" and "tb_refill_rate b = Fin r"
  shows "try_consume now b (f64_lit 1 1) = (if j = 0 then (b, False) else (b\<lparr>tb_tokens := f64_of_nat (j - 1)\<rparr>, True))"
proof -
  have j: "j < 2 ^ 53" using assms(1,2) by simp
  have t: "f64_add (tb_tokens b) (f64_mul (as_secs_f64 (now - tb_last_refill b)) (tb_refill_rate b)) = f64_of_nat j"
    using assms(3,5,6) no_time_no_tokens f64_of_nat_exact [OF j] f64_exact [OF j] by (simp add: f64_mul_def f64_add_def)
  have m: "f64_minimum (f64_of_nat j) (f64_of_nat k) = f64_of_nat j"
    using f64_of_nat_exact [OF j] f64_of_nat_exact [OF assms(1)] assms(2) ulp_pos
    by (simp add: f64_minimum_def f64_less_def mult_less_cancel_right)
  have r: "refill now b = b" using t m assms(3-5) by (simp add: refill_def Let_def)
  have one: "f64_lit 1 1 = Fin (int ulp)" using f64_lit_nat [of 1] f64_of_nat_exact [of 1] by simp
  have le: "f64_le (Fin (int ulp)) (f64_of_nat j) \<longleftrightarrow> j \<noteq> 0"
    using f64_of_nat_exact [OF j] ulp_pos by (cases j) (auto simp: f64_le_def f64_less_def f64_eq_def)
  have "f64_sub (f64_of_nat j) (Fin (int ulp)) = f64_of_nat (j - 1)" if "j \<noteq> 0"
  proof -
    have "int (j * ulp) - int ulp = int ((j - 1) * ulp)" using that by (simp add: left_diff_distrib of_nat_diff ulp_pos Suc_leI algebra_simps)
    then show ?thesis
      using f64_of_nat_exact [OF j] f64_exact [of "j - 1"] f64_of_nat_exact [of "j - 1"] j by (simp add: f64_sub_def f64_add_def)
  qed
  then show ?thesis using r one le assms(3) by (simp add: try_consume_def Let_def)
qed

lemma bursts_exact:
  assumes "k < 2 ^ 53" and "j \<le> k" and "tb_tokens b = f64_of_nat j" and "tb_capacity b = f64_of_nat k"
    and "tb_last_refill b = now" and "tb_refill_rate b = Fin r"
  shows "bursts now n b = replicate (min n j) True @ replicate (n - j) False"
  using assms(2-)
proof (induction n arbitrary: j b)
  case (Suc n)
  show ?case
  proof (cases j)
    case 0
    then show ?thesis using try_consume_at_once [OF assms(1) Suc.prems] Suc.IH [OF Suc.prems] by simp
  next
    case (Suc i)
    then show ?thesis
      using try_consume_at_once [OF assms(1) Suc.prems] Suc.IH [of i "b\<lparr>tb_tokens := f64_of_nat i\<rparr>"] Suc.prems by simp
  qed
qed simp

text \<open>A fresh bucket has a finite rate: windows are at least one second long.\<close>

lemma round_ratio_pow: "round_ratio (2 ^ j * d) d = 2 ^ j" if "0 < d"
  using round_ratio_exact [of 1 d j] that by simp

lemma round_ratio_between:
  assumes "0 < d"
  shows "n \<le> 2 ^ j * d \<Longrightarrow> round_ratio n d \<le> 2 ^ j" and "2 ^ i * d \<le> n \<Longrightarrow> 2 ^ i \<le> round_ratio n d"
  using round_ratio_mono [OF assms assms, of n "2 ^ j * d"] round_ratio_mono [OF assms assms, of "2 ^ i * d" n]
    round_ratio_pow [OF assms] assms by simp_all

lemma f64_ratio_Fin:
  assumes "0 < d" and "n \<le> 2 ^ j * d" and "j \<le> 2045"
  shows "f64_ratio (int n) d = Fin (int (round_ratio n d))"
proof -
  have "int (round_ratio n d) \<le> int (2 ^ j)" using round_ratio_between(1) [OF assms(1,2)] by (simp only: of_nat_le_iff)
  also have "int (2 ^ j) \<le> 2 ^ 2045" unfolding of_nat_power of_nat_numeral using assms(3) by (rule power_increasing) simp
  finally show ?thesis using f64_ratio_nat [of n d] f64_fit_Fin by simp
qed

lemma ulp_as_pow: "(2 :: nat) ^ j * ulp = 2 ^ (j + 1074)"
  by (simp add: ulp_def power_add)

lemma as_secs_f64_finite:
  assumes "NANOS_PER_SEC \<le> d" and "as_secs d < 2 ^ 64"
  shows "\<exists>y. as_secs_f64 d = Fin (int y) \<and> ulp \<le> y"
proof -
  let ?a = "nat_units (as_secs d)" and ?b = "rate_units (d mod NANOS_PER_SEC) NANOS_PER_SEC"
  have "0 < as_secs d" using assms(1) by (simp add: as_secs_def NANOS_PER_SEC_def div_greater_zero_iff)
  then have a: "ulp \<le> ?a" "?a \<le> 2 ^ 64 * ulp" using nat_units_bounds [OF assms(2)] by simp_all
  have lt: "d mod NANOS_PER_SEC < 2 ^ 30" "NANOS_PER_SEC < 2 ^ 64" "0 < NANOS_PER_SEC"
    by (simp_all add: NANOS_PER_SEC_def order_less_trans [OF mod_less_divisor])
  have r: "f64_rate (d mod NANOS_PER_SEC) NANOS_PER_SEC = Fin (int ?b)"
    using lt by (intro f64_rate_units) simp_all
  have "nat_units (d mod NANOS_PER_SEC) * ulp \<le> 2 ^ 64 * ulp * ulp"
    using nat_units_bounds(1) [of "d mod NANOS_PER_SEC"] lt(1) by (intro mult_right_mono) simp_all
  also have "\<dots> \<le> 2 ^ 64 * ulp * nat_units NANOS_PER_SEC"
    using nat_units_bounds(2) [OF lt(2,3)] by (intro mult_left_mono) simp_all
  finally have b: "?b \<le> 2 ^ 64 * ulp"
    unfolding rate_units_def ulp_as_pow using nat_units_pos [OF lt(2,3)] by (intro round_ratio_between(1)) (simp_all add: ulp_as_pow)
  have "?a + ?b \<le> 2 ^ 64 * ulp + 2 ^ 64 * ulp" using a(2) b by (rule add_mono)
  also have "\<dots> = 2 ^ (65 + 1074) * 1" using ulp_as_pow [of 65] by simp
  finally have s: "?a + ?b \<le> 2 ^ (65 + 1074) * 1" .
  have "f64_ratio (int (?a + ?b)) 1 = Fin (int (round_ratio (?a + ?b) 1))"
    by (rule f64_ratio_Fin [OF zero_less_one s]) simp
  moreover have "2 ^ 1074 \<le> round_ratio (?a + ?b) 1"
    by (rule round_ratio_between(2) [OF zero_less_one]) (use a(1) in \<open>simp add: ulp_def\<close>)
  ultimately show ?thesis
    using r f64_of_nat_units [OF assms(2)] unfolding as_secs_f64_def
    by (intro exI [of _ "round_ratio (?a + ?b) 1"]) (simp add: f64_add_def ulp_def)
qed

lemma new_bucket_rate:
  assumes "max_messages_per_window c < 2 ^ 53" and "NANOS_PER_SEC \<le> rate_limit_window c" and "as_secs (rate_limit_window c) < 2 ^ 64"
  shows "\<exists>r. tb_refill_rate (new_bucket c now) = Fin r"
proof -
  obtain y where y: "as_secs_f64 (rate_limit_window c) = Fin (int y)" "ulp \<le> y"
    using as_secs_f64_finite [OF assms(2,3)] by blast
  let ?n = "max_messages_per_window c"
  have y0: "0 < y" using y(2) ulp_pos by linarith
  have "?n * ulp * ulp \<le> (2 ^ 53 * ulp) * y"
    using assms(1) y(2) by (intro mult_mono) (simp_all add: less_imp_le)
  then have b: "?n * ulp * ulp \<le> 2 ^ (53 + 1074) * y" by (simp only: ulp_as_pow)
  have "f64_ratio (int (?n * ulp * ulp)) y = Fin (int (round_ratio (?n * ulp * ulp) y))"
    by (rule f64_ratio_Fin [OF y0 b]) simp
  then show ?thesis
    using y y0 f64_of_nat_exact [OF assms(1)] by (simp add: new_bucket_def token_bucket_new_def f64_div_def Let_def)
qed

section \<open>Properties\<close>

text \<open>The filter of gossip messages can lock itself out: DashMap documents that entering an entry while a guard of it is held
  may deadlock. If it does so always, the filter returns only for messages that were seen before, for unknown topics and for
  peers on the grey list.\<close>

lemma filter_blocks_messages:
  assumes "guards_exclude reenter"
  shows "(filter_message reenter R bc now m p msg = None \<longleftrightarrow>
      \<not> seen now m (gm_data msg) \<and> message_kind (gm_topic msg) \<noteq> None \<and> \<not> shunned now (mf_spam_filter m) p) \<and>
    (\<forall>m'. filter_message reenter R bc now m p msg \<noteq> Some (m', AcceptMessage))"
  using filter_message_blocked [of reenter p R bc now m msg] assms unfolding guards_exclude_def by blast

text \<open>C37: The cache of message ids refines a list of stamped ids: in every consistent cache a look-up finds exactly the ids whose
  stamps are within the time to live, and an insertion drops what has expired, appends the id unless it is there, and drops
  the oldest ids beyond the capacity. Consistency is kept while the clock does not go back.\<close>

theorem cache_refines_stamped_list:
  assumes "cache_inv t c" and "t \<le> now"
  shows "snd (gc_contains now c i) = (i \<in> fst ` set (live now (gc_ttl c) (cache_view c))) \<and>
    cache_inv now (fst (gc_contains now c i)) \<and>
    cache_view (fst (gc_contains now c i)) = live now (gc_ttl c) (cache_view c) \<and>
    cache_inv now (gc_insert R bc now i c) \<and>
    cache_view (gc_insert R bc now i c) = remember (gc_capacity c) now i (live now (gc_ttl c) (cache_view c))"
  using gc_contains_exact [OF assms] prune_expired_exact [OF assms] gc_insert_exact [OF assms] by simp

text \<open>What the cache has stored is loaded by the next cache on the same database, in the same order, when the write and the read
  succeed and the capacity suffices; all ids count as fresh then.\<close>

theorem persisted_ids_reload:
  assumes "rocks_laws R view" and "codec_ok bc" and "gc_storage_db c = Some d" and "codec_ser bc (gc_order c) = Inr raw"
    and "db_put R d Default CACHE_STORE_KEY raw = (d', Inr ())" and "db_get R d' Default CACHE_STORE_KEY = Inr r"
    and "length (gc_order c) \<le> cap"
  shows "cache_view (gossipsub_cache_new R bc now cap ttl (gc_storage_db (gc_persist R bc c))) = map (\<lambda>i. (i, now)) (gc_order c)"
proof -
  have db: "gc_storage_db (gc_persist R bc c) = Some d'" using assms(3-5) by (simp add: gc_persist_def)
  have "r = view d' Default CACHE_STORE_KEY" using rocks_get [OF assms(1,6)] .
  also have "\<dots> = Some raw" using rocks_put [OF assms(1), of d Default CACHE_STORE_KEY raw] assms(5) by (simp add: written_def store_apply)
  finally have "db_get R d' Default CACHE_STORE_KEY = Inr (Some raw)" using assms(6) by simp
  moreover have "codec_de bc raw = Inr (gc_order c)" using assms(2,4) unfolding codec_ok_def by blast
  ultimately show ?thesis
    using assms(7) by (simp add: gossipsub_cache_new_def db load_persistent_entries_def load_ids_view)
qed

text \<open>Of any number of messages that a new peer sends at one instant, exactly the first \<open>max_messages_per_window\<close> pass the rate
  limit, in the arithmetic of \<open>f64\<close>, for every accepted configuration.\<close>

theorem burst_limit:
  assumes "spam_config_validate c = Inr ()" and "max_messages_per_window c < 2 ^ 53" and "as_secs (rate_limit_window c) < 2 ^ 64"
  shows "bursts now n (new_bucket c now) =
    replicate (min n (max_messages_per_window c)) True @ replicate (n - max_messages_per_window c) False"
proof -
  have "as_secs (rate_limit_window c) \<noteq> 0" using assms(1) by (simp add: spam_config_validate_def split: if_splits)
  then have "NANOS_PER_SEC \<le> rate_limit_window c" by (simp add: as_secs_def NANOS_PER_SEC_def div_eq_0_iff)
  then obtain r where "tb_refill_rate (new_bucket c now) = Fin r" using new_bucket_rate assms(2,3) by blast
  then show ?thesis
    by (intro bursts_exact [OF assms(2) order_refl]) (simp_all add: new_bucket_def token_bucket_new_def Let_def)
qed

section \<open>A concrete filter\<close>

definition demo_id_codec :: "message_id list codec" where
  "demo_id_codec = single_codec [[1], [2]]"

definition demo_spam_filter :: spam_filter where
  "demo_spam_filter = \<lparr>sf_config = spam_protection_config_default, token_buckets = fmempty,
     peer_scores = fmap_of_list [([9], \<lparr>ps_score = f64_lit (- 510) 1, is_greylisted = True, greylist_expires = Some 1000\<rparr>)],
     sf_message_cache = fmempty, cache_ttl = 300 * NANOS_PER_SEC\<rparr>"

definition demo_cache :: "memory gossipsub_cache" where
  "demo_cache = \<lparr>gc_entries = fmap_of_list [([1], 10), ([2], 90)], gc_order = [[1], [2]], gc_capacity = 2, gc_ttl = 100,
     gc_storage_db = Some fmempty\<rparr>"

definition demo_message_filter :: "memory message_filter" where
  "demo_message_filter = \<lparr>mf_spam_filter = demo_spam_filter, mf_message_cache = demo_cache\<rparr>"

definition demo_message :: gossip_message where
  "demo_message = \<lparr>gm_data = [5, 6], gm_topic = TRANSACTIONS_TOPIC\<rparr>"

lemma demo_cache_ok: "cache_inv 90 demo_cache"
  by (simp add: cache_inv_def demo_cache_def ids_ok_def stamp_def)

lemma demo_not_seen: "\<not> seen 95 demo_message_filter (gm_data demo_message)"
  by (simp add: seen_def demo_message_filter_def demo_message_def gc_contains_def prune_expired_def demo_cache_def is_duplicate_def
      cleanup_cache_def demo_spam_filter_def Let_def)

lemma filter_blocks_demo_message:
  "filter_message (\<lambda>p q. p \<noteq> q) memory_db demo_id_codec 95 demo_message_filter [8] demo_message = None"
proof -
  have "guards_exclude (\<lambda>p q. p \<noteq> q)" by (simp add: guards_exclude_def)
  moreover have "message_kind (gm_topic demo_message) \<noteq> None" by (simp add: message_kind_def demo_message_def)
  moreover have "\<not> shunned 95 (mf_spam_filter demo_message_filter) [8]"
    by (simp add: shunned_def demo_message_filter_def demo_spam_filter_def)
  ultimately show ?thesis using filter_blocks_messages [of "\<lambda>p q. p \<noteq> q"] demo_not_seen by blast
qed

theorem cache_refines_stamped_list_witness:
  "cache_view (gc_insert memory_db demo_id_codec 120 [3] demo_cache) = [([2], 90), ([3], 120)]"
  using cache_refines_stamped_list [OF demo_cache_ok, of 120 "[3]" memory_db demo_id_codec]
  by (simp add: cache_view_def demo_cache_def stamp_def live_def remember_def)

theorem persisted_ids_reload_witness:
  "cache_view (gossipsub_cache_new memory_db demo_id_codec 500 4 100 (gc_storage_db (gc_persist memory_db demo_id_codec demo_cache))) =
     [([1], 500), ([2], 500)]"
proof -
  have s: "codec_ser demo_id_codec (gc_order demo_cache) = Inr [1]" by (simp add: demo_id_codec_def single_codec_def demo_cache_def)
  have p: "db_put memory_db fmempty Default CACHE_STORE_KEY [1] = (fmupd (Default, CACHE_STORE_KEY) [1] fmempty, Inr ())"
    by (simp add: db_put_def memory_db_def)
  have g: "db_get memory_db (fmupd (Default, CACHE_STORE_KEY) [1] fmempty) Default CACHE_STORE_KEY = Inr (Some [1])"
    by (simp add: db_get_def memory_db_def)
  have d: "gc_storage_db demo_cache = Some fmempty" and l: "length (gc_order demo_cache) \<le> 4" by (simp_all add: demo_cache_def)
  have "codec_ok demo_id_codec" by (simp add: demo_id_codec_def)
  from persisted_ids_reload [OF memory_db_laws this d s p g l, of 500 100]
  show ?thesis by (simp add: demo_cache_def)
qed

theorem burst_limit_witness:
  "bursts 7 60 (new_bucket spam_protection_config_default 7) = replicate 50 True @ replicate 10 False"
  using burst_limit [of spam_protection_config_default 7 60]
  by (simp add: spam_config_validate_def spam_protection_config_default_def as_secs_def NANOS_PER_SEC_def)

end
