(* ===== verification/Gossip_Validation.thy ===== *)
theory Gossip_Validation
  imports Gossip_Filter Schnorr Dag
begin

text \<open>
  What happens to a gossip message: \<open>network/messaging/\<close> \<open>peer_scoring.rs\<close>, \<open>mesh.rs\<close>, \<open>core_validation_hooks.rs\<close>,
  \<open>validation.rs\<close> and \<open>NetworkMessage\<close> of \<open>mod.rs\<close>, the signature of a block (\<open>verify_block_signature\<close> of the core), and the
  handler of the event in \<open>network/core_network/mod.rs\<close>, which composes the filter, the hooks and the validator and
  updates the scores of the mesh. bincode enters as codecs, the clock as \<open>now\<close> (monotonic) and \<open>current_time\<close> (seconds).
\<close>

section \<open>Scores from validation\<close>

record gossipsub_score_params =
  topic_weight :: f64
  time_in_mesh_decay :: f64
  first_message_deliveries_decay :: f64
  mesh_message_deliveries_decay :: f64
  invalid_message_deliveries_weight :: f64
  ip_colocation_factor_weight :: f64

definition gossipsub_score_params_default :: gossipsub_score_params where
  "gossipsub_score_params_default = \<lparr>topic_weight = f64_lit 1 2, time_in_mesh_decay = f64_lit 95 100,
     first_message_deliveries_decay = f64_lit 97 100, mesh_message_deliveries_decay = f64_lit 93 100,
     invalid_message_deliveries_weight = f64_lit (- 10) 1, ip_colocation_factor_weight = f64_lit (- 5) 1\<rparr>"

record gossipsub_score_thresholds =
  gossip_threshold :: f64
  publish_threshold :: f64
  gst_greylist_threshold :: f64
  accept_px_threshold :: f64
  opportunistic_graft_threshold :: f64

definition gossipsub_score_thresholds_default :: gossipsub_score_thresholds where
  "gossipsub_score_thresholds_default = \<lparr>gossip_threshold = f64_lit (- 500) 1, publish_threshold = f64_lit (- 1000) 1,
     gst_greylist_threshold = f64_lit (- 500) 1, accept_px_threshold = f64_lit 1000 1, opportunistic_graft_threshold = f64_lit 500 1\<rparr>"

datatype validation_outcome =
  OutcomeValid | OutcomeInvalidSignature f64 | OutcomeInvalidStructure f64 | OutcomeOversizedMessage f64
| OutcomeDoubleSpend f64 | OutcomeInvalidFee f64 | OutcomeOtherError f64

fun outcome_penalty :: "validation_outcome \<Rightarrow> f64" where
  "outcome_penalty OutcomeValid = f64_lit 1 2"
| "outcome_penalty (OutcomeInvalidSignature p) = f64_neg p"
| "outcome_penalty (OutcomeInvalidStructure p) = f64_neg p"
| "outcome_penalty (OutcomeOversizedMessage p) = f64_neg p"
| "outcome_penalty (OutcomeDoubleSpend p) = f64_neg p"
| "outcome_penalty (OutcomeInvalidFee p) = f64_neg p"
| "outcome_penalty (OutcomeOtherError p) = f64_neg p"

record peer_validation_record =
  valid_count :: u32
  invalid_count :: u32
  last_validation :: instant

record peer_scoring_manager =
  psm_spam_filter :: spam_filter
  score_params :: gossipsub_score_params
  score_thresholds :: gossipsub_score_thresholds
  peer_validation_history :: "(peer_id, peer_validation_record) fmap"

definition peer_scoring_manager_new ::
  "spam_filter \<Rightarrow> gossipsub_score_params \<Rightarrow> gossipsub_score_thresholds \<Rightarrow> peer_scoring_manager" where
  "peer_scoring_manager_new f params thresholds =
     \<lparr>psm_spam_filter = f, score_params = params, score_thresholds = thresholds, peer_validation_history = fmempty\<rparr>"

definition update_validation_record :: "instant \<Rightarrow> peer_id \<Rightarrow> bool \<Rightarrow> peer_scoring_manager \<Rightarrow> peer_scoring_manager" where
  "update_validation_record now p ok m =
     (let r = (case fmlookup (peer_validation_history m) p of Some r \<Rightarrow> r
               | None \<Rightarrow> \<lparr>valid_count = 0, invalid_count = 0, last_validation = now\<rparr>);
          r' = (if ok then r\<lparr>valid_count := valid_count r + 1\<rparr> else r\<lparr>invalid_count := invalid_count r + 1\<rparr>)
      in m\<lparr>peer_validation_history := fmupd p (r'\<lparr>last_validation := now\<rparr>) (peer_validation_history m)\<rparr>)"

definition apply_validation_outcome :: "instant \<Rightarrow> peer_id \<Rightarrow> validation_outcome \<Rightarrow> peer_scoring_manager \<Rightarrow> peer_scoring_manager" where
  "apply_validation_outcome now p outcome m = (let penalty = outcome_penalty outcome; f = psm_spam_filter m;
     f' = (if f64_less penalty (f64_lit 0 1) then update_entry (update_score (sf_config f) now penalty) p f
           else if f64_less (f64_lit 0 1) penalty then update_entry (\<lambda>s. s\<lparr>ps_score := f64_add (ps_score s) penalty\<rparr>) p f
           else f)
     in update_validation_record now p (outcome = OutcomeValid) (m\<lparr>psm_spam_filter := f'\<rparr>))"

definition should_greylist :: "peer_scoring_manager \<Rightarrow> peer_id \<Rightarrow> bool" where
  "should_greylist m p = (case get_peer_score (psm_spam_filter m) p of
     Some v \<Rightarrow> f64_le v (gst_greylist_threshold (score_thresholds m)) | None \<Rightarrow> False)"

definition clear_greylist_if_recovered :: "peer_scoring_manager \<Rightarrow> peer_id \<Rightarrow> peer_scoring_manager \<times> bool" where
  "clear_greylist_if_recovered m p = (case get_peer_status (psm_spam_filter m) p of
     Some st \<Rightarrow> if f64_less (f64_add (gst_greylist_threshold (score_thresholds m)) (f64_lit 100 1)) (pst_score st)
       then (m\<lparr>psm_spam_filter := clear_greylist p (psm_spam_filter m)\<rparr>, True) else (m, False)
   | None \<Rightarrow> (m, False))"

section \<open>The mesh of a topic\<close>

record mesh_params =
  target_peers :: nat
  low_watermark :: nat
  high_watermark :: nat
  lazy_peers :: nat

record mesh_peer_score =
  mps_score :: f64
  valid_messages :: u64
  invalid_messages :: u64
  last_activity :: u64
  connection_quality :: f64

definition mesh_peer_score_default :: "u64 \<Rightarrow> mesh_peer_score" where
  "mesh_peer_score_default current_time = \<lparr>mps_score = f64_lit 0 1, valid_messages = 0, invalid_messages = 0,
     last_activity = current_time, connection_quality = f64_lit 1 1\<rparr>"

record topic_mesh =
  topic_str :: string
  tm_params :: mesh_params
  tm_peer_scores :: "(peer_id, mesh_peer_score) fmap"
  graylist_threshold :: f64

definition topic_mesh_new :: "string \<Rightarrow> topic_mesh" where
  "topic_mesh_new topic = \<lparr>topic_str = topic,
     tm_params = \<lparr>target_peers = 6, low_watermark = 4, high_watermark = 12, lazy_peers = 6\<rparr>,
     tm_peer_scores = fmempty, graylist_threshold = f64_lit (- 100) 1\<rparr>"

definition mesh_score_after :: "u64 \<Rightarrow> bool \<Rightarrow> bool \<Rightarrow> mesh_peer_score \<Rightarrow> mesh_peer_score" where
  "mesh_score_after current_time valid timely s0 =
     (let s1 = s0\<lparr>last_activity := current_time\<rparr>;
          s2 = (if valid then
                  (let a = s1\<lparr>valid_messages := valid_messages s1 + 1, mps_score := f64_add (mps_score s1) (f64_lit 1 1)\<rparr>
                   in if timely then a\<lparr>mps_score := f64_add (mps_score a) (f64_lit 1 2),
                        connection_quality := f64_minimum (f64_add (connection_quality a) (f64_lit 1 1)) (f64_lit 1 1)\<rparr> else a)
                else s1\<lparr>invalid_messages := invalid_messages s1 + 1, mps_score := f64_sub (mps_score s1) (f64_lit 5 1),
                        connection_quality := f64_maximum (f64_sub (connection_quality s1) (f64_lit 2 10)) (f64_lit 0 1)\<rparr>);
          time_diff = saturating_sub current_time (last_activity s2)
      in if 3600 < time_diff then s2\<lparr>mps_score := f64_mul (mps_score s2) (f64_lit 95 100)\<rparr> else s2)"

definition mesh_update_peer_score :: "u64 \<Rightarrow> peer_id \<Rightarrow> bool \<Rightarrow> bool \<Rightarrow> topic_mesh \<Rightarrow> topic_mesh" where
  "mesh_update_peer_score current_time p valid timely m =
     (let s = (case fmlookup (tm_peer_scores m) p of Some s \<Rightarrow> s | None \<Rightarrow> mesh_peer_score_default current_time)
      in m\<lparr>tm_peer_scores := fmupd p (mesh_score_after current_time valid timely s) (tm_peer_scores m)\<rparr>)"

definition mesh_get_peer_score :: "topic_mesh \<Rightarrow> peer_id \<Rightarrow> f64" where
  "mesh_get_peer_score m p = (case fmlookup (tm_peer_scores m) p of Some s \<Rightarrow> mps_score s | None \<Rightarrow> f64_lit 0 1)"

definition topic_should_disconnect :: "topic_mesh \<Rightarrow> peer_id \<Rightarrow> bool" where
  "topic_should_disconnect m p = f64_less (mesh_get_peer_score m p) (graylist_threshold m)"

record mesh_stats =
  mst_topic :: string
  mst_total_peers :: nat
  high_score_peers :: nat
  low_score_peers :: nat
  target_mesh_size :: nat

definition count_scores :: "(f64 \<Rightarrow> bool) \<Rightarrow> topic_mesh \<Rightarrow> nat" where
  "count_scores P m = fcard (ffilter (\<lambda>p. P (mesh_get_peer_score m p)) (fmdom (tm_peer_scores m)))"

definition get_mesh_stats :: "topic_mesh \<Rightarrow> mesh_stats" where
  "get_mesh_stats m = \<lparr>mst_topic = topic_str m, mst_total_peers = fcard (fmdom (tm_peer_scores m)),
     high_score_peers = count_scores (\<lambda>v. f64_less (f64_lit 5 1) v) m, low_score_peers = count_scores (\<lambda>v. f64_less v (f64_lit (- 10) 1)) m,
     target_mesh_size = target_peers (tm_params m)\<rparr>"

record mesh_manager =
  transaction_mesh :: topic_mesh
  block_mesh :: topic_mesh

definition mesh_manager_new :: mesh_manager where
  "mesh_manager_new = \<lparr>transaction_mesh = topic_mesh_new ''klomang/transactions/v1'', block_mesh = topic_mesh_new ''klomang/blocks/v1''\<rparr>"

definition get_mesh :: "mesh_manager \<Rightarrow> string \<Rightarrow> topic_mesh option" where
  "get_mesh m topic = (if topic = topic_str (transaction_mesh m) then Some (transaction_mesh m)
     else if topic = topic_str (block_mesh m) then Some (block_mesh m) else None)"

definition manager_update_peer_score :: "u64 \<Rightarrow> peer_id \<Rightarrow> string \<Rightarrow> bool \<Rightarrow> bool \<Rightarrow> mesh_manager \<Rightarrow> mesh_manager" where
  "manager_update_peer_score current_time p topic valid timely m =
     (if topic = topic_str (transaction_mesh m) then m\<lparr>transaction_mesh := mesh_update_peer_score current_time p valid timely (transaction_mesh m)\<rparr>
      else if topic = topic_str (block_mesh m) then m\<lparr>block_mesh := mesh_update_peer_score current_time p valid timely (block_mesh m)\<rparr>
      else m)"

definition should_disconnect_peer :: "mesh_manager \<Rightarrow> peer_id \<Rightarrow> bool" where
  "should_disconnect_peer m p \<longleftrightarrow> topic_should_disconnect (transaction_mesh m) p \<or> topic_should_disconnect (block_mesh m) p"

section \<open>Hooks of the core\<close>

datatype validation_hook_result = HookValid | HookInvalid validation_outcome

definition input_structure_ok :: "transaction \<Rightarrow> tx_input \<Rightarrow> bool" where
  "input_structure_ok tx i = (if signature i = [] then False else if pubkey i = [] \<and> \<not> is_coinbase tx then False else True)"

definition check_transaction_structure :: "transaction \<Rightarrow> bool" where
  "check_transaction_structure tx =
     (if inputs tx = [] \<and> \<not> is_coinbase tx then False
      else if outputs tx = [] then False
      else list_all (input_structure_ok tx) (inputs tx))"

definition signature_fails :: "externals \<Rightarrow> transaction \<Rightarrow> nat \<Rightarrow> tx_input \<Rightarrow> bool" where
  "signature_fails ext tx idx i =
     (if is_coinbase tx then False
      else if length (signature i) \<noteq> 64 then True
      else if length (pubkey i) \<noteq> 32 \<and> length (pubkey i) \<noteq> 33 then True
      else case compute_sighash ext tx idx (sighash_type i) of
        Inr sighash \<Rightarrow> (case verify_schnorr ext (take 32 (pubkey i)) (take 64 (signature i)) sighash of Inr ok \<Rightarrow> \<not> ok | Inl _ \<Rightarrow> True)
      | Inl _ \<Rightarrow> True)"

definition validate_transaction_signatures :: "externals \<Rightarrow> transaction \<Rightarrow> nat option" where
  "validate_transaction_signatures ext tx =
     (let invalid_count = length (filter (\<lambda>(idx, i). signature_fails ext tx idx i) (enumerate 0 (inputs tx)))
      in if 0 < invalid_count then Some invalid_count else None)"

definition detect_spam_patterns :: "transaction \<Rightarrow> bool" where
  "detect_spam_patterns tx =
     (if gas_limit tx = 0 \<and> max_fee_per_gas tx = 0 then True
      else if 1000 < length (inputs tx) \<or> 1000 < length (outputs tx) then True
      else if chain_id tx = 0 then True
      else False)"

definition validate_block_transactions :: "block_node \<Rightarrow> bool" where
  "validate_block_transactions b = list_all check_transaction_structure (transactions b)"

definition hook_invalid ::
  "instant \<Rightarrow> peer_id \<Rightarrow> validation_outcome \<Rightarrow> peer_scoring_manager \<Rightarrow> peer_scoring_manager \<times> validation_hook_result" where
  "hook_invalid now p outcome m = (apply_validation_outcome now p outcome m, HookInvalid outcome)"

definition validate_transaction_payload ::
  "externals \<Rightarrow> transaction codec \<Rightarrow> instant \<Rightarrow> peer_id \<Rightarrow> gossip_message \<Rightarrow> peer_scoring_manager \<Rightarrow>
   peer_scoring_manager \<times> validation_hook_result" where
  "validate_transaction_payload ext tc now p msg m = (case codec_de tc (gm_data msg) of
     Inl _ \<Rightarrow> hook_invalid now p (OutcomeInvalidStructure (f64_lit 20 1)) m
   | Inr tx \<Rightarrow>
       if \<not> check_transaction_structure tx then hook_invalid now p (OutcomeInvalidStructure (f64_lit 15 1)) m
       else if tx_id tx \<noteq> calculate_id ext tx then hook_invalid now p (OutcomeInvalidStructure (f64_lit 15 1)) m
       else if validate_transaction_signatures ext tx \<noteq> None then hook_invalid now p (OutcomeInvalidSignature (f64_lit 25 1)) m
       else if detect_spam_patterns tx then hook_invalid now p (OutcomeInvalidStructure (f64_lit 20 1)) m
       else (apply_validation_outcome now p OutcomeValid m, HookValid))"

definition validate_block_payload ::
  "block_node codec \<Rightarrow> instant \<Rightarrow> u64 \<Rightarrow> peer_id \<Rightarrow> gossip_message \<Rightarrow> peer_scoring_manager \<Rightarrow>
   peer_scoring_manager \<times> validation_hook_result" where
  "validate_block_payload bl now current_time p msg m = (case codec_de bl (gm_data msg) of
     Inl _ \<Rightarrow> hook_invalid now p (OutcomeInvalidStructure (f64_lit 25 1)) m
   | Inr b \<Rightarrow>
       if as_bytes (header_id (header b)) = [] then hook_invalid now p (OutcomeInvalidStructure (f64_lit 20 1)) m
       else if current_time + 600 < timestamp (header b) then hook_invalid now p (OutcomeInvalidStructure (f64_lit 15 1)) m
       else if \<not> validate_block_transactions b then hook_invalid now p (OutcomeInvalidStructure (f64_lit 20 1)) m
       else (apply_validation_outcome now p OutcomeValid m, HookValid))"

definition verify_spam_potential ::
  "externals \<Rightarrow> transaction codec \<Rightarrow> block_node codec \<Rightarrow> instant \<Rightarrow> u64 \<Rightarrow> peer_id \<Rightarrow> gossip_message \<Rightarrow> peer_scoring_manager \<Rightarrow>
   peer_scoring_manager \<times> validation_hook_result" where
  "verify_spam_potential ext tc bl now current_time p msg m =
     (if gm_topic msg = TRANSACTIONS_TOPIC then validate_transaction_payload ext tc now p msg m
      else if gm_topic msg = BLOCKS_TOPIC then validate_block_payload bl now current_time p msg m
      else (m, HookValid))"

section \<open>The validator\<close>

datatype validation_result = ValidationAccept | ValidationReject | ValidationIgnore

definition verify_block_signature :: "externals \<Rightarrow> (block_header \<Rightarrow> string + bytes) \<Rightarrow> block_node \<Rightarrow> bool" where
  "verify_block_signature ext ser_header b = (case header_signature (header b) of
     None \<Rightarrow> False
   | Some sig_vec \<Rightarrow>
       if length sig_vec \<noteq> 64 then False
       else let serialized = (case ser_header ((header b)\<lparr>header_signature := None\<rparr>) of Inr raw \<Rightarrow> raw | Inl _ \<Rightarrow> []);
                msg_hash = tagged_hash ext TAG_TX_SIGN serialized
            in case transactions b of
                 [] \<Rightarrow> False
               | coinbase_tx # _ \<Rightarrow> (case outputs coinbase_tx of
                   [] \<Rightarrow> False
                 | output # _ \<Rightarrow> (case verify_schnorr ext (as_bytes (pubkey_hash output)) sig_vec msg_hash of Inr ok \<Rightarrow> ok | Inl _ \<Rightarrow> False)))"

definition input_verifies :: "externals \<Rightarrow> transaction \<Rightarrow> nat \<Rightarrow> tx_input \<Rightarrow> bool" where
  "input_verifies ext tx idx i =
     (if length (pubkey i) \<noteq> 32 \<or> length (signature i) \<noteq> 64 then False
      else case compute_sighash ext tx idx (sighash_type i) of
        Inr sighash \<Rightarrow> verify_schnorr ext (take 32 (pubkey i)) (take 64 (signature i)) sighash = Inr True
      | Inl _ \<Rightarrow> False)"

definition validate_transaction_message :: "externals \<Rightarrow> transaction codec \<Rightarrow> gossip_message \<Rightarrow> validation_result" where
  "validate_transaction_message ext tc msg = (case codec_de tc (gm_data msg) of
     Inl _ \<Rightarrow> ValidationReject
   | Inr tx \<Rightarrow>
       if tx_id tx \<noteq> calculate_id ext tx then ValidationReject
       else if list_all (\<lambda>(idx, i). input_verifies ext tx idx i) (enumerate 0 (inputs tx)) then ValidationAccept
       else ValidationReject)"

definition validate_block_message ::
  "externals \<Rightarrow> (block_header \<Rightarrow> string + bytes) \<Rightarrow> block_node codec \<Rightarrow> u64 \<Rightarrow> gossip_message \<Rightarrow> validation_result" where
  "validate_block_message ext ser_header bl current_time msg = (case codec_de bl (gm_data msg) of
     Inl _ \<Rightarrow> ValidationReject
   | Inr b \<Rightarrow>
       if as_bytes (header_id (header b)) = [] then ValidationReject
       else if current_time + 300 < timestamp (header b) then ValidationReject
       else if nonce (header b) = 0 then ValidationReject
       else if \<not> verify_block_signature ext ser_header b then ValidationReject
       else ValidationAccept)"

definition verify_message_authenticity :: "gossip_message \<Rightarrow> bool" where
  "verify_message_authenticity msg \<longleftrightarrow> gm_data msg \<noteq> []"

record wire =
  w_ext :: externals
  w_tx :: "transaction codec"
  w_block :: "block_node codec"
  w_header :: "block_header \<Rightarrow> string + bytes"
  w_ids :: "message_id list codec"

definition validate_message :: "wire \<Rightarrow> peer_id \<Rightarrow> u64 \<Rightarrow> peer_id \<Rightarrow> gossip_message \<Rightarrow> validation_result" where
  "validate_message w local_peer_id current_time p msg =
     (if p = local_peer_id then ValidationAccept
      else if \<not> verify_message_authenticity msg then ValidationReject
      else if gm_topic msg = TRANSACTIONS_TOPIC then validate_transaction_message (w_ext w) (w_tx w) msg
      else if gm_topic msg = BLOCKS_TOPIC then validate_block_message (w_ext w) (w_header w) (w_block w) current_time msg
      else ValidationIgnore)"

section \<open>Wrapped messages\<close>

datatype network_message_type = NmTransaction | NmBlock | NmBootstrap | NmEmergency

record network_message =
  nm_type :: network_message_type
  nm_payload :: bytes
  nm_source :: string
  nm_timestamp :: u64

definition from_transaction :: "transaction codec \<Rightarrow> (peer_id \<Rightarrow> string) \<Rightarrow> u64 \<Rightarrow> transaction \<Rightarrow> peer_id \<Rightarrow> string + network_message" where
  "from_transaction tc show_peer current_time tx p = bind_res (codec_ser tc tx) (\<lambda>payload.
     Inr \<lparr>nm_type = NmTransaction, nm_payload = payload, nm_source = show_peer p, nm_timestamp = current_time\<rparr>)"

definition to_transaction :: "transaction codec \<Rightarrow> network_message \<Rightarrow> string + transaction" where
  "to_transaction tc nm = (case nm_type nm of
     NmTransaction \<Rightarrow> codec_de tc (nm_payload nm)
   | _ \<Rightarrow> Inl ''Invalid message type for transaction deserialization'')"

definition validate_wrapped_transaction :: "transaction codec \<Rightarrow> network_message \<Rightarrow> string + transaction" where
  "validate_wrapped_transaction tc nm =
     (if nm_type nm \<noteq> NmTransaction then Inl ''Invalid message type''
      else bind_res (to_transaction tc nm) (\<lambda>tx.
        if as_bytes (tx_id tx) = [] then Inl ''Invalid transaction ID'' else Inr tx))"

section \<open>The handler of gossip messages\<close>

record 'd gossip_node =
  gn_filter :: "'d message_filter"
  gn_scoring :: peer_scoring_manager
  gn_mesh :: mesh_manager
  gn_local :: peer_id

text \<open>The filter and the scoring manager share one \<open>SpamFilter\<close>; these two functions pass its state between them.\<close>

definition scoring_of :: "'d gossip_node \<Rightarrow> peer_scoring_manager" where
  "scoring_of n = (gn_scoring n)\<lparr>psm_spam_filter := mf_spam_filter (gn_filter n)\<rparr>"

definition with_scoring :: "peer_scoring_manager \<Rightarrow> 'd gossip_node \<Rightarrow> 'd gossip_node" where
  "with_scoring m n = n\<lparr>gn_scoring := m, gn_filter := (gn_filter n)\<lparr>mf_spam_filter := psm_spam_filter m\<rparr>\<rparr>"

definition acceptance_of ::
  "wire \<Rightarrow> instant \<Rightarrow> u64 \<Rightarrow> peer_id \<Rightarrow> gossip_message \<Rightarrow> filter_result \<Rightarrow> 'd gossip_node \<Rightarrow> 'd gossip_node \<times> validation_result" where
  "acceptance_of w now current_time p msg r n = (case r of
     AcceptMessage \<Rightarrow>
       (case verify_spam_potential (w_ext w) (w_tx w) (w_block w) now current_time p msg (scoring_of n) of (m, hook) \<Rightarrow>
          (with_scoring m n, case hook of HookValid \<Rightarrow> validate_message w (gn_local n) current_time p msg | HookInvalid _ \<Rightarrow> ValidationReject))
   | DuplicateDrop \<Rightarrow> (n, ValidationIgnore)
   | OversizedDrop \<Rightarrow> (n, ValidationReject)
   | RateLimitDrop \<Rightarrow> (n, ValidationIgnore)
   | GreylistDrop \<Rightarrow> (n, ValidationIgnore)
   | RejectMessage _ \<Rightarrow> (n, ValidationReject))"

text \<open>The result has the answer for gossipsub and whether the peer is disconnected.\<close>

definition handle_gossip_message ::
  "(peer_id \<Rightarrow> peer_id \<Rightarrow> bool) \<Rightarrow> 'd rocksdb \<Rightarrow> wire \<Rightarrow> instant \<Rightarrow> u64 \<Rightarrow> peer_id \<Rightarrow> gossip_message \<Rightarrow> 'd gossip_node \<Rightarrow>
   ('d gossip_node \<times> validation_result \<times> bool) option" where
  "handle_gossip_message reenter R w now current_time p msg n =
     Option.bind (filter_message reenter R (w_ids w) now (gn_filter n) p msg) (\<lambda>(f, r).
       let (n1, acceptance) = acceptance_of w now current_time p msg r (n\<lparr>gn_filter := f\<rparr>) in
       Some (case acceptance of
         ValidationAccept \<Rightarrow>
           (n1\<lparr>gn_mesh := manager_update_peer_score current_time p (gm_topic msg) True True (gn_mesh n1)\<rparr>, acceptance, False)
       | ValidationReject \<Rightarrow>
           (let n2 = n1\<lparr>gn_mesh := manager_update_peer_score current_time p (gm_topic msg) False False (gn_mesh n1)\<rparr>
            in (n2, acceptance, should_disconnect_peer (gn_mesh n2) p))
       | ValidationIgnore \<Rightarrow> (n1, acceptance, False)))"

section \<open>What is accepted\<close>

definition transaction_message_ok :: "wire \<Rightarrow> gossip_message \<Rightarrow> bool" where
  "transaction_message_ok w msg \<longleftrightarrow> (\<exists>tx. codec_de (w_tx w) (gm_data msg) = Inr tx \<and> tx_id tx = calculate_id (w_ext w) tx \<and>
     outputs tx \<noteq> [] \<and> \<not> detect_spam_patterns tx \<and>
     (\<forall>k<length (inputs tx). length (pubkey (inputs tx ! k)) = 32 \<and> length (signature (inputs tx ! k)) = 64 \<and>
        verify_schnorr (w_ext w) (pubkey (inputs tx ! k)) (signature (inputs tx ! k))
          (tagged_hash (w_ext w) TAG_TX_SIGN (serialize_tx_for_sighash tx k (sighash_type (inputs tx ! k)))) = Inr True))"

definition block_message_ok :: "wire \<Rightarrow> u64 \<Rightarrow> gossip_message \<Rightarrow> bool" where
  "block_message_ok w current_time msg \<longleftrightarrow> (\<exists>b. codec_de (w_block w) (gm_data msg) = Inr b \<and> as_bytes (header_id (header b)) \<noteq> [] \<and>
     unat (timestamp (header b)) \<le> unat current_time + 300 \<and> nonce (header b) \<noteq> 0 \<and>
     verify_block_signature (w_ext w) (w_header w) b \<and> (\<forall>tx\<in>set (transactions b). check_transaction_structure tx))"

lemma enumerate_all: "(\<forall>x\<in>set (enumerate 0 xs). P (fst x) (snd x)) \<longleftrightarrow> (\<forall>k<length xs. P k (xs ! k))"
  by (simp add: all_set_conv_all_nth nth_enumerate_eq)

lemma input_verifies_iff:
  "input_verifies ext tx k i \<longleftrightarrow> length (pubkey i) = 32 \<and> length (signature i) = 64 \<and>
     verify_schnorr ext (pubkey i) (signature i) (tagged_hash ext TAG_TX_SIGN (serialize_tx_for_sighash tx k (sighash_type i))) = Inr True"
  by (auto simp: input_verifies_def compute_sighash_def)

lemma verified_input_passes_hook:
  "input_verifies ext tx k i \<Longrightarrow> \<not> signature_fails ext tx k i \<and> input_structure_ok tx i"
  by (auto simp: input_verifies_iff signature_fails_def compute_sighash_def input_structure_ok_def)

lemma validate_transaction_message_iff:
  "validate_transaction_message ext tc msg = ValidationAccept \<longleftrightarrow> (\<exists>tx. codec_de tc (gm_data msg) = Inr tx \<and>
     tx_id tx = calculate_id ext tx \<and> (\<forall>k<length (inputs tx). input_verifies ext tx k (inputs tx ! k)))"
  by (auto simp: validate_transaction_message_def list_all_iff case_prod_unfold enumerate_all split: sum.splits if_splits)

lemma signatures_pass_iff:
  "validate_transaction_signatures ext tx = None \<longleftrightarrow> (\<forall>k<length (inputs tx). \<not> signature_fails ext tx k (inputs tx ! k))"
  using enumerate_all [of "inputs tx" "\<lambda>k i. \<not> signature_fails ext tx k i"]
  by (auto simp: validate_transaction_signatures_def Let_def filter_empty_conv case_prod_unfold)

lemma verified_transaction_passes_hooks:
  assumes "\<forall>k<length (inputs tx). input_verifies ext tx k (inputs tx ! k)"
  shows "validate_transaction_signatures ext tx = None" and "check_transaction_structure tx \<longleftrightarrow> outputs tx \<noteq> []"
proof -
  have v: "\<not> signature_fails ext tx k (inputs tx ! k) \<and> input_structure_ok tx (inputs tx ! k)" if "k < length (inputs tx)" for k
    using assms that verified_input_passes_hook by blast
  then show "validate_transaction_signatures ext tx = None" by (simp add: signatures_pass_iff)
  show "check_transaction_structure tx \<longleftrightarrow> outputs tx \<noteq> []"
    using v by (auto simp: check_transaction_structure_def is_coinbase_def list_all_iff in_set_conv_nth)
qed

lemma transaction_accepted_iff:
  "snd (validate_transaction_payload ext tc now p msg m) = HookValid \<and> validate_transaction_message ext tc msg = ValidationAccept \<longleftrightarrow>
   (\<exists>tx. codec_de tc (gm_data msg) = Inr tx \<and> tx_id tx = calculate_id ext tx \<and> outputs tx \<noteq> [] \<and> \<not> detect_spam_patterns tx \<and>
     (\<forall>k<length (inputs tx). input_verifies ext tx k (inputs tx ! k)))"
proof (cases "codec_de tc (gm_data msg)")
  case (Inr tx)
  show ?thesis
  proof (cases "\<forall>k<length (inputs tx). input_verifies ext tx k (inputs tx ! k)")
    case True
    then show ?thesis
      using Inr verified_transaction_passes_hooks [OF True]
      by (auto simp: validate_transaction_message_iff validate_transaction_payload_def hook_invalid_def)
  next
    case False
    then show ?thesis using Inr by (auto simp: validate_transaction_message_iff)
  qed
qed (simp add: validate_transaction_payload_def hook_invalid_def)

lemma block_accepted_iff:
  assumes "unat current_time + 600 < 2 ^ 64"
  shows "snd (validate_block_payload (w_block w) now current_time p msg m) = HookValid \<and>
     validate_block_message (w_ext w) (w_header w) (w_block w) current_time msg = ValidationAccept \<longleftrightarrow> block_message_ok w current_time msg"
proof -
  have a: "unat (current_time + 600) = unat current_time + 600" "unat (current_time + 300) = unat current_time + 300"
    using assms by (simp_all add: unat_word_ariths)
  show ?thesis
  proof (cases "codec_de (w_block w) (gm_data msg)")
    case (Inr b)
    then show ?thesis
      by (auto simp: validate_block_payload_def validate_block_message_def block_message_ok_def hook_invalid_def word_less_nat_alt a
          validate_block_transactions_def list_all_iff not_less)
  qed (simp add: validate_block_payload_def hook_invalid_def block_message_ok_def)
qed

lemma topics_differ: "TRANSACTIONS_TOPIC \<noteq> BLOCKS_TOPIC"
  by (simp add: TRANSACTIONS_TOPIC_def BLOCKS_TOPIC_def)

text \<open>The verdict on messages of other nodes in full. A transaction without inputs has nothing to verify
  and is accepted with any outputs, since the test for missing inputs takes it for a coinbase.\<close>

lemma acceptance_iff:
  assumes "unat current_time + 600 < 2 ^ 64" and "p \<noteq> gn_local n"
  shows "snd (acceptance_of w now current_time p msg r n) = ValidationAccept \<longleftrightarrow> r = AcceptMessage \<and> gm_data msg \<noteq> [] \<and>
    (gm_topic msg = TRANSACTIONS_TOPIC \<and> transaction_message_ok w msg \<or> gm_topic msg = BLOCKS_TOPIC \<and> block_message_ok w current_time msg)"
proof (cases "r = AcceptMessage")
  case True
  let ?h = "snd (verify_spam_potential (w_ext w) (w_tx w) (w_block w) now current_time p msg (scoring_of n))"
  have "snd (acceptance_of w now current_time p msg r n) = ValidationAccept \<longleftrightarrow>
      ?h = HookValid \<and> validate_message w (gn_local n) current_time p msg = ValidationAccept"
    using True by (simp add: acceptance_of_def case_prod_unfold split: validation_hook_result.splits)
  then show ?thesis
    using True assms(2) topics_differ block_accepted_iff [OF assms(1), of w now p msg "scoring_of n"]
      transaction_accepted_iff [of "w_ext w" "w_tx w" now p msg "scoring_of n"]
    by (auto simp: verify_spam_potential_def validate_message_def verify_message_authenticity_def transaction_message_ok_def input_verifies_iff)
next
  case False
  then show ?thesis by (cases r) (simp_all add: acceptance_of_def)
qed

text \<open>C38: A message that the filter passed, from another node than the local one (whose own messages are
  accepted unchecked), is accepted exactly when it is, on the topic of transactions, a transaction with the right id, an
  output and no spam pattern of which every input has a key of 32 bytes and a signature of 64 bytes that verifies, or, on the
  topic of blocks, a signed block with a nonce, a time at most five minutes ahead and well-structured transactions. A
  message that the filter dropped is not accepted. This is said of messages that do not decode to a transaction
  without inputs, and while the clock stays ten minutes below the end of its 64-bit range.\<close>

theorem acceptance_exact:
  assumes "unat current_time + 600 < 2 ^ 64" and "p \<noteq> gn_local n"
    and "\<And>tx. codec_de (w_tx w) (gm_data msg) = Inr tx \<Longrightarrow> inputs tx \<noteq> []"
  shows "snd (acceptance_of w now current_time p msg r n) = ValidationAccept \<longleftrightarrow> r = AcceptMessage \<and> gm_data msg \<noteq> [] \<and>
    (gm_topic msg = TRANSACTIONS_TOPIC \<and> (\<exists>tx. codec_de (w_tx w) (gm_data msg) = Inr tx \<and> inputs tx \<noteq> []) \<and>
        transaction_message_ok w msg \<or>
     gm_topic msg = BLOCKS_TOPIC \<and> block_message_ok w current_time msg)"
proof -
  have "transaction_message_ok w msg \<Longrightarrow> \<exists>tx. codec_de (w_tx w) (gm_data msg) = Inr tx \<and> inputs tx \<noteq> []"
    using assms(3) by (auto simp: transaction_message_ok_def)
  then show ?thesis unfolding acceptance_iff [OF assms(1,2)] by blast
qed

section \<open>Scores of the mesh\<close>

text \<open>Scores are multiples of one half, which \<open>f64\<close> has exactly.\<close>

definition halves :: "int \<Rightarrow> f64" where
  "halves z = Fin (z * 2 ^ 1073)"

lemma f64_ratio_halves: "\<bar>z\<bar> < 2 ^ 53 \<Longrightarrow> f64_ratio (z * 2 ^ 1073) 1 = halves z"
proof -
  assume z: "\<bar>z\<bar> < 2 ^ 53"
  have "nat \<bar>z * 2 ^ 1073\<bar> = nat \<bar>z\<bar> * 2 ^ 1073 * 1" by (simp add: abs_mult nat_mult_distrib)
  moreover have m: "nat \<bar>z\<bar> < 2 ^ 53" using z by (simp add: nat_less_iff)
  ultimately have "round_ratio (nat \<bar>z * 2 ^ 1073\<bar>) 1 = nat \<bar>z\<bar> * 2 ^ 1073" using round_ratio_exact [OF m zero_less_one, of 1073] by simp
  then have "f64_ratio (z * 2 ^ 1073) 1 = f64_fit (z * 2 ^ 1073)"
    by (simp add: f64_ratio_def sgn_mult mult.assoc [symmetric] sgn_mult_abs)
  moreover have "\<bar>z * 2 ^ 1073\<bar> \<le> f64_max"
  proof -
    have "\<bar>z * 2 ^ 1073\<bar> \<le> 2 ^ 53 * 2 ^ 1073" unfolding abs_mult using z by (intro mult_mono) simp_all
    also have "\<dots> = 2 ^ (53 + 1073)" by (simp only: power_add)
    also have "\<dots> \<le> f64_max" by (rule f64_max_ge) simp
    finally show ?thesis .
  qed
  ultimately show ?thesis by (simp add: f64_fit_def halves_def abs_le_iff)
qed

lemma halves_add: "\<bar>a + b\<bar> < 2 ^ 53 \<Longrightarrow> f64_add (halves a) (halves b) = halves (a + b)"
  using f64_ratio_halves [of "a + b"] by (simp add: halves_def f64_add_def distrib_right)

lemma halves_neg: "f64_neg (halves a) = halves (- a)"
  by (simp add: halves_def)

lemma halves_less: "f64_less (halves a) (halves b) \<longleftrightarrow> a < b"
  by (simp add: halves_def f64_less_def)

lemma halves_lit: "\<bar>2 * n\<bar> < 2 ^ 53 \<Longrightarrow> f64_lit n 1 = halves (2 * n)"
proof -
  assume n: "\<bar>2 * n\<bar> < 2 ^ 53"
  have "n * int ulp = (2 * n) * 2 ^ 1073" unfolding ulp_def by simp
  then show ?thesis using f64_ratio_halves [OF n] by (simp only: f64_lit_def)
qed

lemma halves_half: "f64_lit 1 2 = halves 1"
proof -
  have "round_ratio (1 * 2 ^ 1073 * 2) 2 = 1 * 2 ^ 1073" by (rule round_ratio_exact) simp_all
  moreover have "nat \<bar>1 * int ulp\<bar> = 1 * 2 ^ 1073 * 2" unfolding ulp_def by simp
  ultimately have "f64_lit 1 2 = f64_fit (1 * 2 ^ 1073)"
    unfolding f64_lit_def f64_ratio_def using ulp_pos by (simp only:) simp
  moreover have "(2 :: int) ^ 1073 \<le> f64_max" by (rule f64_max_ge) simp
  moreover have "- f64_max \<le> (2 :: int) ^ 1073" unfolding f64_max_def by simp
  ultimately show ?thesis by (simp only: f64_fit_def halves_def) simp
qed

fun mesh_history :: "(u64 \<times> bool) list \<Rightarrow> peer_id \<Rightarrow> topic_mesh \<Rightarrow> topic_mesh" where
  "mesh_history [] p m = m"
| "mesh_history ((t, ok) # es) p m = mesh_history es p (mesh_update_peer_score t p ok ok m)"

definition mesh_points :: "(u64 \<times> bool) list \<Rightarrow> int" where
  "mesh_points es = 3 * int (length (filter snd es)) - 10 * int (length (filter (\<lambda>e. \<not> snd e) es))"

lemma mesh_points_bound: "\<bar>mesh_points es\<bar> \<le> 10 * int (length es)"
proof -
  have "length es = length (filter snd es) + length (filter (\<lambda>e. \<not> snd e) es)"
    by (rule sum_length_filter_compl [symmetric])
  then show ?thesis unfolding mesh_points_def by linarith
qed

lemma mesh_score_step:
  assumes "mps_score s = halves z" and "\<bar>z\<bar> < 2 ^ 52"
  shows "mps_score (mesh_score_after t ok ok s) = halves (z + (if ok then 3 else - 10))"
proof -
  have "saturating_sub t t = (0 :: u64)" for t by (simp add: saturating_sub_def)
  moreover have "f64_add (f64_add (halves z) (halves 2)) (halves 1) = halves (z + 3)"
    using assms(2) halves_add [of z 2] halves_add [of "z + 2" 1] by (simp add: add.commute)
  moreover have "f64_sub (halves z) (halves 10) = halves (z - 10)"
    using assms(2) halves_add [of z "- 10"] by (simp add: f64_sub_def halves_neg)
  ultimately show ?thesis
    using assms(1) halves_half halves_lit [of 1] halves_lit [of 5] by (simp add: mesh_score_after_def Let_def)
qed

lemma mesh_history_score:
  assumes "mesh_get_peer_score m p = halves z" and "\<bar>z\<bar> + 10 * int (length es) < 2 ^ 52"
  shows "mesh_get_peer_score (mesh_history es p m) p = halves (z + mesh_points es) \<and> graylist_threshold (mesh_history es p m) = graylist_threshold m"
  using assms
proof (induction es arbitrary: m z)
  case (Cons e es)
  obtain t ok where e: "e = (t, ok)" by fastforce
  let ?m = "mesh_update_peer_score t p ok ok m"
  have "f64_lit 0 1 = halves 0" using halves_lit [of 0] by simp
  then have "mesh_get_peer_score ?m p = halves (z + (if ok then 3 else - 10))"
    using mesh_score_step [of _ z t ok] Cons.prems
    by (auto simp: mesh_get_peer_score_def mesh_update_peer_score_def mesh_peer_score_default_def Let_def split: option.splits)
  moreover have "\<bar>z + (if ok then 3 else - 10)\<bar> + 10 * int (length es) < 2 ^ 52" using Cons.prems(2) by auto
  ultimately have "mesh_get_peer_score (mesh_history es p ?m) p = halves (z + (if ok then 3 else - 10) + mesh_points es) \<and>
      graylist_threshold (mesh_history es p ?m) = graylist_threshold ?m"
    by (rule Cons.IH)
  moreover have "graylist_threshold ?m = graylist_threshold m" by (simp add: mesh_update_peer_score_def)
  moreover have "mesh_points (e # es) = (if ok then 3 else - 10) + mesh_points es" by (simp add: mesh_points_def e)
  ultimately show ?case by (simp add: e add.assoc)
qed (simp add: mesh_points_def)

text \<open>After any history of messages of a peer on a topic, its score is exactly one and a half for each accepted message less five
  for each rejected one, in the arithmetic of \<open>f64\<close>; it never decays, whatever time passes. The peer is
  disconnected exactly when this is below minus one hundred, so first after 21 rejections.\<close>

theorem mesh_score_exact:
  assumes "length es < 2 ^ 40"
  shows "mesh_get_peer_score (mesh_history es p (topic_mesh_new topic)) p = halves (mesh_points es) \<and>
    (topic_should_disconnect (mesh_history es p (topic_mesh_new topic)) p \<longleftrightarrow> mesh_points es < - 200)"
proof -
  have z: "mesh_get_peer_score (topic_mesh_new topic) p = halves 0"
    using halves_lit [of 0] by (simp add: mesh_get_peer_score_def topic_mesh_new_def)
  have l: "\<bar>0\<bar> + 10 * int (length es) < 2 ^ 52"
  proof -
    have "int (length es) < 2 ^ 40" using assms by (metis of_nat_less_iff of_nat_numeral of_nat_power)
    then show ?thesis by simp
  qed
  have "graylist_threshold (topic_mesh_new topic) = halves (- 200)" using halves_lit [of "- 100"] by (simp add: topic_mesh_new_def)
  then show ?thesis using mesh_history_score [OF z l] halves_less by (simp add: topic_should_disconnect_def)
qed

section \<open>The grey list\<close>

text \<open>A penalty that takes a known peer that is not on the grey list to the threshold or below puts it there for the
  configured time: until then its messages are dropped, unless they are dropped as duplicates, whatever its later score; from
  then on it is not shunned. The scoring of other peers is not changed.\<close>

theorem penalty_greylists:
  assumes "f64_less (outcome_penalty outcome) (f64_lit 0 1)" and "fmlookup (peer_scores (psm_spam_filter m)) p = Some s"
    and "\<not> is_greylisted s"
    and "f64_le (f64_add (ps_score s) (outcome_penalty outcome)) (greylist_threshold (sf_config (psm_spam_filter m)))"
  shows "(\<forall>t i data mt. t < now + greylist_duration (sf_config (psm_spam_filter m)) \<longrightarrow>
      (\<exists>f. check_message reenter t (psm_spam_filter (apply_validation_outcome now p outcome m)) p i data mt \<in>
        {Some (f, Duplicate), Some (f, PeerGreylisted)})) \<and>
    (\<forall>t\<ge>now + greylist_duration (sf_config (psm_spam_filter m)).
      \<not> shunned t (psm_spam_filter (apply_validation_outcome now p outcome m)) p) \<and>
    (\<forall>q. q \<noteq> p \<longrightarrow> get_peer_status (psm_spam_filter (apply_validation_outcome now p outcome m)) q = get_peer_status (psm_spam_filter m) q)"
proof -
  let ?f = "psm_spam_filter m" and ?f' = "psm_spam_filter (apply_validation_outcome now p outcome m)"
  let ?s = "apply_greylist (sf_config ?f) now (s\<lparr>ps_score := f64_add (ps_score s) (outcome_penalty outcome)\<rparr>)"
  have f': "?f' = ?f\<lparr>peer_scores := fmupd p ?s (peer_scores ?f)\<rparr>"
    using assms by (simp add: apply_validation_outcome_def update_validation_record_def Let_def update_entry_def update_score_def)
  have sh: "shunned t ?f' p \<longleftrightarrow> t < now + greylist_duration (sf_config ?f)" for t
    by (auto simp: f' shunned_def check_greylist_expiry_def apply_greylist_def)
  have "\<exists>f. check_message reenter t ?f' p i data mt \<in> {Some (f, Duplicate), Some (f, PeerGreylisted)}"
    if "t < now + greylist_duration (sf_config ?f)" for t i data mt
  proof -
    have "is_greylisted (snd (enter_peer t p (cleanup_cache t ?f')))" using sh that by (simp add: enter_peer_greylisted)
    then show ?thesis by (auto simp: check_message_def is_duplicate_def Let_def case_prod_unfold)
  qed
  moreover have "get_peer_status ?f' q = get_peer_status ?f q" if "q \<noteq> p" for q using that by (simp add: f' get_peer_status_def)
  ultimately show ?thesis using sh by (auto simp: not_less)
qed

section \<open>A concrete node\<close>

definition demo_gossip_tx :: transaction where
  "demo_gossip_tx = demo_tx\<lparr>gas_limit := 1, tx_id := calculate_id demo_ext demo_tx\<rparr>"

definition demo_wire :: wire where
  "demo_wire = \<lparr>w_ext = demo_ext, w_tx = single_codec demo_gossip_tx,
     w_block = \<lparr>codec_ser = \<lambda>b. Inl ''unsupported value'', codec_de = \<lambda>raw. Inl ''invalid data''\<rparr>,
     w_header = \<lambda>h. Inl ''unsupported value'', w_ids = demo_id_codec\<rparr>"

definition demo_scoring :: peer_scoring_manager where
  "demo_scoring = peer_scoring_manager_new (demo_spam_filter\<lparr>peer_scores :=
     fmap_of_list [([3], \<lparr>ps_score = halves (- 980), is_greylisted = False, greylist_expires = None\<rparr>)]\<rparr>)
     gossipsub_score_params_default gossipsub_score_thresholds_default"

definition demo_gossip_node :: "memory gossip_node" where
  "demo_gossip_node = \<lparr>gn_filter = demo_message_filter, gn_scoring = demo_scoring, gn_mesh = mesh_manager_new, gn_local = [7]\<rparr>"

definition demo_tx_message :: gossip_message where
  "demo_tx_message = \<lparr>gm_data = [1], gm_topic = TRANSACTIONS_TOPIC\<rparr>"

lemma demo_tx_message_ok: "transaction_message_ok demo_wire demo_tx_message"
proof -
  let ?tx = "demo_gossip_tx"
  have "codec_de (w_tx demo_wire) (gm_data demo_tx_message) = Inr ?tx"
    by (simp add: demo_wire_def demo_tx_message_def single_codec_def)
  moreover have "tx_id ?tx = calculate_id (w_ext demo_wire) ?tx"
    by (simp add: demo_gossip_tx_def demo_wire_def calculate_id_def)
  moreover have "\<not> detect_spam_patterns ?tx" "outputs ?tx \<noteq> []"
    by (simp_all add: detect_spam_patterns_def demo_gossip_tx_def demo_tx_def)
  moreover have "verify_schnorr (w_ext demo_wire) (replicate 32 1) (replicate 64 1) h = Inr True" for h
    by (simp add: verify_schnorr_def demo_wire_def demo_ext_def bind_res_def ok_or_def Let_def)
  then have "\<forall>k<length (inputs ?tx). length (pubkey (inputs ?tx ! k)) = 32 \<and> length (signature (inputs ?tx ! k)) = 64 \<and>
      verify_schnorr (w_ext demo_wire) (pubkey (inputs ?tx ! k)) (signature (inputs ?tx ! k))
        (tagged_hash (w_ext demo_wire) TAG_TX_SIGN (serialize_tx_for_sighash ?tx k (sighash_type (inputs ?tx ! k)))) = Inr True"
    by (simp add: demo_gossip_tx_def demo_tx_def demo_input_def)
  ultimately show ?thesis unfolding transaction_message_ok_def by blast
qed

theorem acceptance_exact_witness:
  "snd (acceptance_of demo_wire 95 1000 [8] demo_tx_message AcceptMessage demo_gossip_node) = ValidationAccept"
proof -
  have de: "codec_de (w_tx demo_wire) (gm_data demo_tx_message) = Inr demo_gossip_tx"
    by (simp add: demo_wire_def demo_tx_message_def single_codec_def)
  have ins: "inputs demo_gossip_tx \<noteq> []" by (simp add: demo_gossip_tx_def demo_tx_def)
  have "snd (acceptance_of demo_wire 95 1000 [8] demo_tx_message AcceptMessage demo_gossip_node) = ValidationAccept \<longleftrightarrow>
    AcceptMessage = AcceptMessage \<and> gm_data demo_tx_message \<noteq> [] \<and>
    (gm_topic demo_tx_message = TRANSACTIONS_TOPIC \<and>
        (\<exists>tx. codec_de (w_tx demo_wire) (gm_data demo_tx_message) = Inr tx \<and> inputs tx \<noteq> []) \<and>
        transaction_message_ok demo_wire demo_tx_message \<or>
     gm_topic demo_tx_message = BLOCKS_TOPIC \<and> block_message_ok demo_wire 1000 demo_tx_message)"
    by (rule acceptance_exact) (use de ins in \<open>simp_all add: demo_gossip_node_def\<close>)
  moreover have "gm_data demo_tx_message \<noteq> []" "gm_topic demo_tx_message = TRANSACTIONS_TOPIC" by (simp_all add: demo_tx_message_def)
  ultimately show ?thesis using de ins demo_tx_message_ok by blast
qed

theorem mesh_score_exact_witness:
  "topic_should_disconnect (mesh_history (replicate 21 (7, False)) [8] (topic_mesh_new TRANSACTIONS_TOPIC)) [8] \<and>
   \<not> topic_should_disconnect (mesh_history (replicate 20 (7, False)) [8] (topic_mesh_new TRANSACTIONS_TOPIC)) [8]"
  using mesh_score_exact [of "replicate 21 (7, False)" "[8]" TRANSACTIONS_TOPIC]
    mesh_score_exact [of "replicate 20 (7, False)" "[8]" TRANSACTIONS_TOPIC]
  by (simp add: mesh_points_def)

theorem penalty_greylists_witness:
  "(\<exists>f. check_message (\<lambda>p q. p \<noteq> q) 5 (psm_spam_filter (apply_validation_outcome 5 [3] (OutcomeInvalidSignature (f64_lit 25 1)) demo_scoring))
      [3] [1] [1] TransactionMessage \<in> {Some (f, Duplicate), Some (f, PeerGreylisted)}) \<and>
   \<not> shunned (5 + 300 * NANOS_PER_SEC) (psm_spam_filter (apply_validation_outcome 5 [3] (OutcomeInvalidSignature (f64_lit 25 1)) demo_scoring)) [3]"
proof -
  let ?s = "\<lparr>ps_score = halves (- 980), is_greylisted = False, greylist_expires = None\<rparr>"
  have p: "outcome_penalty (OutcomeInvalidSignature (f64_lit 25 1)) = halves (- 50)"
    using halves_lit [of 25] by (simp add: halves_neg)
  have "f64_less (halves (- 50)) (f64_lit 0 1)" using halves_lit [of 0] halves_less by simp
  moreover have "fmlookup (peer_scores (psm_spam_filter demo_scoring)) [3] = Some ?s"
    by (simp add: demo_scoring_def peer_scoring_manager_new_def)
  moreover have "f64_le (f64_add (ps_score ?s) (halves (- 50))) (greylist_threshold (sf_config (psm_spam_filter demo_scoring)))"
    using halves_add [of "- 980" "- 50"] halves_lit [of "- 500"] halves_less
    by (simp add: demo_scoring_def peer_scoring_manager_new_def demo_spam_filter_def spam_protection_config_default_def f64_le_def)
  moreover have "greylist_duration (sf_config (psm_spam_filter demo_scoring)) = 300 * NANOS_PER_SEC"
    by (simp add: demo_scoring_def peer_scoring_manager_new_def demo_spam_filter_def spam_protection_config_default_def)
  ultimately show ?thesis
    using penalty_greylists [of "OutcomeInvalidSignature (f64_lit 25 1)" demo_scoring "[3]" ?s 5 "\<lambda>p q. p \<noteq> q"] p
    by (simp add: NANOS_PER_SEC_def)
qed

end
