(* ===== verification/Peer_Routing.thy ===== *)
theory Peer_Routing
  imports Gossip_Filter Disjoint_Union
begin

text \<open>
  Known peers: the persistent table of \<open>network/core_network/routing.rs\<close>, what the Identify protocol tells about peers
  (\<open>protocols.rs\<close>) and the derivation of a peer id from a key (\<open>peer_id.rs\<close>, \<open>validate_peer_legitimacy\<close> of \<open>mod.rs\<close>). A peer
  id is the bytes that \<open>to_bytes\<close> gives; \<open>valid\<close> says which bytes \<open>from_bytes\<close> accepts. An address is its bytes. The clock is
  the argument \<open>now\<close> in seconds, the iteration order of the cache the argument \<open>ord\<close>.
\<close>

section \<open>The table\<close>

definition MAX_ROUTING_TABLE_SIZE :: nat where
  "MAX_ROUTING_TABLE_SIZE = 1000"

definition PEER_TTL_SECONDS :: u64 where
  "PEER_TTL_SECONDS = 7 * 24 * 60 * 60"

record peer_record =
  peer_id_bytes :: bytes
  addresses :: "bytes list"
  last_seen :: u64
  connection_count :: u32
  is_bootstrap :: bool

definition peer_record_new :: "u64 \<Rightarrow> peer_id \<Rightarrow> bytes list \<Rightarrow> bool \<Rightarrow> peer_record" where
  "peer_record_new now p addrs boot =
     \<lparr>peer_id_bytes = p, addresses = addrs, last_seen = now, connection_count = 1, is_bootstrap = boot\<rparr>"

definition update_seen :: "u64 \<Rightarrow> peer_record \<Rightarrow> peer_record" where
  "update_seen now r = r\<lparr>last_seen := now, connection_count := saturating_add (connection_count r) 1\<rparr>"

definition pr_is_expired :: "u64 \<Rightarrow> peer_record \<Rightarrow> bool" where
  "pr_is_expired now r \<longleftrightarrow> PEER_TTL_SECONDS < saturating_sub now (last_seen r)"

definition primary_address :: "peer_record \<Rightarrow> bytes option" where
  "primary_address r = (case addresses r of [] \<Rightarrow> None | a # _ \<Rightarrow> Some a)"

record 'd peer_routing_table =
  rt_db :: 'd
  rt_cache :: "(peer_id, peer_record) fmap"

definition load_peer ::
  "(bytes \<Rightarrow> bool) \<Rightarrow> peer_record codec \<Rightarrow> u64 \<Rightarrow> bytes \<times> bytes \<Rightarrow> (peer_id, peer_record) fmap \<Rightarrow> (peer_id, peer_record) fmap" where
  "load_peer valid bc now kv cache = (case kv of (key, value) \<Rightarrow>
     if valid key then (case codec_de bc value of
         Inr r \<Rightarrow> if \<not> pr_is_expired now r then fmupd key r cache else cache
       | Inl _ \<Rightarrow> cache)
     else cache)"

fun load_peers ::
  "(bytes \<Rightarrow> bool) \<Rightarrow> peer_record codec \<Rightarrow> u64 \<Rightarrow> (string + bytes \<times> bytes) list \<Rightarrow> (peer_id, peer_record) fmap \<Rightarrow>
   storage_error + (peer_id, peer_record) fmap" where
  "load_peers valid bc now [] cache = Inr cache"
| "load_peers valid bc now (Inl e # items) cache = Inl (from_rocksdb_error e)"
| "load_peers valid bc now (Inr kv # items) cache = load_peers valid bc now items (load_peer valid bc now kv cache)"

definition rt_open ::
  "'d rocksdb \<Rightarrow> (bytes \<Rightarrow> bool) \<Rightarrow> peer_record codec \<Rightarrow> u64 \<Rightarrow> 'd \<Rightarrow> storage_error + 'd peer_routing_table" where
  "rt_open R valid bc now d = bind_res (load_peers valid bc now (rdb_iter R d Default None) fmempty) (\<lambda>cache.
     Inr \<lparr>rt_db = d, rt_cache = cache\<rparr>)"

definition rt_remove_peer :: "'d rocksdb \<Rightarrow> peer_id \<Rightarrow> 'd peer_routing_table \<Rightarrow> 'd peer_routing_table \<times> (storage_error + unit)" where
  "rt_remove_peer R p t = (case rdb_delete R (rt_db t) Default p of (d, res) \<Rightarrow>
     (\<lparr>rt_db = d, rt_cache = fmdrop p (rt_cache t)\<rparr>, map_err from_rocksdb_error res))"

text \<open>\<open>min_by_key\<close>: the first entry of the least \<open>last_seen\<close>.\<close>

fun oldest_of :: "(peer_id, peer_record) fmap \<Rightarrow> peer_id list \<Rightarrow> peer_id option" where
  "oldest_of cache [] = None"
| "oldest_of cache (p # ps) = (case oldest_of cache ps of
     None \<Rightarrow> Some p
   | Some q \<Rightarrow> if last_seen (the (fmlookup cache q)) < last_seen (the (fmlookup cache p)) then Some q else Some p)"

definition evict_oldest_peer :: "set_order \<Rightarrow> 'd rocksdb \<Rightarrow> 'd peer_routing_table \<Rightarrow> 'd peer_routing_table \<times> (storage_error + unit)" where
  "evict_oldest_peer ord R t = (case oldest_of (rt_cache t) (ord (fmdom (rt_cache t))) of
     Some p \<Rightarrow> rt_remove_peer R p t | None \<Rightarrow> (t, Inr ()))"

definition merge_addresses :: "bytes list \<Rightarrow> bytes list \<Rightarrow> bytes list" where
  "merge_addresses = fold (\<lambda>a all. if a \<in> set all then all else all @ [a])"

definition seen_record :: "u64 \<Rightarrow> peer_id \<Rightarrow> bytes list \<Rightarrow> bool \<Rightarrow> peer_record option \<Rightarrow> peer_record" where
  "seen_record now p addrs boot old =
     (let r = update_seen now (case old of Some r \<Rightarrow> r | None \<Rightarrow> peer_record_new now p addrs boot)
      in if addrs \<noteq> [] then r\<lparr>addresses := merge_addresses addrs (addresses r)\<rparr> else r)"

definition store_peer ::
  "'d rocksdb \<Rightarrow> peer_record codec \<Rightarrow> peer_id \<Rightarrow> peer_record \<Rightarrow> 'd peer_routing_table \<Rightarrow> 'd peer_routing_table \<times> (storage_error + unit)" where
  "store_peer R bc p r t0 = (let t = t0\<lparr>rt_cache := fmupd p r (rt_cache t0)\<rparr> in
     case to_bytes bc r of
       Inl e \<Rightarrow> (t, Inl e)
     | Inr raw \<Rightarrow> (case rdb_put R (rt_db t) Default p raw of (d, res) \<Rightarrow> (t\<lparr>rt_db := d\<rparr>, map_err from_rocksdb_error res)))"

definition rt_add_peer ::
  "set_order \<Rightarrow> 'd rocksdb \<Rightarrow> peer_record codec \<Rightarrow> u64 \<Rightarrow> peer_id \<Rightarrow> bytes list \<Rightarrow> bool \<Rightarrow> 'd peer_routing_table \<Rightarrow>
   'd peer_routing_table \<times> (storage_error + unit)" where
  "rt_add_peer ord R bc now p addrs boot t0 =
     (case (if MAX_ROUTING_TABLE_SIZE \<le> fcard (fmdom (rt_cache t0)) \<and> fmlookup (rt_cache t0) p = None
            then evict_oldest_peer ord R t0 else (t0, Inr ())) of
        (t1, Inl e) \<Rightarrow> (t1, Inl e)
      | (t1, Inr _) \<Rightarrow> store_peer R bc p (seen_record now p addrs boot (fmlookup (rt_cache t1) p)) t1)"

definition rt_get_peer :: "'d peer_routing_table \<Rightarrow> peer_id \<Rightarrow> peer_record option" where
  "rt_get_peer t p = fmlookup (rt_cache t) p"

definition rt_select :: "set_order \<Rightarrow> (peer_record \<Rightarrow> bool) \<Rightarrow> 'd peer_routing_table \<Rightarrow> peer_record list" where
  "rt_select ord P t = filter P (map (\<lambda>p. the (fmlookup (rt_cache t) p)) (ord (fmdom (rt_cache t))))"

definition get_all_peers :: "set_order \<Rightarrow> 'd peer_routing_table \<Rightarrow> peer_record list" where
  "get_all_peers ord = rt_select ord (\<lambda>r. True)"

definition get_bootstrap_peers :: "set_order \<Rightarrow> 'd peer_routing_table \<Rightarrow> peer_record list" where
  "get_bootstrap_peers ord = rt_select ord is_bootstrap"

definition get_recent_peers :: "set_order \<Rightarrow> u64 \<Rightarrow> 'd peer_routing_table \<Rightarrow> peer_record list" where
  "get_recent_peers ord now = rt_select ord (\<lambda>r. saturating_sub now 3600 \<le> last_seen r)"

definition rt_cleanup_expired ::
  "set_order \<Rightarrow> 'd rocksdb \<Rightarrow> u64 \<Rightarrow> 'd peer_routing_table \<Rightarrow> 'd peer_routing_table \<times> (storage_error + unit)" where
  "rt_cleanup_expired ord R now t =
     (let expired_peers = filter (\<lambda>p. case fmlookup (rt_cache t) p of Some r \<Rightarrow> pr_is_expired now r | None \<Rightarrow> False) (ord (fmdom (rt_cache t)))
      in if expired_peers = [] then (t, Inr ())
         else case rdb_write R (rt_db t) (map RbDelete expired_peers) of (d, res) \<Rightarrow>
           (\<lparr>rt_db = d, rt_cache = fold fmdrop expired_peers (rt_cache t)\<rparr>, map_err from_rocksdb_error res))"

definition rt_size :: "'d peer_routing_table \<Rightarrow> nat" where
  "rt_size t = fcard (fmdom (rt_cache t))"

definition is_at_capacity :: "'d peer_routing_table \<Rightarrow> bool" where
  "is_at_capacity t \<longleftrightarrow> MAX_ROUTING_TABLE_SIZE \<le> rt_size t"

section \<open>Identified peers\<close>

record identify_info =
  ii_protocol_version :: string
  ii_agent_version :: string
  ii_listen_addrs :: "bytes list"
  ii_observed_addr :: bytes
  ii_protocols :: "string list"

record peer_info =
  pi_peer_id :: peer_id
  protocol_version :: "string option"
  agent_version :: "string option"
  listen_addresses :: "bytes list"
  observed_address :: "bytes option"
  protocols :: "string list"
  last_ping :: "duration option"
  ping_count :: u32

definition from_identify :: "peer_id \<Rightarrow> identify_info \<Rightarrow> peer_info" where
  "from_identify p info = \<lparr>pi_peer_id = p, protocol_version = Some (ii_protocol_version info),
     agent_version = Some (ii_agent_version info), listen_addresses = ii_listen_addrs info,
     observed_address = Some (ii_observed_addr info), protocols = ii_protocols info, last_ping = None, ping_count = 0\<rparr>"

definition update_ping :: "duration \<Rightarrow> peer_info \<Rightarrow> peer_info" where
  "update_ping rtt i = i\<lparr>last_ping := Some rtt, ping_count := ping_count i + 1\<rparr>"

definition average_ping :: "peer_info \<Rightarrow> duration option" where
  "average_ping i = last_ping i"

definition supports_required_protocols :: "peer_info \<Rightarrow> bool" where
  "supports_required_protocols i = list_all (\<lambda>req. list_ex (\<lambda>p. sublist req p) (protocols i)) [''ping'', ''identify'']"

datatype identify_event = IdentifyReceived peer_id identify_info | IdentifySent peer_id | IdentifyPushed peer_id | IdentifyError peer_id string

type_synonym protocol_handler = "(peer_id, peer_info) fmap"

fun handle_identify_event :: "identify_event \<Rightarrow> protocol_handler \<Rightarrow> protocol_handler" where
  "handle_identify_event (IdentifyReceived p info) h = fmupd p (from_identify p info) h"
| "handle_identify_event (IdentifySent p) h = h"
| "handle_identify_event (IdentifyPushed p) h = h"
| "handle_identify_event (IdentifyError p e) h = h"

datatype ping_event = PingEvent peer_id "string + duration"

definition handle_ping_event :: "ping_event \<Rightarrow> protocol_handler \<Rightarrow> protocol_handler" where
  "handle_ping_event event h = h"

definition ph_remove_peer :: "peer_id \<Rightarrow> protocol_handler \<Rightarrow> protocol_handler" where
  "ph_remove_peer p h = fmdrop p h"

definition is_healthy :: "peer_info \<Rightarrow> bool" where
  "is_healthy i = (case last_ping i of None \<Rightarrow> False | Some d \<Rightarrow> d < 500 * 1000000 \<and> supports_required_protocols i)"

definition get_healthy_peers :: "set_order \<Rightarrow> protocol_handler \<Rightarrow> peer_info list" where
  "get_healthy_peers ord h = filter is_healthy (map (\<lambda>p. the (fmlookup h p)) (ord (fmdom h)))"

record protocol_stats =
  prs_total_peers :: nat
  prs_healthy_peers :: nat

definition ph_get_stats :: "set_order \<Rightarrow> protocol_handler \<Rightarrow> protocol_stats" where
  "ph_get_stats ord h = \<lparr>prs_total_peers = fcard (fmdom h), prs_healthy_peers = length (get_healthy_peers ord h)\<rparr>"

definition health_percentage :: "protocol_stats \<Rightarrow> f64" where
  "health_percentage s = (if prs_total_peers s = 0 then f64_lit 0 1
     else f64_mul (f64_rate (prs_healthy_peers s) (prs_total_peers s)) (f64_lit 100 1))"

section \<open>Peer ids from keys\<close>

text \<open>The parsers of public keys and the derivation of an id from a parsed key are libp2p's.\<close>

record key_ops =
  ed25519_try_from_bytes :: "bytes \<Rightarrow> bytes option"
  secp256k1_try_from_bytes :: "bytes \<Rightarrow> bytes option"
  id_of_ed25519 :: "bytes \<Rightarrow> peer_id"
  id_of_secp256k1 :: "bytes \<Rightarrow> peer_id"

definition peer_id_from_core_public_key :: "key_ops \<Rightarrow> bytes \<Rightarrow> string + peer_id" where
  "peer_id_from_core_public_key K bs =
     (case (if length bs = 32 then ed25519_try_from_bytes K bs else None) of
        Some key \<Rightarrow> Inr (id_of_ed25519 K key)
      | None \<Rightarrow> (case secp256k1_try_from_bytes K bs of
          Some key \<Rightarrow> Inr (id_of_secp256k1 K key)
        | None \<Rightarrow> Inl ''Unsupported core public key format for PeerId derivation (len: {})''))"

definition validate_peer_legitimacy :: "key_ops \<Rightarrow> peer_id \<Rightarrow> peer_info \<Rightarrow> bool" where
  "validate_peer_legitimacy K p i =
     (if \<not> supports_required_protocols i then False
      else case peer_id_from_core_public_key K p of Inr derived \<Rightarrow> derived = p | Inl _ \<Rightarrow> False)"

section \<open>Cache and database\<close>

definition stored_peer :: "('d \<Rightarrow> contents) \<Rightarrow> (bytes \<Rightarrow> bool) \<Rightarrow> peer_record codec \<Rightarrow> 'd \<Rightarrow> peer_id \<Rightarrow> peer_record option" where
  "stored_peer view valid bc d p = (case view d Default p of
     Some raw \<Rightarrow> if valid p then (case codec_de bc raw of Inr r \<Rightarrow> Some r | Inl _ \<Rightarrow> None) else None
   | None \<Rightarrow> None)"

text \<open>What the cache has is stored, and what is stored and not in the cache has expired.\<close>

fun in_step :: "u64 \<Rightarrow> peer_record option \<Rightarrow> peer_record option \<Rightarrow> bool" where
  "in_step now (Some r) stored \<longleftrightarrow> stored = Some r"
| "in_step now None None \<longleftrightarrow> True"
| "in_step now None (Some r) \<longleftrightarrow> pr_is_expired now r"

definition synced :: "('d \<Rightarrow> contents) \<Rightarrow> (bytes \<Rightarrow> bool) \<Rightarrow> peer_record codec \<Rightarrow> u64 \<Rightarrow> 'd peer_routing_table \<Rightarrow> bool" where
  "synced view valid bc now t \<longleftrightarrow> (\<forall>p. in_step now (fmlookup (rt_cache t) p) (stored_peer view valid bc (rt_db t) p))"

definition fresh_peers :: "u64 \<Rightarrow> (peer_id, peer_record) fmap \<Rightarrow> (peer_id, peer_record) fmap" where
  "fresh_peers now cache = fmfilter (\<lambda>p. \<not> pr_is_expired now (the (fmlookup cache p))) cache"

lemma fresh_peers_lookup:
  "fmlookup (fresh_peers now cache) p = (case fmlookup cache p of Some r \<Rightarrow> if pr_is_expired now r then None else Some r | None \<Rightarrow> None)"
  by (simp add: fresh_peers_def split: option.splits)

lemma expired_mono: "pr_is_expired now r \<Longrightarrow> now \<le> now' \<Longrightarrow> pr_is_expired now' r"
  by (auto simp: pr_is_expired_def saturating_sub_def word_less_nat_alt word_le_nat_alt unat_sub split: if_splits)

lemma in_step_later: "in_step now c s \<Longrightarrow> now \<le> now' \<Longrightarrow> in_step now' c s"
  by (cases "(now, c, s)" rule: in_step.cases) (auto intro: expired_mono)

lemma synced_later: "synced view valid bc now t \<Longrightarrow> now \<le> now' \<Longrightarrow> synced view valid bc now' t"
  unfolding synced_def using in_step_later by blast

lemma load_peers_Inr:
  "load_peers valid bc now items cache = Inr c \<Longrightarrow> \<exists>kvs. items = map Inr kvs \<and> c = fold (load_peer valid bc now) kvs cache"
proof (induction valid bc now items cache rule: load_peers.induct)
  case (3 valid bc now kv items cache)
  then obtain kvs where "items = map Inr kvs" "c = fold (load_peer valid bc now) kvs (load_peer valid bc now kv cache)" by auto
  then show ?case by (intro exI [of _ "kv # kvs"]) simp
qed simp_all

lemma load_peers_total: "load_peers valid bc now (map Inr kvs) cache = Inr (fold (load_peer valid bc now) kvs cache)"
  by (induction kvs arbitrary: cache) simp_all

definition loadable :: "(bytes \<Rightarrow> bool) \<Rightarrow> peer_record codec \<Rightarrow> u64 \<Rightarrow> peer_id \<Rightarrow> bytes \<Rightarrow> peer_record option" where
  "loadable valid bc now p v = (if valid p then (case codec_de bc v of
     Inr r \<Rightarrow> if pr_is_expired now r then None else Some r | Inl _ \<Rightarrow> None) else None)"

lemma load_peer_lookup:
  "fmlookup (load_peer valid bc now (key, v) cache) p =
     (if p = key then (case loadable valid bc now key v of Some r \<Rightarrow> Some r | None \<Rightarrow> fmlookup cache p) else fmlookup cache p)"
  by (auto simp: load_peer_def loadable_def split: sum.splits)

lemma load_all_lookup:
  "distinct (map fst kvs) \<Longrightarrow> fmlookup (fold (load_peer valid bc now) kvs cache) p =
     (case map_of kvs p of None \<Rightarrow> fmlookup cache p
      | Some v \<Rightarrow> (case loadable valid bc now p v of Some r \<Rightarrow> Some r | None \<Rightarrow> fmlookup cache p))"
proof (induction kvs arbitrary: cache)
  case (Cons kv kvs)
  obtain key v where kv: "kv = (key, v)" by fastforce
  have "map_of kvs key = None" using Cons.prems kv by (simp add: map_of_eq_None_iff)
  then show ?case using Cons kv by (auto simp: load_peer_lookup split: option.splits)
qed simp

lemma rt_open_lookup:
  assumes "rocks_laws R view" and "rt_open R valid bc now d = Inr t"
  shows "rt_db t = d" and "fmlookup (rt_cache t) p =
    (case stored_peer view valid bc d p of Some r \<Rightarrow> if pr_is_expired now r then None else Some r | None \<Rightarrow> None)"
proof -
  obtain c where c: "load_peers valid bc now (rdb_iter R d Default None) fmempty = Inr c" "t = \<lparr>rt_db = d, rt_cache = c\<rparr>"
    using assms(2) by (auto simp: rt_open_def bind_res_def split: sum.splits)
  then show "rt_db t = d" by simp
  obtain kvs where k: "rdb_iter R d Default None = map Inr kvs" "c = fold (load_peer valid bc now) kvs fmempty"
    using load_peers_Inr [OF c(1)] by blast
  have s: "sorted_wrt (<) (map fst kvs)" "set kvs = {(key, v). view d Default key = Some v}"
    using rocks_iter_all [OF assms(1) k(1)] by auto
  then have d: "distinct (map fst kvs)" by (simp add: strict_sorted_iff)
  have "map_of kvs p = view d Default p"
  proof (cases "view d Default p")
    case None
    then show ?thesis using s(2) by (auto simp: map_of_eq_None_iff)
  next
    case (Some v)
    then have "(p, v) \<in> set kvs" using s(2) by simp
    then show ?thesis using d Some by simp
  qed
  then show "fmlookup (rt_cache t) p =
    (case stored_peer view valid bc d p of Some r \<Rightarrow> if pr_is_expired now r then None else Some r | None \<Rightarrow> None)"
    using load_all_lookup [OF d, of valid bc now fmempty p] c(2) k(2)
    by (auto simp: stored_peer_def loadable_def split: option.splits sum.splits)
qed

lemma rt_open_synced:
  assumes "rocks_laws R view" and "rt_open R valid bc now d = Inr t"
  shows "synced view valid bc now t"
  unfolding synced_def rt_open_lookup [OF assms] by (auto split: option.splits)

lemma reopen_exact:
  assumes "rocks_laws R view" and "synced view valid bc now t" and "now \<le> now'" and "rt_open R valid bc now' (rt_db t) = Inr t'"
  shows "rt_cache t' = fresh_peers now' (rt_cache t)"
proof (rule fmap_ext)
  fix p
  have "in_step now' (fmlookup (rt_cache t) p) (stored_peer view valid bc (rt_db t) p)"
    using synced_later [OF assms(2,3)] unfolding synced_def by blast
  then show "fmlookup (rt_cache t') p = fmlookup (fresh_peers now' (rt_cache t)) p"
    using rt_open_lookup(2) [OF assms(1,4), of p]
    by (cases "fmlookup (rt_cache t) p") (auto simp: fresh_peers_lookup split: option.splits)
qed

lemma map_err_Inr [simp]: "map_err f r = Inr x \<longleftrightarrow> r = Inr x"
  by (cases r) simp_all

lemma synced_delete:
  assumes "synced view valid bc now t" and "view d = (\<lambda>cf q. if cf = Default \<and> q \<in> P then None else view (rt_db t) cf q)"
    and "\<forall>q. fmlookup cache q = (if q \<in> P then None else fmlookup (rt_cache t) q)"
  shows "synced view valid bc now \<lparr>rt_db = d, rt_cache = cache\<rparr>"
  unfolding synced_def
proof
  fix p
  have "in_step now (fmlookup (rt_cache t) p) (stored_peer view valid bc (rt_db t) p)" using assms(1) unfolding synced_def by blast
  then show "in_step now (fmlookup (rt_cache \<lparr>rt_db = d, rt_cache = cache\<rparr>) p) (stored_peer view valid bc (rt_db \<lparr>rt_db = d, rt_cache = cache\<rparr>) p)"
    using assms(2,3) by (cases "p \<in> P") (simp_all add: stored_peer_def)
qed

lemma rocks_delete_ok:
  "rocks_laws R view \<Longrightarrow> rdb_delete R d cf key = (d', Inr ()) \<Longrightarrow> view d' = store (view d) cf key None"
  unfolding rocks_laws_def written_def by (metis fst_conv snd_conv is_ok_simps(1))

lemma rocks_put_ok:
  "rocks_laws R view \<Longrightarrow> rdb_put R d cf key v = (d', Inr ()) \<Longrightarrow> view d' = store (view d) cf key (Some v)"
  unfolding rocks_laws_def written_def by (metis fst_conv snd_conv is_ok_simps(1))

lemma rocks_write_ok:
  "rocks_laws R view \<Longrightarrow> rdb_write R d ops = (d', Inr ()) \<Longrightarrow> view d' = fold apply_rocks_op ops (view d)"
  unfolding rocks_laws_def written_def by (metis fst_conv snd_conv is_ok_simps(1))

lemma rt_remove_synced:
  assumes "rocks_laws R view" and "synced view valid bc now t" and "rt_remove_peer R p t = (t', Inr ())"
  shows "synced view valid bc now t'" and "rt_cache t' = fmdrop p (rt_cache t)"
proof -
  obtain d where d: "rdb_delete R (rt_db t) Default p = (d, Inr ())" "t' = \<lparr>rt_db = d, rt_cache = fmdrop p (rt_cache t)\<rparr>"
    using assms(3) by (auto simp: rt_remove_peer_def split: prod.splits)
  have "view d = store (view (rt_db t)) Default p None"
    using rocks_delete_ok [OF assms(1) d(1)] .
  then have "view d = (\<lambda>cf q. if cf = Default \<and> q \<in> {p} then None else view (rt_db t) cf q)"
    by (simp add: fun_eq_iff store_apply)
  then show "synced view valid bc now t'" unfolding d(2) by (rule synced_delete [OF assms(2)]) simp
  show "rt_cache t' = fmdrop p (rt_cache t)" using d(2) by simp
qed

lemma evict_synced:
  assumes "rocks_laws R view" and "synced view valid bc now t" and "evict_oldest_peer ord R t = (t', Inr ())"
  shows "synced view valid bc now t'"
  using assms rt_remove_synced(1) by (auto simp: evict_oldest_peer_def split: option.splits)

lemma store_synced:
  assumes "rocks_laws R view" and "codec_ok bc" and "valid p" and "synced view valid bc now t" and "store_peer R bc p r t = (t', Inr ())"
  shows "synced view valid bc now t'" and "rt_cache t' = fmupd p r (rt_cache t)"
proof -
  obtain raw d where d: "codec_ser bc r = Inr raw" "rdb_put R (rt_db t) Default p raw = (d, Inr ())"
    "t' = \<lparr>rt_db = d, rt_cache = fmupd p r (rt_cache t)\<rparr>"
    using assms(5) by (auto simp: store_peer_def to_bytes_def Let_def split: sum.splits prod.splits)
  have v: "view d = store (view (rt_db t)) Default p (Some raw)" by (rule rocks_put_ok [OF assms(1) d(2)])
  have "codec_de bc raw = Inr r" using assms(2) d(1) unfolding codec_ok_def by blast
  then have p: "stored_peer view valid bc d p = Some r" using assms(3) by (simp add: stored_peer_def v)
  have q: "stored_peer view valid bc d q = stored_peer view valid bc (rt_db t) q" if "q \<noteq> p" for q
    using that by (simp add: stored_peer_def v)
  show "synced view valid bc now t'"
    unfolding synced_def d(3)
  proof
    fix q
    show "in_step now (fmlookup (rt_cache \<lparr>rt_db = d, rt_cache = fmupd p r (rt_cache t)\<rparr>) q)
        (stored_peer view valid bc (rt_db \<lparr>rt_db = d, rt_cache = fmupd p r (rt_cache t)\<rparr>) q)"
      using assms(4) p q unfolding synced_def by (cases "q = p") simp_all
  qed
  show "rt_cache t' = fmupd p r (rt_cache t)" using d(3) by simp
qed

lemma rt_add_cases:
  assumes "rt_add_peer ord R bc now p addrs boot t = (t', Inr ())"
  obtains t1 where "store_peer R bc p (seen_record now p addrs boot (fmlookup (rt_cache t1) p)) t1 = (t', Inr ())"
    and "t1 = t \<and> (rt_size t < MAX_ROUTING_TABLE_SIZE \<or> fmlookup (rt_cache t) p \<noteq> None) \<or>
      MAX_ROUTING_TABLE_SIZE \<le> rt_size t \<and> fmlookup (rt_cache t) p = None \<and> evict_oldest_peer ord R t = (t1, Inr ())"
  using assms that by (auto simp: rt_add_peer_def rt_size_def split: prod.splits sum.splits if_splits)

lemma rt_add_synced:
  assumes "rocks_laws R view" and "codec_ok bc" and "valid p" and "synced view valid bc now t"
    and "rt_add_peer ord R bc now p addrs boot t = (t', Inr ())"
  shows "synced view valid bc now t'"
proof -
  obtain t1 where t1: "store_peer R bc p (seen_record now p addrs boot (fmlookup (rt_cache t1) p)) t1 = (t', Inr ())"
    "t1 = t \<or> evict_oldest_peer ord R t = (t1, Inr ())"
    by (rule rt_add_cases [OF assms(5)]) blast
  then have "synced view valid bc now t1" using assms(4) evict_synced [OF assms(1,4)] by blast
  with store_synced(1) [of R view bc valid p] assms(1-3) t1(1) show ?thesis by blast
qed

lemma delete_all: "fold apply_rocks_op (map RbDelete ps) m = (\<lambda>cf q. if cf = Default \<and> q \<in> set ps then None else m cf q)"
  by (induction ps arbitrary: m) (auto simp: fun_eq_iff store_apply)

lemma drop_all: "fmlookup (fold fmdrop ps c) q = (if q \<in> set ps then None else fmlookup c q)"
  by (induction ps arbitrary: c) auto

lemma rt_cleanup_synced:
  assumes "rocks_laws R view" and "synced view valid bc now t" and "rt_cleanup_expired ord R now t = (t', Inr ())"
  shows "synced view valid bc now t'"
proof (cases "t' = t")
  case False
  let ?ps = "filter (\<lambda>p. case fmlookup (rt_cache t) p of Some r \<Rightarrow> pr_is_expired now r | None \<Rightarrow> False) (ord (fmdom (rt_cache t)))"
  obtain d where d: "rdb_write R (rt_db t) (map RbDelete ?ps) = (d, Inr ())" "t' = \<lparr>rt_db = d, rt_cache = fold fmdrop ?ps (rt_cache t)\<rparr>"
    using assms(3) False by (auto simp: rt_cleanup_expired_def Let_def split: if_splits prod.splits)
  have "view d = (\<lambda>cf q. if cf = Default \<and> q \<in> set ?ps then None else view (rt_db t) cf q)"
    using rocks_write_ok [OF assms(1) d(1)] by (simp only: delete_all)
  then show ?thesis unfolding d(2) by (rule synced_delete [OF assms(2)]) (simp add: drop_all)
qed (use assms(2) in simp)

inductive table_history ::
  "set_order \<Rightarrow> 'd rocksdb \<Rightarrow> (bytes \<Rightarrow> bool) \<Rightarrow> peer_record codec \<Rightarrow> u64 \<Rightarrow> 'd peer_routing_table \<Rightarrow> bool"
  for ord R valid bc where
  opened: "rt_open R valid bc now d = Inr t \<Longrightarrow> table_history ord R valid bc now t"
| added: "table_history ord R valid bc now t \<Longrightarrow> now \<le> now' \<Longrightarrow> valid p \<Longrightarrow>
    rt_add_peer ord R bc now' p addrs boot t = (t', Inr ()) \<Longrightarrow> table_history ord R valid bc now' t'"
| removed: "table_history ord R valid bc now t \<Longrightarrow> now \<le> now' \<Longrightarrow> rt_remove_peer R p t = (t', Inr ()) \<Longrightarrow>
    table_history ord R valid bc now' t'"
| cleaned: "table_history ord R valid bc now t \<Longrightarrow> now \<le> now' \<Longrightarrow> rt_cleanup_expired ord R now' t = (t', Inr ()) \<Longrightarrow>
    table_history ord R valid bc now' t'"

lemma history_synced:
  assumes "table_history ord R valid bc now t" and "rocks_laws R view" and "codec_ok bc"
  shows "synced view valid bc now t"
  using assms(1)
proof induction
  case (opened now d t)
  then show ?case using rt_open_synced [OF assms(2)] by blast
next
  case (added now t now' p addrs boot t')
  then show ?case using rt_add_synced [OF assms(2,3)] synced_later by blast
next
  case (removed now t now' p t')
  then show ?case using rt_remove_synced(1) [OF assms(2)] synced_later by blast
next
  case (cleaned now t now' t')
  then show ?case using rt_cleanup_synced [OF assms(2)] synced_later by blast
qed

section \<open>Eviction\<close>

lemma oldest_of_min:
  assumes "ps \<noteq> []"
  shows "\<exists>p. oldest_of cache ps = Some p \<and> p \<in> set ps \<and> (\<forall>q\<in>set ps. last_seen (the (fmlookup cache p)) \<le> last_seen (the (fmlookup cache q)))"
  using assms
proof (induction ps)
  case (Cons p ps)
  show ?case
  proof (cases "ps = []")
    case False
    then obtain q where q: "oldest_of cache ps = Some q" "q \<in> set ps"
      "\<forall>r\<in>set ps. last_seen (the (fmlookup cache q)) \<le> last_seen (the (fmlookup cache r))"
      using Cons.IH by blast
    show ?thesis
      using q by (cases "last_seen (the (fmlookup cache q)) < last_seen (the (fmlookup cache p))")
        (auto simp: not_less intro: order_trans)
  qed simp
qed simp

lemma fcard_insert_peer: "fcard (finsert p (fmdom c)) = fcard (fmdom c) + (if fmlookup c p = None then 1 else 0)"
  by (cases "fmlookup c p = None") (auto simp: fcard_finsert_disjoint fmlookup_dom_iff finsert_absorb)

lemma fcard_drop_peer: "fmlookup c p \<noteq> None \<Longrightarrow> fcard (fmdom (fmdrop p c)) = fcard (fmdom c) - 1"
  by (auto simp: fcard.rep_eq fmlookup_dom_iff card_Diff_singleton)

lemma evict_exact:
  assumes "lists_set ord" and "evict_oldest_peer ord R t = (t', Inr ())" and "rt_size t \<noteq> 0"
  obtains q r where "fmlookup (rt_cache t) q = Some r" and "rt_cache t' = fmdrop q (rt_cache t)"
    and "\<forall>x rx. fmlookup (rt_cache t) x = Some rx \<longrightarrow> last_seen r \<le> last_seen rx"
proof -
  let ?ps = "ord (fmdom (rt_cache t))"
  have ps: "set ?ps = fset (fmdom (rt_cache t))" using assms(1) by (simp add: lists_set_def)
  have "fmdom (rt_cache t) \<noteq> fempty" using assms(3) by (auto simp: rt_size_def)
  then have "?ps \<noteq> []" using ps by (metis bot_fset.rep_eq fset_inject list.set(1))
  then obtain q where q: "oldest_of (rt_cache t) ?ps = Some q" "q \<in> set ?ps"
    "\<forall>x\<in>set ?ps. last_seen (the (fmlookup (rt_cache t) q)) \<le> last_seen (the (fmlookup (rt_cache t) x))"
    using oldest_of_min by blast
  obtain r where r: "fmlookup (rt_cache t) q = Some r" using q(2) ps by (metis fmlookup_dom_iff)
  have "rt_cache t' = fmdrop q (rt_cache t)"
    using assms(2) q(1) by (auto simp: evict_oldest_peer_def rt_remove_peer_def split: prod.splits)
  moreover have "last_seen r \<le> last_seen rx" if "fmlookup (rt_cache t) x = Some rx" for x rx
    using q(3) r that ps by (metis fmdomI option.sel)
  ultimately show ?thesis using that r by blast
qed

lemma store_peer_cache: "store_peer R bc p r t = (t', Inr ()) \<Longrightarrow> rt_cache t' = fmupd p r (rt_cache t)"
  by (auto simp: store_peer_def Let_def split: sum.splits prod.splits)

section \<open>Properties\<close>

text \<open>C39: After any successful operations, opening the table again gives exactly the peers that the cache had, less those that
  have expired since: cache and database agree. (Records that have expired when a table is opened stay in the database for ever,
  since the clean-up only looks at the cache.)\<close>

theorem table_reload_exact:
  assumes "table_history ord R valid bc now t" and "rocks_laws R view" and "codec_ok bc" and "now \<le> now'"
    and "rt_open R valid bc now' (rt_db t) = Inr t'"
  shows "rt_cache t' = fresh_peers now' (rt_cache t)"
  by (rule reopen_exact [OF assms(2) history_synced [OF assms(1-3)] assms(4,5)])

text \<open>An added peer is in the table, seen now; a new one starts with the connection count two. The table does not grow beyond
  its limit: a new peer in a full table displaces exactly one peer, one of those that were not seen for longest, and otherwise
  no other peer changes.\<close>

theorem add_peer_exact:
  assumes "lists_set ord" and "rt_add_peer ord R bc now p addrs boot t = (t', Inr ())"
  shows "rt_size t' \<le> max MAX_ROUTING_TABLE_SIZE (rt_size t) \<and>
    (\<exists>r. fmlookup (rt_cache t') p = Some r \<and> last_seen r = now \<and> (fmlookup (rt_cache t) p = None \<longrightarrow> connection_count r = 2) \<and>
      (rt_cache t' = fmupd p r (rt_cache t) \<and> (rt_size t < MAX_ROUTING_TABLE_SIZE \<or> fmlookup (rt_cache t) p \<noteq> None) \<or>
       (\<exists>q rq. MAX_ROUTING_TABLE_SIZE \<le> rt_size t \<and> fmlookup (rt_cache t) q = Some rq \<and> rt_cache t' = fmupd p r (fmdrop q (rt_cache t)) \<and>
          (\<forall>x rx. fmlookup (rt_cache t) x = Some rx \<longrightarrow> last_seen rq \<le> last_seen rx))))"
proof -
  obtain t1 where s: "store_peer R bc p (seen_record now p addrs boot (fmlookup (rt_cache t1) p)) t1 = (t', Inr ())"
    and c: "t1 = t \<and> (rt_size t < MAX_ROUTING_TABLE_SIZE \<or> fmlookup (rt_cache t) p \<noteq> None) \<or>
      MAX_ROUTING_TABLE_SIZE \<le> rt_size t \<and> fmlookup (rt_cache t) p = None \<and> evict_oldest_peer ord R t = (t1, Inr ())"
    by (rule rt_add_cases [OF assms(2)])
  let ?r = "seen_record now p addrs boot (fmlookup (rt_cache t1) p)"
  have t': "rt_cache t' = fmupd p ?r (rt_cache t1)" by (rule store_peer_cache [OF s])
  have seen: "last_seen ?r = now" by (simp add: seen_record_def update_seen_def Let_def)
  have count: "connection_count ?r = 2" if "fmlookup (rt_cache t1) p = None"
    using that by (simp add: seen_record_def update_seen_def peer_record_new_def Let_def saturating_add_def word_le_nat_alt)
  from c show ?thesis
  proof (rule disjE)
    assume "t1 = t \<and> (rt_size t < MAX_ROUTING_TABLE_SIZE \<or> fmlookup (rt_cache t) p \<noteq> None)"
    then show ?thesis using t' seen count by (auto simp: rt_size_def fcard_insert_peer)
  next
    assume a: "MAX_ROUTING_TABLE_SIZE \<le> rt_size t \<and> fmlookup (rt_cache t) p = None \<and> evict_oldest_peer ord R t = (t1, Inr ())"
    then have full: "MAX_ROUTING_TABLE_SIZE \<le> rt_size t" and new: "fmlookup (rt_cache t) p = None"
      and e: "evict_oldest_peer ord R t = (t1, Inr ())" by simp_all
    then have ne: "rt_size t \<noteq> 0" by (simp add: MAX_ROUTING_TABLE_SIZE_def)
    from assms(1) e ne obtain q rq where q: "fmlookup (rt_cache t) q = Some rq" "rt_cache t1 = fmdrop q (rt_cache t)"
      "\<forall>x rx. fmlookup (rt_cache t) x = Some rx \<longrightarrow> last_seen rq \<le> last_seen rx"
      by (rule evict_exact)
    have n: "fmlookup (rt_cache t1) p = None" using q(2) new by simp
    have "rt_size t' = rt_size t"
      using t' n q(1) ne fcard_drop_peer [of "rt_cache t" q] fcard_insert_peer [of p "rt_cache t1"] unfolding q(2) rt_size_def
      by (simp del: fmdom_drop fcard_0_eq)
    then show ?thesis using t' seen count n q full by auto
  qed
qed

inductive handler_history :: "protocol_handler \<Rightarrow> bool" where
  started: "handler_history fmempty"
| identified: "handler_history h \<Longrightarrow> handler_history (handle_identify_event e h)"
| pinged: "handler_history h \<Longrightarrow> handler_history (handle_ping_event e h)"
| disconnected: "handler_history h \<Longrightarrow> handler_history (ph_remove_peer p h)"

lemma never_pinged: "handler_history h \<Longrightarrow> fmlookup h p = Some i \<Longrightarrow> last_ping i = None"
proof (induction h arbitrary: p i rule: handler_history.induct)
  case (identified h e)
  then show ?case by (cases e) (auto simp: from_identify_def split: if_splits)
qed (auto simp: handle_ping_event_def ph_remove_peer_def split: if_splits)

text \<open>No peer is ever counted as healthy: ping events are not recorded, so whatever events arrive, the list of healthy peers is
  empty and their number zero.\<close>

theorem no_healthy_peers:
  assumes "handler_history h" and "lists_set ord"
  shows "get_healthy_peers ord h = [] \<and> prs_healthy_peers (ph_get_stats ord h) = 0"
proof -
  have "\<not> is_healthy (the (fmlookup h p))" if "p \<in> set (ord (fmdom h))" for p
    using never_pinged [OF assms(1), of p] that assms(2) by (auto simp: is_healthy_def lists_set_def fmlookup_dom_iff)
  then have h: "get_healthy_peers ord h = []" by (simp add: get_healthy_peers_def filter_empty_conv)
  then show ?thesis by (simp add: ph_get_stats_def)
qed

text \<open>The check of a peer's legitimacy refuses every peer: it reads the peer id as a public key, and ids are longer than compressed
  and shorter than uncompressed keys.\<close>

theorem no_peer_is_legitimate:
  assumes "\<And>bs. secp256k1_try_from_bytes K bs \<noteq> None \<Longrightarrow> length bs = 33 \<or> length bs = 65" and "33 < length p" and "length p < 65"
  shows "\<not> validate_peer_legitimacy K p i"
proof -
  have "secp256k1_try_from_bytes K p = None" using assms by (metis nat_neq_iff)
  then show ?thesis using assms(2) by (simp add: validate_peer_legitimacy_def peer_id_from_core_public_key_def)
qed

section \<open>A concrete table\<close>

definition demo_peer_record :: peer_record where
  "demo_peer_record = \<lparr>peer_id_bytes = [3], addresses = [[4]], last_seen = 100, connection_count = 2, is_bootstrap = False\<rparr>"

definition demo_sorted :: set_order where
  "demo_sorted = sorted_list_of_fset"

definition demo_table :: "memory peer_routing_table" where
  "demo_table = \<lparr>rt_db = fmupd (Default, [3]) [1] fmempty, rt_cache = fmupd [3] demo_peer_record fmempty\<rparr>"

definition demo_identify :: identify_info where
  "demo_identify = \<lparr>ii_protocol_version = ''1'', ii_agent_version = ''a'', ii_listen_addrs = [], ii_observed_addr = [],
     ii_protocols = [''/ipfs/ping/1.0.0'', ''/ipfs/identify/1.0.0'']\<rparr>"

definition demo_keys :: key_ops where
  "demo_keys = \<lparr>ed25519_try_from_bytes = Some, secp256k1_try_from_bytes = \<lambda>bs. if length bs = 33 then Some bs else None,
     id_of_ed25519 = \<lambda>k. 0 # k, id_of_secp256k1 = \<lambda>k. k\<rparr>"

lemma demo_sorted_lists: "lists_set demo_sorted"
  by (simp add: lists_set_def demo_sorted_def)

lemma demo_open: "rt_open memory_db (\<lambda>_. True) (single_codec demo_peer_record) 50 fmempty = Inr \<lparr>rt_db = fmempty, rt_cache = fmempty\<rparr>"
proof -
  have "memory_keys fmempty Default = []" using memory_keys_set [of fmempty Default] by (simp add: memory_view_def)
  then show ?thesis by (simp add: rt_open_def memory_db_def bind_res_def)
qed

lemma demo_add:
  "rt_add_peer demo_sorted memory_db (single_codec demo_peer_record) 100 [3] [[4]] False \<lparr>rt_db = fmempty, rt_cache = fmempty\<rparr> = (demo_table, Inr ())"
  by (simp add: rt_add_peer_def MAX_ROUTING_TABLE_SIZE_def store_peer_def Let_def seen_record_def update_seen_def peer_record_new_def
      merge_addresses_def to_bytes_def single_codec_def demo_peer_record_def demo_table_def memory_db_def saturating_add_def word_le_nat_alt fcard_fempty)

lemma demo_history: "table_history demo_sorted memory_db (\<lambda>_. True) (single_codec demo_peer_record) 100 demo_table"
  by (rule table_history.added [OF table_history.opened [OF demo_open] _ _ demo_add]) simp_all

theorem table_reload_exact_witness:
  "\<exists>t'. rt_open memory_db (\<lambda>_. True) (single_codec demo_peer_record) 200 (rt_db demo_table) = Inr t' \<and>
     rt_cache t' = fresh_peers 200 (rt_cache demo_table)"
proof -
  obtain kvs where "rdb_iter memory_db (rt_db demo_table) Default None = map Inr kvs" using memory_iter_total by blast
  then obtain t' where t': "rt_open memory_db (\<lambda>_. True) (single_codec demo_peer_record) 200 (rt_db demo_table) = Inr t'"
    using load_peers_total [of _ _ 200 kvs fmempty] by (auto simp: rt_open_def bind_res_def)
  from table_reload_exact [OF demo_history memory_db_laws single_codec_ok _ t'] show ?thesis using t' by (auto simp: word_le_nat_alt)
qed

theorem add_peer_exact_witness: "\<exists>r. fmlookup (rt_cache demo_table) [3] = Some r \<and> connection_count r = 2"
  using add_peer_exact [OF demo_sorted_lists demo_add] by auto

theorem no_healthy_peers_witness:
  "get_healthy_peers demo_sorted (handle_ping_event (PingEvent [3] (Inr 5)) (handle_identify_event (IdentifyReceived [3] demo_identify) fmempty)) = []"
  using no_healthy_peers [OF handler_history.pinged [OF handler_history.identified [OF handler_history.started]] demo_sorted_lists] by blast

theorem no_peer_is_legitimate_witness:
  "\<not> validate_peer_legitimacy demo_keys (replicate 38 0) (from_identify (replicate 38 0) demo_identify)"
  by (rule no_peer_is_legitimate) (auto simp: demo_keys_def split: if_splits)

end
