(* ===== verification/Pruned_Verkle.thy ===== *)
theory Pruned_Verkle
  imports Verkle_Proofs Utxo
begin

text \<open>
  The stand-alone Verkle tree of \<open>core/crypto/verkle/verkle_tree.rs\<close>. It stores nodes as the tree of \<open>state/v_trie.rs\<close> does
  (the same helper functions), marks cache entries as dirty instead of dropping them, and keeps the commitments along the path
  of a pruned key, so that the root stays what it was. A failed commitment panics, which is \<open>None\<close> here.
\<close>

section \<open>The tree\<close>

record cached_node =
  cn_commitment :: "commitment option"
  cn_dirty :: bool

record pv_tree =
  pv_storage :: memory_storage
  pv_cache :: "(bytes, cached_node) fmap"
  pv_empty_roots :: "bytes list"
  pv_empty_scalars :: "scalar list"
  pv_root_cache :: "bytes option"
  pv_pruned_keys :: "bytes fset"
  pv_pruned_commitments :: "(bytes, commitment) fmap"
  pv_cache_hits :: nat
  pv_cache_misses :: nat

definition pv_node_exists :: "pv_tree \<Rightarrow> bytes \<Rightarrow> bool" where
  "pv_node_exists self path \<longleftrightarrow> storage_get (pv_storage self) (key_for_path path) \<noteq> None"

definition pv_ensure_node :: "bytes \<Rightarrow> pv_tree \<Rightarrow> pv_tree" where
  "pv_ensure_node path self =
     (if storage_get (pv_storage self) (key_for_path path) = None
      then self\<lparr>pv_storage := storage_put (pv_storage self) (key_for_path path) (serialize_node None)\<rparr>
      else self)"

definition pv_get_node_value :: "pv_tree \<Rightarrow> bytes \<Rightarrow> bytes option" where
  "pv_get_node_value self path =
     (if length path = KEY_SIZE \<and> path |\<in>| pv_pruned_keys self then None
      else case storage_get (pv_storage self) (key_for_path path) of
        None \<Rightarrow> None
      | Some encoded \<Rightarrow> (case deserialize_node encoded of None \<Rightarrow> None | Some v \<Rightarrow> v))"

definition pv_set_node_value :: "pv_tree \<Rightarrow> bytes \<Rightarrow> bytes option \<Rightarrow> pv_tree" where
  "pv_set_node_value self path v =
     self\<lparr>pv_storage := storage_put (pv_storage self) (key_for_path path) (serialize_node v)\<rparr>"

definition mark_dirty :: "bytes \<Rightarrow> (bytes, cached_node) fmap \<Rightarrow> (bytes, cached_node) fmap" where
  "mark_dirty path c = (case fmlookup c (key_for_path path) of
     Some n \<Rightarrow> fmupd (key_for_path path) (n\<lparr>cn_dirty := True\<rparr>) c | None \<Rightarrow> c)"

definition pv_invalidate_path_cache :: "pv_tree \<Rightarrow> bytes \<Rightarrow> pv_tree" where
  "pv_invalidate_path_cache self path =
     self\<lparr>pv_cache := fold mark_dirty (prefixes_of path) (pv_cache self), pv_root_cache := None\<rparr>"

definition clear_pruned_state_for_key :: "pv_tree \<Rightarrow> bytes \<Rightarrow> pv_tree" where
  "clear_pruned_state_for_key self key =
     self\<lparr>pv_pruned_keys := pv_pruned_keys self |-| {|key|},
          pv_pruned_commitments := fold (\<lambda>p. fmdrop (key_for_path p)) (prefixes_of key) (pv_pruned_commitments self),
          pv_root_cache := None\<rparr>"

definition pv_insert :: "pv_tree \<Rightarrow> bytes \<Rightarrow> bytes \<Rightarrow> pv_tree" where
  "pv_insert self key v =
     (let t = clear_pruned_state_for_key self key; path = take KEY_SIZE key;
          t1 = fold pv_ensure_node (prefixes_of path) t;
          t2 = pv_set_node_value t1 path (Some v)
      in pv_invalidate_path_cache t2 path)"

definition pv_get :: "pv_tree \<Rightarrow> bytes \<Rightarrow> core_error + bytes option" where
  "pv_get self key =
     (if key |\<in>| pv_pruned_keys self then Inl (PrunedData ''Key has been pruned'')
      else Inr (pv_get_node_value self (take KEY_SIZE key)))"

section \<open>Commitments\<close>

definition pv_commit :: "pc_ops \<Rightarrow> scalar list \<Rightarrow> commitment option" where
  "pv_commit pc coeffs = (case pc_commit pc (from_coefficients_vec pc coeffs) of Inr c \<Rightarrow> Some c | Inl _ \<Rightarrow> None)"

definition pv_root_hash :: "externals \<Rightarrow> pc_ops \<Rightarrow> commitment \<Rightarrow> bytes option" where
  "pv_root_hash ext pc c = (case serialize_uncompressed pc c of Inr bs \<Rightarrow> Some (blake3 ext bs) | Inl _ \<Rightarrow> None)"

fun pv_empty_levels :: "externals \<Rightarrow> pc_ops \<Rightarrow> nat \<Rightarrow> (bytes \<times> scalar) list option" where
  "pv_empty_levels ext pc 0 =
     Option.bind (pv_commit pc []) (\<lambda>c. Option.bind (pv_root_hash ext pc c) (\<lambda>root.
       Some [(root, from_le_bytes_mod_order pc root)]))"
| "pv_empty_levels ext pc (Suc n) =
     Option.bind (pv_empty_levels ext pc n) (\<lambda>levels.
     Option.bind (pv_commit pc (replicate VERKLE_RADIX (snd (hd levels)))) (\<lambda>c.
     Option.bind (pv_root_hash ext pc c) (\<lambda>root.
       Some ((root, from_le_bytes_mod_order pc root) # levels))))"

definition pv_new :: "externals \<Rightarrow> pc_ops \<Rightarrow> memory_storage \<Rightarrow> pv_tree option" where
  "pv_new ext pc st = Option.bind (pv_empty_levels ext pc KEY_SIZE) (\<lambda>levels.
     Some (pv_ensure_node [] \<lparr>pv_storage = st, pv_cache = fmempty, pv_empty_roots = map fst levels,
       pv_empty_scalars = map snd levels, pv_root_cache = None, pv_pruned_keys = {||}, pv_pruned_commitments = fmempty,
       pv_cache_hits = 0, pv_cache_misses = 0\<rparr>))"

text \<open>A clean cache entry, and a commitment that was recorded when a key below was pruned.\<close>

definition pv_cached :: "pv_tree \<Rightarrow> bytes \<Rightarrow> commitment option" where
  "pv_cached self path = (case fmlookup (pv_cache self) (key_for_path path) of
     Some n \<Rightarrow> if \<not> cn_dirty n then cn_commitment n else None | None \<Rightarrow> None)"

definition pv_recorded :: "pv_tree \<Rightarrow> bytes \<Rightarrow> commitment option" where
  "pv_recorded self path = fmlookup (pv_pruned_commitments self) (key_for_path path)"

definition with_lookup :: "(pv_tree \<Rightarrow> bytes \<Rightarrow> (pv_tree \<times> commitment) option) \<Rightarrow> pv_tree \<Rightarrow> bytes \<Rightarrow> (pv_tree \<times> commitment) option" where
  "with_lookup f self path = (case pv_cached self path of
     Some c \<Rightarrow> Some (self\<lparr>pv_cache_hits := pv_cache_hits self + 1\<rparr>, c)
   | None \<Rightarrow> (case pv_recorded self path of
       Some c \<Rightarrow> Some (self, c)
     | None \<Rightarrow> f (self\<lparr>pv_cache_misses := pv_cache_misses self + 1\<rparr>) path))"

text \<open>\<open>get_node_commitment\<close>, given the routine that computes a commitment.\<close>

definition get_commitment_with ::
  "(pv_tree \<Rightarrow> bytes \<Rightarrow> (pv_tree \<times> commitment) option) \<Rightarrow> pv_tree \<Rightarrow> bytes \<Rightarrow> (pv_tree \<times> commitment) option" where
  "get_commitment_with compute = with_lookup (\<lambda>self path. Option.bind (compute self path) (\<lambda>(self', c).
     Some (self'\<lparr>pv_cache := fmupd (key_for_path path) \<lparr>cn_commitment = Some c, cn_dirty = False\<rparr> (pv_cache self')\<rparr>, c)))"

definition root_hash_with ::
  "externals \<Rightarrow> pc_ops \<Rightarrow> (pv_tree \<Rightarrow> bytes \<Rightarrow> (pv_tree \<times> commitment) option) \<Rightarrow> pv_tree \<Rightarrow> bytes \<Rightarrow> (pv_tree \<times> bytes) option" where
  "root_hash_with ext pc compute self path = Option.bind (get_commitment_with compute self path) (\<lambda>(self', c).
     Option.bind (pv_root_hash ext pc c) (\<lambda>root. Some (self', root)))"

fun pv_child_scalars ::
  "externals \<Rightarrow> pc_ops \<Rightarrow> (pv_tree \<Rightarrow> bytes \<Rightarrow> (pv_tree \<times> commitment) option) \<Rightarrow> bytes \<Rightarrow> nat \<Rightarrow> pv_tree \<Rightarrow> nat list \<Rightarrow>
   (pv_tree \<times> scalar list) option" where
  "pv_child_scalars ext pc compute path depth self [] = Some (self, [])"
| "pv_child_scalars ext pc compute path depth self (i # is) =
     Option.bind
       (if pv_node_exists self (path @ [of_nat i])
        then Option.bind (root_hash_with ext pc compute self (path @ [of_nat i])) (\<lambda>(self', root). Some (self', from_le_bytes_mod_order pc root))
        else Some (self, pv_empty_scalars self ! (depth + 1))) (\<lambda>(self', s).
     Option.bind (pv_child_scalars ext pc compute path depth self' is) (\<lambda>(self'', ss). Some (self'', s # ss)))"

text \<open>\<open>compute_node_commitment\<close> with \<open>n = KEY_SIZE - depth\<close> levels below the node.\<close>

primrec pv_compute :: "externals \<Rightarrow> pc_ops \<Rightarrow> nat \<Rightarrow> pv_tree \<Rightarrow> bytes \<Rightarrow> (pv_tree \<times> commitment) option" where
  "pv_compute ext pc 0 = with_lookup (\<lambda>self path.
     Option.bind (pv_commit pc [leaf_scalar ext pc (pv_get_node_value self path)]) (\<lambda>c. Some (self, c)))"
| "pv_compute ext pc (Suc n) = with_lookup (\<lambda>self path.
     Option.bind (pv_child_scalars ext pc (pv_compute ext pc n) path (KEY_SIZE - Suc n) self [0..<VERKLE_RADIX]) (\<lambda>(self', coeffs).
     Option.bind (pv_commit pc coeffs) (\<lambda>c. Some (self', c))))"

definition pv_get_node_commitment :: "externals \<Rightarrow> pc_ops \<Rightarrow> pv_tree \<Rightarrow> bytes \<Rightarrow> nat \<Rightarrow> (pv_tree \<times> commitment) option" where
  "pv_get_node_commitment ext pc self path depth = get_commitment_with (pv_compute ext pc (KEY_SIZE - depth)) self path"

definition pv_compute_node_root_hash :: "externals \<Rightarrow> pc_ops \<Rightarrow> pv_tree \<Rightarrow> bytes \<Rightarrow> nat \<Rightarrow> (pv_tree \<times> bytes) option" where
  "pv_compute_node_root_hash ext pc self path depth = root_hash_with ext pc (pv_compute ext pc (KEY_SIZE - depth)) self path"

definition pv_get_root :: "externals \<Rightarrow> pc_ops \<Rightarrow> pv_tree \<Rightarrow> (pv_tree \<times> bytes) option" where
  "pv_get_root ext pc self = (case pv_root_cache self of
     Some root \<Rightarrow> Some (self\<lparr>pv_cache_hits := pv_cache_hits self + 1\<rparr>, root)
   | None \<Rightarrow> Option.bind (pv_compute_node_root_hash ext pc self [] 0) (\<lambda>(self', root).
       Some (self'\<lparr>pv_root_cache := Some root\<rparr>, root)))"

section \<open>Pruning\<close>

fun record_path :: "externals \<Rightarrow> pc_ops \<Rightarrow> pv_tree \<Rightarrow> bytes list \<Rightarrow> pv_tree option" where
  "record_path ext pc self [] = Some self"
| "record_path ext pc self (p # ps) = Option.bind (pv_get_node_commitment ext pc self p (length p)) (\<lambda>(self', c).
     record_path ext pc (self'\<lparr>pv_pruned_commitments := fmupd (key_for_path p) c (pv_pruned_commitments self')\<rparr>) ps)"

definition pv_prune_key :: "externals \<Rightarrow> pc_ops \<Rightarrow> pv_tree \<Rightarrow> bytes \<Rightarrow> (pv_tree \<times> (core_error + unit)) option" where
  "pv_prune_key ext pc self key = (let path = take KEY_SIZE key in
     if \<not> pv_node_exists self path then Some (self, Inl (PrunedData ''Key does not exist or already absent''))
     else Option.bind (record_path ext pc self (prefixes_of path)) (\<lambda>t.
       let t1 = t\<lparr>pv_storage := storage_delete (pv_storage t) (key_for_path path), pv_pruned_keys := finsert path (pv_pruned_keys t)\<rparr>;
           t2 = pv_invalidate_path_cache t1 path
       in case fmlookup (pv_pruned_commitments t2) [] of
            Some c \<Rightarrow> Option.bind (pv_root_hash ext pc c) (\<lambda>root. Some (t2\<lparr>pv_root_cache := Some root\<rparr>, Inr ()))
          | None \<Rightarrow> Some (t2, Inr ())))"

section \<open>Specification: commitments without a cache\<close>

definition pv_node_at :: "pv_tree \<Rightarrow> bytes \<Rightarrow> bytes option" where
  "pv_node_at self path = storage_get (pv_storage self) (key_for_path path)"

definition child_value :: "externals \<Rightarrow> pc_ops \<Rightarrow> pv_tree \<Rightarrow> nat \<Rightarrow> commitment option \<Rightarrow> bytes \<Rightarrow> scalar option" where
  "child_value ext pc t depth r child =
     (if pv_node_exists t child then map_option (from_le_bytes_mod_order pc) (Option.bind r (pv_root_hash ext pc))
      else Some (pv_empty_scalars t ! depth))"

primrec pv_commitment :: "externals \<Rightarrow> pc_ops \<Rightarrow> pv_tree \<Rightarrow> nat \<Rightarrow> bytes \<Rightarrow> commitment option" where
  "pv_commitment ext pc t 0 path = (case pv_recorded t path of Some c \<Rightarrow> Some c
   | None \<Rightarrow> pv_commit pc [leaf_scalar ext pc (pv_get_node_value t path)])"
| "pv_commitment ext pc t (Suc n) path = (case pv_recorded t path of Some c \<Rightarrow> Some c
   | None \<Rightarrow> Option.bind (those (map (\<lambda>i. child_value ext pc t (KEY_SIZE - n) (pv_commitment ext pc t n (path @ [of_nat i])) (path @ [of_nat i]))
       [0..<VERKLE_RADIX])) (pv_commit pc))"

definition pv_root :: "externals \<Rightarrow> pc_ops \<Rightarrow> pv_tree \<Rightarrow> bytes option" where
  "pv_root ext pc t = Option.bind (pv_commitment ext pc t KEY_SIZE []) (pv_root_hash ext pc)"

definition pv_cache_ok :: "externals \<Rightarrow> pc_ops \<Rightarrow> pv_tree \<Rightarrow> bool" where
  "pv_cache_ok ext pc t \<longleftrightarrow> (\<forall>p c. length p \<le> KEY_SIZE \<and> pv_cached t p = Some c \<longrightarrow> pv_commitment ext pc t (KEY_SIZE - length p) p = Some c)"

definition pv_ok :: "externals \<Rightarrow> pc_ops \<Rightarrow> pv_tree \<Rightarrow> bool" where
  "pv_ok ext pc t \<longleftrightarrow> pv_cache_ok ext pc t \<and> (\<forall>r. pv_root_cache t = Some r \<longrightarrow> pv_root ext pc t = Some r) \<and>
     fmlookup (pv_pruned_commitments t) [] = None"

text \<open>Trees that differ in cache entries and counters only.\<close>

definition same_nodes :: "pv_tree \<Rightarrow> pv_tree \<Rightarrow> bool" where
  "same_nodes t t' \<longleftrightarrow> pv_storage t' = pv_storage t \<and> pv_empty_roots t' = pv_empty_roots t \<and> pv_empty_scalars t' = pv_empty_scalars t \<and>
     pv_root_cache t' = pv_root_cache t \<and> pv_pruned_keys t' = pv_pruned_keys t \<and> pv_pruned_commitments t' = pv_pruned_commitments t"

lemma same_nodes_refl [simp]: "same_nodes t t"
  by (simp add: same_nodes_def)

lemma same_nodes_trans: "same_nodes t t' \<Longrightarrow> same_nodes t' t'' \<Longrightarrow> same_nodes t t''"
  by (simp add: same_nodes_def)

lemma pv_node_exists_iff: "pv_node_exists t p \<longleftrightarrow> pv_node_at t p \<noteq> None"
  by (simp add: pv_node_exists_def pv_node_at_def)

lemma pv_get_node_value_alt:
  "pv_get_node_value t p = (if length p = KEY_SIZE \<and> p |\<in>| pv_pruned_keys t then None
     else case pv_node_at t p of None \<Rightarrow> None | Some e \<Rightarrow> (case deserialize_node e of None \<Rightarrow> None | Some v \<Rightarrow> v))"
  by (simp add: pv_get_node_value_def pv_node_at_def)

text \<open>The commitment of a node depends on what is stored, recorded and marked at and below it.\<close>

lemma pv_commitment_cong:
  assumes "pv_empty_scalars t' = pv_empty_scalars t"
    and "\<And>r. pv_node_at t' (path @ r) = pv_node_at t (path @ r) \<and> pv_recorded t' (path @ r) = pv_recorded t (path @ r) \<and>
      (path @ r |\<in>| pv_pruned_keys t' \<longleftrightarrow> path @ r |\<in>| pv_pruned_keys t)"
  shows "pv_commitment ext pc t' n path = pv_commitment ext pc t n path"
  using assms(2)
proof (induction n arbitrary: path)
  case 0
  from 0 [of "[]"] have "pv_get_node_value t' path = pv_get_node_value t path" by (simp add: pv_get_node_value_alt)
  with 0 [of "[]"] show ?case by (simp split: option.split)
next
  case (Suc n)
  have "pv_commitment ext pc t' n (path @ [of_nat i]) = pv_commitment ext pc t n (path @ [of_nat i])" for i
    using Suc.prems by (intro Suc.IH) simp
  moreover have "pv_node_exists t' (path @ [of_nat i]) = pv_node_exists t (path @ [of_nat i])" for i
    using Suc.prems by (simp add: pv_node_exists_iff)
  moreover have "pv_recorded t' path = pv_recorded t path" using Suc.prems [of "[]"] by simp
  ultimately show ?case using assms(1) by (simp add: child_value_def cong: if_cong option.case_cong)
qed

lemma same_nodesD:
  assumes "same_nodes t t'"
  shows "pv_node_at t' p = pv_node_at t p" "pv_node_exists t' p = pv_node_exists t p" "pv_recorded t' p = pv_recorded t p"
    "pv_get_node_value t' p = pv_get_node_value t p" "pv_commitment ext pc t' n p = pv_commitment ext pc t n p"
    "pv_empty_scalars t' = pv_empty_scalars t" "pv_root ext pc t' = pv_root ext pc t"
proof -
  show a: "pv_node_at t' p = pv_node_at t p" "pv_node_exists t' p = pv_node_exists t p" "pv_recorded t' p = pv_recorded t p"
    "pv_get_node_value t' p = pv_get_node_value t p" "pv_empty_scalars t' = pv_empty_scalars t" for p
    using assms by (simp_all add: same_nodes_def pv_node_at_def pv_node_exists_def pv_recorded_def pv_get_node_value_def)
  show c: "pv_commitment ext pc t' n p = pv_commitment ext pc t n p" for n p
    using assms by (intro pv_commitment_cong) (simp_all add: same_nodes_def pv_node_at_def pv_recorded_def)
  show "pv_root ext pc t' = pv_root ext pc t" by (simp add: pv_root_def c)
qed

section \<open>The cache is coherent\<close>

definition pv_computes :: "externals \<Rightarrow> pc_ops \<Rightarrow> nat \<Rightarrow> (pv_tree \<Rightarrow> bytes \<Rightarrow> (pv_tree \<times> commitment) option) \<Rightarrow> bool" where
  "pv_computes ext pc n f \<longleftrightarrow> (\<forall>t path. pv_cache_ok ext pc t \<and> length path + n = KEY_SIZE \<longrightarrow>
     map_option snd (f t path) = pv_commitment ext pc t n path \<and>
     (\<forall>t' c. f t path = Some (t', c) \<longrightarrow> same_nodes t t' \<and> pv_cache_ok ext pc t'))"

lemma pv_computesD:
  assumes "pv_computes ext pc n f" and "pv_cache_ok ext pc t" and "length path + n = KEY_SIZE"
  shows "map_option snd (f t path) = pv_commitment ext pc t n path"
    and "f t path = Some (t', c) \<Longrightarrow> same_nodes t t' \<and> pv_cache_ok ext pc t'"
  using assms unfolding pv_computes_def by blast+

lemma counters_same:
  "same_nodes t (t\<lparr>pv_cache_hits := k\<rparr>)" "same_nodes t (t\<lparr>pv_cache_misses := k\<rparr>)"
  "pv_cached (t\<lparr>pv_cache_hits := k\<rparr>) p = pv_cached t p" "pv_cached (t\<lparr>pv_cache_misses := k\<rparr>) p = pv_cached t p"
  by (simp_all add: same_nodes_def pv_cached_def)

lemma pv_cache_ok_same:
  assumes "pv_cache_ok ext pc t" and "same_nodes t t'" and "\<And>p. pv_cached t' p = pv_cached t p"
  shows "pv_cache_ok ext pc t'"
  using assms same_nodesD(5) [OF assms(2)] by (simp add: pv_cache_ok_def)

text \<open>A routine that is right when nothing is cached or recorded is right behind the look-up.\<close>

lemma with_lookup_computes:
  assumes "\<And>t path. pv_cache_ok ext pc t \<Longrightarrow> length path + n = KEY_SIZE \<Longrightarrow> pv_recorded t path = None \<Longrightarrow>
    map_option snd (f t path) = pv_commitment ext pc t n path \<and>
    (\<forall>t' c. f t path = Some (t', c) \<longrightarrow> same_nodes t t' \<and> pv_cache_ok ext pc t')"
  shows "pv_computes ext pc n (with_lookup f)"
  unfolding pv_computes_def
proof (intro allI impI)
  fix t :: pv_tree and path :: bytes
  assume a: "pv_cache_ok ext pc t \<and> length path + n = KEY_SIZE"
  have n: "KEY_SIZE - length path = n" using a by linarith
  let ?m = "t\<lparr>pv_cache_misses := pv_cache_misses t + 1\<rparr>"
  note counters = counters_same [where t = t]
  show "map_option snd (with_lookup f t path) = pv_commitment ext pc t n path \<and>
    (\<forall>t' c. with_lookup f t path = Some (t', c) \<longrightarrow> same_nodes t t' \<and> pv_cache_ok ext pc t')"
  proof (cases "pv_cached t path")
    case (Some c)
    then have "pv_commitment ext pc t n path = Some c" using a n by (auto simp: pv_cache_ok_def)
    then show ?thesis using Some a counters pv_cache_ok_same by (auto simp: with_lookup_def)
  next
    case None
    show ?thesis
    proof (cases "pv_recorded t path")
      case (Some c)
      then have "pv_commitment ext pc t n path = Some c" by (cases n) simp_all
      then show ?thesis using Some None a by (auto simp: with_lookup_def)
    next
      case r: None
      have "pv_cache_ok ext pc ?m" using a counters pv_cache_ok_same by blast
      moreover have "pv_recorded ?m path = None" using r same_nodesD(3) [OF counters(2)] by simp
      ultimately have "map_option snd (f ?m path) = pv_commitment ext pc ?m n path \<and>
          (\<forall>t' c. f ?m path = Some (t', c) \<longrightarrow> same_nodes ?m t' \<and> pv_cache_ok ext pc t')"
        using a by (intro assms) simp_all
      then show ?thesis
        using None r same_nodesD(5) [OF counters(2)] same_nodes_trans [OF counters(2)] by (auto simp: with_lookup_def)
    qed
  qed
qed

lemma get_commitment_computes:
  assumes "pv_computes ext pc n f"
  shows "pv_computes ext pc n (get_commitment_with f)"
  unfolding get_commitment_with_def
proof (rule with_lookup_computes)
  fix t :: pv_tree and path :: bytes
  assume ok: "pv_cache_ok ext pc t" and len: "length path + n = KEY_SIZE"
  note f = pv_computesD [OF assms ok len]
  let ?ins = "\<lambda>t c. t\<lparr>pv_cache := fmupd (key_for_path path) \<lparr>cn_commitment = Some c, cn_dirty = False\<rparr> (pv_cache t)\<rparr>"
  have "same_nodes t (?ins t1 c) \<and> pv_cache_ok ext pc (?ins t1 c)" if "f t path = Some (t1, c)" for t1 c
  proof -
    have t1: "same_nodes t t1" "pv_cache_ok ext pc t1" using f(2) [OF that] by simp_all
    have s: "same_nodes t1 (?ins t1 c)" by (simp add: same_nodes_def)
    have "pv_commitment ext pc t n path = Some c" using f(1) that by simp
    moreover have "pv_cached (?ins t1 c) q = (if q = path then Some c else pv_cached t1 q)" for q by (simp add: pv_cached_def)
    moreover have "KEY_SIZE - length path = n" using len by simp
    ultimately have "pv_cache_ok ext pc (?ins t1 c)"
      using t1(2) same_nodesD(5) [OF t1(1)] same_nodesD(5) [OF s] by (auto simp: pv_cache_ok_def)
    then show ?thesis using same_nodes_trans [OF t1(1) s] by simp
  qed
  then show "map_option snd (Option.bind (f t path) (\<lambda>(t1, c). Some (?ins t1 c, c))) = pv_commitment ext pc t n path \<and>
    (\<forall>t' c. Option.bind (f t path) (\<lambda>(t1, c). Some (?ins t1 c, c)) = Some (t', c) \<longrightarrow> same_nodes t t' \<and> pv_cache_ok ext pc t')"
    using f(1) by (cases "f t path") auto
qed

lemma root_hash_exact:
  assumes "pv_computes ext pc n f" and "pv_cache_ok ext pc t" and "length path + n = KEY_SIZE"
  shows "map_option snd (root_hash_with ext pc f t path) = Option.bind (pv_commitment ext pc t n path) (pv_root_hash ext pc)"
    and "root_hash_with ext pc f t path = Some (t', r) \<Longrightarrow> same_nodes t t' \<and> pv_cache_ok ext pc t'"
proof -
  note g = pv_computesD [OF get_commitment_computes [OF assms(1)] assms(2,3)]
  show "map_option snd (root_hash_with ext pc f t path) = Option.bind (pv_commitment ext pc t n path) (pv_root_hash ext pc)"
    unfolding g(1) [symmetric] by (cases "get_commitment_with f t path") (auto simp: root_hash_with_def split: Option.bind_splits)
  show "root_hash_with ext pc f t path = Some (t', r) \<Longrightarrow> same_nodes t t' \<and> pv_cache_ok ext pc t'"
    using g(2) by (auto simp: root_hash_with_def split: Option.bind_splits)
qed

lemma pv_child_scalars_exact:
  assumes "pv_computes ext pc n f" and "length path + Suc n = KEY_SIZE"
  shows "pv_cache_ok ext pc t \<Longrightarrow>
    map_option snd (pv_child_scalars ext pc f path (length path) t is) =
      those (map (\<lambda>i. child_value ext pc t (Suc (length path)) (pv_commitment ext pc t n (path @ [of_nat i])) (path @ [of_nat i])) is) \<and>
    (\<forall>t' cs. pv_child_scalars ext pc f path (length path) t is = Some (t', cs) \<longrightarrow> same_nodes t t' \<and> pv_cache_ok ext pc t')"
proof (induction "is" arbitrary: t)
  case (Cons i "is")
  let ?child = "path @ [of_nat i :: u8]"
  let ?step = "if pv_node_exists t ?child
    then Option.bind (root_hash_with ext pc f t ?child) (\<lambda>(self', root). Some (self', from_le_bytes_mod_order pc root))
    else Some (t, pv_empty_scalars t ! (length path + 1))"
  have len: "length ?child + n = KEY_SIZE" using assms(2) by simp
  note r = root_hash_exact [OF assms(1) Cons.prems len]
  have v: "map_option snd ?step = child_value ext pc t (Suc (length path)) (pv_commitment ext pc t n ?child) ?child"
    unfolding child_value_def r(1) [symmetric] by (cases "root_hash_with ext pc f t ?child") auto
  have s: "same_nodes t t1 \<and> pv_cache_ok ext pc t1" if "?step = Some (t1, x)" for t1 x
    using that r(2) Cons.prems by (auto split: if_splits Option.bind_splits)
  show ?case
  proof (cases ?step)
    case None
    then show ?thesis using v by (simp only: pv_child_scalars.simps list.map those.simps) simp
  next
    case (Some p)
    obtain t1 x where p: "p = (t1, x)" by fastforce
    have t1: "same_nodes t t1" "pv_cache_ok ext pc t1" using s Some p by blast+
    have x: "child_value ext pc t (Suc (length path)) (pv_commitment ext pc t n ?child) ?child = Some x"
      using v Some p by simp
    have same: "child_value ext pc t1 d (pv_commitment ext pc t1 n q) q = child_value ext pc t d (pv_commitment ext pc t n q) q" for d q
      by (simp add: child_value_def same_nodesD [OF t1(1)])
    note IH = Cons.IH [OF t1(2), unfolded same]
    have run: "pv_child_scalars ext pc f path (length path) t (i # is) =
        Option.bind (pv_child_scalars ext pc f path (length path) t1 is) (\<lambda>(t2, ss). Some (t2, x # ss))"
      unfolding pv_child_scalars.simps Some p by simp
    show ?thesis
    proof (cases "pv_child_scalars ext pc f path (length path) t1 is")
      case None
      then show ?thesis using conjunct1 [OF IH, symmetric] x unfolding run by simp
    next
      case (Some q)
      then show ?thesis
        using conjunct1 [OF IH, symmetric] conjunct2 [OF IH] x same_nodes_trans [OF t1(1)] unfolding run by (cases q) auto
    qed
  qed
qed simp

lemma pv_compute_computes: "n \<le> KEY_SIZE \<Longrightarrow> pv_computes ext pc n (pv_compute ext pc n)"
proof (induction n)
  case 0
  show ?case
    unfolding pv_compute.simps by (rule with_lookup_computes) (auto split: Option.bind_splits option.splits)
next
  case (Suc n)
  then have IH: "pv_computes ext pc n (pv_compute ext pc n)" by simp
  show ?case
    unfolding pv_compute.simps
  proof (rule with_lookup_computes)
    fix t :: pv_tree and path :: bytes
    assume ok: "pv_cache_ok ext pc t" and len: "length path + Suc n = KEY_SIZE" and rec: "pv_recorded t path = None"
    have d: "KEY_SIZE - Suc n = length path" "KEY_SIZE - n = Suc (length path)" using len by simp_all
    let ?kids = "pv_child_scalars ext pc (pv_compute ext pc n) path (length path) t [0..<VERKLE_RADIX]"
    note kids = pv_child_scalars_exact [OF IH len ok, of "[0..<VERKLE_RADIX]"]
    have "pv_commitment ext pc t (Suc n) path = Option.bind (map_option snd ?kids) (pv_commit pc)"
      using kids by (simp add: rec d)
    then show "map_option snd (Option.bind (pv_child_scalars ext pc (pv_compute ext pc n) path (KEY_SIZE - Suc n) t [0..<VERKLE_RADIX])
          (\<lambda>(self', coeffs). Option.bind (pv_commit pc coeffs) (\<lambda>c. Some (self', c)))) = pv_commitment ext pc t (Suc n) path \<and>
        (\<forall>t' c. Option.bind (pv_child_scalars ext pc (pv_compute ext pc n) path (KEY_SIZE - Suc n) t [0..<VERKLE_RADIX])
          (\<lambda>(self', coeffs). Option.bind (pv_commit pc coeffs) (\<lambda>c. Some (self', c))) = Some (t', c) \<longrightarrow>
          same_nodes t t' \<and> pv_cache_ok ext pc t')"
      unfolding d using kids by (cases ?kids) (auto split: Option.bind_splits)
  qed
qed

section \<open>What the operations change\<close>

lemma pv_node_at_ensure: "pv_node_at (pv_ensure_node p t) q = (if q = p \<and> pv_node_at t q = None then Some (serialize_node None) else pv_node_at t q)"
  by (auto simp: pv_node_at_def pv_ensure_node_def memory.get_put)

lemma pv_ensure_fields [simp]:
  "pv_cache (pv_ensure_node p t) = pv_cache t" "pv_empty_roots (pv_ensure_node p t) = pv_empty_roots t"
  "pv_empty_scalars (pv_ensure_node p t) = pv_empty_scalars t" "pv_root_cache (pv_ensure_node p t) = pv_root_cache t"
  "pv_pruned_keys (pv_ensure_node p t) = pv_pruned_keys t" "pv_pruned_commitments (pv_ensure_node p t) = pv_pruned_commitments t"
  by (simp_all add: pv_ensure_node_def)

lemma pv_fold_ensure_fields [simp]:
  "pv_cache (fold pv_ensure_node ps t) = pv_cache t" "pv_empty_roots (fold pv_ensure_node ps t) = pv_empty_roots t"
  "pv_empty_scalars (fold pv_ensure_node ps t) = pv_empty_scalars t" "pv_root_cache (fold pv_ensure_node ps t) = pv_root_cache t"
  "pv_pruned_keys (fold pv_ensure_node ps t) = pv_pruned_keys t" "pv_pruned_commitments (fold pv_ensure_node ps t) = pv_pruned_commitments t"
  by (induction ps arbitrary: t) simp_all

lemma pv_node_at_fold_ensure:
  "pv_node_at (fold pv_ensure_node ps t) q = (if q \<in> set ps \<and> pv_node_at t q = None then Some (serialize_node None) else pv_node_at t q)"
  by (induction ps arbitrary: t) (auto simp: pv_node_at_ensure)

lemma fmlookup_mark_dirty:
  "fmlookup (mark_dirty p c) (key_for_path q) =
     (if q = p then map_option (\<lambda>n. n\<lparr>cn_dirty := True\<rparr>) (fmlookup c (key_for_path q)) else fmlookup c (key_for_path q))"
  by (auto simp: mark_dirty_def split: option.split)

lemma fmlookup_fold_dirty:
  "fmlookup (fold mark_dirty ps c) (key_for_path q) =
     (if q \<in> set ps then map_option (\<lambda>n. n\<lparr>cn_dirty := True\<rparr>) (fmlookup c (key_for_path q)) else fmlookup c (key_for_path q))"
  by (induction ps arbitrary: c) (auto simp: fmlookup_mark_dirty option.map_comp comp_def)

lemma fmlookup_fold_drop:
  "fmlookup (fold (\<lambda>p. fmdrop (key_for_path p)) ps m) k = (if k \<in> key_for_path ` set ps then None else fmlookup m k)"
  by (induction ps arbitrary: m) (auto split: if_splits)

lemma pv_cached_invalidate:
  "pv_cached (pv_invalidate_path_cache t p) q = (if q \<in> set (prefixes_of p) then None else pv_cached t q)"
  by (auto simp: pv_cached_def pv_invalidate_path_cache_def fmlookup_fold_dirty split: option.split)

lemma pv_invalidate_fields [simp]:
  "pv_storage (pv_invalidate_path_cache t p) = pv_storage t" "pv_empty_roots (pv_invalidate_path_cache t p) = pv_empty_roots t"
  "pv_empty_scalars (pv_invalidate_path_cache t p) = pv_empty_scalars t" "pv_root_cache (pv_invalidate_path_cache t p) = None"
  "pv_pruned_keys (pv_invalidate_path_cache t p) = pv_pruned_keys t"
  "pv_pruned_commitments (pv_invalidate_path_cache t p) = pv_pruned_commitments t"
  by (simp_all add: pv_invalidate_path_cache_def)

lemma pv_insert_fields [simp]:
  "pv_empty_roots (pv_insert t key v) = pv_empty_roots t" "pv_empty_scalars (pv_insert t key v) = pv_empty_scalars t"
  "pv_root_cache (pv_insert t key v) = None" "pv_pruned_keys (pv_insert t key v) = pv_pruned_keys t |-| {|key|}"
  by (simp_all add: pv_insert_def Let_def pv_set_node_value_def clear_pruned_state_for_key_def)

lemma pv_insert_at:
  assumes "length key = KEY_SIZE"
  shows "pv_node_at (pv_insert t key v) q = (if q = key then Some (serialize_node (Some v))
      else if q \<in> set (prefixes_of key) \<and> pv_node_at t q = None then Some (serialize_node None) else pv_node_at t q)"
    and "pv_recorded (pv_insert t key v) q = (if q \<in> set (prefixes_of key) then None else pv_recorded t q)"
    and "pv_cached (pv_insert t key v) q = (if q \<in> set (prefixes_of key) then None else pv_cached t q)"
    and "fmlookup (pv_pruned_commitments t) [] = None \<Longrightarrow> fmlookup (pv_pruned_commitments (pv_insert t key v)) [] = None"
proof -
  have c: "pv_node_at (clear_pruned_state_for_key t key) q = pv_node_at t q" "pv_cached (clear_pruned_state_for_key t key) q = pv_cached t q" for q
    by (simp_all add: pv_node_at_def pv_cached_def clear_pruned_state_for_key_def)
  have s: "pv_node_at (pv_set_node_value t' p w) q = (if q = p then Some (serialize_node w) else pv_node_at t' q)" for t' p w q
    by (simp add: pv_node_at_def pv_set_node_value_def memory.get_put)
  have i: "pv_node_at (pv_invalidate_path_cache t' p) q = pv_node_at t' q" for t' p q by (simp add: pv_node_at_def)
  show "pv_node_at (pv_insert t key v) q = (if q = key then Some (serialize_node (Some v))
      else if q \<in> set (prefixes_of key) \<and> pv_node_at t q = None then Some (serialize_node None) else pv_node_at t q)"
    using assms by (auto simp: pv_insert_def Let_def i s pv_node_at_fold_ensure c)
  show "pv_recorded (pv_insert t key v) q = (if q \<in> set (prefixes_of key) then None else pv_recorded t q)"
    by (auto simp: pv_recorded_def pv_insert_def Let_def pv_set_node_value_def clear_pruned_state_for_key_def fmlookup_fold_drop)
  show "pv_cached (pv_insert t key v) q = (if q \<in> set (prefixes_of key) then None else pv_cached t q)"
    using assms by (simp add: pv_insert_def Let_def pv_cached_invalidate) (simp add: pv_cached_def pv_set_node_value_def clear_pruned_state_for_key_def)
  show "fmlookup (pv_pruned_commitments t) [] = None \<Longrightarrow> fmlookup (pv_pruned_commitments (pv_insert t key v)) [] = None"
    by (simp add: pv_insert_def Let_def pv_set_node_value_def clear_pruned_state_for_key_def fmlookup_fold_drop)
qed

text \<open>A change confined to the prefixes of a path keeps the commitments of all other nodes.\<close>

lemma off_path_commitment:
  assumes "pv_empty_scalars t' = pv_empty_scalars t"
    and "\<And>q. q \<notin> set (prefixes_of path) \<Longrightarrow> pv_node_at t' q = pv_node_at t q \<and> pv_recorded t' q = pv_recorded t q \<and>
      (q |\<in>| pv_pruned_keys t' \<longleftrightarrow> q |\<in>| pv_pruned_keys t)"
    and "p \<notin> set (prefixes_of path)"
  shows "pv_commitment ext pc t' n p = pv_commitment ext pc t n p"
  by (rule pv_commitment_cong [OF assms(1)], rule assms(2)) (use assms(3) in \<open>auto dest: prefix_extension\<close>)

lemma pv_insert_off_path:
  assumes "length key = KEY_SIZE" and "p \<notin> set (prefixes_of key)"
  shows "pv_commitment ext pc (pv_insert t key v) n p = pv_commitment ext pc t n p"
proof (rule off_path_commitment [OF _ _ assms(2)])
  have "key \<in> set (prefixes_of key)" by (simp add: set_prefixes_of)
  then show "pv_node_at (pv_insert t key v) q = pv_node_at t q \<and> pv_recorded (pv_insert t key v) q = pv_recorded t q \<and>
      (q |\<in>| pv_pruned_keys (pv_insert t key v) \<longleftrightarrow> q |\<in>| pv_pruned_keys t)" if "q \<notin> set (prefixes_of key)" for q
    using that by (auto simp: pv_insert_at [OF assms(1)])
qed simp

lemma pv_ok_insert:
  assumes "pv_ok ext pc t" and "length key = KEY_SIZE"
  shows "pv_ok ext pc (pv_insert t key v)"
  using assms(1) unfolding pv_ok_def pv_cache_ok_def
  by (auto simp: pv_insert_at [OF assms(2)] pv_insert_off_path [OF assms(2)] split: if_splits)

section \<open>Pruning keeps every commitment\<close>

text \<open>Recording a node's own commitment changes no commitment.\<close>

definition records_own :: "externals \<Rightarrow> pc_ops \<Rightarrow> pv_tree \<Rightarrow> pv_tree \<Rightarrow> bool" where
  "records_own ext pc t t' \<longleftrightarrow> pv_storage t' = pv_storage t \<and> pv_empty_roots t' = pv_empty_roots t \<and>
     pv_empty_scalars t' = pv_empty_scalars t \<and> pv_pruned_keys t' = pv_pruned_keys t \<and>
     (\<forall>p. pv_recorded t' p = pv_recorded t p \<or>
       length p \<le> KEY_SIZE \<and> pv_recorded t' p = pv_commitment ext pc t (KEY_SIZE - length p) p)"

lemma recorded_is_commitment: "pv_recorded t p = Some c \<Longrightarrow> pv_commitment ext pc t n p = Some c"
  by (cases n) simp_all

lemma records_own_commitment:
  assumes "records_own ext pc t t'"
  shows "length p + n = KEY_SIZE \<Longrightarrow> pv_commitment ext pc t' n p = pv_commitment ext pc t n p"
proof (induction n arbitrary: p)
  case 0
  then have d: "KEY_SIZE - length p = 0" by simp
  have v: "pv_get_node_value t' p = pv_get_node_value t p"
    using assms by (simp add: records_own_def pv_get_node_value_def)
  consider "pv_recorded t' p = pv_recorded t p" | "pv_recorded t' p = pv_commitment ext pc t 0 p"
    using assms d unfolding records_own_def by metis
  then show ?case
    using v by cases (auto split: option.splits)
next
  case (Suc n)
  have d: "KEY_SIZE - length p = Suc n" using Suc.prems by simp
  have kid: "child_value ext pc t' k (pv_commitment ext pc t' n (p @ [of_nat i])) (p @ [of_nat i]) =
      child_value ext pc t k (pv_commitment ext pc t n (p @ [of_nat i])) (p @ [of_nat i])" for k i
    using assms Suc.prems Suc.IH [of "p @ [of_nat i]"]
    by (simp add: child_value_def records_own_def pv_node_exists_def cong: if_cong)
  consider "pv_recorded t' p = pv_recorded t p" | "pv_recorded t' p = pv_commitment ext pc t (Suc n) p"
    using assms d unfolding records_own_def by metis
  then show ?case
  proof cases
    case 1
    then show ?thesis by (simp add: kid cong: option.case_cong)
  next
    case 2
    show ?thesis
    proof (cases "pv_recorded t' p")
      case None
      then have "pv_recorded t p = None" using 2 recorded_is_commitment [of t p] by (cases "pv_recorded t p") auto
      then show ?thesis using None by (simp add: kid)
    next
      case (Some c)
      then show ?thesis using 2 recorded_is_commitment [OF Some] by (simp del: pv_commitment.simps)
    qed
  qed
qed

lemma records_own_refl: "same_nodes t t' \<Longrightarrow> records_own ext pc t t'"
  using same_nodesD(3) [of t t'] by (simp add: records_own_def same_nodes_def)

lemma records_own_trans:
  assumes "records_own ext pc t t'" and "records_own ext pc t' t''"
  shows "records_own ext pc t t''"
proof -
  have "pv_commitment ext pc t' (KEY_SIZE - length p) p = pv_commitment ext pc t (KEY_SIZE - length p) p" if "length p \<le> KEY_SIZE" for p
    using that by (intro records_own_commitment [OF assms(1)]) simp
  then show ?thesis using assms unfolding records_own_def by metis
qed

lemma records_own_root: "records_own ext pc t t' \<Longrightarrow> pv_root ext pc t' = pv_root ext pc t"
  by (simp add: pv_root_def records_own_commitment)

lemma get_node_commitment_exact:
  assumes "pv_cache_ok ext pc t" and "length p \<le> KEY_SIZE"
  shows "map_option snd (pv_get_node_commitment ext pc t p (length p)) = pv_commitment ext pc t (KEY_SIZE - length p) p"
    and "pv_get_node_commitment ext pc t p (length p) = Some (t', c) \<Longrightarrow> same_nodes t t' \<and> pv_cache_ok ext pc t'"
proof -
  have len: "length p + (KEY_SIZE - length p) = KEY_SIZE" using assms(2) by simp
  have "pv_computes ext pc (KEY_SIZE - length p) (pv_compute ext pc (KEY_SIZE - length p))"
    by (rule pv_compute_computes) simp
  note g = pv_computesD [OF get_commitment_computes [OF this] assms(1) len]
  show "map_option snd (pv_get_node_commitment ext pc t p (length p)) = pv_commitment ext pc t (KEY_SIZE - length p) p"
    using g(1) by (simp add: pv_get_node_commitment_def)
  show "pv_get_node_commitment ext pc t p (length p) = Some (t', c) \<Longrightarrow> same_nodes t t' \<and> pv_cache_ok ext pc t'"
    using g(2) by (simp add: pv_get_node_commitment_def)
qed

lemma record_step:
  assumes "pv_cache_ok ext pc t" and "length p \<le> KEY_SIZE" and "pv_get_node_commitment ext pc t p (length p) = Some (t', c)"
  defines "t1 \<equiv> t'\<lparr>pv_pruned_commitments := fmupd (key_for_path p) c (pv_pruned_commitments t')\<rparr>"
  shows "records_own ext pc t t1" and "pv_cache_ok ext pc t1" and "pv_recorded t1 q = (if q = p then Some c else pv_recorded t q)"
    and "fmlookup (pv_pruned_commitments t1) [] = fmlookup (pv_pruned_commitments t) []"
proof -
  note g = get_node_commitment_exact [OF assms(1,2)]
  have c: "pv_commitment ext pc t (KEY_SIZE - length p) p = Some c" using g(1) assms(3) by simp
  have t': "same_nodes t t'" "pv_cache_ok ext pc t'" using g(2) [OF assms(3)] by simp_all
  show rec: "pv_recorded t1 q = (if q = p then Some c else pv_recorded t q)" for q
    using same_nodesD(3) [OF t'(1)] by (simp add: t1_def pv_recorded_def)
  show own: "records_own ext pc t t1"
    using t'(1) c assms(2) rec unfolding records_own_def same_nodes_def by (simp add: t1_def)
  show "pv_cache_ok ext pc t1"
    unfolding pv_cache_ok_def
  proof (intro allI impI)
    fix q d
    assume q: "length q \<le> KEY_SIZE \<and> pv_cached t1 q = Some d"
    then have "pv_cached t' q = Some d" by (simp add: t1_def pv_cached_def)
    then have "pv_commitment ext pc t (KEY_SIZE - length q) q = Some d"
      using t'(2) q same_nodesD(5) [OF t'(1)] by (simp add: pv_cache_ok_def)
    then show "pv_commitment ext pc t1 (KEY_SIZE - length q) q = Some d" using q by (simp add: records_own_commitment [OF own])
  qed
  show "fmlookup (pv_pruned_commitments t1) [] = fmlookup (pv_pruned_commitments t) []"
    using t'(1) by (simp add: t1_def key_for_path_def same_nodes_def)
qed

lemma record_path_exact:
  assumes "pv_cache_ok ext pc t" and "\<forall>p \<in> set ps. length p \<le> KEY_SIZE" and "record_path ext pc t ps = Some t'"
  shows "records_own ext pc t t' \<and> pv_cache_ok ext pc t' \<and> (\<forall>p \<in> set ps. pv_recorded t' p \<noteq> None) \<and>
    (\<forall>p. pv_recorded t p \<noteq> None \<longrightarrow> pv_recorded t' p \<noteq> None) \<and> (\<forall>p. p \<notin> set ps \<longrightarrow> pv_recorded t' p = pv_recorded t p) \<and>
    fmlookup (pv_pruned_commitments t') [] = fmlookup (pv_pruned_commitments t) []"
  using assms
proof (induction ps arbitrary: t)
  case Nil
  then show ?case by (simp add: records_own_refl)
next
  case (Cons p ps)
  obtain t1 c where g: "pv_get_node_commitment ext pc t p (length p) = Some (t1, c)"
    using Cons.prems(3) by (auto split: Option.bind_splits)
  let ?t = "t1\<lparr>pv_pruned_commitments := fmupd (key_for_path p) c (pv_pruned_commitments t1)\<rparr>"
  have len: "length p \<le> KEY_SIZE" using Cons.prems(2) by simp
  note st = record_step [OF Cons.prems(1) len g]
  have "record_path ext pc ?t ps = Some t'" using Cons.prems(3) g by simp
  with Cons.IH [OF st(2)] Cons.prems(2) have IH: "records_own ext pc ?t t' \<and> pv_cache_ok ext pc t' \<and> (\<forall>p \<in> set ps. pv_recorded t' p \<noteq> None) \<and>
    (\<forall>p. pv_recorded ?t p \<noteq> None \<longrightarrow> pv_recorded t' p \<noteq> None) \<and> (\<forall>p. p \<notin> set ps \<longrightarrow> pv_recorded t' p = pv_recorded ?t p) \<and>
    fmlookup (pv_pruned_commitments t') [] = fmlookup (pv_pruned_commitments ?t) []" by simp
  then show ?case using st records_own_trans [OF st(1)] by (auto simp: st(3))
qed

text \<open>The look-up of the recorded root uses the empty key, which no path has, so the root is left to be recomputed.\<close>

lemma pv_prune_key_cases:
  assumes "pv_ok ext pc t" and "length key = KEY_SIZE" and "pv_prune_key ext pc t key = Some (t', r)"
  shows "\<not> pv_node_exists t key \<and> t' = t \<and> r = Inl (PrunedData ''Key does not exist or already absent'') \<or>
    pv_node_exists t key \<and> r = Inr () \<and> (\<exists>t1. record_path ext pc t (prefixes_of key) = Some t1 \<and>
      t' = pv_invalidate_path_cache (t1\<lparr>pv_storage := storage_delete (pv_storage t1) (key_for_path key),
        pv_pruned_keys := finsert key (pv_pruned_keys t1)\<rparr>) key)"
proof (cases "pv_node_exists t key")
  case True
  obtain t1 where t1: "record_path ext pc t (prefixes_of key) = Some t1"
    using True assms(2,3) by (auto simp: pv_prune_key_def Let_def split: Option.bind_splits)
  have len: "\<forall>p \<in> set (prefixes_of key). length p \<le> KEY_SIZE" using assms(2) by (auto simp: set_prefixes_of)
  have "fmlookup (pv_pruned_commitments t1) [] = None"
    using record_path_exact [OF _ len t1] assms(1) by (simp add: pv_ok_def)
  then show ?thesis using True t1 assms(2,3) by (simp add: pv_prune_key_def Let_def)
qed (use assms in \<open>simp add: pv_prune_key_def Let_def\<close>)

text \<open>What a successful pruning leaves: every commitment, and every node but the leaf.\<close>

lemma pv_prune_key_ok:
  assumes ok: "pv_ok ext pc t" and key: "length key = KEY_SIZE" and run: "pv_prune_key ext pc t key = Some (t', Inr ())"
  shows "pv_ok ext pc t'" and "length p + n = KEY_SIZE \<Longrightarrow> pv_commitment ext pc t' n p = pv_commitment ext pc t n p"
    and "pv_node_at t' q = (if q = key then None else pv_node_at t q)" and "pv_pruned_keys t' = finsert key (pv_pruned_keys t)"
    and "pv_empty_scalars t' = pv_empty_scalars t" and "q \<in> set (prefixes_of key) \<Longrightarrow> pv_recorded t' q \<noteq> None"
proof -
  obtain t1 where t1: "record_path ext pc t (prefixes_of key) = Some t1"
    and t': "t' = pv_invalidate_path_cache (t1\<lparr>pv_storage := storage_delete (pv_storage t1) (key_for_path key),
        pv_pruned_keys := finsert key (pv_pruned_keys t1)\<rparr>) key"
    using pv_prune_key_cases [OF ok key run] by blast
  have len: "\<forall>p \<in> set (prefixes_of key). length p \<le> KEY_SIZE" using key by (auto simp: set_prefixes_of)
  have c: "pv_cache_ok ext pc t" using ok by (simp add: pv_ok_def)
  note r = record_path_exact [OF c len t1]
  have own: "records_own ext pc t t1" using r by simp
  show at: "pv_node_at t' q = (if q = key then None else pv_node_at t q)" for q
    using own by (simp add: t' pv_node_at_def memory.get_delete records_own_def)
  show pk: "pv_pruned_keys t' = finsert key (pv_pruned_keys t)" and es: "pv_empty_scalars t' = pv_empty_scalars t"
    using own by (simp_all add: t' records_own_def)
  have rec: "pv_recorded t' q = pv_recorded t1 q" for q by (simp add: t' pv_recorded_def)
  show recs: "q \<in> set (prefixes_of key) \<Longrightarrow> pv_recorded t' q \<noteq> None" for q using r by (simp add: rec)
  have same: "pv_commitment ext pc t' n p = pv_commitment ext pc t1 n p" for n p
  proof (cases "p \<in> set (prefixes_of key)")
    case True
    then obtain x where "pv_recorded t1 p = Some x" using r by blast
    then show ?thesis using rec recorded_is_commitment by metis
  next
    case False
    have self: "key \<in> set (prefixes_of key)" by (simp add: set_prefixes_of)
    have "pv_node_at t1 q = pv_node_at t q" for q using own by (simp add: pv_node_at_def records_own_def)
    then show ?thesis
      using self own by (intro off_path_commitment [where path = key] False) (auto simp: at pk es rec records_own_def)
  qed
  show com: "length p + n = KEY_SIZE \<Longrightarrow> pv_commitment ext pc t' n p = pv_commitment ext pc t n p" for n p
    using same records_own_commitment [OF own] by simp
  have "pv_cached t' q = Some d \<Longrightarrow> pv_cached t1 q = Some d" for q d
    by (simp add: t' pv_cached_invalidate split: if_splits) (simp add: pv_cached_def)
  then have "pv_cache_ok ext pc t'" using r same by (auto simp: pv_cache_ok_def)
  then show "pv_ok ext pc t'" using r ok by (simp add: pv_ok_def t')
qed

section \<open>The root\<close>

lemma pv_get_root_exact:
  assumes "pv_ok ext pc t"
  shows "map_option snd (pv_get_root ext pc t) = pv_root ext pc t"
    and "pv_get_root ext pc t = Some (t', r) \<Longrightarrow> pv_ok ext pc t' \<and> pv_root ext pc t' = pv_root ext pc t"
proof -
  have c: "pv_cache_ok ext pc t" using assms by (simp add: pv_ok_def)
  note h = root_hash_exact [OF pv_compute_computes [OF order.refl] c, where path = "[]"]
  have run: "pv_compute_node_root_hash ext pc t [] 0 = root_hash_with ext pc (pv_compute ext pc KEY_SIZE) t []"
    by (simp add: pv_compute_node_root_hash_def)
  show "map_option snd (pv_get_root ext pc t) = pv_root ext pc t"
    using h(1) assms by (auto simp: pv_get_root_def run pv_root_def pv_ok_def option.map_comp comp_def
        split: option.split Option.bind_split)
  show "pv_get_root ext pc t = Some (t', r) \<Longrightarrow> pv_ok ext pc t' \<and> pv_root ext pc t' = pv_root ext pc t"
  proof (cases "pv_root_cache t")
    case (Some x)
    assume "pv_get_root ext pc t = Some (t', r)"
    then have t': "t' = t\<lparr>pv_cache_hits := pv_cache_hits t + 1\<rparr>" using Some by (simp add: pv_get_root_def)
    then have s: "same_nodes t t'" "pv_cached t' p = pv_cached t p" for p by (simp_all add: counters_same)
    have "pv_cache_ok ext pc t'" by (rule pv_cache_ok_same [OF c s])
    then show ?thesis using assms same_nodesD(7) [OF s(1)] t' by (simp add: pv_ok_def)
  next
    case None
    assume "pv_get_root ext pc t = Some (t', r)"
    then obtain t1 where t1: "root_hash_with ext pc (pv_compute ext pc KEY_SIZE) t [] = Some (t1, r)" and t': "t' = t1\<lparr>pv_root_cache := Some r\<rparr>"
      using None by (auto simp: pv_get_root_def run split: Option.bind_splits)
    have "same_nodes t t1" "pv_cache_ok ext pc t1" using h(2) [OF _ t1] by simp_all
    moreover have "pv_root ext pc t = Some r" using h(1) t1 by (simp add: pv_root_def)
    moreover have "pv_commitment ext pc t' n p = pv_commitment ext pc t1 n p" for n p
      by (rule pv_commitment_cong) (simp_all add: t' pv_node_at_def pv_recorded_def)
    moreover have "pv_cached t' p = pv_cached t1 p" for p by (simp add: t' pv_cached_def)
    ultimately show ?thesis
      using assms same_nodesD(7) [of t t1] by (auto simp: pv_ok_def pv_cache_ok_def pv_root_def t' same_nodes_def)
  qed
qed

section \<open>What readers see\<close>

lemma pv_get_alt: "length key = KEY_SIZE \<Longrightarrow> pv_get t key =
    (if key |\<in>| pv_pruned_keys t then Inl (PrunedData ''Key has been pruned'')
     else Inr (case pv_node_at t key of None \<Rightarrow> None | Some e \<Rightarrow> (case deserialize_node e of None \<Rightarrow> None | Some v \<Rightarrow> v)))"
  by (simp add: pv_get_def pv_get_node_value_alt)

lemma pv_get_insert:
  assumes "length key = KEY_SIZE" and "length k = KEY_SIZE" and "length v < 2 ^ 32"
  shows "pv_get (pv_insert t key v) k = (if k = key then Inr (Some v) else pv_get t k)"
proof -
  have "deserialize_node (serialize_node (Some v)) = Some (Some v)" by (rule deserialize_serialize_node) (use assms(3) in simp)
  moreover have "k \<in> set (prefixes_of key) \<Longrightarrow> k = key" using assms(1,2) by (auto simp: set_prefixes_of)
  ultimately show ?thesis using assms(1,2) by (auto simp: pv_get_alt pv_insert_at [OF assms(1)])
qed

lemma pv_get_prune:
  assumes "pv_ok ext pc t" and "length key = KEY_SIZE" and "pv_prune_key ext pc t key = Some (t', Inr ())" and "length k = KEY_SIZE"
  shows "pv_get t' k = (if k = key then Inl (PrunedData ''Key has been pruned'') else pv_get t k)"
  using pv_prune_key_ok(3,4) [OF assms(1-3)] assms(2,4) by (simp add: pv_get_alt)

section \<open>Totality\<close>

text \<open>Committing to at most 256 coefficients and serializing a commitment succeed, as for the scheme of the repository.\<close>

lemma pc_laws_total:
  assumes "pc_laws pc"
  shows "length cs \<le> VERKLE_RADIX \<Longrightarrow> pv_commit pc cs \<noteq> None" and "pv_root_hash ext pc c \<noteq> None"
proof -
  show "pv_commit pc cs \<noteq> None" if "length cs \<le> VERKLE_RADIX"
  proof -
    obtain c where "commit_coeffs pc [] cs = Inr c" using assms \<open>length cs \<le> VERKLE_RADIX\<close> unfolding pc_laws_def by blast
    then show ?thesis by (auto simp: pv_commit_def commit_coeffs_def split: sum.splits)
  qed
  obtain bs where "serialize_uncompressed pc c = Inr bs" using assms unfolding pc_laws_def by blast
  then show "pv_root_hash ext pc c \<noteq> None" by (simp add: pv_root_hash_def)
qed

lemma those_None_iff: "those xs = None \<longleftrightarrow> None \<in> set xs"
  by (induction xs) (auto split: option.split)

lemma length_those: "those xs = Some ys \<Longrightarrow> length ys = length xs"
  by (induction xs arbitrary: ys) (auto split: option.splits)

lemma pv_commitment_total: "pc_laws pc \<Longrightarrow> pv_commitment ext pc t n p \<noteq> None"
proof (induction n arbitrary: p)
  case 0
  then show ?case using pc_laws_total(1) [OF 0, of "[s]" for s] by (auto simp: VERKLE_RADIX_def split: option.split)
next
  case (Suc n)
  have "child_value ext pc t d (pv_commitment ext pc t n q) q \<noteq> None" for d q
    using Suc.IH [OF Suc.prems, of q] pc_laws_total(2) [OF Suc.prems] by (auto simp: child_value_def)
  then obtain cs where cs: "those (map (\<lambda>i. child_value ext pc t (KEY_SIZE - n) (pv_commitment ext pc t n (p @ [of_nat i])) (p @ [of_nat i]))
      [0..<VERKLE_RADIX]) = Some cs"
    by (metis (no_types, lifting) ex_map_conv not_Some_eq those_None_iff)
  moreover have "pv_commit pc cs \<noteq> None" using length_those [OF cs] by (intro pc_laws_total(1) [OF Suc.prems]) simp
  ultimately show ?case by (auto split: option.split)
qed

lemma pv_root_total: "pc_laws pc \<Longrightarrow> pv_root ext pc t \<noteq> None"
  using pv_commitment_total [of pc ext t KEY_SIZE "[]"] pc_laws_total(2) [of pc ext] by (auto simp: pv_root_def)

lemma record_path_total:
  assumes "pc_laws pc"
  shows "pv_cache_ok ext pc t \<Longrightarrow> \<forall>p \<in> set ps. length p \<le> KEY_SIZE \<Longrightarrow> record_path ext pc t ps \<noteq> None"
proof (induction ps arbitrary: t)
  case (Cons p ps)
  have len: "length p \<le> KEY_SIZE" using Cons.prems(2) by simp
  obtain t1 c where g: "pv_get_node_commitment ext pc t p (length p) = Some (t1, c)"
    using get_node_commitment_exact(1) [OF Cons.prems(1) len] pv_commitment_total [OF assms]
    by (metis map_option_is_None not_None_eq surj_pair)
  show ?case using Cons.IH [OF record_step(2) [OF Cons.prems(1) len g]] Cons.prems(2) g by simp
qed simp

lemma pv_prune_key_total:
  assumes "pc_laws pc" and "pv_ok ext pc t" and "length key = KEY_SIZE" and "pv_node_exists t key"
  shows "\<exists>t'. pv_prune_key ext pc t key = Some (t', Inr ())"
proof -
  have len: "\<forall>p \<in> set (prefixes_of key). length p \<le> KEY_SIZE" using assms(3) by (auto simp: set_prefixes_of)
  have c: "pv_cache_ok ext pc t" "fmlookup (pv_pruned_commitments t) [] = None" using assms(2) by (simp_all add: pv_ok_def)
  obtain t1 where t1: "record_path ext pc t (prefixes_of key) = Some t1" using record_path_total [OF assms(1) c(1) len] by auto
  then have "fmlookup (pv_pruned_commitments t1) [] = None" using record_path_exact [OF c(1) len t1] c(2) by simp
  then show ?thesis using t1 assms(3,4) by (simp add: pv_prune_key_def Let_def)
qed

lemma pv_empty_levels_total: "pc_laws pc \<Longrightarrow> \<exists>ls. pv_empty_levels ext pc n = Some ls"
proof (induction n)
  case 0
  obtain c where "pv_commit pc [] = Some c" using pc_laws_total(1) [OF 0, of "[]"] by auto
  moreover obtain r where "pv_root_hash ext pc c = Some r" using pc_laws_total(2) [OF 0] by blast
  ultimately show ?case by simp
next
  case (Suc n)
  then obtain ls where "pv_empty_levels ext pc n = Some ls" by blast
  moreover obtain c where "pv_commit pc (replicate VERKLE_RADIX (snd (hd ls))) = Some c"
    using pc_laws_total(1) [OF Suc.prems, of "replicate VERKLE_RADIX (snd (hd ls))"] by auto
  moreover obtain r where "pv_root_hash ext pc c = Some r" using pc_laws_total(2) [OF Suc.prems] by blast
  ultimately show ?case by simp
qed

lemma pv_new_total: "pc_laws pc \<Longrightarrow> \<exists>t. pv_new ext pc st = Some t"
  using pv_empty_levels_total [of pc ext KEY_SIZE] by (auto simp: pv_new_def)

lemma pv_new_ok: "pv_new ext pc st = Some t \<Longrightarrow> pv_ok ext pc t"
  by (auto simp: pv_new_def pv_ok_def pv_cache_ok_def pv_cached_def split: Option.bind_splits)

end
