(* ===== verification/Pruned_Verkle_Proofs.thy ===== *)
theory Pruned_Verkle_Proofs
  imports Pruned_Verkle
begin

text \<open>
  Proofs of the stand-alone Verkle tree (\<open>generate_proof\<close>, \<open>verify_proof\<close>, \<open>verify_verkle_proof\<close>) and the root of a set of
  outputs (\<open>calculate_verkle_root\<close>) of \<open>core/crypto/verkle/verkle_tree.rs\<close>. \<open>None\<close> is a panic.
\<close>

section \<open>Generating a proof\<close>

record pv_proof =
  pp_type :: proof_type
  pp_path :: bytes
  pp_siblings :: "bytes list"
  pp_leaf_value :: "bytes option"
  pp_root :: bytes
  pp_opening_proofs :: "opening_proof list"

definition pv_reconstruct_node_polynomial :: "externals \<Rightarrow> pc_ops \<Rightarrow> pv_tree \<Rightarrow> bytes \<Rightarrow> nat \<Rightarrow> (pv_tree \<times> scalar list) option" where
  "pv_reconstruct_node_polynomial ext pc self path depth =
     (if depth = KEY_SIZE then Some (self, from_coefficients_vec pc [leaf_scalar ext pc (pv_get_node_value self path)])
      else Option.bind (pv_child_scalars ext pc (pv_compute ext pc (KEY_SIZE - (depth + 1))) path depth self [0..<VERKLE_RADIX])
        (\<lambda>(self', coeffs). Some (self', from_coefficients_vec pc coeffs)))"

definition pv_hash_node_value_at_index :: "externals \<Rightarrow> pc_ops \<Rightarrow> pv_tree \<Rightarrow> bytes \<Rightarrow> u8 \<Rightarrow> (pv_tree \<times> scalar) option" where
  "pv_hash_node_value_at_index ext pc self path child_index =
     Option.bind (pv_compute_node_root_hash ext pc self (path @ [child_index]) (length path + 1))
       (\<lambda>(self', root). Some (self', from_le_bytes_mod_order pc root))"

fun pv_level_siblings :: "externals \<Rightarrow> pc_ops \<Rightarrow> bool \<Rightarrow> bytes \<Rightarrow> nat \<Rightarrow> pv_tree \<Rightarrow> nat list \<Rightarrow> (pv_tree \<times> bytes list) option" where
  "pv_level_siblings ext pc live path depth self [] = Some (self, [])"
| "pv_level_siblings ext pc live path depth self (i # is) =
     Option.bind (if live \<and> pv_node_exists self (path @ [of_nat i])
       then pv_compute_node_root_hash ext pc self (path @ [of_nat i]) (depth + 1)
       else Some (self, pv_empty_roots self ! (depth + 1))) (\<lambda>(self', root).
     Option.bind (pv_level_siblings ext pc live path depth self' is) (\<lambda>(self'', roots). Some (self'', root # roots)))"

definition pv_level_opening :: "externals \<Rightarrow> pc_ops \<Rightarrow> pv_tree \<Rightarrow> bytes \<Rightarrow> nat \<Rightarrow> u8 \<Rightarrow> (pv_tree \<times> opening_proof list) option" where
  "pv_level_opening ext pc self path depth byte =
     Option.bind (pv_get_node_commitment ext pc self path depth) (\<lambda>(self0, _).
     Option.bind (pv_hash_node_value_at_index ext pc self0 path byte) (\<lambda>(self1, value_hash).
     Option.bind (pv_reconstruct_node_polynomial ext pc self1 path depth) (\<lambda>(self2, polynomial).
     case pc_open pc polynomial (from_le_bytes_mod_order pc [byte]) value_hash of
       None \<Rightarrow> None
     | Some (Inl _) \<Rightarrow> Some (self2, [])
     | Some (Inr pf) \<Rightarrow> Some (self2, [pf]))))"

fun pv_proof_levels :: "externals \<Rightarrow> pc_ops \<Rightarrow> nat \<Rightarrow> bytes \<Rightarrow> proof_state \<Rightarrow> pv_tree \<Rightarrow> (pv_tree \<times> proof_state) option" where
  "pv_proof_levels ext pc depth [] s self = Some (self, s)"
| "pv_proof_levels ext pc depth (byte # bs) s self =
     (let live = ps_exists s \<and> pv_node_exists self (ps_path s) in
      Option.bind (pv_level_siblings ext pc live (ps_path s) depth self [0..<VERKLE_RADIX]) (\<lambda>(self1, sibs).
      Option.bind (if live then pv_level_opening ext pc self1 (ps_path s) depth byte else Some (self1, [])) (\<lambda>(self2, pfs).
        let s1 = s\<lparr>ps_siblings := ps_siblings s @ sibs, ps_openings := ps_openings s @ pfs\<rparr>;
            s2 = (if ps_exists s
                  then s1\<lparr>ps_path := ps_path s @ [byte], ps_exists := pv_node_exists self2 (ps_path s @ [byte])\<rparr> else s1)
        in pv_proof_levels ext pc (Suc depth) bs s2 self2)))"

definition pv_generate_proof :: "externals \<Rightarrow> pc_ops \<Rightarrow> pv_tree \<Rightarrow> bytes \<Rightarrow> (pv_tree \<times> pv_proof) option" where
  "pv_generate_proof ext pc self key =
     Option.bind (pv_proof_levels ext pc 0 (take KEY_SIZE key) \<lparr>ps_siblings = [], ps_openings = [], ps_path = [], ps_exists = True\<rparr> self)
       (\<lambda>(self1, s).
     let leaf = (if ps_exists s then pv_get_node_value self1 (ps_path s) else None) in
     Option.bind (pv_get_root ext pc self1) (\<lambda>(self2, root).
       Some (self2, \<lparr>pp_type = (if leaf \<noteq> None then Membership else NonMembership), pp_path = key, pp_siblings = ps_siblings s,
         pp_leaf_value = leaf, pp_root = root, pp_opening_proofs = ps_openings s\<rparr>)))"

section \<open>Verifying a proof\<close>

text \<open>The verdict of \<open>pc.verify\<close> is dropped; only its error is looked at.\<close>

definition pv_check_openings :: "pc_ops \<Rightarrow> opening_proof list \<Rightarrow> bool" where
  "pv_check_openings pc ps = list_all (\<lambda>p. is_ok (pc_verify pc (quotient_commitment p) p)) ps"

definition pv_level_coeffs :: "pc_ops \<Rightarrow> pv_proof \<Rightarrow> nat \<Rightarrow> scalar \<Rightarrow> scalar list" where
  "pv_level_coeffs pc p depth current =
     map (\<lambda>i. if i = unat (pp_path p ! depth) then current
              else from_le_bytes_mod_order pc (pp_siblings p ! (depth * VERKLE_RADIX + i))) [0..<VERKLE_RADIX]"

text \<open>The loop \<open>for depth in (0..KEY_SIZE).rev()\<close>; the value \<open>Some None\<close> is the return of \<open>false\<close> on a failed commitment.\<close>

fun pv_recompute_root :: "externals \<Rightarrow> pc_ops \<Rightarrow> pv_proof \<Rightarrow> nat \<Rightarrow> scalar \<Rightarrow> bytes \<Rightarrow> bytes option option" where
  "pv_recompute_root ext pc p 0 current computed_root = Some (Some computed_root)"
| "pv_recompute_root ext pc p (Suc depth) current computed_root =
     (case pv_commit pc (pv_level_coeffs pc p depth current) of
        None \<Rightarrow> Some None
      | Some c \<Rightarrow> Option.bind (pv_root_hash ext pc c) (\<lambda>root. pv_recompute_root ext pc p depth (from_le_bytes_mod_order pc root) root))"

definition pv_leaf_scalar :: "externals \<Rightarrow> pc_ops \<Rightarrow> pv_tree \<Rightarrow> pv_proof \<Rightarrow> scalar option option" where
  "pv_leaf_scalar ext pc self p = (case (pp_type p, pp_leaf_value p) of
     (Membership, Some v) \<Rightarrow> (case pv_commit pc [value_to_scalar ext pc v] of
         None \<Rightarrow> Some None
       | Some c \<Rightarrow> map_option (\<lambda>root. Some (from_le_bytes_mod_order pc root)) (pv_root_hash ext pc c))
   | (NonMembership, _) \<Rightarrow> Some (Some (from_le_bytes_mod_order pc (pv_empty_roots self ! KEY_SIZE)))
   | _ \<Rightarrow> Some None)"

definition pv_verify_proof :: "externals \<Rightarrow> pc_ops \<Rightarrow> pv_tree \<Rightarrow> pv_proof \<Rightarrow> bool option" where
  "pv_verify_proof ext pc self p =
     (if length (pp_path p) \<noteq> KEY_SIZE then Some False
      else if length (pp_siblings p) \<noteq> KEY_SIZE * VERKLE_RADIX then Some False
      else if (pp_type p = Membership) = (pp_leaf_value p = None) then Some False
      else if \<not> pv_check_openings pc (pp_opening_proofs p) then Some False
      else Option.bind (pv_leaf_scalar ext pc self p) (\<lambda>leaf. case leaf of
        None \<Rightarrow> Some False
      | Some current \<Rightarrow> Option.bind (pv_recompute_root ext pc p KEY_SIZE current (replicate 32 0))
          (\<lambda>computed. Some (computed = Some (pp_root p)))))"

definition verify_verkle_proof :: "externals \<Rightarrow> pc_ops \<Rightarrow> pv_tree \<Rightarrow> hash \<Rightarrow> pv_proof \<Rightarrow> hash \<Rightarrow> hash \<Rightarrow> bool option" where
  "verify_verkle_proof ext pc self root p key v =
     (if pp_root p \<noteq> as_bytes root then Some False
      else Option.bind (pv_verify_proof ext pc self p) (\<lambda>ok.
        if \<not> ok then Some False
        else if pp_path p \<noteq> as_bytes key then Some False
        else case pp_type p of
          Membership \<Rightarrow> (case pp_leaf_value p of Some leaf_value \<Rightarrow> Some (hash_new ext leaf_value = v) | None \<Rightarrow> Some False)
        | NonMembership \<Rightarrow> Some (pp_leaf_value p = None)))"

section \<open>The root of a set of outputs\<close>

text \<open>\<open>to_string\<close> of an unsigned integer. The hexadecimal rendering of the \<open>hex\<close> crate is the parameter \<open>hex\<close>, and the
  entries are listed in the order the hash map iterates over them.\<close>

fun decimal :: "nat \<Rightarrow> string" where
  "decimal n = (if n < 10 then [char_of (48 + n)] else decimal (n div 10) @ [char_of (48 + n mod 10)])"

definition verkle_utxo_key :: "externals \<Rightarrow> (bytes \<Rightarrow> string) \<Rightarrow> outpoint \<Rightarrow> tx_output \<Rightarrow> bytes" where
  "verkle_utxo_key ext hex op out =
     blake3 ext (map of_char (hex (as_bytes (pubkey_hash out)) @ '':'' @ decimal (unat (snd op)) @ '':VALUE''))"

definition pv_clear :: "pv_tree \<Rightarrow> pv_tree" where
  "pv_clear self = self\<lparr>pv_storage := storage_clear (pv_storage self), pv_cache := fmempty, pv_root_cache := None,
     pv_pruned_keys := {||}, pv_pruned_commitments := fmempty\<rparr>"

definition pv_populate :: "externals \<Rightarrow> (bytes \<Rightarrow> string) \<Rightarrow> (outpoint \<times> tx_output) list \<Rightarrow> pv_tree \<Rightarrow> pv_tree" where
  "pv_populate ext hex entries self =
     fold (\<lambda>(op, out) t. pv_insert t (take KEY_SIZE (verkle_utxo_key ext hex op out)) (to_le_bytes 8 (out_value out))) entries (pv_clear self)"

definition calculate_verkle_root ::
  "externals \<Rightarrow> pc_ops \<Rightarrow> (bytes \<Rightarrow> string) \<Rightarrow> (outpoint \<times> tx_output) list \<Rightarrow> pv_tree \<Rightarrow> (pv_tree \<times> hash) option" where
  "calculate_verkle_root ext pc hex entries self =
     Option.bind (pv_get_root ext pc (pv_populate ext hex entries self)) (\<lambda>(self', root). Some (self', hash_from_bytes root))"

section \<open>What a generated proof contains\<close>

lemma those_map_Some: "(\<And>x. x \<in> set xs \<Longrightarrow> f x = Some (g x)) \<Longrightarrow> those (map f xs) = Some (map g xs)"
  by (induction xs) simp_all

lemma those_map_nth: "those (map f xs) = Some ys \<Longrightarrow> i < length xs \<Longrightarrow> f (xs ! i) = Some (ys ! i)"
  by (induction xs arbitrary: ys i) (auto simp: nth_Cons split: option.splits nat.splits)

lemma node_root_hash_exact:
  assumes "pv_cache_ok ext pc t" and "length path = depth" and "depth \<le> KEY_SIZE"
  shows "map_option snd (pv_compute_node_root_hash ext pc t path depth) =
      Option.bind (pv_commitment ext pc t (KEY_SIZE - depth) path) (pv_root_hash ext pc)"
    and "pv_compute_node_root_hash ext pc t path depth = Some (t', r) \<Longrightarrow> same_nodes t t' \<and> pv_cache_ok ext pc t'"
proof -
  have len: "length path + (KEY_SIZE - depth) = KEY_SIZE" using assms(2,3) by simp
  have "pv_computes ext pc (KEY_SIZE - depth) (pv_compute ext pc (KEY_SIZE - depth))" by (rule pv_compute_computes) simp
  note r = root_hash_exact [OF this assms(1) len]
  show "map_option snd (pv_compute_node_root_hash ext pc t path depth) =
      Option.bind (pv_commitment ext pc t (KEY_SIZE - depth) path) (pv_root_hash ext pc)"
    using r(1) by (simp add: pv_compute_node_root_hash_def)
  show "pv_compute_node_root_hash ext pc t path depth = Some (t', r) \<Longrightarrow> same_nodes t t' \<and> pv_cache_ok ext pc t'"
    using r(2) by (simp add: pv_compute_node_root_hash_def)
qed

text \<open>The root of child \<open>i\<close> as a proof records it.\<close>

definition pv_sibling :: "externals \<Rightarrow> pc_ops \<Rightarrow> pv_tree \<Rightarrow> bool \<Rightarrow> bytes \<Rightarrow> nat \<Rightarrow> nat \<Rightarrow> bytes option" where
  "pv_sibling ext pc t live path depth i =
     (if live \<and> pv_node_exists t (path @ [of_nat i])
      then Option.bind (pv_commitment ext pc t (KEY_SIZE - Suc depth) (path @ [of_nat i])) (pv_root_hash ext pc)
      else Some (pv_empty_roots t ! Suc depth))"

lemma pv_sibling_same: "same_nodes t t' \<Longrightarrow> pv_sibling ext pc t' live path depth i = pv_sibling ext pc t live path depth i"
  using same_nodesD [of t t'] by (simp add: pv_sibling_def same_nodes_def)

lemma pv_level_siblings_exact:
  assumes "depth < KEY_SIZE" and "live \<Longrightarrow> length path = depth"
  shows "pv_cache_ok ext pc t \<Longrightarrow> pv_level_siblings ext pc live path depth t is = Some (t', xs) \<Longrightarrow>
    same_nodes t t' \<and> pv_cache_ok ext pc t' \<and> those (map (pv_sibling ext pc t live path depth) is) = Some xs"
proof (induction "is" arbitrary: t xs)
  case (Cons i "is")
  let ?child = "path @ [of_nat i :: u8]"
  let ?step = "if live \<and> pv_node_exists t ?child then pv_compute_node_root_hash ext pc t ?child (depth + 1)
    else Some (t, pv_empty_roots t ! (depth + 1))"
  obtain t1 x ys where step: "?step = Some (t1, x)" and rest: "pv_level_siblings ext pc live path depth t1 is = Some (t', ys)" and xs: "xs = x # ys"
    using Cons.prems(2) by (auto split: Option.bind_splits)
  have one: "same_nodes t t1 \<and> pv_cache_ok ext pc t1 \<and> pv_sibling ext pc t live path depth i = Some x"
  proof (cases "live \<and> pv_node_exists t ?child")
    case True
    with step have run: "pv_compute_node_root_hash ext pc t ?child (Suc depth) = Some (t1, x)" by simp
    have len: "length ?child = Suc depth" "Suc depth \<le> KEY_SIZE" using assms True by simp_all
    show ?thesis
      using node_root_hash_exact(1) [OF Cons.prems(1) len] node_root_hash_exact(2) [OF Cons.prems(1) len run] run True
      by (simp add: pv_sibling_def)
  next
    case False
    then have "t1 = t \<and> x = pv_empty_roots t ! Suc depth" using step by auto
    then show ?thesis using False Cons.prems(1) by (auto simp: pv_sibling_def)
  qed
  then have t1: "same_nodes t t1" "pv_cache_ok ext pc t1" by simp_all
  show ?case using Cons.IH [OF t1(2) rest] one same_nodes_trans [OF t1(1)] by (auto simp: xs pv_sibling_same [OF t1(1)])
qed simp

lemma pv_child_scalars_length: "pv_child_scalars ext pc f path depth t is = Some (t', cs) \<Longrightarrow> length cs = length is"
  by (induction "is" arbitrary: t cs) (auto split: Option.bind_splits)

lemma pv_level_opening_ok:
  assumes "length path < KEY_SIZE" and "pc_laws pc" and "pv_cache_ok ext pc t"
    and "pv_level_opening ext pc t path (length path) byte = Some (t', pfs)"
  shows "same_nodes t t' \<and> pv_cache_ok ext pc t' \<and> pv_check_openings pc pfs"
proof -
  let ?n = "KEY_SIZE - Suc (length path)"
  obtain t0 c t1 h t2 cs where c: "pv_get_node_commitment ext pc t path (length path) = Some (t0, c)"
    and h: "pv_hash_node_value_at_index ext pc t0 path byte = Some (t1, h)"
    and cs: "pv_child_scalars ext pc (pv_compute ext pc ?n) path (length path) t1 [0..<VERKLE_RADIX] = Some (t2, cs)"
    and op: "(case pc_open pc (from_coefficients_vec pc cs) (from_le_bytes_mod_order pc [byte]) h of
       None \<Rightarrow> None | Some (Inl _) \<Rightarrow> Some (t2, []) | Some (Inr pf) \<Rightarrow> Some (t2, [pf])) = Some (t', pfs)"
    using assms(1,4) by (auto simp: pv_level_opening_def pv_reconstruct_node_polynomial_def split: Option.bind_splits)
  have t0: "same_nodes t t0" "pv_cache_ok ext pc t0"
    using get_node_commitment_exact(2) [OF assms(3) _ c] assms(1) by simp_all
  obtain r where "pv_compute_node_root_hash ext pc t0 (path @ [byte]) (Suc (length path)) = Some (t1, r)"
    using h by (auto simp: pv_hash_node_value_at_index_def split: Option.bind_splits)
  then have t1: "same_nodes t0 t1" "pv_cache_ok ext pc t1"
    using node_root_hash_exact(2) [OF t0(2), of "path @ [byte]" "Suc (length path)"] assms(1) by simp_all
  have n: "length path + Suc ?n = KEY_SIZE" using assms(1) by simp
  have t2: "same_nodes t1 t2" "pv_cache_ok ext pc t2"
    using pv_child_scalars_exact [OF pv_compute_computes n t1(2), of "[0..<VERKLE_RADIX]"] cs by auto
  have "t' = t2 \<and> pv_check_openings pc pfs"
    using assms(2) op pv_child_scalars_length [OF cs]
    by (fastforce simp: pv_check_openings_def pc_laws_def split: option.splits sum.splits)
  then show ?thesis using t2 same_nodes_trans [OF t0(1) same_nodes_trans [OF t1(1) t2(1)]] by simp
qed

text \<open>A key's path exists down to depth \<open>d\<close>.\<close>

definition pv_on_path :: "pv_tree \<Rightarrow> bytes \<Rightarrow> nat \<Rightarrow> bool" where
  "pv_on_path t key d \<longleftrightarrow> (\<forall>i\<le>d. pv_node_exists t (take i key))"

lemma pv_on_path_Suc: "pv_on_path t key (Suc d) \<longleftrightarrow> pv_on_path t key d \<and> pv_node_exists t (take (Suc d) key)"
  by (auto simp: pv_on_path_def le_Suc_eq)

lemma pv_on_path_same: "same_nodes t t' \<Longrightarrow> pv_on_path t' key d = pv_on_path t key d"
  by (simp add: pv_on_path_def same_nodesD)

definition pv_levels_ok :: "externals \<Rightarrow> pc_ops \<Rightarrow> pv_tree \<Rightarrow> bytes \<Rightarrow> nat \<Rightarrow> bytes list \<Rightarrow> bool" where
  "pv_levels_ok ext pc t key depth sibs \<longleftrightarrow> length sibs = depth * VERKLE_RADIX \<and>
     (\<forall>d<depth. \<forall>i<VERKLE_RADIX. pv_sibling ext pc t (pv_on_path t key d) (take d key) d i = Some (sibs ! (d * VERKLE_RADIX + i)))"

lemma pv_levels_ok_snoc:
  assumes "pv_levels_ok ext pc t key depth sibs"
    and "those (map (pv_sibling ext pc t (pv_on_path t key depth) (take depth key) depth) [0..<VERKLE_RADIX]) = Some xs"
  shows "pv_levels_ok ext pc t key (Suc depth) (sibs @ xs)"
proof -
  have len: "length xs = VERKLE_RADIX" using length_those [OF assms(2)] by simp
  have "pv_sibling ext pc t (pv_on_path t key d) (take d key) d i = Some ((sibs @ xs) ! (d * VERKLE_RADIX + i))"
    if "d < Suc depth" "i < VERKLE_RADIX" for d i
  proof (cases "d = depth")
    case True
    with assms(1) that those_map_nth [OF assms(2), of i] show ?thesis by (simp add: pv_levels_ok_def nth_append)
  next
    case False
    with that have d: "d < depth" by simp
    then have "d * VERKLE_RADIX + i < depth * VERKLE_RADIX"
      using that(2) by (metis Suc_leI add_less_cancel_left less_le_trans mult_Suc add.commute mult_le_mono1)
    with d that assms(1) show ?thesis by (simp add: pv_levels_ok_def nth_append)
  qed
  with len assms(1) show ?thesis by (simp add: pv_levels_ok_def)
qed

text \<open>The state of the generation after \<open>depth\<close> levels.\<close>

definition pv_state_ok :: "externals \<Rightarrow> pc_ops \<Rightarrow> pv_tree \<Rightarrow> bytes \<Rightarrow> nat \<Rightarrow> proof_state \<Rightarrow> bool" where
  "pv_state_ok ext pc t key depth s \<longleftrightarrow> pv_levels_ok ext pc t key depth (ps_siblings s) \<and> pv_check_openings pc (ps_openings s) \<and>
     ps_exists s = pv_on_path t key depth \<and> (ps_exists s \<longrightarrow> ps_path s = take depth key)"

lemma pv_state_ok_same: "same_nodes t t' \<Longrightarrow> pv_state_ok ext pc t' key depth s = pv_state_ok ext pc t key depth s"
  by (simp add: pv_state_ok_def pv_levels_ok_def pv_sibling_same pv_on_path_same)

lemma pv_sibling_dead: "pv_sibling ext pc t False path depth = pv_sibling ext pc t False path' depth"
  by (simp add: pv_sibling_def fun_eq_iff)

lemma pv_proof_levels_ok:
  assumes "pc_laws pc" and "length key = KEY_SIZE"
  shows "pv_cache_ok ext pc t \<Longrightarrow> depth + length bs = KEY_SIZE \<Longrightarrow> key = take depth key @ bs \<Longrightarrow>
    pv_state_ok ext pc t key depth s \<Longrightarrow> pv_proof_levels ext pc depth bs s t = Some (t', s') \<Longrightarrow>
    same_nodes t t' \<and> pv_cache_ok ext pc t' \<and> pv_state_ok ext pc t key KEY_SIZE s'"
proof (induction bs arbitrary: depth s t)
  case Nil
  then show ?case by auto
next
  case (Cons b bs)
  have d: "depth < KEY_SIZE" using Cons.prems(2) by simp
  have "(take depth key @ b # bs) ! depth = b" using d assms(2) by (simp add: nth_append)
  then have key: "take (Suc depth) key = take depth key @ [b]"
    using Cons.prems(3) d assms(2) by (simp add: take_Suc_conv_app_nth)
  have live: "(ps_exists s \<and> pv_node_exists t (ps_path s)) = pv_on_path t key depth"
    using Cons.prems(4) by (auto simp: pv_state_ok_def pv_on_path_def)
  have path: "pv_on_path t key depth \<Longrightarrow> ps_path s = take depth key" "pv_on_path t key depth \<Longrightarrow> length (ps_path s) = depth"
    using Cons.prems(4) d assms(2) by (auto simp: pv_state_ok_def)
  obtain t1 xs t2 pfs where
    sib: "pv_level_siblings ext pc (pv_on_path t key depth) (ps_path s) depth t [0..<VERKLE_RADIX] = Some (t1, xs)"
    and op: "(if pv_on_path t key depth then pv_level_opening ext pc t1 (ps_path s) depth b else Some (t1, [])) = Some (t2, pfs)"
    using Cons.prems(5) unfolding pv_proof_levels.simps Let_def live by (auto split: Option.bind_splits)
  have lvl: "same_nodes t t1" "pv_cache_ok ext pc t1"
    "those (map (pv_sibling ext pc t (pv_on_path t key depth) (ps_path s) depth) [0..<VERKLE_RADIX]) = Some xs"
    using pv_level_siblings_exact [OF d path(2) Cons.prems(1) sib] by simp_all
  have xs: "those (map (pv_sibling ext pc t (pv_on_path t key depth) (take depth key) depth) [0..<VERKLE_RADIX]) = Some xs"
    using lvl(3) path(1) pv_sibling_dead [of ext pc t "ps_path s" depth "take depth key"] by (cases "pv_on_path t key depth") simp_all
  have t2: "same_nodes t1 t2" "pv_cache_ok ext pc t2" "pv_check_openings pc pfs"
    using op path(2) d pv_level_opening_ok [OF _ assms(1) lvl(2), of "ps_path s" b t2 pfs] lvl(2)
    by (auto simp: pv_check_openings_def split: if_splits)
  have same: "same_nodes t t2" by (rule same_nodes_trans [OF lvl(1) t2(1)])
  define s2 where "s2 = (let s1 = s\<lparr>ps_siblings := ps_siblings s @ xs, ps_openings := ps_openings s @ pfs\<rparr>
    in if ps_exists s then s1\<lparr>ps_path := ps_path s @ [b], ps_exists := pv_node_exists t2 (ps_path s @ [b])\<rparr> else s1)"
  have run: "pv_proof_levels ext pc (Suc depth) bs s2 t2 = Some (t', s')"
    using Cons.prems(5) sib op unfolding pv_proof_levels.simps Let_def live by (simp add: s2_def Let_def)
  have "pv_state_ok ext pc t key (Suc depth) s2"
    using Cons.prems(4) pv_levels_ok_snoc [OF _ xs] t2(3) key same_nodesD(2) [OF same]
    by (auto simp: pv_state_ok_def s2_def Let_def pv_on_path_Suc pv_check_openings_def)
  then have ok2: "pv_state_ok ext pc t2 key (Suc depth) s2" by (simp add: pv_state_ok_same [OF same])
  have key2: "key = take (Suc depth) key @ bs" using Cons.prems(3) key by simp
  from Cons.IH [OF t2(2) _ key2 ok2 run] Cons.prems(2) same_nodes_trans [OF same]
  show ?case by (simp add: pv_state_ok_same [OF same])
qed

section \<open>Recomputing the root\<close>

definition pv_tables :: "externals \<Rightarrow> pc_ops \<Rightarrow> pv_tree \<Rightarrow> bool" where
  "pv_tables ext pc t \<longleftrightarrow> (\<exists>ls. pv_empty_levels ext pc KEY_SIZE = Some ls \<and> pv_empty_roots t = map fst ls \<and> pv_empty_scalars t = map snd ls)"

definition pv_coeffs_root :: "externals \<Rightarrow> pc_ops \<Rightarrow> scalar list \<Rightarrow> bytes option" where
  "pv_coeffs_root ext pc cs = Option.bind (pv_commit pc cs) (pv_root_hash ext pc)"

lemma pv_empty_levels_spec:
  "pv_empty_levels ext pc n = Some ls \<Longrightarrow>
   length ls = Suc n \<and> (\<forall>i\<le>n. snd (ls ! i) = from_le_bytes_mod_order pc (fst (ls ! i))) \<and>
   (\<forall>i<n. pv_coeffs_root ext pc (replicate VERKLE_RADIX (snd (ls ! Suc i))) = Some (fst (ls ! i))) \<and>
   pv_coeffs_root ext pc [] = Some (fst (ls ! n))"
proof (induction n arbitrary: ls)
  case 0
  then show ?case by (auto simp: pv_coeffs_root_def split: Option.bind_splits)
next
  case (Suc n)
  obtain ls' root where ls': "pv_empty_levels ext pc n = Some ls'" and ls: "ls = (root, from_le_bytes_mod_order pc root) # ls'"
    and root: "pv_coeffs_root ext pc (replicate VERKLE_RADIX (snd (hd ls'))) = Some root"
    using Suc.prems by (auto simp: pv_coeffs_root_def split: Option.bind_splits)
  note IH = Suc.IH [OF ls']
  then have "hd ls' = ls' ! 0" by (cases ls') auto
  with IH ls root show ?case by (auto simp: nth_Cons split: nat.splits)
qed

lemma pv_table_facts:
  assumes "pv_tables ext pc t"
  shows "d \<le> KEY_SIZE \<Longrightarrow> pv_empty_scalars t ! d = from_le_bytes_mod_order pc (pv_empty_roots t ! d)"
    and "d < KEY_SIZE \<Longrightarrow> pv_coeffs_root ext pc (replicate VERKLE_RADIX (pv_empty_scalars t ! Suc d)) = Some (pv_empty_roots t ! d)"
    and "pv_coeffs_root ext pc [] = Some (pv_empty_roots t ! KEY_SIZE)"
proof -
  obtain ls where "pv_empty_levels ext pc KEY_SIZE = Some ls" "pv_empty_roots t = map fst ls" "pv_empty_scalars t = map snd ls"
    using assms by (auto simp: pv_tables_def)
  with pv_empty_levels_spec [of ext pc KEY_SIZE ls]
  show "d \<le> KEY_SIZE \<Longrightarrow> pv_empty_scalars t ! d = from_le_bytes_mod_order pc (pv_empty_roots t ! d)"
    and "d < KEY_SIZE \<Longrightarrow> pv_coeffs_root ext pc (replicate VERKLE_RADIX (pv_empty_scalars t ! Suc d)) = Some (pv_empty_roots t ! d)"
    and "pv_coeffs_root ext pc [] = Some (pv_empty_roots t ! KEY_SIZE)"
    by auto
qed

text \<open>The root of the subtree on a key's path at depth \<open>d\<close>: of the node there, or of an empty subtree when the path has left the tree.\<close>

definition pv_path_root :: "externals \<Rightarrow> pc_ops \<Rightarrow> pv_tree \<Rightarrow> bytes \<Rightarrow> nat \<Rightarrow> bytes option" where
  "pv_path_root ext pc t key d =
     (if pv_on_path t key d then Option.bind (pv_commitment ext pc t (KEY_SIZE - d) (take d key)) (pv_root_hash ext pc)
      else Some (pv_empty_roots t ! d))"

lemma pv_path_root_total: "pc_laws pc \<Longrightarrow> \<exists>r. pv_path_root ext pc t key d = Some r"
  using pv_commitment_total [of pc ext t "KEY_SIZE - d" "take d key"] pc_laws_total(2) [of pc ext] by (auto simp: pv_path_root_def)

lemma pv_level_recomputes:
  assumes tab: "pv_tables ext pc t" and key: "length key = KEY_SIZE" and d: "d < KEY_SIZE" and rec: "pv_recorded t (take d key) = None"
    and sibs: "pv_levels_ok ext pc t key KEY_SIZE (pp_siblings p)" and path: "pp_path p = key"
    and below: "pv_path_root ext pc t key (Suc d) = Some r'"
  shows "pv_coeffs_root ext pc (pv_level_coeffs pc p d (from_le_bytes_mod_order pc r')) = pv_path_root ext pc t key d"
proof -
  let ?n = "KEY_SIZE - Suc d"
  let ?cur = "from_le_bytes_mod_order pc r'"
  have n: "KEY_SIZE - d = Suc ?n" "KEY_SIZE - ?n = Suc d" using d by simp_all
  have sib: "pv_sibling ext pc t (pv_on_path t key d) (take d key) d i = Some (pp_siblings p ! (d * VERKLE_RADIX + i))"
    if "i < VERKLE_RADIX" for i using sibs d that by (simp add: pv_levels_ok_def)
  have nxt: "take (Suc d) key = take d key @ [key ! d]" using d key by (simp add: take_Suc_conv_app_nth)
  have sc: "pv_empty_scalars t ! Suc d = from_le_bytes_mod_order pc (pv_empty_roots t ! Suc d)"
    using pv_table_facts(1) [OF tab] d by simp
  show ?thesis
  proof (cases "pv_on_path t key d")
    case True
    have "child_value ext pc t (Suc d) (pv_commitment ext pc t ?n (take d key @ [of_nat i])) (take d key @ [of_nat i]) =
        Some (if i = unat (pp_path p ! d) then ?cur else from_le_bytes_mod_order pc (pp_siblings p ! (d * VERKLE_RADIX + i)))"
      if i: "i \<in> set [0..<VERKLE_RADIX]" for i
    proof (cases "i = unat (key ! d)")
      case eq: True
      then have "take d key @ [of_nat i] = take (Suc d) key" using nxt by simp
      with eq below True sc show ?thesis by (auto simp: path child_value_def pv_path_root_def pv_on_path_Suc split: if_splits)
    next
      case False
      with sib [of i] i True sc show ?thesis by (auto simp: path child_value_def pv_sibling_def split: if_splits)
    qed
    then have "those (map (\<lambda>i. child_value ext pc t (Suc d) (pv_commitment ext pc t ?n (take d key @ [of_nat i])) (take d key @ [of_nat i]))
        [0..<VERKLE_RADIX]) = Some (pv_level_coeffs pc p d ?cur)"
      unfolding pv_level_coeffs_def by (rule those_map_Some)
    then have "pv_commitment ext pc t (Suc ?n) (take d key) = pv_commit pc (pv_level_coeffs pc p d ?cur)"
      using rec by (simp add: n(2))
    then show ?thesis using True unfolding pv_path_root_def n(1) pv_coeffs_root_def by simp
  next
    case False
    then have "r' = pv_empty_roots t ! Suc d" using below by (simp add: pv_path_root_def pv_on_path_Suc)
    then have "pv_level_coeffs pc p d ?cur = map (\<lambda>i. pv_empty_scalars t ! Suc d) [0..<VERKLE_RADIX]"
      using sib False by (auto simp: pv_level_coeffs_def pv_sibling_def sc)
    then have "pv_level_coeffs pc p d ?cur = replicate VERKLE_RADIX (pv_empty_scalars t ! Suc d)" by (simp add: map_replicate_const)
    then show ?thesis using pv_table_facts(2) [OF tab d] False by (simp add: pv_path_root_def)
  qed
qed

lemma pv_recompute_root_ok:
  assumes "pv_tables ext pc t" and "length key = KEY_SIZE" and "pc_laws pc" and "\<And>d. pv_recorded t (take d key) = None"
    and "pv_levels_ok ext pc t key KEY_SIZE (pp_siblings p)" and "pp_path p = key"
  shows "d \<le> KEY_SIZE \<Longrightarrow> pv_path_root ext pc t key d = Some r \<Longrightarrow> pv_path_root ext pc t key 0 = Some r0 \<Longrightarrow> (d = 0 \<longrightarrow> c = r0) \<Longrightarrow>
    pv_recompute_root ext pc p d (from_le_bytes_mod_order pc r) c = Some (Some r0)"
proof (induction d arbitrary: r c)
  case 0
  then show ?case by simp
next
  case (Suc d)
  have d: "d < KEY_SIZE" using Suc.prems(1) by simp
  obtain r' where r': "pv_path_root ext pc t key d = Some r'" using pv_path_root_total [OF assms(3)] by blast
  obtain k where "pv_commit pc (pv_level_coeffs pc p d (from_le_bytes_mod_order pc r)) = Some k" "pv_root_hash ext pc k = Some r'"
    using pv_level_recomputes [OF assms(1,2) d assms(4,5,6) Suc.prems(2)] r' by (auto simp: pv_coeffs_root_def split: Option.bind_splits)
  moreover have "pv_recompute_root ext pc p d (from_le_bytes_mod_order pc r') r' = Some (Some r0)"
    using Suc.IH [OF _ r' Suc.prems(3)] d r' Suc.prems(3) by (cases d) auto
  ultimately show ?case by simp
qed

section \<open>Honest proofs are accepted\<close>

lemma pv_get_root_frame:
  assumes "pv_ok ext pc t" and "pv_get_root ext pc t = Some (t', r)"
  shows "pv_storage t' = pv_storage t \<and> pv_empty_roots t' = pv_empty_roots t \<and> pv_empty_scalars t' = pv_empty_scalars t \<and>
    pv_pruned_keys t' = pv_pruned_keys t \<and> pv_pruned_commitments t' = pv_pruned_commitments t"
proof (cases "pv_root_cache t")
  case None
  obtain t1 where "pv_compute_node_root_hash ext pc t [] 0 = Some (t1, r)" "t' = t1\<lparr>pv_root_cache := Some r\<rparr>"
    using assms(2) None by (auto simp: pv_get_root_def split: Option.bind_splits)
  moreover from this(1) have "same_nodes t t1" using node_root_hash_exact(2) [of ext pc t "[]" 0 t1 r] assms(1) by (simp add: pv_ok_def)
  ultimately show ?thesis by (simp add: same_nodes_def)
next
  case (Some x)
  then show ?thesis using assms(2) by (auto simp: pv_get_root_def)
qed

lemma pv_generate_proof_ok:
  assumes laws: "pc_laws pc" and ok: "pv_ok ext pc t" and key: "length key = KEY_SIZE" and root: "pv_node_exists t []"
    and run: "pv_generate_proof ext pc t key = Some (t', p)"
  shows "pv_ok ext pc t'" and "pv_root ext pc t' = pv_root ext pc t"
    and "pv_storage t' = pv_storage t \<and> pv_empty_roots t' = pv_empty_roots t \<and> pv_empty_scalars t' = pv_empty_scalars t \<and>
      pv_pruned_keys t' = pv_pruned_keys t \<and> pv_pruned_commitments t' = pv_pruned_commitments t"
    and "pv_levels_ok ext pc t key KEY_SIZE (pp_siblings p)" and "pv_check_openings pc (pp_opening_proofs p)" and "pp_path p = key"
    and "pv_root ext pc t = Some (pp_root p)"
    and "pp_leaf_value p = (if pv_on_path t key KEY_SIZE then pv_get_node_value t key else None)"
    and "pp_type p = (if pp_leaf_value p \<noteq> None then Membership else NonMembership)"
proof -
  let ?s0 = "\<lparr>ps_siblings = [], ps_openings = [], ps_path = [], ps_exists = True\<rparr>"
  obtain t1 s r where lv: "pv_proof_levels ext pc 0 key ?s0 t = Some (t1, s)" and gr: "pv_get_root ext pc t1 = Some (t', r)"
    and p: "p = \<lparr>pp_type = (if (if ps_exists s then pv_get_node_value t1 (ps_path s) else None) \<noteq> None then Membership else NonMembership),
      pp_path = key, pp_siblings = ps_siblings s, pp_leaf_value = (if ps_exists s then pv_get_node_value t1 (ps_path s) else None),
      pp_root = r, pp_opening_proofs = ps_openings s\<rparr>"
    using run key by (auto simp: pv_generate_proof_def Let_def split: Option.bind_splits)
  have s0: "pv_state_ok ext pc t key 0 ?s0"
    using root by (simp add: pv_state_ok_def pv_levels_ok_def pv_check_openings_def pv_on_path_def)
  have c: "pv_cache_ok ext pc t" using ok by (simp add: pv_ok_def)
  have st: "same_nodes t t1" "pv_cache_ok ext pc t1" "pv_state_ok ext pc t key KEY_SIZE s"
    using pv_proof_levels_ok [OF laws key c _ _ s0 lv] key by simp_all
  have ok1: "pv_ok ext pc t1" using ok st(1,2) same_nodesD(7) [OF st(1)] by (simp add: pv_ok_def same_nodes_def)
  show "pv_ok ext pc t'" "pv_root ext pc t' = pv_root ext pc t"
    using pv_get_root_exact(2) [OF ok1 gr] same_nodesD(7) [OF st(1)] by simp_all
  show "pv_storage t' = pv_storage t \<and> pv_empty_roots t' = pv_empty_roots t \<and> pv_empty_scalars t' = pv_empty_scalars t \<and>
      pv_pruned_keys t' = pv_pruned_keys t \<and> pv_pruned_commitments t' = pv_pruned_commitments t"
    using pv_get_root_frame [OF ok1 gr] st(1) by (simp add: same_nodes_def)
  show "pv_root ext pc t = Some (pp_root p)"
    using pv_get_root_exact(1) [OF ok1] gr same_nodesD(7) [OF st(1)] by (simp add: p)
  show "pv_levels_ok ext pc t key KEY_SIZE (pp_siblings p)" "pv_check_openings pc (pp_opening_proofs p)" "pp_path p = key"
    "pp_type p = (if pp_leaf_value p \<noteq> None then Membership else NonMembership)"
    using st(3) by (simp_all add: pv_state_ok_def p)
  show "pp_leaf_value p = (if pv_on_path t key KEY_SIZE then pv_get_node_value t key else None)"
    using st(3) key same_nodesD(4) [OF st(1)] by (auto simp: pv_state_ok_def p)
qed

text \<open>The leaf a verifier starts from is the one the tree has.\<close>

lemma pv_leaf_scalar_ok:
  assumes "pc_laws pc" and "pv_tables ext pc t" and "length key = KEY_SIZE" and "pv_recorded t key = None"
    and "pp_leaf_value p = (if pv_on_path t key KEY_SIZE then pv_get_node_value t key else None)"
    and "pp_type p = (if pp_leaf_value p \<noteq> None then Membership else NonMembership)"
    and "pv_path_root ext pc t key KEY_SIZE = Some r" and "pv_empty_roots t' = pv_empty_roots t"
  shows "pv_leaf_scalar ext pc t' p = Some (Some (from_le_bytes_mod_order pc r))"
proof (cases "pp_leaf_value p")
  case None
  have "r = pv_empty_roots t ! KEY_SIZE"
  proof (cases "pv_on_path t key KEY_SIZE")
    case True
    then have "pv_coeffs_root ext pc [scalar_zero pc] = Some r"
      using assms(3-5,7) None by (simp add: pv_path_root_def pv_coeffs_root_def leaf_scalar_def)
    moreover have "pv_coeffs_root ext pc [scalar_zero pc] = pv_coeffs_root ext pc []"
      using assms(1) by (simp add: pc_laws_def pv_coeffs_root_def pv_commit_def)
    ultimately show ?thesis using pv_table_facts(3) [OF assms(2)] by simp
  qed (use assms(7) in \<open>simp add: pv_path_root_def\<close>)
  then show ?thesis using None assms(6,8) by (simp add: pv_leaf_scalar_def)
next
  case (Some v)
  then have "pv_on_path t key KEY_SIZE" "pv_get_node_value t key = Some v" using assms(5) by (auto split: if_splits)
  then have "Option.bind (pv_commit pc [value_to_scalar ext pc v]) (pv_root_hash ext pc) = Some r"
    using assms(3,4,7) by (simp add: pv_path_root_def leaf_scalar_def)
  then show ?thesis using Some assms(6) by (auto simp: pv_leaf_scalar_def split: Option.bind_splits)
qed

lemma pv_honest_proof_accepted:
  assumes "pc_laws pc" and "pv_ok ext pc t" and "pv_tables ext pc t" and "length key = KEY_SIZE" and "pv_node_exists t []"
    and "\<And>d. pv_recorded t (take d key) = None" and "pv_generate_proof ext pc t key = Some (t', p)"
  shows "pv_verify_proof ext pc t' p = Some True"
proof -
  note g = pv_generate_proof_ok [OF assms(1,2,4,5,7)]
  obtain r where r: "pv_path_root ext pc t key KEY_SIZE = Some r" using pv_path_root_total [OF assms(1)] by blast
  have "pv_path_root ext pc t key 0 = Some (pp_root p)"
    using g(7) assms(5) by (simp add: pv_path_root_def pv_on_path_def pv_root_def)
  then have "pv_recompute_root ext pc p KEY_SIZE (from_le_bytes_mod_order pc r) (replicate 32 0) = Some (Some (pp_root p))"
    by (intro pv_recompute_root_ok [OF assms(3,4,1,6) g(4,6)] r) (simp_all add: KEY_SIZE_def)
  moreover have "pv_leaf_scalar ext pc t' p = Some (Some (from_le_bytes_mod_order pc r))"
    using assms(6) [of KEY_SIZE] assms(4) g(3) by (intro pv_leaf_scalar_ok [OF assms(1,3,4) _ g(8,9) r]) simp_all
  moreover have "length (pp_siblings p) = KEY_SIZE * VERKLE_RADIX" using g(4) by (simp add: pv_levels_ok_def)
  ultimately show ?thesis using g(5,6,9) assms(4) by (simp add: pv_verify_proof_def)
qed

section \<open>Runs of the tree\<close>

inductive pv_step :: "externals \<Rightarrow> pc_ops \<Rightarrow> pv_tree \<Rightarrow> pv_tree \<Rightarrow> bool" for ext pc where
  insert: "length key = KEY_SIZE \<Longrightarrow> pv_step ext pc t (pv_insert t key v)"
| prune: "length key = KEY_SIZE \<Longrightarrow> pv_prune_key ext pc t key = Some (t', r) \<Longrightarrow> pv_step ext pc t t'"
| root: "pv_get_root ext pc t = Some (t', r) \<Longrightarrow> pv_step ext pc t t'"
| prove: "length key = KEY_SIZE \<Longrightarrow> pv_generate_proof ext pc t key = Some (t', p) \<Longrightarrow> pv_step ext pc t t'"

definition pv_live :: "externals \<Rightarrow> pc_ops \<Rightarrow> pv_tree \<Rightarrow> bool" where
  "pv_live ext pc t \<longleftrightarrow> pv_ok ext pc t \<and> pv_tables ext pc t \<and> pv_node_exists t []"

lemma pv_live_frame:
  assumes "pv_live ext pc t" and "pv_ok ext pc t'" and "pv_storage t' = pv_storage t" and "pv_empty_roots t' = pv_empty_roots t"
    and "pv_empty_scalars t' = pv_empty_scalars t"
  shows "pv_live ext pc t'"
  using assms by (simp add: pv_live_def pv_tables_def pv_node_exists_def)

lemma record_path_roots: "pv_cache_ok ext pc t \<Longrightarrow> \<forall>p \<in> set ps. length p \<le> KEY_SIZE \<Longrightarrow> record_path ext pc t ps = Some t' \<Longrightarrow>
    pv_empty_roots t' = pv_empty_roots t"
  using record_path_exact [of ext pc t ps t'] by (simp add: records_own_def)

lemma pv_live_prune:
  assumes "pv_live ext pc t" and "length key = KEY_SIZE" and "pv_prune_key ext pc t key = Some (t', r)"
  shows "pv_live ext pc t'"
proof -
  have ok: "pv_ok ext pc t" using assms(1) by (simp add: pv_live_def)
  show ?thesis
  proof (cases "r = Inr ()")
    case True
    note p = pv_prune_key_ok [OF ok assms(2) assms(3) [unfolded True]]
    have len: "\<forall>p \<in> set (prefixes_of key). length p \<le> KEY_SIZE" using assms(2) by (auto simp: set_prefixes_of)
    have "pv_empty_roots t' = pv_empty_roots t"
      using pv_prune_key_cases [OF ok assms(2,3)] record_path_roots [OF _ len] ok True by (auto simp: pv_ok_def)
    moreover have "key \<noteq> []" using assms(2) by (auto simp: KEY_SIZE_def)
    ultimately show ?thesis using assms(1) p by (simp add: pv_live_def pv_tables_def pv_node_exists_iff)
  qed (use pv_prune_key_cases [OF ok assms(2,3)] assms(1) in auto)
qed

lemma pv_live_step:
  assumes "pc_laws pc" and "pv_step ext pc t t'" and "pv_live ext pc t"
  shows "pv_live ext pc t'"
  using assms(2,3)
proof (induction rule: pv_step.induct)
  case (insert key t v)
  then show ?case
    using pv_ok_insert [of ext pc t key v] by (auto simp: pv_live_def pv_tables_def pv_node_exists_iff pv_insert_at(1))
next
  case (prune key t t' r)
  then show ?case using pv_live_prune by blast
next
  case (root t t' r)
  then have ok: "pv_ok ext pc t" by (simp add: pv_live_def)
  show ?case
    using pv_live_frame [OF root(2)] pv_get_root_exact(2) [OF ok root(1)] pv_get_root_frame [OF ok root(1)] by blast
next
  case (prove key t t' p)
  then have ok: "pv_ok ext pc t" "pv_node_exists t []" by (simp_all add: pv_live_def)
  note g = pv_generate_proof_ok [OF assms(1) ok(1) prove(1) ok(2) prove(2)]
  show ?case using pv_live_frame [OF prove(3) g(1)] g(3) by blast
qed

lemma pv_live_reachable:
  assumes "pc_laws pc" and "pv_new ext pc st = Some t0" and "(pv_step ext pc)\<^sup>*\<^sup>* t0 t"
  shows "pv_live ext pc t"
  using assms(3)
proof (induction rule: rtranclp_induct)
  case base
  from assms(2) pv_new_ok [OF assms(2)] show ?case
    by (auto simp: pv_live_def pv_tables_def pv_new_def pv_node_exists_iff pv_node_at_ensure split: Option.bind_splits)
qed (rule pv_live_step [OF assms(1)])

section \<open>Main results\<close>

text \<open>In every state a run reaches, the root that is served from the caches is the root of the stored nodes and the recorded
  commitments.\<close>

theorem pv_root_is_cache_free:
  assumes "pc_laws pc" and "pv_new ext pc st = Some t0" and "(pv_step ext pc)\<^sup>*\<^sup>* t0 t"
  shows "map_option snd (pv_get_root ext pc t) = pv_root ext pc t \<and> pv_root ext pc t \<noteq> None"
  using pv_get_root_exact(1) pv_live_reachable [OF assms] pv_root_total [OF assms(1)] by (simp add: pv_live_def)

text \<open>C40: Pruning of the stand-alone tree: in every state a run of insertions, prunings, root queries and proofs reaches, pruning a
  stored key succeeds, keeps the root the tree reports, makes the key unreadable with the error for pruned data, leaves what
  every other key reads, and can be undone by inserting the key again.\<close>

theorem pruning_keeps_the_root:
  assumes "pc_laws pc" and "pv_new ext pc st = Some t0" and "(pv_step ext pc)\<^sup>*\<^sup>* t0 t"
    and "length key = KEY_SIZE" and "pv_node_exists t key"
  shows "\<exists>t'. pv_prune_key ext pc t key = Some (t', Inr ()) \<and>
    map_option snd (pv_get_root ext pc t') = map_option snd (pv_get_root ext pc t) \<and>
    pv_get t' key = Inl (PrunedData ''Key has been pruned'') \<and>
    (\<forall>k. length k = KEY_SIZE \<and> k \<noteq> key \<longrightarrow> pv_get t' k = pv_get t k) \<and>
    (\<forall>v. length v < 2 ^ 32 \<longrightarrow> pv_get (pv_insert t' key v) key = Inr (Some v))"
proof -
  have ok: "pv_ok ext pc t" using pv_live_reachable [OF assms(1-3)] by (simp add: pv_live_def)
  obtain t' where run: "pv_prune_key ext pc t key = Some (t', Inr ())" using pv_prune_key_total [OF assms(1) ok assms(4,5)] by blast
  note p = pv_prune_key_ok(1,2) [OF ok assms(4) run]
  have "pv_root ext pc t' = pv_root ext pc t" by (simp add: pv_root_def p(2))
  then have "map_option snd (pv_get_root ext pc t') = map_option snd (pv_get_root ext pc t)"
    using pv_get_root_exact(1) [OF ok] pv_get_root_exact(1) [OF p(1)] by simp
  then show ?thesis
    using run pv_get_prune [OF ok assms(4) run] pv_get_insert [OF assms(4,4)] assms(4) by (intro exI [of _ t']) simp
qed

text \<open>A later insertion under the same parent drops what the pruned leaf contributed: the parent is recomputed with the empty
  leaf in its place.\<close>

theorem pruned_leaf_lost_by_sibling:
  assumes "pv_ok ext pc t" and "length key = KEY_SIZE" and "pv_prune_key ext pc t key = Some (t', Inr ())"
    and "length k = KEY_SIZE" and "k \<noteq> key" and "take 31 k = take 31 key"
  shows "pv_recorded (pv_insert t' k v) (take 31 key) = None \<and>
    child_value ext pc (pv_insert t' k v) KEY_SIZE r key = Some (pv_empty_scalars t ! KEY_SIZE)"
proof -
  have pre: "take 31 key \<in> set (prefixes_of k)" using take_in_prefixes [of 31 k] assms(6) by simp
  have "key \<notin> set (prefixes_of k)" using assms(2,4,5) by (auto simp: set_prefixes_of)
  then have "\<not> pv_node_exists (pv_insert t' k v) key"
    using pv_prune_key_ok(3) [OF assms(1-3)] assms(5) by (auto simp: pv_node_exists_iff pv_insert_at [OF assms(4)])
  then show ?thesis using pre pv_prune_key_ok(5) [OF assms(1-3)] by (simp add: child_value_def pv_insert_at [OF assms(4)])
qed

text \<open>Under any other parent, the recorded commitment below the fork keeps it.\<close>

theorem pruned_leaf_kept_by_others:
  assumes "pv_ok ext pc t" and "length key = KEY_SIZE" and "pv_prune_key ext pc t key = Some (t', Inr ())"
    and "length k = KEY_SIZE" and "take d k \<noteq> take d key" and "d \<le> KEY_SIZE"
  shows "pv_commitment ext pc (pv_insert t' k v) (KEY_SIZE - d) (take d key) = pv_commitment ext pc t (KEY_SIZE - d) (take d key)"
proof -
  have "take d key \<notin> set (prefixes_of k)"
  proof
    assume "take d key \<in> set (prefixes_of k)"
    then obtain r where "k = take d key @ r" by (auto simp: set_prefixes_of)
    then have "take d k = take d key" using assms(2,6) by (metis append_eq_conv_conj length_take min.absorb2)
    with assms(5) show False by simp
  qed
  then show ?thesis
    using pv_insert_off_path [OF assms(4)] pv_prune_key_ok(2) [OF assms(1-3), of "take d key" "KEY_SIZE - d"] assms(2,6) by simp
qed

text \<open>Honest proofs of the stand-alone tree: in a reachable state in which no commitment is recorded along the path of a key, a
  proof the tree generates for the key, of membership or of absence, is accepted, carries the tree's root and the value the
  tree holds, and leaves the root unchanged.\<close>

theorem honest_proofs_verify:
  assumes "pc_laws pc" and "pv_new ext pc st = Some t0" and "(pv_step ext pc)\<^sup>*\<^sup>* t0 t" and "length key = KEY_SIZE"
    and "\<forall>d. pv_recorded t (take d key) = None" and "pv_generate_proof ext pc t key = Some (t', p)"
  shows "pv_verify_proof ext pc t' p = Some True \<and> pv_root ext pc t = Some (pp_root p) \<and> pv_root ext pc t' = pv_root ext pc t \<and>
    (pp_leaf_value p \<noteq> None \<longrightarrow> pp_leaf_value p = pv_get_node_value t key) \<and>
    (pp_leaf_value p = None \<longleftrightarrow> pp_type p = NonMembership)"
proof -
  have live: "pv_ok ext pc t" "pv_tables ext pc t" "pv_node_exists t []" using pv_live_reachable [OF assms(1-3)] by (simp_all add: pv_live_def)
  note g = pv_generate_proof_ok [OF assms(1) live(1) assms(4) live(3) assms(6)]
  have "pv_verify_proof ext pc t' p = Some True"
    using assms(5) by (intro pv_honest_proof_accepted [OF assms(1) live(1,2) assms(4) live(3) _ assms(6)]) simp
  then show ?thesis using g(2,7,8,9) by simp
qed

section \<open>The root of a set of outputs\<close>

lemma pv_clear_ok: "pv_ok ext pc (pv_clear t)"
  by (simp add: pv_ok_def pv_cache_ok_def pv_clear_def pv_cached_def)

lemma pv_clear_at [simp]:
  "pv_node_at (pv_clear t) q = None" "pv_recorded (pv_clear t) q = None" "pv_pruned_keys (pv_clear t) = {||}"
  "pv_empty_scalars (pv_clear t) = pv_empty_scalars t"
  by (simp_all add: pv_clear_def pv_node_at_def pv_recorded_def memory.get_clear)

definition pv_inserts :: "(bytes \<times> bytes) list \<Rightarrow> pv_tree \<Rightarrow> pv_tree" where
  "pv_inserts = fold (\<lambda>(k, v) t. pv_insert t k v)"

lemma pv_inserts_simps [simp]: "pv_inserts [] t = t" "pv_inserts ((k, v) # kvs) t = pv_inserts kvs (pv_insert t k v)"
  by (simp_all add: pv_inserts_def)

lemma pv_inserts_ok:
  "\<forall>kv \<in> set kvs. length (fst kv) = KEY_SIZE \<Longrightarrow> pv_ok ext pc t \<Longrightarrow> pv_ok ext pc (pv_inserts kvs t)"
  by (induction kvs arbitrary: t) (auto simp: pv_ok_insert)

lemma pv_inserts_frame:
  "\<forall>kv \<in> set kvs. length (fst kv) = KEY_SIZE \<Longrightarrow> \<forall>q. pv_recorded t q = None \<Longrightarrow> pv_pruned_keys t = {||} \<Longrightarrow>
   (\<forall>q. pv_recorded (pv_inserts kvs t) q = None) \<and> pv_pruned_keys (pv_inserts kvs t) = {||} \<and>
   pv_empty_scalars (pv_inserts kvs t) = pv_empty_scalars t"
proof (induction kvs arbitrary: t)
  case (Cons kv kvs)
  then show ?case using Cons.IH [of "pv_insert t (fst kv) (snd kv)"] by (cases kv) (simp add: pv_insert_at)
qed simp

lemma pv_node_at_inserts:
  "\<forall>kv \<in> set kvs. length (fst kv) = KEY_SIZE \<Longrightarrow> distinct (map fst kvs) \<Longrightarrow>
   pv_node_at (pv_inserts kvs t) q = (case map_of kvs q of Some v \<Rightarrow> Some (serialize_node (Some v))
     | None \<Rightarrow> if (\<exists>k \<in> fst ` set kvs. q \<in> set (prefixes_of k)) \<and> pv_node_at t q = None then Some (serialize_node None) else pv_node_at t q)"
proof (induction kvs arbitrary: t)
  case (Cons kv kvs)
  obtain k v where kv: "kv = (k, v)" by fastforce
  have len: "length k = KEY_SIZE" using Cons.prems by (simp add: kv)
  have "map_of kvs k = None" using Cons.prems by (auto simp: kv map_of_eq_None_iff)
  then show ?case using Cons by (auto simp: kv pv_insert_at [OF len] split: option.splits)
qed simp

definition utxo_pairs :: "externals \<Rightarrow> (bytes \<Rightarrow> string) \<Rightarrow> (outpoint \<times> tx_output) list \<Rightarrow> (bytes \<times> bytes) list" where
  "utxo_pairs ext hex entries = map (\<lambda>(op, out). (verkle_utxo_key ext hex op out, to_le_bytes 8 (out_value out))) entries"

lemma pv_populate_pairs:
  assumes "digest32 ext"
  shows "pv_populate ext hex entries t = pv_inserts (utxo_pairs ext hex entries) (pv_clear t)"
    and "\<forall>kv \<in> set (utxo_pairs ext hex entries). length (fst kv) = KEY_SIZE"
proof -
  have len: "length (verkle_utxo_key ext hex op out) = KEY_SIZE" for op out
    using assms by (simp add: verkle_utxo_key_def digest32_def KEY_SIZE_def)
  show "pv_populate ext hex entries t = pv_inserts (utxo_pairs ext hex entries) (pv_clear t)"
    by (simp add: pv_populate_def pv_inserts_def utxo_pairs_def fold_map comp_def split_def len)
  show "\<forall>kv \<in> set (utxo_pairs ext hex entries). length (fst kv) = KEY_SIZE" by (auto simp: utxo_pairs_def len)
qed

lemma calculate_verkle_root_exact:
  assumes "digest32 ext"
  shows "map_option snd (calculate_verkle_root ext pc hex entries t) =
    map_option hash_from_bytes (pv_root ext pc (pv_populate ext hex entries t))"
proof -
  have "pv_ok ext pc (pv_populate ext hex entries t)"
    unfolding pv_populate_pairs(1) [OF assms] by (rule pv_inserts_ok [OF pv_populate_pairs(2) [OF assms] pv_clear_ok])
  from pv_get_root_exact(1) [OF this, symmetric] show ?thesis
    by (auto simp: calculate_verkle_root_def option.map_comp comp_def case_prod_beta split: Option.bind_split)
qed

text \<open>When the derived keys differ, the root is a function of the set of outputs: neither the earlier content of the tree nor the
  iteration order of the hash map matters.\<close>

theorem utxo_root_independent_of_order:
  assumes "digest32 ext" and "distinct (map fst (utxo_pairs ext hex entries))" and "mset entries = mset entries'"
    and "pv_empty_scalars t' = pv_empty_scalars t"
  shows "map_option snd (calculate_verkle_root ext pc hex entries t) = map_option snd (calculate_verkle_root ext pc hex entries' t')"
proof -
  let ?kvs = "utxo_pairs ext hex entries" and ?kvs' = "utxo_pairs ext hex entries'"
  have m: "mset ?kvs' = mset ?kvs" using assms(3) by (simp add: utxo_pairs_def)
  then have s: "set ?kvs' = set ?kvs" and d: "distinct (map fst ?kvs')"
    using assms(2) by (metis set_mset_mset, metis mset_map distinct_count_atmost_1 set_mset_mset mset_eq_imp_distinct_iff)
  have "map_of ?kvs' = map_of ?kvs" by (rule map_of_inject_set [THEN iffD2, OF d assms(2) s])
  note at = pv_node_at_inserts [OF pv_populate_pairs(2) [OF assms(1)]]
  have "pv_node_at (pv_populate ext hex entries' t') q = pv_node_at (pv_populate ext hex entries t) q" for q
    unfolding pv_populate_pairs(1) [OF assms(1)] at [OF assms(2)] at [OF d] \<open>map_of ?kvs' = map_of ?kvs\<close> s
    by (simp split: option.split)
  moreover have "pv_recorded (pv_populate ext hex es u) q = None" "pv_pruned_keys (pv_populate ext hex es u) = {||}"
      "pv_empty_scalars (pv_populate ext hex es u) = pv_empty_scalars u" for es u q
    unfolding pv_populate_pairs(1) [OF assms(1)] using pv_inserts_frame [OF pv_populate_pairs(2) [OF assms(1)], of "pv_clear u" hex es] by simp_all
  ultimately have "pv_commitment ext pc (pv_populate ext hex entries' t') n p = pv_commitment ext pc (pv_populate ext hex entries t) n p" for n p
    using assms(4) by (intro pv_commitment_cong) simp_all
  then show ?thesis by (simp add: calculate_verkle_root_exact [OF assms(1)] pv_root_def)
qed

text \<open>The derived key has the owner and the output index but not the transaction, so two outputs of different transactions with
  the same owner and index share a leaf: the root of the two is the root of the one that is listed last.\<close>

theorem colliding_outputs_commit_as_one:
  assumes "digest32 ext" and "pubkey_hash out = pubkey_hash out'" and "snd op = snd op'"
  shows "map_option snd (calculate_verkle_root ext pc hex [(op, out), (op', out')] t) =
    map_option snd (calculate_verkle_root ext pc hex [(op', out')] t)"
proof -
  let ?k = "verkle_utxo_key ext hex op' out'"
  have k: "verkle_utxo_key ext hex op out = ?k" using assms(2,3) by (simp add: verkle_utxo_key_def)
  have len: "length ?k = KEY_SIZE" using pv_populate_pairs(2) [OF assms(1), of hex "[(op', out')]"] by (simp add: utxo_pairs_def)
  let ?a = "pv_populate ext hex [(op, out), (op', out')] t" and ?b = "pv_populate ext hex [(op', out')] t"
  have "pv_node_at ?a q = pv_node_at ?b q \<and> pv_recorded ?a q = pv_recorded ?b q" for q
    by (simp add: pv_populate_def k len pv_insert_at [OF len])
  moreover have "pv_pruned_keys ?a = pv_pruned_keys ?b" "pv_empty_scalars ?a = pv_empty_scalars ?b" by (simp_all add: pv_populate_def)
  ultimately have "pv_commitment ext pc ?a n p = pv_commitment ext pc ?b n p" for n p by (intro pv_commitment_cong) simp_all
  then show ?thesis by (simp add: calculate_verkle_root_exact [OF assms(1)] pv_root_def)
qed

text \<open>A proof of absence is accepted with any value hash.\<close>

theorem absence_accepts_any_value:
  "pp_type p = NonMembership \<Longrightarrow> verify_verkle_proof ext pc t root p key v = verify_verkle_proof ext pc t root p key w"
  by (cases "pv_verify_proof ext pc t p") (simp_all add: verify_verkle_proof_def)

section \<open>Witnesses\<close>

theorem pruning_keeps_the_root_witness:
  "\<exists>t0 t'. pv_new demo_hash_ext demo_pc0 memory_storage_new = Some t0 \<and>
     pv_prune_key demo_hash_ext demo_pc0 (pv_insert t0 demo_key [7]) demo_key = Some (t', Inr ()) \<and>
     pv_get (pv_insert t0 demo_key [7]) demo_key = Inr (Some [7]) \<and>
     pv_get t' demo_key = Inl (PrunedData ''Key has been pruned'')"
proof -
  obtain t0 where t0: "pv_new demo_hash_ext demo_pc0 memory_storage_new = Some t0" using pv_new_total [OF demo_pc0_laws] by blast
  have st: "(pv_step demo_hash_ext demo_pc0)\<^sup>*\<^sup>* t0 (pv_insert t0 demo_key [7])"
    by (intro r_into_rtranclp pv_step.insert demo_key_length)
  have ex: "pv_node_exists (pv_insert t0 demo_key [7]) demo_key" by (simp add: pv_node_exists_iff pv_insert_at [OF demo_key_length])
  from pruning_keeps_the_root [OF demo_pc0_laws t0 st demo_key_length ex] t0 pv_get_insert [OF demo_key_length demo_key_length, of "[7]" t0]
  show ?thesis by auto
qed

end
