(* ===== verification/Spec2Isabelle.thy ===== *)
theory Spec2Isabelle
  imports Emission Schnorr Dag Blockchain_State Reward Pow Ghostdag Block_Validation Vm Chain_Reorg Scheduler
    Execution_Witness Mempool Tx_Status Dependency_Graph Orphan_Manager
    Deterministic_Ordering Multi_Index Multi_Queue Core_Integration Selection
    Graph_Conflict Conflict_Graph Gossip_Validation Peer_Routing Pruned_Verkle_Proofs
begin

text \<open>
  A verification development of Klomang, a blockchain node in Rust whose blocks form a DAG: the
  library \<open>klomang-core\<close> (consensus, state, virtual machine) and the node \<open>klomang-node\<close> around it.

  \<^bold>\<open>The program and its theories.\<close> Paths are below \<open>klomang-core/src/core\<close> unless they start with
  \<open>node:\<close>, which stands for \<open>klomang-node/src\<close>.

  \<^item> \<open>Prelude\<close>: the integer operations of Rust (checked, saturating, casts, byte orders) on words of
    their width, results as sums, finite maps and their sums, sorted lists of finite sets.
  \<^item> \<open>Interfaces\<close>: the contracts between components as locales (serializers, stream parsers,
    key-value stores, operations that can be undone), each interpreted in the providing theory.
  \<^item> \<open>Core_Types\<close>, \<open>Transactions\<close>: \<open>crypto/hash.rs\<close>, \<open>errors.rs\<close>, \<open>state/transaction.rs\<close>,
    \<open>state/access_set.rs\<close>.
  \<^item> \<open>Schnorr\<close>: signature hashes and batch verification of \<open>crypto/schnorr.rs\<close>.
  \<^item> \<open>Emission\<close>, \<open>Reward\<close>: \<open>consensus/emission.rs\<close>, \<open>consensus/economic_constants.rs\<close>,
    \<open>consensus/reward.rs\<close>; the supply schedule, its cap and the coinbase.
  \<^item> \<open>Utxo\<close>, \<open>Blockchain_State\<close>: \<open>state/utxo.rs\<close>, \<open>state/mod.rs\<close>; transactions and blocks on the set
    of unspent outputs, with their undo records.
  \<^item> \<open>Dag\<close>, \<open>Ghostdag\<close>, \<open>Block_Validation\<close>: \<open>dag/*.rs\<close>, \<open>consensus/ghostdag.rs\<close>,
    \<open>consensus/ordering.rs\<close>; the block graph, the colouring, the order and the checks of a block.
  \<^item> \<open>Pow\<close>: \<open>pow/*.rs\<close>, \<open>daa/difficulty.rs\<close>; mining and difficulty.
  \<^item> \<open>Storage\<close>, \<open>Verkle\<close>, \<open>Polynomial_Commitment\<close>, \<open>Verkle_Proofs\<close>: \<open>state/storage.rs\<close>,
    \<open>state/v_trie.rs\<close>, \<open>crypto/verkle/polynomial_commitment.rs\<close>; the authenticated state, its
    commitments and its proofs.
  \<^item> \<open>Pruned_Verkle\<close>, \<open>Pruned_Verkle_Proofs\<close>: \<open>crypto/verkle/verkle_tree.rs\<close>; a second tree that records
    commitments when it prunes, its proofs and the root of a set of outputs.
  \<^item> \<open>Vm\<close>: \<open>vm/executor.rs\<close>, \<open>vm/gas_meter.rs\<close>; contracts as trees of host calls
    that pass their raw \<open>i32\<close> arguments over the bytes of the guest's memory.
  \<^item> \<open>State_Manager\<close>, \<open>Chain_Reorg\<close>, \<open>Execution_Witness\<close>: \<open>state_manager.rs\<close>; block application with
    snapshots and undo data, disconnecting and reorganising, the wire format of witnesses.
  \<^item> \<open>Scheduler\<close>: \<open>scheduler/parallel.rs\<close>; grouping of transactions by their access sets.
  \<^item> \<open>Mempool\<close>: \<open>mempool.rs\<close>; the pool of pending transactions.

  \<^item> \<open>Tx_Status\<close>: \<open>node:mempool/status.rs\<close>; the life cycle of a transaction in the node.
  \<^item> \<open>Utxo_Tracker\<close>: \<open>node:mempool/conflict.rs\<close>; claims of pending transactions on outputs.
  \<^item> \<open>Graph_Search\<close>, \<open>Dependency_Graph\<close>: \<open>node:mempool/dependency_graph.rs\<close>; breadth-first search,
    dependencies between pending transactions and their partitions.
  \<^item> \<open>Orphan_Manager\<close>: \<open>node:mempool/orphan_manager.rs\<close>; transactions that wait for their inputs.
  \<^item> \<open>Ordered_Search\<close>, \<open>Float64\<close>: comparisons as a locale, binary search and insertion into sorted
    vectors; rounding of \<open>f64\<close> operations.
  \<^item> \<open>Priority_Ordering\<close>, \<open>Deterministic_Ordering\<close>: \<open>node:mempool/priority_ordering.rs\<close>,
    \<open>node:mempool/deterministic_ordering.rs\<close>; fee buckets and the ordering compared between nodes.
  \<^item> \<open>Multi_Index\<close>, \<open>Multi_Queue\<close>: \<open>node:mempool/multi_dimensional_index.rs\<close>,
    \<open>node:mempool/multi_queue.rs\<close>; queries by fee, age and dependents, and the admission queues.
  \<^item> \<open>Node_Db\<close>: \<open>node:storage/\<close> \<open>cf.rs\<close>, \<open>error.rs\<close>, \<open>schema.rs\<close>, \<open>batch.rs\<close>, \<open>db.rs\<close>; column families, stored
    values and their keys, batches and the operations of the database.
  \<^item> \<open>Node_Cache\<close>: \<open>node:storage/cache.rs\<close>, \<open>node:storage/concurrency.rs\<close>; caches, typed operations, scans and the
    writer thread.
  \<^item> \<open>Node_Store\<close>, \<open>Core_Integration\<close>: \<open>node:storage/\<close> \<open>atomic_write.rs\<close>, \<open>pruning.rs\<close>, \<open>kv_store.rs\<close>, \<open>read_path.rs\<close>,
    \<open>integration.rs\<close>; block commits, pruning and the bridge from the core.
  \<^item> \<open>Selection\<close>: \<open>node:mempool/selection.rs\<close> and of \<open>node:mempool/pool.rs\<close> the entries, the snapshots, the canonical order
    and the selection engine; choosing transactions for a block.
  \<^item> \<open>Ieee_Double\<close>: the type \<open>f64\<close> with its infinities and NaN, rounding to nearest even, comparisons and casts.
  \<^item> \<open>Disjoint_Union\<close>, \<open>Graph_Conflict\<close>: \<open>node:mempool/graph_conflict_ordering.rs\<close> and its integration; union-find,
    the canonical order of transactions with dependencies, groups for parallel execution, block building.
  \<^item> \<open>Conflict_Graph\<close>: \<open>node:mempool/conflict_graph.rs\<close>, \<open>node:mempool/rbf_manager.rs\<close>; conflicts between pending
    transactions and replacement by fee.
  \<^item> \<open>Gossip_Filter\<close>, \<open>Gossip_Validation\<close>: \<open>node:network/messaging/\<close> \<open>spam_filter.rs\<close>, \<open>cache.rs\<close>, \<open>message_filter.rs\<close>,
    \<open>peer_scoring.rs\<close>, \<open>mesh.rs\<close>, \<open>core_validation_hooks.rs\<close>, \<open>validation.rs\<close> and the handler of gossip in
    \<open>node:network/core_network/mod.rs\<close>; what happens to an incoming message and to the score of its sender.
  \<^item> \<open>Peer_Routing\<close>: \<open>node:network/core_network/\<close> \<open>routing.rs\<close>, \<open>protocols.rs\<close>, \<open>peer_id.rs\<close>; the persistent table of peers.

  \<^bold>\<open>How code becomes definitions.\<close> A struct is a record and an enum a datatype; a method is a
  function from the old state to the new one and the result. Unsigned integers are words of their
  width, so additions wrap where the release build wraps; \<open>usize\<close> counters of collections are
  natural numbers. \<open>Result\<close> is a sum with the error on the left, and a panic is \<open>None\<close> of an option
  around it. A \<open>HashMap\<close> is a finite map, and where the code iterates over one the order is an
  argument; a \<open>BTreeSet\<close> is a finite set that is read through its sorted list. The text inside
  formatted error messages is kept as the format string. A finite \<open>f64\<close> is the integer multiple of
  \<open>2\<^sup>-\<^sup>1\<^sup>0\<^sup>7\<^sup>4\<close> that it is, so every operation is exact arithmetic followed by rounding.

  \<^bold>\<open>Parameters.\<close> Code outside the repository enters as arguments: \<open>externals\<close> (blake3 and the curve
  operations of k256, with the law \<open>digest32\<close>: digests have 32 bytes), \<open>pc_ops\<close> (the commitment scheme
  as the tree uses it, with \<open>pc_laws\<close>, which \<open>Polynomial_Commitment\<close> and \<open>Verkle_Proofs\<close> discharge for the
  code's own scheme over an abstract field and group), the wasm engine (a function from bytecode to
  a tree of host calls), RocksDB (\<open>rocksdb\<close> with
  \<open>rocks_laws\<close>: reads are true, writes whole or not at all, iterators ordered), bincode (\<open>bincode_laws\<close>: decoding
  inverts encoding), clocks, and the serialized size of a transaction. Loops that may not end
  are partial functions into options (\<open>mine_loop\<close>, \<open>hash_to_curve_loop\<close>) with theorems that say when
  they return; no fuel is used elsewhere, since the recursions have measures.

  \<^bold>\<open>What is shown.\<close>

  \<^item> Money: applying a transaction is atomic, applying a block of new transactions too, and a
    spend with a new id lowers the total by exactly its fee; emission equals the sum
    of the rewards and stays under the cap; the supply counter of the state manager is the total of
    the UTXO set; undoing restores the state (\<open>Utxo\<close>, \<open>Blockchain_State\<close>, \<open>Emission\<close>, \<open>State_Manager\<close>,
    \<open>Chain_Reorg\<close>).
  \<^item> Consensus: the DAG stays well formed, traversals are exact, the colouring is a partition, the
    topological order is one, the walk along selected parents ends, accepted blocks satisfy every
    rule (\<open>Dag\<close>, \<open>Ghostdag\<close>, \<open>Block_Validation\<close>, \<open>Pow\<close>).
  \<^item> State: the tree refines a map with tombstones, its cached root is the cache-free commitment, in
    every reachable state proofs are complete and, without collisions, sound; contracts are atomic
    and their gas bounded (\<open>Verkle\<close>, \<open>Verkle_Proofs\<close>, \<open>Polynomial_Commitment\<close>, \<open>Vm\<close>). The second tree
    serves the root of its nodes and recorded commitments, pruning keeps that root, and its honest proofs
    are accepted (\<open>Pruned_Verkle\<close>, \<open>Pruned_Verkle_Proofs\<close>).
  \<^item> The manager's invariant holds in every state reached by applying and connecting blocks,
    disconnecting at a positive height, rollbacks, restores, pruning and host writes, and excludes
    panics of the manager; a contract that passes a negative length to a host function makes the
    node panic (\<open>negative_length_panics\<close>), so returning is shown for blocks whose contracts do not
    (\<open>contract_ok\<close>). Disconnecting at height zero and \<open>reorganize_chain\<close> are modelled but are not steps
    of that relation (\<open>Vm\<close>, \<open>State_Manager\<close>, \<open>Chain_Reorg\<close>).
  \<^item> Openings: an honest opening of a non-zero polynomial returns and verifies where the quotient has no
    zero coefficient; opening the zero polynomial panics, so proofs of the tree and the validation
    of the pool that uses them are shown to return where no node on the paths has the zero
    polynomial (\<open>path_openable\<close>).
  \<^item> Pool and scheduler: the pool's index is always exact, selection returns the best transactions,
    validation accepts exactly the transactions whose inputs
    are in the set, have tree keys and pay; schedules are conflict free and deterministic
    (\<open>Mempool\<close>, \<open>Scheduler\<close>).
  \<^item> The node's pools: claims and orphans stay consistent through every history of
    calls, accepted claims are exact, partitions are the connected components while nothing is
    removed, searches end and are exact, eviction takes the transactions it should, and the arrival
    of an output adopts what waits for it, within the documented batch bound that the code ignores (\<open>Utxo_Tracker\<close>, \<open>Dependency_Graph\<close>,
    \<open>Orphan_Manager\<close>, \<open>Tx_Status\<close>).
  \<^item> Ordering between nodes: the fee buckets refine a map, their listing depends on the stored
    transactions alone, and engines with equal contents accept each other's listings, as long as no stored hash is added again
    (\<open>Priority_Ordering\<close>, \<open>Deterministic_Ordering\<close>).
  \<^item> Queries and queues: every query of the index returns exactly the stored transactions of its
    range, and promotion between the admission queues moves the aged transactions within the
    bounds (\<open>Multi_Index\<close>, \<open>Multi_Queue\<close>).
  \<^item> The node's database: block commits are atomic and refine an abstract ledger, the bridge keeps the
    database equal to the core's set of unspent outputs, caches are transparent through every history
    of the layer's own operations (\<open>cache_utxo\<close> and writes below the layer break this:
    \<open>committed_spend_stays_cached\<close>), group commits cannot be observed, scans are exact, keys round-trip
    (\<open>Node_Db\<close>, \<open>Node_Cache\<close>, \<open>Node_Store\<close>, \<open>Core_Integration\<close>).
  \<^item> Block candidates: selection by fee rate or arrival returns the longest prefix within the limits
    and does not depend on the order of the pool, and the check of a candidate accepts exactly the lists without double spends
    (\<open>Selection\<close>).
  \<^item> Conflicts: the canonical order is topological and complete, the parallel groups are the connected
    components of the conflicts, union-find represents the equivalence it is given, cascades remove exactly
    the dependents, a replacement pays more where the required fee does not wrap (\<open>Disjoint_Union\<close>, \<open>Graph_Conflict\<close>, \<open>Conflict_Graph\<close>).
  \<^item> Gossip: the cache of message ids refines a list with a time to live, bursts are limited exactly, mesh
    scores are exact, penalties lead to the grey list for the configured time, a message of another
    node is accepted exactly when it is well formed and signed (own messages are accepted unchecked); the routing table survives restarts
    (\<open>Gossip_Filter\<close>, \<open>Gossip_Validation\<close>, \<open>Peer_Routing\<close>).
  \<^item> Where the code does not do what its comments say, the theorem states what it does: swapped
    proof types on the wire, ignored openings, refused schedules, lost quotient coefficients, claims that a replaced transaction releases,
    buckets that list the worst transaction first, a promotion that can lose a transaction,
    block commits that leave spent outputs in the cache, a pruning that removes nothing,
    a selection that takes double spends, conflicts that ignore the index of the spent output,
    groups called parallel that hold conflicting transactions, a batch limit nobody reads,
    a gossip filter that waits for its own lock, a negative length that panics.

  \<^bold>\<open>Not modelled.\<close> Key generation and signing (random numbers), the wasm engine and the cost table of
  its opcodes, logging, metrics and configuration files, locks (every modelled operation holds its
  lock from start to end), and of the node the tuning and backups of its
  database, the transport, discovery and relay of its network and the rest of its mempool.
\<close>

end
